(* ===== verification/Prelude.thy ===== *)
theory Prelude
  imports Main "HOL-Library.Monad_Syntax"
begin

text \<open>
  Shared vocabulary of the development.

  \<^item> The C++ sources abort the process on a failed \<^verbatim>\<open>assert\<close>, \<^verbatim>\<open>GGML_ASSERT\<close> or
    \<^verbatim>\<open>GGML_ABORT\<close>, and an out-of-range access or a signed overflow has no defined result.
    A function that can do any of these returns an \<open>option\<close>; \<open>None\<close> is that abort.
    Error codes, \<^verbatim>\<open>false\<close> and null pointers that the code returns are ordinary values.
  \<^item> \<open>foldM\<close> is the \<^verbatim>\<open>for\<close> loop over a list of indices with an abortable body.
  \<^item> \<open>wp m Q\<close> says that \<open>m\<close> does not abort and its result satisfies \<open>Q\<close>; \<open>wlp m Q\<close>
    says only that a result, if there is one, satisfies \<open>Q\<close>.
\<close>

named_theorems wp_rules \<open>weakest-precondition equations for the abort monad\<close>

section \<open>Fixed-width signed integers\<close>

definition int32_min :: int where
  "int32_min = - 2147483648"

definition int32_max :: int where
  "int32_max = 2147483647"

definition int32_ok :: "int \<Rightarrow> bool" where
  "int32_ok x \<longleftrightarrow> int32_min \<le> x \<and> x \<le> int32_max"

text \<open>The result of a signed 32-bit operation, \<open>None\<close> when it overflows.\<close>

definition s32 :: "int \<Rightarrow> int option" where
  "s32 x = (if int32_ok x then Some x else None)"

definition guard :: "bool \<Rightarrow> unit option" where
  "guard b = (if b then Some () else None)"

lemma guard_simps [simp]: "guard True = Some ()" "guard False = None"
  by (simp_all add: guard_def)

section \<open>Abort, success and loops\<close>

definition wp :: "'a option \<Rightarrow> ('a \<Rightarrow> bool) \<Rightarrow> bool" where
  "wp m Q = (case m of None \<Rightarrow> False | Some x \<Rightarrow> Q x)"

definition wlp :: "'a option \<Rightarrow> ('a \<Rightarrow> bool) \<Rightarrow> bool" where
  "wlp m Q = (case m of None \<Rightarrow> True | Some x \<Rightarrow> Q x)"

lemma wp_None [wp_rules, simp]: "wp None Q \<longleftrightarrow> False"
  by (simp add: wp_def)

lemma wp_Some [wp_rules, simp]: "wp (Some x) Q \<longleftrightarrow> Q x"
  by (simp add: wp_def)

lemma wp_bind [wp_rules]: "wp (Option.bind m f) Q \<longleftrightarrow> wp m (\<lambda>x. wp (f x) Q)"
  by (cases m) simp_all

lemma wp_guard [wp_rules]: "wp (guard b) Q \<longleftrightarrow> b \<and> Q ()"
  by (cases b) simp_all

lemma wp_s32 [wp_rules]: "wp (s32 x) Q \<longleftrightarrow> int32_ok x \<and> Q x"
  by (simp add: s32_def)

lemma wp_if [wp_rules]: "wp (if b then m else m') Q \<longleftrightarrow> (if b then wp m Q else wp m' Q)"
  by simp

lemma wp_case_prod [wp_rules]: "wp (case p of (a, b) \<Rightarrow> f a b) Q \<longleftrightarrow> (case p of (a, b) \<Rightarrow> wp (f a b) Q)"
  by (simp split: prod.splits)

lemma wp_mono: "wp m Q \<Longrightarrow> (\<And>x. Q x \<Longrightarrow> R x) \<Longrightarrow> wp m R"
  by (cases m) simp_all

lemma wp_conj: "wp m (\<lambda>x. Q x \<and> R x) \<longleftrightarrow> wp m Q \<and> wp m R"
  by (cases m) simp_all

lemma wpD: "wp m Q \<Longrightarrow> \<exists>x. m = Some x \<and> Q x"
  by (cases m) simp_all

lemma wpI: "m = Some x \<Longrightarrow> Q x \<Longrightarrow> wp m Q"
  by simp

lemma wpE:
  assumes "wp m Q"
  obtains x where "m = Some x" and "Q x"
  using wpD [OF assms] by blast

lemma wp_pairD: "wp m (\<lambda>(a, b). a = x \<and> Q a b) \<Longrightarrow> \<exists>b. m = Some (x, b) \<and> Q x b"
  by (cases m) auto

lemma wp_SomeD: "wp m Q \<Longrightarrow> m = Some x \<Longrightarrow> Q x"
  by simp

lemma wlp_simps [simp]: "wlp None Q" "wlp (Some x) Q \<longleftrightarrow> Q x"
  by (simp_all add: wlp_def)

lemma wlp_bind: "wlp (Option.bind m f) Q \<longleftrightarrow> wlp m (\<lambda>x. wlp (f x) Q)"
  by (cases m) simp_all

lemma wp_imp_wlp: "wp m Q \<Longrightarrow> wlp m Q"
  by (cases m) simp_all

fun foldM :: "('a \<Rightarrow> 's \<Rightarrow> 's option) \<Rightarrow> 'a list \<Rightarrow> 's \<Rightarrow> 's option" where
  "foldM f [] s = Some s"
| "foldM f (x # xs) s = Option.bind (f x s) (foldM f xs)"

lemma foldM_append: "foldM f (xs @ ys) s = Option.bind (foldM f xs s) (foldM f ys)"
proof (induction xs arbitrary: s)
  case (Cons x xs)
  then show ?case by (cases "f x s") simp_all
qed simp

text \<open>The loop rule: an invariant indexed by the part of the list already done.\<close>

lemma wp_foldM:
  assumes "P [] s"
    and "\<And>ys x s. \<exists>zs. xs = ys @ x # zs \<Longrightarrow> P ys s \<Longrightarrow> wp (f x s) (P (ys @ [x]))"
  shows "wp (foldM f xs s) (P xs)"
proof -
  have "wp (foldM f zs s) (P (ys @ zs))" if "xs = ys @ zs" "P ys s" for ys zs s
    using that
  proof (induction zs arbitrary: ys s)
    case Nil
    then show ?case by simp
  next
    case (Cons x zs)
    then have "wp (f x s) (P (ys @ [x]))"
      using assms(2) by blast
    then show ?case
      using Cons.IH [of "ys @ [x]"] Cons.prems(1)
      by (auto simp: wp_bind elim!: wp_mono)
  qed
  from this [of "[]" xs s] assms(1) show ?thesis by simp
qed

text \<open>The same over the indices \<open>[0..<n]\<close>, the shape of the sources' counting loops.\<close>

lemma wp_foldM_upt:
  assumes "P 0 s"
    and "\<And>i s. i < n \<Longrightarrow> P i s \<Longrightarrow> wp (f i s) (P (Suc i))"
  shows "wp (foldM f [0..<n] s) (P n)"
proof -
  have "wp (foldM f [0..<n] s) (\<lambda>t. P (length [0..<n]) t)"
  proof (rule wp_foldM [where P = "\<lambda>ys. P (length ys)"])
    show "P (length []) s" using assms(1) by simp
  next
    fix ys x s
    assume "\<exists>zs. [0..<n] = ys @ x # zs" and P: "P (length ys) s"
    then obtain zs where zs: "[0..<n] = ys @ x # zs" by blast
    from arg_cong [where f = length, OF zs] have len: "length ys < n" by simp
    moreover have "x = [0..<n] ! length ys"
      by (simp add: zs)
    with len have "x = length ys" by simp
    ultimately show "wp (f x s) (P (length (ys @ [x])))"
      using assms(2) P by simp
  qed
  then show ?thesis by simp
qed

lemma wp_foldM_inv:
  assumes "P s" and "\<And>x s. x \<in> set xs \<Longrightarrow> P s \<Longrightarrow> wp (f x s) P"
  shows "wp (foldM f xs s) P"
  by (rule wp_foldM [where P = "\<lambda>_. P"]) (use assms in auto)

lemma foldM_split: "foldM f (xs @ ys) s = Some u \<longleftrightarrow> (\<exists>t. foldM f xs s = Some t \<and> foldM f ys t = Some u)"
  by (auto simp: foldM_append split: Option.bind_splits)

text \<open>Loops that end: the invariant may speak of the iterations already done.\<close>

lemma foldM_done:
  assumes "foldM f xs s = Some t" "P [] s"
    and "\<And>ys x s t. \<exists>zs. xs = ys @ x # zs \<Longrightarrow> P ys s \<Longrightarrow> f x s = Some t \<Longrightarrow> P (ys @ [x]) t"
  shows "P xs t"
proof -
  have "P zs t" if "foldM f zs s = Some t" "\<exists>us. xs = zs @ us" for zs t
    using that
  proof (induction zs arbitrary: t rule: rev_induct)
    case Nil
    with assms(2) show ?case by simp
  next
    case (snoc x zs)
    then obtain u where u: "foldM f zs s = Some u" "f x u = Some t" by (auto simp: foldM_split split: Option.bind_splits)
    from snoc.prems(2) have "\<exists>us. xs = zs @ x # us" by simp
    with snoc.IH [OF u(1)] u(2) show ?case by (intro assms(3)) auto
  qed
  with assms(1) show ?thesis by simp
qed

lemma foldM_upt_done:
  assumes "foldM f [0..<n] s = Some t" "P 0 s"
    and "\<And>i s t. i < n \<Longrightarrow> P i s \<Longrightarrow> f i s = Some t \<Longrightarrow> P (Suc i) t"
  shows "P n t"
proof -
  have "P (length [0..<n]) t"
  proof (rule foldM_done [OF assms(1), where P = "\<lambda>ys. P (length ys)"])
    fix ys x s t
    assume "\<exists>zs. [0..<n] = ys @ x # zs" and P: "P (length ys) s" "f x s = Some t"
    then obtain zs where zs: "[0..<n] = ys @ x # zs" by blast
    from arg_cong [where f = length, OF zs] have len: "length ys < n" by simp
    moreover have "x = [0..<n] ! length ys" by (simp add: zs)
    ultimately show "P (length (ys @ [x])) t" using assms(3) P by simp
  qed (use assms(2) in simp)
  then show ?thesis by simp
qed

lemma wlp_foldM_inv:
  assumes "P s" and "\<And>x s. x \<in> set xs \<Longrightarrow> P s \<Longrightarrow> wlp (f x s) P"
  shows "wlp (foldM f xs s) P"
  using assms
proof (induction xs arbitrary: s)
  case Nil
  then show ?case by simp
next
  case (Cons x xs)
  show ?case
  proof (cases "f x s")
    case (Some t)
    with Cons.prems have "P t" by (metis list.set_intros(1) wlp_simps(2))
    with Cons.IH Cons.prems(2) have "wlp (foldM f xs t) P" by simp
    with Some show ?thesis by simp
  qed simp
qed

section \<open>Lists\<close>

lemma nth_list_update_if: "i < length xs \<Longrightarrow> xs[j := v] ! i = (if i = j then v else xs ! i)"
  by (simp add: nth_list_update)

section \<open>Rows of a flat array\<close>

lemma row_lt: "a < m \<Longrightarrow> (j :: nat) < n \<Longrightarrow> a * n + j < m * n"
proof -
  assume "a < m" "j < n"
  then have "a * n + j < Suc a * n" by simp
  also have "\<dots> \<le> m * n" using \<open>a < m\<close> by (intro mult_le_mono1) simp
  finally show ?thesis .
qed

lemma mix_inj: "(j :: nat) < n \<Longrightarrow> j' < n \<Longrightarrow> n * a + j = n * a' + j' \<longleftrightarrow> a = a' \<and> j = j'"
proof
  assume "j < n" "j' < n" "n * a + j = n * a' + j'"
  then have "(n * a + j) div n = (n * a' + j') div n" "n \<noteq> 0" by auto
  with \<open>j < n\<close> \<open>j' < n\<close> have "a = a'" by simp
  with \<open>n * a + j = n * a' + j'\<close> show "a = a' \<and> j = j'" by simp
qed simp

lemma row_split: "(x :: nat) < m * n \<Longrightarrow> \<exists>s < m. \<exists>i < n. x = s * n + i"
  by (metis div_mult_mod_eq less_mult_imp_div_less mod_less_divisor mult_0_right not_less_zero neq0_conv)

lemma stream_row_inj:
  assumes "(i :: nat) < n" "i' < n"
  shows "a * n + i = a' * n + i' \<longleftrightarrow> a = a' \<and> i = i'"
  using mix_inj [OF assms, of a a'] by (simp add: mult.commute)

end
