(* ===== verification/StdMap.thy ===== *)
theory StdMap
  imports Prelude
begin

text \<open>
  The standard library's ordered map, as the key-value cache metadata uses it
  (\<^verbatim>\<open>std::map<llama_pos, int>\<close>): find, element update, erase, and the first and last key.
  It is an association list in strictly increasing key order. The interface the clients rely
  on is the locale \<open>std_map\<close>; \<open>multiplicity_map\<close> extends it to a map that counts how often
  a key was added, which is how \<^verbatim>\<open>llama_kv_cells::seq_pos\<close> is used.
\<close>

type_synonym ('k, 'v) omap = "('k \<times> 'v) list"

fun om_upd :: "'k::linorder \<Rightarrow> 'v \<Rightarrow> ('k, 'v) omap \<Rightarrow> ('k, 'v) omap" where
  "om_upd k v [] = [(k, v)]"
| "om_upd k v ((k', v') # m) =
     (if k < k' then (k, v) # (k', v') # m
      else if k = k' then (k, v) # m
      else (k', v') # om_upd k v m)"

fun om_erase :: "'k::linorder \<Rightarrow> ('k, 'v) omap \<Rightarrow> ('k, 'v) omap" where
  "om_erase k [] = []"
| "om_erase k ((k', v') # m) = (if k = k' then m else (k', v') # om_erase k m)"

definition om_wf :: "('k::linorder, 'v) omap \<Rightarrow> bool" where
  "om_wf m \<longleftrightarrow> sorted_wrt (<) (map fst m)"

text \<open>\<^verbatim>\<open>begin()->first\<close> and \<^verbatim>\<open>rbegin()->first\<close>, for a map that is not empty.\<close>

definition om_first :: "('k, 'v) omap \<Rightarrow> 'k" where
  "om_first m = fst (hd m)"

definition om_last :: "('k, 'v) omap \<Rightarrow> 'k" where
  "om_last m = fst (last m)"

section \<open>The interface\<close>

locale std_map =
  fixes find :: "'m \<Rightarrow> 'k::linorder \<Rightarrow> 'v option"
    and upd :: "'k \<Rightarrow> 'v \<Rightarrow> 'm \<Rightarrow> 'm"
    and erase :: "'k \<Rightarrow> 'm \<Rightarrow> 'm"
    and first :: "'m \<Rightarrow> 'k"
    and final :: "'m \<Rightarrow> 'k"
    and empty :: 'm
    and wf :: "'m \<Rightarrow> bool"
  assumes find_upd: "wf m \<Longrightarrow> find (upd k v m) k' = (if k' = k then Some v else find m k')"
    and find_erase: "wf m \<Longrightarrow> find (erase k m) k' = (if k' = k then None else find m k')"
    and wf_upd: "wf m \<Longrightarrow> wf (upd k v m)"
    and wf_erase: "wf m \<Longrightarrow> wf (erase k m)"
    and find_empty: "find empty k = None"
    and wf_empty: "wf empty"
    and finite_dom: "wf m \<Longrightarrow> finite {k. find m k \<noteq> None}"
    and first_least: "wf m \<Longrightarrow> m \<noteq> empty \<Longrightarrow> find m (first m) \<noteq> None \<and> (\<forall>k. find m k \<noteq> None \<longrightarrow> first m \<le> k)"
    and final_greatest: "wf m \<Longrightarrow> m \<noteq> empty \<Longrightarrow> find m (final m) \<noteq> None \<and> (\<forall>k. find m k \<noteq> None \<longrightarrow> k \<le> final m)"
    and empty_iff: "wf m \<Longrightarrow> m = empty \<longleftrightarrow> (\<forall>k. find m k = None)"
begin

lemma first_eq_Min:
  assumes "wf m" and "m \<noteq> empty"
  shows "first m = Min {k. find m k \<noteq> None}"
  using first_least [OF assms] finite_dom [OF assms(1)]
  by (intro Min_eqI [symmetric]) auto

lemma final_eq_Max:
  assumes "wf m" and "m \<noteq> empty"
  shows "final m = Max {k. find m k \<noteq> None}"
  using final_greatest [OF assms] finite_dom [OF assms(1)]
  by (intro Max_eqI [symmetric]) auto

end

fun om_keys :: "('k, 'v) omap \<Rightarrow> 'k set" where
  "om_keys [] = {}"
| "om_keys ((k, v) # m) = insert k (om_keys m)"

lemma om_keys_eq: "om_keys m = set (map fst m)"
  by (induction m rule: om_keys.induct) simp_all

lemma map_of_None_keys [simp]: "map_of m k = None \<longleftrightarrow> k \<notin> om_keys m"
  by (simp add: om_keys_eq map_of_eq_None_iff)

lemma map_of_Some_keys: "map_of m k = Some v \<Longrightarrow> k \<in> om_keys m"
  by (metis map_of_None_keys option.distinct(1))

lemma om_wf_Nil [simp]: "om_wf []"
  by (simp add: om_wf_def)

lemma om_wf_Cons: "om_wf ((k, v) # m) \<longleftrightarrow> (\<forall>k' \<in> om_keys m. k < k') \<and> om_wf m"
  by (auto simp: om_wf_def om_keys_eq)

lemma om_keys_upd [simp]: "om_keys (om_upd k v m) = insert k (om_keys m)"
  by (induction k v m rule: om_upd.induct) auto

lemma om_keys_erase: "k' \<in> om_keys (om_erase k m) \<Longrightarrow> k' \<in> om_keys m"
  by (induction k m rule: om_erase.induct) (auto split: if_splits)

lemma om_wf_upd: "om_wf m \<Longrightarrow> om_wf (om_upd k v m)"
  by (induction k v m rule: om_upd.induct) (auto simp: om_wf_Cons)

lemma om_wf_erase: "om_wf m \<Longrightarrow> om_wf (om_erase k m)"
  by (induction k m rule: om_erase.induct) (auto simp: om_wf_Cons dest: om_keys_erase)

lemma map_of_om_upd: "om_wf m \<Longrightarrow> map_of (om_upd k v m) k' = (if k' = k then Some v else map_of m k')"
  by (induction k v m rule: om_upd.induct) (auto simp: om_wf_Cons)

lemma map_of_om_erase: "om_wf m \<Longrightarrow> map_of (om_erase k m) k' = (if k' = k then None else map_of m k')"
  by (induction k m rule: om_erase.induct) (auto simp: om_wf_Cons)

lemma om_first_least:
  assumes "om_wf m" and "m \<noteq> []"
  shows "om_first m \<in> om_keys m \<and> (\<forall>k \<in> om_keys m. om_first m \<le> k)"
  using assms by (cases m rule: om_keys.cases) (auto simp: om_first_def om_wf_Cons)

lemma om_last_greatest:
  assumes "om_wf m" and "m \<noteq> []"
  shows "om_last m \<in> om_keys m \<and> (\<forall>k \<in> om_keys m. k \<le> om_last m)"
proof -
  from assms(2) obtain m' p where m: "m = m' @ [p]" by (metis append_butlast_last_id)
  with assms(1) have "\<forall>k \<in> set (map fst m'). k < fst p"
    by (auto simp: om_wf_def sorted_wrt_append)
  with m show ?thesis
    by (auto simp: om_last_def om_keys_eq)
qed

interpretation om: std_map map_of om_upd om_erase om_first om_last "[] :: ('k::linorder, 'v) omap" om_wf
proof
  show "finite {k. map_of m k \<noteq> None}" for m :: "('k, 'v) omap"
    using finite_dom_map_of [of m] by (simp add: dom_def)
  show "m = [] \<longleftrightarrow> (\<forall>k. map_of m k = None)" for m :: "('k, 'v) omap"
    by (cases m rule: om_keys.cases) auto
qed (auto simp: map_of_om_upd map_of_om_erase om_wf_upd om_wf_erase om_first_least om_last_greatest)

text \<open>The representation is canonical: a well-formed map is determined by what it finds.\<close>

lemma om_ext:
  assumes "om_wf m" and "om_wf m'" and "map_of m = map_of m'"
  shows "m = m'"
proof -
  have sd: "sorted (map fst x) \<and> distinct (map fst x)" if "om_wf x" for x :: "('k::linorder, 'v) omap"
    using that by (simp add: om_wf_def strict_sorted_iff)
  from assms sd have "set m = set m'"
    by (metis map_of_inject_set)
  with assms sd show ?thesis
    by (intro map_sorted_distinct_set_unique [where f = fst]) (auto simp: distinct_map)
qed

section \<open>Multiplicities\<close>

text \<open>\<^verbatim>\<open>m[k]++\<close>: a missing key is created with the value 0 first.\<close>

definition om_inc :: "'k::linorder \<Rightarrow> ('k, int) omap \<Rightarrow> ('k, int) omap" where
  "om_inc k m = om_upd k ((case map_of m k of None \<Rightarrow> 0 | Some n \<Rightarrow> n) + 1) m"

text \<open>\<^verbatim>\<open>if (--it->second == 0) erase(it)\<close> after an asserted find.\<close>

definition om_dec :: "'k::linorder \<Rightarrow> ('k, int) omap \<Rightarrow> ('k, int) omap option" where
  "om_dec k m =
     (case map_of m k of
        None \<Rightarrow> None
      | Some n \<Rightarrow> Some (if n - 1 = 0 then om_erase k m else om_upd k (n - 1) m))"

definition om_count :: "('k, int) omap \<Rightarrow> 'k \<Rightarrow> int" where
  "om_count m k = (case map_of m k of None \<Rightarrow> 0 | Some n \<Rightarrow> n)"

text \<open>Well-formed as a map, and every stored multiplicity is positive.\<close>

definition om_mwf :: "('k::linorder, int) omap \<Rightarrow> bool" where
  "om_mwf m \<longleftrightarrow> om_wf m \<and> (\<forall>k n. map_of m k = Some n \<longrightarrow> 0 < n)"

locale multiplicity_map =
  fixes count :: "'m \<Rightarrow> 'k::linorder \<Rightarrow> int"
    and inc :: "'k \<Rightarrow> 'm \<Rightarrow> 'm"
    and dec :: "'k \<Rightarrow> 'm \<Rightarrow> 'm option"
    and first :: "'m \<Rightarrow> 'k"
    and final :: "'m \<Rightarrow> 'k"
    and empty :: 'm
    and wf :: "'m \<Rightarrow> bool"
  assumes count_inc: "wf m \<Longrightarrow> count (inc k m) k' = count m k' + (if k' = k then 1 else 0)"
    and wf_inc: "wf m \<Longrightarrow> wf (inc k m)"
    and dec_ok: "wf m \<Longrightarrow> 0 < count m k \<Longrightarrow>
      \<exists>m'. dec k m = Some m' \<and> wf m' \<and> (\<forall>k'. count m' k' = count m k' - (if k' = k then 1 else 0))"
    and dec_abort: "wf m \<Longrightarrow> count m k \<le> 0 \<Longrightarrow> dec k m = None"
    and count_nonneg: "wf m \<Longrightarrow> 0 \<le> count m k"
    and wf_none: "wf empty"
    and count_none: "count empty k = 0"
    and none_iff: "wf m \<Longrightarrow> m = empty \<longleftrightarrow> (\<forall>k. count m k = 0)"
    and support_finite: "wf m \<Longrightarrow> finite {k. 0 < count m k}"
    and first_Min: "wf m \<Longrightarrow> m \<noteq> empty \<Longrightarrow> first m = Min {k. 0 < count m k}"
    and final_Max: "wf m \<Longrightarrow> m \<noteq> empty \<Longrightarrow> final m = Max {k. 0 < count m k}"
begin

text \<open>Adding a key and removing it again restores every multiplicity.\<close>

lemma dec_inc:
  assumes "wf m"
  shows "\<exists>m'. dec k (inc k m) = Some m' \<and> wf m' \<and> (\<forall>k'. count m' k' = count m k')"
proof -
  from assms have "0 < count (inc k m) k"
    using count_nonneg [OF assms, of k] by (simp add: count_inc)
  with assms show ?thesis
    using dec_ok [OF wf_inc [OF assms], of k k] by (auto simp: count_inc)
qed

lemma count_pos_iff: "wf m \<Longrightarrow> 0 < count m k \<longleftrightarrow> count m k \<noteq> 0"
  using count_nonneg [of m k] by auto

lemma support_nonempty:
  assumes "wf m" and "m \<noteq> empty"
  shows "{k. 0 < count m k} \<noteq> {}"
  using none_iff [OF assms(1)] assms(2) by (auto simp: count_pos_iff [OF assms(1)])

lemma first_le_final:
  assumes "wf m" and "m \<noteq> empty"
  shows "first m \<le> final m"
proof -
  from support_nonempty [OF assms] obtain k where "k \<in> {k. 0 < count m k}" by blast
  then have "Min {k. 0 < count m k} \<le> k" and "k \<le> Max {k. 0 < count m k}"
    using support_finite [OF assms(1)] by simp_all
  then show ?thesis using first_Min [OF assms] final_Max [OF assms] by simp
qed

end

lemma om_count_pos: "om_mwf m \<Longrightarrow> 0 < om_count m k \<longleftrightarrow> map_of m k \<noteq> None"
  by (auto simp: om_mwf_def om_count_def dest: map_of_Some_keys split: option.splits)

lemma om_mult_ext:
  assumes "om_mwf m" and "om_mwf m'" and "\<And>k. om_count m k = om_count m' k"
  shows "m = m'"
proof (rule om_ext)
  show "om_wf m" "om_wf m'" using assms by (simp_all add: om_mwf_def)
  show "map_of m = map_of m'"
  proof
    fix k
    have "om_count m k = om_count m' k" by (rule assms(3))
    moreover have "0 < n" if "map_of m k = Some n \<or> map_of m' k = Some n" for n
      using that assms(1,2) by (auto simp: om_mwf_def)
    ultimately show "map_of m k = map_of m' k"
      by (cases "map_of m k"; cases "map_of m' k") (auto simp: om_count_def simp del: map_of_None_keys)
  qed
qed

lemma om_mwf_erase: "om_mwf m \<Longrightarrow> om_mwf (om_erase k m)"
  by (simp add: om_mwf_def om_wf_erase map_of_om_erase)

lemma om_mwf_upd: "om_mwf m \<Longrightarrow> 0 < n \<Longrightarrow> om_mwf (om_upd k n m)"
  by (simp add: om_mwf_def om_wf_upd map_of_om_upd)

interpretation om_mult: multiplicity_map om_count om_inc om_dec om_first om_last "[] :: ('k::linorder, int) omap" om_mwf
proof
  fix m :: "('k, int) omap" and k k'
  assume wf: "om_mwf m"
  then have owf: "om_wf m" by (simp add: om_mwf_def)
  show "om_count (om_inc k m) k' = om_count m k' + (if k' = k then 1 else 0)"
    by (simp add: om_inc_def om_count_def map_of_om_upd [OF owf])
  show nonneg: "0 \<le> om_count m k"
    using wf by (fastforce simp: om_mwf_def om_count_def split: option.splits)
  then show "om_mwf (om_inc k m)"
    unfolding om_inc_def using wf by (intro om_mwf_upd) (simp_all add: om_count_def)
  show "m = [] \<longleftrightarrow> (\<forall>k. om_count m k = 0)"
    using wf om.empty_iff [OF owf] by (fastforce simp: om_mwf_def om_count_def split: option.splits)
  show "finite {k. 0 < om_count m k}"
    using om.finite_dom [OF owf] by (simp add: om_count_pos [OF wf])
  show "om_dec k m = None" if "om_count m k \<le> 0"
    using that om_count_pos [OF wf, of k] by (auto simp: om_dec_def split: option.splits)
  show "\<exists>m'. om_dec k m = Some m' \<and> om_mwf m' \<and>
          (\<forall>k'. om_count m' k' = om_count m k' - (if k' = k then 1 else 0))" if "0 < om_count m k"
  proof -
    from that obtain n where n: "map_of m k = Some n" "0 < n"
      by (auto simp: om_count_def split: option.splits)
    with wf owf show ?thesis
      by (auto simp: om_dec_def om_count_def map_of_om_upd map_of_om_erase om_mwf_erase om_mwf_upd
            split: option.splits)
  qed
  assume "m \<noteq> []"
  then show "om_first m = Min {k. 0 < om_count m k}" "om_last m = Max {k. 0 < om_count m k}"
    using om.first_eq_Min [OF owf] om.final_eq_Max [OF owf] by (simp_all add: om_count_pos [OF wf])
qed (simp_all add: om_mwf_def om_count_def)

end
