(* ===== verification/KvCells.thy ===== *)
theory KvCells
  imports StdMap "HOL-Library.Signed_Division"
begin

text \<open>
  The metadata of the key-value cache cells: \<^verbatim>\<open>class llama_kv_cells\<close> of
  \<^verbatim>\<open>src/src/llama-kv-cells.h\<close>. Each cell has a position (\<open>-1\<close> when the cell is empty), an
  accumulated shift and a set of sequence ids; the class also keeps three derived indexes: the
  set of used cells, and for every sequence an ordered map from positions to the number of
  cells that hold them. \<open>cells_inv\<close> states that the indexes agree with the cells; every
  operation keeps it, and from it the queries answered from the indexes are the ones a scan of
  the cells would give.

  \<^verbatim>\<open>assert\<close> failures, out-of-range accesses, \<^verbatim>\<open>std::bitset\<close> range errors, signed overflow of
  a position and division by zero are the result \<open>None\<close>. Cell indexes and sequence ids are
  \<open>nat\<close>, positions and shifts are \<open>int\<close> within 32 bits.
\<close>

section \<open>State\<close>

definition LLAMA_MAX_SEQ :: nat where
  "LLAMA_MAX_SEQ = 256"

record kv_cells =
  kc_has_shift :: bool
  kc_used :: "nat set"
  kc_pos :: "int list"
  kc_shift :: "int list"
  kc_seq :: "nat set list"
  kc_seq_pos :: "(int, int) omap list"

definition cells_new :: kv_cells where
  "cells_new = \<lparr>kc_has_shift = False, kc_used = {}, kc_pos = [], kc_shift = [], kc_seq = [],
     kc_seq_pos = replicate LLAMA_MAX_SEQ []\<rparr>"

text \<open>\<^verbatim>\<open>std::bitset<LLAMA_MAX_SEQ>\<close>: the element operations throw out of range.\<close>

definition bitset_test :: "nat set \<Rightarrow> nat \<Rightarrow> bool option" where
  "bitset_test S s = (if s < LLAMA_MAX_SEQ then Some (s \<in> S) else None)"

definition bitset_set :: "nat set \<Rightarrow> nat \<Rightarrow> nat set option" where
  "bitset_set S s = (if s < LLAMA_MAX_SEQ then Some (insert s S) else None)"

definition bitset_unset :: "nat set \<Rightarrow> nat \<Rightarrow> nat set option" where
  "bitset_unset S s = (if s < LLAMA_MAX_SEQ then Some (S - {s}) else None)"

section \<open>Operations\<close>

subsection \<open>The position index of each sequence\<close>

definition cells_seq_pos_dec :: "nat \<Rightarrow> int \<Rightarrow> kv_cells \<Rightarrow> kv_cells option" where
  "cells_seq_pos_dec s p c = do {
     m \<leftarrow> om_dec p (kc_seq_pos c ! s);
     Some (c\<lparr>kc_seq_pos := (kc_seq_pos c)[s := m]\<rparr>)
   }"

definition cells_seq_pos_inc :: "nat \<Rightarrow> int \<Rightarrow> kv_cells \<Rightarrow> kv_cells" where
  "cells_seq_pos_inc s p c = c\<lparr>kc_seq_pos := (kc_seq_pos c)[s := om_inc p (kc_seq_pos c ! s)]\<rparr>"

definition cells_seq_pos_rm :: "nat \<Rightarrow> kv_cells \<Rightarrow> kv_cells option" where
  "cells_seq_pos_rm i c =
     foldM (\<lambda>s c. if s \<in> kc_seq c ! i then cells_seq_pos_dec s (kc_pos c ! i) c else Some c)
       [0..<LLAMA_MAX_SEQ] c"

definition cells_seq_pos_add :: "nat \<Rightarrow> kv_cells \<Rightarrow> kv_cells" where
  "cells_seq_pos_add i c =
     fold (\<lambda>s c. if s \<in> kc_seq c ! i then cells_seq_pos_inc s (kc_pos c ! i) c else c)
       [0..<LLAMA_MAX_SEQ] c"

subsection \<open>Whole-object operations\<close>

definition cells_reset :: "kv_cells \<Rightarrow> kv_cells" where
  "cells_reset c = c\<lparr>
     kc_pos := map (\<lambda>_. - 1) (kc_pos c),
     kc_shift := map (\<lambda>_. 0) (kc_shift c),
     kc_seq := map (\<lambda>_. {}) (kc_seq c),
     kc_has_shift := False,
     kc_used := {},
     kc_seq_pos := map (\<lambda>_. []) (kc_seq_pos c)\<rparr>"

definition cells_reset_shift :: "kv_cells \<Rightarrow> kv_cells" where
  "cells_reset_shift c = c\<lparr>kc_has_shift := False, kc_shift := map (\<lambda>_. 0) (kc_shift c)\<rparr>"

definition cells_size :: "kv_cells \<Rightarrow> nat" where
  "cells_size c = length (kc_pos c)"

text \<open>\<^verbatim>\<open>std::vector::resize\<close>.\<close>

definition vec_resize :: "nat \<Rightarrow> 'a \<Rightarrow> 'a list \<Rightarrow> 'a list" where
  "vec_resize n x xs = take n xs @ replicate (n - length xs) x"

definition cells_resize :: "nat \<Rightarrow> kv_cells \<Rightarrow> kv_cells" where
  "cells_resize n c = cells_reset (c\<lparr>
     kc_pos := vec_resize n 0 (kc_pos c),
     kc_shift := vec_resize n 0 (kc_shift c),
     kc_seq := vec_resize n {} (kc_seq c)\<rparr>)"

subsection \<open>Queries\<close>

definition cells_is_empty :: "nat \<Rightarrow> kv_cells \<Rightarrow> bool option" where
  "cells_is_empty i c = do {
     guard (i < length (kc_pos c));
     guard ((kc_pos c ! i < 0 \<and> kc_pos c ! i = - 1) \<or> kc_pos c ! i \<ge> 0);
     Some (kc_pos c ! i = - 1)
   }"

definition cells_get_used :: "kv_cells \<Rightarrow> nat" where
  "cells_get_used c = card (kc_used c)"

definition cells_used_min :: "kv_cells \<Rightarrow> nat" where
  "cells_used_min c = (if kc_used c = {} then 0 else Min (kc_used c))"

definition cells_used_max_p1 :: "kv_cells \<Rightarrow> nat" where
  "cells_used_max_p1 c = (if kc_used c = {} then 0 else Max (kc_used c) + 1)"

definition cells_get_has_shift :: "kv_cells \<Rightarrow> bool" where
  "cells_get_has_shift c = kc_has_shift c"

definition cells_seq_count :: "nat \<Rightarrow> kv_cells \<Rightarrow> nat option" where
  "cells_seq_count i c = do {
     guard (i < length (kc_pos c));
     guard (kc_pos c ! i \<noteq> - 1);
     Some (card (kc_seq c ! i))
   }"

definition cells_seq_has :: "nat \<Rightarrow> nat \<Rightarrow> kv_cells \<Rightarrow> bool option" where
  "cells_seq_has i s c = do {
     guard (i < length (kc_pos c));
     bitset_test (kc_seq c ! i) s
   }"

definition cells_seq_get :: "nat \<Rightarrow> kv_cells \<Rightarrow> int option" where
  "cells_seq_get i c = do {
     guard (i < length (kc_seq c));
     guard (card (kc_seq c ! i) = 1);
     Some (case find (\<lambda>s. s \<in> kc_seq c ! i) [0..<LLAMA_MAX_SEQ] of Some s \<Rightarrow> int s | None \<Rightarrow> - 1)
   }"

text \<open>
  The asserted positivity of the stored multiplicity is part of the query: in a debug build a
  stale entry aborts.
\<close>

definition cells_seq_pos_min :: "nat \<Rightarrow> kv_cells \<Rightarrow> int option" where
  "cells_seq_pos_min s c = do {
     guard (s < LLAMA_MAX_SEQ);
     if kc_seq_pos c ! s = [] then Some (- 1)
     else do {
       guard (snd (hd (kc_seq_pos c ! s)) > 0);
       Some (om_first (kc_seq_pos c ! s))
     }
   }"

definition cells_seq_pos_max :: "nat \<Rightarrow> kv_cells \<Rightarrow> int option" where
  "cells_seq_pos_max s c = do {
     guard (s < LLAMA_MAX_SEQ);
     if kc_seq_pos c ! s = [] then Some (- 1)
     else do {
       guard (snd (last (kc_seq_pos c ! s)) > 0);
       Some (om_last (kc_seq_pos c ! s))
     }
   }"

definition cells_pos_get :: "nat \<Rightarrow> kv_cells \<Rightarrow> int option" where
  "cells_pos_get i c = do {
     guard (i < length (kc_pos c));
     guard (kc_pos c ! i \<noteq> - 1);
     Some (kc_pos c ! i)
   }"

definition cells_get_shift :: "nat \<Rightarrow> kv_cells \<Rightarrow> int option" where
  "cells_get_shift i c = do {
     guard (i < length (kc_pos c));
     guard (kc_pos c ! i \<noteq> - 1);
     Some (kc_shift c ! i)
   }"

definition cells_pos_in :: "nat \<Rightarrow> int \<Rightarrow> int \<Rightarrow> kv_cells \<Rightarrow> bool option" where
  "cells_pos_in i p0 p1 c = do {
     guard (i < length (kc_pos c));
     Some (kc_pos c ! i \<ge> p0 \<and> kc_pos c ! i < p1)
   }"

subsection \<open>Copying out and restoring\<close>

definition cells_cp_one :: "kv_cells \<Rightarrow> nat \<Rightarrow> nat \<Rightarrow> kv_cells \<Rightarrow> kv_cells option" where
  "cells_cp_one c j idx res = do {
     guard (idx < length (kc_pos c));
     guard (kc_shift c ! idx = 0);
     Some (res\<lparr>kc_pos := (kc_pos res)[j := kc_pos c ! idx], kc_seq := (kc_seq res)[j := kc_seq c ! idx]\<rparr>)
   }"

definition cells_cp_range :: "nat \<Rightarrow> nat \<Rightarrow> kv_cells \<Rightarrow> kv_cells option" where
  "cells_cp_range i n c = do {
     guard (i + n \<le> length (kc_pos c));
     foldM (\<lambda>j res. cells_cp_one c j (i + j) res) [0..<n] (cells_resize n cells_new)
   }"

definition cells_cp_idxs :: "nat list \<Rightarrow> kv_cells \<Rightarrow> kv_cells option" where
  "cells_cp_idxs idxs c =
     foldM (\<lambda>j res. cells_cp_one c j (idxs ! j) res) [0..<length idxs] (cells_resize (length idxs) cells_new)"

definition cells_set_one :: "nat \<Rightarrow> int \<Rightarrow> nat set \<Rightarrow> kv_cells \<Rightarrow> kv_cells option" where
  "cells_set_one idx p S c = do {
     guard (idx < length (kc_pos c));
     let c1 = (if kc_pos c ! idx = - 1 \<and> p \<noteq> - 1 then c\<lparr>kc_used := insert idx (kc_used c)\<rparr> else c);
     let c2 = (if kc_pos c1 ! idx \<noteq> - 1 \<and> p = - 1 then c1\<lparr>kc_used := kc_used c1 - {idx}\<rparr> else c1);
     c3 \<leftarrow> (if kc_pos c2 ! idx \<noteq> - 1 then cells_seq_pos_rm idx c2 else Some c2);
     let c4 = c3\<lparr>kc_pos := (kc_pos c3)[idx := p], kc_seq := (kc_seq c3)[idx := S]\<rparr>;
     let c5 = (if p \<noteq> - 1 then cells_seq_pos_add idx c4 else c4);
     guard (kc_shift c5 ! idx = 0);
     Some c5
   }"

definition cells_set_range :: "nat \<Rightarrow> kv_cells \<Rightarrow> kv_cells \<Rightarrow> kv_cells option" where
  "cells_set_range i other c = do {
     guard (i + length (kc_pos other) \<le> length (kc_pos c));
     foldM (\<lambda>j c. cells_set_one (i + j) (kc_pos other ! j) (kc_seq other ! j) c) [0..<length (kc_pos other)] c
   }"

definition cells_set_idxs :: "nat list \<Rightarrow> kv_cells \<Rightarrow> kv_cells \<Rightarrow> kv_cells option" where
  "cells_set_idxs idxs other c = do {
     guard (length idxs = length (kc_pos other));
     foldM (\<lambda>j c. cells_set_one (idxs ! j) (kc_pos other ! j) (kc_seq other ! j) c) [0..<length (kc_pos other)] c
   }"

subsection \<open>Removing and adding\<close>

definition cells_rm :: "nat \<Rightarrow> kv_cells \<Rightarrow> kv_cells option" where
  "cells_rm i c = do {
     guard (i < length (kc_pos c));
     guard (kc_pos c ! i \<noteq> - 1);
     c1 \<leftarrow> cells_seq_pos_rm i c;
     Some (c1\<lparr>kc_seq := (kc_seq c1)[i := {}],
              kc_pos := (kc_pos c1)[i := - 1],
              kc_shift := (kc_shift c1)[i := 0],
              kc_used := kc_used c1 - {i}\<rparr>)
   }"

definition cells_seq_rm :: "nat \<Rightarrow> nat \<Rightarrow> kv_cells \<Rightarrow> (bool \<times> kv_cells) option" where
  "cells_seq_rm i s c = do {
     guard (i < length (kc_pos c));
     b \<leftarrow> bitset_test (kc_seq c ! i) s;
     guard b;
     guard (kc_pos c ! i \<noteq> - 1);
     S \<leftarrow> bitset_unset (kc_seq c ! i) s;
     c1 \<leftarrow> cells_seq_pos_dec s (kc_pos c ! i) (c\<lparr>kc_seq := (kc_seq c)[i := S]\<rparr>);
     if kc_seq c1 ! i = {} then
       Some (True, c1\<lparr>kc_pos := (kc_pos c1)[i := - 1],
                      kc_shift := (kc_shift c1)[i := 0],
                      kc_used := kc_used c1 - {i}\<rparr>)
     else Some (False, c1)
   }"

definition cells_seq_keep :: "nat \<Rightarrow> nat \<Rightarrow> kv_cells \<Rightarrow> (bool \<times> kv_cells) option" where
  "cells_seq_keep i s c = do {
     guard (i < length (kc_pos c));
     b \<leftarrow> bitset_test (kc_seq c ! i) s;
     if b then do {
       c1 \<leftarrow> cells_seq_pos_rm i c;
       S \<leftarrow> bitset_set {} s;
       Some (False, cells_seq_pos_inc s (kc_pos c1 ! i) (c1\<lparr>kc_seq := (kc_seq c1)[i := S]\<rparr>))
     }
     else if kc_seq c ! i \<noteq> {} then do {
       c1 \<leftarrow> cells_seq_pos_rm i c;
       Some (True, c1\<lparr>kc_seq := (kc_seq c1)[i := {}],
                      kc_pos := (kc_pos c1)[i := - 1],
                      kc_shift := (kc_shift c1)[i := 0],
                      kc_used := kc_used c1 - {i}\<rparr>)
     }
     else do {
       guard (kc_pos c ! i = - 1);
       Some (False, c)
     }
   }"

definition cells_seq_add :: "nat \<Rightarrow> nat \<Rightarrow> kv_cells \<Rightarrow> kv_cells option" where
  "cells_seq_add i s c = do {
     guard (i < length (kc_pos c));
     guard (kc_pos c ! i \<noteq> - 1);
     b \<leftarrow> bitset_test (kc_seq c ! i) s;
     guard (\<not> b);
     S \<leftarrow> bitset_set (kc_seq c ! i) s;
     Some (cells_seq_pos_inc s (kc_pos c ! i) (c\<lparr>kc_seq := (kc_seq c)[i := S]\<rparr>))
   }"

definition cells_pos_set :: "nat \<Rightarrow> int \<Rightarrow> kv_cells \<Rightarrow> kv_cells option" where
  "cells_pos_set i p c = do {
     guard (i < length (kc_pos c));
     guard (kc_pos c ! i = - 1);
     guard (kc_seq c ! i = {});
     Some (c\<lparr>kc_pos := (kc_pos c)[i := p], kc_used := insert i (kc_used c)\<rparr>)
   }"

subsection \<open>Shifting positions\<close>

definition cells_pos_add :: "nat \<Rightarrow> int \<Rightarrow> kv_cells \<Rightarrow> (bool \<times> kv_cells) option" where
  "cells_pos_add i d c = do {
     guard (i < length (kc_pos c));
     guard (kc_pos c ! i \<noteq> - 1);
     c1 \<leftarrow> cells_seq_pos_rm i c;
     p \<leftarrow> s32 (kc_pos c1 ! i + d);
     sh \<leftarrow> s32 (kc_shift c1 ! i + d);
     let c2 = c1\<lparr>kc_pos := (kc_pos c1)[i := p], kc_shift := (kc_shift c1)[i := sh], kc_has_shift := True\<rparr>;
     if kc_pos c2 ! i < 0 then
       Some (True, c2\<lparr>kc_seq := (kc_seq c2)[i := {}],
                      kc_pos := (kc_pos c2)[i := - 1],
                      kc_shift := (kc_shift c2)[i := 0],
                      kc_used := kc_used c2 - {i}\<rparr>)
     else Some (False, cells_seq_pos_add i c2)
   }"

definition cells_pos_div :: "nat \<Rightarrow> int \<Rightarrow> kv_cells \<Rightarrow> kv_cells option" where
  "cells_pos_div i d c = do {
     guard (i < length (kc_pos c));
     guard (kc_pos c ! i \<noteq> - 1);
     let p_old = kc_pos c ! i;
     c1 \<leftarrow> cells_seq_pos_rm i c;
     guard (d \<noteq> 0);
     p \<leftarrow> s32 (kc_pos c1 ! i sdiv d);
     df \<leftarrow> s32 (p_old - p);
     sh \<leftarrow> s32 (kc_shift c1 ! i + df);
     let c2 = c1\<lparr>kc_pos := (kc_pos c1)[i := p], kc_shift := (kc_shift c1)[i := sh]\<rparr>;
     let c3 = cells_seq_pos_add i c2;
     Some (c3\<lparr>kc_has_shift := True\<rparr>)
   }"

section \<open>The invariant\<close>

text \<open>How many cells hold position \<open>p\<close> of sequence \<open>s\<close>.\<close>

definition cells_cnt :: "int list \<Rightarrow> nat set list \<Rightarrow> nat \<Rightarrow> int \<Rightarrow> int" where
  "cells_cnt ps ss s p = int (card {i. i < length ps \<and> s \<in> ss ! i \<and> ps ! i = p})"

definition cell_ok :: "int \<Rightarrow> int \<Rightarrow> nat set \<Rightarrow> bool" where
  "cell_ok p sh S \<longleftrightarrow> - 1 \<le> p \<and> p \<le> int32_max \<and> (p = - 1 \<longrightarrow> S = {} \<and> sh = 0) \<and> S \<subseteq> {..<LLAMA_MAX_SEQ}"

text \<open>The position indexes \<open>M\<close> hold exactly the multiplicities \<open>f\<close>.\<close>

definition sp_counts :: "(int, int) omap list \<Rightarrow> (nat \<Rightarrow> int \<Rightarrow> int) \<Rightarrow> bool" where
  "sp_counts M f \<longleftrightarrow> length M = LLAMA_MAX_SEQ \<and>
     (\<forall>s < LLAMA_MAX_SEQ. om_mwf (M ! s) \<and> (\<forall>p. om_count (M ! s) p = f s p))"

definition cells_inv :: "kv_cells \<Rightarrow> bool" where
  "cells_inv c \<longleftrightarrow>
     length (kc_shift c) = length (kc_pos c) \<and>
     length (kc_seq c) = length (kc_pos c) \<and>
     kc_used c = {i. i < length (kc_pos c) \<and> kc_pos c ! i \<noteq> - 1} \<and>
     (\<forall>i < length (kc_pos c). cell_ok (kc_pos c ! i) (kc_shift c ! i) (kc_seq c ! i)) \<and>
     sp_counts (kc_seq_pos c) (cells_cnt (kc_pos c) (kc_seq c)) \<and>
     (\<not> kc_has_shift c \<longrightarrow> (\<forall>i < length (kc_pos c). kc_shift c ! i = 0))"

named_theorems cells_defs \<open>definitions of the cell operations\<close>

declare cells_rm_def [cells_defs] cells_seq_rm_def [cells_defs] cells_seq_keep_def [cells_defs]
  cells_seq_add_def [cells_defs] cells_pos_set_def [cells_defs] cells_pos_add_def [cells_defs]
  cells_pos_div_def [cells_defs] cells_set_one_def [cells_defs]
  bitset_test_def [cells_defs] bitset_set_def [cells_defs] bitset_unset_def [cells_defs]

lemma cells_cnt_put:
  assumes "i < length ps" and "length ss = length ps"
  shows "cells_cnt (ps[i := q]) (ss[i := S]) s p =
    cells_cnt ps ss s p - of_bool (s \<in> ss ! i \<and> p = ps ! i) + of_bool (s \<in> S \<and> p = q)"
proof -
  let ?A = "{j. j < length ps \<and> j \<noteq> i \<and> s \<in> ss ! j \<and> ps ! j = p}"
  have old: "{j. j < length ps \<and> s \<in> ss ! j \<and> ps ! j = p} =
      (if s \<in> ss ! i \<and> p = ps ! i then insert i ?A else ?A)"
    using assms by auto
  have new: "{j. j < length (ps[i := q]) \<and> s \<in> ss[i := S] ! j \<and> ps[i := q] ! j = p} =
      (if s \<in> S \<and> p = q then insert i ?A else ?A)"
    using assms by (auto simp: nth_list_update_if split: if_splits)
  show ?thesis
    unfolding cells_cnt_def old new by simp
qed

lemma cells_cnt_pos:
  assumes "i < length ps" and "s \<in> ss ! i"
  shows "0 < cells_cnt ps ss s (ps ! i)"
proof -
  have "{j. j < length ps \<and> s \<in> ss ! j \<and> ps ! j = ps ! i} \<noteq> {}"
    using assms by auto
  then show ?thesis by (simp add: cells_cnt_def card_gt_0_iff)
qed

lemma sp_countsI:
  "length M = LLAMA_MAX_SEQ \<Longrightarrow> (\<And>s. s < LLAMA_MAX_SEQ \<Longrightarrow> om_mwf (M ! s)) \<Longrightarrow>
   (\<And>s p. s < LLAMA_MAX_SEQ \<Longrightarrow> om_count (M ! s) p = f s p) \<Longrightarrow> sp_counts M f"
  by (simp add: sp_counts_def)

lemma sp_counts_cong:
  assumes "sp_counts M f" and "\<And>s p. s < LLAMA_MAX_SEQ \<Longrightarrow> f s p = g s p"
  shows "sp_counts M g"
  using assms by (simp add: sp_counts_def)

lemma seq_pos_inc_counts:
  assumes "sp_counts (kc_seq_pos c) f" and "s < LLAMA_MAX_SEQ"
  shows "\<exists>M. cells_seq_pos_inc s p c = c\<lparr>kc_seq_pos := M\<rparr> \<and>
    sp_counts M (\<lambda>s' q. f s' q + of_bool (s' = s \<and> q = p))"
  using assms
  by (auto simp: cells_seq_pos_inc_def sp_counts_def nth_list_update_if om_mult.count_inc om_mult.wf_inc)

lemma seq_pos_dec_counts:
  assumes "sp_counts (kc_seq_pos c) f" and "s < LLAMA_MAX_SEQ" and "0 < f s p"
  shows "wp (cells_seq_pos_dec s p c) (\<lambda>c'. \<exists>M. c' = c\<lparr>kc_seq_pos := M\<rparr> \<and>
    sp_counts M (\<lambda>s' q. f s' q - of_bool (s' = s \<and> q = p)))"
proof -
  from assms have "om_mwf (kc_seq_pos c ! s)" and "0 < om_count (kc_seq_pos c ! s) p"
    by (simp_all add: sp_counts_def)
  from om_mult.dec_ok [OF this] obtain m where m: "om_dec p (kc_seq_pos c ! s) = Some m" "om_mwf m"
    "\<forall>q. om_count m q = om_count (kc_seq_pos c ! s) q - (if q = p then 1 else 0)" by blast
  have "sp_counts ((kc_seq_pos c)[s := m]) (\<lambda>s' q. f s' q - of_bool (s' = s \<and> q = p))"
    using m assms by (auto simp: sp_counts_def nth_list_update_if)
  with m(1) show ?thesis
    by (auto simp: cells_seq_pos_dec_def wp_rules)
qed

lemma foldM_Some: "foldM (\<lambda>x s. Some (f x s)) xs s = Some (fold f xs s)"
  by (induction xs arbitrary: s) simp_all

lemma seq_pos_rm_counts:
  assumes "sp_counts (kc_seq_pos c) f"
    and "\<And>s. s < LLAMA_MAX_SEQ \<Longrightarrow> s \<in> kc_seq c ! i \<Longrightarrow> 0 < f s (kc_pos c ! i)"
  shows "wp (cells_seq_pos_rm i c) (\<lambda>c'. \<exists>M. c' = c\<lparr>kc_seq_pos := M\<rparr> \<and>
    sp_counts M (\<lambda>s q. f s q - of_bool (s \<in> kc_seq c ! i \<and> q = kc_pos c ! i)))"
proof -
  let ?P = "\<lambda>k c'. \<exists>M. c' = c\<lparr>kc_seq_pos := M\<rparr> \<and>
    sp_counts M (\<lambda>s q. f s q - of_bool (s < k \<and> s \<in> kc_seq c ! i \<and> q = kc_pos c ! i))"
  have "wp (cells_seq_pos_rm i c) (?P LLAMA_MAX_SEQ)"
    unfolding cells_seq_pos_rm_def
  proof (rule wp_foldM_upt [where P = ?P])
    have "c = c\<lparr>kc_seq_pos := kc_seq_pos c\<rparr>" by simp
    then show "?P 0 c" using assms(1) by (intro exI [where x = "kc_seq_pos c"]) simp
  next
    fix s c'
    assume s: "s < LLAMA_MAX_SEQ" and "?P s c'"
    then obtain M where M: "c' = c\<lparr>kc_seq_pos := M\<rparr>"
      "sp_counts (kc_seq_pos c') (\<lambda>s' q. f s' q - of_bool (s' < s \<and> s' \<in> kc_seq c ! i \<and> q = kc_pos c ! i))"
      by auto
    show "wp (if s \<in> kc_seq c' ! i then cells_seq_pos_dec s (kc_pos c' ! i) c' else Some c') (?P (Suc s))"
    proof (cases "s \<in> kc_seq c ! i")
      case True
      with seq_pos_dec_counts [OF M(2) s, of "kc_pos c ! i"] assms(2) s M(1) show ?thesis
        by (fastforce elim!: wp_mono sp_counts_cong simp: less_Suc_eq)
    next
      case False
      with M show ?thesis by (auto elim!: sp_counts_cong simp: less_Suc_eq)
    qed
  qed
  then show ?thesis
    by (rule wp_mono) (auto elim!: sp_counts_cong)
qed

lemma seq_pos_add_counts:
  assumes "sp_counts (kc_seq_pos c) f"
  shows "\<exists>M. cells_seq_pos_add i c = c\<lparr>kc_seq_pos := M\<rparr> \<and>
    sp_counts M (\<lambda>s q. f s q + of_bool (s \<in> kc_seq c ! i \<and> q = kc_pos c ! i))"
proof -
  let ?P = "\<lambda>k c'. \<exists>M. c' = c\<lparr>kc_seq_pos := M\<rparr> \<and>
    sp_counts M (\<lambda>s q. f s q + of_bool (s < k \<and> s \<in> kc_seq c ! i \<and> q = kc_pos c ! i))"
  have "wp (foldM (\<lambda>s c. Some (if s \<in> kc_seq c ! i then cells_seq_pos_inc s (kc_pos c ! i) c else c))
      [0..<LLAMA_MAX_SEQ] c) (?P LLAMA_MAX_SEQ)"
  proof (rule wp_foldM_upt [where P = ?P])
    have "c = c\<lparr>kc_seq_pos := kc_seq_pos c\<rparr>" by simp
    then show "?P 0 c" using assms(1) by (intro exI [where x = "kc_seq_pos c"]) simp
  next
    fix s c'
    assume s: "s < LLAMA_MAX_SEQ" and "?P s c'"
    then obtain M where M: "c' = c\<lparr>kc_seq_pos := M\<rparr>"
      "sp_counts (kc_seq_pos c') (\<lambda>s' q. f s' q + of_bool (s' < s \<and> s' \<in> kc_seq c ! i \<and> q = kc_pos c ! i))"
      by auto
    show "wp (Some (if s \<in> kc_seq c' ! i then cells_seq_pos_inc s (kc_pos c' ! i) c' else c')) (?P (Suc s))"
    proof (cases "s \<in> kc_seq c ! i")
      case True
      with seq_pos_inc_counts [OF M(2) s, of "kc_pos c ! i"] M(1) show ?thesis
        by (fastforce elim!: sp_counts_cong simp: less_Suc_eq)
    next
      case False
      with M show ?thesis by (auto elim!: sp_counts_cong simp: less_Suc_eq)
    qed
  qed
  then show ?thesis
    unfolding cells_seq_pos_add_def foldM_Some by (auto elim!: sp_counts_cong)
qed

section \<open>Every operation keeps the invariant\<close>

text \<open>
  \<open>cells_put i p sh S c c'\<close>: the cells of \<open>c'\<close> are those of \<open>c\<close> with cell \<open>i\<close> replaced by
  position \<open>p\<close>, shift \<open>sh\<close> and sequence set \<open>S\<close>.
\<close>

definition cells_put :: "nat \<Rightarrow> int \<Rightarrow> int \<Rightarrow> nat set \<Rightarrow> kv_cells \<Rightarrow> kv_cells \<Rightarrow> bool" where
  "cells_put i p sh S c c' \<longleftrightarrow>
     kc_pos c' = (kc_pos c)[i := p] \<and> kc_shift c' = (kc_shift c)[i := sh] \<and> kc_seq c' = (kc_seq c)[i := S]"

lemma cells_inv_put:
  assumes inv: "cells_inv c" and i: "i < length (kc_pos c)" and ok: "cell_ok p sh S"
    and M: "sp_counts (kc_seq_pos c') (\<lambda>s q. cells_cnt (kc_pos c) (kc_seq c) s q
              - of_bool (s \<in> kc_seq c ! i \<and> q = kc_pos c ! i) + of_bool (s \<in> S \<and> q = p))"
    and U: "kc_used c' = (if p = - 1 then kc_used c - {i} else insert i (kc_used c))"
    and h: "\<not> kc_has_shift c' \<Longrightarrow> \<not> kc_has_shift c \<and> sh = 0"
    and put: "cells_put i p sh S c c'"
  shows "cells_inv c'"
proof -
  have len: "length (kc_shift c) = length (kc_pos c)" "length (kc_seq c) = length (kc_pos c)"
    using inv by (simp_all add: cells_inv_def)
  have "sp_counts (kc_seq_pos c') (cells_cnt (kc_pos c') (kc_seq c'))"
    using M by (rule sp_counts_cong) (use put in \<open>simp add: cells_put_def cells_cnt_put [OF i len(2)]\<close>)
  moreover have "kc_used c' = {j. j < length (kc_pos c') \<and> kc_pos c' ! j \<noteq> - 1}"
  proof -
    have used: "j \<in> kc_used c \<longleftrightarrow> j < length (kc_pos c) \<and> kc_pos c ! j \<noteq> - 1" for j
      using inv by (simp add: cells_inv_def)
    have pos: "kc_pos c' = (kc_pos c)[i := p]" using put by (simp add: cells_put_def)
    have "j \<in> kc_used c' \<longleftrightarrow> j < length (kc_pos c') \<and> kc_pos c' ! j \<noteq> - 1" for j
      using i by (cases "j = i") (simp_all add: U used pos)
    then show ?thesis by blast
  qed
  moreover have "\<forall>j < length (kc_pos c'). cell_ok (kc_pos c' ! j) (kc_shift c' ! j) (kc_seq c' ! j)"
    using put ok inv len by (auto simp: cells_inv_def cells_put_def nth_list_update_if)
  moreover have "\<not> kc_has_shift c' \<longrightarrow> (\<forall>j < length (kc_pos c'). kc_shift c' ! j = 0)"
    using h put inv len by (auto simp: cells_inv_def cells_put_def nth_list_update_if)
  ultimately show ?thesis
    using put len by (simp add: cells_inv_def cells_put_def)
qed

lemma cells_invD:
  assumes "cells_inv c"
  shows "length (kc_shift c) = length (kc_pos c)"
    and "length (kc_seq c) = length (kc_pos c)"
    and "kc_used c = {i. i < length (kc_pos c) \<and> kc_pos c ! i \<noteq> - 1}"
    and "sp_counts (kc_seq_pos c) (cells_cnt (kc_pos c) (kc_seq c))"
    and "i < length (kc_pos c) \<Longrightarrow> cell_ok (kc_pos c ! i) (kc_shift c ! i) (kc_seq c ! i)"
  using assms by (simp_all add: cells_inv_def)

lemma cells_inv_seq:
  assumes "cells_inv c" and "i < length (kc_pos c)" and "s \<in> kc_seq c ! i"
  shows "s < LLAMA_MAX_SEQ" and "kc_pos c ! i \<noteq> - 1"
  using cells_invD(5) [OF assms(1,2)] assms(3) by (auto simp: cell_ok_def)

lemma cells_shift_0: "cells_inv c \<Longrightarrow> i < length (kc_pos c) \<Longrightarrow> \<not> kc_has_shift c \<Longrightarrow> kc_shift c ! i = 0"
  by (simp add: cells_inv_def)

text \<open>Unindexing a cell of a consistent state.\<close>

lemma seq_pos_rm_inv:
  assumes "cells_inv c" and "i < length (kc_pos c)"
  shows "wp (cells_seq_pos_rm i c) (\<lambda>c'. \<exists>M. c' = c\<lparr>kc_seq_pos := M\<rparr> \<and>
    sp_counts M (\<lambda>s q. cells_cnt (kc_pos c) (kc_seq c) s q - of_bool (s \<in> kc_seq c ! i \<and> q = kc_pos c ! i)))"
  using seq_pos_rm_counts [OF cells_invD(4) [OF assms(1)], of i] cells_cnt_pos [OF assms(2)] by blast

lemma used_nonempty:
  assumes "cells_inv c" and "i < length (kc_pos c)" and "kc_pos c ! i \<noteq> - 1"
  shows "insert i (kc_used c) = kc_used c"
  using assms by (auto simp: cells_inv_def)

lemma used_empty:
  assumes "cells_inv c" and "i < length (kc_pos c)" and "kc_pos c ! i = - 1"
  shows "kc_used c - {i} = kc_used c"
  using assms by (auto simp: cells_inv_def)

lemma cells_rm_spec:
  assumes inv: "cells_inv c" and i: "i < length (kc_pos c)" and p: "kc_pos c ! i \<noteq> - 1"
  shows "wp (cells_rm i c) (\<lambda>c'. cells_inv c' \<and> cells_put i (- 1) 0 {} c c' \<and> kc_has_shift c' = kc_has_shift c)"
proof -
  from seq_pos_rm_inv [OF inv i] obtain M where M: "cells_seq_pos_rm i c = Some (c\<lparr>kc_seq_pos := M\<rparr>)"
    "sp_counts M (\<lambda>s q. cells_cnt (kc_pos c) (kc_seq c) s q - of_bool (s \<in> kc_seq c ! i \<and> q = kc_pos c ! i))"
    by (auto elim!: wpE)
  show ?thesis
    using i p M by (auto simp: cells_defs wp_rules cells_put_def cell_ok_def int32_max_def
        intro!: cells_inv_put [OF inv i, of "- 1" 0 "{}"])
qed

lemma cells_seq_rm_spec:
  assumes inv: "cells_inv c" and i: "i < length (kc_pos c)" and s: "s \<in> kc_seq c ! i"
  shows "wp (cells_seq_rm i s c) (\<lambda>(b, c'). b = (kc_seq c ! i = {s}) \<and> cells_inv c' \<and>
    kc_has_shift c' = kc_has_shift c \<and>
    (if b then cells_put i (- 1) 0 {} c c'
     else cells_put i (kc_pos c ! i) (kc_shift c ! i) (kc_seq c ! i - {s}) c c'))"
proof -
  note sD = cells_inv_seq [OF inv i s]
  let ?c1 = "c\<lparr>kc_seq := (kc_seq c)[i := kc_seq c ! i - {s}]\<rparr>"
  have "sp_counts (kc_seq_pos ?c1) (cells_cnt (kc_pos c) (kc_seq c))"
    using cells_invD(4) [OF inv] by simp
  from seq_pos_dec_counts [OF this sD(1) cells_cnt_pos [where ss = "kc_seq c", OF i s]] obtain M where
    M: "cells_seq_pos_dec s (kc_pos c ! i) ?c1 = Some (?c1\<lparr>kc_seq_pos := M\<rparr>)"
    "sp_counts M (\<lambda>s' q. cells_cnt (kc_pos c) (kc_seq c) s' q - of_bool (s' = s \<and> q = kc_pos c ! i))"
    by (auto elim!: wpE)
  have len: "i < length (kc_seq c)" "i < length (kc_shift c)"
    using inv i by (simp_all add: cells_inv_def)
  show ?thesis
  proof (cases "kc_seq c ! i = {s}")
    case True
    let ?c2 = "?c1\<lparr>kc_seq_pos := M, kc_pos := (kc_pos c)[i := - 1], kc_shift := (kc_shift c)[i := 0],
      kc_used := kc_used c - {i}\<rparr>"
    have "cells_inv ?c2"
      using M(2) True
      by (intro cells_inv_put [OF inv i, of "- 1" 0 "{}"])
        (auto simp: cell_ok_def int32_max_def cells_put_def intro: sp_counts_cong)
    with True i sD M len show ?thesis
      by (auto simp: cells_seq_rm_def bitset_test_def bitset_unset_def wp_rules cells_put_def)
  next
    case False
    let ?c2 = "?c1\<lparr>kc_seq_pos := M\<rparr>"
    have ok: "cell_ok (kc_pos c ! i) (kc_shift c ! i) (kc_seq c ! i - {s})"
      using cells_invD(5) [OF inv i] sD(2) by (auto simp: cell_ok_def)
    have "cells_inv ?c2"
    proof (rule cells_inv_put [OF inv i ok])
      show "sp_counts (kc_seq_pos ?c2) (\<lambda>s' q. cells_cnt (kc_pos c) (kc_seq c) s' q
          - of_bool (s' \<in> kc_seq c ! i \<and> q = kc_pos c ! i)
          + of_bool (s' \<in> kc_seq c ! i - {s} \<and> q = kc_pos c ! i))"
        using M(2) s by (auto elim!: sp_counts_cong)
    qed (use sD used_nonempty [OF inv i sD(2)] cells_shift_0 [OF inv i] in \<open>auto simp: cells_put_def\<close>)
    moreover have "kc_seq c ! i - {s} \<noteq> {}" using False s by blast
    ultimately show ?thesis using i s sD M len False
      by (auto simp: cells_seq_rm_def bitset_test_def bitset_unset_def wp_rules cells_put_def)
  qed
qed

lemma seq_pos_rm_invE:
  assumes "cells_inv c" and "i < length (kc_pos c)"
  obtains M where "cells_seq_pos_rm i c = Some (c\<lparr>kc_seq_pos := M\<rparr>)"
    and "sp_counts M (\<lambda>s q. cells_cnt (kc_pos c) (kc_seq c) s q - of_bool (s \<in> kc_seq c ! i \<and> q = kc_pos c ! i))"
  using seq_pos_rm_inv [OF assms] by (auto elim!: wpE)

lemma cells_nth_update [simp]:
  "cells_inv c \<Longrightarrow> i < length (kc_pos c) \<Longrightarrow> (kc_seq c)[i := S] ! i = S"
  "cells_inv c \<Longrightarrow> i < length (kc_pos c) \<Longrightarrow> (kc_shift c)[i := q] ! i = q"
  by (simp_all add: cells_inv_def)

lemma cells_seq_keep_spec:
  assumes inv: "cells_inv c" and i: "i < length (kc_pos c)" and s: "s < LLAMA_MAX_SEQ"
    and ne: "kc_seq c ! i = {} \<Longrightarrow> kc_pos c ! i = - 1"
  shows "wp (cells_seq_keep i s c) (\<lambda>(b, c'). b = (kc_seq c ! i \<noteq> {} \<and> s \<notin> kc_seq c ! i) \<and> cells_inv c' \<and>
    kc_has_shift c' = kc_has_shift c \<and>
    (if s \<in> kc_seq c ! i then cells_put i (kc_pos c ! i) (kc_shift c ! i) {s} c c'
     else cells_put i (- 1) 0 {} c c'))"
proof -
  from inv i obtain M where M: "cells_seq_pos_rm i c = Some (c\<lparr>kc_seq_pos := M\<rparr>)"
    "sp_counts M (\<lambda>s q. cells_cnt (kc_pos c) (kc_seq c) s q - of_bool (s \<in> kc_seq c ! i \<and> q = kc_pos c ! i))"
    by (rule seq_pos_rm_invE)
  consider (keep) "s \<in> kc_seq c ! i" | (drop) "s \<notin> kc_seq c ! i" "kc_seq c ! i \<noteq> {}" | (none) "kc_seq c ! i = {}"
    by blast
  then show ?thesis
  proof cases
    case keep
    note sD = cells_inv_seq [OF inv i keep]
    let ?c1 = "c\<lparr>kc_seq_pos := M, kc_seq := (kc_seq c)[i := {s}]\<rparr>"
    have "sp_counts (kc_seq_pos ?c1) (\<lambda>s q. cells_cnt (kc_pos c) (kc_seq c) s q
        - of_bool (s \<in> kc_seq c ! i \<and> q = kc_pos c ! i))" using M(2) by simp
    from seq_pos_inc_counts [OF this sD(1), of "kc_pos c ! i"] obtain N where
      N: "cells_seq_pos_inc s (kc_pos c ! i) ?c1 = ?c1\<lparr>kc_seq_pos := N\<rparr>"
      "sp_counts N (\<lambda>s' q. cells_cnt (kc_pos c) (kc_seq c) s' q
        - of_bool (s' \<in> kc_seq c ! i \<and> q = kc_pos c ! i) + of_bool (s' = s \<and> q = kc_pos c ! i))" by blast
    have ok: "cell_ok (kc_pos c ! i) (kc_shift c ! i) {s}"
      using cells_invD(5) [OF inv i] sD by (auto simp: cell_ok_def)
    have "cells_inv (?c1\<lparr>kc_seq_pos := N\<rparr>)"
      using N(2) sD used_nonempty [OF inv i sD(2)] cells_shift_0 [OF inv i]
      by (intro cells_inv_put [OF inv i ok]) (auto simp: cells_put_def)
    with keep i sD M(1) N(1) show ?thesis
      by (simp add: cells_seq_keep_def bitset_test_def bitset_set_def wp_rules cells_put_def)
  next
    case drop
    have "cells_inv (c\<lparr>kc_seq_pos := M, kc_seq := (kc_seq c)[i := {}], kc_pos := (kc_pos c)[i := - 1],
        kc_shift := (kc_shift c)[i := 0], kc_used := kc_used c - {i}\<rparr>)"
      using M(2) by (intro cells_inv_put [OF inv i, of "- 1" 0 "{}"])
        (auto simp: cells_put_def cell_ok_def int32_max_def)
    with drop i s M(1) show ?thesis
      by (simp add: cells_seq_keep_def bitset_test_def bitset_set_def wp_rules cells_put_def)
  next
    case none
    with ne have "kc_pos c ! i = - 1" by simp
    moreover from this none cells_invD(5) [OF inv i] have "cells_put i (- 1) 0 {} c c"
      by (auto simp: cells_put_def cell_ok_def) (metis list_update_id)+
    ultimately show ?thesis
      using none i s inv by (simp add: cells_seq_keep_def bitset_test_def wp_rules)
  qed
qed

lemma cells_seq_add_spec:
  assumes inv: "cells_inv c" and i: "i < length (kc_pos c)" and s: "s < LLAMA_MAX_SEQ" "s \<notin> kc_seq c ! i"
    and p: "kc_pos c ! i \<noteq> - 1"
  shows "wp (cells_seq_add i s c) (\<lambda>c'. cells_inv c' \<and> kc_has_shift c' = kc_has_shift c \<and>
    cells_put i (kc_pos c ! i) (kc_shift c ! i) (insert s (kc_seq c ! i)) c c')"
proof -
  let ?c1 = "c\<lparr>kc_seq := (kc_seq c)[i := insert s (kc_seq c ! i)]\<rparr>"
  have "sp_counts (kc_seq_pos ?c1) (cells_cnt (kc_pos c) (kc_seq c))" using cells_invD(4) [OF inv] by simp
  from seq_pos_inc_counts [OF this s(1), of "kc_pos c ! i"] obtain N where
    N: "cells_seq_pos_inc s (kc_pos c ! i) ?c1 = ?c1\<lparr>kc_seq_pos := N\<rparr>"
      "sp_counts N (\<lambda>s' q. cells_cnt (kc_pos c) (kc_seq c) s' q + of_bool (s' = s \<and> q = kc_pos c ! i))" by blast
  have "cell_ok (kc_pos c ! i) (kc_shift c ! i) (insert s (kc_seq c ! i))"
    using cells_invD(5) [OF inv i] s p by (auto simp: cell_ok_def)
  then have "cells_inv (?c1\<lparr>kc_seq_pos := N\<rparr>)"
  proof (rule cells_inv_put [OF inv i])
    show "sp_counts (kc_seq_pos (?c1\<lparr>kc_seq_pos := N\<rparr>)) (\<lambda>s' q. cells_cnt (kc_pos c) (kc_seq c) s' q
        - of_bool (s' \<in> kc_seq c ! i \<and> q = kc_pos c ! i)
        + of_bool (s' \<in> insert s (kc_seq c ! i) \<and> q = kc_pos c ! i))"
      using N(2) s by (auto elim!: sp_counts_cong)
  qed (use p used_nonempty [OF inv i p] cells_shift_0 [OF inv i] in \<open>auto simp: cells_put_def\<close>)
  with i s p N(1) show ?thesis
    by (simp add: cells_seq_add_def bitset_test_def bitset_set_def wp_rules cells_put_def)
qed

lemma cells_pos_set_spec:
  assumes inv: "cells_inv c" and i: "i < length (kc_pos c)" and e: "kc_pos c ! i = - 1"
    and p: "0 \<le> p" "p \<le> int32_max"
  shows "wp (cells_pos_set i p c) (\<lambda>c'. cells_inv c' \<and> kc_has_shift c' = kc_has_shift c \<and> cells_put i p 0 {} c c')"
proof -
  have cell: "kc_seq c ! i = {}" "kc_shift c ! i = 0"
    using cells_invD(5) [OF inv i] e by (simp_all add: cell_ok_def)
  let ?c1 = "c\<lparr>kc_pos := (kc_pos c)[i := p], kc_used := insert i (kc_used c)\<rparr>"
  have put: "cells_put i p 0 {} c ?c1"
    using cell by (simp add: cells_put_def) (metis list_update_id)
  have "cells_inv ?c1"
    using p cells_invD(4) [OF inv] cell
    by (intro cells_inv_put [OF inv i _ _ _ _ put]) (auto simp: cell_ok_def)
  with put i e cell show ?thesis
    by (simp add: cells_pos_set_def wp_rules)
qed

text \<open>Unindexing a cell, changing it to a non-empty cell and indexing it again.\<close>

lemma cells_reindex:
  assumes inv: "cells_inv c" and i: "i < length (kc_pos c)" and ok: "cell_ok p sh S" and p: "p \<noteq> - 1"
    and M: "sp_counts (kc_seq_pos c') (\<lambda>s q. cells_cnt (kc_pos c) (kc_seq c) s q
              - of_bool (s \<in> kc_seq c ! i \<and> q = kc_pos c ! i))"
    and U: "kc_used c' = insert i (kc_used c)"
    and h: "\<not> kc_has_shift c' \<Longrightarrow> \<not> kc_has_shift c \<and> sh = 0"
    and put: "cells_put i p sh S c c'"
  shows "cells_inv (cells_seq_pos_add i c')" and "cells_put i p sh S c (cells_seq_pos_add i c')"
    and "kc_has_shift (cells_seq_pos_add i c') = kc_has_shift c'"
proof -
  have at: "kc_seq c' ! i = S" "kc_pos c' ! i = p"
    using put i inv by (simp_all add: cells_put_def cells_inv_def)
  from seq_pos_add_counts [OF M, of i] obtain N where
    N: "cells_seq_pos_add i c' = c'\<lparr>kc_seq_pos := N\<rparr>"
    "sp_counts N (\<lambda>s q. cells_cnt (kc_pos c) (kc_seq c) s q
       - of_bool (s \<in> kc_seq c ! i \<and> q = kc_pos c ! i) + of_bool (s \<in> S \<and> q = p))"
    unfolding at by blast
  show put': "cells_put i p sh S c (cells_seq_pos_add i c')"
    using put by (simp add: N(1) cells_put_def)
  show "cells_inv (cells_seq_pos_add i c')"
    using N U h p by (intro cells_inv_put [OF inv i ok _ _ _ put']) auto
  show "kc_has_shift (cells_seq_pos_add i c') = kc_has_shift c'"
    by (simp add: N(1))
qed

lemma cells_pos_add_spec:
  assumes inv: "cells_inv c" and i: "i < length (kc_pos c)" and p: "kc_pos c ! i \<noteq> - 1"
    and ok: "int32_ok (kc_pos c ! i + d)" "int32_ok (kc_shift c ! i + d)"
  shows "wp (cells_pos_add i d c) (\<lambda>(b, c'). b = (kc_pos c ! i + d < 0) \<and> cells_inv c' \<and> kc_has_shift c' \<and>
    (if b then cells_put i (- 1) 0 {} c c'
     else cells_put i (kc_pos c ! i + d) (kc_shift c ! i + d) (kc_seq c ! i) c c'))"
proof -
  from inv i obtain M where M: "cells_seq_pos_rm i c = Some (c\<lparr>kc_seq_pos := M\<rparr>)"
    "sp_counts M (\<lambda>s q. cells_cnt (kc_pos c) (kc_seq c) s q - of_bool (s \<in> kc_seq c ! i \<and> q = kc_pos c ! i))"
    by (rule seq_pos_rm_invE)
  let ?c2 = "c\<lparr>kc_seq_pos := M, kc_pos := (kc_pos c)[i := kc_pos c ! i + d],
    kc_shift := (kc_shift c)[i := kc_shift c ! i + d], kc_has_shift := True\<rparr>"
  show ?thesis
  proof (cases "kc_pos c ! i + d < 0")
    case True
    have "cells_inv (?c2\<lparr>kc_seq := (kc_seq c)[i := {}], kc_pos := (kc_pos c)[i := - 1],
        kc_shift := (kc_shift c)[i := 0], kc_used := kc_used c - {i}\<rparr>)"
      using M(2) by (intro cells_inv_put [OF inv i, of "- 1" 0 "{}"])
        (auto simp: cells_put_def cell_ok_def int32_max_def)
    with True M(1) ok i p show ?thesis
      by (simp add: cells_pos_add_def wp_rules cells_put_def)
  next
    case False
    have cok: "cell_ok (kc_pos c ! i + d) (kc_shift c ! i + d) (kc_seq c ! i)"
      using False ok cells_invD(5) [OF inv i] p by (auto simp: cell_ok_def int32_ok_def)
    have "cells_put i (kc_pos c ! i + d) (kc_shift c ! i + d) (kc_seq c ! i) c ?c2"
      by (simp add: cells_put_def)
    from cells_reindex [OF inv i cok _ _ _ _ this] M(2) False used_nonempty [OF inv i p] ok i p M(1)
    show ?thesis by (simp add: cells_pos_add_def wp_rules)
  qed
qed

lemma sdiv_pos_range:
  fixes p d :: int
  assumes "0 \<le> p" and "0 < d"
  shows "p sdiv d = p div d" and "0 \<le> p div d" and "p div d \<le> p"
  using assms zdiv_mono2 [of p 1 d]
  by (auto simp: signed_divide_int_def sgn_if pos_imp_zdiv_nonneg_iff)

lemma cells_pos_div_spec:
  assumes inv: "cells_inv c" and i: "i < length (kc_pos c)" and p: "kc_pos c ! i \<noteq> - 1" and d: "0 < d"
    and ok: "int32_ok (kc_shift c ! i + (kc_pos c ! i - kc_pos c ! i div d))"
  shows "wp (cells_pos_div i d c) (\<lambda>c'. cells_inv c' \<and> kc_has_shift c' \<and>
    cells_put i (kc_pos c ! i div d) (kc_shift c ! i + (kc_pos c ! i - kc_pos c ! i div d)) (kc_seq c ! i) c c')"
proof -
  from inv i obtain M where M: "cells_seq_pos_rm i c = Some (c\<lparr>kc_seq_pos := M\<rparr>)"
    "sp_counts M (\<lambda>s q. cells_cnt (kc_pos c) (kc_seq c) s q - of_bool (s \<in> kc_seq c ! i \<and> q = kc_pos c ! i))"
    by (rule seq_pos_rm_invE)
  have cell: "cell_ok (kc_pos c ! i) (kc_shift c ! i) (kc_seq c ! i)" by (rule cells_invD(5) [OF inv i])
  with p have p0: "0 \<le> kc_pos c ! i" by (simp add: cell_ok_def)
  note dv = sdiv_pos_range [OF p0 d]
  let ?q = "kc_pos c ! i div d" and ?sh = "kc_shift c ! i + (kc_pos c ! i - kc_pos c ! i div d)"
  let ?c2 = "c\<lparr>kc_seq_pos := M, kc_pos := (kc_pos c)[i := ?q], kc_shift := (kc_shift c)[i := ?sh]\<rparr>"
  have cok: "cell_ok ?q ?sh (kc_seq c ! i)"
    using cell dv by (auto simp: cell_ok_def)
  have i32: "int32_ok ?q" "int32_ok (kc_pos c ! i - ?q)"
    using cell dv by (auto simp: cell_ok_def int32_ok_def int32_min_def)
  have put: "cells_put i ?q ?sh (kc_seq c ! i) c (?c2\<lparr>kc_has_shift := True\<rparr>)"
    by (simp add: cells_put_def)
  have comm: "cells_seq_pos_add i (x\<lparr>kc_has_shift := True\<rparr>) = (cells_seq_pos_add i x)\<lparr>kc_has_shift := True\<rparr>" for x
    unfolding cells_seq_pos_add_def
    by (rule fold_commute_apply [symmetric, where h = "\<lambda>c. c\<lparr>kc_has_shift := True\<rparr>"])
      (auto simp: fun_eq_iff cells_seq_pos_inc_def)
  from cells_reindex [OF inv i cok _ _ _ _ put] M(2) dv used_nonempty [OF inv i p] ok i p d M(1) i32
  show ?thesis by (simp add: cells_pos_div_def wp_rules Let_def comm)
qed

lemma cells_set_one_spec:
  assumes inv: "cells_inv c" and i: "i < length (kc_pos c)" and sh: "kc_shift c ! i = 0" and ok: "cell_ok p 0 S"
  shows "wp (cells_set_one i p S c) (\<lambda>c'. cells_inv c' \<and> kc_has_shift c' = kc_has_shift c \<and> cells_put i p 0 S c c')"
proof -
  let ?U = "if p = - 1 then kc_used c - {i} else insert i (kc_used c)"
  let ?c2 = "c\<lparr>kc_used := ?U\<rparr>"
  have "sp_counts (kc_seq_pos ?c2) (cells_cnt (kc_pos c) (kc_seq c))"
    using cells_invD(4) [OF inv] by simp
  from seq_pos_rm_counts [OF this, of i] cells_cnt_pos [OF i, where ss = "kc_seq c"] obtain M where
    M: "cells_seq_pos_rm i ?c2 = Some (?c2\<lparr>kc_seq_pos := M\<rparr>)"
    "sp_counts M (\<lambda>s q. cells_cnt (kc_pos c) (kc_seq c) s q - of_bool (s \<in> kc_seq c ! i \<and> q = kc_pos c ! i))"
    by (auto elim!: wpE)
  define c3 where "c3 = ?c2\<lparr>kc_seq_pos := (if kc_pos c ! i = - 1 then kc_seq_pos c else M)\<rparr>"
  have sp3: "sp_counts (kc_seq_pos c3) (\<lambda>s q. cells_cnt (kc_pos c) (kc_seq c) s q
      - of_bool (s \<in> kc_seq c ! i \<and> q = kc_pos c ! i))"
    using M(2) cells_invD(4,5) [OF inv] i by (auto simp: c3_def cell_ok_def)
  let ?c4 = "c3\<lparr>kc_pos := (kc_pos c)[i := p], kc_seq := (kc_seq c)[i := S]\<rparr>"
  have put: "cells_put i p 0 S c ?c4"
    using sh by (simp add: cells_put_def c3_def) (metis list_update_id)
  let ?c5 = "if p \<noteq> - 1 then cells_seq_pos_add i ?c4 else ?c4"
  have res: "cells_inv ?c5 \<and> cells_put i p 0 S c ?c5 \<and> kc_has_shift ?c5 = kc_has_shift c"
  proof (cases "p = - 1")
    case True
    with sp3 put ok show ?thesis
      by (auto intro!: cells_inv_put [OF inv i, of p 0 S] simp: c3_def cell_ok_def)
  next
    case False
    from cells_reindex [OF inv i ok False _ _ _ put] sp3 False show ?thesis by (simp add: c3_def)
  qed
  have "kc_shift ?c5 ! i = 0"
    using res i inv by (auto simp: cells_put_def cells_inv_def)
  moreover have "cells_set_one i p S c = do { guard (kc_shift ?c5 ! i = 0); Some ?c5 }"
    using i M(1) used_nonempty [OF inv i] used_empty [OF inv i]
    by (cases "p = - 1"; cases "kc_pos c ! i = - 1") (simp_all add: cells_set_one_def c3_def Let_def)
  ultimately show ?thesis using res by (simp add: wp_rules)
qed

section \<open>Whole-object operations and queries\<close>

lemma cells_cnt_empty: "\<forall>i < length ps. ss ! i = {} \<Longrightarrow> cells_cnt ps ss s p = 0"
  by (auto simp: cells_cnt_def)

lemma cells_inv_reset:
  assumes "length (kc_shift c) = length (kc_pos c)" and "length (kc_seq c) = length (kc_pos c)"
    and "length (kc_seq_pos c) = LLAMA_MAX_SEQ"
  shows "cells_inv (cells_reset c)"
proof -
  have "sp_counts (map (\<lambda>_. []) (kc_seq_pos c)) (cells_cnt (map (\<lambda>_. - 1) (kc_pos c)) (map (\<lambda>_. {}) (kc_seq c)))"
    using assms by (intro sp_countsI) (simp_all add: om_mult.wf_none om_mult.count_none cells_cnt_empty)
  with assms show ?thesis
    by (auto simp: cells_inv_def cells_reset_def cell_ok_def int32_max_def)
qed

lemma length_vec_resize [simp]: "length (vec_resize n x xs) = n"
  by (simp add: vec_resize_def)

lemma cells_resize_new:
  "cells_resize n cells_new = \<lparr>kc_has_shift = False, kc_used = {}, kc_pos = replicate n (- 1),
     kc_shift = replicate n 0, kc_seq = replicate n {}, kc_seq_pos = replicate LLAMA_MAX_SEQ []\<rparr>"
  by (simp add: cells_resize_def cells_reset_def cells_new_def vec_resize_def)

lemma cells_inv_resize: "length (kc_seq_pos c) = LLAMA_MAX_SEQ \<Longrightarrow> cells_inv (cells_resize n c)"
  unfolding cells_resize_def by (rule cells_inv_reset) simp_all

lemma cells_inv_new: "cells_inv cells_new"
  by (auto simp: cells_inv_def cells_new_def om_mult.wf_none om_mult.count_none cells_cnt_def intro!: sp_countsI)

lemma cells_inv_reset_shift: "cells_inv c \<Longrightarrow> cells_inv (cells_reset_shift c)"
  by (auto simp: cells_inv_def cells_reset_shift_def cell_ok_def)

text \<open>The invariant determines the indexes from the cells.\<close>

lemma cells_inv_unique:
  assumes "cells_inv c" and "cells_inv d" and "kc_pos c = kc_pos d" and "kc_shift c = kc_shift d"
    and "kc_seq c = kc_seq d" and "kc_has_shift c = kc_has_shift d"
  shows "c = d"
proof -
  have "kc_seq_pos c = kc_seq_pos d"
  proof (rule nth_equalityI)
    show "length (kc_seq_pos c) = length (kc_seq_pos d)"
      using assms by (simp add: cells_inv_def sp_counts_def)
    show "kc_seq_pos c ! s = kc_seq_pos d ! s" if "s < length (kc_seq_pos c)" for s
      using that assms by (intro om_mult_ext) (simp_all add: cells_inv_def sp_counts_def)
  qed
  moreover have "kc_used c = kc_used d" using assms by (simp add: cells_inv_def)
  ultimately show ?thesis using assms by (cases c; cases d) simp
qed

text \<open>The positions of sequence \<open>s\<close>, by a scan of the cells.\<close>

definition seq_positions :: "nat \<Rightarrow> kv_cells \<Rightarrow> int set" where
  "seq_positions s c = {kc_pos c ! i | i. i < length (kc_pos c) \<and> s \<in> kc_seq c ! i}"

lemma finite_seq_positions [simp]: "finite (seq_positions s c)"
proof -
  have "seq_positions s c = (\<lambda>i. kc_pos c ! i) ` {i \<in> {..<length (kc_pos c)}. s \<in> kc_seq c ! i}"
    by (auto simp: seq_positions_def)
  then show ?thesis by simp
qed

lemma seq_positions_support:
  assumes "cells_inv c" and "s < LLAMA_MAX_SEQ"
  shows "{p. 0 < om_count (kc_seq_pos c ! s) p} = seq_positions s c"
proof -
  have "om_count (kc_seq_pos c ! s) p = cells_cnt (kc_pos c) (kc_seq c) s p" for p
    using assms by (simp add: cells_inv_def sp_counts_def)
  then show ?thesis
    by (auto simp: cells_cnt_def card_gt_0_iff seq_positions_def)
qed

lemma seq_pos_entry_pos:
  assumes "om_mwf m" and "(p, n) \<in> set m"
  shows "0 < n"
proof -
  have "distinct (map fst m)" using assms(1) by (simp add: om_mwf_def om_wf_def strict_sorted_iff)
  with assms show ?thesis by (simp add: om_mwf_def)
qed

lemma cells_seq_pos_minmax:
  assumes inv: "cells_inv c" and s: "s < LLAMA_MAX_SEQ"
  shows "cells_seq_pos_min s c = Some (if seq_positions s c = {} then - 1 else Min (seq_positions s c))"
    and "cells_seq_pos_max s c = Some (if seq_positions s c = {} then - 1 else Max (seq_positions s c))"
proof -
  let ?m = "kc_seq_pos c ! s"
  have wf: "om_mwf ?m" using inv s by (simp add: cells_inv_def sp_counts_def)
  have nil: "?m = [] \<longleftrightarrow> seq_positions s c = {}"
    using om_mult.none_iff [OF wf] seq_positions_support [OF inv s] om_mult.count_pos_iff [OF wf] by blast
  have ends: "0 < snd (hd ?m)" "0 < snd (last ?m)" if "?m \<noteq> []"
    using that seq_pos_entry_pos [OF wf, of "fst (hd ?m)"] seq_pos_entry_pos [OF wf, of "fst (last ?m)"] by simp_all
  show "cells_seq_pos_min s c = Some (if seq_positions s c = {} then - 1 else Min (seq_positions s c))"
    using s nil ends om_mult.first_Min [OF wf] seq_positions_support [OF inv s]
    by (auto simp: cells_seq_pos_min_def)
  show "cells_seq_pos_max s c = Some (if seq_positions s c = {} then - 1 else Max (seq_positions s c))"
    using s nil ends om_mult.final_Max [OF wf] seq_positions_support [OF inv s]
    by (auto simp: cells_seq_pos_max_def)
qed

lemma cells_get_used_eq:
  "cells_inv c \<Longrightarrow> cells_get_used c = card {i. i < length (kc_pos c) \<and> kc_pos c ! i \<noteq> - 1}"
  by (simp add: cells_get_used_def cells_invD(3))

lemma cells_is_empty_eq:
  "cells_inv c \<Longrightarrow> i < length (kc_pos c) \<Longrightarrow> cells_is_empty i c = Some (kc_pos c ! i = - 1)"
  using cells_invD(5) [of c i] by (cases "kc_pos c ! i = - 1") (auto simp: cells_is_empty_def cell_ok_def)

lemma cells_seq_get_singleton:
  assumes "cells_inv c" and "i < length (kc_pos c)" and "kc_seq c ! i = {s}"
  shows "cells_seq_get i c = Some (int s)"
proof -
  have "s < LLAMA_MAX_SEQ" using cells_inv_seq [OF assms(1,2), of s] assms(3) by simp
  then have "find (\<lambda>x. x = s) [0..<LLAMA_MAX_SEQ] = Some s"
    unfolding find_Some_iff by (intro exI [where x = s]) simp
  with assms show ?thesis by (simp add: cells_seq_get_def cells_inv_def)
qed

section \<open>Saving and restoring cells\<close>

text \<open>Cell \<open>i\<close> is the same in both states.\<close>

definition cells_same_at :: "kv_cells \<Rightarrow> kv_cells \<Rightarrow> nat \<Rightarrow> bool" where
  "cells_same_at c d i \<longleftrightarrow> kc_pos c ! i = kc_pos d ! i \<and> kc_shift c ! i = kc_shift d ! i \<and> kc_seq c ! i = kc_seq d ! i"

lemma cells_cp_idxs_spec:
  assumes "\<And>i. i \<in> set idxs \<Longrightarrow> i < length (kc_pos c) \<and> kc_shift c ! i = 0"
  shows "wp (cells_cp_idxs idxs c) (\<lambda>res. kc_pos res = map ((!) (kc_pos c)) idxs \<and> kc_seq res = map ((!) (kc_seq c)) idxs)"
proof -
  let ?n = "length idxs"
  let ?P = "\<lambda>k (res :: kv_cells). length (kc_pos res) = ?n \<and> length (kc_seq res) = ?n \<and>
    (\<forall>j < k. kc_pos res ! j = kc_pos c ! (idxs ! j) \<and> kc_seq res ! j = kc_seq c ! (idxs ! j))"
  have "wp (cells_cp_idxs idxs c) (?P ?n)"
    unfolding cells_cp_idxs_def
  proof (rule wp_foldM_upt [where P = ?P])
    show "?P 0 (cells_resize ?n cells_new)" by (simp add: cells_resize_new)
  next
    fix j res
    assume j: "j < ?n" and P: "?P j res"
    with assms [of "idxs ! j"] show "wp (cells_cp_one c j (idxs ! j) res) (?P (Suc j))"
      by (auto simp: cells_cp_one_def wp_rules nth_list_update_if less_Suc_eq)
  qed
  then show ?thesis
    by (rule wp_mono) (auto intro!: nth_equalityI)
qed

lemma cells_set_idxs_spec:
  assumes inv: "cells_inv d"
    and idxs: "\<And>i. i \<in> set idxs \<Longrightarrow> i < length (kc_pos d) \<and> kc_shift d ! i = 0"
    and src: "\<And>i. i \<in> set idxs \<Longrightarrow> cell_ok (ps i) 0 (ss i)"
    and saved: "kc_pos saved = map ps idxs" "kc_seq saved = map ss idxs"
  shows "wp (cells_set_idxs idxs saved d) (\<lambda>c'. cells_inv c' \<and> kc_has_shift c' = kc_has_shift d \<and>
    length (kc_pos c') = length (kc_pos d) \<and>
    (\<forall>i < length (kc_pos d). if i \<in> set idxs then kc_pos c' ! i = ps i \<and> kc_shift c' ! i = 0 \<and> kc_seq c' ! i = ss i
       else cells_same_at c' d i))"
proof -
  let ?n = "length idxs"
  let ?P = "\<lambda>k c'. cells_inv c' \<and> kc_has_shift c' = kc_has_shift d \<and> length (kc_pos c') = length (kc_pos d) \<and>
    (\<forall>i < length (kc_pos d). if i \<in> set (take k idxs)
       then kc_pos c' ! i = ps i \<and> kc_shift c' ! i = 0 \<and> kc_seq c' ! i = ss i else cells_same_at c' d i)"
  have "wp (foldM (\<lambda>j c. cells_set_one (idxs ! j) (kc_pos saved ! j) (kc_seq saved ! j) c) [0..<?n] d) (?P ?n)"
  proof (rule wp_foldM_upt [where P = ?P])
    show "?P 0 d" using inv by (simp add: cells_same_at_def)
  next
    fix j c'
    assume j: "j < ?n" and P: "?P j c'"
    let ?i = "idxs ! j"
    have i: "?i \<in> set idxs" using j by simp
    with P idxs [OF i] have sh: "kc_shift c' ! ?i = 0" and len: "?i < length (kc_pos c')"
      by (auto simp: cells_same_at_def split: if_splits)
    have "wp (cells_set_one ?i (ps ?i) (ss ?i) c')
        (\<lambda>e. cells_inv e \<and> kc_has_shift e = kc_has_shift c' \<and> cells_put ?i (ps ?i) 0 (ss ?i) c' e)"
      using cells_set_one_spec [OF _ len sh src [OF i]] P by blast
    then show "wp (cells_set_one ?i (kc_pos saved ! j) (kc_seq saved ! j) c') (?P (Suc j))"
      unfolding saved nth_map [OF j]
    proof (rule wp_mono)
      fix e
      assume e: "cells_inv e \<and> kc_has_shift e = kc_has_shift c' \<and> cells_put ?i (ps ?i) 0 (ss ?i) c' e"
      have lens: "length (kc_shift c') = length (kc_pos c')" "length (kc_seq c') = length (kc_pos c')"
        using P by (simp_all add: cells_inv_def)
      show "?P (Suc j) e"
        using e P j lens by (auto simp: cells_put_def take_Suc_conv_app_nth cells_same_at_def nth_list_update_if)
    qed
  qed
  then show ?thesis
    by (simp add: cells_set_idxs_def wp_rules saved)
qed

lemma cells_eqI:
  assumes "cells_inv c" and "cells_inv d" and "kc_has_shift c = kc_has_shift d"
    and "length (kc_pos c) = length (kc_pos d)"
    and "\<And>i. i < length (kc_pos c) \<Longrightarrow> cells_same_at c d i"
  shows "c = d"
  using assms by (intro cells_inv_unique) (auto intro!: nth_equalityI simp: cells_inv_def cells_same_at_def)

section \<open>Reachable cells\<close>

text \<open>
  The states a client can produce. Every mutator is a step when the code gets through it without
  an abort; the extra conditions are what the callers in \<^verbatim>\<open>llama-kv-cache.cpp\<close> guarantee: the
  positions given to \<^verbatim>\<open>pos_set\<close> are non-negative 32-bit positions, the divisor of
  \<^verbatim>\<open>pos_div\<close> is positive, and the cells given to \<^verbatim>\<open>set\<close> are cells of some cache.
\<close>

definition cells_storable :: "kv_cells \<Rightarrow> bool" where
  "cells_storable c \<longleftrightarrow> (\<forall>i < length (kc_pos c). cell_ok (kc_pos c ! i) 0 (kc_seq c ! i))"

inductive cells_reachable :: "kv_cells \<Rightarrow> bool" where
  new: "cells_reachable cells_new"
| reset: "cells_reachable c \<Longrightarrow> cells_reachable (cells_reset c)"
| reset_shift: "cells_reachable c \<Longrightarrow> cells_reachable (cells_reset_shift c)"
| resize: "cells_reachable c \<Longrightarrow> cells_reachable (cells_resize n c)"
| set_range: "cells_reachable c \<Longrightarrow> cells_storable x \<Longrightarrow> cells_set_range i x c = Some c' \<Longrightarrow> cells_reachable c'"
| set_idxs: "cells_reachable c \<Longrightarrow> cells_storable x \<Longrightarrow> cells_set_idxs idxs x c = Some c' \<Longrightarrow> cells_reachable c'"
| rm: "cells_reachable c \<Longrightarrow> cells_rm i c = Some c' \<Longrightarrow> cells_reachable c'"
| seq_rm: "cells_reachable c \<Longrightarrow> cells_seq_rm i s c = Some (b, c') \<Longrightarrow> cells_reachable c'"
| seq_keep: "cells_reachable c \<Longrightarrow> cells_seq_keep i s c = Some (b, c') \<Longrightarrow> cells_reachable c'"
| seq_add: "cells_reachable c \<Longrightarrow> cells_seq_add i s c = Some c' \<Longrightarrow> cells_reachable c'"
| pos_set: "cells_reachable c \<Longrightarrow> 0 \<le> p \<Longrightarrow> p \<le> int32_max \<Longrightarrow> cells_pos_set i p c = Some c' \<Longrightarrow> cells_reachable c'"
| pos_add: "cells_reachable c \<Longrightarrow> cells_pos_add i d c = Some (b, c') \<Longrightarrow> cells_reachable c'"
| pos_div: "cells_reachable c \<Longrightarrow> 0 < d \<Longrightarrow> cells_pos_div i d c = Some c' \<Longrightarrow> cells_reachable c'"

lemma set_one_wlp:
  assumes "cells_inv c" and "cell_ok p 0 S"
  shows "wlp (cells_set_one idx p S c) cells_inv"
proof (cases "idx < length (kc_pos c) \<and> kc_shift c ! idx = 0")
  case True
  with cells_set_one_spec [of c idx p S] assms have
    "wp (cells_set_one idx p S c) (\<lambda>c'. cells_inv c' \<and> kc_has_shift c' = kc_has_shift c \<and> cells_put idx p 0 S c c')" by blast
  then show ?thesis by (auto intro: wp_imp_wlp elim: wp_mono)
next
  case False
  have frame_rm: "kc_shift c' = kc_shift c \<and> kc_seq c' = kc_seq c" if "cells_seq_pos_rm i c = Some c'" for i c c'
  proof -
    have "wlp (cells_seq_pos_rm i c) (\<lambda>c'. kc_shift c' = kc_shift c \<and> kc_seq c' = kc_seq c)"
      unfolding cells_seq_pos_rm_def
      by (rule wlp_foldM_inv) (auto simp: cells_seq_pos_dec_def wlp_def split: option.splits Option.bind_splits)
    with that show ?thesis by simp
  qed
  have frame_add: "kc_shift (cells_seq_pos_add i c) = kc_shift c" for i c
    unfolding cells_seq_pos_add_def
    by (rule fold_invariant [where Q = "\<lambda>_. True" and P = "\<lambda>c'. kc_shift c' = kc_shift c"])
      (auto simp: cells_seq_pos_inc_def)
  from False have "cells_set_one idx p S c = None"
    by (auto simp: cells_set_one_def Let_def frame_add guard_def split: Option.bind_splits if_splits dest!: frame_rm)
  then show ?thesis by simp
qed

lemma cells_inv_reachable:
  assumes "cells_reachable c"
  shows "cells_inv c"
  using assms
proof (induction rule: cells_reachable.induct)
  case (reset c)
  then show ?case by (intro cells_inv_reset) (auto simp: cells_inv_def sp_counts_def)
next
  case (resize c n)
  then show ?case by (intro cells_inv_resize) (auto simp: cells_inv_def sp_counts_def)
next
  case (set_range c x i c')
  have "wlp (cells_set_range i x c) cells_inv"
    unfolding cells_set_range_def wlp_bind using set_range.IH set_range.hyps(2)
    by (auto simp: wlp_def [of "guard _"] cells_storable_def intro!: wlp_foldM_inv set_one_wlp split: option.splits)
  with set_range.hyps(3) show ?case by simp
next
  case (set_idxs c x idxs c')
  have "wlp (cells_set_idxs idxs x c) cells_inv"
    unfolding cells_set_idxs_def wlp_bind using set_idxs.IH set_idxs.hyps(2)
    by (auto simp: wlp_def [of "guard _"] cells_storable_def intro!: wlp_foldM_inv set_one_wlp split: option.splits)
  with set_idxs.hyps(3) show ?case by simp
next
  case (rm c i c')
  then have "i < length (kc_pos c)" "kc_pos c ! i \<noteq> - 1" by (auto simp: cells_rm_def guard_def split: Option.bind_splits if_splits)
  from cells_rm_spec [OF rm.IH this] rm.hyps(2) show ?case by simp
next
  case (seq_rm c i s b c')
  then have "i < length (kc_pos c)" "s \<in> kc_seq c ! i"
    by (auto simp: cells_seq_rm_def bitset_test_def guard_def split: Option.bind_splits if_splits)
  from cells_seq_rm_spec [OF seq_rm.IH this] seq_rm.hyps(2) show ?case by simp
next
  case (seq_keep c i s b c')
  then have "i < length (kc_pos c)" "s < LLAMA_MAX_SEQ" "kc_seq c ! i = {} \<Longrightarrow> kc_pos c ! i = - 1"
    by (auto simp: cells_seq_keep_def bitset_test_def guard_def split: Option.bind_splits if_splits)
  from cells_seq_keep_spec [OF seq_keep.IH this] seq_keep.hyps(2) show ?case by simp
next
  case (seq_add c i s c')
  then have "i < length (kc_pos c)" "s < LLAMA_MAX_SEQ" "s \<notin> kc_seq c ! i" "kc_pos c ! i \<noteq> - 1"
    by (auto simp: cells_seq_add_def bitset_test_def guard_def split: Option.bind_splits if_splits)
  from cells_seq_add_spec [OF seq_add.IH this] seq_add.hyps(2) show ?case by simp
next
  case (pos_set c p i c')
  then have "i < length (kc_pos c)" "kc_pos c ! i = - 1"
    by (auto simp: cells_pos_set_def guard_def split: Option.bind_splits if_splits)
  from cells_pos_set_spec [OF pos_set.IH this pos_set.hyps(2,3)] pos_set.hyps(4) show ?case by simp
next
  case (pos_add c i d b c')
  then have i: "i < length (kc_pos c)" "kc_pos c ! i \<noteq> - 1"
    by (auto simp: cells_pos_add_def guard_def split: Option.bind_splits if_splits)
  from seq_pos_rm_invE [OF pos_add.IH i(1)] obtain M where "cells_seq_pos_rm i c = Some (c\<lparr>kc_seq_pos := M\<rparr>)" by blast
  with pos_add.hyps(2) i have "int32_ok (kc_pos c ! i + d)" "int32_ok (kc_shift c ! i + d)"
    by (auto simp: cells_pos_add_def s32_def split: Option.bind_splits if_splits)
  from cells_pos_add_spec [OF pos_add.IH i this] pos_add.hyps(2) show ?case by simp
next
  case (pos_div c d i c')
  then have i: "i < length (kc_pos c)" "kc_pos c ! i \<noteq> - 1"
    by (auto simp: cells_pos_div_def guard_def split: Option.bind_splits if_splits)
  then have "0 \<le> kc_pos c ! i" using cells_invD(5) [OF pos_div.IH i(1)] by (auto simp: cell_ok_def)
  then have "kc_pos c ! i sdiv d = kc_pos c ! i div d" using pos_div.hyps(2)
    by (cases "kc_pos c ! i = 0") (simp_all add: signed_divide_int_def)
  moreover from seq_pos_rm_invE [OF pos_div.IH i(1)] obtain M where "cells_seq_pos_rm i c = Some (c\<lparr>kc_seq_pos := M\<rparr>)" by blast
  ultimately have "int32_ok (kc_shift c ! i + (kc_pos c ! i - kc_pos c ! i div d))"
    using pos_div.hyps(3) i by (auto simp: cells_pos_div_def s32_def Let_def split: Option.bind_splits if_splits)
  from cells_pos_div_spec [OF pos_div.IH i pos_div.hyps(2) this] pos_div.hyps(3) show ?case by simp
qed (auto simp: cells_inv_new cells_inv_reset_shift)

section \<open>Properties\<close>

text \<open>C1: in every state the operations can produce, the three derived indexes (the set of used
  cells, the per-sequence position counts, the shift flag) agree with the cells themselves, and
  every cell is either empty, without sequences and without shift, or at a non-negative position.\<close>

theorem cells_reachable_inv:
  assumes "cells_reachable c"
  shows "cells_inv c"
  using assms by (rule cells_inv_reachable)

definition demo_cells :: kv_cells where
  "demo_cells = \<lparr>kc_has_shift = False, kc_used = {0}, kc_pos = [7, - 1], kc_shift = [0, 0],
     kc_seq = [{2}, {}], kc_seq_pos = (replicate LLAMA_MAX_SEQ [])[2 := [(7, 1)]]\<rparr>"

lemma demo_cells_steps:
  "Option.bind (cells_pos_set 0 7 (cells_resize 2 cells_new)) (cells_seq_add 0 2) = Some demo_cells"
  by (simp add: cells_resize_new cells_pos_set_def cells_seq_add_def bitset_test_def bitset_set_def
      cells_seq_pos_inc_def om_inc_def LLAMA_MAX_SEQ_def demo_cells_def numeral_2_eq_2)

lemma demo_cells_reachable: "cells_reachable demo_cells"
proof -
  from demo_cells_steps obtain c where
    c: "cells_pos_set 0 7 (cells_resize 2 cells_new) = Some c" "cells_seq_add 0 2 c = Some demo_cells"
    by (cases "cells_pos_set 0 7 (cells_resize 2 cells_new)") simp_all
  have "cells_reachable c"
    by (rule cells_reachable.pos_set [OF cells_reachable.resize [OF cells_reachable.new] _ _ c(1)])
      (simp_all add: int32_max_def)
  then show ?thesis by (rule cells_reachable.seq_add [OF _ c(2)])
qed

theorem cells_reachable_inv_witness: "cells_reachable demo_cells \<and> cells_inv demo_cells"
  using cells_reachable_inv [OF demo_cells_reachable] demo_cells_reachable by blast

text \<open>C36: the queries answered from the indexes return what a scan of the cells gives: the least and
  the greatest position among the cells of a sequence (\<open>-1\<close> for none), and the number of
  non-empty cells; the debug assertions inside the queries never fail.\<close>

theorem cells_reachable_queries:
  assumes "cells_reachable c" and "s < LLAMA_MAX_SEQ"
  shows "cells_seq_pos_min s c = Some (if seq_positions s c = {} then - 1 else Min (seq_positions s c)) \<and>
    cells_seq_pos_max s c = Some (if seq_positions s c = {} then - 1 else Max (seq_positions s c)) \<and>
    cells_get_used c = card {i. i < length (kc_pos c) \<and> kc_pos c ! i \<noteq> - 1}"
  using cells_inv_reachable [OF assms(1)] assms(2) by (simp add: cells_seq_pos_minmax cells_get_used_eq)

lemma demo_cells_positions: "seq_positions 2 demo_cells = {7}"
  by (auto simp: seq_positions_def demo_cells_def less_Suc_eq intro: exI [where x = 0])

theorem cells_reachable_queries_witness:
  "cells_seq_pos_min 2 demo_cells = Some 7 \<and> cells_seq_pos_max 2 demo_cells = Some 7"
  using cells_reachable_queries [OF demo_cells_reachable, of 2] by (simp add: demo_cells_positions LLAMA_MAX_SEQ_def)

lemma cells_restore:
  assumes "cells_inv c" and "cells_inv d" and "length (kc_pos d) = length (kc_pos c)"
    and "kc_has_shift d = kc_has_shift c"
    and "\<forall>i \<in> set idxs. i < length (kc_pos c) \<and> kc_shift c ! i = 0 \<and> kc_shift d ! i = 0"
    and "\<forall>i < length (kc_pos c). i \<notin> set idxs \<longrightarrow> cells_same_at d c i"
  shows "\<exists>saved. cells_cp_idxs idxs c = Some saved \<and> cells_set_idxs idxs saved d = Some c"
proof -
  from cells_cp_idxs_spec [of idxs c] assms(5) obtain saved where saved:
    "cells_cp_idxs idxs c = Some saved" "kc_pos saved = map ((!) (kc_pos c)) idxs"
    "kc_seq saved = map ((!) (kc_seq c)) idxs" by (auto dest: wpD)
  have ok: "cell_ok (kc_pos c ! i) 0 (kc_seq c ! i)" if "i \<in> set idxs" for i
    using cells_invD(5) [OF assms(1), of i] assms(5) that by (metis (full_types))
  have "wp (cells_set_idxs idxs saved d) (\<lambda>e. e = c)"
  proof (rule wp_mono [OF cells_set_idxs_spec [OF assms(2) _ ok saved(2,3)]])
    fix e
    assume e: "cells_inv e \<and> kc_has_shift e = kc_has_shift d \<and> length (kc_pos e) = length (kc_pos d) \<and>
      (\<forall>i < length (kc_pos d). if i \<in> set idxs then kc_pos e ! i = kc_pos c ! i \<and> kc_shift e ! i = 0 \<and> kc_seq e ! i = kc_seq c ! i
         else cells_same_at e d i)"
    then have "cells_same_at e c i" if "i < length (kc_pos e)" for i
      using that assms(3,5,6) by (cases "i \<in> set idxs") (auto simp: cells_same_at_def)
    with e assms(1,3,4) show "e = c" by (intro cells_eqI) auto
  qed (use assms(3,5) in auto)
  with saved(1) show ?thesis by (auto dest: wpD)
qed

text \<open>Copying cells out and setting them back restores the whole object exactly, whatever the
  copied cells were changed to in between: all fields, the derived indexes included, are those of
  the original. \<open>d\<close> is the changed object; it agrees with \<open>c\<close> outside the copied cells.\<close>

theorem cells_cp_set_roundtrip:
  assumes "cells_inv c" and "cells_inv d" and "length (kc_pos d) = length (kc_pos c)"
    and "kc_has_shift d = kc_has_shift c"
    and "\<forall>i \<in> set idxs. i < length (kc_pos c) \<and> kc_shift c ! i = 0 \<and> kc_shift d ! i = 0"
    and "\<forall>i < length (kc_pos c). i \<notin> set idxs \<longrightarrow> cells_same_at d c i"
  shows "\<exists>saved. cells_cp_idxs idxs c = Some saved \<and> cells_set_idxs idxs saved d = Some c"
  by (rule cells_restore [OF assms])

lemma demo_cells_inv: "cells_inv demo_cells"
  using demo_cells_reachable by (rule cells_inv_reachable)

lemma demo_cells_empty_inv: "cells_inv (cells_resize 2 cells_new)"
  by (intro cells_inv_resize) (simp add: cells_new_def)

theorem cells_cp_set_roundtrip_witness:
  "\<exists>saved. cells_cp_idxs [0] demo_cells = Some saved \<and>
     cells_set_idxs [0] saved (cells_resize 2 cells_new) = Some demo_cells"
  by (rule cells_cp_set_roundtrip [OF demo_cells_inv demo_cells_empty_inv])
    (auto simp: cells_resize_new demo_cells_def cells_same_at_def less_Suc_eq)

text \<open>Removing one sequence from a reachable cell never aborts, keeps every other cell, keeps the
  other sequences of the cell, and frees the cell (position \<open>-1\<close>, shift 0, reported to the caller)
  exactly when the sequence was its last one.\<close>

theorem cells_seq_rm_effect:
  assumes "cells_reachable c" and "i < length (kc_pos c)" and "s \<in> kc_seq c ! i"
  shows "\<exists>c'. cells_seq_rm i s c = Some (kc_seq c ! i = {s}, c') \<and> cells_inv c' \<and>
    kc_has_shift c' = kc_has_shift c \<and>
    (if kc_seq c ! i = {s} then cells_put i (- 1) 0 {} c c'
     else cells_put i (kc_pos c ! i) (kc_shift c ! i) (kc_seq c ! i - {s}) c c')"
  by (rule wp_pairD [OF cells_seq_rm_spec [OF cells_inv_reachable [OF assms(1)] assms(2,3)]])

theorem cells_seq_rm_effect_witness:
  "\<exists>c'. cells_seq_rm 0 2 demo_cells = Some (True, c') \<and> kc_pos c' = [- 1, - 1]"
  using cells_seq_rm_effect [OF demo_cells_reachable, of 0 2] by (auto simp: demo_cells_def cells_put_def)

text \<open>Shifting the position of a used cell by \<open>d\<close> within the 32-bit range never aborts, moves the
  position and the pending shift of that cell alone, and frees the cell exactly when its new
  position is negative.\<close>

theorem cells_pos_add_effect:
  assumes "cells_reachable c" and "i < length (kc_pos c)" and "kc_pos c ! i \<noteq> - 1"
    and "int32_ok (kc_pos c ! i + d)" and "int32_ok (kc_shift c ! i + d)"
  shows "\<exists>c'. cells_pos_add i d c = Some (kc_pos c ! i + d < 0, c') \<and> cells_inv c' \<and> kc_has_shift c' \<and>
    (if kc_pos c ! i + d < 0 then cells_put i (- 1) 0 {} c c'
     else cells_put i (kc_pos c ! i + d) (kc_shift c ! i + d) (kc_seq c ! i) c c')"
  by (rule wp_pairD [OF cells_pos_add_spec [OF cells_inv_reachable [OF assms(1)] assms(2-5)]])

theorem cells_pos_add_effect_witness:
  "\<exists>c'. cells_pos_add 0 (- 5) demo_cells = Some (False, c') \<and> kc_pos c' = [2, - 1] \<and> kc_shift c' = [- 5, 0]"
  using cells_pos_add_effect [OF demo_cells_reachable, of 0 "- 5"]
  by (auto simp: demo_cells_def cells_put_def int32_ok_def int32_min_def int32_max_def)

text \<open>Dividing the position of a used cell by a positive \<open>d\<close> never aborts while the pending shift
  stays within 32 bits, and changes that cell alone. The pending shift grows by as much as the
  position falls, whereas \<^verbatim>\<open>pos_add\<close> moves both by the same amount.\<close>

theorem cells_pos_div_effect:
  assumes "cells_reachable c" and "i < length (kc_pos c)" and "kc_pos c ! i \<noteq> - 1" and "0 < d"
    and "int32_ok (kc_shift c ! i + (kc_pos c ! i - kc_pos c ! i div d))"
  shows "\<exists>c'. cells_pos_div i d c = Some c' \<and> cells_inv c' \<and> kc_has_shift c' \<and>
    cells_put i (kc_pos c ! i div d) (kc_shift c ! i + (kc_pos c ! i - kc_pos c ! i div d)) (kc_seq c ! i) c c' \<and>
    kc_shift c' ! i - kc_shift c ! i = - (kc_pos c' ! i - kc_pos c ! i)"
proof -
  from wpD [OF cells_pos_div_spec [OF cells_inv_reachable [OF assms(1)] assms(2-5)]] obtain c' where
    c': "cells_pos_div i d c = Some c'" "cells_inv c'" "kc_has_shift c'"
      "cells_put i (kc_pos c ! i div d) (kc_shift c ! i + (kc_pos c ! i - kc_pos c ! i div d)) (kc_seq c ! i) c c'" by blast
  have "length (kc_shift c) = length (kc_pos c)" using cells_invD(1) [OF cells_inv_reachable [OF assms(1)]] .
  with c'(4) assms(2) have "kc_shift c' ! i - kc_shift c ! i = - (kc_pos c' ! i - kc_pos c ! i)" by (simp add: cells_put_def)
  with c' show ?thesis by blast
qed

theorem cells_pos_div_effect_witness:
  "\<exists>c'. cells_pos_div 0 2 demo_cells = Some c' \<and> kc_pos c' = [3, - 1] \<and> kc_shift c' = [4, 0]"
  using cells_pos_div_effect [OF demo_cells_reachable, of 0 2]
  by (auto simp: demo_cells_def cells_put_def int32_ok_def int32_min_def int32_max_def)

end
