(* ===== verification/Batch.thy ===== *)
theory Batch
  imports KvCells
begin

text \<open>
  Batches and their splitting: \<^verbatim>\<open>src/src/llama-batch.h\<close> and \<^verbatim>\<open>src/src/llama-batch.cpp\<close>.
  \<open>allocr_init\<close> is \<^verbatim>\<open>llama_batch_allocr::init\<close>: it validates the caller's batch, generates the
  fields the caller left out, computes the sequence statistics and runs the consistency checks.
  \<open>split_simple\<close>, \<open>split_equal\<close> and \<open>split_seq\<close> cut the batch into micro-batches.

  A pointer of the C structures that may be null is an \<open>option\<close> of a list; an embedding matrix is
  the list of its rows. Reading outside the caller's arrays is the result \<open>None\<close>
  (\<open>batch_wf\<close> says which arrays the code reads). The fields of the embedded \<^verbatim>\<open>batch\<close> after
  initialisation are fields of \<open>allocr\<close>; the debug printing is left out.
\<close>

section \<open>Data\<close>

text \<open>\<^verbatim>\<open>struct llama_batch\<close>.\<close>

record 'e llama_batch =
  b_n_tokens :: int
  b_token :: "int list option"
  b_embd :: "'e list list option"
  b_pos :: "int list option"
  b_n_seq_id :: "int list option"
  b_seq_id :: "int list list option"
  b_logits :: "int list option"

text \<open>\<^verbatim>\<open>struct llama_ubatch\<close>.\<close>

record 'e llama_ubatch =
  ub_equal_seqs :: bool
  ub_n_tokens :: nat
  ub_n_seq_tokens :: nat
  ub_n_seqs :: nat
  ub_n_seqs_unq :: nat
  ub_token :: "int list option"
  ub_embd :: "'e list list option"
  ub_pos :: "int list"
  ub_n_seq_id :: "int list"
  ub_seq_id :: "int list list"
  ub_seq_id_unq :: "nat list"
  ub_seq_idx :: "int list"
  ub_output :: "int list"

text \<open>The value-initialised \<^verbatim>\<open>llama_ubatch\<close> that the splits return when there is nothing left.\<close>

definition ubatch_empty :: "'e llama_ubatch" where
  "ubatch_empty = \<lparr>ub_equal_seqs = False, ub_n_tokens = 0, ub_n_seq_tokens = 0, ub_n_seqs = 0,
     ub_n_seqs_unq = 0, ub_token = None, ub_embd = None, ub_pos = [], ub_n_seq_id = [], ub_seq_id = [],
     ub_seq_id_unq = [], ub_seq_idx = [], ub_output = []\<rparr>"

text \<open>\<^verbatim>\<open>class llama_batch_allocr\<close>.\<close>

record 'e allocr =
  al_n_tokens :: nat
  al_token :: "int list option"
  al_embd :: "'e list list option"
  al_pos :: "int list"
  al_n_seq_id :: "int list"
  al_seq_id :: "int list list"
  al_logits :: "int list"
  al_n_pos_per_embd :: nat
  al_n_embd :: nat
  al_n_seq_max :: nat
  al_n_outputs :: nat
  al_seq_id_unq :: "nat list"
  al_seq_idx :: "int list"
  al_has_cpl :: bool
  al_seq_pos :: "nat \<Rightarrow> int set"
  al_seq_cpl :: "nat \<Rightarrow> nat \<Rightarrow> bool"
  al_seq_set :: "nat set list"
  al_seq_set_map :: "nat set \<Rightarrow> nat list"
  al_out_ids :: "nat list"
  al_n_used :: nat
  al_used :: "bool list"

datatype batch_error =
    NSeqMaxTooLarge
  | InvalidToken nat
  | InvalidSeqId nat
  | InconsistentPositions nat
  | PositionsNotContinuous nat
  | CoupledDiverged nat nat
  | IncompatibleSequenceSets nat
  | DecreasingPositions nat

section \<open>Initialisation\<close>

text \<open>
  The arrays the code reads exist and are long enough. A batch has tokens or embeddings
  (\<^verbatim>\<open>llama_context::decode\<close> asserts it), a batch with \<^verbatim>\<open>seq_id\<close> has \<^verbatim>\<open>n_seq_id\<close>, and every
  \<^verbatim>\<open>seq_id[i]\<close> has the announced entries and at least the first one.
\<close>

definition batch_wf :: "nat \<Rightarrow> 'e llama_batch \<Rightarrow> bool" where
  "batch_wf n_pos b = (let n = nat (b_n_tokens b) in
     (b_token b \<noteq> None \<or> b_embd b \<noteq> None) \<and>
     (case b_token b of None \<Rightarrow> True | Some t \<Rightarrow> length t = n) \<and>
     (case b_embd b of None \<Rightarrow> True | Some e \<Rightarrow> length e = n) \<and>
     (case b_pos b of None \<Rightarrow> b_embd b = None \<or> n_pos = 1
        | Some p \<Rightarrow> length p = (if b_embd b = None then 1 else n_pos) * n) \<and>
     (case b_n_seq_id b of None \<Rightarrow> b_seq_id b = None | Some k \<Rightarrow> length k = n) \<and>
     (case b_seq_id b of
        None \<Rightarrow> (case b_n_seq_id b of None \<Rightarrow> True | Some k \<Rightarrow> list_all (\<lambda>x. x \<le> 1) k)
      | Some sid \<Rightarrow> length sid = n \<and> list_all (\<lambda>xs. xs \<noteq> []) sid \<and>
          (case b_n_seq_id b of None \<Rightarrow> True | Some k \<Rightarrow> list_all2 (\<lambda>x xs. nat x \<le> length xs) k sid)) \<and>
     (case b_logits b of None \<Rightarrow> True | Some l \<Rightarrow> length l = n))"

text \<open>The sequence ids of a token, as the loops over \<^verbatim>\<open>n_seq_id[i]\<close> see them.\<close>

definition token_seqs :: "int list \<Rightarrow> int list list \<Rightarrow> nat \<Rightarrow> nat list" where
  "token_seqs nsid sid i = map nat (take (nat (nsid ! i)) (sid ! i))"

definition first_bad_token :: "nat \<Rightarrow> int list \<Rightarrow> nat option" where
  "first_bad_token n_vocab toks = find (\<lambda>i. toks ! i < 0 \<or> toks ! i \<ge> int n_vocab) [0..<length toks]"

definition first_bad_seq :: "nat \<Rightarrow> nat \<Rightarrow> int list \<Rightarrow> int list list \<Rightarrow> nat option" where
  "first_bad_seq n n_seq_max nsid sid =
     find (\<lambda>i. list_ex (\<lambda>s. s < 0 \<or> s \<ge> int n_seq_max) (take (nat (nsid ! i)) (sid ! i))) [0..<n]"

text \<open>
  The generated positions: each token takes the next position of its first sequence, and moves
  every sequence it belongs to. \<open>p0\<close> holds the next position of each sequence below \<open>n_seq_max\<close>;
  the others are not initialised.
\<close>

fun gen_pos :: "nat \<Rightarrow> (nat \<Rightarrow> int) \<Rightarrow> (int \<times> int list) list \<Rightarrow> int list option" where
  "gen_pos n_seq_max p0 [] = Some []"
| "gen_pos n_seq_max p0 ((k, ids) # toks) = do {
     guard (ids \<noteq> [] \<and> 0 \<le> hd ids \<and> hd ids < int n_seq_max);
     let p = p0 (nat (hd ids));
     q \<leftarrow> s32 (p + 1);
     ps \<leftarrow> gen_pos n_seq_max (fold (\<lambda>s f. f(nat s := q)) (take (nat k) ids) p0) toks;
     Some (p # ps)
   }"

definition seq_index :: "nat list \<Rightarrow> nat \<Rightarrow> int" where
  "seq_index unq s = (if s \<in> set unq then int (length (filter (\<lambda>t. t < s) unq)) else - 1)"

text \<open>Start of a sequence against the memory, then continuity of its positions in the batch. The difference of the last
  and the first position is exact here; in the code it is a 32-bit difference, which overflows when they are \<open>2 ^ 31\<close> apart.\<close>

definition check_seq :: "bool \<Rightarrow> (nat \<Rightarrow> int) option \<Rightarrow> (nat \<Rightarrow> int set) \<Rightarrow> nat \<Rightarrow> batch_error option" where
  "check_seq has_token mem_max seq_pos s =
     (if seq_pos s = {} then None
      else
        let p0 = (case mem_max of None \<Rightarrow> - 1 | Some m \<Rightarrow> m s);
            pmin = Min (seq_pos s); pmax = Max (seq_pos s);
            ok = (if p0 \<ge> 0 then (if has_token then pmin = p0 + 1 else pmin = p0 \<or> pmin = p0 + 1) else True)
        in if \<not> ok then Some (InconsistentPositions s)
           else if pmax - pmin + 1 > int (card (seq_pos s)) then Some (PositionsNotContinuous s)
           else None)"

fun first_error :: "('a \<Rightarrow> batch_error option) \<Rightarrow> 'a list \<Rightarrow> batch_error option" where
  "first_error f [] = None"
| "first_error f (x # xs) = (case f x of Some e \<Rightarrow> Some e | None \<Rightarrow> first_error f xs)"

definition check_coupled ::
  "(nat \<Rightarrow> nat \<Rightarrow> bool) \<Rightarrow> (nat \<Rightarrow> int) \<Rightarrow> (nat \<Rightarrow> int) \<Rightarrow> nat \<times> nat \<Rightarrow> batch_error option" where
  "check_coupled cpl mmin mmax = (\<lambda>(s0, s1).
     if cpl s0 s1 \<and> (mmin s0 \<noteq> mmin s1 \<or> mmax s0 \<noteq> mmax s1) then Some (CoupledDiverged s0 s1) else None)"

text \<open>
  The last check. \<open>cs\<close> is \<^verbatim>\<open>cur_seq_set\<close>, \<open>cp\<close> is \<^verbatim>\<open>cur_seq_pos\<close>; the list holds, token by token
  and sequence by sequence, the token's position, its sequence set and the sequence id.
\<close>

fun check_subsets ::
  "(nat \<Rightarrow> nat set) \<Rightarrow> (nat \<Rightarrow> int) \<Rightarrow> (int \<times> nat set \<times> nat) list \<Rightarrow> batch_error option" where
  "check_subsets cs cp [] = None"
| "check_subsets cs cp ((p, S, s) # rest) =
     (let cs' = cs(s := cs s \<inter> S) in
      if cs' s = {} then Some (IncompatibleSequenceSets s)
      else if p < cp s then Some (DecreasingPositions s)
      else check_subsets cs' cp rest)"

definition split_reset :: "'e allocr \<Rightarrow> 'e allocr" where
  "split_reset a = a\<lparr>al_out_ids := [], al_n_used := 0, al_used := replicate (al_n_tokens a) False\<rparr>"

text \<open>The generated fields, as \<open>(n_seq_id, seq_id, pos, logits)\<close>.\<close>

definition gen_fields ::
  "'e llama_batch \<Rightarrow> (nat \<Rightarrow> int) option \<Rightarrow> nat \<Rightarrow> bool \<Rightarrow> (int list \<times> int list list \<times> int list \<times> int list) option" where
  "gen_fields b mem_max n_seq_max output_all = (let n = nat (b_n_tokens b) in do {
     let nsid = (case b_n_seq_id b of Some k \<Rightarrow> k | None \<Rightarrow> replicate n 1);
     let sid = (case b_seq_id b of Some s \<Rightarrow> s | None \<Rightarrow> replicate n [0]);
     ps \<leftarrow> (case b_pos b of
              Some p \<Rightarrow> Some p
            | None \<Rightarrow> gen_pos n_seq_max (\<lambda>s. case mem_max of None \<Rightarrow> 0 | Some m \<Rightarrow> m s + 1) (zip nsid sid));
     let lg = (case b_logits b of
                 None \<Rightarrow> (if output_all then replicate n 1 else replicate (n - 1) 0 @ [1])
               | Some l \<Rightarrow> (if output_all \<and> list_ex (\<lambda>x. x = 0) l then replicate n 1 else l));
     Some (nsid, sid, ps, lg)
   })"

text \<open>The sequence statistics of the completed batch.\<close>

definition allocr_stats ::
  "nat \<Rightarrow> 'e llama_batch \<Rightarrow> nat \<Rightarrow> nat \<Rightarrow> int list \<times> int list list \<times> int list \<times> int list \<Rightarrow> 'e allocr" where
  "allocr_stats n_pos b n_embd n_seq_max = (\<lambda>(nsid, sid, ps, lg).
     let n = nat (b_n_tokens b);
         ids = token_seqs nsid sid;
         seq_set = map (\<lambda>i. set (ids i)) [0..<n];
         unq = filter (\<lambda>s. list_ex (\<lambda>i. s \<in> set (ids i)) [0..<n]) [0..<n_seq_max]
     in \<lparr>al_n_tokens = n, al_token = b_token b, al_embd = b_embd b, al_pos = ps, al_n_seq_id = nsid,
         al_seq_id = sid, al_logits = lg, al_n_pos_per_embd = n_pos, al_n_embd = n_embd,
         al_n_seq_max = n_seq_max, al_n_outputs = length (filter (\<lambda>x. x \<noteq> 0) lg),
         al_seq_id_unq = unq, al_seq_idx = map (seq_index unq) [0..<LLAMA_MAX_SEQ],
         al_has_cpl = list_ex (\<lambda>i. length (ids i) > 1) [0..<n],
         al_seq_pos = (\<lambda>s. set (map ((!) ps) (filter (\<lambda>i. s \<in> set (ids i)) [0..<n]))),
         al_seq_cpl = (\<lambda>s1 s0. list_ex (\<lambda>i. s1 \<in> set (tl (ids i)) \<and> int s0 = hd (sid ! i)) [0..<n]),
         al_seq_set = seq_set,
         al_seq_set_map = (\<lambda>S. filter (\<lambda>i. seq_set ! i = S) [0..<n]),
         al_out_ids = [], al_n_used = 0, al_used = []\<rparr>)"

text \<open>The consistency checks, in their order; the memory gives the least and greatest position of a sequence.\<close>

definition allocr_checks :: "((nat \<Rightarrow> int) \<times> (nat \<Rightarrow> int)) option \<Rightarrow> 'e allocr \<Rightarrow> batch_error option" where
  "allocr_checks mem a = (let n_seq_max = al_n_seq_max a in
     case first_error (check_seq (al_token a \<noteq> None) (map_option snd mem) (al_seq_pos a)) [0..<n_seq_max] of
       Some e \<Rightarrow> Some e
     | None \<Rightarrow>
     (case (case mem of None \<Rightarrow> None
            | Some (mmin, mmax) \<Rightarrow> first_error (check_coupled (al_seq_cpl a) mmin mmax)
                (List.product [0..<n_seq_max] [0..<n_seq_max])) of
       Some e \<Rightarrow> Some e
     | None \<Rightarrow> check_subsets (\<lambda>s. if s < n_seq_max then {..<LLAMA_MAX_SEQ} else {}) (\<lambda>_. - 1)
         (concat (map (\<lambda>i. map (\<lambda>s. (al_pos a ! i, al_seq_set a ! i, s)) (token_seqs (al_n_seq_id a) (al_seq_id a) i))
           [0..<al_n_tokens a]))))"

definition allocr_init ::
  "nat \<Rightarrow> 'e llama_batch \<Rightarrow> nat \<Rightarrow> ((nat \<Rightarrow> int) \<times> (nat \<Rightarrow> int)) option \<Rightarrow> nat \<Rightarrow> nat \<Rightarrow> bool
     \<Rightarrow> (batch_error + 'e allocr) option" where
  "allocr_init n_pos b n_vocab mem n_embd n_seq_max output_all = do {
     guard (b_n_tokens b > 0);
     if n_seq_max > LLAMA_MAX_SEQ then Some (Inl NSeqMaxTooLarge)
     else do {
       guard (batch_wf n_pos b);
       case (case b_token b of None \<Rightarrow> None | Some t \<Rightarrow> first_bad_token n_vocab t) of
         Some i \<Rightarrow> Some (Inl (InvalidToken i))
       | None \<Rightarrow>
       (case (case b_seq_id b of None \<Rightarrow> None
              | Some sid \<Rightarrow> first_bad_seq (nat (b_n_tokens b)) n_seq_max (the (b_n_seq_id b)) sid) of
         Some i \<Rightarrow> Some (Inl (InvalidSeqId i))
       | None \<Rightarrow> do {
         fields \<leftarrow> gen_fields b (map_option snd mem) n_seq_max output_all;
         let a = allocr_stats n_pos b n_embd n_seq_max fields;
         Some (case allocr_checks mem a of Some e \<Rightarrow> Inl e | None \<Rightarrow> Inr (split_reset a))
       })
     }
   }"

definition allocr_seq_pos_min :: "nat \<Rightarrow> 'e allocr \<Rightarrow> int" where
  "allocr_seq_pos_min s a = (if al_seq_pos a s = {} then - 1 else Min (al_seq_pos a s))"

definition allocr_seq_pos_max :: "nat \<Rightarrow> 'e allocr \<Rightarrow> int" where
  "allocr_seq_pos_max s a = (if al_seq_pos a s = {} then - 1 else Max (al_seq_pos a s))"

text \<open>\<^verbatim>\<open>clear\<close> and \<^verbatim>\<open>ubatch_reserve\<close>: the worst-case micro-batch of the graph reservation.\<close>

definition allocr_clear :: "'e allocr \<Rightarrow> 'e allocr" where
  "allocr_clear a = a\<lparr>al_n_outputs := 0, al_n_tokens := 0, al_token := None, al_embd := None, al_pos := [],
     al_n_seq_id := [], al_seq_id := [], al_logits := [], al_seq_id_unq := [], al_seq_pos := (\<lambda>_. {}),
     al_seq_cpl := (\<lambda>_ _. False), al_seq_set := [], al_seq_set_map := (\<lambda>_. []),
     al_seq_idx := map (\<lambda>_. - 1) (al_seq_idx a)\<rparr>"

definition ubatch_reserve :: "nat \<Rightarrow> nat \<Rightarrow> 'e allocr \<Rightarrow> ('e llama_ubatch \<times> 'e allocr) option" where
  "ubatch_reserve n_seq_tokens n_seqs a = (let n_tokens = n_seq_tokens * n_seqs in do {
     guard (n_seqs \<le> LLAMA_MAX_SEQ);
     Some (\<lparr>ub_equal_seqs = True, ub_n_tokens = n_tokens, ub_n_seq_tokens = n_seq_tokens, ub_n_seqs = n_seqs,
       ub_n_seqs_unq = n_seqs, ub_token = Some (replicate n_tokens 0), ub_embd = None, ub_pos = replicate n_tokens 0,
       ub_n_seq_id = replicate n_tokens 0, ub_seq_id = replicate n_tokens [], ub_seq_id_unq = [0..<n_seqs],
       ub_seq_idx = map (\<lambda>s. if s < n_seqs then int s else - 1) [0..<LLAMA_MAX_SEQ],
       ub_output = replicate n_tokens 0\<rparr>, split_reset (allocr_clear a))
   })"

text \<open>\<^verbatim>\<open>llama_batch_get_one\<close>: a batch that leaves everything but the tokens to \<open>allocr_init\<close>.\<close>

definition llama_batch_get_one :: "int list \<Rightarrow> 'e llama_batch" where
  "llama_batch_get_one tokens = \<lparr>b_n_tokens = int (length tokens), b_token = Some tokens, b_embd = None,
     b_pos = None, b_n_seq_id = None, b_seq_id = None, b_logits = None\<rparr>"

section \<open>Splitting\<close>

text \<open>\<^verbatim>\<open>ubatch_add\<close>: the micro-batch of the given batch indices.\<close>

definition ubatch_add :: "nat list \<Rightarrow> nat \<Rightarrow> bool \<Rightarrow> 'e allocr \<Rightarrow> ('e llama_ubatch \<times> 'e allocr) option" where
  "ubatch_add idxs n_seqs equal_seqs a = do {
     let n_tokens = length idxs;
     guard (n_seqs \<noteq> 0 \<and> n_tokens mod n_seqs = 0);
     guard (list_all (\<lambda>i. i < al_n_tokens a) idxs);
     let n_pos_cur = (if al_embd a = None then 1 else al_n_pos_per_embd a);
     let ids = token_seqs (al_n_seq_id a) (al_seq_id a);
     let unq = filter (\<lambda>s. list_ex (\<lambda>i. s \<in> set (ids i)) idxs) [0..<al_n_seq_max a];
     let res = \<lparr>
       ub_equal_seqs = equal_seqs,
       ub_n_tokens = n_tokens,
       ub_n_seq_tokens = n_tokens div n_seqs,
       ub_n_seqs = n_seqs,
       ub_n_seqs_unq = length unq,
       ub_token = map_option (\<lambda>t. map ((!) t) idxs) (al_token a),
       ub_embd = map_option (\<lambda>e. map ((!) e) idxs) (al_embd a),
       ub_pos = concat (map (\<lambda>j. map (\<lambda>i. al_pos a ! (j * al_n_tokens a + i)) idxs) [0..<n_pos_cur]),
       ub_n_seq_id = map ((!) (al_n_seq_id a)) idxs,
       ub_seq_id = map ((!) (al_seq_id a)) idxs,
       ub_seq_id_unq = unq,
       ub_seq_idx = map (seq_index unq) [0..<LLAMA_MAX_SEQ],
       ub_output = map ((!) (al_logits a)) idxs\<rparr>;
     Some (res, a\<lparr>al_out_ids := al_out_ids a @ filter (\<lambda>i. al_logits a ! i \<noteq> 0) idxs\<rparr>)
   }"

definition first_unused :: "bool list \<Rightarrow> nat" where
  "first_unused used = length (takeWhile (\<lambda>b. b) used)"

definition mark_used :: "nat list \<Rightarrow> 'e allocr \<Rightarrow> 'e allocr" where
  "mark_used idxs a = a\<lparr>al_used := fold (\<lambda>i u. u[i := True]) idxs (al_used a), al_n_used := al_n_used a + length idxs\<rparr>"

subsection \<open>Simple split\<close>

function simple_idxs :: "nat \<Rightarrow> nat \<Rightarrow> nat \<Rightarrow> nat list \<Rightarrow> nat list" where
  "simple_idxs n n_ubatch cur idxs =
     (let idxs' = idxs @ [cur]; cur' = Suc cur in
      if cur' \<ge> n then idxs' else if length idxs' \<ge> n_ubatch then idxs' else simple_idxs n n_ubatch cur' idxs')"
  by pat_completeness auto
termination
  by (relation "measure (\<lambda>(n, n_ubatch, cur, idxs). n - cur)") auto

declare simple_idxs.simps [simp del]

definition split_simple :: "nat \<Rightarrow> 'e allocr \<Rightarrow> ('e llama_ubatch \<times> 'e allocr) option" where
  "split_simple n_ubatch a = do {
     let cur = first_unused (al_used a);
     if cur \<ge> length (al_used a) then Some (ubatch_empty, a)
     else do {
       let idxs = simple_idxs (length (al_used a)) n_ubatch cur [];
       ubatch_add idxs (length idxs) False (mark_used idxs a)
     }
   }"

subsection \<open>Equal split\<close>

fun select_sets :: "nat \<Rightarrow> bool \<Rightarrow> 'e allocr \<Rightarrow> nat list \<Rightarrow> nat set list \<Rightarrow> int \<Rightarrow> nat set list" where
  "select_sets n_ubatch sequential a [] css lst = css"
| "select_sets n_ubatch sequential a (i # is) css lst =
     (if al_used a ! i then select_sets n_ubatch sequential a is css lst
      else
        let add = list_all (\<lambda>S. S \<inter> al_seq_set a ! i = {}) css;
            add' = (if sequential then add \<and> (css = [] \<or> hd (al_seq_id a ! i) = lst + 1) else add)
        in if add' then
             let css' = css @ [al_seq_set a ! i] in
             if length css' > n_ubatch then css'
             else select_sets n_ubatch sequential a is css' (hd (al_seq_id a ! i))
           else select_sets n_ubatch sequential a is css lst)"

text \<open>
  The rounds of the equal split. \<open>maps\<close> holds the index list of each selected sequence set; the
  state is \<^verbatim>\<open>cur_idx\<close>, \<^verbatim>\<open>idxs_per_seq\<close> and the tokens taken so far, in the order they are marked.
\<close>

definition can_expand :: "nat list list \<Rightarrow> nat list \<Rightarrow> bool" where
  "can_expand maps cur \<longleftrightarrow> list_all2 (\<lambda>m k. k < length m) maps cur"

function equal_rounds ::
  "nat \<Rightarrow> nat list list \<Rightarrow> nat list \<Rightarrow> nat list list \<Rightarrow> nat list \<Rightarrow> nat list list \<times> nat list" where
  "equal_rounds n_ubatch maps cur per taken =
     (if maps \<noteq> [] \<and> can_expand maps cur then
        let picks = map2 (\<lambda>m k. m ! k) maps cur;
            per' = map2 (\<lambda>xs x. xs @ [x]) per picks;
            taken' = taken @ picks
        in if (length (hd per') + 1) * length maps > n_ubatch then (per', taken')
           else equal_rounds n_ubatch maps (map Suc cur) per' taken'
      else (per, taken))"
  by pat_completeness auto
termination
proof (relation "measure (\<lambda>(n_ubatch, maps, cur, per, taken). length (hd maps) - hd cur)", goal_cases)
  case (2 n_ubatch maps cur per taken)
  then show ?case by (cases maps; cases cur) (auto simp: can_expand_def)
qed simp

declare equal_rounds.simps [simp del]

definition split_equal :: "nat \<Rightarrow> bool \<Rightarrow> 'e allocr \<Rightarrow> ('e llama_ubatch \<times> 'e allocr) option" where
  "split_equal n_ubatch sequential a =
     (if sequential \<and> al_has_cpl a then Some (ubatch_empty, a)
      else do {
        guard (length (al_used a) = al_n_tokens a);
        let css = select_sets n_ubatch sequential a [0..<al_n_tokens a] [] (- 1);
        let n_seqs = length css;
        if n_seqs = 0 then Some (ubatch_empty, a)
        else do {
          let maps = map (al_seq_set_map a) css;
          let cur = map (\<lambda>m. length (takeWhile (\<lambda>i. al_used a ! i) m)) maps;
          guard (can_expand maps cur);
          let (per, taken) = equal_rounds n_ubatch maps cur (replicate n_seqs []) [];
          ubatch_add (concat per) n_seqs True (mark_used taken a)
        }
      })"

subsection \<open>Sequence-set split\<close>

text \<open>The next index after \<open>cur\<close> that is unused and whose sequence set is contained in \<open>S\<close>.\<close>

definition next_subset :: "'e allocr \<Rightarrow> nat set \<Rightarrow> nat \<Rightarrow> nat option" where
  "next_subset a S cur = find (\<lambda>i. \<not> al_used a ! i \<and> S \<inter> al_seq_set a ! i = al_seq_set a ! i) [Suc cur..<al_n_tokens a]"

function seq_idxs :: "nat \<Rightarrow> 'e allocr \<Rightarrow> nat \<Rightarrow> nat list \<Rightarrow> nat list" where
  "seq_idxs n_ubatch a cur idxs =
     (let idxs' = idxs @ [cur] in
      if length idxs' \<ge> n_ubatch then idxs'
      else (case next_subset a (al_seq_set a ! cur) cur of
              None \<Rightarrow> idxs'
            | Some cur' \<Rightarrow> seq_idxs n_ubatch a cur' idxs'))"
  by pat_completeness auto
termination
proof (relation "measure (\<lambda>(n_ubatch, a, cur, idxs). al_n_tokens a - cur)", goal_cases)
  case (2 n_ubatch a cur idxs idxs' cur')
  then show ?case by (auto simp: next_subset_def find_Some_iff)
qed simp

declare seq_idxs.simps [simp del]

definition split_seq :: "nat \<Rightarrow> 'e allocr \<Rightarrow> ('e llama_ubatch \<times> 'e allocr) option" where
  "split_seq n_ubatch a = do {
     let cur = first_unused (al_used a);
     if cur \<ge> length (al_used a) then Some (ubatch_empty, a)
     else do {
       let idxs = seq_idxs n_ubatch a cur [];
       ubatch_add idxs 1 True (mark_used idxs a)
     }
   }"

section \<open>The consistency checks\<close>

lemma check_subsets_cases:
  assumes "\<And>p S s. (p, S, s) \<in> set xs \<Longrightarrow> s \<in> S \<and> s \<in> cs s"
    and "check_subsets cs cp xs = Some e"
  shows "\<exists>p S s. (p, S, s) \<in> set xs \<and> p < cp s \<and> e = DecreasingPositions s"
  using assms
proof (induction xs arbitrary: cs)
  case (Cons x xs)
  obtain p S s where x: "x = (p, S, s)" by (cases x)
  with Cons.prems have s: "s \<in> S" "s \<in> cs s" by fastforce+
  show ?case
  proof (cases "p < cp s")
    case True
    with Cons.prems(2) s x show ?thesis by (auto simp: Let_def split: if_splits)
  next
    case False
    with Cons.prems(2) s x have "check_subsets (cs(s := cs s \<inter> S)) cp xs = Some e"
      by (auto simp: Let_def split: if_splits)
    moreover have "t \<in> T \<and> t \<in> (cs(s := cs s \<inter> S)) t" if "(q, T, t) \<in> set xs" for q T t
      using Cons.prems(1) [of q T t] that s by auto
    ultimately obtain q T t where "(q, T, t) \<in> set xs \<and> q < cp t \<and> e = DecreasingPositions t"
      using Cons.IH by blast
    then show ?thesis by (intro exI [where x = q] exI [where x = T] exI [where x = t]) simp
  qed
qed simp

lemma first_error_Some: "first_error f xs = Some e \<Longrightarrow> \<exists>x \<in> set xs. f x = Some e"
  by (induction xs) (auto split: option.splits)

lemma check_seq_errors: "check_seq t m sp s = Some e \<Longrightarrow> e = InconsistentPositions s \<or> e = PositionsNotContinuous s"
  by (auto simp: check_seq_def Let_def split: if_splits)

lemma check_coupled_errors: "check_coupled cpl mmin mmax st = Some e \<Longrightarrow> \<exists>s0 s1. e = CoupledDiverged s0 s1"
  by (auto simp: check_coupled_def split: if_splits prod.splits)

text \<open>The ids that reach the statistics are below \<^verbatim>\<open>n_seq_max\<close>.\<close>

lemma token_seqs_bound:
  assumes wf: "batch_wf n_pos b" and i: "i < nat (b_n_tokens b)" and mx: "0 < n_seq_max"
    and ok: "case b_seq_id b of None \<Rightarrow> True | Some sid \<Rightarrow> first_bad_seq (nat (b_n_tokens b)) n_seq_max (the (b_n_seq_id b)) sid = None"
    and gen: "gen_fields b mem n_seq_max output_all = Some (nsid, sid, ps, lg)"
    and s: "s \<in> set (token_seqs nsid sid i)"
  shows "s < n_seq_max"
proof (cases "b_seq_id b")
  case None
  with gen have "sid = replicate (nat (b_n_tokens b)) [0]"
    by (auto simp: gen_fields_def Let_def split: Option.bind_splits)
  with s i mx show ?thesis by (auto simp: token_seqs_def dest!: in_set_takeD)
next
  case (Some sd)
  with gen wf have eq: "sid = sd" "Some nsid = b_n_seq_id b"
    by (auto simp: gen_fields_def batch_wf_def Let_def split: Option.bind_splits option.splits)
  from ok Some i eq have "\<not> list_ex (\<lambda>s. s < 0 \<or> s \<ge> int n_seq_max) (take (nat (nsid ! i)) (sd ! i))"
    by (auto simp: first_bad_seq_def find_None_iff option.sel [symmetric] simp del: option.sel)
      (metis option.sel)
  with s eq show ?thesis
    by (fastforce simp: token_seqs_def list_ex_iff)
qed

text \<open>How a call of \<open>allocr_init\<close> got past the validation.\<close>

lemma allocr_initE:
  assumes "allocr_init n_pos b n_vocab mem n_embd n_seq_max output_all = Some r"
    and "\<forall>i. r \<noteq> Inl (InvalidToken i) \<and> r \<noteq> Inl (InvalidSeqId i)" "r \<noteq> Inl NSeqMaxTooLarge"
  obtains nsid sid ps lg where "0 < nat (b_n_tokens b)" and "n_seq_max \<le> LLAMA_MAX_SEQ" and "batch_wf n_pos b"
    and "case b_seq_id b of None \<Rightarrow> True
      | Some sid \<Rightarrow> first_bad_seq (nat (b_n_tokens b)) n_seq_max (the (b_n_seq_id b)) sid = None"
    and "gen_fields b (map_option snd mem) n_seq_max output_all = Some (nsid, sid, ps, lg)"
    and "r = (case allocr_checks mem (allocr_stats n_pos b n_embd n_seq_max (nsid, sid, ps, lg)) of
      Some e \<Rightarrow> Inl e | None \<Rightarrow> Inr (split_reset (allocr_stats n_pos b n_embd n_seq_max (nsid, sid, ps, lg))))"
proof -
  define G where "G f = (case allocr_checks mem (allocr_stats n_pos b n_embd n_seq_max f) of
      Some e \<Rightarrow> Inl e | None \<Rightarrow> Inr (split_reset (allocr_stats n_pos b n_embd n_seq_max f)))" for f
  from assms have "0 < nat (b_n_tokens b) \<and> n_seq_max \<le> LLAMA_MAX_SEQ \<and> batch_wf n_pos b \<and>
      (case b_seq_id b of None \<Rightarrow> True
        | Some sid \<Rightarrow> first_bad_seq (nat (b_n_tokens b)) n_seq_max (the (b_n_seq_id b)) sid = None) \<and>
      (\<exists>f. gen_fields b (map_option snd mem) n_seq_max output_all = Some f \<and> r = G f)"
    unfolding allocr_init_def Let_def G_def [symmetric]
    by (auto simp: guard_def split: if_splits Option.bind_splits option.splits)
  then show ?thesis using that unfolding G_def by (metis prod_cases4)
qed

lemma allocr_init_subset_error:
  assumes init: "allocr_init n_pos b n_vocab mem n_embd n_seq_max output_all = Some (Inl e)"
    and mx0: "0 < n_seq_max" and e: "e = IncompatibleSequenceSets s \<or> e = DecreasingPositions s"
  shows "batch_wf n_pos b \<and> (\<exists>ps i. e = DecreasingPositions s \<and> i < nat (b_n_tokens b) \<and> ps ! i < - 1 \<and>
    (b_pos b = Some ps \<or> (b_pos b = None \<and> (\<exists>nsid sid lg. gen_fields b (map_option snd mem) n_seq_max output_all = Some (nsid, sid, ps, lg)))))"
proof -
  let ?n = "nat (b_n_tokens b)"
  from e have "\<forall>i. Inl e \<noteq> Inl (InvalidToken i) \<and> Inl e \<noteq> Inl (InvalidSeqId i)" "Inl e \<noteq> Inl NSeqMaxTooLarge" by auto
  from init this obtain nsid sid ps lg where mx: "n_seq_max \<le> LLAMA_MAX_SEQ" and wf: "batch_wf n_pos b"
    and badseq: "case b_seq_id b of None \<Rightarrow> True
      | Some sid \<Rightarrow> first_bad_seq ?n n_seq_max (the (b_n_seq_id b)) sid = None"
    and gen: "gen_fields b (map_option snd mem) n_seq_max output_all = Some (nsid, sid, ps, lg)"
    and err: "allocr_checks mem (allocr_stats n_pos b n_embd n_seq_max (nsid, sid, ps, lg)) = Some e"
    by (rule allocr_initE) (auto split: option.splits)
  let ?a = "allocr_stats n_pos b n_embd n_seq_max (nsid, sid, ps, lg)"
  from err e have "check_subsets (\<lambda>s. if s < al_n_seq_max ?a then {..<LLAMA_MAX_SEQ} else {}) (\<lambda>_. - 1)
      (concat (map (\<lambda>i. map (\<lambda>s. (al_pos ?a ! i, al_seq_set ?a ! i, s)) (token_seqs (al_n_seq_id ?a) (al_seq_id ?a) i))
        [0..<al_n_tokens ?a])) = Some e"
    unfolding allocr_checks_def Let_def
    by (auto split: option.splits prod.splits dest!: first_error_Some check_seq_errors check_coupled_errors)
  then have chk: "check_subsets (\<lambda>s. if s < n_seq_max then {..<LLAMA_MAX_SEQ} else {}) (\<lambda>_. - 1)
      (concat (map (\<lambda>i. map (\<lambda>s. (ps ! i, map (\<lambda>i. set (token_seqs nsid sid i)) [0..<?n] ! i, s))
        (token_seqs nsid sid i)) [0..<?n])) = Some e"
    by (simp add: allocr_stats_def Let_def)
  from check_subsets_cases [OF _ chk] token_seqs_bound [OF wf _ mx0 badseq gen] mx
  obtain i t where "i < ?n" "ps ! i < - 1" "e = DecreasingPositions t"
    by (fastforce simp: in_set_conv_nth)
  moreover have "b_pos b = Some ps \<or> b_pos b = None"
    using gen by (cases "b_pos b") (auto simp: gen_fields_def Let_def split: Option.bind_splits)
  ultimately show ?thesis using e gen wf by auto
qed

section \<open>Splitting\<close>

text \<open>The split loop of the memory modules: split until an empty micro-batch comes back.\<close>

fun split_loop ::
  "nat \<Rightarrow> ('e allocr \<Rightarrow> ('e llama_ubatch \<times> 'e allocr) option) \<Rightarrow> 'e allocr
     \<Rightarrow> ('e llama_ubatch list \<times> 'e allocr) option" where
  "split_loop 0 f a = None"
| "split_loop (Suc k) f a = do {
     (u, a') \<leftarrow> f a;
     if ub_n_tokens u = 0 then Some ([], a')
     else do {
       (us, a'') \<leftarrow> split_loop k f a';
       Some (u # us, a'')
     }
   }"

lemma simple_idxs_eq:
  assumes "cur < n"
  shows "simple_idxs n u cur idxs = idxs @ [cur..<min n (cur + max 1 (u - length idxs))]"
  using assms
proof (induction n u cur idxs rule: simple_idxs.induct)
  case (1 n u cur idxs)
  show ?case
  proof (cases "Suc cur \<ge> n \<or> length idxs + 1 \<ge> u")
    case True
    then have "min n (cur + max 1 (u - length idxs)) = Suc cur" using 1(2) by auto
    with True show ?thesis by (auto simp: simple_idxs.simps [of n u cur idxs] Let_def)
  next
    case False
    then have "simple_idxs n u (Suc cur) (idxs @ [cur])
        = (idxs @ [cur]) @ [Suc cur..<min n (Suc cur + max 1 (u - length (idxs @ [cur])))]"
      by (intro 1(1) [OF refl refl]) auto
    also have "Suc cur + max 1 (u - length (idxs @ [cur])) = cur + max 1 (u - length idxs)" using False by auto
    also have "(idxs @ [cur]) @ [Suc cur..<min n (cur + max 1 (u - length idxs))]
        = idxs @ [cur..<min n (cur + max 1 (u - length idxs))]"
      using 1(2) by (subst (2) upt_rec) auto
    finally show ?thesis using False by (simp add: simple_idxs.simps [of n u cur idxs] Let_def)
  qed
qed

lemma mark_used_nth:
  "length (fold (\<lambda>i u. u[i := True]) idxs us) = length us \<and>
   (\<forall>j < length us. fold (\<lambda>i u. u[i := True]) idxs us ! j \<longleftrightarrow> us ! j \<or> j \<in> set idxs)"
  by (induction idxs arbitrary: us) (auto simp: nth_list_update_if)

lemma used_prefix_mark:
  assumes "k \<le> m" and "m \<le> n"
  shows "fold (\<lambda>i u. u[i := True]) [k..<m] (replicate k True @ replicate (n - k) False)
    = replicate m True @ replicate (n - m) False"
  using assms mark_used_nth [of "[k..<m]" "replicate k True @ replicate (n - k) False"]
  by (intro nth_equalityI) (auto simp: nth_append)

lemma first_unused_prefix: "first_unused (replicate k True @ replicate m False) = k"
proof -
  have "takeWhile (\<lambda>b. b) (replicate k True @ replicate m False) = replicate k True @ takeWhile (\<lambda>b. b) (replicate m False)"
    by (rule takeWhile_append2) simp
  then show ?thesis by (cases m) (simp_all add: first_unused_def)
qed

text \<open>What a micro-batch holds does not depend on the bookkeeping of the split.\<close>

lemma ubatch_add_frame:
  assumes "ubatch_add idxs ns eq a = Some (u, a')"
  shows "ubatch_add idxs ns eq (a\<lparr>al_used := us, al_n_used := k, al_out_ids := os\<rparr>) =
    Some (u, a\<lparr>al_used := us, al_n_used := k, al_out_ids := os @ filter (\<lambda>i. al_logits a ! i \<noteq> 0) idxs\<rparr>)"
  using assms by (auto simp: ubatch_add_def Let_def split: Option.bind_splits)

lemma ubatch_add_ok:
  assumes "ns \<noteq> 0" and "length idxs mod ns = 0" and "\<And>i. i \<in> set idxs \<Longrightarrow> i < al_n_tokens a"
  shows "\<exists>u. ubatch_add idxs ns eq a = Some (u, a\<lparr>al_out_ids := al_out_ids a @ filter (\<lambda>i. al_logits a ! i \<noteq> 0) idxs\<rparr>)
    \<and> ub_n_tokens u = length idxs \<and> ub_n_seqs u = ns \<and> ub_n_seq_tokens u = length idxs div ns"
  using assms by (simp add: ubatch_add_def Let_def list_all_iff)

text \<open>The allocator while a simple split is at token \<open>k\<close>.\<close>

definition simple_at :: "'e allocr \<Rightarrow> nat \<Rightarrow> 'e allocr" where
  "simple_at a k = a\<lparr>al_used := replicate k True @ replicate (al_n_tokens a - k) False, al_n_used := k,
     al_out_ids := filter (\<lambda>i. al_logits a ! i \<noteq> 0) [0..<k]\<rparr>"

lemma split_simple_step:
  assumes "k < al_n_tokens a" and "0 < n_ubatch"
  shows "\<exists>u. let m = min (al_n_tokens a) (k + n_ubatch) in
    split_simple n_ubatch (simple_at a k) = Some (u, simple_at a m) \<and> ub_n_tokens u = m - k \<and>
    ubatch_add [k..<m] (m - k) False (split_reset a) = Some (u, simple_at (split_reset a) 0
      \<lparr>al_out_ids := filter (\<lambda>i. al_logits a ! i \<noteq> 0) [k..<m]\<rparr>)"
proof -
  let ?n = "al_n_tokens a" and ?m = "min (al_n_tokens a) (k + n_ubatch)"
  have km: "k < ?m" "?m \<le> ?n" using assms by auto
  have idxs: "simple_idxs ?n n_ubatch k [] = [k..<?m]"
    using simple_idxs_eq [OF assms(1), of n_ubatch "[]"] assms(2) by (simp add: max_def)
  obtain u where u: "ubatch_add [k..<?m] (?m - k) False (split_reset a) = Some (u, (split_reset a)
      \<lparr>al_out_ids := al_out_ids (split_reset a) @ filter (\<lambda>i. al_logits (split_reset a) ! i \<noteq> 0) [k..<?m]\<rparr>)"
      "ub_n_tokens u = ?m - k"
    using ubatch_add_ok [of "?m - k" "[k..<?m]" "split_reset a" False] km by (auto simp: split_reset_def)
  have mark: "mark_used [k..<?m] (simple_at a k) = (split_reset a)\<lparr>al_used := replicate ?m True @ replicate (?n - ?m) False,
      al_n_used := ?m, al_out_ids := filter (\<lambda>i. al_logits a ! i \<noteq> 0) [0..<k]\<rparr>"
    using km used_prefix_mark [of k ?m ?n] by (simp add: mark_used_def simple_at_def split_reset_def)
  have outs: "filter (\<lambda>i. al_logits a ! i \<noteq> 0) [0..<k] @ filter (\<lambda>i. al_logits a ! i \<noteq> 0) [k..<?m]
      = filter (\<lambda>i. al_logits a ! i \<noteq> 0) [0..<?m]"
    using upt_add_eq_append [of 0 k "?m - k"] km by (simp del: upt_Suc)
  have "ubatch_add [k..<?m] (?m - k) False (mark_used [k..<?m] (simple_at a k)) = Some (u, simple_at a ?m)"
    unfolding mark ubatch_add_frame [OF u(1)] by (simp add: simple_at_def split_reset_def outs)
  moreover have "first_unused (al_used (simple_at a k)) = k" "length (al_used (simple_at a k)) = ?n"
    using assms(1) by (simp_all add: simple_at_def first_unused_prefix)
  ultimately have "split_simple n_ubatch (simple_at a k) = Some (u, simple_at a ?m)"
    using assms(1) by (simp only: split_simple_def Let_def idxs length_upt) simp
  moreover have "simple_at (split_reset a) 0 = split_reset a"
    by (simp add: simple_at_def split_reset_def)
  ultimately show ?thesis
    using u unfolding Let_def by (intro exI [where x = u]) (simp add: split_reset_def)
qed

text \<open>
  The micro-batches of a whole simple split: consecutive blocks of the batch, of \<open>n_ubatch\<close> tokens
  each but for the last.
\<close>

lemma split_simple_loop_from:
  assumes "k \<le> al_n_tokens a" and "0 < n_ubatch" and "al_n_tokens a - k < fuel"
  shows "\<exists>us idxss. split_loop fuel (split_simple n_ubatch) (simple_at a k) = Some (us, simple_at a (al_n_tokens a)) \<and>
    concat idxss = [k..<al_n_tokens a] \<and>
    list_all2 (\<lambda>u idxs. idxs \<noteq> [] \<and> length idxs \<le> n_ubatch \<and> ub_n_tokens u = length idxs \<and>
      (\<exists>a'. ubatch_add idxs (length idxs) False (split_reset a) = Some (u, a'))) us idxss"
  using assms
proof (induction fuel arbitrary: k)
  case (Suc fuel)
  show ?case
  proof (cases "k = al_n_tokens a")
    case True
    have "split_simple n_ubatch (simple_at a k) = Some (ubatch_empty, simple_at a k)"
      using first_unused_prefix [of k 0] True by (simp add: split_simple_def simple_at_def Let_def)
    with True show ?thesis by (auto simp: ubatch_empty_def intro!: exI [where x = "[]"])
  next
    case False
    let ?m = "min (al_n_tokens a) (k + n_ubatch)"
    have k: "k < al_n_tokens a" using False Suc.prems by simp
    from split_simple_step [OF k Suc.prems(2)] obtain u a' where
      u: "split_simple n_ubatch (simple_at a k) = Some (u, simple_at a ?m)" "ub_n_tokens u = ?m - k"
        "ubatch_add [k..<?m] (?m - k) False (split_reset a) = Some (u, a')"
      unfolding Let_def by blast
    have km: "k < ?m" "?m \<le> al_n_tokens a" "al_n_tokens a - ?m < fuel" using k Suc.prems by auto
    from Suc.IH [OF km(2) Suc.prems(2) km(3)] obtain us idxss where
      IH: "split_loop fuel (split_simple n_ubatch) (simple_at a ?m) = Some (us, simple_at a (al_n_tokens a))"
        "concat idxss = [?m..<al_n_tokens a]"
        "list_all2 (\<lambda>u idxs. idxs \<noteq> [] \<and> length idxs \<le> n_ubatch \<and> ub_n_tokens u = length idxs \<and>
          (\<exists>a'. ubatch_add idxs (length idxs) False (split_reset a) = Some (u, a'))) us idxss"
      by blast
    have "concat ([k..<?m] # idxss) = [k..<al_n_tokens a]"
      using IH(2) km upt_add_eq_append [of k ?m "al_n_tokens a - ?m"] by simp
    moreover have "split_loop (Suc fuel) (split_simple n_ubatch) (simple_at a k) = Some (u # us, simple_at a (al_n_tokens a))"
    proof -
      have "ub_n_tokens u \<noteq> 0" using u(2) km(1) by linarith
      with u(1) IH(1) show ?thesis by simp
    qed
    moreover have "[k..<?m] \<noteq> [] \<and> length [k..<?m] \<le> n_ubatch \<and> ub_n_tokens u = length [k..<?m] \<and>
        (\<exists>a'. ubatch_add [k..<?m] (length [k..<?m]) False (split_reset a) = Some (u, a'))"
      using u km by auto
    ultimately show ?thesis
      using IH(3) by (intro exI [where x = "u # us"] exI [where x = "[k..<?m] # idxss"]) (simp only: list_all2_Cons simp_thms)
  qed
qed simp

subsection \<open>Equal split\<close>

lemma select_sets_bound: "length css \<le> n_ubatch \<Longrightarrow> length (select_sets n_ubatch sq a is css lst) \<le> Suc n_ubatch"
  by (induction n_ubatch sq a "is" css lst rule: select_sets.induct) (auto simp: Let_def)

lemma select_sets_rule:
  assumes "Q css"
    and "\<And>css i. i \<in> set is \<Longrightarrow> \<not> al_used a ! i \<Longrightarrow> list_all (\<lambda>S. S \<inter> al_seq_set a ! i = {}) css \<Longrightarrow> Q css \<Longrightarrow>
      Q (css @ [al_seq_set a ! i])"
  shows "Q (select_sets n_ubatch sq a is css lst)"
  using assms
proof (induction "is" arbitrary: css lst)
  case (Cons i "is")
  let ?add = "list_all (\<lambda>S. S \<inter> al_seq_set a ! i = {}) css"
  have IH: "Q (select_sets n_ubatch sq a is css' l)" if "Q css'" for css' l
    using Cons.IH [OF that] Cons.prems(2) by simp
  show ?case
  proof (cases "al_used a ! i \<or> \<not> ?add \<or> (sq \<and> \<not> (css = [] \<or> hd (al_seq_id a ! i) = lst + 1))")
    case True
    then have "select_sets n_ubatch sq a (i # is) css lst = select_sets n_ubatch sq a is css lst"
      by (auto simp: Let_def)
    with IH [OF Cons.prems(1)] show ?thesis by (simp only:)
  next
    case False
    then have "select_sets n_ubatch sq a (i # is) css lst =
        (if length (css @ [al_seq_set a ! i]) > n_ubatch then css @ [al_seq_set a ! i]
         else select_sets n_ubatch sq a is (css @ [al_seq_set a ! i]) (hd (al_seq_id a ! i)))"
      by (auto simp: Let_def)
    moreover have "Q (css @ [al_seq_set a ! i])" using Cons.prems False by simp
    ultimately show ?thesis using IH by (simp only: split: if_split) simp
  qed
qed simp

text \<open>The selected sets are pairwise disjoint and each is the set of an unused token.\<close>

lemma select_sets_disjoint:
  "sorted_wrt (\<lambda>S T. S \<inter> T = {}) (select_sets n_ubatch sq a is [] lst)"
  by (rule select_sets_rule) (auto simp: sorted_wrt_append list_all_iff)

lemma select_sets_unused:
  "\<forall>S \<in> set (select_sets n_ubatch sq a is [] lst). \<exists>i \<in> set is. \<not> al_used a ! i \<and> al_seq_set a ! i = S"
  by (rule select_sets_rule) auto

text \<open>
  All sequence sets advance in lockstep: after \<open>k\<close> rounds each has given the \<open>k\<close> indices after its
  starting point, and a further round is made only while the result stays within \<open>n_ubatch\<close>.
\<close>

lemma equal_rounds_lockstep:
  assumes "maps \<noteq> []" and "length cur = length maps" and "length per = length maps"
    and "\<And>p. p \<in> set per \<Longrightarrow> length p = l"
    and "equal_rounds n_ubatch maps cur per taken = (per', taken')"
  shows "\<exists>k. length per' = length maps \<and>
    (\<forall>s < length maps. per' ! s = per ! s @ take k (drop (cur ! s) (maps ! s)) \<and>
       (k = 0 \<or> cur ! s + k \<le> length (maps ! s))) \<and>
    set taken' = set taken \<union> (\<Union>s < length maps. set (take k (drop (cur ! s) (maps ! s)))) \<and>
    length taken' = length taken + k * length maps \<and>
    (k \<le> 1 \<or> (l + k) * length maps \<le> n_ubatch) \<and> (can_expand maps cur \<longrightarrow> 1 \<le> k)"
  using assms
proof (induction n_ubatch maps cur per taken arbitrary: l rule: equal_rounds.induct)
  case (1 n_ubatch maps cur per taken)
  show ?case
  proof (cases "can_expand maps cur")
    case False
    with "1.prems" show ?thesis
      by (intro exI [where x = 0]) (auto simp: equal_rounds.simps [of n_ubatch maps])
  next
    case True
    define picks where "picks = map2 (\<lambda>m k. m ! k) maps cur"
    define per1 where "per1 = map2 (\<lambda>xs x. xs @ [x]) per picks"
    have lt: "cur ! s < length (maps ! s)" if "s < length maps" for s
      using True that "1.prems"(2) by (simp add: can_expand_def list_all2_conv_all_nth)
    have picks: "length picks = length maps" "\<And>s. s < length maps \<Longrightarrow> picks ! s = maps ! s ! (cur ! s)"
      using "1.prems"(2) by (simp_all add: picks_def)
    have per1: "length per1 = length maps" "\<And>s. s < length maps \<Longrightarrow> per1 ! s = per ! s @ [maps ! s ! (cur ! s)]"
      using "1.prems"(3) picks by (simp_all add: per1_def)
    have l1: "length p = Suc l" if "p \<in> set per1" for p
    proof -
      from that per1(1) obtain s where s: "s < length maps" "p = per1 ! s" by (metis in_set_conv_nth)
      with "1.prems"(3) have "per ! s \<in> set per" by simp
      with s per1(2) "1.prems"(4) show ?thesis by simp
    qed
    have hd1: "length (hd per1) = Suc l"
      using per1(1) "1.prems"(1) l1 by (cases per1) auto
    have one: "take (Suc k) (drop (cur ! s) (maps ! s)) = maps ! s ! (cur ! s) # take k (drop (Suc (cur ! s)) (maps ! s))"
      if "s < length maps" for s k
      using lt [OF that] by (metis Cons_nth_drop_Suc take_Suc_Cons)
    have setp: "set picks = (\<Union>s < length maps. {maps ! s ! (cur ! s)})"
      using picks by (auto simp: set_conv_nth) metis
    note unf = equal_rounds.simps [of n_ubatch maps cur per taken, folded picks_def, unfolded Let_def, folded per1_def]
    show ?thesis
    proof (cases "(length (hd per1) + 1) * length maps > n_ubatch")
      case stop: True
      with "1.prems" True unf have "per' = per1" "taken' = taken @ picks" by auto
      with per1 one [of _ 0] lt setp picks show ?thesis
        by (intro exI [where x = 1]) (auto simp: Suc_leI)
    next
      case go: False
      with "1.prems" True unf have rec: "equal_rounds n_ubatch maps (map Suc cur) per1 (taken @ picks) = (per', taken')"
        by auto
      have "\<exists>k. length per' = length maps \<and>
        (\<forall>s < length maps. per' ! s = per1 ! s @ take k (drop (map Suc cur ! s) (maps ! s)) \<and>
           (k = 0 \<or> map Suc cur ! s + k \<le> length (maps ! s))) \<and>
        set taken' = set (taken @ picks) \<union> (\<Union>s < length maps. set (take k (drop (map Suc cur ! s) (maps ! s)))) \<and>
        length taken' = length (taken @ picks) + k * length maps \<and>
        (k \<le> 1 \<or> (Suc l + k) * length maps \<le> n_ubatch) \<and> (can_expand maps (map Suc cur) \<longrightarrow> 1 \<le> k)"
        using True go "1.prems"(1,2) per1(1) l1 rec
        by (intro "1.IH" [OF _ picks_def per1_def refl, unfolded Let_def]) auto
      then obtain k where k: "length per' = length maps"
        "\<And>s. s < length maps \<Longrightarrow> per' ! s = per1 ! s @ take k (drop (Suc (cur ! s)) (maps ! s))"
        "\<And>s. s < length maps \<Longrightarrow> k = 0 \<or> Suc (cur ! s) + k \<le> length (maps ! s)"
        "set taken' = set (taken @ picks) \<union> (\<Union>s < length maps. set (take k (drop (Suc (cur ! s)) (maps ! s))))"
        "length taken' = length (taken @ picks) + k * length maps"
        "k \<le> 1 \<or> (Suc l + k) * length maps \<le> n_ubatch"
        using "1.prems"(2) by auto
      have "(\<Union>s < length maps. set (take (Suc k) (drop (cur ! s) (maps ! s)))) =
          set picks \<union> (\<Union>s < length maps. set (take k (drop (Suc (cur ! s)) (maps ! s))))"
        using one setp by auto
      moreover have "(Suc l + 1) * length maps \<le> n_ubatch" using go hd1 by simp
      then have "Suc k \<le> 1 \<or> (l + Suc k) * length maps \<le> n_ubatch"
        using k(6) by (cases "k \<le> 1") (auto simp: le_Suc_eq)
      moreover have "Suc k = 0 \<or> cur ! s + Suc k \<le> length (maps ! s)" if "s < length maps" for s
        using k(3) [OF that] lt [OF that] by auto
      ultimately show ?thesis
        using k per1 one picks(1) by (intro exI [where x = "Suc k"]) (simp add: Un_assoc)
    qed
  qed
qed

text \<open>
  The state of an equal split: the sequence sets and their index lists agree, no token is without
  a sequence, and within a sequence set the used tokens come first.
\<close>

definition equal_ok :: "'e allocr \<Rightarrow> bool" where
  "equal_ok a \<longleftrightarrow> length (al_used a) = al_n_tokens a \<and> length (al_seq_set a) = al_n_tokens a \<and>
     (\<forall>S. al_seq_set_map a S = filter (\<lambda>i. al_seq_set a ! i = S) [0..<al_n_tokens a]) \<and>
     (\<forall>i < al_n_tokens a. al_seq_set a ! i \<noteq> {}) \<and>
     (\<forall>i j. i < j \<and> j < al_n_tokens a \<and> al_seq_set a ! i = al_seq_set a ! j \<and> al_used a ! j \<longrightarrow> al_used a ! i)"

lemma select_sets_mono: "css \<noteq> [] \<Longrightarrow> select_sets n_ubatch sq a is css lst \<noteq> []"
  by (rule select_sets_rule) auto

lemma select_sets_nonempty:
  assumes "\<exists>i \<in> set is. \<not> al_used a ! i"
  shows "select_sets n_ubatch sq a is [] lst \<noteq> []"
  using assms
proof (induction "is" arbitrary: lst)
  case (Cons i "is")
  then show ?case
    by (cases "al_used a ! i") (auto simp: Let_def select_sets_mono)
qed simp

lemma unused_tail:
  assumes ok: "equal_ok a" and x: "x \<in> set (dropWhile (\<lambda>i. al_used a ! i) (al_seq_set_map a S))"
  shows "x < al_n_tokens a \<and> al_seq_set a ! x = S \<and> \<not> al_used a ! x"
proof -
  let ?m = "al_seq_set_map a S" and ?P = "\<lambda>i. al_used a ! i"
  have m: "?m = filter (\<lambda>i. al_seq_set a ! i = S) [0..<al_n_tokens a]" using ok by (simp add: equal_ok_def)
  have srt: "sorted_wrt (<) ?m" unfolding m by (simp add: sorted_wrt_filter)
  have in_m: "y < al_n_tokens a \<and> al_seq_set a ! y = S" if "y \<in> set (dropWhile ?P ?m)" for y
    using set_dropWhileD [OF that] by (simp add: m)
  obtain y ys where y: "dropWhile ?P ?m = y # ys" using x by (cases "dropWhile ?P ?m") auto
  then have ny: "\<not> ?P y" by (metis hd_dropWhile list.distinct(1) list.sel(1))
  have "?m = takeWhile ?P ?m @ y # ys" using y by (metis takeWhile_dropWhile_id)
  with srt have "sorted_wrt (<) (y # ys)" by (metis sorted_wrt_append)
  then have "x = y \<or> y < x" using x y by auto
  moreover have "al_seq_set a ! y = S" using in_m [of y] y by simp
  moreover have "al_used a ! y" if "y < x" "al_used a ! x"
    using that ok in_m [OF x] \<open>al_seq_set a ! y = S\<close> unfolding equal_ok_def by blast
  ultimately show ?thesis using in_m [OF x] ny by auto
qed

text \<open>
  The index lists of the micro-batch of an equal split: as many for each sequence set, one
  sequence set per list in growing order, the sets of different lists disjoint, no index twice, none used before, and
  none left out before a taken one of the same sequence set.
\<close>

definition equal_rows :: "'e allocr \<Rightarrow> nat list list \<Rightarrow> bool" where
  "equal_rows a per \<longleftrightarrow> per \<noteq> [] \<and> distinct (concat per) \<and>
     (\<forall>i \<in> set (concat per). i < al_n_tokens a \<and> \<not> al_used a ! i) \<and>
     (\<exists>k > 0. \<forall>row \<in> set per. length row = k) \<and>
     (\<forall>row \<in> set per. sorted_wrt (<) row \<and> (\<exists>S. \<forall>i \<in> set row. al_seq_set a ! i = S)) \<and>
     sorted_wrt (\<lambda>r r'. \<forall>i \<in> set r. \<forall>j \<in> set r'. al_seq_set a ! i \<inter> al_seq_set a ! j = {}) per \<and>
     (\<forall>j \<in> set (concat per). \<forall>i < j. al_seq_set a ! i = al_seq_set a ! j \<longrightarrow> al_used a ! i \<or> i \<in> set (concat per))"

lemma sorted_take_closed:
  assumes "sorted_wrt (<) (xs :: nat list)" and "j \<in> set (take k xs)" and "i \<in> set xs" and "i < j"
  shows "i \<in> set (take k xs)"
proof (rule ccontr)
  assume "i \<notin> set (take k xs)"
  with assms(3) have "i \<in> set (drop k xs)" by (metis append_take_drop_id set_append Un_iff)
  moreover have "sorted_wrt (<) (take k xs @ drop k xs)" using assms(1) by simp
  ultimately have "j < i" using assms(2) unfolding sorted_wrt_append by blast
  with assms(4) show False by simp
qed

lemma distinct_concat_nth:
  assumes "\<And>s. s < length xss \<Longrightarrow> distinct (xss ! s)"
    and "\<And>s t. s < t \<Longrightarrow> t < length xss \<Longrightarrow> set (xss ! s) \<inter> set (xss ! t) = {}"
  shows "distinct (concat xss)"
  using assms
proof (induction xss)
  case (Cons xs xss)
  have "distinct (concat xss)"
    using Cons.prems(1) [of "Suc _"] Cons.prems(2) [of "Suc _" "Suc _"] by (intro Cons.IH) auto
  moreover have "set xs \<inter> set (concat xss) = {}"
    using Cons.prems(2) [of 0 "Suc _"] by (fastforce simp: in_set_conv_nth)
  ultimately show ?case using Cons.prems(1) [of 0] by simp
qed simp

lemma length_concat_const: "\<forall>row \<in> set per. length row = k \<Longrightarrow> length (concat per) = k * length per"
  by (induction per) auto

lemma equal_rows_selected:
  assumes ok: "equal_ok a" and css: "css \<noteq> []" "sorted_wrt (\<lambda>S T. S \<inter> T = {}) css"
    and un: "\<forall>S \<in> set css. \<exists>i < al_n_tokens a. \<not> al_used a ! i \<and> al_seq_set a ! i = S"
    and k: "0 < k" and len: "length per = length css"
    and per: "\<And>s. s < length css \<Longrightarrow> per ! s = take k (dropWhile (\<lambda>i. al_used a ! i) (al_seq_set_map a (css ! s))) \<and> length (per ! s) = k"
  shows "equal_rows a per"
proof -
  have mem: "i < al_n_tokens a \<and> al_seq_set a ! i = css ! s \<and> \<not> al_used a ! i" if "s < length css" "i \<in> set (per ! s)" for s i
    using that per unused_tail [OF ok, of i "css ! s"] by (auto dest: in_set_takeD)
  have "distinct (concat per)"
  proof (rule distinct_concat_nth)
    fix s assume "s < length per"
    then show "distinct (per ! s)" using per len ok by (simp add: equal_ok_def distinct_dropWhile)
  next
    fix s t assume st: "s < t" "t < length per"
    then have "css ! s \<inter> css ! t = {}" using css(2) len by (simp add: sorted_wrt_iff_nth_less)
    moreover have "css ! t \<noteq> {}"
    proof -
      have "css ! t \<in> set css" using st len by simp
      with un obtain i where "i < al_n_tokens a" "al_seq_set a ! i = css ! t" by blast
      with ok show ?thesis by (auto simp: equal_ok_def)
    qed
    ultimately have "css ! s \<noteq> css ! t" by blast
    moreover have "css ! s = css ! t" if "i \<in> set (per ! s)" "i \<in> set (per ! t)" for i
      using mem [of s i] mem [of t i] st len that by simp
    ultimately show "set (per ! s) \<inter> set (per ! t) = {}" by blast
  qed
  moreover have "\<forall>i \<in> set (concat per). i < al_n_tokens a \<and> \<not> al_used a ! i"
  proof
    fix i assume "i \<in> set (concat per)"
    then obtain s where "s < length css" "i \<in> set (per ! s)"
      using len by (metis in_set_conv_nth set_concat UN_iff)
    with mem show "i < al_n_tokens a \<and> \<not> al_used a ! i" by blast
  qed
  moreover have "\<forall>row \<in> set per. length row = k"
    using per len by (metis in_set_conv_nth)
  moreover have "\<forall>row \<in> set per. sorted_wrt (<) row \<and> (\<exists>S. \<forall>i \<in> set row. al_seq_set a ! i = S)"
  proof
    fix row assume "row \<in> set per"
    then obtain s where s: "s < length css" "row = per ! s" using len by (metis in_set_conv_nth)
    let ?m = "filter (\<lambda>i. al_seq_set a ! i = css ! s) [0..<al_n_tokens a]"
    have "row = take k (dropWhile (\<lambda>i. al_used a ! i) ?m)" using s per ok by (simp add: equal_ok_def)
    moreover have "sorted_wrt (<) ?m" by (simp add: sorted_wrt_filter)
    ultimately have "sorted_wrt (<) row" by (simp add: dropWhile_eq_drop sorted_wrt_take sorted_wrt_drop)
    with s mem show "sorted_wrt (<) row \<and> (\<exists>S. \<forall>i \<in> set row. al_seq_set a ! i = S)" by blast
  qed
  moreover have "sorted_wrt (\<lambda>r r'. \<forall>i \<in> set r. \<forall>j \<in> set r'. al_seq_set a ! i \<inter> al_seq_set a ! j = {}) per"
    unfolding sorted_wrt_iff_nth_less
  proof (intro allI impI ballI)
    fix s t i j assume st: "s < t" "t < length per" and ij: "i \<in> set (per ! s)" "j \<in> set (per ! t)"
    then have "css ! s \<inter> css ! t = {}" using css(2) len by (simp add: sorted_wrt_iff_nth_less)
    with mem [of s i] mem [of t j] st ij len show "al_seq_set a ! i \<inter> al_seq_set a ! j = {}" by simp
  qed
  moreover have "\<forall>j \<in> set (concat per). \<forall>i < j. al_seq_set a ! i = al_seq_set a ! j \<longrightarrow> al_used a ! i \<or> i \<in> set (concat per)"
  proof (intro ballI allI impI)
    fix j i assume "j \<in> set (concat per)" and ij: "i < j" "al_seq_set a ! i = al_seq_set a ! j"
    then obtain s where s: "s < length css" "j \<in> set (per ! s)"
      using len by (metis in_set_conv_nth set_concat UN_iff)
    let ?m = "al_seq_set_map a (css ! s)" and ?u = "\<lambda>i. al_used a ! i"
    have m: "?m = filter (\<lambda>i. al_seq_set a ! i = css ! s) [0..<al_n_tokens a]" using ok by (simp add: equal_ok_def)
    have "sorted_wrt (<) ?m" unfolding m by (simp add: sorted_wrt_filter)
    then have srt: "sorted_wrt (<) (dropWhile ?u ?m)"
      by (metis sorted_wrt_append takeWhile_dropWhile_id)
    have "i \<in> set ?m" using mem [OF s] ij by (simp add: m)
    show "al_used a ! i \<or> i \<in> set (concat per)"
    proof (cases "al_used a ! i")
      case False
      with \<open>i \<in> set ?m\<close> have "i \<in> set (dropWhile ?u ?m)"
        by (metis Un_iff set_append set_takeWhileD takeWhile_dropWhile_id)
      with sorted_take_closed [OF srt _ this ij(1), of k] s per have "i \<in> set (per ! s)" by metis
      with s len show ?thesis by (auto intro!: bexI [where x = "per ! s"])
    qed simp
  qed
  ultimately show ?thesis using css(1) len k unfolding equal_rows_def by auto
qed

lemma split_equal_rounds:
  fixes n_ubatch :: nat and sequential :: bool
  assumes ok: "equal_ok a" and more: "\<exists>i < al_n_tokens a. \<not> al_used a ! i"
  defines "css \<equiv> select_sets n_ubatch sequential a [0..<al_n_tokens a] [] (- 1)"
  defines "maps \<equiv> map (al_seq_set_map a) css"
  defines "cur \<equiv> map (\<lambda>m. length (takeWhile (\<lambda>i. al_used a ! i) m)) maps"
  shows "css \<noteq> [] \<and> can_expand maps cur \<and> (\<exists>per taken. equal_rounds n_ubatch maps cur (replicate (length css) []) [] = (per, taken) \<and>
    equal_rows a per \<and> length per = length css \<and> set taken = set (concat per) \<and> length taken = length (concat per) \<and>
    length (concat per) \<le> Suc n_ubatch)"
proof -
  have ne: "css \<noteq> []" unfolding css_def using more by (intro select_sets_nonempty) auto
  have un: "\<forall>S \<in> set css. \<exists>i < al_n_tokens a. \<not> al_used a ! i \<and> al_seq_set a ! i = S"
    unfolding css_def using select_sets_unused [of n_ubatch sequential a "[0..<al_n_tokens a]" "- 1"] by fastforce
  have tail: "drop (cur ! s) (maps ! s) = dropWhile (\<lambda>i. al_used a ! i) (al_seq_set_map a (css ! s))" if "s < length css" for s
    using that by (simp add: cur_def maps_def dropWhile_eq_drop)
  have lt: "cur ! s < length (maps ! s)" if s: "s < length css" for s
  proof -
    from un s obtain i where "i < al_n_tokens a" "\<not> al_used a ! i" "al_seq_set a ! i = css ! s" by (meson nth_mem)
    then have "i \<in> set (al_seq_set_map a (css ! s))" using ok by (simp add: equal_ok_def)
    with \<open>\<not> al_used a ! i\<close> have "dropWhile (\<lambda>i. al_used a ! i) (al_seq_set_map a (css ! s)) \<noteq> []"
      by (auto simp: dropWhile_eq_Nil_conv)
    with tail [OF s] show ?thesis by (metis drop_eq_Nil linorder_not_le)
  qed
  then have exp: "can_expand maps cur"
    by (simp add: can_expand_def list_all2_conv_all_nth maps_def cur_def)
  obtain per taken where rounds: "equal_rounds n_ubatch maps cur (replicate (length css) []) [] = (per, taken)"
    by fastforce
  have lens: "maps \<noteq> []" "length cur = length maps" "length (replicate (length css) []) = length maps" "length maps = length css"
    using ne by (simp_all add: maps_def cur_def)
  have z: "length p = 0" if "p \<in> set (replicate (length css) [])" for p :: "nat list"
    using that by (auto dest: in_set_replicate [THEN iffD1])
  from equal_rounds_lockstep [OF lens(1-3) z rounds] obtain k where
    raw: "length per = length maps \<and>
    (\<forall>s < length maps. per ! s = replicate (length css) [] ! s @ take k (drop (cur ! s) (maps ! s)) \<and>
       (k = 0 \<or> cur ! s + k \<le> length (maps ! s))) \<and>
    set taken = set [] \<union> (\<Union>s < length maps. set (take k (drop (cur ! s) (maps ! s)))) \<and>
    length taken = length ([] :: nat list) + k * length maps \<and>
    (k \<le> 1 \<or> (0 + k) * length maps \<le> n_ubatch) \<and> (can_expand maps cur \<longrightarrow> 1 \<le> k)" by blast
  then have k: "length per = length css" "1 \<le> k" "k \<le> 1 \<or> k * length css \<le> n_ubatch" "length taken = k * length css"
      "\<And>s. s < length css \<Longrightarrow> per ! s = take k (drop (cur ! s) (maps ! s)) \<and> cur ! s + k \<le> length (maps ! s)"
      "set taken = (\<Union>s < length css. set (take k (drop (cur ! s) (maps ! s))))"
    using lens(4) exp by auto
  have lenper: "length (per ! s) = k" if "s < length css" for s
    using k(5) [OF that] by (auto simp: min_def)
  have rows: "equal_rows a per"
  proof (rule equal_rows_selected [OF ok ne _ un])
    show "sorted_wrt (\<lambda>S T. S \<inter> T = {}) css" unfolding css_def by (rule select_sets_disjoint)
    show "0 < k" using k(2) by simp
  qed (use k tail lenper in auto)
  have len: "length (concat per) = k * length css"
    using k(1) length_concat_const [of per k] lenper by (metis in_set_conv_nth)
  have "length css \<le> Suc n_ubatch" unfolding css_def by (rule select_sets_bound) simp
  with k(3) have "k * length css \<le> Suc n_ubatch" using k(2) by (cases "k = 1") auto
  moreover have "set taken = set (concat per)"
  proof -
    have "set taken = (\<Union>s < length per. set (per ! s))"
      using k(1,5,6) by simp
    also have "\<dots> = \<Union> (set ` set per)" by (auto simp: set_conv_nth)
    finally show ?thesis by simp
  qed
  ultimately show ?thesis using ne exp rounds rows k(1,4) len by auto
qed

lemma split_equal_spec:
  assumes ok: "equal_ok a" and cpl: "\<not> (sequential \<and> al_has_cpl a)" and more: "\<exists>i < al_n_tokens a. \<not> al_used a ! i"
  shows "\<exists>u per. equal_rows a per \<and> length (concat per) \<le> Suc n_ubatch \<and>
    split_equal n_ubatch sequential a = Some (u, a\<lparr>
      al_used := map (\<lambda>i. al_used a ! i \<or> i \<in> set (concat per)) [0..<al_n_tokens a],
      al_n_used := al_n_used a + length (concat per),
      al_out_ids := al_out_ids a @ filter (\<lambda>i. al_logits a ! i \<noteq> 0) (concat per)\<rparr>) \<and>
    ubatch_add (concat per) (length per) True (split_reset a) = Some (u, (split_reset a)\<lparr>
      al_out_ids := filter (\<lambda>i. al_logits a ! i \<noteq> 0) (concat per)\<rparr>)"
proof -
  define css where "css = select_sets n_ubatch sequential a [0..<al_n_tokens a] [] (- 1)"
  define maps where "maps = map (al_seq_set_map a) css"
  define cur where "cur = map (\<lambda>m. length (takeWhile (\<lambda>i. al_used a ! i) m)) maps"
  from split_equal_rounds [OF ok more, of n_ubatch sequential] obtain per taken where
    ne: "css \<noteq> []" and exp: "can_expand maps cur"
    and rounds: "equal_rounds n_ubatch maps cur (replicate (length css) []) [] = (per, taken)"
    and rows: "equal_rows a per" "length per = length css" "set taken = set (concat per)"
      "length taken = length (concat per)" "length (concat per) \<le> Suc n_ubatch"
    unfolding css_def maps_def cur_def by blast
  from rows(1) obtain k where k: "\<forall>row \<in> set per. length row = k" by (auto simp: equal_rows_def)
  have "length (concat per) mod length per = 0" using length_concat_const [OF k] by simp
  moreover have "i < al_n_tokens (split_reset a)" if "i \<in> set (concat per)" for i
    using that rows(1) by (auto simp: equal_rows_def split_reset_def)
  ultimately obtain u where
    u: "ubatch_add (concat per) (length per) True (split_reset a) = Some (u, (split_reset a)\<lparr>al_out_ids :=
      al_out_ids (split_reset a) @ filter (\<lambda>i. al_logits (split_reset a) ! i \<noteq> 0) (concat per)\<rparr>)"
    using ubatch_add_ok [of "length per" "concat per" "split_reset a" True] rows(1) by (auto simp: equal_rows_def)
  let ?used = "map (\<lambda>i. al_used a ! i \<or> i \<in> set (concat per)) [0..<al_n_tokens a]"
  have len: "length (al_used a) = al_n_tokens a" using ok by (simp add: equal_ok_def)
  have "fold (\<lambda>i u. u[i := True]) taken (al_used a) = ?used"
    using mark_used_nth [of taken "al_used a"] len rows(3) by (intro nth_equalityI) auto
  then have mark: "mark_used taken a = (split_reset a)\<lparr>al_used := ?used,
      al_n_used := al_n_used a + length (concat per), al_out_ids := al_out_ids a\<rparr>"
    using rows(4) by (simp add: mark_used_def split_reset_def)
  have "split_equal n_ubatch sequential a = ubatch_add (concat per) (length per) True (mark_used taken a)"
    using cpl len ne exp rounds rows(2)
    by (auto simp: split_equal_def Let_def css_def [symmetric] maps_def [symmetric] cur_def [symmetric])
  then have "split_equal n_ubatch sequential a = Some (u, (split_reset a)\<lparr>al_used := ?used,
      al_n_used := al_n_used a + length (concat per),
      al_out_ids := al_out_ids a @ filter (\<lambda>i. al_logits (split_reset a) ! i \<noteq> 0) (concat per)\<rparr>)"
    unfolding mark ubatch_add_frame [OF u] by simp
  with u rows(1,5) show ?thesis
    by (intro exI [where x = u] exI [where x = per]) (simp add: split_reset_def)
qed

section \<open>The contract of a splitter\<close>

definition unused_count :: "'e allocr \<Rightarrow> nat" where
  "unused_count a = length (filter Not (al_used a))"

text \<open>
  What the memory modules rely on: a split takes at least one unused token, accounts for exactly
  the tokens it takes, and returns the empty micro-batch only when every token is used.
\<close>

locale splitter =
  fixes split :: "'e allocr \<Rightarrow> ('e llama_ubatch \<times> 'e allocr) option"
    and ok :: "'e allocr \<Rightarrow> bool"
  assumes progress: "ok a \<Longrightarrow> 0 < unused_count a \<Longrightarrow>
      \<exists>u a'. split a = Some (u, a') \<and> ok a' \<and> 0 < ub_n_tokens u \<and>
        unused_count a = unused_count a' + ub_n_tokens u \<and> al_n_used a' = al_n_used a + ub_n_tokens u \<and>
        al_n_tokens a' = al_n_tokens a"
    and finish: "ok a \<Longrightarrow> unused_count a = 0 \<Longrightarrow> split a = Some (ubatch_empty, a)"
begin

lemma loop_uses_all:
  assumes "ok a" and "unused_count a < fuel"
  shows "\<exists>us a'. split_loop fuel split a = Some (us, a') \<and> ok a' \<and> unused_count a' = 0 \<and>
    al_n_used a' = al_n_used a + unused_count a \<and> sum_list (map ub_n_tokens us) = unused_count a \<and>
    al_n_tokens a' = al_n_tokens a \<and> (\<forall>u \<in> set us. 0 < ub_n_tokens u)"
  using assms
proof (induction fuel arbitrary: a)
  case (Suc fuel)
  show ?case
  proof (cases "unused_count a = 0")
    case True
    with finish [OF Suc.prems(1)] Suc.prems(1) show ?thesis by (auto simp: ubatch_empty_def)
  next
    case False
    with progress [OF Suc.prems(1)] obtain u a' where
      u: "split a = Some (u, a')" "ok a'" "0 < ub_n_tokens u" "unused_count a = unused_count a' + ub_n_tokens u"
        "al_n_used a' = al_n_used a + ub_n_tokens u" "al_n_tokens a' = al_n_tokens a" by auto
    with Suc.prems(2) have "unused_count a' < fuel" by simp
    from Suc.IH [OF u(2) this] u show ?thesis by auto
  qed
qed simp

end

lemma unused_count_mark:
  assumes len: "length (al_used a) = al_n_tokens a" and dist: "distinct idxs"
    and T: "\<And>i. i \<in> set idxs \<Longrightarrow> i < al_n_tokens a \<and> \<not> al_used a ! i"
  shows "unused_count a =
    unused_count (a\<lparr>al_used := map (\<lambda>i. al_used a ! i \<or> i \<in> set idxs) [0..<al_n_tokens a]\<rparr>) + length idxs"
proof -
  let ?n = "al_n_tokens a" and ?U = "{i. i < al_n_tokens a \<and> \<not> al_used a ! i}"
  have cnt: "unused_count (a\<lparr>al_used := us\<rparr>) = card {i. i < length us \<and> \<not> us ! i}" for us
    by (simp add: unused_count_def length_filter_conv_card)
  have sub: "set idxs \<subseteq> ?U" using T by auto
  have "?U - set idxs = {i. i < length (map (\<lambda>i. al_used a ! i \<or> i \<in> set idxs) [0..<?n]) \<and>
      \<not> map (\<lambda>i. al_used a ! i \<or> i \<in> set idxs) [0..<?n] ! i}"
    by auto
  moreover have "card (?U - set idxs) = card ?U - length idxs"
    using sub dist by (simp add: card_Diff_subset distinct_card)
  moreover have "length idxs \<le> card ?U"
    using card_mono [OF _ sub] dist by (simp add: distinct_card)
  ultimately show ?thesis
    using cnt [of "map (\<lambda>i. al_used a ! i \<or> i \<in> set idxs) [0..<?n]"] cnt [of "al_used a"] len by simp
qed

lemma unused_count_frame [simp]: "unused_count (a\<lparr>al_used := us, al_n_used := x, al_out_ids := y\<rparr>) = unused_count (a\<lparr>al_used := us\<rparr>)"
  by (simp add: unused_count_def)

lemma mark_used_map:
  assumes "length (al_used a) = al_n_tokens a"
  shows "mark_used idxs a = (split_reset a)\<lparr>al_used := map (\<lambda>i. al_used a ! i \<or> i \<in> set idxs) [0..<al_n_tokens a],
    al_n_used := al_n_used a + length idxs, al_out_ids := al_out_ids a\<rparr>"
proof -
  have "fold (\<lambda>i u. u[i := True]) idxs (al_used a) = map (\<lambda>i. al_used a ! i \<or> i \<in> set idxs) [0..<al_n_tokens a]"
    using mark_used_nth [of idxs "al_used a"] assms by (intro nth_equalityI) auto
  then show ?thesis by (simp add: mark_used_def split_reset_def)
qed

text \<open>Equal splits keep the used tokens of every sequence set in front.\<close>

lemma equal_ok_used:
  assumes "equal_ok a" and "length us = al_n_tokens a"
    and "\<And>i j. i < j \<Longrightarrow> j < al_n_tokens a \<Longrightarrow> al_seq_set a ! i = al_seq_set a ! j \<Longrightarrow> us ! j \<Longrightarrow> us ! i"
  shows "equal_ok (a\<lparr>al_used := us, al_n_used := x, al_out_ids := y\<rparr>)"
proof -
  have "\<forall>i j. i < j \<and> j < al_n_tokens a \<and> al_seq_set a ! i = al_seq_set a ! j \<and> us ! j \<longrightarrow> us ! i"
    using assms(3) by blast
  with assms(1,2) show ?thesis by (simp add: equal_ok_def)
qed

lemma equal_rows_ok:
  assumes ok: "equal_ok a" and rows: "equal_rows a per"
  shows "equal_ok (a\<lparr>al_used := map (\<lambda>i. al_used a ! i \<or> i \<in> set (concat per)) [0..<al_n_tokens a],
    al_n_used := x, al_out_ids := y\<rparr>)"
proof -
  have pre: "al_used a ! i \<or> i \<in> set (concat per)"
    if "i < j" "j < al_n_tokens a" "al_seq_set a ! i = al_seq_set a ! j" "al_used a ! j \<or> j \<in> set (concat per)" for i j
  proof (cases "al_used a ! j")
    case True
    with ok that show ?thesis unfolding equal_ok_def by blast
  next
    case False
    with rows that show ?thesis unfolding equal_rows_def by blast
  qed
  let ?u = "map (\<lambda>i. al_used a ! i \<or> i \<in> set (concat per)) [0..<al_n_tokens a]"
  have nth: "?u ! i \<longleftrightarrow> al_used a ! i \<or> i \<in> set (concat per)" if "i < al_n_tokens a" for i
    using that by simp
  show ?thesis
  proof (rule equal_ok_used [OF ok])
    show "?u ! i" if "i < j" "j < al_n_tokens a" "al_seq_set a ! i = al_seq_set a ! j" "?u ! j" for i j
      using that pre [of i j] nth [of i] nth [of j] by (simp only: less_trans)
  qed simp
qed

lemma unused_count_pos:
  "length (al_used a) = al_n_tokens a \<Longrightarrow> 0 < unused_count a \<longleftrightarrow> (\<exists>i < al_n_tokens a. \<not> al_used a ! i)"
  by (simp add: unused_count_def length_filter_conv_card card_gt_0_iff)

lemma select_sets_all_used: "\<forall>i \<in> set is. al_used a ! i \<Longrightarrow> select_sets n_ubatch sq a is css lst = css"
  by (induction "is") auto

interpretation equal_splitter: splitter "split_equal n_ubatch sequential"
  "\<lambda>a. equal_ok a \<and> \<not> (sequential \<and> al_has_cpl a)" for n_ubatch sequential
proof
  fix a :: "'a allocr"
  assume ok: "equal_ok a \<and> \<not> (sequential \<and> al_has_cpl a)"
  then have len: "length (al_used a) = al_n_tokens a" by (simp add: equal_ok_def)
  show "\<exists>u a'. split_equal n_ubatch sequential a = Some (u, a') \<and> (equal_ok a' \<and> \<not> (sequential \<and> al_has_cpl a')) \<and>
      0 < ub_n_tokens u \<and> unused_count a = unused_count a' + ub_n_tokens u \<and>
      al_n_used a' = al_n_used a + ub_n_tokens u \<and> al_n_tokens a' = al_n_tokens a" if "0 < unused_count a"
  proof -
    from split_equal_spec [of a sequential n_ubatch] ok that unused_count_pos [OF len] obtain u per a' where
      rows: "equal_rows a per" and eq: "split_equal n_ubatch sequential a = Some (u, a\<lparr>
        al_used := map (\<lambda>i. al_used a ! i \<or> i \<in> set (concat per)) [0..<al_n_tokens a],
        al_n_used := al_n_used a + length (concat per),
        al_out_ids := al_out_ids a @ filter (\<lambda>i. al_logits a ! i \<noteq> 0) (concat per)\<rparr>)"
      and add: "ubatch_add (concat per) (length per) True (split_reset a) = Some (u, a')" by blast
    have "ub_n_tokens u = length (concat per)"
      using add by (auto simp: ubatch_add_def Let_def split: Option.bind_splits)
    moreover have "0 < length (concat per)"
      using rows by (auto simp: equal_rows_def) (metis list.set_sel(1) length_greater_0_conv)
    ultimately show ?thesis
      using eq equal_rows_ok [of a per] unused_count_mark [OF len, of "concat per"] ok rows
      by (auto simp: equal_rows_def)
  qed
  show "split_equal n_ubatch sequential a = Some (ubatch_empty, a)" if "unused_count a = 0"
  proof -
    have "\<forall>i \<in> set [0..<al_n_tokens a]. al_used a ! i" using that unused_count_pos [OF len] by auto
    from select_sets_all_used [OF this] len show ?thesis by (simp add: split_equal_def Let_def)
  qed
qed

text \<open>The simple split.\<close>

lemma unused_count_simple_at: "k \<le> al_n_tokens a \<Longrightarrow> unused_count (simple_at a k) = al_n_tokens a - k"
  by (simp add: unused_count_def simple_at_def)

lemma simple_at_idem [simp]: "simple_at (simple_at a k) m = simple_at a m" "al_n_tokens (simple_at a k) = al_n_tokens a"
  "al_n_used (simple_at a k) = k" "al_logits (simple_at a k) = al_logits a"
  by (simp_all add: simple_at_def)

lemma split_reset_simple: "split_reset a = simple_at a 0"
  by (simp add: split_reset_def simple_at_def)

interpretation simple_splitter: splitter "split_simple n_ubatch"
  "\<lambda>a. 0 < n_ubatch \<and> (\<exists>k \<le> al_n_tokens a. a = simple_at a k)" for n_ubatch
proof
  fix a :: "'a allocr"
  assume "0 < n_ubatch \<and> (\<exists>k \<le> al_n_tokens a. a = simple_at a k)"
  then obtain k where k: "k \<le> al_n_tokens a" "a = simple_at a k" and u0: "0 < n_ubatch" by blast
  have cnt: "unused_count a = al_n_tokens a - k" using unused_count_simple_at [OF k(1)] k(2) by simp
  show "\<exists>u a'. split_simple n_ubatch a = Some (u, a') \<and> (0 < n_ubatch \<and> (\<exists>k \<le> al_n_tokens a'. a' = simple_at a' k)) \<and>
      0 < ub_n_tokens u \<and> unused_count a = unused_count a' + ub_n_tokens u \<and>
      al_n_used a' = al_n_used a + ub_n_tokens u \<and> al_n_tokens a' = al_n_tokens a" if "0 < unused_count a"
  proof -
    let ?m = "min (al_n_tokens a) (k + n_ubatch)"
    from that cnt have "k < al_n_tokens a" by simp
    from split_simple_step [OF this u0] obtain u where u: "split_simple n_ubatch (simple_at a k) = Some (u, simple_at a ?m)"
      "ub_n_tokens u = ?m - k" unfolding Let_def by blast
    have "k < ?m" "?m \<le> al_n_tokens a" using \<open>k < al_n_tokens a\<close> u0 by auto
    moreover have "al_n_used a = k" using k(2) by (metis simple_at_idem(3))
    moreover have "split_simple n_ubatch a = Some (u, simple_at a ?m)" using u(1) k(2) by simp
    moreover have "\<exists>k' \<le> al_n_tokens (simple_at a ?m). simple_at a ?m = simple_at (simple_at a ?m) k'"
      by (intro exI [where x = ?m]) simp
    ultimately show ?thesis
      using u(2) u0 cnt unused_count_simple_at [of ?m a]
      by (intro exI [where x = u] exI [where x = "simple_at a ?m"]) simp
  qed
  show "split_simple n_ubatch a = Some (ubatch_empty, a)" if "unused_count a = 0"
  proof -
    from that cnt k have "k = al_n_tokens a" by simp
    have "al_used (simple_at a (al_n_tokens a)) = replicate (al_n_tokens a) True" by (simp add: simple_at_def)
    with \<open>k = al_n_tokens a\<close> k(2) have "al_used a = replicate k True" by metis
    then show ?thesis using first_unused_prefix [of k 0] by (simp add: split_simple_def Let_def)
  qed
qed

text \<open>
  The sequence-set split: the indices grow, are unused, and each sequence set is contained in the
  one before it.
\<close>

definition seq_chain :: "'e allocr \<Rightarrow> nat list \<Rightarrow> bool" where
  "seq_chain a idxs \<longleftrightarrow> (\<forall>i \<in> set idxs. i < al_n_tokens a \<and> \<not> al_used a ! i) \<and>
     sorted_wrt (\<lambda>i j. i < j \<and> al_seq_set a ! j \<subseteq> al_seq_set a ! i) idxs"

lemma seq_chain_snoc:
  "seq_chain a (idxs @ [i]) \<longleftrightarrow> seq_chain a idxs \<and> i < al_n_tokens a \<and> \<not> al_used a ! i \<and>
     (\<forall>j \<in> set idxs. j < i \<and> al_seq_set a ! i \<subseteq> al_seq_set a ! j)"
  by (auto simp: seq_chain_def sorted_wrt_append)

lemma seq_idxs_chain:
  assumes "seq_chain a (idxs @ [cur])"
  shows "seq_chain a (seq_idxs n_ubatch a cur idxs) \<and> (\<exists>zs. seq_idxs n_ubatch a cur idxs = idxs @ cur # zs)"
  using assms
proof (induction n_ubatch a cur idxs rule: seq_idxs.induct)
  case (1 n_ubatch a cur idxs)
  show ?case
  proof (cases "n_ubatch \<le> length (idxs @ [cur])")
    case True
    with 1(2) show ?thesis by (simp add: seq_idxs.simps [of n_ubatch a cur idxs])
  next
    case False
    show ?thesis
    proof (cases "next_subset a (al_seq_set a ! cur) cur")
      case None
      with 1(2) False show ?thesis by (simp add: seq_idxs.simps [of n_ubatch a cur idxs])
    next
      case (Some nxt)
      then have nxt: "cur < nxt" "nxt < al_n_tokens a" "\<not> al_used a ! nxt" "al_seq_set a ! nxt \<subseteq> al_seq_set a ! cur"
        by (auto simp: next_subset_def find_Some_iff)
      with 1(2) have "seq_chain a ((idxs @ [cur]) @ [nxt])"
        unfolding seq_chain_snoc [of a "idxs @ [cur]"] by (auto simp: seq_chain_snoc)
      from 1(1) [OF refl False Some this] Some False show ?thesis
        by (auto simp: seq_idxs.simps [of n_ubatch a cur idxs])
    qed
  qed
qed

lemma seq_idxs_length: "length idxs < max 1 n_ubatch \<Longrightarrow> length (seq_idxs n_ubatch a cur idxs) \<le> max 1 n_ubatch"
proof (induction n_ubatch a cur idxs rule: seq_idxs.induct)
  case (1 n_ubatch a cur idxs)
  show ?case
    by (subst seq_idxs.simps) (use 1 in \<open>auto simp: Let_def split: option.splits\<close>)
qed

lemma seq_chain_distinct: "seq_chain a idxs \<Longrightarrow> distinct idxs"
  by (induction idxs) (auto simp: seq_chain_def)

lemma first_unused_less:
  assumes "length (al_used a) = al_n_tokens a" and "0 < unused_count a"
  shows "first_unused (al_used a) < al_n_tokens a \<and> \<not> al_used a ! first_unused (al_used a)"
proof -
  from unused_count_pos assms obtain i where "i < al_n_tokens a" "\<not> al_used a ! i" by blast
  then have "first_unused (al_used a) < length (al_used a)"
    using assms(1) length_takeWhile_le [of "\<lambda>b. b" "al_used a"]
    by (metis first_unused_def nat_less_le nth_mem set_takeWhileD takeWhile_eq_take take_all order_refl)
  with nth_length_takeWhile [of "\<lambda>b. b" "al_used a"] assms(1) show ?thesis by (simp add: first_unused_def)
qed

lemma split_seq_spec':
  fixes n_ubatch :: nat
  assumes len: "length (al_used a) = al_n_tokens a" and pos: "0 < unused_count a"
  defines "idxs \<equiv> seq_idxs n_ubatch a (first_unused (al_used a)) []"
  shows "\<exists>u a'. split_seq n_ubatch a = Some (u, a\<lparr>
       al_used := map (\<lambda>i. al_used a ! i \<or> i \<in> set idxs) [0..<al_n_tokens a],
       al_n_used := al_n_used a + length idxs,
       al_out_ids := al_out_ids a @ filter (\<lambda>i. al_logits a ! i \<noteq> 0) idxs\<rparr>) \<and>
     ubatch_add idxs 1 True (split_reset a) = Some (u, a') \<and>
     seq_chain a idxs \<and> idxs \<noteq> [] \<and> length idxs \<le> max 1 n_ubatch"
proof -
  note fu = first_unused_less [OF len pos]
  then have "seq_chain a ([] @ [first_unused (al_used a)])" by (simp add: seq_chain_def)
  from seq_idxs_chain [OF this, of n_ubatch] have chain: "seq_chain a idxs" "idxs \<noteq> []"
    by (auto simp: idxs_def)
  have small: "length idxs \<le> max 1 n_ubatch" unfolding idxs_def by (rule seq_idxs_length) simp
  from chain(1) have "\<forall>i \<in> set idxs. i < al_n_tokens (split_reset a)" by (simp add: seq_chain_def split_reset_def)
  with ubatch_add_ok [of 1 idxs "split_reset a" True] obtain u where
    u: "ubatch_add idxs 1 True (split_reset a) = Some (u, (split_reset a)\<lparr>al_out_ids :=
      al_out_ids (split_reset a) @ filter (\<lambda>i. al_logits (split_reset a) ! i \<noteq> 0) idxs\<rparr>)" by auto
  have "split_seq n_ubatch a = ubatch_add idxs 1 True (mark_used idxs a)"
    using fu len by (simp add: split_seq_def idxs_def Let_def)
  then have "split_seq n_ubatch a = Some (u, (split_reset a)\<lparr>
      al_used := map (\<lambda>i. al_used a ! i \<or> i \<in> set idxs) [0..<al_n_tokens a],
      al_n_used := al_n_used a + length idxs,
      al_out_ids := al_out_ids a @ filter (\<lambda>i. al_logits (split_reset a) ! i \<noteq> 0) idxs\<rparr>)"
    unfolding mark_used_map [OF len] ubatch_add_frame [OF u] by simp
  with u chain small show ?thesis
    by (intro exI [where x = u]) (simp add: split_reset_def)
qed

lemma split_seq_spec:
  assumes len: "length (al_used a) = al_n_tokens a" and pos: "0 < unused_count a"
  shows "\<exists>u idxs a'. split_seq n_ubatch a = Some (u, a\<lparr>
       al_used := map (\<lambda>i. al_used a ! i \<or> i \<in> set idxs) [0..<al_n_tokens a],
       al_n_used := al_n_used a + length idxs,
       al_out_ids := al_out_ids a @ filter (\<lambda>i. al_logits a ! i \<noteq> 0) idxs\<rparr>) \<and>
     ubatch_add idxs 1 True (split_reset a) = Some (u, a') \<and>
     seq_chain a idxs \<and> idxs \<noteq> [] \<and> length idxs \<le> max 1 n_ubatch"
  using split_seq_spec' [OF assms, of n_ubatch] by blast

interpretation seq_splitter: splitter "split_seq n_ubatch"
  "\<lambda>a. length (al_used a) = al_n_tokens a" for n_ubatch
proof
  fix a :: "'a allocr"
  assume len: "length (al_used a) = al_n_tokens a"
  show "\<exists>u a'. split_seq n_ubatch a = Some (u, a') \<and> length (al_used a') = al_n_tokens a' \<and>
      0 < ub_n_tokens u \<and> unused_count a = unused_count a' + ub_n_tokens u \<and>
      al_n_used a' = al_n_used a + ub_n_tokens u \<and> al_n_tokens a' = al_n_tokens a" if "0 < unused_count a"
  proof -
    from split_seq_spec [OF len that, of n_ubatch] obtain u idxs a' where
      eq: "split_seq n_ubatch a = Some (u, a\<lparr>
        al_used := map (\<lambda>i. al_used a ! i \<or> i \<in> set idxs) [0..<al_n_tokens a],
        al_n_used := al_n_used a + length idxs,
        al_out_ids := al_out_ids a @ filter (\<lambda>i. al_logits a ! i \<noteq> 0) idxs\<rparr>)"
      and add: "ubatch_add idxs 1 True (split_reset a) = Some (u, a')"
      and chain: "seq_chain a idxs" "idxs \<noteq> []" by blast
    have "ub_n_tokens u = length idxs"
      using add by (auto simp: ubatch_add_def Let_def split: Option.bind_splits)
    moreover have "unused_count a = unused_count (a\<lparr>al_used := map (\<lambda>i. al_used a ! i \<or> i \<in> set idxs) [0..<al_n_tokens a]\<rparr>) + length idxs"
      using unused_count_mark [OF len, of idxs] seq_chain_distinct [OF chain(1)] chain(1) by (simp add: seq_chain_def)
    ultimately show ?thesis using eq chain(2) by simp
  qed
  show "split_seq n_ubatch a = Some (ubatch_empty, a)" if "unused_count a = 0"
  proof -
    have "\<forall>x \<in> set (al_used a). x" using that unused_count_pos [OF len] len by (metis in_set_conv_nth neq0_conv)
    then have "first_unused (al_used a) = length (al_used a)"
      unfolding first_unused_def by (metis takeWhile_eq_all_conv)
    then show ?thesis by (simp add: split_seq_def Let_def)
  qed
qed

section \<open>Properties\<close>

lemma allocr_init_accepts:
  assumes "allocr_init n_pos b n_vocab mem n_embd n_seq_max output_all = Some (Inr a)"
  shows "split_reset a = a \<and> length (al_seq_set a) = al_n_tokens a \<and> 0 < al_n_tokens a \<and>
    (\<forall>S. al_seq_set_map a S = filter (\<lambda>i. al_seq_set a ! i = S) [0..<al_n_tokens a])"
proof -
  from assms obtain nsid sid ps lg where n: "0 < nat (b_n_tokens b)"
    and a: "a = split_reset (allocr_stats n_pos b n_embd n_seq_max (nsid, sid, ps, lg))"
    by (rule allocr_initE) (auto split: option.splits)
  show ?thesis unfolding a using n by (simp add: allocr_stats_def split_reset_def Let_def)
qed

lemma unused_count_reset: "unused_count (split_reset a) = al_n_tokens a"
  by (simp add: unused_count_def split_reset_def)

lemma split_reset_fields [simp]: "al_used (split_reset a) = replicate (al_n_tokens a) False" "al_n_used (split_reset a) = 0"
  "al_n_tokens (split_reset a) = al_n_tokens a" "al_seq_set (split_reset a) = al_seq_set a"
  by (simp_all add: split_reset_def)

lemma allocr_init_equal_ok:
  assumes "allocr_init n_pos b n_vocab mem n_embd n_seq_max output_all = Some (Inr a)"
    and "\<forall>i < al_n_tokens a. al_seq_set a ! i \<noteq> {}"
  shows "equal_ok a"
proof -
  note acc = allocr_init_accepts [OF assms(1)]
  then have "al_used a = replicate (al_n_tokens a) False" by (metis split_reset_fields(1))
  with acc assms(2) show ?thesis unfolding equal_ok_def by (metis less_trans length_replicate nth_replicate)
qed

text \<open>
  The smallest caller's batch: two tokens, everything else left to the allocator; and a batch of
  two tokens in two sequences.
\<close>

definition demo_batch :: "unit llama_batch" where
  "demo_batch = \<lparr>b_n_tokens = 2, b_token = Some [5, 6], b_embd = None, b_pos = None, b_n_seq_id = None,
     b_seq_id = None, b_logits = None\<rparr>"

definition demo_batch2 :: "unit llama_batch" where
  "demo_batch2 = \<lparr>b_n_tokens = 2, b_token = Some [5, 6], b_embd = None, b_pos = None, b_n_seq_id = Some [1, 1],
     b_seq_id = Some [[0], [1]], b_logits = None\<rparr>"

lemma max_seq_small: "0 < LLAMA_MAX_SEQ" "Suc 0 < LLAMA_MAX_SEQ" "\<not> LLAMA_MAX_SEQ < Suc 0" "\<not> LLAMA_MAX_SEQ < Suc (Suc 0)"
  by (simp_all add: LLAMA_MAX_SEQ_def)

lemmas batch_eval = allocr_init_def allocr_checks_def allocr_stats_def batch_wf_def gen_fields_def first_bad_token_def
  first_bad_seq_def token_seqs_def check_seq_def check_coupled_def s32_def int32_ok_def int32_min_def int32_max_def
  max_seq_small numeral_2_eq_2 Let_def

lemma demo_init:
  "\<exists>a. allocr_init 1 demo_batch 10 None 1 1 False = Some (Inr a) \<and> al_n_tokens a = 2 \<and> al_seq_set a = [{0}, {0}] \<and>
    al_pos a = [0, 1] \<and> al_logits a = [0, 1] \<and> \<not> al_has_cpl a"
  by (simp add: demo_batch_def batch_eval split_reset_def del: set_map set_filter set_upt)

lemma demo_init2:
  "\<exists>a. allocr_init 1 demo_batch2 10 None 1 2 False = Some (Inr a) \<and> al_n_tokens a = 2 \<and> al_seq_set a = [{0}, {1}] \<and>
    al_pos a = [0, 0] \<and> al_logits a = [0, 1] \<and> \<not> al_has_cpl a"
  by (simp add: demo_batch2_def batch_eval split_reset_def del: set_map set_filter set_upt)



text \<open>One equal split. While tokens are unused and the request is allowed, the micro-batch consists of
  equally many tokens of each of the selected, pairwise disjoint sequence sets, listed set by set, none used before
  and none twice, the earliest unused ones of their set; exactly these become used; and there are
  at most \<open>n_ubatch + 1\<close> of them.\<close>

theorem split_equal_rows:
  assumes "equal_ok a" and "\<not> (sequential \<and> al_has_cpl a)" and "\<exists>i < al_n_tokens a. \<not> al_used a ! i"
  shows "\<exists>u a' a'' per. split_equal n_ubatch sequential a = Some (u, a') \<and> equal_ok a' \<and>
    ubatch_add (concat per) (length per) True a = Some (u, a'') \<and> equal_rows a per \<and>
    (\<forall>i < al_n_tokens a. al_used a' ! i \<longleftrightarrow> al_used a ! i \<or> i \<in> set (concat per)) \<and>
    ub_n_tokens u \<le> Suc n_ubatch"
proof -
  from split_equal_spec [OF assms, of n_ubatch] obtain u per where
    rows: "equal_rows a per" and len: "length (concat per) \<le> Suc n_ubatch"
    and eq: "split_equal n_ubatch sequential a = Some (u, a\<lparr>
      al_used := map (\<lambda>i. al_used a ! i \<or> i \<in> set (concat per)) [0..<al_n_tokens a],
      al_n_used := al_n_used a + length (concat per),
      al_out_ids := al_out_ids a @ filter (\<lambda>i. al_logits a ! i \<noteq> 0) (concat per)\<rparr>)"
    and add: "ubatch_add (concat per) (length per) True (split_reset a) = Some (u, (split_reset a)\<lparr>
      al_out_ids := filter (\<lambda>i. al_logits a ! i \<noteq> 0) (concat per)\<rparr>)" by blast
  have u: "ub_n_tokens u = length (concat per)"
    using add by (auto simp: ubatch_add_def Let_def split: Option.bind_splits)
  have "(split_reset a)\<lparr>al_used := al_used a, al_n_used := al_n_used a, al_out_ids := al_out_ids a\<rparr> = a"
    by (simp add: split_reset_def)
  with ubatch_add_frame [OF add, where us = "al_used a" and k = "al_n_used a" and os = "al_out_ids a"]
  have "\<exists>a''. ubatch_add (concat per) (length per) True a = Some (u, a'')" by auto
  with eq equal_rows_ok [OF assms(1) rows] rows len u show ?thesis by auto
qed

definition demo_allocr :: "unit allocr" where
  "demo_allocr = split_reset (allocr_stats 1 demo_batch2 1 2 ([1, 1], [[0], [1]], [0, 0], [0, 1]))"

lemma demo_allocr_ok: "equal_ok demo_allocr" "al_n_tokens demo_allocr = 2" "\<not> al_used demo_allocr ! 0"
proof -
  have "al_used demo_allocr = [False, False]" "al_n_tokens demo_allocr = 2" "al_seq_set demo_allocr = [{0}, {1}]"
    "al_seq_set_map demo_allocr = (\<lambda>S. filter (\<lambda>i. [{0}, {1}] ! i = S) [0, 1])"
    by (simp_all add: demo_allocr_def demo_batch2_def allocr_stats_def split_reset_def token_seqs_def numeral_2_eq_2 fun_eq_iff)
  then show "equal_ok demo_allocr" "al_n_tokens demo_allocr = 2" "\<not> al_used demo_allocr ! 0"
    by (auto simp: equal_ok_def numeral_2_eq_2 less_Suc_eq)
qed

theorem split_equal_rows_witness:
  "\<exists>u a' per. split_equal 4 False demo_allocr = Some (u, a') \<and> equal_rows demo_allocr per \<and> ub_n_tokens u \<le> 5"
  using split_equal_rows [OF demo_allocr_ok(1), of False 4] demo_allocr_ok(2,3) by (auto simp: numeral_2_eq_2)

text \<open>The bound of the previous property is reached: the selection loop tests the number of selected
  sets only after adding one, so with \<^verbatim>\<open>n_ubatch = 1\<close> two tokens of two sequences make a
  micro-batch of two tokens.\<close>

theorem split_equal_exceeds:
  "\<exists>u a'. split_equal 1 False demo_allocr = Some (u, a') \<and> ub_n_tokens u = 2"
  by (simp add: demo_allocr_def demo_batch2_def allocr_stats_def split_reset_def token_seqs_def split_equal_def
      numeral_2_eq_2 Let_def can_expand_def equal_rounds.simps ubatch_add_def mark_used_def)

definition demo_decreasing :: "unit llama_batch" where
  "demo_decreasing = demo_batch\<lparr>b_pos := Some [1, 0]\<rparr>"

text \<open>The last two checks of the initialisation never reject a batch whose positions are at least
  \<open>-1\<close>: \<^verbatim>\<open>cur_seq_set\<close> is intersected only with sets that contain the sequence itself, and
  \<^verbatim>\<open>cur_seq_pos\<close> is never updated from its initial \<open>-1\<close>.\<close>

theorem allocr_init_late_errors:
  assumes "allocr_init n_pos b n_vocab mem n_embd n_seq_max output_all = Some (Inl e)"
    and "b_pos b = Some ps" and "\<forall>p \<in> set ps. - 1 \<le> p" and "0 < n_pos" and "0 < n_seq_max"
  shows "e \<noteq> IncompatibleSequenceSets s \<and> e \<noteq> DecreasingPositions s"
proof (rule ccontr)
  assume "\<not> ?thesis"
  with allocr_init_subset_error [OF assms(1,5), of s] assms(2) obtain i where
    wf: "batch_wf n_pos b" and i: "i < nat (b_n_tokens b)" "ps ! i < - 1" by auto
  then have "i < length ps"
    using assms(2,4) wf by (auto simp: batch_wf_def Let_def split: if_splits)
      (metis One_nat_def Suc_leI le_trans less_le_trans mult_le_mono1 nat_mult_1)
  with assms(3) i show False by (metis not_le nth_mem)
qed

theorem allocr_init_late_errors_witness:
  "allocr_init 1 (demo_decreasing\<lparr>b_pos := Some [2, 0]\<rparr>) 10 None 1 1 False = Some (Inl (PositionsNotContinuous 0)) \<and>
   PositionsNotContinuous 0 \<noteq> DecreasingPositions 0"
proof -
  let ?b = "demo_decreasing\<lparr>b_pos := Some [2, 0]\<rparr>"
  have e: "allocr_init 1 ?b 10 None 1 1 False = Some (Inl (PositionsNotContinuous 0))"
    by (simp add: demo_decreasing_def demo_batch_def batch_eval del: set_map set_filter set_upt)
  have "b_pos ?b = Some [2, 0]" by simp
  from allocr_init_late_errors [OF e this, of 0] e show ?thesis by simp
qed

text \<open>A batch whose positions of one sequence decrease from token to token is accepted.\<close>

theorem allocr_init_accepts_decreasing:
  "\<exists>a. allocr_init 1 demo_decreasing 10 None 1 1 False = Some (Inr a) \<and> al_pos a = [1, 0]"
  by (simp add: demo_decreasing_def demo_batch_def batch_eval split_reset_def del: set_map set_filter set_upt)

lemma gen_pos_single:
  assumes "p0 0 + int n \<le> int32_max" and "0 \<le> p0 0" and "0 < n_seq_max"
  shows "gen_pos n_seq_max p0 (replicate n (1, [0])) = Some (map (\<lambda>i. p0 0 + int i) [0..<n])"
  using assms
proof (induction n arbitrary: p0)
  case (Suc n)
  let ?p1 = "p0(0 := p0 0 + 1)"
  have "gen_pos n_seq_max ?p1 (replicate n (1, [0])) = Some (map (\<lambda>i. ?p1 0 + int i) [0..<n])"
    using Suc.prems by (intro Suc.IH) auto
  moreover have "map (\<lambda>i. p0 0 + int i) [0..<Suc n] = p0 0 # map (\<lambda>i. ?p1 0 + int i) [0..<n]"
    unfolding map_upt_Suc by simp
  moreover have "int32_ok (p0 0 + 1)" using Suc.prems by (simp add: int32_ok_def int32_min_def)
  ultimately show ?case using Suc.prems by (simp add: s32_def Let_def del: upt_Suc)
qed simp

text \<open>A batch that gives only tokens is completed and accepted: every token belongs to sequence 0,
  the positions continue after the last one the memory holds for that sequence, and only the last
  token is an output.\<close>

theorem allocr_init_defaults:
  assumes "0 < n" and "length toks = n" and "\<forall>t \<in> set toks. 0 \<le> t \<and> t < int n_vocab"
    and "0 < n_seq_max" and "n_seq_max \<le> LLAMA_MAX_SEQ" and "- 1 \<le> mmax 0" and "mmax 0 + 1 + int n \<le> int32_max"
  shows "\<exists>a. allocr_init 1 (llama_batch_get_one toks) n_vocab (Some (mmin, mmax)) n_embd n_seq_max False = Some (Inr a) \<and>
    al_pos a = map (\<lambda>i. mmax 0 + 1 + int i) [0..<n] \<and> al_seq_id a = replicate n [0] \<and>
    al_logits a = replicate (n - 1) 0 @ [1] \<and> al_n_outputs a = 1"
proof -
  define b :: "'a llama_batch" where "b = llama_batch_get_one toks"
  have beq: "b = \<lparr>b_n_tokens = int n, b_token = Some toks, b_embd = None, b_pos = None, b_n_seq_id = None,
      b_seq_id = None, b_logits = None\<rparr>" using assms(2) by (simp add: b_def llama_batch_get_one_def)
  let ?ps = "map (\<lambda>i. mmax 0 + 1 + int i) [0..<n]"
  let ?f = "(replicate n 1, replicate n [0], ?ps, replicate (n - 1) 0 @ [1])"
  let ?a = "allocr_stats 1 b n_embd n_seq_max ?f"
  have wf: "batch_wf 1 b" using assms(2) beq by (simp add: batch_wf_def)
  have tok: "first_bad_token n_vocab toks = None"
    using assms(3) by (fastforce simp: first_bad_token_def find_None_iff dest: nth_mem)
  have gen: "gen_fields b (Some mmax) n_seq_max False = Some ?f"
    using gen_pos_single [of "\<lambda>s. mmax s + 1" n n_seq_max] assms(4,6,7) beq
    by (simp add: gen_fields_def zip_replicate)
  have seqs: "token_seqs (replicate n 1) (replicate n [0]) i = [0]" if "i < n" for i
    using that by (simp add: token_seqs_def)
  have pos: "al_seq_pos ?a s = (if s = 0 then {mmax 0 + 1..mmax 0 + int n} else {})" for s
  proof -
    have "al_seq_pos ?a s = {mmax 0 + 1 + int i | i. i < n \<and> s = 0}"
      using beq seqs by (auto simp: allocr_stats_def Let_def)
    also have "{mmax 0 + 1 + int i | i. i < n \<and> s = 0} = (if s = 0 then {mmax 0 + 1..mmax 0 + int n} else {})"
    proof (cases "s = 0")
      case True
      have "\<exists>i. x = mmax 0 + 1 + int i \<and> i < n" if "mmax 0 + 1 \<le> x" "x \<le> mmax 0 + int n" for x
        using that by (intro exI [where x = "nat (x - mmax 0 - 1)"]) auto
      with True show ?thesis by auto
    qed auto
    finally show ?thesis .
  qed
  have bounds: "Min {mmax 0 + 1..mmax 0 + int n} = mmax 0 + 1" "Max {mmax 0 + 1..mmax 0 + int n} = mmax 0 + int n"
    using assms(1) by (auto intro!: Min_eqI Max_eqI)
  have "check_seq True (Some mmax) (al_seq_pos ?a) s = None" for s
    using assms(1) unfolding check_seq_def pos Let_def by (auto simp: bounds)
  then have c1: "first_error (check_seq True (Some mmax) (al_seq_pos ?a)) xs = None" for xs
    by (induction xs) auto
  have "\<not> al_seq_cpl ?a s t" for s t using beq seqs by (auto simp: allocr_stats_def Let_def list_ex_iff)
  then have "check_coupled (al_seq_cpl ?a) mmin mmax st = None" for st by (cases st) (simp add: check_coupled_def)
  then have c2: "first_error (check_coupled (al_seq_cpl ?a) mmin mmax) xs = None" for xs
    by (induction xs) auto
  let ?toks = "concat (map (\<lambda>i. map (\<lambda>s. (al_pos ?a ! i, al_seq_set ?a ! i, s)) (token_seqs (al_n_seq_id ?a) (al_seq_id ?a) i))
        [0..<al_n_tokens ?a])"
  have mem: "s = 0 \<and> 0 \<in> S \<and> 0 \<le> p" if "(p, S, s) \<in> set ?toks" for p S s
    using that assms(6) beq seqs by (auto simp: allocr_stats_def Let_def)
  have "check_subsets (\<lambda>s. if s < n_seq_max then {..<LLAMA_MAX_SEQ} else {}) (\<lambda>_. - 1) ?toks = None"
  proof (rule ccontr)
    assume "check_subsets (\<lambda>s. if s < n_seq_max then {..<LLAMA_MAX_SEQ} else {}) (\<lambda>_. - 1) ?toks \<noteq> None"
    then obtain e where e: "check_subsets (\<lambda>s. if s < n_seq_max then {..<LLAMA_MAX_SEQ} else {}) (\<lambda>_. - 1) ?toks = Some e" by blast
    have in_set: "t \<in> T \<and> t \<in> (if t < n_seq_max then {..<LLAMA_MAX_SEQ} else {})" if "(q, T, t) \<in> set ?toks" for q T t
      using mem [OF that] max_seq_small(1) assms(4) by simp
    have "\<exists>p S s. (p, S, s) \<in> set ?toks \<and> p < - 1 \<and> e = DecreasingPositions s"
      by (rule check_subsets_cases [OF _ e]) (rule in_set)
    then obtain p S s where "(p, S, s) \<in> set ?toks" "p < - 1" by blast
    with mem [of p S s] show False by simp
  qed
  with c1 c2 beq have "allocr_checks (Some (mmin, mmax)) ?a = None"
    by (simp add: allocr_checks_def Let_def) (simp add: allocr_stats_def Let_def)
  with wf tok gen assms(1,5) beq have "allocr_init 1 b n_vocab (Some (mmin, mmax)) n_embd n_seq_max False = Some (Inr (split_reset ?a))"
    by (simp add: allocr_init_def)
  then show ?thesis unfolding b_def by (simp add: allocr_stats_def split_reset_def Let_def)
qed

theorem allocr_init_defaults_witness:
  "\<exists>a. allocr_init 1 demo_batch 10 (Some (\<lambda>_. 3, \<lambda>_. 3)) 1 1 False = Some (Inr a) \<and> al_pos a = [4, 5]"
  using allocr_init_defaults [of 2 "[5, 6]" 10 1 "\<lambda>_. 3" "\<lambda>_. 3" 1]
  by (auto simp: demo_batch_def llama_batch_get_one_def int32_max_def max_seq_small numeral_2_eq_2 not_less [symmetric])

end
