(* ===== verification/BatchSplit.thy ===== *)
theory BatchSplit
  imports Batch "HOL-Library.Multiset"
begin

text \<open>
  What the micro-batches of a split contain.  The locale \<open>tracked_splitter\<close> extends the contract of a splitter by
  the indices a split takes: each micro-batch is made from them by \<^verbatim>\<open>ubatch_add\<close>, they were unused, and
  no token overtakes an earlier one with the same sequences.  The loop then lists every token of the batch once.
\<close>

section \<open>The tokens of a split\<close>

definition unused_of :: "nat set \<Rightarrow> 'e allocr \<Rightarrow> nat list" where
  "unused_of S a = filter (\<lambda>i. al_seq_set a ! i = S \<and> \<not> al_used a ! i) [0..<al_n_tokens a]"

definition takes :: "nat list \<Rightarrow> 'e allocr \<Rightarrow> 'e allocr \<Rightarrow> bool" where
  "takes idxs a a' \<longleftrightarrow> (\<forall>i \<in> set idxs. i < al_n_tokens a \<and> \<not> al_used a ! i) \<and>
     (\<forall>S. sorted_wrt (<) (filter (\<lambda>i. al_seq_set a ! i = S) idxs)) \<and>
     (\<forall>j \<in> set idxs. \<forall>i < j. al_seq_set a ! i = al_seq_set a ! j \<longrightarrow> al_used a ! i \<or> i \<in> set idxs) \<and>
     a' = a\<lparr>al_used := map (\<lambda>i. al_used a ! i \<or> i \<in> set idxs) [0..<al_n_tokens a], al_n_used := al_n_used a + length idxs,
       al_out_ids := al_out_ids a @ filter (\<lambda>i. al_logits a ! i \<noteq> 0) idxs\<rparr>"

lemma takes_frame:
  assumes "takes idxs a a'"
  shows "split_reset a' = split_reset a" "al_seq_set a' = al_seq_set a" "al_n_tokens a' = al_n_tokens a" "al_logits a' = al_logits a"
    "al_out_ids a' = al_out_ids a @ filter (\<lambda>i. al_logits a ! i \<noteq> 0) idxs"
  using assms by (simp_all add: takes_def split_reset_def)

lemma takes_unused:
  assumes t: "takes idxs a a'"
  shows "unused_of S a = filter (\<lambda>i. al_seq_set a ! i = S) idxs @ unused_of S a'"
proof -
  let ?F = "filter (\<lambda>i. al_seq_set a ! i = S) idxs"
  have T: "\<forall>i \<in> set idxs. i < al_n_tokens a \<and> \<not> al_used a ! i" "sorted_wrt (<) ?F"
    and closed: "\<And>i j. j \<in> set idxs \<Longrightarrow> i < j \<Longrightarrow> al_seq_set a ! i = al_seq_set a ! j \<Longrightarrow> al_used a ! i \<or> i \<in> set idxs"
    and a': "al_seq_set a' = al_seq_set a" "al_n_tokens a' = al_n_tokens a"
      "\<And>i. i < al_n_tokens a \<Longrightarrow> al_used a' ! i \<longleftrightarrow> al_used a ! i \<or> i \<in> set idxs"
    using t by (auto simp: takes_def)
  have rest: "set (unused_of S a') = {i. i < al_n_tokens a \<and> al_seq_set a ! i = S \<and> \<not> al_used a ! i \<and> i \<notin> set idxs}"
    using a' by (auto simp: unused_of_def)
  have "sorted_wrt (<) (?F @ unused_of S a')"
    unfolding sorted_wrt_append
  proof (intro conjI ballI)
    show "sorted_wrt (<) (unused_of S a')" by (simp add: unused_of_def sorted_wrt_filter)
    fix j i assume j: "j \<in> set ?F" and i: "i \<in> set (unused_of S a')"
    then have "\<not> i < j" "i \<noteq> j" using closed [of j i] rest by auto
    then show "j < i" by simp
  qed (rule T(2))
  moreover have "sorted_wrt (<) (unused_of S a)" by (simp add: unused_of_def sorted_wrt_filter)
  moreover have "set (unused_of S a) = set (?F @ unused_of S a')" using T(1) rest by (auto simp: unused_of_def)
  ultimately show ?thesis by (rule strict_sorted_equal)
qed

locale tracked_splitter = splitter split ok
  for split :: "'e allocr \<Rightarrow> ('e llama_ubatch \<times> 'e allocr) option" and ok :: "'e allocr \<Rightarrow> bool" +
  fixes block :: "'e allocr \<Rightarrow> 'e llama_ubatch \<Rightarrow> nat list \<Rightarrow> bool"
  assumes taken: "ok a \<Longrightarrow> 0 < unused_count a \<Longrightarrow> split a = Some (u, a') \<Longrightarrow>
      \<exists>idxs. block (split_reset a) u idxs \<and> takes idxs a a'"
begin

lemma loop_tracks:
  assumes "ok a" and "split_loop fuel split a = Some (us, a')"
  shows "\<exists>idxss. list_all2 (block (split_reset a)) us idxss \<and>
    (\<forall>S. unused_of S a = filter (\<lambda>i. al_seq_set a ! i = S) (concat idxss) @ unused_of S a') \<and>
    al_out_ids a' = al_out_ids a @ filter (\<lambda>i. al_logits a ! i \<noteq> 0) (concat idxss)"
  using assms
proof (induction fuel arbitrary: a us)
  case (Suc fuel)
  show ?case
  proof (cases "unused_count a = 0")
    case True
    with finish [OF Suc.prems(1)] Suc.prems(2) have "us = [] \<and> a' = a" by (simp add: ubatch_empty_def)
    then show ?thesis by (intro exI [where x = "[]"]) simp
  next
    case False
    then have pos: "0 < unused_count a" by simp
    from progress [OF Suc.prems(1) pos] obtain u a1 where u: "split a = Some (u, a1)" "ok a1" "0 < ub_n_tokens u" by blast
    with Suc.prems(2) obtain us1 where us: "split_loop fuel split a1 = Some (us1, a')" "us = u # us1" by (auto split: Option.bind_splits)
    from taken [OF Suc.prems(1) pos u(1)] obtain idxs where I: "block (split_reset a) u idxs" "takes idxs a a1" by blast
    from Suc.IH [OF u(2) us(1)] obtain idxss where
      IH: "list_all2 (block (split_reset a1)) us1 idxss" "\<forall>S. unused_of S a1 = filter (\<lambda>i. al_seq_set a1 ! i = S) (concat idxss) @ unused_of S a'"
        "al_out_ids a' = al_out_ids a1 @ filter (\<lambda>i. al_logits a1 ! i \<noteq> 0) (concat idxss)" by blast
    note T = takes_frame [OF I(2)]
    have "unused_of S a = filter (\<lambda>i. al_seq_set a ! i = S) (concat (idxs # idxss)) @ unused_of S a'" for S
      using takes_unused [OF I(2), of S] IH(2) T(2) by simp
    with I(1) IH(1,3) us(2) T show ?thesis by (intro exI [where x = "idxs # idxss"]) simp
  qed
qed simp

end

text \<open>A list of micro-batches that shares out the tokens of a batch: each is a block, and the tokens of every set of
  sequences come in the order of the batch, each of them once.\<close>

definition shares_out :: "('e allocr \<Rightarrow> 'e llama_ubatch \<Rightarrow> nat list \<Rightarrow> bool) \<Rightarrow> 'e allocr \<Rightarrow> 'e llama_ubatch list \<Rightarrow> nat list list \<Rightarrow> bool" where
  "shares_out block a us idxss \<longleftrightarrow> list_all2 (block a) us idxss \<and>
     (\<forall>S. filter (\<lambda>i. al_seq_set a ! i = S) (concat idxss) = filter (\<lambda>i. al_seq_set a ! i = S) [0..<al_n_tokens a])"

lemma filter_classes_set:
  assumes "\<forall>S. filter (\<lambda>i. f i = S) xs = filter (\<lambda>i. f i = S) ys"
  shows "set xs = set ys"
proof -
  have "i \<in> set xs \<longleftrightarrow> i \<in> set ys" for i
  proof -
    have "i \<in> set xs \<longleftrightarrow> i \<in> set (filter (\<lambda>j. f j = f i) xs)" by simp
    also have "\<dots> \<longleftrightarrow> i \<in> set (filter (\<lambda>j. f j = f i) ys)" using assms by metis
    finally show ?thesis by simp
  qed
  then show ?thesis by blast
qed

lemma filter_classes_mset:
  assumes "\<forall>S. filter (\<lambda>i. f i = S) xs = filter (\<lambda>i. f i = S) ys"
  shows "mset xs = mset ys"
proof (rule multiset_eqI)
  fix i
  have "count (mset zs) i = count (mset (filter (\<lambda>j. f j = f i) zs)) i" for zs by (induction zs) auto
  then show "count (mset xs) i = count (mset ys) i" using assms by metis
qed

lemma shares_out_perm: "shares_out block a us idxss \<Longrightarrow> mset (concat idxss) = mset [0..<al_n_tokens a]"
  unfolding shares_out_def by (blast intro: filter_classes_mset)

lemma unused_of_none: "length (al_used a) = al_n_tokens a \<Longrightarrow> unused_count a = 0 \<Longrightarrow> unused_of S a = []"
  using unused_count_pos [of a] by (auto simp: unused_of_def filter_empty_conv)

lemma unused_of_reset: "unused_of S (split_reset a) = filter (\<lambda>i. al_seq_set a ! i = S) [0..<al_n_tokens a]"
  unfolding unused_of_def by (intro filter_cong) (auto simp: split_reset_def)

section \<open>Equal split\<close>

text \<open>A micro-batch of an equal split: as many tokens of each of some disjoint sets of sequences, in growing order.\<close>

definition equal_block :: "nat \<Rightarrow> 'e allocr \<Rightarrow> 'e llama_ubatch \<Rightarrow> nat list \<Rightarrow> bool" where
  "equal_block n_ubatch a u idxs \<longleftrightarrow> idxs \<noteq> [] \<and> length idxs \<le> Suc n_ubatch \<and>
     (\<exists>per a'. idxs = concat per \<and> ubatch_add idxs (length per) True a = Some (u, a') \<and>
       (\<forall>row \<in> set per. length row = ub_n_seq_tokens u \<and> sorted_wrt (<) row \<and> (\<exists>S. \<forall>i \<in> set row. al_seq_set a ! i = S)) \<and>
       sorted_wrt (\<lambda>r r'. \<forall>i \<in> set r. \<forall>j \<in> set r'. al_seq_set a ! i \<inter> al_seq_set a ! j = {}) per)"

lemma rows_filter_sorted:
  assumes "\<forall>row \<in> set per. sorted_wrt (<) row \<and> (\<exists>S. \<forall>i \<in> set row. f i = S)" and "\<forall>i \<in> set (concat per). f i \<noteq> {}"
    and "sorted_wrt (\<lambda>r r'. \<forall>i \<in> set r. \<forall>j \<in> set r'. f i \<inter> f j = {}) per"
  shows "sorted_wrt (<) (filter (\<lambda>i. f i = S) (concat per))"
  using assms
proof (induction per)
  case (Cons r per)
  show ?case
  proof (cases "\<exists>i \<in> set r. f i = S")
    case True
    then obtain i where i: "i \<in> set r" "f i = S" by blast
    then have "S \<noteq> {}" using Cons.prems(2) by auto
    then have "f j \<noteq> S" if "j \<in> set (concat per)" for j using that i Cons.prems(3) by fastforce
    then have "filter (\<lambda>i. f i = S) (concat per) = []" by (auto simp: filter_empty_conv)
    with Cons.prems(1) show ?thesis by (simp add: sorted_wrt_filter)
  next
    case False
    then have "filter (\<lambda>i. f i = S) r = []" by (auto simp: filter_empty_conv)
    with Cons show ?thesis by simp
  qed
qed simp

interpretation equal_tracked: tracked_splitter "split_equal n_ubatch sequential"
  "\<lambda>a. equal_ok a \<and> \<not> (sequential \<and> al_has_cpl a)" "equal_block n_ubatch" for n_ubatch sequential
proof unfold_locales
  fix a :: "'a allocr" and u a'
  assume ok: "equal_ok a \<and> \<not> (sequential \<and> al_has_cpl a)" and pos: "0 < unused_count a" and sp: "split_equal n_ubatch sequential a = Some (u, a')"
  have len: "length (al_used a) = al_n_tokens a" using ok by (simp add: equal_ok_def)
  with pos unused_count_pos have more: "\<exists>i < al_n_tokens a. \<not> al_used a ! i" by blast
  from split_equal_spec [OF _ _ more, of sequential n_ubatch] ok obtain u0 per where
    rows: "equal_rows a per" "length (concat per) \<le> Suc n_ubatch" and eq: "split_equal n_ubatch sequential a = Some (u0, a\<lparr>
      al_used := map (\<lambda>i. al_used a ! i \<or> i \<in> set (concat per)) [0..<al_n_tokens a],
      al_n_used := al_n_used a + length (concat per),
      al_out_ids := al_out_ids a @ filter (\<lambda>i. al_logits a ! i \<noteq> 0) (concat per)\<rparr>)"
    and add: "ubatch_add (concat per) (length per) True (split_reset a) = Some (u0, (split_reset a)\<lparr>
      al_out_ids := filter (\<lambda>i. al_logits a ! i \<noteq> 0) (concat per)\<rparr>)" by blast
  from rows(1) have R: "per \<noteq> []" "\<forall>i \<in> set (concat per). i < al_n_tokens a \<and> \<not> al_used a ! i" "\<exists>k > 0. \<forall>row \<in> set per. length row = k"
    "\<forall>row \<in> set per. sorted_wrt (<) row \<and> (\<exists>S. \<forall>i \<in> set row. al_seq_set a ! i = S)"
    "sorted_wrt (\<lambda>r r'. \<forall>i \<in> set r. \<forall>j \<in> set r'. al_seq_set a ! i \<inter> al_seq_set a ! j = {}) per"
    "\<forall>j \<in> set (concat per). \<forall>i < j. al_seq_set a ! i = al_seq_set a ! j \<longrightarrow> al_used a ! i \<or> i \<in> set (concat per)"
    unfolding equal_rows_def by blast+
  from R(3) obtain k where k: "0 < k" "\<forall>row \<in> set per. length row = k" by blast
  have ne: "concat per \<noteq> []" using R(1) k by (cases per) fastforce+
  have "ub_n_seq_tokens u0 = k"
    using add length_concat_const [OF k(2)] R(1) by (auto simp: ubatch_add_def Let_def split: Option.bind_splits)
  then have "equal_block n_ubatch (split_reset a) u0 (concat per)"
    unfolding equal_block_def using ne rows(2) add k(2) R(4,5)
    by (intro conjI exI [where x = per] exI [where x = "(split_reset a)\<lparr>al_out_ids := filter (\<lambda>i. al_logits a ! i \<noteq> 0) (concat per)\<rparr>"]) simp_all
  moreover have "\<forall>i \<in> set (concat per). al_seq_set a ! i \<noteq> {}" using ok R(2) by (auto simp: equal_ok_def)
  with rows_filter_sorted [OF R(4) _ R(5)] R(2,6) eq sp have "takes (concat per) a a'" unfolding takes_def by auto
  ultimately show "\<exists>idxs. equal_block n_ubatch (split_reset a) u idxs \<and> takes idxs a a'" using eq sp by auto
qed

section \<open>Sequence-set split\<close>

text \<open>A micro-batch of a sequence-set split: growing indices whose sequence sets shrink.\<close>

definition seq_block :: "nat \<Rightarrow> 'e allocr \<Rightarrow> 'e llama_ubatch \<Rightarrow> nat list \<Rightarrow> bool" where
  "seq_block n_ubatch a u idxs \<longleftrightarrow> idxs \<noteq> [] \<and> length idxs \<le> max 1 n_ubatch \<and> (\<exists>a'. ubatch_add idxs 1 True a = Some (u, a')) \<and>
     sorted_wrt (\<lambda>i j. i < j \<and> al_seq_set a ! j \<subseteq> al_seq_set a ! i) idxs"

text \<open>A token that the split passes over does not belong to the set it follows.\<close>

lemma seq_idxs_closed:
  assumes "\<forall>i < cur. al_used a ! i \<or> i \<in> set idxs \<or> \<not> al_seq_set a ! i \<subseteq> al_seq_set a ! cur" and "seq_chain a (idxs @ [cur])"
    and "\<forall>j \<in> set idxs. \<forall>i < j. al_used a ! i \<or> i \<in> set idxs \<or> \<not> al_seq_set a ! i \<subseteq> al_seq_set a ! j"
    and "j \<in> set (seq_idxs n_ubatch a cur idxs)" "i < j" "al_seq_set a ! i \<subseteq> al_seq_set a ! j"
  shows "al_used a ! i \<or> i \<in> set (seq_idxs n_ubatch a cur idxs)"
  using assms
proof (induction n_ubatch a cur idxs rule: seq_idxs.induct)
  case (1 n_ubatch a cur idxs)
  note first = 1(2)
  have here: "\<forall>j \<in> set (idxs @ [cur]). \<forall>i < j. al_used a ! i \<or> i \<in> set (idxs @ [cur]) \<or> \<not> al_seq_set a ! i \<subseteq> al_seq_set a ! j"
    using 1(2,4) by auto
  show ?case
  proof (cases "n_ubatch \<le> length (idxs @ [cur]) \<or> next_subset a (al_seq_set a ! cur) cur = None")
    case True
    then have "seq_idxs n_ubatch a cur idxs = idxs @ [cur]" by (auto simp: seq_idxs.simps [of n_ubatch a cur idxs] Let_def)
    with here 1(5-7) show ?thesis by auto
  next
    case False
    then obtain nxt where nx: "next_subset a (al_seq_set a ! cur) cur = Some nxt" "\<not> n_ubatch \<le> length (idxs @ [cur])" by blast
    then have eq: "seq_idxs n_ubatch a cur idxs = seq_idxs n_ubatch a nxt (idxs @ [cur])" by (simp add: seq_idxs.simps [of n_ubatch a cur idxs])
    from nx(1) have N: "cur < nxt" "nxt < al_n_tokens a" "\<not> al_used a ! nxt" "al_seq_set a ! nxt \<subseteq> al_seq_set a ! cur"
      by (auto simp: next_subset_def find_Some_iff)
    have skip: "al_used a ! i \<or> \<not> al_seq_set a ! i \<subseteq> al_seq_set a ! cur" if "cur < i" "i < nxt" for i
    proof -
      from nx(1) obtain k where k: "k < al_n_tokens a - Suc cur" "nxt = Suc cur + k"
        "\<And>l. l < k \<Longrightarrow> al_used a ! (Suc cur + l) \<or> \<not> (al_seq_set a ! cur \<inter> al_seq_set a ! (Suc cur + l) = al_seq_set a ! (Suc cur + l))"
        unfolding next_subset_def find_Some_iff by auto
      have "i - Suc cur < k" "Suc cur + (i - Suc cur) = i" using that k(2) by linarith+
      with k(3) [of "i - Suc cur"] show ?thesis by auto
    qed
    have open_: "\<forall>i < nxt. al_used a ! i \<or> i \<in> set (idxs @ [cur]) \<or> \<not> al_seq_set a ! i \<subseteq> al_seq_set a ! nxt"
    proof (intro allI impI)
      fix i assume "i < nxt"
      consider "i < cur" | "i = cur" | "cur < i" by linarith
      then show "al_used a ! i \<or> i \<in> set (idxs @ [cur]) \<or> \<not> al_seq_set a ! i \<subseteq> al_seq_set a ! nxt"
      proof cases
        case 1
        then have "al_used a ! i \<or> i \<in> set idxs \<or> \<not> al_seq_set a ! i \<subseteq> al_seq_set a ! cur" using first by blast
        then show ?thesis using N(4) by auto
      next
        case 3
        with skip [OF 3 \<open>i < nxt\<close>] N(4) show ?thesis by auto
      qed simp
    qed
    have chain: "seq_chain a ((idxs @ [cur]) @ [nxt])"
      using N 1(3) unfolding seq_chain_snoc [of a "idxs @ [cur]"] by (auto simp: seq_chain_snoc)
    show ?thesis using 1(1) [OF refl nx(2,1) open_ chain here] 1(5-7) unfolding eq by blast
  qed
qed

interpretation seq_tracked: tracked_splitter "split_seq n_ubatch" "\<lambda>a. length (al_used a) = al_n_tokens a" "seq_block n_ubatch" for n_ubatch
proof unfold_locales
  fix a :: "'a allocr" and u a'
  assume len: "length (al_used a) = al_n_tokens a" and pos: "0 < unused_count a" and sp: "split_seq n_ubatch a = Some (u, a')"
  let ?idxs = "seq_idxs n_ubatch a (first_unused (al_used a)) []"
  note fu = first_unused_less [OF len pos]
  have before: "al_used a ! i" if "i < first_unused (al_used a)" for i
    using that unfolding first_unused_def by (metis nth_mem set_takeWhileD takeWhile_nth)
  have chain: "seq_chain a ([] @ [first_unused (al_used a)])" using fu by (simp add: seq_chain_def)
  from split_seq_spec' [OF len pos, of n_ubatch] sp obtain u0 a0 where
    S: "a' = a\<lparr>al_used := map (\<lambda>i. al_used a ! i \<or> i \<in> set ?idxs) [0..<al_n_tokens a],
       al_n_used := al_n_used a + length ?idxs, al_out_ids := al_out_ids a @ filter (\<lambda>i. al_logits a ! i \<noteq> 0) ?idxs\<rparr>"
      "ubatch_add ?idxs 1 True (split_reset a) = Some (u, a0)" "seq_chain a ?idxs" "?idxs \<noteq> []" "length ?idxs \<le> max 1 n_ubatch" by auto
  have "seq_block n_ubatch (split_reset a) u ?idxs" using S(2-5) by (simp add: seq_block_def seq_chain_def)
  moreover have "takes ?idxs a a'"
    unfolding takes_def
  proof (intro conjI allI ballI impI)
    fix j i assume "j \<in> set ?idxs" "i < j" "al_seq_set a ! i = al_seq_set a ! j"
    then show "al_used a ! i \<or> i \<in> set ?idxs" using before by (intro seq_idxs_closed [OF _ chain, of j]) auto
  next
    fix S show "sorted_wrt (<) (filter (\<lambda>i. al_seq_set a ! i = S) ?idxs)"
      using S(3) by (auto simp: seq_chain_def intro!: sorted_wrt_filter elim: sorted_wrt_mono_rel [rotated])
  qed (use S(1,3) in \<open>auto simp: seq_chain_def\<close>)
  ultimately show "\<exists>idxs. seq_block n_ubatch (split_reset a) u idxs \<and> takes idxs a a'" by blast
qed

section \<open>Properties\<close>

lemma accepted_fresh:
  assumes "allocr_init n_pos b n_vocab mem n_embd n_seq_max output_all = Some (Inr a)"
  shows "split_reset a = a" "unused_count a = al_n_tokens a" "al_n_used a = 0" "al_out_ids a = []" "length (al_used a) = al_n_tokens a"
    "unused_of S a = filter (\<lambda>i. al_seq_set a ! i = S) [0..<al_n_tokens a]"
proof -
  show r: "split_reset a = a" using allocr_init_accepts [OF assms] by simp
  have "al_out_ids (split_reset a) = []" by (simp add: split_reset_def)
  with r show "al_out_ids a = []" by simp
  show "unused_count a = al_n_tokens a" "al_n_used a = 0" "length (al_used a) = al_n_tokens a"
    using r unused_count_reset [of a] split_reset_fields(1,2) [of a] by simp_all
  show "unused_of S a = filter (\<lambda>i. al_seq_set a ! i = S) [0..<al_n_tokens a]" using unused_of_reset [of S a] r by simp
qed

lemma equal_loop_shares:
  assumes "equal_ok (split_reset a)" "\<not> (sequential \<and> al_has_cpl a)" "split_loop (Suc (al_n_tokens a)) (split_equal n_ubatch sequential) (split_reset a) = Some (us, a')"
  shows "\<exists>idxss. shares_out (equal_block n_ubatch) (split_reset a) us idxss \<and> al_out_ids a' = filter (\<lambda>i. al_logits a ! i \<noteq> 0) (concat idxss)"
proof -
  let ?a = "split_reset a"
  have ok: "equal_ok ?a \<and> \<not> (sequential \<and> al_has_cpl ?a)" using assms(1,2) by (simp add: split_reset_def)
  have F: "split_reset ?a = ?a" "al_n_tokens ?a = al_n_tokens a" "al_logits ?a = al_logits a" "al_out_ids ?a = []" by (simp_all add: split_reset_def)
  from equal_splitter.loop_uses_all [of ?a sequential "Suc (al_n_tokens a)" n_ubatch] ok unused_count_reset [of a] assms(3)
  have "equal_ok a'" "unused_count a' = 0" by auto
  then have none: "unused_of S a' = []" for S using unused_of_none [of a' S] by (simp add: equal_ok_def)
  from equal_tracked.loop_tracks [OF ok assms(3)] F obtain idxss where
    "list_all2 (equal_block n_ubatch ?a) us idxss" "\<forall>S. unused_of S ?a = filter (\<lambda>i. al_seq_set ?a ! i = S) (concat idxss)"
    "al_out_ids a' = filter (\<lambda>i. al_logits a ! i \<noteq> 0) (concat idxss)" using none by auto
  then show ?thesis using F by (intro exI [where x = idxss]) (simp add: shares_out_def unused_of_reset)
qed





end
