(* ===== verification/KvCache.thy ===== *)
theory KvCache
  imports Batch
begin

text \<open>
  The unified key-value cache: \<^verbatim>\<open>class llama_kv_cache\<close> of \<^verbatim>\<open>src/src/llama-kv-cache.{h,cpp}\<close>,
  with the sliding-window test of \<^verbatim>\<open>src/src/llama-hparams.cpp\<close>.

  The state is one \<open>kv_cells\<close> and one search head per stream, the map from sequence ids to streams
  and the queue of pending stream copies; the tensor data of a stream is a value of the type
  parameter \<open>'d\<close>, and what the backend does to it (clearing, the rope shift graph) is an argument
  of the operations. Debug printing is left out. Every loop over the cells of a stream is
  \<open>kv_sweep\<close>: it visits each cell once and remembers the first cell that was freed.
\<close>

section \<open>State\<close>

datatype llama_swa_type = SWA_NONE | SWA_STANDARD | SWA_CHUNKED | SWA_SYMMETRIC

record 'd kv_cache =
  kv_n_seq_max :: nat
  kv_n_stream :: nat
  kv_n_pad :: nat
  kv_n_swa :: nat
  kv_swa_type :: llama_swa_type
  kv_v_heads :: "nat list"
  kv_v_cells :: "kv_cells list"
  kv_seq_to_stream :: "nat list"
  kv_sc_info :: "(nat \<times> nat) list"
  kv_data :: "'d list"

record slot_info =
  si_s0 :: nat
  si_s1 :: nat
  si_strm :: "nat list"
  si_idxs :: "nat list list"

definition slot_none :: slot_info where
  "slot_none = \<lparr>si_s0 = 0, si_s1 = 0, si_strm = [], si_idxs = []\<rparr>"

definition si_empty :: "slot_info \<Rightarrow> bool" where
  "si_empty si \<longleftrightarrow> si_idxs si = []"

definition si_size :: "slot_info \<Rightarrow> nat option" where
  "si_size si = do {
     guard (length (si_idxs si) = length (si_strm si));
     guard (si_idxs si \<noteq> []);
     Some (length (hd (si_idxs si)))
   }"

definition si_n_stream :: "slot_info \<Rightarrow> nat" where
  "si_n_stream si = length (si_strm si)"

definition si_head :: "slot_info \<Rightarrow> nat option" where
  "si_head si = do {
     guard (length (si_idxs si) = 1);
     guard (hd (si_idxs si) \<noteq> []);
     Some (hd (hd (si_idxs si)))
   }"

section \<open>Construction and clearing\<close>

text \<open>The part of the constructor that sets up the cells, heads and the stream map.\<close>

definition kv_cache_new ::
  "bool \<Rightarrow> nat \<Rightarrow> nat \<Rightarrow> nat \<Rightarrow> nat \<Rightarrow> llama_swa_type \<Rightarrow> 'd \<Rightarrow> 'd kv_cache option" where
  "kv_cache_new unified kv_size n_seq_max n_pad n_swa swa_type zero = do {
     let n_stream = (if unified then 1 else n_seq_max);
     guard (n_pad \<noteq> 0 \<and> kv_size mod n_pad = 0);
     guard (n_stream = 1 \<or> n_stream = n_seq_max);
     let s2s = vec_resize LLAMA_MAX_SEQ 0 [];
     Some \<lparr>kv_n_seq_max = n_seq_max, kv_n_stream = n_stream, kv_n_pad = n_pad, kv_n_swa = n_swa,
       kv_swa_type = swa_type, kv_v_heads = replicate n_stream 0,
       kv_v_cells = replicate n_stream (cells_resize kv_size cells_new),
       kv_seq_to_stream = (if n_stream > 1
         then fold (\<lambda>s xs. xs[s := s]) [0..<n_stream] (vec_resize n_stream 0 s2s) else s2s),
       kv_sc_info = [], kv_data = replicate n_stream zero\<rparr>
   }"

definition kv_clear :: "'d \<Rightarrow> bool \<Rightarrow> 'd kv_cache \<Rightarrow> 'd kv_cache" where
  "kv_clear zero data kv =
     (let kv1 = kv\<lparr>kv_v_cells := map cells_reset (kv_v_cells kv), kv_v_heads := map (\<lambda>_. 0) (kv_v_heads kv)\<rparr>
      in if data then kv1\<lparr>kv_data := map (\<lambda>_. zero) (kv_data kv1)\<rparr> else kv1)"

section \<open>Sequence operations\<close>

definition kv_sweep :: "(nat \<Rightarrow> kv_cells \<Rightarrow> (bool \<times> kv_cells) option) \<Rightarrow> kv_cells \<Rightarrow> (nat \<times> kv_cells) option" where
  "kv_sweep body c = foldM (\<lambda>i (new_head, c). do {
       (freed, c') \<leftarrow> body i c;
       Some (if freed \<and> new_head = cells_size c' then i else new_head, c')
     }) [0..<cells_size c] (cells_size c, c)"

text \<open>\<^verbatim>\<open>GGML_ASSERT\<close> on a sequence id, and its stream.\<close>

definition kv_stream :: "int \<Rightarrow> 'd kv_cache \<Rightarrow> nat option" where
  "kv_stream seq_id kv = do {
     guard (0 \<le> seq_id \<and> nat seq_id < length (kv_seq_to_stream kv));
     Some (kv_seq_to_stream kv ! nat seq_id)
   }"

definition range_lo :: "int \<Rightarrow> int" where
  "range_lo p0 = (if p0 < 0 then 0 else p0)"

definition range_hi :: "int \<Rightarrow> int" where
  "range_hi p1 = (if p1 < 0 then int32_max else p1)"

definition put_cells :: "nat \<Rightarrow> kv_cells \<Rightarrow> 'd kv_cache \<Rightarrow> 'd kv_cache" where
  "put_cells st c kv = kv\<lparr>kv_v_cells := (kv_v_cells kv)[st := c]\<rparr>"

definition put_head :: "nat \<Rightarrow> nat \<Rightarrow> 'd kv_cache \<Rightarrow> 'd kv_cache" where
  "put_head st h kv = kv\<lparr>kv_v_heads := (kv_v_heads kv)[st := h]\<rparr>"

text \<open>If a cell was freed before the head, the search restarts there.\<close>

definition lower_head :: "nat \<Rightarrow> nat \<Rightarrow> 'd kv_cache \<Rightarrow> 'd kv_cache" where
  "lower_head st new_head kv =
     (if new_head \<noteq> cells_size (kv_v_cells kv ! st) \<and> new_head < kv_v_heads kv ! st then put_head st new_head kv else kv)"

subsection \<open>Removing\<close>

definition seq_rm_body :: "nat \<Rightarrow> int \<Rightarrow> int \<Rightarrow> nat \<Rightarrow> kv_cells \<Rightarrow> (bool \<times> kv_cells) option" where
  "seq_rm_body s p0 p1 i c = do {
     inr \<leftarrow> cells_pos_in i p0 p1 c;
     if \<not> inr then Some (False, c)
     else do {
       has \<leftarrow> cells_seq_has i s c;
       if has then cells_seq_rm i s c else Some (False, c)
     }
   }"

definition rm_body :: "int \<Rightarrow> int \<Rightarrow> nat \<Rightarrow> kv_cells \<Rightarrow> (bool \<times> kv_cells) option" where
  "rm_body p0 p1 i c = do {
     inr \<leftarrow> cells_pos_in i p0 p1 c;
     if \<not> inr then Some (False, c)
     else do { c' \<leftarrow> cells_rm i c; Some (True, c') }
   }"

definition kv_seq_rm :: "int \<Rightarrow> int \<Rightarrow> int \<Rightarrow> 'd kv_cache \<Rightarrow> (bool \<times> 'd kv_cache) option" where
  "kv_seq_rm seq_id p0 p1 kv = do {
     guard (seq_id = - 1 \<or> (0 \<le> seq_id \<and> nat seq_id < length (kv_seq_to_stream kv)));
     let p0 = range_lo p0;
     let p1 = range_hi p1;
     if seq_id \<ge> 0 then do {
       let st = kv_seq_to_stream kv ! nat seq_id;
       (new_head, c) \<leftarrow> kv_sweep (seq_rm_body (nat seq_id) p0 p1) (kv_v_cells kv ! st);
       Some (True, lower_head st new_head (put_cells st c kv))
     }
     else do {
       kv' \<leftarrow> foldM (\<lambda>st kv. do {
         (new_head, c) \<leftarrow> kv_sweep (rm_body p0 p1) (kv_v_cells kv ! st);
         Some (lower_head st new_head (put_cells st c kv))
       }) [0..<kv_n_stream kv] kv;
       Some (True, kv')
     }
   }"

subsection \<open>Copying\<close>

definition seq_cp_body :: "nat \<Rightarrow> nat \<Rightarrow> int \<Rightarrow> int \<Rightarrow> nat \<Rightarrow> kv_cells \<Rightarrow> (bool \<times> kv_cells) option" where
  "seq_cp_body src dst p0 p1 i c = do {
     inr \<leftarrow> cells_pos_in i p0 p1 c;
     if \<not> inr then Some (False, c)
     else do {
       has \<leftarrow> cells_seq_has i src c;
       if has then do { c' \<leftarrow> cells_seq_add i dst c; Some (False, c') } else Some (False, c)
     }
   }"

text \<open>One cell of a copy between streams: \<open>c0\<close> is the source, \<open>c1\<close> the destination.\<close>

definition stream_cp_cell :: "nat \<Rightarrow> nat \<Rightarrow> kv_cells \<Rightarrow> nat \<Rightarrow> kv_cells \<Rightarrow> kv_cells option" where
  "stream_cp_cell src dst c0 i c1 = do {
     has \<leftarrow> cells_seq_has i src c0;
     if \<not> has then Some c1
     else do {
       pos \<leftarrow> cells_pos_get i c0;
       shift \<leftarrow> cells_get_shift i c0;
       pos' \<leftarrow> (if shift \<noteq> 0 then do { q \<leftarrow> s32 (pos - shift); guard (q \<ge> 0); Some q } else Some pos);
       c1 \<leftarrow> cells_pos_set i pos' c1;
       c1 \<leftarrow> cells_seq_add i dst c1;
       if shift \<noteq> 0 then do { (_, c1) \<leftarrow> cells_pos_add i shift c1; Some c1 } else Some c1
     }
   }"

definition kv_get_size :: "'d kv_cache \<Rightarrow> nat" where
  "kv_get_size kv = cells_size (kv_v_cells kv ! (kv_seq_to_stream kv ! 0))"

definition kv_seq_cp :: "int \<Rightarrow> int \<Rightarrow> int \<Rightarrow> int \<Rightarrow> 'd kv_cache \<Rightarrow> 'd kv_cache option" where
  "kv_seq_cp src dst p0 p1 kv = do {
     s0 \<leftarrow> kv_stream src kv;
     s1 \<leftarrow> kv_stream dst kv;
     if s0 = s1 then
       (if src = dst then Some kv
        else do {
          (_, c) \<leftarrow> kv_sweep (seq_cp_body (nat src) (nat dst) (range_lo p0) (range_hi p1)) (kv_v_cells kv ! s0);
          Some (put_cells s0 c kv)
        })
     else do {
       let size = int (kv_get_size kv);
       guard (\<not> (p0 > 0 \<and> p0 + 1 < size) \<and> \<not> (p1 > 0 \<and> p1 + 1 < size));
       let kv1 = kv\<lparr>kv_sc_info := kv_sc_info kv @ [(s0, s1)]\<rparr>;
       c1 \<leftarrow> foldM (stream_cp_cell (nat src) (nat dst) (kv_v_cells kv1 ! s0)) [0..<cells_size (kv_v_cells kv1 ! s0)]
               (cells_reset (kv_v_cells kv1 ! s1));
       Some (put_head s1 (kv_v_heads kv1 ! s0) (put_cells s1 c1 kv1))
     }
   }"

subsection \<open>Keeping, shifting, dividing\<close>

definition kv_seq_keep :: "int \<Rightarrow> 'd kv_cache \<Rightarrow> 'd kv_cache option" where
  "kv_seq_keep seq_id kv = do {
     st \<leftarrow> kv_stream seq_id kv;
     (new_head, c) \<leftarrow> kv_sweep (\<lambda>i. cells_seq_keep i (nat seq_id)) (kv_v_cells kv ! st);
     Some (lower_head st new_head (put_cells st c kv))
   }"

definition seq_add_body :: "nat \<Rightarrow> int \<Rightarrow> int \<Rightarrow> int \<Rightarrow> nat \<Rightarrow> kv_cells \<Rightarrow> (bool \<times> kv_cells) option" where
  "seq_add_body s p0 p1 shift i c = do {
     inr \<leftarrow> cells_pos_in i p0 p1 c;
     if \<not> inr then Some (False, c)
     else do {
       has \<leftarrow> cells_seq_has i s c;
       if has then cells_pos_add i shift c else Some (False, c)
     }
   }"

definition kv_seq_add :: "int \<Rightarrow> int \<Rightarrow> int \<Rightarrow> int \<Rightarrow> 'd kv_cache \<Rightarrow> 'd kv_cache option" where
  "kv_seq_add seq_id p0 p1 shift kv = do {
     st \<leftarrow> kv_stream seq_id kv;
     if shift = 0 then Some kv
     else do {
       let p0 = range_lo p0;
       let p1 = range_hi p1;
       if p0 = p1 then Some kv
       else do {
         (new_head, c) \<leftarrow> kv_sweep (seq_add_body (nat seq_id) p0 p1 shift) (kv_v_cells kv ! st);
         Some (put_head st (if new_head \<noteq> cells_size c then new_head else 0) (put_cells st c kv))
       }
     }
   }"

definition seq_div_body :: "nat \<Rightarrow> int \<Rightarrow> int \<Rightarrow> int \<Rightarrow> nat \<Rightarrow> kv_cells \<Rightarrow> (bool \<times> kv_cells) option" where
  "seq_div_body s p0 p1 d i c = do {
     inr \<leftarrow> cells_pos_in i p0 p1 c;
     if \<not> inr then Some (False, c)
     else do {
       has \<leftarrow> cells_seq_has i s c;
       if has then do { c' \<leftarrow> cells_pos_div i d c; Some (False, c') } else Some (False, c)
     }
   }"

definition kv_seq_div :: "int \<Rightarrow> int \<Rightarrow> int \<Rightarrow> int \<Rightarrow> 'd kv_cache \<Rightarrow> 'd kv_cache option" where
  "kv_seq_div seq_id p0 p1 d kv = do {
     st \<leftarrow> kv_stream seq_id kv;
     if d = 1 then Some kv
     else do {
       let p0 = range_lo p0;
       let p1 = range_hi p1;
       if p0 = p1 then Some kv
       else do {
         (_, c) \<leftarrow> kv_sweep (seq_div_body (nat seq_id) p0 p1 d) (kv_v_cells kv ! st);
         Some (put_cells st c kv)
       }
     }
   }"

definition kv_seq_pos_min :: "int \<Rightarrow> 'd kv_cache \<Rightarrow> int option" where
  "kv_seq_pos_min seq_id kv = do { st \<leftarrow> kv_stream seq_id kv; cells_seq_pos_min (nat seq_id) (kv_v_cells kv ! st) }"

definition kv_seq_pos_max :: "int \<Rightarrow> 'd kv_cache \<Rightarrow> int option" where
  "kv_seq_pos_max seq_id kv = do { st \<leftarrow> kv_stream seq_id kv; cells_seq_pos_max (nat seq_id) (kv_v_cells kv ! st) }"

section \<open>Sweeping the cells\<close>

type_synonym cell = "int \<times> int \<times> nat set"

definition cell_at :: "kv_cells \<Rightarrow> nat \<Rightarrow> cell" where
  "cell_at c i = (kc_pos c ! i, kc_shift c ! i, kc_seq c ! i)"

definition cell_free :: cell where
  "cell_free = (- 1, 0, {})"

text \<open>\<open>d\<close> is \<open>c\<close> with cell \<open>i\<close> replaced.\<close>

definition cell_put :: "nat \<Rightarrow> cell \<Rightarrow> kv_cells \<Rightarrow> kv_cells \<Rightarrow> bool" where
  "cell_put i x c d \<longleftrightarrow> cells_put i (fst x) (fst (snd x)) (snd (snd x)) c d"

lemma cell_put_size: "cell_put i x c d \<Longrightarrow> cells_size d = cells_size c"
  by (simp add: cell_put_def cells_put_def cells_size_def)

lemma cell_put_at:
  assumes "cell_put i x c d" and "cells_inv c" and "j < cells_size c"
  shows "cell_at d j = (if j = i then x else cell_at c j)"
  using assms by (cases x) (auto simp: cell_put_def cells_put_def cell_at_def cells_size_def cells_inv_def nth_list_update_if)

lemma cell_put_self: "cell_put i (cell_at c i) c c"
  by (simp add: cell_put_def cells_put_def cell_at_def)

text \<open>The index of the first cell that satisfies a predicate, the size if there is none.\<close>

definition first_cell :: "(cell \<Rightarrow> bool) \<Rightarrow> kv_cells \<Rightarrow> nat" where
  "first_cell P c = length (takeWhile (\<lambda>i. \<not> P (cell_at c i)) [0..<cells_size c])"

section \<open>The cache invariant\<close>

text \<open>
  A used cell belongs to some sequence, and with several streams a stream holds only the sequence
  of its own number.
\<close>

definition cell_legal :: "nat \<Rightarrow> nat \<Rightarrow> cell \<Rightarrow> bool" where
  "cell_legal n_stream st = (\<lambda>(p, sh, S). (p \<noteq> - 1 \<longrightarrow> S \<noteq> {}) \<and> (1 < n_stream \<longrightarrow> S \<subseteq> {st}))"

definition stream_inv :: "'d kv_cache \<Rightarrow> nat \<Rightarrow> bool" where
  "stream_inv kv st \<longleftrightarrow> cells_inv (kv_v_cells kv ! st) \<and> cells_size (kv_v_cells kv ! st) = kv_get_size kv \<and>
     kv_v_heads kv ! st \<le> cells_size (kv_v_cells kv ! st) \<and>
     (\<forall>i < cells_size (kv_v_cells kv ! st). cell_legal (kv_n_stream kv) st (cell_at (kv_v_cells kv ! st) i))"

definition kv_inv :: "'d kv_cache \<Rightarrow> bool" where
  "kv_inv kv \<longleftrightarrow> 0 < kv_n_stream kv \<and> kv_n_stream kv \<le> LLAMA_MAX_SEQ \<and> kv_n_stream kv \<le> max 1 (kv_n_seq_max kv) \<and>
     length (kv_v_cells kv) = kv_n_stream kv \<and> length (kv_v_heads kv) = kv_n_stream kv \<and>
     length (kv_data kv) = kv_n_stream kv \<and>
     kv_seq_to_stream kv = (if kv_n_stream kv = 1 then replicate LLAMA_MAX_SEQ 0 else [0..<kv_n_stream kv]) \<and>
     (\<forall>(a, b) \<in> set (kv_sc_info kv). a < kv_n_stream kv \<and> b < kv_n_stream kv \<and> a \<noteq> b) \<and>
     (\<forall>st < kv_n_stream kv. stream_inv kv st)"

text \<open>Everything but the cells and the head of one stream.\<close>

definition kv_frame :: "nat \<Rightarrow> 'd kv_cache \<Rightarrow> 'd kv_cache \<Rightarrow> bool" where
  "kv_frame st kv kv' \<longleftrightarrow> (\<exists>c h. kv' = put_head st h (put_cells st c kv))"

lemma kv_inv_stream:
  assumes "kv_inv kv" and "kv_stream seq_id kv = Some st"
  shows "st < kv_n_stream kv" and "nat seq_id < LLAMA_MAX_SEQ" and "0 \<le> seq_id" and "1 < kv_n_stream kv \<Longrightarrow> st = nat seq_id"
    and "kv_seq_to_stream kv ! nat seq_id = st" and "nat seq_id < length (kv_seq_to_stream kv)"
  using assms by (auto simp: kv_inv_def kv_stream_def guard_def split: if_splits Option.bind_splits)

lemma kv_invD:
  assumes "kv_inv kv" and "st < kv_n_stream kv"
  shows "cells_inv (kv_v_cells kv ! st)" and "cells_size (kv_v_cells kv ! st) = kv_get_size kv"
    and "kv_v_heads kv ! st \<le> cells_size (kv_v_cells kv ! st)" and "st < length (kv_v_cells kv)" and "st < length (kv_v_heads kv)"
    and "i < cells_size (kv_v_cells kv ! st) \<Longrightarrow> cell_legal (kv_n_stream kv) st (cell_at (kv_v_cells kv ! st) i)"
  using assms unfolding kv_inv_def stream_inv_def by auto

lemma kv_fields [simp]:
  "kv_v_cells (put_head st h kv) = kv_v_cells kv" "kv_v_heads (put_cells st c kv) = kv_v_heads kv"
  "kv_v_cells (put_cells st c kv) = (kv_v_cells kv)[st := c]" "kv_v_heads (put_head st h kv) = (kv_v_heads kv)[st := h]"
  "kv_n_stream (put_head st h kv) = kv_n_stream kv" "kv_n_stream (put_cells st c kv) = kv_n_stream kv"
  "kv_seq_to_stream (put_head st h kv) = kv_seq_to_stream kv" "kv_seq_to_stream (put_cells st c kv) = kv_seq_to_stream kv"
  by (simp_all add: put_cells_def put_head_def)

lemma kv_get_size_put [simp]:
  "kv_get_size (put_head st h kv) = kv_get_size kv"
  "cells_size c = cells_size (kv_v_cells kv ! st) \<Longrightarrow> kv_get_size (put_cells st c kv) = kv_get_size kv"
  by (auto simp: kv_get_size_def nth_list_update list_update_beyond)
    (metis list_update_beyond not_le nth_list_update_eq nth_list_update_neq)

lemma kv_inv_put:
  assumes inv: "kv_inv kv" and st: "st < kv_n_stream kv" and c: "cells_inv c" "cells_size c = cells_size (kv_v_cells kv ! st)"
    and legal: "\<And>i. i < cells_size c \<Longrightarrow> cell_legal (kv_n_stream kv) st (cell_at c i)" and h: "h \<le> cells_size c"
  shows "kv_inv (put_head st h (put_cells st c kv))"
proof -
  let ?kv = "put_head st h (put_cells st c kv)"
  note D = kv_invD [OF inv]
  have size: "kv_get_size ?kv = kv_get_size kv" using c(2) by simp
  have "stream_inv ?kv s" if s: "s < kv_n_stream kv" for s
  proof (cases "s = st")
    case True
    with c legal h D(2,4,5) [OF st] size show ?thesis unfolding stream_inv_def by simp
  next
    case False
    with D [OF s] size show ?thesis unfolding stream_inv_def by simp
  qed
  with inv show ?thesis by (simp add: kv_inv_def put_head_def put_cells_def)
qed

lemma lower_head_put:
  assumes inv: "kv_inv kv" and st: "st < kv_n_stream kv" and "cells_size c = cells_size (kv_v_cells kv ! st)"
  shows "lower_head st nh (put_cells st c kv) = put_head st (min nh (kv_v_heads kv ! st)) (put_cells st c kv)"
  using kv_invD [OF inv st] assms(3) by (auto simp: lower_head_def min_def put_head_def put_cells_def)

lemma put_head_same: "put_head st (kv_v_heads kv ! st) kv = kv"
  by (simp add: put_head_def)

lemma cell_legal_free [simp]: "cell_legal n st cell_free"
  by (simp add: cell_legal_def cell_free_def)

lemma first_cell_le [simp]: "first_cell P c \<le> cells_size c"
  unfolding first_cell_def by (metis diff_zero length_takeWhile_le length_upt)

text \<open>The cells of a stream after every cell changed by \<open>eff\<close>.\<close>

definition cells_mapped :: "(cell \<Rightarrow> cell) \<Rightarrow> kv_cells \<Rightarrow> kv_cells \<Rightarrow> bool" where
  "cells_mapped eff c d \<longleftrightarrow> cells_inv d \<and> cells_size d = cells_size c \<and>
     (\<forall>i < cells_size c. cell_at d i = eff (cell_at c i))"

section \<open>The contract of a loop body\<close>

text \<open>
  The contract of a loop body: on a cell that satisfies \<open>ok\<close> it does not abort, changes this cell
  alone, by \<open>eff\<close>, reports whether the cell was \<open>freed\<close>, and raises the shift flag if the cell
  \<open>shifts\<close>.
\<close>

locale cell_sweep =
  fixes body :: "nat \<Rightarrow> kv_cells \<Rightarrow> (bool \<times> kv_cells) option"
    and ok :: "cell \<Rightarrow> bool" and eff :: "cell \<Rightarrow> cell" and freed :: "cell \<Rightarrow> bool" and shifts :: "cell \<Rightarrow> bool"
  assumes body: "cells_inv c \<Longrightarrow> i < cells_size c \<Longrightarrow> ok (cell_at c i) \<Longrightarrow>
    wp (body i c) (\<lambda>(b, d). b = freed (cell_at c i) \<and> cells_inv d \<and> cell_put i (eff (cell_at c i)) c d \<and>
      kc_has_shift d = (kc_has_shift c \<or> shifts (cell_at c i)))"
begin

definition swept :: "nat \<Rightarrow> kv_cells \<Rightarrow> nat \<Rightarrow> kv_cells \<Rightarrow> bool" where
  "swept k c h d \<longleftrightarrow> cells_inv d \<and> cells_size d = cells_size c \<and>
     (\<forall>i < cells_size c. cell_at d i = (if i < k then eff (cell_at c i) else cell_at c i)) \<and>
     kc_has_shift d = (kc_has_shift c \<or> (\<exists>i < k. shifts (cell_at c i))) \<and>
     (if \<exists>i < k. freed (cell_at c i) then h < k \<and> freed (cell_at c h) \<and> (\<forall>i < h. \<not> freed (cell_at c i))
      else h = cells_size c)"

lemma swept_step:
  assumes inv: "cells_inv c" and k: "k < cells_size c" and ok: "ok (cell_at c k)" and sw: "swept k c h d"
  shows "wp (body k d) (\<lambda>(b, e). swept (Suc k) c (if b \<and> h = cells_size e then k else h) e)"
proof -
  from sw k have d: "cells_inv d" "cells_size d = cells_size c" "cell_at d k = cell_at c k" by (auto simp: swept_def)
  have "wp (body k d) (\<lambda>(b, e). b = freed (cell_at c k) \<and> cells_inv e \<and> cell_put k (eff (cell_at c k)) d e \<and>
      kc_has_shift e = (kc_has_shift d \<or> shifts (cell_at c k)))"
    using body [OF d(1), of k] d k ok by simp
  then show ?thesis
  proof (rule wp_mono, clarify)
    fix e
    assume e: "cells_inv e" "cell_put k (eff (cell_at c k)) d e" "kc_has_shift e = (kc_has_shift d \<or> shifts (cell_at c k))"
    have size: "cells_size e = cells_size c" using cell_put_size [OF e(2)] d by simp
    have at: "cell_at e i = (if i < Suc k then eff (cell_at c i) else cell_at c i)" if "i < cells_size c" for i
      using cell_put_at [OF e(2) d(1), of i] that sw d(2) by (auto simp: swept_def less_Suc_eq)
    have shift: "kc_has_shift e = (kc_has_shift c \<or> (\<exists>i < Suc k. shifts (cell_at c i)))"
      using e(3) sw by (auto simp: swept_def less_Suc_eq)
    have head: "if \<exists>i < Suc k. freed (cell_at c i)
        then (if freed (cell_at c k) \<and> h = cells_size e then k else h) < Suc k \<and>
          freed (cell_at c (if freed (cell_at c k) \<and> h = cells_size e then k else h)) \<and>
          (\<forall>i < (if freed (cell_at c k) \<and> h = cells_size e then k else h). \<not> freed (cell_at c i))
        else (if freed (cell_at c k) \<and> h = cells_size e then k else h) = cells_size c"
    proof (cases "\<exists>i < k. freed (cell_at c i)")
      case True
      with sw have h: "h < k" "freed (cell_at c h)" "\<forall>i < h. \<not> freed (cell_at c i)" by (auto simp: swept_def)
      with k size have "h \<noteq> cells_size e" by simp
      with h True show ?thesis by (auto simp: less_Suc_eq)
    next
      case False
      with sw have "h = cells_size c" by (simp add: swept_def)
      with False size show ?thesis by (auto simp: less_Suc_eq)
    qed
    show "swept (Suc k) c (if freed (cell_at c k) \<and> h = cells_size e then k else h) e"
      unfolding swept_def using e(1) size at shift head by blast
  qed
qed

lemma sweep:
  assumes inv: "cells_inv c" and ok: "\<And>i. i < cells_size c \<Longrightarrow> ok (cell_at c i)"
  shows "wp (kv_sweep body c) (\<lambda>(h, d). cells_inv d \<and> cells_size d = cells_size c \<and>
    (\<forall>i < cells_size c. cell_at d i = eff (cell_at c i)) \<and>
    kc_has_shift d = (kc_has_shift c \<or> (\<exists>i < cells_size c. shifts (cell_at c i))) \<and>
    h = first_cell freed c)"
proof -
  have "wp (kv_sweep body c) (\<lambda>s. swept (cells_size c) c (fst s) (snd s))"
    unfolding kv_sweep_def
  proof (rule wp_foldM_upt [where P = "\<lambda>k s. swept k c (fst s) (snd s)"])
    show "swept 0 c (fst (cells_size c, c)) (snd (cells_size c, c))" using inv by (simp add: swept_def)
  next
    fix k and s :: "nat \<times> kv_cells"
    assume "k < cells_size c" and "swept k c (fst s) (snd s)"
    from swept_step [OF inv this(1) ok [OF this(1)] this(2)]
    show "wp (case s of (new_head, c) \<Rightarrow> do { (freed, c') \<leftarrow> body k c;
        Some (if freed \<and> new_head = cells_size c' then k else new_head, c') }) (\<lambda>s. swept (Suc k) c (fst s) (snd s))"
      by (auto simp: wp_rules split_beta elim!: wp_mono)
  qed
  moreover have first: "h = first_cell freed c" if "swept (cells_size c) c h d" for h d
  proof (cases "\<exists>i < cells_size c. freed (cell_at c i)")
    case True
    with that have h: "h < cells_size c" "freed (cell_at c h)" "\<forall>i < h. \<not> freed (cell_at c i)" by (auto simp: swept_def)
    then have "[0..<cells_size c] = [0..<h] @ h # [Suc h..<cells_size c]"
      using upt_add_eq_append [of 0 h "cells_size c - h"] by (simp add: upt_conv_Cons)
    moreover have "takeWhile (\<lambda>i. \<not> freed (cell_at c i)) ([0..<h] @ h # [Suc h..<cells_size c]) = [0..<h]"
      by (subst takeWhile_append2) (use h in auto)
    ultimately show ?thesis by (simp add: first_cell_def)
  next
    case False
    with that have "h = cells_size c" by (simp add: swept_def)
    moreover have "takeWhile (\<lambda>i. \<not> freed (cell_at c i)) [0..<cells_size c] = [0..<cells_size c]"
      using False by (simp add: takeWhile_eq_all_conv)
    ultimately show ?thesis unfolding first_cell_def by (metis diff_zero length_upt)
  qed
  moreover have "cells_inv d \<and> cells_size d = cells_size c \<and> (\<forall>i < cells_size c. cell_at d i = eff (cell_at c i)) \<and>
      kc_has_shift d = (kc_has_shift c \<or> (\<exists>i < cells_size c. shifts (cell_at c i)))" if "swept (cells_size c) c h d" for h d
    using that by (simp add: swept_def)
  ultimately show ?thesis
    by (elim wp_mono) (simp add: split_beta)
qed

lemma sweep_stream:
  assumes inv: "kv_inv kv" and st: "st < kv_n_stream kv"
    and ok: "\<And>i. i < cells_size (kv_v_cells kv ! st) \<Longrightarrow> ok (cell_at (kv_v_cells kv ! st) i)"
    and legal: "\<And>i. i < cells_size (kv_v_cells kv ! st) \<Longrightarrow> cell_legal (kv_n_stream kv) st (cell_at (kv_v_cells kv ! st) i) \<Longrightarrow>
      cell_legal (kv_n_stream kv) st (eff (cell_at (kv_v_cells kv ! st) i))"
  shows "\<exists>d. kv_sweep body (kv_v_cells kv ! st) = Some (first_cell freed (kv_v_cells kv ! st), d) \<and>
    cells_mapped eff (kv_v_cells kv ! st) d \<and>
    kc_has_shift d = (kc_has_shift (kv_v_cells kv ! st) \<or>
      (\<exists>i < cells_size (kv_v_cells kv ! st). shifts (cell_at (kv_v_cells kv ! st) i))) \<and>
    (\<forall>h \<le> cells_size d. kv_inv (put_head st h (put_cells st d kv)))"
proof -
  let ?c = "kv_v_cells kv ! st"
  from wpD [OF sweep [OF kv_invD(1) [OF inv st] ok]] obtain d where
    d: "kv_sweep body ?c = Some (first_cell freed ?c, d)" "cells_inv d" "cells_size d = cells_size ?c"
      "\<forall>i < cells_size ?c. cell_at d i = eff (cell_at ?c i)"
      "kc_has_shift d = (kc_has_shift ?c \<or> (\<exists>i < cells_size ?c. shifts (cell_at ?c i)))" by auto
  have "cell_legal (kv_n_stream kv) st (cell_at d i)" if "i < cells_size d" for i
    using legal [OF _ kv_invD(6) [OF inv st]] that d(3,4) by simp
  with kv_inv_put [OF inv st d(2,3)] have "\<forall>h \<le> cells_size d. kv_inv (put_head st h (put_cells st d kv))" by blast
  with d show ?thesis by (auto simp: cells_mapped_def)
qed

end


section \<open>The loop bodies\<close>

text \<open>Cells of the sequence whose position is in the range.\<close>

definition cell_hit :: "nat \<Rightarrow> int \<Rightarrow> int \<Rightarrow> cell \<Rightarrow> bool" where
  "cell_hit s p0 p1 = (\<lambda>(p, sh, S). p0 \<le> p \<and> p < p1 \<and> s \<in> S)"

lemma cell_at_simps [simp]: "fst (cell_at c i) = kc_pos c ! i" "fst (snd (cell_at c i)) = kc_shift c ! i"
  "snd (snd (cell_at c i)) = kc_seq c ! i"
  by (simp_all add: cell_at_def)

lemma cell_put_cells_put: "cells_put i p sh S c d \<Longrightarrow> cell_put i (p, sh, S) c d"
  by (simp add: cell_put_def)

lemma cell_put_same: "cell_put i (kc_pos c ! i, kc_shift c ! i, kc_seq c ! i) c c"
  using cell_put_self by (simp add: cell_at_def)

lemma range_lo_nonneg [simp]: "0 \<le> range_lo p0"
  by (simp add: range_lo_def)

text \<open>What every body needs of its cell.\<close>

lemma cell_atD:
  assumes "cells_inv c" and "i < cells_size c"
  shows "i < length (kc_pos c)" and "kc_pos c ! i \<ge> - 1" and "kc_pos c ! i = - 1 \<Longrightarrow> kc_seq c ! i = {} \<and> kc_shift c ! i = 0"
    and "s \<in> kc_seq c ! i \<Longrightarrow> s < LLAMA_MAX_SEQ \<and> kc_pos c ! i \<noteq> - 1"
    and "kc_pos c ! i \<le> int32_max"
  using cells_invD(5) [OF assms(1), of i] assms(2) by (auto simp: cells_size_def cell_ok_def)

text \<open>What each operation does to a cell, and which cells it frees.\<close>

definition rm_eff :: "nat \<Rightarrow> int \<Rightarrow> int \<Rightarrow> cell \<Rightarrow> cell" where
  "rm_eff s p0 p1 x = (if cell_hit s p0 p1 x
     then (if snd (snd x) = {s} then cell_free else (fst x, fst (snd x), snd (snd x) - {s})) else x)"

definition rm_freed :: "nat \<Rightarrow> int \<Rightarrow> int \<Rightarrow> cell \<Rightarrow> bool" where
  "rm_freed s p0 p1 x \<longleftrightarrow> cell_hit s p0 p1 x \<and> snd (snd x) = {s}"

definition rm_all_eff :: "int \<Rightarrow> int \<Rightarrow> cell \<Rightarrow> cell" where
  "rm_all_eff p0 p1 x = (if p0 \<le> fst x \<and> fst x < p1 then cell_free else x)"

definition rm_all_freed :: "int \<Rightarrow> int \<Rightarrow> cell \<Rightarrow> bool" where
  "rm_all_freed p0 p1 x \<longleftrightarrow> p0 \<le> fst x \<and> fst x < p1"

definition keep_eff :: "nat \<Rightarrow> cell \<Rightarrow> cell" where
  "keep_eff s x = (if s \<in> snd (snd x) then (fst x, fst (snd x), {s}) else cell_free)"

definition keep_freed :: "nat \<Rightarrow> cell \<Rightarrow> bool" where
  "keep_freed s x \<longleftrightarrow> s \<notin> snd (snd x) \<and> snd (snd x) \<noteq> {}"

definition add_eff :: "nat \<Rightarrow> int \<Rightarrow> int \<Rightarrow> int \<Rightarrow> cell \<Rightarrow> cell" where
  "add_eff s p0 p1 d x = (if cell_hit s p0 p1 x
     then (if fst x + d < 0 then cell_free else (fst x + d, fst (snd x) + d, snd (snd x))) else x)"

definition add_freed :: "nat \<Rightarrow> int \<Rightarrow> int \<Rightarrow> int \<Rightarrow> cell \<Rightarrow> bool" where
  "add_freed s p0 p1 d x \<longleftrightarrow> cell_hit s p0 p1 x \<and> fst x + d < 0"

definition div_eff :: "nat \<Rightarrow> int \<Rightarrow> int \<Rightarrow> int \<Rightarrow> cell \<Rightarrow> cell" where
  "div_eff s p0 p1 d x = (if cell_hit s p0 p1 x
     then (fst x div d, fst (snd x) + (fst x - fst x div d), snd (snd x)) else x)"

definition cp_eff :: "nat \<Rightarrow> nat \<Rightarrow> int \<Rightarrow> int \<Rightarrow> cell \<Rightarrow> cell" where
  "cp_eff src dst p0 p1 x = (if cell_hit src p0 p1 x then (fst x, fst (snd x), insert dst (snd (snd x))) else x)"

interpretation rm_seq: cell_sweep "seq_rm_body s p0 p1" "\<lambda>_. s < LLAMA_MAX_SEQ" "rm_eff s p0 p1" "rm_freed s p0 p1"
  "\<lambda>_. False" for s p0 p1
  unfolding rm_eff_def [abs_def] rm_freed_def [abs_def]
proof
  fix c i
  assume inv: "cells_inv c" and i: "i < cells_size c" and s: "s < LLAMA_MAX_SEQ"
  note D = cell_atD [OF inv i]
  show "wp (seq_rm_body s p0 p1 i c) (\<lambda>(b, d). b = (cell_hit s p0 p1 (cell_at c i) \<and> snd (snd (cell_at c i)) = {s}) \<and> cells_inv d \<and>
      cell_put i (if cell_hit s p0 p1 (cell_at c i) then (if snd (snd (cell_at c i)) = {s} then cell_free
        else (fst (cell_at c i), fst (snd (cell_at c i)), snd (snd (cell_at c i)) - {s})) else cell_at c i) c d \<and>
      kc_has_shift d = (kc_has_shift c \<or> False))"
  proof (cases "cell_hit s p0 p1 (cell_at c i)")
    case True
    then have hit: "p0 \<le> kc_pos c ! i" "kc_pos c ! i < p1" "s \<in> kc_seq c ! i" by (auto simp: cell_hit_def cell_at_def)
    have "wp (seq_rm_body s p0 p1 i c) (\<lambda>(b, d). b = (kc_seq c ! i = {s}) \<and> cells_inv d \<and> kc_has_shift d = kc_has_shift c \<and>
        (if b then cells_put i (- 1) 0 {} c d else cells_put i (kc_pos c ! i) (kc_shift c ! i) (kc_seq c ! i - {s}) c d))"
      using cells_seq_rm_spec [OF inv D(1) hit(3)] hit D(1) s
      by (simp add: seq_rm_body_def cells_pos_in_def cells_seq_has_def bitset_test_def)
    then show ?thesis
      by (rule wp_mono) (use True in \<open>auto simp: cell_free_def intro: cell_put_cells_put split: if_splits\<close>)
  next
    case False
    then have "seq_rm_body s p0 p1 i c = Some (False, c)"
      using D(1) s by (auto simp: seq_rm_body_def cells_pos_in_def cells_seq_has_def bitset_test_def cell_hit_def cell_at_def)
    with False inv show ?thesis by (simp add: cell_put_self)
  qed
qed

interpretation rm_all: cell_sweep "rm_body p0 p1" "\<lambda>_. 0 \<le> p0" "rm_all_eff p0 p1" "rm_all_freed p0 p1"
  "\<lambda>_. False" for p0 p1
  unfolding rm_all_eff_def [abs_def] rm_all_freed_def [abs_def]
proof
  fix c i
  assume inv: "cells_inv c" and i: "i < cells_size c" and p0: "0 \<le> p0"
  note D = cell_atD [OF inv i]
  show "wp (rm_body p0 p1 i c) (\<lambda>(b, d). b = (p0 \<le> fst (cell_at c i) \<and> fst (cell_at c i) < p1) \<and> cells_inv d \<and>
      cell_put i (if p0 \<le> fst (cell_at c i) \<and> fst (cell_at c i) < p1 then cell_free else cell_at c i) c d \<and>
      kc_has_shift d = (kc_has_shift c \<or> False))"
  proof (cases "p0 \<le> kc_pos c ! i \<and> kc_pos c ! i < p1")
    case True
    then have "kc_pos c ! i \<noteq> - 1" using p0 by auto
    from wpD [OF cells_rm_spec [OF inv D(1) this]] True D(1) show ?thesis
      by (auto simp: rm_body_def cells_pos_in_def cell_free_def intro: cell_put_cells_put)
  next
    case False
    then show ?thesis using D(1) inv by (auto simp: rm_body_def cells_pos_in_def cell_put_self)
  qed
qed

interpretation keep: cell_sweep "\<lambda>i. cells_seq_keep i s" "\<lambda>x. s < LLAMA_MAX_SEQ \<and> (snd (snd x) = {} \<longrightarrow> fst x = - 1)"
  "keep_eff s" "keep_freed s" "\<lambda>_. False" for s
  unfolding keep_eff_def [abs_def] keep_freed_def [abs_def]
proof
  fix c i
  assume inv: "cells_inv c" and i: "i < cells_size c"
    and ok: "s < LLAMA_MAX_SEQ \<and> (snd (snd (cell_at c i)) = {} \<longrightarrow> fst (cell_at c i) = - 1)"
  then have "kc_seq c ! i = {} \<Longrightarrow> kc_pos c ! i = - 1" by simp
  from cells_seq_keep_spec [OF inv cell_atD(1) [OF inv i] _ this, of s] ok
  show "wp (cells_seq_keep i s c) (\<lambda>(b, d). b = (s \<notin> snd (snd (cell_at c i)) \<and> snd (snd (cell_at c i)) \<noteq> {}) \<and> cells_inv d \<and>
      cell_put i (if s \<in> snd (snd (cell_at c i)) then (fst (cell_at c i), fst (snd (cell_at c i)), {s}) else cell_free) c d \<and>
      kc_has_shift d = (kc_has_shift c \<or> False))"
    by (auto elim!: wp_mono simp: cell_free_def intro: cell_put_cells_put split: if_splits)
qed

interpretation add: cell_sweep "seq_add_body s p0 p1 d"
  "\<lambda>x. s < LLAMA_MAX_SEQ \<and> (cell_hit s p0 p1 x \<longrightarrow> int32_ok (fst x + d) \<and> int32_ok (fst (snd x) + d))"
  "add_eff s p0 p1 d" "add_freed s p0 p1 d" "cell_hit s p0 p1" for s p0 p1 d
  unfolding add_eff_def [abs_def] add_freed_def [abs_def]
proof
  fix c i
  assume inv: "cells_inv c" and i: "i < cells_size c" and ok: "s < LLAMA_MAX_SEQ \<and> (cell_hit s p0 p1 (cell_at c i) \<longrightarrow>
      int32_ok (fst (cell_at c i) + d) \<and> int32_ok (fst (snd (cell_at c i)) + d))"
  note D = cell_atD [OF inv i]
  show "wp (seq_add_body s p0 p1 d i c) (\<lambda>(b, e). b = (cell_hit s p0 p1 (cell_at c i) \<and> fst (cell_at c i) + d < 0) \<and> cells_inv e \<and>
      cell_put i (if cell_hit s p0 p1 (cell_at c i) then (if fst (cell_at c i) + d < 0 then cell_free
        else (fst (cell_at c i) + d, fst (snd (cell_at c i)) + d, snd (snd (cell_at c i)))) else cell_at c i) c e \<and>
      kc_has_shift e = (kc_has_shift c \<or> cell_hit s p0 p1 (cell_at c i)))"
  proof (cases "cell_hit s p0 p1 (cell_at c i)")
    case True
    then have hit: "p0 \<le> kc_pos c ! i" "kc_pos c ! i < p1" "s \<in> kc_seq c ! i" by (auto simp: cell_hit_def cell_at_def)
    have "wp (seq_add_body s p0 p1 d i c) (\<lambda>(b, e). b = (kc_pos c ! i + d < 0) \<and> cells_inv e \<and> kc_has_shift e \<and>
        (if b then cells_put i (- 1) 0 {} c e else cells_put i (kc_pos c ! i + d) (kc_shift c ! i + d) (kc_seq c ! i) c e))"
      using cells_pos_add_spec [OF inv D(1), of d] hit D(1) D(4) [OF hit(3)] ok True
      by (simp add: seq_add_body_def cells_pos_in_def cells_seq_has_def bitset_test_def)
    then show ?thesis
      by (rule wp_mono) (use True in \<open>auto simp: cell_free_def intro: cell_put_cells_put split: if_splits\<close>)
  next
    case False
    then have "seq_add_body s p0 p1 d i c = Some (False, c)"
      using D(1) ok by (auto simp: seq_add_body_def cells_pos_in_def cells_seq_has_def bitset_test_def cell_hit_def cell_at_def)
    with False inv show ?thesis by (simp add: cell_put_self)
  qed
qed

interpretation divide: cell_sweep "seq_div_body s p0 p1 d"
  "\<lambda>x. s < LLAMA_MAX_SEQ \<and> 0 < d \<and> (cell_hit s p0 p1 x \<longrightarrow> int32_ok (fst (snd x) + (fst x - fst x div d)))"
  "div_eff s p0 p1 d" "\<lambda>_. False" "cell_hit s p0 p1" for s p0 p1 d
  unfolding div_eff_def [abs_def]
proof
  fix c i
  assume inv: "cells_inv c" and i: "i < cells_size c" and ok: "s < LLAMA_MAX_SEQ \<and> 0 < d \<and> (cell_hit s p0 p1 (cell_at c i) \<longrightarrow>
      int32_ok (fst (snd (cell_at c i)) + (fst (cell_at c i) - fst (cell_at c i) div d)))"
  note D = cell_atD [OF inv i]
  show "wp (seq_div_body s p0 p1 d i c) (\<lambda>(b, e). b = False \<and> cells_inv e \<and>
      cell_put i (if cell_hit s p0 p1 (cell_at c i) then (fst (cell_at c i) div d,
        fst (snd (cell_at c i)) + (fst (cell_at c i) - fst (cell_at c i) div d), snd (snd (cell_at c i))) else cell_at c i) c e \<and>
      kc_has_shift e = (kc_has_shift c \<or> cell_hit s p0 p1 (cell_at c i)))"
  proof (cases "cell_hit s p0 p1 (cell_at c i)")
    case True
    then have hit: "p0 \<le> kc_pos c ! i" "kc_pos c ! i < p1" "s \<in> kc_seq c ! i" by (auto simp: cell_hit_def cell_at_def)
    from ok True have "wp (cells_pos_div i d c) (\<lambda>e. cells_inv e \<and> kc_has_shift e \<and>
        cells_put i (kc_pos c ! i div d) (kc_shift c ! i + (kc_pos c ! i - kc_pos c ! i div d)) (kc_seq c ! i) c e)"
      using cells_pos_div_spec [OF inv D(1), of d] D(4) [OF hit(3)] by simp
    from wpD [OF this] True hit D(1) ok show ?thesis
      by (auto simp: seq_div_body_def cells_pos_in_def cells_seq_has_def bitset_test_def intro: cell_put_cells_put)
  next
    case False
    then have "seq_div_body s p0 p1 d i c = Some (False, c)"
      using D(1) ok by (auto simp: seq_div_body_def cells_pos_in_def cells_seq_has_def bitset_test_def cell_hit_def cell_at_def)
    with False inv show ?thesis by (simp add: cell_put_self)
  qed
qed

interpretation copy: cell_sweep "seq_cp_body src dst p0 p1"
  "\<lambda>x. src < LLAMA_MAX_SEQ \<and> dst < LLAMA_MAX_SEQ \<and> (cell_hit src p0 p1 x \<longrightarrow> dst \<notin> snd (snd x))"
  "cp_eff src dst p0 p1" "\<lambda>_. False" "\<lambda>_. False" for src dst p0 p1
  unfolding cp_eff_def [abs_def]
proof
  fix c i
  assume inv: "cells_inv c" and i: "i < cells_size c" and ok: "src < LLAMA_MAX_SEQ \<and> dst < LLAMA_MAX_SEQ \<and>
      (cell_hit src p0 p1 (cell_at c i) \<longrightarrow> dst \<notin> snd (snd (cell_at c i)))"
  note D = cell_atD [OF inv i]
  show "wp (seq_cp_body src dst p0 p1 i c) (\<lambda>(b, e). b = False \<and> cells_inv e \<and>
      cell_put i (if cell_hit src p0 p1 (cell_at c i) then (fst (cell_at c i), fst (snd (cell_at c i)),
        insert dst (snd (snd (cell_at c i)))) else cell_at c i) c e \<and> kc_has_shift e = (kc_has_shift c \<or> False))"
  proof (cases "cell_hit src p0 p1 (cell_at c i)")
    case True
    then have hit: "p0 \<le> kc_pos c ! i" "kc_pos c ! i < p1" "src \<in> kc_seq c ! i" by (auto simp: cell_hit_def cell_at_def)
    from ok True have "wp (cells_seq_add i dst c) (\<lambda>e. cells_inv e \<and> kc_has_shift e = kc_has_shift c \<and>
        cells_put i (kc_pos c ! i) (kc_shift c ! i) (insert dst (kc_seq c ! i)) c e)"
      using cells_seq_add_spec [OF inv D(1), of dst] D(4) [OF hit(3)] by simp
    from wpD [OF this] True hit D(1) ok show ?thesis
      by (auto simp: seq_cp_body_def cells_pos_in_def cells_seq_has_def bitset_test_def intro: cell_put_cells_put)
  next
    case False
    then have "seq_cp_body src dst p0 p1 i c = Some (False, c)"
      using D(1) ok by (auto simp: seq_cp_body_def cells_pos_in_def cells_seq_has_def bitset_test_def cell_hit_def cell_at_def)
    with False inv show ?thesis by (simp add: cell_put_self)
  qed
qed

section \<open>The sequence operations\<close>

text \<open>The stream after an operation: its cells changed one by one, everything else is as before.\<close>

definition stream_becomes :: "(cell \<Rightarrow> cell) \<Rightarrow> nat \<Rightarrow> 'd kv_cache \<Rightarrow> 'd kv_cache \<Rightarrow> bool" where
  "stream_becomes eff st kv kv' \<longleftrightarrow> kv_inv kv' \<and> kv_frame st kv kv' \<and>
     cells_mapped eff (kv_v_cells kv ! st) (kv_v_cells kv' ! st)"

lemma stream_becomesI:
  assumes "kv_inv kv" and "st < kv_n_stream kv" and "cells_mapped eff (kv_v_cells kv ! st) d"
    and "\<forall>h \<le> cells_size d. kv_inv (put_head st h (put_cells st d kv))" and "h \<le> cells_size d"
  shows "stream_becomes eff st kv (put_head st h (put_cells st d kv))"
  using assms kv_invD(4) [OF assms(1,2)] by (auto simp: stream_becomes_def kv_frame_def)

lemma legal_seq_rm: "cell_legal n st x \<Longrightarrow> cell_legal n st (rm_eff s p0 p1 x)"
  by (cases x) (auto simp: rm_eff_def cell_legal_def cell_free_def cell_hit_def)

lemma kv_seq_rm_spec:
  assumes inv: "kv_inv kv" and st: "kv_stream seq_id kv = Some st"
  shows "\<exists>kv'. kv_seq_rm seq_id p0 p1 kv = Some (True, kv') \<and>
    stream_becomes (rm_eff (nat seq_id) (range_lo p0) (range_hi p1)) st kv kv' \<and>
    kv_v_heads kv' ! st = min (first_cell (rm_freed (nat seq_id) (range_lo p0) (range_hi p1)) (kv_v_cells kv ! st)) (kv_v_heads kv ! st)"
proof -
  note S = kv_inv_stream [OF inv st]
  from rm_seq.sweep_stream [OF inv S(1) _ legal_seq_rm, of "nat seq_id" "range_lo p0" "range_hi p1"] S(2) obtain d where
    d: "kv_sweep (seq_rm_body (nat seq_id) (range_lo p0) (range_hi p1)) (kv_v_cells kv ! st) =
        Some (first_cell (rm_freed (nat seq_id) (range_lo p0) (range_hi p1)) (kv_v_cells kv ! st), d)"
      "cells_mapped (rm_eff (nat seq_id) (range_lo p0) (range_hi p1)) (kv_v_cells kv ! st) d"
      "\<forall>h \<le> cells_size d. kv_inv (put_head st h (put_cells st d kv))" by blast
  let ?h = "min (first_cell (rm_freed (nat seq_id) (range_lo p0) (range_hi p1)) (kv_v_cells kv ! st)) (kv_v_heads kv ! st)"
  have size: "cells_size d = cells_size (kv_v_cells kv ! st)" using d(2) by (simp add: cells_mapped_def)
  have "kv_seq_rm seq_id p0 p1 kv = Some (True, put_head st ?h (put_cells st d kv))"
    using d(1) S by (simp add: kv_seq_rm_def Let_def lower_head_put [OF inv S(1) size])
  moreover have "?h \<le> cells_size d" by (simp add: size min.coboundedI1)
  ultimately show ?thesis
    using stream_becomesI [OF inv S(1) d(2,3)] kv_invD(5) [OF inv S(1)] by simp
qed

lemma kv_seq_keep_spec:
  assumes inv: "kv_inv kv" and st: "kv_stream seq_id kv = Some st"
  shows "\<exists>kv'. kv_seq_keep seq_id kv = Some kv' \<and> stream_becomes (keep_eff (nat seq_id)) st kv kv'"
proof -
  note S = kv_inv_stream [OF inv st]
  have ok: "nat seq_id < LLAMA_MAX_SEQ \<and> (snd (snd (cell_at (kv_v_cells kv ! st) i)) = {} \<longrightarrow> fst (cell_at (kv_v_cells kv ! st) i) = - 1)"
    if "i < cells_size (kv_v_cells kv ! st)" for i
    using kv_invD(6) [OF inv S(1) that] S(2) by (auto simp: cell_legal_def cell_at_def)
  have legal: "cell_legal (kv_n_stream kv) st (keep_eff (nat seq_id) x)" if "cell_legal (kv_n_stream kv) st x" for x
    using that S(4) by (cases x) (auto simp: keep_eff_def cell_legal_def cell_free_def)
  from keep.sweep_stream [OF inv S(1) ok legal] obtain d where
    d: "kv_sweep (\<lambda>i. cells_seq_keep i (nat seq_id)) (kv_v_cells kv ! st) = Some (first_cell (keep_freed (nat seq_id)) (kv_v_cells kv ! st), d)"
      "cells_mapped (keep_eff (nat seq_id)) (kv_v_cells kv ! st) d"
      "\<forall>h \<le> cells_size d. kv_inv (put_head st h (put_cells st d kv))" by blast
  have size: "cells_size d = cells_size (kv_v_cells kv ! st)" using d(2) by (simp add: cells_mapped_def)
  let ?h = "min (first_cell (keep_freed (nat seq_id)) (kv_v_cells kv ! st)) (kv_v_heads kv ! st)"
  have "kv_seq_keep seq_id kv = Some (put_head st ?h (put_cells st d kv))"
    using d(1) st by (simp add: kv_seq_keep_def lower_head_put [OF inv S(1) size])
  moreover have "?h \<le> cells_size d" by (simp add: size min.coboundedI1)
  ultimately show ?thesis using stream_becomesI [OF inv S(1) d(2,3)] by simp
qed

lemma kv_seq_add_spec:
  assumes inv: "kv_inv kv" and st: "kv_stream seq_id kv = Some st" and d: "d \<noteq> 0" "range_lo p0 \<noteq> range_hi p1"
    and ok: "\<And>i. i < cells_size (kv_v_cells kv ! st) \<Longrightarrow> cell_hit (nat seq_id) (range_lo p0) (range_hi p1) (cell_at (kv_v_cells kv ! st) i) \<Longrightarrow>
      int32_ok (kc_pos (kv_v_cells kv ! st) ! i + d) \<and> int32_ok (kc_shift (kv_v_cells kv ! st) ! i + d)"
  shows "\<exists>kv'. kv_seq_add seq_id p0 p1 d kv = Some kv' \<and>
    stream_becomes (add_eff (nat seq_id) (range_lo p0) (range_hi p1) d) st kv kv'"
proof -
  note S = kv_inv_stream [OF inv st]
  let ?c = "kv_v_cells kv ! st" and ?eff = "add_eff (nat seq_id) (range_lo p0) (range_hi p1) d"
    and ?free = "add_freed (nat seq_id) (range_lo p0) (range_hi p1) d"
  have legal: "cell_legal (kv_n_stream kv) st (?eff x)" if "cell_legal (kv_n_stream kv) st x" for x
    using that by (cases x) (auto simp: add_eff_def cell_legal_def cell_free_def cell_hit_def)
  have "\<exists>e. kv_sweep (seq_add_body (nat seq_id) (range_lo p0) (range_hi p1) d) ?c = Some (first_cell ?free ?c, e) \<and>
      cells_mapped ?eff ?c e \<and> kc_has_shift e = (kc_has_shift ?c \<or>
        (\<exists>i < cells_size ?c. cell_hit (nat seq_id) (range_lo p0) (range_hi p1) (cell_at ?c i))) \<and>
      (\<forall>h \<le> cells_size e. kv_inv (put_head st h (put_cells st e kv)))"
    using add.sweep_stream [OF inv S(1) _ legal] ok S(2) by simp
  then obtain e where
    e: "kv_sweep (seq_add_body (nat seq_id) (range_lo p0) (range_hi p1) d) ?c = Some (first_cell ?free ?c, e)"
      "cells_mapped ?eff ?c e" "\<forall>h \<le> cells_size e. kv_inv (put_head st h (put_cells st e kv))" by blast
  have size: "cells_size e = cells_size ?c" using e(2) by (simp add: cells_mapped_def)
  let ?h = "if first_cell ?free ?c \<noteq> cells_size e then first_cell ?free ?c else 0"
  have "kv_seq_add seq_id p0 p1 d kv = Some (put_head st ?h (put_cells st e kv))"
    using e(1) st d by (simp add: kv_seq_add_def Let_def)
  moreover have "?h \<le> cells_size e" by (simp add: size)
  ultimately show ?thesis using stream_becomesI [OF inv S(1) e(2,3)] by simp
qed

lemma kv_seq_div_spec:
  assumes inv: "kv_inv kv" and st: "kv_stream seq_id kv = Some st" and d: "1 < d" "range_lo p0 \<noteq> range_hi p1"
    and ok: "\<And>i. i < cells_size (kv_v_cells kv ! st) \<Longrightarrow> cell_hit (nat seq_id) (range_lo p0) (range_hi p1) (cell_at (kv_v_cells kv ! st) i) \<Longrightarrow>
      int32_ok (kc_shift (kv_v_cells kv ! st) ! i + (kc_pos (kv_v_cells kv ! st) ! i - kc_pos (kv_v_cells kv ! st) ! i div d))"
  shows "\<exists>kv'. kv_seq_div seq_id p0 p1 d kv = Some kv' \<and>
    stream_becomes (div_eff (nat seq_id) (range_lo p0) (range_hi p1) d) st kv kv'"
proof -
  note S = kv_inv_stream [OF inv st]
  let ?c = "kv_v_cells kv ! st" and ?eff = "div_eff (nat seq_id) (range_lo p0) (range_hi p1) d"
  have legal: "cell_legal (kv_n_stream kv) st (?eff x)" if "cell_legal (kv_n_stream kv) st x" for x
    using that by (cases x) (auto simp: div_eff_def cell_legal_def cell_hit_def)
  have "\<exists>h e. kv_sweep (seq_div_body (nat seq_id) (range_lo p0) (range_hi p1) d) ?c = Some (h, e) \<and>
      cells_mapped ?eff ?c e \<and> (\<forall>h \<le> cells_size e. kv_inv (put_head st h (put_cells st e kv)))"
    using divide.sweep_stream [OF inv S(1) _ legal] ok S(2) d(1) by (simp, blast)
  then obtain h e where
    e: "kv_sweep (seq_div_body (nat seq_id) (range_lo p0) (range_hi p1) d) ?c = Some (h, e)"
      "cells_mapped ?eff ?c e" "\<forall>h \<le> cells_size e. kv_inv (put_head st h (put_cells st e kv))" by blast
  have size: "cells_size e = cells_size ?c" using e(2) by (simp add: cells_mapped_def)
  have "kv_seq_div seq_id p0 p1 d kv = Some (put_head st (kv_v_heads kv ! st) (put_cells st e kv))"
    using e(1) st d by (simp add: kv_seq_div_def Let_def put_head_same [of st "put_cells st e kv", simplified])
  moreover have "kv_v_heads kv ! st \<le> cells_size e" using kv_invD(3) [OF inv S(1)] size by simp
  ultimately show ?thesis using stream_becomesI [OF inv S(1) e(2,3)] by simp
qed

lemma kv_seq_cp_spec:
  assumes inv: "kv_inv kv" and src: "kv_stream src kv = Some st" and dst: "kv_stream dst kv = Some st" and ne: "src \<noteq> dst"
    and ok: "\<And>i. i < cells_size (kv_v_cells kv ! st) \<Longrightarrow> cell_hit (nat src) (range_lo p0) (range_hi p1) (cell_at (kv_v_cells kv ! st) i) \<Longrightarrow>
      nat dst \<notin> kc_seq (kv_v_cells kv ! st) ! i"
  shows "\<exists>kv'. kv_seq_cp src dst p0 p1 kv = Some kv' \<and>
    stream_becomes (cp_eff (nat src) (nat dst) (range_lo p0) (range_hi p1)) st kv kv'"
proof -
  note S = kv_inv_stream [OF inv src] and T = kv_inv_stream [OF inv dst]
  let ?c = "kv_v_cells kv ! st" and ?eff = "cp_eff (nat src) (nat dst) (range_lo p0) (range_hi p1)"
  have one: "\<not> 1 < kv_n_stream kv" using S(3,4) T(3,4) ne by auto
  then have legal: "cell_legal (kv_n_stream kv) st (?eff x)" if "cell_legal (kv_n_stream kv) st x" for x
    using that by (cases x) (auto simp: cp_eff_def cell_legal_def cell_hit_def)
  have "\<exists>h e. kv_sweep (seq_cp_body (nat src) (nat dst) (range_lo p0) (range_hi p1)) ?c = Some (h, e) \<and>
      cells_mapped ?eff ?c e \<and> (\<forall>h \<le> cells_size e. kv_inv (put_head st h (put_cells st e kv)))"
    using copy.sweep_stream [OF inv S(1) _ legal] ok S(2) T(2) by (simp, blast)
  then obtain h e where
    e: "kv_sweep (seq_cp_body (nat src) (nat dst) (range_lo p0) (range_hi p1)) ?c = Some (h, e)"
      "cells_mapped ?eff ?c e" "\<forall>h \<le> cells_size e. kv_inv (put_head st h (put_cells st e kv))" by blast
  have size: "cells_size e = cells_size ?c" using e(2) by (simp add: cells_mapped_def)
  have "kv_seq_cp src dst p0 p1 kv = Some (put_head st (kv_v_heads kv ! st) (put_cells st e kv))"
    using e(1) src dst ne by (simp add: kv_seq_cp_def put_head_same [of st "put_cells st e kv", simplified])
  moreover have "kv_v_heads kv ! st \<le> cells_size e" using kv_invD(3) [OF inv S(1)] size by simp
  ultimately show ?thesis using stream_becomesI [OF inv S(1) e(2,3)] by simp
qed

subsection \<open>Removal from every stream\<close>

lemma kv_seq_rm_all_spec:
  assumes inv: "kv_inv kv"
  shows "wp (kv_seq_rm (- 1) p0 p1 kv) (\<lambda>(b, kv'). b \<and> kv_inv kv' \<and> kv_seq_to_stream kv' = kv_seq_to_stream kv \<and>
    kv_n_stream kv' = kv_n_stream kv \<and>
    (\<forall>st < kv_n_stream kv. cells_mapped (rm_all_eff (range_lo p0) (range_hi p1)) (kv_v_cells kv ! st) (kv_v_cells kv' ! st)))"
proof -
  let ?lo = "range_lo p0" and ?hi = "range_hi p1"
  let ?P = "\<lambda>k kv'. kv_inv kv' \<and> kv_n_stream kv' = kv_n_stream kv \<and> kv_seq_to_stream kv' = kv_seq_to_stream kv \<and>
    (\<forall>st < kv_n_stream kv. if st < k then cells_mapped (rm_all_eff ?lo ?hi) (kv_v_cells kv ! st) (kv_v_cells kv' ! st)
      else kv_v_cells kv' ! st = kv_v_cells kv ! st)"
  have legal: "cell_legal n st (rm_all_eff lo hi x)" if "cell_legal n st x" for n st x and lo hi :: int
    using that by (simp add: rm_all_eff_def)
  have "wp (foldM (\<lambda>st kv. do { (new_head, c) \<leftarrow> kv_sweep (rm_body ?lo ?hi) (kv_v_cells kv ! st);
      Some (lower_head st new_head (put_cells st c kv)) }) [0..<kv_n_stream kv] kv) (?P (kv_n_stream kv))"
  proof (rule wp_foldM_upt [where P = ?P])
    show "?P 0 kv" using inv by simp
  next
    fix k kv'
    assume k: "k < kv_n_stream kv" and P: "?P k kv'"
    then have inv': "kv_inv kv'" and k': "k < kv_n_stream kv'" and same: "kv_v_cells kv' ! k = kv_v_cells kv ! k" by auto
    from rm_all.sweep_stream [OF inv' k' _ legal, of ?lo ?hi] obtain d where
      d: "kv_sweep (rm_body ?lo ?hi) (kv_v_cells kv' ! k) = Some (first_cell (rm_all_freed ?lo ?hi) (kv_v_cells kv' ! k), d)"
        "cells_mapped (rm_all_eff ?lo ?hi) (kv_v_cells kv' ! k) d"
        "\<forall>h \<le> cells_size d. kv_inv (put_head k h (put_cells k d kv'))" by auto
    have size: "cells_size d = cells_size (kv_v_cells kv' ! k)" using d(2) by (simp add: cells_mapped_def)
    let ?h = "min (first_cell (rm_all_freed ?lo ?hi) (kv_v_cells kv' ! k)) (kv_v_heads kv' ! k)"
    have "?h \<le> cells_size d" by (simp add: size min.coboundedI1)
    with d(3) have P': "?P (Suc k) (put_head k ?h (put_cells k d kv'))"
      using P d(2) same kv_invD(4) [OF inv' k'] by (auto simp: less_Suc_eq nth_list_update)
    have "(do { (new_head, c) \<leftarrow> kv_sweep (rm_body ?lo ?hi) (kv_v_cells kv' ! k);
        Some (lower_head k new_head (put_cells k c kv')) }) = Some (put_head k ?h (put_cells k d kv'))"
      using d(1) by (simp add: lower_head_put [OF inv' k' size])
    then show "wp (do { (new_head, c) \<leftarrow> kv_sweep (rm_body ?lo ?hi) (kv_v_cells kv' ! k);
        Some (lower_head k new_head (put_cells k c kv')) }) (?P (Suc k))"
      by (rule wpI) (rule P')
  qed
  then show ?thesis by (auto simp: kv_seq_rm_def Let_def wp_rules elim!: wp_mono)
qed

subsection \<open>Copies between streams\<close>

definition stream_cp_eff :: "nat \<Rightarrow> nat \<Rightarrow> cell \<Rightarrow> cell" where
  "stream_cp_eff src dst x = (if src \<in> snd (snd x) then (fst x, fst (snd x), {dst}) else cell_free)"

lemma stream_cp_cell_spec:
  assumes inv: "cells_inv c0" "cells_inv c1" and size: "cells_size c0 = cells_size c1" and i: "i < cells_size c0"
    and src: "src < LLAMA_MAX_SEQ" and dst: "dst < LLAMA_MAX_SEQ" and free: "cell_at c1 i = cell_free"
    and sh: "src \<in> kc_seq c0 ! i \<Longrightarrow> 0 \<le> kc_pos c0 ! i - kc_shift c0 ! i \<and> kc_pos c0 ! i - kc_shift c0 ! i \<le> int32_max"
  shows "wp (stream_cp_cell src dst c0 i c1) (\<lambda>d. cells_inv d \<and> cell_put i (stream_cp_eff src dst (cell_at c0 i)) c1 d)"
proof (cases "src \<in> kc_seq c0 ! i")
  case False
  with i src free inv(2) show ?thesis
    by (simp add: stream_cp_cell_def cells_seq_has_def bitset_test_def cells_size_def stream_cp_eff_def) (metis cell_put_self)
next
  case True
  note D = cell_atD [OF inv(1) i] and i1 = i [unfolded size]
  let ?p = "kc_pos c0 ! i" and ?sh = "kc_shift c0 ! i"
  let ?q = "?p - ?sh"
  from sh [OF True] have q: "0 \<le> ?q" "?q \<le> int32_max" by auto
  have p: "?p \<noteq> - 1" "0 \<le> ?p" "?p \<le> int32_max" using D(2) D(4) [OF True] D(5) by auto
  have e: "kc_pos c1 ! i = - 1" "kc_shift c1 ! i = 0" "kc_seq c1 ! i = {}" using free by (simp_all add: cell_at_def cell_free_def)
  have len: "i < length (kc_pos c1)" using i1 by (simp add: cells_size_def)
  from wpD [OF cells_pos_set_spec [OF inv(2) len e(1) q]] obtain c2 where
    c2: "cells_pos_set i ?q c1 = Some c2" "cells_inv c2" "cells_put i ?q 0 {} c1 c2" using e by auto
  have at2: "kc_pos c2 ! i = ?q" "kc_shift c2 ! i = 0" "kc_seq c2 ! i = {}" "i < length (kc_pos c2)"
    using c2(3) len inv(2) by (auto simp: cells_put_def cells_inv_def)
  from wpD [OF cells_seq_add_spec [OF c2(2) at2(4) dst]] at2 q(1) obtain c3 where
    c3: "cells_seq_add i dst c2 = Some c3" "cells_inv c3" "cells_put i ?q 0 {dst} c2 c3" by auto
  have at3: "kc_pos c3 ! i = ?q" "kc_shift c3 ! i = 0" "kc_seq c3 ! i = {dst}" "i < length (kc_pos c3)"
    using c3(3) at2(4) c2(2) by (auto simp: cells_put_def cells_inv_def)
  have put3: "cells_put i ?q 0 {dst} c1 c3" using c2(3) c3(3) by (simp add: cells_put_def)
  have start: "stream_cp_cell src dst c0 i c1 = (if ?sh \<noteq> 0 then do { (_, c1) \<leftarrow> cells_pos_add i ?sh c3; Some c1 } else Some c3)"
    using True D(1) src p(1) c2(1) c3(1) q
    by (auto simp: stream_cp_cell_def cells_seq_has_def bitset_test_def cells_pos_get_def cells_get_shift_def s32_def
        int32_ok_def int32_min_def)
  show ?thesis
  proof (cases "?sh = 0")
    case True
    with start put3 c3(2) \<open>src \<in> kc_seq c0 ! i\<close> show ?thesis by (auto simp: stream_cp_eff_def intro: cell_put_cells_put)
  next
    case False
    have "int32_ok (kc_pos c3 ! i + ?sh)" "int32_ok (kc_shift c3 ! i + ?sh)"
      using p q at3 by (auto simp: int32_ok_def int32_min_def int32_max_def)
    from wpD [OF cells_pos_add_spec [OF c3(2) at3(4) _ this]] at3 q(1) p(2) obtain c4 where
      c4: "cells_pos_add i ?sh c3 = Some (False, c4)" "cells_inv c4" "cells_put i ?p ?sh {dst} c3 c4" by auto
    have "cells_put i ?p ?sh {dst} c1 c4" using put3 c4(3) by (simp add: cells_put_def)
    with start False c4 \<open>src \<in> kc_seq c0 ! i\<close> show ?thesis by (auto simp: stream_cp_eff_def intro: cell_put_cells_put)
  qed
qed

lemma reset_free: "i < cells_size c \<Longrightarrow> cells_inv c \<Longrightarrow> cell_at (cells_reset c) i = cell_free"
  by (simp add: cell_at_def cells_reset_def cell_free_def cells_size_def cells_inv_def)

lemma reset_size [simp]: "cells_size (cells_reset c) = cells_size c"
  by (simp add: cells_size_def cells_reset_def)

lemma reset_inv: "cells_inv c \<Longrightarrow> cells_inv (cells_reset c)"
  by (rule cells_inv_reset) (auto simp: cells_inv_def sp_counts_def)

lemma stream_cp_loop:
  assumes inv: "cells_inv c0" "cells_inv c1" and size: "cells_size c0 = cells_size c1"
    and src: "src < LLAMA_MAX_SEQ" and dst: "dst < LLAMA_MAX_SEQ"
    and sh: "\<And>i. i < cells_size c0 \<Longrightarrow> src \<in> kc_seq c0 ! i \<Longrightarrow>
      0 \<le> kc_pos c0 ! i - kc_shift c0 ! i \<and> kc_pos c0 ! i - kc_shift c0 ! i \<le> int32_max"
  shows "wp (foldM (stream_cp_cell src dst c0) [0..<cells_size c0] (cells_reset c1)) (cells_mapped (stream_cp_eff src dst) c0)"
proof -
  let ?P = "\<lambda>k d. cells_inv d \<and> cells_size d = cells_size c0 \<and>
    (\<forall>i < cells_size c0. cell_at d i = (if i < k then stream_cp_eff src dst (cell_at c0 i) else cell_free))"
  have "wp (foldM (stream_cp_cell src dst c0) [0..<cells_size c0] (cells_reset c1)) (?P (cells_size c0))"
  proof (rule wp_foldM_upt [where P = ?P])
    show "?P 0 (cells_reset c1)" using inv(2) size by (simp add: reset_free reset_inv)
  next
    fix k d
    assume k: "k < cells_size c0" and P: "?P k d"
    then have d: "cells_inv d" "cells_size c0 = cells_size d" "cell_at d k = cell_free" by auto
    show "wp (stream_cp_cell src dst c0 k d) (?P (Suc k))"
    proof (rule wp_mono [OF stream_cp_cell_spec [OF inv(1) d(1,2) k src dst d(3) sh [OF k]]])
      fix e
      assume e: "cells_inv e \<and> cell_put k (stream_cp_eff src dst (cell_at c0 k)) d e"
      then show "?P (Suc k) e"
        using P cell_put_at [OF conjunct2 [OF e] d(1)] cell_put_size [OF conjunct2 [OF e]] d(2) by (auto simp: less_Suc_eq)
    qed
  qed
  then show ?thesis by (rule wp_mono) (simp add: cells_mapped_def)
qed

lemma kv_seq_cp_streams_spec:
  assumes inv: "kv_inv kv" and src: "kv_stream src kv = Some s0" and dst: "kv_stream dst kv = Some s1" and ne: "s0 \<noteq> s1"
    and full: "p0 \<le> 0 \<or> int (kv_get_size kv) \<le> p0 + 1" "p1 \<le> 0 \<or> int (kv_get_size kv) \<le> p1 + 1"
    and sh: "\<And>i. i < cells_size (kv_v_cells kv ! s0) \<Longrightarrow> nat src \<in> kc_seq (kv_v_cells kv ! s0) ! i \<Longrightarrow>
      0 \<le> kc_pos (kv_v_cells kv ! s0) ! i - kc_shift (kv_v_cells kv ! s0) ! i \<and>
      kc_pos (kv_v_cells kv ! s0) ! i - kc_shift (kv_v_cells kv ! s0) ! i \<le> int32_max"
  shows "\<exists>c. kv_seq_cp src dst p0 p1 kv = Some (put_head s1 (kv_v_heads kv ! s0) (put_cells s1 c (kv\<lparr>kv_sc_info := kv_sc_info kv @ [(s0, s1)]\<rparr>))) \<and>
    cells_mapped (stream_cp_eff (nat src) (nat dst)) (kv_v_cells kv ! s0) c \<and>
    kv_inv (put_head s1 (kv_v_heads kv ! s0) (put_cells s1 c (kv\<lparr>kv_sc_info := kv_sc_info kv @ [(s0, s1)]\<rparr>)))"
proof -
  note S = kv_inv_stream [OF inv src] and T = kv_inv_stream [OF inv dst]
  note C0 = kv_invD [OF inv S(1)] and C1 = kv_invD [OF inv T(1)]
  let ?kv1 = "kv\<lparr>kv_sc_info := kv_sc_info kv @ [(s0, s1)]\<rparr>"
  have many: "1 < kv_n_stream kv" using S(1) T(1) ne by auto
  have size: "cells_size (kv_v_cells kv ! s0) = cells_size (kv_v_cells kv ! s1)" using C0(2) C1(2) by simp
  from wpD [OF stream_cp_loop [OF C0(1) C1(1) size S(2) T(2) sh]] obtain c where
    c: "foldM (stream_cp_cell (nat src) (nat dst) (kv_v_cells kv ! s0)) [0..<cells_size (kv_v_cells kv ! s0)]
        (cells_reset (kv_v_cells kv ! s1)) = Some c" "cells_mapped (stream_cp_eff (nat src) (nat dst)) (kv_v_cells kv ! s0) c" by blast
  have "kv_seq_cp src dst p0 p1 kv = Some (put_head s1 (kv_v_heads kv ! s0) (put_cells s1 c ?kv1))"
    using src dst ne full c(1) by (auto simp: kv_seq_cp_def Let_def guard_def)
  moreover have "kv_inv (put_head s1 (kv_v_heads kv ! s0) (put_cells s1 c ?kv1))"
  proof (rule kv_inv_put)
    have "stream_inv ?kv1 st = stream_inv kv st" for st by (simp add: stream_inv_def kv_get_size_def)
    with inv S(1) T(1) ne show "kv_inv ?kv1" by (auto simp: kv_inv_def)
  next
    fix i
    assume "i < cells_size c"
    then have i: "i < cells_size (kv_v_cells kv ! s0)" "cell_at c i = stream_cp_eff (nat src) (nat dst) (cell_at (kv_v_cells kv ! s0) i)"
      using c(2) by (auto simp: cells_mapped_def)
    show "cell_legal (kv_n_stream ?kv1) s1 (cell_at c i)"
      unfolding i(2) using T(4) [OF many] by (auto simp: stream_cp_eff_def cell_legal_def cell_free_def)
  qed (use T(1) c(2) size C0(3) in \<open>auto simp: cells_mapped_def\<close>)
  ultimately show ?thesis using c(2) by blast
qed

subsection \<open>What the client sees\<close>

text \<open>
  The abstract view of the cache: for every sequence the cells that hold it, with their positions.
  The operations of the memory interface are functions on this view.
\<close>

definition seq_view :: "'d kv_cache \<Rightarrow> nat \<Rightarrow> (nat \<times> int) set" where
  "seq_view kv s = (if s < length (kv_seq_to_stream kv)
     then (let c = kv_v_cells kv ! (kv_seq_to_stream kv ! s) in {(i, kc_pos c ! i) | i. i < cells_size c \<and> s \<in> kc_seq c ! i})
     else {})"

lemma cells_mapped_at:
  assumes "cells_mapped eff c d" and "i < cells_size c"
  shows "kc_pos d ! i = fst (eff (cell_at c i))" "kc_seq d ! i = snd (snd (eff (cell_at c i)))"
  using assms by (metis cells_mapped_def cell_at_def fst_conv snd_conv)+

lemma seq_view_becomes:
  assumes "stream_becomes eff st kv kv'" and "kv_inv kv" and "st < kv_n_stream kv"
  shows "seq_view kv' s = (if s < length (kv_seq_to_stream kv) \<and> kv_seq_to_stream kv ! s = st
    then {(i, fst (eff (cell_at (kv_v_cells kv ! st) i))) | i. i < cells_size (kv_v_cells kv ! st) \<and>
      s \<in> snd (snd (eff (cell_at (kv_v_cells kv ! st) i)))}
    else seq_view kv s)"
proof -
  from assms(1) have m: "cells_mapped eff (kv_v_cells kv ! st) (kv_v_cells kv' ! st)" and fr: "kv_frame st kv kv'"
    by (auto simp: stream_becomes_def)
  from fr have s2s: "kv_seq_to_stream kv' = kv_seq_to_stream kv" by (auto simp: kv_frame_def)
  from fr have other: "kv_v_cells kv' ! t = kv_v_cells kv ! t" if "t \<noteq> st" for t
    using that by (auto simp: kv_frame_def)
  have size: "cells_size (kv_v_cells kv' ! st) = cells_size (kv_v_cells kv ! st)" using m by (simp add: cells_mapped_def)
  show ?thesis
  proof (cases "s < length (kv_seq_to_stream kv) \<and> kv_seq_to_stream kv ! s = st")
    case True
    have "(x \<in> seq_view kv' s) = (x \<in> {(i, fst (eff (cell_at (kv_v_cells kv ! st) i))) | i.
        i < cells_size (kv_v_cells kv ! st) \<and> s \<in> snd (snd (eff (cell_at (kv_v_cells kv ! st) i)))})" for x
      using True cells_mapped_at [OF m] by (auto simp: seq_view_def Let_def s2s size)
    with True show ?thesis by auto
  next
    case False
    then show ?thesis by (auto simp: seq_view_def s2s other)
  qed
qed

lemma kv_frame_s2s: "kv_frame st kv kv' \<Longrightarrow> kv_seq_to_stream kv' = kv_seq_to_stream kv"
  by (auto simp: kv_frame_def)

lemma seq_view_iff:
  assumes "kv_seq_to_stream kv ! s = st" and "s < length (kv_seq_to_stream kv)"
  shows "(i, p) \<in> seq_view kv s \<longleftrightarrow> i < cells_size (kv_v_cells kv ! st) \<and> s \<in> kc_seq (kv_v_cells kv ! st) ! i \<and> p = kc_pos (kv_v_cells kv ! st) ! i"
  using assms by (auto simp: seq_view_def Let_def)

section \<open>Properties\<close>

lemma kv_new_inv:
  assumes "0 < n_seq_max" "n_seq_max \<le> LLAMA_MAX_SEQ" and "0 < n_pad" and "kv_size mod n_pad = 0"
  shows "\<exists>kv. kv_cache_new unified kv_size n_seq_max n_pad n_swa swa zero = Some kv \<and> kv_inv kv \<and> kv_get_size kv = kv_size \<and>
    (\<forall>s. seq_view kv s = {})"
proof -
  let ?c = "cells_resize kv_size cells_new"
  define n where "n = (if unified then 1 else n_seq_max)"
  have n: "0 < n" "n \<le> LLAMA_MAX_SEQ" "n \<le> n_seq_max" using assms by (auto simp: n_def)
  have upd: "fold (\<lambda>s xs. xs[s := s]) [0..<k] xs = [0..<k] @ drop k xs" if "k \<le> length xs" for k and xs :: "nat list"
    using that by (induction k) (auto simp: list_update_append Cons_nth_drop_Suc [symmetric] upd_conv_take_nth_drop)
  have s2s: "(if n > 1 then fold (\<lambda>s xs. xs[s := s]) [0..<n] (vec_resize n 0 (vec_resize LLAMA_MAX_SEQ 0 [])) else vec_resize LLAMA_MAX_SEQ 0 [])
      = (if n = 1 then replicate LLAMA_MAX_SEQ 0 else [0..<n])"
    using n upd [of n "vec_resize n 0 (vec_resize LLAMA_MAX_SEQ 0 [])"] by (auto simp: vec_resize_def)
  have size: "cells_size ?c = kv_size" by (simp add: cells_resize_new cells_size_def)
  have inv: "cells_inv ?c" by (intro cells_inv_resize) (simp add: cells_new_def)
  have free: "cell_at ?c i = cell_free" if "i < kv_size" for i
    using that by (simp add: cell_at_def cells_resize_new cell_free_def)
  define kv where "kv = \<lparr>kv_n_seq_max = n_seq_max, kv_n_stream = n, kv_n_pad = n_pad, kv_n_swa = n_swa,
       kv_swa_type = swa, kv_v_heads = replicate n 0, kv_v_cells = replicate n ?c,
       kv_seq_to_stream = (if n = 1 then replicate LLAMA_MAX_SEQ 0 else [0..<n]), kv_sc_info = [], kv_data = replicate n zero\<rparr>"
  have new: "kv_cache_new unified kv_size n_seq_max n_pad n_swa swa zero = Some kv"
    using assms s2s by (auto simp: kv_cache_new_def Let_def n_def kv_def)
  have gs: "kv_get_size kv = kv_size"
    using n size max_seq_small(1) by (simp add: kv_get_size_def kv_def)
  have "stream_inv kv st" if "st < n" for st
    using that inv size free gs by (simp add: stream_inv_def kv_def [THEN arg_cong, of kv_v_cells] kv_def [THEN arg_cong, of kv_v_heads])
  then have "kv_inv kv" using n by (simp add: kv_inv_def kv_def)
  moreover have "seq_view kv s = {}" for s
  proof -
    have "kv_seq_to_stream kv ! s < n" if "s < length (kv_seq_to_stream kv)"
      using that n by (auto simp: kv_def split: if_splits)
    then show ?thesis using free size by (auto simp: seq_view_def kv_def cell_at_def cell_free_def Let_def)
  qed
  ultimately show ?thesis using new gs by blast
qed

definition demo_kv :: "unit kv_cache" where
  "demo_kv = \<lparr>kv_n_seq_max = 4, kv_n_stream = 1, kv_n_pad = 1, kv_n_swa = 0, kv_swa_type = SWA_NONE,
     kv_v_heads = [1], kv_v_cells = [demo_cells], kv_seq_to_stream = replicate LLAMA_MAX_SEQ 0, kv_sc_info = [], kv_data = [()]\<rparr>"

lemma demo_kv_get_size: "kv_get_size demo_kv = 2"
  using max_seq_small(1) by (simp add: kv_get_size_def demo_kv_def demo_cells_def cells_size_def)

lemma demo_kv_inv: "kv_inv demo_kv"
proof -
  have "stream_inv demo_kv 0"
    unfolding stream_inv_def demo_kv_get_size using demo_cells_inv
    by (simp add: demo_kv_def cells_size_def) (auto simp: demo_cells_def cell_legal_def cell_at_def less_Suc_eq)
  then show ?thesis using max_seq_small by (simp add: kv_inv_def demo_kv_def)
qed

lemma demo_kv_view: "s < LLAMA_MAX_SEQ \<Longrightarrow> seq_view demo_kv s = (if s = 2 then {(0, 7)} else {})"
  by (auto simp: seq_view_def demo_kv_def demo_cells_def cells_size_def less_Suc_eq Let_def nth_Cons' split: if_splits)

lemma demo_kv_stream: "s < LLAMA_MAX_SEQ \<Longrightarrow> kv_stream (int s) demo_kv = Some 0"
  by (simp add: kv_stream_def demo_kv_def)

lemma kv_stream_Some: "kv_inv kv \<Longrightarrow> 0 \<le> seq_id \<Longrightarrow> nat seq_id < length (kv_seq_to_stream kv) \<Longrightarrow>
  kv_stream seq_id kv = Some (kv_seq_to_stream kv ! nat seq_id)"
  by (simp add: kv_stream_def)

lemma kv_seq_rm_view:
  assumes "kv_inv kv" and "0 \<le> seq_id" and "nat seq_id < length (kv_seq_to_stream kv)"
  shows "\<exists>kv'. kv_seq_rm seq_id p0 p1 kv = Some (True, kv') \<and> kv_inv kv' \<and> kv_seq_to_stream kv' = kv_seq_to_stream kv \<and>
    seq_view kv' (nat seq_id) = {(i, p) \<in> seq_view kv (nat seq_id). \<not> (range_lo p0 \<le> p \<and> p < range_hi p1)} \<and>
    (\<forall>t. t \<noteq> nat seq_id \<longrightarrow> seq_view kv' t = seq_view kv t)"
proof -
  let ?s = "nat seq_id"
  note st = kv_stream_Some [OF assms]
  note S = kv_inv_stream [OF assms(1) st]
  from kv_seq_rm_spec [OF assms(1) st, of p0 p1] obtain kv' where kv': "kv_seq_rm seq_id p0 p1 kv = Some (True, kv')"
    "stream_becomes (rm_eff ?s (range_lo p0) (range_hi p1)) (kv_seq_to_stream kv ! ?s) kv kv'" by blast
  note V = seq_view_becomes [OF kv'(2) assms(1) S(1)]
  have "seq_view kv' ?s = {(i, p) \<in> seq_view kv ?s. \<not> (range_lo p0 \<le> p \<and> p < range_hi p1)}"
    unfolding V using assms(3)
    by (auto simp: rm_eff_def cell_hit_def cell_at_def cell_free_def seq_view_def Let_def split: if_splits)
  moreover have "seq_view kv' t = seq_view kv t" if "t \<noteq> ?s" for t
  proof -
    have "{(i, fst (rm_eff ?s (range_lo p0) (range_hi p1) (cell_at c i))) | i. i < cells_size c \<and>
        t \<in> snd (snd (rm_eff ?s (range_lo p0) (range_hi p1) (cell_at c i)))} = {(i, kc_pos c ! i) | i. i < cells_size c \<and> t \<in> kc_seq c ! i}" for c
      using that by (auto simp: rm_eff_def cell_hit_def cell_at_def cell_free_def split: if_splits)
    then show ?thesis unfolding V by (auto simp: seq_view_def Let_def)
  qed
  ultimately show ?thesis using kv' by (auto simp: stream_becomes_def intro: kv_frame_s2s)
qed

text \<open>C8: removing the positions \<open>[p0, p1)\<close> of a sequence (negative bounds meaning no bound) always
  succeeds and removes from the client's view exactly these cells of exactly this sequence; every
  other sequence keeps its cells, and the cache invariant holds again.\<close>

theorem kv_seq_rm_refines:
  assumes "kv_inv kv" and "0 \<le> seq_id" and "nat seq_id < length (kv_seq_to_stream kv)"
  shows "\<exists>kv'. kv_seq_rm seq_id p0 p1 kv = Some (True, kv') \<and> kv_inv kv' \<and>
    seq_view kv' (nat seq_id) = {(i, p) \<in> seq_view kv (nat seq_id). \<not> (range_lo p0 \<le> p \<and> p < range_hi p1)} \<and>
    (\<forall>t. t \<noteq> nat seq_id \<longrightarrow> seq_view kv' t = seq_view kv t)"
  using kv_seq_rm_view [OF assms, of p0 p1] by blast

theorem kv_seq_rm_refines_witness:
  "\<exists>kv'. kv_seq_rm 2 (- 1) (- 1) demo_kv = Some (True, kv') \<and> seq_view kv' 2 = {}"
proof -
  have "nat 2 < length (kv_seq_to_stream demo_kv)" by (simp add: demo_kv_def LLAMA_MAX_SEQ_def)
  from kv_seq_rm_refines [OF demo_kv_inv _ this, of "- 1" "- 1"] show ?thesis
    by (auto simp: demo_kv_view LLAMA_MAX_SEQ_def range_lo_def range_hi_def int32_max_def)
qed

lemma kv_seq_keep_view:
  assumes "kv_inv kv" and "0 \<le> seq_id" and "nat seq_id < length (kv_seq_to_stream kv)"
  shows "\<exists>kv'. kv_seq_keep seq_id kv = Some kv' \<and> kv_inv kv' \<and> kv_seq_to_stream kv' = kv_seq_to_stream kv \<and> seq_view kv' (nat seq_id) = seq_view kv (nat seq_id) \<and>
    (\<forall>t. t \<noteq> nat seq_id \<longrightarrow> seq_view kv' t =
      (if t < length (kv_seq_to_stream kv) \<and> kv_seq_to_stream kv ! t = kv_seq_to_stream kv ! nat seq_id then {} else seq_view kv t))"
proof -
  let ?s = "nat seq_id"
  note st = kv_stream_Some [OF assms]
  note S = kv_inv_stream [OF assms(1) st]
  from kv_seq_keep_spec [OF assms(1) st] obtain kv' where kv': "kv_seq_keep seq_id kv = Some kv'"
    "stream_becomes (keep_eff ?s) (kv_seq_to_stream kv ! ?s) kv kv'" by blast
  note V = seq_view_becomes [OF kv'(2) assms(1) S(1)]
  have "seq_view kv' ?s = seq_view kv ?s"
    unfolding V using assms(3)
    by (auto simp: keep_eff_def cell_at_def cell_free_def seq_view_def Let_def split: if_splits)
  moreover have "seq_view kv' t = (if t < length (kv_seq_to_stream kv) \<and> kv_seq_to_stream kv ! t = kv_seq_to_stream kv ! ?s then {} else seq_view kv t)"
    if "t \<noteq> ?s" for t
    unfolding V using that by (auto simp: keep_eff_def cell_free_def split: if_splits)
  ultimately show ?thesis using kv' by (auto simp: stream_becomes_def intro: kv_frame_s2s)
qed

text \<open>Keeping one sequence leaves its cells alone and removes every other sequence of the same
  stream; the sequences of other streams stay in the cache.\<close>

theorem kv_seq_keep_refines:
  assumes "kv_inv kv" and "0 \<le> seq_id" and "nat seq_id < length (kv_seq_to_stream kv)"
  shows "\<exists>kv'. kv_seq_keep seq_id kv = Some kv' \<and> kv_inv kv' \<and> seq_view kv' (nat seq_id) = seq_view kv (nat seq_id) \<and>
    (\<forall>t. t \<noteq> nat seq_id \<longrightarrow> seq_view kv' t =
      (if t < length (kv_seq_to_stream kv) \<and> kv_seq_to_stream kv ! t = kv_seq_to_stream kv ! nat seq_id then {} else seq_view kv t))"
  using kv_seq_keep_view [OF assms] by blast

theorem kv_seq_keep_refines_witness:
  "\<exists>kv'. kv_seq_keep 0 demo_kv = Some kv' \<and> seq_view kv' 2 = {}"
proof -
  have "nat 0 < length (kv_seq_to_stream demo_kv)" "2 < length (kv_seq_to_stream demo_kv)"
    "kv_seq_to_stream demo_kv ! 2 = kv_seq_to_stream demo_kv ! nat 0" by (simp_all add: demo_kv_def LLAMA_MAX_SEQ_def)
  with kv_seq_keep_refines [OF demo_kv_inv _ this(1)] show ?thesis by auto
qed

lemma kv_seq_cp_view:
  assumes "kv_inv kv" and "kv_stream src kv = Some st" and "kv_stream dst kv = Some st" and "src \<noteq> dst"
    and "\<forall>(i, p) \<in> seq_view kv (nat src). range_lo p0 \<le> p \<and> p < range_hi p1 \<longrightarrow> (i, p) \<notin> seq_view kv (nat dst)"
  shows "\<exists>kv'. kv_seq_cp src dst p0 p1 kv = Some kv' \<and> kv_inv kv' \<and> kv_seq_to_stream kv' = kv_seq_to_stream kv \<and>
    seq_view kv' (nat dst) = seq_view kv (nat dst) \<union> {(i, p) \<in> seq_view kv (nat src). range_lo p0 \<le> p \<and> p < range_hi p1} \<and>
    (\<forall>t. t \<noteq> nat dst \<longrightarrow> seq_view kv' t = seq_view kv t)"
proof -
  note S = kv_inv_stream [OF assms(1,2)] and T = kv_inv_stream [OF assms(1,3)]
  let ?s = "nat src" and ?d = "nat dst" and ?lo = "range_lo p0" and ?hi = "range_hi p1" and ?c = "kv_v_cells kv ! st"
  have "?d \<notin> kc_seq ?c ! i" if "i < cells_size ?c" "cell_hit ?s ?lo ?hi (cell_at ?c i)" for i
  proof -
    from that have "(i, kc_pos ?c ! i) \<in> seq_view kv ?s" "?lo \<le> kc_pos ?c ! i" "kc_pos ?c ! i < ?hi"
      by (auto simp: seq_view_iff [OF S(5,6)] cell_hit_def cell_at_def)
    with assms(5) that(1) show ?thesis by (auto simp: seq_view_iff [OF T(5,6)])
  qed
  from kv_seq_cp_spec [OF assms(1-4) this] obtain kv' where kv': "kv_seq_cp src dst p0 p1 kv = Some kv'"
    "stream_becomes (cp_eff ?s ?d ?lo ?hi) st kv kv'" by blast
  note V = seq_view_becomes [OF kv'(2) assms(1) S(1)]
  have "seq_view kv' ?d = seq_view kv ?d \<union> {(i, p) \<in> seq_view kv ?s. ?lo \<le> p \<and> p < ?hi}"
    unfolding V using S(5,6) T(5,6)
    by (auto simp: cp_eff_def cell_hit_def cell_at_def seq_view_def Let_def split: if_splits)
  moreover have "seq_view kv' t = seq_view kv t" if "t \<noteq> ?d" for t
    unfolding V using that by (auto simp: cp_eff_def cell_hit_def cell_at_def seq_view_def Let_def split: if_splits)
  ultimately show ?thesis using kv' by (auto simp: stream_becomes_def intro: kv_frame_s2s)
qed

text \<open>C34: copying the positions \<open>[p0, p1)\<close> of a sequence to another one of the same stream shares the
  cells: they are added to the view of the destination, and nothing else changes. The destination
  must not hold one of these cells already.\<close>

theorem kv_seq_cp_refines:
  assumes "kv_inv kv" and "kv_stream src kv = Some st" and "kv_stream dst kv = Some st" and "src \<noteq> dst"
    and "\<forall>(i, p) \<in> seq_view kv (nat src). range_lo p0 \<le> p \<and> p < range_hi p1 \<longrightarrow> (i, p) \<notin> seq_view kv (nat dst)"
  shows "\<exists>kv'. kv_seq_cp src dst p0 p1 kv = Some kv' \<and> kv_inv kv' \<and>
    seq_view kv' (nat dst) = seq_view kv (nat dst) \<union> {(i, p) \<in> seq_view kv (nat src). range_lo p0 \<le> p \<and> p < range_hi p1} \<and>
    (\<forall>t. t \<noteq> nat dst \<longrightarrow> seq_view kv' t = seq_view kv t)"
  using kv_seq_cp_view [OF assms] by blast

theorem kv_seq_cp_refines_witness:
  "\<exists>kv'. kv_seq_cp 2 3 (- 1) (- 1) demo_kv = Some kv' \<and> seq_view kv' 3 = {(0, 7)}"
proof -
  have "kv_stream 2 demo_kv = Some 0" "kv_stream 3 demo_kv = Some 0"
    using demo_kv_stream [of 2] demo_kv_stream [of 3] by (simp_all add: LLAMA_MAX_SEQ_def)
  from kv_seq_cp_refines [OF demo_kv_inv this, of "- 1" "- 1"] show ?thesis
    by (auto simp: demo_kv_view LLAMA_MAX_SEQ_def range_lo_def range_hi_def int32_max_def)
qed

text \<open>The precondition of the previous property is not checked by \<^verbatim>\<open>seq_cp\<close>: repeating a copy
  reaches the assertion of \<^verbatim>\<open>llama_kv_cells::seq_add\<close> that the cell does not have the sequence yet.\<close>

theorem kv_seq_cp_repeated_aborts:
  "\<exists>kv'. kv_seq_cp 2 3 (- 1) (- 1) demo_kv = Some kv' \<and> kv_seq_cp 2 3 (- 1) (- 1) kv' = None"
  by (simp add: kv_seq_cp_def kv_stream_def demo_kv_def LLAMA_MAX_SEQ_def kv_sweep_def demo_cells_def cells_size_def
      seq_cp_body_def cells_pos_in_def cells_seq_has_def bitset_test_def bitset_set_def cells_seq_add_def range_lo_def range_hi_def
      int32_max_def cells_seq_pos_inc_def put_cells_def numeral_2_eq_2)

lemma kv_seq_cp_streams_view:
  assumes "kv_inv kv" and "kv_stream src kv = Some s0" and "kv_stream dst kv = Some s1" and "s0 \<noteq> s1"
    and "p0 \<le> 0 \<or> int (kv_get_size kv) \<le> p0 + 1" and "p1 \<le> 0 \<or> int (kv_get_size kv) \<le> p1 + 1"
    and "\<forall>i < cells_size (kv_v_cells kv ! s0). nat src \<in> kc_seq (kv_v_cells kv ! s0) ! i \<longrightarrow>
      0 \<le> kc_pos (kv_v_cells kv ! s0) ! i - kc_shift (kv_v_cells kv ! s0) ! i \<and>
      kc_pos (kv_v_cells kv ! s0) ! i - kc_shift (kv_v_cells kv ! s0) ! i \<le> int32_max"
  shows "\<exists>kv'. kv_seq_cp src dst p0 p1 kv = Some kv' \<and> kv_inv kv' \<and> kv_seq_to_stream kv' = kv_seq_to_stream kv \<and> kv_sc_info kv' = kv_sc_info kv @ [(s0, s1)] \<and>
    kv_data kv' = kv_data kv \<and> seq_view kv' (nat dst) = seq_view kv (nat src) \<and>
    (\<forall>t. t \<noteq> nat dst \<longrightarrow> seq_view kv' t = seq_view kv t)"
proof -
  note S = kv_inv_stream [OF assms(1,2)] and T = kv_inv_stream [OF assms(1,3)]
  have many: "1 < kv_n_stream kv" using S(1) T(1) assms(4) by auto
  from kv_seq_cp_streams_spec [OF assms(1-6)] assms(7) obtain c where
    cp: "kv_seq_cp src dst p0 p1 kv = Some (put_head s1 (kv_v_heads kv ! s0) (put_cells s1 c (kv\<lparr>kv_sc_info := kv_sc_info kv @ [(s0, s1)]\<rparr>)))"
    and m: "cells_mapped (stream_cp_eff (nat src) (nat dst)) (kv_v_cells kv ! s0) c"
    and inv': "kv_inv (put_head s1 (kv_v_heads kv ! s0) (put_cells s1 c (kv\<lparr>kv_sc_info := kv_sc_info kv @ [(s0, s1)]\<rparr>)))" by blast
  define kv' where "kv' = put_head s1 (kv_v_heads kv ! s0) (put_cells s1 c (kv\<lparr>kv_sc_info := kv_sc_info kv @ [(s0, s1)]\<rparr>))"
  have f: "kv_seq_to_stream kv' = kv_seq_to_stream kv" "kv_v_cells kv' = (kv_v_cells kv)[s1 := c]"
    "kv_sc_info kv' = kv_sc_info kv @ [(s0, s1)]" "kv_data kv' = kv_data kv"
    by (simp_all add: kv'_def put_head_def put_cells_def)
  have size: "cells_size c = cells_size (kv_v_cells kv ! s0)" using m by (simp add: cells_mapped_def)
  have at: "kc_pos c ! i = (if nat src \<in> kc_seq (kv_v_cells kv ! s0) ! i then kc_pos (kv_v_cells kv ! s0) ! i else - 1)"
    "kc_seq c ! i = (if nat src \<in> kc_seq (kv_v_cells kv ! s0) ! i then {nat dst} else {})" if "i < cells_size c" for i
    using cells_mapped_at [OF m] that size by (auto simp: stream_cp_eff_def cell_free_def)
  have "x \<in> seq_view kv' (nat dst) \<longleftrightarrow> x \<in> seq_view kv (nat src)" for x
    using S(5,6) T(5,6) kv_invD(4) [OF assms(1) T(1)] size at
    by (auto simp: seq_view_def f Let_def split: if_splits)
  moreover have "seq_view kv' t = seq_view kv t" if "t \<noteq> nat dst" for t
  proof (cases "t < length (kv_seq_to_stream kv)")
    case True
    with many assms(1) have "kv_seq_to_stream kv ! t = t" by (auto simp: kv_inv_def)
    with that T(4) [OF many] show ?thesis by (auto simp: seq_view_def f)
  qed (simp add: seq_view_def f)
  ultimately show ?thesis using cp inv' f unfolding kv'_def [symmetric] by (intro exI [where x = kv']) auto
qed

text \<open>Copying a sequence to a sequence of another stream replaces the destination's view by the
  source's and queues one copy of the tensor data from the source stream to the destination stream;
  every other sequence keeps its view. The range must cover the buffer, and no shifted cell may have
  had a negative position before its shift.\<close>

theorem kv_seq_cp_streams_refines:
  assumes "kv_inv kv" and "kv_stream src kv = Some s0" and "kv_stream dst kv = Some s1" and "s0 \<noteq> s1"
    and "p0 \<le> 0 \<or> int (kv_get_size kv) \<le> p0 + 1" and "p1 \<le> 0 \<or> int (kv_get_size kv) \<le> p1 + 1"
    and "\<forall>i < cells_size (kv_v_cells kv ! s0). nat src \<in> kc_seq (kv_v_cells kv ! s0) ! i \<longrightarrow>
      0 \<le> kc_pos (kv_v_cells kv ! s0) ! i - kc_shift (kv_v_cells kv ! s0) ! i \<and>
      kc_pos (kv_v_cells kv ! s0) ! i - kc_shift (kv_v_cells kv ! s0) ! i \<le> int32_max"
  shows "\<exists>kv'. kv_seq_cp src dst p0 p1 kv = Some kv' \<and> kv_inv kv' \<and> kv_sc_info kv' = kv_sc_info kv @ [(s0, s1)] \<and>
    kv_data kv' = kv_data kv \<and> seq_view kv' (nat dst) = seq_view kv (nat src) \<and>
    (\<forall>t. t \<noteq> nat dst \<longrightarrow> seq_view kv' t = seq_view kv t)"
  using kv_seq_cp_streams_view [OF assms] by blast

definition demo_kv2 :: "unit kv_cache" where
  "demo_kv2 = \<lparr>kv_n_seq_max = 3, kv_n_stream = 3, kv_n_pad = 1, kv_n_swa = 0, kv_swa_type = SWA_NONE,
     kv_v_heads = [0, 0, 1], kv_v_cells = [cells_resize 2 cells_new, cells_resize 2 cells_new, demo_cells],
     kv_seq_to_stream = [0, 1, 2], kv_sc_info = [], kv_data = [(), (), ()]\<rparr>"

lemma demo_kv2_inv: "kv_inv demo_kv2"
proof -
  have "kv_get_size demo_kv2 = 2" by (simp add: kv_get_size_def demo_kv2_def cells_resize_new cells_size_def)
  then have "stream_inv demo_kv2 st" if "st < 3" for st
    unfolding stream_inv_def using that demo_cells_inv demo_cells_empty_inv
    by (auto simp: demo_kv2_def cells_size_def numeral_3_eq_3 less_Suc_eq cells_resize_new demo_cells_def cell_legal_def cell_at_def)
  then show ?thesis by (simp add: kv_inv_def demo_kv2_def LLAMA_MAX_SEQ_def upt_rec)
qed

theorem kv_seq_cp_streams_refines_witness:
  "\<exists>kv'. kv_seq_cp 2 0 (- 1) (- 1) demo_kv2 = Some kv' \<and> seq_view kv' 0 = seq_view demo_kv2 2 \<and> kv_sc_info kv' = [(2, 0)]"
proof -
  have "kv_stream 2 demo_kv2 = Some 2" "kv_stream 0 demo_kv2 = Some 0"
    by (simp_all add: kv_stream_def demo_kv2_def)
  from kv_seq_cp_streams_refines [OF demo_kv2_inv this, of "- 1" "- 1"] show ?thesis
    by (auto simp: demo_kv2_def demo_cells_def cells_size_def less_Suc_eq int32_max_def numeral_2_eq_2)
qed

text \<open>C33: shifting the positions \<open>[p0, p1)\<close> of a sequence by \<open>d\<close> moves each of these cells, for every
  sequence that shares it, and drops the cells whose position would become negative; the other
  cells stay. The shifts must stay within 32 bits.\<close>

theorem kv_seq_add_refines:
  assumes "kv_inv kv" and "kv_stream seq_id kv = Some st" and "d \<noteq> 0" and "range_lo p0 \<noteq> range_hi p1"
    and "\<forall>i < cells_size (kv_v_cells kv ! st). cell_hit (nat seq_id) (range_lo p0) (range_hi p1) (cell_at (kv_v_cells kv ! st) i) \<longrightarrow>
      int32_ok (kc_pos (kv_v_cells kv ! st) ! i + d) \<and> int32_ok (kc_shift (kv_v_cells kv ! st) ! i + d)"
  shows "\<exists>kv'. kv_seq_add seq_id p0 p1 d kv = Some kv' \<and> kv_inv kv' \<and>
    (let hit = {(i, p) \<in> seq_view kv (nat seq_id). range_lo p0 \<le> p \<and> p < range_hi p1} in
     \<forall>t. seq_view kv' t = (if t < length (kv_seq_to_stream kv) \<and> kv_seq_to_stream kv ! t = st
       then (seq_view kv t - hit) \<union> {(i, p + d) | i p. (i, p) \<in> seq_view kv t \<inter> hit \<and> 0 \<le> p + d}
       else seq_view kv t))"
proof -
  note S = kv_inv_stream [OF assms(1,2)]
  let ?s = "nat seq_id" and ?lo = "range_lo p0" and ?hi = "range_hi p1" and ?c = "kv_v_cells kv ! st"
  let ?hit = "{(i, p) \<in> seq_view kv ?s. ?lo \<le> p \<and> p < ?hi}"
  from kv_seq_add_spec [OF assms(1-4)] assms(5) obtain kv' where kv': "kv_seq_add seq_id p0 p1 d kv = Some kv'"
    "stream_becomes (add_eff ?s ?lo ?hi d) st kv kv'" by blast
  note V = seq_view_becomes [OF kv'(2) assms(1) S(1)]
  have hit: "(i, p) \<in> ?hit \<longleftrightarrow> i < cells_size ?c \<and> p = kc_pos ?c ! i \<and> cell_hit ?s ?lo ?hi (cell_at ?c i)" for i p
    by (auto simp: seq_view_iff [OF S(5,6)] cell_hit_def cell_at_def)
  have "seq_view kv' t = (seq_view kv t - ?hit) \<union> {(i, p + d) | i p. (i, p) \<in> seq_view kv t \<inter> ?hit \<and> 0 \<le> p + d}"
    if t: "t < length (kv_seq_to_stream kv)" "kv_seq_to_stream kv ! t = st" for t
  proof -
    have "x \<in> seq_view kv' t \<longleftrightarrow> x \<in> (seq_view kv t - ?hit) \<union> {(i, p + d) | i p. (i, p) \<in> seq_view kv t \<inter> ?hit \<and> 0 \<le> p + d}" for x
    proof -
      obtain i q where x: "x = (i, q)" by (cases x)
      have "x \<in> seq_view kv' t \<longleftrightarrow> i < cells_size ?c \<and> q = fst (add_eff ?s ?lo ?hi d (cell_at ?c i)) \<and>
          t \<in> snd (snd (add_eff ?s ?lo ?hi d (cell_at ?c i)))"
        unfolding V x using t by auto
      also have "\<dots> \<longleftrightarrow> (x \<in> seq_view kv t \<and> x \<notin> ?hit) \<or> (\<exists>p. x = (i, p + d) \<and> (i, p) \<in> seq_view kv t \<and> (i, p) \<in> ?hit \<and> 0 \<le> p + d)"
        unfolding x hit seq_view_iff [OF t(2,1)]
        by (cases "cell_hit ?s ?lo ?hi (cell_at ?c i)") (auto simp: add_eff_def cell_free_def)
      finally show ?thesis using x by auto
    qed
    then show ?thesis by blast
  qed
  moreover have "seq_view kv' t = seq_view kv t" if "\<not> (t < length (kv_seq_to_stream kv) \<and> kv_seq_to_stream kv ! t = st)" for t
    unfolding V by (rule if_not_P [OF that])
  ultimately show ?thesis using kv' by (auto simp: stream_becomes_def Let_def)
qed

theorem kv_seq_add_refines_witness:
  "\<exists>kv'. kv_seq_add 2 0 (- 1) (- 3) demo_kv = Some kv' \<and> seq_view kv' 2 = {(0, 4)}"
proof -
  have st: "kv_stream 2 demo_kv = Some 0" using demo_kv_stream [of 2] by (simp add: LLAMA_MAX_SEQ_def)
  have "\<forall>i < cells_size (kv_v_cells demo_kv ! 0). cell_hit (nat 2) (range_lo 0) (range_hi (- 1)) (cell_at (kv_v_cells demo_kv ! 0) i) \<longrightarrow>
      int32_ok (kc_pos (kv_v_cells demo_kv ! 0) ! i + - 3) \<and> int32_ok (kc_shift (kv_v_cells demo_kv ! 0) ! i + - 3)"
    by (auto simp: demo_kv_def demo_cells_def cells_size_def less_Suc_eq cell_hit_def cell_at_def int32_ok_def int32_min_def int32_max_def)
  from kv_seq_add_refines [OF demo_kv_inv st _ _ this] obtain kv' where
    kv': "kv_seq_add 2 0 (- 1) (- 3) demo_kv = Some kv'" and
    V: "\<forall>t. seq_view kv' t = (if t < length (kv_seq_to_stream demo_kv) \<and> kv_seq_to_stream demo_kv ! t = 0
       then (seq_view demo_kv t - {(i, p) \<in> seq_view demo_kv 2. range_lo 0 \<le> p \<and> p < range_hi (- 1)}) \<union>
         {(i, p + - 3) | i p. (i, p) \<in> seq_view demo_kv t \<inter> {(i, p) \<in> seq_view demo_kv 2. range_lo 0 \<le> p \<and> p < range_hi (- 1)} \<and> 0 \<le> p + - 3}
       else seq_view demo_kv t)"
    by (auto simp: range_lo_def range_hi_def int32_max_def Let_def)
  have "2 < length (kv_seq_to_stream demo_kv)" "kv_seq_to_stream demo_kv ! 2 = 0" by (simp_all add: demo_kv_def LLAMA_MAX_SEQ_def)
  with V kv' show ?thesis by (auto simp: demo_kv_view LLAMA_MAX_SEQ_def range_lo_def range_hi_def int32_max_def)
qed

end
