(* ===== verification/KvSlots.thy ===== *)
theory KvSlots
  imports KvCache
begin

text \<open>
  Placing micro-batches in the key-value cache: \<^verbatim>\<open>find_slot\<close>, \<^verbatim>\<open>apply_ubatch\<close>, \<^verbatim>\<open>prepare\<close>,
  \<^verbatim>\<open>init_batch\<close>, \<^verbatim>\<open>update\<close> and \<^verbatim>\<open>llama_kv_cache_context\<close> of \<^verbatim>\<open>src/src/llama-kv-cache.cpp\<close>, and
  \<^verbatim>\<open>is_masked_swa\<close> of \<^verbatim>\<open>src/src/llama-hparams.cpp\<close>.

  The search loop of \<^verbatim>\<open>find_slot\<close> has fuel; \<open>2 * size + 3\<close> rounds are enough, because every round
  either tests a cell or wraps the head to 0, and never wraps twice in a row. The lemmas below
  state results of the fuelled loop, never only its results when it returns.
\<close>

section \<open>Sliding window\<close>

text \<open>The conversion \<^verbatim>\<open>(int32_t) n_swa\<close> of an unsigned value.\<close>

definition to_s32 :: "nat \<Rightarrow> int" where
  "to_s32 n = (int n + 2147483648) mod 4294967296 - 2147483648"

definition is_masked_swa :: "nat \<Rightarrow> llama_swa_type \<Rightarrow> int \<Rightarrow> int \<Rightarrow> bool option" where
  "is_masked_swa n_swa swa p0 p1 = do {
     guard (p0 \<ge> 0 \<and> p1 \<ge> 0);
     case swa of
       SWA_NONE \<Rightarrow> Some False
     | SWA_STANDARD \<Rightarrow> Some (p1 - p0 \<ge> to_s32 n_swa)
     | SWA_CHUNKED \<Rightarrow> do { guard (n_swa \<noteq> 0); Some (p0 < (p1 div int n_swa) * int n_swa) }
     | SWA_SYMMETRIC \<Rightarrow>
         (let half = to_s32 n_swa sdiv 2; diff = p1 - p0 in Some (diff < - half \<or> diff > half))
   }"

section \<open>Finding a slot\<close>

text \<open>Whether a cell can take a token: it is empty, or one sequence alone holds it and the window masks it.\<close>

definition can_use :: "'d kv_cache \<Rightarrow> kv_cells \<Rightarrow> nat \<Rightarrow> bool option" where
  "can_use kv c idx = do {
     e \<leftarrow> cells_is_empty idx c;
     if e then Some True
     else do {
       n \<leftarrow> cells_seq_count idx c;
       if n = 1 then do {
         pos_cell \<leftarrow> cells_pos_get idx c;
         seq_id_cell \<leftarrow> cells_seq_get idx c;
         pm \<leftarrow> cells_seq_pos_max (nat seq_id_cell) c;
         pm1 \<leftarrow> s32 (pm + 1);
         is_masked_swa (kv_n_swa kv) (kv_swa_type kv) pos_cell pm1
       }
       else Some False
     }
   }"

text \<open>The \<^verbatim>\<open>for\<close> loop over \<^verbatim>\<open>n_test\<close> cells; the result is \<^verbatim>\<open>head_cur\<close>, \<^verbatim>\<open>n_tested\<close> and the indices.\<close>

fun slot_try :: "(nat \<Rightarrow> bool option) \<Rightarrow> bool \<Rightarrow> nat \<Rightarrow> nat \<Rightarrow> nat \<Rightarrow> nat list \<Rightarrow> (nat \<times> nat \<times> nat list) option" where
  "slot_try use cont 0 head tested idxs = Some (head, tested, idxs)"
| "slot_try use cont (Suc k) head tested idxs = do {
     u \<leftarrow> use head;
     if u then slot_try use cont k (Suc head) (Suc tested) (idxs @ [head])
     else if cont then Some (Suc head, Suc tested, idxs)
     else slot_try use cont k (Suc head) (Suc tested) idxs
   }"

fun slot_loop ::
  "nat \<Rightarrow> (nat \<Rightarrow> bool option) \<Rightarrow> bool \<Rightarrow> nat \<Rightarrow> nat \<Rightarrow> nat \<Rightarrow> nat \<Rightarrow> nat list \<Rightarrow> nat list option option" where
  "slot_loop 0 use cont sz n_tokens head tested idxs = None"
| "slot_loop (Suc fuel) use cont sz n_tokens head tested idxs = (let n_test = (if cont then n_tokens else 1) in
     if head + n_test > sz then slot_loop fuel use cont sz n_tokens 0 (tested + (sz - head)) idxs
     else do {
       (head', tested', idxs') \<leftarrow> slot_try use cont n_test head tested idxs;
       if length idxs' = n_tokens then Some (Some idxs')
       else if tested' \<ge> sz then Some None
       else slot_loop fuel use cont sz n_tokens head' tested' (if cont then [] else idxs')
     })"

text \<open>One sequence of the micro-batch; \<open>Some None\<close> is the empty result.\<close>

definition find_slot_seq :: "'d kv_cache \<Rightarrow> bool \<Rightarrow> nat \<Rightarrow> nat \<Rightarrow> nat list option option" where
  "find_slot_seq kv cont n_tokens st = do {
     let c = kv_v_cells kv ! st;
     let head = kv_v_heads kv ! st;
     let head_cur = (if head > cells_get_used c + 2 * n_tokens then 0 else head);
     if n_tokens > cells_size c then Some None
     else do {
       guard (head_cur \<le> cells_size c);
       slot_loop (2 * cells_size c + 3) (can_use kv c) cont (cells_size c) n_tokens head_cur 0 []
     }
   }"

fun find_slot_seqs :: "'d kv_cache \<Rightarrow> bool \<Rightarrow> 'e llama_ubatch \<Rightarrow> nat \<Rightarrow> nat list \<Rightarrow> slot_info \<Rightarrow> slot_info option" where
  "find_slot_seqs kv cont ub n_tokens [] res = Some res"
| "find_slot_seqs kv cont ub n_tokens (s # ss) res = do {
     guard (s < length (ub_seq_id_unq ub));
     let seq_id = ub_seq_id_unq ub ! s;
     guard (kv_n_stream kv > 1 \<longrightarrow> s * n_tokens < length (ub_n_seq_id ub) \<and> ub_n_seq_id ub ! (s * n_tokens) = 1 \<and>
       ub_seq_id ub ! (s * n_tokens) \<noteq> [] \<and> hd (ub_seq_id ub ! (s * n_tokens)) = int seq_id);
     guard (seq_id < length (kv_seq_to_stream kv));
     let st = kv_seq_to_stream kv ! seq_id;
     r \<leftarrow> find_slot_seq kv cont n_tokens st;
     (case r of
        None \<Rightarrow> Some slot_none
      | Some idxs \<Rightarrow> find_slot_seqs kv cont ub n_tokens ss (res\<lparr>si_s0 := min (si_s0 res) st, si_s1 := max (si_s1 res) st,
          si_strm := (si_strm res)[s := st], si_idxs := (si_idxs res)[s := idxs]\<rparr>))
   }"

definition find_slot :: "'e llama_ubatch \<Rightarrow> bool \<Rightarrow> 'd kv_cache \<Rightarrow> slot_info option" where
  "find_slot ub cont kv = do {
     guard (kv_n_stream kv > 1 \<longrightarrow> ub_n_seqs_unq ub \<noteq> 0 \<and> ub_n_tokens ub mod ub_n_seqs_unq ub = 0);
     let n_seqs = (if kv_n_stream kv > 1 then ub_n_seqs_unq ub else 1);
     let n_tokens = (if kv_n_stream kv > 1 then ub_n_tokens ub div n_seqs else ub_n_tokens ub);
     res \<leftarrow> find_slot_seqs kv cont ub n_tokens [0..<n_seqs]
       \<lparr>si_s0 = LLAMA_MAX_SEQ, si_s1 = 0, si_strm = replicate n_seqs 0, si_idxs = replicate n_seqs []\<rparr>;
     guard (si_s1 res \<ge> si_s0 res);
     Some res
   }"

section \<open>Placing a micro-batch\<close>

text \<open>One token: an occupied cell is purged first; \<open>mx\<close> is \<^verbatim>\<open>seq_pos_max_rm\<close>.\<close>

definition apply_token ::
  "nat \<Rightarrow> int \<Rightarrow> int list \<Rightarrow> kv_cells \<times> (nat \<Rightarrow> int) \<Rightarrow> (kv_cells \<times> (nat \<Rightarrow> int)) option" where
  "apply_token idx pos seqs = (\<lambda>(c, mx). do {
     e \<leftarrow> cells_is_empty idx c;
     (c, mx) \<leftarrow> (if e then Some (c, mx)
       else do {
         n \<leftarrow> cells_seq_count idx c;
         guard (n = 1);
         sid \<leftarrow> cells_seq_get idx c;
         p \<leftarrow> cells_pos_get idx c;
         c' \<leftarrow> cells_rm idx c;
         Some (c', mx(nat sid := max (mx (nat sid)) p))
       });
     c \<leftarrow> cells_pos_set idx pos c;
     c \<leftarrow> foldM (\<lambda>s c. do { guard (s \<ge> 0); cells_seq_add idx (nat s) c }) seqs c;
     Some (c, mx)
   })"

definition apply_stream ::
  "'e llama_ubatch \<Rightarrow> slot_info \<Rightarrow> nat \<Rightarrow> nat \<Rightarrow> 'd kv_cache \<times> (nat \<Rightarrow> int) \<Rightarrow> ('d kv_cache \<times> (nat \<Rightarrow> int)) option" where
  "apply_stream ub si sz s = (\<lambda>(kv, mx). do {
     let st = si_strm si ! s;
     guard (length (si_idxs si ! s) \<ge> sz);
     (c, mx) \<leftarrow> foldM (\<lambda>ii. let i = s * sz + ii in
         apply_token (si_idxs si ! s ! ii) (ub_pos ub ! i) (take (nat (ub_n_seq_id ub ! i)) (ub_seq_id ub ! i)))
       [0..<sz] (kv_v_cells kv ! st, mx);
     Some (put_cells st c kv, mx)
   })"

definition apply_purge :: "(nat \<Rightarrow> int) \<Rightarrow> nat \<Rightarrow> 'd kv_cache \<Rightarrow> 'd kv_cache option" where
  "apply_purge mx s kv =
     (if mx s = - 1 then Some kv
      else do {
        guard (s < length (kv_seq_to_stream kv));
        pmin \<leftarrow> cells_seq_pos_min s (kv_v_cells kv ! (kv_seq_to_stream kv ! s));
        if pmin \<le> mx s then do {
          q \<leftarrow> s32 (mx s + 1);
          (_, kv') \<leftarrow> kv_seq_rm (int s) pmin q kv;
          Some kv'
        }
        else Some kv
      })"

definition apply_ubatch :: "slot_info \<Rightarrow> 'e llama_ubatch \<Rightarrow> 'd kv_cache \<Rightarrow> 'd kv_cache option" where
  "apply_ubatch si ub kv = do {
     sz \<leftarrow> si_size si;
     guard (ub_n_tokens ub = si_n_stream si * sz);
     (kv1, mx) \<leftarrow> foldM (apply_stream ub si sz) [0..<si_n_stream si] (kv, \<lambda>_. - 1);
     kv2 \<leftarrow> foldM (apply_purge mx) [0..<LLAMA_MAX_SEQ] kv1;
     foldM (\<lambda>s kv. do { guard (si_idxs si ! s \<noteq> []); Some (put_head (si_strm si ! s) (last (si_idxs si ! s) + 1) kv) })
       [0..<si_n_stream si] kv2
   }"

section \<open>Preparing a batch\<close>

record prep_state =
  ps_sinfo :: slot_info
  ps_v_heads_old :: "nat list"
  ps_v_cells :: "kv_cells list"

text \<open>The first loop of \<^verbatim>\<open>prepare\<close>: the result is the success flag, the slots, the recovery stack (top first) and the cache.\<close>

fun prepare_place ::
  "'e llama_ubatch list \<Rightarrow> slot_info list \<Rightarrow> prep_state list \<Rightarrow> 'd kv_cache
     \<Rightarrow> (bool \<times> slot_info list \<times> prep_state list \<times> 'd kv_cache) option" where
  "prepare_place [] res states kv = Some (True, res, states, kv)"
| "prepare_place (ub # ubs) res states kv = do {
     si \<leftarrow> find_slot ub False kv;
     if si_empty si then Some (False, res, states, kv)
     else do {
       saved \<leftarrow> foldM (\<lambda>s acc. do {
           c \<leftarrow> cells_cp_idxs (si_idxs si ! s) (kv_v_cells kv ! (si_strm si ! s));
           Some (acc @ [c])
         }) [0..<si_n_stream si] [];
       kv' \<leftarrow> apply_ubatch si ub kv;
       prepare_place ubs (res @ [si]) (\<lparr>ps_sinfo = si, ps_v_heads_old = kv_v_heads kv, ps_v_cells = saved\<rparr> # states) kv'
     }
   }"

definition prepare_restore_one :: "prep_state \<Rightarrow> 'd kv_cache \<Rightarrow> 'd kv_cache option" where
  "prepare_restore_one ps kv = (let si = ps_sinfo ps in
     foldM (\<lambda>s kv. let st = si_strm si ! s in do {
         c \<leftarrow> cells_set_idxs (si_idxs si ! s) (ps_v_cells ps ! s) (kv_v_cells kv ! st);
         guard (s < length (ps_v_heads_old ps));
         Some (put_head st (ps_v_heads_old ps ! s) (put_cells st c kv))
       }) [0..<si_n_stream si] kv)"

definition prepare :: "'e llama_ubatch list \<Rightarrow> 'd kv_cache \<Rightarrow> (slot_info list \<times> 'd kv_cache) option" where
  "prepare ubs kv = do {
     (success, res, states, kv1) \<leftarrow> prepare_place ubs [] [] kv;
     guard (states \<noteq> [] \<or> \<not> success);
     kv2 \<leftarrow> foldM prepare_restore_one states kv1;
     Some (if success then res else [], kv2)
   }"

section \<open>The memory context\<close>

datatype llama_memory_status = STATUS_SUCCESS | STATUS_NO_UPDATE | STATUS_FAILED_PREPARE | STATUS_FAILED_COMPUTE

record 'e kv_context =
  cx_status :: llama_memory_status
  cx_i_cur :: nat
  cx_sinfos :: "slot_info list"
  cx_ubatches :: "'e llama_ubatch list"
  cx_do_shift :: bool
  cx_sc_info :: "(nat \<times> nat) list"
  cx_n_kv :: nat

definition ctx_error :: "llama_memory_status \<Rightarrow> 'e kv_context" where
  "ctx_error st = \<lparr>cx_status = st, cx_i_cur = 0, cx_sinfos = [], cx_ubatches = [], cx_do_shift = False, cx_sc_info = [], cx_n_kv = 0\<rparr>"

definition init_batch :: "nat \<Rightarrow> 'e allocr \<Rightarrow> 'd kv_cache \<Rightarrow> ('e kv_context \<times> 'e allocr \<times> 'd kv_cache) option" where
  "init_batch n_ubatch a kv = do {
     let a0 = split_reset a;
     (ubs, a1) \<leftarrow> split_loop (Suc (al_n_tokens a0))
       (\<lambda>a. if kv_n_stream kv = 1 then split_simple n_ubatch a else split_equal n_ubatch True a) a0;
     if al_n_used a1 < al_n_tokens a1 then Some (ctx_error STATUS_FAILED_PREPARE, a1, kv)
     else do {
       (sinfos, kv') \<leftarrow> prepare ubs kv;
       if sinfos = [] then Some (ctx_error STATUS_FAILED_PREPARE, a1, kv')
       else Some ((ctx_error STATUS_SUCCESS)\<lparr>cx_sinfos := sinfos, cx_ubatches := ubs\<rparr>, a1, kv')
     }
   }"

section \<open>The search loop\<close>

text \<open>The order in which the cells are tested from a head.\<close>

definition ring :: "nat \<Rightarrow> nat \<Rightarrow> nat list" where
  "ring h sz = [h..<sz] @ [0..<h]"

lemma ring_length: "h \<le> sz \<Longrightarrow> length (ring h sz) = sz"
  by (simp add: ring_def)

lemma ring_nth: "h \<le> sz \<Longrightarrow> k < sz \<Longrightarrow> ring h sz ! k = (if k < sz - h then h + k else k - (sz - h))"
  by (auto simp: ring_def nth_append)

lemma ring_set: "h \<le> sz \<Longrightarrow> set (ring h sz) = {..<sz}"
  by (auto simp: ring_def)

lemma ring_distinct: "distinct (ring h sz)"
  by (auto simp: ring_def)

definition ring_pick :: "(nat \<Rightarrow> bool) \<Rightarrow> nat \<Rightarrow> nat \<Rightarrow> nat \<Rightarrow> nat list option" where
  "ring_pick P h sz n = (let xs = filter P (ring h sz) in if n \<le> length xs then Some (take n xs) else None)"

lemma filter_take_prefix:
  assumes "length (filter P (take k xs)) = n"
  shows "n \<le> length (filter P xs)" "take n (filter P xs) = filter P (take k xs)"
proof -
  have "filter P xs = filter P (take k xs) @ filter P (drop k xs)" by (metis append_take_drop_id filter_append)
  with assms show "n \<le> length (filter P xs)" "take n (filter P xs) = filter P (take k xs)" by (simp_all add: assms [symmetric])
qed

lemma slot_loop_ring:
  assumes use: "\<And>i. i < sz \<Longrightarrow> use i = Some (P i)" and h0: "h0 \<le> sz"
    and k: "k < sz" and head: "head = (if k < sz - h0 then h0 + k else k - (sz - h0)) \<or> (k = sz - h0 \<and> head = sz)"
    and idxs: "idxs = filter P (take k (ring h0 sz))" "length idxs < n"
    and fuel: "2 * (sz - k) + (if head = sz then 1 else 0) < fuel" and tst: "tst = k"
  shows "slot_loop fuel use False sz n head tst idxs = Some (ring_pick P h0 sz n)"
  using k head idxs fuel tst
proof (induction fuel arbitrary: k head idxs tst)
  case (Suc fuel)
  show ?case
  proof (cases "head = sz")
    case True
    with Suc.prems h0 have "k = sz - h0" by (auto split: if_splits)
    then have "slot_loop fuel use False sz n 0 tst idxs = Some (ring_pick P h0 sz n)"
      using Suc.prems True by (intro Suc.IH [of k]) auto
    with True show ?thesis by simp
  next
    case False
    with Suc.prems(2) have head: "head = (if k < sz - h0 then h0 + k else k - (sz - h0))" by auto
    then have lt: "head < sz" using Suc.prems(1) h0 False by (auto split: if_splits)
    have nth: "ring h0 sz ! k = head" using ring_nth [OF h0 Suc.prems(1)] head by simp
    let ?xs = "filter P (take (Suc k) (ring h0 sz))"
    have xs: "?xs = (if P head then idxs @ [head] else idxs)"
      using Suc.prems(1,3) nth ring_length [OF h0] by (simp add: take_Suc_conv_app_nth)
    have step: "slot_loop (Suc fuel) use False sz n head tst idxs = (if length ?xs = n then Some (Some ?xs)
        else if Suc k \<ge> sz then Some None else slot_loop fuel use False sz n (Suc head) (Suc k) ?xs)"
      using lt use [OF lt] xs Suc.prems(6) by (simp add: Let_def)
    show ?thesis
    proof (cases "length ?xs = n")
      case True
      from filter_take_prefix [OF True] True step show ?thesis by (simp add: ring_pick_def Let_def)
    next
      case ne: False
      have less: "length ?xs < n" using ne xs Suc.prems(4) by (auto split: if_splits)
      show ?thesis
      proof (cases "Suc k \<ge> sz")
        case True
        then have "take (Suc k) (ring h0 sz) = ring h0 sz" using ring_length [OF h0] by simp
        with True ne less step show ?thesis by (auto simp: ring_pick_def Let_def)
      next
        case False
        have "slot_loop fuel use False sz n (Suc head) (Suc k) ?xs = Some (ring_pick P h0 sz n)"
          using False less Suc.prems(5) head lt h0 by (intro Suc.IH [of "Suc k"]) (auto split: if_splits)
        with False ne step show ?thesis by simp
      qed
    qed
  qed
qed simp

text \<open>Continuous slots: a run of usable cells.\<close>

definition run_at :: "(nat \<Rightarrow> bool) \<Rightarrow> nat \<Rightarrow> nat \<Rightarrow> nat \<Rightarrow> bool" where
  "run_at P sz n x \<longleftrightarrow> x + n \<le> sz \<and> (\<forall>j < n. P (x + j))"

lemma slot_try_cont:
  assumes "\<And>i. i < head + k \<Longrightarrow> head \<le> i \<Longrightarrow> use i = Some (P i)"
  shows "(\<forall>j < k. P (head + j)) \<and> slot_try use True k head tst idxs = Some (head + k, tst + k, idxs @ [head..<head + k]) \<or>
    (\<exists>j < k. \<not> P (head + j) \<and> slot_try use True k head tst idxs = Some (Suc (head + j), Suc (tst + j), idxs @ [head..<head + j]))"
  using assms
proof (induction k arbitrary: head tst idxs)
  case (Suc k)
  have use: "use head = Some (P head)" using Suc.prems [of head] by simp
  show ?case
  proof (cases "P head")
    case False
    with use show ?thesis by auto
  next
    case True
    have eq: "slot_try use True (Suc k) head tst idxs = slot_try use True k (Suc head) (Suc tst) (idxs @ [head])"
      using use True by simp
    have "(\<forall>j < k. P (Suc head + j)) \<and> slot_try use True k (Suc head) (Suc tst) (idxs @ [head]) =
          Some (Suc head + k, Suc tst + k, (idxs @ [head]) @ [Suc head..<Suc head + k]) \<or>
        (\<exists>j < k. \<not> P (Suc head + j) \<and> slot_try use True k (Suc head) (Suc tst) (idxs @ [head]) =
          Some (Suc (Suc head + j), Suc (Suc tst + j), (idxs @ [head]) @ [Suc head..<Suc head + j]))"
      using Suc.prems by (intro Suc.IH) auto
    then show ?thesis
    proof
      assume a: "(\<forall>j < k. P (Suc head + j)) \<and> slot_try use True k (Suc head) (Suc tst) (idxs @ [head]) =
          Some (Suc head + k, Suc tst + k, (idxs @ [head]) @ [Suc head..<Suc head + k])"
      have "P (head + j)" if "j < Suc k" for j using that a True by (cases j) auto
      moreover have "(idxs @ [head]) @ [Suc head..<Suc head + k] = idxs @ [head..<head + Suc k]"
        by (simp add: upt_rec [of head])
      ultimately show ?thesis using a eq by simp
    next
      assume "\<exists>j < k. \<not> P (Suc head + j) \<and> slot_try use True k (Suc head) (Suc tst) (idxs @ [head]) =
          Some (Suc (Suc head + j), Suc (Suc tst + j), (idxs @ [head]) @ [Suc head..<Suc head + j])"
      then obtain j where j: "j < k" "\<not> P (Suc head + j)" "slot_try use True k (Suc head) (Suc tst) (idxs @ [head]) =
          Some (Suc (Suc head + j), Suc (Suc tst + j), (idxs @ [head]) @ [Suc head..<Suc head + j])" by blast
      moreover have "(idxs @ [head]) @ [Suc head..<Suc head + j] = idxs @ [head..<head + Suc j]"
        by (simp add: upt_rec [of head])
      ultimately show ?thesis using eq by (intro disjI2 exI [where x = "Suc j"]) simp
    qed
  qed
qed simp

lemma slot_loop_run:
  assumes use: "\<And>i. i < sz \<Longrightarrow> use i = Some (P i)" and h0: "h0 \<le> sz" and n: "0 < n" "n \<le> sz"
    and head: "head \<le> sz"
    and st: "(h0 \<le> head \<and> tst = head - h0 \<and> tst < sz \<and> (\<forall>x. h0 \<le> x \<and> x < head \<longrightarrow> \<not> run_at P sz n x)) \<or>
      (head < h0 \<and> tst = sz - h0 + head \<and> (\<forall>x. x < head \<or> h0 \<le> x \<longrightarrow> \<not> run_at P sz n x)) \<or>
      (head = 0 \<and> sz \<le> tst \<and> (\<forall>x. \<not> run_at P sz n x))"
    and fuel: "2 * (sz - tst) + (if head = 0 then 0 else 1) < fuel"
  shows "\<exists>r. slot_loop fuel use True sz n head tst [] = Some r \<and>
    (case r of None \<Rightarrow> \<forall>x. \<not> run_at P sz n x | Some idxs \<Rightarrow> \<exists>x. run_at P sz n x \<and> idxs = [x..<x + n])"
  using head st fuel
proof (induction fuel arbitrary: head tst)
  case (Suc fuel)
  show ?case
  proof (cases "head + n > sz")
    case True
    then have long: "\<not> run_at P sz n x" if "head \<le> x" for x using that by (simp add: run_at_def)
    have pos: "head \<noteq> 0" using True n by auto
    have "\<exists>r. slot_loop fuel use True sz n 0 (tst + (sz - head)) [] = Some r \<and>
      (case r of None \<Rightarrow> \<forall>x. \<not> run_at P sz n x | Some idxs \<Rightarrow> \<exists>x. run_at P sz n x \<and> idxs = [x..<x + n])"
    proof (rule Suc.IH)
      show "2 * (sz - (tst + (sz - head))) + (if 0 = (0::nat) then 0 else 1) < fuel" using Suc.prems(3) pos by auto
      show "(h0 \<le> 0 \<and> tst + (sz - head) = 0 - h0 \<and> tst + (sz - head) < sz \<and> (\<forall>x. h0 \<le> x \<and> x < 0 \<longrightarrow> \<not> run_at P sz n x)) \<or>
        (0 < h0 \<and> tst + (sz - head) = sz - h0 + 0 \<and> (\<forall>x. x < 0 \<or> h0 \<le> x \<longrightarrow> \<not> run_at P sz n x)) \<or>
        (0 = (0::nat) \<and> sz \<le> tst + (sz - head) \<and> (\<forall>x. \<not> run_at P sz n x))"
        using Suc.prems(2)
      proof (elim disjE conjE)
        assume a: "h0 \<le> head" "tst = head - h0" "\<forall>x. h0 \<le> x \<and> x < head \<longrightarrow> \<not> run_at P sz n x"
        then have "\<not> run_at P sz n x" if "h0 \<le> x" for x using that long [of x] by (cases "x < head") auto
        moreover have "tst + (sz - head) = sz - h0" using a Suc.prems(1) by simp
        ultimately show ?thesis by (cases "h0 = 0") auto
      next
        assume a: "head < h0" "tst = sz - h0 + head" "\<forall>x. x < head \<or> h0 \<le> x \<longrightarrow> \<not> run_at P sz n x"
        then have "\<not> run_at P sz n x" for x using long [of x] by (cases "x < head") auto
        moreover have "sz \<le> tst + (sz - head)" using a Suc.prems(1) by simp
        ultimately show ?thesis by auto
      next
        assume "head = 0"
        with pos show ?thesis by simp
      qed
    qed simp
    with True show ?thesis by simp
  next
    case False
    then have "(\<forall>j < n. P (head + j)) \<and> slot_try use True n head tst [] = Some (head + n, tst + n, [] @ [head..<head + n]) \<or>
      (\<exists>j < n. \<not> P (head + j) \<and> slot_try use True n head tst [] = Some (Suc (head + j), Suc (tst + j), [] @ [head..<head + j]))"
      using use by (intro slot_try_cont) auto
    then show ?thesis
    proof
      assume a: "(\<forall>j < n. P (head + j)) \<and> slot_try use True n head tst [] = Some (head + n, tst + n, [] @ [head..<head + n])"
      with False have "run_at P sz n head" by (simp add: run_at_def)
      with a False show ?thesis by (auto simp: Let_def)
    next
      assume "\<exists>j < n. \<not> P (head + j) \<and> slot_try use True n head tst [] = Some (Suc (head + j), Suc (tst + j), [] @ [head..<head + j])"
      then obtain j where j: "j < n" "\<not> P (head + j)" "slot_try use True n head tst [] = Some (Suc (head + j), Suc (tst + j), [head..<head + j])"
        by auto
      have excl: "\<not> run_at P sz n x" if "head \<le> x" "x < Suc (head + j)" for x
      proof
        assume "run_at P sz n x"
        then have "P (x + (head + j - x))" using that j(1) unfolding run_at_def by (metis diff_diff_left diff_le_self le_add1 le_trans less_imp_diff_less nat_add_left_cancel_less add_diff_inverse_nat not_less less_Suc_eq_le add.commute le_diff_conv order_le_less_trans)
        with that j(2) show False by simp
      qed
      have step: "slot_loop (Suc fuel) use True sz n head tst [] = (if Suc (tst + j) \<ge> sz then Some None
          else slot_loop fuel use True sz n (Suc (head + j)) (Suc (tst + j)) [])"
        using False j by (simp add: Let_def)
      show ?thesis
      proof (cases "Suc (tst + j) \<ge> sz")
        case True
        have "\<not> run_at P sz n x" for x
          using Suc.prems(2)
        proof (elim disjE conjE)
          assume a: "h0 \<le> head" "tst = head - h0" "\<forall>x. h0 \<le> x \<and> x < head \<longrightarrow> \<not> run_at P sz n x"
          then have "h0 = 0" "sz \<le> Suc (head + j)" using True False j(1) by auto
          with a(3) excl [of x] n(1) show ?thesis by (cases "x < head"; cases "x < Suc (head + j)") (auto simp: run_at_def)
        next
          assume a: "head < h0" "tst = sz - h0 + head" "\<forall>x. x < head \<or> h0 \<le> x \<longrightarrow> \<not> run_at P sz n x"
          then have "h0 \<le> Suc (head + j)" using True h0 by auto
          with a(3) excl [of x] show ?thesis by (cases "x < head"; cases "x < Suc (head + j)") auto
        qed simp
        with step True show ?thesis by simp
      next
        case more: False
        have "\<exists>r. slot_loop fuel use True sz n (Suc (head + j)) (Suc (tst + j)) [] = Some r \<and>
          (case r of None \<Rightarrow> \<forall>x. \<not> run_at P sz n x | Some idxs \<Rightarrow> \<exists>x. run_at P sz n x \<and> idxs = [x..<x + n])"
        proof (rule Suc.IH)
          show "Suc (head + j) \<le> sz" using False j(1) by simp
          show "2 * (sz - Suc (tst + j)) + (if Suc (head + j) = 0 then 0 else 1) < fuel" using Suc.prems(3) more by (auto split: if_splits)
          show "(h0 \<le> Suc (head + j) \<and> Suc (tst + j) = Suc (head + j) - h0 \<and> Suc (tst + j) < sz \<and>
              (\<forall>x. h0 \<le> x \<and> x < Suc (head + j) \<longrightarrow> \<not> run_at P sz n x)) \<or>
            (Suc (head + j) < h0 \<and> Suc (tst + j) = sz - h0 + Suc (head + j) \<and> (\<forall>x. x < Suc (head + j) \<or> h0 \<le> x \<longrightarrow> \<not> run_at P sz n x)) \<or>
            (Suc (head + j) = 0 \<and> sz \<le> Suc (tst + j) \<and> (\<forall>x. \<not> run_at P sz n x))"
            using Suc.prems(2)
          proof (elim disjE conjE)
            assume a: "h0 \<le> head" "tst = head - h0" "\<forall>x. h0 \<le> x \<and> x < head \<longrightarrow> \<not> run_at P sz n x"
            then have "\<not> run_at P sz n x" if "h0 \<le> x" "x < Suc (head + j)" for x
              using that excl [of x] by (cases "x < head") auto
            with a(1,2) more show ?thesis by auto
          next
            assume a: "head < h0" "tst = sz - h0 + head" "\<forall>x. x < head \<or> h0 \<le> x \<longrightarrow> \<not> run_at P sz n x"
            then have "\<not> run_at P sz n x" if "x < Suc (head + j) \<or> h0 \<le> x" for x
              using that excl [of x] by (cases "x < head") auto
            moreover have "Suc (head + j) < h0" using a more h0 by simp
            ultimately show ?thesis using a(2) by simp
          next
            assume "sz \<le> tst"
            with more show ?thesis by simp
          qed
        qed
        with step more show ?thesis by simp
      qed
    qed
  qed
qed simp

section \<open>Slots\<close>

definition usable :: "'d kv_cache \<Rightarrow> kv_cells \<Rightarrow> nat \<Rightarrow> bool" where
  "usable kv c i \<longleftrightarrow> can_use kv c i = Some True"

text \<open>What the search needs beyond the invariant: the position after the last one exists, and a
  chunked window has a length.\<close>

definition slot_ready :: "'d kv_cache \<Rightarrow> bool" where
  "slot_ready kv \<longleftrightarrow> (\<forall>st < kv_n_stream kv. \<forall>i < cells_size (kv_v_cells kv ! st). kc_pos (kv_v_cells kv ! st) ! i < int32_max) \<and>
     (kv_swa_type kv = SWA_CHUNKED \<longrightarrow> kv_n_swa kv \<noteq> 0)"

lemma can_use_total:
  assumes inv: "kv_inv kv" and st: "st < kv_n_stream kv" and ready: "slot_ready kv" and i: "i < cells_size (kv_v_cells kv ! st)"
  shows "can_use kv (kv_v_cells kv ! st) i = Some (usable kv (kv_v_cells kv ! st) i)"
proof -
  let ?c = "kv_v_cells kv ! st"
  note C = kv_invD(1) [OF inv st] and D = cell_atD [OF kv_invD(1) [OF inv st] i]
  have "\<exists>b. can_use kv ?c i = Some b"
  proof (cases "kc_pos ?c ! i \<noteq> - 1 \<and> card (kc_seq ?c ! i) = 1")
    case False
    with cells_is_empty_eq [OF C D(1)] D(1) show ?thesis
      by (auto simp: can_use_def cells_seq_count_def)
  next
    case True
    then obtain s where s: "kc_seq ?c ! i = {s}" by (auto simp: card_1_singleton_iff)
    with D(4) have smax: "s < LLAMA_MAX_SEQ" by simp
    have pos: "kc_pos ?c ! i \<in> seq_positions s ?c" using s D(1) by (auto simp: seq_positions_def)
    have "Max (seq_positions s ?c) \<in> seq_positions s ?c" using pos by (intro Max_in) auto
    then have lt: "Max (seq_positions s ?c) < int32_max"
      using ready st by (auto simp: seq_positions_def slot_ready_def cells_size_def)
    have ge: "0 \<le> kc_pos ?c ! i" "kc_pos ?c ! i \<le> Max (seq_positions s ?c)" using True D(2) pos by (auto intro: Max_ge)
    have ok: "int32_ok (Max (seq_positions s ?c) + 1)" using lt ge by (simp add: int32_ok_def int32_min_def)
    have "can_use kv ?c i = is_masked_swa (kv_n_swa kv) (kv_swa_type kv) (kc_pos ?c ! i) (Max (seq_positions s ?c) + 1)"
      using True cells_is_empty_eq [OF C D(1)] D(1) cells_seq_get_singleton [OF C D(1) s] cells_seq_pos_minmax(2) [OF C smax] pos ok
      by (auto simp: can_use_def cells_seq_count_def cells_pos_get_def s32_def)
    with ge ready show ?thesis by (cases "kv_swa_type kv") (auto simp: is_masked_swa_def slot_ready_def Let_def)
  qed
  then show ?thesis by (auto simp: usable_def)
qed

lemma usable_no_swa:
  assumes inv: "kv_inv kv" and st: "st < kv_n_stream kv" and ready: "slot_ready kv" and i: "i < cells_size (kv_v_cells kv ! st)"
    and swa: "kv_swa_type kv = SWA_NONE"
  shows "usable kv (kv_v_cells kv ! st) i \<longleftrightarrow> kc_pos (kv_v_cells kv ! st) ! i = - 1"
proof -
  let ?c = "kv_v_cells kv ! st"
  note C = kv_invD(1) [OF inv st] and D = cell_atD [OF kv_invD(1) [OF inv st] i]
  have "can_use kv ?c i \<noteq> Some True" if "kc_pos ?c ! i \<noteq> - 1"
    using that cells_is_empty_eq [OF C D(1)] swa
    by (auto simp: can_use_def is_masked_swa_def guard_def split: Option.bind_splits if_splits)
  moreover have "can_use kv ?c i = Some True" if "kc_pos ?c ! i = - 1"
    using that cells_is_empty_eq [OF C D(1)] by (simp add: can_use_def)
  ultimately show ?thesis by (auto simp: usable_def)
qed

text \<open>The usable cells of an occupied cell: one sequence holds it.\<close>

lemma usable_single:
  assumes inv: "kv_inv kv" and st: "st < kv_n_stream kv" and i: "i < cells_size (kv_v_cells kv ! st)"
    and use: "usable kv (kv_v_cells kv ! st) i" and "kc_pos (kv_v_cells kv ! st) ! i \<noteq> - 1"
  shows "\<exists>s. kc_seq (kv_v_cells kv ! st) ! i = {s}"
  using use assms(5) cells_is_empty_eq [OF kv_invD(1) [OF inv st] cell_atD(1) [OF kv_invD(1) [OF inv st] i]]
  by (auto simp: usable_def can_use_def cells_seq_count_def card_1_singleton_iff guard_def split: Option.bind_splits if_splits)

definition slot_head :: "'d kv_cache \<Rightarrow> nat \<Rightarrow> nat \<Rightarrow> nat" where
  "slot_head kv n st = (if kv_v_heads kv ! st > cells_get_used (kv_v_cells kv ! st) + 2 * n then 0 else kv_v_heads kv ! st)"

lemma find_slot_seq_ring:
  assumes inv: "kv_inv kv" and st: "st < kv_n_stream kv" and ready: "slot_ready kv" and n: "0 < n"
  shows "find_slot_seq kv False n st =
    Some (ring_pick (usable kv (kv_v_cells kv ! st)) (slot_head kv n st) (cells_size (kv_v_cells kv ! st)) n)"
proof -
  let ?c = "kv_v_cells kv ! st"
  have h: "slot_head kv n st \<le> cells_size ?c" using kv_invD(3) [OF inv st] by (auto simp: slot_head_def)
  show ?thesis
  proof (cases "n \<le> cells_size ?c")
    case False
    have "length (filter (usable kv ?c) (ring (slot_head kv n st) (cells_size ?c))) \<le> cells_size ?c"
      by (metis ring_length [OF h] length_filter_le)
    with False show ?thesis by (simp add: find_slot_seq_def ring_pick_def Let_def)
  next
    case True
    have "slot_loop (2 * cells_size ?c + 3) (can_use kv ?c) False (cells_size ?c) n (slot_head kv n st) 0 [] =
        Some (ring_pick (usable kv ?c) (slot_head kv n st) (cells_size ?c) n)"
      using True n h by (intro slot_loop_ring [OF can_use_total [OF inv st ready] h, where k = 0]) auto
    with True h show ?thesis by (simp add: find_slot_seq_def slot_head_def Let_def)
  qed
qed

lemma find_slot_seq_run:
  assumes inv: "kv_inv kv" and st: "st < kv_n_stream kv" and ready: "slot_ready kv" and n: "0 < n"
  shows "\<exists>r. find_slot_seq kv True n st = Some r \<and>
    (case r of None \<Rightarrow> \<forall>x. \<not> run_at (usable kv (kv_v_cells kv ! st)) (cells_size (kv_v_cells kv ! st)) n x
     | Some idxs \<Rightarrow> \<exists>x. run_at (usable kv (kv_v_cells kv ! st)) (cells_size (kv_v_cells kv ! st)) n x \<and> idxs = [x..<x + n])"
proof -
  let ?c = "kv_v_cells kv ! st"
  have h: "slot_head kv n st \<le> cells_size ?c" using kv_invD(3) [OF inv st] by (auto simp: slot_head_def)
  show ?thesis
  proof (cases "n \<le> cells_size ?c")
    case False
    then show ?thesis by (auto simp: find_slot_seq_def Let_def run_at_def)
  next
    case True
    have "\<exists>r. slot_loop (2 * cells_size ?c + 3) (can_use kv ?c) True (cells_size ?c) n (slot_head kv n st) 0 [] = Some r \<and>
      (case r of None \<Rightarrow> \<forall>x. \<not> run_at (usable kv ?c) (cells_size ?c) n x
       | Some idxs \<Rightarrow> \<exists>x. run_at (usable kv ?c) (cells_size ?c) n x \<and> idxs = [x..<x + n])"
      using True n h by (intro slot_loop_run [OF can_use_total [OF inv st ready] h]) auto
    with True h show ?thesis by (simp add: find_slot_seq_def slot_head_def Let_def)
  qed
qed

end
