(* ===== verification/KvPlace.thy ===== *)
theory KvPlace
  imports KvSlots
begin

text \<open>
  The correctness of slot search and placement: what \<^verbatim>\<open>find_slot\<close> finds, what \<^verbatim>\<open>apply_ubatch\<close> writes
  and that \<^verbatim>\<open>prepare\<close> leaves the cache as it found it (definitions in \<^verbatim>\<open>KvSlots\<close>).
\<close>

section \<open>Placing tokens\<close>

definition tok_seqs :: "'e llama_ubatch \<Rightarrow> nat \<Rightarrow> int list" where
  "tok_seqs ub i = take (nat (ub_n_seq_id ub ! i)) (ub_seq_id ub ! i)"

definition new_cell :: "'e llama_ubatch \<Rightarrow> nat \<Rightarrow> cell" where
  "new_cell ub i = (ub_pos ub ! i, 0, set (map nat (tok_seqs ub i)))"

text \<open>A token that stream \<open>st\<close> can take.\<close>

definition token_ok :: "'d kv_cache \<Rightarrow> 'e llama_ubatch \<Rightarrow> nat \<Rightarrow> nat \<Rightarrow> bool" where
  "token_ok kv ub st i \<longleftrightarrow> 0 \<le> ub_pos ub ! i \<and> ub_pos ub ! i \<le> int32_max \<and> tok_seqs ub i \<noteq> [] \<and> distinct (tok_seqs ub i) \<and>
     (\<forall>s \<in> set (tok_seqs ub i). 0 \<le> s \<and> nat s < LLAMA_MAX_SEQ \<and> (1 < kv_n_stream kv \<longrightarrow> nat s = st))"

lemma new_cell_legal: "token_ok kv ub st i \<Longrightarrow> cell_legal (kv_n_stream kv) st (new_cell ub i)"
  by (auto simp: token_ok_def new_cell_def cell_legal_def)

lemma seq_adds_spec:
  assumes inv: "cells_inv c" and i: "idx < cells_size c" and p: "kc_pos c ! idx \<noteq> - 1"
    and seqs: "distinct seqs" "\<forall>s \<in> set seqs. 0 \<le> s \<and> nat s < LLAMA_MAX_SEQ \<and> nat s \<notin> kc_seq c ! idx"
  shows "wp (foldM (\<lambda>s c. do { guard (s \<ge> 0); cells_seq_add idx (nat s) c }) seqs c) (\<lambda>d. cells_inv d \<and> kc_has_shift d = kc_has_shift c \<and>
    cells_put idx (kc_pos c ! idx) (kc_shift c ! idx) (kc_seq c ! idx \<union> set (map nat seqs)) c d)"
  using assms
proof (induction seqs arbitrary: c)
  case Nil
  then show ?case by (simp add: cells_put_def)
next
  case (Cons s seqs)
  from Cons.prems have s: "0 \<le> s" "nat s < LLAMA_MAX_SEQ" "nat s \<notin> kc_seq c ! idx" by auto
  have len: "idx < length (kc_pos c)" using Cons.prems(2) by (simp add: cells_size_def)
  from wpD [OF cells_seq_add_spec [OF Cons.prems(1) len s(2,3) Cons.prems(3)]] obtain d where
    d: "cells_seq_add idx (nat s) c = Some d" "cells_inv d" "kc_has_shift d = kc_has_shift c"
      "cells_put idx (kc_pos c ! idx) (kc_shift c ! idx) (insert (nat s) (kc_seq c ! idx)) c d" by blast
  have at: "kc_pos d ! idx = kc_pos c ! idx" "kc_shift d ! idx = kc_shift c ! idx" "kc_seq d ! idx = insert (nat s) (kc_seq c ! idx)"
      "cells_size d = cells_size c"
    using d(4) len Cons.prems(1) by (auto simp: cells_put_def cells_size_def cells_inv_def)
  have "wp (foldM (\<lambda>s c. do { guard (s \<ge> 0); cells_seq_add idx (nat s) c }) seqs d) (\<lambda>e. cells_inv e \<and> kc_has_shift e = kc_has_shift d \<and>
      cells_put idx (kc_pos d ! idx) (kc_shift d ! idx) (kc_seq d ! idx \<union> set (map nat seqs)) d e)"
  proof (rule Cons.IH)
    show "\<forall>t \<in> set seqs. 0 \<le> t \<and> nat t < LLAMA_MAX_SEQ \<and> nat t \<notin> kc_seq d ! idx"
      using Cons.prems(4,5) s(1) at(3) by (auto simp: nat_eq_iff)
  qed (use Cons.prems at d(2) in auto)
  then show ?case using d s(1) by (auto simp: at cells_put_def elim!: wp_mono)
qed

text \<open>The greatest overwritten position of a sequence.\<close>

definition mx_note :: "cell \<Rightarrow> (nat \<Rightarrow> int) \<Rightarrow> (nat \<Rightarrow> int)" where
  "mx_note x mx = (if fst x = - 1 then mx else (\<lambda>s. if snd (snd x) = {s} then max (mx s) (fst x) else mx s))"

lemma apply_token_spec:
  assumes inv: "cells_inv c" and i: "idx < cells_size c" and use: "kc_pos c ! idx = - 1 \<or> (\<exists>s. kc_seq c ! idx = {s})"
    and p: "0 \<le> pos" "pos \<le> int32_max" and seqs: "distinct seqs" "\<forall>s \<in> set seqs. 0 \<le> s \<and> nat s < LLAMA_MAX_SEQ"
  shows "wp (apply_token idx pos seqs (c, mx)) (\<lambda>(d, mx'). cells_inv d \<and> kc_has_shift d = kc_has_shift c \<and>
    cell_put idx (pos, 0, set (map nat seqs)) c d \<and> mx' = mx_note (cell_at c idx) mx)"
proof -
  note D = cell_atD [OF inv i]
  define step where "step = (if kc_pos c ! idx = - 1 then Some (c, mx) else do {
         n \<leftarrow> cells_seq_count idx c; guard (n = 1); sid \<leftarrow> cells_seq_get idx c; p \<leftarrow> cells_pos_get idx c;
         c' \<leftarrow> cells_rm idx c; Some (c', mx(nat sid := max (mx (nat sid)) p)) })"
  have "\<exists>c1. step = Some (c1, mx_note (cell_at c idx) mx) \<and> cells_inv c1 \<and> kc_has_shift c1 = kc_has_shift c \<and> cells_put idx (- 1) 0 {} c c1"
  proof (cases "kc_pos c ! idx = - 1")
    case True
    with D(3) inv i show ?thesis by (auto simp: step_def mx_note_def cells_put_def cell_at_def) 
        (metis list_update_id)+
  next
    case False
    with use obtain s where s: "kc_seq c ! idx = {s}" by blast
    from wpD [OF cells_rm_spec [OF inv D(1) False]] obtain c1 where
      c1: "cells_rm idx c = Some c1" "cells_inv c1" "kc_has_shift c1 = kc_has_shift c" "cells_put idx (- 1) 0 {} c c1" by blast
    have "mx(s := max (mx s) (kc_pos c ! idx)) = mx_note (cell_at c idx) mx"
      using False s by (auto simp: mx_note_def cell_at_def fun_eq_iff)
    with False s c1 D(1) cells_seq_get_singleton [OF inv D(1) s] show ?thesis
      by (simp add: step_def cells_seq_count_def cells_pos_get_def)
  qed
  then obtain c1 where c1: "step = Some (c1, mx_note (cell_at c idx) mx)" "cells_inv c1" "kc_has_shift c1 = kc_has_shift c"
    "cells_put idx (- 1) 0 {} c c1" by blast
  have len: "length (kc_shift c) = length (kc_pos c)" "length (kc_seq c) = length (kc_pos c)" using inv by (simp_all add: cells_inv_def)
  have at1: "kc_pos c1 ! idx = - 1" "idx < length (kc_pos c1)" using c1(4) D(1) by (auto simp: cells_put_def)
  from wpD [OF cells_pos_set_spec [OF c1(2) at1(2,1) p]] obtain c2 where
    c2: "cells_pos_set idx pos c1 = Some c2" "cells_inv c2" "kc_has_shift c2 = kc_has_shift c1" "cells_put idx pos 0 {} c1 c2"
    by (auto)
  have at2: "kc_pos c2 ! idx = pos" "kc_shift c2 ! idx = 0" "kc_seq c2 ! idx = {}" "idx < cells_size c2"
    using c2(4) c1(4) len D(1) by (auto simp: cells_put_def cells_size_def)
  have "wp (foldM (\<lambda>s c. do { guard (s \<ge> 0); cells_seq_add idx (nat s) c }) seqs c2) (\<lambda>d. cells_inv d \<and> kc_has_shift d = kc_has_shift c2 \<and>
      cells_put idx (kc_pos c2 ! idx) (kc_shift c2 ! idx) (kc_seq c2 ! idx \<union> set (map nat seqs)) c2 d)"
    using c2(2) at2 p(1) seqs by (intro seq_adds_spec) auto
  from wpD [OF this] obtain d where
    d: "foldM (\<lambda>s c. do { guard (s \<ge> 0); cells_seq_add idx (nat s) c }) seqs c2 = Some d" "cells_inv d" "kc_has_shift d = kc_has_shift c2"
      "cells_put idx pos 0 (set (map nat seqs)) c2 d" using at2 by auto
  have "cell_put idx (pos, 0, set (map nat seqs)) c d"
    using c1(4) c2(4) d(4) by (simp add: cell_put_def cells_put_def)
  moreover have "apply_token idx pos seqs (c, mx) = Some (d, mx_note (cell_at c idx) mx)"
    using c1(1) c2(1) d(1) cells_is_empty_eq [OF inv D(1)] by (simp add: apply_token_def step_def)
  ultimately show ?thesis using c1(3) c2(3) d(2,3) by simp
qed

definition placed :: "kv_cells \<Rightarrow> nat list \<Rightarrow> (nat \<Rightarrow> cell) \<Rightarrow> kv_cells \<Rightarrow> bool" where
  "placed c idxs x d \<longleftrightarrow> cells_inv d \<and> cells_size d = cells_size c \<and> kc_has_shift d = kc_has_shift c \<and>
     (\<forall>ii < length idxs. cell_at d (idxs ! ii) = x ii) \<and> (\<forall>i < cells_size c. i \<notin> set idxs \<longrightarrow> cell_at d i = cell_at c i)"

lemma apply_tokens_spec:
  assumes inv: "cells_inv c" and idxs: "distinct idxs" "\<forall>i \<in> set idxs. i < cells_size c \<and> (kc_pos c ! i = - 1 \<or> (\<exists>s. kc_seq c ! i = {s}))"
    and ok: "\<And>ii. ii < length idxs \<Longrightarrow> 0 \<le> pos ii \<and> pos ii \<le> int32_max \<and> distinct (seqs ii) \<and>
      (\<forall>s \<in> set (seqs ii). 0 \<le> s \<and> nat s < LLAMA_MAX_SEQ)"
  shows "wp (foldM (\<lambda>ii. apply_token (idxs ! ii) (pos ii) (seqs ii)) [0..<length idxs] (c, mx))
    (\<lambda>(d, mx'). placed c idxs (\<lambda>ii. (pos ii, 0, set (map nat (seqs ii)))) d \<and>
      mx' = fold (\<lambda>ii. mx_note (cell_at c (idxs ! ii))) [0..<length idxs] mx)"
proof -
  let ?x = "\<lambda>ii. (pos ii, 0, set (map nat (seqs ii)))"
  let ?P = "\<lambda>k (d, mx'). placed c (take k idxs) ?x d \<and> mx' = fold (\<lambda>ii. mx_note (cell_at c (idxs ! ii))) [0..<k] mx"
  have "wp (foldM (\<lambda>ii. apply_token (idxs ! ii) (pos ii) (seqs ii)) [0..<length idxs] (c, mx)) (?P (length idxs))"
  proof (rule wp_foldM_upt [where P = ?P])
    show "?P 0 (c, mx)" using inv by (simp add: placed_def)
  next
    fix k and s :: "kv_cells \<times> (nat \<Rightarrow> int)"
    assume k: "k < length idxs" and P: "?P k s"
    obtain d mx' where s: "s = (d, mx')" by (cases s)
    from P s have d: "cells_inv d" "cells_size d = cells_size c" "kc_has_shift d = kc_has_shift c"
      "\<forall>ii < k. cell_at d (idxs ! ii) = ?x ii" "\<forall>i < cells_size c. i \<notin> set (take k idxs) \<longrightarrow> cell_at d i = cell_at c i"
      and mx': "mx' = fold (\<lambda>ii. mx_note (cell_at c (idxs ! ii))) [0..<k] mx" using k by (auto simp: placed_def)
    have i: "idxs ! k < cells_size c" "kc_pos c ! (idxs ! k) = - 1 \<or> (\<exists>s. kc_seq c ! (idxs ! k) = {s})" using idxs(2) k by auto
    have new: "idxs ! k \<notin> set (take k idxs)" using idxs(1) k by (metis distinct_take in_set_conv_nth length_take min.absorb4 nth_eq_iff_index_eq nth_take less_trans less_irrefl)
    with d(5) i(1) have same: "cell_at d (idxs ! k) = cell_at c (idxs ! k)" by simp
    then have use: "kc_pos d ! (idxs ! k) = - 1 \<or> (\<exists>s. kc_seq d ! (idxs ! k) = {s})" using i(2) by (simp add: cell_at_def)
    have "wp (apply_token (idxs ! k) (pos k) (seqs k) (d, mx')) (\<lambda>(e, mx''). cells_inv e \<and> kc_has_shift e = kc_has_shift d \<and>
        cell_put (idxs ! k) (?x k) d e \<and> mx'' = mx_note (cell_at d (idxs ! k)) mx')"
      using apply_token_spec [OF d(1) _ use, of "pos k" "seqs k" mx'] ok [OF k] i(1) d(2) by simp
    then show "wp (apply_token (idxs ! k) (pos k) (seqs k) s) (?P (Suc k))"
      unfolding s
    proof (rule wp_mono, clarify)
      fix e
      assume e: "cells_inv e" "kc_has_shift e = kc_has_shift d" "cell_put (idxs ! k) (?x k) d e"
      note at = cell_put_at [OF e(3) d(1), unfolded d(2)]
      have "placed c (take (Suc k) idxs) ?x e"
        unfolding placed_def
      proof (intro conjI allI impI)
        fix ii
        assume "ii < length (take (Suc k) idxs)"
        then have ii: "ii < Suc k" "ii < length idxs" by auto
        then have lt: "idxs ! ii < cells_size c" using idxs(2) by simp
        show "cell_at e (take (Suc k) idxs ! ii) = ?x ii"
          using at [OF lt] ii d(4) idxs(1) k by (cases "ii = k") (auto simp: nth_eq_iff_index_eq less_Suc_eq)
      next
        fix i
        assume "i < cells_size c" "i \<notin> set (take (Suc k) idxs)"
        then show "cell_at e i = cell_at c i" using at [of i] d(5) k by (auto simp: take_Suc_conv_app_nth)
      qed (use e d cell_put_size [OF e(3)] in auto)
      then show "placed c (take (Suc k) idxs) ?x e \<and> mx_note (cell_at d (idxs ! k)) mx' = fold (\<lambda>ii. mx_note (cell_at c (idxs ! ii))) [0..<Suc k] mx"
        using mx' same by simp
    qed
  qed
  then show ?thesis by simp
qed

section \<open>Where the search places a micro-batch\<close>

lemma fold_upd: "k \<le> length xs \<Longrightarrow> fold (\<lambda>s xs. xs[s := f s]) [0..<k] xs = map f [0..<k] @ drop k xs"
  by (induction k) (auto simp: list_update_append Cons_nth_drop_Suc [symmetric])

lemma fold_upd_replicate: "fold (\<lambda>s xs. xs[s := f s]) [0..<k] (replicate k x) = map f [0..<k]"
  using fold_upd [of k "replicate k x" f] by simp

definition seq_guard :: "'d kv_cache \<Rightarrow> 'e llama_ubatch \<Rightarrow> nat \<Rightarrow> nat \<Rightarrow> bool" where
  "seq_guard kv ub n s \<longleftrightarrow> s < length (ub_seq_id_unq ub) \<and> ub_seq_id_unq ub ! s < length (kv_seq_to_stream kv) \<and>
     (kv_n_stream kv > 1 \<longrightarrow> s * n < length (ub_n_seq_id ub) \<and> ub_n_seq_id ub ! (s * n) = 1 \<and>
       ub_seq_id ub ! (s * n) \<noteq> [] \<and> hd (ub_seq_id ub ! (s * n)) = int (ub_seq_id_unq ub ! s))"

definition unq_stream :: "'d kv_cache \<Rightarrow> 'e llama_ubatch \<Rightarrow> nat \<Rightarrow> nat" where
  "unq_stream kv ub s = kv_seq_to_stream kv ! (ub_seq_id_unq ub ! s)"

lemma find_slot_seqs_spec:
  assumes "\<And>s. s \<in> set ss \<Longrightarrow> seq_guard kv ub n s \<and> find_slot_seq kv cont n (unq_stream kv ub s) = Some (r s)"
  shows "find_slot_seqs kv cont ub n ss res = Some (if \<exists>s \<in> set ss. r s = None then slot_none
    else res\<lparr>si_s0 := fold (\<lambda>s m. min m (unq_stream kv ub s)) ss (si_s0 res), si_s1 := fold (\<lambda>s m. max m (unq_stream kv ub s)) ss (si_s1 res),
      si_strm := fold (\<lambda>s xs. xs[s := unq_stream kv ub s]) ss (si_strm res), si_idxs := fold (\<lambda>s xs. xs[s := the (r s)]) ss (si_idxs res)\<rparr>)"
  using assms
proof (induction ss arbitrary: res)
  case (Cons s ss)
  have g: "seq_guard kv ub n s" "find_slot_seq kv cont n (unq_stream kv ub s) = Some (r s)" using Cons.prems by simp_all
  show ?case
  proof (cases "r s")
    case None
    with g show ?thesis by (simp add: seq_guard_def unq_stream_def Let_def)
  next
    case (Some idxs)
    let ?res = "res\<lparr>si_s0 := min (si_s0 res) (unq_stream kv ub s), si_s1 := max (si_s1 res) (unq_stream kv ub s),
          si_strm := (si_strm res)[s := unq_stream kv ub s], si_idxs := (si_idxs res)[s := idxs]\<rparr>"
    have "find_slot_seqs kv cont ub n (s # ss) res = find_slot_seqs kv cont ub n ss ?res"
      using g Some by (simp add: seq_guard_def unq_stream_def Let_def)
    also have "\<dots> = Some (if \<exists>s \<in> set ss. r s = None then slot_none
      else ?res\<lparr>si_s0 := fold (\<lambda>s m. min m (unq_stream kv ub s)) ss (si_s0 ?res), si_s1 := fold (\<lambda>s m. max m (unq_stream kv ub s)) ss (si_s1 ?res),
        si_strm := fold (\<lambda>s xs. xs[s := unq_stream kv ub s]) ss (si_strm ?res), si_idxs := fold (\<lambda>s xs. xs[s := the (r s)]) ss (si_idxs ?res)\<rparr>)"
      using Cons.prems by (intro Cons.IH) auto
    finally show ?thesis using Some by (auto simp del: find_slot_seqs.simps)
  qed
qed simp

text \<open>A micro-batch the cache can look for: \<open>k\<close> streams with \<open>n\<close> tokens each.\<close>

definition ub_fits :: "'d kv_cache \<Rightarrow> 'e llama_ubatch \<Rightarrow> nat \<Rightarrow> nat \<Rightarrow> bool" where
  "ub_fits kv ub k n \<longleftrightarrow> 0 < n \<and> 0 < k \<and> k = (if kv_n_stream kv > 1 then ub_n_seqs_unq ub else 1) \<and> ub_n_tokens ub = k * n \<and>
     distinct (map (unq_stream kv ub) [0..<k]) \<and> (\<forall>s < k. seq_guard kv ub n s) \<and>
     (\<forall>s < k. \<forall>ii < n. token_ok kv ub (unq_stream kv ub s) (s * n + ii))"

text \<open>A slot in which such a micro-batch can be placed.\<close>

definition slot_fits :: "'d kv_cache \<Rightarrow> 'e llama_ubatch \<Rightarrow> nat \<Rightarrow> nat \<Rightarrow> slot_info \<Rightarrow> bool" where
  "slot_fits kv ub k n si \<longleftrightarrow> ub_fits kv ub k n \<and> si_strm si = map (unq_stream kv ub) [0..<k] \<and> length (si_idxs si) = k \<and>
     (\<forall>s < k. length (si_idxs si ! s) = n \<and> distinct (si_idxs si ! s) \<and>
       (\<forall>i \<in> set (si_idxs si ! s). i < cells_size (kv_v_cells kv ! unq_stream kv ub s) \<and> usable kv (kv_v_cells kv ! unq_stream kv ub s) i))"

lemma unq_stream_less:
  assumes "kv_inv kv" and "seq_guard kv ub n s"
  shows "unq_stream kv ub s < kv_n_stream kv"
  using assms by (auto simp: kv_inv_def seq_guard_def unq_stream_def)

lemma fold_min_max_le: "0 < k \<Longrightarrow> (\<And>s. s < k \<Longrightarrow> f s \<le> (m::nat)) \<Longrightarrow>
  fold (\<lambda>s m. min m (f s)) [0..<k] m \<le> fold (\<lambda>s m. max m (f s)) [0..<k] 0"
proof (induction k)
  case (Suc k)
  then show ?case by (cases k) (auto simp: min.coboundedI1 max.coboundedI1)
qed simp

lemma find_slot_total:
  assumes inv: "kv_inv kv" and fits: "ub_fits kv ub k n"
    and pick: "\<And>s. s < k \<Longrightarrow> find_slot_seq kv cont n (unq_stream kv ub s) = Some (r s)"
  shows "\<exists>s0 s1. find_slot ub cont kv = Some (if \<exists>s < k. r s = None then slot_none
    else \<lparr>si_s0 = s0, si_s1 = s1, si_strm = map (unq_stream kv ub) [0..<k], si_idxs = map (the \<circ> r) [0..<k]\<rparr>)"
proof -
  from fits have k: "0 < k" "0 < n" "k = (if kv_n_stream kv > 1 then ub_n_seqs_unq ub else 1)" "ub_n_tokens ub = k * n"
    and g: "\<And>s. s < k \<Longrightarrow> seq_guard kv ub n s" by (auto simp: ub_fits_def)
  let ?res = "\<lparr>si_s0 = LLAMA_MAX_SEQ, si_s1 = 0, si_strm = replicate k 0, si_idxs = replicate k []\<rparr>"
  have n: "(if kv_n_stream kv > 1 then ub_n_tokens ub div k else ub_n_tokens ub) = n" using k by auto
  have le: "unq_stream kv ub s \<le> LLAMA_MAX_SEQ" if "s < k" for s
    using unq_stream_less [OF inv g [OF that]] inv by (auto simp: kv_inv_def)
  have run: "find_slot_seqs kv cont ub n [0..<k] ?res = Some (if \<exists>s < k. r s = None then slot_none
      else \<lparr>si_s0 = fold (\<lambda>s m. min m (unq_stream kv ub s)) [0..<k] LLAMA_MAX_SEQ,
        si_s1 = fold (\<lambda>s m. max m (unq_stream kv ub s)) [0..<k] 0,
        si_strm = map (unq_stream kv ub) [0..<k], si_idxs = map (the \<circ> r) [0..<k]\<rparr>)"
  proof -
    have "(\<exists>s \<in> set [0..<k]. r s = None) = (\<exists>s < k. r s = None)" by auto
    then show ?thesis
      using find_slot_seqs_spec [of "[0..<k]" kv ub n cont r ?res] g pick
      by (simp only: fold_upd_replicate comp_def set_upt atLeastLessThan_iff slot_info.simps)
  qed
  have red: "find_slot ub cont kv = do { res \<leftarrow> find_slot_seqs kv cont ub n [0..<k] ?res; guard (si_s1 res \<ge> si_s0 res); Some res }"
  proof -
    have "(if kv_n_stream kv > 1 then ub_n_seqs_unq ub else 1) = k" using k by simp
    moreover have "guard (kv_n_stream kv > 1 \<longrightarrow> ub_n_seqs_unq ub \<noteq> 0 \<and> ub_n_tokens ub mod ub_n_seqs_unq ub = 0) = Some ()"
      using k by (auto simp: guard_def)
    ultimately show ?thesis unfolding find_slot_def Let_def by (simp only: n Option.bind.bind_lunit)
  qed
  show ?thesis
  proof (cases "\<exists>s < k. r s = None")
    case True
    then show ?thesis unfolding red run by (simp add: slot_none_def)
  next
    case False
    have "fold (\<lambda>s m. min m (unq_stream kv ub s)) [0..<k] LLAMA_MAX_SEQ \<le> fold (\<lambda>s m. max m (unq_stream kv ub s)) [0..<k] 0"
      using fold_min_max_le [OF k(1) le] by simp
    with False show ?thesis unfolding red run by auto
  qed
qed

lemma ring_pick_Some:
  assumes "ring_pick P h sz n = Some idxs" and "h \<le> sz"
  shows "length idxs = n" "distinct idxs" "\<forall>i \<in> set idxs. i < sz \<and> P i"
proof -
  let ?xs = "filter P (ring h sz)"
  from assms(1) have eq: "idxs = take n ?xs" "n \<le> length ?xs" by (auto simp: ring_pick_def Let_def split: if_splits)
  then show "length idxs = n" by simp
  show "distinct idxs" using eq ring_distinct [of h sz] by simp
  show "\<forall>i \<in> set idxs. i < sz \<and> P i"
  proof
    fix i
    assume "i \<in> set idxs"
    then have "i \<in> set ?xs" unfolding eq(1) by (rule in_set_takeD)
    then have "i \<in> set (ring h sz) \<and> P i" by (simp only: set_filter mem_Collect_eq)
    then show "i < sz \<and> P i" unfolding ring_set [OF assms(2)] by simp
  qed
qed

lemma run_at_mem: "run_at P sz n x \<Longrightarrow> x \<le> i \<Longrightarrow> i < x + n \<Longrightarrow> i < sz \<and> P i"
  unfolding run_at_def by (metis le_add_diff_inverse less_le_trans nat_add_left_cancel_less)

lemma slot_head_le: "kv_inv kv \<Longrightarrow> st < kv_n_stream kv \<Longrightarrow> slot_head kv n st \<le> cells_size (kv_v_cells kv ! st)"
  using kv_invD(3) [of kv st] by (simp add: slot_head_def)

lemma find_slot_fits:
  assumes inv: "kv_inv kv" and ready: "slot_ready kv" and fits: "ub_fits kv ub k n"
  shows "\<exists>si. find_slot ub cont kv = Some si \<and> (si_empty si \<or> slot_fits kv ub k n si)"
proof -
  have st: "unq_stream kv ub s < kv_n_stream kv" if "s < k" for s
    using fits that by (auto simp: ub_fits_def intro: unq_stream_less [OF inv])
  have n: "0 < n" "0 < k" using fits by (auto simp: ub_fits_def)
  let ?good = "\<lambda>s idxs. length idxs = n \<and> distinct idxs \<and>
    (\<forall>i \<in> set idxs. i < cells_size (kv_v_cells kv ! unq_stream kv ub s) \<and> usable kv (kv_v_cells kv ! unq_stream kv ub s) i)"
  have "\<exists>r. find_slot_seq kv cont n (unq_stream kv ub s) = Some r \<and> (\<forall>idxs. r = Some idxs \<longrightarrow> ?good s idxs)" if s: "s < k" for s
  proof (cases cont)
    case False
    show ?thesis
      using find_slot_seq_ring [OF inv st [OF s] ready n(1)] ring_pick_Some [OF _ slot_head_le [OF inv st [OF s], of n],
          of "usable kv (kv_v_cells kv ! unq_stream kv ub s)" n] False by simp
  next
    case True
    with find_slot_seq_run [OF inv st [OF s] ready n(1)] show ?thesis
      by (auto split: option.splits) (metis run_at_mem)+
  qed
  then obtain r where r: "\<And>s. s < k \<Longrightarrow> find_slot_seq kv cont n (unq_stream kv ub s) = Some (r s)"
    "\<And>s idxs. s < k \<Longrightarrow> r s = Some idxs \<Longrightarrow> ?good s idxs" by metis
  from find_slot_total [OF inv fits r(1)] obtain s0 s1 where
    eq: "find_slot ub cont kv = Some (if \<exists>s < k. r s = None then slot_none
      else \<lparr>si_s0 = s0, si_s1 = s1, si_strm = map (unq_stream kv ub) [0..<k], si_idxs = map (the \<circ> r) [0..<k]\<rparr>)" by blast
  show ?thesis
  proof (cases "\<exists>s < k. r s = None")
    case True
    with eq show ?thesis by (simp add: si_empty_def slot_none_def)
  next
    case False
    with r(2) have "?good s (the (r s))" if "s < k" for s using that by (metis option.collapse)
    with eq False fits show ?thesis by (simp add: slot_fits_def)
  qed
qed

section \<open>Applying a micro-batch\<close>

text \<open>
  Removed sequences and positions that the purge can handle: \<open>-1\<close> for none, else a position with a
  successor, of a sequence the cache knows.
\<close>

definition mx_ok :: "'d kv_cache \<Rightarrow> (nat \<Rightarrow> int) \<Rightarrow> bool" where
  "mx_ok kv mx \<longleftrightarrow> (\<forall>s. mx s = - 1 \<or> (0 \<le> mx s \<and> mx s < int32_max \<and> s < length (kv_seq_to_stream kv)))"

lemma mx_note_ok:
  assumes inv: "kv_inv kv" and st: "st < kv_n_stream kv" and ready: "slot_ready kv" and i: "i < cells_size (kv_v_cells kv ! st)"
    and mx: "mx_ok kv mx"
  shows "mx_ok kv (mx_note (cell_at (kv_v_cells kv ! st) i) mx)"
proof -
  let ?c = "kv_v_cells kv ! st"
  note D = cell_atD [OF kv_invD(1) [OF inv st] i]
  have "s < length (kv_seq_to_stream kv)" if "kc_seq ?c ! i = {s}" for s
    using that kv_invD(6) [OF inv st i] D(4) [of s] inv st by (auto simp: kv_inv_def cell_legal_def cell_at_def split: if_splits)
  moreover have "kc_pos ?c ! i < int32_max" using ready st i by (simp add: slot_ready_def)
  ultimately show ?thesis using mx D(2) unfolding mx_ok_def mx_note_def cell_at_def max_def
    by (auto split: if_splits) (metis less_trans not_le)
qed

lemma fold_map_nth: "fold (\<lambda>ii. f (g (xs ! ii))) [0..<length xs] a = fold f (map g xs) a"
proof -
  have "fold f (map g (map ((!) xs) [0..<length xs])) a = fold (\<lambda>ii. f (g (xs ! ii))) [0..<length xs] a"
    by (simp only: fold_map comp_def)
  then show ?thesis by (simp only: map_nth)
qed

lemma mx_note_empty: "fst x = - 1 \<Longrightarrow> mx_note x mx = mx"
  by (simp add: mx_note_def)

lemma apply_stream_spec:
  assumes inv: "kv_inv kv0" and ready: "slot_ready kv0" and fits: "slot_fits kv0 ub k n si" and s: "s < k"
    and same: "kv_v_cells kv ! unq_stream kv0 ub s = kv_v_cells kv0 ! unq_stream kv0 ub s" and mx: "mx_ok kv0 mx"
  shows "wp (apply_stream ub si n s (kv, mx)) (\<lambda>(kv', mx'). \<exists>c. kv' = put_cells (unq_stream kv0 ub s) c kv \<and>
    placed (kv_v_cells kv0 ! unq_stream kv0 ub s) (si_idxs si ! s) (\<lambda>ii. new_cell ub (s * n + ii)) c \<and> mx_ok kv0 mx' \<and>
    mx' = fold mx_note (map (cell_at (kv_v_cells kv0 ! unq_stream kv0 ub s)) (si_idxs si ! s)) mx \<and>
    ((\<forall>i \<in> set (si_idxs si ! s). kc_pos (kv_v_cells kv0 ! unq_stream kv0 ub s) ! i = - 1) \<longrightarrow> mx' = mx))"
proof -
  let ?st = "unq_stream kv0 ub s" and ?idxs = "si_idxs si ! s"
  let ?c = "kv_v_cells kv0 ! ?st"
  have ub: "ub_fits kv0 ub k n" using fits by (simp add: slot_fits_def)
  then have st: "?st < kv_n_stream kv0" using s by (auto simp: ub_fits_def intro: unq_stream_less [OF inv])
  from fits s have idxs: "length ?idxs = n" "distinct ?idxs" "\<forall>i \<in> set ?idxs. i < cells_size ?c \<and> usable kv0 ?c i"
    and strm: "si_strm si ! s = ?st" by (auto simp: slot_fits_def)
  have use: "\<forall>i \<in> set ?idxs. i < cells_size ?c \<and> (kc_pos ?c ! i = - 1 \<or> (\<exists>q. kc_seq ?c ! i = {q}))"
    using idxs(3) usable_single [OF inv st] by blast
  have tok: "0 \<le> ub_pos ub ! (s * n + ii) \<and> ub_pos ub ! (s * n + ii) \<le> int32_max \<and> distinct (tok_seqs ub (s * n + ii)) \<and>
      (\<forall>q \<in> set (tok_seqs ub (s * n + ii)). 0 \<le> q \<and> nat q < LLAMA_MAX_SEQ)" if "ii < length ?idxs" for ii
    using ub s that idxs(1) by (auto simp: ub_fits_def token_ok_def)
  let ?mx = "fold (\<lambda>ii. mx_note (cell_at ?c (?idxs ! ii))) [0..<length ?idxs] mx"
  from wpD [OF apply_tokens_spec [where pos = "\<lambda>ii. ub_pos ub ! (s * n + ii)" and seqs = "\<lambda>ii. tok_seqs ub (s * n + ii)" and mx = mx,
      OF kv_invD(1) [OF inv st] idxs(2) use tok]] obtain c where
    c: "foldM (\<lambda>ii. apply_token (?idxs ! ii) (ub_pos ub ! (s * n + ii)) (tok_seqs ub (s * n + ii))) [0..<length ?idxs] (?c, mx) = Some (c, ?mx)"
      "placed ?c ?idxs (\<lambda>ii. (ub_pos ub ! (s * n + ii), 0, set (map nat (tok_seqs ub (s * n + ii))))) c" by auto
  have "apply_stream ub si n s (kv, mx) = Some (put_cells ?st c kv, ?mx)"
    using c(1) idxs(1) strm same by (simp add: apply_stream_def Let_def tok_seqs_def [symmetric])
  moreover have "placed ?c ?idxs (\<lambda>ii. new_cell ub (s * n + ii)) c" using c(2) by (simp add: new_cell_def)
  moreover have "mx_ok kv0 ?mx"
    using mx by (intro fold_invariant [where Q = "\<lambda>ii. ii < length ?idxs" and P = "mx_ok kv0"])
      (auto intro!: mx_note_ok [OF inv st ready] simp: idxs(3))
  moreover have "?mx = fold mx_note (map (cell_at ?c) ?idxs) mx" by (rule fold_map_nth)
  moreover have "?mx = mx" if "\<forall>i \<in> set ?idxs. kc_pos ?c ! i = - 1"
    by (rule fold_invariant [where Q = "\<lambda>ii. ii < length ?idxs" and P = "\<lambda>m. m = mx"]) (auto simp: mx_note_empty that)
  ultimately show ?thesis by auto
qed

text \<open>Two states of one cache that differ at most in cells and heads.\<close>

definition kv_conf :: "'d kv_cache \<Rightarrow> 'd kv_cache \<Rightarrow> bool" where
  "kv_conf kv kv' \<longleftrightarrow> kv' = kv\<lparr>kv_v_heads := kv_v_heads kv', kv_v_cells := kv_v_cells kv'\<rparr>"

lemma kv_conf_refl [simp]: "kv_conf kv kv"
  by (simp add: kv_conf_def)

lemma kv_conf_trans: "kv_conf a b \<Longrightarrow> kv_conf b c \<Longrightarrow> kv_conf a c"
  by (cases a, cases b, cases c) (simp add: kv_conf_def)

lemma kv_conf_put [simp]: "kv_conf kv (put_head st h kv)" "kv_conf kv (put_cells st c kv)"
  by (simp_all add: kv_conf_def put_head_def put_cells_def)

lemma kv_confD:
  assumes "kv_conf kv kv'"
  shows "kv_n_stream kv' = kv_n_stream kv" "kv_seq_to_stream kv' = kv_seq_to_stream kv" "kv_swa_type kv' = kv_swa_type kv"
    "kv_n_swa kv' = kv_n_swa kv" "kv_sc_info kv' = kv_sc_info kv" "kv_data kv' = kv_data kv" "kv_n_seq_max kv' = kv_n_seq_max kv"
    "kv_n_pad kv' = kv_n_pad kv"
  using assms unfolding kv_conf_def by (metis kv_cache.simps(1-20) kv_cache.select_convs kv_cache.surjective kv_cache.update_convs)+

lemma kv_frame_conf: "kv_frame st kv kv' \<Longrightarrow> kv_conf kv kv'"
  by (auto simp: kv_frame_def kv_conf_def put_head_def put_cells_def)

lemma kv_inv_head:
  assumes inv: "kv_inv kv" and st: "st < kv_n_stream kv" and "h \<le> cells_size (kv_v_cells kv ! st)"
  shows "kv_inv (put_head st h kv)"
proof -
  have "put_cells st (kv_v_cells kv ! st) kv = kv" by (simp add: put_cells_def)
  with kv_inv_put [OF inv st kv_invD(1) [OF inv st] refl kv_invD(6) [OF inv st] assms(3)] show ?thesis by simp
qed

text \<open>The state after the tokens of the first \<open>j\<close> streams are placed.\<close>

definition placed_streams :: "'d kv_cache \<Rightarrow> 'e llama_ubatch \<Rightarrow> nat \<Rightarrow> slot_info \<Rightarrow> nat \<Rightarrow> 'd kv_cache \<Rightarrow> bool" where
  "placed_streams kv ub n si j kv' \<longleftrightarrow> kv_conf kv kv' \<and> kv_v_heads kv' = kv_v_heads kv \<and> length (kv_v_cells kv') = length (kv_v_cells kv) \<and>
     (\<forall>s < j. placed (kv_v_cells kv ! unq_stream kv ub s) (si_idxs si ! s) (\<lambda>ii. new_cell ub (s * n + ii)) (kv_v_cells kv' ! unq_stream kv ub s)) \<and>
     (\<forall>t. (\<forall>s < j. t \<noteq> unq_stream kv ub s) \<longrightarrow> kv_v_cells kv' ! t = kv_v_cells kv ! t)"

definition slot_free :: "'d kv_cache \<Rightarrow> 'e llama_ubatch \<Rightarrow> nat \<Rightarrow> slot_info \<Rightarrow> bool" where
  "slot_free kv ub k si \<longleftrightarrow> (\<forall>s < k. \<forall>i \<in> set (si_idxs si ! s). kc_pos (kv_v_cells kv ! unq_stream kv ub s) ! i = - 1)"

text \<open>The cells of the slot as they were, stream by stream.\<close>

definition slot_cells :: "'d kv_cache \<Rightarrow> 'e llama_ubatch \<Rightarrow> slot_info \<Rightarrow> nat \<Rightarrow> cell list" where
  "slot_cells kv ub si k = concat (map (\<lambda>s. map (cell_at (kv_v_cells kv ! unq_stream kv ub s)) (si_idxs si ! s)) [0..<k])"

lemma apply_streams_spec:
  assumes inv: "kv_inv kv" and ready: "slot_ready kv" and fits: "slot_fits kv ub k n si"
  shows "wp (foldM (apply_stream ub si n) [0..<k] (kv, \<lambda>_. - 1)) (\<lambda>(kv', mx). placed_streams kv ub n si k kv' \<and> mx_ok kv mx \<and>
    mx = fold mx_note (slot_cells kv ub si k) (\<lambda>_. - 1) \<and> (slot_free kv ub k si \<longrightarrow> mx = (\<lambda>_. - 1)))"
proof -
  let ?P = "\<lambda>j (kv', mx). placed_streams kv ub n si j kv' \<and> mx_ok kv mx \<and> mx = fold mx_note (slot_cells kv ub si j) (\<lambda>_. - 1) \<and> (slot_free kv ub k si \<longrightarrow> mx = (\<lambda>_. - 1))"
  have dist: "unq_stream kv ub s \<noteq> unq_stream kv ub t" if "s < k" "t < k" "s \<noteq> t" for s t
    using fits that by (auto simp: slot_fits_def ub_fits_def distinct_conv_nth)
  have "wp (foldM (apply_stream ub si n) [0..<k] (kv, \<lambda>_. - 1)) (?P k)"
  proof (rule wp_foldM_upt [where P = ?P])
    show "?P 0 (kv, \<lambda>_. - 1)" by (simp add: placed_streams_def mx_ok_def slot_cells_def)
  next
    fix j and x :: "'a kv_cache \<times> (nat \<Rightarrow> int)"
    assume j: "j < k" and P: "?P j x"
    obtain kv' mx where x: "x = (kv', mx)" by (cases x)
    from P x have ps: "placed_streams kv ub n si j kv'" and mx: "mx_ok kv mx" and free: "slot_free kv ub k si \<longrightarrow> mx = (\<lambda>_. - 1)"
      and note_: "mx = fold mx_note (slot_cells kv ub si j) (\<lambda>_. - 1)" by auto
    let ?st = "unq_stream kv ub j"
    have lt: "?st < kv_n_stream kv" using fits j by (auto simp: slot_fits_def ub_fits_def intro: unq_stream_less [OF inv])
    have same: "kv_v_cells kv' ! ?st = kv_v_cells kv ! ?st"
      using ps dist j by (auto simp: placed_streams_def)
    from apply_stream_spec [OF inv ready fits j same mx]
    show "wp (apply_stream ub si n j x) (?P (Suc j))"
      unfolding x
    proof (rule wp_mono, clarify)
      fix c
      assume c: "placed (kv_v_cells kv ! ?st) (si_idxs si ! j) (\<lambda>ii. new_cell ub (j * n + ii)) c" and mx': "mx_ok kv (fold mx_note (map (cell_at (kv_v_cells kv ! ?st)) (si_idxs si ! j)) mx)"
        and e: "(\<forall>i \<in> set (si_idxs si ! j). kc_pos (kv_v_cells kv ! ?st) ! i = - 1) \<longrightarrow> fold mx_note (map (cell_at (kv_v_cells kv ! ?st)) (si_idxs si ! j)) mx = mx"
      have len: "?st < length (kv_v_cells kv')" using ps kv_invD(4) [OF inv lt] by (simp add: placed_streams_def)
      have "placed_streams kv ub n si (Suc j) (put_cells ?st c kv')"
        unfolding placed_streams_def
      proof (intro conjI allI impI)
        show "kv_conf kv (put_cells ?st c kv')" using ps by (auto simp: placed_streams_def intro: kv_conf_trans)
        fix s
        assume "s < Suc j"
        then show "placed (kv_v_cells kv ! unq_stream kv ub s) (si_idxs si ! s) (\<lambda>ii. new_cell ub (s * n + ii)) (kv_v_cells (put_cells ?st c kv') ! unq_stream kv ub s)"
          using c ps len dist [of s j] j by (cases "s = j") (auto simp: placed_streams_def)
      next
        fix t
        assume t: "\<forall>s < Suc j. t \<noteq> unq_stream kv ub s"
        then have "t \<noteq> ?st" "\<forall>s < j. t \<noteq> unq_stream kv ub s" by simp_all
        with ps show "kv_v_cells (put_cells ?st c kv') ! t = kv_v_cells kv ! t" by (simp add: placed_streams_def)
      qed (use ps in \<open>auto simp: placed_streams_def\<close>)
      moreover have "fold mx_note (map (cell_at (kv_v_cells kv ! ?st)) (si_idxs si ! j)) mx = (\<lambda>_. - 1)" if "slot_free kv ub k si"
        using e free that j by (auto simp: slot_free_def)
      moreover have "fold mx_note (map (cell_at (kv_v_cells kv ! ?st)) (si_idxs si ! j)) mx = fold mx_note (slot_cells kv ub si (Suc j)) (\<lambda>_. - 1)" using note_ by (simp add: slot_cells_def)
      ultimately show "placed_streams kv ub n si (Suc j) (put_cells ?st c kv') \<and> mx_ok kv (fold mx_note (map (cell_at (kv_v_cells kv ! ?st)) (si_idxs si ! j)) mx) \<and>
          fold mx_note (map (cell_at (kv_v_cells kv ! ?st)) (si_idxs si ! j)) mx = fold mx_note (slot_cells kv ub si (Suc j)) (\<lambda>_. - 1) \<and> (slot_free kv ub k si \<longrightarrow> fold mx_note (map (cell_at (kv_v_cells kv ! ?st)) (si_idxs si ! j)) mx = (\<lambda>_. - 1))"
        using mx' by blast
    qed
  qed
  then show ?thesis .
qed

lemma placed_legal:
  assumes "placed c idxs x d" and "\<And>i. i < cells_size c \<Longrightarrow> cell_legal m st (cell_at c i)" and "\<And>ii. ii < length idxs \<Longrightarrow> cell_legal m st (x ii)"
    and "i < cells_size c"
  shows "cell_legal m st (cell_at d i)"
proof (cases "i \<in> set idxs")
  case True
  then obtain ii where "ii < length idxs" "idxs ! ii = i" by (auto simp: in_set_conv_nth)
  with assms(1,3) show ?thesis by (auto simp: placed_def)
next
  case False
  with assms show ?thesis by (auto simp: placed_def)
qed

lemma placed_streams_inv:
  assumes inv: "kv_inv kv" and fits: "slot_fits kv ub k n si" and ps: "placed_streams kv ub n si k kv'"
  shows "kv_inv kv'"
proof -
  from ps have conf: "kv_conf kv kv'" and heads: "kv_v_heads kv' = kv_v_heads kv" and len: "length (kv_v_cells kv') = length (kv_v_cells kv)"
    by (auto simp: placed_streams_def)
  note F = kv_confD [OF conf]
  have st: "cells_inv (kv_v_cells kv' ! t) \<and> cells_size (kv_v_cells kv' ! t) = cells_size (kv_v_cells kv ! t) \<and>
      (\<forall>i < cells_size (kv_v_cells kv ! t). cell_legal (kv_n_stream kv) t (cell_at (kv_v_cells kv' ! t) i))" if t: "t < kv_n_stream kv" for t
  proof (cases "\<exists>s < k. t = unq_stream kv ub s")
    case True
    then obtain s where s: "s < k" "t = unq_stream kv ub s" by blast
    with ps have pl: "placed (kv_v_cells kv ! t) (si_idxs si ! s) (\<lambda>ii. new_cell ub (s * n + ii)) (kv_v_cells kv' ! t)"
      by (auto simp: placed_streams_def)
    have tok: "cell_legal (kv_n_stream kv) t (new_cell ub (s * n + ii))" if "ii < length (si_idxs si ! s)" for ii
      using fits s that by (auto simp: slot_fits_def ub_fits_def intro!: new_cell_legal)
    show ?thesis using pl placed_legal [OF pl kv_invD(6) [OF inv t] tok] by (simp add: placed_def)
  next
    case False
    with ps have "kv_v_cells kv' ! t = kv_v_cells kv ! t" by (auto simp: placed_streams_def)
    with kv_invD [OF inv t] show ?thesis by simp
  qed
  have zero: "kv_seq_to_stream kv ! 0 < kv_n_stream kv" using inv max_seq_small(1) by (auto simp: kv_inv_def)
  have gs: "kv_get_size kv' = kv_get_size kv" using st [OF zero] by (simp add: kv_get_size_def F)
  have "stream_inv kv' t" if t: "t < kv_n_stream kv" for t
    using st [OF t] kv_invD(2,3) [OF inv t] gs heads by (simp add: stream_inv_def F)
  with inv len heads show ?thesis by (simp add: kv_inv_def F)
qed

lemma stream_becomes_size:
  assumes inv: "kv_inv kv" and st: "st < kv_n_stream kv" and b: "stream_becomes eff st kv kv'"
  shows "kv_get_size kv' = kv_get_size kv"
proof -
  from b obtain c h where kv': "kv' = put_head st h (put_cells st c kv)" by (auto simp: stream_becomes_def kv_frame_def)
  have "kv_v_cells kv' ! st = c" using kv_invD(4) [OF inv st] by (simp add: kv')
  with b have "cells_size c = cells_size (kv_v_cells kv ! st)" by (simp add: stream_becomes_def cells_mapped_def)
  then show ?thesis by (simp add: kv')
qed

lemma apply_purge_spec:
  assumes inv: "kv_inv kv" and mx: "mx_ok kv mx" and s: "s < LLAMA_MAX_SEQ"
  shows "wp (apply_purge mx s kv) (\<lambda>kv'. kv_inv kv' \<and> kv_conf kv kv' \<and> kv_get_size kv' = kv_get_size kv)"
proof (cases "mx s = - 1")
  case True
  with inv show ?thesis by (simp add: apply_purge_def)
next
  case False
  with mx have m: "0 \<le> mx s" "mx s < int32_max" "s < length (kv_seq_to_stream kv)" by (auto simp: mx_ok_def)
  let ?st = "kv_seq_to_stream kv ! s"
  have st: "?st < kv_n_stream kv" using inv m(3) by (auto simp: kv_inv_def)
  have str: "kv_stream (int s) kv = Some ?st" using m(3) by (simp add: kv_stream_def)
  from cells_seq_pos_minmax(1) [OF kv_invD(1) [OF inv st] s] obtain pmin where
    pmin: "cells_seq_pos_min s (kv_v_cells kv ! ?st) = Some pmin" by blast
  have q: "s32 (mx s + 1) = Some (mx s + 1)" using m by (simp add: s32_def int32_ok_def int32_min_def)
  from kv_seq_rm_spec [OF inv str, of pmin "mx s + 1"] obtain kv' where
    "kv_seq_rm (int s) pmin (mx s + 1) kv = Some (True, kv')" "kv_inv kv'" "kv_conf kv kv'"
      "kv_get_size kv' = kv_get_size kv"
    using stream_becomes_size [OF inv st] by (auto simp: stream_becomes_def intro: kv_frame_conf)
  with False m(3) pmin q inv show ?thesis by (simp add: apply_purge_def)
qed

lemma apply_purges_spec:
  assumes inv: "kv_inv kv" and mx: "mx_ok kv mx"
  shows "wp (foldM (apply_purge mx) [0..<LLAMA_MAX_SEQ] kv) (\<lambda>kv'. kv_inv kv' \<and> kv_conf kv kv' \<and> kv_get_size kv' = kv_get_size kv)"
proof (rule wp_foldM_inv)
  show "kv_inv kv \<and> kv_conf kv kv \<and> kv_get_size kv = kv_get_size kv" using inv by simp
next
  fix s kv'
  assume "s \<in> set [0..<LLAMA_MAX_SEQ]" and kv': "kv_inv kv' \<and> kv_conf kv kv' \<and> kv_get_size kv' = kv_get_size kv"
  then have "wp (apply_purge mx s kv') (\<lambda>kv''. kv_inv kv'' \<and> kv_conf kv' kv'' \<and> kv_get_size kv'' = kv_get_size kv')"
    using mx by (intro apply_purge_spec) (auto simp: mx_ok_def kv_confD)
  with kv' show "wp (apply_purge mx s kv') (\<lambda>kv''. kv_inv kv'' \<and> kv_conf kv kv'' \<and> kv_get_size kv'' = kv_get_size kv)"
    by (auto elim!: wp_mono intro: kv_conf_trans)
qed

lemma apply_heads_spec:
  assumes inv: "kv_inv kv" and "\<And>s. s < k \<Longrightarrow> strm ! s < kv_n_stream kv \<and> idxs ! s \<noteq> [] \<and> (\<forall>i \<in> set (idxs ! s). i < kv_get_size kv)"
    and dist: "\<And>s t. s < k \<Longrightarrow> t < k \<Longrightarrow> s \<noteq> t \<Longrightarrow> strm ! s \<noteq> strm ! t"
  shows "wp (foldM (\<lambda>s kv. do { guard (idxs ! s \<noteq> []); Some (put_head (strm ! s) (last (idxs ! s) + 1) kv) }) [0..<k] kv)
    (\<lambda>kv'. kv_inv kv' \<and> kv_conf kv kv' \<and> kv_v_cells kv' = kv_v_cells kv \<and> (\<forall>t. (\<forall>s < k. t \<noteq> strm ! s) \<longrightarrow> kv_v_heads kv' ! t = kv_v_heads kv ! t) \<and>
      (\<forall>s < k. kv_v_heads kv' ! (strm ! s) = last (idxs ! s) + 1))"
proof -
  let ?P = "\<lambda>j kv'. kv_inv kv' \<and> kv_conf kv kv' \<and> kv_v_cells kv' = kv_v_cells kv \<and> (\<forall>t. (\<forall>s < j. t \<noteq> strm ! s) \<longrightarrow> kv_v_heads kv' ! t = kv_v_heads kv ! t) \<and>
    (\<forall>s < j. kv_v_heads kv' ! (strm ! s) = last (idxs ! s) + 1)"
  show ?thesis
  proof (rule wp_foldM_upt [where P = ?P])
    show "?P 0 kv" using inv by simp
  next
    fix j kv'
    assume j: "j < k" and P: "?P j kv'"
    note H = assms(2) [OF j]
    have st: "strm ! j < kv_n_stream kv'" using H P kv_confD(1) by metis
    have "last (idxs ! j) < kv_get_size kv" using H last_in_set by blast
    moreover have "cells_size (kv_v_cells kv' ! (strm ! j)) = kv_get_size kv"
      using P kv_invD(2) [OF inv, of "strm ! j"] H by simp
    ultimately have le: "last (idxs ! j) + 1 \<le> cells_size (kv_v_cells kv' ! (strm ! j))" by simp
    let ?kv = "put_head (strm ! j) (last (idxs ! j) + 1) kv'"
    have "?P (Suc j) ?kv"
    proof (intro conjI allI impI)
      show "kv_inv ?kv" using kv_inv_head [OF _ st le] P by blast
      show "kv_conf kv ?kv" using P kv_conf_trans kv_conf_put(1) by blast
      show "kv_v_cells ?kv = kv_v_cells kv" using P by simp
    next
      fix t
      assume "\<forall>s < Suc j. t \<noteq> strm ! s"
      then have "t \<noteq> strm ! j" "\<forall>s < j. t \<noteq> strm ! s" by simp_all
      with P show "kv_v_heads ?kv ! t = kv_v_heads kv ! t" by simp
    next
      fix s
      assume s: "s < Suc j"
      have "strm ! j < length (kv_v_heads kv')" using P st by (simp add: kv_inv_def)
      then show "kv_v_heads ?kv ! (strm ! s) = last (idxs ! s) + 1"
        using P s j dist [of s j] by (cases "s = j") auto
    qed
    with H show "wp (do { guard (idxs ! j \<noteq> []); Some (put_head (strm ! j) (last (idxs ! j) + 1) kv') }) (?P (Suc j))"
      by simp
  qed
qed

lemma apply_ubatch_spec:
  assumes inv: "kv_inv kv" and ready: "slot_ready kv" and fits: "slot_fits kv ub k n si"
  shows "wp (apply_ubatch si ub kv) (\<lambda>kv'. kv_inv kv' \<and> kv_conf kv kv' \<and>
    (\<forall>s < k. kv_v_heads kv' ! unq_stream kv ub s = last (si_idxs si ! s) + 1) \<and>
    (slot_free kv ub k si \<longrightarrow>
      (\<forall>s < k. placed (kv_v_cells kv ! unq_stream kv ub s) (si_idxs si ! s) (\<lambda>ii. new_cell ub (s * n + ii)) (kv_v_cells kv' ! unq_stream kv ub s)) \<and>
      (\<forall>t. (\<forall>s < k. t \<noteq> unq_stream kv ub s) \<longrightarrow> kv_v_cells kv' ! t = kv_v_cells kv ! t \<and> kv_v_heads kv' ! t = kv_v_heads kv ! t)))"
proof -
  have ub: "ub_fits kv ub k n" and strm: "si_strm si = map (unq_stream kv ub) [0..<k]" and len: "length (si_idxs si) = k"
    and idxs: "\<And>s. s < k \<Longrightarrow> length (si_idxs si ! s) = n \<and> (\<forall>i \<in> set (si_idxs si ! s). i < cells_size (kv_v_cells kv ! unq_stream kv ub s))"
    using fits by (auto simp: slot_fits_def)
  then have k: "0 < k" "0 < n" "ub_n_tokens ub = k * n" and st: "\<And>s. s < k \<Longrightarrow> unq_stream kv ub s < kv_n_stream kv"
    by (auto simp: ub_fits_def intro: unq_stream_less [OF inv])
  have size: "si_size si = Some n" using len strm k(1) idxs [OF k(1)] by (cases "si_idxs si") (auto simp: si_size_def)
  have ns: "si_n_stream si = k" using strm by (simp add: si_n_stream_def)
  from wpD [OF apply_streams_spec [OF assms]] obtain kv1 mx where
    A: "foldM (apply_stream ub si n) [0..<k] (kv, \<lambda>_. - 1) = Some (kv1, mx)" "placed_streams kv ub n si k kv1" "mx_ok kv mx"
      "slot_free kv ub k si \<longrightarrow> mx = (\<lambda>_. - 1)" by auto
  have conf1: "kv_conf kv kv1" using A(2) by (simp add: placed_streams_def)
  have inv1: "kv_inv kv1" by (rule placed_streams_inv [OF inv fits A(2)])
  have mx1: "mx_ok kv1 mx" using A(3) conf1 by (simp add: mx_ok_def kv_confD)
  from wpD [OF apply_purges_spec [OF inv1 mx1]] obtain kv2 where
    B: "foldM (apply_purge mx) [0..<LLAMA_MAX_SEQ] kv1 = Some kv2" "kv_inv kv2" "kv_conf kv1 kv2" "kv_get_size kv2 = kv_get_size kv1" by blast
  have conf2: "kv_conf kv kv2" using kv_conf_trans [OF conf1 B(3)] .
  have gs1: "kv_get_size kv1 = kv_get_size kv"
  proof -
    have "cells_size (kv_v_cells kv1 ! unq_stream kv ub 0) = cells_size (kv_v_cells kv ! unq_stream kv ub 0)"
      using A(2) k(1) by (auto simp: placed_streams_def placed_def)
    then show ?thesis using kv_invD(2) [OF inv st [OF k(1)]] kv_invD(2) [OF inv1, of "unq_stream kv ub 0"] st [OF k(1)] conf1
      by (simp add: kv_confD)
  qed
  have "wp (foldM (\<lambda>s kv. do { guard (si_idxs si ! s \<noteq> []); Some (put_head (si_strm si ! s) (last (si_idxs si ! s) + 1) kv) }) [0..<k] kv2)
    (\<lambda>kv'. kv_inv kv' \<and> kv_conf kv2 kv' \<and> kv_v_cells kv' = kv_v_cells kv2 \<and>
      (\<forall>t. (\<forall>s < k. t \<noteq> si_strm si ! s) \<longrightarrow> kv_v_heads kv' ! t = kv_v_heads kv2 ! t) \<and>
      (\<forall>s < k. kv_v_heads kv' ! (si_strm si ! s) = last (si_idxs si ! s) + 1))"
  proof (rule apply_heads_spec [OF B(2)])
    fix s t
    assume "s < k" "t < k" "s \<noteq> t"
    then show "si_strm si ! s \<noteq> si_strm si ! t"
      using ub strm by (auto simp: ub_fits_def distinct_conv_nth)
  next
    fix s
    assume s: "s < k"
    have "kv_get_size kv2 = kv_get_size kv" using B(4) gs1 by simp
    then show "si_strm si ! s < kv_n_stream kv2 \<and> si_idxs si ! s \<noteq> [] \<and> (\<forall>i \<in> set (si_idxs si ! s). i < kv_get_size kv2)"
      using idxs [OF s] st [OF s] s k(2) strm kv_invD(2) [OF inv st [OF s]] conf2 by (auto simp: kv_confD)
  qed
  from wpD [OF this] obtain kv3 where
    C: "foldM (\<lambda>s kv. do { guard (si_idxs si ! s \<noteq> []); Some (put_head (si_strm si ! s) (last (si_idxs si ! s) + 1) kv) }) [0..<k] kv2 = Some kv3"
      "kv_inv kv3" "kv_conf kv2 kv3" "kv_v_cells kv3 = kv_v_cells kv2"
      "\<forall>t. (\<forall>s < k. t \<noteq> si_strm si ! s) \<longrightarrow> kv_v_heads kv3 ! t = kv_v_heads kv2 ! t"
      "\<forall>s < k. kv_v_heads kv3 ! (si_strm si ! s) = last (si_idxs si ! s) + 1" by blast
  have "apply_ubatch si ub kv = Some kv3" using size ns k(3) A(1) B(1) C(1) by (simp add: apply_ubatch_def)
  moreover have "kv2 = kv1" if "slot_free kv ub k si"
  proof -
    have "foldM (apply_purge (\<lambda>_. - 1)) xs kv1 = Some kv1" for xs by (induction xs) (simp_all add: apply_purge_def)
    with A(4) B(1) that show ?thesis by simp
  qed
  moreover have "kv_conf kv kv3" using kv_conf_trans [OF conf2 C(3)] .
  moreover have "\<forall>s < k. kv_v_heads kv3 ! unq_stream kv ub s = last (si_idxs si ! s) + 1" using C(6) strm by simp
  moreover have "kv_v_heads kv3 ! t = kv_v_heads kv2 ! t" if "\<forall>s < k. t \<noteq> unq_stream kv ub s" for t using C(5) strm that by simp
  ultimately show ?thesis
    using C(2,4) A(2) by (simp add: placed_streams_def)
qed


section \<open>Preparing a batch\<close>

text \<open>A micro-batch that fits in any state of the cache, with room for a next position.\<close>

definition ub_placeable :: "'d kv_cache \<Rightarrow> 'e llama_ubatch \<Rightarrow> bool" where
  "ub_placeable kv ub \<longleftrightarrow> (\<exists>k n. ub_fits kv ub k n) \<and> (\<forall>i < ub_n_tokens ub. ub_pos ub ! i < int32_max)"

lemma ub_fits_conf: "kv_conf kv kv' \<Longrightarrow> ub_fits kv' ub k n = ub_fits kv ub k n"
  by (simp add: ub_fits_def seq_guard_def token_ok_def unq_stream_def [abs_def] kv_confD)

lemma slot_fits_free:
  assumes inv: "kv_inv kv" and ready: "slot_ready kv" and swa: "kv_swa_type kv = SWA_NONE" and fits: "slot_fits kv ub k n si"
  shows "slot_free kv ub k si"
proof -
  have "kc_pos (kv_v_cells kv ! unq_stream kv ub s) ! i = - 1" if s: "s < k" and i: "i \<in> set (si_idxs si ! s)" for s i
  proof -
    have st: "unq_stream kv ub s < kv_n_stream kv"
      using fits s by (auto simp: slot_fits_def ub_fits_def intro: unq_stream_less [OF inv])
    have "i < cells_size (kv_v_cells kv ! unq_stream kv ub s)" "usable kv (kv_v_cells kv ! unq_stream kv ub s) i"
      using fits s i by (simp_all add: slot_fits_def)
    with usable_no_swa [OF inv st ready _ swa] show ?thesis by simp
  qed
  then show ?thesis by (simp add: slot_free_def)
qed

lemma slot_save_spec:
  assumes "\<And>s. s < k \<Longrightarrow> \<forall>i \<in> set (si_idxs si ! s). i < length (kc_pos (kv_v_cells kv ! (si_strm si ! s))) \<and>
      kc_shift (kv_v_cells kv ! (si_strm si ! s)) ! i = 0"
  shows "wp (foldM (\<lambda>s acc. do {
           c \<leftarrow> cells_cp_idxs (si_idxs si ! s) (kv_v_cells kv ! (si_strm si ! s));
           Some (acc @ [c])
         }) [0..<k] []) (\<lambda>saved. length saved = k \<and>
           (\<forall>s < k. cells_cp_idxs (si_idxs si ! s) (kv_v_cells kv ! (si_strm si ! s)) = Some (saved ! s)))"
proof (rule wp_foldM_upt [where P = "\<lambda>j saved. length saved = j \<and>
    (\<forall>s < j. cells_cp_idxs (si_idxs si ! s) (kv_v_cells kv ! (si_strm si ! s)) = Some (saved ! s))"])
  fix j saved
  assume j: "j < k" and P: "length saved = j \<and> (\<forall>s < j. cells_cp_idxs (si_idxs si ! s) (kv_v_cells kv ! (si_strm si ! s)) = Some (saved ! s))"
  from cells_cp_idxs_spec [of "si_idxs si ! j" "kv_v_cells kv ! (si_strm si ! j)"] assms [OF j] obtain c where
    "cells_cp_idxs (si_idxs si ! j) (kv_v_cells kv ! (si_strm si ! j)) = Some c" by (auto dest: wpD)
  with P show "wp (do { c \<leftarrow> cells_cp_idxs (si_idxs si ! j) (kv_v_cells kv ! (si_strm si ! j)); Some (saved @ [c]) })
    (\<lambda>saved. length saved = Suc j \<and>
      (\<forall>s < Suc j. cells_cp_idxs (si_idxs si ! s) (kv_v_cells kv ! (si_strm si ! s)) = Some (saved ! s)))"
    by (auto simp: nth_append less_Suc_eq)
qed simp

text \<open>Two states of the cache that differ only in the heads.\<close>

definition same_but_heads :: "'d kv_cache \<Rightarrow> 'd kv_cache \<Rightarrow> bool" where
  "same_but_heads kv kv' \<longleftrightarrow> kv' = kv\<lparr>kv_v_heads := kv_v_heads kv'\<rparr> \<and> length (kv_v_heads kv') = length (kv_v_heads kv)"

lemma same_but_heads_refl [simp]: "same_but_heads kv kv"
  by (simp add: same_but_heads_def)

lemma same_but_headsI:
  "kv_conf kv kv' \<Longrightarrow> kv_v_cells kv' = kv_v_cells kv \<Longrightarrow> length (kv_v_heads kv') = length (kv_v_heads kv) \<Longrightarrow> same_but_heads kv kv'"
  by (cases kv, cases kv') (simp add: same_but_heads_def kv_conf_def)

lemma same_but_headsD:
  assumes "same_but_heads kv kv'"
  shows "kv_conf kv kv'" and "kv_v_cells kv' = kv_v_cells kv" and "length (kv_v_heads kv') = length (kv_v_heads kv)"
  using assms by (cases kv, cases kv', simp add: same_but_heads_def kv_conf_def)+

text \<open>Undoing one placement.\<close>

lemma prepare_restore_spec:
  assumes inv: "kv_inv kv" and fits: "slot_fits kv ub k n si" and free: "slot_free kv ub k si"
    and placed: "\<forall>s < k. placed (kv_v_cells kv ! unq_stream kv ub s) (si_idxs si ! s) (\<lambda>ii. new_cell ub (s * n + ii)) (kv_v_cells kv1 ! unq_stream kv ub s)"
    and other: "\<forall>t. (\<forall>s < k. t \<noteq> unq_stream kv ub s) \<longrightarrow> kv_v_cells kv1 ! t = kv_v_cells kv ! t"
    and conf: "kv_conf kv kv1" and len: "length (kv_v_cells kv1) = length (kv_v_cells kv)"
    and heads: "length (kv_v_heads kv1) = length (kv_v_heads kv)" "k \<le> length (kv_v_heads kv)"
    and saved: "\<forall>s < k. cells_cp_idxs (si_idxs si ! s) (kv_v_cells kv ! (si_strm si ! s)) = Some (saved ! s)"
  shows "wp (prepare_restore_one \<lparr>ps_sinfo = si, ps_v_heads_old = kv_v_heads kv, ps_v_cells = saved\<rparr> kv1)
    (\<lambda>kv2. same_but_heads kv kv2 \<and> (\<forall>s < k. kv_v_heads kv2 ! unq_stream kv ub s = kv_v_heads kv ! s))"
proof -
  let ?st = "unq_stream kv ub"
  have strm: "si_strm si ! s = ?st s" and st: "?st s < kv_n_stream kv" and nstr: "si_n_stream si = k" if "s < k" for s
    using fits that by (auto simp: slot_fits_def ub_fits_def si_n_stream_def intro: unq_stream_less [OF inv])
  have k: "0 < k" using fits by (auto simp: slot_fits_def ub_fits_def)
  have dist: "?st s \<noteq> ?st t" if "s < k" "t < k" "s \<noteq> t" for s t
    using fits that by (auto simp: slot_fits_def ub_fits_def distinct_conv_nth)
  let ?P = "\<lambda>j kv2. kv_conf kv kv2 \<and> length (kv_v_heads kv2) = length (kv_v_heads kv) \<and> length (kv_v_cells kv2) = length (kv_v_cells kv) \<and>
    (\<forall>s < j. kv_v_cells kv2 ! ?st s = kv_v_cells kv ! ?st s \<and> kv_v_heads kv2 ! ?st s = kv_v_heads kv ! s) \<and>
    (\<forall>t. (\<forall>s < j. t \<noteq> ?st s) \<longrightarrow> kv_v_cells kv2 ! t = kv_v_cells kv1 ! t)"
  have restore: "cells_set_idxs (si_idxs si ! s) (saved ! s) (kv_v_cells kv1 ! ?st s) = Some (kv_v_cells kv ! ?st s)" if s: "s < k" for s
  proof -
    let ?c = "kv_v_cells kv ! ?st s" and ?d = "kv_v_cells kv1 ! ?st s"
    note C = kv_invD(1) [OF inv st [OF s]]
    have pl: "placed ?c (si_idxs si ! s) (\<lambda>ii. new_cell ub (s * n + ii)) ?d" using placed s by blast
    have size: "length (kc_pos ?c) = cells_size ?c" "length (kc_pos ?d) = cells_size ?c" using pl by (simp_all add: placed_def cells_size_def)
    have idx: "i < cells_size ?c" "kc_pos ?c ! i = - 1" if "i \<in> set (si_idxs si ! s)" for i
      using that fits free s by (auto simp: slot_fits_def slot_free_def)
    have "kc_shift ?d ! i = 0" if "i \<in> set (si_idxs si ! s)" for i
    proof -
      from that obtain ii where "ii < length (si_idxs si ! s)" "si_idxs si ! s ! ii = i" by (auto simp: in_set_conv_nth)
      with pl have "cell_at ?d i = new_cell ub (s * n + ii)" by (auto simp: placed_def)
      then show ?thesis by (simp add: cell_at_def new_cell_def)
    qed
    with idx cell_atD(3) [OF C] size
    have sh: "\<forall>i \<in> set (si_idxs si ! s). i < length (kc_pos ?c) \<and> kc_shift ?c ! i = 0 \<and> kc_shift ?d ! i = 0" by auto
    have "\<exists>x. cells_cp_idxs (si_idxs si ! s) ?c = Some x \<and> cells_set_idxs (si_idxs si ! s) x ?d = Some ?c"
    proof (rule cells_restore [OF C _ _ _ sh])
      show "\<forall>i < length (kc_pos ?c). i \<notin> set (si_idxs si ! s) \<longrightarrow> cells_same_at ?d ?c i"
        using pl size by (auto simp: placed_def cells_same_at_def cell_at_def)
    qed (use pl size in \<open>auto simp: placed_def\<close>)
    with saved s strm show ?thesis by auto
  qed
  have "wp (prepare_restore_one \<lparr>ps_sinfo = si, ps_v_heads_old = kv_v_heads kv, ps_v_cells = saved\<rparr> kv1) (?P k)"
    unfolding prepare_restore_one_def Let_def prep_state.select_convs nstr [OF k]
  proof (rule wp_foldM_upt [where P = ?P])
    show "?P 0 kv1" using conf heads(1) len by simp
  next
    fix j kv2
    assume j: "j < k" and P: "?P j kv2"
    have at: "kv_v_cells kv2 ! ?st j = kv_v_cells kv1 ! ?st j" using P dist j by auto
    let ?kv = "put_head (?st j) (kv_v_heads kv ! j) (put_cells (?st j) (kv_v_cells kv ! ?st j) kv2)"
    have lt: "?st j < length (kv_v_cells kv2)" "?st j < length (kv_v_heads kv2)" using P st [OF j] inv by (auto simp: kv_inv_def)
    have "?P (Suc j) ?kv"
    proof (intro conjI allI impI)
      show "kv_conf kv ?kv" using P kv_conf_trans kv_conf_put by blast
      fix s
      assume s: "s < Suc j"
      show "kv_v_cells ?kv ! ?st s = kv_v_cells kv ! ?st s" using s P lt dist [of s j] j by (cases "s = j") auto
      show "kv_v_heads ?kv ! ?st s = kv_v_heads kv ! s" using s P lt dist [of s j] j by (cases "s = j") auto
    next
      fix t
      assume "\<forall>s < Suc j. t \<noteq> ?st s"
      then have "t \<noteq> ?st j" "\<forall>s < j. t \<noteq> ?st s" by simp_all
      with P show "kv_v_cells ?kv ! t = kv_v_cells kv1 ! t" by simp
    qed (use P in simp_all)
    moreover have "j < length (kv_v_heads kv)" using j heads(2) by simp
    ultimately show "wp (do {
         c \<leftarrow> cells_set_idxs (si_idxs si ! j) (saved ! j) (kv_v_cells kv2 ! (si_strm si ! j));
         guard (j < length (kv_v_heads kv));
         Some (put_head (si_strm si ! j) (kv_v_heads kv ! j) (put_cells (si_strm si ! j) c kv2))
       }) (?P (Suc j))"
      by (simp only: strm [OF j] at restore [OF j]) simp
  qed
  then show ?thesis
  proof (rule wp_mono)
    fix kv2
    assume P: "?P k kv2"
    have "kv_v_cells kv2 = kv_v_cells kv"
    proof (rule nth_equalityI)
      fix t
      assume "t < length (kv_v_cells kv2)"
      show "kv_v_cells kv2 ! t = kv_v_cells kv ! t"
      proof (cases "\<exists>s < k. t = ?st s")
        case False
        with P other show ?thesis by simp
      qed (use P in blast)
    qed (use P in simp)
    with P show "same_but_heads kv kv2 \<and> (\<forall>s < k. kv_v_heads kv2 ! ?st s = kv_v_heads kv ! s)"
      by (auto intro: same_but_headsI)
  qed
qed


text \<open>One round of the first loop, and what undoes it.\<close>

lemma slot_ready_step:
  assumes ready: "slot_ready kv" and conf: "kv_conf kv kv1"
    and placed: "\<forall>s < k. placed (kv_v_cells kv ! unq_stream kv ub s) (si_idxs si ! s) (\<lambda>ii. new_cell ub (s * n + ii)) (kv_v_cells kv1 ! unq_stream kv ub s)"
    and other: "\<forall>t. (\<forall>s < k. t \<noteq> unq_stream kv ub s) \<longrightarrow> kv_v_cells kv1 ! t = kv_v_cells kv ! t"
    and pos: "\<And>s ii. s < k \<Longrightarrow> ii < length (si_idxs si ! s) \<Longrightarrow> ub_pos ub ! (s * n + ii) < int32_max"
  shows "slot_ready kv1"
proof -
  have "kc_pos (kv_v_cells kv1 ! t) ! i < int32_max" if t: "t < kv_n_stream kv" and i: "i < cells_size (kv_v_cells kv1 ! t)" for t i
  proof (cases "\<exists>s < k. t = unq_stream kv ub s")
    case False
    with other ready t i show ?thesis by (auto simp: slot_ready_def)
  next
    case True
    then obtain s where s: "s < k" "t = unq_stream kv ub s" by blast
    with placed have pl: "placed (kv_v_cells kv ! t) (si_idxs si ! s) (\<lambda>ii. new_cell ub (s * n + ii)) (kv_v_cells kv1 ! t)" by blast
    show ?thesis
    proof (cases "i \<in> set (si_idxs si ! s)")
      case True
      then obtain ii where ii: "ii < length (si_idxs si ! s)" "si_idxs si ! s ! ii = i" by (auto simp: in_set_conv_nth)
      with pl have "cell_at (kv_v_cells kv1 ! t) i = new_cell ub (s * n + ii)" by (auto simp: placed_def)
      with pos [OF s(1) ii(1)] show ?thesis by (simp add: cell_at_def new_cell_def)
    next
      case False
      with pl i have "cell_at (kv_v_cells kv1 ! t) i = cell_at (kv_v_cells kv ! t) i" by (simp add: placed_def)
      with ready t i pl show ?thesis by (simp add: cell_at_def slot_ready_def placed_def)
    qed
  qed
  with ready conf show ?thesis by (auto simp: slot_ready_def kv_confD)
qed

definition undoes :: "prep_state \<Rightarrow> 'd kv_cache \<Rightarrow> 'd kv_cache \<Rightarrow> bool" where
  "undoes ps kv kv1 \<longleftrightarrow> (\<forall>kv2. same_but_heads kv1 kv2 \<longrightarrow>
     wp (prepare_restore_one ps kv2) (\<lambda>kv3. same_but_heads kv kv3 \<and> (kv_n_stream kv = 1 \<longrightarrow> kv3 = kv) \<and>
       (\<forall>s < si_n_stream (ps_sinfo ps). kv_v_heads kv3 ! (si_strm (ps_sinfo ps) ! s) = kv_v_heads kv ! s)))"

lemma undoesD:
  assumes "undoes ps kv kv1" and "same_but_heads kv1 kv2"
  obtains kv3 where "prepare_restore_one ps kv2 = Some kv3" "same_but_heads kv kv3" "kv_n_stream kv = 1 \<longrightarrow> kv3 = kv"
    "\<forall>s < si_n_stream (ps_sinfo ps). kv_v_heads kv3 ! (si_strm (ps_sinfo ps) ! s) = kv_v_heads kv ! s"
proof -
  from assms have "wp (prepare_restore_one ps kv2) (\<lambda>kv3. same_but_heads kv kv3 \<and> (kv_n_stream kv = 1 \<longrightarrow> kv3 = kv) \<and>
       (\<forall>s < si_n_stream (ps_sinfo ps). kv_v_heads kv3 ! (si_strm (ps_sinfo ps) ! s) = kv_v_heads kv ! s))"
    by (simp add: undoes_def)
  from wpD [OF this] that show thesis by blast
qed

lemma prepare_round:
  assumes inv: "kv_inv kv" and ready: "slot_ready kv" and swa: "kv_swa_type kv = SWA_NONE" and ub: "ub_placeable kv ub"
  obtains (full) si where "find_slot ub False kv = Some si" "si_empty si"
  | (slot) si saved kv1 where "find_slot ub False kv = Some si" "\<not> si_empty si"
      "foldM (\<lambda>s acc. do { c \<leftarrow> cells_cp_idxs (si_idxs si ! s) (kv_v_cells kv ! (si_strm si ! s)); Some (acc @ [c]) }) [0..<si_n_stream si] [] = Some saved"
      "apply_ubatch si ub kv = Some kv1" "kv_inv kv1" "slot_ready kv1" "kv_conf kv kv1"
      "undoes \<lparr>ps_sinfo = si, ps_v_heads_old = kv_v_heads kv, ps_v_cells = saved\<rparr> kv kv1"
proof -
  from ub obtain k n where fits: "ub_fits kv ub k n" and pos: "\<forall>i < ub_n_tokens ub. ub_pos ub ! i < int32_max"
    by (auto simp: ub_placeable_def)
  from find_slot_fits [OF inv ready fits] obtain si where si: "find_slot ub False kv = Some si" "si_empty si \<or> slot_fits kv ub k n si" by blast
  show thesis
  proof (cases "si_empty si")
    case True
    with si(1) show thesis by (rule full)
  next
    case False
    with si have sf: "slot_fits kv ub k n si" by simp
    have free: "slot_free kv ub k si" by (rule slot_fits_free [OF inv ready swa sf])
    have nstr: "si_n_stream si = k" using sf by (simp add: slot_fits_def si_n_stream_def)
    have st: "si_strm si ! s = unq_stream kv ub s" "unq_stream kv ub s < kv_n_stream kv" if "s < k" for s
      using sf that by (auto simp: slot_fits_def ub_fits_def intro: unq_stream_less [OF inv])
    have idx: "i < length (kc_pos (kv_v_cells kv ! (si_strm si ! s))) \<and> kc_shift (kv_v_cells kv ! (si_strm si ! s)) ! i = 0"
      if s: "s < k" and i: "i \<in> set (si_idxs si ! s)" for s i
    proof -
      have "i < cells_size (kv_v_cells kv ! unq_stream kv ub s)" "kc_pos (kv_v_cells kv ! unq_stream kv ub s) ! i = - 1"
        using sf free s i by (simp_all add: slot_fits_def slot_free_def)
      with cell_atD [OF kv_invD(1) [OF inv st(2) [OF s]]] st(1) [OF s] show ?thesis by simp
    qed
    from wpD [OF slot_save_spec [of k si kv]] idx obtain saved where
      saved: "foldM (\<lambda>s acc. do { c \<leftarrow> cells_cp_idxs (si_idxs si ! s) (kv_v_cells kv ! (si_strm si ! s)); Some (acc @ [c]) }) [0..<k] [] = Some saved"
        "\<forall>s < k. cells_cp_idxs (si_idxs si ! s) (kv_v_cells kv ! (si_strm si ! s)) = Some (saved ! s)" by blast
    from wpD [OF apply_ubatch_spec [OF inv ready sf]] free obtain kv1 where
      kv1: "apply_ubatch si ub kv = Some kv1" "kv_inv kv1" "kv_conf kv kv1"
        "\<forall>s < k. placed (kv_v_cells kv ! unq_stream kv ub s) (si_idxs si ! s) (\<lambda>ii. new_cell ub (s * n + ii)) (kv_v_cells kv1 ! unq_stream kv ub s)"
        "\<forall>t. (\<forall>s < k. t \<noteq> unq_stream kv ub s) \<longrightarrow> kv_v_cells kv1 ! t = kv_v_cells kv ! t" by blast
    have "slot_ready kv1"
    proof (rule slot_ready_step [OF ready kv1(3-5)])
      fix s ii
      assume s: "s < k" and ii: "ii < length (si_idxs si ! s)"
      have "length (si_idxs si ! s) = n" "ub_n_tokens ub = k * n" using sf s by (auto simp: slot_fits_def ub_fits_def)
      then have "s * n + ii < ub_n_tokens ub"
        using s ii by (metis add.commute add_less_cancel_left less_le_trans mult_Suc mult_le_mono1 Suc_leI)
      with pos show "ub_pos ub ! (s * n + ii) < int32_max" by blast
    qed
    moreover have "undoes \<lparr>ps_sinfo = si, ps_v_heads_old = kv_v_heads kv, ps_v_cells = saved\<rparr> kv kv1"
      unfolding undoes_def
    proof (intro allI impI)
      fix kv2
      assume s2: "same_but_heads kv1 kv2"
      note S = same_but_headsD [OF s2]
      have n1: "kv_n_stream kv1 = kv_n_stream kv" using kv1(3) by (simp add: kv_confD)
      have len: "length (kv_v_cells kv2) = length (kv_v_cells kv)" "length (kv_v_heads kv2) = length (kv_v_heads kv)"
        using S kv1(2) inv n1 by (simp_all add: kv_inv_def)
      have kn: "k \<le> length (kv_v_heads kv)"
      proof -
        have "card (set (map (unq_stream kv ub) [0..<k])) = k" using fits by (metis distinct_card length_map length_upt minus_nat.diff_0 ub_fits_def)
        moreover have "set (map (unq_stream kv ub) [0..<k]) \<subseteq> {..<kv_n_stream kv}" using st(2) by auto
        ultimately show ?thesis using inv by (metis card_lessThan card_mono finite_lessThan kv_inv_def)
      qed
      have one: "k = 1 \<and> unq_stream kv ub 0 = 0" if "kv_n_stream kv = 1" using that fits st(2) [of 0] by (auto simp: ub_fits_def)
      have "wp (prepare_restore_one \<lparr>ps_sinfo = si, ps_v_heads_old = kv_v_heads kv, ps_v_cells = saved\<rparr> kv2)
          (\<lambda>kv3. same_but_heads kv kv3 \<and> (\<forall>s < k. kv_v_heads kv3 ! unq_stream kv ub s = kv_v_heads kv ! s))"
        using kv1(4,5) S(2) len kn by (intro prepare_restore_spec [OF inv sf free _ _ kv_conf_trans [OF kv1(3) S(1)] _ _ _ saved(2)]) simp_all
      then show "wp (prepare_restore_one \<lparr>ps_sinfo = si, ps_v_heads_old = kv_v_heads kv, ps_v_cells = saved\<rparr> kv2)
          (\<lambda>kv3. same_but_heads kv kv3 \<and> (kv_n_stream kv = 1 \<longrightarrow> kv3 = kv) \<and>
            (\<forall>s < si_n_stream (ps_sinfo \<lparr>ps_sinfo = si, ps_v_heads_old = kv_v_heads kv, ps_v_cells = saved\<rparr>).
              kv_v_heads kv3 ! (si_strm (ps_sinfo \<lparr>ps_sinfo = si, ps_v_heads_old = kv_v_heads kv, ps_v_cells = saved\<rparr>) ! s) = kv_v_heads kv ! s))"
        unfolding prep_state.select_convs nstr
      proof (rule wp_mono, intro conjI impI allI)
        fix kv3
        assume r: "same_but_heads kv kv3 \<and> (\<forall>s < k. kv_v_heads kv3 ! unq_stream kv ub s = kv_v_heads kv ! s)"
        then show "same_but_heads kv kv3" by blast
        show "kv_v_heads kv3 ! (si_strm si ! s) = kv_v_heads kv ! s" if "s < k" for s using r st(1) [OF that] that by simp
        assume n: "kv_n_stream kv = 1"
        have "kv_v_heads kv3 ! 0 = kv_v_heads kv ! 0" "length (kv_v_heads kv3) = 1" "length (kv_v_heads kv) = 1"
          using r one [OF n] inv n by (auto simp: same_but_heads_def kv_inv_def)
        then have "kv_v_heads kv3 = kv_v_heads kv" by (intro nth_equalityI) auto
        with r show "kv3 = kv" by (simp add: same_but_heads_def)
      qed
    qed
    ultimately show thesis
      using slot [OF si(1) False _ kv1(1,2) _ kv1(3), of saved] saved(1) nstr by simp
  qed
qed

text \<open>The first loop with the stack that undoes it.\<close>

lemma prepare_place_spec:
  assumes "kv_inv kv" and "slot_ready kv" and "kv_swa_type kv = SWA_NONE" and "\<forall>ub \<in> set ubs. ub_placeable kv ub"
  shows "\<exists>ok res' new kv'. prepare_place ubs res states kv = Some (ok, res', new @ states, kv') \<and>
    (ok \<longrightarrow> length res' = length res + length ubs \<and> length new = length ubs) \<and>
    (\<forall>kv2. same_but_heads kv' kv2 \<longrightarrow>
      wp (foldM prepare_restore_one new kv2) (\<lambda>kv3. same_but_heads kv kv3 \<and> (kv_n_stream kv = 1 \<and> kv2 = kv' \<longrightarrow> kv3 = kv)))"
  using assms
proof (induction ubs arbitrary: kv res states)
  case Nil
  show ?case by (intro exI [where x = True] exI [where x = res] exI [where x = "[]"] exI [where x = kv]) simp
next
  case (Cons ub ubs)
  have "ub_placeable kv ub" using Cons.prems(4) by simp
  with Cons.prems(1-3) show ?case
  proof (cases rule: prepare_round)
    case (full si)
    then show ?thesis by (intro exI [where x = False] exI [where x = res] exI [where x = "[]"] exI [where x = kv]) simp
  next
    case (slot si saved kv1)
    let ?ps = "\<lparr>ps_sinfo = si, ps_v_heads_old = kv_v_heads kv, ps_v_cells = saved\<rparr>"
    have "kv_swa_type kv1 = SWA_NONE" "\<forall>ub \<in> set ubs. ub_placeable kv1 ub"
      using Cons.prems(3,4) slot(7) by (simp_all add: kv_confD ub_placeable_def ub_fits_conf)
    from Cons.IH [OF slot(5,6) this, of "res @ [si]" "?ps # states"] obtain ok res' new kv' where
      IH: "prepare_place ubs (res @ [si]) (?ps # states) kv1 = Some (ok, res', new @ ?ps # states, kv')"
        "ok \<longrightarrow> length res' = length (res @ [si]) + length ubs \<and> length new = length ubs"
        "\<forall>kv2. same_but_heads kv' kv2 \<longrightarrow>
          wp (foldM prepare_restore_one new kv2) (\<lambda>kv3. same_but_heads kv1 kv3 \<and> (kv_n_stream kv1 = 1 \<and> kv2 = kv' \<longrightarrow> kv3 = kv1))" by blast
    have "prepare_place (ub # ubs) res states kv = Some (ok, res', (new @ [?ps]) @ states, kv')"
      using slot(1-4) IH(1) by simp
    moreover have "wp (foldM prepare_restore_one (new @ [?ps]) kv2) (\<lambda>kv3. same_but_heads kv kv3 \<and> (kv_n_stream kv = 1 \<and> kv2 = kv' \<longrightarrow> kv3 = kv))"
      if s2: "same_but_heads kv' kv2" for kv2
    proof -
      from wpD [OF IH(3) [rule_format, OF s2]] obtain kv3 where
        kv3: "foldM prepare_restore_one new kv2 = Some kv3" "same_but_heads kv1 kv3" by blast
      from slot(8) kv3(2) obtain kv4 where "prepare_restore_one ?ps kv3 = Some kv4" "same_but_heads kv kv4" "kv_n_stream kv = 1 \<longrightarrow> kv4 = kv"
        by (rule undoesD)
      with kv3(1) show ?thesis by (simp add: foldM_append)
    qed
    moreover have "ok \<longrightarrow> length res' = length res + length (ub # ubs) \<and> length (new @ [?ps]) = length (ub # ubs)" using IH(2) by simp
    ultimately show ?thesis by blast
  qed
qed

lemma prepare_spec:
  assumes "kv_inv kv" and "slot_ready kv" and "kv_swa_type kv = SWA_NONE" and "\<forall>ub \<in> set ubs. ub_placeable kv ub" and "ubs \<noteq> []"
  shows "\<exists>sinfos kv'. prepare ubs kv = Some (sinfos, kv') \<and> (sinfos = [] \<or> length sinfos = length ubs) \<and>
    same_but_heads kv kv' \<and> (kv_n_stream kv = 1 \<longrightarrow> kv' = kv)"
proof -
  from prepare_place_spec [OF assms(1-4), of "[]" "[]"] obtain ok res' new kv1 where
    Q: "prepare_place ubs [] [] kv = Some (ok, res', new @ [], kv1)" "ok \<longrightarrow> length res' = length ([]::slot_info list) + length ubs \<and> length new = length ubs"
      "\<forall>kv2. same_but_heads kv1 kv2 \<longrightarrow>
        wp (foldM prepare_restore_one new kv2) (\<lambda>kv3. same_but_heads kv kv3 \<and> (kv_n_stream kv = 1 \<and> kv2 = kv1 \<longrightarrow> kv3 = kv))" by blast
  have P: "prepare_place ubs [] [] kv = Some (ok, res', new, kv1)" "ok \<longrightarrow> length res' = length ubs \<and> length new = length ubs"
      "wp (foldM prepare_restore_one new kv1) (\<lambda>kv3. same_but_heads kv kv3 \<and> (kv_n_stream kv = 1 \<longrightarrow> kv3 = kv))"
    using Q(1,2) Q(3) [rule_format, of kv1] by simp_all
  from wpD [OF P(3)] obtain kv3 where
    kv3: "foldM prepare_restore_one new kv1 = Some kv3" "same_but_heads kv kv3" "kv_n_stream kv = 1 \<longrightarrow> kv3 = kv" by blast
  have "new \<noteq> [] \<or> \<not> ok" using P(2) assms(5) by auto
  then have "prepare ubs kv = Some (if ok then res' else [], kv3)" using P(1) kv3(1) by (auto simp: prepare_def)
  with kv3 P(2) show ?thesis by auto
qed

section \<open>Properties\<close>

text \<open>A micro-batch of one token of sequence 2, and a cache of three streams.\<close>

definition demo_ub :: "unit llama_ubatch" where
  "demo_ub = ubatch_empty\<lparr>ub_n_tokens := 1, ub_n_seq_tokens := 1, ub_n_seqs := 1, ub_n_seqs_unq := 1, ub_token := Some [5],
     ub_pos := [8], ub_n_seq_id := [1], ub_seq_id := [[2]], ub_seq_id_unq := [2]\<rparr>"

lemma demo_ub_fits: "ub_fits demo_kv demo_ub 1 1" "ub_fits demo_kv2 demo_ub 1 1"
  using max_seq_small by (auto simp: ub_fits_def demo_ub_def demo_kv_def demo_kv2_def seq_guard_def token_ok_def tok_seqs_def unq_stream_def
      int32_max_def LLAMA_MAX_SEQ_def)

lemma demo_ready: "slot_ready demo_kv" "slot_ready demo_kv2"
  by (auto simp: slot_ready_def demo_kv_def demo_kv2_def demo_cells_def cells_size_def less_Suc_eq numeral_3_eq_3 cells_resize_new int32_max_def)

lemma demo_placeable: "ub_placeable demo_kv demo_ub" "ub_placeable demo_kv2 demo_ub"
  using demo_ub_fits by (auto simp: ub_placeable_def demo_ub_def int32_max_def)

lemma demo_slot: "\<exists>s0 s1. find_slot demo_ub False demo_kv2 = Some \<lparr>si_s0 = s0, si_s1 = s1, si_strm = [2], si_idxs = [[1]]\<rparr>"
proof -
  have "find_slot_seq demo_kv2 False 1 2 = Some (Some [1])"
    by (simp add: find_slot_seq_def demo_kv2_def demo_cells_def cells_size_def cells_get_used_def can_use_def cells_is_empty_def eval_nat_numeral Let_def)
  then show ?thesis
    using find_slot_total [OF demo_kv2_inv demo_ub_fits(2), of False "\<lambda>_. Some [1]"] by (simp add: unq_stream_def demo_ub_def demo_kv2_def)
qed

text \<open>C3: the slot search without continuity returns, for every stream of the micro-batch, the
  first \<open>n\<close> usable cells in ring order from the stream's head (from 0 when the head is far
  beyond the used cells), and reports no slot exactly when some stream has fewer than \<open>n\<close> usable
  cells. It always returns: its fuel is enough.\<close>

theorem find_slot_first_usable:
  assumes "kv_inv kv" and "slot_ready kv" and "ub_fits kv ub k n"
  shows "\<exists>s0 s1. find_slot ub False kv =
    Some (if \<exists>s < k. length (filter (usable kv (kv_v_cells kv ! unq_stream kv ub s)) [0..<kv_get_size kv]) < n then slot_none
      else \<lparr>si_s0 = s0, si_s1 = s1, si_strm = map (unq_stream kv ub) [0..<k],
        si_idxs = map (\<lambda>s. take n (filter (usable kv (kv_v_cells kv ! unq_stream kv ub s))
          (ring (slot_head kv n (unq_stream kv ub s)) (kv_get_size kv)))) [0..<k]\<rparr>)"
proof -
  let ?st = "unq_stream kv ub"
  let ?u = "\<lambda>s. usable kv (kv_v_cells kv ! ?st s)"
  let ?r = "\<lambda>s. ring_pick (?u s) (slot_head kv n (?st s)) (kv_get_size kv) n"
  have st: "?st s < kv_n_stream kv" if "s < k" for s using assms(3) that by (auto simp: ub_fits_def intro: unq_stream_less [OF assms(1)])
  have n: "0 < n" using assms(3) by (simp add: ub_fits_def)
  have pick: "find_slot_seq kv False n (?st s) = Some (?r s)" if "s < k" for s
    using find_slot_seq_ring [OF assms(1) st [OF that] assms(2) n] kv_invD(2) [OF assms(1) st [OF that]] by simp
  have len: "length (filter (?u s) (ring (slot_head kv n (?st s)) (kv_get_size kv))) = length (filter (?u s) [0..<kv_get_size kv])" if "s < k" for s
  proof -
    have h: "slot_head kv n (?st s) \<le> kv_get_size kv"
      using slot_head_le [OF assms(1) st [OF that]] kv_invD(2) [OF assms(1) st [OF that]] by simp
    have "set (filter (?u s) (ring (slot_head kv n (?st s)) (kv_get_size kv))) = set (filter (?u s) [0..<kv_get_size kv])"
      using ring_set [OF h] by auto
    then show ?thesis by (metis distinct_card distinct_filter distinct_upt ring_distinct)
  qed
  have none: "?r s = None \<longleftrightarrow> length (filter (?u s) [0..<kv_get_size kv]) < n" if "s < k" for s
    using len [OF that] by (simp add: ring_pick_def Let_def not_le)
  have some: "(the \<circ> ?r) s = take n (filter (?u s) (ring (slot_head kv n (?st s)) (kv_get_size kv)))"
    if "s < k" "\<not> length (filter (?u s) [0..<kv_get_size kv]) < n" for s
    using len [OF that(1)] that(2) by (simp add: ring_pick_def Let_def)
  from find_slot_total [OF assms(1,3) pick] obtain s0 s1 where
    F: "find_slot ub False kv = Some (if \<exists>s < k. ?r s = None then slot_none
      else \<lparr>si_s0 = s0, si_s1 = s1, si_strm = map ?st [0..<k], si_idxs = map (the \<circ> ?r) [0..<k]\<rparr>)" by blast
  have ex: "(\<exists>s < k. ?r s = None) \<longleftrightarrow> (\<exists>s < k. length (filter (?u s) [0..<kv_get_size kv]) < n)" using none by blast
  have idxs: "map (the \<circ> ?r) [0..<k] = map (\<lambda>s. take n (filter (?u s) (ring (slot_head kv n (?st s)) (kv_get_size kv)))) [0..<k]"
    if "\<not> (\<exists>s < k. length (filter (?u s) [0..<kv_get_size kv]) < n)"
  proof (rule map_cong [OF refl])
    fix s
    assume "s \<in> set [0..<k]"
    with that show "(the \<circ> ?r) s = take n (filter (?u s) (ring (slot_head kv n (?st s)) (kv_get_size kv)))" by (intro some) auto
  qed
  show ?thesis using F unfolding ex using idxs by (cases "\<exists>s < k. length (filter (?u s) [0..<kv_get_size kv]) < n") auto
qed

lemma demo_kv2_eval: "unq_stream demo_kv2 demo_ub 0 = 2" "kv_get_size demo_kv2 = 2" "slot_head demo_kv2 1 2 = 1" "kv_v_cells demo_kv2 ! 2 = demo_cells"
    "usable demo_kv2 demo_cells 0 = False" "usable demo_kv2 demo_cells 1 = True"
  using usable_no_swa [OF demo_kv2_inv, of 2 0] usable_no_swa [OF demo_kv2_inv, of 2 1] demo_ready(2)
  by (simp_all add: unq_stream_def demo_kv2_def demo_ub_def kv_get_size_def cells_resize_new cells_size_def slot_head_def cells_get_used_def demo_cells_def)

lemma demo_ring: "[0..<2] = [0, Suc 0]" "ring (Suc 0) 2 = [Suc 0, 0]"
  by (simp_all add: ring_def numeral_2_eq_2)

theorem find_slot_first_usable_witness:
  "\<exists>s0 s1. find_slot demo_ub False demo_kv2 = Some \<lparr>si_s0 = s0, si_s1 = s1, si_strm = [2], si_idxs = [[1]]\<rparr>"
  using find_slot_first_usable [OF demo_kv2_inv demo_ready(2) demo_ub_fits(2)]
  by (simp add: demo_kv2_eval [simplified] demo_ring)

text \<open>The continuous slot search always returns; it reports no slot exactly when some stream has
  no run of \<open>n\<close> adjacent usable cells, and otherwise gives each stream such a run.\<close>

theorem find_slot_continuous:
  assumes "kv_inv kv" and "slot_ready kv" and "ub_fits kv ub k n"
  shows "\<exists>si. find_slot ub True kv = Some si \<and>
    (if \<exists>s < k. \<forall>x. \<not> run_at (usable kv (kv_v_cells kv ! unq_stream kv ub s)) (kv_get_size kv) n x then si_empty si
     else si_strm si = map (unq_stream kv ub) [0..<k] \<and> length (si_idxs si) = k \<and>
       (\<forall>s < k. \<exists>x. run_at (usable kv (kv_v_cells kv ! unq_stream kv ub s)) (kv_get_size kv) n x \<and> si_idxs si ! s = [x..<x + n]))"
proof -
  let ?st = "unq_stream kv ub"
  let ?run = "\<lambda>s. run_at (usable kv (kv_v_cells kv ! ?st s)) (kv_get_size kv) n"
  let ?ok = "\<lambda>s r. find_slot_seq kv True n (?st s) = Some r \<and> (case r of None \<Rightarrow> \<forall>x. \<not> ?run s x | Some idxs \<Rightarrow> \<exists>x. ?run s x \<and> idxs = [x..<x + n])"
  have st: "?st s < kv_n_stream kv" if "s < k" for s using assms(3) that by (auto simp: ub_fits_def intro: unq_stream_less [OF assms(1)])
  have n: "0 < n" "0 < k" using assms(3) by (simp_all add: ub_fits_def)
  have ok: "\<exists>r. ?ok s r" if "s < k" for s
    using find_slot_seq_run [OF assms(1) st [OF that] assms(2) n(1)] unfolding kv_invD(2) [OF assms(1) st [OF that]] .
  define r where "r = (\<lambda>s. SOME r. ?ok s r)"
  have r: "?ok s (r s)" if "s < k" for s using someI_ex [OF ok [OF that]] by (simp only: r_def)
  from find_slot_total [OF assms(1,3), of True r] r obtain s0 s1 where
    F: "find_slot ub True kv = Some (if \<exists>s < k. r s = None then slot_none
      else \<lparr>si_s0 = s0, si_s1 = s1, si_strm = map ?st [0..<k], si_idxs = map (the \<circ> r) [0..<k]\<rparr>)" by blast
  have none: "r s = None \<longleftrightarrow> (\<forall>x. \<not> ?run s x)" if "s < k" for s using r [OF that] by (auto split: option.splits)
  show ?thesis
  proof (cases "\<exists>s < k. r s = None")
    case True
    with F none show ?thesis by (auto simp: si_empty_def slot_none_def)
  next
    case False
    have each: "\<exists>x. ?run s x \<and> the (r s) = [x..<x + n]" if "s < k" for s using r [OF that] False that by (auto split: option.splits)
    have "\<not> (\<exists>s < k. \<forall>x. \<not> ?run s x)" using False none by blast
    then show ?thesis unfolding if_not_P [OF \<open>\<not> (\<exists>s < k. \<forall>x. \<not> ?run s x)\<close>] using each F False by simp
  qed
qed

theorem find_slot_continuous_witness:
  "\<exists>si. find_slot demo_ub True demo_kv2 = Some si \<and> si_strm si = [2] \<and> si_idxs si = [[1]]"
proof -
  have run: "run_at (usable demo_kv2 demo_cells) 2 1 x \<longleftrightarrow> x = 1" for x
    using demo_kv2_eval(5,6) by (auto simp: run_at_def less_Suc_eq numeral_2_eq_2 le_Suc_eq)
  from find_slot_continuous [OF demo_kv2_inv demo_ready(2) demo_ub_fits(2)] obtain si where
    "find_slot demo_ub True demo_kv2 = Some si" "si_strm si = [2]" "length (si_idxs si) = 1" "si_idxs si ! 0 = [1]"
    by (auto simp: demo_kv2_eval run [simplified])
  then show ?thesis by (intro exI [where x = si]) (auto simp: length_Suc_conv)
qed

definition demo_si :: slot_info where
  "demo_si = \<lparr>si_s0 = 2, si_s1 = 2, si_strm = [2], si_idxs = [[1]]\<rparr>"

lemma demo_si_fits: "slot_fits demo_kv2 demo_ub 1 1 demo_si" "slot_free demo_kv2 demo_ub 1 demo_si"
  using demo_ub_fits(2) unfolding slot_fits_def slot_free_def
  by (auto simp: demo_si_def unq_stream_def demo_ub_def demo_kv2_def demo_cells_def cells_size_def usable_def can_use_def cells_is_empty_def)

text \<open>C11: without a sliding window, preparing a batch never aborts and leaves every cell of the cache,
  with all its indexes, exactly as it was, whether all micro-batches found a slot or not; with one
  stream the whole cache is unchanged. With a window it is not: placing purges cells that are not restored
  (\<^verbatim>\<open>prepare_window_purges\<close> of \<^verbatim>\<open>KvPurge\<close>).\<close>

theorem prepare_restores:
  assumes "kv_inv kv" and "slot_ready kv" and "kv_swa_type kv = SWA_NONE" and "\<forall>ub \<in> set ubs. ub_placeable kv ub" and "ubs \<noteq> []"
  shows "\<exists>sinfos kv'. prepare ubs kv = Some (sinfos, kv') \<and> (sinfos = [] \<or> length sinfos = length ubs) \<and>
    kv_v_cells kv' = kv_v_cells kv \<and> kv_conf kv kv' \<and> (kv_n_stream kv = 1 \<longrightarrow> kv' = kv)"
  using prepare_spec [OF assms] by (auto dest: same_but_headsD)

theorem prepare_restores_witness:
  "\<exists>sinfos kv'. prepare [demo_ub] demo_kv = Some (sinfos, kv') \<and> kv' = demo_kv"
  using prepare_restores [OF demo_kv_inv demo_ready(1), of "[demo_ub]"] demo_placeable(1) by (auto simp: demo_kv_def)

text \<open>With several streams the heads are not restored: after preparing one micro-batch the head of
  the stream of its sequence number \<open>s\<close> is the old head of stream \<open>s\<close>, not its own.\<close>

theorem prepare_heads:
  assumes "kv_inv kv" and "slot_ready kv" and "kv_swa_type kv = SWA_NONE" and "ub_placeable kv ub"
    and "find_slot ub False kv = Some si" and "\<not> si_empty si"
  shows "\<exists>kv'. prepare [ub] kv = Some ([si], kv') \<and> kv_v_cells kv' = kv_v_cells kv \<and>
    (\<forall>s < si_n_stream si. kv_v_heads kv' ! (si_strm si ! s) = kv_v_heads kv ! s)"
  using assms(1-4)
proof (cases rule: prepare_round)
  case (slot si' saved kv1)
  with assms(5) have [simp]: "si' = si" by simp
  from slot(8) same_but_heads_refl obtain kv3 where
    "prepare_restore_one \<lparr>ps_sinfo = si, ps_v_heads_old = kv_v_heads kv, ps_v_cells = saved\<rparr> kv1 = Some kv3" "same_but_heads kv kv3"
    "\<forall>s < si_n_stream si. kv_v_heads kv3 ! (si_strm si ! s) = kv_v_heads kv ! s"
    by (rule undoesD) simp
  then show ?thesis using slot(1-4) by (auto simp: prepare_def dest: same_but_headsD)
qed (use assms in auto)

theorem prepare_heads_witness:
  "\<exists>si kv'. kv_v_heads demo_kv2 = [0, 0, 1] \<and> prepare [demo_ub] demo_kv2 = Some ([si], kv') \<and> kv_v_heads kv' ! 2 = 0"
proof -
  from demo_slot obtain si where si: "find_slot demo_ub False demo_kv2 = Some si" "si_strm si = [2]" "si_idxs si = [[1]]" by auto
  have swa: "kv_swa_type demo_kv2 = SWA_NONE" by (simp add: demo_kv2_def)
  from prepare_heads [OF demo_kv2_inv demo_ready(2) swa demo_placeable(2) si(1)] si(2,3)
  show ?thesis by (auto simp: si_empty_def si_n_stream_def demo_kv2_def)
qed

end
