(* ===== verification/KvPurge.thy ===== *)
theory KvPurge
  imports KvPlace
begin

text \<open>
  The exact effect of \<^verbatim>\<open>apply_ubatch\<close> (\<^verbatim>\<open>src/src/llama-kv-cache.cpp\<close>), the purge included: with a sliding window a
  slot may name cells in use, and every sequence that lost a position there also loses its older positions, in
  every cell of the cache.
\<close>

section \<open>Purging\<close>

text \<open>The positions that a sequence loses in the cells of the slot.\<close>

definition lost :: "'d kv_cache \<Rightarrow> 'e llama_ubatch \<Rightarrow> nat \<Rightarrow> slot_info \<Rightarrow> nat \<Rightarrow> int set" where
  "lost kv ub k si q = fst ` {x \<in> set (slot_cells kv ub si k). fst x \<noteq> - 1 \<and> snd (snd x) = {q}}"

text \<open>A cell without the sequences that lost its position or a later one; without any sequence it is free.\<close>

definition purge_cell :: "(nat \<Rightarrow> int set) \<Rightarrow> cell \<Rightarrow> cell" where
  "purge_cell W x = (let D = {q \<in> snd (snd x). \<exists>w \<in> W q. fst x \<le> w} in
     if D = {} then x else if D = snd (snd x) then cell_free else (fst x, fst (snd x), snd (snd x) - D))"

lemma purge_cell_none: "(\<And>q. W q = {}) \<Longrightarrow> purge_cell W x = x"
  by (simp add: purge_cell_def)

lemma notes_less: "fold mx_note xs mx q < p \<longleftrightarrow> mx q < p \<and> (\<forall>x \<in> set xs. fst x \<noteq> - 1 \<longrightarrow> snd (snd x) = {q} \<longrightarrow> fst x < p)"
  by (induction xs arbitrary: mx) (auto simp: mx_note_def)

lemma slot_cells_lost: "fold mx_note (slot_cells kv ub si k) (\<lambda>_. - 1) q < p \<longleftrightarrow> - 1 < p \<and> (\<forall>w \<in> lost kv ub k si q. w < p)"
  unfolding notes_less lost_def by blast

text \<open>One step of the purge, on one cell.\<close>

lemma purge_cell_Suc:
  assumes mx: "\<And>p. mx q < p \<longleftrightarrow> - 1 < p \<and> (\<forall>w \<in> W q. w < p)" and "- 1 \<le> fst x" "fst x = - 1 \<Longrightarrow> snd (snd x) = {}"
  shows "rm_eff q 0 (mx q + 1) (purge_cell (\<lambda>r. if r < q then W r else {}) x) = purge_cell (\<lambda>r. if r < Suc q then W r else {}) x"
proof -
  obtain p sh S where x: "x = (p, sh, S)" by (cases x)
  define D where "D = {r \<in> S. \<exists>w \<in> (if r < q then W r else {}). p \<le> w}"
  have p: "S \<noteq> {} \<Longrightarrow> 0 \<le> p" using assms(2,3) x by force
  have hit: "0 \<le> p \<Longrightarrow> p < mx q + 1 \<longleftrightarrow> (\<exists>w \<in> W q. p \<le> w)" using mx [of p] by (auto simp: not_less zless_add1_eq le_less)
  have D': "{r \<in> S. \<exists>w \<in> (if r < Suc q then W r else {}). p \<le> w} = (if q \<in> S \<and> (\<exists>w \<in> W q. p \<le> w) then insert q D else D)"
    unfolding D_def by (auto simp: less_Suc_eq split: if_splits)
  have q: "q \<notin> D" "D \<subseteq> S" by (auto simp: D_def)
  have L: "purge_cell (\<lambda>r. if r < q then W r else {}) x = (if D = {} then x else if D = S then cell_free else (p, sh, S - D))"
    unfolding purge_cell_def x Let_def fst_conv snd_conv D_def ..
  have R: "purge_cell (\<lambda>r. if r < Suc q then W r else {}) x = (if D' = {} then x else if D' = S then cell_free else (p, sh, S - D'))"
    if "D' = (if q \<in> S \<and> (\<exists>w \<in> W q. p \<le> w) then insert q D else D)" for D'
    unfolding that D' [symmetric] purge_cell_def x Let_def fst_conv snd_conv ..
  show ?thesis
  proof (cases "q \<in> S \<and> (\<exists>w \<in> W q. p \<le> w)")
    case False
    have "rm_eff q 0 (mx q + 1) y = y" if "y = x \<or> y = cell_free \<or> y = (p, sh, S - D)" for y
      using that False p hit x by (auto simp: rm_eff_def cell_hit_def cell_free_def)
    then show ?thesis using R [of D] False unfolding L by simp
  next
    case True
    with p hit have h: "0 \<le> p" "p < mx q + 1" by auto
    have "D \<noteq> S" using True q by blast
    then have "purge_cell (\<lambda>r. if r < q then W r else {}) x = (p, sh, S - D)" unfolding L using x by simp
    moreover have "rm_eff q 0 (mx q + 1) (p, sh, S - D) = (if S - D = {q} then cell_free else (p, sh, S - D - {q}))"
      using True h q by (simp add: rm_eff_def cell_hit_def)
    moreover have "purge_cell (\<lambda>r. if r < Suc q then W r else {}) x = (if insert q D = S then cell_free else (p, sh, S - insert q D))"
      using True R [of "insert q D"] by simp
    moreover have "S - D = {q} \<longleftrightarrow> insert q D = S" "S - D - {q} = S - insert q D" using True q by blast+
    ultimately show ?thesis by simp
  qed
qed

section \<open>The purge of a cache\<close>

text \<open>A sequence has its cells in its own stream.\<close>

lemma other_stream_lacks:
  assumes inv: "kv_inv kv" and s: "s < length (kv_seq_to_stream kv)" and t: "t < kv_n_stream kv" "t \<noteq> kv_seq_to_stream kv ! s" "i < kv_get_size kv"
  shows "s \<notin> kc_seq (kv_v_cells kv ! t) ! i"
proof
  assume "s \<in> kc_seq (kv_v_cells kv ! t) ! i"
  moreover have "cell_legal (kv_n_stream kv) t (cell_at (kv_v_cells kv ! t) i)" using kv_invD(2,6) [OF inv t(1)] t(3) by simp
  ultimately have "1 < kv_n_stream kv \<Longrightarrow> s = t" by (auto simp: cell_legal_def cell_at_def)
  then show False using inv s t(1,2) by (cases "kv_n_stream kv = 1") (auto simp: kv_inv_def)
qed

lemma apply_purge_cells:
  assumes inv: "kv_inv kv" and mx: "mx_ok kv mx" and s: "s < LLAMA_MAX_SEQ"
  shows "wp (apply_purge mx s kv) (\<lambda>kv'. kv_inv kv' \<and> kv_conf kv kv' \<and> kv_get_size kv' = kv_get_size kv \<and>
    (\<forall>t < kv_n_stream kv. \<forall>i < kv_get_size kv. cell_at (kv_v_cells kv' ! t) i = rm_eff s 0 (mx s + 1) (cell_at (kv_v_cells kv ! t) i)) \<and>
    (\<forall>t. (mx s \<noteq> - 1 \<longrightarrow> t \<noteq> kv_seq_to_stream kv ! s) \<longrightarrow> kv_v_cells kv' ! t = kv_v_cells kv ! t \<and> kv_v_heads kv' ! t = kv_v_heads kv ! t))"
proof (cases "mx s = - 1")
  case True
  then have "rm_eff s 0 (mx s + 1) x = x" for x by (auto simp: rm_eff_def cell_hit_def)
  with True inv show ?thesis by (simp add: apply_purge_def)
next
  case False
  with mx have m: "0 \<le> mx s" "mx s < int32_max" "s < length (kv_seq_to_stream kv)" by (auto simp: mx_ok_def)
  let ?st = "kv_seq_to_stream kv ! s"
  let ?c = "kv_v_cells kv ! ?st"
  have st: "?st < kv_n_stream kv" using inv m(3) by (auto simp: kv_inv_def)
  have str: "kv_stream (int s) kv = Some ?st" using m(3) by (simp add: kv_stream_def)
  note C = kv_invD(1,2) [OF inv st]
  define pmin where "pmin = (if seq_positions s ?c = {} then - 1 else Min (seq_positions s ?c))"
  have p: "cells_seq_pos_min s ?c = Some pmin" using cells_seq_pos_minmax(1) [OF C(1) s] by (simp add: pmin_def)
  have lo: "range_lo pmin \<le> kc_pos ?c ! i" if "i < kv_get_size kv" "s \<in> kc_seq ?c ! i" for i
  proof -
    have i: "i < cells_size ?c" using that C(2) by simp
    with that have "kc_pos ?c ! i \<in> seq_positions s ?c" by (auto simp: seq_positions_def cells_size_def)
    then have "pmin \<le> kc_pos ?c ! i" by (auto simp: pmin_def)
    with cell_atD(2,4) [OF C(1) i] that(2) show ?thesis by (force simp: range_lo_def)
  qed
  have eff: "rm_eff s (range_lo pmin) (mx s + 1) (cell_at ?c i) = rm_eff s 0 (mx s + 1) (cell_at ?c i)" if "i < kv_get_size kv" for i
    using lo [OF that] by (auto simp: rm_eff_def cell_hit_def cell_at_def range_lo_def split: if_splits)
  have other: "rm_eff s 0 (mx s + 1) (cell_at (kv_v_cells kv ! t) i) = cell_at (kv_v_cells kv ! t) i"
    if "t < kv_n_stream kv" "t \<noteq> ?st" "i < kv_get_size kv" for t i
    using other_stream_lacks [OF inv m(3) that] by (simp add: rm_eff_def cell_hit_def cell_at_def)
  have q: "s32 (mx s + 1) = Some (mx s + 1)" using m by (simp add: s32_def int32_ok_def int32_min_def)
  show ?thesis
  proof (cases "pmin \<le> mx s")
    case True
    from kv_seq_rm_spec [OF inv str, of pmin "mx s + 1"] obtain kv' where
      rm: "kv_seq_rm (int s) pmin (mx s + 1) kv = Some (True, kv')" "stream_becomes (rm_eff s (range_lo pmin) (range_hi (mx s + 1))) ?st kv kv'" by auto
    have hi: "range_hi (mx s + 1) = mx s + 1" using m(1) by (simp add: range_hi_def)
    from rm(2) obtain c h where F: "kv_inv kv'" "kv' = put_head ?st h (put_cells ?st c kv)"
      and M: "cells_mapped (rm_eff s (range_lo pmin) (mx s + 1)) ?c (kv_v_cells kv' ! ?st)" by (auto simp: stream_becomes_def kv_frame_def hi)
    have gs: "kv_get_size kv' = kv_get_size kv" by (rule stream_becomes_size [OF inv st rm(2)])
    have frame: "kv_v_cells kv' ! t = kv_v_cells kv ! t \<and> kv_v_heads kv' ! t = kv_v_heads kv ! t" if "t \<noteq> ?st" for t
      using that by (simp add: F(2))
    have "cell_at (kv_v_cells kv' ! t) i = rm_eff s 0 (mx s + 1) (cell_at (kv_v_cells kv ! t) i)"
      if "t < kv_n_stream kv" "i < kv_get_size kv" for t i
      using M eff [OF that(2)] C(2) that(2) frame [of t] other [OF that(1) _ that(2)] by (cases "t = ?st") (simp_all add: cells_mapped_def)
    moreover have "kv_conf kv kv'" by (rule kv_frame_conf) (auto simp: kv_frame_def F(2))
    moreover have "apply_purge mx s kv = Some kv'" using False m(3) p q rm(1) True by (simp add: apply_purge_def)
    ultimately show ?thesis using F(1) gs frame False by simp
  next
    case np: False
    have "rm_eff s 0 (mx s + 1) (cell_at ?c i) = cell_at ?c i" if "i < kv_get_size kv" for i
    proof (cases "s \<in> kc_seq ?c ! i")
      case True
      with lo [OF that] np m(1) have "mx s < kc_pos ?c ! i" by (auto simp: range_lo_def split: if_splits)
      then show ?thesis by (simp add: rm_eff_def cell_hit_def cell_at_def)
    qed (simp add: rm_eff_def cell_hit_def cell_at_def)
    with other have "rm_eff s 0 (mx s + 1) (cell_at (kv_v_cells kv ! t) i) = cell_at (kv_v_cells kv ! t) i"
      if "t < kv_n_stream kv" "i < kv_get_size kv" for t i using that by (cases "t = ?st") simp_all
    moreover have "apply_purge mx s kv = Some kv" using False m(3) p np by (simp add: apply_purge_def)
    ultimately show ?thesis using inv by simp
  qed
qed

text \<open>All sequences in turn: the positions lost decide alone.\<close>

lemma apply_purges_cells:
  assumes inv: "kv_inv kv" and mx: "mx_ok kv mx" and W: "\<And>q p. mx q < p \<longleftrightarrow> - 1 < p \<and> (\<forall>w \<in> W q. w < p)"
  shows "wp (foldM (apply_purge mx) [0..<LLAMA_MAX_SEQ] kv) (\<lambda>kv'. kv_inv kv' \<and> kv_conf kv kv' \<and> kv_get_size kv' = kv_get_size kv \<and>
    (\<forall>t < kv_n_stream kv. \<forall>i < kv_get_size kv. cell_at (kv_v_cells kv' ! t) i = purge_cell W (cell_at (kv_v_cells kv ! t) i)) \<and>
    (\<forall>t. (\<forall>q. mx q \<noteq> - 1 \<longrightarrow> t \<noteq> kv_seq_to_stream kv ! q) \<longrightarrow> kv_v_cells kv' ! t = kv_v_cells kv ! t \<and> kv_v_heads kv' ! t = kv_v_heads kv ! t))"
proof -
  let ?W = "\<lambda>j r. if r < j then W r else {}"
  let ?P = "\<lambda>j kv'. kv_inv kv' \<and> kv_conf kv kv' \<and> kv_get_size kv' = kv_get_size kv \<and>
    (\<forall>t < kv_n_stream kv. \<forall>i < kv_get_size kv. cell_at (kv_v_cells kv' ! t) i = purge_cell (?W j) (cell_at (kv_v_cells kv ! t) i)) \<and>
    (\<forall>t. (\<forall>q. mx q \<noteq> - 1 \<longrightarrow> t \<noteq> kv_seq_to_stream kv ! q) \<longrightarrow> kv_v_cells kv' ! t = kv_v_cells kv ! t \<and> kv_v_heads kv' ! t = kv_v_heads kv ! t)"
  have "wp (foldM (apply_purge mx) [0..<LLAMA_MAX_SEQ] kv) (?P LLAMA_MAX_SEQ)"
  proof (rule wp_foldM_upt [where P = ?P])
    show "?P 0 kv" using inv by (simp add: purge_cell_none)
  next
    fix j kv'
    assume j: "j < LLAMA_MAX_SEQ" and P: "?P j kv'"
    have K: "kv_n_stream kv' = kv_n_stream kv" "kv_seq_to_stream kv' = kv_seq_to_stream kv" "mx_ok kv' mx"
      using P mx kv_confD(1,2) [of kv kv'] by (auto simp: mx_ok_def)
    have step: "rm_eff j 0 (mx j + 1) (purge_cell (?W j) (cell_at (kv_v_cells kv ! t) i)) = purge_cell (?W (Suc j)) (cell_at (kv_v_cells kv ! t) i)"
      if t: "t < kv_n_stream kv" and i: "i < kv_get_size kv" for t i
    proof (rule purge_cell_Suc [OF W])
      have i': "i < cells_size (kv_v_cells kv ! t)" using kv_invD(2) [OF inv t] i by simp
      from cell_atD(2,3) [OF kv_invD(1) [OF inv t] i']
      show "- 1 \<le> fst (cell_at (kv_v_cells kv ! t) i)" "fst (cell_at (kv_v_cells kv ! t) i) = - 1 \<Longrightarrow> snd (snd (cell_at (kv_v_cells kv ! t) i)) = {}" by simp_all
    qed
    from P have "kv_inv kv'" by blast
    from apply_purge_cells [OF this K(3) j] show "wp (apply_purge mx j kv') (?P (Suc j))"
      by (rule wp_mono) (use P step in \<open>auto simp: K intro: kv_conf_trans\<close>)
  qed
  moreover have "purge_cell (?W LLAMA_MAX_SEQ) (cell_at (kv_v_cells kv ! t) i) = purge_cell W (cell_at (kv_v_cells kv ! t) i)"
    if t: "t < kv_n_stream kv" and i: "i < kv_get_size kv" for t i
  proof -
    have i': "i < cells_size (kv_v_cells kv ! t)" using kv_invD(2) [OF inv t] i by simp
    have "{q \<in> kc_seq (kv_v_cells kv ! t) ! i. \<exists>w \<in> ?W LLAMA_MAX_SEQ q. kc_pos (kv_v_cells kv ! t) ! i \<le> w}
        = {q \<in> kc_seq (kv_v_cells kv ! t) ! i. \<exists>w \<in> W q. kc_pos (kv_v_cells kv ! t) ! i \<le> w}"
      using cell_atD(4) [OF kv_invD(1) [OF inv t] i'] by auto
    then show ?thesis unfolding purge_cell_def by simp
  qed
  ultimately show ?thesis by (elim wp_mono) simp
qed


section \<open>Applying a micro-batch\<close>

lemma put_heads_same:
  assumes "foldM (\<lambda>s kv. do { guard (P s); Some (put_head (f s) (g s) kv) }) ss kv = Some kv'"
  shows "kv_v_cells kv' = kv_v_cells kv \<and> kv_seq_to_stream kv' = kv_seq_to_stream kv \<and> (\<forall>t. (\<forall>s \<in> set ss. t \<noteq> f s) \<longrightarrow> kv_v_heads kv' ! t = kv_v_heads kv ! t)"
  using assms
proof (induction ss arbitrary: kv)
  case (Cons s ss)
  then have "foldM (\<lambda>s kv. do { guard (P s); Some (put_head (f s) (g s) kv) }) ss (put_head (f s) (g s) kv) = Some kv'"
    by (cases "P s") simp_all
  from Cons.IH [OF this] show ?case by simp
qed simp

text \<open>The three loops of \<^verbatim>\<open>apply_ubatch\<close>.\<close>

lemma apply_ubatch_loops:
  assumes inv: "kv_inv kv" and ready: "slot_ready kv" and fits: "slot_fits kv ub k n si" and ap: "apply_ubatch si ub kv = Some kv'"
  obtains kv1 mx kv2 where "placed_streams kv ub n si k kv1" "mx_ok kv mx" "mx = fold mx_note (slot_cells kv ub si k) (\<lambda>_. - 1)"
    "foldM (apply_purge mx) [0..<LLAMA_MAX_SEQ] kv1 = Some kv2"
    "foldM (\<lambda>s kv. do { guard (si_idxs si ! s \<noteq> []); Some (put_head (si_strm si ! s) (last (si_idxs si ! s) + 1) kv) }) [0..<k] kv2 = Some kv'"
proof -
  have F: "si_strm si = map (unq_stream kv ub) [0..<k]" "length (si_idxs si) = k" "0 < k" "length (si_idxs si ! 0) = n"
    using fits by (simp_all add: slot_fits_def ub_fits_def)
  have ns: "si_n_stream si = k" "si_size si = Some n" using F by (simp_all add: si_n_stream_def) (cases "si_idxs si"; auto simp: si_size_def)
  from wpD [OF apply_streams_spec [OF inv ready fits]] obtain kv1 mx where
    A: "foldM (apply_stream ub si n) [0..<k] (kv, \<lambda>_. - 1) = Some (kv1, mx)" "placed_streams kv ub n si k kv1" "mx_ok kv mx"
      "mx = fold mx_note (slot_cells kv ub si k) (\<lambda>_. - 1)" by auto
  from ap ns A(1) obtain kv2 where "foldM (apply_purge mx) [0..<LLAMA_MAX_SEQ] kv1 = Some kv2"
    "foldM (\<lambda>s kv. do { guard (si_idxs si ! s \<noteq> []); Some (put_head (si_strm si ! s) (last (si_idxs si ! s) + 1) kv) }) [0..<k] kv2 = Some kv'"
    by (auto simp: apply_ubatch_def guard_def split: Option.bind_splits if_splits)
  with A(2-4) that show ?thesis by blast
qed

lemma slot_idx_less:
  assumes inv: "kv_inv kv" and fits: "slot_fits kv ub k n si" and s: "s < k" "i \<in> set (si_idxs si ! s)"
  shows "i < kv_get_size kv"
proof -
  have st: "unq_stream kv ub s < kv_n_stream kv" using fits s(1) by (auto simp: slot_fits_def ub_fits_def intro: unq_stream_less [OF inv])
  have "i < cells_size (kv_v_cells kv ! unq_stream kv ub s)" using fits s by (auto simp: slot_fits_def)
  then show ?thesis using kv_invD(2) [OF inv st] by simp
qed

text \<open>A sequence that loses a position has its cells in a stream of the slot.\<close>

lemma lost_stream:
  assumes inv: "kv_inv kv" and fits: "slot_fits kv ub k n si" and w: "w \<in> lost kv ub k si q" and q: "q < length (kv_seq_to_stream kv)"
  shows "\<exists>s < k. kv_seq_to_stream kv ! q = unq_stream kv ub s"
proof -
  from w obtain s i where s: "s < k" "i \<in> set (si_idxs si ! s)" "kc_seq (kv_v_cells kv ! unq_stream kv ub s) ! i = {q}"
    by (auto simp: lost_def slot_cells_def cell_at_def)
  have st: "unq_stream kv ub s < kv_n_stream kv" using fits s(1) by (auto simp: slot_fits_def ub_fits_def intro: unq_stream_less [OF inv])
  note slot_idx_less [OF inv fits s(1,2)]
  with other_stream_lacks [OF inv q st] s show ?thesis by fastforce
qed

lemma slot_free_lost: "slot_free kv ub k si \<Longrightarrow> lost kv ub k si q = {}"
  by (auto simp: slot_free_def lost_def slot_cells_def cell_at_def)

lemma apply_ubatch_exact:
  assumes "kv_inv kv" and "slot_ready kv" and "slot_fits kv ub k n si"
  shows "\<exists>kv'. apply_ubatch si ub kv = Some kv' \<and> kv_inv kv' \<and> kv_conf kv kv' \<and> kv_get_size kv' = kv_get_size kv \<and>
    (\<forall>s < k. kv_v_heads kv' ! unq_stream kv ub s = last (si_idxs si ! s) + 1 \<and>
      (\<forall>ii < n. cell_at (kv_v_cells kv' ! unq_stream kv ub s) (si_idxs si ! s ! ii) = purge_cell (lost kv ub k si) (new_cell ub (s * n + ii))) \<and>
      (\<forall>i < kv_get_size kv. i \<notin> set (si_idxs si ! s) \<longrightarrow>
        cell_at (kv_v_cells kv' ! unq_stream kv ub s) i = purge_cell (lost kv ub k si) (cell_at (kv_v_cells kv ! unq_stream kv ub s) i))) \<and>
    (\<forall>t. (\<forall>s < k. t \<noteq> unq_stream kv ub s) \<longrightarrow> kv_v_cells kv' ! t = kv_v_cells kv ! t \<and> kv_v_heads kv' ! t = kv_v_heads kv ! t) \<and>
    (slot_free kv ub k si \<longrightarrow> (\<forall>q. lost kv ub k si q = {}))"
proof -
  from wpD [OF apply_ubatch_spec [OF assms]] obtain kv' where
    K: "apply_ubatch si ub kv = Some kv'" "kv_inv kv'" "kv_conf kv kv'" "\<forall>s < k. kv_v_heads kv' ! unq_stream kv ub s = last (si_idxs si ! s) + 1" by blast
  from apply_ubatch_loops [OF assms K(1)] obtain kv1 mx kv2 where
    P: "placed_streams kv ub n si k kv1" and mx: "mx_ok kv mx" "mx = fold mx_note (slot_cells kv ub si k) (\<lambda>_. - 1)"
    and L: "foldM (apply_purge mx) [0..<LLAMA_MAX_SEQ] kv1 = Some kv2"
      "foldM (\<lambda>s kv. do { guard (si_idxs si ! s \<noteq> []); Some (put_head (si_strm si ! s) (last (si_idxs si ! s) + 1) kv) }) [0..<k] kv2 = Some kv'" by blast
  let ?st = "unq_stream kv ub" and ?W = "lost kv ub k si"
  note H = put_heads_same [OF L(2)]
  have conf1: "kv_conf kv kv1" using P by (simp add: placed_streams_def)
  have inv1: "kv_inv kv1" by (rule placed_streams_inv [OF assms(1,3) P])
  note F = kv_confD [OF conf1]
  have mx1: "mx_ok kv1 mx" using mx(1) by (simp add: mx_ok_def F)
  have k: "?st s < kv_n_stream kv" "length (si_idxs si ! s) = n" "si_strm si ! s = ?st s" if "s < k" for s
    using assms(3) that by (auto simp: slot_fits_def ub_fits_def intro: unq_stream_less [OF assms(1)])
  have "0 < k" using assms(3) by (simp add: slot_fits_def ub_fits_def)
  have pl: "placed (kv_v_cells kv ! ?st s) (si_idxs si ! s) (\<lambda>ii. new_cell ub (s * n + ii)) (kv_v_cells kv1 ! ?st s)" if "s < k" for s
    using P that by (simp add: placed_streams_def)
  have gs: "kv_get_size kv1 = kv_get_size kv"
    using pl [OF \<open>0 < k\<close>] kv_invD(2) [OF assms(1) k(1)] kv_invD(2) [OF inv1, of "?st 0"] k(1) \<open>0 < k\<close> by (simp add: placed_def F)
  have W: "mx q < p \<longleftrightarrow> - 1 < p \<and> (\<forall>w \<in> ?W q. w < p)" for q p unfolding mx(2) by (rule slot_cells_lost)
  from wp_SomeD [OF apply_purges_cells [OF inv1 mx1 W] L(1)]
  have purged: "\<And>t i. t < kv_n_stream kv \<Longrightarrow> i < kv_get_size kv \<Longrightarrow> cell_at (kv_v_cells kv2 ! t) i = purge_cell ?W (cell_at (kv_v_cells kv1 ! t) i)"
    and frame: "\<And>t. (\<forall>q. mx q \<noteq> - 1 \<longrightarrow> t \<noteq> kv_seq_to_stream kv1 ! q) \<Longrightarrow> kv_v_cells kv2 ! t = kv_v_cells kv1 ! t \<and> kv_v_heads kv2 ! t = kv_v_heads kv1 ! t"
    and "kv_get_size kv2 = kv_get_size kv" by (simp_all add: F gs)
  then have gs': "kv_get_size kv' = kv_get_size kv" using H by (simp add: kv_get_size_def)
  have cells: "cell_at (kv_v_cells kv' ! ?st s) i = purge_cell ?W (cell_at (kv_v_cells kv1 ! ?st s) i)" if "s < k" "i < kv_get_size kv" for s i
    using purged [OF k(1) [OF that(1)] that(2)] H by simp
  have other: "kv_v_cells kv' ! t = kv_v_cells kv ! t \<and> kv_v_heads kv' ! t = kv_v_heads kv ! t" if t: "\<forall>s < k. t \<noteq> ?st s" for t
  proof -
    have "t \<noteq> kv_seq_to_stream kv1 ! q" if q: "mx q \<noteq> - 1" for q
    proof -
      have m: "0 \<le> mx q" "q < length (kv_seq_to_stream kv)" using mx(1) q by (auto simp: mx_ok_def)
      with W [of q 0] obtain w where "w \<in> ?W q" by auto
      from lost_stream [OF assms(1,3) this m(2)] t show ?thesis by (auto simp: F)
    qed
    then have "kv_v_cells kv2 ! t = kv_v_cells kv1 ! t \<and> kv_v_heads kv2 ! t = kv_v_heads kv1 ! t" by (intro frame) blast
    moreover have "kv_v_heads kv' ! t = kv_v_heads kv2 ! t" using H t k(3) by simp
    ultimately show ?thesis using P H t by (simp add: placed_streams_def)
  qed
  have new: "cell_at (kv_v_cells kv' ! ?st s) (si_idxs si ! s ! ii) = purge_cell ?W (new_cell ub (s * n + ii))" if "s < k" "ii < n" for s ii
  proof -
    have "si_idxs si ! s ! ii < kv_get_size kv" using that k(2) [OF that(1)] by (intro slot_idx_less [OF assms(1,3) that(1)]) simp
    then show ?thesis using cells [OF that(1)] pl [OF that(1)] that(2) k(2) [OF that(1)] by (simp add: placed_def)
  qed
  have old: "cell_at (kv_v_cells kv' ! ?st s) i = purge_cell ?W (cell_at (kv_v_cells kv ! ?st s) i)"
    if "s < k" "i < kv_get_size kv" "i \<notin> set (si_idxs si ! s)" for s i
    using cells [OF that(1,2)] pl [OF that(1)] that(2,3) kv_invD(2) [OF assms(1) k(1) [OF that(1)]] by (simp add: placed_def)
  have "slot_free kv ub k si \<longrightarrow> (\<forall>q. ?W q = {})" using slot_free_lost by blast
  with K gs' other new old show ?thesis by (intro exI [where x = kv']) simp
qed


section \<open>Properties\<close>

text \<open>C12: Placing a micro-batch in a slot that the cache can offer writes, for every stream \<open>s\<close> and token
  \<open>ii\<close> of it, the position and the sequences of the token into the cell the slot names, moves the head past the last written cell and keeps the invariant
  and every other stream.  The slot of a window cache may overwrite tokens: then every cell, new or old, loses the sequences of which a position as late as its own or
  later was overwritten, and is free if none is left; every cell that this does not concern is kept.  A slot of free cells overwrites nothing.\<close>

theorem apply_ubatch_effect:
  assumes "kv_inv kv" and "slot_ready kv" and "slot_fits kv ub k n si"
  shows "\<exists>kv'. apply_ubatch si ub kv = Some kv' \<and> kv_inv kv' \<and> kv_conf kv kv' \<and> kv_get_size kv' = kv_get_size kv \<and>
    (\<forall>s < k. kv_v_heads kv' ! unq_stream kv ub s = last (si_idxs si ! s) + 1 \<and>
      (\<forall>ii < n. cell_at (kv_v_cells kv' ! unq_stream kv ub s) (si_idxs si ! s ! ii) = purge_cell (lost kv ub k si) (new_cell ub (s * n + ii))) \<and>
      (\<forall>i < kv_get_size kv. i \<notin> set (si_idxs si ! s) \<longrightarrow>
        cell_at (kv_v_cells kv' ! unq_stream kv ub s) i = purge_cell (lost kv ub k si) (cell_at (kv_v_cells kv ! unq_stream kv ub s) i))) \<and>
    (\<forall>t. (\<forall>s < k. t \<noteq> unq_stream kv ub s) \<longrightarrow> kv_v_cells kv' ! t = kv_v_cells kv ! t \<and> kv_v_heads kv' ! t = kv_v_heads kv ! t) \<and>
    (slot_free kv ub k si \<longrightarrow> (\<forall>q. lost kv ub k si q = {}))"
  by (rule apply_ubatch_exact [OF assms])

text \<open>A window of two positions, the positions 1, 0 and 2 of sequence 0 in three cells, and the next token.\<close>

definition demo_wcells :: kv_cells where
  "demo_wcells = \<lparr>kc_has_shift = False, kc_used = {2, 1, 0}, kc_pos = [1, 0, 2], kc_shift = [0, 0, 0],
     kc_seq = [{0}, {0}, {0}], kc_seq_pos = (replicate LLAMA_MAX_SEQ [])[0 := [(0, 1), (1, 1), (2, 1)]]\<rparr>"

definition demo_wkv :: "unit kv_cache" where
  "demo_wkv = demo_kv\<lparr>kv_swa_type := SWA_STANDARD, kv_n_swa := 2, kv_v_heads := [0], kv_v_cells := [demo_wcells]\<rparr>"

definition demo_wub :: "unit llama_ubatch" where
  "demo_wub = demo_ub\<lparr>ub_pos := [3], ub_seq_id := [[0]], ub_seq_id_unq := [0]\<rparr>"

definition demo_wsi :: slot_info where
  "demo_wsi = \<lparr>si_s0 = 0, si_s1 = 0, si_strm = [0], si_idxs = [[0]]\<rparr>"

lemma demo_wcells_steps: "foldM (\<lambda>ii. apply_token ([0, 1, 2] ! ii) ([1, 0, 2] ! ii) [0]) [0, 1, 2] (cells_resize 3 cells_new, mx) = Some (demo_wcells, mx)"
  by (simp add: cells_resize_new apply_token_def cells_is_empty_def cells_pos_set_def cells_seq_add_def bitset_test_def bitset_set_def
      cells_seq_pos_inc_def om_inc_def LLAMA_MAX_SEQ_def demo_wcells_def eval_nat_numeral)


lemma demo_wcells_at: "cells_size demo_wcells = 3" "cell_at demo_wcells 0 = (1, 0, {0})" "cell_at demo_wcells (Suc 0) = (0, 0, {0})"
    "cell_at demo_wcells (Suc (Suc 0)) = (2, 0, {0})"
  by (simp_all add: demo_wcells_def cells_size_def cell_at_def)

lemma upt_3: "[0..<3] = [0, 1, 2 :: nat]" "[0 :: nat..<0 + Suc 0 + Suc 0 + Suc 0] = [0, 1, 2]" "[0 :: nat..<Suc (Suc (Suc 0))] = [0, 1, 2]"
  by (simp_all add: eval_nat_numeral)

lemma demo_wcells_inv: "cells_inv demo_wcells"
proof -
  have new: "cells_inv (cells_resize 3 cells_new)" by (intro cells_inv_resize) (simp add: cells_new_def)
  have ok: "\<forall>i \<in> set [0, 1, 2]. i < cells_size (cells_resize 3 cells_new) \<and> (kc_pos (cells_resize 3 cells_new) ! i = - 1 \<or> (\<exists>s. kc_seq (cells_resize 3 cells_new) ! i = {s}))"
    by (simp add: cells_resize_new cells_size_def eval_nat_numeral)
  have run: "foldM (\<lambda>ii. apply_token ([0, 1, 2] ! ii) ([1, 0, 2] ! ii) [0]) [0..<length [0, 1, 2 :: nat]] (cells_resize 3 cells_new, \<lambda>_. - 1) = Some (demo_wcells, \<lambda>_. - 1)"
    using demo_wcells_steps [of "\<lambda>_. - 1"] by (simp only: list.size plus_1_eq_Suc add_Suc_right add_0_right add_0 upt_3)
  have tok: "0 \<le> ([1, 0, 2] ! ii :: int) \<and> [1, 0, 2] ! ii \<le> int32_max \<and> distinct [0 :: int] \<and> (\<forall>s \<in> set [0 :: int]. 0 \<le> s \<and> nat s < LLAMA_MAX_SEQ)"
    if "ii < length [0, 1, 2 :: nat]" for ii using that by (auto simp: int32_max_def LLAMA_MAX_SEQ_def less_Suc_eq)
  have "distinct [0, 1, 2 :: nat]" by simp
  from wp_SomeD [OF apply_tokens_spec [OF new this ok tok] run] show ?thesis by (simp add: placed_def)
qed

lemma demo_wkv_inv: "kv_inv demo_wkv" "slot_ready demo_wkv" "kv_get_size demo_wkv = 3"
proof -
  show sz: "kv_get_size demo_wkv = 3" using max_seq_small(1) by (simp add: kv_get_size_def demo_wkv_def demo_kv_def demo_wcells_at)
  have "stream_inv demo_wkv 0" unfolding stream_inv_def sz using demo_wcells_inv
    by (simp add: demo_wkv_def demo_kv_def demo_wcells_at) (auto simp: demo_wcells_at cell_legal_def less_Suc_eq numeral_3_eq_3)
  then show "kv_inv demo_wkv" using max_seq_small by (simp add: kv_inv_def demo_wkv_def demo_kv_def)
  show "slot_ready demo_wkv"
    by (simp add: slot_ready_def demo_wkv_def demo_kv_def demo_wcells_at) (auto simp: demo_wcells_def int32_max_def less_Suc_eq numeral_3_eq_3)
qed

lemma demo_wsi_fits: "slot_fits demo_wkv demo_wub 1 1 demo_wsi"
proof -
  have max: "cells_seq_pos_max 0 demo_wcells = Some 2" by (simp add: cells_seq_pos_max_def demo_wcells_def LLAMA_MAX_SEQ_def om_last_def)
  have c: "kc_seq demo_wcells ! 0 = {0}" "kc_pos demo_wcells = [1, 0, 2]" "0 < length (kc_pos demo_wcells)" "length (kc_seq demo_wcells) = 3" by (simp_all add: demo_wcells_def)
  have "cells_seq_get 0 demo_wcells = Some 0" using cells_seq_get_singleton [OF demo_wcells_inv c(3,1)] by simp
  with c max have "can_use demo_wkv demo_wcells 0 = Some True"
    by (simp add: can_use_def cells_is_empty_def cells_seq_count_def cells_pos_get_def demo_wkv_def s32_def int32_ok_def int32_min_def int32_max_def is_masked_swa_def to_s32_def)
  then show ?thesis
    using max_seq_small by (auto simp: slot_fits_def demo_wsi_def usable_def demo_wkv_def demo_kv_def demo_wcells_at ub_fits_def demo_wub_def demo_ub_def
      seq_guard_def token_ok_def tok_seqs_def unq_stream_def int32_max_def LLAMA_MAX_SEQ_def)
qed

lemma demo_w_eval: "unq_stream demo_wkv demo_wub 0 = 0" "kv_v_cells demo_wkv ! 0 = demo_wcells" "new_cell demo_wub 0 = (3, 0, {0})"
    "purge_cell (\<lambda>q. if q = 0 then {1} else {}) (p, 0, {0}) = (if p \<le> 1 then cell_free else (p, 0, {0}))"
proof -
  have "{q \<in> {0 :: nat}. \<exists>w \<in> (if q = 0 then {1 :: int} else {}). p \<le> w} = (if p \<le> 1 then {0} else {})" by auto
  then show "purge_cell (\<lambda>q. if q = 0 then {1} else {}) (p, 0, {0}) = (if p \<le> 1 then cell_free else (p, 0, {0}))" by (simp add: purge_cell_def)
qed (simp_all add: unq_stream_def demo_wub_def demo_wkv_def demo_kv_def LLAMA_MAX_SEQ_def new_cell_def tok_seqs_def demo_ub_def)

lemma demo_w_lost: "si_idxs si = [[0]] \<Longrightarrow> lost demo_wkv demo_wub (Suc 0) si = (\<lambda>q. if q = 0 then {1} else {})"
  by (auto simp: lost_def slot_cells_def demo_w_eval(1,2) demo_wcells_at fun_eq_iff)

text \<open>The oldest position, in a cell the slot does not name, is purged.\<close>

theorem apply_ubatch_effect_witness:
  "\<exists>kv'. apply_ubatch demo_wsi demo_wub demo_wkv = Some kv' \<and> kv_v_heads kv' ! 0 = 1 \<and> cell_at (kv_v_cells kv' ! 0) 0 = (3, 0, {0}) \<and>
    cell_at (kv_v_cells kv' ! 0) 1 = cell_free \<and> cell_at (kv_v_cells kv' ! 0) 2 = (2, 0, {0})"
proof -
  have idxs: "si_idxs demo_wsi = [[0]]" by (simp add: demo_wsi_def)
  from apply_ubatch_effect [OF demo_wkv_inv(1,2) demo_wsi_fits] obtain kv' where
    K: "apply_ubatch demo_wsi demo_wub demo_wkv = Some kv'" "kv_v_heads kv' ! 0 = 1"
      "cell_at (kv_v_cells kv' ! 0) 0 = purge_cell (\<lambda>q. if q = 0 then {1} else {}) (3, 0, {0})"
      "\<And>i. i < 3 \<Longrightarrow> i \<noteq> 0 \<Longrightarrow> cell_at (kv_v_cells kv' ! 0) i = purge_cell (\<lambda>q. if q = 0 then {1} else {}) (cell_at demo_wcells i)"
    by (auto simp: demo_w_eval(1-3) demo_w_lost [OF idxs] demo_wkv_inv(3) idxs)
  from K(3) K(4) [of 1] K(4) [of 2] have "cell_at (kv_v_cells kv' ! 0) 0 = (3, 0, {0})" "cell_at (kv_v_cells kv' ! 0) 1 = cell_free"
    "cell_at (kv_v_cells kv' ! 0) 2 = (2, 0, {0})" by (simp_all add: demo_w_eval(4) demo_wcells_at numeral_2_eq_2)
  with K(1,2) show ?thesis by blast
qed

text \<open>\<^verbatim>\<open>prepare\<close> saves and restores the cells of the slot only: with a window it does not undo the purge.  Here the token
  at position 0, in cell 1, is gone after a mere preparation.\<close>

theorem prepare_window_purges:
  "\<exists>si kv'. prepare [demo_wub] demo_wkv = Some ([si], kv') \<and> cell_at (kv_v_cells demo_wkv ! 0) 1 = (0, 0, {0}) \<and>
    cell_at (kv_v_cells kv' ! 0) 1 = cell_free"
proof -
  note I = demo_wkv_inv
  have ub: "ub_fits demo_wkv demo_wub 1 1" using demo_wsi_fits by (simp add: slot_fits_def)
  have use: "usable demo_wkv demo_wcells 0" using demo_wsi_fits by (simp add: slot_fits_def demo_wsi_def demo_w_eval(1,2))
  then have "find_slot_seq demo_wkv False 1 0 = Some (Some [0])"
    by (simp add: find_slot_seq_def demo_w_eval(2) demo_wcells_at usable_def demo_wkv_def demo_kv_def Let_def eval_nat_numeral cells_get_used_def)
  with find_slot_total [OF I(1) ub, of False "\<lambda>_. Some [0]"] obtain si where
    si: "find_slot demo_wub False demo_wkv = Some si" "si_strm si = [0]" "si_idxs si = [[0]]" by (auto simp: demo_w_eval(1))
  have fits: "slot_fits demo_wkv demo_wub 1 1 si" using demo_wsi_fits si(2,3) by (simp add: slot_fits_def demo_wsi_def demo_w_eval(1))
  from apply_ubatch_exact [OF I(1,2) fits] obtain kv1 where
    K: "apply_ubatch si demo_wub demo_wkv = Some kv1" "kv_inv kv1" "kv_conf demo_wkv kv1" "kv_get_size kv1 = 3"
      "cell_at (kv_v_cells kv1 ! 0) 0 = (3, 0, {0})" "cell_at (kv_v_cells kv1 ! 0) 1 = cell_free"
    by (auto simp: demo_w_eval demo_w_lost [OF si(3)] I(3) si(3) demo_wcells_at)
  have ns: "kv_n_stream kv1 = 1" using kv_confD(1) [OF K(3)] by (simp add: demo_wkv_def demo_kv_def)
  have C: "cells_inv (kv_v_cells kv1 ! 0)" "length (kc_pos (kv_v_cells kv1 ! 0)) = 3" "0 < length (kv_v_cells kv1)"
    using kv_invD(1,2,4) [OF K(2), of 0] ns K(4) by (simp_all add: cells_size_def)
  have c0: "i < length (kc_pos demo_wcells) \<and> kc_shift demo_wcells ! i = 0" if "i \<in> set [0 :: nat]" for i using that by (simp add: demo_wcells_def)
  have v0: "map ((!) (kc_pos demo_wcells)) [0] = map (\<lambda>i. 1) [0 :: nat]" "map ((!) (kc_seq demo_wcells)) [0] = map (\<lambda>i. {0}) [0 :: nat]"
    by (simp_all add: demo_wcells_def)
  have cp: "wp (cells_cp_idxs [0] demo_wcells) (\<lambda>res. kc_pos res = map (\<lambda>i. 1) [0 :: nat] \<and> kc_seq res = map (\<lambda>i. {0}) [0 :: nat])"
    using cells_cp_idxs_spec [of "[0]" demo_wcells, OF c0] unfolding v0 .
  obtain saved where
    S: "cells_cp_idxs [0] demo_wcells = Some saved" "kc_pos saved = map (\<lambda>i. 1) [0 :: nat]" "kc_seq saved = map (\<lambda>i. {0}) [0 :: nat]"
    using wpD [OF cp] by blast
  have i0: "i < length (kc_pos (kv_v_cells kv1 ! 0)) \<and> kc_shift (kv_v_cells kv1 ! 0) ! i = 0" if "i \<in> set [0 :: nat]" for i
    using that C(2) K(5) by (simp add: cell_at_def)
  have ok: "cell_ok 1 0 {0}" by (simp add: cell_ok_def int32_max_def LLAMA_MAX_SEQ_def)
  from wpD [OF cells_set_idxs_spec [OF C(1) i0 ok S(2,3)]] obtain c where
    c: "cells_set_idxs [0] saved (kv_v_cells kv1 ! 0) = Some c" "cells_same_at c (kv_v_cells kv1 ! 0) 1" using C(2) by (auto dest!: spec [where x = 1])
  let ?ps = "\<lparr>ps_sinfo = si, ps_v_heads_old = kv_v_heads demo_wkv, ps_v_cells = [saved]\<rparr>"
  have "prepare_restore_one ?ps kv1 = Some (put_head 0 0 (put_cells 0 c kv1))"
    using c(1) si(2,3) by (simp add: prepare_restore_one_def si_n_stream_def demo_wkv_def)
  moreover have "prepare_place [demo_wub] [] [] demo_wkv = Some (True, [si], [?ps], kv1)"
    using si S(1) K(1) by (simp add: si_empty_def si_n_stream_def demo_w_eval(2))
  ultimately have "prepare [demo_wub] demo_wkv = Some ([si], put_head 0 0 (put_cells 0 c kv1))" by (simp add: prepare_def)
  moreover have "cell_at c 1 = cell_free" using c(2) K(6) by (simp add: cells_same_at_def cell_at_def)
  ultimately show ?thesis using C(3) by (intro exI [where x = si] exI [where x = "put_head 0 0 (put_cells 0 c kv1)"]) (simp add: demo_w_eval(2) demo_wcells_at)
qed

end
