(* ===== verification/KvInputs.thy ===== *)
theory KvInputs
  imports KvPlace "HOL-Library.Word"
begin

text \<open>
  What the key-value cache tells the computation graph (\<^verbatim>\<open>src/src/llama-kv-cache.cpp\<close>): how many cells the
  attention reads (\<^verbatim>\<open>get_n_kv\<close>), where keys and values are stored (\<^verbatim>\<open>set_input_k_idxs\<close>,
  \<^verbatim>\<open>set_input_v_idxs\<close>), which cells a token sees (\<^verbatim>\<open>set_input_kq_mask\<close>).  An input tensor is
  the list of its elements; the offset of a stream is an unsigned product of 32 bits.
\<close>

unbundle bit_operations_syntax

section \<open>Sizes\<close>

definition GGML_PAD :: "'a::len word \<Rightarrow> 'a word \<Rightarrow> 'a word" where
  "GGML_PAD x n = (x + n - 1) AND NOT (n - 1)"

definition kv_get_n_kv :: "slot_info \<Rightarrow> 'd kv_cache \<Rightarrow> nat" where
  "kv_get_n_kv si kv = fold (\<lambda>s result. let c = kv_v_cells kv ! (si_strm si ! s) in
       max (min (cells_size c) (max (kv_n_pad kv) (unat (GGML_PAD (of_nat (cells_used_max_p1 c) :: 32 word) (of_nat (kv_n_pad kv)))))) result)
     [0..<si_n_stream si] 0"

section \<open>Where keys and values go\<close>

definition set_input_k_idxs :: "'e llama_ubatch \<Rightarrow> slot_info \<Rightarrow> 'd kv_cache \<Rightarrow> nat list option" where
  "set_input_k_idxs ub si kv = do {
     sz \<leftarrow> si_size si;
     guard (ub_n_tokens ub = sz * si_n_stream si);
     Some (concat (map (\<lambda>s. map (\<lambda>i. si_strm si ! s * kv_get_size kv mod 2 ^ 32 + si_idxs si ! s ! i) [0..<sz]) [0..<si_n_stream si]))
   }"

text \<open>\<open>n_embd_v_gqa\<close> elements a token; transposed, every element has its own row.\<close>

definition set_input_v_idxs :: "bool \<Rightarrow> nat \<Rightarrow> 'e llama_ubatch \<Rightarrow> slot_info \<Rightarrow> 'd kv_cache \<Rightarrow> nat list option" where
  "set_input_v_idxs v_trans n_embd_v_gqa ub si kv = do {
     sz \<leftarrow> si_size si;
     guard (ub_n_tokens ub = sz * si_n_stream si);
     Some (if \<not> v_trans then
         concat (map (\<lambda>s. map (\<lambda>i. si_strm si ! s * kv_get_size kv mod 2 ^ 32 + si_idxs si ! s ! i) [0..<sz]) [0..<si_n_stream si])
       else concat (map (\<lambda>s. concat (map (\<lambda>i. map (\<lambda>j. si_strm si ! s * kv_get_size kv * n_embd_v_gqa + j * kv_get_size kv + si_idxs si ! s ! i)
         [0..<n_embd_v_gqa]) [0..<sz])) [0..<si_n_stream si]))
   }"

section \<open>The attention mask\<close>

datatype mask_val = NegInf | Bias int

definition mask_step :: "'d kv_cache \<Rightarrow> bool \<Rightarrow> bool \<Rightarrow> kv_cells \<Rightarrow> nat \<Rightarrow> int \<Rightarrow> nat \<Rightarrow> nat \<Rightarrow> mask_val list \<Rightarrow> mask_val list option" where
  "mask_step kv causal_attn use_alibi c seq_id p1 idst j data = do {
     e \<leftarrow> cells_is_empty j c;
     if e then Some data else do {
       h \<leftarrow> cells_seq_has j seq_id c;
       if \<not> h then Some data else do {
         p0 \<leftarrow> cells_pos_get j c;
         if causal_attn \<and> p0 > p1 then Some data else do {
           m \<leftarrow> is_masked_swa (kv_n_swa kv) (kv_swa_type kv) p0 p1;
           if m then Some data else do {
             guard (idst + j < length data);
             Some (data[idst + j := (if use_alibi then Bias (- \<bar>p0 - p1\<bar>) else Bias 0)])
           }
         }
       }
     }
   }"

definition mask_token :: "'d kv_cache \<Rightarrow> 'e llama_ubatch \<Rightarrow> bool \<Rightarrow> bool \<Rightarrow> nat \<Rightarrow> nat \<Rightarrow> nat \<Rightarrow> nat \<Rightarrow> nat \<Rightarrow> mask_val list \<Rightarrow> mask_val list option" where
  "mask_token kv ub causal_attn use_alibi n_kv n_tps n_tps_pad s ii data = do {
     let i = s * n_tps + ii;
     guard (i < length (ub_seq_id ub) \<and> ub_seq_id ub ! i \<noteq> [] \<and> i < length (ub_pos ub));
     let seq_id = hd (ub_seq_id ub ! i);
     st \<leftarrow> kv_stream seq_id kv;
     let idst = n_kv * (s * n_tps_pad + ii);
     foldM (mask_step kv causal_attn use_alibi (kv_v_cells kv ! st) (nat seq_id) (ub_pos ub ! i) idst) [0..<n_kv] data
   }"

definition GGML_KQ_MASK_PAD :: nat where
  "GGML_KQ_MASK_PAD = 64"

definition set_input_kq_mask :: "'e llama_ubatch \<Rightarrow> bool \<Rightarrow> bool \<Rightarrow> nat \<Rightarrow> nat \<Rightarrow> nat \<Rightarrow> 'd kv_cache \<Rightarrow> mask_val list option" where
  "set_input_kq_mask ub causal_attn use_alibi n_kv n_stream nelements kv = do {
     guard (n_stream \<noteq> 0 \<and> ub_n_tokens ub mod n_stream = 0);
     let n_tps = ub_n_tokens ub div n_stream;
     let n_tps_pad = unat (GGML_PAD (of_nat n_tps :: 64 word) (of_nat GGML_KQ_MASK_PAD));
     foldM (\<lambda>s. foldM (\<lambda>ii. mask_token kv ub causal_attn use_alibi n_kv n_tps n_tps_pad s ii) [0..<n_tps]) [0..<n_stream] (replicate nelements NegInf)
   }"

section \<open>Padding\<close>

lemma and_not_mask_push_drop: "w AND NOT (mask k) = push_bit k (drop_bit k w)" for w :: "'a::len word"
  by (rule bit_eqI) (auto simp: bit_simps)

lemma GGML_PAD_eq:
  assumes "n = 2 ^ k" "x + n - 1 < 2 ^ LENGTH('a)" "k < LENGTH('a)"
  shows "unat (GGML_PAD (of_nat x :: 'a::len word) (of_nat n)) = (x + n - 1) div n * n"
proof -
  let ?w = "of_nat (x + n - 1) :: 'a word"
  have n: "0 < n" using assms(1) by simp
  then have "(of_nat x + of_nat n - 1 :: 'a word) = ?w"
    by (simp add: of_nat_diff)
  moreover have "(of_nat n - 1 :: 'a word) = mask k"
    using assms(1) by (simp add: mask_eq_exp_minus_1)
  ultimately have "GGML_PAD (of_nat x :: 'a word) (of_nat n) = push_bit k (drop_bit k ?w)"
    by (simp add: GGML_PAD_def and_not_mask_push_drop)
  moreover have "unat ?w = x + n - 1"
    using assms(2) by (simp add: unat_of_nat take_bit_nat_eq_self_iff unsigned_of_nat)
  moreover have "take_bit LENGTH('a) (unat ?w) = unat ?w"
    by (rule take_bit_nat_eq_self) (rule unsigned_less)
  then have "unat (push_bit k (drop_bit k ?w)) = take_bit LENGTH('a) (push_bit k (drop_bit k (unat ?w)))"
    by (simp only: unsigned_push_bit_eq unsigned_drop_bit_eq)
  moreover have "push_bit k (drop_bit k (x + n - 1)) = (x + n - 1) div n * n"
    by (simp add: push_bit_eq_mult drop_bit_eq_div assms(1))
  moreover have "(x + n - 1) div n * n < 2 ^ LENGTH('a)"
    using assms(2) by (meson div_times_less_eq_dividend le_less_trans)
  ultimately show ?thesis by (simp add: take_bit_nat_eq_self_iff take_bit_nat_eq_self)
qed

lemma GGML_PAD_ge:
  assumes "n = 2 ^ k" "x + n - 1 < 2 ^ LENGTH('a)" "k < LENGTH('a)"
  shows "x \<le> unat (GGML_PAD (of_nat x :: 'a::len word) (of_nat n))"
proof -
  have "0 < n" using assms(1) by simp
  then have "(x + n - 1) mod n < n" "(x + n - 1) div n * n + (x + n - 1) mod n = x + n - 1" by simp_all
  then show ?thesis unfolding GGML_PAD_eq [OF assms] by linarith
qed

section \<open>What a token sees\<close>

text \<open>The reference: cell \<open>j\<close> is used by the sequence, not in the future of a causal model, not outside the window.\<close>

definition visible :: "'d kv_cache \<Rightarrow> bool \<Rightarrow> nat \<Rightarrow> nat \<Rightarrow> int \<Rightarrow> nat \<Rightarrow> bool" where
  "visible kv causal_attn st seq_id p1 j \<longleftrightarrow> (let c = kv_v_cells kv ! st; p0 = kc_pos c ! j in
     p0 \<noteq> - 1 \<and> seq_id \<in> kc_seq c ! j \<and> (causal_attn \<longrightarrow> p0 \<le> p1) \<and>
     is_masked_swa (kv_n_swa kv) (kv_swa_type kv) p0 p1 = Some False)"

definition mask_value :: "'d kv_cache \<Rightarrow> bool \<Rightarrow> nat \<Rightarrow> int \<Rightarrow> nat \<Rightarrow> mask_val" where
  "mask_value kv use_alibi st p1 j = (if use_alibi then Bias (- \<bar>kc_pos (kv_v_cells kv ! st) ! j - p1\<bar>) else Bias 0)"

lemma is_masked_swa_total:
  "0 \<le> p0 \<Longrightarrow> 0 \<le> p1 \<Longrightarrow> (swa = SWA_CHUNKED \<longrightarrow> n \<noteq> 0) \<Longrightarrow> \<exists>b. is_masked_swa n swa p0 p1 = Some b"
  by (cases swa) (auto simp: is_masked_swa_def Let_def)

lemma mask_step_eq:
  assumes inv: "kv_inv kv" and st: "st < kv_n_stream kv" and j: "j < kv_get_size kv" and s: "seq_id < LLAMA_MAX_SEQ" and p1: "0 \<le> p1"
    and swa: "kv_swa_type kv = SWA_CHUNKED \<longrightarrow> kv_n_swa kv \<noteq> 0" and len: "idst + j < length data"
  shows "mask_step kv causal alibi (kv_v_cells kv ! st) seq_id p1 idst j data =
    Some (if visible kv causal st seq_id p1 j then data[idst + j := mask_value kv alibi st p1 j] else data)"
proof -
  let ?c = "kv_v_cells kv ! st"
  have sz: "j < cells_size ?c" using j kv_invD(2) [OF inv st] by simp
  note C = kv_invD(1) [OF inv st] and D = cell_atD [OF kv_invD(1) [OF inv st] sz]
  note e = cells_is_empty_eq [OF C D(1)]
  show ?thesis
  proof (cases "kc_pos ?c ! j = - 1")
    case True
    then show ?thesis using e by (simp add: mask_step_def visible_def Let_def)
  next
    case False
    then have p0: "0 \<le> kc_pos ?c ! j" using D(2) by simp
    obtain b where b: "is_masked_swa (kv_n_swa kv) (kv_swa_type kv) (kc_pos ?c ! j) p1 = Some b"
      using is_masked_swa_total [OF p0 p1 swa] by blast
    show ?thesis
      using e False D(1) s len b
      by (simp add: mask_step_def visible_def mask_value_def Let_def cells_seq_has_def bitset_test_def cells_pos_get_def)
  qed
qed

text \<open>The mask written so far: \<open>W\<close> says for which entries.\<close>

definition mask_is :: "nat \<Rightarrow> nat \<Rightarrow> nat \<Rightarrow> (nat \<Rightarrow> nat \<Rightarrow> nat \<Rightarrow> bool) \<Rightarrow> (nat \<Rightarrow> nat \<Rightarrow> nat \<Rightarrow> mask_val) \<Rightarrow> mask_val list \<Rightarrow> bool" where
  "mask_is n_stream pad n_kv W v data \<longleftrightarrow> length data = n_kv * (n_stream * pad) \<and>
     (\<forall>s < n_stream. \<forall>ii < pad. \<forall>j < n_kv. data ! (n_kv * (s * pad + ii) + j) = (if W s ii j then v s ii j else NegInf))"

lemma mask_index_inj:
  assumes "ii < pad" "ii' < pad" "(j :: nat) < n" "j' < n"
  shows "n * (s * pad + ii) + j = n * (s' * pad + ii') + j' \<longleftrightarrow> s = s' \<and> ii = ii' \<and> j = j'"
  using mix_inj [OF assms(3,4), of "s * pad + ii" "s' * pad + ii'"] mix_inj [OF assms(1,2), of s s'] by (auto simp: mult.commute)

lemma mask_index_less:
  assumes "s < n_stream" "ii < pad" "(j :: nat) < n"
  shows "n * (s * pad + ii) + j < n * (n_stream * pad)"
proof -
  have "s * pad + ii < n_stream * pad" using row_lt [OF assms(1,2)] .
  from row_lt [OF this assms(3)] show ?thesis by (simp add: mult.commute)
qed

lemma mask_is_step:
  assumes "mask_is n_stream pad n_kv W v data" "s < n_stream" "ii < pad" "j < n_kv"
  shows "mask_is n_stream pad n_kv (\<lambda>s' ii' j'. W s' ii' j' \<or> (s' = s \<and> ii' = ii \<and> j' = j \<and> b)) v
    (if b then data[n_kv * (s * pad + ii) + j := v s ii j] else data)"
proof (cases b)
  case True
  have "n_kv * (s * pad + ii) + j < length data"
    using mask_index_less [OF assms(2-4)] assms(1) by (simp add: mask_is_def)
  then show ?thesis
    using assms True unfolding mask_is_def by (auto simp: nth_list_update mask_index_inj)
next
  case False
  then show ?thesis using assms(1) by (simp add: mask_is_def)
qed

definition tok_seq :: "'e llama_ubatch \<Rightarrow> nat \<Rightarrow> int" where
  "tok_seq ub i = hd (ub_seq_id ub ! i)"

definition tok_stream :: "'d kv_cache \<Rightarrow> 'e llama_ubatch \<Rightarrow> nat \<Rightarrow> nat" where
  "tok_stream kv ub i = kv_seq_to_stream kv ! nat (tok_seq ub i)"

definition sees :: "'d kv_cache \<Rightarrow> 'e llama_ubatch \<Rightarrow> bool \<Rightarrow> nat \<Rightarrow> nat \<Rightarrow> bool" where
  "sees kv ub causal_attn i j \<longleftrightarrow> visible kv causal_attn (tok_stream kv ub i) (nat (tok_seq ub i)) (ub_pos ub ! i) j"

definition seen_value :: "'d kv_cache \<Rightarrow> 'e llama_ubatch \<Rightarrow> bool \<Rightarrow> nat \<Rightarrow> nat \<Rightarrow> mask_val" where
  "seen_value kv ub use_alibi i j = mask_value kv use_alibi (tok_stream kv ub i) (ub_pos ub ! i) j"

text \<open>A micro-batch whose tokens have a position and a first sequence the cache knows.\<close>

definition mask_ready :: "'d kv_cache \<Rightarrow> 'e llama_ubatch \<Rightarrow> bool" where
  "mask_ready kv ub \<longleftrightarrow> (kv_swa_type kv = SWA_CHUNKED \<longrightarrow> kv_n_swa kv \<noteq> 0) \<and>
     (\<forall>i < ub_n_tokens ub. i < length (ub_seq_id ub) \<and> ub_seq_id ub ! i \<noteq> [] \<and> i < length (ub_pos ub) \<and> 0 \<le> ub_pos ub ! i \<and>
       0 \<le> tok_seq ub i \<and> nat (tok_seq ub i) < length (kv_seq_to_stream kv))"

lemma mask_token_spec:
  assumes inv: "kv_inv kv" and ready: "mask_ready kv ub" and i: "s * n_tps + ii < ub_n_tokens ub" and sii: "s < n_stream" "ii < pad"
    and n_kv: "n_kv \<le> kv_get_size kv"
    and m: "mask_is n_stream pad n_kv W v data" and v: "\<And>j. v s ii j = seen_value kv ub alibi (s * n_tps + ii) j"
  shows "wp (mask_token kv ub causal alibi n_kv n_tps pad s ii data)
    (mask_is n_stream pad n_kv (\<lambda>s' ii' j. W s' ii' j \<or> (s' = s \<and> ii' = ii \<and> sees kv ub causal (s * n_tps + ii) j)) v)"
proof -
  let ?i = "s * n_tps + ii"
  have r: "?i < length (ub_seq_id ub)" "ub_seq_id ub ! ?i \<noteq> []" "?i < length (ub_pos ub)" "0 \<le> ub_pos ub ! ?i"
    "0 \<le> tok_seq ub ?i" "nat (tok_seq ub ?i) < length (kv_seq_to_stream kv)" "kv_swa_type kv = SWA_CHUNKED \<longrightarrow> kv_n_swa kv \<noteq> 0"
    using ready i by (auto simp: mask_ready_def)
  have st: "kv_stream (tok_seq ub ?i) kv = Some (tok_stream kv ub ?i)"
    using r by (simp add: kv_stream_def tok_stream_def)
  note S = kv_inv_stream [OF inv st]
  have "wp (foldM (mask_step kv causal alibi (kv_v_cells kv ! tok_stream kv ub ?i) (nat (tok_seq ub ?i)) (ub_pos ub ! ?i) (n_kv * (s * pad + ii))) [0..<n_kv] data)
    (\<lambda>d. mask_is n_stream pad n_kv (\<lambda>s' ii' j. W s' ii' j \<or> (s' = s \<and> ii' = ii \<and> j < n_kv \<and> sees kv ub causal ?i j)) v d)"
  proof (rule wp_foldM_upt [where P = "\<lambda>k. mask_is n_stream pad n_kv (\<lambda>s' ii' j. W s' ii' j \<or> (s' = s \<and> ii' = ii \<and> j < k \<and> sees kv ub causal ?i j)) v"])
    show "mask_is n_stream pad n_kv (\<lambda>s' ii' j. W s' ii' j \<or> (s' = s \<and> ii' = ii \<and> j < 0 \<and> sees kv ub causal ?i j)) v data"
      using m by simp
  next
    fix k d
    assume k: "k < n_kv" and d: "mask_is n_stream pad n_kv (\<lambda>s' ii' j. W s' ii' j \<or> (s' = s \<and> ii' = ii \<and> j < k \<and> sees kv ub causal ?i j)) v d"
    have len: "n_kv * (s * pad + ii) + k < length d"
      using mask_index_less [OF sii k] d by (simp add: mask_is_def)
    have eq: "mask_step kv causal alibi (kv_v_cells kv ! tok_stream kv ub ?i) (nat (tok_seq ub ?i)) (ub_pos ub ! ?i) (n_kv * (s * pad + ii)) k d =
        Some (if sees kv ub causal ?i k then d[n_kv * (s * pad + ii) + k := v s ii k] else d)"
      using mask_step_eq [OF inv S(1) _ S(2) r(4,7) len] k n_kv by (simp add: sees_def v seen_value_def)
    have "mask_is n_stream pad n_kv (\<lambda>s' ii' j. W s' ii' j \<or> (s' = s \<and> ii' = ii \<and> j < Suc k \<and> sees kv ub causal ?i j)) v
        (if sees kv ub causal ?i k then d[n_kv * (s * pad + ii) + k := v s ii k] else d)"
      using mask_is_step [OF d sii k, of "sees kv ub causal ?i k"] unfolding mask_is_def by (auto simp: less_Suc_eq)
    with eq show "wp (mask_step kv causal alibi (kv_v_cells kv ! tok_stream kv ub ?i) (nat (tok_seq ub ?i)) (ub_pos ub ! ?i) (n_kv * (s * pad + ii)) k d)
        (mask_is n_stream pad n_kv (\<lambda>s' ii' j. W s' ii' j \<or> (s' = s \<and> ii' = ii \<and> j < Suc k \<and> sees kv ub causal ?i j)) v)"
      by simp
  qed
  then show ?thesis
    using r st unfolding mask_token_def by (auto simp: Let_def tok_seq_def [symmetric] mask_is_def elim!: wp_mono)
qed

lemma mask_spec:
  assumes inv: "kv_inv kv" and ready: "mask_ready kv ub" and n: "ub_n_tokens ub = n_stream * n_tps" "n_stream \<noteq> 0"
    and n_kv: "n_kv \<le> kv_get_size kv" and pad: "pad = unat (GGML_PAD (of_nat n_tps :: 64 word) (of_nat GGML_KQ_MASK_PAD))" "n_tps \<le> pad"
  shows "wp (set_input_kq_mask ub causal alibi n_kv n_stream (n_kv * (n_stream * pad)) kv)
    (mask_is n_stream pad n_kv (\<lambda>s ii j. s < n_stream \<and> ii < n_tps \<and> sees kv ub causal (s * n_tps + ii) j) (\<lambda>s ii j. seen_value kv ub alibi (s * n_tps + ii) j))"
proof -
  let ?v = "\<lambda>s ii j. seen_value kv ub alibi (s * n_tps + ii) j"
  let ?W = "\<lambda>k s ii j. s < k \<and> ii < n_tps \<and> sees kv ub causal (s * n_tps + ii) j"
  have div: "ub_n_tokens ub div n_stream = n_tps" "ub_n_tokens ub mod n_stream = 0" using n by simp_all
  have "wp (foldM (\<lambda>s. foldM (\<lambda>ii. mask_token kv ub causal alibi n_kv n_tps pad s ii) [0..<n_tps]) [0..<n_stream] (replicate (n_kv * (n_stream * pad)) NegInf))
      (mask_is n_stream pad n_kv (?W n_stream) ?v)"
  proof (rule wp_foldM_upt [where P = "\<lambda>k. mask_is n_stream pad n_kv (?W k) ?v"])
    show "mask_is n_stream pad n_kv (?W 0) ?v (replicate (n_kv * (n_stream * pad)) NegInf)"
      using mask_index_less by (simp add: mask_is_def)
  next
    fix s data assume s: "s < n_stream" and d: "mask_is n_stream pad n_kv (?W s) ?v data"
    have "wp (foldM (\<lambda>ii. mask_token kv ub causal alibi n_kv n_tps pad s ii) [0..<n_tps] data)
        (mask_is n_stream pad n_kv (\<lambda>s' ii' j. ?W s s' ii' j \<or> (s' = s \<and> ii' < n_tps \<and> sees kv ub causal (s * n_tps + ii') j)) ?v)"
    proof (rule wp_foldM_upt [where P = "\<lambda>k. mask_is n_stream pad n_kv (\<lambda>s' ii' j. ?W s s' ii' j \<or> (s' = s \<and> ii' < k \<and> sees kv ub causal (s * n_tps + ii') j)) ?v"])
      show "mask_is n_stream pad n_kv (\<lambda>s' ii' j. ?W s s' ii' j \<or> (s' = s \<and> ii' < 0 \<and> sees kv ub causal (s * n_tps + ii') j)) ?v data"
        using d by simp
    next
      fix ii data' assume ii: "ii < n_tps"
        and d': "mask_is n_stream pad n_kv (\<lambda>s' ii' j. ?W s s' ii' j \<or> (s' = s \<and> ii' < ii \<and> sees kv ub causal (s * n_tps + ii') j)) ?v data'"
      have "s * n_tps + ii < ub_n_tokens ub" using row_lt [OF s ii] n by simp
      moreover have "ii < pad" using ii pad(2) by simp
      ultimately have "wp (mask_token kv ub causal alibi n_kv n_tps pad s ii data')
          (mask_is n_stream pad n_kv (\<lambda>s' ii' j. (?W s s' ii' j \<or> (s' = s \<and> ii' < ii \<and> sees kv ub causal (s * n_tps + ii') j)) \<or>
            (s' = s \<and> ii' = ii \<and> sees kv ub causal (s * n_tps + ii) j)) ?v)"
        by (rule mask_token_spec [OF inv ready _ s _ n_kv d' refl])
      then show "wp (mask_token kv ub causal alibi n_kv n_tps pad s ii data')
          (mask_is n_stream pad n_kv (\<lambda>s' ii' j. ?W s s' ii' j \<or> (s' = s \<and> ii' < Suc ii \<and> sees kv ub causal (s * n_tps + ii') j)) ?v)"
        by (elim wp_mono) (auto simp: mask_is_def less_Suc_eq)
    qed
    then show "wp (foldM (\<lambda>ii. mask_token kv ub causal alibi n_kv n_tps pad s ii) [0..<n_tps] data) (mask_is n_stream pad n_kv (?W (Suc s)) ?v)"
      by (elim wp_mono) (auto simp: mask_is_def less_Suc_eq)
  qed
  then show ?thesis
    using n(2) div unfolding set_input_kq_mask_def pad(1) by (simp add: Let_def)
qed

section \<open>How many cells are read\<close>

lemma fold_max: "fold (\<lambda>s m. max (f s) m) xs a = Max (insert a (f ` set xs))" for f :: "'x \<Rightarrow> nat"
proof (induction xs arbitrary: a)
  case (Cons x xs)
  have "Max (insert (max (f x) a) (f ` set xs)) = Max (insert (f x) (insert a (f ` set xs)))"
    by (cases "set xs = {}") (simp_all add: max.assoc)
  then show ?case using Cons by (simp add: insert_commute)
qed simp

definition n_kv_stream :: "'d kv_cache \<Rightarrow> kv_cells \<Rightarrow> nat" where
  "n_kv_stream kv c = min (cells_size c) (max (kv_n_pad kv) (unat (GGML_PAD (of_nat (cells_used_max_p1 c) :: 32 word) (of_nat (kv_n_pad kv)))))"

lemma n_kv_bounds:
  assumes "\<forall>s < si_n_stream si. cells_size (kv_v_cells kv ! (si_strm si ! s)) = sz"
  shows "kv_get_n_kv si kv \<le> sz"
    and "s < si_n_stream si \<Longrightarrow> n_kv_stream kv (kv_v_cells kv ! (si_strm si ! s)) \<le> kv_get_n_kv si kv"
proof -
  have eq: "kv_get_n_kv si kv = Max (insert 0 ((\<lambda>s. n_kv_stream kv (kv_v_cells kv ! (si_strm si ! s))) ` set [0..<si_n_stream si]))"
    unfolding kv_get_n_kv_def fold_max [symmetric] n_kv_stream_def Let_def ..
  show "kv_get_n_kv si kv \<le> sz"
    unfolding eq using assms by (auto simp: n_kv_stream_def)
  show "s < si_n_stream si \<Longrightarrow> n_kv_stream kv (kv_v_cells kv ! (si_strm si ! s)) \<le> kv_get_n_kv si kv"
    unfolding eq by (intro Max_ge) auto
qed

lemma used_below:
  assumes inv: "cells_inv c" and i: "i < cells_size c" "kc_pos c ! i \<noteq> - 1"
    and pad: "kv_n_pad kv = 2 ^ m" "cells_size c + kv_n_pad kv < 2 ^ 32" "m < 32"
  shows "i < n_kv_stream kv c"
proof -
  have used: "kc_used c = {i. i < length (kc_pos c) \<and> kc_pos c ! i \<noteq> - 1}" using inv by (simp add: cells_inv_def)
  then have fin: "finite (kc_used c)" "i \<in> kc_used c" "\<forall>k \<in> kc_used c. k < cells_size c"
    using i by (auto simp: cells_size_def)
  have "Max (kc_used c) \<in> kc_used c" using Max_in [OF fin(1)] fin(2) by blast
  then have "Max (kc_used c) < cells_size c" using fin(3) by blast
  moreover have "i \<le> Max (kc_used c)" using Max_ge [OF fin(1,2)] .
  ultimately have u: "i < cells_used_max_p1 c" "cells_used_max_p1 c \<le> cells_size c"
    using fin(2) by (auto simp: cells_used_max_p1_def)
  have "cells_used_max_p1 c \<le> unat (GGML_PAD (of_nat (cells_used_max_p1 c) :: 32 word) (of_nat (kv_n_pad kv)))"
    using pad u(2) by (intro GGML_PAD_ge [of _ m]) simp_all
  with u i show ?thesis by (simp add: n_kv_stream_def)
qed

section \<open>Properties\<close>

text \<open>C25: The attention mask is exactly the visibility of cells.  For every token of the micro-batch and every
  cell that is read, the entry is finite if and only if the cell is used by the token's first sequence, is not in
  the future of the token when attention is causal, and lies inside the sliding window; the entry is then zero, or
  minus the distance of the positions for models with linear biases.  The rows that pad the micro-batch are masked
  throughout, and no access leaves the cells or the tensor.\<close>

theorem kq_mask_exact:
  assumes "kv_inv kv" "mask_ready kv ub" "ub_n_tokens ub = n_stream * n_tps" "n_stream \<noteq> 0" "n_kv \<le> kv_get_size kv" "n_tps + 63 < 2 ^ 64"
    and "pad = (n_tps + 63) div 64 * 64"
  shows "\<exists>data. set_input_kq_mask ub causal alibi n_kv n_stream (n_kv * (n_stream * pad)) kv = Some data \<and>
    length data = n_kv * (n_stream * pad) \<and>
    (\<forall>s < n_stream. \<forall>ii < pad. \<forall>j < n_kv. data ! (n_kv * (s * pad + ii) + j) =
      (if ii < n_tps \<and> sees kv ub causal (s * n_tps + ii) j then seen_value kv ub alibi (s * n_tps + ii) j else NegInf))"
proof -
  have pad: "pad = unat (GGML_PAD (of_nat n_tps :: 64 word) (of_nat GGML_KQ_MASK_PAD))"
    using GGML_PAD_eq [of 64 6 n_tps, where 'a = 64] assms(6,7) by (simp add: GGML_KQ_MASK_PAD_def)
  moreover have "n_tps \<le> pad"
    unfolding pad using GGML_PAD_ge [of 64 6 n_tps, where 'a = 64] assms(6) by (simp add: GGML_KQ_MASK_PAD_def)
  ultimately show ?thesis
    using wpD [OF mask_spec [OF assms(1-5), of pad causal alibi]] unfolding mask_is_def by auto
qed


theorem kq_mask_exact_witness:
  "\<exists>data. set_input_kq_mask demo_ub True False 2 1 128 demo_kv = Some data \<and> data ! 0 = Bias 0 \<and> data ! 1 = NegInf"
proof -
  have ready: "mask_ready demo_kv demo_ub"
    by (simp add: mask_ready_def demo_kv_def demo_ub_def tok_seq_def LLAMA_MAX_SEQ_def)
  have "sees demo_kv demo_ub True 0 0" "\<not> sees demo_kv demo_ub True 0 (Suc 0)"
    by (simp_all add: sees_def visible_def tok_seq_def tok_stream_def demo_kv_def demo_ub_def demo_cells_def is_masked_swa_def LLAMA_MAX_SEQ_def)
  moreover have "ub_n_tokens demo_ub = 1" by (simp add: demo_ub_def)
  moreover from this kq_mask_exact [OF demo_kv_inv ready, of 1 1 2 64 True False] obtain data where
    "set_input_kq_mask demo_ub True False 2 1 128 demo_kv = Some data" and
    data: "\<forall>ii < 64. \<forall>j < 2. data ! (2 * ii + j) = (if ii < 1 \<and> sees demo_kv demo_ub True ii j then seen_value demo_kv demo_ub False (0 * 1 + ii) j else NegInf)"
    by (auto simp: demo_kv_get_size)
  moreover from data have "data ! 0 = (if sees demo_kv demo_ub True 0 0 then seen_value demo_kv demo_ub False 0 0 else NegInf)"
    "data ! 1 = (if sees demo_kv demo_ub True 0 1 then seen_value demo_kv demo_ub False 0 1 else NegInf)"
    using data [rule_format, of 0 0] data [rule_format, of 0 1] by simp_all
  ultimately show ?thesis by (simp add: seen_value_def mask_value_def)
qed

section \<open>The rows keys and values are stored in\<close>

lemma nth_concat_rows: "s < m \<Longrightarrow> i < n \<Longrightarrow> concat (map (\<lambda>s. map (f s) [0..<n]) [0..<m]) ! (s * n + i) = f s i"
proof (induction m)
  case (Suc m)
  have len: "length (concat (map (\<lambda>s. map (f s) [0..<n]) [0..<m])) = m * n" by (simp add: length_concat comp_def sum_list_triv)
  show ?case
  proof (cases "s = m")
    case True
    then show ?thesis using Suc.prems(2) len by (simp add: nth_append)
  next
    case False
    then have "s < m" using Suc.prems(1) by simp
    then have "s * n + i < m * n" using Suc.prems(2) by (rule row_lt)
    with \<open>s < m\<close> show ?thesis using Suc len by (simp add: nth_append)
  qed
qed simp

lemma length_concat_rows: "length (concat (map (\<lambda>s. map (f s) [0..<n]) [0..<m])) = m * n"
  by (simp add: length_concat comp_def sum_list_triv)

lemma distinct_concat_rows:
  assumes "\<And>s s' i i'. s < m \<Longrightarrow> s' < m \<Longrightarrow> i < n \<Longrightarrow> i' < n \<Longrightarrow> f s i = f s' i' \<Longrightarrow> s = s' \<and> i = i'"
  shows "distinct (concat (map (\<lambda>s. map (f s) [0..<n]) [0..<m]))"
proof (unfold distinct_conv_nth length_concat_rows, intro allI impI)
  fix x y
  assume x: "x < m * n" and y: "y < m * n" and "x \<noteq> y"
  moreover obtain s i where s: "s < m" "i < n" "x = s * n + i" using row_split [OF x] by blast
  moreover obtain t j where t: "t < m" "j < n" "y = t * n + j" using row_split [OF y] by blast
  ultimately show "concat (map (\<lambda>s. map (f s) [0..<n]) [0..<m]) ! x \<noteq> concat (map (\<lambda>s. map (f s) [0..<n]) [0..<m]) ! y"
    using assms [OF s(1) t(1) s(2) t(2)] by (auto simp: nth_concat_rows)
qed

lemma slot_fitsD:
  assumes inv: "kv_inv kv" and fits: "slot_fits kv ub k n si"
  shows "si_size si = Some n" "si_n_stream si = k" "ub_n_tokens ub = k * n" "0 < k" "0 < n"
    and "s < k \<Longrightarrow> si_strm si ! s = unq_stream kv ub s" "s < k \<Longrightarrow> unq_stream kv ub s < kv_n_stream kv" "s < k \<Longrightarrow> length (si_idxs si ! s) = n"
    and "s < k \<Longrightarrow> ii < n \<Longrightarrow> si_idxs si ! s ! ii < kv_get_size kv"
    and "s < k \<Longrightarrow> s' < k \<Longrightarrow> ii < n \<Longrightarrow> ii' < n \<Longrightarrow> unq_stream kv ub s = unq_stream kv ub s' \<Longrightarrow> si_idxs si ! s ! ii = si_idxs si ! s' ! ii' \<Longrightarrow> s = s' \<and> ii = ii'"
proof -
  have ub: "ub_fits kv ub k n" using fits by (simp add: slot_fits_def)
  show k: "0 < k" and "0 < n" and "ub_n_tokens ub = k * n" using ub by (simp_all add: ub_fits_def)
  show "si_n_stream si = k" "s < k \<Longrightarrow> si_strm si ! s = unq_stream kv ub s" for s using fits by (simp_all add: slot_fits_def si_n_stream_def)
  show len: "s < k \<Longrightarrow> length (si_idxs si ! s) = n" for s using fits by (simp add: slot_fits_def)
  have "length (si_idxs si) = k" "si_strm si = map (unq_stream kv ub) [0..<k]" using fits by (simp_all add: slot_fits_def)
  with len [OF k] k show "si_size si = Some n" by (cases "si_idxs si") (auto simp: si_size_def)
  show st: "s < k \<Longrightarrow> unq_stream kv ub s < kv_n_stream kv" for s using ub by (auto simp: ub_fits_def intro: unq_stream_less [OF inv])
  show "s < k \<Longrightarrow> ii < n \<Longrightarrow> si_idxs si ! s ! ii < kv_get_size kv" for s ii
    using fits len [of s] kv_invD(2) [OF inv st, of s] nth_mem [of ii "si_idxs si ! s"] by (auto simp: slot_fits_def)
  show "s < k \<Longrightarrow> s' < k \<Longrightarrow> ii < n \<Longrightarrow> ii' < n \<Longrightarrow> unq_stream kv ub s = unq_stream kv ub s' \<Longrightarrow> si_idxs si ! s ! ii = si_idxs si ! s' ! ii' \<Longrightarrow> s = s' \<and> ii = ii'"
    for s s' ii ii'
  proof -
    assume A: "s < k" "s' < k" "ii < n" "ii' < n" "unq_stream kv ub s = unq_stream kv ub s'" "si_idxs si ! s ! ii = si_idxs si ! s' ! ii'"
    have "distinct (map (unq_stream kv ub) [0..<k])" "distinct (si_idxs si ! s)" using ub fits A(1) by (auto simp: ub_fits_def slot_fits_def)
    then have "s = s'" using A(1,2,5) by (auto simp: distinct_conv_nth)
    with A len [OF A(1)] \<open>distinct (si_idxs si ! s)\<close> show "s = s' \<and> ii = ii'" by (simp add: nth_eq_iff_index_eq)
  qed
qed

lemma offs_no_wrap: "st < (m :: nat) \<Longrightarrow> 0 < n \<Longrightarrow> m * n \<le> 2 ^ 32 \<Longrightarrow> st * n mod 2 ^ 32 = st * n"
  by (meson le_less_trans less_le_trans mod_less mult_less_mono1)

text \<open>C27: The keys of a micro-batch go to distinct rows of the key tensor: the row of token \<open>ii\<close> of stream
  \<open>s\<close> is the row of the cell the slot search chose, within the part of the tensor that belongs to the
  stream.  The values go to the same rows.  In a transposed value tensor component \<open>j\<close> of the token goes to the
  position of its cell in row \<open>j\<close> of the part of the stream; the positions are distinct and inside the tensor.\<close>

theorem kv_idxs_rows:
  assumes "kv_inv kv" and "slot_fits kv ub k n si" and "kv_n_stream kv * kv_get_size kv \<le> 2 ^ 32"
  shows "\<exists>ks vs. set_input_k_idxs ub si kv = Some ks \<and> length ks = ub_n_tokens ub \<and> distinct ks \<and>
    (\<forall>s < k. \<forall>ii < n. ks ! (s * n + ii) = unq_stream kv ub s * kv_get_size kv + si_idxs si ! s ! ii \<and>
       ks ! (s * n + ii) < kv_n_stream kv * kv_get_size kv) \<and>
    set_input_v_idxs False d ub si kv = Some ks \<and>
    set_input_v_idxs True d ub si kv = Some vs \<and> length vs = ub_n_tokens ub * d \<and> distinct vs \<and>
    (\<forall>s < k. \<forall>ii < n. \<forall>j < d. vs ! ((s * n + ii) * d + j) =
       unq_stream kv ub s * kv_get_size kv * d + j * kv_get_size kv + si_idxs si ! s ! ii) \<and>
    (\<forall>v \<in> set vs. v < kv_n_stream kv * kv_get_size kv * d)"
proof -
  note F = slot_fitsD [OF assms(1,2)]
  let ?sz = "kv_get_size kv"
  let ?f = "\<lambda>s i. si_strm si ! s * ?sz mod 2 ^ 32 + si_idxs si ! s ! i"
  let ?g = "\<lambda>s x. si_strm si ! s * ?sz * d + x mod d * ?sz + si_idxs si ! s ! (x div d)"
  let ?ks = "concat (map (\<lambda>s. map (?f s) [0..<n]) [0..<k])" and ?vs = "concat (map (\<lambda>s. map (?g s) [0..<n * d]) [0..<k])"
  have f: "?f s i = unq_stream kv ub s * ?sz + si_idxs si ! s ! i" if "s < k" "i < n" for s i
    using F(6,7) [OF that(1)] F(9) [OF that] offs_no_wrap [of "unq_stream kv ub s" _ ?sz] assms(3) by simp
  have inner: "concat (map (\<lambda>i. map (\<lambda>j. si_strm si ! s * ?sz * d + j * ?sz + si_idxs si ! s ! i) [0..<d]) [0..<n]) = map (?g s) [0..<n * d]" for s
  proof (rule nth_equalityI)
    fix x
    assume "x < length (concat (map (\<lambda>i. map (\<lambda>j. si_strm si ! s * ?sz * d + j * ?sz + si_idxs si ! s ! i) [0..<d]) [0..<n]))"
    then have x: "x < n * d" by (simp only: length_concat_rows)
    from row_split [OF this] obtain i j where "i < n" "j < d" "x = i * d + j" by blast
    then show "concat (map (\<lambda>i. map (\<lambda>j. si_strm si ! s * ?sz * d + j * ?sz + si_idxs si ! s ! i) [0..<d]) [0..<n]) ! x = map (?g s) [0..<n * d] ! x"
      using x by (simp add: nth_concat_rows)
  qed (simp add: length_concat_rows)
  have lt: "unq_stream kv ub s * ?sz + si_idxs si ! s ! i < kv_n_stream kv * ?sz" if "s < k" "i < n" for s i
    using row_lt [OF F(7) [OF that(1)] F(9) [OF that]] .
  have g: "?g s x = (unq_stream kv ub s * d + x mod d) * ?sz + si_idxs si ! s ! (x div d)" "x div d < n" "x mod d < d"
    if "s < k" "x < n * d" for s x
  proof -
    show "x div d < n" by (rule less_mult_imp_div_less [OF that(2)])
    show "x mod d < d" using that(2) by (cases "d = 0") simp_all
  qed (use F(6) [OF that(1)] in \<open>simp add: algebra_simps\<close>)
  have "distinct ?ks"
  proof (rule distinct_concat_rows)
    fix s s' i i' assume A: "s < k" "s' < k" "i < n" "i' < n" and "?f s i = ?f s' i'"
    then show "s = s' \<and> i = i'" using stream_row_inj [OF F(9) [OF A(1,3)] F(9) [OF A(2,4)]] F(10) [OF A(1-4)] by (simp only: f)
  qed
  moreover have "distinct ?vs"
  proof (rule distinct_concat_rows)
    fix s s' x x' assume A: "s < k" "s' < k" "x < n * d" "x' < n * d" and eq: "?g s x = ?g s' x'"
    note G = g [OF A(1,3)] g [OF A(2,4)]
    have "unq_stream kv ub s * d + x mod d = unq_stream kv ub s' * d + x' mod d \<and> si_idxs si ! s ! (x div d) = si_idxs si ! s' ! (x' div d)"
      using eq stream_row_inj [OF F(9) [OF A(1) G(2)] F(9) [OF A(2) G(5)]] by (simp only: G)
    then have "unq_stream kv ub s = unq_stream kv ub s' \<and> x mod d = x' mod d" "si_idxs si ! s ! (x div d) = si_idxs si ! s' ! (x' div d)"
      using stream_row_inj [OF G(3) G(6)] by blast+
    with F(10) [OF A(1,2) G(2,5)] show "s = s' \<and> x = x'" by (metis div_mult_mod_eq)
  qed
  moreover have "\<forall>v \<in> set ?vs. v < kv_n_stream kv * ?sz * d"
  proof
    fix v assume "v \<in> set ?vs"
    then obtain s x where sx: "s < k" "x < n * d" "v = ?g s x" by auto
    note G = g [OF sx(1,2)]
    have "unq_stream kv ub s * d + x mod d < kv_n_stream kv * d" using row_lt [OF F(7) [OF sx(1)] G(3)] .
    from row_lt [OF this F(9) [OF sx(1) G(2)]] show "v < kv_n_stream kv * ?sz * d" using sx(3) G(1) by (simp add: ac_simps)
  qed
  moreover have "set_input_k_idxs ub si kv = Some ?ks" "set_input_v_idxs False d ub si kv = Some ?ks"
    by (simp_all add: set_input_k_idxs_def set_input_v_idxs_def F mult.commute)
  moreover have "set_input_v_idxs True d ub si kv = Some ?vs"
    using F(3) by (simp add: set_input_v_idxs_def F(1,2) inner mult.commute [of k n])
  moreover have "length ?ks = ub_n_tokens ub" "length ?vs = ub_n_tokens ub * d" by (simp_all only: length_concat_rows F mult.assoc)
  moreover have "?ks ! (s * n + ii) = unq_stream kv ub s * ?sz + si_idxs si ! s ! ii" if "s < k" "ii < n" for s ii
    using nth_concat_rows [OF that, of ?f] f [OF that] by simp
  moreover have "?vs ! ((s * n + ii) * d + j) = unq_stream kv ub s * ?sz * d + j * ?sz + si_idxs si ! s ! ii" if "s < k" "ii < n" "j < d" for s ii j
  proof -
    have x: "ii * d + j < n * d" by (rule row_lt [OF that(2,3)])
    have "?vs ! ((s * n + ii) * d + j) = ?vs ! (s * (n * d) + (ii * d + j))" by (simp add: algebra_simps)
    also have "\<dots> = ?g s (ii * d + j)" by (rule nth_concat_rows [OF that(1) x])
    also have "\<dots> = unq_stream kv ub s * ?sz * d + j * ?sz + si_idxs si ! s ! ii" using F(6) [OF that(1)] that(3) by simp
    finally show ?thesis .
  qed
  ultimately show ?thesis using lt by (intro exI [where x = ?ks] exI [where x = ?vs]) simp
qed

theorem kv_idxs_rows_witness:
  "\<exists>ks vs. set_input_k_idxs demo_ub demo_si demo_kv2 = Some ks \<and> ks ! 0 = 5 \<and>
    set_input_v_idxs True 4 demo_ub demo_si demo_kv2 = Some vs \<and> vs ! 3 = 23"
proof -
  have dims: "kv_n_stream demo_kv2 = 3" "si_idxs demo_si ! 0 ! 0 = 1" by (simp_all add: demo_kv2_def demo_si_def)
  from kv_idxs_rows [OF demo_kv2_inv demo_si_fits(1), of 4] obtain ks vs where
    "set_input_k_idxs demo_ub demo_si demo_kv2 = Some ks" "ks ! 0 = unq_stream demo_kv2 demo_ub 0 * kv_get_size demo_kv2 + si_idxs demo_si ! 0 ! 0"
    "set_input_v_idxs True 4 demo_ub demo_si demo_kv2 = Some vs"
    "\<And>j. j < 4 \<Longrightarrow> vs ! j = unq_stream demo_kv2 demo_ub 0 * kv_get_size demo_kv2 * 4 + j * kv_get_size demo_kv2 + si_idxs demo_si ! 0 ! 0"
    by (auto simp: dims demo_kv2_eval(2))
  then show ?thesis by (simp add: dims demo_kv2_eval(1,2))
qed

section \<open>A placed token sees itself\<close>

lemma tok_stream_eq:
  assumes inv: "kv_inv kv" and ok: "token_ok kv ub st i" and st: "st < kv_n_stream kv"
  shows "tok_stream kv ub i = st" "nat (tok_seq ub i) \<in> set (map nat (tok_seqs ub i))"
proof -
  have hd: "tok_seq ub i \<in> set (tok_seqs ub i)"
    using ok by (cases "ub_seq_id ub ! i"; cases "nat (ub_n_seq_id ub ! i)") (auto simp: token_ok_def tok_seq_def tok_seqs_def)
  then show "nat (tok_seq ub i) \<in> set (map nat (tok_seqs ub i))" by simp
  from hd ok have "nat (tok_seq ub i) < LLAMA_MAX_SEQ" "1 < kv_n_stream kv \<longrightarrow> nat (tok_seq ub i) = st" by (auto simp: token_ok_def)
  then show "tok_stream kv ub i = st" using inv st by (auto simp: kv_inv_def tok_stream_def)
qed

lemma same_pos_unmasked:
  "0 \<le> p \<Longrightarrow> (swa \<noteq> SWA_NONE \<longrightarrow> 0 < to_s32 n) \<Longrightarrow> (swa = SWA_CHUNKED \<longrightarrow> n \<noteq> 0) \<Longrightarrow> is_masked_swa n swa p p = Some False"
proof (cases swa)
  case SWA_CHUNKED
  assume "0 \<le> p" "swa = SWA_CHUNKED \<longrightarrow> n \<noteq> 0"
  moreover have "p div int n * int n \<le> p" if "n \<noteq> 0"
    using that div_mult_mod_eq [of p "int n"] pos_mod_sign [of "int n" p] by linarith
  ultimately show ?thesis using SWA_CHUNKED by (simp add: is_masked_swa_def)
qed (auto simp: is_masked_swa_def Let_def signed_divide_int_def)

lemma n_kv_spec:
  assumes inv: "kv_inv kv" and strm: "\<And>s. s < si_n_stream si \<Longrightarrow> si_strm si ! s < kv_n_stream kv"
    and pad: "kv_n_pad kv = 2 ^ m" "m < 32" "kv_get_size kv + kv_n_pad kv < 2 ^ 32"
  shows "kv_get_n_kv si kv \<le> kv_get_size kv"
    and "s < si_n_stream si \<Longrightarrow> j < kv_get_size kv \<Longrightarrow> kc_pos (kv_v_cells kv ! (si_strm si ! s)) ! j \<noteq> - 1 \<Longrightarrow> j < kv_get_n_kv si kv"
proof -
  have size: "\<forall>s < si_n_stream si. cells_size (kv_v_cells kv ! (si_strm si ! s)) = kv_get_size kv"
    using kv_invD(2) [OF inv strm] by blast
  show "kv_get_n_kv si kv \<le> kv_get_size kv" by (rule n_kv_bounds(1) [OF size])
  assume s: "s < si_n_stream si" and j: "j < kv_get_size kv" "kc_pos (kv_v_cells kv ! (si_strm si ! s)) ! j \<noteq> - 1"
  have "j < n_kv_stream kv (kv_v_cells kv ! (si_strm si ! s))"
    using used_below [OF kv_invD(1) [OF inv strm [OF s]] _ j(2) pad(1) _ pad(2)] size s j(1) pad(3) by simp
  with n_kv_bounds(2) [OF size s] show "j < kv_get_n_kv si kv" by simp
qed

lemma placed_sees:
  assumes inv: "kv_inv kv'" and ok: "token_ok kv' ub st i" and st: "st < kv_n_stream kv'" and cell: "cell_at (kv_v_cells kv' ! st) j = new_cell ub i"
    and swa: "kv_swa_type kv' \<noteq> SWA_NONE \<longrightarrow> 0 < to_s32 (kv_n_swa kv')" "kv_swa_type kv' = SWA_CHUNKED \<longrightarrow> kv_n_swa kv' \<noteq> 0"
  shows "sees kv' ub causal i j" "kc_pos (kv_v_cells kv' ! st) ! j \<noteq> - 1"
proof -
  have p: "0 \<le> ub_pos ub ! i" using ok by (simp add: token_ok_def)
  have c: "kc_pos (kv_v_cells kv' ! st) ! j = ub_pos ub ! i" "kc_seq (kv_v_cells kv' ! st) ! j = set (map nat (tok_seqs ub i))"
    using cell by (simp_all add: cell_at_def new_cell_def)
  then show "kc_pos (kv_v_cells kv' ! st) ! j \<noteq> - 1" using p by simp
  show "sees kv' ub causal i j"
    unfolding sees_def visible_def Let_def tok_stream_eq(1) [OF inv ok st]
    using c p tok_stream_eq(2) [OF inv ok st] same_pos_unmasked [OF p swa] by simp
qed




end
