(* ===== verification/KvRun.thy ===== *)
theory KvRun
  imports KvInputs
begin

text \<open>
  Running batches through the key-value cache: pending shifts and copies (\<^verbatim>\<open>get_has_shift\<close>,
  \<^verbatim>\<open>set_input_k_shift\<close>, \<^verbatim>\<open>update\<close>, \<^verbatim>\<open>init_update\<close>), the context object that applies the micro-batches
  one after the other (\<^verbatim>\<open>llama_kv_cache_context\<close> of \<^verbatim>\<open>src/src/llama-kv-cache.cpp\<close>), the memory status
  (\<^verbatim>\<open>src/src/llama-memory.cpp\<close>), and the memory side of \<^verbatim>\<open>llama_context::decode\<close> and
  \<^verbatim>\<open>llama_context::memory_update\<close> (\<^verbatim>\<open>src/src/llama-context.cpp\<close>).  The computation graphs are arguments:
  \<open>shift_graph\<close> and \<open>compute\<close> say what they leave in the data of the streams and whether they succeed.
\<close>

section \<open>Shifts and copies\<close>

definition kv_get_has_shift :: "'d kv_cache \<Rightarrow> bool" where
  "kv_get_has_shift kv = fold (\<lambda>s r. r \<or> cells_get_has_shift (kv_v_cells kv ! s)) [0..<kv_n_stream kv] False"

definition set_input_k_shift :: "'d kv_cache \<Rightarrow> int list option" where
  "set_input_k_shift kv = foldM (\<lambda>s data. let c = kv_v_cells kv ! s in
       foldM (\<lambda>i data. do {
           e \<leftarrow> cells_is_empty i c;
           x \<leftarrow> (if e then Some 0 else cells_get_shift i c);
           Some (data @ [x])
         }) [0..<cells_size c] data)
     [0..<kv_n_stream kv] []"

text \<open>When the shift graph cannot be allocated or computed the function returns with the shifts still pending.\<close>

definition kv_update :: "('d list \<Rightarrow> int list \<Rightarrow> bool \<times> 'd list) \<Rightarrow> bool \<Rightarrow> bool \<Rightarrow> (nat \<times> nat) list \<Rightarrow> 'd kv_cache
    \<Rightarrow> (bool \<times> 'd kv_cache) option" where
  "kv_update shift_graph rope_none do_shift sc_info kv = do {
     guard (sc_info = [] \<or> kv_n_stream kv > 1);
     kv1 \<leftarrow> foldM (\<lambda>(ssrc, sdst) kv. do {
         guard (ssrc < kv_n_stream kv \<and> sdst < kv_n_stream kv \<and> ssrc \<noteq> sdst);
         Some (kv\<lparr>kv_data := (kv_data kv)[sdst := kv_data kv ! ssrc]\<rparr>)
       }) sc_info kv;
     if \<not> do_shift then Some (False, kv1)
     else if rope_none then Some (False, kv1\<lparr>kv_v_cells := map cells_reset_shift (kv_v_cells kv1)\<rparr>)
     else do {
       shifts \<leftarrow> set_input_k_shift kv1;
       (case shift_graph (kv_data kv1) shifts of
          (False, d) \<Rightarrow> Some (False, kv1\<lparr>kv_data := d\<rparr>)
        | (True, d) \<Rightarrow> Some (True, kv1\<lparr>kv_data := d, kv_v_cells := map cells_reset_shift (kv_v_cells kv1)\<rparr>))
     }
   }"

section \<open>The context\<close>

definition ctx_full :: "'d kv_cache \<Rightarrow> 'e kv_context" where
  "ctx_full kv = (ctx_error STATUS_SUCCESS)\<lparr>cx_n_kv := kv_get_size kv,
     cx_sinfos := [\<lparr>si_s0 = 0, si_s1 = kv_n_stream kv - 1, si_strm = [0..<kv_n_stream kv], si_idxs = replicate (kv_n_stream kv) [0]\<rparr>]\<rparr>"

definition ctx_update :: "bool \<Rightarrow> (nat \<times> nat) list \<Rightarrow> 'e kv_context" where
  "ctx_update do_shift sc_info = (ctx_error (if \<not> do_shift \<and> sc_info = [] then STATUS_NO_UPDATE else STATUS_SUCCESS))
     \<lparr>cx_do_shift := do_shift, cx_sc_info := sc_info\<rparr>"

text \<open>The pending copies are moved out of the cache.\<close>

definition init_update :: "'d kv_cache \<Rightarrow> 'e kv_context \<times> 'd kv_cache" where
  "init_update kv = (ctx_update (kv_get_has_shift kv) (kv_sc_info kv), kv\<lparr>kv_sc_info := []\<rparr>)"

definition llama_memory_status_is_fail :: "llama_memory_status \<Rightarrow> bool" where
  "llama_memory_status_is_fail st = (case st of STATUS_SUCCESS \<Rightarrow> False | STATUS_NO_UPDATE \<Rightarrow> False | _ \<Rightarrow> True)"

definition llama_memory_status_combine :: "llama_memory_status \<Rightarrow> llama_memory_status \<Rightarrow> llama_memory_status" where
  "llama_memory_status_combine s0 s1 =
     (if s0 = STATUS_FAILED_PREPARE \<or> s0 = STATUS_FAILED_COMPUTE then s0
      else if s1 = STATUS_FAILED_PREPARE \<or> s1 = STATUS_FAILED_COMPUTE then s1
      else if s0 = STATUS_SUCCESS \<or> s1 = STATUS_SUCCESS then STATUS_SUCCESS else STATUS_NO_UPDATE)"

definition ctx_next :: "'e kv_context \<Rightarrow> (bool \<times> 'e kv_context) option" where
  "ctx_next cx = do {
     guard (cx_status cx = STATUS_SUCCESS);
     let cx' = cx\<lparr>cx_i_cur := cx_i_cur cx + 1\<rparr>;
     Some (\<not> cx_i_cur cx' \<ge> length (cx_ubatches cx'), cx')
   }"

definition ctx_get_ubatch :: "'e kv_context \<Rightarrow> 'e llama_ubatch option" where
  "ctx_get_ubatch cx = do {
     guard (cx_status cx = STATUS_SUCCESS \<and> cx_i_cur cx < length (cx_ubatches cx));
     Some (cx_ubatches cx ! cx_i_cur cx)
   }"

definition ctx_apply :: "('d list \<Rightarrow> int list \<Rightarrow> bool \<times> 'd list) \<Rightarrow> bool \<Rightarrow> 'e kv_context \<Rightarrow> 'd kv_cache \<Rightarrow> ('e kv_context \<times> 'd kv_cache) option" where
  "ctx_apply shift_graph rope_none cx kv = do {
     guard (\<not> llama_memory_status_is_fail (cx_status cx));
     if cx_ubatches cx = [] then do {
       (_, kv') \<leftarrow> kv_update shift_graph rope_none (cx_do_shift cx) (cx_sc_info cx) kv;
       Some (cx, kv')
     } else do {
       guard (cx_i_cur cx < length (cx_sinfos cx) \<and> cx_i_cur cx < length (cx_ubatches cx));
       let si = cx_sinfos cx ! cx_i_cur cx;
       kv' \<leftarrow> apply_ubatch si (cx_ubatches cx ! cx_i_cur cx) kv;
       Some (cx\<lparr>cx_n_kv := kv_get_n_kv si kv'\<rparr>, kv')
     }
   }"

definition kv_get_padding :: "bool \<Rightarrow> nat" where
  "kv_get_padding flash_attn = (if flash_attn then 256 else 32)"

section \<open>Decoding\<close>

text \<open>\<^verbatim>\<open>memory_update\<close>; the reservation of a new worst-case graph does not touch the memory.\<close>

definition memory_update :: "('d list \<Rightarrow> int list \<Rightarrow> bool \<times> 'd list) \<Rightarrow> bool \<Rightarrow> 'd kv_cache \<Rightarrow> (bool \<times> 'd kv_cache) option" where
  "memory_update shift_graph rope_none kv = (case init_update kv of (cx :: unit kv_context, kv1) \<Rightarrow>
     (case cx_status cx of
        STATUS_SUCCESS \<Rightarrow> do { (_, kv2) \<leftarrow> ctx_apply shift_graph rope_none cx kv1; Some (True, kv2) }
      | _ \<Rightarrow> Some (False, kv1)))"

text \<open>The retry loop around \<^verbatim>\<open>init_batch\<close>; \<open>Inl\<close> is a return code.\<close>

function decode_prepare :: "('d list \<Rightarrow> int list \<Rightarrow> bool \<times> 'd list) \<Rightarrow> bool \<Rightarrow> nat \<Rightarrow> bool \<Rightarrow> 'e allocr \<Rightarrow> 'd kv_cache
    \<Rightarrow> ((int \<times> 'd kv_cache) + ('e kv_context \<times> 'e allocr \<times> 'd kv_cache)) option" where
  "decode_prepare shift_graph rope_none n_ubatch did_optimize a kv = do {
     (cx, a1, kv1) \<leftarrow> init_batch n_ubatch a kv;
     (case cx_status cx of
        STATUS_SUCCESS \<Rightarrow> Some (Inr (cx, a1, kv1))
      | STATUS_NO_UPDATE \<Rightarrow> Some (Inl (- 2, kv1))
      | STATUS_FAILED_COMPUTE \<Rightarrow> Some (Inl (- 2, kv1))
      | STATUS_FAILED_PREPARE \<Rightarrow>
          if did_optimize then Some (Inl (1, kv1))
          else do {
            (updated, kv2) \<leftarrow> memory_update shift_graph rope_none kv1;
            if updated then decode_prepare shift_graph rope_none n_ubatch True a1 kv2 else Some (Inl (1, kv2))
          })
   }"
  by pat_completeness auto

termination decode_prepare
  by (relation "measure (\<lambda>(_, _, _, did, _, _). if did then 0 else 1)") auto

declare decode_prepare.simps [simp del]

datatype ggml_status = GGML_STATUS_ALLOC_FAILED | GGML_STATUS_FAILED | GGML_STATUS_SUCCESS | GGML_STATUS_ABORTED

text \<open>The positions of a micro-batch that could not be computed are removed again.\<close>

definition fail_pos_min :: "'e llama_ubatch \<Rightarrow> (nat \<Rightarrow> int) option" where
  "fail_pos_min ub = foldM (\<lambda>i pm. do {
       guard (i < length (ub_seq_id ub) \<and> ub_seq_id ub ! i \<noteq> [] \<and> i < length (ub_pos ub));
       let seq_id = hd (ub_seq_id ub ! i);
       guard (0 \<le> seq_id \<and> nat seq_id < LLAMA_MAX_SEQ);
       Some (pm(nat seq_id := min (pm (nat seq_id)) (ub_pos ub ! i)))
     }) [0..<ub_n_tokens ub] (\<lambda>_. int32_max)"

definition decode_rollback :: "'e llama_ubatch \<Rightarrow> 'd kv_cache \<Rightarrow> 'd kv_cache option" where
  "decode_rollback ub kv = do {
     pm \<leftarrow> fail_pos_min ub;
     foldM (\<lambda>s kv. if pm s = int32_max then Some kv else do { (_, kv') \<leftarrow> kv_seq_rm (int s) (pm s) (- 1) kv; Some kv' })
       [0..<LLAMA_MAX_SEQ] kv
   }"

text \<open>The loop over the micro-batches; fuel for every micro-batch of the context is enough.\<close>

fun decode_ubatches :: "nat \<Rightarrow> ('e llama_ubatch \<Rightarrow> 'd kv_cache \<Rightarrow> ggml_status \<times> 'd list) \<Rightarrow> ('d list \<Rightarrow> int list \<Rightarrow> bool \<times> 'd list) \<Rightarrow> bool
    \<Rightarrow> 'e kv_context \<Rightarrow> 'd kv_cache \<Rightarrow> (int \<times> 'e kv_context \<times> 'd kv_cache) option" where
  "decode_ubatches 0 compute shift_graph rope_none cx kv = None"
| "decode_ubatches (Suc fuel) compute shift_graph rope_none cx kv = do {
     ub \<leftarrow> ctx_get_ubatch cx;
     (cx1, kv1) \<leftarrow> ctx_apply shift_graph rope_none cx kv;
     (case compute ub kv1 of (st, d) \<Rightarrow>
       let kv2 = kv1\<lparr>kv_data := d\<rparr> in
       if st = GGML_STATUS_SUCCESS then do {
         (more, cx2) \<leftarrow> ctx_next cx1;
         if more then decode_ubatches fuel compute shift_graph rope_none cx2 kv2 else Some (0, cx2, kv2)
       } else do {
         kv3 \<leftarrow> decode_rollback ub kv2;
         Some (if st = GGML_STATUS_ABORTED then 2 else if st = GGML_STATUS_ALLOC_FAILED then - 2 else - 3, cx1, kv3)
       })
   }"

section \<open>Pending shifts and copies\<close>

lemma has_shift_iff: "kv_get_has_shift kv \<longleftrightarrow> (\<exists>s < kv_n_stream kv. kc_has_shift (kv_v_cells kv ! s))"
proof -
  have "fold (\<lambda>s r. r \<or> P s) xs b \<longleftrightarrow> b \<or> (\<exists>s \<in> set xs. P s)" for P and xs :: "nat list" and b
    by (induction xs arbitrary: b) auto
  then show ?thesis by (auto simp: kv_get_has_shift_def cells_get_has_shift_def)
qed

lemma k_shift_cells:
  assumes inv: "cells_inv c"
  shows "foldM (\<lambda>i data. do { e \<leftarrow> cells_is_empty i c; x \<leftarrow> (if e then Some 0 else cells_get_shift i c); Some (data @ [x]) })
    [0..<cells_size c] data = Some (data @ kc_shift c)"
proof -
  have "wp (foldM (\<lambda>i data. do { e \<leftarrow> cells_is_empty i c; x \<leftarrow> (if e then Some 0 else cells_get_shift i c); Some (data @ [x]) })
    [0..<cells_size c] data) (\<lambda>d. d = data @ take (cells_size c) (kc_shift c))"
  proof (rule wp_foldM_upt [where P = "\<lambda>k d. d = data @ take k (kc_shift c)"])
    fix k d
    assume k: "k < cells_size c" and d: "d = data @ take k (kc_shift c)"
    note D = cell_atD [OF inv k]
    have "k < length (kc_shift c)" using inv k by (simp add: cells_inv_def cells_size_def)
    then have d': "d @ [kc_shift c ! k] = data @ take (Suc k) (kc_shift c)" using d by (simp add: take_Suc_conv_app_nth)
    show "wp (do { e \<leftarrow> cells_is_empty k c; x \<leftarrow> (if e then Some 0 else cells_get_shift k c); Some (d @ [x]) }) (\<lambda>d. d = data @ take (Suc k) (kc_shift c))"
      using D d' cells_is_empty_eq [OF inv D(1)] by (auto simp: cells_get_shift_def)
  qed simp
  moreover have "take (cells_size c) (kc_shift c) = kc_shift c" using inv by (simp add: cells_inv_def cells_size_def)
  ultimately show ?thesis by (auto dest: wpD)
qed

lemma k_shift_eq:
  assumes inv: "kv_inv kv"
  shows "set_input_k_shift kv = Some (concat (map kc_shift (kv_v_cells kv)))"
proof -
  have "foldM (\<lambda>s data. let c = kv_v_cells kv ! s in
       foldM (\<lambda>i data. do { e \<leftarrow> cells_is_empty i c; x \<leftarrow> (if e then Some 0 else cells_get_shift i c); Some (data @ [x]) }) [0..<cells_size c] data)
     ss data = Some (data @ concat (map (\<lambda>s. kc_shift (kv_v_cells kv ! s)) ss))" if "\<forall>s \<in> set ss. s < kv_n_stream kv" for ss data
    using that by (induction ss arbitrary: data) (simp_all add: Let_def k_shift_cells kv_invD(1) [OF inv])
  moreover have "map (\<lambda>s. kc_shift (kv_v_cells kv ! s)) [0..<kv_n_stream kv] = map kc_shift (kv_v_cells kv)"
    using inv by (intro nth_equalityI) (simp_all add: kv_inv_def)
  ultimately show ?thesis by (simp add: set_input_k_shift_def)
qed

text \<open>The data of the streams after the copies, in order.\<close>

definition copy_streams :: "(nat \<times> nat) list \<Rightarrow> 'd list \<Rightarrow> 'd list" where
  "copy_streams sc d = fold (\<lambda>(a, b) d. d[b := d ! a]) sc d"

lemma copy_streams_length [simp]: "length (copy_streams sc d) = length d"
  unfolding copy_streams_def by (induction sc arbitrary: d) auto

lemma copies_run:
  assumes "\<forall>(a, b) \<in> set sc. a < kv_n_stream kv \<and> b < kv_n_stream kv \<and> a \<noteq> b"
  shows "foldM (\<lambda>(ssrc, sdst) kv. do {
         guard (ssrc < kv_n_stream kv \<and> sdst < kv_n_stream kv \<and> ssrc \<noteq> sdst);
         Some (kv\<lparr>kv_data := (kv_data kv)[sdst := kv_data kv ! ssrc]\<rparr>)
       }) sc kv = Some (kv\<lparr>kv_data := copy_streams sc (kv_data kv)\<rparr>)"
  using assms by (induction sc arbitrary: kv) (auto simp: copy_streams_def)

lemma inv_data:
  assumes "kv_inv kv" "length d = length (kv_data kv)"
  shows "kv_inv (kv\<lparr>kv_data := d\<rparr>)" "kv_inv (kv\<lparr>kv_sc_info := [], kv_data := d\<rparr>)"
proof -
  have "kv_get_size (kv\<lparr>kv_data := d\<rparr>) = kv_get_size kv" "kv_get_size (kv\<lparr>kv_sc_info := [], kv_data := d\<rparr>) = kv_get_size kv"
    by (simp_all add: kv_get_size_def)
  then have "stream_inv (kv\<lparr>kv_data := d\<rparr>) st = stream_inv kv st" "stream_inv (kv\<lparr>kv_sc_info := [], kv_data := d\<rparr>) st = stream_inv kv st" for st
    by (simp_all add: stream_inv_def)
  with assms show "kv_inv (kv\<lparr>kv_data := d\<rparr>)" "kv_inv (kv\<lparr>kv_sc_info := [], kv_data := d\<rparr>)"
    unfolding kv_inv_def by simp_all
qed

definition clear_shifts :: "'d kv_cache \<Rightarrow> 'd kv_cache" where
  "clear_shifts kv = kv\<lparr>kv_v_cells := map cells_reset_shift (kv_v_cells kv)\<rparr>"

lemma reset_shift_fields [simp]: "kc_pos (cells_reset_shift c) = kc_pos c" "kc_seq (cells_reset_shift c) = kc_seq c"
    "kc_has_shift (cells_reset_shift c) = False" "cells_size (cells_reset_shift c) = cells_size c"
  by (simp_all add: cells_reset_shift_def cells_size_def)

lemma clear_shifts_inv:
  assumes "kv_inv kv"
  shows "kv_inv (clear_shifts kv)" "\<not> kv_get_has_shift (clear_shifts kv)" "seq_view (clear_shifts kv) s = seq_view kv s"
    "kv_get_size (clear_shifts kv) = kv_get_size kv"
proof -
  have len: "length (kv_v_cells kv) = kv_n_stream kv" using assms by (simp add: kv_inv_def)
  have lt: "kv_seq_to_stream kv ! s < kv_n_stream kv" if "s < length (kv_seq_to_stream kv)" for s using assms that by (auto simp: kv_inv_def)
  have z: "0 < length (kv_seq_to_stream kv)" using assms max_seq_small(1) by (auto simp: kv_inv_def)
  show size: "kv_get_size (clear_shifts kv) = kv_get_size kv" using lt [OF z] len by (simp add: kv_get_size_def clear_shifts_def)
  show "\<not> kv_get_has_shift (clear_shifts kv)" using len by (auto simp: has_shift_iff clear_shifts_def)
  show "seq_view (clear_shifts kv) s = seq_view kv s" using lt [of s] len by (auto simp: seq_view_def clear_shifts_def Let_def)
  have "stream_inv (clear_shifts kv) st" if "st < kv_n_stream kv" for st
    using kv_invD [OF assms that] that len unfolding stream_inv_def size
    by (auto simp: clear_shifts_def cells_inv_reset_shift cell_at_def cell_legal_def)
  with assms show "kv_inv (clear_shifts kv)" by (simp add: kv_inv_def clear_shifts_def)
qed

lemma update_spec:
  assumes inv: "kv_inv kv" and sc: "\<forall>(a, b) \<in> set sc. a < kv_n_stream kv \<and> b < kv_n_stream kv \<and> a \<noteq> b"
  shows "kv_update shift_graph rope_none do_shift sc kv = Some (
    let kv1 = kv\<lparr>kv_data := copy_streams sc (kv_data kv)\<rparr>; r = shift_graph (kv_data kv1) (concat (map kc_shift (kv_v_cells kv))) in
    if \<not> do_shift then (False, kv1) else if rope_none then (False, clear_shifts kv1)
    else if fst r then (True, clear_shifts (kv1\<lparr>kv_data := snd r\<rparr>)) else (False, kv1\<lparr>kv_data := snd r\<rparr>))"
proof -
  let ?kv1 = "kv\<lparr>kv_data := copy_streams sc (kv_data kv)\<rparr>"
  have "sc = [] \<or> kv_n_stream kv > 1" using sc by (cases sc) auto
  moreover have "kv_inv ?kv1" by (rule inv_data(1) [OF inv]) simp
  then have "set_input_k_shift ?kv1 = Some (concat (map kc_shift (kv_v_cells kv)))" by (simp add: k_shift_eq)
  ultimately show ?thesis
    by (simp add: kv_update_def copies_run [OF sc] Let_def clear_shifts_def split: bool.splits prod.splits)
qed

text \<open>C32: Handling the pending shifts and copies.  The update never aborts, keeps the invariant and the view of
  every sequence, and leaves no copy pending; the data of the streams have been copied in the order in which
  the copies were requested.  It reports an update exactly when a shift or a copy was pending.  The shift
  graph gets the shift of every cell of every stream; when it succeeds, or when the model has no
  rotation, no shift is pending and the next update has nothing to do, and when it fails the shifts stay pending.\<close>

theorem memory_update_flushes:
  assumes "kv_inv kv" and "\<And>d s. length (snd (shift_graph d s)) = length d"
  shows "\<exists>kv'. memory_update shift_graph rope_none kv = Some (kv_get_has_shift kv \<or> kv_sc_info kv \<noteq> [], kv') \<and> kv_inv kv' \<and>
    (\<forall>s. seq_view kv' s = seq_view kv s) \<and> kv_sc_info kv' = [] \<and>
    (let d = copy_streams (kv_sc_info kv) (kv_data kv); r = shift_graph d (concat (map kc_shift (kv_v_cells kv))) in
      kv_data kv' = (if kv_get_has_shift kv \<and> \<not> rope_none then snd r else d) \<and>
      (kv_get_has_shift kv' \<longleftrightarrow> kv_get_has_shift kv \<and> \<not> rope_none \<and> \<not> fst r) \<and>
      (\<not> kv_get_has_shift kv' \<longrightarrow> memory_update shift_graph rope_none kv' = Some (False, kv')))"
proof -
  let ?sc = "kv_sc_info kv" and ?kv1 = "kv\<lparr>kv_sc_info := []\<rparr>"
  let ?d = "copy_streams ?sc (kv_data kv)"
  let ?r = "shift_graph ?d (concat (map kc_shift (kv_v_cells kv)))"
  let ?kv2 = "\<lambda>d. kv\<lparr>kv_sc_info := [], kv_data := d\<rparr>"
  have sc: "\<forall>(a, b) \<in> set ?sc. a < kv_n_stream ?kv1 \<and> b < kv_n_stream ?kv1 \<and> a \<noteq> b" using assms(1) by (auto simp: kv_inv_def)
  have inv2: "kv_inv (?kv2 d)" if "length d = length (kv_data kv)" for d by (rule inv_data(2) [OF assms(1) that])
  have inv1: "kv_inv ?kv1" using inv2 [OF refl] by simp
  define kv' where "kv' = (if kv_get_has_shift kv then if rope_none then clear_shifts (?kv2 ?d)
     else if fst ?r then clear_shifts (?kv2 (snd ?r)) else ?kv2 (snd ?r) else ?kv2 ?d)"
  have run: "memory_update shift_graph rope_none kv = Some (kv_get_has_shift kv \<or> ?sc \<noteq> [], kv')"
    using update_spec [OF inv1 sc, of shift_graph rope_none "kv_get_has_shift kv"]
    by (auto simp: memory_update_def init_update_def ctx_update_def ctx_error_def ctx_apply_def llama_memory_status_is_fail_def kv'_def
        Let_def copy_streams_def)
  have len: "length ?d = length (kv_data kv)" "length (snd ?r) = length (kv_data kv)" using assms(2) by simp_all
  note I = inv2 [OF len(1)] inv2 [OF len(2)]
  note C = clear_shifts_inv [OF I(1)] clear_shifts_inv [OF I(2)]
  have view: "seq_view (?kv2 d) s = seq_view kv s" "kv_get_has_shift (?kv2 d) = kv_get_has_shift kv" for d s
    by (simp_all add: seq_view_def has_shift_iff)
  have "kv_inv kv'" using I C by (simp add: kv'_def)
  moreover have "\<forall>s. seq_view kv' s = seq_view kv s" using C view by (simp add: kv'_def)
  moreover have sc': "kv_sc_info kv' = []" by (simp add: kv'_def clear_shifts_def)
  moreover have "kv_data kv' = (if kv_get_has_shift kv \<and> \<not> rope_none then snd ?r else ?d)" by (simp add: kv'_def clear_shifts_def)
  moreover have "kv_get_has_shift kv' \<longleftrightarrow> kv_get_has_shift kv \<and> \<not> rope_none \<and> \<not> fst ?r" using C view by (simp add: kv'_def)
  moreover have "memory_update shift_graph rope_none kv' = Some (False, kv')" if "\<not> kv_get_has_shift kv'"
    using that sc' by (simp add: memory_update_def init_update_def ctx_update_def ctx_error_def)
  ultimately show ?thesis using run unfolding Let_def by blast
qed

theorem memory_update_flushes_witness:
  "\<exists>kv'. memory_update (\<lambda>d s. (True, d)) False (demo_kv2\<lparr>kv_sc_info := [(2, 0)]\<rparr>) = Some (True, kv') \<and> kv_sc_info kv' = []"
proof -
  let ?kv = "demo_kv2\<lparr>kv_sc_info := [(2, 0)]\<rparr>"
  have "kv_get_size ?kv = kv_get_size demo_kv2" by (simp add: kv_get_size_def)
  then have "stream_inv ?kv st = stream_inv demo_kv2 st" for st by (simp add: stream_inv_def)
  moreover have "kv_n_stream demo_kv2 = 3" by (simp add: demo_kv2_def)
  ultimately have "kv_inv ?kv" using demo_kv2_inv unfolding kv_inv_def by simp
  from memory_update_flushes [OF this, of "\<lambda>d s. (True, d)" False] show ?thesis by auto
qed

section \<open>Taking a micro-batch back\<close>

definition rollback_ready :: "'d kv_cache \<Rightarrow> 'e llama_ubatch \<Rightarrow> bool" where
  "rollback_ready kv ub \<longleftrightarrow> (\<forall>i < ub_n_tokens ub. i < length (ub_seq_id ub) \<and> ub_seq_id ub ! i \<noteq> [] \<and> i < length (ub_pos ub) \<and>
     0 \<le> ub_pos ub ! i \<and> ub_pos ub ! i < int32_max \<and> 0 \<le> tok_seq ub i \<and> nat (tok_seq ub i) < length (kv_seq_to_stream kv))"

lemma seq_to_stream_length: "kv_inv kv \<Longrightarrow> length (kv_seq_to_stream kv) \<le> LLAMA_MAX_SEQ"
  by (auto simp: kv_inv_def)

lemma fail_pos_min_spec:
  assumes inv: "kv_inv kv" and ready: "rollback_ready kv ub"
  shows "wp (fail_pos_min ub) (\<lambda>pm. \<forall>s. (pm s = int32_max \<or> (0 \<le> pm s \<and> pm s < int32_max \<and> s < length (kv_seq_to_stream kv))) \<and>
    (\<forall>p < int32_max. pm s \<le> p \<longleftrightarrow> (\<exists>i < ub_n_tokens ub. tok_seq ub i = int s \<and> ub_pos ub ! i \<le> p)))"
proof -
  let ?P = "\<lambda>k pm. \<forall>s. (pm s = int32_max \<or> (0 \<le> pm s \<and> pm s < int32_max \<and> s < length (kv_seq_to_stream kv))) \<and>
    (\<forall>p < int32_max. pm s \<le> p \<longleftrightarrow> (\<exists>i < k. tok_seq ub i = int s \<and> ub_pos ub ! i \<le> p))"
  have "wp (foldM (\<lambda>i pm. do {
       guard (i < length (ub_seq_id ub) \<and> ub_seq_id ub ! i \<noteq> [] \<and> i < length (ub_pos ub));
       let seq_id = hd (ub_seq_id ub ! i);
       guard (0 \<le> seq_id \<and> nat seq_id < LLAMA_MAX_SEQ);
       Some (pm(nat seq_id := min (pm (nat seq_id)) (ub_pos ub ! i)))
     }) [0..<ub_n_tokens ub] (\<lambda>_. int32_max)) (?P (ub_n_tokens ub))"
  proof (rule wp_foldM_upt [where P = ?P])
    show "?P 0 (\<lambda>_. int32_max)" by auto
  next
    fix k pm
    assume k: "k < ub_n_tokens ub" and P: "?P k pm"
    have R: "k < length (ub_seq_id ub)" "ub_seq_id ub ! k \<noteq> []" "k < length (ub_pos ub)" "0 \<le> ub_pos ub ! k" "ub_pos ub ! k < int32_max"
      "0 \<le> tok_seq ub k" "nat (tok_seq ub k) < length (kv_seq_to_stream kv)" using ready k by (auto simp: rollback_ready_def)
    have m: "nat (tok_seq ub k) < LLAMA_MAX_SEQ" using R(7) seq_to_stream_length [OF inv] by simp
    let ?pm = "pm(nat (tok_seq ub k) := min (pm (nat (tok_seq ub k))) (ub_pos ub ! k))"
    have "?P (Suc k) ?pm"
    proof (intro allI conjI impI)
      fix s
      show "?pm s = int32_max \<or> (0 \<le> ?pm s \<and> ?pm s < int32_max \<and> s < length (kv_seq_to_stream kv))"
        using P R(4,5,7) by (auto simp: min_def)
      fix p
      assume "p < int32_max"
      with P have "pm s \<le> p \<longleftrightarrow> (\<exists>i < k. tok_seq ub i = int s \<and> ub_pos ub ! i \<le> p)" by blast
      moreover have "?pm s \<le> p \<longleftrightarrow> pm s \<le> p \<or> (tok_seq ub k = int s \<and> ub_pos ub ! k \<le> p)" using R(6) by auto
      ultimately show "?pm s \<le> p \<longleftrightarrow> (\<exists>i < Suc k. tok_seq ub i = int s \<and> ub_pos ub ! i \<le> p)" by (auto simp: less_Suc_eq)
    qed
    with R m show "wp (do {
       guard (k < length (ub_seq_id ub) \<and> ub_seq_id ub ! k \<noteq> [] \<and> k < length (ub_pos ub));
       let seq_id = hd (ub_seq_id ub ! k);
       guard (0 \<le> seq_id \<and> nat seq_id < LLAMA_MAX_SEQ);
       Some (pm(nat seq_id := min (pm (nat seq_id)) (ub_pos ub ! k)))
     }) (?P (Suc k))"
      unfolding tok_seq_def [symmetric] Let_def by simp
  qed
  then show ?thesis unfolding fail_pos_min_def .
qed

lemma rollback_seqs:
  assumes inv: "kv_inv kv" and pm: "\<forall>s. pm s = int32_max \<or> (0 \<le> pm s \<and> s < length (kv_seq_to_stream kv))"
    and view: "\<forall>s. \<forall>(i, p) \<in> seq_view kv s. p < int32_max"
  shows "wp (foldM (\<lambda>s kv. if pm s = int32_max then Some kv else do { (_, kv') \<leftarrow> kv_seq_rm (int s) (pm s) (- 1) kv; Some kv' }) [0..<m] kv)
    (\<lambda>kv'. kv_inv kv' \<and> kv_seq_to_stream kv' = kv_seq_to_stream kv \<and>
      (\<forall>s. seq_view kv' s = (if s < m then {(i, p) \<in> seq_view kv s. p < pm s} else seq_view kv s)))"
proof (rule wp_foldM_upt [where P = "\<lambda>k kv'. kv_inv kv' \<and> kv_seq_to_stream kv' = kv_seq_to_stream kv \<and>
      (\<forall>s. seq_view kv' s = (if s < k then {(i, p) \<in> seq_view kv s. p < pm s} else seq_view kv s))"])
  fix k kv1
  assume P: "kv_inv kv1 \<and> kv_seq_to_stream kv1 = kv_seq_to_stream kv \<and>
      (\<forall>s. seq_view kv1 s = (if s < k then {(i, p) \<in> seq_view kv s. p < pm s} else seq_view kv s))"
  have vk: "(i, p) \<in> seq_view kv k \<Longrightarrow> p < int32_max" for i p using view by auto
  show "wp (if pm k = int32_max then Some kv1 else do { (_, kv') \<leftarrow> kv_seq_rm (int k) (pm k) (- 1) kv1; Some kv' })
      (\<lambda>kv'. kv_inv kv' \<and> kv_seq_to_stream kv' = kv_seq_to_stream kv \<and>
      (\<forall>s. seq_view kv' s = (if s < Suc k then {(i, p) \<in> seq_view kv s. p < pm s} else seq_view kv s)))"
  proof (cases "pm k = int32_max")
    case True
    then have "{(i, p) \<in> seq_view kv k. p < pm k} = seq_view kv k" using vk by auto
    with P True show ?thesis by (auto simp: less_Suc_eq)
  next
    case False
    then have pk: "0 \<le> pm k" "k < length (kv_seq_to_stream kv1)" using pm P by auto
    have inv1: "kv_inv kv1" using P by blast
    from kv_seq_rm_view [OF inv1, of "int k" "pm k" "- 1"] pk(2) obtain kv2 where
      kv2: "kv_seq_rm (int k) (pm k) (- 1) kv1 = Some (True, kv2)" "kv_inv kv2"
        "seq_view kv2 k = {(i, p) \<in> seq_view kv1 k. \<not> (range_lo (pm k) \<le> p \<and> p < range_hi (- 1))}" "\<forall>t. t \<noteq> k \<longrightarrow> seq_view kv2 t = seq_view kv1 t"
      by auto
    have "kv_stream (int k) kv1 = Some (kv_seq_to_stream kv1 ! k)" using pk(2) by (simp add: kv_stream_def)
    from kv_seq_rm_spec [OF inv1 this, of "pm k" "- 1"] kv2(1) have "kv_seq_to_stream kv2 = kv_seq_to_stream kv1"
      by (auto simp: stream_becomes_def dest: kv_frame_s2s)
    moreover have "seq_view kv2 k = {(i, p) \<in> seq_view kv k. p < pm k}"
      using kv2(3) P vk pk(1) by (auto simp: range_lo_def range_hi_def not_le)
    ultimately show ?thesis using False P kv2 by (auto simp: less_Suc_eq)
  qed
qed (use inv in simp)

lemma seq_view_bound: "slot_ready kv \<Longrightarrow> kv_inv kv \<Longrightarrow> (i, p) \<in> seq_view kv s \<Longrightarrow> p < int32_max"
  by (auto simp: seq_view_def slot_ready_def kv_inv_def Let_def split: if_splits)

lemma decode_rollback_spec:
  assumes "kv_inv kv" and "slot_ready kv" and "rollback_ready kv ub"
  shows "\<exists>kv'. decode_rollback ub kv = Some kv' \<and> kv_inv kv' \<and>
    (\<forall>s. seq_view kv' s = {(j, p) \<in> seq_view kv s. \<forall>i < ub_n_tokens ub. tok_seq ub i = int s \<longrightarrow> p < ub_pos ub ! i})"
proof -
  from wpD [OF fail_pos_min_spec [OF assms(1,3)]] obtain pm where
    pm: "fail_pos_min ub = Some pm" "\<forall>s. pm s = int32_max \<or> (0 \<le> pm s \<and> s < length (kv_seq_to_stream kv))"
      "\<forall>s. \<forall>p < int32_max. pm s \<le> p \<longleftrightarrow> (\<exists>i < ub_n_tokens ub. tok_seq ub i = int s \<and> ub_pos ub ! i \<le> p)" by auto
  have lt: "p < int32_max" if "(j, p) \<in> seq_view kv s" for j p s using seq_view_bound [OF assms(2,1) that] .
  then have "\<forall>s. \<forall>(i, p) \<in> seq_view kv s. p < int32_max" by blast
  from wpD [OF rollback_seqs [OF assms(1) pm(2) this, of LLAMA_MAX_SEQ]] obtain kv' where
    kv': "decode_rollback ub kv = Some kv'" "kv_inv kv'"
      "\<forall>s. seq_view kv' s = (if s < LLAMA_MAX_SEQ then {(i, p) \<in> seq_view kv s. p < pm s} else seq_view kv s)"
    by (auto simp: decode_rollback_def pm(1))
  have "seq_view kv' s = {(j, p) \<in> seq_view kv s. \<forall>i < ub_n_tokens ub. tok_seq ub i = int s \<longrightarrow> p < ub_pos ub ! i}" for s
  proof -
    have "p < pm s \<longleftrightarrow> (\<forall>i < ub_n_tokens ub. tok_seq ub i = int s \<longrightarrow> p < ub_pos ub ! i)" if "(j, p) \<in> seq_view kv s" for j p
      using pm(3) lt [OF that] by (meson not_le)
    moreover have "seq_view kv s = {}" if "\<not> s < LLAMA_MAX_SEQ" using that seq_to_stream_length [OF assms(1)] by (simp add: seq_view_def)
    ultimately show ?thesis using kv'(3) by auto
  qed
  with kv'(1,2) show ?thesis by blast
qed

section \<open>Applying the micro-batches\<close>

text \<open>Two states of one cache that differ at most in the heads and in the data.\<close>

definition same_cells :: "'d kv_cache \<Rightarrow> 'd kv_cache \<Rightarrow> bool" where
  "same_cells kv kv0 \<longleftrightarrow> kv0 = kv\<lparr>kv_v_heads := kv_v_heads kv0, kv_data := kv_data kv0\<rparr>"

lemma same_cells_refl [simp]: "same_cells kv kv"
  by (simp add: same_cells_def)

lemma same_cellsD:
  assumes "same_cells kv kv0"
  shows "kv_v_cells kv0 = kv_v_cells kv" "kv_n_stream kv0 = kv_n_stream kv" "kv_seq_to_stream kv0 = kv_seq_to_stream kv"
    "kv_swa_type kv0 = kv_swa_type kv" "kv_n_swa kv0 = kv_n_swa kv"
  using assms by (cases kv, cases kv0, simp add: same_cells_def)+

lemma same_cellsI: "kv_conf kv kv1 \<Longrightarrow> kv_conf kv0 kv01 \<Longrightarrow> same_cells kv kv0 \<Longrightarrow> kv_v_cells kv01 = kv_v_cells kv1 \<Longrightarrow> same_cells kv1 kv01"
  by (cases kv, cases kv1, cases kv0, cases kv01) (simp add: same_cells_def kv_conf_def)

lemma same_cells_data: "same_cells kv kv0 \<Longrightarrow> same_cells kv (kv0\<lparr>kv_data := d\<rparr>)"
  by (cases kv, cases kv0) (simp add: same_cells_def)

lemma same_cells_slot:
  assumes "same_cells kv kv0"
  shows "unq_stream kv0 = unq_stream kv" "slot_fits kv0 ub k n si = slot_fits kv ub k n si" "slot_ready kv0 = slot_ready kv"
    "slot_free kv0 ub k si = slot_free kv ub k si"
proof -
  note D = same_cellsD [OF assms]
  show unq: "unq_stream kv0 = unq_stream kv" by (intro ext) (simp add: unq_stream_def D)
  have "usable kv0 = usable kv" by (intro ext) (simp only: usable_def can_use_def D)
  then show "slot_fits kv0 ub k n si = slot_fits kv ub k n si"
    by (simp add: slot_fits_def ub_fits_def seq_guard_def token_ok_def unq D)
  show "slot_ready kv0 = slot_ready kv" "slot_free kv0 ub k si = slot_free kv ub k si"
    by (simp_all add: slot_ready_def slot_free_def unq D)
qed

text \<open>What placing a micro-batch in free cells does to the cells.\<close>

definition ub_placed :: "'d kv_cache \<Rightarrow> 'e llama_ubatch \<Rightarrow> nat \<Rightarrow> nat \<Rightarrow> slot_info \<Rightarrow> 'd kv_cache \<Rightarrow> bool" where
  "ub_placed kv ub k n si kv1 \<longleftrightarrow>
     (\<forall>s < k. placed (kv_v_cells kv ! unq_stream kv ub s) (si_idxs si ! s) (\<lambda>ii. new_cell ub (s * n + ii)) (kv_v_cells kv1 ! unq_stream kv ub s)) \<and>
     (\<forall>t. (\<forall>s < k. t \<noteq> unq_stream kv ub s) \<longrightarrow> kv_v_cells kv1 ! t = kv_v_cells kv ! t)"

lemma apply_placed:
  assumes "kv_inv kv" "slot_ready kv" "slot_fits kv ub k n si" "slot_free kv ub k si"
  obtains kv1 where "apply_ubatch si ub kv = Some kv1" "kv_inv kv1" "kv_conf kv kv1" "ub_placed kv ub k n si kv1"
proof -
  from wpD [OF apply_ubatch_spec [OF assms(1-3)]] obtain kv1 where
    K: "apply_ubatch si ub kv = Some kv1" "kv_inv kv1" "kv_conf kv kv1" "slot_free kv ub k si \<longrightarrow>
      (\<forall>s < k. placed (kv_v_cells kv ! unq_stream kv ub s) (si_idxs si ! s) (\<lambda>ii. new_cell ub (s * n + ii)) (kv_v_cells kv1 ! unq_stream kv ub s)) \<and>
      (\<forall>t. (\<forall>s < k. t \<noteq> unq_stream kv ub s) \<longrightarrow> kv_v_cells kv1 ! t = kv_v_cells kv ! t \<and> kv_v_heads kv1 ! t = kv_v_heads kv ! t)"
    by blast
  from K(4) assms(4) have "ub_placed kv ub k n si kv1" by (simp add: ub_placed_def)
  with K(1-3) show thesis by (rule that)
qed

lemma placed_unique:
  assumes "placed c idxs x d" "placed c idxs x e"
  shows "d = e"
proof (rule cells_eqI)
  show "cells_inv d" "cells_inv e" "kc_has_shift d = kc_has_shift e" "length (kc_pos d) = length (kc_pos e)"
    using assms by (simp_all add: placed_def cells_size_def)
  fix i assume "i < length (kc_pos d)"
  then have i: "i < cells_size c" using assms(1) by (simp add: placed_def cells_size_def)
  have "cell_at d i = cell_at e i"
  proof (cases "i \<in> set idxs")
    case True
    then obtain ii where "ii < length idxs" "idxs ! ii = i" by (auto simp: in_set_conv_nth)
    with assms show ?thesis by (auto simp: placed_def)
  next
    case False
    with assms i show ?thesis by (simp add: placed_def)
  qed
  then show "cells_same_at d e i" by (simp add: cells_same_at_def cell_at_def)
qed

lemma apply_same_cells:
  assumes inv: "kv_inv kv" and ready: "slot_ready kv" and fits: "slot_fits kv ub k n si" and free: "slot_free kv ub k si"
    and ap: "apply_ubatch si ub kv = Some kv1" and same: "same_cells kv kv0" and inv0: "kv_inv kv0"
  shows "\<exists>kv01. apply_ubatch si ub kv0 = Some kv01 \<and> kv_inv kv01 \<and> same_cells kv1 kv01"
proof -
  note S = same_cells_slot [OF same] and D = same_cellsD [OF same]
  obtain kv1' where "apply_ubatch si ub kv = Some kv1'" "kv_inv kv1'" "kv_conf kv kv1'" "ub_placed kv ub k n si kv1'"
    by (rule apply_placed [OF inv ready fits free])
  with ap have A: "kv_inv kv1" "kv_conf kv kv1" "ub_placed kv ub k n si kv1" by simp_all
  have "slot_ready kv0" "slot_fits kv0 ub k n si" "slot_free kv0 ub k si" using ready fits free by (simp_all add: S(2-4))
  then obtain kv01 where B: "apply_ubatch si ub kv0 = Some kv01" "kv_inv kv01" "kv_conf kv0 kv01" "ub_placed kv0 ub k n si kv01"
    by (rule apply_placed [OF inv0])
  have "kv_v_cells kv01 = kv_v_cells kv1"
  proof (rule nth_equalityI)
    show "length (kv_v_cells kv01) = length (kv_v_cells kv1)"
      using A(1) B(2) kv_confD(1) [OF A(2)] kv_confD(1) [OF B(3)] D(2) by (simp add: kv_inv_def)
    fix t
    show "kv_v_cells kv01 ! t = kv_v_cells kv1 ! t"
    proof (cases "\<exists>s < k. t = unq_stream kv ub s")
      case True
      with A(3) B(4) S(1) D(1) show ?thesis unfolding ub_placed_def by (metis placed_unique)
    next
      case False
      with A(3) B(4) S(1) D(1) show ?thesis unfolding ub_placed_def by metis
    qed
  qed
  with same_cellsI [OF A(2) B(3) same] B(1,2) show ?thesis by blast
qed

text \<open>The tokens of the placed micro-batches, and the cells in use before, are still there.\<close>

definition batch_held :: "slot_info list \<Rightarrow> 'e llama_ubatch list \<Rightarrow> 'd kv_cache \<Rightarrow> bool" where
  "batch_held sis ubs kv \<longleftrightarrow> (\<forall>u < length ubs. \<exists>n. si_size (sis ! u) = Some n \<and> ub_n_tokens (ubs ! u) = si_n_stream (sis ! u) * n \<and>
     (\<forall>s < si_n_stream (sis ! u). \<forall>ii < n.
       cell_at (kv_v_cells kv ! (si_strm (sis ! u) ! s)) (si_idxs (sis ! u) ! s ! ii) = new_cell (ubs ! u) (s * n + ii)))"

definition cells_kept :: "'d kv_cache \<Rightarrow> 'd kv_cache \<Rightarrow> bool" where
  "cells_kept kv kv' \<longleftrightarrow> (\<forall>t < kv_n_stream kv. \<forall>j < kv_get_size kv. kc_pos (kv_v_cells kv ! t) ! j \<noteq> - 1 \<longrightarrow>
     cell_at (kv_v_cells kv' ! t) j = cell_at (kv_v_cells kv ! t) j)"

lemma placed_size:
  assumes inv: "kv_inv kv" "kv_inv kv1" and conf: "kv_conf kv kv1" and fits: "slot_fits kv ub k n si" and pl: "ub_placed kv ub k n si kv1"
  shows "kv_get_size kv1 = kv_get_size kv"
proof -
  note F = slot_fitsD [OF inv(1) fits]
  have "cells_size (kv_v_cells kv1 ! unq_stream kv ub 0) = cells_size (kv_v_cells kv ! unq_stream kv ub 0)"
    using pl F(4) by (auto simp: ub_placed_def placed_def)
  then show ?thesis using kv_invD(2) [OF inv(1) F(7) [OF F(4)]] kv_invD(2) [OF inv(2), of "unq_stream kv ub 0"] F(7) [OF F(4)] kv_confD(1) [OF conf] by simp
qed

lemma placed_kept:
  assumes inv: "kv_inv kv" and fits: "slot_fits kv ub k n si" and free: "slot_free kv ub k si" and pl: "ub_placed kv ub k n si kv1"
  shows "cells_kept kv kv1"
  unfolding cells_kept_def
proof (intro allI impI)
  fix t j
  assume t: "t < kv_n_stream kv" and j: "j < kv_get_size kv" "kc_pos (kv_v_cells kv ! t) ! j \<noteq> - 1"
  show "cell_at (kv_v_cells kv1 ! t) j = cell_at (kv_v_cells kv ! t) j"
  proof (cases "\<exists>s < k. t = unq_stream kv ub s")
    case True
    then obtain s where s: "s < k" "t = unq_stream kv ub s" by blast
    with free j(2) have "j \<notin> set (si_idxs si ! s)" by (auto simp: slot_free_def)
    with pl s j(1) kv_invD(2) [OF inv t] show ?thesis by (auto simp: ub_placed_def placed_def)
  next
    case False
    with pl show ?thesis by (auto simp: ub_placed_def)
  qed
qed

lemma cells_kept_trans:
  assumes "cells_kept kv kv1" "cells_kept kv1 kv2" "kv_n_stream kv1 = kv_n_stream kv" "kv_get_size kv1 = kv_get_size kv"
  shows "cells_kept kv kv2"
  unfolding cells_kept_def
proof (intro allI impI)
  fix t j
  assume A: "t < kv_n_stream kv" "j < kv_get_size kv" "kc_pos (kv_v_cells kv ! t) ! j \<noteq> - 1"
  with assms(1) have eq: "cell_at (kv_v_cells kv1 ! t) j = cell_at (kv_v_cells kv ! t) j" by (auto simp: cells_kept_def)
  then have "kc_pos (kv_v_cells kv1 ! t) ! j \<noteq> - 1" using A(3) by (simp add: cell_at_def)
  with A assms(2-4) eq show "cell_at (kv_v_cells kv2 ! t) j = cell_at (kv_v_cells kv ! t) j" by (auto simp: cells_kept_def)
qed

lemma placed_held:
  assumes inv: "kv_inv kv" "kv_inv kv1" and conf: "kv_conf kv kv1" and fits: "slot_fits kv ub k n si" and pl: "ub_placed kv ub k n si kv1"
    and kept: "cells_kept kv1 kv2"
  shows "batch_held [si] [ub] kv2"
proof -
  note F = slot_fitsD [OF inv(1) fits]
  have "cell_at (kv_v_cells kv2 ! (si_strm si ! s)) (si_idxs si ! s ! ii) = new_cell ub (s * n + ii)" if s: "s < k" and ii: "ii < n" for s ii
  proof -
    have eq: "cell_at (kv_v_cells kv1 ! unq_stream kv ub s) (si_idxs si ! s ! ii) = new_cell ub (s * n + ii)"
      using pl s ii F(8) [OF s] by (simp add: ub_placed_def placed_def)
    moreover have "0 \<le> ub_pos ub ! (s * n + ii)" using fits s ii by (auto simp: slot_fits_def ub_fits_def token_ok_def)
    ultimately have "kc_pos (kv_v_cells kv1 ! unq_stream kv ub s) ! (si_idxs si ! s ! ii) \<noteq> - 1" by (auto simp: cell_at_def new_cell_def)
    with kept eq show ?thesis
      using F(6,7) [OF s] F(9) [OF s ii] placed_size [OF inv conf fits pl] kv_confD(1) [OF conf] by (simp add: cells_kept_def)
  qed
  with F(1-3) show ?thesis by (simp add: batch_held_def)
qed

lemma batch_held_Cons:
  assumes "batch_held [si] [ub] kv" "batch_held sis ubs kv"
  shows "batch_held (si # sis) (ub # ubs) kv"
  unfolding batch_held_def
proof (intro allI impI)
  fix u
  assume "u < length (ub # ubs)"
  then show "\<exists>n. si_size ((si # sis) ! u) = Some n \<and> ub_n_tokens ((ub # ubs) ! u) = si_n_stream ((si # sis) ! u) * n \<and>
     (\<forall>s < si_n_stream ((si # sis) ! u). \<forall>ii < n.
       cell_at (kv_v_cells kv ! (si_strm ((si # sis) ! u) ! s)) (si_idxs ((si # sis) ! u) ! s ! ii) = new_cell ((ub # ubs) ! u) (s * n + ii))"
    using assms by (cases u) (auto simp: batch_held_def)
qed

lemma place_step:
  assumes inv: "kv_inv kv" and ready: "slot_ready kv" and swa: "kv_swa_type kv = SWA_NONE" and ub: "ub_placeable kv ub"
    and si: "find_slot ub False kv = Some si" "\<not> si_empty si" and ap: "apply_ubatch si ub kv = Some kv1"
  obtains k n where "slot_fits kv ub k n si" "slot_free kv ub k si" "kv_inv kv1" "slot_ready kv1" "kv_conf kv kv1" "ub_placed kv ub k n si kv1"
    "kv_get_size kv1 = kv_get_size kv"
proof -
  from ub obtain k n where fits: "ub_fits kv ub k n" by (auto simp: ub_placeable_def)
  from find_slot_fits [OF inv ready this, of False] si have sf: "slot_fits kv ub k n si" by auto
  have free: "slot_free kv ub k si" by (rule slot_fits_free [OF inv ready swa sf])
  obtain kv1' where "apply_ubatch si ub kv = Some kv1'" "kv_inv kv1'" "kv_conf kv kv1'" "ub_placed kv ub k n si kv1'"
    by (rule apply_placed [OF inv ready sf free])
  with ap have A: "kv_inv kv1" "kv_conf kv kv1" "ub_placed kv ub k n si kv1" by simp_all
  have "slot_ready kv1"
    using inv ready swa ub
  proof (cases rule: prepare_round)
    case (full si')
    with si show ?thesis by simp
  next
    case (slot si' saved kv1')
    with si ap show ?thesis by simp
  qed
  then show thesis by (rule that [OF sf free A(1) _ A(2,3) placed_size [OF inv A(1,2) sf A(3)]])
qed

text \<open>Applying the slots of a batch in order; \<open>compute\<close> changes the data in between.\<close>

definition apply_all :: "('e llama_ubatch \<Rightarrow> 'd kv_cache \<Rightarrow> ggml_status \<times> 'd list) \<Rightarrow> slot_info list \<Rightarrow> 'e llama_ubatch list \<Rightarrow> 'd kv_cache
    \<Rightarrow> 'd kv_cache option" where
  "apply_all compute sis ubs kv = foldM (\<lambda>(si, ub) kv. do {
     kv1 \<leftarrow> apply_ubatch si ub kv;
     Some (kv1\<lparr>kv_data := snd (compute ub kv1)\<rparr>)
   }) (zip sis ubs) kv"

lemma apply_all_simps [simp]: "apply_all compute [] [] kv = Some kv"
  "apply_all compute (si # sis) (ub # ubs) kv =
    Option.bind (apply_ubatch si ub kv) (\<lambda>kv1. apply_all compute sis ubs (kv1\<lparr>kv_data := snd (compute ub kv1)\<rparr>))"
  by (simp_all add: apply_all_def)

lemma prepare_place_run:
  assumes "kv_inv kv" "slot_ready kv" "kv_swa_type kv = SWA_NONE" "\<forall>ub \<in> set ubs. ub_placeable kv ub"
    and "prepare_place ubs res states kv = Some (True, res', states', kv')"
    and data: "\<And>ub kv. length (snd (compute ub kv)) = length (kv_data kv)"
  shows "\<exists>sis. res' = res @ sis \<and> length sis = length ubs \<and> batch_held sis ubs kv' \<and> cells_kept kv kv' \<and>
    (\<forall>kv0. same_cells kv kv0 \<longrightarrow> kv_inv kv0 \<longrightarrow> (\<exists>kv0'. apply_all compute sis ubs kv0 = Some kv0' \<and> kv_inv kv0' \<and> same_cells kv' kv0'))"
  using assms(1-5)
proof (induction ubs arbitrary: kv res states)
  case Nil
  then show ?case by (auto simp: batch_held_def cells_kept_def)
next
  case (Cons ub ubs)
  have pl: "ub_placeable kv ub" using Cons.prems(4) by simp
  from Cons.prems(5) obtain si saved kv1 where
    S: "find_slot ub False kv = Some si" "\<not> si_empty si" "apply_ubatch si ub kv = Some kv1" and
    rest: "prepare_place ubs (res @ [si]) (\<lparr>ps_sinfo = si, ps_v_heads_old = kv_v_heads kv, ps_v_cells = saved\<rparr> # states) kv1 = Some (True, res', states', kv')"
    by (auto split: Option.bind_splits if_splits)
  from Cons.prems(1-3) pl S obtain k n where
    P: "slot_fits kv ub k n si" "slot_free kv ub k si" "kv_inv kv1" "slot_ready kv1" "kv_conf kv kv1" "ub_placed kv ub k n si kv1"
      "kv_get_size kv1 = kv_get_size kv" by (rule place_step)
  have "kv_swa_type kv1 = SWA_NONE" "\<forall>ub \<in> set ubs. ub_placeable kv1 ub"
    using Cons.prems(3,4) P(5) by (simp_all add: kv_confD ub_placeable_def ub_fits_conf)
  from Cons.IH [OF P(3,4) this rest] obtain sis where
    IH: "res' = (res @ [si]) @ sis" "length sis = length ubs" "batch_held sis ubs kv'" "cells_kept kv1 kv'"
      "\<forall>kv0. same_cells kv1 kv0 \<longrightarrow> kv_inv kv0 \<longrightarrow> (\<exists>kv0'. apply_all compute sis ubs kv0 = Some kv0' \<and> kv_inv kv0' \<and> same_cells kv' kv0')"
    by blast
  have "batch_held (si # sis) (ub # ubs) kv'"
    by (rule batch_held_Cons [OF placed_held [OF Cons.prems(1) P(3,5,1,6) IH(4)] IH(3)])
  moreover have "cells_kept kv kv'"
    by (rule cells_kept_trans [OF placed_kept [OF Cons.prems(1) P(1,2,6)] IH(4) kv_confD(1) [OF P(5)] P(7)])
  moreover have "\<exists>kv0'. apply_all compute (si # sis) (ub # ubs) kv0 = Some kv0' \<and> kv_inv kv0' \<and> same_cells kv' kv0'"
    if same: "same_cells kv kv0" and inv0: "kv_inv kv0" for kv0
  proof -
    from apply_same_cells [OF Cons.prems(1,2) P(1,2) S(3) same inv0] obtain kv01 where
      K: "apply_ubatch si ub kv0 = Some kv01" "kv_inv kv01" "same_cells kv1 kv01" by blast
    let ?kv = "kv01\<lparr>kv_data := snd (compute ub kv01)\<rparr>"
    have "same_cells kv1 ?kv" "kv_inv ?kv" using same_cells_data [OF K(3)] inv_data(1) [OF K(2) data] by blast+
    with IH(5) K(1) show ?thesis by simp
  qed
  ultimately show ?case using IH(1,2) by (intro exI [where x = "si # sis"]) simp
qed

lemma decode_run:
  assumes "cx_status cx = STATUS_SUCCESS" "cx_ubatches cx = ubs0 @ ubs" "cx_sinfos cx = sis0 @ sis" "length sis0 = length ubs0" "length sis = length ubs"
    and "cx_i_cur cx = length ubs0" "ubs \<noteq> []" "length ubs \<le> fuel" and ok: "\<And>ub kv. fst (compute ub kv) = GGML_STATUS_SUCCESS"
    and "apply_all compute sis ubs kv = Some kv'"
  shows "\<exists>cx'. decode_ubatches fuel compute shift_graph rope_none cx kv = Some (0, cx', kv')"
  using assms(1-8,10)
proof (induction ubs arbitrary: fuel cx kv ubs0 sis0 sis)
  case (Cons ub ubs)
  from Cons.prems(5) obtain si sis' where sis: "sis = si # sis'" "length sis' = length ubs" by (cases sis) auto
  from Cons.prems(8) obtain f where f: "fuel = Suc f" "length ubs \<le> f" by (cases fuel) auto
  from Cons.prems(9) sis obtain kv1 where
    kv1: "apply_ubatch si ub kv = Some kv1" "apply_all compute sis' ubs (kv1\<lparr>kv_data := snd (compute ub kv1)\<rparr>) = Some kv'"
    by (auto split: Option.bind_splits)
  obtain d where d: "compute ub kv1 = (GGML_STATUS_SUCCESS, d)" using ok [of ub kv1] by (cases "compute ub kv1") auto
  let ?cx = "cx\<lparr>cx_n_kv := kv_get_n_kv si kv1, cx_i_cur := cx_i_cur cx + 1\<rparr>"
  have ap: "ctx_apply shift_graph rope_none cx kv = Some (cx\<lparr>cx_n_kv := kv_get_n_kv si kv1\<rparr>, kv1)" "ctx_get_ubatch cx = Some ub"
    using Cons.prems sis kv1(1) by (simp_all add: ctx_apply_def ctx_get_ubatch_def llama_memory_status_is_fail_def nth_append)
  have nx: "ctx_next (cx\<lparr>cx_n_kv := kv_get_n_kv si kv1\<rparr>) = Some (ubs \<noteq> [], ?cx)"
    using Cons.prems by (simp add: ctx_next_def Let_def)
  show ?case
  proof (cases "ubs = []")
    case True
    then show ?thesis using f d ap nx kv1(2) sis by simp
  next
    case False
    have "\<exists>cx'. decode_ubatches f compute shift_graph rope_none ?cx (kv1\<lparr>kv_data := d\<rparr>) = Some (0, cx', kv')"
      using Cons.prems sis f kv1(2) d False by (intro Cons.IH [of ?cx "ubs0 @ [ub]" "sis0 @ [si]" sis' f]) simp_all
    then show ?thesis using f d ap nx False by simp
  qed
qed simp

lemma heads_le: "kv_inv kv \<Longrightarrow> h \<in> set (kv_v_heads kv) \<Longrightarrow> h \<le> kv_get_size kv"
  by (metis in_set_conv_nth kv_inv_def kv_invD(2,3))

lemma restore_heads:
  fixes kv :: "'d kv_cache"
  assumes "\<forall>h \<in> set (ps_v_heads_old ps). h \<le> sz" and "\<forall>h \<in> set (kv_v_heads kv). h \<le> sz"
  shows "wlp (prepare_restore_one ps kv) (\<lambda>kv'. \<forall>h \<in> set (kv_v_heads kv'). h \<le> sz)"
  unfolding prepare_restore_one_def Let_def
proof (rule wlp_foldM_inv)
  fix s and kv :: "'d kv_cache"
  assume "\<forall>h \<in> set (kv_v_heads kv). h \<le> sz"
  with assms(1) show "wlp (do {
         c \<leftarrow> cells_set_idxs (si_idxs (ps_sinfo ps) ! s) (ps_v_cells ps ! s) (kv_v_cells kv ! (si_strm (ps_sinfo ps) ! s));
         guard (s < length (ps_v_heads_old ps));
         Some (put_head (si_strm (ps_sinfo ps) ! s) (ps_v_heads_old ps ! s) (put_cells (si_strm (ps_sinfo ps) ! s) c kv))
       }) (\<lambda>kv'. \<forall>h \<in> set (kv_v_heads kv'). h \<le> sz)"
    by (auto simp: wlp_bind wlp_def guard_def put_head_def put_cells_def dest!: set_update_subset_insert [THEN subsetD] split: if_splits Option.bind_splits)
qed (use assms(2) in blast)

lemma prepare_place_heads:
  assumes "kv_inv kv" "slot_ready kv" "kv_swa_type kv = SWA_NONE" "\<forall>ub \<in> set ubs. ub_placeable kv ub"
    and "prepare_place ubs res states kv = Some (ok, res', states', kv')" and "\<forall>ps \<in> set states. \<forall>h \<in> set (ps_v_heads_old ps). h \<le> kv_get_size kv"
  shows "(\<forall>ps \<in> set states'. \<forall>h \<in> set (ps_v_heads_old ps). h \<le> kv_get_size kv) \<and> (\<forall>h \<in> set (kv_v_heads kv'). h \<le> kv_get_size kv)"
  using assms
proof (induction ubs arbitrary: kv res states)
  case Nil
  then show ?case using heads_le [OF Nil.prems(1)] by auto
next
  case (Cons ub ubs)
  have pl: "ub_placeable kv ub" using Cons.prems(4) by simp
  show ?case
  proof (cases "\<exists>si. find_slot ub False kv = Some si \<and> si_empty si")
    case True
    then show ?thesis using Cons.prems(5,6) heads_le [OF Cons.prems(1)] by auto
  next
    case False
    with Cons.prems(5) obtain si saved kv1 where
      S: "find_slot ub False kv = Some si" "\<not> si_empty si" "apply_ubatch si ub kv = Some kv1" and
      rest: "prepare_place ubs (res @ [si]) (\<lparr>ps_sinfo = si, ps_v_heads_old = kv_v_heads kv, ps_v_cells = saved\<rparr> # states) kv1 = Some (ok, res', states', kv')"
      by (auto split: Option.bind_splits if_splits)
    from Cons.prems(1-3) pl S obtain k n where
      P: "kv_inv kv1" "slot_ready kv1" "kv_conf kv kv1" "kv_get_size kv1 = kv_get_size kv" by (rule place_step)
    have "kv_swa_type kv1 = SWA_NONE" "\<forall>ub \<in> set ubs. ub_placeable kv1 ub"
      using Cons.prems(3,4) P(3) by (simp_all add: kv_confD ub_placeable_def ub_fits_conf)
    from Cons.IH [OF P(1,2) this rest] Cons.prems(6) heads_le [OF Cons.prems(1)] P(4) show ?thesis by simp
  qed
qed

lemma same_but_heads_inv:
  assumes inv: "kv_inv kv" and same: "same_but_heads kv kv0" and heads: "\<forall>h \<in> set (kv_v_heads kv0). h \<le> kv_get_size kv"
  shows "kv_inv kv0"
proof -
  note D = same_but_headsD [OF same] and C = kv_confD [OF same_but_headsD(1) [OF same]]
  have size: "kv_get_size kv0 = kv_get_size kv" by (simp add: kv_get_size_def C D)
  have "stream_inv kv0 st" if "st < kv_n_stream kv" for st
    using kv_invD [OF inv that] heads D(3) by (simp add: stream_inv_def size C D)
  then show ?thesis using inv D unfolding kv_inv_def C by simp
qed

lemma prepare_inv:
  assumes "kv_inv kv" "slot_ready kv" "kv_swa_type kv = SWA_NONE" "\<forall>ub \<in> set ubs. ub_placeable kv ub" "ubs \<noteq> []"
    and "prepare ubs kv = Some (sinfos, kv0)"
  shows "kv_inv kv0" "same_cells kv kv0"
proof -
  from assms(6) obtain ok res states kv1 where
    P: "prepare_place ubs [] [] kv = Some (ok, res, states, kv1)" and R: "foldM prepare_restore_one states kv1 = Some kv0"
    by (auto simp: prepare_def split: Option.bind_splits)
  from prepare_spec [OF assms(1-5)] assms(6) have same: "same_but_heads kv kv0" by auto
  from prepare_place_heads [OF assms(1-4) P] have H: "\<forall>ps \<in> set states. \<forall>h \<in> set (ps_v_heads_old ps). h \<le> kv_get_size kv"
    "\<forall>h \<in> set (kv_v_heads kv1). h \<le> kv_get_size kv" by simp_all
  have "wlp (foldM prepare_restore_one states kv1) (\<lambda>kv'. \<forall>h \<in> set (kv_v_heads kv'). h \<le> kv_get_size kv)"
    using H by (intro wlp_foldM_inv restore_heads) auto
  with R have "\<forall>h \<in> set (kv_v_heads kv0). h \<le> kv_get_size kv" by simp
  from same_but_heads_inv [OF assms(1) same this] show "kv_inv kv0" .
  show "same_cells kv kv0" using same by (cases kv, cases kv0) (simp add: same_but_heads_def same_cells_def)
qed

lemma prepare_apply_all:
  assumes "kv_inv kv" and "slot_ready kv" and "kv_swa_type kv = SWA_NONE" and "\<forall>ub \<in> set ubs. ub_placeable kv ub"
    and "prepare ubs kv = Some (sinfos, kv0)" and "sinfos \<noteq> []"
    and data: "\<And>ub kv. length (snd (compute ub kv)) = length (kv_data kv)"
  shows "\<exists>kv'. apply_all compute sinfos ubs kv0 = Some kv' \<and> kv_inv kv' \<and> batch_held sinfos ubs kv' \<and> cells_kept kv kv' \<and>
    length sinfos = length ubs \<and> ubs \<noteq> []"
proof -
  have ne: "ubs \<noteq> []" using assms(5) by (auto simp: prepare_def)
  from assms(5,6) obtain states kv1 where P: "prepare_place ubs [] [] kv = Some (True, sinfos, states, kv1)"
    by (auto simp: prepare_def split: Option.bind_splits if_splits)
  note I = prepare_inv [OF assms(1-4) ne assms(5)]
  from prepare_place_run [of kv ubs "[]" "[]" sinfos states kv1 compute, OF assms(1-4) P data] I obtain kv' where
    R: "length sinfos = length ubs" "batch_held sinfos ubs kv1" "cells_kept kv kv1" "apply_all compute sinfos ubs kv0 = Some kv'" "kv_inv kv'" "same_cells kv1 kv'"
    by auto
  have "batch_held sinfos ubs kv'" "cells_kept kv kv'" using R(2,3) by (simp_all add: batch_held_def cells_kept_def same_cellsD(1) [OF R(6)])
  with R ne show ?thesis by blast
qed

section \<open>Properties\<close>

text \<open>C15: A prepared batch decodes to the end, in a cache without a sliding window and when every graph computes.  When
  slots were found for all micro-batches of a batch, with any number of streams, then the decode loop returns 0
  with its fuel of one round per micro-batch, without aborting; at the end every token of every micro-batch sits
  in the cell that was prepared for it, with its position and its sequences, every cell in use before is
  unchanged, and the invariant holds.  This is so although with several streams preparing does not restore
  the heads.\<close>

theorem decode_places_batch:
  assumes "kv_inv kv" and "slot_ready kv" and "kv_swa_type kv = SWA_NONE" and "\<forall>ub \<in> set ubs. ub_placeable kv ub"
    and "prepare ubs kv = Some (sinfos, kv0)" and "sinfos \<noteq> []"
    and "\<And>ub kv. fst (compute ub kv) = GGML_STATUS_SUCCESS" and "\<And>ub kv. length (snd (compute ub kv)) = length (kv_data kv)"
  shows "\<exists>cx' kv'. decode_ubatches (length ubs) compute shift_graph rope_none ((ctx_error STATUS_SUCCESS)\<lparr>cx_sinfos := sinfos, cx_ubatches := ubs\<rparr>) kv0
      = Some (0, cx', kv') \<and> kv_inv kv' \<and> batch_held sinfos ubs kv' \<and> cells_kept kv kv'"
proof -
  from prepare_apply_all [OF assms(1-6), of compute] assms(8) obtain kv' where
    R: "apply_all compute sinfos ubs kv0 = Some kv'" "kv_inv kv'" "batch_held sinfos ubs kv'" "cells_kept kv kv'" "length sinfos = length ubs" "ubs \<noteq> []" by blast
  have "\<exists>cx'. decode_ubatches (length ubs) compute shift_graph rope_none ((ctx_error STATUS_SUCCESS)\<lparr>cx_sinfos := sinfos, cx_ubatches := ubs\<rparr>) kv0
      = Some (0, cx', kv')"
    by (rule decode_run [where ?ubs0.0 = "[]" and ?sis0.0 = "[]" and ubs = ubs and sis = sinfos]) (simp_all add: ctx_error_def R assms(7))
  with R(2-4) show ?thesis by blast
qed

lemma demo_prepare: "\<exists>si kv0. prepare [demo_ub] demo_kv2 = Some ([si], kv0) \<and> si_strm si = [2] \<and> si_idxs si = [[1]]"
proof -
  from demo_slot obtain si where si: "find_slot demo_ub False demo_kv2 = Some si" "si_strm si = [2]" "si_idxs si = [[1]]" by auto
  then have ne: "\<not> si_empty si" by (simp add: si_empty_def)
  have swa: "kv_swa_type demo_kv2 = SWA_NONE" by (simp add: demo_kv2_def)
  show ?thesis
    using demo_kv2_inv demo_ready(2) swa demo_placeable(2)
  proof (cases rule: prepare_round)
    case (full si')
    with si ne show ?thesis by simp
  next
    case (slot si' saved kv1)
    with si have "si' = si" by simp
    from slot(8) same_but_heads_refl obtain kv3 where
      "prepare_restore_one \<lparr>ps_sinfo = si', ps_v_heads_old = kv_v_heads demo_kv2, ps_v_cells = saved\<rparr> kv1 = Some kv3" by (rule undoesD)
    then have "prepare [demo_ub] demo_kv2 = Some ([si'], kv3)" using slot(1-4) by (auto simp: prepare_def)
    with si \<open>si' = si\<close> show ?thesis by auto
  qed
qed

theorem decode_places_batch_witness:
  "\<exists>si kv0 cx' kv'. prepare [demo_ub] demo_kv2 = Some ([si], kv0) \<and>
     decode_ubatches 1 (\<lambda>ub kv. (GGML_STATUS_SUCCESS, kv_data kv)) (\<lambda>d s. (True, d)) False ((ctx_error STATUS_SUCCESS)\<lparr>cx_sinfos := [si], cx_ubatches := [demo_ub]\<rparr>) kv0
       = Some (0, cx', kv') \<and> cell_at (kv_v_cells kv' ! 2) 1 = (8, 0, {2})"
proof -
  from demo_prepare obtain si kv0 where P: "prepare [demo_ub] demo_kv2 = Some ([si], kv0)" "si_strm si = [2]" "si_idxs si = [[1]]" by blast
  have swa: "kv_swa_type demo_kv2 = SWA_NONE" by (simp add: demo_kv2_def)
  from decode_places_batch [OF demo_kv2_inv demo_ready(2) swa _ P(1), of "\<lambda>ub kv. (GGML_STATUS_SUCCESS, kv_data kv)" "\<lambda>d s. (True, d)" False] demo_placeable(2)
  obtain cx' kv' where
    D: "decode_ubatches 1 (\<lambda>ub kv. (GGML_STATUS_SUCCESS, kv_data kv)) (\<lambda>d s. (True, d)) False ((ctx_error STATUS_SUCCESS)\<lparr>cx_sinfos := [si], cx_ubatches := [demo_ub]\<rparr>) kv0
       = Some (0, cx', kv')" "batch_held [si] [demo_ub] kv'" by auto
  from D(2) P(2,3) have "cell_at (kv_v_cells kv' ! 2) 1 = new_cell demo_ub 0" by (auto simp: batch_held_def si_size_def si_n_stream_def)
  moreover have "new_cell demo_ub 0 = (8, 0, {2})" by (simp add: new_cell_def tok_seqs_def demo_ub_def)
  ultimately show ?thesis using P(1) D(1) by (intro exI [where x = si] exI [where x = kv0] exI [where x = cx'] exI [where x = kv']) simp
qed

text \<open>A micro-batch in which every token belongs to one sequence and comes after what the cache holds of it.\<close>

definition ub_appends :: "'d kv_cache \<Rightarrow> 'e llama_ubatch \<Rightarrow> bool" where
  "ub_appends kv ub \<longleftrightarrow> (\<forall>i < ub_n_tokens ub. i < length (ub_seq_id ub) \<and> i < length (ub_pos ub) \<and> ub_n_seq_id ub ! i = 1 \<and>
     ub_pos ub ! i < int32_max \<and> (\<forall>(j, p) \<in> seq_view kv (nat (tok_seq ub i)). p < ub_pos ub ! i))"

lemma view_old:
  assumes inv: "kv_inv kv" and kept: "cells_kept kv kv1" and s2s: "kv_seq_to_stream kv1 = kv_seq_to_stream kv"
    and size: "kv_get_size kv1 = kv_get_size kv" "kv_n_stream kv1 = kv_n_stream kv" and inv1: "kv_inv kv1"
  shows "seq_view kv s \<subseteq> seq_view kv1 s"
proof (cases "s < length (kv_seq_to_stream kv)")
  case True
  let ?t = "kv_seq_to_stream kv ! s"
  have t: "?t < kv_n_stream kv" using inv True by (auto simp: kv_inv_def)
  note Z = kv_invD(2) [OF inv t] and Z1 = kv_invD(2) [OF inv1, of ?t, unfolded size, OF t]
  show ?thesis
  proof (clarsimp simp: seq_view_def s2s True Let_def Z Z1)
    fix j
    assume j: "j < kv_get_size kv" "s \<in> kc_seq (kv_v_cells kv ! ?t) ! j"
    have "kc_pos (kv_v_cells kv ! ?t) ! j \<noteq> - 1" using cell_atD(3) [OF kv_invD(1) [OF inv t], of j] j Z by auto
    with kept t j(1) have "cell_at (kv_v_cells kv1 ! ?t) j = cell_at (kv_v_cells kv ! ?t) j" by (auto simp: cells_kept_def)
    with j(2) show "kc_pos (kv_v_cells kv ! ?t) ! j = kc_pos (kv_v_cells kv1 ! ?t) ! j \<and> s \<in> kc_seq (kv_v_cells kv1 ! ?t) ! j"
      by (simp add: cell_at_def)
  qed
qed (simp add: seq_view_def)

lemma view_new:
  assumes inv: "kv_inv kv" "kv_inv kv1" and conf: "kv_conf kv kv1" and fits: "slot_fits kv ub k n si" and pl: "ub_placed kv ub k n si kv1"
    and mem: "(j, p) \<in> seq_view kv1 s" "(j, p) \<notin> seq_view kv s"
  obtains i where "i < ub_n_tokens ub" "p = ub_pos ub ! i" "s \<in> set (map nat (tok_seqs ub i))"
proof -
  note F = slot_fitsD [OF inv(1) fits] and C = kv_confD [OF conf]
  let ?t = "kv_seq_to_stream kv ! s"
  from mem(1) have s: "s < length (kv_seq_to_stream kv)" and m: "j < cells_size (kv_v_cells kv1 ! ?t)" "p = kc_pos (kv_v_cells kv1 ! ?t) ! j"
    "s \<in> kc_seq (kv_v_cells kv1 ! ?t) ! j" by (auto simp: seq_view_def C Let_def split: if_splits)
  have "\<exists>a < k. ?t = unq_stream kv ub a"
  proof (rule ccontr)
    assume "\<not> (\<exists>a < k. ?t = unq_stream kv ub a)"
    with pl have "kv_v_cells kv1 ! ?t = kv_v_cells kv ! ?t" by (auto simp: ub_placed_def)
    with m s mem(2) show False by (auto simp: seq_view_def Let_def)
  qed
  then obtain a where a: "a < k" "?t = unq_stream kv ub a" by blast
  with pl have pd: "placed (kv_v_cells kv ! ?t) (si_idxs si ! a) (\<lambda>ii. new_cell ub (a * n + ii)) (kv_v_cells kv1 ! ?t)" by (auto simp: ub_placed_def)
  have "j \<in> set (si_idxs si ! a)"
  proof (rule ccontr)
    assume "j \<notin> set (si_idxs si ! a)"
    with pd m(1) have "cell_at (kv_v_cells kv1 ! ?t) j = cell_at (kv_v_cells kv ! ?t) j" "j < cells_size (kv_v_cells kv ! ?t)" by (auto simp: placed_def)
    with m s mem(2) show False by (auto simp: seq_view_def Let_def cell_at_def)
  qed
  then obtain ii where ii: "ii < n" "si_idxs si ! a ! ii = j" using F(8) [OF a(1)] by (auto simp: in_set_conv_nth)
  with pd F(8) [OF a(1)] have "cell_at (kv_v_cells kv1 ! ?t) j = new_cell ub (a * n + ii)" by (auto simp: placed_def)
  then have "p = ub_pos ub ! (a * n + ii)" "s \<in> set (map nat (tok_seqs ub (a * n + ii)))" using m by (auto simp: cell_at_def new_cell_def)
  moreover have "a * n + ii < ub_n_tokens ub" using row_lt [OF a(1) ii(1)] F(3) by simp
  ultimately show thesis using that by blast
qed

lemma appends_ready:
  assumes inv: "kv_inv kv" and fits: "slot_fits kv ub k n si" and app: "ub_appends kv ub" and i: "i < ub_n_tokens ub"
  shows "tok_seqs ub i = [tok_seq ub i]" "0 \<le> tok_seq ub i" "nat (tok_seq ub i) < length (kv_seq_to_stream kv)" "0 \<le> ub_pos ub ! i"
    "ub_seq_id ub ! i \<noteq> []"
proof -
  note F = slot_fitsD [OF inv fits]
  from row_split [of i k n] i F(3) obtain a ii where a: "a < k" "ii < n" "i = a * n + ii" by auto
  have ok: "token_ok kv ub (unq_stream kv ub a) i" using fits a by (auto simp: slot_fits_def ub_fits_def)
  have one: "ub_n_seq_id ub ! i = 1" using app i by (simp add: ub_appends_def)
  with ok show "ub_seq_id ub ! i \<noteq> []" by (auto simp: token_ok_def tok_seqs_def)
  with one show eq: "tok_seqs ub i = [tok_seq ub i]" by (cases "ub_seq_id ub ! i") (simp_all add: tok_seqs_def tok_seq_def)
  with ok show "0 \<le> tok_seq ub i" "0 \<le> ub_pos ub ! i" by (auto simp: token_ok_def)
  from ok eq have "nat (tok_seq ub i) < LLAMA_MAX_SEQ" "1 < kv_n_stream kv \<longrightarrow> nat (tok_seq ub i) = unq_stream kv ub a" by (auto simp: token_ok_def)
  with inv F(7) [OF a(1)] show "nat (tok_seq ub i) < length (kv_seq_to_stream kv)" by (auto simp: kv_inv_def)
qed

text \<open>C17: A micro-batch whose graph fails is taken back, if it is placed in free cells and its tokens belong to one
  sequence each and come after what the cache holds of their sequences: the decode loop then returns the code of the
  failure and every sequence shows exactly the cells and positions it showed before the micro-batch was placed.
  Without these conditions this is false: \<open>rollback_keeps_other_sequences\<close>.\<close>

theorem decode_failure_restores:
  assumes "kv_inv kv" and "slot_ready kv" and "slot_fits kv ub k n si" and "slot_free kv ub k si" and "ub_appends kv ub"
    and "cx_status cx = STATUS_SUCCESS" and "cx_i_cur cx < length (cx_ubatches cx)" and "length (cx_sinfos cx) = length (cx_ubatches cx)"
    and "cx_ubatches cx ! cx_i_cur cx = ub" and "cx_sinfos cx ! cx_i_cur cx = si"
    and "\<And>kv. fst (compute ub kv) = st" and "st \<noteq> GGML_STATUS_SUCCESS" and "\<And>kv. length (snd (compute ub kv)) = length (kv_data kv)"
  shows "\<exists>cx' kv'. decode_ubatches (Suc fuel) compute shift_graph rope_none cx kv =
      Some (if st = GGML_STATUS_ABORTED then 2 else if st = GGML_STATUS_ALLOC_FAILED then - 2 else - 3, cx', kv') \<and>
    kv_inv kv' \<and> (\<forall>s. seq_view kv' s = seq_view kv s)"
proof -
  note F = slot_fitsD [OF assms(1,3)] and A = appends_ready [OF assms(1,3,5)]
  obtain kv1 where K: "apply_ubatch si ub kv = Some kv1" "kv_inv kv1" "kv_conf kv kv1" "ub_placed kv ub k n si kv1"
    by (rule apply_placed [OF assms(1-4)])
  note C = kv_confD [OF K(3)]
  have app: "\<And>i. i < ub_n_tokens ub \<Longrightarrow> i < length (ub_seq_id ub) \<and> i < length (ub_pos ub) \<and> ub_pos ub ! i < int32_max"
    using assms(5) by (simp add: ub_appends_def)
  let ?kv2 = "kv1\<lparr>kv_data := snd (compute ub kv1)\<rparr>"
  have view2: "seq_view ?kv2 s = seq_view kv1 s" for s by (simp add: seq_view_def)
  have inv2: "kv_inv ?kv2" by (rule inv_data(1) [OF K(2) assms(13)])
  have "slot_ready kv1"
  proof (rule slot_ready_step [OF assms(2) K(3)])
    show "\<forall>s < k. placed (kv_v_cells kv ! unq_stream kv ub s) (si_idxs si ! s) (\<lambda>ii. new_cell ub (s * n + ii)) (kv_v_cells kv1 ! unq_stream kv ub s)"
      "\<forall>t. (\<forall>s < k. t \<noteq> unq_stream kv ub s) \<longrightarrow> kv_v_cells kv1 ! t = kv_v_cells kv ! t" using K(4) by (auto simp: ub_placed_def)
    show "ub_pos ub ! (s * n + ii) < int32_max" if "s < k" "ii < length (si_idxs si ! s)" for s ii
      using app [of "s * n + ii"] row_lt [OF that(1), of ii n] that F(3,8) by simp
  qed
  then have ready2: "slot_ready ?kv2" by (simp add: slot_ready_def)
  have "rollback_ready ?kv2 ub" using app A by (simp add: rollback_ready_def C)
  from decode_rollback_spec [OF inv2 ready2 this] obtain kv' where
    R: "decode_rollback ub ?kv2 = Some kv'" "kv_inv kv'"
      "\<forall>s. seq_view kv' s = {(j, p) \<in> seq_view kv1 s. \<forall>i < ub_n_tokens ub. tok_seq ub i = int s \<longrightarrow> p < ub_pos ub ! i}"
    unfolding view2 by blast
  have size: "kv_get_size kv1 = kv_get_size kv" by (rule placed_size [OF assms(1) K(2,3) assms(3) K(4)])
  have "seq_view kv' s = seq_view kv s" for s
  proof (intro equalityI subrelI)
    fix j p
    assume "(j, p) \<in> seq_view kv' s"
    then have m: "(j, p) \<in> seq_view kv1 s" "\<forall>i < ub_n_tokens ub. tok_seq ub i = int s \<longrightarrow> p < ub_pos ub ! i" using R(3) by auto
    show "(j, p) \<in> seq_view kv s"
    proof (rule ccontr)
      assume "(j, p) \<notin> seq_view kv s"
      with assms(1) K(2,3) assms(3) K(4) m(1) obtain i where i: "i < ub_n_tokens ub" "p = ub_pos ub ! i" "s \<in> set (map nat (tok_seqs ub i))"
        by (rule view_new)
      then have "tok_seq ub i = int s" using A(1,2) [OF i(1)] by auto
      with m(2) i show False by auto
    qed
  next
    fix j p
    assume m: "(j, p) \<in> seq_view kv s"
    have "(j, p) \<in> seq_view kv1 s"
      using view_old [OF assms(1) placed_kept [OF assms(1,3,4) K(4)] C(2) size C(1) K(2)] m by blast
    moreover have "p < ub_pos ub ! i" if "i < ub_n_tokens ub" "tok_seq ub i = int s" for i
      using assms(5) m that by (force simp: ub_appends_def)
    ultimately show "(j, p) \<in> seq_view kv' s" using R(3) by auto
  qed
  moreover have "ctx_apply shift_graph rope_none cx kv = Some (cx\<lparr>cx_n_kv := kv_get_n_kv si kv1\<rparr>, kv1)" "ctx_get_ubatch cx = Some ub"
    using assms(6-10) K(1) by (auto simp: ctx_apply_def ctx_get_ubatch_def llama_memory_status_is_fail_def)
  moreover obtain d where "compute ub kv1 = (st, d)" using assms(11) [of kv1] by (cases "compute ub kv1") auto
  ultimately show ?thesis using R(1,2) assms(12) by (simp add: Let_def)
qed

theorem decode_failure_restores_witness:
  "\<exists>cx' kv'. decode_ubatches 1 (\<lambda>ub kv. (GGML_STATUS_ABORTED, kv_data kv)) (\<lambda>d s. (True, d)) False
      ((ctx_error STATUS_SUCCESS)\<lparr>cx_sinfos := [demo_si], cx_ubatches := [demo_ub]\<rparr>) demo_kv2 = Some (2, cx', kv') \<and>
    seq_view kv' 2 = seq_view demo_kv2 2"
proof -
  have "seq_view demo_kv2 2 = {(0, 7)}"
    by (auto simp: seq_view_def demo_kv2_def demo_cells_def cells_size_def less_Suc_eq nth_Cons' split: if_splits)
  then have "ub_appends demo_kv2 demo_ub" by (simp add: ub_appends_def demo_ub_def tok_seq_def int32_max_def)
  from decode_failure_restores [OF demo_kv2_inv demo_ready(2) demo_si_fits this,
      of "(ctx_error STATUS_SUCCESS)\<lparr>cx_sinfos := [demo_si], cx_ubatches := [demo_ub]\<rparr>" "\<lambda>ub kv. (GGML_STATUS_ABORTED, kv_data kv)" GGML_STATUS_ABORTED 0 "\<lambda>d s. (True, d)" False]
  show ?thesis by (auto simp: ctx_error_def)
qed

text \<open>Only the first sequence of a token counts when a micro-batch is taken back: a sequence that no token of
  the micro-batch has first keeps all its cells, the new ones included.\<close>

theorem rollback_keeps_other_sequences:
  assumes "kv_inv kv" and "slot_ready kv" and "rollback_ready kv ub" and "\<forall>i < ub_n_tokens ub. tok_seq ub i \<noteq> int s"
  shows "\<exists>kv'. decode_rollback ub kv = Some kv' \<and> seq_view kv' s = seq_view kv s"
  using decode_rollback_spec [OF assms(1-3)] assms(4) by auto

end
