(* ===== verification/DecodeOutputs.thy ===== *)
theory DecodeOutputs
  imports Prelude
begin

text \<open>
  The outputs of \<^verbatim>\<open>llama_context::decode\<close> (\<^verbatim>\<open>src/src/llama-context.cpp\<close>): the output buffer
  (\<^verbatim>\<open>output_reserve\<close>), the rows every micro-batch leaves in it, the mapping from tokens of the batch to rows with
  its selection sort, the lazy reordering (\<^verbatim>\<open>output_reorder\<close>) and the access functions.

  The buffer is a list of elements; \<^verbatim>\<open>logits\<close> and \<^verbatim>\<open>embd\<close> are offsets into it, \<open>None\<close> being the null pointer.
\<close>

section \<open>State\<close>

record 'f outs =
  ot_buf :: "'f list option"
  ot_logits :: "nat option"
  ot_embd :: "nat option"
  ot_logits_size :: nat
  ot_embd_size :: nat
  ot_n_outputs :: nat
  ot_output_ids :: "int list"
  ot_swaps :: "(nat \<times> nat) list"

text \<open>The elements are four bytes wide.  \<open>alloc\<close> is the buffer type's allocation: the fresh buffer, if there is one.\<close>

definition output_reserve :: "(nat \<Rightarrow> 'f list option) \<Rightarrow> bool \<Rightarrow> bool \<Rightarrow> nat \<Rightarrow> nat \<Rightarrow> nat \<Rightarrow> nat \<Rightarrow> nat \<Rightarrow> 'f outs \<Rightarrow> nat \<times> 'f outs" where
  "output_reserve alloc arch_t5 embeddings n_vocab n_embd n_batch n_seq_max n_outputs ot = (
     let n_outputs_max = max n_outputs n_seq_max;
         has_embd = (embeddings \<or> arch_t5);
         ot1 = ot\<lparr>ot_logits_size := n_vocab * n_outputs_max, ot_embd_size := (if has_embd then n_embd * n_outputs_max else 0),
           ot_output_ids := (if ot_output_ids ot = [] then replicate n_batch 0 else ot_output_ids ot)\<rparr>;
         prev_size = (case ot_buf ot of None \<Rightarrow> 0 | Some b \<Rightarrow> 4 * length b);
         new_size = (ot_logits_size ot1 + ot_embd_size ot1) * 4;
         grow = (ot_buf ot = None \<or> prev_size < new_size);
         ot2 = (if grow then ot1\<lparr>ot_buf := alloc (new_size div 4), ot_logits := None, ot_embd := None\<rparr> else ot1)
     in if ot_buf ot2 = None then (0, ot2)
        else (n_outputs_max, ot2\<lparr>ot_logits := Some 0, ot_embd := (if has_embd then Some (ot_logits_size ot1) else None),
          ot_output_ids := map (\<lambda>_. - 1) (ot_output_ids ot2), ot_n_outputs := 0\<rparr>))"

section \<open>Storing rows\<close>

text \<open>The logits of one micro-batch, after \<open>n_prev\<close> rows.\<close>

definition extract_logits :: "nat \<Rightarrow> nat \<Rightarrow> 'f list list \<Rightarrow> nat \<times> 'f outs \<Rightarrow> (nat \<times> 'f outs) option" where
  "extract_logits n_vocab n_outputs_all rows = (\<lambda>(n_outputs_prev, ot).
     (if rows = [] then Some (n_outputs_prev, ot\<lparr>ot_n_outputs := 0\<rparr>)
      else (case (ot_logits ot, ot_buf ot) of
          (Some base, Some buf) \<Rightarrow> do {
            guard (n_outputs_prev + length rows \<le> n_outputs_all);
            guard ((n_outputs_prev + length rows) * n_vocab \<le> ot_logits_size ot);
            let off = base + n_outputs_prev * n_vocab;
            Some (n_outputs_prev + length rows, ot\<lparr>ot_n_outputs := length rows,
              ot_buf := Some (take off buf @ concat rows @ drop (off + length rows * n_vocab) buf)\<rparr>)
          }
        | _ \<Rightarrow> None)))"

section \<open>The output mapping\<close>

definition find_min :: "nat list \<Rightarrow> nat \<Rightarrow> nat" where
  "find_min out_ids i = fold (\<lambda>j j_min. if out_ids ! j < out_ids ! j_min then j else j_min) [i + 1..<length out_ids] i"

definition sort_step :: "nat \<Rightarrow> nat list \<times> (nat \<times> nat) list \<Rightarrow> nat list \<times> (nat \<times> nat) list" where
  "sort_step i = (\<lambda>(out_ids, swaps). let j_min = find_min out_ids i in
     if j_min = i then (out_ids, swaps)
     else (out_ids[i := out_ids ! j_min, j_min := out_ids ! i], swaps @ [(i, j_min)]))"

definition sort_outputs :: "nat list \<Rightarrow> nat list \<times> (nat \<times> nat) list \<Rightarrow> nat list \<times> (nat \<times> nat) list" where
  "sort_outputs is = fold sort_step is"

definition put_ids :: "nat list \<Rightarrow> int list \<Rightarrow> int list option" where
  "put_ids out_ids ids = foldM (\<lambda>i ids. do { guard (out_ids ! i < length ids); Some (ids[out_ids ! i := int i]) }) [0..<length out_ids] ids"

definition set_output_mappings :: "nat \<Rightarrow> nat list \<Rightarrow> 'f outs \<Rightarrow> (nat list \<times> 'f outs) option" where
  "set_output_mappings n_outputs_all out_ids ot = do {
     let ot1 = ot\<lparr>ot_n_outputs := n_outputs_all\<rparr>;
     if n_outputs_all = 0 then Some (out_ids, ot1)
     else do {
       guard (length out_ids = n_outputs_all);
       ids \<leftarrow> put_ids out_ids (ot_output_ids ot1);
       let sorted_output = list_all (\<lambda>i. out_ids ! i = i) [0..<n_outputs_all];
       if sorted_output then Some (out_ids, ot1\<lparr>ot_output_ids := ids\<rparr>)
       else (case sort_outputs [0..<n_outputs_all - 1] (out_ids, ot_swaps ot1) of (out_ids', swaps) \<Rightarrow> do {
         ids' \<leftarrow> put_ids out_ids' (map (\<lambda>_. - 1) ids);
         Some (out_ids', ot1\<lparr>ot_output_ids := ids', ot_swaps := swaps\<rparr>)
       })
     }
   }"

text \<open>
  The output side of \<^verbatim>\<open>decode\<close>: \<open>rss\<close> are the rows that the micro-batches compute, in the order in which they are
  processed, and \<open>out_ids\<close> the tokens of the batch they belong to.  \<open>Inl\<close> is the return code of a failure.
\<close>

definition decode_outputs :: "(nat \<Rightarrow> 'f list option) \<Rightarrow> bool \<Rightarrow> bool \<Rightarrow> nat \<Rightarrow> nat \<Rightarrow> nat \<Rightarrow> nat \<Rightarrow> nat \<Rightarrow> nat list \<Rightarrow> 'f list list list \<Rightarrow> 'f outs
    \<Rightarrow> (int + 'f outs) option" where
  "decode_outputs alloc arch_t5 embeddings n_vocab n_embd n_batch n_seq_max n_outputs_all out_ids rss ot = (
     case output_reserve alloc arch_t5 embeddings n_vocab n_embd n_batch n_seq_max n_outputs_all (ot\<lparr>ot_swaps := []\<rparr>) of (n, ot1) \<Rightarrow>
     if n < n_outputs_all then Some (Inl (- 2))
     else do {
       (n_outputs_prev, ot2) \<leftarrow> foldM (extract_logits n_vocab n_outputs_all) rss (0, ot1);
       (out_ids', ot3) \<leftarrow> set_output_mappings n_outputs_all out_ids ot2;
       Some (Inr ot3)
     })"

section \<open>Access\<close>

definition swap_at :: "nat \<Rightarrow> nat \<Rightarrow> 'f list \<Rightarrow> 'f list option" where
  "swap_at a b xs = do { guard (a < length xs \<and> b < length xs); Some (xs[a := xs ! b, b := xs ! a]) }"

definition swap_rows :: "nat \<Rightarrow> nat \<Rightarrow> nat \<Rightarrow> nat \<Rightarrow> 'f list \<Rightarrow> 'f list option" where
  "swap_rows base n i0 i1 buf = foldM (\<lambda>k. swap_at (base + (i0 * n + k)) (base + (i1 * n + k))) [0..<n] buf"

text \<open>The rows of one of the two arrays, when it has a size.\<close>

definition swap_out :: "nat \<Rightarrow> nat option \<Rightarrow> nat \<Rightarrow> nat \<Rightarrow> nat \<Rightarrow> 'f list option \<Rightarrow> 'f list option option" where
  "swap_out sz ptr n i0 i1 buf = (if sz > 0
     then (case (ptr, buf) of (Some base, Some b) \<Rightarrow> map_option Some (swap_rows base n i0 i1 b) | _ \<Rightarrow> None)
     else Some buf)"

definition reorder_one :: "nat \<Rightarrow> nat \<Rightarrow> 'f outs \<Rightarrow> nat \<times> nat \<Rightarrow> 'f list option \<Rightarrow> 'f list option option" where
  "reorder_one n_vocab n_embd ot = (\<lambda>(i0, i1) buf. do {
     buf1 \<leftarrow> swap_out (ot_logits_size ot) (ot_logits ot) n_vocab i0 i1 buf;
     swap_out (ot_embd_size ot) (ot_embd ot) n_embd i0 i1 buf1
   })"

definition output_reorder :: "nat \<Rightarrow> nat \<Rightarrow> 'f outs \<Rightarrow> 'f outs option" where
  "output_reorder n_vocab n_embd ot = do {
     buf \<leftarrow> foldM (reorder_one n_vocab n_embd ot) (ot_swaps ot) (ot_buf ot);
     Some (ot\<lparr>ot_buf := buf, ot_swaps := []\<rparr>)
   }"

datatype out_error = NoBuffer | NegativeOutOfRange | IndexOutOfRange | NotRequested | CorruptBuffer

text \<open>
  The row of index \<open>i\<close>, shared by the two access functions.  \<^verbatim>\<open>n_outputs\<close> is unsigned, so the sum for a negative
  index is taken modulo \<open>2 ^ 32\<close> before it becomes a 64-bit value.
\<close>

definition output_row :: "int \<Rightarrow> 'f outs \<Rightarrow> out_error + nat" where
  "output_row i ot = (
     let check = (\<lambda>j. if j < 0 then Inl NotRequested else if j \<ge> int (ot_n_outputs ot) then Inl CorruptBuffer else Inr (nat j)) in
     if i < 0 then (let j = (int (ot_n_outputs ot) + i) mod 2 ^ 32 in if j < 0 then Inl NegativeOutOfRange else check j)
     else if nat i \<ge> length (ot_output_ids ot) then Inl IndexOutOfRange
     else check (ot_output_ids ot ! nat i))"

text \<open>The result is the offset of the row in the buffer.\<close>

definition get_logits_ith :: "nat \<Rightarrow> nat \<Rightarrow> int \<Rightarrow> 'f outs \<Rightarrow> ((out_error + nat) \<times> 'f outs) option" where
  "get_logits_ith n_vocab n_embd i ot = do {
     ot' \<leftarrow> output_reorder n_vocab n_embd ot;
     Some (case ot_logits ot' of None \<Rightarrow> Inl NoBuffer
       | Some base \<Rightarrow> (case output_row i ot' of Inl e \<Rightarrow> Inl e | Inr j \<Rightarrow> Inr (base + j * n_vocab)), ot')
   }"

definition get_embeddings_ith :: "nat \<Rightarrow> nat \<Rightarrow> int \<Rightarrow> 'f outs \<Rightarrow> ((out_error + nat) \<times> 'f outs) option" where
  "get_embeddings_ith n_vocab n_embd i ot = do {
     ot' \<leftarrow> output_reorder n_vocab n_embd ot;
     Some (case ot_embd ot' of None \<Rightarrow> Inl NoBuffer
       | Some base \<Rightarrow> (case output_row i ot' of Inl e \<Rightarrow> Inl e | Inr j \<Rightarrow> Inr (base + j * n_embd)), ot')
   }"

section \<open>Swaps as permutations\<close>

definition tau :: "nat \<Rightarrow> nat \<Rightarrow> nat \<Rightarrow> nat" where
  "tau a b r = (if r = a then b else if r = b then a else r)"

lemma tau_less: "a < m \<Longrightarrow> b < m \<Longrightarrow> r < m \<Longrightarrow> tau a b r < m"
  by (simp add: tau_def)

lemma tau_tau [simp]: "tau a b (tau a b r) = r"
  by (simp add: tau_def)

text \<open>The row that a sequence of swaps brings to place \<open>r\<close>.\<close>

fun sigma :: "(nat \<times> nat) list \<Rightarrow> nat \<Rightarrow> nat" where
  "sigma [] r = r"
| "sigma ((a, b) # sw) r = tau a b (sigma sw r)"

definition swaps_ok :: "nat \<Rightarrow> (nat \<times> nat) list \<Rightarrow> bool" where
  "swaps_ok m sw \<longleftrightarrow> (\<forall>(a, b) \<in> set sw. a < m \<and> b < m \<and> a \<noteq> b)"

lemma swaps_ok_Cons [simp]: "swaps_ok m ((a, b) # sw) \<longleftrightarrow> a < m \<and> b < m \<and> a \<noteq> b \<and> swaps_ok m sw"
  by (auto simp: swaps_ok_def)

lemma sigma_less: "swaps_ok m sw \<Longrightarrow> r < m \<Longrightarrow> sigma sw r < m"
  by (induction sw r rule: sigma.induct) (auto simp: tau_less)

lemma sigma_surj: "swaps_ok m sw \<Longrightarrow> k < m \<Longrightarrow> \<exists>r < m. sigma sw r = k"
proof (induction sw arbitrary: k)
  case (Cons s sw)
  obtain a b where s: "s = (a, b)" by (cases s)
  with Cons.prems have "tau a b k < m" "swaps_ok m sw" by (auto simp: tau_less)
  from Cons.IH [OF this(2,1)] obtain r where "r < m" "sigma sw r = tau a b k" by blast
  then show ?case by (auto simp: s intro!: exI [where x = r])
qed simp

definition apply_swaps :: "(nat \<times> nat) list \<Rightarrow> 'a list \<Rightarrow> 'a list" where
  "apply_swaps sw xs = fold (\<lambda>(a, b) xs. xs[a := xs ! b, b := xs ! a]) sw xs"

lemma apply_swaps_length [simp]: "length (apply_swaps sw xs) = length xs"
  unfolding apply_swaps_def by (induction sw arbitrary: xs) auto

lemma apply_swaps_nth:
  "swaps_ok (length xs) sw \<Longrightarrow> r < length xs \<Longrightarrow> apply_swaps sw xs ! r = xs ! sigma sw r"
proof (induction sw arbitrary: xs)
  case (Cons s sw)
  obtain a b where s: "s = (a, b)" by (cases s)
  let ?ys = "xs[a := xs ! b, b := xs ! a]"
  from Cons.prems s have ok: "a < length xs" "b < length xs" "a \<noteq> b" "swaps_ok (length ?ys) sw" "r < length ?ys" by auto
  have lt: "sigma sw r < length xs" using sigma_less [OF ok(4,5)] by simp
  have "apply_swaps (s # sw) xs ! r = apply_swaps sw ?ys ! r" by (simp add: apply_swaps_def s)
  also have "\<dots> = ?ys ! sigma sw r" by (rule Cons.IH [OF ok(4,5)])
  also have "\<dots> = xs ! tau a b (sigma sw r)" using ok lt by (auto simp: tau_def nth_list_update)
  finally show ?case by (simp add: s)
qed (simp add: apply_swaps_def)

section \<open>The selection sort\<close>

lemma find_min_bounds:
  fixes xs :: "nat list"
  assumes "i < n"
  defines "f \<equiv> \<lambda>j j_min. if xs ! j < xs ! j_min then j else j_min"
  shows "i \<le> fold f [i + 1..<n] i \<and> fold f [i + 1..<n] i < n \<and> (\<forall>j. i \<le> j \<and> j < n \<longrightarrow> xs ! fold f [i + 1..<n] i \<le> xs ! j)"
  using assms(1)
proof (induction n)
  case (Suc n)
  show ?case
  proof (cases "i = n")
    case False
    with Suc.prems have "i < n" by simp
    let ?m = "fold f [i + 1..<n] i"
    from Suc.IH [OF \<open>i < n\<close>] have IH: "i \<le> ?m" "?m < n" "\<And>j. i \<le> j \<Longrightarrow> j < n \<Longrightarrow> xs ! ?m \<le> xs ! j" by auto
    have eq: "fold f [i + 1..<Suc n] i = (if xs ! n < xs ! ?m then n else ?m)" using \<open>i < n\<close> by (simp add: f_def)
    have "xs ! (if xs ! n < xs ! ?m then n else ?m) \<le> xs ! j" if "i \<le> j" "j < Suc n" for j
      using IH(3) [of j] that by (cases "j = n") auto
    with IH(1,2) \<open>i < n\<close> show ?thesis unfolding eq by auto
  qed (auto simp: less_Suc_eq_le)
qed simp

lemma find_min_spec:
  assumes "i < length xs"
  shows "i \<le> find_min xs i" "find_min xs i < length xs" "i \<le> j \<Longrightarrow> j < length xs \<Longrightarrow> xs ! find_min xs i \<le> xs ! j"
  using find_min_bounds [OF assms, of xs] by (auto simp: find_min_def)

lemma sort_outputs_spec:
  assumes "k < length xs"
  shows "\<exists>sw. sort_outputs [0..<k] (xs, sw0) = (apply_swaps sw xs, sw0 @ sw) \<and> swaps_ok (length xs) sw \<and>
    (\<forall>a < k. \<forall>b. a < b \<longrightarrow> b < length xs \<longrightarrow> apply_swaps sw xs ! a \<le> apply_swaps sw xs ! b)"
  using assms
proof (induction k)
  case 0
  show ?case by (intro exI [where x = "[]"]) (simp add: sort_outputs_def apply_swaps_def swaps_ok_def)
next
  case (Suc k)
  then obtain sw where IH: "sort_outputs [0..<k] (xs, sw0) = (apply_swaps sw xs, sw0 @ sw)" "swaps_ok (length xs) sw"
    "\<forall>a < k. \<forall>b. a < b \<longrightarrow> b < length xs \<longrightarrow> apply_swaps sw xs ! a \<le> apply_swaps sw xs ! b" by auto
  let ?ys = "apply_swaps sw xs"
  let ?j = "find_min ?ys k"
  have k: "k < length ?ys" using Suc.prems by simp
  note M = find_min_spec [OF k]
  have step: "sort_outputs [0..<Suc k] (xs, sw0) = sort_step k (?ys, sw0 @ sw)" using IH(1) by (simp add: sort_outputs_def)
  show ?case
  proof (cases "?j = k")
    case True
    then have "sort_step k (?ys, sw0 @ sw) = (?ys, sw0 @ sw)" by (simp add: sort_step_def)
    moreover have "?ys ! a \<le> ?ys ! b" if "a < Suc k" "a < b" "b < length xs" for a b
      using that IH(3) M(3) [of b] True by (auto simp: less_Suc_eq)
    ultimately show ?thesis using step IH(2) by (intro exI [where x = sw]) simp
  next
    case False
    let ?zs = "?ys[k := ?ys ! ?j, ?j := ?ys ! k]"
    have eq: "apply_swaps (sw @ [(k, ?j)]) xs = ?zs" by (simp add: apply_swaps_def)
    have "sort_step k (?ys, sw0 @ sw) = (?zs, sw0 @ (sw @ [(k, ?j)]))" using False by (simp add: sort_step_def Let_def)
    moreover have "swaps_ok (length xs) (sw @ [(k, ?j)])" using IH(2) k M(2) False by (auto simp: swaps_ok_def)
    moreover have "?zs ! a \<le> ?zs ! b" if "a < Suc k" "a < b" "b < length xs" for a b
    proof (cases "a = k")
      case True
      with that M(1-3) k show ?thesis by (auto simp: nth_list_update)
    next
      case False
      with that have "a < k" by simp
      with that IH(3) M(1,2) k show ?thesis by (auto simp: nth_list_update)
    qed
    ultimately show ?thesis using step eq by (intro exI [where x = "sw @ [(k, ?j)]"]) simp
  qed
qed

lemma sort_outputs_sorted:
  assumes "0 < length xs"
  obtains sw where "sort_outputs [0..<length xs - 1] (xs, []) = (apply_swaps sw xs, sw)" "swaps_ok (length xs) sw" "sorted (apply_swaps sw xs)"
proof -
  from sort_outputs_spec [of "length xs - 1" xs "[]"] assms obtain sw where
    S: "sort_outputs [0..<length xs - 1] (xs, []) = (apply_swaps sw xs, sw)" "swaps_ok (length xs) sw"
      "\<forall>a < length xs - 1. \<forall>b. a < b \<longrightarrow> b < length xs \<longrightarrow> apply_swaps sw xs ! a \<le> apply_swaps sw xs ! b" by auto
  have "sorted (apply_swaps sw xs)"
    unfolding sorted_iff_nth_mono_less using S(3) by auto
  with S(1,2) show thesis by (rule that)
qed

section \<open>Reordering the buffer\<close>

lemma nth_swapped: "a < length xs \<Longrightarrow> b < length xs \<Longrightarrow> xs[a := u, b := v] ! x = (if b = x then v else if a = x then u else xs ! x)"
  by (simp add: nth_list_update)

lemma swap_rows_spec:
  assumes i: "i0 < m" "i1 < m" "i0 \<noteq> i1" and len: "base + m * n \<le> length buf"
  shows "wp (swap_rows base n i0 i1 buf) (\<lambda>b. length b = length buf \<and>
    (\<forall>r < m. \<forall>k < n. b ! (base + (r * n + k)) = buf ! (base + (tau i0 i1 r * n + k))) \<and>
    (\<forall>x. x < base \<or> base + m * n \<le> x \<longrightarrow> b ! x = buf ! x))"
proof -
  let ?P = "\<lambda>K b. length b = length buf \<and>
    (\<forall>r < m. \<forall>k < n. b ! (base + (r * n + k)) = (if k < K then buf ! (base + (tau i0 i1 r * n + k)) else buf ! (base + (r * n + k)))) \<and>
    (\<forall>x. x < base \<or> base + m * n \<le> x \<longrightarrow> b ! x = buf ! x)"
  have "wp (swap_rows base n i0 i1 buf) (?P n)"
    unfolding swap_rows_def
  proof (rule wp_foldM_upt [where P = ?P])
    show "?P 0 buf" by simp
  next
    fix K b
    assume K: "K < n" and P: "?P K b"
    let ?a = "base + (i0 * n + K)" and ?b = "base + (i1 * n + K)"
    have lt: "i0 * n + K < m * n" "i1 * n + K < m * n" using row_lt [OF i(1) K] row_lt [OF i(2) K] by simp_all
    then have inb: "?a < length b" "?b < length b" using P len by simp_all
    have ab: "b ! ?a = buf ! ?a" "b ! ?b = buf ! ?b" using P i K by simp_all
    let ?c = "b[?a := b ! ?b, ?b := b ! ?a]"
    have "?P (Suc K) ?c"
    proof (intro conjI allI impI)
      fix r k
      assume r: "r < m" and k: "k < n"
      have "?a = base + (r * n + k) \<longleftrightarrow> r = i0 \<and> k = K" "?b = base + (r * n + k) \<longleftrightarrow> r = i1 \<and> k = K"
        using stream_row_inj [OF K k] by auto
      then have c: "?c ! (base + (r * n + k)) = (if r = i1 \<and> k = K then b ! ?a else if r = i0 \<and> k = K then b ! ?b else b ! (base + (r * n + k)))"
        by (simp only: nth_swapped [OF inb])
      have "b ! (base + (r * n + k)) = (if k < K then buf ! (base + (tau i0 i1 r * n + k)) else buf ! (base + (r * n + k)))" using P r k by blast
      then show "?c ! (base + (r * n + k)) = (if k < Suc K then buf ! (base + (tau i0 i1 r * n + k)) else buf ! (base + (r * n + k)))"
        using i(3) ab unfolding c by (cases "k = K") (auto simp: tau_def less_Suc_eq)
    next
      fix x
      assume "x < base \<or> base + m * n \<le> x"
      with P lt show "?c ! x = buf ! x" by auto
    qed (use P in simp)
    with inb show "wp (swap_at ?a ?b b) (?P (Suc K))" by (simp add: swap_at_def)
  qed
  then show ?thesis by (rule wp_mono) simp
qed

text \<open>Where the rows of an output buffer are: logits first, embeddings behind them.\<close>

definition outs_wf :: "nat \<Rightarrow> nat \<Rightarrow> nat \<Rightarrow> 'f list \<Rightarrow> 'f outs \<Rightarrow> bool" where
  "outs_wf n_vocab n_embd m buf ot \<longleftrightarrow> ot_buf ot = Some buf \<and> ot_logits ot = Some 0 \<and> m * n_vocab \<le> ot_logits_size ot \<and>
     ot_logits_size ot \<le> length buf \<and>
     (0 < ot_embd_size ot \<longrightarrow> ot_embd ot = Some (ot_logits_size ot) \<and> ot_logits_size ot + m * n_embd \<le> length buf)"

lemma swap_out_spec:
  assumes i: "i0 < m" "i1 < m" "i0 \<noteq> i1" and szs: "0 < sz \<Longrightarrow> ptr = Some base" "0 < sz \<Longrightarrow> base + m * n \<le> length buf"
  shows "\<exists>b. swap_out sz ptr n i0 i1 (Some buf) = Some (Some b) \<and> length b = length buf \<and>
    (0 < sz \<longrightarrow> (\<forall>r < m. \<forall>k < n. b ! (base + (r * n + k)) = buf ! (base + (tau i0 i1 r * n + k)))) \<and>
    (\<forall>x. x < base \<or> base + m * n \<le> x \<longrightarrow> b ! x = buf ! x)"
proof (cases "0 < sz")
  case True
  from wpD [OF swap_rows_spec [OF i szs(2) [OF True]]] obtain b where
    "swap_rows base n i0 i1 buf = Some b" "length b = length buf"
    "\<forall>r < m. \<forall>k < n. b ! (base + (r * n + k)) = buf ! (base + (tau i0 i1 r * n + k))"
    "\<forall>x. x < base \<or> base + m * n \<le> x \<longrightarrow> b ! x = buf ! x" by blast
  with True szs(1) show ?thesis by (intro exI [where x = b]) (simp add: swap_out_def)
qed (simp add: swap_out_def)

text \<open>What a reordering by \<open>f\<close> does to the rows.\<close>

definition rows_moved :: "nat \<Rightarrow> nat \<Rightarrow> nat \<Rightarrow> 'f outs \<Rightarrow> (nat \<Rightarrow> nat) \<Rightarrow> 'f list \<Rightarrow> 'f list \<Rightarrow> bool" where
  "rows_moved n_vocab n_embd m ot f buf buf' \<longleftrightarrow> length buf' = length buf \<and>
     (\<forall>r < m. \<forall>k < n_vocab. buf' ! (r * n_vocab + k) = buf ! (f r * n_vocab + k)) \<and>
     (0 < ot_embd_size ot \<longrightarrow> (\<forall>r < m. \<forall>k < n_embd.
       buf' ! (ot_logits_size ot + (r * n_embd + k)) = buf ! (ot_logits_size ot + (f r * n_embd + k))))"

lemma reorder_one_spec:
  assumes wf: "outs_wf n_vocab n_embd m buf ot" and i: "i0 < m" "i1 < m" "i0 \<noteq> i1"
  shows "\<exists>b. reorder_one n_vocab n_embd ot (i0, i1) (Some buf) = Some (Some b) \<and> rows_moved n_vocab n_embd m ot (tau i0 i1) buf b"
proof -
  have W: "ot_logits ot = Some 0" "m * n_vocab \<le> ot_logits_size ot" "ot_logits_size ot \<le> length buf"
    "0 < ot_embd_size ot \<Longrightarrow> ot_embd ot = Some (ot_logits_size ot)" "0 < ot_embd_size ot \<Longrightarrow> ot_logits_size ot + m * n_embd \<le> length buf"
    using wf by (auto simp: outs_wf_def)
  have nv: "0 < ot_logits_size ot" if "0 < n_vocab" using that W(2) i(1) by (cases "ot_logits_size ot = 0") auto
  from swap_out_spec [OF i, of "ot_logits_size ot" "ot_logits ot" 0 n_vocab buf] W(1-3) obtain b1 where
    b1: "swap_out (ot_logits_size ot) (ot_logits ot) n_vocab i0 i1 (Some buf) = Some (Some b1)" "length b1 = length buf"
      "0 < ot_logits_size ot \<longrightarrow> (\<forall>r < m. \<forall>k < n_vocab. b1 ! (r * n_vocab + k) = buf ! (tau i0 i1 r * n_vocab + k))"
      "\<forall>x. m * n_vocab \<le> x \<longrightarrow> b1 ! x = buf ! x" by auto
  from swap_out_spec [OF i, of "ot_embd_size ot" "ot_embd ot" "ot_logits_size ot" n_embd b1] W(4,5) b1(2) obtain b2 where
    b2: "swap_out (ot_embd_size ot) (ot_embd ot) n_embd i0 i1 (Some b1) = Some (Some b2)" "length b2 = length b1"
      "0 < ot_embd_size ot \<longrightarrow> (\<forall>r < m. \<forall>k < n_embd. b2 ! (ot_logits_size ot + (r * n_embd + k)) = b1 ! (ot_logits_size ot + (tau i0 i1 r * n_embd + k)))"
      "\<forall>x. x < ot_logits_size ot \<longrightarrow> b2 ! x = b1 ! x" by auto
  have "b2 ! (r * n_vocab + k) = buf ! (tau i0 i1 r * n_vocab + k)" if "r < m" "k < n_vocab" for r k
  proof -
    have "r * n_vocab + k < ot_logits_size ot" using row_lt [OF that] W(2) by linarith
    with b2(4) b1(3) nv that show ?thesis by simp
  qed
  moreover have "b2 ! (ot_logits_size ot + (r * n_embd + k)) = buf ! (ot_logits_size ot + (tau i0 i1 r * n_embd + k))"
    if "0 < ot_embd_size ot" "r < m" "k < n_embd" for r k
  proof -
    have "m * n_vocab \<le> ot_logits_size ot + (tau i0 i1 r * n_embd + k)" using W(2) by linarith
    with b2(3) b1(4) that show ?thesis by simp
  qed
  ultimately show ?thesis using b1(1,2) b2(1,2) by (intro exI [where x = b2]) (simp add: reorder_one_def rows_moved_def)
qed

lemma rows_moved_trans:
  assumes "rows_moved n_vocab n_embd m ot f a b" "rows_moved n_vocab n_embd m ot g b c" and "\<And>r. r < m \<Longrightarrow> g r < m"
  shows "rows_moved n_vocab n_embd m ot (\<lambda>r. f (g r)) a c"
  using assms unfolding rows_moved_def by simp

lemma reorder_loop:
  assumes "outs_wf n_vocab n_embd m buf ot" "swaps_ok m sw"
  shows "\<exists>b. foldM (reorder_one n_vocab n_embd ot) sw (Some buf) = Some (Some b) \<and> rows_moved n_vocab n_embd m ot (sigma sw) buf b"
  using assms
proof (induction sw arbitrary: buf ot)
  case Nil
  then show ?case by (simp add: rows_moved_def)
next
  case (Cons s sw)
  obtain i0 i1 where s: "s = (i0, i1)" by (cases s)
  from Cons.prems(2) s have ok: "i0 < m" "i1 < m" "i0 \<noteq> i1" "swaps_ok m sw" by auto
  from reorder_one_spec [OF Cons.prems(1) ok(1-3)] obtain b1 where
    b1: "reorder_one n_vocab n_embd ot (i0, i1) (Some buf) = Some (Some b1)" "rows_moved n_vocab n_embd m ot (tau i0 i1) buf b1" by blast
  let ?ot = "ot\<lparr>ot_buf := Some b1\<rparr>"
  have same: "reorder_one n_vocab n_embd ?ot = reorder_one n_vocab n_embd ot" by (simp add: reorder_one_def)
  have "outs_wf n_vocab n_embd m b1 ?ot" using Cons.prems(1) b1(2) by (simp add: outs_wf_def rows_moved_def)
  from Cons.IH [OF this ok(4)] obtain b2 where
    b2: "foldM (reorder_one n_vocab n_embd ot) sw (Some b1) = Some (Some b2)" "rows_moved n_vocab n_embd m ot (sigma sw) b1 b2"
    unfolding same by (auto simp: rows_moved_def)
  from rows_moved_trans [OF b1(2) b2(2) sigma_less [OF ok(4)]] b1(1) b2(1)
  show ?case by (intro exI [where x = b2]) (simp add: s)
qed

lemma output_reorder_spec:
  assumes "outs_wf n_vocab n_embd m buf ot" "swaps_ok m (ot_swaps ot)"
  shows "\<exists>b. output_reorder n_vocab n_embd ot = Some (ot\<lparr>ot_buf := Some b, ot_swaps := []\<rparr>) \<and> rows_moved n_vocab n_embd m ot (sigma (ot_swaps ot)) buf b"
  using reorder_loop [OF assms] assms(1) by (auto simp: output_reorder_def outs_wf_def)

section \<open>The mapping of tokens to rows\<close>

lemma put_ids_spec:
  assumes "distinct out_ids" and "\<forall>x \<in> set out_ids. x < length ids"
  shows "\<exists>ids'. put_ids out_ids ids = Some ids' \<and> length ids' = length ids \<and> (\<forall>i < length out_ids. ids' ! (out_ids ! i) = int i) \<and>
    (\<forall>x < length ids. x \<notin> set out_ids \<longrightarrow> ids' ! x = ids ! x)"
proof -
  let ?P = "\<lambda>k ids'. length ids' = length ids \<and> (\<forall>i < k. ids' ! (out_ids ! i) = int i) \<and>
    (\<forall>x < length ids. x \<notin> set out_ids \<longrightarrow> ids' ! x = ids ! x)"
  have "wp (put_ids out_ids ids) (?P (length out_ids))"
    unfolding put_ids_def
  proof (rule wp_foldM_upt [where P = ?P])
    fix k ids'
    assume k: "k < length out_ids" and P: "?P k ids'"
    have lt: "out_ids ! k < length ids'" using assms(2) k P by simp
    have ne: "out_ids ! k \<noteq> out_ids ! i" if "i < k" for i using assms(1) k that by (simp add: nth_eq_iff_index_eq)
    from P lt k show "wp (do { guard (out_ids ! k < length ids'); Some (ids'[out_ids ! k := int k]) }) (?P (Suc k))"
      by (auto simp: less_Suc_eq nth_list_update dest: ne)
  qed simp
  then show ?thesis by (auto dest: wpD)
qed

text \<open>The state after the mapping: \<open>ids\<close> are the tokens in the order of the rows after the pending swaps.\<close>

definition mapped :: "nat list \<Rightarrow> nat list \<Rightarrow> 'f outs \<Rightarrow> bool" where
  "mapped out_ids ids ot \<longleftrightarrow> swaps_ok (length out_ids) (ot_swaps ot) \<and> ids = apply_swaps (ot_swaps ot) out_ids \<and> sorted ids \<and>
     ot_n_outputs ot = length out_ids \<and> (\<forall>i < length ids. ot_output_ids ot ! (ids ! i) = int i) \<and>
     (\<forall>x < length (ot_output_ids ot). x \<notin> set out_ids \<longrightarrow> ot_output_ids ot ! x = - 1)"

lemma apply_swaps_set: "swaps_ok (length xs) sw \<Longrightarrow> set (apply_swaps sw xs) = set xs"
proof (intro equalityI subsetI)
  fix x
  assume ok: "swaps_ok (length xs) sw"
  show "x \<in> set xs" if "x \<in> set (apply_swaps sw xs)"
  proof -
    from that obtain r where "r < length xs" "x = xs ! sigma sw r" by (auto simp: in_set_conv_nth apply_swaps_nth [OF ok])
    with sigma_less [OF ok] show ?thesis by simp
  qed
  assume "x \<in> set xs"
  then obtain k where "k < length xs" "x = xs ! k" by (auto simp: in_set_conv_nth)
  with sigma_surj [OF ok] show "x \<in> set (apply_swaps sw xs)" by (metis apply_swaps_length apply_swaps_nth [OF ok] nth_mem)
qed

lemma apply_swaps_distinct: "swaps_ok (length xs) sw \<Longrightarrow> distinct xs \<Longrightarrow> distinct (apply_swaps sw xs)"
  by (metis apply_swaps_length apply_swaps_set card_distinct distinct_card)

lemma set_output_mappings_spec:
  assumes "out_ids \<noteq> []" "distinct out_ids" "\<forall>x \<in> set out_ids. x < length (ot_output_ids ot)" "ot_swaps ot = []" "\<forall>x \<in> set (ot_output_ids ot). x = - 1"
  shows "\<exists>ids ot'. set_output_mappings (length out_ids) out_ids ot = Some (ids, ot') \<and> mapped out_ids ids ot' \<and>
    ot_buf ot' = ot_buf ot \<and> ot_logits ot' = ot_logits ot \<and> ot_embd ot' = ot_embd ot \<and> ot_logits_size ot' = ot_logits_size ot \<and>
    ot_embd_size ot' = ot_embd_size ot \<and> length (ot_output_ids ot') = length (ot_output_ids ot)"
proof -
  let ?ot = "ot\<lparr>ot_n_outputs := length out_ids\<rparr>"
  from put_ids_spec [OF assms(2,3)] obtain ids1 where
    I: "put_ids out_ids (ot_output_ids ot) = Some ids1" "length ids1 = length (ot_output_ids ot)" "\<forall>i < length out_ids. ids1 ! (out_ids ! i) = int i"
      "\<forall>x < length (ot_output_ids ot). x \<notin> set out_ids \<longrightarrow> ids1 ! x = ot_output_ids ot ! x" by blast
  show ?thesis
  proof (cases "list_all (\<lambda>i. out_ids ! i = i) [0..<length out_ids]")
    case True
    then have eq: "out_ids = [0..<length out_ids]" by (intro nth_equalityI) (auto simp: list_all_iff)
    have "sorted out_ids" by (subst eq) simp
    then have "mapped out_ids out_ids (?ot\<lparr>ot_output_ids := ids1\<rparr>)"
      using I assms(4,5) by (simp add: mapped_def swaps_ok_def apply_swaps_def)
    moreover have "set_output_mappings (length out_ids) out_ids ot = Some (out_ids, ?ot\<lparr>ot_output_ids := ids1\<rparr>)"
      using True I(1) assms(1) by (simp add: set_output_mappings_def Let_def)
    ultimately show ?thesis using I(2) by (intro exI [where x = out_ids] exI [where x = "?ot\<lparr>ot_output_ids := ids1\<rparr>"]) simp
  next
    case False
    obtain sw where S: "sort_outputs [0..<length out_ids - 1] (out_ids, []) = (apply_swaps sw out_ids, sw)" "swaps_ok (length out_ids) sw" "sorted (apply_swaps sw out_ids)"
      using assms(1) by (elim sort_outputs_sorted [of out_ids, rotated]) simp
    let ?ids = "apply_swaps sw out_ids"
    note A = apply_swaps_set [OF S(2)] apply_swaps_distinct [OF S(2) assms(2)]
    have "\<forall>x \<in> set ?ids. x < length (map (\<lambda>_. - 1 :: int) ids1)" using A(1) assms(3) I(2) by simp
    from put_ids_spec [OF A(2) this] obtain ids2 where
      J: "put_ids ?ids (map (\<lambda>_. - 1) ids1) = Some ids2" "length ids2 = length ids1" "\<forall>i < length ?ids. ids2 ! (?ids ! i) = int i"
        "\<forall>x < length ids1. x \<notin> set ?ids \<longrightarrow> ids2 ! x = - 1" by auto
    let ?ot' = "?ot\<lparr>ot_output_ids := ids2, ot_swaps := sw\<rparr>"
    have "mapped out_ids ?ids ?ot'" using J S A(1) by (simp add: mapped_def)
    moreover have "set_output_mappings (length out_ids) out_ids ot = Some (?ids, ?ot')"
      using False I(1) J(1) S(1) assms(1,4) by (simp add: set_output_mappings_def Let_def)
    ultimately show ?thesis using I(2) J(2) by (intro exI [where x = ?ids] exI [where x = ?ot']) simp
  qed
qed

section \<open>Storing the rows of the micro-batches\<close>

lemma extract_one:
  assumes "outs_wf n_vocab n_embd m buf ot" "n_prev + length rows \<le> m" "\<forall>r \<in> set rows. length r = n_vocab" "length (concat dn) = n_prev * n_vocab"
    and "take (n_prev * n_vocab) buf = concat dn"
  shows "\<exists>buf' ot'. extract_logits n_vocab m rows (n_prev, ot) = Some (n_prev + length rows, ot') \<and> outs_wf n_vocab n_embd m buf' ot' \<and>
    length buf' = length buf \<and> take ((n_prev + length rows) * n_vocab) buf' = concat (dn @ rows) \<and>
    ot_output_ids ot' = ot_output_ids ot \<and> ot_swaps ot' = ot_swaps ot \<and> ot_logits_size ot' = ot_logits_size ot \<and> ot_embd_size ot' = ot_embd_size ot"
proof (cases "rows = []")
  case True
  then show ?thesis using assms
    by (intro exI [where x = buf] exI [where x = "ot\<lparr>ot_n_outputs := 0\<rparr>"]) (simp add: extract_logits_def outs_wf_def)
next
  case False
  have len: "length (concat rows) = length rows * n_vocab" using assms(3) by (induction rows) auto
  have W: "m * n_vocab \<le> ot_logits_size ot" "ot_logits_size ot \<le> length buf" using assms(1) by (simp_all add: outs_wf_def)
  have le: "(n_prev + length rows) * n_vocab \<le> m * n_vocab" using assms(2) by (rule mult_le_mono1)
  let ?off = "n_prev * n_vocab"
  let ?buf = "take ?off buf @ concat rows @ drop (?off + length rows * n_vocab) buf"
  let ?ot = "ot\<lparr>ot_n_outputs := length rows, ot_buf := Some ?buf\<rparr>"
  have fit: "?off + length rows * n_vocab \<le> length buf" using le W by (simp add: add_mult_distrib)
  have lb: "length ?buf = length buf" using fit len by simp
  have "take ((n_prev + length rows) * n_vocab) ?buf = concat (dn @ rows)"
    using assms(4,5) len by (simp add: add_mult_distrib)
  moreover have "extract_logits n_vocab m rows (n_prev, ot) = Some (n_prev + length rows, ?ot)"
  proof -
    have g: "guard ((n_prev + length rows) * n_vocab \<le> ot_logits_size ot) = Some ()" by (simp only: le_trans [OF le W(1)] guard_simps)
    show ?thesis using False assms(1,2) by (simp only: extract_logits_def outs_wf_def g) (simp add: Let_def g)
  qed
  moreover have "outs_wf n_vocab n_embd m ?buf ?ot" using assms(1) lb by (simp add: outs_wf_def del: length_append)
  ultimately show ?thesis using lb by (intro exI [where x = ?buf] exI [where x = ?ot]) simp
qed

lemma extract_all:
  assumes "outs_wf n_vocab n_embd m buf ot" "n_prev + length (concat rss) \<le> m" "\<forall>r \<in> set (concat rss). length r = n_vocab"
    and "length (concat dn) = n_prev * n_vocab" "take (n_prev * n_vocab) buf = concat dn"
  shows "\<exists>buf' ot'. foldM (extract_logits n_vocab m) rss (n_prev, ot) = Some (n_prev + length (concat rss), ot') \<and> outs_wf n_vocab n_embd m buf' ot' \<and>
    take ((n_prev + length (concat rss)) * n_vocab) buf' = concat (dn @ concat rss) \<and>
    ot_output_ids ot' = ot_output_ids ot \<and> ot_swaps ot' = ot_swaps ot \<and> ot_logits_size ot' = ot_logits_size ot \<and> ot_embd_size ot' = ot_embd_size ot"
  using assms
proof (induction rss arbitrary: buf ot n_prev dn)
  case Nil
  then show ?case by auto
next
  case (Cons rows rss)
  from Cons.prems(2,3) have p: "n_prev + length rows \<le> m" "\<forall>r \<in> set rows. length r = n_vocab" by auto
  from extract_one [OF Cons.prems(1) p Cons.prems(4,5)] obtain buf1 ot1 where
    E: "extract_logits n_vocab m rows (n_prev, ot) = Some (n_prev + length rows, ot1)" "outs_wf n_vocab n_embd m buf1 ot1"
      "take ((n_prev + length rows) * n_vocab) buf1 = concat (dn @ rows)"
      "ot_output_ids ot1 = ot_output_ids ot" "ot_swaps ot1 = ot_swaps ot" "ot_logits_size ot1 = ot_logits_size ot" "ot_embd_size ot1 = ot_embd_size ot"
    by blast
  have "length (concat rows) = length rows * n_vocab" using p(2) by (induction rows) auto
  then have "length (concat (dn @ rows)) = (n_prev + length rows) * n_vocab" using Cons.prems(4) by (simp add: add_mult_distrib)
  with Cons.IH [OF E(2), of "n_prev + length rows" "dn @ rows"] Cons.prems(2,3) E(3) obtain buf' ot' where
    "foldM (extract_logits n_vocab m) rss (n_prev + length rows, ot1) = Some (n_prev + length rows + length (concat rss), ot')" "outs_wf n_vocab n_embd m buf' ot'"
    "take ((n_prev + length rows + length (concat rss)) * n_vocab) buf' = concat ((dn @ rows) @ concat rss)"
    "ot_output_ids ot' = ot_output_ids ot1" "ot_swaps ot' = ot_swaps ot1" "ot_logits_size ot' = ot_logits_size ot1" "ot_embd_size ot' = ot_embd_size ot1"
    by auto
  with E show ?case by (intro exI [where x = buf'] exI [where x = ot']) (simp add: add.assoc)
qed

section \<open>Properties\<close>

lemma nth_concat_uniform:
  "\<forall>r \<in> set rows. length r = w \<Longrightarrow> k < length rows \<Longrightarrow> q < w \<Longrightarrow> concat rows ! (k * w + q) = rows ! k ! q"
proof (induction rows arbitrary: k)
  case (Cons r rows)
  show ?case
  proof (cases k)
    case (Suc k')
    then have "concat (r # rows) ! (k * w + q) = concat rows ! (k' * w + q)" using Cons.prems(1) by (simp add: nth_append add.assoc)
    with Cons Suc show ?thesis by simp
  qed (use Cons.prems in \<open>simp add: nth_append\<close>)
qed simp

lemma output_reserve_wf:
  assumes "\<And>k. \<exists>b. alloc k = Some b \<and> length b = k"
  shows "\<exists>buf ot'. output_reserve alloc arch_t5 embeddings n_vocab n_embd n_batch n_seq_max m ot = (max m n_seq_max, ot') \<and>
    outs_wf n_vocab n_embd m buf ot' \<and> ot_swaps ot' = ot_swaps ot \<and> (\<forall>x \<in> set (ot_output_ids ot'). x = - 1) \<and>
    length (ot_output_ids ot') = (if ot_output_ids ot = [] then n_batch else length (ot_output_ids ot))"
proof -
  let ?mx = "max m n_seq_max"
  let ?ls = "n_vocab * ?mx" and ?es = "if embeddings \<or> arch_t5 then n_embd * ?mx else 0"
  let ?prev = "case ot_buf ot of None \<Rightarrow> 0 | Some b \<Rightarrow> 4 * length b"
  let ?grow = "ot_buf ot = None \<or> ?prev < (?ls + ?es) * 4"
  obtain nb where nb: "alloc (?ls + ?es) = Some nb" "length nb = ?ls + ?es" using assms by blast
  define buf where "buf = (if ?grow then nb else the (ot_buf ot))"
  have len: "?ls + ?es \<le> length buf" using nb(2) by (auto simp: buf_def split: option.splits)
  have le: "m * n_vocab \<le> ?ls" "m * n_embd \<le> n_embd * ?mx" by (simp_all add: mult.commute)
  define ot' where "ot' = ot\<lparr>ot_logits_size := ?ls, ot_embd_size := ?es, ot_buf := Some buf, ot_logits := Some 0,
      ot_embd := (if embeddings \<or> arch_t5 then Some ?ls else None),
      ot_output_ids := map (\<lambda>_. - 1) (if ot_output_ids ot = [] then replicate n_batch 0 else ot_output_ids ot), ot_n_outputs := 0\<rparr>"
  have "output_reserve alloc arch_t5 embeddings n_vocab n_embd n_batch n_seq_max m ot = (?mx, ot')"
  proof (cases ?grow)
    case True
    then show ?thesis using nb(1) by (simp add: output_reserve_def Let_def ot'_def buf_def)
  next
    case False
    then show ?thesis by (auto simp: output_reserve_def Let_def ot'_def buf_def)
  qed
  moreover have "outs_wf n_vocab n_embd m buf ot'"
  proof -
    have "?ls + m * n_embd \<le> length buf" if "embeddings \<or> arch_t5"
      using le_trans [OF add_left_mono [OF le(2)], of ?ls "length buf"] that len by simp
    moreover have "?ls \<le> length buf" using len by linarith
    ultimately show ?thesis using le(1) by (simp add: outs_wf_def ot'_def)
  qed
  ultimately show ?thesis by (intro exI [where x = buf] exI [where x = ot']) (simp add: ot'_def)
qed

text \<open>What the access functions return once the tokens are mapped.\<close>

lemma get_logits_mapped:
  assumes wf: "outs_wf n_vocab n_embd (length out_ids) buf ot" and map: "mapped out_ids ids ot"
    and rows: "take (length out_ids * n_vocab) buf = concat rows" "length rows = length out_ids" "\<forall>r \<in> set rows. length r = n_vocab"
    and ids: "\<forall>x \<in> set out_ids. x < length (ot_output_ids ot)"
  obtains ot'' where "output_reorder n_vocab n_embd ot = Some ot''" "output_reorder n_vocab n_embd ot'' = Some ot''" "ot_logits ot'' = Some 0"
    "ot_output_ids ot'' = ot_output_ids ot" "ot_n_outputs ot'' = length out_ids"
    "\<And>j. j < length out_ids \<Longrightarrow> take n_vocab (drop (j * n_vocab) (the (ot_buf ot''))) = rows ! sigma (ot_swaps ot) j"
proof -
  let ?m = "length out_ids"
  have ok: "swaps_ok ?m (ot_swaps ot)" and n: "ot_n_outputs ot = ?m" using map by (simp_all add: mapped_def)
  from output_reorder_spec [OF wf ok] obtain b where
    R: "output_reorder n_vocab n_embd ot = Some (ot\<lparr>ot_buf := Some b, ot_swaps := []\<rparr>)" "rows_moved n_vocab n_embd ?m ot (sigma (ot_swaps ot)) buf b" by blast
  have lenb: "?m * n_vocab \<le> length b" using R(2) wf by (auto simp: rows_moved_def outs_wf_def)
  have row: "take n_vocab (drop (j * n_vocab) b) = rows ! sigma (ot_swaps ot) j" if j: "j < ?m" for j
  proof (rule nth_equalityI)
    have s: "sigma (ot_swaps ot) j < ?m" by (rule sigma_less [OF ok j])
    have "j * n_vocab + n_vocab \<le> ?m * n_vocab" using mult_le_mono1 [of "Suc j" ?m n_vocab] j by simp
    then have "j * n_vocab + n_vocab \<le> length b" using lenb by linarith
    moreover have lr: "length (rows ! sigma (ot_swaps ot) j) = n_vocab" using rows(2,3) s by simp
    ultimately show "length (take n_vocab (drop (j * n_vocab) b)) = length (rows ! sigma (ot_swaps ot) j)" by simp
    fix q
    assume "q < length (take n_vocab (drop (j * n_vocab) b))"
    then have q: "q < n_vocab" by simp
    have "sigma (ot_swaps ot) j * n_vocab + q < ?m * n_vocab" using row_lt [OF s q] .
    then have "buf ! (sigma (ot_swaps ot) j * n_vocab + q) = concat rows ! (sigma (ot_swaps ot) j * n_vocab + q)"
      by (simp add: rows(1) [symmetric])
    also have "\<dots> = rows ! sigma (ot_swaps ot) j ! q" using nth_concat_uniform [OF rows(3) _ q] s rows(2) by simp
    finally show "take n_vocab (drop (j * n_vocab) b) ! q = rows ! sigma (ot_swaps ot) j ! q"
      using R(2) j q lenb row_lt [OF j q] by (simp add: rows_moved_def)
  qed
  have "output_reorder n_vocab n_embd (ot\<lparr>ot_buf := Some b, ot_swaps := []\<rparr>) = Some (ot\<lparr>ot_buf := Some b, ot_swaps := []\<rparr>)"
    by (simp add: output_reorder_def)
  with R(1) row n wf show thesis by (intro that [of "ot\<lparr>ot_buf := Some b, ot_swaps := []\<rparr>"]) (simp_all add: outs_wf_def)
qed

text \<open>C16: The logits of a token are the row computed for it.  After a batch has been decoded, in whatever order
  the splitting processed its output tokens, asking for the logits of an output token returns the row of the buffer
  that holds what the graph computed for this token, both on the first access, which reorders the buffer, and on
  any later one; index \<open>-1\<close> returns the row of the last output token of the batch; a token without
  output is an error.  The selection sort, the recorded swaps and the lazy reordering never leave the
  buffer.\<close>

theorem logits_of_token:
  assumes "\<And>k. \<exists>b. alloc k = Some b \<and> length b = k" and "out_ids \<noteq> []" and "distinct out_ids" and "\<forall>x \<in> set out_ids. x < n_batch"
    and "ot_output_ids ot = [] \<or> length (ot_output_ids ot) = n_batch"
    and "length (concat rss) = length out_ids" and "\<forall>r \<in> set (concat rss). length r = n_vocab" and "length out_ids \<le> 2 ^ 32"
  shows "\<exists>ot' ot''. decode_outputs alloc arch_t5 embeddings n_vocab n_embd n_batch n_seq_max (length out_ids) out_ids rss ot = Some (Inr ot') \<and>
    (\<forall>st \<in> {ot', ot''}.
      (\<forall>k < length out_ids. \<exists>off. get_logits_ith n_vocab n_embd (int (out_ids ! k)) st = Some (Inr off, ot'') \<and>
        take n_vocab (drop off (the (ot_buf ot''))) = concat rss ! k) \<and>
      (\<exists>k off. k < length out_ids \<and> out_ids ! k = Max (set out_ids) \<and> get_logits_ith n_vocab n_embd (- 1) st = Some (Inr off, ot'') \<and>
        take n_vocab (drop off (the (ot_buf ot''))) = concat rss ! k) \<and>
      (\<forall>x < n_batch. x \<notin> set out_ids \<longrightarrow> get_logits_ith n_vocab n_embd (int x) st = Some (Inl NotRequested, ot'')))"
proof -
  let ?m = "length out_ids" and ?rows = "concat rss"
  have m: "0 < ?m" using assms(2) by simp
  from output_reserve_wf [OF assms(1), of arch_t5 embeddings n_vocab n_embd n_batch n_seq_max ?m "ot\<lparr>ot_swaps := []\<rparr>"] obtain buf0 ot0 where
    A: "output_reserve alloc arch_t5 embeddings n_vocab n_embd n_batch n_seq_max ?m (ot\<lparr>ot_swaps := []\<rparr>) = (max ?m n_seq_max, ot0)"
      "outs_wf n_vocab n_embd ?m buf0 ot0" "ot_swaps ot0 = []" "\<forall>x \<in> set (ot_output_ids ot0). x = - 1" "length (ot_output_ids ot0) = n_batch"
    using assms(5) by (auto split: if_splits)
  from extract_all [OF A(2), of 0 rss "[]"] assms(6,7) obtain buf1 ot1 where
    B: "foldM (extract_logits n_vocab ?m) rss (0, ot0) = Some (?m, ot1)" "outs_wf n_vocab n_embd ?m buf1 ot1" "take (?m * n_vocab) buf1 = concat ?rows"
      "ot_output_ids ot1 = ot_output_ids ot0" "ot_swaps ot1 = []" using A(3) by auto
  from set_output_mappings_spec [OF assms(2,3), of ot1] assms(4) A(4,5) B(4,5) obtain ids ot' where
    C: "set_output_mappings ?m out_ids ot1 = Some (ids, ot')" "mapped out_ids ids ot'" "ot_buf ot' = ot_buf ot1" "ot_logits ot' = ot_logits ot1"
      "ot_embd ot' = ot_embd ot1" "ot_logits_size ot' = ot_logits_size ot1" "ot_embd_size ot' = ot_embd_size ot1" "length (ot_output_ids ot') = n_batch"
    by auto
  have wf: "outs_wf n_vocab n_embd ?m buf1 ot'" using B(2) C(3-7) by (simp add: outs_wf_def)
  have idx: "\<forall>x \<in> set out_ids. x < length (ot_output_ids ot')" using assms(4) C(8) by simp
  obtain ot'' where D: "output_reorder n_vocab n_embd ot' = Some ot''" "output_reorder n_vocab n_embd ot'' = Some ot''" "ot_logits ot'' = Some 0"
    "ot_output_ids ot'' = ot_output_ids ot'" "ot_n_outputs ot'' = ?m"
    "\<And>j. j < ?m \<Longrightarrow> take n_vocab (drop (j * n_vocab) (the (ot_buf ot''))) = ?rows ! sigma (ot_swaps ot') j"
    using get_logits_mapped [OF wf C(2) B(3) assms(6,7) idx] by metis
  from C(2) have M: "swaps_ok ?m (ot_swaps ot')" "ids = apply_swaps (ot_swaps ot') out_ids" "sorted ids" "\<forall>i < length ids. ot_output_ids ot' ! (ids ! i) = int i"
    "\<forall>x < length (ot_output_ids ot'). x \<notin> set out_ids \<longrightarrow> ot_output_ids ot' ! x = - 1" by (auto simp: mapped_def)
  have get: "get_logits_ith n_vocab n_embd i st = Some (case output_row i ot'' of Inl e \<Rightarrow> Inl e | Inr j \<Rightarrow> Inr (j * n_vocab), ot'')" if "st \<in> {ot', ot''}" for i st
    using that D(1-3) by (auto simp: get_logits_ith_def split: sum.splits)
  have tok: "\<exists>j < ?m. output_row (int (out_ids ! k)) ot'' = Inr j \<and> sigma (ot_swaps ot') j = k" if k: "k < ?m" for k
  proof -
    from sigma_surj [OF M(1) k] obtain j where j: "j < ?m" "sigma (ot_swaps ot') j = k" by blast
    then have "ids ! j = out_ids ! k" using M(2) apply_swaps_nth [OF M(1) j(1)] by simp
    then have "ot_output_ids ot'' ! (out_ids ! k) = int j" using M(2,4) j(1) D(4) by auto
    moreover have "out_ids ! k < length (ot_output_ids ot'')" using idx k D(4) by simp
    ultimately show ?thesis using j D(5) by (intro exI [where x = j]) (simp add: output_row_def Let_def)
  qed
  have "(int ?m + - 1) mod 2 ^ 32 = int ?m - 1" using assms(8) m by (subst mod_pos_pos_trivial) simp_all
  then have last: "output_row (- 1) ot'' = Inr (?m - 1)" using D(5) m by (simp add: output_row_def Let_def)
  let ?l = "sigma (ot_swaps ot') (?m - 1)"
  have l: "?l < ?m" "out_ids ! ?l = Max (set out_ids)"
  proof -
    show "?l < ?m" using sigma_less [OF M(1)] m by simp
    have "out_ids ! ?l = ids ! (?m - 1)" using apply_swaps_nth [OF M(1), of "?m - 1"] M(2) m by simp
    moreover have "x \<le> ids ! (?m - 1)" if "x \<in> set ids" for x
      using that M(2,3) sorted_nth_mono [OF M(3), of _ "?m - 1"] by (auto simp: in_set_conv_nth)
    moreover have "set ids = set out_ids" using M(2) apply_swaps_set [OF M(1)] by simp
    moreover have "ids ! (?m - 1) \<in> set ids" using M(2) m by simp
    ultimately show "out_ids ! ?l = Max (set out_ids)" by (intro Max_eqI [symmetric]) auto
  qed
  have none: "output_row (int x) ot'' = Inl NotRequested" if "x < n_batch" "x \<notin> set out_ids" for x
    using that M(5) C(8) D(4) by (simp add: output_row_def Let_def)
  have run: "decode_outputs alloc arch_t5 embeddings n_vocab n_embd n_batch n_seq_max ?m out_ids rss ot = Some (Inr ot')"
    using A(1) B(1) C(1) by (simp add: decode_outputs_def)
  have "(\<forall>k < ?m. \<exists>off. get_logits_ith n_vocab n_embd (int (out_ids ! k)) st = Some (Inr off, ot'') \<and> take n_vocab (drop off (the (ot_buf ot''))) = ?rows ! k) \<and>
      (\<exists>k off. k < ?m \<and> out_ids ! k = Max (set out_ids) \<and> get_logits_ith n_vocab n_embd (- 1) st = Some (Inr off, ot'') \<and>
        take n_vocab (drop off (the (ot_buf ot''))) = ?rows ! k) \<and>
      (\<forall>x < n_batch. x \<notin> set out_ids \<longrightarrow> get_logits_ith n_vocab n_embd (int x) st = Some (Inl NotRequested, ot''))" if st: "st \<in> {ot', ot''}" for st
  proof (intro conjI allI impI)
    show "\<exists>off. get_logits_ith n_vocab n_embd (int (out_ids ! k)) st = Some (Inr off, ot'') \<and> take n_vocab (drop off (the (ot_buf ot''))) = ?rows ! k" if "k < ?m" for k
      using tok [OF that] get [OF st] D(6) by fastforce
    show "\<exists>k off. k < ?m \<and> out_ids ! k = Max (set out_ids) \<and> get_logits_ith n_vocab n_embd (- 1) st = Some (Inr off, ot'') \<and>
        take n_vocab (drop off (the (ot_buf ot''))) = ?rows ! k"
      using l last get [OF st] D(6) [of "?m - 1"] m by (intro exI [where x = ?l] exI [where x = "(?m - 1) * n_vocab"]) simp
    show "get_logits_ith n_vocab n_embd (int x) st = Some (Inl NotRequested, ot'')" if "x < n_batch" "x \<notin> set out_ids" for x
      using none [OF that] get [OF st] by simp
  qed
  with run show ?thesis by blast
qed

definition demo_outs :: "nat outs" where
  "demo_outs = \<lparr>ot_buf = None, ot_logits = None, ot_embd = None, ot_logits_size = 0, ot_embd_size = 0, ot_n_outputs = 0, ot_output_ids = [], ot_swaps = []\<rparr>"

theorem logits_of_token_witness:
  "\<exists>ot' ot'' off. decode_outputs (\<lambda>k. Some (replicate k 0)) False False 2 4 8 1 3 [4, 0, 2] [[[1, 2], [3, 4]], [[5, 6]]] demo_outs = Some (Inr ot') \<and>
     get_logits_ith 2 4 4 ot' = Some (Inr off, ot'') \<and> take 2 (drop off (the (ot_buf ot''))) = [1, 2]"
proof -
  have "\<exists>b. (Some (replicate k 0) :: nat list option) = Some b \<and> length b = k" for k by simp
  note alloc = this
  let ?rss = "[[[1, 2], [3, 4]], [[5, 6 :: nat]]]"
  have h: "[4, 0, 2 :: nat] \<noteq> []" "distinct [4, 0, 2 :: nat]" "\<forall>x \<in> set [4, 0, 2 :: nat]. x < 8"
    "ot_output_ids demo_outs = [] \<or> length (ot_output_ids demo_outs) = 8" "length (concat ?rss) = length [4, 0, 2 :: nat]" "\<forall>r \<in> set (concat ?rss). length r = 2"
    "length [4, 0, 2 :: nat] \<le> 2 ^ 32"
    by (simp_all add: demo_outs_def)
  from logits_of_token [OF alloc h, of False False 4 1] obtain ot' ot'' where
    D: "decode_outputs (\<lambda>k. Some (replicate k 0)) False False 2 4 8 1 (length [4, 0, 2 :: nat]) [4, 0, 2] ?rss demo_outs = Some (Inr ot')"
    and G: "\<forall>k < length [4, 0, 2 :: nat]. \<exists>off. get_logits_ith 2 4 (int ([4, 0, 2] ! k)) ot' = Some (Inr off, ot'') \<and>
        take 2 (drop off (the (ot_buf ot''))) = concat ?rss ! k"
    by blast
  from G [rule_format, of 0] obtain off where "get_logits_ith 2 4 4 ot' = Some (Inr off, ot'')" "take 2 (drop off (the (ot_buf ot''))) = [1, 2]" by auto
  moreover have "length [4, 0, 2 :: nat] = 3" by simp
  ultimately show ?thesis using D by metis
qed

text \<open>A negative index beyond the outputs is reported as a corrupt buffer; the error meant for it cannot occur.\<close>

theorem negative_index_error:
  shows "output_row i ot \<noteq> Inl NegativeOutOfRange"
    and "i < - int (ot_n_outputs ot) \<Longrightarrow> - (2 ^ 31) \<le> i \<Longrightarrow> ot_n_outputs ot \<le> 2 ^ 31 \<Longrightarrow> output_row i ot = Inl CorruptBuffer"
proof -
  have "\<not> (int (ot_n_outputs ot) + i) mod 2 ^ 32 < 0" by (simp add: not_less)
  then show "output_row i ot \<noteq> Inl NegativeOutOfRange" unfolding output_row_def Let_def by (simp split: if_split)
  assume "i < - int (ot_n_outputs ot)" "- (2 ^ 31) \<le> i" "ot_n_outputs ot \<le> 2 ^ 31"
  then have i: "- (2 ^ 32) \<le> int (ot_n_outputs ot) + i" "int (ot_n_outputs ot) + i < 0" "i < 0" "int (ot_n_outputs ot) \<le> 2 ^ 31" by simp_all
  have "(int (ot_n_outputs ot) + i) mod 2 ^ 32 = (int (ot_n_outputs ot) + i + 2 ^ 32) mod 2 ^ 32" by simp
  also have "\<dots> = int (ot_n_outputs ot) + i + 2 ^ 32" using i by (intro mod_pos_pos_trivial) linarith+
  finally show "output_row i ot = Inl CorruptBuffer" using i \<open>- (2 ^ 31) \<le> i\<close> by (simp add: output_row_def Let_def)
qed

end
