(* ===== verification/CStrings.thy ===== *)
theory CStrings
  imports Prelude
begin

text \<open>
  The string functions of the C and C++ libraries that the modelled code uses, on HOL strings: case
  conversion in the C locale, \<^verbatim>\<open>striequals\<close> of \<^verbatim>\<open>quantize.cpp\<close>, substring search, decimal printing
  (\<^verbatim>\<open>std::to_string\<close>) and parsing (\<^verbatim>\<open>std::stoi\<close>), and \<^verbatim>\<open>string_split\<close> of \<^verbatim>\<open>common.h\<close>.
\<close>

section \<open>Characters\<close>

definition c_code :: "char \<Rightarrow> nat" where
  "c_code c = of_char c"

definition c_tolower :: "char \<Rightarrow> char" where
  "c_tolower c = (if 65 \<le> c_code c \<and> c_code c \<le> 90 then char_of (c_code c + 32) else c)"

definition c_toupper :: "char \<Rightarrow> char" where
  "c_toupper c = (if 97 \<le> c_code c \<and> c_code c \<le> 122 then char_of (c_code c - 32) else c)"

definition c_isdigit :: "char \<Rightarrow> bool" where
  "c_isdigit c \<longleftrightarrow> 48 \<le> c_code c \<and> c_code c \<le> 57"

definition c_isspace :: "char \<Rightarrow> bool" where
  "c_isspace c \<longleftrightarrow> c_code c = 32 \<or> (9 \<le> c_code c \<and> c_code c \<le> 13)"

lemma c_code_char_of [simp]: "n < 256 \<Longrightarrow> c_code (char_of n) = n"
  by (simp add: c_code_def)

lemma c_code_less [simp]: "c_code c < 256"
  by (simp add: c_code_def)

lemma c_code_eq_iff: "c_code c = c_code d \<longleftrightarrow> c = d"
  by (simp add: c_code_def)

lemma tolower_idem [simp]: "c_tolower (c_tolower c) = c_tolower c"
  by (auto simp: c_tolower_def)

lemma tolower_toupper [simp]: "c_tolower (c_toupper c) = c_tolower c"
proof -
  have "c_code c < 256" by simp
  then show ?thesis by (auto simp: c_tolower_def c_toupper_def c_code_eq_iff [symmetric])
qed

section \<open>Comparing and searching\<close>

fun striequals :: "string \<Rightarrow> string \<Rightarrow> bool" where
  "striequals (a # as) (b # bs) = (if c_tolower a \<noteq> c_tolower b then False else striequals as bs)"
| "striequals [] [] = True"
| "striequals _ _ = False"

lemma striequals_iff: "striequals a b \<longleftrightarrow> map c_tolower a = map c_tolower b"
  by (induction a b rule: striequals.induct) auto

fun has_prefix :: "string \<Rightarrow> string \<Rightarrow> bool" where
  "has_prefix [] _ = True"
| "has_prefix (_ # _) [] = False"
| "has_prefix (a # as) (b # bs) = (a = b \<and> has_prefix as bs)"

lemma has_prefix_iff: "has_prefix p s \<longleftrightarrow> (\<exists>t. s = p @ t)"
  by (induction p s rule: has_prefix.induct) auto

text \<open>\<^verbatim>\<open>s.find(needle) != npos\<close>\<close>

fun contains :: "string \<Rightarrow> string \<Rightarrow> bool" where
  "contains [] needle = (needle = [])"
| "contains (c # s) needle = (has_prefix needle (c # s) \<or> contains s needle)"

lemma contains_iff: "contains s needle \<longleftrightarrow> (\<exists>u v. s = u @ needle @ v)"
proof (induction s)
  case (Cons c s)
  have "(\<exists>u v. c # s = u @ needle @ v) \<longleftrightarrow> (\<exists>v. c # s = needle @ v) \<or> (\<exists>u v. s = u @ needle @ v)"
    by (metis append_Cons append_Nil neq_Nil_conv list.inject)
  with Cons show ?case by (simp add: has_prefix_iff)
qed simp

fun has_suffix :: "string \<Rightarrow> string \<Rightarrow> bool" where
  "has_suffix p s = has_prefix (rev p) (rev s)"

lemma has_suffix_iff: "has_suffix p s \<longleftrightarrow> (\<exists>t. s = t @ p)"
  by (simp add: has_prefix_iff) (metis rev_append rev_rev_ident)

section \<open>Decimal numbers\<close>

definition digit_char :: "nat \<Rightarrow> char" where
  "digit_char d = char_of (48 + d)"

definition digit_val :: "char \<Rightarrow> nat" where
  "digit_val c = c_code c - 48"

lemma digit_char [simp]: "d < 10 \<Longrightarrow> digit_val (digit_char d) = d" "d < 10 \<Longrightarrow> c_isdigit (digit_char d)"
  by (simp_all add: digit_val_def digit_char_def c_isdigit_def)

text \<open>\<^verbatim>\<open>std::to_string\<close> of a non-negative number.\<close>

fun to_string :: "nat \<Rightarrow> string" where
  "to_string n = (if n < 10 then [digit_char n] else to_string (n div 10) @ [digit_char (n mod 10)])"

declare to_string.simps [simp del]

definition dec_val :: "string \<Rightarrow> nat" where
  "dec_val ds = foldl (\<lambda>v c. 10 * v + digit_val c) 0 ds"

lemma dec_val_snoc: "dec_val (ds @ [c]) = 10 * dec_val ds + digit_val c"
  by (simp add: dec_val_def)

lemma dec_val_to_string [simp]: "dec_val (to_string n) = n"
proof (induction n rule: to_string.induct)
  case (1 n)
  then show ?case by (subst to_string.simps) (auto simp: dec_val_snoc dec_val_def)
qed

lemma to_string_digits: "c \<in> set (to_string n) \<Longrightarrow> c_isdigit c"
proof (induction n rule: to_string.induct)
  case (1 n)
  then show ?case by (subst (asm) to_string.simps) (auto split: if_splits)
qed

lemma to_string_ne [simp]: "to_string n \<noteq> []"
  by (subst to_string.simps) simp

lemma to_string_inj: "to_string m = to_string n \<longleftrightarrow> m = n"
  by (metis dec_val_to_string)

text \<open>\<^verbatim>\<open>std::stoi\<close>: leading white space, an optional sign, at least one digit; \<open>None\<close> is an exception
  (\<^verbatim>\<open>invalid_argument\<close> or \<^verbatim>\<open>out_of_range\<close>). What follows the digits is ignored.\<close>

definition stoi_digits :: "bool \<Rightarrow> string \<Rightarrow> int option" where
  "stoi_digits neg s = (let ds = takeWhile c_isdigit s; v = (if neg then - int (dec_val ds) else int (dec_val ds)) in
     if ds = [] then None else s32 v)"

definition stoi :: "string \<Rightarrow> int option" where
  "stoi s = (case dropWhile c_isspace s of
       [] \<Rightarrow> None
     | c # cs \<Rightarrow> if c = CHR ''-'' then stoi_digits True cs else if c = CHR ''+'' then stoi_digits False cs else stoi_digits False (c # cs))"

lemma isdigit_not_other: "c_isdigit c \<Longrightarrow> \<not> c_isspace c \<and> c \<noteq> CHR ''-'' \<and> c \<noteq> CHR ''+''"
  by (auto simp: c_isdigit_def c_isspace_def c_code_def)

lemma takeWhile_digits: "(\<And>c. c \<in> set ds \<Longrightarrow> c_isdigit c) \<Longrightarrow> rest = [] \<or> \<not> c_isdigit (hd rest) \<Longrightarrow> takeWhile c_isdigit (ds @ rest) = ds"
  by (cases rest) (auto simp: takeWhile_append)

lemma stoi_to_string:
  assumes "int n \<le> int32_max" and "rest = [] \<or> \<not> c_isdigit (hd rest)"
  shows "stoi (to_string n @ rest) = Some (int n)"
proof -
  obtain c cs where c: "to_string n = c # cs" by (cases "to_string n") auto
  have d: "c_isdigit c" using to_string_digits [of c n] c by simp
  have "takeWhile c_isdigit (to_string n @ rest) = to_string n" using assms(2) by (intro takeWhile_digits) (auto dest: to_string_digits)
  with c isdigit_not_other [OF d] assms(1) show ?thesis
    by (simp add: stoi_def stoi_digits_def Let_def s32_def int32_ok_def int32_min_def dec_val_to_string [of n, unfolded c])
qed

section \<open>Splitting\<close>

fun string_split :: "char \<Rightarrow> string \<Rightarrow> string list" where
  "string_split sep [] = [[]]"
| "string_split sep (c # s) = (if c = sep then [] # string_split sep s else (c # hd (string_split sep s)) # tl (string_split sep s))"

lemma string_split_ne [simp]: "string_split sep s \<noteq> []"
  by (cases s) auto

end
