(* ===== verification/GgmlTypes.thy ===== *)
theory GgmlTypes
  imports CStrings
begin

text \<open>
  The tensor types of \<^verbatim>\<open>src/ggml\<close> that the quantizer chooses between: the enumeration \<^verbatim>\<open>ggml_type\<close>
  (\<^verbatim>\<open>ggml.h\<close>), the table \<^verbatim>\<open>type_traits\<close> with the functions that read it (\<^verbatim>\<open>ggml.c\<close>; the block sizes are
  those the static assertions of \<^verbatim>\<open>ggml-common.h\<close> state), the file types \<^verbatim>\<open>llama_ftype\<close> (\<^verbatim>\<open>llama.h\<close>) and the
  command-line names of both (\<^verbatim>\<open>src/tools/quantize/quantize.cpp\<close>).

  \<open>GGML_TYPE_REMOVED n\<close> stands for the enumeration values that the header keeps reserved (4, 5, 31-33,
  36-38); the sentinel \<^verbatim>\<open>GGML_TYPE_COUNT\<close> is \<open>None\<close> wherever the code uses it for "no type".
\<close>

section \<open>Tensor types\<close>

datatype ggml_type =
    GGML_TYPE_F32 | GGML_TYPE_F16 | GGML_TYPE_Q4_0 | GGML_TYPE_Q4_1 | GGML_TYPE_Q5_0 | GGML_TYPE_Q5_1
  | GGML_TYPE_Q8_0 | GGML_TYPE_Q8_1 | GGML_TYPE_Q2_K | GGML_TYPE_Q3_K | GGML_TYPE_Q4_K | GGML_TYPE_Q5_K
  | GGML_TYPE_Q6_K | GGML_TYPE_Q8_K | GGML_TYPE_IQ2_XXS | GGML_TYPE_IQ2_XS | GGML_TYPE_IQ3_XXS | GGML_TYPE_IQ1_S
  | GGML_TYPE_IQ4_NL | GGML_TYPE_IQ3_S | GGML_TYPE_IQ2_S | GGML_TYPE_IQ4_XS | GGML_TYPE_I8 | GGML_TYPE_I16
  | GGML_TYPE_I32 | GGML_TYPE_I64 | GGML_TYPE_F64 | GGML_TYPE_IQ1_M | GGML_TYPE_BF16 | GGML_TYPE_TQ1_0
  | GGML_TYPE_TQ2_0 | GGML_TYPE_MXFP4
  | GGML_TYPE_REMOVED nat

definition ggml_type_of :: "nat \<Rightarrow> ggml_type option" where
  "ggml_type_of i =
    (if i \<ge> 40 then None
     else Some (case map_of [
       (0, GGML_TYPE_F32),
       (1, GGML_TYPE_F16),
       (2, GGML_TYPE_Q4_0),
       (3, GGML_TYPE_Q4_1),
       (6, GGML_TYPE_Q5_0),
       (7, GGML_TYPE_Q5_1),
       (8, GGML_TYPE_Q8_0),
       (9, GGML_TYPE_Q8_1),
       (10, GGML_TYPE_Q2_K),
       (11, GGML_TYPE_Q3_K),
       (12, GGML_TYPE_Q4_K),
       (13, GGML_TYPE_Q5_K),
       (14, GGML_TYPE_Q6_K),
       (15, GGML_TYPE_Q8_K),
       (16, GGML_TYPE_IQ2_XXS),
       (17, GGML_TYPE_IQ2_XS),
       (18, GGML_TYPE_IQ3_XXS),
       (19, GGML_TYPE_IQ1_S),
       (20, GGML_TYPE_IQ4_NL),
       (21, GGML_TYPE_IQ3_S),
       (22, GGML_TYPE_IQ2_S),
       (23, GGML_TYPE_IQ4_XS),
       (24, GGML_TYPE_I8),
       (25, GGML_TYPE_I16),
       (26, GGML_TYPE_I32),
       (27, GGML_TYPE_I64),
       (28, GGML_TYPE_F64),
       (29, GGML_TYPE_IQ1_M),
       (30, GGML_TYPE_BF16),
       (34, GGML_TYPE_TQ1_0),
       (35, GGML_TYPE_TQ2_0),
       (39, GGML_TYPE_MXFP4)] i of Some t \<Rightarrow> t | None \<Rightarrow> GGML_TYPE_REMOVED i))"

definition ggml_type_code :: "ggml_type \<Rightarrow> nat" where
  "ggml_type_code t = (case t of
      GGML_TYPE_F32 \<Rightarrow> 0
    | GGML_TYPE_F16 \<Rightarrow> 1
    | GGML_TYPE_Q4_0 \<Rightarrow> 2
    | GGML_TYPE_Q4_1 \<Rightarrow> 3
    | GGML_TYPE_Q5_0 \<Rightarrow> 6
    | GGML_TYPE_Q5_1 \<Rightarrow> 7
    | GGML_TYPE_Q8_0 \<Rightarrow> 8
    | GGML_TYPE_Q8_1 \<Rightarrow> 9
    | GGML_TYPE_Q2_K \<Rightarrow> 10
    | GGML_TYPE_Q3_K \<Rightarrow> 11
    | GGML_TYPE_Q4_K \<Rightarrow> 12
    | GGML_TYPE_Q5_K \<Rightarrow> 13
    | GGML_TYPE_Q6_K \<Rightarrow> 14
    | GGML_TYPE_Q8_K \<Rightarrow> 15
    | GGML_TYPE_IQ2_XXS \<Rightarrow> 16
    | GGML_TYPE_IQ2_XS \<Rightarrow> 17
    | GGML_TYPE_IQ3_XXS \<Rightarrow> 18
    | GGML_TYPE_IQ1_S \<Rightarrow> 19
    | GGML_TYPE_IQ4_NL \<Rightarrow> 20
    | GGML_TYPE_IQ3_S \<Rightarrow> 21
    | GGML_TYPE_IQ2_S \<Rightarrow> 22
    | GGML_TYPE_IQ4_XS \<Rightarrow> 23
    | GGML_TYPE_I8 \<Rightarrow> 24
    | GGML_TYPE_I16 \<Rightarrow> 25
    | GGML_TYPE_I32 \<Rightarrow> 26
    | GGML_TYPE_I64 \<Rightarrow> 27
    | GGML_TYPE_F64 \<Rightarrow> 28
    | GGML_TYPE_IQ1_M \<Rightarrow> 29
    | GGML_TYPE_BF16 \<Rightarrow> 30
    | GGML_TYPE_TQ1_0 \<Rightarrow> 34
    | GGML_TYPE_TQ2_0 \<Rightarrow> 35
    | GGML_TYPE_MXFP4 \<Rightarrow> 39
    | GGML_TYPE_REMOVED n \<Rightarrow> n)"

record ggml_type_traits =
  tt_name :: string
  tt_blck_size :: nat
  tt_type_size :: nat
  tt_is_quantized :: bool

abbreviation (input) QK_K :: nat where "QK_K \<equiv> 256"
abbreviation (input) QK4_0 :: nat where "QK4_0 \<equiv> 32"
abbreviation (input) QK4_1 :: nat where "QK4_1 \<equiv> 32"
abbreviation (input) QK5_0 :: nat where "QK5_0 \<equiv> 32"
abbreviation (input) QK5_1 :: nat where "QK5_1 \<equiv> 32"
abbreviation (input) QK8_0 :: nat where "QK8_0 \<equiv> 32"
abbreviation (input) QK8_1 :: nat where "QK8_1 \<equiv> 32"
abbreviation (input) QK_MXFP4 :: nat where "QK_MXFP4 \<equiv> 32"
abbreviation (input) QK4_NL :: nat where "QK4_NL \<equiv> 32"

text \<open>The table, in the order of the source: the types up to \<^verbatim>\<open>Q6_K\<close>, then the rest.\<close>

definition type_traits_iq :: "ggml_type \<Rightarrow> ggml_type_traits" where
  "type_traits_iq t = (case t of
      GGML_TYPE_IQ2_XXS \<Rightarrow> \<lparr>tt_name = ''iq2_xxs'', tt_blck_size = QK_K, tt_type_size = 2 + QK_K div 8 * 2, tt_is_quantized = True\<rparr>
    | GGML_TYPE_IQ2_XS \<Rightarrow> \<lparr>tt_name = ''iq2_xs'', tt_blck_size = QK_K, tt_type_size = 2 + QK_K div 8 * 2 + QK_K div 32, tt_is_quantized = True\<rparr>
    | GGML_TYPE_IQ3_XXS \<Rightarrow> \<lparr>tt_name = ''iq3_xxs'', tt_blck_size = QK_K, tt_type_size = 2 + 3 * (QK_K div 8), tt_is_quantized = True\<rparr>
    | GGML_TYPE_IQ3_S \<Rightarrow> \<lparr>tt_name = ''iq3_s'', tt_blck_size = QK_K, tt_type_size = 2 + 13 * (QK_K div 32) + (QK_K div 64), tt_is_quantized = True\<rparr>
    | GGML_TYPE_IQ2_S \<Rightarrow> \<lparr>tt_name = ''iq2_s'', tt_blck_size = QK_K, tt_type_size = 2 + QK_K div 4 + QK_K div 16, tt_is_quantized = True\<rparr>
    | GGML_TYPE_IQ1_S \<Rightarrow> \<lparr>tt_name = ''iq1_s'', tt_blck_size = QK_K, tt_type_size = 2 + QK_K div 8 + QK_K div 16, tt_is_quantized = True\<rparr>
    | GGML_TYPE_IQ1_M \<Rightarrow> \<lparr>tt_name = ''iq1_m'', tt_blck_size = QK_K, tt_type_size = QK_K div 8 + QK_K div 16 + QK_K div 32, tt_is_quantized = True\<rparr>
    | GGML_TYPE_IQ4_NL \<Rightarrow> \<lparr>tt_name = ''iq4_nl'', tt_blck_size = QK4_NL, tt_type_size = 2 + QK4_NL div 2, tt_is_quantized = True\<rparr>
    | GGML_TYPE_IQ4_XS \<Rightarrow> \<lparr>tt_name = ''iq4_xs'', tt_blck_size = QK_K, tt_type_size = 2 + 2 + QK_K div 64 + QK_K div 2, tt_is_quantized = True\<rparr>
    | GGML_TYPE_Q8_K \<Rightarrow> \<lparr>tt_name = ''q8_K'', tt_blck_size = QK_K, tt_type_size = 4 + QK_K + QK_K div 16 * 2, tt_is_quantized = True\<rparr>
    | GGML_TYPE_BF16 \<Rightarrow> \<lparr>tt_name = ''bf16'', tt_blck_size = 1, tt_type_size = 2, tt_is_quantized = False\<rparr>
    | GGML_TYPE_TQ1_0 \<Rightarrow> \<lparr>tt_name = ''tq1_0'', tt_blck_size = QK_K, tt_type_size = 2 + QK_K div 64 + (QK_K - 4 * QK_K div 64) div 5, tt_is_quantized = True\<rparr>
    | GGML_TYPE_TQ2_0 \<Rightarrow> \<lparr>tt_name = ''tq2_0'', tt_blck_size = QK_K, tt_type_size = 2 + QK_K div 4, tt_is_quantized = True\<rparr>
    | GGML_TYPE_REMOVED n \<Rightarrow> 
        if n = 31 then \<lparr>tt_name = ''TYPE_Q4_0_4_4 REMOVED, use Q4_0 with runtime repacking'', tt_blck_size = 0, tt_type_size = 0, tt_is_quantized = False\<rparr> else
        if n = 32 then \<lparr>tt_name = ''TYPE_Q4_0_4_8 REMOVED, use Q4_0 with runtime repacking'', tt_blck_size = 0, tt_type_size = 0, tt_is_quantized = False\<rparr> else
        if n = 33 then \<lparr>tt_name = ''TYPE_Q4_0_8_8 REMOVED, use Q4_0 with runtime repacking'', tt_blck_size = 0, tt_type_size = 0, tt_is_quantized = False\<rparr> else
        if n = 36 then \<lparr>tt_name = ''TYPE_IQ4_NL_4_4 REMOVED, use IQ4_NL with runtime repacking'', tt_blck_size = 0, tt_type_size = 0, tt_is_quantized = False\<rparr> else
        if n = 37 then \<lparr>tt_name = ''TYPE_IQ4_NL_4_8 REMOVED, use IQ4_NL with runtime repacking'', tt_blck_size = 0, tt_type_size = 0, tt_is_quantized = False\<rparr> else
        if n = 38 then \<lparr>tt_name = ''TYPE_IQ4_NL_8_8 REMOVED, use IQ4_NL with runtime repacking'', tt_blck_size = 0, tt_type_size = 0, tt_is_quantized = False\<rparr> else
        \<lparr>tt_name = [], tt_blck_size = 0, tt_type_size = 0, tt_is_quantized = False\<rparr>
    | _ \<Rightarrow> \<lparr>tt_name = [], tt_blck_size = 0, tt_type_size = 0, tt_is_quantized = False\<rparr>)"

definition type_traits :: "ggml_type \<Rightarrow> ggml_type_traits" where
  "type_traits t = (case t of
      GGML_TYPE_I8 \<Rightarrow> \<lparr>tt_name = ''i8'', tt_blck_size = 1, tt_type_size = 1, tt_is_quantized = False\<rparr>
    | GGML_TYPE_I16 \<Rightarrow> \<lparr>tt_name = ''i16'', tt_blck_size = 1, tt_type_size = 2, tt_is_quantized = False\<rparr>
    | GGML_TYPE_I32 \<Rightarrow> \<lparr>tt_name = ''i32'', tt_blck_size = 1, tt_type_size = 4, tt_is_quantized = False\<rparr>
    | GGML_TYPE_I64 \<Rightarrow> \<lparr>tt_name = ''i64'', tt_blck_size = 1, tt_type_size = 8, tt_is_quantized = False\<rparr>
    | GGML_TYPE_F64 \<Rightarrow> \<lparr>tt_name = ''f64'', tt_blck_size = 1, tt_type_size = 8, tt_is_quantized = False\<rparr>
    | GGML_TYPE_F32 \<Rightarrow> \<lparr>tt_name = ''f32'', tt_blck_size = 1, tt_type_size = 4, tt_is_quantized = False\<rparr>
    | GGML_TYPE_F16 \<Rightarrow> \<lparr>tt_name = ''f16'', tt_blck_size = 1, tt_type_size = 2, tt_is_quantized = False\<rparr>
    | GGML_TYPE_Q4_0 \<Rightarrow> \<lparr>tt_name = ''q4_0'', tt_blck_size = QK4_0, tt_type_size = 2 + QK4_0 div 2, tt_is_quantized = True\<rparr>
    | GGML_TYPE_Q4_1 \<Rightarrow> \<lparr>tt_name = ''q4_1'', tt_blck_size = QK4_1, tt_type_size = 2 * 2 + QK4_1 div 2, tt_is_quantized = True\<rparr>
    | GGML_TYPE_Q5_0 \<Rightarrow> \<lparr>tt_name = ''q5_0'', tt_blck_size = QK5_0, tt_type_size = 2 + 4 + QK5_0 div 2, tt_is_quantized = True\<rparr>
    | GGML_TYPE_Q5_1 \<Rightarrow> \<lparr>tt_name = ''q5_1'', tt_blck_size = QK5_1, tt_type_size = 2 * 2 + 4 + QK5_1 div 2, tt_is_quantized = True\<rparr>
    | GGML_TYPE_Q8_0 \<Rightarrow> \<lparr>tt_name = ''q8_0'', tt_blck_size = QK8_0, tt_type_size = 2 + QK8_0, tt_is_quantized = True\<rparr>
    | GGML_TYPE_Q8_1 \<Rightarrow> \<lparr>tt_name = ''q8_1'', tt_blck_size = QK8_1, tt_type_size = 2 * 2 + QK8_1, tt_is_quantized = True\<rparr>
    | GGML_TYPE_MXFP4 \<Rightarrow> \<lparr>tt_name = ''mxfp4'', tt_blck_size = QK_MXFP4, tt_type_size = 1 + QK_MXFP4 div 2, tt_is_quantized = True\<rparr>
    | GGML_TYPE_Q2_K \<Rightarrow> \<lparr>tt_name = ''q2_K'', tt_blck_size = QK_K, tt_type_size = 2 * 2 + QK_K div 16 + QK_K div 4, tt_is_quantized = True\<rparr>
    | GGML_TYPE_Q3_K \<Rightarrow> \<lparr>tt_name = ''q3_K'', tt_blck_size = QK_K, tt_type_size = 2 + QK_K div 4 + QK_K div 8 + 12, tt_is_quantized = True\<rparr>
    | GGML_TYPE_Q4_K \<Rightarrow> \<lparr>tt_name = ''q4_K'', tt_blck_size = QK_K, tt_type_size = 2 * 2 + 12 + QK_K div 2, tt_is_quantized = True\<rparr>
    | GGML_TYPE_Q5_K \<Rightarrow> \<lparr>tt_name = ''q5_K'', tt_blck_size = QK_K, tt_type_size = 2 * 2 + 12 + QK_K div 2 + QK_K div 8, tt_is_quantized = True\<rparr>
    | GGML_TYPE_Q6_K \<Rightarrow> \<lparr>tt_name = ''q6_K'', tt_blck_size = QK_K, tt_type_size = 2 + QK_K div 16 + 3 * QK_K div 4, tt_is_quantized = True\<rparr>
    | GGML_TYPE_REMOVED n \<Rightarrow> if n = 4 \<or> n = 5 then \<lparr>tt_name = ''DEPRECATED'', tt_blck_size = 0, tt_type_size = 0, tt_is_quantized = False\<rparr> else type_traits_iq t
    | _ \<Rightarrow> type_traits_iq t)"

definition ggml_blck_size :: "ggml_type \<Rightarrow> nat" where
  "ggml_blck_size t = tt_blck_size (type_traits t)"

definition ggml_type_size :: "ggml_type \<Rightarrow> nat" where
  "ggml_type_size t = tt_type_size (type_traits t)"

text \<open>\<^verbatim>\<open>assert(ne % ggml_blck_size(type) == 0)\<close>; a block size of 0 is a division by zero.\<close>

definition ggml_row_size :: "ggml_type \<Rightarrow> nat \<Rightarrow> nat option" where
  "ggml_row_size t ne = do {
     guard (ggml_blck_size t \<noteq> 0 \<and> ne mod ggml_blck_size t = 0);
     Some (ggml_type_size t * ne div ggml_blck_size t)
   }"

definition ggml_type_name :: "ggml_type \<Rightarrow> string" where
  "ggml_type_name t = tt_name (type_traits t)"

definition ggml_is_quantized :: "ggml_type \<Rightarrow> bool" where
  "ggml_is_quantized t = tt_is_quantized (type_traits t)"

section \<open>File types\<close>

datatype llama_ftype =
    LLAMA_FTYPE_ALL_F32 | LLAMA_FTYPE_MOSTLY_F16 | LLAMA_FTYPE_MOSTLY_Q4_0 | LLAMA_FTYPE_MOSTLY_Q4_1
  | LLAMA_FTYPE_MOSTLY_Q8_0 | LLAMA_FTYPE_MOSTLY_Q5_0 | LLAMA_FTYPE_MOSTLY_Q5_1 | LLAMA_FTYPE_MOSTLY_Q2_K
  | LLAMA_FTYPE_MOSTLY_Q3_K_S | LLAMA_FTYPE_MOSTLY_Q3_K_M | LLAMA_FTYPE_MOSTLY_Q3_K_L | LLAMA_FTYPE_MOSTLY_Q4_K_S
  | LLAMA_FTYPE_MOSTLY_Q4_K_M | LLAMA_FTYPE_MOSTLY_Q5_K_S | LLAMA_FTYPE_MOSTLY_Q5_K_M | LLAMA_FTYPE_MOSTLY_Q6_K
  | LLAMA_FTYPE_MOSTLY_IQ2_XXS | LLAMA_FTYPE_MOSTLY_IQ2_XS | LLAMA_FTYPE_MOSTLY_Q2_K_S | LLAMA_FTYPE_MOSTLY_IQ3_XS
  | LLAMA_FTYPE_MOSTLY_IQ3_XXS | LLAMA_FTYPE_MOSTLY_IQ1_S | LLAMA_FTYPE_MOSTLY_IQ4_NL | LLAMA_FTYPE_MOSTLY_IQ3_S
  | LLAMA_FTYPE_MOSTLY_IQ3_M | LLAMA_FTYPE_MOSTLY_IQ2_S | LLAMA_FTYPE_MOSTLY_IQ2_M | LLAMA_FTYPE_MOSTLY_IQ4_XS
  | LLAMA_FTYPE_MOSTLY_IQ1_M | LLAMA_FTYPE_MOSTLY_BF16 | LLAMA_FTYPE_MOSTLY_TQ1_0 | LLAMA_FTYPE_MOSTLY_TQ2_0
  | LLAMA_FTYPE_MOSTLY_MXFP4_MOE | LLAMA_FTYPE_GUESSED

definition ftype_code :: "llama_ftype \<Rightarrow> nat" where
  "ftype_code f = (case f of
      LLAMA_FTYPE_ALL_F32 \<Rightarrow> 0
    | LLAMA_FTYPE_MOSTLY_F16 \<Rightarrow> 1
    | LLAMA_FTYPE_MOSTLY_Q4_0 \<Rightarrow> 2
    | LLAMA_FTYPE_MOSTLY_Q4_1 \<Rightarrow> 3
    | LLAMA_FTYPE_MOSTLY_Q8_0 \<Rightarrow> 7
    | LLAMA_FTYPE_MOSTLY_Q5_0 \<Rightarrow> 8
    | LLAMA_FTYPE_MOSTLY_Q5_1 \<Rightarrow> 9
    | LLAMA_FTYPE_MOSTLY_Q2_K \<Rightarrow> 10
    | LLAMA_FTYPE_MOSTLY_Q3_K_S \<Rightarrow> 11
    | LLAMA_FTYPE_MOSTLY_Q3_K_M \<Rightarrow> 12
    | LLAMA_FTYPE_MOSTLY_Q3_K_L \<Rightarrow> 13
    | LLAMA_FTYPE_MOSTLY_Q4_K_S \<Rightarrow> 14
    | LLAMA_FTYPE_MOSTLY_Q4_K_M \<Rightarrow> 15
    | LLAMA_FTYPE_MOSTLY_Q5_K_S \<Rightarrow> 16
    | LLAMA_FTYPE_MOSTLY_Q5_K_M \<Rightarrow> 17
    | LLAMA_FTYPE_MOSTLY_Q6_K \<Rightarrow> 18
    | LLAMA_FTYPE_MOSTLY_IQ2_XXS \<Rightarrow> 19
    | LLAMA_FTYPE_MOSTLY_IQ2_XS \<Rightarrow> 20
    | LLAMA_FTYPE_MOSTLY_Q2_K_S \<Rightarrow> 21
    | LLAMA_FTYPE_MOSTLY_IQ3_XS \<Rightarrow> 22
    | LLAMA_FTYPE_MOSTLY_IQ3_XXS \<Rightarrow> 23
    | LLAMA_FTYPE_MOSTLY_IQ1_S \<Rightarrow> 24
    | LLAMA_FTYPE_MOSTLY_IQ4_NL \<Rightarrow> 25
    | LLAMA_FTYPE_MOSTLY_IQ3_S \<Rightarrow> 26
    | LLAMA_FTYPE_MOSTLY_IQ3_M \<Rightarrow> 27
    | LLAMA_FTYPE_MOSTLY_IQ2_S \<Rightarrow> 28
    | LLAMA_FTYPE_MOSTLY_IQ2_M \<Rightarrow> 29
    | LLAMA_FTYPE_MOSTLY_IQ4_XS \<Rightarrow> 30
    | LLAMA_FTYPE_MOSTLY_IQ1_M \<Rightarrow> 31
    | LLAMA_FTYPE_MOSTLY_BF16 \<Rightarrow> 32
    | LLAMA_FTYPE_MOSTLY_TQ1_0 \<Rightarrow> 36
    | LLAMA_FTYPE_MOSTLY_TQ2_0 \<Rightarrow> 37
    | LLAMA_FTYPE_MOSTLY_MXFP4_MOE \<Rightarrow> 38
    | LLAMA_FTYPE_GUESSED \<Rightarrow> 1024)"

record quant_option =
  qo_name :: string
  qo_ftype :: llama_ftype

definition QUANT_OPTIONS :: "quant_option list" where
  "QUANT_OPTIONS = [
     \<lparr>qo_name = ''Q4_0'', qo_ftype = LLAMA_FTYPE_MOSTLY_Q4_0\<rparr>,
     \<lparr>qo_name = ''Q4_1'', qo_ftype = LLAMA_FTYPE_MOSTLY_Q4_1\<rparr>,
     \<lparr>qo_name = ''MXFP4_MOE'', qo_ftype = LLAMA_FTYPE_MOSTLY_MXFP4_MOE\<rparr>,
     \<lparr>qo_name = ''Q5_0'', qo_ftype = LLAMA_FTYPE_MOSTLY_Q5_0\<rparr>,
     \<lparr>qo_name = ''Q5_1'', qo_ftype = LLAMA_FTYPE_MOSTLY_Q5_1\<rparr>,
     \<lparr>qo_name = ''IQ2_XXS'', qo_ftype = LLAMA_FTYPE_MOSTLY_IQ2_XXS\<rparr>,
     \<lparr>qo_name = ''IQ2_XS'', qo_ftype = LLAMA_FTYPE_MOSTLY_IQ2_XS\<rparr>,
     \<lparr>qo_name = ''IQ2_S'', qo_ftype = LLAMA_FTYPE_MOSTLY_IQ2_S\<rparr>,
     \<lparr>qo_name = ''IQ2_M'', qo_ftype = LLAMA_FTYPE_MOSTLY_IQ2_M\<rparr>,
     \<lparr>qo_name = ''IQ1_S'', qo_ftype = LLAMA_FTYPE_MOSTLY_IQ1_S\<rparr>,
     \<lparr>qo_name = ''IQ1_M'', qo_ftype = LLAMA_FTYPE_MOSTLY_IQ1_M\<rparr>,
     \<lparr>qo_name = ''TQ1_0'', qo_ftype = LLAMA_FTYPE_MOSTLY_TQ1_0\<rparr>,
     \<lparr>qo_name = ''TQ2_0'', qo_ftype = LLAMA_FTYPE_MOSTLY_TQ2_0\<rparr>,
     \<lparr>qo_name = ''Q2_K'', qo_ftype = LLAMA_FTYPE_MOSTLY_Q2_K\<rparr>,
     \<lparr>qo_name = ''Q2_K_S'', qo_ftype = LLAMA_FTYPE_MOSTLY_Q2_K_S\<rparr>,
     \<lparr>qo_name = ''IQ3_XXS'', qo_ftype = LLAMA_FTYPE_MOSTLY_IQ3_XXS\<rparr>,
     \<lparr>qo_name = ''IQ3_S'', qo_ftype = LLAMA_FTYPE_MOSTLY_IQ3_S\<rparr>,
     \<lparr>qo_name = ''IQ3_M'', qo_ftype = LLAMA_FTYPE_MOSTLY_IQ3_M\<rparr>,
     \<lparr>qo_name = ''Q3_K'', qo_ftype = LLAMA_FTYPE_MOSTLY_Q3_K_M\<rparr>,
     \<lparr>qo_name = ''IQ3_XS'', qo_ftype = LLAMA_FTYPE_MOSTLY_IQ3_XS\<rparr>,
     \<lparr>qo_name = ''Q3_K_S'', qo_ftype = LLAMA_FTYPE_MOSTLY_Q3_K_S\<rparr>,
     \<lparr>qo_name = ''Q3_K_M'', qo_ftype = LLAMA_FTYPE_MOSTLY_Q3_K_M\<rparr>,
     \<lparr>qo_name = ''Q3_K_L'', qo_ftype = LLAMA_FTYPE_MOSTLY_Q3_K_L\<rparr>,
     \<lparr>qo_name = ''IQ4_NL'', qo_ftype = LLAMA_FTYPE_MOSTLY_IQ4_NL\<rparr>,
     \<lparr>qo_name = ''IQ4_XS'', qo_ftype = LLAMA_FTYPE_MOSTLY_IQ4_XS\<rparr>,
     \<lparr>qo_name = ''Q4_K'', qo_ftype = LLAMA_FTYPE_MOSTLY_Q4_K_M\<rparr>,
     \<lparr>qo_name = ''Q4_K_S'', qo_ftype = LLAMA_FTYPE_MOSTLY_Q4_K_S\<rparr>,
     \<lparr>qo_name = ''Q4_K_M'', qo_ftype = LLAMA_FTYPE_MOSTLY_Q4_K_M\<rparr>,
     \<lparr>qo_name = ''Q5_K'', qo_ftype = LLAMA_FTYPE_MOSTLY_Q5_K_M\<rparr>,
     \<lparr>qo_name = ''Q5_K_S'', qo_ftype = LLAMA_FTYPE_MOSTLY_Q5_K_S\<rparr>,
     \<lparr>qo_name = ''Q5_K_M'', qo_ftype = LLAMA_FTYPE_MOSTLY_Q5_K_M\<rparr>,
     \<lparr>qo_name = ''Q6_K'', qo_ftype = LLAMA_FTYPE_MOSTLY_Q6_K\<rparr>,
     \<lparr>qo_name = ''Q8_0'', qo_ftype = LLAMA_FTYPE_MOSTLY_Q8_0\<rparr>,
     \<lparr>qo_name = ''F16'', qo_ftype = LLAMA_FTYPE_MOSTLY_F16\<rparr>,
     \<lparr>qo_name = ''BF16'', qo_ftype = LLAMA_FTYPE_MOSTLY_BF16\<rparr>,
     \<lparr>qo_name = ''F32'', qo_ftype = LLAMA_FTYPE_ALL_F32\<rparr>,
     \<lparr>qo_name = ''COPY'', qo_ftype = LLAMA_FTYPE_ALL_F32\<rparr>]"

section \<open>Command-line names\<close>

definition try_parse_ftype :: "string \<Rightarrow> (llama_ftype \<times> string) option" where
  "try_parse_ftype s = (let ftype_str = map c_toupper s in
     case find (\<lambda>it. striequals (qo_name it) ftype_str) QUANT_OPTIONS of
       Some it \<Rightarrow> Some (qo_ftype it, qo_name it)
     | None \<Rightarrow>
         (case stoi ftype_str of
            None \<Rightarrow> None
          | Some i \<Rightarrow> map_option (\<lambda>it. (qo_ftype it, qo_name it)) (find (\<lambda>it. int (ftype_code (qo_ftype it)) = i) QUANT_OPTIONS)))"

definition parse_ggml_type :: "string \<Rightarrow> ggml_type option" where
  "parse_ggml_type arg = Option.bind
     (find (\<lambda>i. case ggml_type_of i of None \<Rightarrow> False | Some t \<Rightarrow> striequals (ggml_type_name t) arg) [0..<40]) ggml_type_of"

record tensor_quantization =
  tq_name :: string
  tq_quant :: "ggml_type option"

text \<open>The result is the return value and the extended vector; an entry with an invalid type is added before the failure is reported.\<close>

definition parse_tensor_type :: "string \<Rightarrow> tensor_quantization list \<Rightarrow> bool \<times> tensor_quantization list" where
  "parse_tensor_type data tts = (let tn = takeWhile (\<lambda>c. c \<noteq> CHR ''='') data; sep = dropWhile (\<lambda>c. c \<noteq> CHR ''='') data in
     if sep = [] then (False, tts)
     else if tn = [] then (False, tts)
     else if length sep = 1 then (False, tts)
     else (let q = parse_ggml_type (tl sep) in
       (q \<noteq> None, tts @ [\<lparr>tq_name = map c_tolower tn, tq_quant = q\<rparr>])))"

fun parse_block_ids :: "string list \<Rightarrow> nat list \<Rightarrow> bool \<times> nat list" where
  "parse_block_ids [] acc = (True, acc)"
| "parse_block_ids (s # ss) acc = (let i = (case stoi s of Some i \<Rightarrow> i | None \<Rightarrow> - 1) in
     if i < 0 then (False, acc) else parse_block_ids ss (acc @ [nat i]))"

definition parse_layer_prune :: "string \<Rightarrow> nat list \<Rightarrow> bool \<times> nat list" where
  "parse_layer_prune data prune = (let (ok, ids) = parse_block_ids (string_split CHR '','' data) prune in
     if ok then (True, remdups_adj (sort ids)) else (False, ids))"


section \<open>Properties\<close>

definition is_removed :: "ggml_type \<Rightarrow> bool" where
  "is_removed t = (case t of GGML_TYPE_REMOVED _ \<Rightarrow> True | _ \<Rightarrow> False)"

lemma ggml_type_of_code:
  "\<not> is_removed t \<Longrightarrow> ggml_type_code t < 40 \<and> ggml_type_code t \<noteq> 5 \<and> ggml_type_code t \<noteq> 4 \<and> ggml_type_of (ggml_type_code t) = Some t"
  by (cases t) (simp_all add: ggml_type_code_def ggml_type_of_def is_removed_def)

lemma find_first:
  assumes "k < n" and "P k" and "\<And>i. i < k \<Longrightarrow> \<not> P i"
  shows "find P [0..<n] = Some k"
  using assms by (auto simp: find_Some_iff intro!: exI [where x = k])

definition type_keys :: "string list" where
  "type_keys = [''f32'', ''f16'', ''q4_0'', ''q4_1'', ''deprecated'', ''deprecated'', ''q5_0'', ''q5_1'', ''q8_0'', ''q8_1'', ''q2_k'', ''q3_k'', ''q4_k'', ''q5_k'', ''q6_k'', ''q8_k'', ''iq2_xxs'', ''iq2_xs'', ''iq3_xxs'', ''iq1_s'', ''iq4_nl'', ''iq3_s'', ''iq2_s'', ''iq4_xs'', ''i8'', ''i16'', ''i32'', ''i64'', ''f64'', ''iq1_m'', ''bf16'', ''type_q4_0_4_4 removed, use q4_0 with runtime repacking'', ''type_q4_0_4_8 removed, use q4_0 with runtime repacking'', ''type_q4_0_8_8 removed, use q4_0 with runtime repacking'', ''tq1_0'', ''tq2_0'', ''type_iq4_nl_4_4 removed, use iq4_nl with runtime repacking'', ''type_iq4_nl_4_8 removed, use iq4_nl with runtime repacking'', ''type_iq4_nl_8_8 removed, use iq4_nl with runtime repacking'', ''mxfp4'']"

lemma upt_40: "[0..<40] = [0, 1, 2, 3, 4, 5, 6, 7, 8, 9, 10, 11, 12, 13, 14, 15, 16, 17, 18, 19, 20, 21, 22, 23, 24, 25, 26, 27, 28, 29,
    30, 31, 32, 33, 34, 35, 36, 37, 38, 39]"
  by code_simp

lemma type_key: "map (\<lambda>i. map c_tolower (ggml_type_name (the (ggml_type_of i)))) [0..<40] = type_keys"
  by (simp add: upt_40 type_keys_def ggml_type_of_def ggml_type_name_def type_traits_def type_traits_iq_def c_tolower_def c_code_def char_of_def bit_Suc_0_iff)

lemma type_keys_distinct: "distinct (take 5 type_keys @ drop 6 type_keys)" "length type_keys = 40" "type_keys ! 5 = type_keys ! 4"
  by (simp_all add: type_keys_def)

text \<open>Only the keys 4 and 5 coincide.\<close>

lemma type_keys_first:
  assumes "i < k" and "k < 40" and "k \<noteq> 5"
  shows "type_keys ! i \<noteq> type_keys ! k"
proof -
  define f :: "nat \<Rightarrow> nat" where "f = (\<lambda>j. if j \<le> 5 then min j 4 else j - 1)"
  have nth: "(take 5 type_keys @ drop 6 type_keys) ! f j = type_keys ! j" if "j < 40" for j
  proof (cases "j = 5")
    case True
    then show ?thesis using type_keys_distinct(2,3) by (simp add: f_def nth_append)
  next
    case False
    then show ?thesis using that type_keys_distinct(2) by (auto simp: f_def nth_append min_def)
  qed
  have "f i < 39" "f k < 39" "f i \<noteq> f k" using assms by (auto simp: f_def split: if_splits)
  then have "(take 5 type_keys @ drop 6 type_keys) ! f i \<noteq> (take 5 type_keys @ drop 6 type_keys) ! f k"
    using type_keys_distinct(1,2) by (subst nth_eq_iff_index_eq) auto
  with assms show ?thesis by (simp add: nth)
qed

lemma find_distinct:
  assumes "distinct (map f xs)" and "x \<in> set xs"
  shows "find (\<lambda>y. f y = f x) xs = Some x"
  using assms by (induction xs) (auto simp: image_iff)

lemma option_keys: "map (\<lambda>it. map c_tolower (qo_name it)) QUANT_OPTIONS = [''q4_0'', ''q4_1'', ''mxfp4_moe'', ''q5_0'', ''q5_1'', ''iq2_xxs'', ''iq2_xs'', ''iq2_s'', ''iq2_m'', ''iq1_s'', ''iq1_m'', ''tq1_0'', ''tq2_0'', ''q2_k'', ''q2_k_s'', ''iq3_xxs'', ''iq3_s'', ''iq3_m'', ''q3_k'', ''iq3_xs'', ''q3_k_s'', ''q3_k_m'', ''q3_k_l'', ''iq4_nl'', ''iq4_xs'', ''q4_k'', ''q4_k_s'', ''q4_k_m'', ''q5_k'', ''q5_k_s'', ''q5_k_m'', ''q6_k'', ''q8_0'', ''f16'', ''bf16'', ''f32'', ''copy'']"
  by (simp add: QUANT_OPTIONS_def c_tolower_def c_code_def char_of_def bit_Suc_0_iff)

lemma option_keys_distinct: "distinct (map (\<lambda>it. map c_tolower (qo_name it)) QUANT_OPTIONS)"
  unfolding option_keys by simp

text \<open>Every supported tensor type is found under its name, in any letter case.\<close>

theorem parse_ggml_type_name:
  assumes "\<not> is_removed t" and "striequals (ggml_type_name t) s"
  shows "parse_ggml_type s = Some t"
proof -
  let ?k = "ggml_type_code t"
  let ?P = "\<lambda>i. case ggml_type_of i of None \<Rightarrow> False | Some u \<Rightarrow> striequals (ggml_type_name u) s"
  note K = ggml_type_of_code [OF assms(1)]
  have P: "?P i \<longleftrightarrow> type_keys ! i = map c_tolower s" if "i < 40" for i
    using that by (auto simp: type_key [symmetric] ggml_type_of_def striequals_iff)
  have key: "type_keys ! ?k = map c_tolower s" using P [of ?k] K assms(2) by simp
  have "type_keys ! i \<noteq> type_keys ! ?k" if "i < ?k" for i
    using that K by (intro type_keys_first) auto
  then have "\<not> ?P i" if "i < ?k" for i using that P [of i] K key by simp
  moreover have "?P ?k" using K assms(2) by simp
  ultimately have "find ?P [0..<40] = Some ?k" using K by (intro find_first) simp_all
  with K show ?thesis by (simp add: parse_ggml_type_def)
qed

theorem parse_ggml_type_name_witness: "parse_ggml_type ''Q4_k'' = Some GGML_TYPE_Q4_K"
proof -
  have "striequals (ggml_type_name GGML_TYPE_Q4_K) ''Q4_k''" by code_simp
  with parse_ggml_type_name [of GGML_TYPE_Q4_K] show ?thesis by (simp add: is_removed_def)
qed

text \<open>The name of a removed type is accepted as a type, with blocks of size 0.\<close>

theorem parse_ggml_type_removed:
  "parse_ggml_type ''deprecated'' = Some (GGML_TYPE_REMOVED 4) \<and> ggml_blck_size (GGML_TYPE_REMOVED 4) = 0"
  by code_simp

lemma option_first: "y \<in> set QUANT_OPTIONS \<Longrightarrow> \<exists>c cs. qo_name y = c # cs \<and> \<not> c_isdigit (c_tolower c)"
  unfolding QUANT_OPTIONS_def by (elim insertE | simp only: list.set | erule insertE)+
    (simp_all add: c_isdigit_def c_tolower_def c_code_def char_of_def bit_Suc_0_iff)

lemma option_not_number:
  assumes "y \<in> set QUANT_OPTIONS"
  shows "\<not> striequals (qo_name y) (to_string n)"
proof
  assume eq: "striequals (qo_name y) (to_string n)"
  obtain d ds where d: "to_string n = d # ds" by (cases "to_string n") auto
  have dig: "c_isdigit d" using to_string_digits [of d n] d by simp
  then have "c_tolower d = d" by (auto simp: c_tolower_def c_isdigit_def)
  with eq d option_first [OF assms] dig show False by (auto simp: striequals_iff)
qed

lemma ftype_code_inj: "ftype_code f = ftype_code g \<longleftrightarrow> f = g"
proof -
  define F where "F = [LLAMA_FTYPE_ALL_F32, LLAMA_FTYPE_MOSTLY_F16, LLAMA_FTYPE_MOSTLY_Q4_0, LLAMA_FTYPE_MOSTLY_Q4_1, LLAMA_FTYPE_MOSTLY_Q8_0, LLAMA_FTYPE_MOSTLY_Q5_0, LLAMA_FTYPE_MOSTLY_Q5_1, LLAMA_FTYPE_MOSTLY_Q2_K, LLAMA_FTYPE_MOSTLY_Q3_K_S, LLAMA_FTYPE_MOSTLY_Q3_K_M, LLAMA_FTYPE_MOSTLY_Q3_K_L, LLAMA_FTYPE_MOSTLY_Q4_K_S, LLAMA_FTYPE_MOSTLY_Q4_K_M, LLAMA_FTYPE_MOSTLY_Q5_K_S, LLAMA_FTYPE_MOSTLY_Q5_K_M, LLAMA_FTYPE_MOSTLY_Q6_K, LLAMA_FTYPE_MOSTLY_IQ2_XXS, LLAMA_FTYPE_MOSTLY_IQ2_XS, LLAMA_FTYPE_MOSTLY_Q2_K_S, LLAMA_FTYPE_MOSTLY_IQ3_XS, LLAMA_FTYPE_MOSTLY_IQ3_XXS, LLAMA_FTYPE_MOSTLY_IQ1_S, LLAMA_FTYPE_MOSTLY_IQ4_NL, LLAMA_FTYPE_MOSTLY_IQ3_S, LLAMA_FTYPE_MOSTLY_IQ3_M, LLAMA_FTYPE_MOSTLY_IQ2_S, LLAMA_FTYPE_MOSTLY_IQ2_M, LLAMA_FTYPE_MOSTLY_IQ4_XS, LLAMA_FTYPE_MOSTLY_IQ1_M, LLAMA_FTYPE_MOSTLY_BF16, LLAMA_FTYPE_MOSTLY_TQ1_0, LLAMA_FTYPE_MOSTLY_TQ2_0, LLAMA_FTYPE_MOSTLY_MXFP4_MOE, LLAMA_FTYPE_GUESSED]"
  have "g \<in> set F" for g by (cases g) (simp_all add: F_def)
  moreover have "distinct (map ftype_code F)" by (simp add: F_def ftype_code_def)
  ultimately show ?thesis by (metis distinct_map inj_on_eq_iff)
qed

lemma option_copy: "y \<in> set QUANT_OPTIONS \<Longrightarrow> qo_name y = ''COPY'' \<Longrightarrow> qo_ftype y = LLAMA_FTYPE_ALL_F32"
  by (auto simp: QUANT_OPTIONS_def)

text \<open>Every name of the table of file types selects its own entry, in any letter case; the decimal code of a
  file type selects that file type and never the entry that only copies.\<close>

theorem try_parse_ftype_option:
  assumes "it \<in> set QUANT_OPTIONS"
  shows "(\<forall>s. map c_toupper s = map c_toupper (qo_name it) \<longrightarrow> try_parse_ftype s = Some (qo_ftype it, qo_name it)) \<and>
    (\<exists>n. try_parse_ftype (to_string (ftype_code (qo_ftype it))) = Some (qo_ftype it, n) \<and> n \<noteq> ''COPY'')"
proof (intro conjI allI impI)
  fix s
  assume s: "map c_toupper s = map c_toupper (qo_name it)"
  have low: "map c_tolower (map c_toupper xs) = map c_tolower xs" for xs by simp
  have "map c_tolower s = map c_tolower (qo_name it)" using arg_cong [OF s, of "map c_tolower"] by (simp only: low)
  then have "find (\<lambda>y. striequals (qo_name y) (map c_toupper s)) QUANT_OPTIONS = Some it"
    using find_distinct [OF option_keys_distinct assms] by (simp only: striequals_iff low)
  then show "try_parse_ftype s = Some (qo_ftype it, qo_name it)" by (simp add: try_parse_ftype_def)
next
  let ?c = "ftype_code (qo_ftype it)"
  have up: "map c_toupper (to_string ?c) = to_string ?c" by (intro map_idI) (auto dest!: to_string_digits simp: c_toupper_def c_isdigit_def)
  have "int ?c \<le> int32_max" by (cases "qo_ftype it") (simp_all add: ftype_code_def int32_max_def)
  then have st: "stoi (to_string ?c) = Some (int ?c)" using stoi_to_string [of ?c "[]"] by simp
  have "find (\<lambda>y. striequals (qo_name y) (to_string ?c)) QUANT_OPTIONS = None" using option_not_number by (auto simp: find_None_iff)
  then have eq: "try_parse_ftype (to_string ?c) = map_option (\<lambda>y. (qo_ftype y, qo_name y)) (find (\<lambda>y. int (ftype_code (qo_ftype y)) = int ?c) QUANT_OPTIONS)"
    using up st by (simp add: try_parse_ftype_def)
  show "\<exists>n. try_parse_ftype (to_string ?c) = Some (qo_ftype it, n) \<and> n \<noteq> ''COPY''"
  proof (cases "find (\<lambda>y. int (ftype_code (qo_ftype y)) = int ?c) QUANT_OPTIONS")
    case None
    with assms show ?thesis by (auto simp: find_None_iff)
  next
    case (Some y)
    then have y: "y \<in> set QUANT_OPTIONS" "ftype_code (qo_ftype y) = ?c" by (auto simp: find_Some_iff)
    have "qo_name y \<noteq> ''COPY''"
    proof
      assume "qo_name y = ''COPY''"
      with y(1) have "qo_ftype y = LLAMA_FTYPE_ALL_F32" by (rule option_copy)
      with Some y(2) have "qo_name y = ''F32''" by (auto simp: ftype_code_def QUANT_OPTIONS_def)
      with \<open>qo_name y = ''COPY''\<close> show False by simp
    qed
    with Some y(2) show ?thesis unfolding eq by (simp add: ftype_code_inj)
  qed
qed

theorem try_parse_ftype_option_witness:
  "try_parse_ftype ''iq2_xs'' = Some (LLAMA_FTYPE_MOSTLY_IQ2_XS, ''IQ2_XS'')"
proof -
  have "\<lparr>qo_name = ''IQ2_XS'', qo_ftype = LLAMA_FTYPE_MOSTLY_IQ2_XS\<rparr> \<in> set QUANT_OPTIONS" by (simp add: QUANT_OPTIONS_def)
  moreover have "map c_toupper ''iq2_xs'' = map c_toupper ''IQ2_XS''" by code_simp
  ultimately show ?thesis using try_parse_ftype_option [of "\<lparr>qo_name = ''IQ2_XS'', qo_ftype = LLAMA_FTYPE_MOSTLY_IQ2_XS\<rparr>"] by simp
qed

lemma string_split_sep: "sep \<notin> set a \<Longrightarrow> string_split sep (a @ sep # rest) = a # string_split sep rest"
  by (induction a) auto

lemma string_split_none: "sep \<notin> set a \<Longrightarrow> string_split sep a = [a]"
  by (induction a) auto

text \<open>A comma-separated list of layer numbers.\<close>

fun layer_list :: "nat list \<Rightarrow> string" where
  "layer_list [] = []"
| "layer_list [n] = to_string n"
| "layer_list (n # m # ns) = to_string n @ CHR '','' # layer_list (m # ns)"

lemma comma_not_digit: "CHR '','' \<notin> set (to_string n)"
  using to_string_digits [of "CHR '',''" n] by (auto simp: c_isdigit_def c_code_def)

lemma string_split_layers: "ns \<noteq> [] \<Longrightarrow> string_split CHR '','' (layer_list ns) = map to_string ns"
  by (induction ns rule: layer_list.induct) (simp_all add: string_split_sep string_split_none comma_not_digit)

lemma parse_block_ids_layers: "\<forall>n \<in> set ns. int n \<le> int32_max \<Longrightarrow> parse_block_ids (map to_string ns) acc = (True, acc @ ns)"
  by (induction ns arbitrary: acc) (use stoi_to_string [where rest = "[]"] in auto)

lemma distinct_remdups_adj: "sorted xs \<Longrightarrow> distinct (remdups_adj xs)" for xs :: "nat list"
  by (induction xs rule: remdups_adj.induct) auto

text \<open>A list of layers to prune is parsed to the increasing list of the distinct layers that it and the
  earlier options name.\<close>

theorem parse_layer_prune_set:
  assumes "ns \<noteq> []" and "\<forall>n \<in> set ns. int n \<le> int32_max"
  shows "parse_layer_prune (layer_list ns) prune = (True, sorted_list_of_set (set prune \<union> set ns))"
proof -
  have "remdups_adj (sort xs) = sorted_list_of_set (set xs)" for xs :: "nat list"
    by (metis List.finite_set distinct_remdups_adj remdups_adj_set set_sort sorted_list_of_set.idem_if_sorted_distinct sorted_remdups_adj sorted_sort)
  then show ?thesis by (simp add: parse_layer_prune_def string_split_layers [OF assms(1)] parse_block_ids_layers [OF assms(2)])
qed

theorem parse_layer_prune_set_witness: "parse_layer_prune (layer_list [7, 3, 7]) [5] = (True, sorted_list_of_set {3, 5, 7})"
  using parse_layer_prune_set [of "[7, 3, 7]" "[5]"] by (simp add: int32_max_def insert_commute)

end
