(* ===== verification/GgmlValidate.thy ===== *)
theory GgmlValidate
  imports GgmlTypes "HOL-Library.Word"
begin

text \<open>
  Validation of quantized data (\<^verbatim>\<open>ggml/src/ggml-quants.c\<close>) and the entry point of the row
  quantizers, \<^verbatim>\<open>ggml_quantize_chunk\<close> (\<^verbatim>\<open>ggml/src/ggml.c\<close>).

  Data is a list of bytes (\<open>8 word\<close>), read little-endian.  \<open>valid_block\<close> is what the loops of
  \<^verbatim>\<open>ggml_validate_row_data\<close> test for one block; the offsets of the scales are those of the block
  structs in \<^verbatim>\<open>ggml/src/ggml-common.h\<close>.  The floating-point row kernels (\<^verbatim>\<open>quantize_row_*\<close>) are
  the parameter \<open>krow\<close>: a row of floats and its weights to the bytes of the row, or \<open>None\<close> when the kernel stops
  the process on them (the \<^verbatim>\<open>GGML_ASSERT\<close> and \<^verbatim>\<open>GGML_ABORT\<close> of the searches over the grids).
\<close>

unbundle bit_operations_syntax

type_synonym bytes = "8 word list"

section \<open>Validation\<close>

definition rd16 :: "bytes \<Rightarrow> nat \<Rightarrow> 16 word" where
  "rd16 b i = ucast (b ! i) OR push_bit 8 (ucast (b ! (i + 1)))"

definition rd32 :: "bytes \<Rightarrow> nat \<Rightarrow> 32 word" where
  "rd32 b i = ucast (rd16 b i) OR push_bit 16 (ucast (rd16 b (i + 2)))"

definition rd64 :: "bytes \<Rightarrow> nat \<Rightarrow> 64 word" where
  "rd64 b i = ucast (rd32 b i) OR push_bit 32 (ucast (rd32 b (i + 4)))"

text \<open>The bit pattern of an IEEE single is infinite or not a number when its exponent is all ones.\<close>

definition validate_float :: "32 word \<Rightarrow> bool" where
  "validate_float f \<longleftrightarrow> (f AND 0x7f800000) \<noteq> 0x7f800000"

text \<open>
  \<^verbatim>\<open>validate_float\<close> takes a \<^verbatim>\<open>float\<close>: a double is first rounded to nearest, and every magnitude from
  \<open>(2 - 2^-24) * 2^127\<close> on becomes infinite.
\<close>

definition validate_double :: "64 word \<Rightarrow> bool" where
  "validate_double f \<longleftrightarrow> (f AND 0x7fffffffffffffff) < 0x47effffff0000000"

definition isinf_fp16 :: "16 word \<Rightarrow> bool" where
  "isinf_fp16 f \<longleftrightarrow> (f AND 0x7c00) = 0x7c00 \<and> (f AND 0x03ff) = 0"

definition isnan_fp16 :: "16 word \<Rightarrow> bool" where
  "isnan_fp16 f \<longleftrightarrow> (f AND 0x7c00) = 0x7c00 \<and> (f AND 0x03ff) \<noteq> 0"

definition validate_fp16 :: "16 word \<Rightarrow> bool" where
  "validate_fp16 f \<longleftrightarrow> (if isinf_fp16 f then False else if isnan_fp16 f then False else True)"

definition validate_e_e8m0 :: "8 word \<Rightarrow> bool" where
  "validate_e_e8m0 e \<longleftrightarrow> e \<noteq> 0xff"

definition iq1m_scale :: "bytes \<Rightarrow> nat \<Rightarrow> 16 word" where
  "iq1m_scale b i = (drop_bit 12 (rd16 b i)) OR (drop_bit 8 (rd16 b (i + 2)) AND 0x00f0)
     OR (drop_bit 4 (rd16 b (i + 4)) AND 0x0f00) OR (rd16 b (i + 6) AND 0xf000)"

text \<open>One block, and the types that have a case of their own (the others are refused).\<close>

definition valid_block :: "ggml_type \<Rightarrow> bytes \<Rightarrow> bool" where
  "valid_block t q = (case t of
      GGML_TYPE_BF16 \<Rightarrow> \<not> (rd16 q 0 AND 0x7fff) > 0x7f80 \<and> \<not> (rd16 q 0 AND 0x7fff) = 0x7f80
    | GGML_TYPE_F16 \<Rightarrow> validate_fp16 (rd16 q 0)
    | GGML_TYPE_F32 \<Rightarrow> validate_float (rd32 q 0)
    | GGML_TYPE_F64 \<Rightarrow> validate_double (rd64 q 0)
    | GGML_TYPE_Q4_0 \<Rightarrow> validate_fp16 (rd16 q 0)
    | GGML_TYPE_Q4_1 \<Rightarrow> validate_fp16 (rd16 q 0) \<and> validate_fp16 (rd16 q 2)
    | GGML_TYPE_Q5_0 \<Rightarrow> validate_fp16 (rd16 q 0)
    | GGML_TYPE_Q5_1 \<Rightarrow> validate_fp16 (rd16 q 0) \<and> validate_fp16 (rd16 q 2)
    | GGML_TYPE_Q8_0 \<Rightarrow> validate_fp16 (rd16 q 0)
    | GGML_TYPE_MXFP4 \<Rightarrow> validate_e_e8m0 (q ! 0)
    | GGML_TYPE_Q2_K \<Rightarrow> validate_fp16 (rd16 q 80) \<and> validate_fp16 (rd16 q 82)
    | GGML_TYPE_Q3_K \<Rightarrow> validate_fp16 (rd16 q 108)
    | GGML_TYPE_Q4_K \<Rightarrow> validate_fp16 (rd16 q 0) \<and> validate_fp16 (rd16 q 2)
    | GGML_TYPE_Q5_K \<Rightarrow> validate_fp16 (rd16 q 0) \<and> validate_fp16 (rd16 q 2)
    | GGML_TYPE_Q6_K \<Rightarrow> validate_fp16 (rd16 q 208)
    | GGML_TYPE_Q8_K \<Rightarrow> validate_float (rd32 q 0)
    | GGML_TYPE_TQ1_0 \<Rightarrow> validate_fp16 (rd16 q 52)
    | GGML_TYPE_TQ2_0 \<Rightarrow> validate_fp16 (rd16 q 64)
    | GGML_TYPE_IQ1_S \<Rightarrow> validate_fp16 (rd16 q 0)
    | GGML_TYPE_IQ1_M \<Rightarrow> validate_fp16 (iq1m_scale q 48)
    | GGML_TYPE_IQ2_XXS \<Rightarrow> validate_fp16 (rd16 q 0)
    | GGML_TYPE_IQ2_XS \<Rightarrow> validate_fp16 (rd16 q 0)
    | GGML_TYPE_IQ2_S \<Rightarrow> validate_fp16 (rd16 q 0)
    | GGML_TYPE_IQ3_XXS \<Rightarrow> validate_fp16 (rd16 q 0)
    | GGML_TYPE_IQ3_S \<Rightarrow> validate_fp16 (rd16 q 0)
    | GGML_TYPE_IQ4_XS \<Rightarrow> validate_fp16 (rd16 q 0)
    | GGML_TYPE_IQ4_NL \<Rightarrow> validate_fp16 (rd16 q 0)
    | _ \<Rightarrow> True)"

definition validated_type :: "ggml_type \<Rightarrow> bool" where
  "validated_type t = (case t of
      GGML_TYPE_Q8_1 \<Rightarrow> False
    | GGML_TYPE_REMOVED n \<Rightarrow> False
    | _ \<Rightarrow> True)"

definition block_of :: "nat \<Rightarrow> bytes \<Rightarrow> nat \<Rightarrow> bytes" where
  "block_of n data i = take n (drop (i * n) data)"

text \<open>The abort is the remainder by a type size of 0 (a removed type).\<close>

definition ggml_validate_row_data :: "ggml_type \<Rightarrow> bytes \<Rightarrow> bool option" where
  "ggml_validate_row_data t data = do {
     guard (ggml_type_size t \<noteq> 0);
     Some (if length data mod ggml_type_size t \<noteq> 0 then False
           else validated_type t \<and>
             list_all (\<lambda>i. valid_block t (block_of (ggml_type_size t) data i)) [0..<length data div ggml_type_size t])
   }"

section \<open>Quantizing a chunk of rows\<close>

definition ggml_quantize_requires_imatrix :: "ggml_type \<Rightarrow> bool" where
  "ggml_quantize_requires_imatrix t \<longleftrightarrow> t = GGML_TYPE_IQ2_XXS \<or> t = GGML_TYPE_IQ2_XS \<or> t = GGML_TYPE_IQ1_S"

text \<open>The types \<^verbatim>\<open>ggml_quantize_chunk\<close> has a case for.\<close>

definition quantizable :: "ggml_type \<Rightarrow> bool" where
  "quantizable t = (case t of
      GGML_TYPE_Q8_1 \<Rightarrow> False | GGML_TYPE_Q8_K \<Rightarrow> False | GGML_TYPE_F64 \<Rightarrow> False
    | GGML_TYPE_I8 \<Rightarrow> False | GGML_TYPE_I16 \<Rightarrow> False | GGML_TYPE_I32 \<Rightarrow> False | GGML_TYPE_I64 \<Rightarrow> False
    | GGML_TYPE_REMOVED n \<Rightarrow> False
    | _ \<Rightarrow> True)"

text \<open>Overwrite a range of a buffer; \<open>None\<close> when it does not lie inside.\<close>

definition write_at :: "nat \<Rightarrow> 'b list \<Rightarrow> 'b list \<Rightarrow> 'b list option" where
  "write_at off xs buf = (if off + length xs \<le> length buf then Some (take off buf @ xs @ drop (off + length xs) buf) else None)"

definition read_at :: "nat \<Rightarrow> nat \<Rightarrow> 'b list \<Rightarrow> 'b list option" where
  "read_at off n buf = (if off + n \<le> length buf then Some (take n (drop off buf)) else None)"

text \<open>The weights of a row: the first \<open>n_per_row\<close> floats behind the pointer.\<close>

definition row_weights :: "nat \<Rightarrow> 'f list option \<Rightarrow> 'f list option option" where
  "row_weights n imatrix = (case imatrix of None \<Rightarrow> Some None | Some w \<Rightarrow> map_option Some (read_at 0 n w))"

text \<open>The row loop of the \<^verbatim>\<open>quantize_q4_0\<close> family: the source and destination pointers advance by one row.\<close>

fun quantize_rows :: "('f list \<Rightarrow> 'f list option \<Rightarrow> bytes option) \<Rightarrow> nat \<Rightarrow> nat \<Rightarrow> 'f list option \<Rightarrow> nat \<Rightarrow> 'f list \<Rightarrow> nat \<Rightarrow> nat \<Rightarrow> bytes
    \<Rightarrow> bytes option" where
  "quantize_rows k n_per_row row_size imatrix 0 src soff doff dst = Some dst"
| "quantize_rows k n_per_row row_size imatrix (Suc nrow) src soff doff dst = do {
     x \<leftarrow> read_at soff n_per_row src;
     w \<leftarrow> row_weights n_per_row imatrix;
     row \<leftarrow> k x w;
     dst' \<leftarrow> write_at doff row dst;
     quantize_rows k n_per_row row_size imatrix nrow src (soff + n_per_row) (doff + row_size) dst'
   }"

definition ggml_quantize_chunk :: "(ggml_type \<Rightarrow> 'f list \<Rightarrow> 'f list option \<Rightarrow> bytes option) \<Rightarrow> ggml_type \<Rightarrow> 'f list \<Rightarrow> bytes
    \<Rightarrow> nat \<Rightarrow> nat \<Rightarrow> nat \<Rightarrow> 'f list option \<Rightarrow> (bytes \<times> nat) option" where
  "ggml_quantize_chunk krow t src dst start nrows n_per_row imatrix = do {
     guard (ggml_quantize_requires_imatrix t \<longrightarrow> imatrix \<noteq> None);
     guard (ggml_blck_size t \<noteq> 0 \<and> start mod ggml_blck_size t = 0);
     guard (n_per_row \<noteq> 0 \<and> start mod n_per_row = 0);
     let start_row = start div n_per_row;
     row_size \<leftarrow> ggml_row_size t n_per_row;
     guard (quantizable t);
     dst' \<leftarrow> quantize_rows (krow t) n_per_row row_size imatrix nrows src start (start_row * row_size) dst;
     Some (dst', nrows * row_size)
   }"

section \<open>Lemmas\<close>

lemma all_less_add: "(\<forall>i < a + b. Q i) \<longleftrightarrow> (\<forall>i < a. Q i) \<and> (\<forall>i < b. Q (a + i))" for a b :: nat
proof (intro iffI conjI allI impI)
  fix i assume Q: "(\<forall>i < a. Q i) \<and> (\<forall>i < b. Q (a + i))" and i: "i < a + b"
  show "Q i"
  proof (cases "i < a")
    case False
    then have "Q (a + (i - a))" using Q i by (metis add_diff_inverse_nat nat_add_left_cancel_less)
    then show ?thesis using False by simp
  qed (use Q in simp)
qed simp_all

lemma blocks_append:
  assumes "n \<noteq> 0" "n dvd length xs" "n dvd length ys"
  shows "list_all (\<lambda>i. P (block_of n (xs @ ys) i)) [0..<length (xs @ ys) div n]
    \<longleftrightarrow> list_all (\<lambda>i. P (block_of n xs i)) [0..<length xs div n] \<and> list_all (\<lambda>i. P (block_of n ys i)) [0..<length ys div n]"
    (is "?L \<longleftrightarrow> ?A \<and> ?B")
proof -
  obtain a b where ab: "length xs = n * a" "length ys = n * b"
    using assms by (auto elim!: dvdE)
  have div: "length (xs @ ys) div n = a + b" "length xs div n = a" "length ys div n = b"
    using ab assms(1) by (simp_all add: add_mult_distrib2 [symmetric])
  have lo: "block_of n (xs @ ys) i = block_of n xs i" if "i < a" for i
  proof -
    have "n * (i + 1) \<le> n * a" using that by (intro mult_le_mono2) simp
    then have "n + i * n \<le> length xs" using ab by (simp add: algebra_simps)
    then show ?thesis by (simp add: block_of_def)
  qed
  have hi: "block_of n (xs @ ys) (a + i) = block_of n ys i" for i
    using ab by (simp add: block_of_def algebra_simps)
  have "?L \<longleftrightarrow> (\<forall>i < a + b. P (block_of n (xs @ ys) i))"
    by (simp only: div list_all_iff set_upt) auto
  also have "\<dots> \<longleftrightarrow> (\<forall>i < a. P (block_of n (xs @ ys) i)) \<and> (\<forall>i < b. P (block_of n (xs @ ys) (a + i)))"
    by (rule all_less_add)
  also have "\<dots> \<longleftrightarrow> (\<forall>i < a. P (block_of n xs i)) \<and> (\<forall>i < b. P (block_of n ys i))"
    using lo hi by simp
  also have "\<dots> \<longleftrightarrow> ?A \<and> ?B"
    by (simp only: div list_all_iff set_upt) auto
  finally show ?thesis .
qed

text \<open>Data made of whole blocks is valid exactly when its parts are.\<close>

definition row_valid :: "ggml_type \<Rightarrow> bytes \<Rightarrow> bool" where
  "row_valid t data \<longleftrightarrow> ggml_validate_row_data t data = Some True"

lemma validate_total: "ggml_type_size t \<noteq> 0 \<Longrightarrow> ggml_validate_row_data t data = Some (row_valid t data)"
  by (simp add: ggml_validate_row_data_def row_valid_def)

lemma row_valid_append:
  assumes "ggml_type_size t \<noteq> 0" "ggml_type_size t dvd length xs" "ggml_type_size t dvd length ys"
  shows "row_valid t (xs @ ys) \<longleftrightarrow> row_valid t xs \<and> row_valid t ys"
proof -
  have "ggml_type_size t dvd length (xs @ ys)"
    using assms by simp
  then show ?thesis
    using assms blocks_append [OF assms, of "valid_block t"]
    by (auto simp: row_valid_def ggml_validate_row_data_def dvd_eq_mod_eq_0 simp del: length_append)
qed

lemma row_valid_concat:
  assumes "ggml_type_size t \<noteq> 0" "\<forall>x \<in> set xss. ggml_type_size t dvd length x" "validated_type t"
  shows "row_valid t (concat xss) \<longleftrightarrow> (\<forall>x \<in> set xss. row_valid t x)"
  using assms(2)
proof (induction xss)
  case Nil
  show ?case using assms by (simp add: row_valid_def ggml_validate_row_data_def)
next
  case (Cons x xss)
  have "ggml_type_size t dvd length (concat xss)"
    using Cons.prems by (induction xss) auto
  with Cons show ?case
    using row_valid_append [OF assms(1), of x "concat xss"] by simp
qed

lemma length_write_at: "write_at off xs buf = Some buf' \<Longrightarrow> length buf' = length buf"
  by (auto simp: write_at_def split: if_splits)

text \<open>A range of the buffer after a write: inside the range written, or disjoint from it.\<close>

lemma read_write_same: "write_at off xs buf = Some buf' \<Longrightarrow> take (length xs) (drop off buf') = xs"
  by (auto simp: write_at_def split: if_splits)

lemma read_write_other:
  assumes "write_at off xs buf = Some buf'" "o' + n \<le> off \<or> off + length xs \<le> o'"
  shows "take n (drop o' buf') = take n (drop o' buf)"
proof (rule nth_equalityI)
  show "length (take n (drop o' buf')) = length (take n (drop o' buf))"
    using length_write_at [OF assms(1)] by simp
next
  fix i assume i: "i < length (take n (drop o' buf'))"
  have b: "buf' = take off buf @ xs @ drop (off + length xs) buf" and le: "off + length xs \<le> length buf"
    using assms(1) by (auto simp: write_at_def split: if_splits)
  have len: "length buf' = length buf" by (rule length_write_at [OF assms(1)])
  have j: "o' + i < length buf" "i < n" using i len by auto
  have "buf' ! j = buf ! j" if "j < length buf" "j < off \<or> off + length xs \<le> j" for j
    using that le by (auto simp: b nth_append)
  then have "buf' ! (o' + i) = buf ! (o' + i)"
    using j assms(2) by force
  then show "take n (drop o' buf') ! i = take n (drop o' buf) ! i"
    using j len by simp
qed

lemma drop_write_at: "write_at off xs buf = Some buf' \<Longrightarrow> off + length xs \<le> n \<Longrightarrow> drop n buf' = drop n buf"
  by (auto simp: write_at_def min_def split: if_splits)

lemma take_write_at: "write_at off xs buf = Some buf' \<Longrightarrow> n \<le> off \<Longrightarrow> take n buf' = take n buf"
  by (auto simp: write_at_def min_def split: if_splits)

end
