(* ===== verification/KvState.thy ===== *)
theory KvState
  imports KvInputs GgmlValidate
begin

text \<open>
  Saving and restoring the key-value cache: \<^verbatim>\<open>state_write\<close>, \<^verbatim>\<open>state_read\<close> and their parts in
  \<^verbatim>\<open>src/src/llama-kv-cache.cpp\<close>, over the reader and the writer of \<^verbatim>\<open>src/src/llama-context.cpp\<close>.

  A state is a list of bytes, integers little-endian.  The data of a stream is a list with the bytes of the key
  and of the value tensor of every layer.  A reading operation maps the bytes that are left and the cache to a
  result, an exception or an abort (\<open>None\<close>), and the bytes and the cache it leaves; an exception leaves the
  cache as the code has changed it so far.
\<close>

type_synonym stream_data = "(bytes \<times> bytes) list"

record kv_layer =
  ly_k_type :: ggml_type
  ly_n_embd_k :: nat
  ly_v_type :: ggml_type
  ly_n_embd_v :: nat

section \<open>Integers as bytes\<close>

definition le_bytes :: "nat \<Rightarrow> nat \<Rightarrow> bytes" where
  "le_bytes n x = map (\<lambda>i. of_nat (x div 256 ^ i)) [0..<n]"

fun le_nat :: "bytes \<Rightarrow> nat" where
  "le_nat [] = 0"
| "le_nat (b # bs) = unat b + 256 * le_nat bs"

definition i32_bytes :: "int \<Rightarrow> bytes" where
  "i32_bytes p = le_bytes 4 (nat (p mod 4294967296))"

section \<open>Writing\<close>

text \<open>The cells to write, as ranges; \<open>cells_size\<close> marks that no range is open.\<close>

definition cell_wanted :: "int \<Rightarrow> kv_cells \<Rightarrow> nat \<Rightarrow> bool option" where
  "cell_wanted seq_id c i = do {
     e \<leftarrow> cells_is_empty i c;
     if e then Some False
     else if seq_id = - 1 then Some True
     else do { guard (0 \<le> seq_id); cells_seq_has i (nat seq_id) c }
   }"

definition range_step :: "int \<Rightarrow> kv_cells \<Rightarrow> nat \<Rightarrow> nat \<times> nat \<times> (nat \<times> nat) list \<Rightarrow> (nat \<times> nat \<times> (nat \<times> nat) list) option" where
  "range_step seq_id c i = (\<lambda>(cell_count, begin, data). do {
     w \<leftarrow> cell_wanted seq_id c i;
     Some (if w then (cell_count + 1, if begin = cells_size c then i else begin, data)
       else if begin \<noteq> cells_size c then (cell_count, cells_size c, data @ [(begin, i)])
       else (cell_count, begin, data))
   })"

definition cell_ranges :: "int \<Rightarrow> kv_cells \<Rightarrow> (nat \<times> (nat \<times> nat) list) option" where
  "cell_ranges seq_id c = do {
     (cell_count, begin, data) \<leftarrow> foldM (range_step seq_id c) [0..<cells_size c] (0, cells_size c, []);
     let data' = (if begin \<noteq> cells_size c then data @ [(begin, cells_size c)] else data);
     guard (cell_count = sum_list (map (\<lambda>(a, b). b - a) data'));
     Some (cell_count, data')
   }"

definition write_cell :: "int \<Rightarrow> nat \<Rightarrow> kv_cells \<Rightarrow> nat \<Rightarrow> bytes option" where
  "write_cell seq_id n_seq_max c i = do {
     seq_ids \<leftarrow> foldM (\<lambda>cur acc.
         if int cur = seq_id \<or> seq_id = - 1 then do { h \<leftarrow> cells_seq_has i cur c; Some (if h then acc @ [cur] else acc) } else Some acc)
       [0..<n_seq_max] [];
     pos \<leftarrow> cells_pos_get i c;
     Some (i32_bytes pos @ le_bytes 4 (length seq_ids) @ concat (map (\<lambda>s. i32_bytes (int s)) seq_ids))
   }"

definition write_all :: "('x \<Rightarrow> bytes option) \<Rightarrow> 'x list \<Rightarrow> bytes option" where
  "write_all f xs = foldM (\<lambda>x out. map_option (\<lambda>b. out @ b) (f x)) xs []"

definition state_write_meta :: "nat \<Rightarrow> (nat \<times> nat) list \<Rightarrow> int \<Rightarrow> stream_data kv_cache \<Rightarrow> bytes option" where
  "state_write_meta strm data seq_id kv =
     write_all (\<lambda>(a, b). write_all (write_cell seq_id (kv_n_seq_max kv) (kv_v_cells kv ! strm)) [a..<b]) data"

definition write_k_layer :: "kv_layer list \<Rightarrow> stream_data \<Rightarrow> (nat \<times> nat) list \<Rightarrow> nat \<Rightarrow> bytes option" where
  "write_k_layer layers d ranges l = do {
     row \<leftarrow> ggml_row_size (ly_k_type (layers ! l)) (ly_n_embd_k (layers ! l));
     rows \<leftarrow> write_all (\<lambda>(a, b). read_at (a * row) ((b - a) * row) (fst (d ! l))) ranges;
     Some (le_bytes 4 (ggml_type_code (ly_k_type (layers ! l))) @ le_bytes 8 row @ rows)
   }"

definition write_v_layer :: "kv_layer list \<Rightarrow> stream_data \<Rightarrow> (nat \<times> nat) list \<Rightarrow> nat \<Rightarrow> bytes option" where
  "write_v_layer layers d ranges l = do {
     row \<leftarrow> ggml_row_size (ly_v_type (layers ! l)) (ly_n_embd_v (layers ! l));
     rows \<leftarrow> write_all (\<lambda>(a, b). read_at (a * row) ((b - a) * row) (snd (d ! l))) ranges;
     Some (le_bytes 4 (ggml_type_code (ly_v_type (layers ! l))) @ le_bytes 8 row @ rows)
   }"

text \<open>The offset of an element of a transposed value buffer.  The writer multiplies three 32-bit numbers, the reader two and widens
  before the last factor: either may wrap.\<close>

definition v_src_offset :: "nat \<Rightarrow> nat \<Rightarrow> nat \<Rightarrow> nat \<Rightarrow> nat" where
  "v_src_offset first j kv_size el = (first + j * kv_size) * el mod 2 ^ 32"

definition v_dst_offset :: "nat \<Rightarrow> nat \<Rightarrow> nat \<Rightarrow> nat \<Rightarrow> nat" where
  "v_dst_offset head j kv_size el = (head + j * kv_size) mod 2 ^ 32 * el"

definition write_v_trans_layer :: "kv_layer list \<Rightarrow> stream_data \<Rightarrow> (nat \<times> nat) list \<Rightarrow> nat \<Rightarrow> nat \<Rightarrow> bytes option" where
  "write_v_trans_layer layers d ranges kv_size l = do {
     let el = ggml_type_size (ly_v_type (layers ! l));
     rows \<leftarrow> write_all (\<lambda>j. write_all (\<lambda>(a, b). read_at (v_src_offset a j kv_size el) ((b - a) * el) (snd (d ! l))) ranges) [0..<ly_n_embd_v (layers ! l)];
     Some (le_bytes 4 (ggml_type_code (ly_v_type (layers ! l))) @ le_bytes 4 el @ le_bytes 4 (ly_n_embd_v (layers ! l)) @ rows)
   }"

definition state_write_data :: "kv_layer list \<Rightarrow> bool \<Rightarrow> nat \<Rightarrow> (nat \<times> nat) list \<Rightarrow> stream_data kv_cache \<Rightarrow> bytes option" where
  "state_write_data layers v_trans strm data kv = do {
     let d = kv_data kv ! strm;
     ks \<leftarrow> write_all (write_k_layer layers d data) [0..<length layers];
     vs \<leftarrow> (if \<not> v_trans then write_all (write_v_layer layers d data) [0..<length layers]
       else write_all (write_v_trans_layer layers d data (cells_size (kv_v_cells kv ! strm))) [0..<length layers]);
     Some (le_bytes 4 (if v_trans then 1 else 0) @ le_bytes 4 (length layers) @ ks @ vs)
   }"

definition state_write :: "kv_layer list \<Rightarrow> bool \<Rightarrow> int \<Rightarrow> stream_data kv_cache \<Rightarrow> bytes option" where
  "state_write layers v_trans seq_id kv = do {
     streams \<leftarrow> write_all (\<lambda>s. do {
         (cell_count, data) \<leftarrow> cell_ranges seq_id (kv_v_cells kv ! s);
         if cell_count = 0 then Some (le_bytes 4 0)
         else do {
           meta \<leftarrow> state_write_meta s data seq_id kv;
           d \<leftarrow> state_write_data layers v_trans s data kv;
           Some (le_bytes 4 cell_count @ meta @ d)
         }
       }) [0..<kv_n_stream kv];
     Some (le_bytes 4 (kv_n_stream kv) @ streams)
   }"

section \<open>Reading\<close>

datatype state_error = EndOfBuffer | StreamMismatch | RestoreFailed

type_synonym 'a reader = "bytes \<times> stream_data kv_cache \<Rightarrow> ((state_error + 'a) \<times> bytes \<times> stream_data kv_cache) option"

definition rd_ret :: "'a \<Rightarrow> 'a reader" where
  "rd_ret x = (\<lambda>s. Some (Inr x, s))"

definition rd_throw :: "state_error \<Rightarrow> 'a reader" where
  "rd_throw e = (\<lambda>s. Some (Inl e, s))"

definition rd_bind :: "'a reader \<Rightarrow> ('a \<Rightarrow> 'b reader) \<Rightarrow> 'b reader" where
  "rd_bind m f = (\<lambda>s. case m s of None \<Rightarrow> None | Some (Inl e, s') \<Rightarrow> Some (Inl e, s') | Some (Inr x, s') \<Rightarrow> f x s')"

definition rd_kv :: "(stream_data kv_cache \<Rightarrow> stream_data kv_cache option) \<Rightarrow> unit reader" where
  "rd_kv f = (\<lambda>(bs, kv). map_option (\<lambda>kv'. (Inr (), bs, kv')) (f kv))"

definition rd_get :: "(stream_data kv_cache \<Rightarrow> 'a option) \<Rightarrow> 'a reader" where
  "rd_get f = (\<lambda>(bs, kv). map_option (\<lambda>x. (Inr x, bs, kv)) (f kv))"

fun rd_all :: "('x \<Rightarrow> bool reader) \<Rightarrow> 'x list \<Rightarrow> bool reader" where
  "rd_all f [] = rd_ret True"
| "rd_all f (x # xs) = rd_bind (f x) (\<lambda>ok. if ok then rd_all f xs else rd_ret False)"

definition io_read :: "nat \<Rightarrow> bytes reader" where
  "io_read n = (\<lambda>(bs, kv). if n > length bs then Some (Inl EndOfBuffer, bs, kv) else Some (Inr (take n bs), drop n bs, kv))"

definition io_uint :: "nat \<Rightarrow> nat reader" where
  "io_uint n = rd_bind (io_read n) (\<lambda>b. rd_ret (le_nat b))"

definition io_i32 :: "int reader" where
  "io_i32 = rd_bind (io_read 4) (\<lambda>b. rd_ret (to_s32 (le_nat b)))"

definition rd_cells :: "nat \<Rightarrow> (kv_cells \<Rightarrow> kv_cells option) \<Rightarrow> unit reader" where
  "rd_cells st f = rd_kv (\<lambda>kv. map_option (\<lambda>c. put_cells st c kv) (f (kv_v_cells kv ! st)))"

text \<open>One cell of a whole restore.\<close>

definition read_cell :: "nat \<Rightarrow> nat \<Rightarrow> bool reader" where
  "read_cell st i = rd_bind io_i32 (\<lambda>pos. rd_bind (io_uint 4) (\<lambda>n_seq_id.
     rd_bind (rd_cells st (cells_pos_set i pos)) (\<lambda>_.
       rd_all (\<lambda>_. rd_bind io_i32 (\<lambda>seq_id. rd_bind (rd_get (\<lambda>kv. Some (kv_n_seq_max kv))) (\<lambda>n_seq_max.
           if seq_id < 0 \<or> nat seq_id \<ge> n_seq_max then rd_ret False
           else rd_bind (rd_cells st (cells_seq_add i (nat seq_id))) (\<lambda>_. rd_ret True))))
         [0..<n_seq_id])))"

definition state_read_meta_all :: "stream_data \<Rightarrow> nat \<Rightarrow> nat \<Rightarrow> bool reader" where
  "state_read_meta_all zero strm cell_count = rd_bind (rd_get (\<lambda>kv. Some (cells_size (kv_v_cells kv ! strm)))) (\<lambda>sz.
     if cell_count > sz then rd_ret False
     else rd_bind (rd_kv (\<lambda>kv. Some (kv_clear zero True kv))) (\<lambda>_.
       rd_bind (rd_all (read_cell strm) [0..<cell_count]) (\<lambda>ok.
         if ok then rd_bind (rd_kv (\<lambda>kv. Some (put_head strm 0 kv))) (\<lambda>_. rd_ret True) else rd_ret False)))"

text \<open>The positions of a single sequence; \<open>None\<close> is the return of \<^verbatim>\<open>false\<close>.\<close>

fun read_positions :: "nat \<Rightarrow> int list \<Rightarrow> int list option reader" where
  "read_positions 0 acc = rd_ret (Some acc)"
| "read_positions (Suc k) acc = rd_bind io_i32 (\<lambda>pos. rd_bind (io_uint 4) (\<lambda>n_seq_id.
     if n_seq_id \<noteq> 1 then rd_ret None else rd_bind io_i32 (\<lambda>_. read_positions k (acc @ [pos]))))"

definition allocr_new :: "nat \<Rightarrow> unit allocr" where
  "allocr_new n_pos_per_embd = \<lparr>al_n_tokens = 0, al_token = None, al_embd = None, al_pos = [], al_n_seq_id = [], al_seq_id = [], al_logits = [],
     al_n_pos_per_embd = n_pos_per_embd, al_n_embd = 0, al_n_seq_max = 0, al_n_outputs = 0, al_seq_id_unq = [], al_seq_idx = replicate LLAMA_MAX_SEQ (- 1),
     al_has_cpl = False, al_seq_pos = (\<lambda>_. {}), al_seq_cpl = (\<lambda>_ _. False), al_seq_set = [], al_seq_set_map = (\<lambda>_. []), al_out_ids = [], al_n_used = 0, al_used = []\<rparr>"

definition restore_ubatch :: "nat \<Rightarrow> int \<Rightarrow> int list \<Rightarrow> unit llama_ubatch option" where
  "restore_ubatch n_pos_per_embd dest ps = do {
     (ub, _) \<leftarrow> ubatch_reserve (length ps) 1 (allocr_new n_pos_per_embd);
     Some (ub\<lparr>ub_seq_id_unq := (ub_seq_id_unq ub)[0 := nat dest], ub_pos := ps, ub_n_seq_id := replicate (length ps) 1, ub_seq_id := replicate (length ps) [dest]\<rparr>)
   }"

definition state_read_meta_seq :: "nat \<Rightarrow> nat \<Rightarrow> nat \<Rightarrow> int \<Rightarrow> bool reader" where
  "state_read_meta_seq n_pos_per_embd strm cell_count dest = rd_bind (rd_kv (\<lambda>kv. map_option snd (kv_seq_rm dest (- 1) (- 1) kv))) (\<lambda>_.
     rd_bind (read_positions cell_count []) (\<lambda>r. case r of None \<Rightarrow> rd_ret False | Some ps \<Rightarrow>
       rd_bind (rd_get (\<lambda>kv. do { ub \<leftarrow> restore_ubatch n_pos_per_embd dest ps; si \<leftarrow> find_slot ub True kv; Some (ub, si) })) (\<lambda>(ub, si).
         if si_empty si then rd_ret False
         else rd_bind (rd_kv (\<lambda>kv. do {
             kv1 \<leftarrow> apply_ubatch si ub kv;
             head_cur \<leftarrow> si_head si;
             let c = kv_v_cells kv1 ! strm;
             guard (head_cur + cell_count \<le> cells_size c);
             p0 \<leftarrow> cells_pos_get head_cur c; guard (p0 = ps ! 0);
             p1 \<leftarrow> cells_pos_get (head_cur + cell_count - 1) c; guard (p1 = ps ! (cell_count - 1));
             h0 \<leftarrow> cells_seq_has head_cur (nat dest) c; guard h0;
             h1 \<leftarrow> cells_seq_has (head_cur + cell_count - 1) (nat dest) c; guard h1;
             Some (put_head strm head_cur kv1)
           })) (\<lambda>_. rd_ret True))))"

text \<open>\<^verbatim>\<open>ggml_backend_tensor_set\<close> on the keys or the values of a layer.\<close>

definition set_k :: "nat \<Rightarrow> nat \<Rightarrow> nat \<Rightarrow> bytes \<Rightarrow> stream_data kv_cache \<Rightarrow> stream_data kv_cache option" where
  "set_k st l off xs kv = do {
     let d = kv_data kv ! st;
     k \<leftarrow> write_at off xs (fst (d ! l));
     Some (kv\<lparr>kv_data := (kv_data kv)[st := d[l := (k, snd (d ! l))]]\<rparr>)
   }"

definition set_v :: "nat \<Rightarrow> nat \<Rightarrow> nat \<Rightarrow> bytes \<Rightarrow> stream_data kv_cache \<Rightarrow> stream_data kv_cache option" where
  "set_v st l off xs kv = do {
     let d = kv_data kv ! st;
     v \<leftarrow> write_at off xs (snd (d ! l));
     Some (kv\<lparr>kv_data := (kv_data kv)[st := d[l := (fst (d ! l), v)]]\<rparr>)
   }"

definition read_k_layer :: "kv_layer list \<Rightarrow> nat \<Rightarrow> nat \<Rightarrow> nat \<Rightarrow> bool reader" where
  "read_k_layer layers st cell_count l = rd_bind (io_uint 4) (\<lambda>t.
     if t \<noteq> ggml_type_code (ly_k_type (layers ! l)) then rd_ret False
     else rd_bind (io_uint 8) (\<lambda>row_ref. rd_bind (rd_get (\<lambda>_. ggml_row_size (ly_k_type (layers ! l)) (ly_n_embd_k (layers ! l)))) (\<lambda>row.
       if row \<noteq> row_ref then rd_ret False
       else rd_bind (io_read (cell_count * row)) (\<lambda>xs.
         rd_bind (rd_kv (\<lambda>kv. set_k st l (kv_v_heads kv ! st * row) xs kv)) (\<lambda>_. rd_ret True)))))"

definition read_v_layer :: "kv_layer list \<Rightarrow> nat \<Rightarrow> nat \<Rightarrow> nat \<Rightarrow> bool reader" where
  "read_v_layer layers st cell_count l = rd_bind (io_uint 4) (\<lambda>t.
     if t \<noteq> ggml_type_code (ly_v_type (layers ! l)) then rd_ret False
     else rd_bind (io_uint 8) (\<lambda>row_ref. rd_bind (rd_get (\<lambda>_. ggml_row_size (ly_v_type (layers ! l)) (ly_n_embd_v (layers ! l)))) (\<lambda>row.
       if row \<noteq> row_ref then rd_ret False
       else rd_bind (io_read (cell_count * row)) (\<lambda>xs.
         rd_bind (rd_kv (\<lambda>kv. set_v st l (kv_v_heads kv ! st * row) xs kv)) (\<lambda>_. rd_ret True)))))"

definition read_v_trans_layer :: "kv_layer list \<Rightarrow> nat \<Rightarrow> nat \<Rightarrow> nat \<Rightarrow> bool reader" where
  "read_v_trans_layer layers st cell_count l = rd_bind (io_uint 4) (\<lambda>t.
     if t \<noteq> ggml_type_code (ly_v_type (layers ! l)) then rd_ret False
     else rd_bind (io_uint 4) (\<lambda>el_ref. let el = ggml_type_size (ly_v_type (layers ! l)) in
       if el \<noteq> el_ref then rd_ret False
       else rd_bind (io_uint 4) (\<lambda>n_ref.
         if n_ref \<noteq> ly_n_embd_v (layers ! l) then rd_ret False
         else rd_all (\<lambda>j. rd_bind (io_read (cell_count * el)) (\<lambda>xs.
             rd_bind (rd_kv (\<lambda>kv. set_v st l (v_dst_offset (kv_v_heads kv ! st) j (cells_size (kv_v_cells kv ! st)) el) xs kv)) (\<lambda>_. rd_ret True)))
           [0..<ly_n_embd_v (layers ! l)])))"

definition state_read_data :: "kv_layer list \<Rightarrow> bool \<Rightarrow> nat \<Rightarrow> nat \<Rightarrow> bool reader" where
  "state_read_data layers v_trans strm cell_count = rd_bind (io_uint 4) (\<lambda>vt. rd_bind (io_uint 4) (\<lambda>n_layer.
     if n_layer \<noteq> length layers then rd_ret False
     else rd_bind (rd_get (\<lambda>kv. Some (cells_size (kv_v_cells kv ! strm)))) (\<lambda>sz.
       if cell_count > sz then rd_ret False
       else if v_trans \<noteq> (vt \<noteq> 0) then rd_ret False
       else rd_bind (rd_all (read_k_layer layers strm cell_count) [0..<length layers]) (\<lambda>ok.
         if \<not> ok then rd_ret False
         else if \<not> v_trans then rd_all (read_v_layer layers strm cell_count) [0..<length layers]
         else rd_all (read_v_trans_layer layers strm cell_count) [0..<length layers]))))"

definition read_stream :: "stream_data \<Rightarrow> kv_layer list \<Rightarrow> bool \<Rightarrow> nat \<Rightarrow> int \<Rightarrow> nat \<Rightarrow> bool reader" where
  "read_stream zero layers v_trans n_pos_per_embd seq_id s = rd_bind (io_uint 4) (\<lambda>cell_count.
     if cell_count = 0 then rd_ret True
     else rd_bind (rd_get (\<lambda>kv. if seq_id = - 1 then Some s else kv_stream seq_id kv)) (\<lambda>strm.
       rd_bind (if seq_id = - 1 then state_read_meta_all zero strm cell_count else state_read_meta_seq n_pos_per_embd strm cell_count seq_id) (\<lambda>res.
         rd_bind (if res then state_read_data layers v_trans strm cell_count else rd_ret False) (\<lambda>res.
           if res then rd_ret True
           else rd_bind (rd_kv (\<lambda>kv. if seq_id = - 1 then Some (kv_clear zero True kv) else map_option snd (kv_seq_rm seq_id (- 1) (- 1) kv)))
             (\<lambda>_. rd_throw RestoreFailed)))))"

definition state_read :: "stream_data \<Rightarrow> kv_layer list \<Rightarrow> bool \<Rightarrow> nat \<Rightarrow> int \<Rightarrow> bool reader" where
  "state_read zero layers v_trans n_pos_per_embd seq_id =
     rd_bind (rd_get (\<lambda>kv. if seq_id = - 1 then Some 0 else kv_stream seq_id kv)) (\<lambda>_.
       rd_bind (io_uint 4) (\<lambda>n_stream_cur. rd_bind (rd_get (\<lambda>kv. Some (kv_n_stream kv))) (\<lambda>n_stream.
         if n_stream_cur \<noteq> n_stream then rd_throw StreamMismatch
         else rd_all (read_stream zero layers v_trans n_pos_per_embd seq_id) [0..<n_stream])))"

section \<open>Integers and readers\<close>

lemma le_bytes_length [simp]: "length (le_bytes n x) = n"
  by (simp add: le_bytes_def)

lemma le_bytes_Suc: "le_bytes (Suc n) x = of_nat x # le_bytes n (x div 256)"
  unfolding le_bytes_def map_upt_Suc by (simp add: div_mult2_eq [symmetric])

lemma le_nat_le_bytes: "le_nat (le_bytes n x) = x mod 256 ^ n"
proof (induction n arbitrary: x)
  case 0
  show ?case by (simp add: le_bytes_def)
next
  case (Suc n)
  have "unat (of_nat x :: 8 word) = x mod 256" by (simp add: unsigned_of_nat take_bit_eq_mod)
  then show ?case unfolding le_bytes_Suc by (simp add: Suc mod_mult2_eq)
qed

lemma i32_bytes_length [simp]: "length (i32_bytes p) = 4"
  by (simp add: i32_bytes_def)

lemma to_s32_nat: "int32_ok p \<Longrightarrow> to_s32 (nat (p mod 4294967296)) = p"
proof -
  assume "int32_ok p"
  then have p: "- 2147483648 \<le> p" "p < 2147483648" by (auto simp: int32_ok_def int32_min_def int32_max_def)
  have "(p mod 4294967296 + 2147483648) mod 4294967296 = (p + 2147483648) mod 4294967296" by (simp add: mod_simps)
  also have "\<dots> = p + 2147483648" using p by simp
  finally show ?thesis by (simp add: to_s32_def)
qed

named_theorems reads \<open>what readers return\<close>

lemma rd_bind_Inr: "m s = Some (Inr x, s') \<Longrightarrow> f x s' = r \<Longrightarrow> rd_bind m f s = r"
  by (simp add: rd_bind_def)

lemma rd_ret_eq [simp]: "rd_ret x s = Some (Inr x, s)"
  by (simp add: rd_ret_def)

lemma io_read_append: "length a = n \<Longrightarrow> io_read n (a @ bs, kv) = Some (Inr a, bs, kv)"
  by (simp add: io_read_def)

lemma io_uint_append: "x < 256 ^ n \<Longrightarrow> io_uint n (le_bytes n x @ bs, kv) = Some (Inr x, bs, kv)"
  by (simp add: io_uint_def rd_bind_def io_read_append le_nat_le_bytes)

lemma io_i32_append: "int32_ok p \<Longrightarrow> io_i32 (i32_bytes p @ bs, kv) = Some (Inr p, bs, kv)"
proof -
  assume p: "int32_ok p"
  have "nat (p mod 4294967296) < 256 ^ 4" by (simp add: nat_less_iff)
  then have "le_nat (i32_bytes p) = nat (p mod 4294967296)" by (simp add: i32_bytes_def le_nat_le_bytes)
  then show ?thesis by (simp add: io_i32_def rd_bind_def io_read_append to_s32_nat [OF p])
qed

lemma rd_kv_eq: "f kv = Some kv' \<Longrightarrow> rd_kv f (bs, kv) = Some (Inr (), bs, kv')"
  by (simp add: rd_kv_def)

lemma rd_get_eq: "f kv = Some x \<Longrightarrow> rd_get f (bs, kv) = Some (Inr x, bs, kv)"
  by (simp add: rd_get_def)

lemma rd_cells_eq: "f (kv_v_cells kv ! st) = Some c \<Longrightarrow> rd_cells st f (bs, kv) = Some (Inr (), bs, put_cells st c kv)"
  by (simp add: rd_cells_def rd_kv_eq)

text \<open>Reading what was written, one equation for each primitive.\<close>

lemma rd_binds [reads]:
  "length a = n \<Longrightarrow> rd_bind (io_read n) f (a @ bs, kv) = f a (bs, kv)"
  "x < 256 ^ n \<Longrightarrow> rd_bind (io_uint n) g (le_bytes n x @ bs, kv) = g x (bs, kv)"
  "int32_ok p \<Longrightarrow> rd_bind io_i32 h (i32_bytes p @ bs, kv) = h p (bs, kv)"
  "gt kv = Some y \<Longrightarrow> rd_bind (rd_get gt) f' (bs, kv) = f' y (bs, kv)"
  "up kv = Some kv' \<Longrightarrow> rd_bind (rd_kv up) g' (bs, kv) = g' () (bs, kv')"
  "uc (kv_v_cells kv ! st) = Some c \<Longrightarrow> rd_bind (rd_cells st uc) g' (bs, kv) = g' () (bs, put_cells st c kv)"
  "rd_bind (rd_ret z) h' s = h' z s"
  by (simp_all add: rd_bind_def io_read_append io_uint_append io_i32_append rd_get_eq rd_kv_eq rd_cells_eq)

section \<open>Writers\<close>

lemma write_all_Some:
  assumes "\<And>x. x \<in> set xs \<Longrightarrow> f x = Some (g x)"
  shows "write_all f xs = Some (concat (map g xs))"
proof -
  have "foldM (\<lambda>x out. map_option (\<lambda>b. out @ b) (f x)) xs out = Some (out @ concat (map g xs))" for out
    using assms by (induction xs arbitrary: out) auto
  then show ?thesis by (simp add: write_all_def)
qed

definition rcells :: "(nat \<times> nat) list \<Rightarrow> nat list" where
  "rcells data = concat (map (\<lambda>(a, b). [a..<b]) data)"

lemma rcells_append [simp]: "rcells (d @ e) = rcells d @ rcells e" "rcells [(a, b)] = [a..<b]" "rcells [] = []"
  by (simp_all add: rcells_def)

lemma write_ranges:
  assumes "\<And>a b. (a, b) \<in> set data \<Longrightarrow> f (a, b) = Some (concat (map g [a..<b]))"
  shows "write_all f data = Some (concat (map g (rcells data)))"
proof -
  have "write_all f data = Some (concat (map (\<lambda>(a, b). concat (map g [a..<b])) data))"
    using assms by (intro write_all_Some) auto
  also have "concat (map (\<lambda>(a, b). concat (map g [a..<b])) data) = concat (map g (rcells data))"
    by (induction data) (auto simp: rcells_def)
  finally show ?thesis .
qed

lemma range_loop:
  assumes P: "\<And>i. i < cells_size c \<Longrightarrow> cell_wanted seq_id c i = Some (P i)"
  shows "wp (foldM (range_step seq_id c) [0..<cells_size c] (0, cells_size c, [])) (\<lambda>(cnt, bg, data). cnt = length (filter P [0..<cells_size c]) \<and>
    (\<forall>(a, b) \<in> set data. a \<le> b \<and> b \<le> cells_size c) \<and> (bg = cells_size c \<or> bg < cells_size c) \<and>
    rcells data @ (if bg = cells_size c then [] else [bg..<cells_size c]) = filter P [0..<cells_size c])"
proof (rule wp_foldM_upt [where P = "\<lambda>k (cnt, bg, data). cnt = length (filter P [0..<k]) \<and>
    (\<forall>(a, b) \<in> set data. a \<le> b \<and> b \<le> cells_size c) \<and> (bg = cells_size c \<or> bg < k) \<and>
    rcells data @ (if bg = cells_size c then [] else [bg..<k]) = filter P [0..<k]"])
  fix k and s :: "nat \<times> nat \<times> (nat \<times> nat) list"
  assume k: "k < cells_size c" and I: "case s of (cnt, bg, data) \<Rightarrow> cnt = length (filter P [0..<k]) \<and>
    (\<forall>(a, b) \<in> set data. a \<le> b \<and> b \<le> cells_size c) \<and> (bg = cells_size c \<or> bg < k) \<and>
    rcells data @ (if bg = cells_size c then [] else [bg..<k]) = filter P [0..<k]"
  obtain cnt bg data where s: "s = (cnt, bg, data)" by (cases s)
  show "wp (range_step seq_id c k s) (\<lambda>(cnt, bg, data). cnt = length (filter P [0..<Suc k]) \<and>
    (\<forall>(a, b) \<in> set data. a \<le> b \<and> b \<le> cells_size c) \<and> (bg = cells_size c \<or> bg < Suc k) \<and>
    rcells data @ (if bg = cells_size c then [] else [bg..<Suc k]) = filter P [0..<Suc k])"
    using I k P [OF k] unfolding s by (cases "P k"; cases "bg = cells_size c") (auto simp: range_step_def)
qed simp

lemma rcells_length: "(\<forall>(a, b) \<in> set data. a \<le> b) \<Longrightarrow> sum_list (map (\<lambda>(a, b). b - a) data) = length (rcells data)"
  by (induction data) (auto simp: rcells_def)

lemma cell_ranges_spec:
  assumes P: "\<And>i. i < cells_size c \<Longrightarrow> cell_wanted seq_id c i = Some (P i)"
  shows "\<exists>data. cell_ranges seq_id c = Some (length (filter P [0..<cells_size c]), data) \<and> rcells data = filter P [0..<cells_size c] \<and>
    (\<forall>(a, b) \<in> set data. a \<le> b \<and> b \<le> cells_size c)"
proof -
  from wpD [OF range_loop [OF P]] obtain cnt bg data where
    R: "foldM (range_step seq_id c) [0..<cells_size c] (0, cells_size c, []) = Some (cnt, bg, data)"
      "cnt = length (filter P [0..<cells_size c])" "\<forall>(a, b) \<in> set data. a \<le> b \<and> b \<le> cells_size c" "bg = cells_size c \<or> bg < cells_size c"
      "rcells data @ (if bg = cells_size c then [] else [bg..<cells_size c]) = filter P [0..<cells_size c]" by auto
  let ?data = "if bg \<noteq> cells_size c then data @ [(bg, cells_size c)] else data"
  have D: "rcells ?data = filter P [0..<cells_size c]" "\<forall>(a, b) \<in> set ?data. a \<le> b \<and> b \<le> cells_size c" using R(3-5) by auto
  then have "\<forall>(a, b) \<in> set ?data. a \<le> b" by auto
  from rcells_length [OF this] have "sum_list (map (\<lambda>(a, b). b - a) ?data) = cnt" using D(1) R(2) by simp
  then show ?thesis using R(1,2) D by (intro exI [where x = ?data]) (simp add: cell_ranges_def Let_def)
qed

section \<open>Rows of a tensor\<close>

definition row_at :: "nat \<Rightarrow> bytes \<Rightarrow> nat \<Rightarrow> bytes" where
  "row_at w b i = take w (drop (i * w) b)"

lemma row_at_length: "(i + 1) * w \<le> length b \<Longrightarrow> length (row_at w b i) = w"
  by (simp add: row_at_def)

lemma rows_range: "b * w \<le> length buf \<Longrightarrow> a \<le> b \<Longrightarrow> take ((b - a) * w) (drop (a * w) buf) = concat (map (row_at w buf) [a..<b])"
proof (induction b)
  case (Suc b)
  show ?case
  proof (cases "a = Suc b")
    case False
    then have ab: "a \<le> b" using Suc.prems(2) by simp
    have le: "b * w \<le> length buf" using Suc.prems(1) by simp
    have "take ((Suc b - a) * w) (drop (a * w) buf) = take ((b - a) * w + w) (drop (a * w) buf)" using ab by (simp add: Suc_diff_le add.commute)
    also have "\<dots> = take ((b - a) * w) (drop (a * w) buf) @ take w (drop ((b - a) * w + a * w) buf)" by (simp add: take_add)
    also have "(b - a) * w + a * w = b * w" using ab by (simp add: add_mult_distrib [symmetric])
    finally show ?thesis using Suc.IH [OF le ab] ab by (simp add: row_at_def)
  qed simp
qed simp

lemma read_rows:
  assumes "b * w \<le> length buf" "a \<le> b"
  shows "read_at (a * w) ((b - a) * w) buf = Some (concat (map (row_at w buf) [a..<b]))"
proof -
  have "a * w + (b - a) * w = b * w" using assms(2) by (simp add: add_mult_distrib [symmetric])
  then show ?thesis using assms rows_range [OF assms] by (simp add: read_at_def)
qed

lemma concat_rows_length: "\<forall>r \<in> set rows. length r = w \<Longrightarrow> length (concat rows) = length rows * w"
  by (induction rows) auto

lemma row_at_concat: "\<forall>r \<in> set rows. length r = w \<Longrightarrow> i < length rows \<Longrightarrow> row_at w (concat rows @ rest) i = rows ! i"
proof (induction rows arbitrary: i)
  case (Cons r rows)
  then show ?case by (cases i) (auto simp: row_at_def)
qed simp

lemma row_at_below: "(i + 1) * w \<le> n \<Longrightarrow> row_at w (take n b) i = row_at w b i"
  by (simp add: row_at_def drop_take min_def)

lemma row_at_drop: "row_at w (drop (a * w) b) i = row_at w b (a + i)"
  by (simp add: row_at_def add_mult_distrib add.commute)

lemma write_rows:
  assumes rows: "\<forall>r \<in> set rows. length r = w" and fit: "(a + length rows) * w \<le> length buf"
  shows "\<exists>buf'. write_at (a * w) (concat rows) buf = Some buf' \<and> length buf' = length buf \<and>
    (\<forall>q. row_at w buf' q = (if a \<le> q \<and> q < a + length rows then rows ! (q - a) else row_at w buf q))"
proof -
  note len = concat_rows_length [OF rows]
  let ?buf = "take (a * w) buf @ concat rows @ drop (a * w + length rows * w) buf"
  have la: "length (take (a * w) buf) = a * w" using fit by (simp add: add_mult_distrib)
  have "row_at w ?buf q = (if a \<le> q \<and> q < a + length rows then rows ! (q - a) else row_at w buf q)" for q
  proof (cases "q < a")
    case True
    then have "(q + 1) * w \<le> a * w" by (intro mult_le_mono1) simp
    then have "row_at w ?buf q = row_at w (take (a * w) ?buf) q" "row_at w buf q = row_at w (take (a * w) buf) q" by (simp_all only: row_at_below)
    moreover have "take (a * w) ?buf = take (a * w) buf" using la by simp
    ultimately have "row_at w ?buf q = row_at w buf q" by (simp only:)
    then show ?thesis using True by (simp only: not_le [symmetric] if_False simp_thms)
  next
    case False
    then have "row_at w ?buf q = row_at w (drop (a * w) ?buf) (q - a)" by (simp only: row_at_drop) simp
    also have "drop (a * w) ?buf = concat rows @ drop ((a + length rows) * w) buf" using la by (simp add: add_mult_distrib)
    finally have eq: "row_at w ?buf q = row_at w (concat rows @ drop ((a + length rows) * w) buf) (q - a)" .
    show ?thesis
    proof (cases "q < a + length rows")
      case True
      with False eq row_at_concat [OF rows, of "q - a"] show ?thesis by simp
    next
      case ge: False
      have "row_at w (concat rows @ drop ((a + length rows) * w) buf) (q - a) =
          row_at w (drop (length rows * w) (concat rows @ drop ((a + length rows) * w) buf)) (q - a - length rows)"
        using ge by (simp only: row_at_drop) simp
      also have "\<dots> = row_at w buf q" using ge len by (simp add: row_at_drop)
      finally show ?thesis using eq ge by simp
    qed
  qed
  moreover have "write_at (a * w) (concat rows) buf = Some ?buf" using fit len by (simp add: write_at_def add_mult_distrib)
  moreover have "length ?buf = length buf" using fit len by (simp add: add_mult_distrib)
  ultimately show ?thesis by blast
qed


section \<open>Cells as bytes\<close>

definition cell_bytes :: "int \<times> nat list \<Rightarrow> bytes" where
  "cell_bytes = (\<lambda>(pos, ss). i32_bytes pos @ le_bytes 4 (length ss) @ concat (map (\<lambda>s. i32_bytes (int s)) ss))"

text \<open>What is saved of a cell: its position and the sequences asked for.\<close>

definition wanted :: "int \<Rightarrow> cell \<Rightarrow> bool" where
  "wanted seq_id = (\<lambda>(p, sh, S). p \<noteq> - 1 \<and> (seq_id = - 1 \<or> nat seq_id \<in> S))"

definition wanted_seqs :: "int \<Rightarrow> nat \<Rightarrow> nat set \<Rightarrow> nat list" where
  "wanted_seqs seq_id n S = filter (\<lambda>s. (int s = seq_id \<or> seq_id = - 1) \<and> s \<in> S) [0..<n]"

definition saved_cells :: "int \<Rightarrow> kv_cells \<Rightarrow> nat list" where
  "saved_cells seq_id c = filter (\<lambda>i. wanted seq_id (cell_at c i)) [0..<cells_size c]"

definition saved_cell :: "int \<Rightarrow> nat \<Rightarrow> kv_cells \<Rightarrow> nat \<Rightarrow> int \<times> nat list" where
  "saved_cell seq_id n c i = (kc_pos c ! i, wanted_seqs seq_id n (kc_seq c ! i))"

lemma saved_cells_props:
  "distinct (saved_cells seq_id c)" "i \<in> set (saved_cells seq_id c) \<Longrightarrow> i < cells_size c \<and> wanted seq_id (cell_at c i)"
  "length (saved_cells seq_id c) \<le> cells_size c"
  using length_filter_le [of "\<lambda>i. wanted seq_id (cell_at c i)" "[0..<cells_size c]"] by (auto simp: saved_cells_def)

lemma wanted_seqs_props: "distinct (wanted_seqs seq_id n S)" "s \<in> set (wanted_seqs seq_id n S) \<Longrightarrow> s < n \<and> s \<in> S"
  by (auto simp: wanted_seqs_def)

lemma wanted_seqs_all: "S \<subseteq> {..<n} \<Longrightarrow> set (wanted_seqs (- 1) n S) = S"
  by (auto simp: wanted_seqs_def)

lemma cell_wanted_eq:
  assumes "cells_inv c" "i < cells_size c" "seq_id = - 1 \<or> 0 \<le> seq_id \<and> nat seq_id < LLAMA_MAX_SEQ"
  shows "cell_wanted seq_id c i = Some (wanted seq_id (cell_at c i))"
  using assms cells_is_empty_eq [OF assms(1), of i] cell_atD [OF assms(1,2)]
  by (auto simp: cell_wanted_def wanted_def cell_at_def cells_seq_has_def bitset_test_def)

lemma write_cell_eq:
  assumes inv: "cells_inv c" and i: "i < cells_size c" and used: "kc_pos c ! i \<noteq> - 1" and n: "n \<le> LLAMA_MAX_SEQ"
  shows "write_cell seq_id n c i = Some (cell_bytes (saved_cell seq_id n c i))"
proof -
  note D = cell_atD [OF inv i]
  let ?f = "\<lambda>cur acc. if int cur = seq_id \<or> seq_id = - 1 then do { h \<leftarrow> cells_seq_has i cur c; Some (if h then acc @ [cur] else acc) } else Some acc"
  have "foldM ?f [0..<k] [] = Some (wanted_seqs seq_id k (kc_seq c ! i))" if "k \<le> n" for k
    using that
  proof (induction k)
    case (Suc k)
    then have "k < LLAMA_MAX_SEQ" using n by simp
    then have "cells_seq_has i k c = Some (k \<in> kc_seq c ! i)"
      using D(1) used by (simp add: cells_seq_has_def bitset_test_def)
    with Suc show ?case by (simp add: foldM_append wanted_seqs_def)
  qed (simp add: wanted_seqs_def)
  from this [of n] D(1) used show ?thesis by (simp add: write_cell_def cells_pos_get_def cell_bytes_def saved_cell_def)
qed

lemma write_meta_eq:
  assumes inv: "cells_inv (kv_v_cells kv ! st)" and n: "kv_n_seq_max kv \<le> LLAMA_MAX_SEQ"
    and data: "rcells data = saved_cells seq_id (kv_v_cells kv ! st)"
  shows "state_write_meta st data seq_id kv = Some (concat (map (\<lambda>i. cell_bytes (saved_cell seq_id (kv_n_seq_max kv) (kv_v_cells kv ! st) i))
    (saved_cells seq_id (kv_v_cells kv ! st))))"
  unfolding state_write_meta_def data [symmetric]
proof (rule write_ranges)
  fix a b assume ab: "(a, b) \<in> set data"
  have "write_all (write_cell seq_id (kv_n_seq_max kv) (kv_v_cells kv ! st)) [a..<b] =
      Some (concat (map (\<lambda>i. cell_bytes (saved_cell seq_id (kv_n_seq_max kv) (kv_v_cells kv ! st) i)) [a..<b]))"
  proof (rule write_all_Some)
    fix i assume "i \<in> set [a..<b]"
    with ab have "i \<in> set (rcells data)" by (auto simp: rcells_def)
    with data saved_cells_props(2) have "i < cells_size (kv_v_cells kv ! st)" "wanted seq_id (cell_at (kv_v_cells kv ! st) i)" by auto
    then show "write_cell seq_id (kv_n_seq_max kv) (kv_v_cells kv ! st) i =
        Some (cell_bytes (saved_cell seq_id (kv_n_seq_max kv) (kv_v_cells kv ! st) i))"
      using inv n by (intro write_cell_eq) (auto simp: wanted_def cell_at_def)
  qed
  then show "(case (a, b) of (a, b) \<Rightarrow> write_all (write_cell seq_id (kv_n_seq_max kv) (kv_v_cells kv ! st)) [a..<b]) =
      Some (concat (map (\<lambda>i. cell_bytes (saved_cell seq_id (kv_n_seq_max kv) (kv_v_cells kv ! st) i)) [a..<b]))" by simp
qed

section \<open>Cells from bytes\<close>

lemma put_cells_twice [simp]: "put_cells st d (put_cells st c kv) = put_cells st d kv"
  by (simp add: put_cells_def)

lemma put_cells_nth [simp]: "st < length (kv_v_cells kv) \<Longrightarrow> kv_v_cells (put_cells st c kv) ! st = c"
  by (simp add: put_cells_def)

lemma put_cells_seq_max [simp]: "kv_n_seq_max (put_cells st c kv) = kv_n_seq_max kv"
  by (simp add: put_cells_def)

lemma put_cells_same: "put_cells st (kv_v_cells kv ! st) kv = kv"
  by (simp add: put_cells_def)

abbreviation (input) read_seq :: "nat \<Rightarrow> nat \<Rightarrow> bool reader" where
  "read_seq st i \<equiv> rd_bind io_i32 (\<lambda>seq_id. rd_bind (rd_get (\<lambda>kv. Some (kv_n_seq_max kv))) (\<lambda>n_seq_max.
           if seq_id < 0 \<or> nat seq_id \<ge> n_seq_max then rd_ret False
           else rd_bind (rd_cells st (cells_seq_add i (nat seq_id))) (\<lambda>_. rd_ret True)))"

lemma small_int32: "s < LLAMA_MAX_SEQ \<Longrightarrow> int32_ok (int s)"
  using max_seq_small by (simp add: int32_ok_def int32_min_def int32_max_def LLAMA_MAX_SEQ_def)

lemma read_seqs:
  assumes "st < length (kv_v_cells kv)" "cells_inv (kv_v_cells kv ! st)" "i < cells_size (kv_v_cells kv ! st)" "kc_pos (kv_v_cells kv ! st) ! i \<noteq> - 1"
    and "distinct ss" "\<forall>s \<in> set ss. s < kv_n_seq_max kv \<and> s \<notin> kc_seq (kv_v_cells kv ! st) ! i" "kv_n_seq_max kv \<le> LLAMA_MAX_SEQ" "length js = length ss"
  shows "\<exists>d. rd_all (\<lambda>_. read_seq st i) js (concat (map (\<lambda>s. i32_bytes (int s)) ss) @ bs, kv) = Some (Inr True, bs, put_cells st d kv) \<and> cells_inv d \<and>
    cells_put i (kc_pos (kv_v_cells kv ! st) ! i) (kc_shift (kv_v_cells kv ! st) ! i) (kc_seq (kv_v_cells kv ! st) ! i \<union> set ss) (kv_v_cells kv ! st) d"
  using assms
proof (induction ss arbitrary: kv js)
  case Nil
  then show ?case by (intro exI [where x = "kv_v_cells kv ! st"]) (simp add: cells_put_def put_cells_same)
next
  case (Cons s ss)
  let ?c = "kv_v_cells kv ! st"
  from Cons.prems have s: "s < kv_n_seq_max kv" "s \<notin> kc_seq ?c ! i" "s < LLAMA_MAX_SEQ" by auto
  from Cons.prems(8) obtain j js' where js: "js = j # js'" "length js' = length ss" by (cases js) auto
  have len: "i < length (kc_pos ?c)" using Cons.prems(3) by (simp add: cells_size_def)
  from wpD [OF cells_seq_add_spec [OF Cons.prems(2) len s(3,2) Cons.prems(4)]] obtain e where
    e: "cells_seq_add i s ?c = Some e" "cells_inv e"
      "cells_put i (kc_pos ?c ! i) (kc_shift ?c ! i) (insert s (kc_seq ?c ! i)) ?c e" by blast
  have at: "kc_pos e ! i = kc_pos ?c ! i" "kc_shift e ! i = kc_shift ?c ! i" "kc_seq e ! i = insert s (kc_seq ?c ! i)" "cells_size e = cells_size ?c"
    using e(3) len Cons.prems(2) by (auto simp: cells_put_def cells_size_def cells_inv_def)
  let ?kv = "put_cells st e kv"
  have cell: "kv_v_cells ?kv ! st = e" using Cons.prems(1) by simp
  have "\<exists>d. rd_all (\<lambda>_. read_seq st i) js' (concat (map (\<lambda>s. i32_bytes (int s)) ss) @ bs, ?kv) = Some (Inr True, bs, put_cells st d ?kv) \<and> cells_inv d \<and>
    cells_put i (kc_pos (kv_v_cells ?kv ! st) ! i) (kc_shift (kv_v_cells ?kv ! st) ! i) (kc_seq (kv_v_cells ?kv ! st) ! i \<union> set ss) (kv_v_cells ?kv ! st) d"
    using Cons.prems js(2) e(2) at by (intro Cons.IH; simp only: cell; simp) auto
  then obtain d where d: "rd_all (\<lambda>_. read_seq st i) js' (concat (map (\<lambda>s. i32_bytes (int s)) ss) @ bs, ?kv) = Some (Inr True, bs, put_cells st d kv)"
    "cells_inv d" "cells_put i (kc_pos ?c ! i) (kc_shift ?c ! i) (insert s (kc_seq ?c ! i) \<union> set ss) e d" unfolding cell at by auto
  have "read_seq st i (i32_bytes (int s) @ concat (map (\<lambda>s. i32_bytes (int s)) ss) @ bs, kv) =
      Some (Inr True, concat (map (\<lambda>s. i32_bytes (int s)) ss) @ bs, ?kv)"
    using s e(1) by (simp add: reads small_int32)
  then have "rd_all (\<lambda>_. read_seq st i) js (concat (map (\<lambda>s. i32_bytes (int s)) (s # ss)) @ bs, kv) = Some (Inr True, bs, put_cells st d kv)"
    unfolding js rd_all.simps using d(1) by (intro rd_bind_Inr [where x = True]) simp_all
  moreover have "cells_put i (kc_pos ?c ! i) (kc_shift ?c ! i) (kc_seq ?c ! i \<union> set (s # ss)) ?c d"
    using e(3) d(3) by (simp add: cells_put_def)
  ultimately show ?case using d(2) by blast
qed

lemma read_cell_spec:
  assumes st: "st < length (kv_v_cells kv)" and inv: "cells_inv (kv_v_cells kv ! st)" and i: "i < cells_size (kv_v_cells kv ! st)"
    and free: "kc_pos (kv_v_cells kv ! st) ! i = - 1" and p: "0 \<le> pos" "pos \<le> int32_max"
    and ss: "distinct ss" "\<forall>s \<in> set ss. s < kv_n_seq_max kv" and n: "kv_n_seq_max kv \<le> LLAMA_MAX_SEQ"
  shows "\<exists>d. read_cell st i (cell_bytes (pos, ss) @ bs, kv) = Some (Inr True, bs, put_cells st d kv) \<and> cells_inv d \<and>
    cell_put i (pos, 0, set ss) (kv_v_cells kv ! st) d"
proof -
  let ?c = "kv_v_cells kv ! st"
  have len: "i < length (kc_pos ?c)" using i by (simp add: cells_size_def)
  from wpD [OF cells_pos_set_spec [OF inv len free p]] obtain e where
    e: "cells_pos_set i pos ?c = Some e" "cells_inv e" "cells_put i pos 0 {} ?c e" by blast
  have at: "kc_pos e ! i = pos" "kc_shift e ! i = 0" "kc_seq e ! i = {}" "cells_size e = cells_size ?c"
    using e(3) len inv by (auto simp: cells_put_def cells_size_def cells_inv_def)
  let ?kv = "put_cells st e kv"
  have cell: "kv_v_cells ?kv ! st = e" using st by simp
  have "\<exists>d. rd_all (\<lambda>_. read_seq st i) [0..<length ss] (concat (map (\<lambda>s. i32_bytes (int s)) ss) @ bs, ?kv) = Some (Inr True, bs, put_cells st d ?kv) \<and> cells_inv d \<and>
    cells_put i (kc_pos (kv_v_cells ?kv ! st) ! i) (kc_shift (kv_v_cells ?kv ! st) ! i) (kc_seq (kv_v_cells ?kv ! st) ! i \<union> set ss) (kv_v_cells ?kv ! st) d"
    using assms e(2) at by (intro read_seqs; simp only: cell; simp) 
  then obtain d where d: "rd_all (\<lambda>_. read_seq st i) [0..<length ss] (concat (map (\<lambda>s. i32_bytes (int s)) ss) @ bs, ?kv) = Some (Inr True, bs, put_cells st d kv)"
    "cells_inv d" "cells_put i pos 0 (set ss) e d" unfolding cell at by auto
  have "card (set ss) \<le> card {..<LLAMA_MAX_SEQ}" using ss n by (intro card_mono) auto
  then have "length ss < 256 ^ 4" using distinct_card [OF ss(1)] by (simp add: LLAMA_MAX_SEQ_def)
  moreover have "int32_ok pos" using p by (simp add: int32_ok_def int32_min_def)
  ultimately have "read_cell st i (cell_bytes (pos, ss) @ bs, kv) = Some (Inr True, bs, put_cells st d kv)"
    unfolding read_cell_def cell_bytes_def prod.case append_assoc using e(1) d(1)
    by (simp add: reads)
  moreover have "cell_put i (pos, 0, set ss) ?c d" using e(3) d(3) by (simp add: cell_put_def cells_put_def)
  ultimately show ?thesis using d(2) by blast
qed

lemma read_cells_spec:
  assumes "st < length (kv_v_cells kv)" "cells_inv (kv_v_cells kv ! st)" "k + length xs \<le> cells_size (kv_v_cells kv ! st)" "kv_n_seq_max kv \<le> LLAMA_MAX_SEQ"
    and "\<forall>i. k \<le> i \<and> i < k + length xs \<longrightarrow> kc_pos (kv_v_cells kv ! st) ! i = - 1"
    and "\<forall>(pos, ss) \<in> set xs. 0 \<le> pos \<and> pos \<le> int32_max \<and> distinct ss \<and> (\<forall>s \<in> set ss. s < kv_n_seq_max kv)"
  shows "\<exists>d. rd_all (read_cell st) [k..<k + length xs] (concat (map cell_bytes xs) @ bs, kv) = Some (Inr True, bs, put_cells st d kv) \<and> cells_inv d \<and>
    cells_size d = cells_size (kv_v_cells kv ! st) \<and> (\<forall>i < cells_size d. cell_at d i =
      (if k \<le> i \<and> i < k + length xs then (fst (xs ! (i - k)), 0, set (snd (xs ! (i - k)))) else cell_at (kv_v_cells kv ! st) i))"
  using assms
proof (induction xs arbitrary: k kv)
  case Nil
  then show ?case by (intro exI [where x = "kv_v_cells kv ! st"]) (auto simp: put_cells_same)
next
  case (Cons x xs)
  let ?c = "kv_v_cells kv ! st"
  obtain pos ss where x: "x = (pos, ss)" by (cases x)
  have "\<exists>e. read_cell st k (cell_bytes (pos, ss) @ concat (map cell_bytes xs) @ bs, kv) = Some (Inr True, concat (map cell_bytes xs) @ bs, put_cells st e kv) \<and> cells_inv e \<and>
      cell_put k (pos, 0, set ss) ?c e"
    using Cons.prems by (intro read_cell_spec) (auto simp: x)
  then obtain e where e: "read_cell st k (cell_bytes (pos, ss) @ concat (map cell_bytes xs) @ bs, kv) =
      Some (Inr True, concat (map cell_bytes xs) @ bs, put_cells st e kv)" "cells_inv e" "cell_put k (pos, 0, set ss) ?c e" by blast
  note size = cell_put_size [OF e(3)] and at = cell_put_at [OF e(3) Cons.prems(2)]
  let ?kv = "put_cells st e kv"
  have cell: "kv_v_cells ?kv ! st = e" using Cons.prems(1) by simp
  have pos: "kc_pos e ! i = (if i = k then pos else kc_pos ?c ! i)" if "i < cells_size ?c" for i
    using arg_cong [OF at [OF that], of fst] by (auto split: if_splits)
  have "\<exists>d. rd_all (read_cell st) [Suc k..<Suc k + length xs] (concat (map cell_bytes xs) @ bs, ?kv) = Some (Inr True, bs, put_cells st d ?kv) \<and> cells_inv d \<and>
    cells_size d = cells_size (kv_v_cells ?kv ! st) \<and> (\<forall>i < cells_size d. cell_at d i =
      (if Suc k \<le> i \<and> i < Suc k + length xs then (fst (xs ! (i - Suc k)), 0, set (snd (xs ! (i - Suc k)))) else cell_at (kv_v_cells ?kv ! st) i))"
    using Cons.prems e(2) size pos by (intro Cons.IH; simp only: cell; simp)
  then obtain d where d: "rd_all (read_cell st) [Suc k..<Suc k + length xs] (concat (map cell_bytes xs) @ bs, ?kv) = Some (Inr True, bs, put_cells st d kv)"
    "cells_inv d" "cells_size d = cells_size e" "\<forall>i < cells_size d. cell_at d i =
      (if Suc k \<le> i \<and> i < Suc k + length xs then (fst (xs ! (i - Suc k)), 0, set (snd (xs ! (i - Suc k)))) else cell_at e i)" unfolding cell by auto
  have "[k..<k + length (x # xs)] = k # [Suc k..<Suc k + length xs]" by (simp add: upt_conv_Cons del: upt_Suc)
  then have "rd_all (read_cell st) [k..<k + length (x # xs)] (concat (map cell_bytes (x # xs)) @ bs, kv) = Some (Inr True, bs, put_cells st d kv)"
    using e(1) d(1) by (simp only: rd_all.simps) (intro rd_bind_Inr [where x = True]; simp add: x)
  moreover have "cell_at d i = (if k \<le> i \<and> i < k + length (x # xs) then (fst ((x # xs) ! (i - k)), 0, set (snd ((x # xs) ! (i - k)))) else cell_at ?c i)"
    if "i < cells_size d" for i
    using d(3,4) at [of i] size that by (cases "i = k") (auto simp: x nth_Cons' Suc_le_eq)
  ultimately show ?case using d(2,3) size by (intro exI [where x = d]) simp
qed

section \<open>The data of the layers\<close>

definition k_row :: "kv_layer \<Rightarrow> nat" where
  "k_row ly = (case ggml_row_size (ly_k_type ly) (ly_n_embd_k ly) of None \<Rightarrow> 0 | Some w \<Rightarrow> w)"

definition v_row :: "kv_layer \<Rightarrow> nat" where
  "v_row ly = (case ggml_row_size (ly_v_type ly) (ly_n_embd_v ly) of None \<Rightarrow> 0 | Some w \<Rightarrow> w)"

text \<open>The buffers of a layer hold a row for each cell, the row sizes fit their fields, and a transposed value buffer is shorter than
  \<open>2 ^ 32\<close> bytes, so that no offset wraps.\<close>

definition layer_ok :: "bool \<Rightarrow> nat \<Rightarrow> kv_layer \<Rightarrow> bytes \<times> bytes \<Rightarrow> bool" where
  "layer_ok v_trans sz ly b \<longleftrightarrow> ggml_type_code (ly_k_type ly) < 256 ^ 4 \<and> ggml_type_code (ly_v_type ly) < 256 ^ 4 \<and>
     ggml_row_size (ly_k_type ly) (ly_n_embd_k ly) = Some (k_row ly) \<and> k_row ly < 256 ^ 8 \<and> length (fst b) = sz * k_row ly \<and>
     (if v_trans then ly_n_embd_v ly < 256 ^ 4 \<and> length (snd b) = ly_n_embd_v ly * sz * ggml_type_size (ly_v_type ly) \<and> length (snd b) < 2 ^ 32
      else ggml_row_size (ly_v_type ly) (ly_n_embd_v ly) = Some (v_row ly) \<and> v_row ly < 256 ^ 8 \<and> length (snd b) = sz * v_row ly)"

definition data_ok :: "bool \<Rightarrow> nat \<Rightarrow> kv_layer list \<Rightarrow> stream_data \<Rightarrow> bool" where
  "data_ok v_trans sz layers d \<longleftrightarrow> length d = length layers \<and> (\<forall>l < length layers. layer_ok v_trans sz (layers ! l) (d ! l))"

text \<open>The key and the value of a cell.\<close>

definition k_of :: "kv_layer \<Rightarrow> bytes \<times> bytes \<Rightarrow> nat \<Rightarrow> bytes" where
  "k_of ly b i = row_at (k_row ly) (fst b) i"

definition v_of :: "bool \<Rightarrow> nat \<Rightarrow> kv_layer \<Rightarrow> bytes \<times> bytes \<Rightarrow> nat \<Rightarrow> bytes list" where
  "v_of v_trans sz ly b i = (if v_trans then map (\<lambda>j. row_at (ggml_type_size (ly_v_type ly)) (snd b) (j * sz + i)) [0..<ly_n_embd_v ly]
     else [row_at (v_row ly) (snd b) i])"

lemma type_size_fits: "ggml_type_size t < 256 ^ 4"
  by (cases t) (simp_all add: ggml_type_size_def type_traits_def type_traits_iq_def)

subsection \<open>Written\<close>

definition k_bytes :: "kv_layer \<Rightarrow> bytes \<times> bytes \<Rightarrow> nat list \<Rightarrow> bytes" where
  "k_bytes ly b idxs = le_bytes 4 (ggml_type_code (ly_k_type ly)) @ le_bytes 8 (k_row ly) @ concat (map (k_of ly b) idxs)"

definition v_bytes :: "bool \<Rightarrow> nat \<Rightarrow> kv_layer \<Rightarrow> bytes \<times> bytes \<Rightarrow> nat list \<Rightarrow> bytes" where
  "v_bytes v_trans sz ly b idxs = le_bytes 4 (ggml_type_code (ly_v_type ly)) @ (if v_trans
     then le_bytes 4 (ggml_type_size (ly_v_type ly)) @ le_bytes 4 (ly_n_embd_v ly) @
       concat (map (\<lambda>j. concat (map (\<lambda>i. row_at (ggml_type_size (ly_v_type ly)) (snd b) (j * sz + i)) idxs)) [0..<ly_n_embd_v ly])
     else le_bytes 8 (v_row ly) @ concat (map (row_at (v_row ly) (snd b)) idxs))"

lemma mult_le_right: "a \<le> (b::nat) \<Longrightarrow> a * w \<le> b * w"
  by (rule mult_le_mono1)

lemma write_k_layer_eq:
  assumes "layer_ok v_trans sz (layers ! l) (d ! l)" "\<forall>(a, b) \<in> set data. a \<le> b \<and> b \<le> sz"
  shows "write_k_layer layers d data l = Some (k_bytes (layers ! l) (d ! l) (rcells data))"
proof -
  have len: "ggml_row_size (ly_k_type (layers ! l)) (ly_n_embd_k (layers ! l)) = Some (k_row (layers ! l))" "length (fst (d ! l)) = sz * k_row (layers ! l)"
    using assms(1) by (simp_all add: layer_ok_def)
  have "write_all (\<lambda>(a, b). read_at (a * k_row (layers ! l)) ((b - a) * k_row (layers ! l)) (fst (d ! l))) data =
      Some (concat (map (k_of (layers ! l) (d ! l)) (rcells data)))"
    using assms(2) len(2) unfolding k_of_def by (intro write_ranges) (auto intro!: read_rows mult_le_right)
  then show ?thesis using len(1) by (simp add: write_k_layer_def k_bytes_def)
qed

lemma write_v_layer_eq:
  assumes "layer_ok False sz (layers ! l) (d ! l)" "\<forall>(a, b) \<in> set data. a \<le> b \<and> b \<le> sz"
  shows "write_v_layer layers d data l = Some (v_bytes False sz (layers ! l) (d ! l) (rcells data))"
proof -
  have len: "ggml_row_size (ly_v_type (layers ! l)) (ly_n_embd_v (layers ! l)) = Some (v_row (layers ! l))" "length (snd (d ! l)) = sz * v_row (layers ! l)"
    using assms(1) by (simp_all add: layer_ok_def)
  have "write_all (\<lambda>(a, b). read_at (a * v_row (layers ! l)) ((b - a) * v_row (layers ! l)) (snd (d ! l))) data =
      Some (concat (map (row_at (v_row (layers ! l)) (snd (d ! l))) (rcells data)))"
    using assms(2) len(2) by (intro write_ranges) (auto intro!: read_rows mult_le_right)
  then show ?thesis using len(1) by (simp add: write_v_layer_def v_bytes_def)
qed

lemma upt_shift: "map (\<lambda>i. f (n + i)) [a..<b] = map f [n + a..<n + (b::nat)]"
  by (simp add: list_eq_iff_nth_eq add.assoc)

lemma trans_fits: "j < n \<Longrightarrow> b \<le> sz \<Longrightarrow> (j * sz + b) * w \<le> n * sz * (w::nat)"
proof -
  assume "j < n" "b \<le> sz"
  then have "j * sz + b \<le> Suc j * sz" "Suc j * sz \<le> n * sz" by (simp_all add: Suc_le_eq del: mult_Suc) simp
  then show ?thesis by (intro mult_le_right) (rule le_trans)
qed

lemma trans_less: "j < n \<Longrightarrow> b \<le> sz \<Longrightarrow> n * sz * w < 2 ^ 32 \<Longrightarrow> (j * sz + b) * w < (2 ^ 32 :: nat)"
  using trans_fits [of j n b sz w] by (rule le_less_trans)

lemma v_src_offset_eq: "j < n \<Longrightarrow> b \<le> sz \<Longrightarrow> n * sz * w < 2 ^ 32 \<Longrightarrow> v_src_offset b j sz w = (j * sz + b) * w"
  unfolding v_src_offset_def add.commute [of b] by (rule mod_less) (rule trans_less)

lemma v_dst_offset_eq: "j < n \<Longrightarrow> b \<le> sz \<Longrightarrow> n * sz * w < 2 ^ 32 \<Longrightarrow> v_dst_offset b j sz w = (j * sz + b) * w"
proof (cases "w = 0")
  case False
  assume "j < n" "b \<le> sz" "n * sz * w < 2 ^ 32"
  then have "(j * sz + b) * w < 2 ^ 32" by (rule trans_less)
  moreover have "j * sz + b \<le> (j * sz + b) * w" using False by simp
  ultimately have "j * sz + b < 2 ^ 32" by (rule le_less_trans [rotated])
  then show ?thesis unfolding v_dst_offset_def add.commute [of b] by (simp only: mod_less)
qed (simp add: v_dst_offset_def)

text \<open>Beyond the bound the writer saves the wrong bytes: with a million cells and two-byte values, row 2048 is read from the
  offset of row 0.\<close>

theorem v_src_offset_wraps: "v_src_offset first 2048 1048576 2 = v_src_offset first 0 1048576 2"
  by (simp add: v_src_offset_def mod_add_right_eq add_mult_distrib)

theorem v_dst_offset_wraps: "first < 1048576 \<Longrightarrow> v_dst_offset first 4096 1048576 2 = v_dst_offset first 0 1048576 2"
  by (simp add: v_dst_offset_def)

lemma write_v_trans_layer_eq:
  assumes "layer_ok True sz (layers ! l) (d ! l)" "\<forall>(a, b) \<in> set data. a \<le> b \<and> b \<le> sz"
  shows "write_v_trans_layer layers d data sz l = Some (v_bytes True sz (layers ! l) (d ! l) (rcells data))"
proof -
  let ?el = "ggml_type_size (ly_v_type (layers ! l))"
  have len: "length (snd (d ! l)) = ly_n_embd_v (layers ! l) * sz * ?el" "ly_n_embd_v (layers ! l) * sz * ?el < 2 ^ 32" using assms(1) by (simp_all add: layer_ok_def)
  have "write_all (\<lambda>(a, b). read_at (v_src_offset a j sz ?el) ((b - a) * ?el) (snd (d ! l))) data =
      Some (concat (map (\<lambda>i. row_at ?el (snd (d ! l)) (j * sz + i)) (rcells data)))" if j: "j < ly_n_embd_v (layers ! l)" for j
  proof (rule write_ranges)
    fix a b assume "(a, b) \<in> set data"
    with assms(2) have ab: "a \<le> b" "b \<le> sz" by auto
    have "read_at ((j * sz + a) * ?el) ((j * sz + b - (j * sz + a)) * ?el) (snd (d ! l)) =
        Some (concat (map (row_at ?el (snd (d ! l))) [j * sz + a..<j * sz + b]))"
      using ab len(1) trans_fits [OF j ab(2)] by (intro read_rows) simp_all
    moreover have "v_src_offset a j sz ?el = (j * sz + a) * ?el" using ab by (intro v_src_offset_eq [OF j _ len(2)]) simp
    ultimately show "(case (a, b) of (a, b) \<Rightarrow> read_at (v_src_offset a j sz ?el) ((b - a) * ?el) (snd (d ! l))) =
        Some (concat (map (\<lambda>i. row_at ?el (snd (d ! l)) (j * sz + i)) [a..<b]))"
      by (simp add: upt_shift [where f = "row_at ?el (snd (d ! l))"])
  qed
  then have "write_all (\<lambda>j. write_all (\<lambda>(a, b). read_at (v_src_offset a j sz ?el) ((b - a) * ?el) (snd (d ! l))) data) [0..<ly_n_embd_v (layers ! l)] =
      Some (concat (map (\<lambda>j. concat (map (\<lambda>i. row_at ?el (snd (d ! l)) (j * sz + i)) (rcells data))) [0..<ly_n_embd_v (layers ! l)]))"
    by (intro write_all_Some) simp
  then show ?thesis by (simp add: write_v_trans_layer_def v_bytes_def Let_def)
qed

definition data_bytes :: "kv_layer list \<Rightarrow> bool \<Rightarrow> nat \<Rightarrow> stream_data \<Rightarrow> nat list \<Rightarrow> bytes" where
  "data_bytes layers v_trans sz d idxs = le_bytes 4 (if v_trans then 1 else 0) @ le_bytes 4 (length layers) @
     concat (map (\<lambda>l. k_bytes (layers ! l) (d ! l) idxs) [0..<length layers]) @
     concat (map (\<lambda>l. v_bytes v_trans sz (layers ! l) (d ! l) idxs) [0..<length layers])"

lemma write_data_eq:
  assumes "data_ok v_trans (cells_size (kv_v_cells kv ! st)) layers (kv_data kv ! st)" "\<forall>(a, b) \<in> set data. a \<le> b \<and> b \<le> cells_size (kv_v_cells kv ! st)"
  shows "state_write_data layers v_trans st data kv = Some (data_bytes layers v_trans (cells_size (kv_v_cells kv ! st)) (kv_data kv ! st) (rcells data))"
proof -
  let ?sz = "cells_size (kv_v_cells kv ! st)" and ?d = "kv_data kv ! st"
  have ok: "layer_ok v_trans ?sz (layers ! l) (?d ! l)" if "l < length layers" for l using assms(1) that by (simp add: data_ok_def)
  have k: "write_all (write_k_layer layers ?d data) [0..<length layers] =
      Some (concat (map (\<lambda>l. k_bytes (layers ! l) (?d ! l) (rcells data)) [0..<length layers]))"
    using ok assms(2) by (intro write_all_Some write_k_layer_eq) simp_all
  have "(if \<not> v_trans then write_all (write_v_layer layers ?d data) [0..<length layers]
       else write_all (write_v_trans_layer layers ?d data ?sz) [0..<length layers]) =
      Some (concat (map (\<lambda>l. v_bytes v_trans ?sz (layers ! l) (?d ! l) (rcells data)) [0..<length layers]))"
    using ok assms(2) by (cases v_trans) (simp_all, (intro write_all_Some write_v_layer_eq write_v_trans_layer_eq; simp)+)
  with k show ?thesis by (simp add: state_write_data_def data_bytes_def Let_def)
qed

subsection \<open>Read\<close>

definition put_data :: "nat \<Rightarrow> stream_data \<Rightarrow> stream_data kv_cache \<Rightarrow> stream_data kv_cache" where
  "put_data st d kv = kv\<lparr>kv_data := (kv_data kv)[st := d]\<rparr>"

lemma put_data_simps [simp]:
  "kv_v_cells (put_data st d kv) = kv_v_cells kv" "kv_v_heads (put_data st d kv) = kv_v_heads kv"
  "put_data st d' (put_data st d kv) = put_data st d' kv"
  "st < length (kv_data kv) \<Longrightarrow> kv_data (put_data st d kv) ! st = d" "length (kv_data (put_data st d kv)) = length (kv_data kv)"
  by (simp_all add: put_data_def)

lemma put_data_same: "put_data st (kv_data kv ! st) kv = kv"
  by (simp add: put_data_def)

lemma rd_all_append: "rd_all f xs s = Some (Inr True, s') \<Longrightarrow> rd_all f (xs @ ys) s = rd_all f ys s'"
proof (induction xs arbitrary: s)
  case (Cons x xs)
  then show ?case by (auto simp: rd_bind_def split: option.splits sum.splits prod.splits if_splits)
qed simp

lemma rd_all_loop:
  assumes step: "\<And>j kv bs. j < n \<Longrightarrow> I j kv \<Longrightarrow> \<exists>kv'. f j (enc j @ bs, kv) = Some (Inr True, bs, kv') \<and> I (Suc j) kv'" and init: "I 0 kv"
  shows "\<exists>kv'. rd_all f [0..<n] (concat (map enc [0..<n]) @ bs, kv) = Some (Inr True, bs, kv') \<and> I n kv'"
proof -
  have "\<exists>kv'. rd_all f [0..<k] (concat (map enc [0..<k]) @ bs, kv) = Some (Inr True, bs, kv') \<and> I k kv'" if "k \<le> n" for k bs
    using that
  proof (induction k arbitrary: bs)
    case 0
    then show ?case using init by simp
  next
    case (Suc k)
    then have k: "k < n" "k \<le> n" by simp_all
    obtain kv1 where kv1: "rd_all f [0..<k] (concat (map enc [0..<k]) @ (enc k @ bs), kv) = Some (Inr True, enc k @ bs, kv1)" "I k kv1"
      using Suc.IH [OF k(2)] by blast
    from step [OF k(1) kv1(2)] obtain kv2 where kv2: "f k (enc k @ bs, kv1) = Some (Inr True, bs, kv2)" "I (Suc k) kv2" by blast
    have "rd_all f ([0..<k] @ [k]) (concat (map enc [0..<k]) @ (enc k @ bs), kv) = Some (Inr True, bs, kv2)"
      unfolding rd_all_append [OF kv1(1)] using kv2(1) by (simp add: rd_bind_def)
    then show ?case using kv2(2) by auto
  qed
  from this [of n] show ?thesis by simp
qed

text \<open>A loop over the layers that changes the buffers of each layer in turn.\<close>

lemma layer_loop:
  assumes step: "\<And>l d bs. l < n \<Longrightarrow> length d = n \<Longrightarrow> Q l (d ! l) \<Longrightarrow>
      \<exists>x. f l (enc l @ bs, put_data st d kv) = Some (Inr True, bs, put_data st (d[l := x]) kv) \<and> R l (d ! l) x"
    and d: "length d = n" "\<forall>l < n. Q l (d ! l)"
  shows "\<exists>d'. rd_all f [0..<n] (concat (map enc [0..<n]) @ bs, put_data st d kv) = Some (Inr True, bs, put_data st d' kv) \<and>
    length d' = n \<and> (\<forall>l < n. R l (d ! l) (d' ! l))"
proof -
  let ?I = "\<lambda>m kv'. \<exists>d'. kv' = put_data st d' kv \<and> length d' = n \<and> (\<forall>l < n. if l < m then R l (d ! l) (d' ! l) else d' ! l = d ! l)"
  have "\<exists>kv'. rd_all f [0..<n] (concat (map enc [0..<n]) @ bs, put_data st d kv) = Some (Inr True, bs, kv') \<and> ?I n kv'"
  proof (rule rd_all_loop [where I = ?I])
    fix j kv1 bs assume j: "j < n" and "?I j kv1"
    then obtain d1 where d1: "kv1 = put_data st d1 kv" "length d1 = n" "\<forall>l < n. if l < j then R l (d ! l) (d1 ! l) else d1 ! l = d ! l" by blast
    then have same: "d1 ! j = d ! j" using j by simp
    from step [OF j d1(2)] d(2) j same obtain x where
      x: "f j (enc j @ bs, put_data st d1 kv) = Some (Inr True, bs, put_data st (d1[j := x]) kv)" "R j (d ! j) x" by fastforce
    have "?I (Suc j) (put_data st (d1[j := x]) kv)"
      using d1(2,3) x(2) j by (intro exI [where x = "d1[j := x]"]) (auto simp: nth_list_update less_Suc_eq)
    with x(1) d1(1) show "\<exists>kv'. f j (enc j @ bs, kv1) = Some (Inr True, bs, kv') \<and> ?I (Suc j) kv'" by blast
  qed (use d in auto)
  then show ?thesis by force
qed

text \<open>Rows \<open>h\<close> to \<open>h + length rows\<close> of a buffer are replaced.\<close>

definition rows_put :: "nat \<Rightarrow> nat \<Rightarrow> bytes list \<Rightarrow> bytes \<Rightarrow> bytes \<Rightarrow> bool" where
  "rows_put w h rows b b' \<longleftrightarrow> length b' = length b \<and> (\<forall>q. row_at w b' q = (if h \<le> q \<and> q < h + length rows then rows ! (q - h) else row_at w b q))"

lemma set_k_rows:
  assumes st: "st < length (kv_data kv)" and "\<forall>r \<in> set rows. length r = w" "(h + length rows) * w \<le> length (fst (d ! l))"
  shows "\<exists>k'. set_k st l (h * w) (concat rows) (put_data st d kv) = Some (put_data st (d[l := (k', snd (d ! l))]) kv) \<and> rows_put w h rows (fst (d ! l)) k'"
  using write_rows [OF assms(2,3)] st by (auto simp: set_k_def rows_put_def Let_def) (auto simp: put_data_def)

lemma set_v_rows:
  assumes st: "st < length (kv_data kv)" and "\<forall>r \<in> set rows. length r = w" "(h + length rows) * w \<le> length (snd (d ! l))"
  shows "\<exists>v'. set_v st l (h * w) (concat rows) (put_data st d kv) = Some (put_data st (d[l := (fst (d ! l), v')]) kv) \<and> rows_put w h rows (snd (d ! l)) v'"
  using write_rows [OF assms(2,3)] st by (auto simp: set_v_def rows_put_def Let_def) (auto simp: put_data_def)

lemma rows_length:
  assumes "length b = sz * w" "\<forall>i \<in> set idxs. i < sz"
  shows "\<forall>r \<in> set (map (row_at w b) idxs). length r = w"
proof -
  have "(i + 1) * w \<le> length b" if "i \<in> set idxs" for i
    unfolding assms(1) using assms(2) that by (intro mult_le_right) auto
  then show ?thesis by (auto intro!: row_at_length)
qed

lemma concat_map_length: "\<forall>r \<in> set (map f idxs). length r = w \<Longrightarrow> length (concat (map f idxs)) = length idxs * w"
  using concat_rows_length [of "map f idxs" w] by simp

lemma read_k_layer_spec:
  assumes src: "layer_ok v_trans sz (layers ! l) b" "\<forall>i \<in> set idxs. i < sz" and st: "st < length (kv_data kv)"
    and d: "layer_ok v_trans sz (layers ! l) (d ! l)" and h: "kv_v_heads kv ! st = h" "h + length idxs \<le> sz"
  shows "\<exists>x. read_k_layer layers st (length idxs) l (k_bytes (layers ! l) b idxs @ bs, put_data st d kv) = Some (Inr True, bs, put_data st (d[l := x]) kv) \<and>
    snd x = snd (d ! l) \<and> rows_put (k_row (layers ! l)) h (map (k_of (layers ! l) b) idxs) (fst (d ! l)) (fst x)"
proof -
  let ?w = "k_row (layers ! l)" and ?rows = "map (k_of (layers ! l) b) idxs"
  have rows: "\<forall>r \<in> set ?rows. length r = ?w"
    using rows_length [of "fst b" sz ?w idxs] src by (simp add: layer_ok_def k_of_def)
  have "(h + length ?rows) * ?w \<le> length (fst (d ! l))" using d h(2) by (simp add: layer_ok_def mult_le_right)
  from set_k_rows [OF st rows this] obtain k' where
    k': "set_k st l (h * ?w) (concat ?rows) (put_data st d kv) = Some (put_data st (d[l := (k', snd (d ! l))]) kv)" "rows_put ?w h ?rows (fst (d ! l)) k'" by blast
  have "read_k_layer layers st (length idxs) l (k_bytes (layers ! l) b idxs @ bs, put_data st d kv) =
      Some (Inr True, bs, put_data st (d[l := (k', snd (d ! l))]) kv)"
    using src(1) k'(1) h(1) concat_map_length [OF rows] by (simp add: read_k_layer_def k_bytes_def layer_ok_def reads)
  with k'(2) show ?thesis by (intro exI [where x = "(k', snd (d ! l))"]) simp
qed

lemma read_v_layer_spec:
  assumes src: "layer_ok False sz (layers ! l) b" "\<forall>i \<in> set idxs. i < sz" and st: "st < length (kv_data kv)"
    and d: "layer_ok False sz (layers ! l) (d ! l)" and h: "kv_v_heads kv ! st = h" "h + length idxs \<le> sz"
  shows "\<exists>x. read_v_layer layers st (length idxs) l (v_bytes False sz (layers ! l) b idxs @ bs, put_data st d kv) = Some (Inr True, bs, put_data st (d[l := x]) kv) \<and>
    fst x = fst (d ! l) \<and> rows_put (v_row (layers ! l)) h (map (row_at (v_row (layers ! l)) (snd b)) idxs) (snd (d ! l)) (snd x)"
proof -
  let ?w = "v_row (layers ! l)" and ?rows = "map (row_at (v_row (layers ! l)) (snd b)) idxs"
  have rows: "\<forall>r \<in> set ?rows. length r = ?w"
    using rows_length [of "snd b" sz ?w idxs] src by (simp add: layer_ok_def)
  have "(h + length ?rows) * ?w \<le> length (snd (d ! l))" using d h(2) by (simp add: layer_ok_def mult_le_right)
  from set_v_rows [OF st rows this] obtain v' where
    v': "set_v st l (h * ?w) (concat ?rows) (put_data st d kv) = Some (put_data st (d[l := (fst (d ! l), v')]) kv)" "rows_put ?w h ?rows (snd (d ! l)) v'" by blast
  have "read_v_layer layers st (length idxs) l (v_bytes False sz (layers ! l) b idxs @ bs, put_data st d kv) =
      Some (Inr True, bs, put_data st (d[l := (fst (d ! l), v')]) kv)"
    using src(1) v'(1) h(1) concat_map_length [OF rows] by (simp add: read_v_layer_def v_bytes_def layer_ok_def reads)
  with v'(2) show ?thesis by (intro exI [where x = "(fst (d ! l), v')"]) simp
qed

lemma trans_index:
  assumes "q < sz" "h + n \<le> (sz::nat)"
  shows "(j * sz + h \<le> j' * sz + q \<and> j' * sz + q < j * sz + h + n) = (j' = j \<and> h \<le> q \<and> q < h + n)"
proof (cases j' j rule: linorder_cases)
  case less
  then have "Suc j' * sz \<le> j * sz" by (intro mult_le_right) simp
  with assms less show ?thesis by simp
next
  case greater
  then have "Suc j * sz \<le> j' * sz" by (intro mult_le_right) simp
  with assms greater show ?thesis by simp
qed (use assms in auto)

definition v_put :: "bool \<Rightarrow> nat \<Rightarrow> nat \<Rightarrow> nat list \<Rightarrow> kv_layer \<Rightarrow> bytes \<times> bytes \<Rightarrow> bytes \<times> bytes \<Rightarrow> bytes \<times> bytes \<Rightarrow> bool" where
  "v_put v_trans sz h idxs ly b x x' \<longleftrightarrow> fst x' = fst x \<and> length (snd x') = length (snd x) \<and> (\<forall>q < sz. v_of v_trans sz ly x' q =
     (if h \<le> q \<and> q < h + length idxs then v_of v_trans sz ly b (idxs ! (q - h)) else v_of v_trans sz ly x q))"

lemma read_v_trans_layer_spec:
  assumes src: "layer_ok True sz (layers ! l) b" "\<forall>i \<in> set idxs. i < sz" and st: "st < length (kv_data kv)" and l: "l < length d"
    and d: "layer_ok True sz (layers ! l) (d ! l)" and h: "kv_v_heads kv ! st = h" "h + length idxs \<le> sz" and sz: "cells_size (kv_v_cells kv ! st) = sz"
  shows "\<exists>x. read_v_trans_layer layers st (length idxs) l (v_bytes True sz (layers ! l) b idxs @ bs, put_data st d kv) = Some (Inr True, bs, put_data st (d[l := x]) kv) \<and>
    v_put True sz h idxs (layers ! l) b (d ! l) x"
proof -
  let ?w = "ggml_type_size (ly_v_type (layers ! l))" and ?n = "ly_n_embd_v (layers ! l)" and ?v = "snd (d ! l)"
  let ?rows = "\<lambda>j. map (\<lambda>i. row_at ?w (snd b) (j * sz + i)) idxs"
  let ?body = "\<lambda>j. rd_bind (io_read (length idxs * ?w)) (\<lambda>xs. rd_bind (rd_kv (\<lambda>kv. set_v st l (v_dst_offset (kv_v_heads kv ! st) j (cells_size (kv_v_cells kv ! st)) ?w) xs kv))
      (\<lambda>_. rd_ret True))"
  let ?I = "\<lambda>m kv'. \<exists>v'. kv' = put_data st (d[l := (fst (d ! l), v')]) kv \<and> length v' = length ?v \<and> (\<forall>j < ?n. \<forall>q < sz. row_at ?w v' (j * sz + q) =
      (if j < m \<and> h \<le> q \<and> q < h + length idxs then row_at ?w (snd b) (j * sz + idxs ! (q - h)) else row_at ?w ?v (j * sz + q)))"
  have lens: "length (snd b) = ?n * sz * ?w" "length ?v = ?n * sz * ?w" "?n < 256 ^ 4" "ggml_type_code (ly_v_type (layers ! l)) < 256 ^ 4" "?n * sz * ?w < 2 ^ 32"
    using src(1) d by (simp_all add: layer_ok_def)
  have "\<exists>kv'. rd_all ?body [0..<?n] (concat (map (\<lambda>j. concat (?rows j)) [0..<?n]) @ bs, put_data st d kv) = Some (Inr True, bs, kv') \<and> ?I ?n kv'"
  proof (rule rd_all_loop [where I = ?I])
    fix j kv1 bs assume j: "j < ?n" and "?I j kv1"
    then obtain v1 where v1: "kv1 = put_data st (d[l := (fst (d ! l), v1)]) kv" "length v1 = length ?v" "\<forall>j' < ?n. \<forall>q < sz. row_at ?w v1 (j' * sz + q) =
      (if j' < j \<and> h \<le> q \<and> q < h + length idxs then row_at ?w (snd b) (j' * sz + idxs ! (q - h)) else row_at ?w ?v (j' * sz + q))" by blast
    let ?d = "d[l := (fst (d ! l), v1)]"
    have at: "?d ! l = (fst (d ! l), v1)" using l by simp
    have rows: "\<forall>r \<in> set (?rows j). length r = ?w"
    proof -
      have "(j * sz + i + 1) * ?w \<le> length (snd b)" if "i \<in> set idxs" for i
        unfolding lens(1) add.assoc using src(2) that by (intro trans_fits [OF j]) auto
      then show ?thesis by (auto intro!: row_at_length)
    qed
    have "(j * sz + h + length (?rows j)) * ?w \<le> length (snd (?d ! l))"
      unfolding at snd_conv v1(2) lens(2) add.assoc using h(2) by (intro trans_fits [OF j]) simp
    from set_v_rows [OF st rows this] obtain v2 where
      v2: "set_v st l ((j * sz + h) * ?w) (concat (?rows j)) (put_data st ?d kv) = Some (put_data st (d[l := (fst (d ! l), v2)]) kv)"
        "rows_put ?w (j * sz + h) (?rows j) v1 v2" unfolding at by auto
    have "?body j (concat (?rows j) @ bs, kv1) = Some (Inr True, bs, put_data st (d[l := (fst (d ! l), v2)]) kv)"
      using v2(1) h(1) sz concat_map_length [OF rows] v_dst_offset_eq [OF j _ lens(5), of h] h(2) by (simp add: reads v1(1))
    moreover have "?I (Suc j) (put_data st (d[l := (fst (d ! l), v2)]) kv)"
    proof (intro exI [where x = v2] conjI allI impI)
      show "length v2 = length ?v" using v2(2) v1(2) by (simp add: rows_put_def)
      fix j' q assume j': "j' < ?n" "q < sz"
      have "row_at ?w v2 (j' * sz + q) = (if j' = j \<and> h \<le> q \<and> q < h + length idxs then ?rows j ! (j' * sz + q - (j * sz + h)) else row_at ?w v1 (j' * sz + q))"
        using v2(2) trans_index [OF j'(2) h(2), of j j'] unfolding rows_put_def by simp
      then show "row_at ?w v2 (j' * sz + q) = (if j' < Suc j \<and> h \<le> q \<and> q < h + length idxs then row_at ?w (snd b) (j' * sz + idxs ! (q - h)) else row_at ?w ?v (j' * sz + q))"
        using v1(3) j' by (cases "j' = j") (auto simp: less_Suc_eq)
    qed simp
    ultimately show "\<exists>kv'. ?body j (concat (?rows j) @ bs, kv1) = Some (Inr True, bs, kv') \<and> ?I (Suc j) kv'" by blast
  next
    show "?I 0 (put_data st d kv)" by (intro exI [where x = ?v]) simp
  qed
  then obtain v' where v': "rd_all ?body [0..<?n] (concat (map (\<lambda>j. concat (?rows j)) [0..<?n]) @ bs, put_data st d kv) =
      Some (Inr True, bs, put_data st (d[l := (fst (d ! l), v')]) kv)" "length v' = length ?v" "\<forall>j < ?n. \<forall>q < sz. row_at ?w v' (j * sz + q) =
      (if j < ?n \<and> h \<le> q \<and> q < h + length idxs then row_at ?w (snd b) (j * sz + idxs ! (q - h)) else row_at ?w ?v (j * sz + q))" by blast
  have "read_v_trans_layer layers st (length idxs) l (v_bytes True sz (layers ! l) b idxs @ bs, put_data st d kv) =
      Some (Inr True, bs, put_data st (d[l := (fst (d ! l), v')]) kv)"
    using v'(1) lens(3,4) type_size_fits [of "ly_v_type (layers ! l)"] by (simp add: read_v_trans_layer_def v_bytes_def reads Let_def)
  moreover have "v_put True sz h idxs (layers ! l) b (d ! l) (fst (d ! l), v')"
    using v'(2,3) by (auto simp: v_put_def v_of_def)
  ultimately show ?thesis by blast
qed

definition k_put :: "nat \<Rightarrow> nat \<Rightarrow> nat list \<Rightarrow> kv_layer \<Rightarrow> bytes \<times> bytes \<Rightarrow> bytes \<times> bytes \<Rightarrow> bytes \<times> bytes \<Rightarrow> bool" where
  "k_put sz h idxs ly b x x' \<longleftrightarrow> snd x' = snd x \<and> length (fst x') = length (fst x) \<and>
     (\<forall>q < sz. k_of ly x' q = (if h \<le> q \<and> q < h + length idxs then k_of ly b (idxs ! (q - h)) else k_of ly x q))"

lemma k_put_ok: "k_put sz h idxs ly b x x' \<Longrightarrow> layer_ok v_trans sz ly x' = layer_ok v_trans sz ly x"
  by (simp add: k_put_def layer_ok_def)

lemma v_put_ok: "v_put v_trans sz h idxs ly b x x' \<Longrightarrow> layer_ok v_trans sz ly x' = layer_ok v_trans sz ly x"
  by (simp add: v_put_def layer_ok_def)

text \<open>The data of the cells \<open>idxs\<close> of the saved stream becomes the data of the cells from \<open>h\<close> on.\<close>

definition data_put :: "bool \<Rightarrow> nat \<Rightarrow> nat \<Rightarrow> nat list \<Rightarrow> kv_layer list \<Rightarrow> stream_data \<Rightarrow> stream_data \<Rightarrow> stream_data \<Rightarrow> bool" where
  "data_put v_trans sz h idxs layers b d d' \<longleftrightarrow> (\<forall>l < length layers. \<forall>q < sz.
     (k_of (layers ! l) (d' ! l) q, v_of v_trans sz (layers ! l) (d' ! l) q) =
     (if h \<le> q \<and> q < h + length idxs then (k_of (layers ! l) (b ! l) (idxs ! (q - h)), v_of v_trans sz (layers ! l) (b ! l) (idxs ! (q - h)))
      else (k_of (layers ! l) (d ! l) q, v_of v_trans sz (layers ! l) (d ! l) q)))"

lemma state_read_data_spec:
  assumes src: "data_ok v_trans sz layers b" "\<forall>i \<in> set idxs. i < sz" and st: "st < length (kv_data kv)"
    and d: "data_ok v_trans sz layers (kv_data kv ! st)" and h: "kv_v_heads kv ! st = h" "h + length idxs \<le> sz" and sz: "cells_size (kv_v_cells kv ! st) = sz"
    and nl: "length layers < 256 ^ 4"
  shows "\<exists>d'. state_read_data layers v_trans st (length idxs) (data_bytes layers v_trans sz b idxs @ bs, kv) = Some (Inr True, bs, put_data st d' kv) \<and>
    data_ok v_trans sz layers d' \<and> data_put v_trans sz h idxs layers b (kv_data kv ! st) d'"
proof -
  let ?n = "length layers" and ?d = "kv_data kv ! st"
  let ?ok = "\<lambda>l. layer_ok v_trans sz (layers ! l)"
  let ?vs = "concat (map (\<lambda>l. v_bytes v_trans sz (layers ! l) (b ! l) idxs) [0..<?n])"
  have b: "?ok l (b ! l)" if "l < ?n" for l using src(1) that by (simp add: data_ok_def)
  have "\<exists>d1. rd_all (read_k_layer layers st (length idxs)) [0..<?n] (concat (map (\<lambda>l. k_bytes (layers ! l) (b ! l) idxs) [0..<?n]) @ (?vs @ bs), put_data st ?d kv) =
      Some (Inr True, ?vs @ bs, put_data st d1 kv) \<and> length d1 = ?n \<and> (\<forall>l < ?n. k_put sz h idxs (layers ! l) (b ! l) (?d ! l) (d1 ! l))"
  proof (rule layer_loop [where Q = ?ok])
    fix l bs and d :: stream_data assume l: "l < ?n" "?ok l (d ! l)"
    from read_k_layer_spec [OF b [OF l(1)] src(2) st l(2) h]
    show "\<exists>x. read_k_layer layers st (length idxs) l (k_bytes (layers ! l) (b ! l) idxs @ bs, put_data st d kv) = Some (Inr True, bs, put_data st (d[l := x]) kv) \<and>
        k_put sz h idxs (layers ! l) (b ! l) (d ! l) x"
      by (force simp: rows_put_def k_put_def k_of_def)
  qed (use d in \<open>simp_all add: data_ok_def\<close>)
  then obtain d1 where d1: "rd_all (read_k_layer layers st (length idxs)) [0..<?n] (concat (map (\<lambda>l. k_bytes (layers ! l) (b ! l) idxs) [0..<?n]) @ (?vs @ bs), kv) =
      Some (Inr True, ?vs @ bs, put_data st d1 kv)" "length d1 = ?n" "\<forall>l < ?n. k_put sz h idxs (layers ! l) (b ! l) (?d ! l) (d1 ! l)"
    unfolding put_data_same by blast
  have ok1: "\<forall>l < ?n. ?ok l (d1 ! l)"
  proof (intro allI impI)
    fix l assume l: "l < ?n"
    with d1(3) have "k_put sz h idxs (layers ! l) (b ! l) (?d ! l) (d1 ! l)" by simp
    from k_put_ok [OF this] d l show "?ok l (d1 ! l)" by (simp add: data_ok_def)
  qed
  let ?read = "if \<not> v_trans then read_v_layer layers st (length idxs) else read_v_trans_layer layers st (length idxs)"
  have "\<exists>d2. rd_all ?read [0..<?n] (?vs @ bs, put_data st d1 kv) = Some (Inr True, bs, put_data st d2 kv) \<and> length d2 = ?n \<and>
      (\<forall>l < ?n. v_put v_trans sz h idxs (layers ! l) (b ! l) (d1 ! l) (d2 ! l))"
  proof (rule layer_loop [where Q = ?ok])
    fix l bs and d :: stream_data assume l: "l < ?n" "length d = ?n" "?ok l (d ! l)"
    show "\<exists>x. ?read l (v_bytes v_trans sz (layers ! l) (b ! l) idxs @ bs, put_data st d kv) = Some (Inr True, bs, put_data st (d[l := x]) kv) \<and>
        v_put v_trans sz h idxs (layers ! l) (b ! l) (d ! l) x"
    proof (cases v_trans)
      case True
      with read_v_trans_layer_spec [OF _ src(2) st _ _ h sz, of layers l "b ! l" d bs] b [OF l(1)] l show ?thesis by simp
    next
      case False
      with read_v_layer_spec [OF _ src(2) st _ h, of layers l "b ! l" d bs] b [OF l(1)] l show ?thesis
        by (force simp: rows_put_def v_put_def v_of_def)
    qed
  qed (use d1(2) ok1 in simp_all)
  then obtain d2 where d2: "rd_all ?read [0..<?n] (?vs @ bs, put_data st d1 kv) = Some (Inr True, bs, put_data st d2 kv)" "length d2 = ?n"
      "\<forall>l < ?n. v_put v_trans sz h idxs (layers ! l) (b ! l) (d1 ! l) (d2 ! l)" by blast
  have "rd_bind (rd_all (read_k_layer layers st (length idxs)) [0..<?n]) (\<lambda>ok. if \<not> ok then rd_ret False
         else if \<not> v_trans then rd_all (read_v_layer layers st (length idxs)) [0..<?n]
         else rd_all (read_v_trans_layer layers st (length idxs)) [0..<?n])
      (concat (map (\<lambda>l. k_bytes (layers ! l) (b ! l) idxs) [0..<?n]) @ (?vs @ bs), kv) = Some (Inr True, bs, put_data st d2 kv)"
    by (rule rd_bind_Inr, rule d1(1)) (use d2(1) in \<open>cases v_trans; simp\<close>)
  then have "state_read_data layers v_trans st (length idxs) (data_bytes layers v_trans sz b idxs @ bs, kv) = Some (Inr True, bs, put_data st d2 kv)"
    using nl h(2) sz by (simp add: state_read_data_def data_bytes_def reads)
  moreover have "data_ok v_trans sz layers d2"
    unfolding data_ok_def
  proof (intro conjI allI impI)
    fix l assume l: "l < ?n"
    with d2(3) have "v_put v_trans sz h idxs (layers ! l) (b ! l) (d1 ! l) (d2 ! l)" by simp
    from v_put_ok [OF this] ok1 l show "?ok l (d2 ! l)" by simp
  qed (rule d2(2))
  moreover have "data_put v_trans sz h idxs layers b ?d d2"
    using d1(3) d2(3) by (simp add: data_put_def k_put_def v_put_def k_of_def v_of_def)
  ultimately show ?thesis by blast
qed

section \<open>Saving and restoring a whole cache\<close>

type_synonym entry = "int \<times> nat set \<times> (bytes \<times> bytes list) list"

text \<open>What the cache remembers of a token: its position, its sequences and, for each layer, its key and its value.\<close>

definition cell_entry :: "kv_layer list \<Rightarrow> bool \<Rightarrow> stream_data kv_cache \<Rightarrow> nat \<Rightarrow> nat \<Rightarrow> entry" where
  "cell_entry layers v_trans kv st i = (kc_pos (kv_v_cells kv ! st) ! i, kc_seq (kv_v_cells kv ! st) ! i,
     map (\<lambda>l. (k_of (layers ! l) (kv_data kv ! st ! l) i, v_of v_trans (kv_get_size kv) (layers ! l) (kv_data kv ! st ! l) i)) [0..<length layers])"

definition cache_entries :: "kv_layer list \<Rightarrow> bool \<Rightarrow> stream_data kv_cache \<Rightarrow> nat \<Rightarrow> entry list" where
  "cache_entries layers v_trans kv st = map (cell_entry layers v_trans kv st) (saved_cells (- 1) (kv_v_cells kv ! st))"

text \<open>A cache whose buffers fit its layers and whose sequences are below \<^verbatim>\<open>n_seq_max\<close>.\<close>

definition cache_ok :: "kv_layer list \<Rightarrow> bool \<Rightarrow> stream_data kv_cache \<Rightarrow> bool" where
  "cache_ok layers v_trans kv \<longleftrightarrow> kv_inv kv \<and> kv_n_seq_max kv \<le> LLAMA_MAX_SEQ \<and> kv_get_size kv < 256 ^ 4 \<and> length layers < 256 ^ 4 \<and>
     (\<forall>st < kv_n_stream kv. data_ok v_trans (kv_get_size kv) layers (kv_data kv ! st) \<and>
       (\<forall>i < kv_get_size kv. kc_seq (kv_v_cells kv ! st) ! i \<subseteq> {..<kv_n_seq_max kv}))"

definition same_config :: "'d kv_cache \<Rightarrow> 'd kv_cache \<Rightarrow> bool" where
  "same_config kv kv' \<longleftrightarrow> kv_n_stream kv' = kv_n_stream kv \<and> kv_get_size kv' = kv_get_size kv \<and> kv_n_seq_max kv' = kv_n_seq_max kv"

lemma same_config_trans: "same_config a b \<Longrightarrow> same_config b c \<Longrightarrow> same_config a c"
  by (simp add: same_config_def)

definition stream_bytes :: "kv_layer list \<Rightarrow> bool \<Rightarrow> stream_data kv_cache \<Rightarrow> nat \<Rightarrow> bytes" where
  "stream_bytes layers v_trans kv st = (let c = kv_v_cells kv ! st; idxs = saved_cells (- 1) c in
     if idxs = [] then le_bytes 4 0
     else le_bytes 4 (length idxs) @ concat (map cell_bytes (map (saved_cell (- 1) (kv_n_seq_max kv) c) idxs)) @
       data_bytes layers v_trans (kv_get_size kv) (kv_data kv ! st) idxs)"

lemma cache_okD:
  assumes "cache_ok layers v_trans kv" "st < kv_n_stream kv"
  shows "kv_inv kv" "cells_inv (kv_v_cells kv ! st)" "cells_size (kv_v_cells kv ! st) = kv_get_size kv" "kv_n_seq_max kv \<le> LLAMA_MAX_SEQ"
    "data_ok v_trans (kv_get_size kv) layers (kv_data kv ! st)" "kv_get_size kv < 256 ^ 4" "length layers < 256 ^ 4"
    "i < kv_get_size kv \<Longrightarrow> kc_seq (kv_v_cells kv ! st) ! i \<subseteq> {..<kv_n_seq_max kv}" "st < length (kv_v_cells kv)" "st < length (kv_data kv)" "st < length (kv_v_heads kv)"
  using assms kv_invD [of kv st] by (auto simp: cache_ok_def kv_inv_def)

lemma write_stream_eq:
  assumes ok: "cache_ok layers v_trans kv" and st: "st < kv_n_stream kv"
  shows "do { (cell_count, data) \<leftarrow> cell_ranges (- 1) (kv_v_cells kv ! st);
         if cell_count = 0 then Some (le_bytes 4 0)
         else do {
           meta \<leftarrow> state_write_meta st data (- 1) kv;
           d \<leftarrow> state_write_data layers v_trans st data kv;
           Some (le_bytes 4 cell_count @ meta @ d)
         } } = Some (stream_bytes layers v_trans kv st)"
proof -
  note D = cache_okD [OF ok st]
  let ?c = "kv_v_cells kv ! st"
  have "\<exists>data. cell_ranges (- 1) ?c = Some (length (filter (\<lambda>i. wanted (- 1) (cell_at ?c i)) [0..<cells_size ?c]), data) \<and>
      rcells data = filter (\<lambda>i. wanted (- 1) (cell_at ?c i)) [0..<cells_size ?c] \<and> (\<forall>(a, b) \<in> set data. a \<le> b \<and> b \<le> cells_size ?c)"
    using D(2) by (intro cell_ranges_spec cell_wanted_eq) simp_all
  then obtain data where data: "cell_ranges (- 1) ?c = Some (length (saved_cells (- 1) ?c), data)" "rcells data = saved_cells (- 1) ?c"
      "\<forall>(a, b) \<in> set data. a \<le> b \<and> b \<le> cells_size ?c" unfolding saved_cells_def by blast
  have "state_write_data layers v_trans st data kv = Some (data_bytes layers v_trans (kv_get_size kv) (kv_data kv ! st) (saved_cells (- 1) ?c))"
    using write_data_eq [of v_trans kv st layers data] D(3,5) data(2,3) by simp
  with data(1) write_meta_eq [OF D(2,4) data(2)] show ?thesis by (simp add: stream_bytes_def Let_def comp_def)
qed

lemma state_write_eq:
  assumes "cache_ok layers v_trans kv"
  shows "state_write layers v_trans (- 1) kv = Some (le_bytes 4 (kv_n_stream kv) @ concat (map (stream_bytes layers v_trans kv) [0..<kv_n_stream kv]))"
  unfolding state_write_def using write_stream_eq [OF assms] by (subst write_all_Some) simp_all

lemma kv_clear_fields [simp]:
  "kv_v_cells (kv_clear zero data kv) = map cells_reset (kv_v_cells kv)" "kv_n_stream (kv_clear zero data kv) = kv_n_stream kv"
  "kv_n_seq_max (kv_clear zero data kv) = kv_n_seq_max kv" "kv_data (kv_clear zero True kv) = map (\<lambda>_. zero) (kv_data kv)"
  "kv_seq_to_stream (kv_clear zero data kv) = kv_seq_to_stream kv" "kv_sc_info (kv_clear zero data kv) = kv_sc_info kv"
  "kv_v_heads (kv_clear zero data kv) = map (\<lambda>_. 0) (kv_v_heads kv)" "length (kv_data (kv_clear zero data kv)) = length (kv_data kv)"
  by (simp_all add: kv_clear_def Let_def)

lemma kv_clear_size [simp]: "kv_inv kv \<Longrightarrow> kv_get_size (kv_clear zero data kv) = kv_get_size kv"
proof -
  assume inv: "kv_inv kv"
  have "kv_seq_to_stream kv ! 0 < length (kv_v_cells kv)" using inv max_seq_small(1) by (auto simp: kv_inv_def)
  then show ?thesis by (simp add: kv_get_size_def)
qed

lemma kv_clear_free:
  assumes "kv_inv kv" "st < kv_n_stream kv" "i < kv_get_size kv"
  shows "cell_at (kv_v_cells (kv_clear zero data kv) ! st) i = cell_free"
  using kv_invD [OF assms(1,2)] assms(3) by (simp add: reset_free)

lemma kv_clear_inv:
  assumes "kv_inv kv"
  shows "kv_inv (kv_clear zero data kv)"
proof -
  let ?kv = "kv_clear zero data kv"
  have "stream_inv ?kv st" if st: "st < kv_n_stream kv" for st
    unfolding stream_inv_def kv_clear_size [OF assms]
    using kv_invD [OF assms st] kv_clear_free [OF assms st] by (auto simp: reset_inv)
  then show ?thesis using assms unfolding kv_inv_def by simp
qed

lemma kv_inv_put_data: "kv_inv (put_data st d kv) = kv_inv kv"
proof -
  have "stream_inv (put_data st d kv) s = stream_inv kv s" for s
    by (simp add: stream_inv_def put_data_def kv_get_size_def)
  then show ?thesis unfolding kv_inv_def by (simp add: put_data_def)
qed

lemma put_data_config [simp]: "kv_n_stream (put_data st d kv) = kv_n_stream kv" "kv_get_size (put_data st d kv) = kv_get_size kv"
  "kv_n_seq_max (put_data st d kv) = kv_n_seq_max kv" "kv_n_seq_max (put_head st h kv) = kv_n_seq_max kv"
  "kv_data (put_head st h kv) = kv_data kv" "kv_data (put_cells st c kv) = kv_data kv"
  by (simp_all add: put_data_def put_head_def put_cells_def kv_get_size_def)

lemma saved_prefix: "n \<le> cells_size c \<Longrightarrow> \<forall>i < cells_size c. (kc_pos c ! i \<noteq> - 1) = (i < n) \<Longrightarrow> saved_cells (- 1) c = [0..<n]"
proof -
  assume n: "n \<le> cells_size c" and P: "\<forall>i < cells_size c. (kc_pos c ! i \<noteq> - 1) = (i < n)"
  have "saved_cells (- 1) c = filter (\<lambda>i. i < n) [0..<cells_size c]"
    unfolding saved_cells_def using P by (intro filter_cong) (auto simp: wanted_def cell_at_def)
  also have "\<dots> = [0..<n]" using n upt_add_eq_append [of 0 n "cells_size c - n"] by simp
  finally show ?thesis .
qed

lemma meta_all_spec:
  assumes ok: "cache_ok layers v_trans kv" and tg: "cache_ok layers v_trans kv1" and same: "same_config kv kv1" and st: "st < kv_n_stream kv"
    and idxs: "idxs = saved_cells (- 1) (kv_v_cells kv ! st)"
  shows "\<exists>c. state_read_meta_all zero st (length idxs) (concat (map cell_bytes (map (saved_cell (- 1) (kv_n_seq_max kv) (kv_v_cells kv ! st)) idxs)) @ bs, kv1) =
      Some (Inr True, bs, put_head st 0 (put_cells st c (kv_clear zero True kv1))) \<and> cells_inv c \<and> cells_size c = kv_get_size kv \<and>
    (\<forall>i < kv_get_size kv. cell_at c i = (if i < length idxs then (kc_pos (kv_v_cells kv ! st) ! (idxs ! i), 0, kc_seq (kv_v_cells kv ! st) ! (idxs ! i)) else cell_free))"
proof -
  let ?c = "kv_v_cells kv ! st" and ?kvc = "kv_clear zero True kv1"
  let ?xs = "map (saved_cell (- 1) (kv_n_seq_max kv) ?c) idxs"
  have st1: "st < kv_n_stream kv1" using st same by (simp add: same_config_def)
  note D = cache_okD [OF ok st] and T = cache_okD [OF tg st1]
  have cfg: "kv_get_size kv1 = kv_get_size kv" "kv_n_seq_max kv1 = kv_n_seq_max kv" using same by (simp_all add: same_config_def)
  have I: "idxs ! r < cells_size ?c \<and> kc_pos ?c ! (idxs ! r) \<noteq> - 1" if "r < length idxs" for r
    using nth_mem [OF that] saved_cells_props(2) [of "idxs ! r" "- 1" ?c] by (simp add: idxs wanted_def cell_at_def)
  have n: "length idxs \<le> kv_get_size kv" using saved_cells_props(3) [of "- 1" ?c] D(3) by (simp add: idxs)
  have X: "0 \<le> kc_pos ?c ! i \<and> kc_pos ?c ! i \<le> int32_max" if "i \<in> set idxs" for i
    using that saved_cells_props(2) [of i "- 1" ?c] cell_atD [OF D(2), of i] by (auto simp: idxs wanted_def cell_at_def)
  have size: "cells_size (kv_v_cells ?kvc ! st) = kv_get_size kv" using T(3,9) cfg by simp
  have free: "cell_at (kv_v_cells ?kvc ! st) i = cell_free" if "i < kv_get_size kv" for i
    using kv_clear_free [OF T(1) st1, of i] that cfg by simp
  have "\<exists>d. rd_all (read_cell st) [0..<0 + length ?xs] (concat (map cell_bytes ?xs) @ bs, ?kvc) = Some (Inr True, bs, put_cells st d ?kvc) \<and> cells_inv d \<and>
    cells_size d = cells_size (kv_v_cells ?kvc ! st) \<and> (\<forall>i < cells_size d. cell_at d i =
      (if 0 \<le> i \<and> i < 0 + length ?xs then (fst (?xs ! (i - 0)), 0, set (snd (?xs ! (i - 0)))) else cell_at (kv_v_cells ?kvc ! st) i))"
  proof (rule read_cells_spec)
    show "\<forall>i. 0 \<le> i \<and> i < 0 + length ?xs \<longrightarrow> kc_pos (kv_v_cells ?kvc ! st) ! i = - 1"
      using free n by (auto simp: cell_at_def cell_free_def)
    show "\<forall>(pos, ss) \<in> set ?xs. 0 \<le> pos \<and> pos \<le> int32_max \<and> distinct ss \<and> (\<forall>s \<in> set ss. s < kv_n_seq_max ?kvc)"
      using X wanted_seqs_props cfg(2) by (auto simp: saved_cell_def)
    show "cells_inv (kv_v_cells ?kvc ! st)" using T(2,9) by (simp add: reset_inv)
  qed (use T(4,9) n size in simp_all)
  then obtain c where c: "rd_all (read_cell st) [0..<length idxs] (concat (map cell_bytes ?xs) @ bs, ?kvc) = Some (Inr True, bs, put_cells st c ?kvc)" "cells_inv c"
      "cells_size c = kv_get_size kv" "\<forall>i < kv_get_size kv. cell_at c i = (if i < length idxs then (fst (?xs ! i), 0, set (snd (?xs ! i))) else cell_at (kv_v_cells ?kvc ! st) i)"
    using size by auto
  have "rd_bind (rd_all (read_cell st) [0..<length idxs]) (\<lambda>ok. if ok then rd_bind (rd_kv (\<lambda>kv. Some (put_head st 0 kv))) (\<lambda>_. rd_ret True) else rd_ret False)
      (concat (map cell_bytes ?xs) @ bs, ?kvc) = Some (Inr True, bs, put_head st 0 (put_cells st c ?kvc))"
    by (rule rd_bind_Inr, rule c(1)) (simp add: reads)
  then have "state_read_meta_all zero st (length idxs) (concat (map cell_bytes ?xs) @ bs, kv1) = Some (Inr True, bs, put_head st 0 (put_cells st c ?kvc))"
    using n T(3) cfg by (simp add: state_read_meta_all_def reads)
  moreover have "cell_at c i = (if i < length idxs then (kc_pos ?c ! (idxs ! i), 0, kc_seq ?c ! (idxs ! i)) else cell_free)" if i: "i < kv_get_size kv" for i
  proof (cases "i < length idxs")
    case True
    have "kc_seq ?c ! (idxs ! i) \<subseteq> {..<kv_n_seq_max kv}" using I [OF True] D(3,8) by simp
    from wanted_seqs_all [OF this] True c(4) i show ?thesis by (simp add: saved_cell_def)
  next
    case False
    with c(4) i free show ?thesis by simp
  qed
  ultimately show ?thesis using c(2,3) by blast
qed

lemma entries_restored:
  assumes idxs: "idxs = saved_cells (- 1) (kv_v_cells kv ! st)" "length idxs \<le> kv_get_size kv"
    and size: "kv_get_size kv2 = kv_get_size kv" "cells_size (kv_v_cells kv2 ! st) = kv_get_size kv"
    and cells: "\<forall>i < kv_get_size kv. cell_at (kv_v_cells kv2 ! st) i = (if i < length idxs then (kc_pos (kv_v_cells kv ! st) ! (idxs ! i), 0, kc_seq (kv_v_cells kv ! st) ! (idxs ! i)) else cell_free)"
    and data: "data_put v_trans (kv_get_size kv) 0 idxs layers (kv_data kv ! st) z (kv_data kv2 ! st)"
  shows "cache_entries layers v_trans kv2 st = cache_entries layers v_trans kv st"
proof -
  let ?c = "kv_v_cells kv2 ! st"
  have used: "kc_pos (kv_v_cells kv ! st) ! (idxs ! i) \<noteq> - 1" if "i < length idxs" for i
    using nth_mem [OF that] saved_cells_props(2) [of "idxs ! i" "- 1" "kv_v_cells kv ! st"] by (simp add: idxs wanted_def cell_at_def)
  have at: "kc_pos ?c ! i = (if i < length idxs then kc_pos (kv_v_cells kv ! st) ! (idxs ! i) else - 1)"
    "i < length idxs \<Longrightarrow> kc_seq ?c ! i = kc_seq (kv_v_cells kv ! st) ! (idxs ! i)" if "i < kv_get_size kv" for i
    using cells that by (auto simp: cell_at_def cell_free_def split: if_splits)
  have saved: "saved_cells (- 1) ?c = [0..<length idxs]"
    using idxs(2) size(2) at(1) used by (intro saved_prefix) auto
  have "cell_entry layers v_trans kv2 st i = cell_entry layers v_trans kv st (idxs ! i)" if i: "i < length idxs" for i
  proof -
    have "i < kv_get_size kv" using i idxs(2) by simp
    with data i have "(k_of (layers ! l) (kv_data kv2 ! st ! l) i, v_of v_trans (kv_get_size kv) (layers ! l) (kv_data kv2 ! st ! l) i) =
        (k_of (layers ! l) (kv_data kv ! st ! l) (idxs ! i), v_of v_trans (kv_get_size kv) (layers ! l) (kv_data kv ! st ! l) (idxs ! i))" if "l < length layers" for l
      using that unfolding data_put_def by auto
    then show ?thesis using at [OF \<open>i < kv_get_size kv\<close>] i by (simp add: cell_entry_def size(1))
  qed
  then have "map (cell_entry layers v_trans kv2 st) [0..<length idxs] = map (cell_entry layers v_trans kv st) idxs"
    by (intro nth_equalityI) simp_all
  then show ?thesis by (simp only: cache_entries_def saved idxs(1))
qed

lemma entries_empty: "\<forall>i < cells_size (kv_v_cells kv ! st). kc_pos (kv_v_cells kv ! st) ! i = - 1 \<Longrightarrow> cache_entries layers v_trans kv st = []"
  by (simp add: cache_entries_def saved_cells_def wanted_def cell_at_def filter_empty_conv)

lemma read_stream_spec:
  assumes ok: "cache_ok layers v_trans kv" and tg: "cache_ok layers v_trans kv1" and same: "same_config kv kv1" and st: "st < kv_n_stream kv"
    and zero: "data_ok v_trans (kv_get_size kv) layers zero" and ne: "cache_entries layers v_trans kv st \<noteq> []"
  shows "\<exists>kv2. read_stream zero layers v_trans npe (- 1) st (stream_bytes layers v_trans kv st @ bs, kv1) = Some (Inr True, bs, kv2) \<and>
    cache_ok layers v_trans kv2 \<and> same_config kv kv2 \<and>
    (\<forall>t < kv_n_stream kv. cache_entries layers v_trans kv2 t = (if t = st then cache_entries layers v_trans kv st else []))"
proof -
  let ?c = "kv_v_cells kv ! st" and ?kvc = "kv_clear zero True kv1" and ?sz = "kv_get_size kv"
  define idxs where "idxs = saved_cells (- 1) ?c"
  have st1: "st < kv_n_stream kv1" using st same by (simp add: same_config_def)
  note D = cache_okD [OF ok st] and T = cache_okD [OF tg st1]
  have cfg: "kv_get_size kv1 = ?sz" "kv_n_seq_max kv1 = kv_n_seq_max kv" "kv_n_stream kv1 = kv_n_stream kv" using same by (simp_all add: same_config_def)
  have n: "length idxs \<le> ?sz" "\<forall>i \<in> set idxs. i < ?sz" using saved_cells_props(2) [of _ "- 1" ?c] saved_cells_props(3) [of "- 1" ?c] D(3) by (auto simp: idxs_def)
  have ne': "idxs \<noteq> []" using ne by (simp add: cache_entries_def idxs_def)
  let ?cells = "concat (map cell_bytes (map (saved_cell (- 1) (kv_n_seq_max kv) ?c) idxs))" and ?data = "data_bytes layers v_trans ?sz (kv_data kv ! st) idxs"
  from meta_all_spec [OF ok tg same st idxs_def, of zero "?data @ bs"] obtain c where
    c: "state_read_meta_all zero st (length idxs) (?cells @ ?data @ bs, kv1) = Some (Inr True, ?data @ bs, put_head st 0 (put_cells st c ?kvc))"
      "cells_inv c" "cells_size c = ?sz" "\<forall>i < ?sz. cell_at c i = (if i < length idxs then (kc_pos ?c ! (idxs ! i), 0, kc_seq ?c ! (idxs ! i)) else cell_free)" by blast
  let ?kvm = "put_head st 0 (put_cells st c ?kvc)"
  have inv: "kv_inv ?kvm"
  proof (rule kv_inv_put)
    show "kv_inv ?kvc" by (rule kv_clear_inv [OF T(1)])
    fix i assume i: "i < cells_size c"
    show "cell_legal (kv_n_stream ?kvc) st (cell_at c i)"
    proof (cases "i < length idxs")
      case True
      then have "idxs ! i < ?sz" using n(2) by simp
      with kv_invD(6) [OF D(1) st, of "idxs ! i"] D(3) True c(3,4) i cfg(3) show ?thesis by (simp add: cell_legal_def cell_at_def)
    qed (use c(3,4) i in simp)
  qed (use st1 c(2,3) T(3,9) cfg in simp_all)
  have sz: "kv_get_size ?kvm = ?sz" using c(3) T(1,3,9) cfg(1) by simp
  have at: "kv_v_cells ?kvm ! st = c" "kv_data ?kvm ! st = zero" "kv_v_heads ?kvm ! st = 0" "st < length (kv_data ?kvm)" using T(9-11) by simp_all
  have "\<exists>d'. state_read_data layers v_trans st (length idxs) (data_bytes layers v_trans ?sz (kv_data kv ! st) idxs @ bs, ?kvm) = Some (Inr True, bs, put_data st d' ?kvm) \<and>
      data_ok v_trans ?sz layers d' \<and> data_put v_trans ?sz 0 idxs layers (kv_data kv ! st) (kv_data ?kvm ! st) d'"
    by (rule state_read_data_spec) (use D(5,7) n zero at c(3) in simp_all)
  then obtain d' where d': "state_read_data layers v_trans st (length idxs) (?data @ bs, ?kvm) = Some (Inr True, bs, put_data st d' ?kvm)"
      "data_ok v_trans ?sz layers d'" "data_put v_trans ?sz 0 idxs layers (kv_data kv ! st) zero d'" unfolding at(2) by blast
  let ?kv2 = "put_data st d' ?kvm"
  have cnt: "length idxs < 256 ^ 4" using n(1) D(6) by (rule le_less_trans)
  let ?m = "\<lambda>res. rd_bind (if res then state_read_data layers v_trans st (length idxs) else rd_ret False) (\<lambda>res. if res then rd_ret True
      else rd_bind (rd_kv (\<lambda>kv. if (- 1 :: int) = - 1 then Some (kv_clear zero True kv) else map_option snd (kv_seq_rm (- 1) (- 1) (- 1) kv)))
        (\<lambda>_. rd_throw RestoreFailed))"
  have m1: "?m True (?data @ bs, ?kvm) = Some (Inr True, bs, ?kv2)"
    unfolding if_True by (rule rd_bind_Inr, rule d'(1)) simp
  have "rd_bind (state_read_meta_all zero st (length idxs)) ?m (?cells @ ?data @ bs, kv1) = Some (Inr True, bs, ?kv2)"
    by (rule rd_bind_Inr, rule c(1), rule m1)
  then have main: "read_stream zero layers v_trans npe (- 1) st (stream_bytes layers v_trans kv st @ bs, kv1) = Some (Inr True, bs, ?kv2)"
    using cnt ne' by (simp add: read_stream_def stream_bytes_def idxs_def [symmetric] reads Let_def)
  have free: "kv_v_cells ?kv2 ! t = cells_reset (kv_v_cells kv1 ! t)" "kv_data ?kv2 ! t = zero" if "t < kv_n_stream kv" "t \<noteq> st" for t
    using that cache_okD(9,10) [OF tg, of t] cfg(3) by (simp_all add: put_data_def)
  have here: "kv_v_cells ?kv2 ! st = c" "kv_data ?kv2 ! st = d'" using at by simp_all
  have entries: "cache_entries layers v_trans ?kv2 t = (if t = st then cache_entries layers v_trans kv st else [])" if t: "t < kv_n_stream kv" for t
  proof (cases "t = st")
    case True
    have "cache_entries layers v_trans ?kv2 st = cache_entries layers v_trans kv st"
      by (rule entries_restored [OF idxs_def n(1), where z = zero]) (use sz c(3,4) d'(3) here in simp_all)
    with True show ?thesis by simp
  next
    case False
    have "cells_inv (kv_v_cells kv1 ! t)" "cells_size (kv_v_cells kv1 ! t) = ?sz" using cache_okD(2,3) [OF tg, of t] t cfg by simp_all
    then have "\<forall>i < cells_size (kv_v_cells ?kv2 ! t). kc_pos (kv_v_cells ?kv2 ! t) ! i = - 1"
      unfolding free(1) [OF t False] using reset_free [of _ "kv_v_cells kv1 ! t"] by (auto simp: cell_at_def cell_free_def)
    from entries_empty [OF this] False show ?thesis by simp
  qed
  have seqs: "kc_seq (kv_v_cells ?kv2 ! t) ! i \<subseteq> {..<kv_n_seq_max kv}" if t: "t < kv_n_stream kv" and i: "i < ?sz" for t i
  proof (cases "t = st")
    case True
    have "kc_seq c ! i = (if i < length idxs then kc_seq ?c ! (idxs ! i) else {})"
      using c(4) i by (auto simp: cell_at_def cell_free_def split: if_splits)
    then show ?thesis using True here D(8) n(2) by auto
  next
    case False
    have "cells_inv (kv_v_cells kv1 ! t)" "cells_size (kv_v_cells kv1 ! t) = ?sz" using cache_okD(2,3) [OF tg, of t] t cfg by simp_all
    with reset_free [of i "kv_v_cells kv1 ! t"] i show ?thesis unfolding free(1) [OF t False] by (simp add: cell_at_def cell_free_def)
  qed
  have dat: "data_ok v_trans ?sz layers (kv_data ?kv2 ! t)" if t: "t < kv_n_stream kv" for t
    using d'(2) zero free(2) [OF t] here by (cases "t = st") simp_all
  have "cache_ok layers v_trans ?kv2"
    unfolding cache_ok_def kv_inv_put_data put_data_config sz
    using inv D(4,6,7) seqs dat cfg by (auto simp: same_config_def)
  moreover have "same_config kv ?kv2" using sz cfg by (simp add: same_config_def)
  ultimately show ?thesis using main entries by blast
qed

text \<open>A stream with no used cell is skipped, and the cache that is read into stays as it is.\<close>

lemma read_stream_empty:
  assumes "cache_entries layers v_trans kv st = []"
  shows "read_stream zero layers v_trans npe (- 1) st (stream_bytes layers v_trans kv st @ bs, kv1) = Some (Inr True, bs, kv1)"
  using assms by (simp add: read_stream_def stream_bytes_def cache_entries_def Let_def reads)

definition last_used :: "kv_layer list \<Rightarrow> bool \<Rightarrow> stream_data kv_cache \<Rightarrow> nat \<Rightarrow> nat \<Rightarrow> bool" where
  "last_used layers v_trans kv m t \<longleftrightarrow> t < m \<and> cache_entries layers v_trans kv t \<noteq> [] \<and> (\<forall>u. t < u \<and> u < m \<longrightarrow> cache_entries layers v_trans kv u = [])"

lemma state_read_spec:
  assumes ok: "cache_ok layers v_trans kv" and tg: "cache_ok layers v_trans kv1" and same: "same_config kv kv1"
    and zero: "data_ok v_trans (kv_get_size kv) layers zero" and bs: "state_write layers v_trans (- 1) kv = Some bs"
  shows "\<exists>kv2. state_read zero layers v_trans npe (- 1) (bs @ rest, kv1) = Some (Inr True, rest, kv2) \<and> cache_ok layers v_trans kv2 \<and> same_config kv kv2 \<and>
    (if \<forall>t < kv_n_stream kv. cache_entries layers v_trans kv t = [] then kv2 = kv1
     else \<forall>t < kv_n_stream kv. cache_entries layers v_trans kv2 t = (if last_used layers v_trans kv (kv_n_stream kv) t then cache_entries layers v_trans kv t else []))"
proof -
  let ?E = "cache_entries layers v_trans" and ?n = "kv_n_stream kv"
  let ?I = "\<lambda>m kv2. cache_ok layers v_trans kv2 \<and> same_config kv kv2 \<and> (if \<forall>t < m. ?E kv t = [] then kv2 = kv1
     else \<forall>t < ?n. ?E kv2 t = (if last_used layers v_trans kv m t then ?E kv t else []))"
  have "\<exists>kv2. rd_all (read_stream zero layers v_trans npe (- 1)) [0..<?n] (concat (map (stream_bytes layers v_trans kv) [0..<?n]) @ rest, kv1) =
      Some (Inr True, rest, kv2) \<and> ?I ?n kv2"
  proof (rule rd_all_loop [where I = ?I])
    fix j kvj bs assume j: "j < ?n" and I: "?I j kvj"
    show "\<exists>kv2. read_stream zero layers v_trans npe (- 1) j (stream_bytes layers v_trans kv j @ bs, kvj) = Some (Inr True, bs, kv2) \<and> ?I (Suc j) kv2"
    proof (cases "?E kv j = []")
      case True
      have lu: "last_used layers v_trans kv (Suc j) t = last_used layers v_trans kv j t" for t
        using True by (auto simp: last_used_def less_Suc_eq)
      have "(\<forall>t < Suc j. ?E kv t = []) = (\<forall>t < j. ?E kv t = [])" using True by (auto simp: less_Suc_eq)
      then have "?I (Suc j) kvj" using I unfolding lu by simp
      with read_stream_empty [OF True] show ?thesis by blast
    next
      case False
      have "\<exists>kv2. read_stream zero layers v_trans npe (- 1) j (stream_bytes layers v_trans kv j @ bs, kvj) = Some (Inr True, bs, kv2) \<and>
          cache_ok layers v_trans kv2 \<and> same_config kv kv2 \<and> (\<forall>t < ?n. ?E kv2 t = (if t = j then ?E kv j else []))"
        by (rule read_stream_spec [OF ok _ _ j zero False]) (use I in simp_all)
      then obtain kv2 where kv2: "read_stream zero layers v_trans npe (- 1) j (stream_bytes layers v_trans kv j @ bs, kvj) = Some (Inr True, bs, kv2)"
          "cache_ok layers v_trans kv2" "same_config kv kv2" "\<forall>t < ?n. ?E kv2 t = (if t = j then ?E kv j else [])" by blast
      have lu: "last_used layers v_trans kv (Suc j) t = (t = j)" for t
        using False by (auto simp: last_used_def less_Suc_eq)
      have "\<not> (\<forall>t < Suc j. ?E kv t = [])" using False by blast
      then have "?I (Suc j) kv2" using kv2(2-4) unfolding lu by auto
      with kv2(1) show ?thesis by blast
    qed
  qed (use tg same in simp)
  then obtain kv2 where kv2: "rd_all (read_stream zero layers v_trans npe (- 1)) [0..<?n] (concat (map (stream_bytes layers v_trans kv) [0..<?n]) @ rest, kv1) =
      Some (Inr True, rest, kv2)" "?I ?n kv2" by blast
  have "?n < 256 ^ 4" using ok by (simp add: cache_ok_def kv_inv_def LLAMA_MAX_SEQ_def)
  then have "state_read zero layers v_trans npe (- 1) (bs @ rest, kv1) = Some (Inr True, rest, kv2)"
    using kv2(1) same bs state_write_eq [OF ok] by (auto simp: state_read_def reads same_config_def)
  with kv2(2) show ?thesis by blast
qed

section \<open>Properties\<close>

text \<open>C28: saving a cache with one stream and restoring it into any cache of the same configuration succeeds,
  consumes exactly the saved bytes, and brings back every token in order with its position, its sequences, and its
  key and value of every layer, whether or not the value tensors are transposed; the saved cache holds a token, and a
  transposed value tensor of a layer has less than \<open>2 ^ 32\<close> bytes (\<open>layer_ok\<close>), as beyond that the offsets wrap (\<open>v_src_offset_wraps\<close>).\<close>

theorem state_roundtrip:
  assumes "cache_ok layers v_trans kv" and "cache_ok layers v_trans kv1" and "same_config kv kv1" and "kv_n_stream kv = 1"
    and "data_ok v_trans (kv_get_size kv) layers zero" and "cache_entries layers v_trans kv 0 \<noteq> []"
  shows "\<exists>bs kv2. state_write layers v_trans (- 1) kv = Some bs \<and> state_read zero layers v_trans npe (- 1) (bs @ rest, kv1) = Some (Inr True, rest, kv2) \<and>
    kv_inv kv2 \<and> cache_entries layers v_trans kv2 0 = cache_entries layers v_trans kv 0"
proof -
  note W = state_write_eq [OF assms(1)]
  have "last_used layers v_trans kv 1 0" using assms(6) by (auto simp: last_used_def)
  with state_read_spec [OF assms(1-3,5) W, of npe rest] assms(4,6) W show ?thesis by (auto simp: cache_ok_def)
qed

definition demo_layer :: kv_layer where
  "demo_layer = \<lparr>ly_k_type = GGML_TYPE_F32, ly_n_embd_k = 1, ly_v_type = GGML_TYPE_F32, ly_n_embd_v = 1\<rparr>"

definition one_cell :: "nat \<Rightarrow> kv_cells" where
  "one_cell s = \<lparr>kc_has_shift = False, kc_used = {0}, kc_pos = [5], kc_shift = [0], kc_seq = [{s}], kc_seq_pos = (replicate LLAMA_MAX_SEQ [])[s := [(5, 1)]]\<rparr>"

text \<open>One cell per stream; stream \<open>i\<close> holds position 5 of sequence \<open>i\<close> when asked for, with the bytes \<open>x\<close>.\<close>

definition demo_state :: "kv_cells list \<Rightarrow> 8 word \<Rightarrow> stream_data kv_cache" where
  "demo_state cs x = \<lparr>kv_n_seq_max = length cs, kv_n_stream = length cs, kv_n_pad = 1, kv_n_swa = 0, kv_swa_type = SWA_NONE,
     kv_v_heads = replicate (length cs) 0, kv_v_cells = cs, kv_seq_to_stream = (if length cs = 1 then replicate LLAMA_MAX_SEQ 0 else [0..<length cs]), kv_sc_info = [],
     kv_data = replicate (length cs) [(replicate 4 x, replicate 4 x)]\<rparr>"

lemma one_cell_inv: "s < LLAMA_MAX_SEQ \<Longrightarrow> cells_inv (one_cell s)"
proof -
  assume s: "s < LLAMA_MAX_SEQ"
  let ?c = "cells_resize 1 cells_new"
  have inv: "cells_inv ?c" by (intro cells_inv_resize) (simp add: cells_new_def)
  have "wp (cells_pos_set 0 5 ?c) (\<lambda>c'. cells_inv c' \<and> kc_has_shift c' = kc_has_shift ?c \<and> cells_put 0 5 0 {} ?c c')"
    using inv by (intro cells_pos_set_spec) (simp_all add: cells_resize_new int32_max_def)
  from wpD [OF this] obtain c where c: "cells_pos_set 0 5 ?c = Some c" "cells_inv c" by blast
  have ceq: "c = \<lparr>kc_has_shift = False, kc_used = {0}, kc_pos = [5], kc_shift = [0], kc_seq = [{}], kc_seq_pos = replicate LLAMA_MAX_SEQ []\<rparr>"
    using c(1) by (simp add: cells_resize_new cells_pos_set_def)
  have "wp (cells_seq_add 0 s c) (\<lambda>c'. cells_inv c' \<and> kc_has_shift c' = kc_has_shift c \<and> cells_put 0 (kc_pos c ! 0) (kc_shift c ! 0) (insert s (kc_seq c ! 0)) c c')"
    using s c(2) by (intro cells_seq_add_spec) (simp_all add: ceq)
  from wpD [OF this] obtain d where d: "cells_seq_add 0 s c = Some d" "cells_inv d" by blast
  have "d = one_cell s"
    using d(1) s by (simp add: ceq cells_seq_add_def bitset_test_def bitset_set_def cells_seq_pos_inc_def om_inc_def one_cell_def)
  with d(2) show ?thesis by simp
qed

lemma demo_state_ok:
  assumes cs: "cs \<noteq> []" "length cs \<le> LLAMA_MAX_SEQ" "\<forall>s < length cs. cs ! s = one_cell s \<or> cs ! s = cells_resize 1 cells_new"
  shows "cache_ok [demo_layer] v_trans (demo_state cs x)" and "kv_get_size (demo_state cs x) = 1"
    and "data_ok v_trans 1 [demo_layer] [(replicate 4 y, replicate 4 y)]"
proof -
  have free: "cells_inv (cells_resize 1 cells_new)" by (intro cells_inv_resize) (simp add: cells_new_def)
  have sz: "cells_size (cs ! s) = 1" if "s < length cs" for s using cs(3) that by (auto simp: one_cell_def cells_size_def cells_resize_new)
  have inv: "cells_inv (cs ! s)" if "s < length cs" for s using cs that free one_cell_inv [of s] by auto
  show size: "kv_get_size (demo_state cs x) = 1" using cs(1) sz [of 0] max_seq_small by (simp add: kv_get_size_def demo_state_def)
  show row: "data_ok v_trans 1 [demo_layer] [(replicate 4 y, replicate 4 y)]" for y
    by (simp add: data_ok_def layer_ok_def demo_layer_def k_row_def v_row_def ggml_row_size_def ggml_blck_size_def ggml_type_size_def type_traits_def ggml_type_code_def)
  have "stream_inv (demo_state cs x) s" if s: "s < length cs" for s
    unfolding stream_inv_def size using cs(3) s sz [OF s] inv [OF s]
    by (auto simp: demo_state_def cell_legal_def cell_at_def one_cell_def cells_resize_new)
  then have "kv_inv (demo_state cs x)" unfolding kv_inv_def using cs(1,2) by (simp add: demo_state_def)
  moreover have "kc_seq (cs ! s) ! 0 \<subseteq> {..<length cs}" if s: "s < length cs" for s
    using cs(3) s by (auto simp: one_cell_def cells_resize_new)
  ultimately show "cache_ok [demo_layer] v_trans (demo_state cs x)"
    unfolding cache_ok_def size using row cs(2) by (simp add: demo_state_def)
qed

lemma demo_entries: "s < length cs \<Longrightarrow> cs ! s = one_cell s \<Longrightarrow> cache_entries [demo_layer] v_trans (demo_state cs x) s \<noteq> []"
  by (simp add: cache_entries_def saved_cells_def demo_state_def one_cell_def cells_size_def wanted_def cell_at_def)

theorem state_roundtrip_witness:
  "\<exists>bs kv2. state_write [demo_layer] False (- 1) (demo_state [one_cell 0] 3) = Some bs \<and>
    state_read [(replicate 4 0, replicate 4 0)] [demo_layer] False 1 (- 1) (bs @ [9], demo_state [cells_resize 1 cells_new] 0) = Some (Inr True, [9], kv2) \<and>
    cache_entries [demo_layer] False kv2 0 = cache_entries [demo_layer] False (demo_state [one_cell 0] 3) 0"
proof -
  have src: "cache_ok [demo_layer] False (demo_state [one_cell 0] 3)" "kv_get_size (demo_state [one_cell 0] 3) = 1"
    by (rule demo_state_ok; simp add: LLAMA_MAX_SEQ_def)+
  have tg: "cache_ok [demo_layer] False (demo_state [cells_resize 1 cells_new] 0)" "kv_get_size (demo_state [cells_resize 1 cells_new] 0) = 1"
    "data_ok False 1 [demo_layer] [(replicate 4 0, replicate 4 0)]"
    by (rule demo_state_ok [where cs = "[cells_resize 1 cells_new]"]; simp add: LLAMA_MAX_SEQ_def)+
  have "same_config (demo_state [one_cell 0] 3) (demo_state [cells_resize 1 cells_new] 0)"
    using src(2) tg(2) by (simp add: same_config_def demo_state_def)
  from state_roundtrip [OF src(1) tg(1) this, of "[(replicate 4 0, replicate 4 0)]" 1 "[9]"] tg(3) src(2) demo_entries [of 0 "[one_cell 0]" False 3]
  show ?thesis by (auto simp: demo_state_def)
qed

text \<open>C40: restoring a whole cache that was saved with several streams keeps only the last used stream: each stream
  that is read clears the whole cache before it, so the tokens of the earlier streams are lost although the
  restore reports success. A saved cache with no token at all leaves the old content of the cache in place. A transposed
  value tensor of a layer has less than \<open>2 ^ 32\<close> bytes (\<open>layer_ok\<close>).\<close>

theorem whole_restore_keeps_last_stream:
  assumes "cache_ok layers v_trans kv" and "cache_ok layers v_trans kv1" and "same_config kv kv1"
    and "data_ok v_trans (kv_get_size kv) layers zero" and "state_write layers v_trans (- 1) kv = Some bs"
  shows "\<exists>kv2. state_read zero layers v_trans npe (- 1) (bs, kv1) = Some (Inr True, [], kv2) \<and>
    (if \<forall>t < kv_n_stream kv. cache_entries layers v_trans kv t = [] then kv2 = kv1
     else \<forall>t < kv_n_stream kv. cache_entries layers v_trans kv2 t = (if last_used layers v_trans kv (kv_n_stream kv) t then cache_entries layers v_trans kv t else []))"
  using state_read_spec [OF assms, of npe "[]"] unfolding append_Nil2 by blast

theorem whole_restore_keeps_last_stream_witness:
  "\<exists>bs kv2. state_write [demo_layer] False (- 1) (demo_state [one_cell 0, one_cell 1] 3) = Some bs \<and>
    state_read [(replicate 4 0, replicate 4 0)] [demo_layer] False 1 (- 1) (bs, demo_state [cells_resize 1 cells_new, cells_resize 1 cells_new] 0) = Some (Inr True, [], kv2) \<and>
    cache_entries [demo_layer] False (demo_state [one_cell 0, one_cell 1] 3) 0 \<noteq> [] \<and> cache_entries [demo_layer] False kv2 0 = []"
proof -
  let ?kv = "demo_state [one_cell 0, one_cell 1] 3" and ?kv1 = "demo_state [cells_resize 1 cells_new, cells_resize 1 cells_new] 0"
  have src: "cache_ok [demo_layer] False ?kv" "kv_get_size ?kv = 1"
    by (rule demo_state_ok; simp add: LLAMA_MAX_SEQ_def less_Suc_eq)+
  have tg: "cache_ok [demo_layer] False ?kv1" "kv_get_size ?kv1 = 1" "data_ok False 1 [demo_layer] [(replicate 4 0, replicate 4 0)]"
    by (rule demo_state_ok [where cs = "[cells_resize 1 cells_new, cells_resize 1 cells_new]"]; simp add: LLAMA_MAX_SEQ_def less_Suc_eq)+
  have same: "same_config ?kv ?kv1" using src(2) tg(2) by (simp add: same_config_def demo_state_def)
  have E: "cache_entries [demo_layer] False ?kv 0 \<noteq> []" "cache_entries [demo_layer] False ?kv 1 \<noteq> []"
    by (rule demo_entries; simp)+
  have n: "kv_n_stream ?kv = 2" by (simp add: demo_state_def)
  have "\<not> last_used [demo_layer] False ?kv 2 0" using E(2) by (auto simp: last_used_def)
  moreover have "\<not> (\<forall>t < 2. cache_entries [demo_layer] False ?kv t = [])" using E(1) by fastforce
  moreover have zero: "data_ok False (kv_get_size ?kv) [demo_layer] [(replicate 4 0, replicate 4 0)]" using src(2) tg(3) by simp
  note whole_restore_keeps_last_stream [OF src(1) tg(1) same zero state_write_eq [OF src(1)], of 1]
  ultimately obtain kv2 where "state_read [(replicate 4 0, replicate 4 0)] [demo_layer] False 1 (- 1)
      (le_bytes 4 (kv_n_stream ?kv) @ concat (map (stream_bytes [demo_layer] False ?kv) [0..<kv_n_stream ?kv]), ?kv1) = Some (Inr True, [], kv2)"
    "\<forall>t < 2. cache_entries [demo_layer] False kv2 t = (if last_used [demo_layer] False ?kv 2 t then cache_entries [demo_layer] False ?kv t else [])"
    unfolding n by (simp only: if_False) blast
  with \<open>\<not> last_used [demo_layer] False ?kv 2 0\<close> state_write_eq [OF src(1)] E(1) show ?thesis by auto
qed

end
