(* ===== verification/RecurrentMem.thy ===== *)
theory RecurrentMem
  imports Batch
begin

text \<open>
  The memory of recurrent models: \<^verbatim>\<open>src/src/llama-memory-recurrent.h\<close> and
  \<^verbatim>\<open>src/src/llama-memory-recurrent.cpp\<close>, the cells and the operations on sequences.

  A cell holds the state of one sequence, or of several that share it. The vector of cells also
  carries, at the index of a sequence id, the \<^verbatim>\<open>tail\<close> of that sequence: the cell that holds its
  state. \<open>rs_wf\<close> is the invariant that ties the two together. \<open>rc_src\<close> says where the contents of
  a cell will be copied from by the next graph; a negative value stands for the zero state.

  A set of sequence ids is a set of integers; \<open>used\<close> wraps as the 32-bit counter does; an index
  outside the vector of cells is the result \<open>None\<close>. The tensors of the layers are handled in
  \<^verbatim>\<open>RecurrentRun\<close>.
\<close>

section \<open>Data\<close>

text \<open>\<^verbatim>\<open>struct mem_cell\<close>.\<close>

record rs_cell =
  rc_pos :: int
  rc_src :: int
  rc_src0 :: int
  rc_tail :: int
  rc_seq :: "int set"

text \<open>\<^verbatim>\<open>class llama_memory_recurrent\<close>.\<close>

record rs_memory =
  rs_head :: nat
  rs_size :: nat
  rs_used :: nat
  rs_n :: nat
  rs_z :: int
  rs_cells :: "rs_cell list"

definition rs_cell_new :: rs_cell where
  "rs_cell_new = \<lparr>rc_pos = - 1, rc_src = - 1, rc_src0 = - 1, rc_tail = - 1, rc_seq = {}\<rparr>"

definition rs_new :: "nat \<Rightarrow> rs_memory" where
  "rs_new sz = \<lparr>rs_head = 0, rs_size = sz, rs_used = 0, rs_n = 0, rs_z = - 1, rs_cells = replicate sz rs_cell_new\<rparr>"

definition rs_at :: "rs_memory \<Rightarrow> int \<Rightarrow> rs_cell option" where
  "rs_at m i = (if 0 \<le> i \<and> nat i < length (rs_cells m) then Some (rs_cells m ! nat i) else None)"

definition rs_put :: "nat \<Rightarrow> (rs_cell \<Rightarrow> rs_cell) \<Rightarrow> rs_memory \<Rightarrow> rs_memory" where
  "rs_put i f m = m\<lparr>rs_cells := (rs_cells m)[i := f (rs_cells m ! i)]\<rparr>"

definition u32_dec :: "nat \<Rightarrow> nat" where
  "u32_dec u = (if u = 0 then 4294967295 else u - 1)"

section \<open>Operations on sequences\<close>

definition rs_clear :: "rs_memory \<Rightarrow> rs_memory" where
  "rs_clear m = m\<lparr>rs_cells := map (\<lambda>c. c\<lparr>rc_pos := - 1, rc_seq := {}, rc_src := - 1, rc_tail := - 1\<rparr>) (rs_cells m),
     rs_head := 0, rs_used := 0\<rparr>"

text \<open>The default bounds of the position ranges.\<close>

definition rs_p0 :: "int \<Rightarrow> int" where
  "rs_p0 p0 = (if p0 < 0 then 0 else p0)"

definition rs_p1 :: "int \<Rightarrow> int" where
  "rs_p1 p1 = (if p1 < 0 then int32_max else p1)"

text \<open>\<^verbatim>\<open>seq_rm\<close>: the test of the range comes first, \<open>None\<close> of its result is the early \<^verbatim>\<open>return false\<close>;
  then the loop over the cells, which keeps the first cell it freed.\<close>

definition rs_rm_check :: "int \<Rightarrow> int \<Rightarrow> int \<Rightarrow> rs_memory \<Rightarrow> rs_memory option option" where
  "rs_rm_check q p0 p1 m =
     (if 0 \<le> q then
        let t = rc_tail (rs_cells m ! nat q) in
        if t \<ge> 0 then do {
          c \<leftarrow> rs_at m t;
          if (0 < p0 \<and> p0 < rc_pos c) \<or> (0 < p1 \<and> p1 \<le> rc_pos c) then Some None
          else if p0 \<le> rc_pos c \<and> rc_pos c < p1 then Some (Some (rs_put (nat q) (\<lambda>c. c\<lparr>rc_tail := - 1\<rparr>) m))
          else Some (Some m)
        }
        else Some (Some m)
      else if p0 \<noteq> p1 \<and> (p0 \<noteq> 0 \<or> p1 \<noteq> int32_max) then Some None
      else Some (Some m))"

definition rs_rm_cell :: "int \<Rightarrow> int \<Rightarrow> int \<Rightarrow> nat \<Rightarrow> rs_memory \<times> nat \<Rightarrow> rs_memory \<times> nat" where
  "rs_rm_cell q p0 p1 i = (\<lambda>(m, new_head).
     let c = rs_cells m ! i in
     if rc_pos c \<ge> p0 \<and> rc_pos c < p1 \<and> (q < 0 \<or> q \<in> rc_seq c) then
       let S = (if q < 0 then {} else rc_seq c - {q}) in
       if S = {} then
         ((rs_put i (\<lambda>c. c\<lparr>rc_seq := {}, rc_pos := - 1, rc_src := - 1\<rparr>) m)
            \<lparr>rs_used := (if rc_pos c \<ge> 0 then u32_dec (rs_used m) else rs_used m)\<rparr>,
          if new_head = rs_size m then i else new_head)
       else (rs_put i (\<lambda>c. c\<lparr>rc_seq := S\<rparr>) m, new_head)
     else (m, new_head))"

definition rs_lower_head :: "rs_memory \<times> nat \<Rightarrow> rs_memory" where
  "rs_lower_head = (\<lambda>(m, new_head). if new_head \<noteq> rs_size m \<and> new_head < rs_head m then m\<lparr>rs_head := new_head\<rparr> else m)"

definition rs_seq_rm :: "int \<Rightarrow> int \<Rightarrow> int \<Rightarrow> rs_memory \<Rightarrow> (bool \<times> rs_memory) option" where
  "rs_seq_rm q p0 p1 m =
     (if q \<ge> int (rs_size m) then Some (False, m)
      else do {
        r \<leftarrow> rs_rm_check q (rs_p0 p0) (rs_p1 p1) m;
        case r of
          None \<Rightarrow> Some (False, m)
        | Some m1 \<Rightarrow>
            Some (True, rs_lower_head (fold (rs_rm_cell q (rs_p0 p0) (rs_p1 p1)) [0..<rs_size m1] (m1, rs_size m1)))
      })"

text \<open>Take a sequence out of the cell that holds its state: the same statements in \<^verbatim>\<open>seq_cp\<close>,
  for the destination, and in \<^verbatim>\<open>find_slot\<close>.\<close>

definition rs_drop_tail :: "nat \<Rightarrow> rs_memory \<Rightarrow> rs_memory option" where
  "rs_drop_tail q m = (let t = rc_tail (rs_cells m ! q) in
     if t \<ge> 0 then do {
       c \<leftarrow> rs_at m t;
       let m1 = rs_put (nat t) (\<lambda>c. c\<lparr>rc_seq := rc_seq c - {int q}\<rparr>) m;
       let m2 = rs_put q (\<lambda>c. c\<lparr>rc_tail := - 1\<rparr>) m1;
       Some (if rc_seq c - {int q} = {} then
               (rs_put (nat t) (\<lambda>c. c\<lparr>rc_pos := - 1, rc_src := - 1\<rparr>) m2)\<lparr>rs_used := u32_dec (rs_used m2)\<rparr>
             else m2)
     }
     else Some m)"

text \<open>\<^verbatim>\<open>seq_cp\<close>: the position range is normalised and then not used.\<close>

definition rs_seq_cp :: "int \<Rightarrow> int \<Rightarrow> int \<Rightarrow> int \<Rightarrow> rs_memory \<Rightarrow> rs_memory option" where
  "rs_seq_cp src dst p0 p1 m =
     (if src = dst then Some m
      else if 0 \<le> dst \<and> dst < int (rs_size m) \<and> 0 \<le> src \<and> src < int (rs_size m) then do {
        m1 \<leftarrow> rs_drop_tail (nat dst) m;
        let t = rc_tail (rs_cells m1 ! nat src);
        if t \<ge> 0 then do {
          c \<leftarrow> rs_at m1 t;
          Some (rs_put (nat dst) (\<lambda>c. c\<lparr>rc_tail := t\<rparr>) (rs_put (nat t) (\<lambda>c. c\<lparr>rc_seq := insert dst (rc_seq c)\<rparr>) m1))
        }
        else Some m1
      }
      else Some m)"

definition rs_keep_cell :: "int \<Rightarrow> nat \<Rightarrow> rs_memory \<times> nat \<Rightarrow> rs_memory \<times> nat" where
  "rs_keep_cell q i = (\<lambda>(m, new_head).
     let m1 = (if int i \<noteq> q then rs_put i (\<lambda>c. c\<lparr>rc_tail := - 1\<rparr>) m else m);
         c = rs_cells m1 ! i
     in if q \<notin> rc_seq c then
          ((rs_put i (\<lambda>c. c\<lparr>rc_pos := - 1, rc_src := - 1, rc_seq := {}\<rparr>) m1)
             \<lparr>rs_used := (if rc_pos c \<ge> 0 then u32_dec (rs_used m1) else rs_used m1)\<rparr>,
           if new_head = rs_size m then i else new_head)
        else (rs_put i (\<lambda>c. c\<lparr>rc_seq := {q}\<rparr>) m1, new_head))"

definition rs_seq_keep :: "int \<Rightarrow> rs_memory \<Rightarrow> rs_memory" where
  "rs_seq_keep q m = rs_lower_head (fold (rs_keep_cell q) [0..<rs_size m] (m, rs_size m))"

text \<open>\<^verbatim>\<open>seq_add\<close> and \<^verbatim>\<open>seq_div\<close> change the position of the tail; \<open>f\<close> is the new position, \<open>None\<close> when
  the arithmetic overflows or divides by zero.\<close>

definition rs_move_pos :: "int \<Rightarrow> int \<Rightarrow> int \<Rightarrow> (int \<Rightarrow> int option) \<Rightarrow> rs_memory \<Rightarrow> rs_memory option" where
  "rs_move_pos q p0 p1 f m =
     (if p0 = p1 then Some m
      else if 0 \<le> q \<and> q < int (rs_size m) then
        let t = rc_tail (rs_cells m ! nat q) in
        if t \<ge> 0 then do {
          c \<leftarrow> rs_at m t;
          if q \<in> rc_seq c \<and> p0 \<le> rc_pos c \<and> rc_pos c < p1 then do {
            p \<leftarrow> f (rc_pos c);
            Some (rs_put (nat t) (\<lambda>c. c\<lparr>rc_pos := p\<rparr>) m)
          }
          else Some m
        }
        else Some m
      else Some m)"

definition rs_seq_add :: "int \<Rightarrow> int \<Rightarrow> int \<Rightarrow> int \<Rightarrow> rs_memory \<Rightarrow> rs_memory option" where
  "rs_seq_add q p0 p1 shift m =
     (if shift = 0 then Some m else rs_move_pos q (rs_p0 p0) (rs_p1 p1) (\<lambda>p. s32 (p + shift)) m)"

definition rs_seq_div :: "int \<Rightarrow> int \<Rightarrow> int \<Rightarrow> int \<Rightarrow> rs_memory \<Rightarrow> rs_memory option" where
  "rs_seq_div q p0 p1 d m =
     (if d = 1 then Some m
      else rs_move_pos q (rs_p0 p0) (rs_p1 p1) (\<lambda>p. if d = 0 then None else s32 (sgn p * sgn d * (\<bar>p\<bar> div \<bar>d\<bar>))) m)"

definition rs_seq_pos_min :: "int \<Rightarrow> rs_memory \<Rightarrow> int" where
  "rs_seq_pos_min q m = (let r = fold (\<lambda>i r. if q \<in> rc_seq (rs_cells m ! i) then min r (rc_pos (rs_cells m ! i)) else r)
       [0..<rs_size m] int32_max in if r = int32_max then - 1 else r)"

definition rs_seq_pos_max :: "int \<Rightarrow> rs_memory \<Rightarrow> int" where
  "rs_seq_pos_max q m = fold (\<lambda>i r. if q \<in> rc_seq (rs_cells m ! i) then max r (rc_pos (rs_cells m ! i)) else r)
       [0..<rs_size m] (- 1)"

section \<open>The invariant\<close>

text \<open>The number of cells that hold a state, which \<^verbatim>\<open>used\<close> counts.\<close>

definition rs_occupied :: "rs_memory \<Rightarrow> nat set" where
  "rs_occupied m = {i. i < rs_size m \<and> rc_seq (rs_cells m ! i) \<noteq> {}}"

definition rs_wf :: "rs_memory \<Rightarrow> bool" where
  "rs_wf m \<longleftrightarrow> length (rs_cells m) = rs_size m \<and> 0 < rs_size m \<and> rs_size m \<le> 2147483647 \<and> rs_head m < rs_size m \<and>
     (\<forall>i < rs_size m. \<forall>q \<in> rc_seq (rs_cells m ! i). 0 \<le> q \<and> q < int (rs_size m)) \<and>
     (\<forall>i < rs_size m. \<forall>q < rs_size m. int q \<in> rc_seq (rs_cells m ! i) \<longleftrightarrow> rc_tail (rs_cells m ! q) = int i) \<and>
     (\<forall>q < rs_size m. - 1 \<le> rc_tail (rs_cells m ! q) \<and> rc_tail (rs_cells m ! q) < int (rs_size m)) \<and>
     (\<forall>i < rs_size m. rc_src (rs_cells m ! i) = - 1 \<or> rc_src (rs_cells m ! i) = int i) \<and>
     (\<forall>i < rs_size m. if rc_seq (rs_cells m ! i) = {} then rc_pos (rs_cells m ! i) = - 1
                      else 0 \<le> rc_pos (rs_cells m ! i) \<and> rc_pos (rs_cells m ! i) < int32_max) \<and>
     rs_used m = card (rs_occupied m)"

lemma rs_wfD:
  assumes "rs_wf m"
  shows "length (rs_cells m) = rs_size m" "0 < rs_size m" "rs_head m < rs_size m" "rs_size m \<le> 2147483647"
    "\<And>i q. i < rs_size m \<Longrightarrow> q \<in> rc_seq (rs_cells m ! i) \<Longrightarrow> 0 \<le> q \<and> q < int (rs_size m)"
    "\<And>i q. i < rs_size m \<Longrightarrow> q < rs_size m \<Longrightarrow> int q \<in> rc_seq (rs_cells m ! i) \<longleftrightarrow> rc_tail (rs_cells m ! q) = int i"
    "\<And>q. q < rs_size m \<Longrightarrow> - 1 \<le> rc_tail (rs_cells m ! q) \<and> rc_tail (rs_cells m ! q) < int (rs_size m)"
    "\<And>i. i < rs_size m \<Longrightarrow> rc_src (rs_cells m ! i) = - 1 \<or> rc_src (rs_cells m ! i) = int i"
    "\<And>i. i < rs_size m \<Longrightarrow> rc_seq (rs_cells m ! i) = {} \<Longrightarrow> rc_pos (rs_cells m ! i) = - 1"
    "\<And>i. i < rs_size m \<Longrightarrow> rc_seq (rs_cells m ! i) \<noteq> {} \<Longrightarrow> 0 \<le> rc_pos (rs_cells m ! i) \<and> rc_pos (rs_cells m ! i) < int32_max"
    "rs_used m = card (rs_occupied m)"
  using assms unfolding rs_wf_def by (simp_all split: if_splits)

lemma rs_put_simps [simp]:
  "rs_size (rs_put i f m) = rs_size m" "rs_head (rs_put i f m) = rs_head m" "rs_used (rs_put i f m) = rs_used m"
  "rs_n (rs_put i f m) = rs_n m" "rs_z (rs_put i f m) = rs_z m" "length (rs_cells (rs_put i f m)) = length (rs_cells m)"
  by (simp_all add: rs_put_def)

lemma rs_put_nth [simp]:
  "j < length (rs_cells m) \<Longrightarrow> rs_cells (rs_put i f m) ! j = (if j = i then f (rs_cells m ! j) else rs_cells m ! j)"
  by (simp add: rs_put_def nth_list_update)

lemma rs_at_Some: "0 \<le> i \<Longrightarrow> nat i < length (rs_cells m) \<Longrightarrow> rs_at m i = Some (rs_cells m ! nat i)"
  by (simp add: rs_at_def)

lemma rs_new_wf: "0 < sz \<Longrightarrow> sz \<le> 2147483647 \<Longrightarrow> rs_wf (rs_new sz)"
  by (simp add: rs_wf_def rs_new_def rs_cell_new_def rs_occupied_def)

lemma rs_clear_wf: "rs_wf m \<Longrightarrow> rs_wf (rs_clear m)"
  unfolding rs_wf_def by (simp add: rs_clear_def rs_occupied_def)

section \<open>The state of a sequence\<close>

text \<open>The abstract memory: for every sequence that has a state, its last position and its state.
  \<open>D\<close> is the contents of one layer, row by row, and \<open>Z\<close> the zero state.\<close>

definition rs_value :: "'v \<Rightarrow> (nat \<Rightarrow> 'v) \<Rightarrow> int \<Rightarrow> 'v" where
  "rs_value Z D src = (if src < 0 then Z else D (nat src))"

definition rs_state :: "'v \<Rightarrow> (nat \<Rightarrow> 'v) \<Rightarrow> rs_memory \<Rightarrow> nat \<Rightarrow> (int \<times> 'v) option" where
  "rs_state Z D m q = (if q < rs_size m \<and> 0 \<le> rc_tail (rs_cells m ! q) then
     let c = rs_cells m ! nat (rc_tail (rs_cells m ! q)) in Some (rc_pos c, rs_value Z D (rc_src c)) else None)"

text \<open>The part of a cell that the tensors and the sequences see.\<close>

definition rc_same :: "rs_cell \<Rightarrow> rs_cell \<Rightarrow> bool" where
  "rc_same c d \<longleftrightarrow> rc_pos c = rc_pos d \<and> rc_src c = rc_src d"

lemma rc_same_refl [simp]: "rc_same c c"
  by (simp add: rc_same_def)

lemma rs_wf_tail:
  assumes "rs_wf m" "q < rs_size m" "0 \<le> rc_tail (rs_cells m ! q)"
  shows "nat (rc_tail (rs_cells m ! q)) < rs_size m" "int q \<in> rc_seq (rs_cells m ! nat (rc_tail (rs_cells m ! q)))"
    "rs_at m (rc_tail (rs_cells m ! q)) = Some (rs_cells m ! nat (rc_tail (rs_cells m ! q)))"
proof -
  note W = rs_wfD [OF assms(1)]
  show lt: "nat (rc_tail (rs_cells m ! q)) < rs_size m" using W(2,3) W(7) [OF assms(2)] assms(3) by simp
  show "int q \<in> rc_seq (rs_cells m ! nat (rc_tail (rs_cells m ! q)))" using W(6) [OF lt assms(2)] assms(3) by simp
  show "rs_at m (rc_tail (rs_cells m ! q)) = Some (rs_cells m ! nat (rc_tail (rs_cells m ! q)))"
    using lt W(1) assms(3) by (simp add: rs_at_def)
qed

lemma rs_wf_holder: "rs_wf m \<Longrightarrow> i < rs_size m \<Longrightarrow> int q \<in> rc_seq (rs_cells m ! i) \<Longrightarrow> q < rs_size m \<and> rc_tail (rs_cells m ! q) = int i"
  using rs_wfD(5,6) by (metis of_nat_less_iff)

lemma finite_occupied [simp]: "finite (rs_occupied m)"
  by (simp add: rs_occupied_def)

lemma occupied_pos: "i \<in> rs_occupied m \<Longrightarrow> 0 < card (rs_occupied m)"
  by (simp add: card_gt_0_iff) blast

text \<open>Changing who is in a cell: the rule behind every operation. \<open>T\<close> is the new tail of each
  sequence, \<open>S\<close> the new set of each cell.\<close>

lemma rs_wf_change:
  assumes wf: "rs_wf m"
    and frame: "rs_size m' = rs_size m" "length (rs_cells m') = length (rs_cells m)" "rs_head m' < rs_size m"
    and seq: "\<And>i q. i < rs_size m \<Longrightarrow> q \<in> rc_seq (rs_cells m' ! i) \<Longrightarrow> 0 \<le> q \<and> q < int (rs_size m)"
    and tail: "\<And>i q. i < rs_size m \<Longrightarrow> q < rs_size m \<Longrightarrow> int q \<in> rc_seq (rs_cells m' ! i) \<longleftrightarrow> rc_tail (rs_cells m' ! q) = int i"
    and range: "\<And>q. q < rs_size m \<Longrightarrow> - 1 \<le> rc_tail (rs_cells m' ! q) \<and> rc_tail (rs_cells m' ! q) < int (rs_size m)"
    and kept: "\<And>i. i < rs_size m \<Longrightarrow> rc_seq (rs_cells m' ! i) \<noteq> {} \<Longrightarrow>
      rc_same (rs_cells m' ! i) (rs_cells m ! i) \<and> rc_seq (rs_cells m ! i) \<noteq> {}"
    and freed: "\<And>i. i < rs_size m \<Longrightarrow> rc_seq (rs_cells m' ! i) = {} \<Longrightarrow>
      (rc_pos (rs_cells m' ! i) = - 1 \<and> rc_src (rs_cells m' ! i) = - 1) \<or> (rc_same (rs_cells m' ! i) (rs_cells m ! i) \<and> rc_seq (rs_cells m ! i) = {})"
    and used: "rs_used m' = card (rs_occupied m')"
  shows "rs_wf m'"
  unfolding rs_wf_def frame
  using rs_wfD(1,2,4,8-10) [OF wf] assms(2-) unfolding rc_same_def by (intro conjI allI impI ballI) (auto, metis+)

section \<open>What the operations do\<close>

text \<open>The effect of taking sequences out of their cells: the sequences of \<open>Q\<close> lose their tail, the
  cells lose the members of \<open>Q\<close>, and a cell left without a sequence is reset.\<close>

definition rs_dropped :: "nat set \<Rightarrow> rs_memory \<Rightarrow> rs_memory \<Rightarrow> bool" where
  "rs_dropped Q m m' \<longleftrightarrow> rs_wf m' \<and> rs_size m' = rs_size m \<and>
     (\<forall>p < rs_size m. rc_tail (rs_cells m' ! p) = (if p \<in> Q then - 1 else rc_tail (rs_cells m ! p))) \<and>
     (\<forall>i < rs_size m. rc_seq (rs_cells m' ! i) = rc_seq (rs_cells m ! i) - int ` Q) \<and>
     (\<forall>i < rs_size m. rc_seq (rs_cells m' ! i) \<noteq> {} \<longrightarrow> rc_same (rs_cells m' ! i) (rs_cells m ! i)) \<and>
     (\<forall>i < rs_size m. rc_seq (rs_cells m' ! i) = {} \<longrightarrow> rc_src (rs_cells m' ! i) = - 1 \<or>
        rc_seq (rs_cells m ! i) = {} \<and> rc_src (rs_cells m' ! i) = rc_src (rs_cells m ! i))"

lemma rs_dropped_refl: "rs_wf m \<Longrightarrow> rs_dropped {} m m"
  by (simp add: rs_dropped_def)

lemma rs_droppedD:
  assumes "rs_dropped Q m m'"
  shows "rs_wf m'" "rs_size m' = rs_size m"
    "\<And>p. p < rs_size m \<Longrightarrow> rc_tail (rs_cells m' ! p) = (if p \<in> Q then - 1 else rc_tail (rs_cells m ! p))"
    "\<And>i. i < rs_size m \<Longrightarrow> rc_seq (rs_cells m' ! i) = rc_seq (rs_cells m ! i) - int ` Q"
    "\<And>i. i < rs_size m \<Longrightarrow> rc_seq (rs_cells m' ! i) \<noteq> {} \<Longrightarrow> rc_same (rs_cells m' ! i) (rs_cells m ! i)"
    "\<And>i. i < rs_size m \<Longrightarrow> rc_seq (rs_cells m' ! i) = {} \<Longrightarrow> rc_src (rs_cells m' ! i) = - 1 \<or>
       rc_seq (rs_cells m ! i) = {} \<and> rc_src (rs_cells m' ! i) = rc_src (rs_cells m ! i)"
  using assms unfolding rs_dropped_def by blast+

lemma rs_dropped_trans:
  assumes "rs_dropped Q m m1" "rs_dropped R m1 m2"
  shows "rs_dropped (Q \<union> R) m m2"
  unfolding rs_dropped_def
proof (intro conjI allI impI)
  note A = rs_droppedD [OF assms(1)] and B = rs_droppedD [OF assms(2)]
  show "rs_wf m2" "rs_size m2 = rs_size m" using A(2) B(1,2) by simp_all
  show "rc_tail (rs_cells m2 ! p) = (if p \<in> Q \<union> R then - 1 else rc_tail (rs_cells m ! p))" if "p < rs_size m" for p
    using A(2) A(3) [OF that] B(3) [of p] that by simp
  fix i assume i: "i < rs_size m"
  have S1: "rc_seq (rs_cells m2 ! i) = rc_seq (rs_cells m1 ! i) - int ` R" using A(2) B(4) i by simp
  then show "rc_seq (rs_cells m2 ! i) = rc_seq (rs_cells m ! i) - int ` (Q \<union> R)" using A(4) [OF i] by auto
  show "rc_same (rs_cells m2 ! i) (rs_cells m ! i)" if "rc_seq (rs_cells m2 ! i) \<noteq> {}"
  proof -
    from that S1 have "rc_seq (rs_cells m1 ! i) \<noteq> {}" by auto
    with A(2,5) B(5) i that show ?thesis by (simp add: rc_same_def)
  qed
  show "rc_src (rs_cells m2 ! i) = - 1 \<or> rc_seq (rs_cells m ! i) = {} \<and> rc_src (rs_cells m2 ! i) = rc_src (rs_cells m ! i)"
    if "rc_seq (rs_cells m2 ! i) = {}"
    using B(6) [of i] A(2) A(6) [OF i] i that by auto
qed

lemma rs_dropped_state:
  assumes "rs_wf m" "rs_dropped Q m m'"
  shows "rs_state Z D m' q = (if q \<in> Q then None else rs_state Z D m q)"
proof (cases "q < rs_size m \<and> q \<notin> Q \<and> 0 \<le> rc_tail (rs_cells m ! q)")
  case True
  then have q: "q < rs_size m" "q \<notin> Q" "0 \<le> rc_tail (rs_cells m ! q)" by simp_all
  note t = rs_wf_tail [OF assms(1) q(1,3)]
  let ?t = "nat (rc_tail (rs_cells m ! q))"
  have "int q \<in> rc_seq (rs_cells m' ! ?t)" using rs_droppedD(4) [OF assms(2) t(1)] t(2) q(2) by auto
  then have "rc_same (rs_cells m' ! ?t) (rs_cells m ! ?t)" using rs_droppedD(5) [OF assms(2) t(1)] by auto
  with assms(2) q show ?thesis by (simp add: rs_state_def rs_dropped_def rc_same_def Let_def)
next
  case False
  with assms(2) show ?thesis by (auto simp: rs_state_def rs_dropped_def)
qed

lemma occupied_dropped: "rs_dropped Q m m' \<Longrightarrow> rs_occupied m' \<subseteq> rs_occupied m"
  by (auto simp: rs_dropped_def rs_occupied_def)

text \<open>One sequence: the cell \<open>t\<close> that holds it is rewritten, or reset when nobody else is in it.\<close>

lemma rs_dropped_one:
  assumes wf: "rs_wf m" and q: "q < rs_size m" and t: "rc_tail (rs_cells m ! q) = int t"
    and frame: "rs_size m' = rs_size m" "length (rs_cells m') = length (rs_cells m)" "rs_head m' < rs_size m"
    and cells: "\<And>i. i < rs_size m \<Longrightarrow> rc_seq (rs_cells m' ! i) = rc_seq (rs_cells m ! i) - (if i = t then {int q} else {})"
      "\<And>p. p < rs_size m \<Longrightarrow> rc_tail (rs_cells m' ! p) = (if p = q then - 1 else rc_tail (rs_cells m ! p))"
      "\<And>i. i < rs_size m \<Longrightarrow> i \<noteq> t \<or> rc_seq (rs_cells m ! t) \<noteq> {int q} \<Longrightarrow> rc_same (rs_cells m' ! i) (rs_cells m ! i)"
      "rc_seq (rs_cells m ! t) = {int q} \<Longrightarrow> rc_pos (rs_cells m' ! t) = - 1 \<and> rc_src (rs_cells m' ! t) = - 1"
    and used: "rs_used m' = (if rc_seq (rs_cells m ! t) = {int q} then u32_dec (rs_used m) else rs_used m)"
  shows "rs_dropped {q} m m'"
proof -
  note W = rs_wfD [OF wf]
  have tt: "t < rs_size m" "int q \<in> rc_seq (rs_cells m ! t)" using rs_wf_tail [OF wf q] t by simp_all
  have only: "int q \<notin> rc_seq (rs_cells m ! i)" if "i < rs_size m" "i \<noteq> t" for i
    using W(6) [OF that(1) q] t that(2) by simp
  have occ: "rs_occupied m' = (if rc_seq (rs_cells m ! t) = {int q} then rs_occupied m - {t} else rs_occupied m)"
    using tt cells(1) by (auto simp: rs_occupied_def frame split: if_splits)
  have "t \<in> rs_occupied m" using tt by (auto simp: rs_occupied_def)
  with occ used W(11) have used': "rs_used m' = card (rs_occupied m')"
    using occupied_pos by (auto simp: u32_dec_def)
  have "rs_wf m'"
  proof (rule rs_wf_change [OF wf frame])
    show "0 \<le> p \<and> p < int (rs_size m)" if "i < rs_size m" "p \<in> rc_seq (rs_cells m' ! i)" for i p
      using W(5) [OF that(1)] that(2) cells(1) [OF that(1)] by auto
    show "int p \<in> rc_seq (rs_cells m' ! i) \<longleftrightarrow> rc_tail (rs_cells m' ! p) = int i" if "i < rs_size m" "p < rs_size m" for i p
      using W(6) [OF that] cells(1) [OF that(1)] cells(2) [OF that(2)] only [OF that(1)] by auto
    show "- 1 \<le> rc_tail (rs_cells m' ! p) \<and> rc_tail (rs_cells m' ! p) < int (rs_size m)" if "p < rs_size m" for p
      using W(7) [OF that] cells(2) [OF that] by simp
    show "rc_same (rs_cells m' ! i) (rs_cells m ! i) \<and> rc_seq (rs_cells m ! i) \<noteq> {}"
      if "i < rs_size m" "rc_seq (rs_cells m' ! i) \<noteq> {}" for i
      using that cells(1) [OF that(1)] cells(3) [OF that(1)] by (auto split: if_splits)
    show "(rc_pos (rs_cells m' ! i) = - 1 \<and> rc_src (rs_cells m' ! i) = - 1) \<or>
        (rc_same (rs_cells m' ! i) (rs_cells m ! i) \<and> rc_seq (rs_cells m ! i) = {})"
      if "i < rs_size m" "rc_seq (rs_cells m' ! i) = {}" for i
      using that cells(1) [OF that(1)] cells(3) [OF that(1)] cells(4) tt by (cases "i = t") auto
  qed (rule used')
  moreover have "rc_seq (rs_cells m' ! i) = rc_seq (rs_cells m ! i) - int ` {q}" if "i < rs_size m" for i
    using cells(1) [OF that] only [OF that] by auto
  moreover have "rc_same (rs_cells m' ! i) (rs_cells m ! i)" if "i < rs_size m" "rc_seq (rs_cells m' ! i) \<noteq> {}" for i
    using cells(3) [OF that(1)] cells(1) [OF that(1)] that(2) by (cases "i = t") auto
  moreover have "rc_src (rs_cells m' ! i) = - 1 \<or> rc_seq (rs_cells m ! i) = {} \<and> rc_src (rs_cells m' ! i) = rc_src (rs_cells m ! i)"
    if "i < rs_size m" "rc_seq (rs_cells m' ! i) = {}" for i
    using cells(1) [OF that(1)] cells(3) [OF that(1)] cells(4) tt that(2) by (cases "i = t") (auto simp: rc_same_def)
  ultimately show ?thesis using cells(2) frame(1) by (auto simp: rs_dropped_def)
qed

lemma rs_dropped_none:
  assumes wf: "rs_wf m" and q: "q < rs_size m" and t: "\<not> 0 \<le> rc_tail (rs_cells m ! q)"
  shows "rs_dropped {q} m m"
proof -
  note W = rs_wfD [OF wf]
  have "rc_tail (rs_cells m ! q) = - 1" using W(7) [OF q] t by simp
  moreover have "int q \<notin> rc_seq (rs_cells m ! i)" if "i < rs_size m" for i using W(6) [OF that q] t by auto
  ultimately show ?thesis using wf by (auto simp: rs_dropped_def)
qed

lemma rs_drop_tail_spec:
  assumes wf: "rs_wf m" and q: "q < rs_size m"
  shows "\<exists>m'. rs_drop_tail q m = Some m' \<and> rs_dropped {q} m m' \<and> rs_head m' = rs_head m"
proof (cases "0 \<le> rc_tail (rs_cells m ! q)")
  case False
  with rs_dropped_none [OF assms] show ?thesis by (simp add: rs_drop_tail_def)
next
  case True
  note W = rs_wfD [OF wf]
  note t = rs_wf_tail [OF wf q True]
  let ?t = "nat (rc_tail (rs_cells m ! q))"
  let ?m2 = "rs_put q (\<lambda>c. c\<lparr>rc_tail := - 1\<rparr>) (rs_put ?t (\<lambda>c. c\<lparr>rc_seq := rc_seq c - {int q}\<rparr>) m)"
  let ?m' = "if rc_seq (rs_cells m ! ?t) - {int q} = {} then
      (rs_put ?t (\<lambda>c. c\<lparr>rc_pos := - 1, rc_src := - 1\<rparr>) ?m2)\<lparr>rs_used := u32_dec (rs_used ?m2)\<rparr> else ?m2"
  have one: "rc_seq (rs_cells m ! ?t) = {int q} \<longleftrightarrow> rc_seq (rs_cells m ! ?t) - {int q} = {}" using t(2) by auto
  have "rs_drop_tail q m = Some ?m'" using True t(3) by (simp add: rs_drop_tail_def Let_def)
  moreover have "rs_dropped {q} m ?m'"
    by (rule rs_dropped_one [OF wf q, of ?t]) (use W(1,3) True t(1) q in \<open>auto simp: one rc_same_def\<close>)
  ultimately show ?thesis by auto
qed

lemma fold_same: "(\<And>i. i \<in> set xs \<Longrightarrow> f i s = s) \<Longrightarrow> fold f xs s = s"
  by (induction xs) auto

lemma fold_single:
  assumes "t < n" "\<And>i. i < t \<Longrightarrow> f i s = s" "\<And>i. t < i \<Longrightarrow> i < n \<Longrightarrow> f i (f t s) = f t s"
  shows "fold f [0..<n] s = f t s"
proof -
  have "[0..<n] = [0..<t] @ t # [Suc t..<n]" using assms(1) by (metis less_imp_le_nat upt_add_eq_append le_add_diff_inverse upt_conv_Cons zero_le)
  then have "fold f [0..<n] s = fold f [Suc t..<n] (f t (fold f [0..<t] s))" by simp
  also have "fold f [0..<t] s = s" by (rule fold_same) (use assms(2) in simp)
  also have "fold f [Suc t..<n] (f t s) = f t s" by (rule fold_same) (use assms(3) in simp)
  finally show ?thesis .
qed

text \<open>\<^verbatim>\<open>seq_rm\<close> of one sequence: which ranges are refused, and what is removed otherwise.\<close>

definition rs_rm_refused :: "nat \<Rightarrow> int \<Rightarrow> int \<Rightarrow> rs_memory \<Rightarrow> bool" where
  "rs_rm_refused q p0 p1 m \<longleftrightarrow> 0 \<le> rc_tail (rs_cells m ! q) \<and>
     (let p = rc_pos (rs_cells m ! nat (rc_tail (rs_cells m ! q))) in (0 < p0 \<and> p0 < p) \<or> (0 < p1 \<and> p1 \<le> p))"

definition rs_rm_hit :: "nat \<Rightarrow> int \<Rightarrow> int \<Rightarrow> rs_memory \<Rightarrow> bool" where
  "rs_rm_hit q p0 p1 m \<longleftrightarrow> 0 \<le> rc_tail (rs_cells m ! q) \<and>
     (let p = rc_pos (rs_cells m ! nat (rc_tail (rs_cells m ! q))) in p0 \<le> p \<and> p < p1)"

lemma rs_rm_cell_skip: "int q \<notin> rc_seq (rs_cells m ! i) \<Longrightarrow> rs_rm_cell (int q) p0 p1 i (m, h) = (m, h)"
  by (simp add: rs_rm_cell_def)

lemma rs_rm_cell_other: "j < length (rs_cells m) \<Longrightarrow> j \<noteq> i \<Longrightarrow> rs_cells (fst (rs_rm_cell q p0 p1 i (m, h))) ! j = rs_cells m ! j"
  by (simp add: rs_rm_cell_def Let_def)

lemma rs_lower_head_dropped:
  assumes "rs_dropped Q m m1" "h \<le> rs_size m"
  shows "rs_dropped Q m (rs_lower_head (m1, h))"
proof -
  note A = rs_droppedD [OF assms(1)]
  have "rs_wf (m1\<lparr>rs_head := h\<rparr>)" if "h < rs_head m1" 
    using that A(1) unfolding rs_wf_def by (auto simp: rs_occupied_def)
  with assms A show ?thesis by (auto simp: rs_lower_head_def rs_dropped_def)
qed

lemma rs_seq_rm_spec:
  assumes wf: "rs_wf m" and q: "q < rs_size m"
  shows "if rs_rm_refused q (rs_p0 p0) (rs_p1 p1) m then rs_seq_rm (int q) p0 p1 m = Some (False, m)
    else \<exists>m'. rs_seq_rm (int q) p0 p1 m = Some (True, m') \<and>
      rs_dropped (if rs_rm_hit q (rs_p0 p0) (rs_p1 p1) m then {q} else {}) m m'"
proof -
  note W = rs_wfD [OF wf]
  let ?p0 = "rs_p0 p0" and ?p1 = "rs_p1 p1" and ?t = "nat (rc_tail (rs_cells m ! q))"
  have holder: "int q \<notin> rc_seq (rs_cells m ! i)" if "i < rs_size m" "rc_tail (rs_cells m ! q) \<noteq> int i" for i
    using W(6) [OF that(1) q] that(2) by simp
  show ?thesis
  proof (cases "rs_rm_hit q ?p0 ?p1 m \<and> \<not> rs_rm_refused q ?p0 ?p1 m")
    case True
    then have t0: "0 \<le> rc_tail (rs_cells m ! q)" by (simp add: rs_rm_hit_def)
    note t = rs_wf_tail [OF wf q t0]
    let ?m1 = "rs_put q (\<lambda>c. c\<lparr>rc_tail := - 1\<rparr>) m"
    let ?r = "rs_rm_cell (int q) ?p0 ?p1 ?t (?m1, rs_size m)"
    have seq1: "rc_seq (rs_cells ?m1 ! i) = rc_seq (rs_cells m ! i)" "rc_pos (rs_cells ?m1 ! i) = rc_pos (rs_cells m ! i)"
      "rc_src (rs_cells ?m1 ! i) = rc_src (rs_cells m ! i)" if "i < rs_size m" for i
      using W(1) that by simp_all
    have loop: "fold (rs_rm_cell (int q) ?p0 ?p1) [0..<rs_size m] (?m1, rs_size m) = ?r"
    proof (rule fold_single [OF t(1)])
      show "rs_rm_cell (int q) ?p0 ?p1 i (?m1, rs_size m) = (?m1, rs_size m)" if "i < ?t" for i
        using that t(1) holder [of i] seq1(1) [of i] by (intro rs_rm_cell_skip) auto
      show "rs_rm_cell (int q) ?p0 ?p1 i ?r = ?r" if "?t < i" "i < rs_size m" for i
      proof -
        have "int q \<notin> rc_seq (rs_cells (fst ?r) ! i)"
          using that t0 holder [of i] W(1) by (cases "i = q") (auto simp: rs_rm_cell_other)
        from rs_rm_cell_skip [OF this] show ?thesis by (metis prod.collapse)
      qed
    qed
    have one: "rc_seq (rs_cells m ! ?t) = {int q} \<longleftrightarrow> rc_seq (rs_cells m ! ?t) - {int q} = {}" using t(2) by auto
    have pos: "0 \<le> rc_pos (rs_cells m ! ?t)" using W(10) [OF t(1)] t(2) by auto
    have hit: "?p0 \<le> rc_pos (rs_cells m ! ?t)" "rc_pos (rs_cells m ! ?t) < ?p1"
      using True by (simp_all add: rs_rm_hit_def Let_def)
    have "rs_dropped {q} m (fst ?r)"
      by (rule rs_dropped_one [OF wf q, of ?t]) (use W(1,3) t0 t(1,2) q hit pos in \<open>auto simp: one rs_rm_cell_def Let_def seq1 rc_same_def split: if_splits\<close>)
    moreover have "snd ?r \<le> rs_size m" using t(1) by (simp add: rs_rm_cell_def Let_def)
    ultimately have "rs_dropped {q} m (rs_lower_head ?r)" using rs_lower_head_dropped [of "{q}" m "fst ?r" "snd ?r"] by simp
    moreover have "rs_rm_check (int q) ?p0 ?p1 m = Some (Some ?m1)"
      using True t t0 by (simp add: rs_rm_check_def rs_rm_hit_def rs_rm_refused_def Let_def)
    then have "rs_seq_rm (int q) p0 p1 m = Some (True, rs_lower_head ?r)"
      using q loop by (simp add: rs_seq_rm_def)
    ultimately show ?thesis using True by simp
  next
    case False
    have chk: "rs_rm_check (int q) ?p0 ?p1 m = Some (if rs_rm_refused q ?p0 ?p1 m then None else Some m)"
      using False rs_wf_tail [OF wf q] by (auto simp: rs_rm_check_def rs_rm_hit_def rs_rm_refused_def Let_def)
    have skip: "rs_rm_cell (int q) ?p0 ?p1 i (m, rs_size m) = (m, rs_size m)" if "\<not> rs_rm_hit q ?p0 ?p1 m" "i < rs_size m" for i
      using that W(6) [OF that(2) q] by (auto simp: rs_rm_cell_def rs_rm_hit_def Let_def)
    have "fold (rs_rm_cell (int q) ?p0 ?p1) [0..<rs_size m] (m, rs_size m) = (m, rs_size m)" if "\<not> rs_rm_hit q ?p0 ?p1 m"
      by (rule fold_same) (use skip [OF that] in simp)
    with chk False q rs_dropped_refl [OF wf] show ?thesis
      by (auto simp: rs_seq_rm_def rs_lower_head_def)
  qed
qed

text \<open>\<^verbatim>\<open>seq_cp\<close>: the destination leaves its cell and enters that of the source.\<close>

lemma rs_seq_cp_spec:
  assumes wf: "rs_wf m" and q: "src < rs_size m" "dst < rs_size m" "src \<noteq> dst"
  shows "\<exists>m'. rs_seq_cp (int src) (int dst) p0 p1 m = Some m' \<and> rs_wf m' \<and> rs_size m' = rs_size m \<and>
    (\<forall>Z D p. rs_state Z (D :: nat \<Rightarrow> 'v) m' p = rs_state Z D m (if p = dst then src else p))"
proof -
  from rs_drop_tail_spec [OF wf q(2)] obtain m1 where m1: "rs_drop_tail dst m = Some m1" "rs_dropped {dst} m m1"
    and h1: "rs_head m1 = rs_head m" by blast
  note A = rs_droppedD [OF m1(2)] and st = rs_dropped_state [OF wf m1(2)]
  note W = rs_wfD [OF A(1)]
  have src: "src < rs_size m1" using q A(2) by simp
  have gone: "int dst \<notin> rc_seq (rs_cells m1 ! i)" if "i < rs_size m1" for i using A(2) A(4) [of i] that by simp
  have tdst: "rc_tail (rs_cells m1 ! dst) = - 1" using A(3) [OF q(2)] by simp
  show ?thesis
  proof (cases "0 \<le> rc_tail (rs_cells m1 ! src)")
    case False
    then have "rs_seq_cp (int src) (int dst) p0 p1 m = Some m1" using q m1(1) by (simp add: rs_seq_cp_def Let_def)
    moreover have "rs_state Z D m src = None" for Z and D :: "nat \<Rightarrow> 'v"
      using False A(3) [OF q(1)] q(3) by (simp add: rs_state_def)
    ultimately show ?thesis using A(1,2) by (auto simp: st)
  next
    case True
    note t = rs_wf_tail [OF A(1) src True]
    let ?t = "nat (rc_tail (rs_cells m1 ! src))"
    define m2 where "m2 = rs_put dst (\<lambda>c. c\<lparr>rc_tail := int ?t\<rparr>) (rs_put ?t (\<lambda>c. c\<lparr>rc_seq := insert (int dst) (rc_seq c)\<rparr>) m1)"
    have "rs_seq_cp (int src) (int dst) p0 p1 m = Some m2" using q m1(1) t(3) True by (simp add: rs_seq_cp_def Let_def m2_def)
    moreover have C: "rc_seq (rs_cells m2 ! i) = (if i = ?t then insert (int dst) (rc_seq (rs_cells m1 ! i)) else rc_seq (rs_cells m1 ! i))"
        "rc_tail (rs_cells m2 ! i) = (if i = dst then int ?t else rc_tail (rs_cells m1 ! i))"
        "rc_pos (rs_cells m2 ! i) = rc_pos (rs_cells m1 ! i)" "rc_src (rs_cells m2 ! i) = rc_src (rs_cells m1 ! i)"
      if "i < rs_size m1" for i using that W(1) by (simp_all add: m2_def)
    moreover have sz: "rs_size m2 = rs_size m1" by (simp add: m2_def)
    moreover have occ: "rs_occupied m2 = rs_occupied m1" using C(1) t(1,2) by (auto simp: rs_occupied_def sz split: if_splits)
    have "rs_wf m2"
    proof (rule rs_wf_change [OF A(1)])
      show "0 \<le> p \<and> p < int (rs_size m1)" if "i < rs_size m1" "p \<in> rc_seq (rs_cells m2 ! i)" for i p
        using W(5) [OF that(1)] that(2) C(1) [OF that(1)] q(2) A(2) by (auto split: if_splits)
      show "int p \<in> rc_seq (rs_cells m2 ! i) \<longleftrightarrow> rc_tail (rs_cells m2 ! p) = int i" if "i < rs_size m1" "p < rs_size m1" for i p
        using W(6) [OF that] C(1) [OF that(1)] C(2) [OF that(2)] gone [OF that(1)] t(1) True by auto
      show "- 1 \<le> rc_tail (rs_cells m2 ! p) \<and> rc_tail (rs_cells m2 ! p) < int (rs_size m1)" if "p < rs_size m1" for p
        using W(7) [OF that] C(2) [OF that] t(1) True by (auto simp: nat_less_iff)
      show "rc_same (rs_cells m2 ! i) (rs_cells m1 ! i) \<and> rc_seq (rs_cells m1 ! i) \<noteq> {}"
        if "i < rs_size m1" "rc_seq (rs_cells m2 ! i) \<noteq> {}" for i
        using that C [OF that(1)] t(2) by (auto simp: rc_same_def split: if_splits)
      show "(rc_pos (rs_cells m2 ! i) = - 1 \<and> rc_src (rs_cells m2 ! i) = - 1) \<or>
          (rc_same (rs_cells m2 ! i) (rs_cells m1 ! i) \<and> rc_seq (rs_cells m1 ! i) = {})"
        if "i < rs_size m1" "rc_seq (rs_cells m2 ! i) = {}" for i
        using that C [OF that(1)] by (auto simp: rc_same_def split: if_splits)
    qed (use W(1,3,11) occ in \<open>simp_all add: m2_def\<close>)
    moreover have "rs_state Z D m2 p = rs_state Z D m (if p = dst then src else p)" for Z and D :: "nat \<Rightarrow> 'v" and p
    proof -
      have "rs_state Z D m2 p = rs_state Z D m1 (if p = dst then src else p)"
      proof (cases "p < rs_size m1 \<and> p \<noteq> dst")
        case True
        then have p: "rc_tail (rs_cells m2 ! p) = rc_tail (rs_cells m1 ! p)" using C(2) [of p] by simp
        show ?thesis
        proof (cases "0 \<le> rc_tail (rs_cells m1 ! p)")
          case t': True
          with \<open>p < rs_size m1 \<and> p \<noteq> dst\<close> have "nat (rc_tail (rs_cells m1 ! p)) < rs_size m1" using rs_wf_tail(1) [OF A(1), of p] by simp
          from C(3,4) [OF this] p t' True show ?thesis by (simp add: rs_state_def Let_def sz)
        qed (use p True in \<open>simp add: rs_state_def sz\<close>)
      next
        case False
        have "rc_tail (rs_cells m2 ! dst) = rc_tail (rs_cells m1 ! src)" using C(2) [of dst] q(2) A(2) \<open>0 \<le> rc_tail (rs_cells m1 ! src)\<close> by simp
        with C(3,4) [OF t(1)] src q(2) A(2) have "rs_state Z D m2 dst = rs_state Z D m1 src" by (simp add: rs_state_def Let_def sz)
        with False show ?thesis by (cases "p = dst") (simp_all add: rs_state_def sz)
      qed
      then show ?thesis using q(3) by (simp add: st)
    qed
    ultimately show ?thesis using A(2) by (auto simp: sz)
  qed
qed

text \<open>\<^verbatim>\<open>seq_keep\<close>: every other sequence is dropped.\<close>

definition rs_kept :: "int \<Rightarrow> nat \<Rightarrow> rs_cell \<Rightarrow> rs_cell \<Rightarrow> bool" where
  "rs_kept q i c c' \<longleftrightarrow> rc_seq c' = rc_seq c \<inter> {q} \<and> rc_tail c' = (if int i = q then rc_tail c else - 1) \<and>
     (if rc_seq c' = {} then rc_pos c' = - 1 \<and> rc_src c' = - 1 else rc_same c' c)"

definition rs_keep_upto :: "int \<Rightarrow> nat \<Rightarrow> rs_memory \<Rightarrow> rs_memory \<times> nat \<Rightarrow> bool" where
  "rs_keep_upto q k m = (\<lambda>(m', h). rs_size m' = rs_size m \<and> length (rs_cells m') = length (rs_cells m) \<and> rs_head m' = rs_head m \<and>
     h \<le> rs_size m \<and> rs_used m' = card (rs_occupied m') \<and>
     (\<forall>i < rs_size m. if i < k then rs_kept q i (rs_cells m ! i) (rs_cells m' ! i) else rs_cells m' ! i = rs_cells m ! i))"

lemma fold_upt_inv:
  assumes "P 0 s" "\<And>i s. i < n \<Longrightarrow> P i s \<Longrightarrow> P (Suc i) (f i s)"
  shows "P n (fold f [0..<n] s)"
  using assms by (induction n) auto

lemma rs_keep_step:
  assumes wf: "rs_wf m" and k: "k < rs_size m" and I: "rs_keep_upto q k m s"
  shows "rs_keep_upto q (Suc k) m (rs_keep_cell q k s)"
proof -
  note W = rs_wfD [OF wf]
  obtain m' h where s: "s = (m', h)" by (cases s)
  have F: "rs_size m' = rs_size m" "length (rs_cells m') = rs_size m" "rs_head m' = rs_head m" "h \<le> rs_size m"
    "rs_used m' = card (rs_occupied m')" and at: "rs_cells m' ! k = rs_cells m ! k"
    using I k W(1) unfolding rs_keep_upto_def s by auto
  obtain m'' h' where r: "rs_keep_cell q k s = (m'', h')" by (cases "rs_keep_cell q k s")
  have r': "rs_size m'' = rs_size m" "length (rs_cells m'') = rs_size m" "rs_head m'' = rs_head m" "h' \<le> rs_size m"
    using r F k by (auto simp: rs_keep_cell_def s Let_def split: if_splits)
  have other: "rs_cells m'' ! i = rs_cells m' ! i" if "i < rs_size m" "i \<noteq> k" for i
    using r that F by (auto simp: rs_keep_cell_def s Let_def split: if_splits)
  have cell: "rs_kept q k (rs_cells m ! k) (rs_cells m'' ! k)"
    using r F k at by (auto simp: rs_keep_cell_def s Let_def rc_same_def rs_kept_def split: if_splits)
  have occ: "rs_occupied m'' = (if q \<in> rc_seq (rs_cells m ! k) then rs_occupied m' else rs_occupied m' - {k})"
  proof (rule set_eqI)
    show "i \<in> rs_occupied m'' \<longleftrightarrow> i \<in> (if q \<in> rc_seq (rs_cells m ! k) then rs_occupied m' else rs_occupied m' - {k})" for i
      using other [of i] cell at k r'(1) F(1) by (cases "i = k") (auto simp: rs_occupied_def rs_kept_def)
  qed
  have mem: "k \<in> rs_occupied m' \<longleftrightarrow> rc_seq (rs_cells m ! k) \<noteq> {}" using at k F(1) by (simp add: rs_occupied_def)
  have "rs_used m'' = (if q \<notin> rc_seq (rs_cells m ! k) \<and> 0 \<le> rc_pos (rs_cells m ! k) then u32_dec (rs_used m') else rs_used m')"
    using r F k at by (auto simp: rs_keep_cell_def s Let_def split: if_splits)
  moreover have "0 \<le> rc_pos (rs_cells m ! k) \<longleftrightarrow> k \<in> rs_occupied m'" using W(9,10) [OF k] mem by auto
  ultimately have "rs_used m'' = card (rs_occupied m'')"
    using occ F(5) occupied_pos [of k m'] by (cases "q \<in> rc_seq (rs_cells m ! k)"; cases "k \<in> rs_occupied m'") (auto simp: u32_dec_def)
  moreover have "if i < Suc k then rs_kept q i (rs_cells m ! i) (rs_cells m'' ! i) else rs_cells m'' ! i = rs_cells m ! i"
    if "i < rs_size m" for i
  proof (cases "i = k")
    case True
    with cell show ?thesis by simp
  next
    case False
    with I that have "if i < k then rs_kept q i (rs_cells m ! i) (rs_cells m' ! i) else rs_cells m' ! i = rs_cells m ! i"
      unfolding s rs_keep_upto_def by simp
    with False other [OF that] show ?thesis by (auto split: if_splits)
  qed
  ultimately show ?thesis using r' W(1) by (simp add: r rs_keep_upto_def)
qed

lemma rs_seq_keep_any:
  assumes wf: "rs_wf m"
  shows "rs_dropped {p. p < rs_size m \<and> int p \<noteq> q} m (rs_seq_keep q m)"
proof -
  note W = rs_wfD [OF wf]
  let ?r = "fold (rs_keep_cell q) [0..<rs_size m] (m, rs_size m)"
  have "rs_keep_upto q (rs_size m) m ?r"
    by (rule fold_upt_inv) (use rs_keep_step [OF wf] W(11) in \<open>simp_all add: rs_keep_upto_def\<close>)
  moreover obtain m' h where r: "?r = (m', h)" by (cases ?r)
  ultimately have F: "rs_size m' = rs_size m" "length (rs_cells m') = length (rs_cells m)" "rs_head m' = rs_head m" "h \<le> rs_size m"
    "rs_used m' = card (rs_occupied m')"
    and seq: "\<And>i. i < rs_size m \<Longrightarrow> rc_seq (rs_cells m' ! i) = rc_seq (rs_cells m ! i) \<inter> {q}"
    and tail: "\<And>i. i < rs_size m \<Longrightarrow> rc_tail (rs_cells m' ! i) = (if int i = q then rc_tail (rs_cells m ! i) else - 1)"
    and gone: "\<And>i. i < rs_size m \<Longrightarrow> rc_seq (rs_cells m' ! i) = {} \<Longrightarrow> rc_pos (rs_cells m' ! i) = - 1 \<and> rc_src (rs_cells m' ! i) = - 1"
    and kept: "\<And>i. i < rs_size m \<Longrightarrow> rc_seq (rs_cells m' ! i) \<noteq> {} \<Longrightarrow> rc_same (rs_cells m' ! i) (rs_cells m ! i)"
    unfolding rs_keep_upto_def rs_kept_def by (auto split: if_splits)
  have wf': "rs_wf m'"
  proof (rule rs_wf_change [OF wf F(1,2)])
    show "0 \<le> p \<and> p < int (rs_size m)" if "i < rs_size m" "p \<in> rc_seq (rs_cells m' ! i)" for i p
      using seq [OF that(1)] that(2) W(5) [OF that(1)] by auto
    show "int p \<in> rc_seq (rs_cells m' ! i) \<longleftrightarrow> rc_tail (rs_cells m' ! p) = int i" if "i < rs_size m" "p < rs_size m" for i p
      using W(6) [OF that] seq [OF that(1)] tail [OF that(2)] by auto
    show "- 1 \<le> rc_tail (rs_cells m' ! p) \<and> rc_tail (rs_cells m' ! p) < int (rs_size m)" if "p < rs_size m" for p
      using W(7) [OF that] tail [OF that] by auto
  qed (use W(3) F seq gone kept in auto)
  have "rs_dropped {p. p < rs_size m \<and> int p \<noteq> q} m m'"
    unfolding rs_dropped_def
  proof (intro conjI allI impI)
    fix i assume i: "i < rs_size m"
    show "rc_seq (rs_cells m' ! i) = rc_seq (rs_cells m ! i) - int ` {p. p < rs_size m \<and> int p \<noteq> q}"
      using seq [OF i] W(5) [OF i] zero_le_imp_eq_int by fastforce
  qed (use wf' F tail kept gone in auto)
  from rs_lower_head_dropped [OF this F(4)] r show ?thesis by (simp add: rs_seq_keep_def)
qed

lemma rs_seq_keep_spec:
  assumes "rs_wf m" "q < rs_size m"
  shows "rs_dropped ({..<rs_size m} - {q}) m (rs_seq_keep (int q) m)"
proof -
  have "{p. p < rs_size m \<and> int p \<noteq> int q} = {..<rs_size m} - {q}" by auto
  with rs_seq_keep_any [OF assms(1), of "int q"] show ?thesis by simp
qed

text \<open>\<^verbatim>\<open>seq_add\<close> and \<^verbatim>\<open>seq_div\<close>: the new position must stay in the range of positions.\<close>

definition rs_same_places :: "rs_memory \<Rightarrow> rs_memory \<Rightarrow> bool" where
  "rs_same_places m m' \<longleftrightarrow> rs_size m' = rs_size m \<and> (\<forall>i < rs_size m. rc_seq (rs_cells m' ! i) = rc_seq (rs_cells m ! i) \<and>
     rc_tail (rs_cells m' ! i) = rc_tail (rs_cells m ! i) \<and> rc_src (rs_cells m' ! i) = rc_src (rs_cells m ! i))"

lemma rs_move_pos_spec:
  assumes wf: "rs_wf m" and q: "q < rs_size m" and p: "p0 \<noteq> p1"
    and f: "\<And>x. p0 \<le> x \<Longrightarrow> x < p1 \<Longrightarrow> rs_state () (\<lambda>_. ()) m q = Some (x, ()) \<Longrightarrow> \<exists>y. f x = Some y \<and> 0 \<le> y \<and> y < int32_max"
  shows "\<exists>m'. rs_move_pos (int q) p0 p1 f m = Some m' \<and> rs_wf m' \<and> rs_same_places m m' \<and>
    rs_state Z D m' q = map_option (\<lambda>(x, v). (if p0 \<le> x \<and> x < p1 then the (f x) else x, v)) (rs_state Z D m q)"
proof (cases "rs_rm_hit q p0 p1 m")
  case True
  note W = rs_wfD [OF wf]
  have t0: "0 \<le> rc_tail (rs_cells m ! q)" using True by (simp add: rs_rm_hit_def)
  note t = rs_wf_tail [OF wf q t0]
  let ?t = "nat (rc_tail (rs_cells m ! q))"
  have r: "p0 \<le> rc_pos (rs_cells m ! ?t)" "rc_pos (rs_cells m ! ?t) < p1" using True by (simp_all add: rs_rm_hit_def Let_def)
  have "rs_state () (\<lambda>_. ()) m q = Some (rc_pos (rs_cells m ! ?t), ())" using q t0 by (simp add: rs_state_def Let_def)
  with f r obtain y where y: "f (rc_pos (rs_cells m ! ?t)) = Some y" "0 \<le> y" "y < int32_max" by blast
  let ?m' = "rs_put ?t (\<lambda>c. c\<lparr>rc_pos := y\<rparr>) m"
  have "rs_move_pos (int q) p0 p1 f m = Some ?m'" using p q t0 t r y by (simp add: rs_move_pos_def Let_def)
  moreover have occ: "rs_occupied ?m' = rs_occupied m" using W(1) by (auto simp: rs_occupied_def split: if_splits)
  have "rs_wf ?m'" using wf y t unfolding rs_wf_def occ by (auto split: if_splits)
  moreover have "rs_same_places m ?m'" using W(1) by (simp add: rs_same_places_def)
  ultimately show ?thesis using q t0 t W(1) r y by (simp add: rs_state_def Let_def)
next
  case False
  have "rs_move_pos (int q) p0 p1 f m = Some m"
    using False rs_wf_tail [OF wf q] q by (auto simp: rs_move_pos_def rs_rm_hit_def Let_def)
  moreover have "map_option (\<lambda>(x, v). (if p0 \<le> x \<and> x < p1 then the (f x) else x, v)) (rs_state Z D m q) = rs_state Z D m q"
    using False by (auto simp: rs_state_def rs_rm_hit_def Let_def)
  ultimately show ?thesis using wf by (simp add: rs_same_places_def)
qed

text \<open>The positions that \<^verbatim>\<open>seq_pos_min\<close> and \<^verbatim>\<open>seq_pos_max\<close> report are that of the one cell of the sequence.\<close>

definition rs_pos_of :: "rs_memory \<Rightarrow> nat \<Rightarrow> int" where
  "rs_pos_of m q = (case rs_state () (\<lambda>_. ()) m q of None \<Rightarrow> - 1 | Some (p, _) \<Rightarrow> p)"

lemma rs_seq_pos_spec:
  assumes wf: "rs_wf m" and q: "q < rs_size m"
  shows "rs_seq_pos_min (int q) m = rs_pos_of m q" "rs_seq_pos_max (int q) m = rs_pos_of m q"
proof -
  note W = rs_wfD [OF wf]
  let ?f = "\<lambda>i r. if int q \<in> rc_seq (rs_cells m ! i) then min r (rc_pos (rs_cells m ! i)) else r"
  let ?g = "\<lambda>i r. if int q \<in> rc_seq (rs_cells m ! i) then max r (rc_pos (rs_cells m ! i)) else r"
  have out: "int q \<notin> rc_seq (rs_cells m ! i)" if "i < rs_size m" "int i \<noteq> rc_tail (rs_cells m ! q)" for i
    using W(6) [OF that(1) q] that(2) by simp
  have "rs_seq_pos_min (int q) m = rs_pos_of m q \<and> rs_seq_pos_max (int q) m = rs_pos_of m q"
  proof (cases "0 \<le> rc_tail (rs_cells m ! q)")
    case False
    have "fold ?f [0..<rs_size m] s = s" "fold ?g [0..<rs_size m] s = s" for s
      by (rule fold_same; use out False in auto)+
    then show ?thesis using False by (simp add: rs_seq_pos_min_def rs_seq_pos_max_def rs_pos_of_def rs_state_def)
  next
    case True
    note t = rs_wf_tail [OF wf q True]
    let ?t = "nat (rc_tail (rs_cells m ! q))"
    have "fold ?f [0..<rs_size m] s = ?f ?t s" "fold ?g [0..<rs_size m] s = ?g ?t s" for s
      by (rule fold_single [OF t(1)]; use out True t(1) in auto)+
    moreover have "0 \<le> rc_pos (rs_cells m ! ?t)" "rc_pos (rs_cells m ! ?t) < int32_max" using W(10) [OF t(1)] t(2) by auto
    ultimately show ?thesis using True t q
      by (simp add: rs_seq_pos_min_def rs_seq_pos_max_def rs_pos_of_def rs_state_def Let_def)
  qed
  then show "rs_seq_pos_min (int q) m = rs_pos_of m q" "rs_seq_pos_max (int q) m = rs_pos_of m q" by simp_all
qed

end
