(* ===== verification/RecurrentSlot.thy ===== *)
theory RecurrentSlot
  imports RecurrentMem KvSlots
begin

text \<open>
  Placing a micro-batch in the recurrent memory: \<^verbatim>\<open>find_slot\<close> and \<^verbatim>\<open>prepare\<close> of
  \<^verbatim>\<open>src/src/llama-memory-recurrent.cpp\<close>, stage by stage.

  \<^item> \<open>rs_share\<close> checks the sequence ids and takes the sequences that become shared out of their cells,
  \<^item> \<open>rs_claim\<close> gives each sequence set of the micro-batch a cell of its own,
  \<^item> \<open>rs_gather\<close> swaps these cells into a contiguous block,
  \<^item> \<open>rs_place\<close> writes the new positions and sequence sets,
  \<^item> \<open>rs_stage\<close> records where each cell of the block is to be copied from.

  \<open>rs_find_slot_spec\<close> is the contract of the composition: nothing aborts, the invariant is kept and
  every sequence finds its old contents through \<open>rc_src0\<close>.
\<close>

section \<open>The micro-batch as the memory reads it\<close>

text \<open>The first token of sequence set \<open>s\<close>, its sequence ids, and the position of its last token.\<close>

definition set_tok :: "'e llama_ubatch \<Rightarrow> nat \<Rightarrow> nat" where
  "set_tok u s = s * ub_n_seq_tokens u"

definition set_ids :: "'e llama_ubatch \<Rightarrow> nat \<Rightarrow> int list" where
  "set_ids u s = take (nat (ub_n_seq_id u ! set_tok u s)) (ub_seq_id u ! set_tok u s)"

definition set_first :: "'e llama_ubatch \<Rightarrow> nat \<Rightarrow> int" where
  "set_first u s = ub_seq_id u ! set_tok u s ! 0"

definition set_last_pos :: "'e llama_ubatch \<Rightarrow> nat \<Rightarrow> int" where
  "set_last_pos u s = ub_pos u ! (set_tok u s + ub_n_seq_tokens u - 1)"

section \<open>The stages of find_slot\<close>

text \<open>The check of the ids of one sequence set, in order; \<open>False\<close> is the early return.\<close>

fun rs_share_ids :: "bool \<Rightarrow> int list \<Rightarrow> rs_memory \<Rightarrow> (bool \<times> rs_memory) option" where
  "rs_share_ids later [] m = Some (True, m)"
| "rs_share_ids later (q # qs) m =
     (if q < 0 \<or> q \<ge> int (rs_size m) then Some (False, m)
      else do {
        m1 \<leftarrow> (if later then rs_drop_tail (nat q) m else Some m);
        rs_share_ids True qs m1
      })"

fun rs_share :: "int list list \<Rightarrow> rs_memory \<Rightarrow> (bool \<times> rs_memory) option" where
  "rs_share [] m = Some (True, m)"
| "rs_share (ids # idss) m = do {
     (ok, m1) \<leftarrow> rs_share_ids False ids m;
     if ok then rs_share idss m1 else Some (False, m1)
   }"

text \<open>The two searches for an empty cell: the first tests the cell it starts from, the second
  starts behind it. The first argument counts the tests that are left.\<close>

fun rs_first_empty :: "nat \<Rightarrow> rs_memory \<Rightarrow> nat \<Rightarrow> nat" where
  "rs_first_empty 0 m nx = nx"
| "rs_first_empty (Suc k) m nx = (let nx1 = (if nx \<ge> rs_size m then nx - rs_size m else nx) in
     if rc_seq (rs_cells m ! nx1) = {} then nx1 else rs_first_empty k m (nx1 + 1))"

fun rs_next_empty :: "nat \<Rightarrow> rs_memory \<Rightarrow> nat \<Rightarrow> nat" where
  "rs_next_empty 0 m nx = nx"
| "rs_next_empty (Suc k) m nx = (let nx1 = (if nx + 1 \<ge> rs_size m then nx + 1 - rs_size m else nx + 1) in
     if rc_seq (rs_cells m ! nx1) = {} then nx1 else rs_next_empty k m nx1)"

text \<open>Move sequence \<open>q\<close> to the empty cell \<open>nx\<close>; the state of its old cell is to be copied there.\<close>

definition rs_take_cell :: "nat \<Rightarrow> nat \<Rightarrow> rs_memory \<Rightarrow> rs_memory option" where
  "rs_take_cell q nx m = do {
     e \<leftarrow> rs_at m (int nx);
     guard (rc_seq e = {});
     let t = rc_tail (rs_cells m ! q);
     m1 \<leftarrow> (if t \<ge> 0 then do {
         orig \<leftarrow> rs_at m t;
         let m' = rs_put nx (\<lambda>c. c\<lparr>rc_pos := rc_pos orig, rc_src := rc_src orig\<rparr>) m;
         let m'' = rs_put (nat t) (\<lambda>c. c\<lparr>rc_seq := rc_seq c - {int q}\<rparr>) m';
         let m''' = rs_put nx (\<lambda>c. c\<lparr>rc_seq := insert (int q) (rc_seq c)\<rparr>) m'';
         guard (rc_seq (rs_cells m''' ! nat t) \<noteq> {});
         Some m'''
       } else Some m);
     Some (rs_put q (\<lambda>c. c\<lparr>rc_tail := int nx\<rparr>) m1)
   }"

text \<open>Does the sequence have a cell that it shares with nobody?\<close>

definition rs_owns :: "nat \<Rightarrow> rs_memory \<Rightarrow> bool option" where
  "rs_owns q m = (let t = rc_tail (rs_cells m ! q) in
     if t \<ge> 0 then do {
       c \<leftarrow> rs_at m t;
       guard (int q \<in> rc_seq c);
       Some (card (rc_seq c) = 1)
     }
     else Some False)"

definition rs_claim_step :: "'e llama_ubatch \<Rightarrow> nat \<Rightarrow> rs_memory \<times> nat \<times> int \<times> int \<Rightarrow> (rs_memory \<times> nat \<times> int \<times> int) option" where
  "rs_claim_step u s = (\<lambda>(m, nx, mn, mx). do {
     _ \<leftarrow> rs_at m (set_first u s);
     let q = nat (set_first u s);
     has_cell \<leftarrow> rs_owns q m;
     m1 \<leftarrow> (if has_cell then Some m else rs_take_cell q nx m);
     let nx1 = (if \<not> has_cell \<and> s + 1 < ub_n_seqs u then rs_next_empty (rs_size m1) m1 nx else nx);
     let t = rc_tail (rs_cells m1 ! q);
     Some (m1, nx1, if mn > t then t else mn, if mx < t then t else mx)
   })"

definition rs_claim :: "'e llama_ubatch \<Rightarrow> rs_memory \<Rightarrow> (rs_memory \<times> int \<times> int) option" where
  "rs_claim u m = do {
     (m1, nx, mn, mx) \<leftarrow> foldM (rs_claim_step u) [0..<ub_n_seqs u]
       (m, rs_first_empty (rs_size m) m (rs_head m), int (rs_size m) - 1, 0);
     Some (m1, mn, mx)
   }"

definition swap_ix :: "'i \<Rightarrow> 'i \<Rightarrow> 'i \<Rightarrow> 'i" where
  "swap_ix a b x = (if x = b then a else if x = a then b else x)"

definition rs_swap :: "nat \<Rightarrow> nat \<Rightarrow> rs_memory \<Rightarrow> rs_memory" where
  "rs_swap a b m = (let ca = rs_cells m ! a; cb = rs_cells m ! b;
       m1 = rs_put a (\<lambda>c. c\<lparr>rc_pos := rc_pos cb, rc_src := rc_src cb, rc_seq := rc_seq cb\<rparr>) m;
       m2 = rs_put b (\<lambda>c. c\<lparr>rc_pos := rc_pos ca, rc_src := rc_src ca, rc_seq := rc_seq ca\<rparr>) m1
     in m2\<lparr>rs_cells := map (\<lambda>c. c\<lparr>rc_tail := swap_ix (int a) (int b) (rc_tail c)\<rparr>) (rs_cells m2)\<rparr>)"

definition rs_gather_step :: "'e llama_ubatch \<Rightarrow> int \<Rightarrow> nat \<Rightarrow> rs_memory \<Rightarrow> rs_memory option" where
  "rs_gather_step u mn s m = do {
     meta \<leftarrow> rs_at m (set_first u s);
     let dst = int s + mn;
     let src = rc_tail meta;
     if dst \<noteq> src then do {
       _ \<leftarrow> rs_at m dst;
       _ \<leftarrow> rs_at m src;
       Some (rs_swap (nat dst) (nat src) m)
     }
     else Some m
   }"

text \<open>The sequence ids of a set enter its cell, in order.\<close>

definition rs_enter :: "nat \<Rightarrow> int \<Rightarrow> rs_memory \<Rightarrow> rs_memory option" where
  "rs_enter i q m = do {
     let m1 = rs_put i (\<lambda>c. c\<lparr>rc_seq := insert q (rc_seq c)\<rparr>) m;
     _ \<leftarrow> rs_at m1 q;
     Some (rs_put (nat q) (\<lambda>c. c\<lparr>rc_tail := int i\<rparr>) m1)
   }"

text \<open>\<^verbatim>\<open>cell.pos + n_seq_tokens\<close> is computed for a warning about skipped positions.\<close>

definition rs_place_step :: "'e llama_ubatch \<Rightarrow> int \<Rightarrow> nat \<Rightarrow> rs_memory \<Rightarrow> rs_memory option" where
  "rs_place_step u mn s m = do {
     let i = int s + mn;
     c \<leftarrow> rs_at m i;
     _ \<leftarrow> (if rc_pos c \<ge> 0 then s32 (rc_pos c + int (ub_n_seq_tokens u)) else Some 0);
     foldM (rs_enter (nat i)) (set_ids u s)
       (rs_put (nat i) (\<lambda>c. c\<lparr>rc_pos := set_last_pos u s, rc_seq := {}\<rparr>) m)
   }"

definition rs_refs :: "rs_memory \<Rightarrow> nat \<Rightarrow> nat" where
  "rs_refs m i = length (filter (\<lambda>c. rc_src c = int i) (rs_cells m))"

definition rs_stage_step :: "nat \<Rightarrow> rs_memory \<Rightarrow> rs_memory option" where
  "rs_stage_step i m = (let c = rs_cells m ! i in
     if rc_src c < 0 then do {
       guard (rs_z m \<ge> 0);
       Some (rs_put i (\<lambda>c. c\<lparr>rc_src0 := rs_z m, rc_src := int i\<rparr>) m)
     }
     else Some (rs_put i (\<lambda>c. c\<lparr>rc_src0 := rc_src c, rc_src := int i\<rparr>) m))"

definition rs_stage :: "int \<Rightarrow> int \<Rightarrow> rs_memory \<Rightarrow> rs_memory option" where
  "rs_stage mn mx m = do {
     guard (0 \<le> mn \<and> mx < int (rs_size m) \<and> list_all (\<lambda>c. rc_src c < int (rs_size m)) (rs_cells m));
     let blk = [nat mn..<nat (mx + 1)];
     let m1 = m\<lparr>rs_z := (case find (\<lambda>i. rs_refs m i = 0) blk of None \<Rightarrow> - 1 | Some i \<Rightarrow> int i)\<rparr>;
     foldM rs_stage_step blk m1
   }"

definition rs_find_slot :: "'e llama_ubatch \<Rightarrow> rs_memory \<Rightarrow> (bool \<times> rs_memory) option" where
  "rs_find_slot u m0 = do {
     let m = (if rs_head m0 > rs_used m0 + 2 * ub_n_seqs u then m0\<lparr>rs_head := 0\<rparr> else m0);
     guard (ub_equal_seqs u);
     (ok, m1) \<leftarrow> rs_share (map (set_ids u) [0..<ub_n_seqs u]) m;
     if \<not> ok then Some (False, m1)
     else do {
       (m2, mn, mx) \<leftarrow> rs_claim u m1;
       m3 \<leftarrow> foldM (rs_gather_step u mn) [0..<ub_n_seqs u] m2;
       m4 \<leftarrow> foldM (rs_place_step u mn) [0..<ub_n_seqs u] m3;
       m5 \<leftarrow> rs_stage mn mx m4;
       let n = nat ((mx - mn + 1) mod 4294967296);
       Some (ub_n_seqs u \<le> n, m5\<lparr>rs_head := nat mn, rs_n := n,
         rs_used := length (filter (\<lambda>c. rc_seq c \<noteq> {}) (rs_cells m5))\<rparr>)
     }
   }"

section \<open>prepare\<close>

fun rs_place_all :: "'e llama_ubatch list \<Rightarrow> rs_memory \<Rightarrow> (bool \<times> rs_memory) option" where
  "rs_place_all [] m = Some (True, m)"
| "rs_place_all (u # us) m = do {
     (ok, m1) \<leftarrow> rs_find_slot u m;
     if ok then rs_place_all us m1 else Some (False, m1)
   }"

definition rs_prepare :: "'e llama_ubatch list \<Rightarrow> rs_memory \<Rightarrow> (bool \<times> rs_memory) option" where
  "rs_prepare us m = do {
     (success, m1) \<leftarrow> rs_place_all us m;
     Some (success, m1\<lparr>rs_cells := rs_cells m, rs_used := rs_used m, rs_head := rs_head m\<rparr>)
   }"

section \<open>Sharing\<close>

text \<open>A micro-batch of disjoint sets of known sequences, the same number of tokens each.\<close>

definition rs_ubatch_ok :: "nat \<Rightarrow> 'e llama_ubatch \<Rightarrow> bool" where
  "rs_ubatch_ok sz u \<longleftrightarrow> ub_equal_seqs u \<and> 0 < ub_n_seqs u \<and> 0 < ub_n_seq_tokens u \<and>
     (\<forall>s < ub_n_seqs u. set_ids u s \<noteq> [] \<and> distinct (set_ids u s) \<and> (\<forall>q \<in> set (set_ids u s). 0 \<le> q \<and> q < int sz) \<and>
        0 \<le> set_last_pos u s \<and> set_last_pos u s < int32_max) \<and>
     (\<forall>s < ub_n_seqs u. \<forall>t < ub_n_seqs u. s \<noteq> t \<longrightarrow> set (set_ids u s) \<inter> set (set_ids u t) = {})"

text \<open>The first sequence of a set, and the others.\<close>

definition prim :: "'e llama_ubatch \<Rightarrow> nat \<Rightarrow> nat" where
  "prim u s = nat (set_first u s)"

definition others :: "'e llama_ubatch \<Rightarrow> nat set" where
  "others u = (\<Union>s < ub_n_seqs u. nat ` set (tl (set_ids u s)))"

lemma rs_ubatch_okD:
  assumes "rs_ubatch_ok sz u"
  shows "ub_equal_seqs u" "0 < ub_n_seqs u" "0 < ub_n_seq_tokens u"
    "\<And>s. s < ub_n_seqs u \<Longrightarrow> set_ids u s \<noteq> []" "\<And>s. s < ub_n_seqs u \<Longrightarrow> distinct (set_ids u s)"
    "\<And>s q. s < ub_n_seqs u \<Longrightarrow> q \<in> set (set_ids u s) \<Longrightarrow> 0 \<le> q \<and> q < int sz"
    "\<And>s. s < ub_n_seqs u \<Longrightarrow> 0 \<le> set_last_pos u s \<and> set_last_pos u s < int32_max"
    "\<And>s t. s < ub_n_seqs u \<Longrightarrow> t < ub_n_seqs u \<Longrightarrow> s \<noteq> t \<Longrightarrow> set (set_ids u s) \<inter> set (set_ids u t) = {}"
  using assms unfolding rs_ubatch_ok_def by blast+

lemma set_ids_first: "set_ids u s \<noteq> [] \<Longrightarrow> set_first u s = hd (set_ids u s) \<and> set_ids u s = set_first u s # tl (set_ids u s)"
proof -
  assume ne: "set_ids u s \<noteq> []"
  then have "set_first u s = hd (set_ids u s)" by (auto simp: set_ids_def set_first_def hd_conv_nth)
  with ne show ?thesis by simp
qed

lemma prim_props:
  assumes "rs_ubatch_ok sz u" "s < ub_n_seqs u"
  shows "int (prim u s) = set_first u s" "set_first u s \<in> set (set_ids u s)" "prim u s < sz" "prim u s \<notin> others u"
    "\<And>t. t < ub_n_seqs u \<Longrightarrow> prim u s = prim u t \<longleftrightarrow> s = t"
proof -
  note U = rs_ubatch_okD [OF assms(1)]
  have hd: "set_first u t \<in> set (set_ids u t)" if "t < ub_n_seqs u" for t
    using set_ids_first [OF U(4) [OF that]] U(4) [OF that] by (metis hd_in_set)
  then show "set_first u s \<in> set (set_ids u s)" using assms(2) .
  have int: "int (prim u t) = set_first u t" if "t < ub_n_seqs u" for t using U(6) [OF that hd [OF that]] by (simp add: prim_def)
  then show "int (prim u s) = set_first u s" using assms(2) .
  show "prim u s < sz" using U(6) [OF assms(2) hd [OF assms(2)]] by (auto simp: prim_def)
  have "set_first u s \<notin> set (tl (set_ids u t))" if "t < ub_n_seqs u" for t
  proof (cases "s = t")
    case True
    with U(5) [OF that] set_ids_first [OF U(4) [OF that]] show ?thesis by (metis distinct.simps(2))
  next
    case False
    with U(8) [OF assms(2) that] hd [OF assms(2)] show ?thesis by (metis disjoint_iff list.set_sel(2) list.sel(2))
  qed
  moreover have "q = int (nat q)" if "t < ub_n_seqs u" "q \<in> set (tl (set_ids u t))" for t q
    using U(6) [OF that(1), of q] that(2) U(4) [OF that(1)] by (simp add: list.set_sel(2))
  ultimately have "prim u s \<notin> nat ` set (tl (set_ids u t))" if "t < ub_n_seqs u" for t
    using int [OF assms(2)] that by (metis imageE)
  then show "prim u s \<notin> others u" by (auto simp: others_def)
  show "prim u s = prim u t \<longleftrightarrow> s = t" if "t < ub_n_seqs u" for t
    using U(8) [OF assms(2) that] hd [OF that] hd [OF assms(2)] int [OF that] int [OF assms(2)] by (metis disjoint_iff)
qed

lemma rs_share_ids_spec:
  assumes "rs_wf m" "\<forall>q \<in> set ids. 0 \<le> q \<and> q < int (rs_size m)"
  shows "\<exists>m'. rs_share_ids later ids m = Some (True, m') \<and> rs_dropped (nat ` set (if later then ids else tl ids)) m m' \<and> rs_head m' = rs_head m"
  using assms
proof (induction ids arbitrary: later m)
  case Nil
  then show ?case by (simp add: rs_dropped_refl)
next
  case (Cons q qs)
  have q: "nat q < rs_size m" "\<not> (q < 0 \<or> q \<ge> int (rs_size m))" using Cons.prems(2) by auto
  obtain m1 where m1: "(if later then rs_drop_tail (nat q) m else Some m) = Some m1"
    "rs_dropped (if later then {nat q} else {}) m m1" "rs_head m1 = rs_head m"
    using rs_drop_tail_spec [OF Cons.prems(1) q(1)] rs_dropped_refl [OF Cons.prems(1)] by (cases later) auto
  have "\<forall>q \<in> set qs. 0 \<le> q \<and> q < int (rs_size m1)" using Cons.prems(2) rs_droppedD(2) [OF m1(2)] by simp
  from Cons.IH [OF rs_droppedD(1) [OF m1(2)] this, of True] obtain m' where
    m': "rs_share_ids True qs m1 = Some (True, m')" "rs_dropped (nat ` set qs) m1 m'" "rs_head m' = rs_head m1" by auto
  have "(if later then {nat q} else {}) \<union> nat ` set qs = nat ` set (if later then q # qs else tl (q # qs))" by simp
  with rs_dropped_trans [OF m1(2) m'(2)] m1(1,3) m'(1,3) q(2) show ?case by simp
qed

lemma rs_share_spec:
  assumes "rs_wf m" "\<forall>ids \<in> set idss. \<forall>q \<in> set ids. 0 \<le> q \<and> q < int (rs_size m)"
  shows "\<exists>m'. rs_share idss m = Some (True, m') \<and> rs_dropped (\<Union>ids \<in> set idss. nat ` set (tl ids)) m m' \<and> rs_head m' = rs_head m"
  using assms
proof (induction idss arbitrary: m)
  case Nil
  then show ?case by (simp add: rs_dropped_refl)
next
  case (Cons ids idss)
  from rs_share_ids_spec [OF Cons.prems(1), of ids False] Cons.prems(2) obtain m1 where
    m1: "rs_share_ids False ids m = Some (True, m1)" "rs_dropped (nat ` set (tl ids)) m m1" "rs_head m1 = rs_head m" by auto
  have "\<forall>ids \<in> set idss. \<forall>q \<in> set ids. 0 \<le> q \<and> q < int (rs_size m1)" using Cons.prems(2) rs_droppedD(2) [OF m1(2)] by simp
  from Cons.IH [OF rs_droppedD(1) [OF m1(2)] this] obtain m' where
    m': "rs_share idss m1 = Some (True, m')" "rs_dropped (\<Union>ids \<in> set idss. nat ` set (tl ids)) m1 m'" "rs_head m' = rs_head m1" by auto
  with rs_dropped_trans [OF m1(2) m'(2)] m1(1,3) show ?case by simp
qed

lemma rs_share_ubatch:
  assumes "rs_wf m" "rs_ubatch_ok (rs_size m) u"
  shows "\<exists>m'. rs_share (map (set_ids u) [0..<ub_n_seqs u]) m = Some (True, m') \<and> rs_dropped (others u) m m' \<and> rs_head m' = rs_head m"
  using rs_share_spec [OF assms(1), of "map (set_ids u) [0..<ub_n_seqs u]"] rs_ubatch_okD(6) [OF assms(2)]
  by (auto simp: others_def atLeast0LessThan)

section \<open>Searching for an empty cell\<close>

lemma ring_Suc: "(h + Suc r) mod sz = (if (h + r) mod sz + 1 = sz then 0 else (h + r) mod sz + 1)"
  by (simp add: mod_Suc)

lemma ring_ix: "h < sz \<Longrightarrow> r < sz \<Longrightarrow> (h + r) mod sz = (if h + r < sz then h + r else h + r - (sz :: nat))"
  by (simp add: mod_if)

lemma ring_inj: "h < sz \<Longrightarrow> r < sz \<Longrightarrow> x < sz \<Longrightarrow> (h + r) mod sz = (h + x) mod sz \<longleftrightarrow> r = (x :: nat)"
  by (auto simp: ring_ix split: if_splits)

lemma rs_next_empty_ring:
  assumes "0 < rs_size m" "r < r'" "r' - r \<le> k" "rc_seq (rs_cells m ! ((h + r') mod rs_size m)) = {}"
    and "\<And>x. r < x \<Longrightarrow> x < r' \<Longrightarrow> rc_seq (rs_cells m ! ((h + x) mod rs_size m)) \<noteq> {}"
  shows "rs_next_empty k m ((h + r) mod rs_size m) = (h + r') mod rs_size m"
  using assms(2,3,5)
proof (induction k arbitrary: r)
  case (Suc k)
  let ?n = "(h + r) mod rs_size m"
  have step: "(if ?n + 1 \<ge> rs_size m then ?n + 1 - rs_size m else ?n + 1) = (h + Suc r) mod rs_size m"
    using ring_Suc [of h r "rs_size m"] mod_less_divisor [OF assms(1), of "h + r"] by (auto split: if_splits)
  show ?case
  proof (cases "Suc r = r'")
    case True
    with step assms(4) show ?thesis by (simp add: Let_def)
  next
    case False
    with Suc.prems have "rs_next_empty k m ((h + Suc r) mod rs_size m) = (h + r') mod rs_size m" by (intro Suc.IH) auto
    moreover have "rc_seq (rs_cells m ! ((h + Suc r) mod rs_size m)) \<noteq> {}" using Suc.prems(3) [of "Suc r"] Suc.prems(1) False by simp
    ultimately show ?thesis using step by (simp add: Let_def)
  qed
qed simp

lemma rs_first_empty_ring:
  assumes "0 < rs_size m" "r \<le> r'" "r' - r < k" "rc_seq (rs_cells m ! ((h + r') mod rs_size m)) = {}"
    and "nx = (h + r) mod rs_size m \<or> (nx = rs_size m \<and> (h + r) mod rs_size m = 0)"
    and "\<And>x. r \<le> x \<Longrightarrow> x < r' \<Longrightarrow> rc_seq (rs_cells m ! ((h + x) mod rs_size m)) \<noteq> {}"
  shows "rs_first_empty k m nx = (h + r') mod rs_size m"
  using assms(2,3,5,6)
proof (induction k arbitrary: r nx)
  case (Suc k)
  let ?n = "(h + r) mod rs_size m"
  have nx: "(if nx \<ge> rs_size m then nx - rs_size m else nx) = ?n"
    using Suc.prems(3) mod_less_divisor [OF assms(1), of "h + r"] by auto
  show ?case
  proof (cases "r = r'")
    case True
    with nx assms(4) show ?thesis by (simp add: Let_def)
  next
    case False
    have "?n + 1 = (h + Suc r) mod rs_size m \<or> (?n + 1 = rs_size m \<and> (h + Suc r) mod rs_size m = 0)"
      using ring_Suc [of h r "rs_size m"] by (auto split: if_splits)
    with Suc.prems False have "rs_first_empty k m (?n + 1) = (h + r') mod rs_size m" by (intro Suc.IH [of "Suc r"]) auto
    moreover have "rc_seq (rs_cells m ! ?n) \<noteq> {}" using Suc.prems False by simp
    ultimately show ?thesis using nx by (simp add: Let_def)
  qed
qed simp

text \<open>Every cell has a place in the ring, and a set of cells that is not empty has a first one.\<close>

lemma ring_place:
  assumes "h < sz" "i < (sz :: nat)"
  shows "\<exists>r < sz. (h + r) mod sz = i"
proof (cases "h \<le> i")
  case True
  with assms show ?thesis by (intro exI [of _ "i - h"]) simp
next
  case False
  with assms show ?thesis by (intro exI [of _ "i + sz - h"]) auto
qed

lemma ring_first:
  assumes "h < sz" "A \<subseteq> {..<sz :: nat}" "A \<noteq> {}"
  shows "\<exists>r < sz. (h + r) mod sz \<in> A \<and> (\<forall>x < r. (h + x) mod sz \<notin> A)"
proof -
  from assms obtain i where "i \<in> A" "i < sz" by blast
  with ring_place [OF assms(1)] obtain r where "r < sz" "(h + r) mod sz \<in> A" by blast
  let ?r = "LEAST r. (h + r) mod sz \<in> A"
  have "(h + ?r) mod sz \<in> A" "?r \<le> r" using \<open>(h + r) mod sz \<in> A\<close> by (fact LeastI, fact Least_le)
  moreover have "(h + x) mod sz \<notin> A" if "x < ?r" for x using not_less_Least [OF that] .
  ultimately show ?thesis using \<open>r < sz\<close> by (meson le_less_trans)
qed

text \<open>\<open>nx\<close> is the first cell of \<open>E\<close> that is not in \<open>C\<close>, and no cell of \<open>C\<close> comes after it.\<close>

definition ring_front :: "nat \<Rightarrow> nat \<Rightarrow> nat set \<Rightarrow> nat set \<Rightarrow> nat \<Rightarrow> bool" where
  "ring_front h sz E C nx \<longleftrightarrow> (\<exists>r < sz. nx = (h + r) mod sz \<and> nx \<in> E - C \<and> (\<forall>x < r. (h + x) mod sz \<notin> E - C) \<and>
     (\<forall>x < sz. r < x \<longrightarrow> (h + x) mod sz \<notin> C))"

lemma rs_first_empty_front:
  assumes "h < rs_size m" and E: "E = {i. i < rs_size m \<and> rc_seq (rs_cells m ! i) = {}}" "E \<noteq> {}"
  shows "ring_front h (rs_size m) E {} (rs_first_empty (rs_size m) m h)"
proof -
  have "E \<subseteq> {..<rs_size m}" by (auto simp: E(1))
  from ring_first [OF assms(1) this E(2)] obtain r where
    r: "r < rs_size m" "(h + r) mod rs_size m \<in> E" "\<forall>x < r. (h + x) mod rs_size m \<notin> E" by blast
  have "rs_first_empty (rs_size m) m h = (h + r) mod rs_size m"
    by (rule rs_first_empty_ring [of m 0]) (use assms(1) r E(1) in auto)
  with r show ?thesis by (auto simp: ring_front_def)
qed

lemma rs_next_empty_front:
  assumes h: "h < rs_size m" and front: "ring_front h (rs_size m) E C nx"
    and E: "E \<subseteq> {..<rs_size m}" "E - insert nx C \<noteq> {}"
    and empty: "\<And>i. i \<in> E - insert nx C \<Longrightarrow> rc_seq (rs_cells m ! i) = {}"
    and full: "\<And>i. i < rs_size m \<Longrightarrow> i \<notin> E \<Longrightarrow> rc_seq (rs_cells m ! i) \<noteq> {}"
  shows "ring_front h (rs_size m) E (insert nx C) (rs_next_empty (rs_size m) m nx)"
proof -
  from front obtain r where r: "nx \<in> E - C" "r < rs_size m" "nx = (h + r) mod rs_size m"
    "\<forall>x < r. (h + x) mod rs_size m \<notin> E - C" "\<forall>x < rs_size m. r < x \<longrightarrow> (h + x) mod rs_size m \<notin> C"
    unfolding ring_front_def by blast
  from ring_first [OF h _ E(2)] E(1) obtain r' where
    r': "r' < rs_size m" "(h + r') mod rs_size m \<in> E - insert nx C" "\<forall>x < r'. (h + x) mod rs_size m \<notin> E - insert nx C" by blast
  have lt: "r < r'"
  proof (rule ccontr)
    assume "\<not> r < r'"
    then have "r' < r \<or> r' = r" by auto
    with r(3,4) r'(2) show False by auto
  qed
  have "rs_next_empty (rs_size m) m nx = (h + r') mod rs_size m"
    unfolding r(3)
  proof (rule rs_next_empty_ring [OF _ lt])
    show "rc_seq (rs_cells m ! ((h + x) mod rs_size m)) \<noteq> {}" if "r < x" "x < r'" for x
    proof (rule full)
      have "(h + x) mod rs_size m \<noteq> nx" "(h + x) mod rs_size m \<notin> C"
        using that r'(1) r(2,3,5) ring_inj [OF h, of x r] by auto
      with r'(3) that(2) show "(h + x) mod rs_size m \<notin> E" by auto
    qed (use h in simp)
  qed (use h r' empty in auto)
  moreover have "(h + x) mod rs_size m \<notin> insert nx C" if "x < rs_size m" "r' < x" for x
    using that lt r(2,3,5) ring_inj [OF h, of x r] by auto
  ultimately show ?thesis unfolding ring_front_def using r' by metis
qed

section \<open>Claiming cells\<close>

text \<open>
  What holds after the sets below \<open>s\<close> have been served, \<open>p\<close> being the first sequence of each set and
  \<open>C\<close> the empty cells claimed so far: a claimed cell has exactly one sequence whose tail it is, the
  other cells lost sequences but never all of them, and every sequence that had a state still finds it.
\<close>

definition cl_cell :: "rs_memory \<Rightarrow> rs_memory \<Rightarrow> nat \<Rightarrow> bool" where
  "cl_cell m0 m i \<longleftrightarrow> rc_seq (rs_cells m ! i) \<subseteq> rc_seq (rs_cells m0 ! i) \<and>
     (rc_seq (rs_cells m0 ! i) \<noteq> {} \<longrightarrow> rc_seq (rs_cells m ! i) \<noteq> {}) \<and> rc_same (rs_cells m ! i) (rs_cells m0 ! i) \<and>
     (\<forall>q < rs_size m0. int q \<in> rc_seq (rs_cells m ! i) \<longleftrightarrow> rc_tail (rs_cells m ! q) = int i)"

definition cl_prim :: "rs_memory \<Rightarrow> rs_memory \<Rightarrow> nat \<Rightarrow> bool" where
  "cl_prim m0 m q \<longleftrightarrow> 0 \<le> rc_tail (rs_cells m ! q) \<and>
     (\<forall>q' < rs_size m0. rc_tail (rs_cells m ! q') = rc_tail (rs_cells m ! q) \<longrightarrow> q' = q)"

definition cl_seq :: "nat set \<Rightarrow> nat set \<Rightarrow> rs_memory \<Rightarrow> rs_memory \<Rightarrow> nat \<Rightarrow> bool" where
  "cl_seq Q C m0 m q \<longleftrightarrow> - 1 \<le> rc_tail (rs_cells m ! q) \<and> rc_tail (rs_cells m ! q) < int (rs_size m0) \<and>
     (q \<notin> Q \<longrightarrow> rc_tail (rs_cells m ! q) = rc_tail (rs_cells m0 ! q)) \<and>
     (0 \<le> rc_tail (rs_cells m0 ! q) \<longrightarrow> 0 \<le> rc_tail (rs_cells m ! q) \<and>
        rc_same (rs_cells m ! nat (rc_tail (rs_cells m ! q))) (rs_cells m0 ! nat (rc_tail (rs_cells m0 ! q)))) \<and>
     (rc_tail (rs_cells m0 ! q) < 0 \<and> 0 \<le> rc_tail (rs_cells m ! q) \<longrightarrow> nat (rc_tail (rs_cells m ! q)) \<in> C \<and>
        rc_same (rs_cells m ! nat (rc_tail (rs_cells m ! q))) (rs_cells m0 ! nat (rc_tail (rs_cells m ! q))))"

definition rs_claimed :: "(nat \<Rightarrow> nat) \<Rightarrow> nat \<Rightarrow> nat set \<Rightarrow> rs_memory \<Rightarrow> rs_memory \<Rightarrow> bool" where
  "rs_claimed p s C m0 m \<longleftrightarrow> rs_size m = rs_size m0 \<and> length (rs_cells m) = rs_size m0 \<and>
     (\<forall>i \<in> C. i < rs_size m0 \<and> rc_seq (rs_cells m0 ! i) = {}) \<and>
     (\<forall>i \<in> C. \<exists>a < s. rc_tail (rs_cells m ! p a) = int i \<and> rc_seq (rs_cells m ! i) \<subseteq> {int (p a)}) \<and>
     (\<forall>i < rs_size m0. i \<notin> C \<longrightarrow> cl_cell m0 m i) \<and>
     (\<forall>a < s. cl_prim m0 m (p a)) \<and>
     (\<forall>q < rs_size m0. cl_seq (p ` {..<s}) C m0 m q)"

lemma rs_claimedD:
  assumes "rs_claimed p s C m0 m"
  shows "rs_size m = rs_size m0" "length (rs_cells m) = rs_size m0"
    "\<And>i. i \<in> C \<Longrightarrow> i < rs_size m0 \<and> rc_seq (rs_cells m0 ! i) = {}"
    "\<And>i. i < rs_size m0 \<Longrightarrow> i \<notin> C \<Longrightarrow> rc_seq (rs_cells m ! i) \<subseteq> rc_seq (rs_cells m0 ! i)"
    "\<And>i. i < rs_size m0 \<Longrightarrow> i \<notin> C \<Longrightarrow> rc_seq (rs_cells m0 ! i) \<noteq> {} \<Longrightarrow> rc_seq (rs_cells m ! i) \<noteq> {}"
    "\<And>i. i < rs_size m0 \<Longrightarrow> i \<notin> C \<Longrightarrow> rc_same (rs_cells m ! i) (rs_cells m0 ! i)"
    "\<And>i q. i < rs_size m0 \<Longrightarrow> i \<notin> C \<Longrightarrow> q < rs_size m0 \<Longrightarrow> int q \<in> rc_seq (rs_cells m ! i) \<longleftrightarrow> rc_tail (rs_cells m ! q) = int i"
    "\<And>i. i \<in> C \<Longrightarrow> \<exists>a < s. rc_tail (rs_cells m ! p a) = int i \<and> rc_seq (rs_cells m ! i) \<subseteq> {int (p a)}"
    "\<And>q. q < rs_size m0 \<Longrightarrow> - 1 \<le> rc_tail (rs_cells m ! q) \<and> rc_tail (rs_cells m ! q) < int (rs_size m0)"
    "\<And>a. a < s \<Longrightarrow> 0 \<le> rc_tail (rs_cells m ! p a)"
    "\<And>a q. a < s \<Longrightarrow> q < rs_size m0 \<Longrightarrow> rc_tail (rs_cells m ! q) = rc_tail (rs_cells m ! p a) \<Longrightarrow> q = p a"
    "\<And>q. q < rs_size m0 \<Longrightarrow> q \<notin> p ` {..<s} \<Longrightarrow> rc_tail (rs_cells m ! q) = rc_tail (rs_cells m0 ! q)"
    "\<And>q. q < rs_size m0 \<Longrightarrow> 0 \<le> rc_tail (rs_cells m0 ! q) \<Longrightarrow> 0 \<le> rc_tail (rs_cells m ! q) \<and>
        rc_same (rs_cells m ! nat (rc_tail (rs_cells m ! q))) (rs_cells m0 ! nat (rc_tail (rs_cells m0 ! q)))"
    "\<And>q. q < rs_size m0 \<Longrightarrow> rc_tail (rs_cells m0 ! q) < 0 \<Longrightarrow> 0 \<le> rc_tail (rs_cells m ! q) \<Longrightarrow> nat (rc_tail (rs_cells m ! q)) \<in> C \<and>
        rc_same (rs_cells m ! nat (rc_tail (rs_cells m ! q))) (rs_cells m0 ! nat (rc_tail (rs_cells m ! q)))"
proof -
  note A = assms [unfolded rs_claimed_def]
  from A show "rs_size m = rs_size m0" "length (rs_cells m) = rs_size m0" by simp_all
  from A show "i \<in> C \<Longrightarrow> i < rs_size m0 \<and> rc_seq (rs_cells m0 ! i) = {}" for i by blast
  from A show "i \<in> C \<Longrightarrow> \<exists>a < s. rc_tail (rs_cells m ! p a) = int i \<and> rc_seq (rs_cells m ! i) \<subseteq> {int (p a)}" for i by blast
  have cell: "i < rs_size m0 \<Longrightarrow> i \<notin> C \<Longrightarrow> cl_cell m0 m i" for i using A by blast
  then show "i < rs_size m0 \<Longrightarrow> i \<notin> C \<Longrightarrow> rc_seq (rs_cells m ! i) \<subseteq> rc_seq (rs_cells m0 ! i)"
    "i < rs_size m0 \<Longrightarrow> i \<notin> C \<Longrightarrow> rc_seq (rs_cells m0 ! i) \<noteq> {} \<Longrightarrow> rc_seq (rs_cells m ! i) \<noteq> {}"
    "i < rs_size m0 \<Longrightarrow> i \<notin> C \<Longrightarrow> rc_same (rs_cells m ! i) (rs_cells m0 ! i)"
    "i < rs_size m0 \<Longrightarrow> i \<notin> C \<Longrightarrow> q < rs_size m0 \<Longrightarrow> int q \<in> rc_seq (rs_cells m ! i) \<longleftrightarrow> rc_tail (rs_cells m ! q) = int i" for i q
    unfolding cl_cell_def by blast+
  have prim: "a < s \<Longrightarrow> cl_prim m0 m (p a)" for a using A by blast
  then show "a < s \<Longrightarrow> 0 \<le> rc_tail (rs_cells m ! p a)"
    "a < s \<Longrightarrow> q < rs_size m0 \<Longrightarrow> rc_tail (rs_cells m ! q) = rc_tail (rs_cells m ! p a) \<Longrightarrow> q = p a" for a q
    unfolding cl_prim_def by blast+
  have sq: "q < rs_size m0 \<Longrightarrow> cl_seq (p ` {..<s}) C m0 m q" for q using A by blast
  then show "q < rs_size m0 \<Longrightarrow> - 1 \<le> rc_tail (rs_cells m ! q) \<and> rc_tail (rs_cells m ! q) < int (rs_size m0)"
    "q < rs_size m0 \<Longrightarrow> q \<notin> p ` {..<s} \<Longrightarrow> rc_tail (rs_cells m ! q) = rc_tail (rs_cells m0 ! q)" for q
    unfolding cl_seq_def by blast+
  from sq show "q < rs_size m0 \<Longrightarrow> 0 \<le> rc_tail (rs_cells m0 ! q) \<Longrightarrow> 0 \<le> rc_tail (rs_cells m ! q) \<and>
        rc_same (rs_cells m ! nat (rc_tail (rs_cells m ! q))) (rs_cells m0 ! nat (rc_tail (rs_cells m0 ! q)))"
    "q < rs_size m0 \<Longrightarrow> rc_tail (rs_cells m0 ! q) < 0 \<Longrightarrow> 0 \<le> rc_tail (rs_cells m ! q) \<Longrightarrow> nat (rc_tail (rs_cells m ! q)) \<in> C \<and>
        rc_same (rs_cells m ! nat (rc_tail (rs_cells m ! q))) (rs_cells m0 ! nat (rc_tail (rs_cells m ! q)))" for q
    unfolding cl_seq_def by blast+
qed

lemma rs_claimedI:
  assumes "rs_size m = rs_size m0" "length (rs_cells m) = rs_size m0"
    "\<And>i. i \<in> C \<Longrightarrow> i < rs_size m0 \<and> rc_seq (rs_cells m0 ! i) = {}"
    "\<And>i. i \<in> C \<Longrightarrow> \<exists>a < s. rc_tail (rs_cells m ! p a) = int i \<and> rc_seq (rs_cells m ! i) \<subseteq> {int (p a)}"
    "\<And>i. i < rs_size m0 \<Longrightarrow> i \<notin> C \<Longrightarrow> cl_cell m0 m i"
    "\<And>a. a < s \<Longrightarrow> cl_prim m0 m (p a)"
    "\<And>q. q < rs_size m0 \<Longrightarrow> cl_seq (p ` {..<s}) C m0 m q"
  shows "rs_claimed p s C m0 m"
  using assms unfolding rs_claimed_def by simp

lemma rs_claimed_start: "rs_wf m \<Longrightarrow> rs_claimed p 0 {} m m"
  using rs_wfD(1,6,7) [of m] by (simp add: rs_claimed_def cl_cell_def cl_seq_def)

text \<open>A sequence owns its cell when it is nobody else's tail.\<close>

definition rs_alone :: "nat \<Rightarrow> rs_memory \<Rightarrow> bool" where
  "rs_alone q m \<longleftrightarrow> 0 \<le> rc_tail (rs_cells m ! q) \<and>
     (\<forall>q' < rs_size m. rc_tail (rs_cells m ! q') = rc_tail (rs_cells m ! q) \<longrightarrow> q' = q)"

definition rs_prims :: "(nat \<Rightarrow> nat) \<Rightarrow> nat \<Rightarrow> rs_memory \<Rightarrow> bool" where
  "rs_prims p n m0 \<longleftrightarrow> rs_wf m0 \<and> (\<forall>a < n. p a < rs_size m0) \<and> (\<forall>a < n. \<forall>b < n. p a = p b \<longrightarrow> a = b)"

lemma rs_primsD:
  assumes "rs_prims p n m0"
  shows "rs_wf m0" "\<And>a. a < n \<Longrightarrow> p a < rs_size m0" "\<And>a b. a < n \<Longrightarrow> b < n \<Longrightarrow> p a = p b \<Longrightarrow> a = b"
  using assms unfolding rs_prims_def by blast+

lemma claimed_next_tail:
  assumes P: "rs_prims p n m0" and A: "rs_claimed p s C m0 m" and s: "s < n"
  shows "rc_tail (rs_cells m ! p s) = rc_tail (rs_cells m0 ! p s)" "nat (rc_tail (rs_cells m ! p s)) \<notin> C \<or> rc_tail (rs_cells m ! p s) < 0"
proof -
  note I = rs_claimedD [OF A]
  have ne: "p a \<noteq> p s" if "a < s" for a using rs_primsD(3) [OF P, of a s] that s by auto
  then have "p s \<notin> p ` {..<s}" by force
  then show "rc_tail (rs_cells m ! p s) = rc_tail (rs_cells m0 ! p s)" using I(12) [OF rs_primsD(2) [OF P s]] by simp
  show "nat (rc_tail (rs_cells m ! p s)) \<notin> C \<or> rc_tail (rs_cells m ! p s) < 0"
  proof (rule ccontr)
    assume "\<not> ?thesis"
    then have "nat (rc_tail (rs_cells m ! p s)) \<in> C" "0 \<le> rc_tail (rs_cells m ! p s)" by auto
    with I(8) obtain a where "a < s" "rc_tail (rs_cells m ! p a) = rc_tail (rs_cells m ! p s)" by fastforce
    with I(11) [OF _ rs_primsD(2) [OF P s], of a] ne show False by auto
  qed
qed

lemma claimed_owns:
  assumes P: "rs_prims p n m0" and I: "rs_claimed p s C m0 m" and s: "s < n"
  shows "rs_owns (p s) m = Some (rs_alone (p s) m)"
proof (cases "0 \<le> rc_tail (rs_cells m ! p s)")
  case False
  then show ?thesis by (simp add: rs_owns_def rs_alone_def)
next
  case True
  note D = rs_claimedD [OF I] and W = rs_wfD [OF rs_primsD(1) [OF P]]
  let ?t = "nat (rc_tail (rs_cells m ! p s))"
  have t: "?t < rs_size m0" "?t \<notin> C" using D(9) [OF rs_primsD(2) [OF P s]] True claimed_next_tail(2) [OF P I s] by auto
  have mem: "int q \<in> rc_seq (rs_cells m ! ?t) \<longleftrightarrow> rc_tail (rs_cells m ! q) = rc_tail (rs_cells m ! p s)" if "q < rs_size m0" for q
    using D(7) [OF t that] True by simp
  have ids: "q \<in> rc_seq (rs_cells m ! ?t) \<Longrightarrow> 0 \<le> q \<and> q < int (rs_size m0)" for q
    using D(4) [OF t] W(5) [OF t(1)] by blast
  have me: "int (p s) \<in> rc_seq (rs_cells m ! ?t)" using mem [OF rs_primsD(2) [OF P s]] by simp
  have "card (rc_seq (rs_cells m ! ?t)) = 1 \<longleftrightarrow> rs_alone (p s) m"
  proof
    assume "card (rc_seq (rs_cells m ! ?t)) = 1"
    then obtain x where "rc_seq (rs_cells m ! ?t) = {x}" by (metis card_1_singletonE)
    with me have "rc_seq (rs_cells m ! ?t) = {int (p s)}" by auto
    with mem True D(1) show "rs_alone (p s) m" by (auto simp: rs_alone_def)
  next
    assume "rs_alone (p s) m"
    then have "q = int (p s)" if "q \<in> rc_seq (rs_cells m ! ?t)" for q
    proof -
      have q: "0 \<le> q" "nat q < rs_size m0" using ids [OF that] by auto
      with mem [of "nat q"] that have "rc_tail (rs_cells m ! nat q) = rc_tail (rs_cells m ! p s)" by simp
      moreover have "\<forall>x < rs_size m. rc_tail (rs_cells m ! x) = rc_tail (rs_cells m ! p s) \<longrightarrow> x = p s"
        using \<open>rs_alone (p s) m\<close> unfolding rs_alone_def by (rule conjunct2)
      moreover have "nat q < rs_size m" using q(2) D(1) by simp
      ultimately have "nat q = p s" by blast
      with nat_0_le [OF q(1)] show ?thesis by metis
    qed
    with me have "rc_seq (rs_cells m ! ?t) = {int (p s)}" by blast
    then show "card (rc_seq (rs_cells m ! ?t)) = 1" by simp
  qed
  moreover have "rs_at m (rc_tail (rs_cells m ! p s)) = Some (rs_cells m ! ?t)" using t D(2) True by (simp add: rs_at_def)
  ultimately show ?thesis using True me by (simp add: rs_owns_def Let_def)
qed

text \<open>Counting: when a sequence needs a cell, some empty cell has not been claimed.\<close>

lemma claimed_room:
  assumes P: "rs_prims p n m0" and I: "rs_claimed p s C m0 m" and s: "s < n" and "\<not> rs_alone (p s) m"
  shows "\<exists>i < rs_size m0. rc_seq (rs_cells m0 ! i) = {} \<and> i \<notin> C"
proof (rule ccontr)
  assume no: "\<not> ?thesis"
  note D = rs_claimedD [OF I] and W = rs_wfD [OF rs_primsD(1) [OF P]]
  let ?Q = "{..<rs_size m0} - {p s}"
  have "{..<rs_size m0} \<subseteq> (\<lambda>q. nat (rc_tail (rs_cells m ! q))) ` ?Q"
  proof
    fix i assume "i \<in> {..<rs_size m0}"
    then have i: "i < rs_size m0" by simp
    have "\<exists>q < rs_size m0. rc_tail (rs_cells m ! q) = int i"
    proof (cases "i \<in> C")
      case True
      from D(8) [OF this] obtain a where "a < s" "rc_tail (rs_cells m ! p a) = int i" by blast
      with rs_primsD(2) [OF P] s show ?thesis by (meson less_trans)
    next
      case False
      with no i have "rc_seq (rs_cells m0 ! i) \<noteq> {}" by blast
      with D(5) [OF i False] obtain q where q: "q \<in> rc_seq (rs_cells m ! i)" by blast
      with D(4) [OF i False] W(5) [OF i] have "0 \<le> q \<and> q < int (rs_size m0)" by blast
      then have "nat q < rs_size m0" "int (nat q) = q" by auto
      with D(7) [OF i False, of "nat q"] q show ?thesis by auto
    qed
    then obtain q where q: "q < rs_size m0" "rc_tail (rs_cells m ! q) = int i" by blast
    have "\<exists>q \<in> ?Q. rc_tail (rs_cells m ! q) = int i"
    proof (cases "q = p s")
      case True
      with q assms(4) D(1) show ?thesis by (auto simp: rs_alone_def)
    qed (use q in blast)
    then show "i \<in> (\<lambda>q. nat (rc_tail (rs_cells m ! q))) ` ?Q" by force
  qed
  then have "card {..<rs_size m0} \<le> card ?Q" by (meson card_image_le card_mono finite_Diff finite_imageI finite_lessThan le_trans)
  with rs_primsD(2) [OF P s] show False by simp
qed

lemma claimed_keep:
  assumes P: "rs_prims p n m0" and I: "rs_claimed p s C m0 m" and s: "s < n" and alone: "rs_alone (p s) m"
  shows "rs_claimed p (Suc s) C m0 m"
proof -
  note D = rs_claimedD [OF I]
  have "\<exists>a < Suc s. rc_tail (rs_cells m ! p a) = int i \<and> rc_seq (rs_cells m ! i) \<subseteq> {int (p a)}" if "i \<in> C" for i
    using D(8) [OF that] less_SucI by blast
  moreover have "cl_prim m0 m (p a)" if "a < Suc s" for a
    using I alone D(1) that by (cases "a = s") (auto simp: rs_alone_def rs_claimed_def cl_prim_def)
  moreover have "cl_seq (p ` {..<Suc s}) C m0 m q" if "q < rs_size m0" for q
    using I that by (auto simp: rs_claimed_def cl_seq_def)
  ultimately show ?thesis using I unfolding rs_claimed_def by blast
qed

lemma claimed_take:
  assumes P: "rs_prims p n m0" and I: "rs_claimed p s C m0 m" and s: "s < n" and need: "\<not> rs_alone (p s) m"
    and nx: "nx < rs_size m0" "rc_seq (rs_cells m0 ! nx) = {}" "nx \<notin> C"
  shows "\<exists>m'. rs_take_cell (p s) nx m = Some m' \<and> rs_claimed p (Suc s) (insert nx C) m0 m' \<and>
    rc_tail (rs_cells m' ! p s) = int nx \<and> (\<forall>a < s. rc_tail (rs_cells m' ! p a) = rc_tail (rs_cells m ! p a)) \<and>
    (\<forall>i < rs_size m0. i \<notin> insert nx C \<longrightarrow> rc_seq (rs_cells m0 ! i) = {} \<longrightarrow> rc_seq (rs_cells m' ! i) = {})"
proof -
  note D = rs_claimedD [OF I] and W = rs_wfD [OF rs_primsD(1) [OF P]]
  let ?q = "p s" and ?t = "rc_tail (rs_cells m ! p s)"
  have q: "?q < rs_size m0" using rs_primsD(2) [OF P s] .
  have t0: "?t = rc_tail (rs_cells m0 ! ?q)" using claimed_next_tail(1) [OF P I s] .
  have e: "rc_seq (rs_cells m ! nx) = {}" using D(4) [OF nx(1,3)] nx(2) by simp
  have free: "rc_tail (rs_cells m ! x) \<noteq> int nx" if "x < rs_size m0" for x
    using D(7) [OF nx(1,3) that] e by simp
  have t: "nat ?t < rs_size m0" "nat ?t \<notin> C" "nat ?t \<noteq> nx" "int ?q \<in> rc_seq (rs_cells m ! nat ?t)" 
    "\<exists>x. x \<in> rc_seq (rs_cells m ! nat ?t) \<and> x \<noteq> int ?q" if "0 \<le> ?t"
  proof -
    show 1: "nat ?t < rs_size m0" using D(9) [OF q] that by simp
    show 2: "nat ?t \<notin> C" using claimed_next_tail(2) [OF P I s] that by auto
    show "nat ?t \<noteq> nx" using free [OF q] that by auto
    show "int ?q \<in> rc_seq (rs_cells m ! nat ?t)" using D(7) [OF 1 2 q] that by simp
    from need that D(1) obtain x where "x < rs_size m0" "rc_tail (rs_cells m ! x) = ?t" "x \<noteq> ?q" by (auto simp: rs_alone_def)
    with D(7) [OF 1 2, of x] that show "\<exists>x. x \<in> rc_seq (rs_cells m ! nat ?t) \<and> x \<noteq> int ?q" by (intro exI [of _ "int x"]) simp
  qed
  define m1 where "m1 = rs_put nx (\<lambda>c. c\<lparr>rc_seq := insert (int ?q) (rc_seq c)\<rparr>)
    (rs_put (nat ?t) (\<lambda>c. c\<lparr>rc_seq := rc_seq c - {int ?q}\<rparr>)
      (rs_put nx (\<lambda>c. c\<lparr>rc_pos := rc_pos (rs_cells m ! nat ?t), rc_src := rc_src (rs_cells m ! nat ?t)\<rparr>) m))"
  define m' where "m' = rs_put ?q (\<lambda>c. c\<lparr>rc_tail := int nx\<rparr>) (if 0 \<le> ?t then m1 else m)"
  have len: "length (rs_cells m') = rs_size m0" "rs_size m' = rs_size m0" using D(1,2) by (simp_all add: m'_def m1_def)
  have tail: "rc_tail (rs_cells m' ! x) = (if x = ?q then int nx else rc_tail (rs_cells m ! x))" if "x < rs_size m0" for x
    using that D(2) by (simp add: m'_def m1_def)
  have seq: "rc_seq (rs_cells m' ! i) = (if 0 \<le> ?t \<and> i = nx then {int ?q}
      else if 0 \<le> ?t \<and> i = nat ?t then rc_seq (rs_cells m ! i) - {int ?q} else rc_seq (rs_cells m ! i))" if "i < rs_size m0" for i
    using that D(2) e t(3) by (cases "0 \<le> ?t") (auto simp: m'_def m1_def)
  have same: "rc_same (rs_cells m' ! i) (if 0 \<le> ?t \<and> i = nx then rs_cells m ! nat ?t else rs_cells m ! i)" if "i < rs_size m0" for i
    using that D(2) t(3) by (cases "0 \<le> ?t") (auto simp: m'_def m1_def rc_same_def)
  have "rs_take_cell ?q nx m = Some m'"
  proof -
    have "rs_at m (int nx) = Some (rs_cells m ! nx)" using nx(1) D(2) by (simp add: rs_at_def)
    moreover have "rs_at m ?t = Some (rs_cells m ! nat ?t)" if "0 \<le> ?t" using t(1) [OF that] D(2) that by (simp add: rs_at_def)
    moreover have "rc_seq (rs_cells m1 ! nat ?t) \<noteq> {}" if "0 \<le> ?t"
      using t(1,3,5) [OF that] D(2) by (auto simp: m1_def)
    ultimately show ?thesis using e by (simp add: rs_take_cell_def m'_def m1_def Let_def)
  qed
  moreover have "rs_claimed p (Suc s) (insert nx C) m0 m'"
  proof -
    have ne: "p a \<noteq> ?q" "p a < rs_size m0" if "a < s" for a
      using rs_primsD(3) [OF P, of a s] rs_primsD(2) [OF P, of a] that s by auto
    have C: "i < rs_size m0" if "i \<in> C" for i using D(3) that by blast
    have out: "i \<noteq> nx" "0 \<le> ?t \<Longrightarrow> i \<noteq> nat ?t" if "i \<in> C" for i using that nx(3) t(2) by auto
    show ?thesis
    proof (rule rs_claimedI)
    show "\<exists>a < Suc s. rc_tail (rs_cells m' ! p a) = int i \<and> rc_seq (rs_cells m' ! i) \<subseteq> {int (p a)}" if i: "i \<in> insert nx C" for i
    proof (cases "i = nx")
      case True
      then show ?thesis using tail [OF q] seq [OF nx(1)] e by (intro exI [of _ s]) auto
    next
      case False
      with i have "i \<in> C" by simp
      from D(8) [OF this] obtain a where a: "a < s" "rc_tail (rs_cells m ! p a) = int i" "rc_seq (rs_cells m ! i) \<subseteq> {int (p a)}" by blast
      with tail [OF ne(2) [OF a(1)]] ne(1) [OF a(1)] seq [OF C [OF \<open>i \<in> C\<close>]] out [OF \<open>i \<in> C\<close>]
      show ?thesis by (intro exI [of _ a]) auto
    qed
    show "cl_cell m0 m' i" if i: "i < rs_size m0" "i \<notin> insert nx C" for i
    proof -
      have *: "rc_seq (rs_cells m' ! i) = rc_seq (rs_cells m ! i) - (if 0 \<le> ?t \<and> i = nat ?t then {int ?q} else {})"
        using seq [OF i(1)] i(2) by auto
      have "rc_seq (rs_cells m' ! i) \<noteq> {}" if "rc_seq (rs_cells m0 ! i) \<noteq> {}"
        using D(5) [OF i(1) _ that] i(2) * t(5) by auto
      moreover have "int x \<in> rc_seq (rs_cells m' ! i) \<longleftrightarrow> rc_tail (rs_cells m' ! x) = int i" if "x < rs_size m0" for x
        using D(7) [OF i(1) _ that] i(2) * tail [OF that] by auto
      ultimately show ?thesis using D(4) [OF i(1)] D(6) [OF i(1)] * i(2) same [OF i(1)] unfolding cl_cell_def by (auto simp: rc_same_def)
    qed
    show "cl_prim m0 m' (p a)" if "a < Suc s" for a
    proof (cases "a = s")
      case True
      then show ?thesis using tail [OF q] tail free by (auto simp: cl_prim_def)
    next
      case False
      with that have a: "a < s" by simp
      show ?thesis using D(10) [OF a] D(11) [OF a] tail [OF ne(2) [OF a]] ne [OF a] tail free [OF ne(2) [OF a]] by (auto simp: cl_prim_def)
    qed
    show "cl_seq (p ` {..<Suc s}) (insert nx C) m0 m' x" if x: "x < rs_size m0" for x
    proof (cases "x = ?q")
      case True
      have "x \<in> p ` {..<Suc s}" using True by auto
      with True tail [OF q] same [OF nx(1)] D(6) [OF nx(1,3)] nx(1) t0 D(6) [OF t(1,2)]
      show ?thesis unfolding cl_seq_def by (auto simp: rc_same_def)
    next
      case False
      have out: "nat (rc_tail (rs_cells m ! x)) \<noteq> nx" if "0 \<le> rc_tail (rs_cells m ! x)" using free [OF x] that by auto
      have lt: "nat (rc_tail (rs_cells m ! x)) < rs_size m0" if "0 \<le> rc_tail (rs_cells m ! x)" using D(9) [OF x] that by simp
      have same': "rc_same (rs_cells m' ! nat (rc_tail (rs_cells m ! x))) (rs_cells m ! nat (rc_tail (rs_cells m ! x)))"
        if "0 \<le> rc_tail (rs_cells m ! x)" using same [OF lt [OF that]] out [OF that] by simp
      have "x \<in> p ` {..<Suc s} \<longleftrightarrow> x \<in> p ` {..<s}" using False by (auto simp: less_Suc_eq)
      then show ?thesis using D(9,12-14) [OF x] tail [OF x] False same' unfolding cl_seq_def by (auto simp: rc_same_def)
    qed
    show "i < rs_size m0 \<and> rc_seq (rs_cells m0 ! i) = {}" if "i \<in> insert nx C" for i using that D(3) nx by blast
    qed (fact len)+
  qed
  moreover have "rc_tail (rs_cells m' ! p a) = rc_tail (rs_cells m ! p a)" if "a < s" for a
    using tail [of "p a"] rs_primsD(2) [OF P, of a] rs_primsD(3) [OF P, of a s] that s by auto
  moreover have "rc_seq (rs_cells m' ! i) = {}" if "i < rs_size m0" "i \<notin> insert nx C" "rc_seq (rs_cells m0 ! i) = {}" for i
    using seq [OF that(1)] D(4) [OF that(1)] that(2,3) by auto
  ultimately show ?thesis using tail [OF q] by auto
qed

definition claim_inv :: "(nat \<Rightarrow> nat) \<Rightarrow> nat \<Rightarrow> nat \<Rightarrow> rs_memory \<Rightarrow> nat \<Rightarrow> nat set \<Rightarrow> rs_memory \<times> nat \<times> int \<times> int \<Rightarrow> bool" where
  "claim_inv p n h m0 s C = (\<lambda>(m, nx, mn, mx). rs_claimed p s C m0 m \<and>
     (s < n \<and> \<not> {i. i < rs_size m0 \<and> rc_seq (rs_cells m0 ! i) = {}} \<subseteq> C \<longrightarrow>
        ring_front h (rs_size m0) {i. i < rs_size m0 \<and> rc_seq (rs_cells m0 ! i) = {}} C nx) \<and>
     (\<forall>a < s. mn \<le> rc_tail (rs_cells m ! p a) \<and> rc_tail (rs_cells m ! p a) \<le> mx) \<and> 0 \<le> mn \<and> mx < int (rs_size m0))"

lemma claim_step_ok:
  assumes U: "rs_ubatch_ok (rs_size m0) u" and wf: "rs_wf m0" and h: "h < rs_size m0" and s: "s < ub_n_seqs u"
    and inv: "claim_inv (prim u) (ub_n_seqs u) h m0 s C st"
  shows "wp (rs_claim_step u s st) (\<lambda>st'. \<exists>C'. claim_inv (prim u) (ub_n_seqs u) h m0 (Suc s) C' st')"
proof -
  obtain m nx mn mx where st: "st = (m, nx, mn, mx)" by (cases st)
  let ?p = "prim u" and ?n = "ub_n_seqs u" and ?E = "{i. i < rs_size m0 \<and> rc_seq (rs_cells m0 ! i) = {}}"
  have I: "rs_claimed ?p s C m0 m" and front: "s < ?n \<Longrightarrow> \<not> ?E \<subseteq> C \<Longrightarrow> ring_front h (rs_size m0) ?E C nx"
    and mm: "\<And>a. a < s \<Longrightarrow> mn \<le> rc_tail (rs_cells m ! ?p a) \<and> rc_tail (rs_cells m ! ?p a) \<le> mx" "0 \<le> mn" "mx < int (rs_size m0)"
    using inv unfolding claim_inv_def st by auto
  note D = rs_claimedD [OF I]
  have P: "rs_prims ?p ?n m0" using wf prim_props(3,5) [OF U] by (auto simp: rs_prims_def)
  have q: "?p s < rs_size m0" using rs_primsD(2) [OF P s] .
  have at: "\<exists>c. rs_at m (set_first u s) = Some c" "nat (set_first u s) = ?p s"
    using q D(2) by (simp_all add: prim_props(1) [OF U s, symmetric] rs_at_def)
  note own = claimed_owns [OF P I s]
  have mm': "(\<forall>a < Suc s. min mn t \<le> T a \<and> T a \<le> max mx t) \<and> 0 \<le> min mn t \<and> max mx t < int (rs_size m0)"
    if T: "\<And>a. a < s \<Longrightarrow> T a = rc_tail (rs_cells m ! ?p a)" and "T s = t" "0 \<le> t" "t < int (rs_size m0)" for T t
  proof -
    have "min mn t \<le> T a \<and> T a \<le> max mx t" if a: "a < Suc s" for a
      using \<open>T s = t\<close> mm(1) [of a] T [of a] a by (cases "a = s") (auto simp: min_def max_def)
    with that mm(2,3) show ?thesis by auto
  qed
  show ?thesis
  proof (cases "rs_alone (?p s) m")
    case True
    let ?t = "rc_tail (rs_cells m ! ?p s)"
    have "rs_claim_step u s st = Some (m, nx, min mn ?t, max mx ?t)"
      using at own True by (auto simp: rs_claim_step_def st Let_def)
    moreover have "0 \<le> ?t" "?t < int (rs_size m0)" using True D(9) [OF q] by (auto simp: rs_alone_def)
    with mm' [of "\<lambda>a. rc_tail (rs_cells m ! ?p a)" ?t] claimed_keep [OF P I s True] front
    have "claim_inv ?p ?n h m0 (Suc s) C (m, nx, min mn ?t, max mx ?t)" by (simp add: claim_inv_def)
    ultimately show ?thesis by auto
  next
    case False
    from claimed_room [OF P I s False] have room: "\<not> ?E \<subseteq> C" by blast
    from front [OF s room] have fr: "ring_front h (rs_size m0) ?E C nx" .
    then have nx: "nx < rs_size m0" "rc_seq (rs_cells m0 ! nx) = {}" "nx \<notin> C" by (auto simp: ring_front_def)
    from claimed_take [OF P I s False nx] obtain m' where m': "rs_take_cell (?p s) nx m = Some m'"
      "rs_claimed ?p (Suc s) (insert nx C) m0 m'" "rc_tail (rs_cells m' ! ?p s) = int nx"
      "\<And>a. a < s \<Longrightarrow> rc_tail (rs_cells m' ! ?p a) = rc_tail (rs_cells m ! ?p a)" by blast
    note D' = rs_claimedD [OF m'(2)]
    let ?nx = "if s + 1 < ?n then rs_next_empty (rs_size m') m' nx else nx"
    have "rs_claim_step u s st = Some (m', ?nx, min mn (int nx), max mx (int nx))"
      using at own False m'(1,3) by (auto simp: rs_claim_step_def st Let_def)
    moreover have "ring_front h (rs_size m0) ?E (insert nx C) ?nx" if "Suc s < ?n" "\<not> ?E \<subseteq> insert nx C"
    proof -
      have "ring_front h (rs_size m') ?E (insert nx C) (rs_next_empty (rs_size m') m' nx)"
      proof (rule rs_next_empty_front)
        show "rc_seq (rs_cells m' ! i) = {}" if "i \<in> ?E - insert nx C" for i using D'(4) [of i] that by auto
        show "rc_seq (rs_cells m' ! i) \<noteq> {}" if "i < rs_size m'" "i \<notin> ?E" for i
          using D'(5) [of i] D'(3) [of i] that D'(1) by auto
      qed (use h fr that(2) D'(1) in auto)
      with that(1) D'(1) show ?thesis by simp
    qed
    with mm' [of "\<lambda>a. rc_tail (rs_cells m' ! ?p a)" "int nx"] m' nx(1)
    have "claim_inv ?p ?n h m0 (Suc s) (insert nx C) (m', ?nx, min mn (int nx), max mx (int nx))" by (simp add: claim_inv_def)
    ultimately show ?thesis by auto
  qed
qed

lemma rs_claim_spec:
  assumes U: "rs_ubatch_ok (rs_size m) u" and wf: "rs_wf m"
  shows "\<exists>m' mn mx C. rs_claim u m = Some (m', mn, mx) \<and> rs_claimed (prim u) (ub_n_seqs u) C m m' \<and> 0 \<le> mn \<and> mx < int (rs_size m) \<and>
    (\<forall>a < ub_n_seqs u. mn \<le> rc_tail (rs_cells m' ! prim u a) \<and> rc_tail (rs_cells m' ! prim u a) \<le> mx)"
proof -
  note W = rs_wfD [OF wf]
  let ?E = "{i. i < rs_size m \<and> rc_seq (rs_cells m ! i) = {}}"
  let ?st = "(m, rs_first_empty (rs_size m) m (rs_head m), int (rs_size m) - 1, 0)"
  have "claim_inv (prim u) (ub_n_seqs u) (rs_head m) m 0 {} ?st"
    using rs_claimed_start [OF wf] W(2,3) rs_first_empty_front [OF W(3), of ?E] by (auto simp: claim_inv_def)
  then have "wp (foldM (rs_claim_step u) [0..<ub_n_seqs u] ?st) (\<lambda>st. \<exists>C. claim_inv (prim u) (ub_n_seqs u) (rs_head m) m (ub_n_seqs u) C st)"
    by (intro wp_foldM_upt [where P = "\<lambda>s st. \<exists>C. claim_inv (prim u) (ub_n_seqs u) (rs_head m) m s C st"])
      (use claim_step_ok [OF U wf W(3)] in blast)+
  then show ?thesis unfolding rs_claim_def by (auto simp: claim_inv_def elim!: wpE)
qed

section \<open>Gathering the cells into a block\<close>

lemma swap_ix_simps [simp]: "swap_ix a b a = b" "swap_ix a b b = a" "x \<noteq> a \<Longrightarrow> x \<noteq> b \<Longrightarrow> swap_ix a b x = x"
  by (simp_all add: swap_ix_def)

lemma swap_ix_invol [simp]: "swap_ix a b (swap_ix a b x) = x"
  by (simp add: swap_ix_def)

lemma swap_ix_int: "swap_ix (int a) (int b) (int x) = int (swap_ix a b x)" "y < 0 \<Longrightarrow> swap_ix (int a) (int b) y = y"
  by (auto simp: swap_ix_def)

lemma swap_ix_lt: "a < n \<Longrightarrow> b < n \<Longrightarrow> x < n \<Longrightarrow> swap_ix a b x < (n :: nat)"
  by (simp add: swap_ix_def)

text \<open>The contents of a cell move, the tails follow.\<close>

definition rs_moved :: "(nat \<Rightarrow> nat) \<Rightarrow> rs_memory \<Rightarrow> rs_memory \<Rightarrow> bool" where
  "rs_moved \<pi> m m' \<longleftrightarrow> rs_size m' = rs_size m \<and> length (rs_cells m') = rs_size m \<and>
     inj_on \<pi> {..<rs_size m} \<and> \<pi> ` {..<rs_size m} = {..<rs_size m} \<and>
     (\<forall>i < rs_size m. rc_same (rs_cells m' ! \<pi> i) (rs_cells m ! i) \<and> rc_seq (rs_cells m' ! \<pi> i) = rc_seq (rs_cells m ! i)) \<and>
     (\<forall>q < rs_size m. rc_tail (rs_cells m' ! q) = (if rc_tail (rs_cells m ! q) < 0 then rc_tail (rs_cells m ! q)
        else int (\<pi> (nat (rc_tail (rs_cells m ! q))))))"

lemma rs_movedD:
  assumes "rs_moved \<pi> m m'"
  shows "rs_size m' = rs_size m" "length (rs_cells m') = rs_size m" "inj_on \<pi> {..<rs_size m}" "\<pi> ` {..<rs_size m} = {..<rs_size m}"
    "\<And>i. i < rs_size m \<Longrightarrow> rc_same (rs_cells m' ! \<pi> i) (rs_cells m ! i)"
    "\<And>i. i < rs_size m \<Longrightarrow> rc_seq (rs_cells m' ! \<pi> i) = rc_seq (rs_cells m ! i)"
    "\<And>q. q < rs_size m \<Longrightarrow> rc_tail (rs_cells m' ! q) = (if rc_tail (rs_cells m ! q) < 0 then rc_tail (rs_cells m ! q)
        else int (\<pi> (nat (rc_tail (rs_cells m ! q)))))"
    "\<And>i. i < rs_size m \<Longrightarrow> \<pi> i < rs_size m"
  using assms unfolding rs_moved_def by (simp_all, blast)

lemma rs_moved_refl: "length (rs_cells m) = rs_size m \<Longrightarrow> rs_moved (\<lambda>i. i) m m"
  by (simp add: rs_moved_def)

lemma rs_swap_moved:
  assumes "length (rs_cells m) = rs_size m" "a < rs_size m" "b < rs_size m"
  shows "rs_moved (swap_ix a b) m (rs_swap a b m)"
proof -
  let ?m = "rs_swap a b m"
  have cell: "rs_cells ?m ! i = (rs_cells m ! i)\<lparr>rc_tail := swap_ix (int a) (int b) (rc_tail (rs_cells m ! i)),
      rc_pos := rc_pos (rs_cells m ! swap_ix a b i), rc_src := rc_src (rs_cells m ! swap_ix a b i),
      rc_seq := rc_seq (rs_cells m ! swap_ix a b i)\<rparr>" if "i < rs_size m" for i
    using that assms by (auto simp: rs_swap_def Let_def swap_ix_def)
  have "inj_on (swap_ix a b) {..<rs_size m}" by (metis inj_onI swap_ix_invol)
  moreover have "swap_ix a b ` {..<rs_size m} = {..<rs_size m}"
  proof (rule antisym)
    show "{..<rs_size m} \<subseteq> swap_ix a b ` {..<rs_size m}"
    proof
      fix x assume "x \<in> {..<rs_size m}"
      then show "x \<in> swap_ix a b ` {..<rs_size m}"
        using swap_ix_lt [OF assms(2,3), of x] by (intro image_eqI [of _ _ "swap_ix a b x"]) simp_all
    qed
  qed (use swap_ix_lt [OF assms(2,3)] in auto)
  moreover have "rc_tail (rs_cells ?m ! q) = (if rc_tail (rs_cells m ! q) < 0 then rc_tail (rs_cells m ! q)
      else int (swap_ix a b (nat (rc_tail (rs_cells m ! q)))))" if "q < rs_size m" for q
    using cell [OF that] swap_ix_int(1) [of a b "nat (rc_tail (rs_cells m ! q))"] swap_ix_int(2) [of "rc_tail (rs_cells m ! q)" a b]
    by (cases "rc_tail (rs_cells m ! q) < 0") simp_all
  moreover have "length (rs_cells ?m) = rs_size m" "rs_size ?m = rs_size m" using assms by (simp_all add: rs_swap_def Let_def)
  ultimately show ?thesis using cell swap_ix_lt [OF assms(2,3)] by (auto simp: rs_moved_def rc_same_def)
qed

lemma rs_moved_trans:
  assumes "rs_moved \<pi> m m1" "rs_moved \<rho> m1 m2"
    and range: "\<And>q. q < rs_size m \<Longrightarrow> rc_tail (rs_cells m ! q) < int (rs_size m)"
  shows "rs_moved (\<rho> \<circ> \<pi>) m m2"
proof -
  note A = rs_movedD [OF assms(1)] and B = rs_movedD [OF assms(2)]
  have "inj_on (\<rho> \<circ> \<pi>) {..<rs_size m}" using A(1,3,4) B(3) by (simp add: comp_inj_on)
  moreover have "(\<rho> \<circ> \<pi>) ` {..<rs_size m} = {..<rs_size m}" using A(1,4) B(4) by (metis image_comp)
  moreover have "rc_same (rs_cells m2 ! (\<rho> \<circ> \<pi>) i) (rs_cells m ! i) \<and> rc_seq (rs_cells m2 ! (\<rho> \<circ> \<pi>) i) = rc_seq (rs_cells m ! i)"
    if "i < rs_size m" for i
    using A(1) A(5,6,8) [OF that] B(5,6) [of "\<pi> i"] by (simp add: rc_same_def)
  moreover have "rc_tail (rs_cells m2 ! q) = (if rc_tail (rs_cells m ! q) < 0 then rc_tail (rs_cells m ! q)
      else int ((\<rho> \<circ> \<pi>) (nat (rc_tail (rs_cells m ! q)))))" if "q < rs_size m" for q
    using A(1) A(7) [OF that] B(7) [of q] that by simp
  ultimately show ?thesis using A(1) B(1,2) by (simp add: rs_moved_def)
qed

text \<open>The loop: the first sequence of every set served has its state at its place in the block.\<close>

definition gather_inv :: "(nat \<Rightarrow> nat) \<Rightarrow> int \<Rightarrow> int \<Rightarrow> rs_memory \<Rightarrow> nat \<Rightarrow> (nat \<Rightarrow> nat) \<Rightarrow> rs_memory \<Rightarrow> bool" where
  "gather_inv p mn mx m s \<pi> m' \<longleftrightarrow> rs_moved \<pi> m m' \<and> (\<forall>i < rs_size m. int i < mn \<or> mx < int i \<longrightarrow> \<pi> i = i) \<and>
     (\<forall>a < s. int (\<pi> (nat (rc_tail (rs_cells m ! p a)))) = mn + int a)"

lemma gather_step_ok:
  assumes U: "rs_ubatch_ok (rs_size m) u" and mm: "0 \<le> mn" "mx < int (rs_size m)"
    and tails: "\<And>a. a < ub_n_seqs u \<Longrightarrow> mn \<le> rc_tail (rs_cells m ! prim u a) \<and> rc_tail (rs_cells m ! prim u a) \<le> mx"
    and inj: "\<And>a b. a < ub_n_seqs u \<Longrightarrow> b < ub_n_seqs u \<Longrightarrow> rc_tail (rs_cells m ! prim u a) = rc_tail (rs_cells m ! prim u b) \<Longrightarrow> a = b"
    and fit: "mn + int (ub_n_seqs u) \<le> mx + 1"
    and range: "\<And>q. q < rs_size m \<Longrightarrow> rc_tail (rs_cells m ! q) < int (rs_size m)"
    and s: "s < ub_n_seqs u" and inv: "gather_inv (prim u) mn mx m s \<pi> m'"
  shows "wp (rs_gather_step u mn s m') (\<lambda>m''. \<exists>\<pi>'. gather_inv (prim u) mn mx m (Suc s) \<pi>' m'')"
proof -
  let ?T = "\<lambda>a. nat (rc_tail (rs_cells m ! prim u a))"
  have mv: "rs_moved \<pi> m m'" and out: "\<And>i. i < rs_size m \<Longrightarrow> int i < mn \<or> mx < int i \<Longrightarrow> \<pi> i = i"
    and pl: "\<And>a. a < s \<Longrightarrow> int (\<pi> (?T a)) = mn + int a"
    using inv unfolding gather_inv_def by blast+
  note M = rs_movedD [OF mv]
  have T: "?T a < rs_size m" "int (?T a) = rc_tail (rs_cells m ! prim u a)" if "a < ub_n_seqs u" for a
    using tails [OF that] mm by auto
  have same: "\<pi> i = \<pi> j \<longleftrightarrow> i = j" if "i < rs_size m" "j < rs_size m" for i j
    using M(3) that by (auto simp: inj_on_def)
  have block: "mn \<le> int (\<pi> (?T a)) \<and> int (\<pi> (?T a)) \<le> mx" if a: "a < ub_n_seqs u" for a
  proof (rule ccontr)
    assume "\<not> ?thesis"
    then have "\<pi> (\<pi> (?T a)) = \<pi> (?T a)" using out [of "\<pi> (?T a)"] M(8) [OF T(1) [OF a]] by auto
    with same M(8) [OF T(1) [OF a]] T(1) [OF a] have "\<pi> (?T a) = ?T a" by blast
    with tails [OF a] T(2) [OF a] \<open>\<not> ?thesis\<close> show False by simp
  qed
  have tail: "rc_tail (rs_cells m' ! prim u s) = int (\<pi> (?T s))" using M(7) [OF prim_props(3) [OF U s]] tails [OF s] mm by simp
  have at: "rs_at m' (set_first u s) = Some (rs_cells m' ! prim u s)"
    using prim_props(3) [OF U s] M(1,2) by (simp add: prim_props(1) [OF U s, symmetric] rs_at_def)
  show ?thesis
  proof (cases "int s + mn = int (\<pi> (?T s))")
    case True
    then have "rs_gather_step u mn s m' = Some m'" using at tail by (simp add: rs_gather_step_def)
    moreover have "gather_inv (prim u) mn mx m (Suc s) \<pi> m'" using inv True unfolding gather_inv_def by (auto simp: less_Suc_eq)
    ultimately show ?thesis by auto
  next
    case False
    let ?d = "nat (int s + mn)" and ?c = "\<pi> (?T s)"
    have d: "?d < rs_size m" "int ?d = int s + mn" "int ?d \<le> mx" using mm fit s by auto
    have c: "?c < rs_size m" "mn \<le> int ?c" "int ?c \<le> mx" using M(8) [OF T(1) [OF s]] block [OF s] by auto
    have "rs_gather_step u mn s m' = Some (rs_swap ?d ?c m')"
    proof -
      have "rs_at m' (int s + mn) = Some (rs_cells m' ! ?d)" using d(1,3) mm(1) M(2) by (simp add: rs_at_def)
      moreover have "rs_at m' (int ?c) = Some (rs_cells m' ! ?c)" using c M(2) by (simp add: rs_at_def)
      ultimately show ?thesis using at tail False by (simp add: rs_gather_step_def)
    qed
    moreover have "rs_moved (swap_ix ?d ?c \<circ> \<pi>) m (rs_swap ?d ?c m')"
      by (rule rs_moved_trans [OF mv rs_swap_moved range]) (use d c M(1,2) in auto)
    moreover have "(swap_ix ?d ?c \<circ> \<pi>) i = i" if "i < rs_size m" "int i < mn \<or> mx < int i" for i
      using out [OF that] that(2) d mm c by (auto simp: swap_ix_def)
    moreover have "int ((swap_ix ?d ?c \<circ> \<pi>) (?T a)) = mn + int a" if "a < Suc s" for a
    proof (cases "a = s")
      case True
      then show ?thesis using d by simp
    next
      case F: False
      with that have a: "a < s" "a < ub_n_seqs u" using s by simp_all
      have "?T a \<noteq> ?T s" using inj [OF a(2) s] T(2) [OF a(2)] T(2) [OF s] F by metis
      then have "\<pi> (?T a) \<noteq> ?c" using same T(1) a(2) s by blast
      moreover have "\<pi> (?T a) \<noteq> ?d" using pl [OF a(1)] d(2) a(1) by auto
      ultimately show ?thesis using pl [OF a(1)] by simp
    qed
    ultimately show ?thesis unfolding gather_inv_def by auto
  qed
qed

lemma rs_gather_spec:
  assumes U: "rs_ubatch_ok (rs_size m) u" and mm: "0 \<le> mn" "mx < int (rs_size m)" and len: "length (rs_cells m) = rs_size m"
    and tails: "\<And>a. a < ub_n_seqs u \<Longrightarrow> mn \<le> rc_tail (rs_cells m ! prim u a) \<and> rc_tail (rs_cells m ! prim u a) \<le> mx"
    and inj: "\<And>a b. a < ub_n_seqs u \<Longrightarrow> b < ub_n_seqs u \<Longrightarrow> rc_tail (rs_cells m ! prim u a) = rc_tail (rs_cells m ! prim u b) \<Longrightarrow> a = b"
    and range: "\<And>q. q < rs_size m \<Longrightarrow> rc_tail (rs_cells m ! q) < int (rs_size m)"
  shows "mn + int (ub_n_seqs u) \<le> mx + 1"
    "\<exists>m' \<pi>. foldM (rs_gather_step u mn) [0..<ub_n_seqs u] m = Some m' \<and> gather_inv (prim u) mn mx m (ub_n_seqs u) \<pi> m'"
proof -
  have "inj_on (\<lambda>a. rc_tail (rs_cells m ! prim u a)) {..<ub_n_seqs u}" using inj by (auto simp: inj_on_def)
  moreover have "(\<lambda>a. rc_tail (rs_cells m ! prim u a)) ` {..<ub_n_seqs u} \<subseteq> {mn..mx}" using tails by auto
  ultimately have "card {..<ub_n_seqs u} \<le> card {mn..mx}" by (metis card_image card_mono finite_atLeastAtMost_int)
  then show fit: "mn + int (ub_n_seqs u) \<le> mx + 1" using rs_ubatch_okD(2) [OF U] by simp
  have "gather_inv (prim u) mn mx m 0 (\<lambda>i. i) m" using rs_moved_refl [OF len] by (simp add: gather_inv_def)
  then have "wp (foldM (rs_gather_step u mn) [0..<ub_n_seqs u] m) (\<lambda>m'. \<exists>\<pi>. gather_inv (prim u) mn mx m (ub_n_seqs u) \<pi> m')"
    by (intro wp_foldM_upt [where P = "\<lambda>s m'. \<exists>\<pi>. gather_inv (prim u) mn mx m s \<pi> m'"])
      (blast, use gather_step_ok [OF U mm tails inj fit range] in blast)
  then show "\<exists>m' \<pi>. foldM (rs_gather_step u mn) [0..<ub_n_seqs u] m = Some m' \<and> gather_inv (prim u) mn mx m (ub_n_seqs u) \<pi> m'"
    by (auto elim!: wpE)
qed

section \<open>Writing the new positions\<close>

lemma rs_enter_all:
  assumes "i < rs_size m" "length (rs_cells m) = rs_size m" "\<forall>q \<in> set qs. 0 \<le> q \<and> q < int (rs_size m)"
  shows "\<exists>m'. foldM (rs_enter i) qs m = Some m' \<and> rs_size m' = rs_size m \<and> length (rs_cells m') = rs_size m \<and>
    (\<forall>j < rs_size m. rs_cells m' ! j = (rs_cells m ! j)\<lparr>
       rc_tail := (if int j \<in> set qs then int i else rc_tail (rs_cells m ! j)),
       rc_seq := (if j = i then set qs \<union> rc_seq (rs_cells m ! j) else rc_seq (rs_cells m ! j))\<rparr>)"
  using assms
proof (induction qs arbitrary: m)
  case (Cons q qs)
  let ?m1 = "rs_put (nat q) (\<lambda>c. c\<lparr>rc_tail := int i\<rparr>) (rs_put i (\<lambda>c. c\<lparr>rc_seq := insert q (rc_seq c)\<rparr>) m)"
  have q: "0 \<le> q" "nat q < rs_size m" using Cons.prems(3) by auto
  then have "rs_enter i q m = Some ?m1" using Cons.prems(2) by (simp add: rs_enter_def rs_at_def Let_def)
  moreover have "\<exists>m'. foldM (rs_enter i) qs ?m1 = Some m' \<and> rs_size m' = rs_size ?m1 \<and> length (rs_cells m') = rs_size ?m1 \<and>
    (\<forall>j < rs_size ?m1. rs_cells m' ! j = (rs_cells ?m1 ! j)\<lparr>
       rc_tail := (if int j \<in> set qs then int i else rc_tail (rs_cells ?m1 ! j)),
       rc_seq := (if j = i then set qs \<union> rc_seq (rs_cells ?m1 ! j) else rc_seq (rs_cells ?m1 ! j))\<rparr>)"
    using Cons.prems by (intro Cons.IH) auto
  ultimately show ?case using q Cons.prems(1,2) by auto
qed simp

text \<open>The cells of the block, the other cells, and the tails, when the sets below \<open>s\<close> are written.\<close>

definition place_inv :: "'e llama_ubatch \<Rightarrow> nat \<Rightarrow> rs_memory \<Rightarrow> nat \<Rightarrow> rs_memory \<Rightarrow> bool" where
  "place_inv u k m s m' \<longleftrightarrow> rs_size m' = rs_size m \<and> length (rs_cells m') = rs_size m \<and>
     (\<forall>i < rs_size m. rc_src (rs_cells m' ! i) = rc_src (rs_cells m ! i) \<and>
        (i < k \<or> k + s \<le> i \<longrightarrow> rc_pos (rs_cells m' ! i) = rc_pos (rs_cells m ! i) \<and> rc_seq (rs_cells m' ! i) = rc_seq (rs_cells m ! i))) \<and>
     (\<forall>a < s. rc_pos (rs_cells m' ! (k + a)) = set_last_pos u a \<and> rc_seq (rs_cells m' ! (k + a)) = set (set_ids u a)) \<and>
     (\<forall>q < rs_size m. \<forall>a < s. int q \<in> set (set_ids u a) \<longrightarrow> rc_tail (rs_cells m' ! q) = int (k + a)) \<and>
     (\<forall>q < rs_size m. (\<forall>a < s. int q \<notin> set (set_ids u a)) \<longrightarrow> rc_tail (rs_cells m' ! q) = rc_tail (rs_cells m ! q))"

lemma place_step_ok:
  assumes U: "rs_ubatch_ok (rs_size m) u" and fit: "k + ub_n_seqs u \<le> rs_size m" and s: "s < ub_n_seqs u"
    and room: "\<And>i. i < rs_size m \<Longrightarrow> rc_pos (rs_cells m ! i) + int (ub_n_seq_tokens u) \<le> int32_max"
    and inv: "place_inv u k m s m'"
  shows "wp (rs_place_step u (int k) s m') (place_inv u k m (Suc s))"
proof -
  note U' = rs_ubatch_okD [OF U]
  have fr: "rs_size m' = rs_size m" "length (rs_cells m') = rs_size m" using inv by (simp_all add: place_inv_def)
  have ks: "k + s < rs_size m" using fit s by simp
  have at: "rs_at m' (int s + int k) = Some (rs_cells m' ! (k + s))" "nat (int s + int k) = k + s"
    using ks fr by (simp_all add: rs_at_def nat_add_distrib add.commute)
  have "rc_pos (rs_cells m' ! (k + s)) = rc_pos (rs_cells m ! (k + s))" using inv ks unfolding place_inv_def by simp
  with room [OF ks] have "\<exists>x. (if rc_pos (rs_cells m' ! (k + s)) \<ge> 0 then s32 (rc_pos (rs_cells m' ! (k + s)) + int (ub_n_seq_tokens u)) else Some 0) = Some x"
    by (simp add: s32_def int32_ok_def int32_min_def)
  then obtain x where x: "(if rc_pos (rs_cells m' ! (k + s)) \<ge> 0 then s32 (rc_pos (rs_cells m' ! (k + s)) + int (ub_n_seq_tokens u)) else Some 0) = Some x" ..
  let ?m1 = "rs_put (k + s) (\<lambda>c. c\<lparr>rc_pos := set_last_pos u s, rc_seq := {}\<rparr>) m'"
  have "\<forall>q \<in> set (set_ids u s). 0 \<le> q \<and> q < int (rs_size ?m1)" using U'(6) [OF s] fr by simp
  moreover have "k + s < rs_size ?m1" "length (rs_cells ?m1) = rs_size ?m1" using ks fr by simp_all
  ultimately obtain m'' where
    m'': "foldM (rs_enter (k + s)) (set_ids u s) ?m1 = Some m''" "rs_size m'' = rs_size ?m1" "length (rs_cells m'') = rs_size ?m1"
    and cells: "\<forall>j < rs_size ?m1. rs_cells m'' ! j = (rs_cells ?m1 ! j)\<lparr>
       rc_tail := (if int j \<in> set (set_ids u s) then int (k + s) else rc_tail (rs_cells ?m1 ! j)),
       rc_seq := (if j = k + s then set (set_ids u s) \<union> rc_seq (rs_cells ?m1 ! j) else rc_seq (rs_cells ?m1 ! j))\<rparr>"
    using rs_enter_all [of "k + s" ?m1 "set_ids u s"] by blast
  have C: "rc_src (rs_cells m'' ! j) = rc_src (rs_cells m' ! j)"
    "rc_pos (rs_cells m'' ! j) = (if j = k + s then set_last_pos u s else rc_pos (rs_cells m' ! j))"
    "rc_seq (rs_cells m'' ! j) = (if j = k + s then set (set_ids u s) else rc_seq (rs_cells m' ! j))"
    "rc_tail (rs_cells m'' ! j) = (if int j \<in> set (set_ids u s) then int (k + s) else rc_tail (rs_cells m' ! j))" if "j < rs_size m" for j
    using cells that fr by auto
  have "rs_place_step u (int k) s m' = Some m''" using at x m''(1) by (simp add: rs_place_step_def del: of_nat_add)
  moreover have "place_inv u k m (Suc s) m''"
    unfolding place_inv_def
  proof (intro conjI allI impI)
    fix i assume i: "i < rs_size m"
    show "rc_src (rs_cells m'' ! i) = rc_src (rs_cells m ! i)" using C(1) [OF i] inv i by (simp add: place_inv_def)
    show "rc_pos (rs_cells m'' ! i) = rc_pos (rs_cells m ! i)" "rc_seq (rs_cells m'' ! i) = rc_seq (rs_cells m ! i)"
      if "i < k \<or> k + Suc s \<le> i" using C(2,3) [OF i] inv i that by (auto simp: place_inv_def)
  next
    fix a assume a: "a < Suc s"
    with ks have ka: "k + a < rs_size m" by simp
    show "rc_pos (rs_cells m'' ! (k + a)) = set_last_pos u a" "rc_seq (rs_cells m'' ! (k + a)) = set (set_ids u a)"
      using C(2,3) [OF ka] inv a by (auto simp: place_inv_def less_Suc_eq)
  next
    fix q a assume q: "q < rs_size m" and a: "a < Suc s" "int q \<in> set (set_ids u a)"
    show "rc_tail (rs_cells m'' ! q) = int (k + a)"
    proof (cases "a = s")
      case True
      with C(4) [OF q] a(2) show ?thesis by simp
    next
      case False
      with a s have "a < s" "int q \<notin> set (set_ids u s)" using U'(8) [of a s] by auto
      with C(4) [OF q] inv q a(2) show ?thesis by (simp add: place_inv_def)
    qed
  next
    fix q assume "q < rs_size m" "\<forall>a < Suc s. int q \<notin> set (set_ids u a)"
    then show "rc_tail (rs_cells m'' ! q) = rc_tail (rs_cells m ! q)"
      using C(4) [of q] inv by (auto simp: place_inv_def)
  qed (use m'' fr in simp_all)
  ultimately show ?thesis by simp
qed

lemma rs_place_spec:
  assumes U: "rs_ubatch_ok (rs_size m) u" and fit: "k + ub_n_seqs u \<le> rs_size m" and len: "length (rs_cells m) = rs_size m"
    and room: "\<And>i. i < rs_size m \<Longrightarrow> rc_pos (rs_cells m ! i) + int (ub_n_seq_tokens u) \<le> int32_max"
  shows "\<exists>m'. foldM (rs_place_step u (int k)) [0..<ub_n_seqs u] m = Some m' \<and> place_inv u k m (ub_n_seqs u) m'"
proof -
  have "wp (foldM (rs_place_step u (int k)) [0..<ub_n_seqs u] m) (place_inv u k m (ub_n_seqs u))"
  proof (rule wp_foldM_upt)
    show "place_inv u k m 0 m" using len by (simp add: place_inv_def)
  qed (rule place_step_ok [OF U fit _ room])
  then show ?thesis by (auto elim!: wpE)
qed

section \<open>Recording the sources\<close>

text \<open>The block is \<open>{k..<e}\<close>. The cell that will hold the zero state is one nobody is copied from.\<close>

definition staged_zero :: "nat \<Rightarrow> nat \<Rightarrow> rs_memory \<Rightarrow> int" where
  "staged_zero k e m = (case find (\<lambda>i. rs_refs m i = 0) [k..<e] of None \<Rightarrow> - 1 | Some i \<Rightarrow> int i)"

lemma rs_refs_zero: "rs_refs m i = 0 \<longleftrightarrow> (\<forall>j < length (rs_cells m). rc_src (rs_cells m ! j) \<noteq> int i)"
  by (simp add: rs_refs_def filter_empty_conv all_set_conv_all_nth)

lemma staged_zero_cases:
  "staged_zero k e m = - 1 \<and> (\<forall>i. k \<le> i \<and> i < e \<longrightarrow> rs_refs m i \<noteq> 0) \<or>
   (\<exists>z. staged_zero k e m = int z \<and> k \<le> z \<and> z < e \<and> rs_refs m z = 0)"
proof (cases "find (\<lambda>i. rs_refs m i = 0) [k..<e]")
  case None
  then have "\<forall>i. k \<le> i \<and> i < e \<longrightarrow> rs_refs m i \<noteq> 0" "staged_zero k e m = - 1"
    by (simp add: find_None_iff, simp add: staged_zero_def)
  then show ?thesis by simp
next
  case (Some z)
  then have "rs_refs m z = 0 \<and> z \<in> set [k..<e]" by (metis (mono_tags, lifting) find_Some_iff nth_mem)
  with Some show ?thesis by (simp add: staged_zero_def)
qed

text \<open>Counting again: as the cells outside the block only refer to themselves, a cell of the block
  without a source leaves a cell of the block without a reference.\<close>

lemma staged_zero_exists:
  assumes len: "length (rs_cells m) = rs_size m" "e \<le> rs_size m"
    and out: "\<And>i. i < rs_size m \<Longrightarrow> i < k \<or> e \<le> i \<Longrightarrow> rc_src (rs_cells m ! i) = - 1 \<or> rc_src (rs_cells m ! i) = int i"
    and neg: "k \<le> i0" "i0 < e" "rc_src (rs_cells m ! i0) < 0"
  shows "0 \<le> staged_zero k e m"
proof (rule ccontr)
  assume "\<not> ?thesis"
  with staged_zero_cases [of k e m] have all: "rs_refs m i \<noteq> 0" if "k \<le> i" "i < e" for i using that by auto
  have "{k..<e} \<subseteq> (\<lambda>j. nat (rc_src (rs_cells m ! j))) ` ({k..<e} - {i0})"
  proof
    fix i assume "i \<in> {k..<e}"
    then have i: "k \<le> i" "i < e" by auto
    with all rs_refs_zero len obtain j where j: "j < rs_size m" "rc_src (rs_cells m ! j) = int i" by metis
    have "k \<le> j \<and> j < e" using out [OF j(1)] j(2) i by (cases "j < k \<or> e \<le> j") auto
    moreover have "j \<noteq> i0" using j(2) neg(3) by auto
    ultimately show "i \<in> (\<lambda>j. nat (rc_src (rs_cells m ! j))) ` ({k..<e} - {i0})"
      using j(2) by (intro image_eqI [of _ _ j]) auto
  qed
  then have "card {k..<e} \<le> card ({k..<e} - {i0})" by (meson card_image_le card_mono finite_Diff finite_atLeastLessThan finite_imageI le_trans)
  with neg show False by simp
qed

lemma foldM_image: "foldM f (map g xs) s = foldM (\<lambda>x. f (g x)) xs s"
  by (induction xs arbitrary: s) (auto intro!: arg_cong [where f = "Option.bind _"])

lemma foldM_shift: "foldM f [k..<k + n] s = foldM (\<lambda>j. f (k + j)) [0..<n] s"
proof -
  have "[k..<k + n] = map ((+) k) [0..<n]" by (induction n) simp_all
  then show ?thesis by (simp only: foldM_image)
qed

definition stage_inv :: "nat \<Rightarrow> int \<Rightarrow> rs_memory \<Rightarrow> nat \<Rightarrow> rs_memory \<Rightarrow> bool" where
  "stage_inv k z m s m' \<longleftrightarrow> rs_size m' = rs_size m \<and> length (rs_cells m') = rs_size m \<and> rs_z m' = z \<and>
     (\<forall>i < rs_size m. rs_cells m' ! i = (if k \<le> i \<and> i < k + s
        then (rs_cells m ! i)\<lparr>rc_src0 := (if rc_src (rs_cells m ! i) < 0 then z else rc_src (rs_cells m ! i)), rc_src := int i\<rparr>
        else rs_cells m ! i))"

lemma rs_stage_spec:
  assumes len: "length (rs_cells m) = rs_size m" "k + n \<le> rs_size m" "0 < n"
    and src: "\<And>i. i < rs_size m \<Longrightarrow> rc_src (rs_cells m ! i) < int (rs_size m)"
    and out: "\<And>i. i < rs_size m \<Longrightarrow> i < k \<or> k + n \<le> i \<Longrightarrow> rc_src (rs_cells m ! i) = - 1 \<or> rc_src (rs_cells m ! i) = int i"
  shows "\<exists>m'. rs_stage (int k) (int (k + n) - 1) m = Some m' \<and> stage_inv k (staged_zero k (k + n) m) m n m'"
proof -
  let ?z = "staged_zero k (k + n) m"
  have g: "0 \<le> int k \<and> int (k + n) - 1 < int (rs_size m) \<and> list_all (\<lambda>c. rc_src c < int (rs_size m)) (rs_cells m)"
    using assms by (auto simp: list_all_length)
  have "wp (foldM (\<lambda>j. rs_stage_step (k + j)) [0..<n] (m\<lparr>rs_z := ?z\<rparr>)) (stage_inv k ?z m n)"
  proof (rule wp_foldM_upt [where P = "stage_inv k ?z m"])
    show "stage_inv k ?z m 0 (m\<lparr>rs_z := ?z\<rparr>)" using len by (simp add: stage_inv_def)
  next
    fix j m' assume j: "j < n" and I: "stage_inv k ?z m j m'"
    have kj: "k + j < rs_size m" using j len by simp
    have at: "rs_cells m' ! (k + j) = rs_cells m ! (k + j)" using I kj by (simp add: stage_inv_def)
    have "rs_stage_step (k + j) m' = Some (rs_put (k + j) (\<lambda>c. c\<lparr>rc_src0 := (if rc_src (rs_cells m ! (k + j)) < 0 then ?z else rc_src (rs_cells m ! (k + j))), rc_src := int (k + j)\<rparr>) m')"
    proof -
      have "0 \<le> ?z" if "rc_src (rs_cells m ! (k + j)) < 0"
        by (rule staged_zero_exists [OF len(1,2) out]) (use that j in simp_all)
      moreover have "rs_z m' = ?z" using I unfolding stage_inv_def by blast
      ultimately show ?thesis using at by (simp add: rs_stage_step_def Let_def rs_put_def)
    qed
    moreover have "stage_inv k ?z m (Suc j) (rs_put (k + j) (\<lambda>c. c\<lparr>rc_src0 := (if rc_src (rs_cells m ! (k + j)) < 0 then ?z else rc_src (rs_cells m ! (k + j))), rc_src := int (k + j)\<rparr>) m')"
      using I at unfolding stage_inv_def by (auto simp: less_Suc_eq)
    ultimately show "wp (rs_stage_step (k + j) m') (stage_inv k ?z m (Suc j))" by simp
  qed
  moreover have "foldM rs_stage_step [k..<k + n] s = foldM (\<lambda>j. rs_stage_step (k + j)) [0..<n] s" for s
    using foldM_shift [of rs_stage_step k n s] .
  moreover have "nat (int (k + n) - 1 + 1) = k + n" by simp
  ultimately show ?thesis using g unfolding rs_stage_def staged_zero_def by (auto simp: Let_def elim!: wpE)
qed

section \<open>The contract of find_slot\<close>

text \<open>
  What the next graph finds in row \<open>i\<close> after it has cleared the row \<open>rs_z\<close> and copied the rows of the
  block \<open>head\<close>, \dots, \<open>head + n - 1\<close> from where \<open>rc_src0\<close> says.
\<close>

definition rs_incoming :: "'v \<Rightarrow> (nat \<Rightarrow> 'v) \<Rightarrow> rs_memory \<Rightarrow> nat \<Rightarrow> 'v" where
  "rs_incoming Z D m i = (let D' = (\<lambda>j. if int j = rs_z m then Z else D j) in
     if rs_head m \<le> i \<and> i < rs_head m + rs_n m then D' (nat (rc_src0 (rs_cells m ! i))) else D' i)"

text \<open>A cell without a sequence holds the zero state.\<close>

definition rs_clean :: "'v \<Rightarrow> (nat \<Rightarrow> 'v) \<Rightarrow> rs_memory \<Rightarrow> bool" where
  "rs_clean Z D m \<longleftrightarrow> (\<forall>i < rs_size m. rc_seq (rs_cells m ! i) = {} \<longrightarrow> rs_value Z D (rc_src (rs_cells m ! i)) = Z)"

lemma rs_clean_dropped: "rs_dropped Q m m' \<Longrightarrow> rs_clean Z D m \<Longrightarrow> rs_clean Z D m'"
  using rs_droppedD(2,6) [of Q m m'] unfolding rs_clean_def rs_value_def by fastforce

text \<open>
  The memory after the positions are written, against the memory \<open>m0\<close> after sharing: the block
  \<open>{k..<k + nb}\<close> starts with the sets of the micro-batch, every other cell has the contents of some
  cell of \<open>m0\<close>, and cells outside the block have not moved.
\<close>

definition rs_layout :: "'e llama_ubatch \<Rightarrow> nat \<Rightarrow> nat \<Rightarrow> rs_memory \<Rightarrow> rs_memory \<Rightarrow> bool" where
  "rs_layout u k nb m0 m \<longleftrightarrow> rs_size m = rs_size m0 \<and> length (rs_cells m) = rs_size m0 \<and>
     (\<forall>a < ub_n_seqs u. rc_seq (rs_cells m ! (k + a)) = set (set_ids u a) \<and> rc_pos (rs_cells m ! (k + a)) = set_last_pos u a \<and>
        (\<exists>j < rs_size m0. rc_src (rs_cells m ! (k + a)) = rc_src (rs_cells m0 ! j) \<and>
           (if 0 \<le> rc_tail (rs_cells m0 ! prim u a) then int j = rc_tail (rs_cells m0 ! prim u a) else rc_seq (rs_cells m0 ! j) = {}))) \<and>
     (\<forall>i < rs_size m0. i < k \<or> k + ub_n_seqs u \<le> i \<longrightarrow> (\<exists>j < rs_size m0. rc_same (rs_cells m ! i) (rs_cells m0 ! j) \<and>
        rc_seq (rs_cells m ! i) \<subseteq> rc_seq (rs_cells m0 ! j) \<and> (rc_seq (rs_cells m ! i) = {} \<longrightarrow> rc_seq (rs_cells m0 ! j) = {}) \<and>
        (i < k \<or> k + nb \<le> i \<longrightarrow> j = i))) \<and>
     (\<forall>q < rs_size m0. \<forall>a < ub_n_seqs u. int q \<in> set (set_ids u a) \<longrightarrow> rc_tail (rs_cells m ! q) = int (k + a)) \<and>
     (\<forall>q < rs_size m0. (\<forall>a < ub_n_seqs u. int q \<notin> set (set_ids u a)) \<longrightarrow>
        (if rc_tail (rs_cells m0 ! q) < 0 then rc_tail (rs_cells m ! q) = rc_tail (rs_cells m0 ! q)
         else 0 \<le> rc_tail (rs_cells m ! q) \<and> rc_tail (rs_cells m ! q) < int (rs_size m0) \<and>
           rc_same (rs_cells m ! nat (rc_tail (rs_cells m ! q))) (rs_cells m0 ! nat (rc_tail (rs_cells m0 ! q))))) \<and>
     (\<forall>i < rs_size m0. \<forall>q < rs_size m0. int q \<in> rc_seq (rs_cells m ! i) \<longleftrightarrow> rc_tail (rs_cells m ! q) = int i)"

lemma claimed_prim_inj:
  assumes P: "rs_prims p n m0" and I: "rs_claimed p n C m0 m" and a: "a < n" "b < n" "rc_tail (rs_cells m ! p a) = rc_tail (rs_cells m ! p b)"
  shows "a = b"
proof -
  have "p a = p b" using rs_claimedD(11) [OF I a(2), of "p a"] rs_primsD(2) [OF P a(1)] a(3) by blast
  with rs_primsD(3) [OF P a(1,2)] show ?thesis by blast
qed

lemma layout_of_stages:
  assumes U: "rs_ubatch_ok (rs_size m0) u" and wf: "rs_wf m0" and shared: "\<And>q. q \<in> others u \<Longrightarrow> q < rs_size m0 \<Longrightarrow> rc_tail (rs_cells m0 ! q) < 0"
    and I: "rs_claimed (prim u) (ub_n_seqs u) C m0 m2"
    and G: "gather_inv (prim u) (int k) (int (k + nb) - 1) m2 (ub_n_seqs u) \<pi> m3"
    and Pl: "place_inv u k m3 (ub_n_seqs u) m4" and fit: "ub_n_seqs u \<le> nb" "k + nb \<le> rs_size m0"
  shows "rs_layout u k nb m0 m4"
proof -
  let ?p = "prim u" and ?n = "ub_n_seqs u" and ?sz = "rs_size m0"
  let ?T = "\<lambda>q. rc_tail (rs_cells m2 ! q)"
  have P: "rs_prims ?p ?n m0" using wf prim_props(3,5) [OF U] by (auto simp: rs_prims_def)
  note D = rs_claimedD [OF I] and U' = rs_ubatch_okD [OF U]
  have M: "rs_moved \<pi> m2 m3" and out: "\<And>i. i < ?sz \<Longrightarrow> i < k \<or> k + nb \<le> i \<Longrightarrow> \<pi> i = i"
    and pl: "\<And>a. a < ?n \<Longrightarrow> \<pi> (nat (?T (?p a))) = k + a"
  proof -
    note G' = G [unfolded gather_inv_def D(1)]
    from G' show "rs_moved \<pi> m2 m3" by blast
    show "\<pi> i = i" if "i < ?sz" "i < k \<or> k + nb \<le> i" for i
    proof -
      have "int i < int k \<or> int (k + nb) - 1 < int i" using that(2) by auto
      with G' that(1) show ?thesis by blast
    qed
    show "\<pi> (nat (?T (?p a))) = k + a" if "a < ?n" for a
    proof -
      have "int (\<pi> (nat (?T (?p a)))) = int k + int a" using G' that by blast
      then show ?thesis by linarith
    qed
  qed
  note M' = rs_movedD [OF M, unfolded D(1)]
  have fr: "rs_size m4 = ?sz" "length (rs_cells m4) = ?sz" "rs_size m3 = ?sz" using Pl M'(1) by (simp_all add: place_inv_def)
  have p4: "rc_src (rs_cells m4 ! i) = rc_src (rs_cells m3 ! i)" if "i < ?sz" for i using Pl fr(3) that by (simp add: place_inv_def)
  have p4o: "rc_pos (rs_cells m4 ! i) = rc_pos (rs_cells m3 ! i)" "rc_seq (rs_cells m4 ! i) = rc_seq (rs_cells m3 ! i)"
    if "i < ?sz" "i < k \<or> k + ?n \<le> i" for i using Pl [unfolded place_inv_def fr(3)] that by blast+
  have p4b: "rc_seq (rs_cells m4 ! (k + a)) = set (set_ids u a)" "rc_pos (rs_cells m4 ! (k + a)) = set_last_pos u a" if "a < ?n" for a
    using Pl that by (simp_all add: place_inv_def)
  have p4t: "rc_tail (rs_cells m4 ! q) = int (k + a)" if "q < ?sz" "a < ?n" "int q \<in> set (set_ids u a)" for q a
    using Pl fr(3) that unfolding place_inv_def by simp
  have p4u: "rc_tail (rs_cells m4 ! q) = rc_tail (rs_cells m3 ! q)" if "q < ?sz" "\<And>a. a < ?n \<Longrightarrow> int q \<notin> set (set_ids u a)" for q
    using Pl fr(3) that unfolding place_inv_def by simp
  have T: "0 \<le> ?T (?p a)" "nat (?T (?p a)) < ?sz" if "a < ?n" for a
    using D(10) [OF that] D(9) [OF rs_primsD(2) [OF P that]] by auto
  have C: "\<exists>a < ?n. i = nat (?T (?p a))" if "i \<in> C" for i using D(8) [OF that] by force
  have pre: "\<exists>j < ?sz. \<pi> j = i" if "i < ?sz" for i using M'(4) that by (metis imageE lessThan_iff)
  have free: "j \<notin> C" if "j < ?sz" "\<pi> j < k \<or> k + ?n \<le> \<pi> j" for j using C [of j] pl that by force
  have same: "rc_same (rs_cells m4 ! \<pi> j) (rs_cells m0 ! j)" "rc_seq (rs_cells m4 ! \<pi> j) = rc_seq (rs_cells m2 ! j)"
    if "j < ?sz" "\<pi> j < k \<or> k + ?n \<le> \<pi> j" for j
    using M'(5,6,8) [OF that(1)] D(6) [OF that(1) free [OF that]] p4 [of "\<pi> j"] p4o [of "\<pi> j"] that by (simp_all add: rc_same_def)
  have none: "q = ?p a" if "q < ?sz" "a < ?n" "0 \<le> ?T q" "\<pi> (nat (?T q)) = k + a" for q a
  proof -
    have "nat (?T q) < ?sz" using D(9) [OF that(1)] that(3) by auto
    with M'(3) T(2) [OF that(2)] pl [OF that(2)] that(4) have "nat (?T q) = nat (?T (?p a))" by (metis inj_onD lessThan_iff)
    with T(1) [OF that(2)] that(3) have "?T q = ?T (?p a)" by simp
    with D(11) [OF that(2,1)] show ?thesis .
  qed
  have prim_in: "int (?p a) \<in> set (set_ids u a)" if "a < ?n" for a using prim_props(1,2) [OF U that] by simp
  have notid: "q \<notin> ?p ` {..<?n}" if "\<And>a. a < ?n \<Longrightarrow> int q \<notin> set (set_ids u a)" for q using that prim_in by auto
  have second: "?T q = rc_tail (rs_cells m0 ! q) \<and> ?T q < 0" if "q < ?sz" "a < ?n" "int q \<in> set (set_ids u a)" "q \<noteq> ?p a" for q a
  proof -
    have "int q \<noteq> set_first u a" using that(4) prim_props(1) [OF U that(2), symmetric] by simp
    moreover have "set (set_ids u a) = insert (set_first u a) (set (tl (set_ids u a)))"
      using conjunct2 [OF set_ids_first [OF U'(4) [OF that(2)]]] by (metis list.set(2))
    ultimately have "int q \<in> set (tl (set_ids u a))" using that(3) by blast
    then have "q \<in> others u" using that(2) unfolding others_def by (auto intro!: image_eqI [of _ _ "int q"])
    moreover have "q \<notin> ?p ` {..<?n}" using prim_props(4) [OF U] \<open>q \<in> others u\<close> by auto
    ultimately show ?thesis using D(12) [OF that(1)] shared that(1) by simp
  qed
  show ?thesis
    unfolding rs_layout_def
  proof (intro conjI allI impI)
    fix a assume a: "a < ?n"
    show "rc_seq (rs_cells m4 ! (k + a)) = set (set_ids u a)" "rc_pos (rs_cells m4 ! (k + a)) = set_last_pos u a" using p4b [OF a] .
    have src: "rc_src (rs_cells m4 ! (k + a)) = rc_src (rs_cells m2 ! nat (?T (?p a)))"
      using p4 [of "k + a"] pl [OF a] M'(5) [OF T(2) [OF a]] fit a by (simp add: rc_same_def)
    have q: "?p a < ?sz" using rs_primsD(2) [OF P a] .
    show "\<exists>j < ?sz. rc_src (rs_cells m4 ! (k + a)) = rc_src (rs_cells m0 ! j) \<and>
       (if 0 \<le> rc_tail (rs_cells m0 ! ?p a) then int j = rc_tail (rs_cells m0 ! ?p a) else rc_seq (rs_cells m0 ! j) = {})"
    proof (cases "0 \<le> rc_tail (rs_cells m0 ! ?p a)")
      case True
      then show ?thesis using D(13) [OF q True] src rs_wf_tail(1) [OF wf q True]
        by (intro exI [of _ "nat (rc_tail (rs_cells m0 ! ?p a))"]) (simp add: rc_same_def)
    next
      case False
      with D(14) [OF q _ T(1) [OF a]] D(3) [of "nat (?T (?p a))"] src
      show ?thesis by (intro exI [of _ "nat (?T (?p a))"]) (simp add: rc_same_def)
    qed
  next
    fix i assume i: "i < ?sz" "i < k \<or> k + ?n \<le> i"
    from pre [OF i(1)] obtain j where j: "j < ?sz" "\<pi> j = i" by blast
    note s = same [OF j(1), unfolded j(2), OF i(2)] and f = free [OF j(1), unfolded j(2), OF i(2)]
    have "j = i" if "i < k \<or> k + nb \<le> i" using out [OF i(1) that] M'(3) j i(1) by (metis inj_onD lessThan_iff)
    then show "\<exists>j < ?sz. rc_same (rs_cells m4 ! i) (rs_cells m0 ! j) \<and> rc_seq (rs_cells m4 ! i) \<subseteq> rc_seq (rs_cells m0 ! j) \<and>
        (rc_seq (rs_cells m4 ! i) = {} \<longrightarrow> rc_seq (rs_cells m0 ! j) = {}) \<and> (i < k \<or> k + nb \<le> i \<longrightarrow> j = i)"
      using s j D(4,5) [OF j(1) f] by auto
  next
    fix q a assume "q < ?sz" "a < ?n" "int q \<in> set (set_ids u a)"
    then show "rc_tail (rs_cells m4 ! q) = int (k + a)" by (rule p4t)
  next
    fix q assume q: "q < ?sz" and no: "\<forall>a < ?n. int q \<notin> set (set_ids u a)"
    have t: "rc_tail (rs_cells m4 ! q) = rc_tail (rs_cells m3 ! q)" using p4u q no by blast
    have t2: "?T q = rc_tail (rs_cells m0 ! q)" using D(12) [OF q notid] no by blast
    show "if rc_tail (rs_cells m0 ! q) < 0 then rc_tail (rs_cells m4 ! q) = rc_tail (rs_cells m0 ! q)
         else 0 \<le> rc_tail (rs_cells m4 ! q) \<and> rc_tail (rs_cells m4 ! q) < int ?sz \<and>
           rc_same (rs_cells m4 ! nat (rc_tail (rs_cells m4 ! q))) (rs_cells m0 ! nat (rc_tail (rs_cells m0 ! q)))"
    proof (cases "rc_tail (rs_cells m0 ! q) < 0")
      case False
      then have j: "nat (?T q) < ?sz" using D(9) [OF q] t2 by auto
      have "\<pi> (nat (?T q)) < k \<or> k + ?n \<le> \<pi> (nat (?T q))"
      proof (rule ccontr)
        assume "\<not> ?thesis"
        then have "\<pi> (nat (?T q)) - k < ?n" "\<pi> (nat (?T q)) = k + (\<pi> (nat (?T q)) - k)" by auto
        with none [OF q, of "\<pi> (nat (?T q)) - k"] False t2 have "q = ?p (\<pi> (nat (?T q)) - k)" by simp
        with no prim_in \<open>\<pi> (nat (?T q)) - k < ?n\<close> show False by metis
      qed
      with same(1) [OF j] M'(7) [OF q] M'(8) [OF j] t t2 False show ?thesis by simp
    qed (use t t2 M'(7) [OF q] in simp)
  next
    fix i q assume i: "i < ?sz" and q: "q < ?sz"
    show "int q \<in> rc_seq (rs_cells m4 ! i) \<longleftrightarrow> rc_tail (rs_cells m4 ! q) = int i"
    proof (cases "i < k \<or> k + ?n \<le> i")
      case True
      from pre [OF i] obtain j where j: "j < ?sz" "\<pi> j = i" by blast
      note s = same [OF j(1), unfolded j(2), OF True] and f = free [OF j(1), unfolded j(2), OF True]
      have L: "int q \<in> rc_seq (rs_cells m4 ! i) \<longleftrightarrow> ?T q = int j" using s(2) D(7) [OF j(1) f q] by simp
      show ?thesis
      proof (cases "\<exists>a < ?n. int q \<in> set (set_ids u a)")
        case T4: True
        then obtain a where a: "a < ?n" "int q \<in> set (set_ids u a)" by blast
        have "rc_tail (rs_cells m4 ! q) \<noteq> int i" using p4t [OF q a] a(1) True by auto
        moreover have "?T q \<noteq> int j"
        proof (cases "q = ?p a")
          case p: True
          with pl [OF a(1)] j(2) True a(1) show ?thesis by auto
        qed (use second [OF q a] in auto)
        ultimately show ?thesis using L by simp
      next
        case False
        then have "rc_tail (rs_cells m4 ! q) = rc_tail (rs_cells m3 ! q)" using p4u q by blast
        moreover have "?T q = int j \<longleftrightarrow> rc_tail (rs_cells m3 ! q) = int i"
        proof (cases "?T q < 0")
          case neg: True
          with M'(7) [OF q] show ?thesis by auto
        next
          case nn: False
          then have "nat (?T q) < ?sz" using D(9) [OF q] by auto
          then have "\<pi> (nat (?T q)) = \<pi> j \<longleftrightarrow> nat (?T q) = j" using M'(3) j(1) by (metis inj_onD lessThan_iff)
          with nn M'(7) [OF q] j(2) show ?thesis by auto
        qed
        ultimately show ?thesis using L by simp
      qed
    next
      case False
      then obtain a where a: "a < ?n" "i = k + a" by (metis linorder_not_le le_add_diff_inverse less_diff_conv2 not_le add.commute)
      have seq: "int q \<in> rc_seq (rs_cells m4 ! i) \<longleftrightarrow> int q \<in> set (set_ids u a)" using p4b(1) [OF a(1)] a(2) by simp
      show ?thesis
      proof (cases "\<exists>b < ?n. int q \<in> set (set_ids u b)")
        case True
        then obtain b where b: "b < ?n" "int q \<in> set (set_ids u b)" by blast
        with p4t [OF q b] a U'(8) [OF a(1) b(1)] seq show ?thesis by auto
      next
        case no: False
        then have t: "rc_tail (rs_cells m4 ! q) = rc_tail (rs_cells m3 ! q)" using p4u q by blast
        have "rc_tail (rs_cells m3 ! q) \<noteq> int i"
        proof
          assume "rc_tail (rs_cells m3 ! q) = int i"
          with M'(7) [OF q] have "0 \<le> ?T q" "\<pi> (nat (?T q)) = k + a" using a(2) by (auto split: if_splits)
          with none [OF q a(1)] prim_in [OF a(1)] no a(1) show False by blast
        qed
        with t seq no a(1) show ?thesis by auto
      qed
    qed
  qed (use fr in simp_all)
qed

lemma rs_layoutD:
  assumes "rs_layout u k nb m0 m"
  shows "rs_size m = rs_size m0" "length (rs_cells m) = rs_size m0"
    "\<And>a. a < ub_n_seqs u \<Longrightarrow> rc_seq (rs_cells m ! (k + a)) = set (set_ids u a)"
    "\<And>a. a < ub_n_seqs u \<Longrightarrow> rc_pos (rs_cells m ! (k + a)) = set_last_pos u a"
    "\<And>a. a < ub_n_seqs u \<Longrightarrow> \<exists>j < rs_size m0. rc_src (rs_cells m ! (k + a)) = rc_src (rs_cells m0 ! j) \<and>
       (if 0 \<le> rc_tail (rs_cells m0 ! prim u a) then int j = rc_tail (rs_cells m0 ! prim u a) else rc_seq (rs_cells m0 ! j) = {})"
    "\<And>i. i < rs_size m0 \<Longrightarrow> i < k \<or> k + ub_n_seqs u \<le> i \<Longrightarrow> \<exists>j < rs_size m0. rc_same (rs_cells m ! i) (rs_cells m0 ! j) \<and>
        rc_seq (rs_cells m ! i) \<subseteq> rc_seq (rs_cells m0 ! j) \<and> (rc_seq (rs_cells m ! i) = {} \<longrightarrow> rc_seq (rs_cells m0 ! j) = {}) \<and>
        (i < k \<or> k + nb \<le> i \<longrightarrow> j = i)"
    "\<And>q a. q < rs_size m0 \<Longrightarrow> a < ub_n_seqs u \<Longrightarrow> int q \<in> set (set_ids u a) \<Longrightarrow> rc_tail (rs_cells m ! q) = int (k + a)"
    "\<And>q. q < rs_size m0 \<Longrightarrow> \<forall>a < ub_n_seqs u. int q \<notin> set (set_ids u a) \<Longrightarrow>
        if rc_tail (rs_cells m0 ! q) < 0 then rc_tail (rs_cells m ! q) = rc_tail (rs_cells m0 ! q)
        else 0 \<le> rc_tail (rs_cells m ! q) \<and> rc_tail (rs_cells m ! q) < int (rs_size m0) \<and>
          rc_same (rs_cells m ! nat (rc_tail (rs_cells m ! q))) (rs_cells m0 ! nat (rc_tail (rs_cells m0 ! q)))"
    "\<And>i q. i < rs_size m0 \<Longrightarrow> q < rs_size m0 \<Longrightarrow> int q \<in> rc_seq (rs_cells m ! i) \<longleftrightarrow> rc_tail (rs_cells m ! q) = int i"
proof -
  note A = assms [unfolded rs_layout_def]
  note A1 = A [THEN conjunct1] and A2 = A [THEN conjunct2, THEN conjunct1] and A3 = A [THEN conjunct2, THEN conjunct2, THEN conjunct1, rule_format]
  show "rs_size m = rs_size m0" "length (rs_cells m) = rs_size m0" by (rule A1, rule A2)
  fix a assume a: "a < ub_n_seqs u"
  show "rc_seq (rs_cells m ! (k + a)) = set (set_ids u a)" by (rule A3 [OF a, THEN conjunct1])
  show "rc_pos (rs_cells m ! (k + a)) = set_last_pos u a" by (rule A3 [OF a, THEN conjunct2, THEN conjunct1])
  show "\<exists>j < rs_size m0. rc_src (rs_cells m ! (k + a)) = rc_src (rs_cells m0 ! j) \<and>
       (if 0 \<le> rc_tail (rs_cells m0 ! prim u a) then int j = rc_tail (rs_cells m0 ! prim u a) else rc_seq (rs_cells m0 ! j) = {})"
    by (rule A3 [OF a, THEN conjunct2, THEN conjunct2])
next
  note A = assms [unfolded rs_layout_def]
  note A4 = A [THEN conjunct2, THEN conjunct2, THEN conjunct2, THEN conjunct1] and A5 = A [THEN conjunct2, THEN conjunct2, THEN conjunct2, THEN conjunct2, THEN conjunct1] and A6 = A [THEN conjunct2, THEN conjunct2, THEN conjunct2, THEN conjunct2, THEN conjunct2, THEN conjunct1] and A7 = A [THEN conjunct2, THEN conjunct2, THEN conjunct2, THEN conjunct2, THEN conjunct2, THEN conjunct2]
  show "i < rs_size m0 \<Longrightarrow> i < k \<or> k + ub_n_seqs u \<le> i \<Longrightarrow> \<exists>j < rs_size m0. rc_same (rs_cells m ! i) (rs_cells m0 ! j) \<and>
        rc_seq (rs_cells m ! i) \<subseteq> rc_seq (rs_cells m0 ! j) \<and> (rc_seq (rs_cells m ! i) = {} \<longrightarrow> rc_seq (rs_cells m0 ! j) = {}) \<and>
        (i < k \<or> k + nb \<le> i \<longrightarrow> j = i)" for i using A4 by blast
  show "q < rs_size m0 \<Longrightarrow> a < ub_n_seqs u \<Longrightarrow> int q \<in> set (set_ids u a) \<Longrightarrow> rc_tail (rs_cells m ! q) = int (k + a)" for q a
    using A5 by blast
  show "q < rs_size m0 \<Longrightarrow> \<forall>a < ub_n_seqs u. int q \<notin> set (set_ids u a) \<Longrightarrow>
        if rc_tail (rs_cells m0 ! q) < 0 then rc_tail (rs_cells m ! q) = rc_tail (rs_cells m0 ! q)
        else 0 \<le> rc_tail (rs_cells m ! q) \<and> rc_tail (rs_cells m ! q) < int (rs_size m0) \<and>
          rc_same (rs_cells m ! nat (rc_tail (rs_cells m ! q))) (rs_cells m0 ! nat (rc_tail (rs_cells m0 ! q)))" for q
    by (rule A6 [THEN spec, THEN mp, THEN mp])
  show "i < rs_size m0 \<Longrightarrow> q < rs_size m0 \<Longrightarrow> int q \<in> rc_seq (rs_cells m ! i) \<longleftrightarrow> rc_tail (rs_cells m ! q) = int i" for i q
    using A7 by blast
qed

text \<open>A position that the memory can hold.\<close>

lemma layout_cells:
  assumes U: "rs_ubatch_ok (rs_size m0) u" and wf: "rs_wf m0" and L: "rs_layout u k nb m0 m" and i: "i < rs_size m0"
  shows "\<forall>q \<in> rc_seq (rs_cells m ! i). 0 \<le> q \<and> q < int (rs_size m0)"
    "if rc_seq (rs_cells m ! i) = {} then rc_pos (rs_cells m ! i) = - 1 else 0 \<le> rc_pos (rs_cells m ! i) \<and> rc_pos (rs_cells m ! i) < int32_max"
    "rc_src (rs_cells m ! i) < int (rs_size m0)"
    "i < k \<or> k + nb \<le> i \<Longrightarrow> ub_n_seqs u \<le> nb \<Longrightarrow> rc_src (rs_cells m ! i) = - 1 \<or> rc_src (rs_cells m ! i) = int i"
    "- 1 \<le> rc_src (rs_cells m ! i)"
    "\<And>B. 0 \<le> B \<Longrightarrow> \<forall>i < rs_size m0. rc_pos (rs_cells m0 ! i) \<le> B \<Longrightarrow> \<forall>a < ub_n_seqs u. set_last_pos u a \<le> B \<Longrightarrow> rc_pos (rs_cells m ! i) \<le> B"
proof -
  note W = rs_wfD [OF wf] and L' = rs_layoutD [OF L] and U' = rs_ubatch_okD [OF U]
  have src0: "rc_src (rs_cells m0 ! j) < int (rs_size m0) \<and> - 1 \<le> rc_src (rs_cells m0 ! j)" if "j < rs_size m0" for j using W(8) [OF that] that by auto
  have R: "(\<forall>q \<in> rc_seq (rs_cells m ! i). 0 \<le> q \<and> q < int (rs_size m0)) \<and>
    (if rc_seq (rs_cells m ! i) = {} then rc_pos (rs_cells m ! i) = - 1 else 0 \<le> rc_pos (rs_cells m ! i) \<and> rc_pos (rs_cells m ! i) < int32_max) \<and>
    rc_src (rs_cells m ! i) < int (rs_size m0) \<and> - 1 \<le> rc_src (rs_cells m ! i) \<and>
    (i < k \<or> k + nb \<le> i \<longrightarrow> ub_n_seqs u \<le> nb \<longrightarrow> rc_src (rs_cells m ! i) = - 1 \<or> rc_src (rs_cells m ! i) = int i) \<and>
    (\<forall>B. 0 \<le> B \<longrightarrow> (\<forall>i < rs_size m0. rc_pos (rs_cells m0 ! i) \<le> B) \<longrightarrow> (\<forall>a < ub_n_seqs u. set_last_pos u a \<le> B) \<longrightarrow> rc_pos (rs_cells m ! i) \<le> B)"
  proof (cases "i < k \<or> k + ub_n_seqs u \<le> i")
    case True
    from L'(6) [OF i True] obtain j where j: "j < rs_size m0" "rc_same (rs_cells m ! i) (rs_cells m0 ! j)"
      "rc_seq (rs_cells m ! i) \<subseteq> rc_seq (rs_cells m0 ! j)" "rc_seq (rs_cells m ! i) = {} \<longrightarrow> rc_seq (rs_cells m0 ! j) = {}"
      "i < k \<or> k + nb \<le> i \<longrightarrow> j = i" by blast
    have pos: "rc_pos (rs_cells m ! i) = rc_pos (rs_cells m0 ! j)" "rc_src (rs_cells m ! i) = rc_src (rs_cells m0 ! j)"
      using j(2) by (simp_all add: rc_same_def)
    have ne: "rc_seq (rs_cells m0 ! j) \<noteq> {}" if "rc_seq (rs_cells m ! i) \<noteq> {}" using that j(3) by blast
    show ?thesis unfolding pos
      using j(3-5) W(5,8) [OF j(1)] W(9) [OF j(1)] W(10) [OF j(1)] ne src0 [OF j(1)] j(1) by (intro conjI) (blast, auto)
  next
    case False
    then obtain a where a: "a < ub_n_seqs u" "i = k + a" by (intro that [of "i - k"]) auto
    from L'(5) [OF a(1)] src0 have "rc_src (rs_cells m ! i) < int (rs_size m0) \<and> - 1 \<le> rc_src (rs_cells m ! i)" using a(2) by metis
    then show ?thesis using L'(3,4) [OF a(1)] U'(4,7) [OF a(1)] U'(6) [OF a(1)] a False by simp
  qed
  note R2 = R [THEN conjunct2] and R3 = R [THEN conjunct2, THEN conjunct2] and R4 = R [THEN conjunct2, THEN conjunct2, THEN conjunct2]
  show "\<forall>q \<in> rc_seq (rs_cells m ! i). 0 \<le> q \<and> q < int (rs_size m0)" using R by (rule conjunct1)
  show "if rc_seq (rs_cells m ! i) = {} then rc_pos (rs_cells m ! i) = - 1 else 0 \<le> rc_pos (rs_cells m ! i) \<and> rc_pos (rs_cells m ! i) < int32_max"
    using R2 by (rule conjunct1)
  show "rc_src (rs_cells m ! i) < int (rs_size m0)" using R3 by (rule conjunct1)
  show "- 1 \<le> rc_src (rs_cells m ! i)" using R4 by (rule conjunct1)
  show "rc_src (rs_cells m ! i) = - 1 \<or> rc_src (rs_cells m ! i) = int i" if "i < k \<or> k + nb \<le> i" "ub_n_seqs u \<le> nb"
    using R4 [THEN conjunct2, THEN conjunct1] that by blast
  show "rc_pos (rs_cells m ! i) \<le> B"
    if "0 \<le> B" "\<forall>i < rs_size m0. rc_pos (rs_cells m0 ! i) \<le> B" "\<forall>a < ub_n_seqs u. set_last_pos u a \<le> B" for B
    using R4 [THEN conjunct2, THEN conjunct2] that by blast
qed

text \<open>The memory that \<^verbatim>\<open>find_slot\<close> leaves, from the written cells \<open>m4\<close> and the staged ones \<open>m5\<close>.\<close>

definition rs_finish :: "nat \<Rightarrow> nat \<Rightarrow> rs_memory \<Rightarrow> rs_memory" where
  "rs_finish k nb m5 = m5\<lparr>rs_head := k, rs_n := nb, rs_used := length (filter (\<lambda>c. rc_seq c \<noteq> {}) (rs_cells m5))\<rparr>"

lemma stage_invD:
  assumes "stage_inv k z m s m'" "i < rs_size m"
  shows "rc_seq (rs_cells m' ! i) = rc_seq (rs_cells m ! i)" "rc_tail (rs_cells m' ! i) = rc_tail (rs_cells m ! i)"
    "rc_pos (rs_cells m' ! i) = rc_pos (rs_cells m ! i)"
    "rc_src (rs_cells m' ! i) = (if k \<le> i \<and> i < k + s then int i else rc_src (rs_cells m ! i))"
    "k \<le> i \<and> i < k + s \<Longrightarrow> rc_src0 (rs_cells m' ! i) = (if rc_src (rs_cells m ! i) < 0 then z else rc_src (rs_cells m ! i))"
  using assms by (simp_all add: stage_inv_def)

lemma finish_wf:
  assumes U: "rs_ubatch_ok (rs_size m0) u" and wf: "rs_wf m0" and L: "rs_layout u k nb m0 m4" and fit: "ub_n_seqs u \<le> nb" "k + nb \<le> rs_size m0"
    and S: "stage_inv k z m4 nb m5"
  shows "rs_wf (rs_finish k nb m5)"
proof -
  note W = rs_wfD [OF wf] and L' = rs_layoutD [OF L] and U' = rs_ubatch_okD [OF U]
  note c = layout_cells [OF U wf L] and S' = stage_invD [OF S, unfolded L'(1)]
  have sz: "rs_size m5 = rs_size m0" "length (rs_cells m5) = rs_size m0" using S L'(1) by (simp_all add: stage_inv_def)
  have tail: "- 1 \<le> rc_tail (rs_cells m4 ! q) \<and> rc_tail (rs_cells m4 ! q) < int (rs_size m0)" if "q < rs_size m0" for q
  proof (cases "\<exists>a < ub_n_seqs u. int q \<in> set (set_ids u a)")
    case True
    with L'(7) [OF that] fit show ?thesis by auto
  next
    case False
    with L'(8) [OF that] W(7) [OF that] show ?thesis by (auto split: if_splits)
  qed
  have "length (filter (\<lambda>c. rc_seq c \<noteq> {}) (rs_cells m5)) = card (rs_occupied (rs_finish k nb m5))"
    by (simp add: length_filter_conv_card rs_occupied_def rs_finish_def sz)
  then have used: "rs_used (rs_finish k nb m5) = card (rs_occupied (rs_finish k nb m5))" by (simp add: rs_finish_def)
  have F: "rs_cells (rs_finish k nb m5) = rs_cells m5" "rs_size (rs_finish k nb m5) = rs_size m0" "rs_head (rs_finish k nb m5) = k"
    by (simp_all add: rs_finish_def sz)
  show ?thesis
    unfolding rs_wf_def F
  proof (intro conjI allI impI ballI)
    fix i assume i: "i < rs_size m0"
    show "0 \<le> q" "q < int (rs_size m0)" if "q \<in> rc_seq (rs_cells m5 ! i)" for q
      using c(1) [OF i] S'(1) [OF i] that by auto
    show "int q \<in> rc_seq (rs_cells m5 ! i) \<longleftrightarrow> rc_tail (rs_cells m5 ! q) = int i" if "q < rs_size m0" for q
      using S'(1) [OF i] S'(2) [OF that] L'(9) [OF i that] by simp
    show "- 1 \<le> rc_tail (rs_cells m5 ! i)" "rc_tail (rs_cells m5 ! i) < int (rs_size m0)" using S'(2) [OF i] tail [OF i] by simp_all
    show "rc_src (rs_cells m5 ! i) = - 1 \<or> rc_src (rs_cells m5 ! i) = int i" using S'(4) [OF i] c(4) [OF i _ fit(1)] by auto
    show "if rc_seq (rs_cells m5 ! i) = {} then rc_pos (rs_cells m5 ! i) = - 1
       else 0 \<le> rc_pos (rs_cells m5 ! i) \<and> rc_pos (rs_cells m5 ! i) < int32_max" using S'(1,3) [OF i] c(2) [OF i] by simp
  qed (use W(2,4) sz fit U'(2) used in auto)
qed

lemma finish_values:
  assumes U: "rs_ubatch_ok (rs_size m0) u" and wf: "rs_wf m0" and L: "rs_layout u k nb m0 m4" and fit: "ub_n_seqs u \<le> nb" "k + nb \<le> rs_size m0"
    and S: "stage_inv k (staged_zero k (k + nb) m4) m4 nb m5" and i: "i < rs_size m0"
  shows "rs_value Z (rs_incoming Z D (rs_finish k nb m5)) (rc_src (rs_cells m5 ! i)) = rs_value Z D (rc_src (rs_cells m4 ! i))"
proof -
  let ?z = "staged_zero k (k + nb) m4"
  note L' = rs_layoutD [OF L] and c = layout_cells [OF U wf L]
  note S' = stage_invD [OF S, unfolded L'(1), OF i]
  have z: "rs_z m5 = ?z" using S by (simp add: stage_inv_def)
  have zblk: "?z = - 1 \<or> int k \<le> ?z \<and> ?z < int (k + nb)" using staged_zero_cases [of k "k + nb" m4] by auto
  show ?thesis
  proof (cases "k \<le> i \<and> i < k + nb")
    case True
    have src: "rc_src (rs_cells m5 ! i) = int i" using S'(4) True by simp
    show ?thesis
    proof (cases "rc_src (rs_cells m4 ! i) < 0")
      case neg: True
      have "0 \<le> ?z"
        by (rule staged_zero_exists [of m4 _ k i]) (use L'(1,2) fit c(4) True neg in auto)
      with True neg S'(5) src z show ?thesis by (simp add: rs_value_def rs_incoming_def rs_finish_def Let_def)
    next
      case False
      have "rc_src (rs_cells m4 ! i) \<noteq> ?z"
      proof
        assume e: "rc_src (rs_cells m4 ! i) = ?z"
        with staged_zero_cases [of k "k + nb" m4] False obtain w where "?z = int w" "rs_refs m4 w = 0" by auto
        with e rs_refs_zero [of m4 w] L'(2) i show False by auto
      qed
      with False True S'(5) src z show ?thesis by (simp add: rs_value_def rs_incoming_def rs_finish_def Let_def)
    qed
  next
    case False
    then have "i < k \<or> k + nb \<le> i" by auto
    moreover have "rc_src (rs_cells m5 ! i) = rc_src (rs_cells m4 ! i)" using S'(4) False by auto
    moreover have "rs_incoming Z D (rs_finish k nb m5) i = D i"
      using False zblk z by (auto simp: rs_incoming_def rs_finish_def Let_def)
    ultimately show ?thesis using c(4) [OF i _ fit(1)] by (auto simp: rs_value_def)
  qed
qed

lemma claimed_cells:
  assumes wf: "rs_wf m0" and P: "rs_prims p n m0" and I: "rs_claimed p n C m0 m" and i: "i < rs_size m0"
  shows "\<exists>j < rs_size m0. rc_same (rs_cells m ! i) (rs_cells m0 ! j)"
proof (cases "i \<in> C")
  case False
  with rs_claimedD(6) [OF I i] i show ?thesis by blast
next
  case True
  note D = rs_claimedD [OF I]
  from D(8) [OF True] obtain a where a: "a < n" "rc_tail (rs_cells m ! p a) = int i" by blast
  note q = rs_primsD(2) [OF P a(1)]
  show ?thesis
  proof (cases "0 \<le> rc_tail (rs_cells m0 ! p a)")
    case t: True
    with D(13) [OF q t] a(2) rs_wf_tail(1) [OF wf q t] show ?thesis by auto
  next
    case False
    with D(14) [OF q] a(2) i show ?thesis by auto
  qed
qed

text \<open>The positions stay small enough for the addition of the check.\<close>

definition rs_room :: "int \<Rightarrow> rs_memory \<Rightarrow> bool" where
  "rs_room B m \<longleftrightarrow> 0 \<le> B \<and> (\<forall>i < rs_size m. rc_pos (rs_cells m ! i) \<le> B)"

definition rs_fits :: "int \<Rightarrow> 'e llama_ubatch \<Rightarrow> bool" where
  "rs_fits B u \<longleftrightarrow> B + int (ub_n_seq_tokens u) \<le> int32_max \<and> (\<forall>a < ub_n_seqs u. set_last_pos u a \<le> B)"

lemma rs_room_dropped: "rs_room B m \<Longrightarrow> rs_dropped Q m m' \<Longrightarrow> rs_room B m'"
proof -
  assume R: "rs_room B m" and d: "rs_dropped Q m m'"
  note A = rs_droppedD [OF d]
  have "rc_pos (rs_cells m' ! i) \<le> B" if "i < rs_size m" for i
    using A(5) [OF that] R that rs_wfD(9) [OF A(1), of i] A(2) by (cases "rc_seq (rs_cells m' ! i) = {}") (auto simp: rs_room_def rc_same_def)
  with R A(2) show ?thesis by (simp add: rs_room_def)
qed

definition rs_inherited :: "'v \<Rightarrow> (int \<times> 'v) option \<Rightarrow> 'v" where
  "rs_inherited Z st = (case st of None \<Rightarrow> Z | Some (p, v) \<Rightarrow> v)"

definition rs_placed :: "'e llama_ubatch \<Rightarrow> rs_memory \<Rightarrow> bool" where
  "rs_placed u m \<longleftrightarrow> ub_n_seqs u \<le> rs_n m \<and> rs_head m + rs_n m \<le> rs_size m \<and>
     (\<forall>i. rs_head m \<le> i \<and> i < rs_head m + rs_n m \<longrightarrow> 0 \<le> rc_src0 (rs_cells m ! i) \<and>
        rc_src0 (rs_cells m ! i) < int (rs_size m) \<and> rc_src (rs_cells m ! i) = int i) \<and>
     (\<forall>a < ub_n_seqs u. rc_seq (rs_cells m ! (rs_head m + a)) = set (set_ids u a) \<and>
        rc_pos (rs_cells m ! (rs_head m + a)) = set_last_pos u a)"

lemma layout_states:
  assumes U: "rs_ubatch_ok (rs_size m0) u" and wf: "rs_wf m0" and L: "rs_layout u k nb m0 m4" and fit: "ub_n_seqs u \<le> nb" "k + nb \<le> rs_size m0"
    and S: "stage_inv k (staged_zero k (k + nb) m4) m4 nb m5" and clean: "rs_clean Z D m0"
  defines "m' \<equiv> rs_finish k nb m5"
  shows "rs_clean Z (rs_incoming Z D m') m'"
    "q < rs_size m0 \<Longrightarrow> a < ub_n_seqs u \<Longrightarrow> int q \<in> set (set_ids u a) \<Longrightarrow>
      rs_state Z (rs_incoming Z D m') m' q = Some (set_last_pos u a, rs_inherited Z (rs_state Z D m0 (prim u a)))"
    "q < rs_size m0 \<Longrightarrow> \<forall>a < ub_n_seqs u. int q \<notin> set (set_ids u a) \<Longrightarrow>
      rs_state Z (rs_incoming Z D m') m' q = rs_state Z D m0 q"
proof -
  note L' = rs_layoutD [OF L] and U' = rs_ubatch_okD [OF U] and V = finish_values [OF U wf L fit S]
  note S' = stage_invD [OF S, unfolded L'(1)]
  have F: "rs_cells m' = rs_cells m5" "rs_size m' = rs_size m0" using S L'(1) by (simp_all add: m'_def rs_finish_def stage_inv_def)
  show "rs_clean Z (rs_incoming Z D m') m'"
    unfolding rs_clean_def F
  proof (intro allI impI)
    fix i assume i: "i < rs_size m0" and e: "rc_seq (rs_cells m5 ! i) = {}"
    have e4: "rc_seq (rs_cells m4 ! i) = {}" using S'(1) [OF i] e by simp
    have "i < k \<or> k + ub_n_seqs u \<le> i"
    proof (rule ccontr)
      assume "\<not> ?thesis"
      then have "i - k < ub_n_seqs u" "k + (i - k) = i" by auto
      with L'(3) [of "i - k"] U'(4) [of "i - k"] e4 show False by simp
    qed
    from L'(6) [OF i this] e4 obtain j where "j < rs_size m0" "rc_same (rs_cells m4 ! i) (rs_cells m0 ! j)" "rc_seq (rs_cells m0 ! j) = {}" by blast
    with clean have "rs_value Z D (rc_src (rs_cells m4 ! i)) = Z" by (simp add: rs_clean_def rc_same_def)
    with V [OF i, of Z D] show "rs_value Z (rs_incoming Z D m') (rc_src (rs_cells m5 ! i)) = Z" by (simp add: m'_def)
  qed
  show "rs_state Z (rs_incoming Z D m') m' q = Some (set_last_pos u a, rs_inherited Z (rs_state Z D m0 (prim u a)))"
    if q: "q < rs_size m0" and a: "a < ub_n_seqs u" "int q \<in> set (set_ids u a)"
  proof -
    have ka: "k + a < rs_size m0" using fit a by simp
    have t: "rc_tail (rs_cells m5 ! q) = int (k + a)" using S'(2) [OF q] L'(7) [OF q a] by simp
    from L'(5) [OF a(1)] obtain j where j: "j < rs_size m0" "rc_src (rs_cells m4 ! (k + a)) = rc_src (rs_cells m0 ! j)"
      "if 0 \<le> rc_tail (rs_cells m0 ! prim u a) then int j = rc_tail (rs_cells m0 ! prim u a) else rc_seq (rs_cells m0 ! j) = {}" by blast
    have "rs_value Z D (rc_src (rs_cells m0 ! j)) = rs_inherited Z (rs_state Z D m0 (prim u a))"
    proof (cases "0 \<le> rc_tail (rs_cells m0 ! prim u a)")
      case True
      with j(3) have "rc_tail (rs_cells m0 ! prim u a) = int j" by simp
      with prim_props(3) [OF U a(1)] show ?thesis by (simp add: rs_state_def rs_inherited_def Let_def)
    next
      case False
      with j(3) have "rc_seq (rs_cells m0 ! j) = {}" by simp
      with clean j(1) have "rs_value Z D (rc_src (rs_cells m0 ! j)) = Z" unfolding rs_clean_def by blast
      with False show ?thesis by (simp add: rs_state_def rs_inherited_def)
    qed
    with V [OF ka, of Z D] j(2) t q S'(3) [OF ka] L'(4) [OF a(1)] show ?thesis
      by (simp add: rs_state_def F Let_def m'_def [symmetric] del: of_nat_add)
  qed
  show "rs_state Z (rs_incoming Z D m') m' q = rs_state Z D m0 q"
    if q: "q < rs_size m0" and no: "\<forall>a < ub_n_seqs u. int q \<notin> set (set_ids u a)"
  proof (cases "rc_tail (rs_cells m0 ! q) < 0")
    case True
    with L'(8) [OF q no] S'(2) [OF q] q show ?thesis by (simp add: rs_state_def F)
  next
    case False
    let ?t = "nat (rc_tail (rs_cells m4 ! q))"
    have t: "0 \<le> rc_tail (rs_cells m4 ! q)" "?t < rs_size m0" "rc_same (rs_cells m4 ! ?t) (rs_cells m0 ! nat (rc_tail (rs_cells m0 ! q)))"
      using L'(8) [OF q no] False by auto
    with V [OF t(2), of Z D] S'(2) [OF q] S'(3) [OF t(2)] q False show ?thesis
      by (simp add: rs_state_def F Let_def rc_same_def m'_def [symmetric])
  qed
qed

lemma staged_source:
  assumes U: "rs_ubatch_ok (rs_size m0) u" and wf: "rs_wf m0" and L: "rs_layout u k nb m0 m4" and fit: "ub_n_seqs u \<le> nb" "k + nb \<le> rs_size m0"
    and S: "stage_inv k (staged_zero k (k + nb) m4) m4 nb m5" and i: "k \<le> i" "i < k + nb"
  shows "0 \<le> rc_src0 (rs_cells m5 ! i) \<and> rc_src0 (rs_cells m5 ! i) < int (rs_size m0) \<and> rc_src (rs_cells m5 ! i) = int i"
proof -
  let ?z = "staged_zero k (k + nb) m4"
  note L' = rs_layoutD [OF L] and c = layout_cells [OF U wf L]
  have lt: "i < rs_size m0" using i fit by simp
  note S' = stage_invD [OF S, unfolded L'(1), OF lt]
  have "?z < int (rs_size m0)" using staged_zero_cases [of k "k + nb" m4] fit(2) by auto
  moreover have "0 \<le> ?z" if "rc_src (rs_cells m4 ! i) < 0"
    by (rule staged_zero_exists [of m4 _ k i]) (use L'(1,2) fit c(4) that i in auto)
  ultimately show ?thesis using S'(4,5) i c(3) [OF lt] by auto
qed

text \<open>The contract. \<open>B\<close> bounds the positions that are stored.\<close>

lemma rs_find_slot_spec:
  assumes wf: "rs_wf m" and U: "rs_ubatch_ok (rs_size m) u" and room: "rs_room B m" "rs_fits B u"
  shows "\<exists>m'. rs_find_slot u m = Some (True, m') \<and> rs_wf m' \<and> rs_size m' = rs_size m \<and> rs_placed u m' \<and> rs_room B m' \<and>
    (\<forall>Z D. rs_clean Z (D :: nat \<Rightarrow> 'v) m \<longrightarrow> rs_clean Z (rs_incoming Z D m') m' \<and>
      (\<forall>q < rs_size m. \<forall>a < ub_n_seqs u. int q \<in> set (set_ids u a) \<longrightarrow>
        rs_state Z (rs_incoming Z D m') m' q = Some (set_last_pos u a, rs_inherited Z (rs_state Z D m (prim u a)))) \<and>
      (\<forall>q < rs_size m. (\<forall>a < ub_n_seqs u. int q \<notin> set (set_ids u a)) \<longrightarrow>
        rs_state Z (rs_incoming Z D m') m' q = rs_state Z D m q))"
proof -
  let ?n = "ub_n_seqs u"
  define mh where "mh = (if rs_head m > rs_used m + 2 * ?n then m\<lparr>rs_head := 0\<rparr> else m)"
  have h: "rs_size mh = rs_size m" "rs_cells mh = rs_cells m" by (simp_all add: mh_def)
  have "rs_wf mh" using wf unfolding mh_def rs_wf_def by (auto simp: rs_occupied_def)
  with rs_share_ubatch [of mh u] U h obtain m1 where m1: "rs_share (map (set_ids u) [0..<?n]) mh = Some (True, m1)" "rs_dropped (others u) mh m1" by auto
  note A = rs_droppedD [OF m1(2), unfolded h]
  note wf1 = A(1)
  have U1: "rs_ubatch_ok (rs_size m1) u" using U A(2) by simp
  note U' = rs_ubatch_okD [OF U1]
  have P: "rs_prims (prim u) ?n m1" using wf1 prim_props(3,5) [OF U1] by (auto simp: rs_prims_def)
  have "rs_room B mh" using room(1) by (simp add: rs_room_def h)
  from rs_room_dropped [OF this m1(2)] have room1: "rs_room B m1" .
  from rs_claim_spec [OF U1 wf1] obtain m2 mn mx C where m2: "rs_claim u m1 = Some (m2, mn, mx)" "rs_claimed (prim u) ?n C m1 m2"
    "0 \<le> mn" "mx < int (rs_size m1)" "\<forall>a < ?n. mn \<le> rc_tail (rs_cells m2 ! prim u a) \<and> rc_tail (rs_cells m2 ! prim u a) \<le> mx" by blast
  note D = rs_claimedD [OF m2(2)]
  have G: "mn + int ?n \<le> mx + 1"
    "\<exists>m' \<pi>. foldM (rs_gather_step u mn) [0..<?n] m2 = Some m' \<and> gather_inv (prim u) mn mx m2 ?n \<pi> m'"
  proof -
    have 1: "rs_ubatch_ok (rs_size m2) u" "mx < int (rs_size m2)" "length (rs_cells m2) = rs_size m2" using U1 m2(4) D(1,2) by simp_all
    have 2: "mn \<le> rc_tail (rs_cells m2 ! prim u a) \<and> rc_tail (rs_cells m2 ! prim u a) \<le> mx" if "a < ?n" for a using m2(5) that by blast
    have 3: "rc_tail (rs_cells m2 ! q) < int (rs_size m2)" if "q < rs_size m2" for q using D(1) D(9) [of q] that by simp
    note R = rs_gather_spec [OF 1(1) m2(3) 1(2,3) 2 claimed_prim_inj [OF P m2(2)] 3]
    show "mn + int ?n \<le> mx + 1" by (rule R(1))
    show "\<exists>m' \<pi>. foldM (rs_gather_step u mn) [0..<?n] m2 = Some m' \<and> gather_inv (prim u) mn mx m2 ?n \<pi> m'" by (rule R(2))
  qed
  then obtain m3 \<pi> where m3: "foldM (rs_gather_step u mn) [0..<?n] m2 = Some m3" "gather_inv (prim u) mn mx m2 ?n \<pi> m3" by blast
  define k where "k = nat mn"
  define nb where "nb = nat (mx - mn + 1)"
  have kn: "mn = int k" "mx = int (k + nb) - 1" using m2(3) G(1) U'(2) by (simp_all add: k_def nb_def)
  have fit: "?n \<le> nb" "k + nb \<le> rs_size m1" using G(1) m2(4) by (simp_all add: kn)
  have M: "rs_moved \<pi> m2 m3" using m3(2) by (simp add: gather_inv_def)
  note M' = rs_movedD [OF M, unfolded D(1)]
  have room3: "rc_pos (rs_cells m3 ! i) \<le> B" if "i < rs_size m1" for i
  proof -
    from M'(4) that obtain j where j: "j < rs_size m1" "\<pi> j = i" by (metis imageE lessThan_iff)
    from claimed_cells [OF wf1 P m2(2) j(1)] M'(5) [OF j(1)] j(2) room1 show ?thesis by (auto simp: rc_same_def rs_room_def)
  qed
  have U3: "rs_ubatch_ok (rs_size m3) u" using U1 M'(1) by simp
  obtain m4 where m4: "foldM (rs_place_step u (int k)) [0..<?n] m3 = Some m4" "place_inv u k m3 ?n m4"
    using rs_place_spec [OF U3, of k] fit M'(1,2) room3 room(2) by (force simp: rs_fits_def)
  have shared: "rc_tail (rs_cells m1 ! q) < 0" if "q \<in> others u" "q < rs_size m1" for q using A(2) A(3) [of q] that by simp
  have L: "rs_layout u k nb m1 m4"
    by (rule layout_of_stages [OF U1 wf1 shared m2(2) _ m4(2) fit]) (use m3(2) kn in simp_all)
  note L' = rs_layoutD [OF L] and c = layout_cells [OF U1 wf1 L]
  obtain m5 where m5: "rs_stage (int k) (int (k + nb) - 1) m4 = Some m5" "stage_inv k (staged_zero k (k + nb) m4) m4 nb m5"
  proof -
    have 1: "length (rs_cells m4) = rs_size m4" "k + nb \<le> rs_size m4" "0 < nb" using L'(1,2) fit U'(2) by simp_all
    have 2: "rc_src (rs_cells m4 ! i) < int (rs_size m4)" if "i < rs_size m4" for i using c(3) that L'(1) by simp
    have 3: "rc_src (rs_cells m4 ! i) = - 1 \<or> rc_src (rs_cells m4 ! i) = int i" if "i < rs_size m4" "i < k \<or> k + nb \<le> i" for i
      using c(4) [OF _ that(2) fit(1)] that(1) L'(1) by simp
    from rs_stage_spec [OF 1 2 3] show thesis using that by blast
  qed
  let ?m' = "rs_finish k nb m5"
  note S' = stage_invD [OF m5(2), unfolded L'(1)]
  have sz: "rs_size ?m' = rs_size m" "rs_cells ?m' = rs_cells m5" using m5(2) L'(1) A(2) by (simp_all add: rs_finish_def stage_inv_def)
  have "nat ((mx - mn + 1) mod 4294967296) = nb"
    using fit rs_wfD(4) [OF wf1] by (simp add: kn)
  with m1(1) m2(1) m3(1) m4(1) m5(1) U'(1) fit(1) have "rs_find_slot u m = Some (True, ?m')"
    by (simp add: rs_find_slot_def mh_def [symmetric] Let_def kn rs_finish_def)
  moreover have "rs_wf ?m'" by (rule finish_wf [OF U1 wf1 L fit m5(2)])
  moreover have "rs_placed u ?m'"
  proof -
    have "0 \<le> rc_src0 (rs_cells m5 ! i) \<and> rc_src0 (rs_cells m5 ! i) < int (rs_size m) \<and> rc_src (rs_cells m5 ! i) = int i"
      if "k \<le> i" "i < k + nb" for i
      using staged_source [OF U1 wf1 L fit m5(2), of i] that A(2) by simp
    then show ?thesis unfolding rs_placed_def sz using fit A(2) L'(3,4) S'(1,3) by (simp add: rs_finish_def)
  qed
  moreover have "rs_room B ?m'"
    unfolding rs_room_def sz using room1 room(2) A(2) S'(3) c(6) [of _ B] by (simp add: rs_room_def rs_fits_def)
  moreover have "rs_clean Z (rs_incoming Z D ?m') ?m' \<and>
      (\<forall>q < rs_size m. \<forall>a < ?n. int q \<in> set (set_ids u a) \<longrightarrow>
        rs_state Z (rs_incoming Z D ?m') ?m' q = Some (set_last_pos u a, rs_inherited Z (rs_state Z D m (prim u a)))) \<and>
      (\<forall>q < rs_size m. (\<forall>a < ?n. int q \<notin> set (set_ids u a)) \<longrightarrow> rs_state Z (rs_incoming Z D ?m') ?m' q = rs_state Z D m q)"
    if clean: "rs_clean Z D m" for Z and D :: "nat \<Rightarrow> 'v"
  proof -
    have "rs_clean Z D mh" using clean by (simp add: rs_clean_def h)
    from rs_clean_dropped [OF m1(2) this] have clean1: "rs_clean Z D m1" .
    have st: "rs_state Z D m1 q = (if q \<in> others u then None else rs_state Z D m q)" for q
      using rs_dropped_state [OF \<open>rs_wf mh\<close> m1(2), of Z D q] by (simp add: rs_state_def h)
    have notin: "q \<notin> others u" if "\<forall>a < ?n. int q \<notin> set (set_ids u a)" for q
    proof
      assume "q \<in> others u"
      then obtain a x where "a < ?n" "x \<in> set (tl (set_ids u a))" "q = nat x" by (auto simp: others_def)
      moreover from this have "x \<in> set (set_ids u a)" using U'(4) by (simp add: list.set_sel(2))
      ultimately show False using that U'(6) [of a x] by auto
    qed
    from layout_states [OF U1 wf1 L fit m5(2) clean1] show ?thesis using st notin prim_props(4) [OF U1] A(2) by simp
  qed
  ultimately show ?thesis using sz(1) by blast
qed

section \<open>Preparing a batch\<close>

lemma rs_place_all_spec:
  assumes "rs_wf m" "rs_room B m" "\<forall>u \<in> set us. rs_ubatch_ok (rs_size m) u \<and> rs_fits B u"
  shows "\<exists>m'. rs_place_all us m = Some (True, m') \<and> rs_wf m' \<and> rs_size m' = rs_size m"
  using assms
proof (induction us arbitrary: m)
  case (Cons u us)
  from rs_find_slot_spec [OF Cons.prems(1), of u B] Cons.prems(2,3) obtain m1 where
    m1: "rs_find_slot u m = Some (True, m1)" "rs_wf m1" "rs_size m1 = rs_size m" "rs_room B m1" by auto
  from Cons.IH [OF m1(2,4)] Cons.prems(3) m1(3) obtain m' where "rs_place_all us m1 = Some (True, m')" "rs_wf m'" "rs_size m' = rs_size m" by auto
  with m1 show ?case by simp
qed simp

lemma rs_prepare_spec:
  assumes "rs_wf m" "rs_room B m" "\<forall>u \<in> set us. rs_ubatch_ok (rs_size m) u \<and> rs_fits B u"
  shows "\<exists>n z. rs_prepare us m = Some (True, m\<lparr>rs_n := n, rs_z := z\<rparr>)"
proof -
  from rs_place_all_spec [OF assms] obtain m' where m': "rs_place_all us m = Some (True, m')" "rs_size m' = rs_size m" by blast
  have "m'\<lparr>rs_cells := rs_cells m, rs_used := rs_used m, rs_head := rs_head m\<rparr> = m\<lparr>rs_n := rs_n m', rs_z := rs_z m'\<rparr>"
    using m'(2) by simp
  with m'(1) show ?thesis by (auto simp: rs_prepare_def)
qed

end
