(* ===== verification/RecurrentShape.thy ===== *)
theory RecurrentShape
  imports RecurrentSlot
begin

text \<open>
  What no operation of the recurrent memory changes, whatever state it starts from: the number of cells.
  \<open>rs_shape n\<close> is preserved by every operation, the placement of a micro-batch included, also on
  memories that have lost the invariant \<open>rs_wf\<close>; so clearing the memory always restores the invariant
  (\<open>rs_shape_clear_wf\<close>).
\<close>

section \<open>Partial correctness of abortable operations\<close>

lemma wlp_guard [simp]: "wlp (guard b) Q \<longleftrightarrow> (b \<longrightarrow> Q ())"
  by (cases b) simp_all

lemma wlp_any: "(\<And>x. Q x) \<Longrightarrow> wlp m Q"
  by (cases m) simp_all

lemma wlp_mono: "wlp m Q \<Longrightarrow> (\<And>x. Q x \<Longrightarrow> R x) \<Longrightarrow> wlp m R"
  by (cases m) simp_all

lemma wlp_SomeD: "wlp m Q \<Longrightarrow> m = Some x \<Longrightarrow> Q x"
  by simp

section \<open>The number of cells\<close>

definition rs_shape :: "nat \<Rightarrow> rs_memory \<Rightarrow> bool" where
  "rs_shape n m \<longleftrightarrow> rs_size m = n \<and> length (rs_cells m) = n"

lemma rs_shape_put [simp]: "rs_shape n (rs_put i f m) \<longleftrightarrow> rs_shape n m"
  by (simp add: rs_shape_def)

lemma rs_shape_upd [simp]:
  "rs_shape n (m\<lparr>rs_head := h\<rparr>) \<longleftrightarrow> rs_shape n m" "rs_shape n (m\<lparr>rs_used := h\<rparr>) \<longleftrightarrow> rs_shape n m"
  "rs_shape n (m\<lparr>rs_n := h\<rparr>) \<longleftrightarrow> rs_shape n m" "rs_shape n (m\<lparr>rs_z := z\<rparr>) \<longleftrightarrow> rs_shape n m"
  by (simp_all add: rs_shape_def)

subsection \<open>Placement\<close>

lemma rs_shape_drop_tail: "rs_shape n m \<Longrightarrow> wlp (rs_drop_tail q m) (rs_shape n)"
  by (auto simp: rs_drop_tail_def Let_def wlp_bind intro!: wlp_any)

lemma rs_shape_share_ids: "rs_shape n m \<Longrightarrow> wlp (rs_share_ids later ids m) (\<lambda>r. rs_shape n (snd r))"
proof (induction ids arbitrary: later m)
  case (Cons q qs)
  then show ?case using rs_shape_drop_tail [of n m "nat q"]
    by (cases "rs_drop_tail (nat q) m") (auto simp: wlp_bind)
qed simp

lemma rs_shape_share: "rs_shape n m \<Longrightarrow> wlp (rs_share idss m) (\<lambda>r. rs_shape n (snd r))"
proof (induction idss arbitrary: m)
  case (Cons ids idss)
  show ?case
    using rs_shape_share_ids [OF Cons.prems, of False ids] Cons.IH by (cases "rs_share_ids False ids m") (auto simp: wlp_bind)
qed simp

lemma rs_shape_take_cell: "rs_shape n m \<Longrightarrow> wlp (rs_take_cell q nx m) (rs_shape n)"
  by (auto simp: rs_take_cell_def Let_def wlp_bind intro!: wlp_any)

lemma rs_shape_claim_step: "rs_shape n (fst s) \<Longrightarrow> wlp (rs_claim_step u a s) (\<lambda>t. rs_shape n (fst t))"
  using rs_shape_take_cell [of n "fst s"]
  by (cases s) (auto simp: rs_claim_step_def Let_def wlp_bind intro!: wlp_any elim: wlp_mono)

lemma rs_shape_claim: "rs_shape n m \<Longrightarrow> wlp (rs_claim u m) (\<lambda>t. rs_shape n (fst t))"
  unfolding rs_claim_def wlp_bind
  by (rule wlp_mono [OF wlp_foldM_inv [where P = "\<lambda>s. rs_shape n (fst s)"]]) (auto simp: rs_shape_claim_step)

lemma rs_shape_gather_step: "rs_shape n m \<Longrightarrow> wlp (rs_gather_step u mn s m) (rs_shape n)"
  by (auto simp: rs_gather_step_def rs_swap_def rs_shape_def Let_def wlp_bind intro!: wlp_any)

lemma rs_shape_enter: "rs_shape n m \<Longrightarrow> wlp (rs_enter i q m) (rs_shape n)"
  by (auto simp: rs_enter_def Let_def wlp_bind intro!: wlp_any)

lemma rs_shape_place_step: "rs_shape n m \<Longrightarrow> wlp (rs_place_step u mn s m) (rs_shape n)"
  unfolding rs_place_step_def Let_def wlp_bind
  by (intro wlp_any wlp_foldM_inv rs_shape_enter) simp_all

lemma rs_shape_stage_step: "rs_shape n m \<Longrightarrow> wlp (rs_stage_step i m) (rs_shape n)"
  by (auto simp: rs_stage_step_def Let_def wlp_bind)

lemma rs_shape_stage: "rs_shape n m \<Longrightarrow> wlp (rs_stage mn mx m) (rs_shape n)"
  by (auto simp: rs_stage_def Let_def wlp_bind intro!: wlp_foldM_inv rs_shape_stage_step)

lemma rs_shape_find_slot:
  assumes "rs_shape n m" "rs_find_slot u m = Some (ok, m')"
  shows "rs_shape n m'"
proof -
  define mh where "mh = (if rs_head m > rs_used m + 2 * ub_n_seqs u then m\<lparr>rs_head := 0\<rparr> else m)"
  have h: "rs_shape n mh" using assms(1) by (simp add: mh_def)
  obtain ok1 m1 where m1: "rs_share (map (set_ids u) [0..<ub_n_seqs u]) mh = Some (ok1, m1)"
    using assms(2) unfolding rs_find_slot_def mh_def [symmetric] Let_def by (auto split: Option.bind_splits)
  from wlp_SomeD [OF rs_shape_share [OF h] m1] have s1: "rs_shape n m1" by simp
  show ?thesis
  proof (cases ok1)
    case False
    with assms(2) m1 s1 show ?thesis unfolding rs_find_slot_def mh_def [symmetric] Let_def by (auto split: Option.bind_splits)
  next
    case True
    with assms(2) m1 obtain m2 mn mx m3 m4 m5 where m2: "rs_claim u m1 = Some (m2, mn, mx)"
      and m3: "foldM (rs_gather_step u mn) [0..<ub_n_seqs u] m2 = Some m3"
      and m4: "foldM (rs_place_step u mn) [0..<ub_n_seqs u] m3 = Some m4"
      and m5: "rs_stage mn mx m4 = Some m5" and e: "rs_shape n m' = rs_shape n m5"
      unfolding rs_find_slot_def mh_def [symmetric] Let_def by (auto split: Option.bind_splits)
    from wlp_SomeD [OF rs_shape_claim [OF s1] m2] have "rs_shape n m2" by simp
    from wlp_SomeD [OF wlp_foldM_inv [where P = "rs_shape n", OF this rs_shape_gather_step] m3] have "rs_shape n m3" .
    from wlp_SomeD [OF wlp_foldM_inv [where P = "rs_shape n", OF this rs_shape_place_step] m4] have "rs_shape n m4" .
    from wlp_SomeD [OF rs_shape_stage [OF this] m5] show ?thesis by (simp add: e)
  qed
qed

lemma rs_shape_prepare:
  assumes "rs_shape n m" "rs_prepare us m = Some (ok, m')"
  shows "rs_shape n m'"
proof -
  have "rs_shape n m'" if "rs_place_all us m = Some (ok, m')" "rs_shape n m" for us ok m m'
    using that
  proof (induction us arbitrary: m)
    case (Cons u us)
    then obtain ok1 m1 where m1: "rs_find_slot u m = Some (ok1, m1)" by (auto split: Option.bind_splits)
    from Cons m1 rs_shape_find_slot [OF Cons.prems(2) m1] show ?case by (cases ok1) auto
  qed simp
  with assms show ?thesis by (fastforce simp: rs_prepare_def rs_shape_def split: Option.bind_splits)
qed

subsection \<open>Operations on sequences\<close>

lemma rs_shape_fold:
  assumes "rs_shape n (fst s)" "\<And>i s. rs_shape n (fst s) \<Longrightarrow> rs_shape n (fst (f i s))"
  shows "rs_shape n (fst (fold f is s))"
  using assms by (induction "is" arbitrary: s) auto

lemma rs_shape_rm_cell: "rs_shape n (fst s) \<Longrightarrow> rs_shape n (fst (rs_rm_cell q p0 p1 i s))"
  by (cases s) (simp add: rs_rm_cell_def Let_def)

lemma rs_shape_keep_cell: "rs_shape n (fst s) \<Longrightarrow> rs_shape n (fst (rs_keep_cell q i s))"
  by (cases s) (simp add: rs_keep_cell_def Let_def)

lemma rs_shape_lower_head [simp]: "rs_shape n (rs_lower_head s) \<longleftrightarrow> rs_shape n (fst s)"
  by (cases s) (simp add: rs_lower_head_def)

lemma rs_shape_rm:
  assumes "rs_shape n m" "rs_seq_rm q p0 p1 m = Some (ok, m')"
  shows "rs_shape n m'"
proof (cases "q \<ge> int (rs_size m)")
  case True
  with assms show ?thesis by (simp add: rs_seq_rm_def)
next
  case False
  with assms(2) obtain r where r: "rs_rm_check q (rs_p0 p0) (rs_p1 p1) m = Some r" by (auto simp: rs_seq_rm_def split: Option.bind_splits)
  show ?thesis
  proof (cases r)
    case None
    with r assms False show ?thesis by (simp add: rs_seq_rm_def)
  next
    case (Some m1)
    have "rs_shape n m1" using r Some assms(1) by (auto simp: rs_rm_check_def Let_def split: if_splits Option.bind_splits)
    then have "rs_shape n (fst (fold (rs_rm_cell q (rs_p0 p0) (rs_p1 p1)) [0..<rs_size m1] (m1, rs_size m1)))"
      by (intro rs_shape_fold rs_shape_rm_cell) simp_all
    with r Some assms(2) False show ?thesis by (auto simp: rs_seq_rm_def)
  qed
qed

lemma rs_shape_keep: "rs_shape n m \<Longrightarrow> rs_shape n (rs_seq_keep q m)"
  by (simp add: rs_seq_keep_def rs_shape_fold rs_shape_keep_cell)

lemma rs_shape_cp:
  assumes "rs_shape n m" "rs_seq_cp src dst p0 p1 m = Some m'"
  shows "rs_shape n m'"
proof -
  have "wlp (rs_seq_cp src dst p0 p1 m) (rs_shape n)"
    using assms(1) rs_shape_drop_tail [OF assms(1), of "nat dst"]
    by (auto simp: rs_seq_cp_def Let_def wlp_bind intro!: wlp_any elim!: wlp_mono)
  with assms(2) show ?thesis by simp
qed

lemma rs_shape_move: "rs_shape n m \<Longrightarrow> rs_move_pos q p0 p1 f m = Some m' \<Longrightarrow> rs_shape n m'"
  by (auto simp: rs_move_pos_def Let_def split: if_splits Option.bind_splits)

lemma rs_shape_clear_wf: "rs_shape n m \<Longrightarrow> 0 < n \<Longrightarrow> n \<le> 2147483647 \<Longrightarrow> rs_wf (rs_clear m) \<and> rs_shape n (rs_clear m)"
  by (auto simp: rs_shape_def rs_wf_def rs_clear_def rs_occupied_def)

end
