(* ===== verification/RecurrentRun.thy ===== *)
theory RecurrentRun
  imports RecurrentShape
begin

text \<open>
  The recurrent memory at work: \<^verbatim>\<open>init_batch\<close> and \<^verbatim>\<open>llama_memory_recurrent_context\<close> of
  \<^verbatim>\<open>src/src/llama-memory-recurrent.cpp\<close>, and the part of the graph that moves the states:
  \<^verbatim>\<open>llm_graph_input_rs::set_input\<close>, \<^verbatim>\<open>build_rs\<close> and \<^verbatim>\<open>build_rwkv_token_shift_store\<close> of
  \<^verbatim>\<open>src/src/llama-graph.cpp\<close>.

  The tensor of one layer is a function from rows to states. The layer itself is a parameter: \<open>F u s v\<close>
  is the state that the model computes for sequence set \<open>s\<close> of micro-batch \<open>u\<close> from the state \<open>v\<close>, and
  \<open>scale0\<close> is the multiplication of a state by zero that \<^verbatim>\<open>build_rs\<close> uses to clear one.

  \<open>rs_process_refines\<close> is the simulation of one micro-batch, \<open>rs_run_spec\<close> of the loop: whatever cells are
  chosen, shared, swapped and copied, each sequence continues from its own state.
\<close>

section \<open>The memory context\<close>

record 'e rs_context =
  rx_status :: llama_memory_status
  rx_i_next :: nat
  rx_ubatches :: "'e llama_ubatch list"
  rx_is_full :: bool

definition rs_ctx_error :: "llama_memory_status \<Rightarrow> 'e rs_context" where
  "rs_ctx_error st = \<lparr>rx_status = st, rx_i_next = 0, rx_ubatches = [], rx_is_full = False\<rparr>"

definition rs_ctx_batch :: "'e llama_ubatch list \<Rightarrow> 'e rs_context" where
  "rs_ctx_batch us = (rs_ctx_error STATUS_SUCCESS)\<lparr>rx_ubatches := us\<rparr>"

definition rs_init_full :: "'e rs_context" where
  "rs_init_full = (rs_ctx_error STATUS_SUCCESS)\<lparr>rx_is_full := True\<rparr>"

definition rs_init_update :: "'e rs_context" where
  "rs_init_update = rs_ctx_error STATUS_NO_UPDATE"

definition rs_init_batch :: "nat \<Rightarrow> bool \<Rightarrow> 'e allocr \<Rightarrow> rs_memory \<Rightarrow> ('e rs_context \<times> 'e allocr \<times> rs_memory) option" where
  "rs_init_batch n_ubatch embd_all a m = do {
     let a0 = split_reset a;
     (us, a1) \<leftarrow> split_loop (Suc (al_n_tokens a0))
       (\<lambda>a. if embd_all then split_seq n_ubatch a else split_equal n_ubatch True a) a0;
     if al_n_used a1 < al_n_tokens a1 then Some (rs_ctx_error STATUS_FAILED_PREPARE, a1, m)
     else do {
       (ok, m1) \<leftarrow> rs_prepare us m;
       if \<not> ok then Some (rs_ctx_error STATUS_FAILED_PREPARE, a1, m1)
       else Some (rs_ctx_batch us, a1, m1)
     }
   }"

definition rs_ctx_next :: "'e rs_context \<Rightarrow> (bool \<times> 'e rs_context) option" where
  "rs_ctx_next cx = do {
     guard (rx_status cx = STATUS_SUCCESS);
     let cx1 = cx\<lparr>rx_i_next := rx_i_next cx + 1\<rparr>;
     Some (rx_i_next cx1 < length (rx_ubatches cx1), cx1)
   }"

text \<open>\<^verbatim>\<open>apply\<close> does not look at what \<^verbatim>\<open>find_slot\<close> returns.\<close>

definition rs_ctx_apply :: "'e rs_context \<Rightarrow> rs_memory \<Rightarrow> (bool \<times> rs_memory) option" where
  "rs_ctx_apply cx m = do {
     guard (rx_status cx \<noteq> STATUS_FAILED_PREPARE \<and> rx_status cx \<noteq> STATUS_FAILED_COMPUTE);
     if rx_ubatches cx = [] then do {
       guard (rx_status cx = STATUS_NO_UPDATE);
       Some (True, m)
     }
     else do {
       guard (rx_i_next cx < length (rx_ubatches cx));
       (_, m1) \<leftarrow> rs_find_slot (rx_ubatches cx ! rx_i_next cx) m;
       Some (True, m1)
     }
   }"

definition rs_ctx_ubatch :: "'e rs_context \<Rightarrow> 'e llama_ubatch option" where
  "rs_ctx_ubatch cx = do {
     guard (rx_status cx = STATUS_SUCCESS \<and> rx_i_next cx < length (rx_ubatches cx));
     Some (rx_ubatches cx ! rx_i_next cx)
   }"

definition get_n_rs :: "'e rs_context \<Rightarrow> rs_memory \<Rightarrow> nat" where
  "get_n_rs cx m = (if rx_is_full cx then rs_size m else rs_n m)"

definition get_rs_head :: "'e rs_context \<Rightarrow> rs_memory \<Rightarrow> nat" where
  "get_rs_head cx m = (if rx_is_full cx then 0 else rs_head m)"

definition get_rs_z :: "'e rs_context \<Rightarrow> rs_memory \<Rightarrow> int" where
  "get_rs_z cx m = (if rx_is_full cx then 0 else rs_z m)"

definition rs_s_copy :: "rs_memory \<Rightarrow> nat \<Rightarrow> int option" where
  "rs_s_copy m i = map_option rc_src0 (rs_at m (int (i + rs_head m)))"

section \<open>The graph\<close>

text \<open>The input \<^verbatim>\<open>s_copy\<close>: for each row of the block, where it is copied from.\<close>

fun mapM :: "('a \<Rightarrow> 'b option) \<Rightarrow> 'a list \<Rightarrow> 'b list option" where
  "mapM f [] = Some []"
| "mapM f (x # xs) = do { y \<leftarrow> f x; ys \<leftarrow> mapM f xs; Some (y # ys) }"

definition rs_set_input :: "'e rs_context \<Rightarrow> rs_memory \<Rightarrow> int list option" where
  "rs_set_input cx m = mapM (rs_s_copy m) [0..<get_n_rs cx m]"

text \<open>
  \<^verbatim>\<open>build_rs\<close>: clear the row \<open>rs_zero\<close>, read the rows of the sequences of the micro-batch, then copy
  the other rows of the block. The row numbers are checked by \<^verbatim>\<open>ggml_get_rows\<close>. Rows are counted, not bytes: the
  32-bit byte offset of the first row that is copied is taken not to wrap.
\<close>

definition clear_row :: "('v \<Rightarrow> 'v) \<Rightarrow> int \<Rightarrow> (nat \<Rightarrow> 'v) \<Rightarrow> nat \<Rightarrow> 'v" where
  "clear_row scale0 rs_zero D = (if rs_zero \<ge> 0 then D(nat rs_zero := scale0 (D (nat rs_zero))) else D)"

definition build_rs :: "('v \<Rightarrow> 'v) \<Rightarrow> int list \<Rightarrow> nat \<Rightarrow> nat \<Rightarrow> nat \<Rightarrow> nat \<Rightarrow> int \<Rightarrow> (nat \<Rightarrow> 'v) \<Rightarrow> ('v list \<times> (nat \<Rightarrow> 'v)) option" where
  "build_rs scale0 s_copy n_seqs n_rs head sz rs_zero D = do {
     guard (length s_copy = n_rs \<and> n_seqs \<le> n_rs \<and> head + n_rs \<le> sz);
     let D1 = clear_row scale0 rs_zero D;
     guard (list_all (\<lambda>i. 0 \<le> i \<and> i < int sz) s_copy);
     let outs = map (\<lambda>i. D1 (nat (s_copy ! i))) [0..<n_seqs];
     let extra = (\<lambda>j. if head + n_seqs \<le> j \<and> j < head + n_rs then D1 (nat (s_copy ! (j - head))) else D1 j);
     Some (outs, extra)
   }"

text \<open>\<^verbatim>\<open>build_rwkv_token_shift_store\<close>: the new states go to the first rows of the block.\<close>

definition rs_store :: "nat \<Rightarrow> 'v list \<Rightarrow> (nat \<Rightarrow> 'v) \<Rightarrow> nat \<Rightarrow> 'v" where
  "rs_store head new D j = (if head \<le> j \<and> j < head + length new then new ! (j - head) else D j)"

text \<open>One micro-batch: place it, fill the inputs, compute the graph.\<close>

definition rs_process :: "('v \<Rightarrow> 'v) \<Rightarrow> ('e llama_ubatch \<Rightarrow> nat \<Rightarrow> 'v \<Rightarrow> 'v) \<Rightarrow> 'e rs_context \<Rightarrow> rs_memory \<times> (nat \<Rightarrow> 'v)
    \<Rightarrow> (rs_memory \<times> (nat \<Rightarrow> 'v)) option" where
  "rs_process scale0 F cx = (\<lambda>(m, D). do {
     (_, m1) \<leftarrow> rs_ctx_apply cx m;
     u \<leftarrow> rs_ctx_ubatch cx;
     s_copy \<leftarrow> rs_set_input cx m1;
     (outs, D1) \<leftarrow> build_rs scale0 s_copy (ub_n_seqs u) (get_n_rs cx m1) (get_rs_head cx m1) (rs_size m1) (get_rs_z cx m1) D;
     let new = map (\<lambda>s. F u s (outs ! s)) [0..<ub_n_seqs u];
     Some (m1, rs_store (get_rs_head cx m1) new D1)
   })"

text \<open>All micro-batches: the loop of \<^verbatim>\<open>decode\<close> around \<^verbatim>\<open>next\<close>. The fuel is the number of micro-batches.\<close>

fun rs_run :: "nat \<Rightarrow> ('v \<Rightarrow> 'v) \<Rightarrow> ('e llama_ubatch \<Rightarrow> nat \<Rightarrow> 'v \<Rightarrow> 'v) \<Rightarrow> 'e rs_context \<Rightarrow> rs_memory \<times> (nat \<Rightarrow> 'v)
    \<Rightarrow> (rs_memory \<times> (nat \<Rightarrow> 'v)) option" where
  "rs_run 0 scale0 F cx st = None"
| "rs_run (Suc k) scale0 F cx st = do {
     st1 \<leftarrow> rs_process scale0 F cx st;
     (more, cx1) \<leftarrow> rs_ctx_next cx;
     if more then rs_run k scale0 F cx1 st1 else Some st1
   }"

section \<open>The abstract memory\<close>

text \<open>The set of the micro-batch that a sequence belongs to, and the specification of one micro-batch:
  a map from sequences to their last position and state.\<close>

definition ub_set_of :: "'e llama_ubatch \<Rightarrow> nat \<Rightarrow> nat option" where
  "ub_set_of u q = find (\<lambda>s. int q \<in> set (set_ids u s)) [0..<ub_n_seqs u]"

definition rs_abs_step :: "'v \<Rightarrow> ('e llama_ubatch \<Rightarrow> nat \<Rightarrow> 'v \<Rightarrow> 'v) \<Rightarrow> 'e llama_ubatch \<Rightarrow> (nat \<Rightarrow> (int \<times> 'v) option) \<Rightarrow> nat \<Rightarrow> (int \<times> 'v) option" where
  "rs_abs_step Z F u \<sigma> q = (case ub_set_of u q of
       None \<Rightarrow> \<sigma> q
     | Some s \<Rightarrow> Some (set_last_pos u s, F u s (rs_inherited Z (\<sigma> (prim u s)))))"

lemma ub_set_of_cases:
  assumes "rs_ubatch_ok sz u"
  shows "ub_set_of u q = None \<Longrightarrow> \<forall>a < ub_n_seqs u. int q \<notin> set (set_ids u a)"
    "ub_set_of u q = Some s \<Longrightarrow> s < ub_n_seqs u \<and> int q \<in> set (set_ids u s)"
    "a < ub_n_seqs u \<Longrightarrow> int q \<in> set (set_ids u a) \<Longrightarrow> ub_set_of u q = Some a"
proof -
  show "ub_set_of u q = None \<Longrightarrow> \<forall>a < ub_n_seqs u. int q \<notin> set (set_ids u a)"
    by (auto simp: ub_set_of_def find_None_iff)
  show some: "ub_set_of u q = Some s \<Longrightarrow> s < ub_n_seqs u \<and> int q \<in> set (set_ids u s)" for s
    by (auto simp: ub_set_of_def find_Some_iff)
  show "ub_set_of u q = Some a" if a: "a < ub_n_seqs u" "int q \<in> set (set_ids u a)"
  proof (cases "ub_set_of u q")
    case None
    with a show ?thesis by (auto simp: ub_set_of_def find_None_iff)
  next
    case (Some b)
    from some [OF this] a rs_ubatch_okD(8) [OF assms a(1), of b] have "b = a" by auto
    with Some show ?thesis by simp
  qed
qed

lemma mapM_all: "(\<And>x. x \<in> set xs \<Longrightarrow> f x = Some (g x)) \<Longrightarrow> mapM f xs = Some (map g xs)"
  by (induction xs) auto

text \<open>The rows after the graph: the new states in front, the incoming rows elsewhere.\<close>

definition rs_after :: "'v \<Rightarrow> ('e llama_ubatch \<Rightarrow> nat \<Rightarrow> 'v \<Rightarrow> 'v) \<Rightarrow> 'e llama_ubatch \<Rightarrow> (nat \<Rightarrow> 'v) \<Rightarrow> rs_memory \<Rightarrow> nat \<Rightarrow> 'v" where
  "rs_after Z F u D m j = (if rs_head m \<le> j \<and> j < rs_head m + ub_n_seqs u
     then F u (j - rs_head m) (rs_incoming Z D m j) else rs_incoming Z D m j)"

lemma rs_process_eq:
  assumes cx: "rx_status cx = STATUS_SUCCESS" "rx_is_full cx = False" "rx_i_next cx < length (rx_ubatches cx)"
    and u: "u = rx_ubatches cx ! rx_i_next cx" and wf: "rs_wf m1"
    and slot: "rs_find_slot u m = Some (True, m1)" "rs_placed u m1"
    and zero: "\<And>j. j < rs_size m1 \<Longrightarrow> scz (D j) = Z"
  shows "\<exists>D'. rs_process scz F cx (m, D) = Some (m1, D') \<and> (\<forall>j < rs_size m1. D' j = rs_after Z F u D m1 j)"
proof -
  note W = rs_wfD [OF wf]
  let ?h = "rs_head m1" and ?n = "rs_n m1" and ?z = "rs_z m1"
  have P: "ub_n_seqs u \<le> ?n" "?h + ?n \<le> rs_size m1"
    and src0: "\<And>i. ?h \<le> i \<Longrightarrow> i < ?h + ?n \<Longrightarrow> 0 \<le> rc_src0 (rs_cells m1 ! i) \<and> rc_src0 (rs_cells m1 ! i) < int (rs_size m1)"
    using slot(2) unfolding rs_placed_def by blast+
  have ne: "rx_ubatches cx \<noteq> []" using cx(3) by auto
  have apply1: "rs_ctx_apply cx m = Some (True, m1)" using cx ne slot(1) u by (simp add: rs_ctx_apply_def)
  have ub: "rs_ctx_ubatch cx = Some u" using cx u by (simp add: rs_ctx_ubatch_def)
  let ?sc = "map (\<lambda>i. rc_src0 (rs_cells m1 ! (?h + i))) [0..<?n]"
  have set_input: "rs_set_input cx m1 = Some ?sc"
    unfolding rs_set_input_def
    using cx(2) P W(1) by (simp add: get_n_rs_def) (rule mapM_all, simp add: rs_s_copy_def rs_at_def add.commute flip: of_nat_add)
  define D1 where "D1 = clear_row scz ?z D"
  have D1: "D1 j = (if int j = ?z then Z else D j)" if "j < rs_size m1" for j using zero that by (auto simp: D1_def clear_row_def)
  let ?extra = "\<lambda>j. if ?h + ub_n_seqs u \<le> j \<and> j < ?h + ?n then D1 (nat (?sc ! (j - ?h))) else D1 j"
  let ?outs = "map (\<lambda>i. D1 (nat (?sc ! i))) [0..<ub_n_seqs u]"
  have "list_all (\<lambda>i. 0 \<le> i \<and> i < int (rs_size m1)) ?sc" using src0 by (simp add: list_all_length)
  then have graph: "build_rs scz ?sc (ub_n_seqs u) ?n ?h (rs_size m1) ?z D = Some (?outs, ?extra)"
    using P by (simp add: build_rs_def Let_def flip: D1_def)
  have inc: "D1 (nat (?sc ! (j - ?h))) = rs_incoming Z D m1 j" if "?h \<le> j" "j < ?h + ?n" for j
  proof -
    have "nat (rc_src0 (rs_cells m1 ! j)) < rs_size m1" using src0 [OF that] by auto
    moreover have "?sc ! (j - ?h) = rc_src0 (rs_cells m1 ! j)"
    proof -
      have "j - ?h < ?n" using that by arith
      with that show ?thesis by simp
    qed
    ultimately show ?thesis unfolding rs_incoming_def Let_def using D1 src0 [OF that] that by simp
  qed
  let ?D' = "rs_store ?h (map (\<lambda>s. F u s (?outs ! s)) [0..<ub_n_seqs u]) ?extra"
  have "rs_process scz F cx (m, D) = Some (m1, ?D')"
    using apply1 ub set_input graph cx(2)
    by (simp add: rs_process_def get_n_rs_def get_rs_head_def get_rs_z_def Let_def del: upt_Suc)
  moreover have "?D' j = rs_after Z F u D m1 j" if j: "j < rs_size m1" for j
  proof (cases "?h \<le> j \<and> j < ?h + ub_n_seqs u")
    case True
    then have "j - ?h < ub_n_seqs u" "j < ?h + ?n" using P(1) by arith+
    with True have "?outs ! (j - ?h) = rs_incoming Z D m1 j" using inc [of j] by simp
    with True \<open>j - ?h < ub_n_seqs u\<close> show ?thesis by (simp add: rs_store_def rs_after_def)
  next
    case out: False
    then have "?D' j = ?extra j" by (auto simp: rs_store_def)
    also have "\<dots> = rs_incoming Z D m1 j"
    proof (cases "?h + ub_n_seqs u \<le> j \<and> j < ?h + ?n")
      case True
      with inc [of j] show ?thesis by simp
    next
      case False
      with out D1 [OF j] show ?thesis by (auto simp: rs_incoming_def Let_def)
    qed
    finally show ?thesis using out by (auto simp: rs_after_def)
  qed
  ultimately show ?thesis by blast
qed

text \<open>One micro-batch implements one abstract step. \<open>G\<close> says which states are finite numbers.\<close>

definition rs_numeric :: "'v \<Rightarrow> ('v \<Rightarrow> bool) \<Rightarrow> ('v \<Rightarrow> 'v) \<Rightarrow> ('e llama_ubatch \<Rightarrow> nat \<Rightarrow> 'v \<Rightarrow> 'v) \<Rightarrow> bool" where
  "rs_numeric Z G scale0 F \<longleftrightarrow> G Z \<and> (\<forall>v. G v \<longrightarrow> scale0 v = Z) \<and> (\<forall>u s v. G v \<longrightarrow> G (F u s v))"

definition rs_data_ok :: "'v \<Rightarrow> ('v \<Rightarrow> bool) \<Rightarrow> (nat \<Rightarrow> 'v) \<Rightarrow> rs_memory \<Rightarrow> bool" where
  "rs_data_ok Z G D m \<longleftrightarrow> rs_clean Z D m \<and> (\<forall>j < rs_size m. G (D j))"

lemma rs_value_cong: "(\<And>j. j < n \<Longrightarrow> D j = D' j) \<Longrightarrow> src < int n \<Longrightarrow> rs_value Z D src = rs_value Z D' src"
  by (simp add: rs_value_def nat_less_iff)

lemma rs_block_tail:
  assumes wf: "rs_wf m" and P: "rs_placed u m" and a: "a < ub_n_seqs u" and q: "q < rs_size m"
  shows "rc_tail (rs_cells m ! q) = int (rs_head m + a) \<longleftrightarrow> int q \<in> set (set_ids u a)"
proof -
  have "rs_head m + a < rs_size m" "rc_seq (rs_cells m ! (rs_head m + a)) = set (set_ids u a)"
    using P a unfolding rs_placed_def by auto
  with rs_wfD(6) [OF wf _ q] show ?thesis by metis
qed

lemma rs_find_slot_data:
  assumes wf: "rs_wf m" and U: "rs_ubatch_ok (rs_size m) u" and room: "rs_room B m" "rs_fits B u" and clean: "rs_clean Z D m"
  shows "\<exists>m'. rs_find_slot u m = Some (True, m') \<and> rs_wf m' \<and> rs_size m' = rs_size m \<and> rs_placed u m' \<and> rs_room B m' \<and>
    rs_clean Z (rs_incoming Z D m') m' \<and>
    (\<forall>q < rs_size m. \<forall>a < ub_n_seqs u. int q \<in> set (set_ids u a) \<longrightarrow>
        rs_state Z (rs_incoming Z D m') m' q = Some (set_last_pos u a, rs_inherited Z (rs_state Z D m (prim u a)))) \<and>
    (\<forall>q < rs_size m. (\<forall>a < ub_n_seqs u. int q \<notin> set (set_ids u a)) \<longrightarrow>
        rs_state Z (rs_incoming Z D m') m' q = rs_state Z D m q)"
proof -
  from rs_find_slot_spec [OF wf U room] show ?thesis
    by (elim exE conjE) (drule spec [of _ Z], drule spec [of _ D], drule mp, rule clean, elim conjE, intro exI conjI, assumption+)
qed

lemma rs_process_refines:
  assumes wf: "rs_wf m" and U: "rs_ubatch_ok (rs_size m) u" and room: "rs_room B m" "rs_fits B u"
    and num: "rs_numeric Z G scale0 F" and data: "rs_data_ok Z G D m"
    and cx: "rx_status cx = STATUS_SUCCESS" "rx_is_full cx = False" "rx_i_next cx < length (rx_ubatches cx)"
      "u = rx_ubatches cx ! rx_i_next cx"
  shows "\<exists>m' D'. rs_process scale0 F cx (m, D) = Some (m', D') \<and> rs_wf m' \<and> rs_size m' = rs_size m \<and> rs_room B m' \<and>
    rs_data_ok Z G D' m' \<and> (\<forall>q < rs_size m. rs_state Z D' m' q = rs_abs_step Z F u (rs_state Z D m) q)"
proof -
  have clean: "rs_clean Z D m" and G: "\<And>j. j < rs_size m \<Longrightarrow> G (D j)" using data by (simp_all add: rs_data_ok_def)
  from rs_find_slot_data [OF wf U room clean] obtain m' where
    slot: "rs_find_slot u m = Some (True, m')" and wf': "rs_wf m'" and sz: "rs_size m' = rs_size m" and P: "rs_placed u m'"
    and room': "rs_room B m'" and clean': "rs_clean Z (rs_incoming Z D m') m'"
    and st1: "\<forall>q < rs_size m. \<forall>a < ub_n_seqs u. int q \<in> set (set_ids u a) \<longrightarrow>
        rs_state Z (rs_incoming Z D m') m' q = Some (set_last_pos u a, rs_inherited Z (rs_state Z D m (prim u a)))"
    and st2: "\<forall>q < rs_size m. (\<forall>a < ub_n_seqs u. int q \<notin> set (set_ids u a)) \<longrightarrow>
        rs_state Z (rs_incoming Z D m') m' q = rs_state Z D m q" by (elim exE conjE)
  note W = rs_wfD [OF wf'] and U' = rs_ubatch_okD [OF U]
  let ?h = "rs_head m'"
  have Z: "\<And>j. j < rs_size m' \<Longrightarrow> scale0 (D j) = Z" using num G sz by (simp add: rs_numeric_def)
  from rs_process_eq [OF cx(1-4) wf' slot P, where scz = scale0 and D = D and Z = Z and F = F] Z obtain D' where
    D': "rs_process scale0 F cx (m, D) = Some (m', D')" "\<And>j. j < rs_size m' \<Longrightarrow> D' j = rs_after Z F u D m' j" by blast
  have blk: "ub_n_seqs u \<le> rs_n m'" "?h + rs_n m' \<le> rs_size m'" and
    staged: "\<And>i. ?h \<le> i \<Longrightarrow> i < ?h + rs_n m' \<Longrightarrow> 0 \<le> rc_src0 (rs_cells m' ! i) \<and> rc_src0 (rs_cells m' ! i) < int (rs_size m') \<and> rc_src (rs_cells m' ! i) = int i"
    and seqs: "\<And>a. a < ub_n_seqs u \<Longrightarrow> rc_seq (rs_cells m' ! (?h + a)) = set (set_ids u a)"
    using P unfolding rs_placed_def by blast+
  have src_lt: "rc_src (rs_cells m' ! i) < int (rs_size m')" if "i < rs_size m'" for i using W(8) [OF that] that by auto
  have away: "rs_value Z D' (rc_src (rs_cells m' ! i)) = rs_value Z (rs_incoming Z D m') (rc_src (rs_cells m' ! i))"
    if i: "i < rs_size m'" "\<not> (?h \<le> i \<and> i < ?h + ub_n_seqs u)" for i
    using W(8) [OF i(1)] D'(2) [OF i(1)] i(2) by (auto simp: rs_value_def rs_after_def)
  have inc_G: "G (rs_incoming Z D m' j)" if "j < rs_size m'" for j
  proof (cases "?h \<le> j \<and> j < ?h + rs_n m'")
    case True
    then have "nat (rc_src0 (rs_cells m' ! j)) < rs_size m" using staged [of j] sz by auto
    with G num True show ?thesis by (simp add: rs_incoming_def Let_def rs_numeric_def)
  next
    case False
    with G num that sz show ?thesis by (auto simp: rs_incoming_def Let_def rs_numeric_def)
  qed
  have "rs_data_ok Z G D' m'"
    unfolding rs_data_ok_def
  proof (intro conjI allI impI)
    show "G (D' j)" if "j < rs_size m'" for j using D'(2) [OF that] inc_G [OF that] num by (simp add: rs_after_def rs_numeric_def)
    show "rs_clean Z D' m'"
      unfolding rs_clean_def
    proof (intro allI impI)
      fix i assume i: "i < rs_size m'" "rc_seq (rs_cells m' ! i) = {}"
      have "\<not> (?h \<le> i \<and> i < ?h + ub_n_seqs u)"
      proof
        assume b: "?h \<le> i \<and> i < ?h + ub_n_seqs u"
        then have "i - ?h < ub_n_seqs u" by arith
        from seqs [OF this] U'(4) [OF this] i(2) b show False by simp
      qed
      from away [OF i(1) this] clean' i show "rs_value Z D' (rc_src (rs_cells m' ! i)) = Z" by (simp add: rs_clean_def)
    qed
  qed
  moreover have "rs_state Z D' m' q = rs_abs_step Z F u (rs_state Z D m) q" if q: "q < rs_size m" for q
  proof (cases "ub_set_of u q")
    case (Some a)
    with ub_set_of_cases(2) [OF U] have a: "a < ub_n_seqs u" "int q \<in> set (set_ids u a)" by blast+
    have t: "rc_tail (rs_cells m' ! q) = int (?h + a)" using rs_block_tail [OF wf' P a(1), of q] a(2) q sz by simp
    have lt: "?h + a < rs_size m'" using blk a(1) by simp
    have src: "rc_src (rs_cells m' ! (?h + a)) = int (?h + a)" using staged [of "?h + a"] blk(1) a(1) by simp
    have "rs_state Z (rs_incoming Z D m') m' q = Some (set_last_pos u a, rs_inherited Z (rs_state Z D m (prim u a)))"
      using st1 q a by blast
    with t src q sz have "rs_incoming Z D m' (?h + a) = rs_inherited Z (rs_state Z D m (prim u a))" "rc_pos (rs_cells m' ! (?h + a)) = set_last_pos u a"
      by (simp_all add: rs_state_def Let_def rs_value_def del: of_nat_add)
    with t src q sz D'(2) [OF lt] a(1) Some show ?thesis
      by (simp add: rs_state_def Let_def rs_value_def rs_abs_step_def rs_after_def del: of_nat_add)
  next
    case None
    with ub_set_of_cases(1) [OF U] have no: "\<forall>a < ub_n_seqs u. int q \<notin> set (set_ids u a)" by blast
    have "rs_state Z D' m' q = rs_state Z (rs_incoming Z D m') m' q"
    proof (cases "0 \<le> rc_tail (rs_cells m' ! q)")
      case True
      let ?t = "nat (rc_tail (rs_cells m' ! q))"
      have t: "?t < rs_size m'" using rs_wf_tail(1) [OF wf' _ True] q sz by simp
      have "\<not> (?h \<le> ?t \<and> ?t < ?h + ub_n_seqs u)"
      proof
        assume b: "?h \<le> ?t \<and> ?t < ?h + ub_n_seqs u"
        then have a: "?t - ?h < ub_n_seqs u" by arith
        from rs_block_tail [OF wf' P a, of q] q sz b True have "int q \<in> set (set_ids u (?t - ?h))" by simp
        with no a show False by blast
      qed
      from away [OF t this] True q sz show ?thesis by (simp add: rs_state_def Let_def)
    qed (simp add: rs_state_def)
    with st2 q no None show ?thesis by (simp add: rs_abs_step_def)
  qed
  ultimately show ?thesis using D'(1) wf' sz room' by blast
qed

lemma rs_abs_step_ext:
  assumes U: "rs_ubatch_ok (rs_size m) u" and sz: "rs_size m1 = rs_size m"
    and eq: "\<forall>q < rs_size m. rs_state Z D1 m1 q = rs_abs_step Z F u (rs_state Z D m) q"
  shows "rs_state Z D1 m1 = rs_abs_step Z F u (rs_state Z D m)"
proof
  fix q
  show "rs_state Z D1 m1 q = rs_abs_step Z F u (rs_state Z D m) q"
  proof (cases "q < rs_size m")
    case False
    have "ub_set_of u q = None"
    proof (cases "ub_set_of u q")
      case (Some a)
      with ub_set_of_cases(2) [OF U] rs_ubatch_okD(6) [OF U] False show ?thesis by fastforce
    qed simp
    with False sz show ?thesis by (simp add: rs_abs_step_def rs_state_def)
  qed (use eq in simp)
qed

lemma rs_run_spec:
  assumes "rs_wf m" "rs_room B m" "rs_numeric Z G scale0 F" "rs_data_ok Z G D m"
    and "\<forall>u \<in> set us. rs_ubatch_ok (rs_size m) u \<and> rs_fits B u"
    and "rx_status cx = STATUS_SUCCESS" "rx_is_full cx = False" "rx_ubatches cx = us"
    and "rx_i_next cx + Suc k = length us"
  shows "\<exists>m' D'. rs_run (Suc k) scale0 F cx (m, D) = Some (m', D') \<and> rs_wf m' \<and> rs_size m' = rs_size m \<and> rs_room B m' \<and>
    rs_data_ok Z G D' m' \<and> (\<forall>q < rs_size m. rs_state Z D' m' q = fold (rs_abs_step Z F) (drop (rx_i_next cx) us) (rs_state Z D m) q)"
  using assms
proof (induction k arbitrary: m D cx)
  case 0
  note A = 0
  have lt: "rx_i_next cx < length us" using A(9) by simp
  let ?u = "us ! rx_i_next cx"
  have u: "rs_ubatch_ok (rs_size m) ?u" "rs_fits B ?u" using A(5) nth_mem [OF lt] by blast+
  from rs_process_refines [OF A(1) u(1) A(2) u(2) A(3,4,6,7), unfolded A(8), OF lt refl] obtain m' D' where
    r: "rs_process scale0 F cx (m, D) = Some (m', D')" "rs_wf m'" "rs_size m' = rs_size m" "rs_room B m'" "rs_data_ok Z G D' m'"
    "\<forall>q < rs_size m. rs_state Z D' m' q = rs_abs_step Z F ?u (rs_state Z D m) q" by blast
  have "drop (rx_i_next cx) us = [?u]" using A(9) Cons_nth_drop_Suc [OF lt] by simp
  moreover have "rs_run (Suc 0) scale0 F cx (m, D) = Some (m', D')" using r(1) A(6,8,9) by (simp add: rs_ctx_next_def Let_def)
  ultimately show ?case using r by auto
next
  case (Suc k)
  note A = Suc.prems
  have lt: "rx_i_next cx < length us" using A(9) by simp
  let ?u = "us ! rx_i_next cx" and ?cx = "cx\<lparr>rx_i_next := rx_i_next cx + 1\<rparr>"
  have u: "rs_ubatch_ok (rs_size m) ?u" "rs_fits B ?u" using A(5) nth_mem [OF lt] by blast+
  from rs_process_refines [OF A(1) u(1) A(2) u(2) A(3,4,6,7), unfolded A(8), OF lt refl] obtain m1 D1 where
    r: "rs_process scale0 F cx (m, D) = Some (m1, D1)" "rs_wf m1" "rs_size m1 = rs_size m" "rs_room B m1" "rs_data_ok Z G D1 m1"
    "\<forall>q < rs_size m. rs_state Z D1 m1 q = rs_abs_step Z F ?u (rs_state Z D m) q" by blast
  have "\<forall>u \<in> set us. rs_ubatch_ok (rs_size m1) u \<and> rs_fits B u" using A(5) r(3) by simp
  from Suc.IH [OF r(2,4) A(3) r(5) this, of ?cx] A(6-9) obtain m' D' where
    s: "rs_run (Suc k) scale0 F ?cx (m1, D1) = Some (m', D')" "rs_wf m'" "rs_size m' = rs_size m1" "rs_room B m'" "rs_data_ok Z G D' m'"
    "\<forall>q < rs_size m1. rs_state Z D' m' q = fold (rs_abs_step Z F) (drop (Suc (rx_i_next cx)) us) (rs_state Z D1 m1) q" by auto
  have "rs_run (Suc (Suc k)) scale0 F cx (m, D) = Some (m', D')"
    using r(1) s(1) A(6,8,9) unfolding rs_run.simps(2) [of "Suc k"] by (simp add: rs_ctx_next_def Let_def del: rs_run.simps)
  moreover have "fold (rs_abs_step Z F) (drop (Suc (rx_i_next cx)) us) (rs_state Z D1 m1) q =
      fold (rs_abs_step Z F) (drop (rx_i_next cx) us) (rs_state Z D m) q" if "q < rs_size m" for q
  proof -
    have "fold (rs_abs_step Z F) (drop (rx_i_next cx) us) (rs_state Z D m) = fold (rs_abs_step Z F) (drop (Suc (rx_i_next cx)) us) (rs_abs_step Z F ?u (rs_state Z D m))"
      by (simp flip: Cons_nth_drop_Suc [OF lt])
    moreover have "rs_state Z D1 m1 = rs_abs_step Z F ?u (rs_state Z D m)" by (rule rs_abs_step_ext [OF u(1) r(3,6)])
    ultimately show ?thesis by simp
  qed
  ultimately show ?case using s r(3) by auto
qed

section \<open>The micro-batches of a batch\<close>

text \<open>Every token has one sequence, known to the memory, and a position that can be stored.\<close>

definition rs_batch :: "nat \<Rightarrow> int \<Rightarrow> 'e allocr \<Rightarrow> bool" where
  "rs_batch sz B a \<longleftrightarrow> B + int (al_n_tokens a) \<le> int32_max \<and> al_n_tokens a \<le> length (al_pos a) \<and>
     (al_embd a \<noteq> None \<longrightarrow> 0 < al_n_pos_per_embd a) \<and>
     (\<forall>i < al_n_tokens a. 0 \<le> al_pos a ! i \<and> al_pos a ! i \<le> B \<and>
       (\<exists>q. take (nat (al_n_seq_id a ! i)) (al_seq_id a ! i) = [q] \<and> 0 \<le> q \<and> q < int sz \<and> al_seq_set a ! i = {nat q}))"

lemma concat_nth_const:
  "\<forall>row \<in> set per. length row = k \<Longrightarrow> s < length per \<Longrightarrow> t < k \<Longrightarrow> concat per ! (s * k + t) = per ! s ! t"
proof (induction per arbitrary: s)
  case (Cons row per)
  show ?case
  proof (cases s)
    case 0
    with Cons.prems show ?thesis by (simp add: nth_append)
  next
    case (Suc r)
    with Cons.prems Cons.IH [of r] show ?thesis by (simp add: nth_append)
  qed
qed simp

lemma equal_rows_ubatch_ok:
  assumes add: "ubatch_add (concat per) (length per) True a0 = Some (u, a')" and rows: "equal_rows a per" and b: "rs_batch sz B a"
    and fields: "al_n_tokens a0 = al_n_tokens a" "al_embd a0 = al_embd a" "al_n_pos_per_embd a0 = al_n_pos_per_embd a"
      "al_pos a0 = al_pos a" "al_n_seq_id a0 = al_n_seq_id a" "al_seq_id a0 = al_seq_id a"
  shows "rs_ubatch_ok sz u \<and> rs_fits B u"
proof -
  let ?c = "concat per" and ?n = "al_n_tokens a"
  from rows [unfolded equal_rows_def] have ne: "per \<noteq> []" and dist: "distinct ?c"
    and lt: "\<forall>i \<in> set ?c. i < ?n \<and> \<not> al_used a ! i" and kex: "\<exists>k > 0. \<forall>row \<in> set per. length row = k"
    and disj: "sorted_wrt (\<lambda>r r'. \<forall>i \<in> set r. \<forall>j \<in> set r'. al_seq_set a ! i \<inter> al_seq_set a ! j = {}) per"
    by - (elim conjE, assumption)+
  from kex obtain k where k: "0 < k" "\<forall>row \<in> set per. length row = k" by blast
  have len: "length ?c = k * length per" using length_concat_const [OF k(2)] .
  have "length ?c \<le> ?n"
  proof -
    have "card (set ?c) \<le> card {..<?n}" using lt by (intro card_mono) auto
    with distinct_card [OF dist] show ?thesis by simp
  qed
  let ?npc = "if al_embd a = None then 1 else al_n_pos_per_embd a"
  from add have u: "ub_equal_seqs u" "ub_n_seqs u = length per" "ub_n_seq_tokens u = k"
    "ub_n_seq_id u = map ((!) (al_n_seq_id a)) ?c" "ub_seq_id u = map ((!) (al_seq_id a)) ?c"
    "ub_pos u = concat (map (\<lambda>j. map (\<lambda>i. al_pos a ! (j * ?n + i)) ?c) [0..<?npc])"
    using ne by (auto simp: ubatch_add_def Let_def len fields split: Option.bind_splits)
  have "0 < ?npc" using b by (simp add: rs_batch_def)
  then obtain m where "?npc = Suc m" using gr0_implies_Suc by blast
  then have "[0..<?npc] = 0 # [1..<?npc]" by (simp add: upt_conv_Cons)
  then have pos: "ub_pos u ! x = al_pos a ! (?c ! x)" if "x < length ?c" for x using that u(6) by (simp add: nth_append)
  have ix: "s * k + t < length ?c" "?c ! (s * k + t) = per ! s ! t" "?c ! (s * k + t) < ?n" if "s < length per" "t < k" for s t
  proof -
    show 1: "s * k + t < length ?c" using row_lt [OF that] by (simp add: len mult.commute)
    show "?c ! (s * k + t) = per ! s ! t" by (rule concat_nth_const [OF k(2) that])
    show "?c ! (s * k + t) < ?n" using lt nth_mem [OF 1] by blast
  qed
  have one: "\<exists>q. set_ids u s = [q] \<and> 0 \<le> q \<and> q < int sz \<and> al_seq_set a ! (per ! s ! 0) = {nat q}" if s: "s < length per" for s
  proof -
    have "set_tok u s = s * k + 0" by (simp add: set_tok_def u)
    with ix [OF s k(1)] u(4,5) have "set_ids u s = take (nat (al_n_seq_id a ! (per ! s ! 0))) (al_seq_id a ! (per ! s ! 0))"
      by (simp add: set_ids_def)
    moreover have "per ! s ! 0 < ?n" using ix(2,3) [OF s k(1)] by simp
    ultimately show ?thesis using b unfolding rs_batch_def by auto
  qed
  have last: "set_last_pos u s = al_pos a ! (per ! s ! (k - 1))" "per ! s ! (k - 1) < ?n" if s: "s < length per" for s
  proof -
    have "k - 1 < k" using k(1) by simp
    note i = ix [OF s this]
    show "per ! s ! (k - 1) < ?n" using i(2,3) by metis
    have "set_last_pos u s = ub_pos u ! (s * k + (k - 1))" using k(1) by (simp add: set_last_pos_def set_tok_def u(3))
    also have "\<dots> = al_pos a ! (per ! s ! (k - 1))" using pos [OF i(1)] i(2) by metis
    finally show "set_last_pos u s = al_pos a ! (per ! s ! (k - 1))" .
  qed
  have "k \<le> ?n" using \<open>length ?c \<le> ?n\<close> len ne by (cases per) auto
  then have fits: "B + int k \<le> int32_max" using b by (simp add: rs_batch_def)
  have p: "0 \<le> set_last_pos u s \<and> set_last_pos u s \<le> B" if "s < length per" for s
    using last [OF that] b by (simp add: rs_batch_def)
  have dis: "set (set_ids u s) \<inter> set (set_ids u t) = {}" if st: "s < length per" "t < length per" "s < t" for s t
  proof -
    from one [OF st(1)] one [OF st(2)] obtain q r where q: "set_ids u s = [q]" "0 \<le> q" "al_seq_set a ! (per ! s ! 0) = {nat q}"
      and r: "set_ids u t = [r]" "0 \<le> r" "al_seq_set a ! (per ! t ! 0) = {nat r}" by blast
    have "per ! s ! 0 \<in> set (per ! s)" "per ! t ! 0 \<in> set (per ! t)" using k st by (metis nth_mem)+
    with disj st have "al_seq_set a ! (per ! s ! 0) \<inter> al_seq_set a ! (per ! t ! 0) = {}"
      unfolding sorted_wrt_iff_nth_less by blast
    with q r show ?thesis by auto
  qed
  have dis': "set (set_ids u s) \<inter> set (set_ids u t) = {}" if "s < length per" "t < length per" "s \<noteq> t" for s t
    using dis [of s t] dis [of t s] that by (cases "s < t") auto
  have "rs_ubatch_ok sz u"
    unfolding rs_ubatch_ok_def u(2,3)
  proof (intro conjI allI impI)
    fix s assume s: "s < length per"
    from one [OF s] show "set_ids u s \<noteq> []" "distinct (set_ids u s)" "\<forall>q \<in> set (set_ids u s). 0 \<le> q \<and> q < int sz" by auto
    show "0 \<le> set_last_pos u s" "set_last_pos u s < int32_max" using p [OF s] fits k(1) by simp_all
  qed (use u(1) ne k(1) dis' in auto)
  moreover have "rs_fits B u" using fits p by (simp add: rs_fits_def u)
  ultimately show ?thesis by blast
qed

lemma split_loop_all:
  assumes "split_loop fuel f a = Some (us, a')" "ok a"
    and "\<And>a u a'. ok a \<Longrightarrow> f a = Some (u, a') \<Longrightarrow> ub_n_tokens u \<noteq> 0 \<Longrightarrow> ok a' \<and> Q u"
  shows "\<forall>u \<in> set us. Q u"
  using assms(1,2)
proof (induction fuel arbitrary: a us)
  case (Suc fuel)
  from Suc.prems(1) obtain u a1 where u: "f a = Some (u, a1)" by (auto split: Option.bind_splits)
  show ?case
  proof (cases "ub_n_tokens u = 0")
    case True
    with u Suc.prems(1) show ?thesis by simp
  next
    case False
    with u Suc.prems(1) obtain us1 where "split_loop fuel f a1 = Some (us1, a')" "us = u # us1" by (auto split: Option.bind_splits)
    with Suc.IH assms(3) [OF Suc.prems(2) u False] show ?thesis by auto
  qed
qed simp

lemma split_equal_some:
  assumes ok: "equal_ok a" "\<not> al_has_cpl a" and eq: "split_equal n_ubatch True a = Some (u, a')" and u0: "ub_n_tokens u \<noteq> 0"
  shows "\<exists>per. equal_rows a per \<and>
    a' = a\<lparr>al_used := map (\<lambda>i. al_used a ! i \<or> i \<in> set (concat per)) [0..<al_n_tokens a],
      al_n_used := al_n_used a + length (concat per), al_out_ids := al_out_ids a @ filter (\<lambda>i. al_logits a ! i \<noteq> 0) (concat per)\<rparr> \<and>
    ubatch_add (concat per) (length per) True (split_reset a) = Some (u, (split_reset a)\<lparr>
      al_out_ids := filter (\<lambda>i. al_logits a ! i \<noteq> 0) (concat per)\<rparr>)"
proof -
  have more: "\<exists>i < al_n_tokens a. \<not> al_used a ! i"
  proof (rule ccontr)
    assume "\<not> ?thesis"
    then have "\<forall>i \<in> set [0..<al_n_tokens a]. al_used a ! i" by auto
    from select_sets_all_used [OF this] ok(2) eq have "u = ubatch_empty" by (auto simp: split_equal_def Let_def split: Option.bind_splits)
    with u0 show False by (simp add: ubatch_empty_def)
  qed
  from split_equal_spec [OF ok(1) _ more, of True n_ubatch] ok(2) eq show ?thesis by auto
qed

lemma rs_equal_split_ubatches:
  assumes "split_loop fuel (split_equal n_ubatch True) a = Some (us, a')" "equal_ok a" "\<not> al_has_cpl a" "rs_batch sz B a"
  shows "\<forall>u \<in> set us. rs_ubatch_ok sz u \<and> rs_fits B u"
proof (rule split_loop_all [OF assms(1), where ok = "\<lambda>a. equal_ok a \<and> \<not> al_has_cpl a \<and> rs_batch sz B a"])
  show "equal_ok a \<and> \<not> al_has_cpl a \<and> rs_batch sz B a" using assms by blast
next
  fix a u a' assume ok: "equal_ok a \<and> \<not> al_has_cpl a \<and> rs_batch sz B a" and eq: "split_equal n_ubatch True a = Some (u, a')"
    and u0: "ub_n_tokens u \<noteq> 0"
  from split_equal_some [of a n_ubatch u a'] ok eq u0 obtain per where rows: "equal_rows a per"
    and a': "a' = a\<lparr>al_used := map (\<lambda>i. al_used a ! i \<or> i \<in> set (concat per)) [0..<al_n_tokens a],
      al_n_used := al_n_used a + length (concat per), al_out_ids := al_out_ids a @ filter (\<lambda>i. al_logits a ! i \<noteq> 0) (concat per)\<rparr>"
    and add: "ubatch_add (concat per) (length per) True (split_reset a) = Some (u, (split_reset a)\<lparr>
      al_out_ids := filter (\<lambda>i. al_logits a ! i \<noteq> 0) (concat per)\<rparr>)" by blast
  have "rs_ubatch_ok sz u \<and> rs_fits B u"
    by (rule equal_rows_ubatch_ok [OF add rows]) (use ok in \<open>simp_all add: split_reset_def\<close>)
  moreover have "equal_ok a'" unfolding a' by (rule equal_rows_ok) (use ok rows in auto)
  moreover have "rs_batch sz B a'" "\<not> al_has_cpl a'" using ok unfolding a' by (simp_all add: rs_batch_def)
  ultimately show "(equal_ok a' \<and> \<not> al_has_cpl a' \<and> rs_batch sz B a') \<and> (rs_ubatch_ok sz u \<and> rs_fits B u)" by blast
qed

lemma rs_init_batch_spec:
  assumes wf: "rs_wf m" and room: "rs_room B m" and a: "equal_ok (split_reset a)" "\<not> al_has_cpl a" "rs_batch (rs_size m) B a"
  shows "\<exists>us a' n z. rs_init_batch n_ubatch False a m = Some (rs_ctx_batch us, a', m\<lparr>rs_n := n, rs_z := z\<rparr>) \<and>
    (\<forall>u \<in> set us. rs_ubatch_ok (rs_size m) u \<and> rs_fits B u) \<and> sum_list (map ub_n_tokens us) = al_n_tokens a"
proof -
  let ?a = "split_reset a"
  have cpl: "\<not> al_has_cpl ?a" "rs_batch (rs_size m) B ?a" using a(2,3) by (simp_all add: split_reset_def rs_batch_def)
  have cnt: "unused_count ?a = al_n_tokens a" by (rule unused_count_reset)
  from equal_splitter.loop_uses_all [of ?a True "Suc (al_n_tokens ?a)" n_ubatch] a(1) cpl cnt obtain us a' where
    us: "split_loop (Suc (al_n_tokens ?a)) (split_equal n_ubatch True) ?a = Some (us, a')"
    "al_n_used a' = al_n_used ?a + unused_count ?a" "sum_list (map ub_n_tokens us) = unused_count ?a" "al_n_tokens a' = al_n_tokens ?a" by auto
  note ok = rs_equal_split_ubatches [OF us(1) a(1) cpl]
  from rs_prepare_spec [OF wf room ok] obtain n z where "rs_prepare us m = Some (True, m\<lparr>rs_n := n, rs_z := z\<rparr>)" by blast
  with us cnt ok show ?thesis by (auto simp: rs_init_batch_def Let_def simp del: split_loop.simps)
qed

lemma gen_pos_length: "gen_pos n_seq_max p0 toks = Some ps \<Longrightarrow> length ps = length toks"
  by (induction n_seq_max p0 toks arbitrary: ps rule: gen_pos.induct) (auto simp: Let_def split: Option.bind_splits)

lemma allocr_init_rs_batch:
  assumes init: "allocr_init n_pos b n_vocab mem n_embd n_seq_max output_all = Some (Inr a)"
    and mx: "0 < n_seq_max" "n_seq_max \<le> sz" and npos: "0 < n_pos" and cpl: "\<not> al_has_cpl a" and ne: "\<forall>i < al_n_tokens a. al_seq_set a ! i \<noteq> {}"
    and pos: "\<forall>i < al_n_tokens a. 0 \<le> al_pos a ! i \<and> al_pos a ! i \<le> B" "B + int (al_n_tokens a) \<le> int32_max"
  shows "rs_batch sz B a"
proof -
  from init obtain nsid sid ps lg where n: "0 < nat (b_n_tokens b)" and wf: "batch_wf n_pos b"
    and bad: "case b_seq_id b of None \<Rightarrow> True
      | Some sid \<Rightarrow> first_bad_seq (nat (b_n_tokens b)) n_seq_max (the (b_n_seq_id b)) sid = None"
    and gen: "gen_fields b (map_option snd mem) n_seq_max output_all = Some (nsid, sid, ps, lg)"
    and a: "a = split_reset (allocr_stats n_pos b n_embd n_seq_max (nsid, sid, ps, lg))"
    by (rule allocr_initE) (auto split: option.splits)
  let ?n = "nat (b_n_tokens b)"
  have F: "al_n_tokens a = ?n" "al_pos a = ps" "al_n_seq_id a = nsid" "al_seq_id a = sid" "al_embd a = b_embd b" "al_n_pos_per_embd a = n_pos"
    "\<And>i. i < ?n \<Longrightarrow> al_seq_set a ! i = set (token_seqs nsid sid i)"
    "al_has_cpl a = list_ex (\<lambda>i. length (token_seqs nsid sid i) > 1) [0..<?n]"
    unfolding a by (simp_all add: allocr_stats_def split_reset_def Let_def)
  have len: "?n \<le> length ps"
  proof (cases "b_pos b")
    case None
    have "length nsid = ?n \<and> length sid = ?n"
      using gen wf by (auto simp: gen_fields_def batch_wf_def Let_def split: Option.bind_splits option.splits)
    with None gen show ?thesis
      by (auto simp: gen_fields_def Let_def split: Option.bind_splits dest!: gen_pos_length)
  next
    case (Some p)
    with gen wf npos show ?thesis by (auto simp: gen_fields_def batch_wf_def Let_def split: Option.bind_splits)
  qed
  have tok: "\<exists>q. take (nat (nsid ! i)) (sid ! i) = [q] \<and> 0 \<le> q \<and> q < int sz \<and> al_seq_set a ! i = {nat q}" if i: "i < ?n" for i
  proof -
    from cpl i F(8) have "length (token_seqs nsid sid i) \<le> 1" by (auto simp: list_ex_iff not_less)
    moreover have "token_seqs nsid sid i \<noteq> []" using ne i F(1) F(7) [OF i] by auto
    ultimately obtain q where q: "take (nat (nsid ! i)) (sid ! i) = [q]"
      unfolding token_seqs_def by (cases "take (nat (nsid ! i)) (sid ! i)") auto
    have "nat q < n_seq_max" using token_seqs_bound [OF wf i mx(1) bad gen, of "nat q"] q by (simp add: token_seqs_def)
    moreover have "0 \<le> q"
    proof (cases "b_seq_id b")
      case None
      with gen have "sid = replicate ?n [0]" by (auto simp: gen_fields_def Let_def split: Option.bind_splits)
      with q i show ?thesis by (cases "nat (nsid ! i)") auto
    next
      case (Some sd)
      with gen wf have eq: "sid = sd" "Some nsid = b_n_seq_id b"
        by (auto simp: gen_fields_def batch_wf_def Let_def split: Option.bind_splits option.splits)
      from eq(2) have "the (b_n_seq_id b) = nsid" by (metis option.sel)
      with bad Some i eq(1) have "\<not> list_ex (\<lambda>s. s < 0 \<or> s \<ge> int n_seq_max) (take (nat (nsid ! i)) (sid ! i))"
        by (auto simp: first_bad_seq_def find_None_iff)
      with q show ?thesis by simp
    qed
    ultimately have "q < int sz" using mx(2) by auto
    with q \<open>0 \<le> q\<close> F(7) [OF i] show ?thesis by (auto simp: token_seqs_def)
  qed
  show ?thesis unfolding rs_batch_def F(1-6) using pos len tok npos unfolding F(1,2) by auto
qed

section \<open>Reachable memories\<close>

lemma rs_move_pos_wf:
  assumes wf: "rs_wf m" and m': "rs_move_pos q p0 p1 f m = Some m'"
    and ok: "\<forall>i < rs_size m'. rc_seq (rs_cells m' ! i) \<noteq> {} \<longrightarrow> 0 \<le> rc_pos (rs_cells m' ! i) \<and> rc_pos (rs_cells m' ! i) < int32_max"
  shows "rs_wf m'"
proof (cases "m' = m")
  case False
  with m' obtain t p where t: "0 \<le> t" "rs_at m t \<noteq> None" "q \<in> rc_seq (the (rs_at m t))" "m' = rs_put (nat t) (\<lambda>c. c\<lparr>rc_pos := p\<rparr>) m"
    by (auto simp: rs_move_pos_def Let_def split: if_splits Option.bind_splits)
  note W = rs_wfD [OF wf]
  have lt: "nat t < rs_size m" "q \<in> rc_seq (rs_cells m ! nat t)" using t W(1) by (auto simp: rs_at_def split: if_splits)
  have occ: "rs_occupied m' = rs_occupied m" unfolding t(4) using W(1) by (auto simp: rs_occupied_def split: if_splits)
  have C: "rc_seq (rs_cells m' ! i) = rc_seq (rs_cells m ! i)" "rc_tail (rs_cells m' ! i) = rc_tail (rs_cells m ! i)"
    "rc_src (rs_cells m' ! i) = rc_src (rs_cells m ! i)" "i \<noteq> nat t \<Longrightarrow> rc_pos (rs_cells m' ! i) = rc_pos (rs_cells m ! i)" if "i < rs_size m" for i
    using that W(1) by (simp_all add: t(4))
  have fr: "rs_size m' = rs_size m" "length (rs_cells m') = rs_size m" "rs_head m' = rs_head m" "rs_used m' = rs_used m"
    using W(1) by (simp_all add: t(4))
  show ?thesis
    unfolding rs_wf_def fr occ
  proof (intro conjI allI impI ballI)
    fix i assume i: "i < rs_size m"
    show "if rc_seq (rs_cells m' ! i) = {} then rc_pos (rs_cells m' ! i) = - 1
       else 0 \<le> rc_pos (rs_cells m' ! i) \<and> rc_pos (rs_cells m' ! i) < int32_max"
      using ok i fr(1) C [OF i] W(9) [OF i] lt(2) by (cases "i = nat t") auto
    show "0 \<le> x" "x < int (rs_size m)" if "x \<in> rc_seq (rs_cells m' ! i)" for x using W(5) [OF i] C(1) [OF i] that by auto
    show "int x \<in> rc_seq (rs_cells m' ! i) \<longleftrightarrow> rc_tail (rs_cells m' ! x) = int i" if "x < rs_size m" for x
      using W(6) [OF i that] C(1) [OF i] C(2) [OF that] by simp
    show "- 1 \<le> rc_tail (rs_cells m' ! i)" "rc_tail (rs_cells m' ! i) < int (rs_size m)" using W(7) [OF i] C(2) [OF i] by simp_all
    show "rc_src (rs_cells m' ! i) = - 1 \<or> rc_src (rs_cells m' ! i) = int i" using W(8) [OF i] C(3) [OF i] by simp
  qed (use W(2-4,11) in simp_all)
qed (use wf in simp)

text \<open>
  What the callers can do to the memory: every public operation with any arguments, in any order, as long
  as it does not abort; the micro-batches are those of \<open>U\<close>. The flag says whether they kept to the
  conventions of the memory since it was last cleared:
  a removal with a negative id left the memory as it was (on a memory with states it leaves the tails dangling),
  \<^verbatim>\<open>seq_add\<close> and \<^verbatim>\<open>seq_div\<close> moved positions to valid ones, and the micro-batches that were prepared or placed had
  known sequences and positions that can be stored.
\<close>

definition rs_positions_ok :: "rs_memory \<Rightarrow> bool" where
  "rs_positions_ok m \<longleftrightarrow> (\<forall>i < rs_size m. rc_seq (rs_cells m ! i) \<noteq> {} \<longrightarrow> 0 \<le> rc_pos (rs_cells m ! i) \<and> rc_pos (rs_cells m ! i) < int32_max)"

definition rs_ready :: "nat \<Rightarrow> 'e llama_ubatch list \<Rightarrow> rs_memory \<Rightarrow> bool" where
  "rs_ready sz us m \<longleftrightarrow> (\<exists>B. rs_room B m \<and> (\<forall>u \<in> set us. rs_ubatch_ok sz u \<and> rs_fits B u))"

inductive rs_reach :: "'e llama_ubatch set \<Rightarrow> nat \<Rightarrow> bool \<Rightarrow> rs_memory \<Rightarrow> bool" for U sz where
  reach_new: "0 < sz \<Longrightarrow> sz \<le> 2147483647 \<Longrightarrow> rs_reach U sz True (rs_new sz)"
| reach_clear: "rs_reach U sz tidy m \<Longrightarrow> rs_reach U sz True (rs_clear m)"
| reach_rm: "rs_reach U sz tidy m \<Longrightarrow> rs_seq_rm q p0 p1 m = Some (ok, m') \<Longrightarrow> rs_reach U sz (tidy \<and> (0 \<le> q \<or> m' = m)) m'"
| reach_cp: "rs_reach U sz tidy m \<Longrightarrow> rs_seq_cp src dst p0 p1 m = Some m' \<Longrightarrow> rs_reach U sz tidy m'"
| reach_keep: "rs_reach U sz tidy m \<Longrightarrow> rs_reach U sz tidy (rs_seq_keep q m)"
| reach_add: "rs_reach U sz tidy m \<Longrightarrow> rs_seq_add q p0 p1 d m = Some m' \<Longrightarrow> rs_reach U sz (tidy \<and> rs_positions_ok m') m'"
| reach_div: "rs_reach U sz tidy m \<Longrightarrow> rs_seq_div q p0 p1 d m = Some m' \<Longrightarrow> rs_reach U sz (tidy \<and> rs_positions_ok m') m'"
| reach_prepare: "rs_reach U sz tidy m \<Longrightarrow> set us \<subseteq> U \<Longrightarrow> rs_prepare us m = Some (ok, m') \<Longrightarrow>
    rs_reach U sz (tidy \<and> rs_ready sz us m) m'"
| reach_apply: "rs_reach U sz tidy m \<Longrightarrow> set (rx_ubatches cx) \<subseteq> U \<Longrightarrow> rs_ctx_apply cx m = Some (ok, m') \<Longrightarrow>
    rs_reach U sz (tidy \<and> rs_ready sz (rx_ubatches cx) m) m'"

lemma rs_wf_counters: "rs_wf m \<Longrightarrow> rs_wf (m\<lparr>rs_n := n, rs_z := z\<rparr>)"
  unfolding rs_wf_def by (simp add: rs_occupied_def)

lemma rs_seq_rm_wf:
  assumes wf: "rs_wf m" and q: "0 \<le> q" and m': "rs_seq_rm q p0 p1 m = Some (ok, m')"
  shows "rs_wf m' \<and> rs_size m' = rs_size m"
proof (cases "q < int (rs_size m)")
  case False
  with m' have "m' = m" by (simp add: rs_seq_rm_def)
  with wf show ?thesis by simp
next
  case True
  with q have n: "nat q < rs_size m" "int (nat q) = q" by auto
  note spec = rs_seq_rm_spec [OF wf n(1), of p0 p1, unfolded n(2)]
  show ?thesis
  proof (cases "rs_rm_refused (nat q) (rs_p0 p0) (rs_p1 p1) m")
    case True
    with spec m' have "m' = m" by simp
    with wf show ?thesis by simp
  next
    case False
    with spec m' obtain Q where "rs_dropped Q m m'" by auto
    then show ?thesis using rs_droppedD(1,2) by blast
  qed
qed

lemma rs_seq_cp_wf:
  assumes "rs_wf m" "rs_seq_cp src dst p0 p1 m = Some m'"
  shows "rs_wf m' \<and> rs_size m' = rs_size m"
proof (cases "src \<noteq> dst \<and> 0 \<le> src \<and> 0 \<le> dst \<and> src < int (rs_size m) \<and> dst < int (rs_size m)")
  case True
  then have "nat src < rs_size m" "nat dst < rs_size m" "nat src \<noteq> nat dst" "int (nat src) = src" "int (nat dst) = dst" by auto
  with rs_seq_cp_spec [OF assms(1), of "nat src" "nat dst" p0 p1] assms(2) show ?thesis by auto
next
  case False
  then have "rs_seq_cp src dst p0 p1 m = Some m" unfolding rs_seq_cp_def by (simp del: bind.simps) auto
  with assms show ?thesis by simp
qed

lemma rs_move_pos_size: "rs_move_pos q p0 p1 f m = Some m' \<Longrightarrow> rs_size m' = rs_size m"
  by (auto simp: rs_move_pos_def Let_def split: if_splits Option.bind_splits)

lemma rs_ctx_apply_cases:
  assumes "rs_ctx_apply cx m = Some (ok, m')"
  obtains "m' = m" | ok' u where "u \<in> set (rx_ubatches cx)" "rs_find_slot u m = Some (ok', m')"
proof (cases "rx_ubatches cx = []")
  case True
  with assms that show ?thesis by (auto simp: rs_ctx_apply_def guard_def split: if_splits Option.bind_splits)
next
  case False
  with assms have "rx_i_next cx < length (rx_ubatches cx)" by (auto simp: rs_ctx_apply_def guard_def split: if_splits Option.bind_splits)
  then have "rx_ubatches cx ! rx_i_next cx \<in> set (rx_ubatches cx)" by simp
  moreover from False assms obtain ok' where "rs_find_slot (rx_ubatches cx ! rx_i_next cx) m = Some (ok', m')"
    by (auto simp: rs_ctx_apply_def guard_def split: if_splits Option.bind_splits)
  ultimately show ?thesis by (rule that(2))
qed

text \<open>The number of cells stays, whatever the flag.\<close>

lemma rs_reach_shape: "rs_reach U sz tidy m \<Longrightarrow> rs_shape sz m \<and> 0 < sz \<and> sz \<le> 2147483647"
proof (induction rule: rs_reach.induct)
  case reach_new
  then show ?case by (simp add: rs_shape_def rs_new_def)
next
  case (reach_clear tidy m)
  then show ?case using rs_shape_clear_wf by blast
next
  case (reach_rm tidy m q p0 p1 ok m')
  then show ?case using rs_shape_rm by blast
next
  case (reach_cp tidy m src dst p0 p1 m')
  then show ?case using rs_shape_cp by blast
next
  case (reach_keep tidy m q)
  then show ?case using rs_shape_keep by blast
next
  case (reach_add tidy m q p0 p1 d m')
  then show ?case using rs_shape_move by (auto simp: rs_seq_add_def split: if_splits)
next
  case (reach_div tidy m q p0 p1 d m')
  then show ?case using rs_shape_move by (auto simp: rs_seq_div_def split: if_splits)
next
  case (reach_prepare tidy m us ok m')
  then show ?case using rs_shape_prepare by blast
next
  case (reach_apply tidy m cx ok m')
  from reach_apply.hyps(3) show ?case
    by (rule rs_ctx_apply_cases) (use reach_apply.IH rs_shape_find_slot in blast)+
qed

lemma rs_reach_inv: "rs_reach U sz tidy m \<Longrightarrow> tidy \<Longrightarrow> rs_wf m \<and> rs_size m = sz"
proof (induction rule: rs_reach.induct)
  case reach_new
  then show ?case by (simp add: rs_new_wf) (simp add: rs_new_def)
next
  case (reach_clear tidy m)
  then show ?case using rs_reach_shape [OF reach_clear.hyps] rs_shape_clear_wf [of sz m] by (auto simp: rs_shape_def)
next
  case (reach_rm tidy m q p0 p1 ok m')
  then show ?case using rs_seq_rm_wf [of m q p0 p1 ok m'] by (cases "0 \<le> q") auto
next
  case (reach_cp tidy m src dst p0 p1 m')
  then show ?case using rs_seq_cp_wf by metis
next
  case (reach_keep tidy m q)
  then show ?case using rs_seq_keep_any [of m q] rs_droppedD(1,2) by metis
next
  case (reach_add tidy m q p0 p1 d m')
  then show ?case using rs_move_pos_wf rs_move_pos_size by (auto simp: rs_seq_add_def rs_positions_ok_def split: if_splits)
next
  case (reach_div tidy m q p0 p1 d m')
  then show ?case using rs_move_pos_wf rs_move_pos_size by (auto simp: rs_seq_div_def rs_positions_ok_def split: if_splits)
next
  case (reach_prepare tidy m us ok m')
  then obtain B where "rs_wf m" "rs_size m = sz" "rs_room B m" "\<forall>u \<in> set us. rs_ubatch_ok sz u \<and> rs_fits B u"
    by (auto simp: rs_ready_def)
  with rs_prepare_spec [of m B us] reach_prepare.hyps(3) show ?case by (auto simp: rs_wf_counters)
next
  case (reach_apply tidy m cx ok m')
  then obtain B where B: "rs_wf m" "rs_size m = sz" "rs_room B m" "\<forall>u \<in> set (rx_ubatches cx). rs_ubatch_ok sz u \<and> rs_fits B u"
    by (auto simp: rs_ready_def)
  from reach_apply.hyps(3) show ?case
  proof (rule rs_ctx_apply_cases)
    fix ok' u assume u: "u \<in> set (rx_ubatches cx)" "rs_find_slot u m = Some (ok', m')"
    with B rs_find_slot_spec [of m u B] show ?thesis by fastforce
  qed (use B in simp)
qed

section \<open>Properties\<close>

lemma rs_run_all:
  assumes "rs_wf m" "rs_room B m" "rs_numeric Z G scale0 F" "rs_data_ok Z G D m"
    and us: "\<forall>u \<in> set us. rs_ubatch_ok (rs_size m) u \<and> rs_fits B u" "us \<noteq> []"
  shows "\<exists>m' D'. rs_run (length us) scale0 F (rs_ctx_batch us) (m, D) = Some (m', D') \<and> rs_wf m' \<and>
    (\<forall>q < rs_size m. rs_state Z D' m' q = fold (rs_abs_step Z F) us (rs_state Z D m) q)"
proof -
  obtain k where k: "length us = Suc k" using us(2) by (cases us) auto
  from rs_run_spec [OF assms(1-4) us(1), of "rs_ctx_batch us" k] k show ?thesis
    by (auto simp: rs_ctx_batch_def rs_ctx_error_def simp del: rs_run.simps)
qed

lemma rs_wf_state: "rs_state Z D (m\<lparr>rs_n := n, rs_z := z\<rparr>) = rs_state Z D m"
  by (simp add: rs_state_def fun_eq_iff)

text \<open>C4: A batch that the allocator accepts, whose tokens have one sequence each, is decoded by the
  recurrent memory: it is split, placed and computed without an abort, and at the end every sequence
  has the state that its tokens make of the state it had before, micro-batch by micro-batch.\<close>
theorem recurrent_decode:
  assumes init: "allocr_init n_pos b n_vocab mem n_embd n_seq_max output_all = Some (Inr a)"
    and single: "\<not> al_has_cpl a" "\<forall>i < al_n_tokens a. al_seq_set a ! i \<noteq> {}"
    and sizes: "0 < n_seq_max" "n_seq_max \<le> rs_size m" "0 < n_pos"
    and pos: "\<forall>i < al_n_tokens a. 0 \<le> al_pos a ! i \<and> al_pos a ! i \<le> B" "B + int (al_n_tokens a) \<le> int32_max"
    and memory: "rs_wf m" "rs_room B m" "rs_numeric Z G scale0 F" "rs_data_ok Z G D m"
  shows "\<exists>us a' n z m' D'. rs_init_batch n_ubatch False a m = Some (rs_ctx_batch us, a', m\<lparr>rs_n := n, rs_z := z\<rparr>) \<and>
    sum_list (map ub_n_tokens us) = al_n_tokens a \<and>
    rs_run (length us) scale0 F (rs_ctx_batch us) (m\<lparr>rs_n := n, rs_z := z\<rparr>, D) = Some (m', D') \<and> rs_wf m' \<and>
    (\<forall>q < rs_size m. rs_state Z D' m' q = fold (rs_abs_step Z F) us (rs_state Z D m) q)"
proof -
  note acc = allocr_init_accepts [OF init]
  have ok: "equal_ok (split_reset a)" using acc allocr_init_equal_ok [OF init single(2)] by simp
  from rs_init_batch_spec [OF memory(1,2) ok single(1) allocr_init_rs_batch [OF init sizes single pos], of n_ubatch]
  obtain us a' n z where us: "rs_init_batch n_ubatch False a m = Some (rs_ctx_batch us, a', m\<lparr>rs_n := n, rs_z := z\<rparr>)"
    "\<forall>u \<in> set us. rs_ubatch_ok (rs_size m) u \<and> rs_fits B u" "sum_list (map ub_n_tokens us) = al_n_tokens a" by blast
  let ?m = "m\<lparr>rs_n := n, rs_z := z\<rparr>"
  have "us \<noteq> []" using us(3) acc by auto
  moreover have "rs_room B ?m" "rs_data_ok Z G D ?m" "rs_size ?m = rs_size m"
    using memory(2,4) by (simp_all add: rs_room_def rs_data_ok_def rs_clean_def)
  ultimately obtain m' D' where "rs_run (length us) scale0 F (rs_ctx_batch us) (?m, D) = Some (m', D')" "rs_wf m'"
    "\<forall>q < rs_size m. rs_state Z D' m' q = fold (rs_abs_step Z F) us (rs_state Z D m) q"
    using rs_run_all [OF rs_wf_counters [OF memory(1), of z n], of B Z G scale0 F D us] memory(3) us(2) by (auto simp: rs_wf_state)
  with us show ?thesis by blast
qed

text \<open>One sequence of two tokens in a memory of one cell; the layer adds one to the state.\<close>

theorem recurrent_decode_witness:
  "\<exists>a us a' n z m' D'. allocr_init 1 demo_batch 10 None 1 1 False = Some (Inr a) \<and>
    rs_init_batch 2 False a (rs_new 1) = Some (rs_ctx_batch us, a', (rs_new 1)\<lparr>rs_n := n, rs_z := z\<rparr>) \<and>
    rs_run (length us) (\<lambda>v. 0 * v) (\<lambda>u s v. v + 1) (rs_ctx_batch us) ((rs_new 1)\<lparr>rs_n := n, rs_z := z\<rparr>, \<lambda>_. 5) = Some (m', D') \<and>
    rs_state (0 :: int) D' m' 0 = fold (rs_abs_step 0 (\<lambda>u s v. v + 1)) us (\<lambda>_. None) 0"
proof -
  from demo_init obtain a where a: "allocr_init 1 demo_batch 10 None 1 1 False = Some (Inr a)" "al_n_tokens a = 2"
    "al_seq_set a = [{0}, {0}]" "\<not> al_has_cpl a" "al_pos a = [0, 1]" by blast
  have new: "rs_wf (rs_new 1)" "rs_room 1 (rs_new 1)" by (simp add: rs_new_wf) (simp add: rs_room_def rs_new_def rs_cell_new_def)
  have num: "rs_numeric (0 :: int) (\<lambda>_. True) (\<lambda>v. 0 * v) (\<lambda>u s v. v + 1)" "rs_data_ok (0 :: int) (\<lambda>_. True) (\<lambda>_. 5) (rs_new 1)"
    by (simp_all add: rs_numeric_def rs_data_ok_def rs_clean_def rs_new_def rs_cell_new_def rs_value_def)
  have st: "rs_state (0 :: int) (\<lambda>_. 5) (rs_new 1) = (\<lambda>_. None)" by (auto simp: rs_state_def rs_new_def rs_cell_new_def fun_eq_iff nth_Cons')
  have "\<forall>i < al_n_tokens a. al_seq_set a ! i \<noteq> {}" "\<forall>i < al_n_tokens a. 0 \<le> al_pos a ! i \<and> al_pos a ! i \<le> 1"
    using a(2,3,5) by (auto simp: less_Suc_eq numeral_2_eq_2)
  note pos = this
  have sizes: "(0 :: nat) < 1" "1 \<le> rs_size (rs_new 1)" "1 + int (al_n_tokens a) \<le> int32_max" "0 < rs_size (rs_new 1)"
    using a(2) by (simp_all add: rs_new_def int32_max_def)
  from recurrent_decode [OF a(1,4) pos(1) sizes(1,2,1) pos(2) sizes(3) new num, of 2] obtain us a' n z m' D' where
    "rs_init_batch 2 False a (rs_new 1) = Some (rs_ctx_batch us, a', (rs_new 1)\<lparr>rs_n := n, rs_z := z\<rparr>)"
    "rs_run (length us) (\<lambda>v. 0 * v) (\<lambda>u s v. v + 1) (rs_ctx_batch us) ((rs_new 1)\<lparr>rs_n := n, rs_z := z\<rparr>, \<lambda>_. 5) = Some (m', D')"
    "\<forall>q < rs_size (rs_new 1). rs_state (0 :: int) D' m' q = fold (rs_abs_step 0 (\<lambda>u s v. v + 1)) us (rs_state 0 (\<lambda>_. 5) (rs_new 1)) q" by blast
  with a(1) sizes(4) st show ?thesis by metis
qed

definition demo_rs_ub :: "int \<Rightarrow> unit llama_ubatch" where
  "demo_rs_ub q = ubatch_empty\<lparr>ub_equal_seqs := True, ub_n_tokens := 1, ub_n_seq_tokens := 1, ub_n_seqs := 1,
     ub_pos := [0], ub_n_seq_id := [1], ub_seq_id := [[q]]\<rparr>"

lemma demo_rs_ub_ok: "0 \<le> q \<Longrightarrow> q < int sz \<Longrightarrow> rs_ubatch_ok sz (demo_rs_ub q) \<and> rs_fits 0 (demo_rs_ub q)"
  by (simp add: rs_ubatch_ok_def rs_fits_def demo_rs_ub_def set_ids_def set_tok_def set_last_pos_def int32_max_def)

text \<open>The state of sequence 0 after one token at position 0, in a memory of two cells.\<close>

definition demo_rs :: rs_memory where
  "demo_rs = \<lparr>rs_head = 0, rs_size = 2, rs_used = 1, rs_n = 1, rs_z = 0, rs_cells =
     [\<lparr>rc_pos = 0, rc_src = 0, rc_src0 = 0, rc_tail = 0, rc_seq = {0}\<rparr>, rs_cell_new]\<rparr>"

lemma demo_rs_wf: "rs_wf demo_rs"
proof -
  have "rs_occupied demo_rs = {0}" by (auto simp: rs_occupied_def demo_rs_def rs_cell_new_def nth_Cons' split: if_splits)
  then show ?thesis by (auto simp: rs_wf_def demo_rs_def rs_cell_new_def int32_max_def less_Suc_eq numeral_2_eq_2 nth_Cons')
qed

lemma demo_rs_placed: "rs_ctx_apply (rs_ctx_batch [demo_rs_ub 0]) (rs_new 2) = Some (True, demo_rs)"
  by code_simp

lemma demo_rs_room: "rs_room 0 (rs_new 2)"
  by (auto simp: rs_room_def rs_new_def rs_cell_new_def)

lemma demo_rs_reach: "rs_reach {demo_rs_ub 0} 2 True demo_rs"
proof -
  have "rs_reach {demo_rs_ub 0} 2 True (rs_new 2)" by (rule rs_reach.intros) simp_all
  from rs_reach.reach_apply [OF this _ demo_rs_placed] have
    "rs_reach {demo_rs_ub 0} 2 (True \<and> rs_ready 2 [demo_rs_ub 0] (rs_new 2)) demo_rs"
    by (simp add: rs_ctx_batch_def)
  moreover have "rs_ready 2 [demo_rs_ub 0] (rs_new 2)"
    using demo_rs_room demo_rs_ub_ok [of 0 2] by (auto simp: rs_ready_def)
  ultimately show ?thesis by simp
qed



text \<open>C19: Placing a micro-batch of known sequences and storable positions, in a memory reached without breaking the
  conventions since it was last cleared (no state removed with a negative id, no position moved below zero), always
  succeeds: no assertion fails, the cells of the micro-batch form a block inside the memory, each of them holds the
  sequences and the last position of its set, and the memory is well-formed again.\<close>
theorem recurrent_find_slot:
  assumes "rs_reach U sz True m" "rs_room B m" "rs_ubatch_ok sz u" "rs_fits B u"
  shows "\<exists>m'. rs_find_slot u m = Some (True, m') \<and> rs_placed u m' \<and> rs_wf m' \<and> rs_room B m'"
proof -
  from rs_reach_inv [OF assms(1)] have wf: "rs_wf m" and sz: "rs_size m = sz" by simp_all
  from rs_find_slot_data [OF wf assms(3) [folded sz] assms(2,4), of "()" "\<lambda>_. ()"] show ?thesis
    by (auto simp: rs_clean_def rs_value_def)
qed

text \<open>Sequence 1 is placed in the memory that holds the state of sequence 0.\<close>

theorem recurrent_find_slot_witness:
  "\<exists>m'. rs_find_slot (demo_rs_ub 1) demo_rs = Some (True, m') \<and> rs_placed (demo_rs_ub 1) m' \<and> rs_wf m' \<and> rs_room 0 m'"
proof (rule recurrent_find_slot)
  show "rs_reach {demo_rs_ub 0} 2 True demo_rs" by (rule demo_rs_reach)
  show "rs_room 0 demo_rs" by (auto simp: rs_room_def demo_rs_def rs_cell_new_def nth_Cons')
  show "rs_ubatch_ok 2 (demo_rs_ub 1)" "rs_fits 0 (demo_rs_ub 1)" using demo_rs_ub_ok [of 1 2] by simp_all
qed

text \<open>C22: Removing a range of positions of one sequence: the removal is refused when the range cuts the
  sequence before its last position or after it; otherwise the whole state goes when the range contains the last
  position. Nothing else changes for any other sequence.\<close>
theorem recurrent_seq_rm:
  assumes "rs_wf m" "q < rs_size m"
  shows "\<exists>ok m'. rs_seq_rm (int q) p0 p1 m = Some (ok, m') \<and> rs_wf m' \<and>
    (ok \<longleftrightarrow> (case rs_state Z D m q of None \<Rightarrow> True
      | Some (p, v) \<Rightarrow> \<not> (0 < rs_p0 p0 \<and> rs_p0 p0 < p) \<and> \<not> (0 < rs_p1 p1 \<and> rs_p1 p1 \<le> p))) \<and>
    (\<forall>r. rs_state Z D m' r = (if r = q \<and> ok \<and> (\<exists>p v. rs_state Z D m q = Some (p, v) \<and> rs_p0 p0 \<le> p \<and> p < rs_p1 p1)
      then None else rs_state Z D m r))"
proof -
  note spec = rs_seq_rm_spec [OF assms, of p0 p1]
  have st: "rs_rm_refused q (rs_p0 p0) (rs_p1 p1) m \<longleftrightarrow> (\<exists>p v. rs_state Z D m q = Some (p, v) \<and>
      (0 < rs_p0 p0 \<and> rs_p0 p0 < p \<or> 0 < rs_p1 p1 \<and> rs_p1 p1 \<le> p))"
    "rs_rm_hit q (rs_p0 p0) (rs_p1 p1) m \<longleftrightarrow> (\<exists>p v. rs_state Z D m q = Some (p, v) \<and> rs_p0 p0 \<le> p \<and> p < rs_p1 p1)"
    using assms(2) by (simp_all add: rs_rm_refused_def rs_rm_hit_def rs_state_def Let_def)
  show ?thesis
  proof (cases "rs_rm_refused q (rs_p0 p0) (rs_p1 p1) m")
    case True
    with spec assms(1) st(1) show ?thesis by auto
  next
    case False
    with spec obtain m' where m': "rs_seq_rm (int q) p0 p1 m = Some (True, m')"
      "rs_dropped (if rs_rm_hit q (rs_p0 p0) (rs_p1 p1) m then {q} else {}) m m'" by auto
    have
      "rs_state Z D m' r = (if r = q \<and> rs_rm_hit q (rs_p0 p0) (rs_p1 p1) m then None else rs_state Z D m r)" for r
      by (simp add: rs_dropped_state [OF assms(1) m'(2)])
    with m' rs_droppedD(1) [OF m'(2)] False show ?thesis unfolding st by (cases "rs_state Z D m q") auto
  qed
qed

text \<open>Removing the positions of sequence 0 from 0 on drops its state.\<close>

theorem recurrent_seq_rm_witness:
  "\<exists>ok m'. rs_seq_rm 0 0 (- 1) demo_rs = Some (ok, m') \<and> ok \<and> rs_state (0 :: int) (\<lambda>_. 7) demo_rs 0 = Some (0, 7) \<and>
    rs_state (0 :: int) (\<lambda>_. 7) m' 0 = None"
proof -
  have "rs_state (0 :: int) (\<lambda>_. 7) demo_rs 0 = Some (0, 7)" "0 < rs_size demo_rs"
    by (simp_all add: rs_state_def demo_rs_def rs_value_def)
  with recurrent_seq_rm [OF demo_rs_wf, of 0 0 "- 1" "0 :: int" "\<lambda>_. 7"] show ?thesis
    by (auto simp: rs_p0_def rs_p1_def int32_max_def)
qed

text \<open>Copying a sequence makes the destination continue from the state of the source, whatever the
  destination held and whatever range of positions the caller names; no other sequence changes.\<close>
theorem recurrent_seq_cp:
  assumes "rs_wf m" "src < rs_size m" "dst < rs_size m" "src \<noteq> dst"
  shows "\<exists>m'. rs_seq_cp (int src) (int dst) p0 p1 m = Some m' \<and> rs_wf m' \<and>
    (\<forall>Z (D :: nat \<Rightarrow> 'v) q. rs_state Z D m' q = rs_state Z D m (if q = dst then src else q))"
  using rs_seq_cp_spec [OF assms] by blast

theorem recurrent_seq_cp_witness:
  "\<exists>m'. rs_seq_cp 0 1 5 9 demo_rs = Some m' \<and> rs_state (0 :: int) (\<lambda>_. 7) m' 1 = Some (0, 7)"
proof -
  have "rs_state (0 :: int) (\<lambda>_. 7) demo_rs 0 = Some (0, 7)" "0 < rs_size demo_rs" "1 < rs_size demo_rs"
    by (simp_all add: rs_state_def demo_rs_def rs_value_def)
  with recurrent_seq_cp [where 'v = int, OF demo_rs_wf, of 0 1 5 9] show ?thesis by auto
qed

section \<open>Removing every sequence at once\<close>

text \<open>With a negative sequence id the cells are freed, but the tails still point to them.\<close>

lemma rs_rm_all_step:
  assumes "rs_wf m" "r < 0" "i < rs_size m"
    and "rs_size m1 = rs_size m \<and> length (rs_cells m1) = rs_size m \<and> (\<forall>j < rs_size m. rc_tail (rs_cells m1 ! j) = rc_tail (rs_cells m ! j)) \<and>
      (\<forall>j < i. rc_seq (rs_cells m1 ! j) = {}) \<and> (\<forall>j < rs_size m. i \<le> j \<longrightarrow> rs_cells m1 ! j = rs_cells m ! j)"
    and "rs_rm_cell r 0 int32_max i (m1, h) = (m2, h2)"
  shows "rs_size m2 = rs_size m \<and> length (rs_cells m2) = rs_size m \<and> (\<forall>j < rs_size m. rc_tail (rs_cells m2 ! j) = rc_tail (rs_cells m ! j)) \<and>
      (\<forall>j < Suc i. rc_seq (rs_cells m2 ! j) = {}) \<and> (\<forall>j < rs_size m. Suc i \<le> j \<longrightarrow> rs_cells m2 ! j = rs_cells m ! j)"
  using assms(2-) rs_wfD(9,10) [OF assms(1,3)] by (cases "rc_seq (rs_cells m ! i) = {}") (auto simp: rs_rm_cell_def Let_def less_Suc_eq)

lemma rs_rm_all:
  assumes wf: "rs_wf m" and r: "r < 0" "rs_p0 p0 = 0" "rs_p1 p1 = int32_max"
  shows "\<exists>m'. rs_seq_rm r p0 p1 m = Some (True, m') \<and> rs_size m' = rs_size m \<and> length (rs_cells m') = rs_size m \<and>
    (\<forall>j < rs_size m. rc_seq (rs_cells m' ! j) = {} \<and> rc_tail (rs_cells m' ! j) = rc_tail (rs_cells m ! j))"
proof -
  let ?P = "\<lambda>i s. rs_size (fst s) = rs_size m \<and> length (rs_cells (fst s)) = rs_size m \<and>
      (\<forall>j < rs_size m. rc_tail (rs_cells (fst s) ! j) = rc_tail (rs_cells m ! j)) \<and>
      (\<forall>j < i. rc_seq (rs_cells (fst s) ! j) = {}) \<and> (\<forall>j < rs_size m. i \<le> j \<longrightarrow> rs_cells (fst s) ! j = rs_cells m ! j)"
  obtain m' h where f: "fold (rs_rm_cell r 0 int32_max) [0..<rs_size m] (m, rs_size m) = (m', h)" by fastforce
  have "?P (rs_size m) (fold (rs_rm_cell r 0 int32_max) [0..<rs_size m] (m, rs_size m))"
  proof (rule fold_upt_inv [where P = ?P])
    show "?P 0 (m, rs_size m)" using rs_wfD(1) [OF wf] by simp
    show "?P (Suc i) (rs_rm_cell r 0 int32_max i s)" if "i < rs_size m" "?P i s" for i s
    proof -
      obtain m1 h1 where s: "s = (m1, h1)" by fastforce
      obtain m2 h2 where e: "rs_rm_cell r 0 int32_max i (m1, h1) = (m2, h2)" by fastforce
      from rs_rm_all_step [OF wf r(1) that(1) _ e] that(2) show ?thesis unfolding s e by simp
    qed
  qed
  with f have "rs_size m' = rs_size m \<and> length (rs_cells m') = rs_size m \<and>
    (\<forall>j < rs_size m. rc_seq (rs_cells m' ! j) = {} \<and> rc_tail (rs_cells m' ! j) = rc_tail (rs_cells m ! j))" by simp
  moreover have "rs_seq_rm r p0 p1 m = Some (True, rs_lower_head (m', h))" using r f by (simp add: rs_seq_rm_def rs_rm_check_def)
  ultimately show ?thesis by (simp add: rs_lower_head_def)
qed

text \<open>C23: Removing all sequences with a negative id reports success, but the next micro-batch of a sequence
  that had a state aborts: its tail still names a cell that no longer belongs to it.\<close>
theorem recurrent_rm_all_dangling:
  assumes wf: "rs_wf m" and r: "r < 0" "rs_p0 p0 = 0" "rs_p1 p1 = int32_max"
    and q: "rs_state Z D m q \<noteq> None" and u: "ub_equal_seqs u" "ub_n_seqs u = 1" "set_ids u 0 = [int q]"
  shows "\<exists>m'. rs_seq_rm r p0 p1 m = Some (True, m') \<and> rs_find_slot u m' = None"
proof -
  from rs_rm_all [OF wf r] obtain m' where m': "rs_seq_rm r p0 p1 m = Some (True, m')" "rs_size m' = rs_size m" "length (rs_cells m') = rs_size m"
    "\<forall>j < rs_size m. rc_seq (rs_cells m' ! j) = {} \<and> rc_tail (rs_cells m' ! j) = rc_tail (rs_cells m ! j)" by blast
  from q have t: "q < rs_size m" "0 \<le> rc_tail (rs_cells m ! q)" by (auto simp: rs_state_def split: if_splits)
  note lt = rs_wf_tail(1) [OF wf t]
  define m1 where "m1 = (if rs_head m' > rs_used m' + 2 * ub_n_seqs u then m'\<lparr>rs_head := 0\<rparr> else m')"
  have m1: "rs_cells m1 = rs_cells m'" "rs_size m1 = rs_size m'" by (simp_all add: m1_def)
  have "set_first u 0 = int q" using conjunct1 [OF set_ids_first, of u 0] unfolding u(3) by simp
  moreover have "rs_owns q m1 = None" unfolding rs_owns_def m1 using t lt m'(3,4) by (simp add: m1 rs_at_def Let_def)
  ultimately have "rs_claim_step u 0 (m1, nx, mn, mx) = None" for nx mn mx
    using t(1) m'(3) by (simp add: rs_claim_step_def rs_at_def m1)
  then have "rs_claim u m1 = None" using u(2) by (simp add: rs_claim_def)
  moreover have "rs_share (map (set_ids u) [0..<ub_n_seqs u]) m1 = Some (True, m1)"
    unfolding u(2,3) using t(1) by (simp add: u(3) m1(2) m'(2))
  ultimately have "rs_find_slot u m' = None" unfolding rs_find_slot_def m1_def [symmetric] Let_def using u(1) by simp
  with m'(1) show ?thesis by blast
qed

theorem recurrent_rm_all_dangling_witness:
  "\<exists>m'. rs_seq_rm (- 1) (- 1) (- 1) demo_rs = Some (True, m') \<and> rs_find_slot (demo_rs_ub 0) m' = None"
proof -
  have "rs_state (0 :: int) (\<lambda>_. 7) demo_rs 0 \<noteq> None" by (simp add: rs_state_def demo_rs_def)
  moreover have "ub_equal_seqs (demo_rs_ub 0)" "ub_n_seqs (demo_rs_ub 0) = 1" "set_ids (demo_rs_ub 0) 0 = [int 0]"
    by (simp_all add: demo_rs_ub_def set_ids_def set_tok_def)
  ultimately show ?thesis by (intro recurrent_rm_all_dangling [OF demo_rs_wf]) (simp_all add: rs_p0_def rs_p1_def)
qed

end
