(* ===== verification/MemPair.thy ===== *)
theory MemPair
  imports KvRun KvState RecurrentRun
begin

text \<open>
  Memories made of two: \<^verbatim>\<open>llama_kv_cache_iswa\<close> keeps one cache for the layers with a sliding window and
  one for the others (\<^verbatim>\<open>src/src/llama-kv-cache-iswa.cpp\<close>), \<^verbatim>\<open>llama_memory_hybrid\<close> a cache for the
  attention layers and a recurrent memory (\<^verbatim>\<open>src/src/llama-memory-hybrid.cpp\<close>).  Here are their operations on
  sequences.

  The locale \<open>seq_memory\<close> is what the two rely on: the part of the interface \<^verbatim>\<open>llama_memory_i\<close> that
  changes which positions of which sequence a memory holds.  The cache and the recurrent memory
  interpret it.  \<open>memory_pair\<close> proves once what holds of any two memories of which the second holds
  no more than the first.
\<close>

section \<open>The two memories\<close>

record 'd iswa_cache =
  iw_base :: "'d kv_cache"
  iw_swa :: "'d kv_cache"
  iw_unified :: bool

record 'd hybrid_memory =
  hy_attn :: "'d kv_cache"
  hy_recr :: rs_memory

text \<open>The sizes of the two caches: 32-bit arithmetic, \<^verbatim>\<open>GGML_PAD\<close> masks with the complement of \<open>n_pad - 1\<close>.\<close>

definition iswa_size_swa :: "bool \<Rightarrow> bool \<Rightarrow> 32 word \<Rightarrow> 32 word \<Rightarrow> 32 word \<Rightarrow> 32 word \<Rightarrow> 32 word \<Rightarrow> 32 word" where
  "iswa_size_swa swa_full unified kv_size n_seq_max n_ubatch n_pad n_swa =
     (if swa_full then kv_size
      else min kv_size (and (n_swa * (if unified then n_seq_max else 1) + n_ubatch + n_pad - 1) (not (n_pad - 1))))"

definition iswa_new :: "bool \<Rightarrow> bool \<Rightarrow> nat \<Rightarrow> nat \<Rightarrow> nat \<Rightarrow> nat \<Rightarrow> nat \<Rightarrow> llama_swa_type \<Rightarrow> 'd \<Rightarrow> 'd iswa_cache option" where
  "iswa_new swa_full unified kv_size n_seq_max n_ubatch n_pad n_swa swa_type zero = do {
     let size_swa = unat (iswa_size_swa swa_full unified (of_nat kv_size) (of_nat n_seq_max) (of_nat n_ubatch) (of_nat n_pad) (of_nat n_swa));
     base \<leftarrow> kv_cache_new unified kv_size n_seq_max n_pad 0 SWA_NONE zero;
     swa \<leftarrow> kv_cache_new unified size_swa n_seq_max n_pad n_swa swa_type zero;
     Some \<lparr>iw_base = base, iw_swa = swa, iw_unified = unified\<rparr>
   }"

definition iswa_clear :: "'d \<Rightarrow> bool \<Rightarrow> 'd iswa_cache \<Rightarrow> 'd iswa_cache" where
  "iswa_clear zero data m = m\<lparr>iw_base := kv_clear zero data (iw_base m), iw_swa := kv_clear zero data (iw_swa m)\<rparr>"

definition iswa_seq_rm :: "int \<Rightarrow> int \<Rightarrow> int \<Rightarrow> 'd iswa_cache \<Rightarrow> (bool \<times> 'd iswa_cache) option" where
  "iswa_seq_rm q p0 p1 m = do {
     (r0, base) \<leftarrow> kv_seq_rm q p0 p1 (iw_base m);
     (r1, swa) \<leftarrow> kv_seq_rm q p0 p1 (iw_swa m);
     Some (r0 \<and> r1, m\<lparr>iw_base := base, iw_swa := swa\<rparr>)
   }"

definition iswa_each :: "('d kv_cache \<Rightarrow> 'd kv_cache option) \<Rightarrow> 'd iswa_cache \<Rightarrow> 'd iswa_cache option" where
  "iswa_each f m = do { base \<leftarrow> f (iw_base m); swa \<leftarrow> f (iw_swa m); Some (m\<lparr>iw_base := base, iw_swa := swa\<rparr>) }"

definition iswa_seq_cp :: "int \<Rightarrow> int \<Rightarrow> int \<Rightarrow> int \<Rightarrow> 'd iswa_cache \<Rightarrow> 'd iswa_cache option" where
  "iswa_seq_cp src dst p0 p1 = iswa_each (kv_seq_cp src dst p0 p1)"

definition iswa_seq_keep :: "int \<Rightarrow> 'd iswa_cache \<Rightarrow> 'd iswa_cache option" where
  "iswa_seq_keep q = iswa_each (kv_seq_keep q)"

definition iswa_seq_add :: "int \<Rightarrow> int \<Rightarrow> int \<Rightarrow> int \<Rightarrow> 'd iswa_cache \<Rightarrow> 'd iswa_cache option" where
  "iswa_seq_add q p0 p1 shift = iswa_each (kv_seq_add q p0 p1 shift)"

definition iswa_seq_div :: "int \<Rightarrow> int \<Rightarrow> int \<Rightarrow> int \<Rightarrow> 'd iswa_cache \<Rightarrow> 'd iswa_cache option" where
  "iswa_seq_div q p0 p1 d = iswa_each (kv_seq_div q p0 p1 d)"

definition iswa_seq_pos_min :: "int \<Rightarrow> 'd iswa_cache \<Rightarrow> int option" where
  "iswa_seq_pos_min q m = kv_seq_pos_min q (iw_swa m)"

definition iswa_seq_pos_max :: "int \<Rightarrow> 'd iswa_cache \<Rightarrow> int option" where
  "iswa_seq_pos_max q m = kv_seq_pos_max q (iw_swa m)"

definition iswa_get_can_shift :: "'d iswa_cache \<Rightarrow> bool" where
  "iswa_get_can_shift m \<longleftrightarrow> kv_get_size (iw_base m) = kv_get_size (iw_swa m)"

definition hybrid_new :: "bool \<Rightarrow> nat \<Rightarrow> nat \<Rightarrow> nat \<Rightarrow> llama_swa_type \<Rightarrow> nat \<Rightarrow> nat \<Rightarrow> 'd \<Rightarrow> 'd hybrid_memory option" where
  "hybrid_new unified kv_size n_pad n_swa swa_type mem_size n_seq_max zero = do {
     attn \<leftarrow> kv_cache_new unified kv_size n_seq_max n_pad n_swa swa_type zero;
     Some \<lparr>hy_attn = attn, hy_recr = rs_new mem_size\<rparr>
   }"

text \<open>The recurrent memory comes first when it may refuse.\<close>

definition hybrid_clear :: "'d \<Rightarrow> bool \<Rightarrow> 'd hybrid_memory \<Rightarrow> 'd hybrid_memory" where
  "hybrid_clear zero data h = h\<lparr>hy_attn := kv_clear zero data (hy_attn h), hy_recr := rs_clear (hy_recr h)\<rparr>"

definition hybrid_seq_rm :: "int \<Rightarrow> int \<Rightarrow> int \<Rightarrow> 'd hybrid_memory \<Rightarrow> (bool \<times> 'd hybrid_memory) option" where
  "hybrid_seq_rm q p0 p1 h = do {
     (r0, recr) \<leftarrow> rs_seq_rm q p0 p1 (hy_recr h);
     if \<not> r0 then Some (False, h\<lparr>hy_recr := recr\<rparr>)
     else do {
       (r1, attn) \<leftarrow> kv_seq_rm q p0 p1 (hy_attn h);
       Some (r1, h\<lparr>hy_attn := attn, hy_recr := recr\<rparr>)
     }
   }"

definition hybrid_each :: "('d kv_cache \<Rightarrow> 'd kv_cache option) \<Rightarrow> (rs_memory \<Rightarrow> rs_memory option) \<Rightarrow> 'd hybrid_memory \<Rightarrow> 'd hybrid_memory option" where
  "hybrid_each f g h = do { attn \<leftarrow> f (hy_attn h); recr \<leftarrow> g (hy_recr h); Some (h\<lparr>hy_attn := attn, hy_recr := recr\<rparr>) }"

definition hybrid_seq_cp :: "int \<Rightarrow> int \<Rightarrow> int \<Rightarrow> int \<Rightarrow> 'd hybrid_memory \<Rightarrow> 'd hybrid_memory option" where
  "hybrid_seq_cp src dst p0 p1 = hybrid_each (kv_seq_cp src dst p0 p1) (rs_seq_cp src dst p0 p1)"

definition hybrid_seq_keep :: "int \<Rightarrow> 'd hybrid_memory \<Rightarrow> 'd hybrid_memory option" where
  "hybrid_seq_keep q = hybrid_each (kv_seq_keep q) (\<lambda>m. Some (rs_seq_keep q m))"

definition hybrid_seq_add :: "int \<Rightarrow> int \<Rightarrow> int \<Rightarrow> int \<Rightarrow> 'd hybrid_memory \<Rightarrow> 'd hybrid_memory option" where
  "hybrid_seq_add q p0 p1 shift = hybrid_each (kv_seq_add q p0 p1 shift) (rs_seq_add q p0 p1 shift)"

definition hybrid_seq_div :: "int \<Rightarrow> int \<Rightarrow> int \<Rightarrow> int \<Rightarrow> 'd hybrid_memory \<Rightarrow> 'd hybrid_memory option" where
  "hybrid_seq_div q p0 p1 d = hybrid_each (kv_seq_div q p0 p1 d) (rs_seq_div q p0 p1 d)"

definition hybrid_seq_pos_min :: "int \<Rightarrow> 'd hybrid_memory \<Rightarrow> int option" where
  "hybrid_seq_pos_min q h = map_option (\<lambda>p. max p (rs_seq_pos_min q (hy_recr h))) (kv_seq_pos_min q (hy_attn h))"

definition hybrid_seq_pos_max :: "int \<Rightarrow> 'd hybrid_memory \<Rightarrow> int option" where
  "hybrid_seq_pos_max q h = map_option (\<lambda>p. min p (rs_seq_pos_max q (hy_recr h))) (kv_seq_pos_max q (hy_attn h))"

section \<open>The contract\<close>

text \<open>
  \<open>known m q\<close>: the memory has room for sequence \<open>q\<close>.  \<open>holds m q\<close>: the positions it holds.
  \<open>group m q r\<close>: keeping \<open>q\<close> removes \<open>r\<close>.  \<open>copyable m q r\<close>: the whole of \<open>q\<close> can be copied to \<open>r\<close>.
\<close>

definition cut_range :: "int \<Rightarrow> int \<Rightarrow> int set \<Rightarrow> int set" where
  "cut_range p0 p1 P = {p \<in> P. \<not> (range_lo p0 \<le> p \<and> p < range_hi p1)}"

lemma cut_range_mono: "P \<subseteq> Q \<Longrightarrow> cut_range p0 p1 P \<subseteq> cut_range p0 p1 Q"
  by (auto simp: cut_range_def)

lemma cut_range_subset: "cut_range p0 p1 P \<subseteq> P"
  by (auto simp: cut_range_def)

text \<open>The key-value cache always removes what it is told to; the recurrent memory may refuse.\<close>

definition never_refuses :: "(int \<Rightarrow> int \<Rightarrow> int \<Rightarrow> 'm \<Rightarrow> (bool \<times> 'm) option) \<Rightarrow> bool" where
  "never_refuses rm \<longleftrightarrow> (\<forall>q p0 p1 m ok m'. rm q p0 p1 m = Some (ok, m') \<longrightarrow> ok)"

locale seq_memory =
  fixes inv :: "'m \<Rightarrow> bool" and known :: "'m \<Rightarrow> nat \<Rightarrow> bool" and holds :: "'m \<Rightarrow> nat \<Rightarrow> int set"
    and grouped :: "'m \<Rightarrow> nat \<Rightarrow> nat \<Rightarrow> bool" and copyable :: "'m \<Rightarrow> nat \<Rightarrow> nat \<Rightarrow> bool"
    and rm :: "int \<Rightarrow> int \<Rightarrow> int \<Rightarrow> 'm \<Rightarrow> (bool \<times> 'm) option" and keep :: "int \<Rightarrow> 'm \<Rightarrow> 'm option"
    and cp :: "int \<Rightarrow> int \<Rightarrow> int \<Rightarrow> int \<Rightarrow> 'm \<Rightarrow> 'm option"
  assumes rm_law: "inv m \<Longrightarrow> known m q \<Longrightarrow> \<exists>ok m'. rm (int q) p0 p1 m = Some (ok, m') \<and> inv m' \<and> known m' = known m \<and> grouped m' = grouped m \<and>
      (ok \<longrightarrow> holds m' = (holds m)(q := cut_range p0 p1 (holds m q))) \<and> (\<not> ok \<longrightarrow> m' = m)"
    and keep_law: "inv m \<Longrightarrow> known m q \<Longrightarrow> \<exists>m'. keep (int q) m = Some m' \<and> inv m' \<and> known m' = known m \<and> grouped m' = grouped m \<and>
      holds m' = (\<lambda>r. if r \<noteq> q \<and> grouped m q r then {} else holds m r)"
    and cp_law: "inv m \<Longrightarrow> known m q \<Longrightarrow> known m r \<Longrightarrow> q \<noteq> r \<Longrightarrow> holds m r = {} \<Longrightarrow> copyable m q r \<Longrightarrow>
      \<exists>m'. cp (int q) (int r) (- 1) (- 1) m = Some m' \<and> inv m' \<and> known m' = known m \<and> grouped m' = grouped m \<and> holds m' = (holds m)(r := holds m q)"

locale memory_pair = a: seq_memory inv_a known_a holds_a grouped_a copyable_a rm_a keep_a cp_a + b: seq_memory inv_b known_b holds_b grouped_b copyable_b rm_b keep_b cp_b
  for inv_a :: "'a \<Rightarrow> bool" and known_a holds_a grouped_a copyable_a rm_a keep_a cp_a
    and inv_b :: "'b \<Rightarrow> bool" and known_b holds_b grouped_b copyable_b rm_b keep_b cp_b
begin

lemma both_rm:
  assumes "inv_a a" "inv_b b" "known_a a q" "known_b b q" "\<forall>r. holds_b b r \<subseteq> holds_a a r"
    and "never_refuses rm_b"
  shows "\<exists>ok a' b'. rm_a (int q) p0 p1 a = Some (ok, a') \<and> rm_b (int q) p0 p1 b = Some (True, b') \<and> inv_a a' \<and> inv_b b' \<and>
    known_a a' = known_a a \<and> known_b b' = known_b b \<and> grouped_a a' = grouped_a a \<and> grouped_b b' = grouped_b b \<and>
    (\<forall>r. holds_b b' r \<subseteq> holds_a a' r) \<and> holds_b b' = (holds_b b)(q := cut_range p0 p1 (holds_b b q)) \<and>
    (ok \<longrightarrow> holds_a a' = (holds_a a)(q := cut_range p0 p1 (holds_a a q)))"
proof -
  from a.rm_law [OF assms(1,3)] obtain ok a' where a': "rm_a (int q) p0 p1 a = Some (ok, a')" "inv_a a'" "known_a a' = known_a a"
    "grouped_a a' = grouped_a a" "ok \<longrightarrow> holds_a a' = (holds_a a)(q := cut_range p0 p1 (holds_a a q))" "\<not> ok \<longrightarrow> a' = a" by blast
  from b.rm_law [OF assms(2,4)] assms(6) [unfolded never_refuses_def] obtain b' where b': "rm_b (int q) p0 p1 b = Some (True, b')" "inv_b b'" "known_b b' = known_b b"
    "grouped_b b' = grouped_b b" "holds_b b' = (holds_b b)(q := cut_range p0 p1 (holds_b b q))" by metis
  have "holds_b b' r \<subseteq> holds_a a' r" for r
  proof (cases ok)
    case True
    with a'(5) b'(5) assms(5) cut_range_mono [of "holds_b b q" "holds_a a q" p0 p1] show ?thesis by simp
  next
    case False
    have "cut_range p0 p1 (holds_b b q) \<subseteq> holds_a a q" using cut_range_subset assms(5) by blast
    with False a'(6) b'(5) assms(5) show ?thesis by simp
  qed
  with a' b' show ?thesis by blast
qed

lemma first_rm:
  assumes "inv_a a" "inv_b b" "known_a a q" "known_b b q" "\<forall>r. holds_b b r \<subseteq> holds_a a r"
    and "never_refuses rm_a"
  shows "\<exists>ok b'. rm_b (int q) p0 p1 b = Some (ok, b') \<and> (\<not> ok \<longrightarrow> b' = b) \<and>
    (ok \<longrightarrow> (\<exists>a'. rm_a (int q) p0 p1 a = Some (True, a') \<and> inv_a a' \<and> inv_b b' \<and>
      known_a a' = known_a a \<and> known_b b' = known_b b \<and> grouped_a a' = grouped_a a \<and> grouped_b b' = grouped_b b \<and>
      (\<forall>r. holds_b b' r \<subseteq> holds_a a' r) \<and> holds_a a' = (holds_a a)(q := cut_range p0 p1 (holds_a a q)) \<and>
      holds_b b' = (holds_b b)(q := cut_range p0 p1 (holds_b b q))))"
proof -
  from a.rm_law [OF assms(1,3)] assms(6) [unfolded never_refuses_def] obtain a' where a': "rm_a (int q) p0 p1 a = Some (True, a')" "inv_a a'" "known_a a' = known_a a"
    "grouped_a a' = grouped_a a" "holds_a a' = (holds_a a)(q := cut_range p0 p1 (holds_a a q))" by metis
  from b.rm_law [OF assms(2,4)] obtain ok b' where b': "rm_b (int q) p0 p1 b = Some (ok, b')" "inv_b b'" "known_b b' = known_b b"
    "grouped_b b' = grouped_b b" "ok \<longrightarrow> holds_b b' = (holds_b b)(q := cut_range p0 p1 (holds_b b q))" "\<not> ok \<longrightarrow> b' = b" by blast
  have "\<forall>r. holds_b b' r \<subseteq> holds_a a' r" if ok
    using assms(5) cut_range_mono [of "holds_b b q" "holds_a a q" p0 p1] a'(5) b'(5) that by auto
  with a' b' show ?thesis by blast
qed

lemma both_keep:
  assumes "inv_a a" "inv_b b" "known_a a q" "known_b b q" "\<forall>r. holds_b b r \<subseteq> holds_a a r" "\<forall>r. grouped_a a q r \<longrightarrow> grouped_b b q r"
  shows "\<exists>a' b'. keep_a (int q) a = Some a' \<and> keep_b (int q) b = Some b' \<and> inv_a a' \<and> inv_b b' \<and>
    known_a a' = known_a a \<and> known_b b' = known_b b \<and> grouped_a a' = grouped_a a \<and> grouped_b b' = grouped_b b \<and>
    (\<forall>r. holds_b b' r \<subseteq> holds_a a' r) \<and> holds_a a' q = holds_a a q \<and> holds_b b' q = holds_b b q"
proof -
  from a.keep_law [OF assms(1,3)] obtain a' where a': "keep_a (int q) a = Some a'" "inv_a a'" "known_a a' = known_a a"
    "grouped_a a' = grouped_a a" "holds_a a' = (\<lambda>r. if r \<noteq> q \<and> grouped_a a q r then {} else holds_a a r)" by blast
  from b.keep_law [OF assms(2,4)] obtain b' where b': "keep_b (int q) b = Some b'" "inv_b b'" "known_b b' = known_b b"
    "grouped_b b' = grouped_b b" "holds_b b' = (\<lambda>r. if r \<noteq> q \<and> grouped_b b q r then {} else holds_b b r)" by blast
  have "\<forall>r. holds_b b' r \<subseteq> holds_a a' r" using assms(5,6) a'(5) b'(5) by auto
  with a' b' show ?thesis by simp
qed

lemma both_cp:
  assumes "inv_a a" "inv_b b" "known_a a q" "known_b b q" "known_a a r" "known_b b r" "q \<noteq> r" "\<forall>r. holds_b b r \<subseteq> holds_a a r"
    "holds_a a r = {}" "copyable_a a q r" "copyable_b b q r"
  shows "\<exists>a' b'. cp_a (int q) (int r) (- 1) (- 1) a = Some a' \<and> cp_b (int q) (int r) (- 1) (- 1) b = Some b' \<and> inv_a a' \<and> inv_b b' \<and>
    known_a a' = known_a a \<and> known_b b' = known_b b \<and> grouped_a a' = grouped_a a \<and> grouped_b b' = grouped_b b \<and>
    (\<forall>r. holds_b b' r \<subseteq> holds_a a' r) \<and> holds_a a' r = holds_a a q \<and> holds_b b' r = holds_b b q"
proof -
  have "holds_b b r = {}" using assms(8,9) by blast
  from b.cp_law [OF assms(2,4,6,7) this assms(11)] obtain b' where b': "cp_b (int q) (int r) (- 1) (- 1) b = Some b'" "inv_b b'" "known_b b' = known_b b"
    "grouped_b b' = grouped_b b" "holds_b b' = (holds_b b)(r := holds_b b q)" by blast
  from a.cp_law [OF assms(1,3,5,7,9,10)] obtain a' where a': "cp_a (int q) (int r) (- 1) (- 1) a = Some a'" "inv_a a'" "known_a a' = known_a a"
    "grouped_a a' = grouped_a a" "holds_a a' = (holds_a a)(r := holds_a a q)" by blast
  have "\<forall>r. holds_b b' r \<subseteq> holds_a a' r" using assms(8) a'(5) b'(5) by auto
  with a' b' show ?thesis by simp
qed

end

section \<open>The cache keeps the contract\<close>

definition kv_known :: "'d kv_cache \<Rightarrow> nat \<Rightarrow> bool" where
  "kv_known kv q \<longleftrightarrow> q < length (kv_seq_to_stream kv)"

definition kv_holds :: "'d kv_cache \<Rightarrow> nat \<Rightarrow> int set" where
  "kv_holds kv q = snd ` seq_view kv q"

definition kv_grouped :: "'d kv_cache \<Rightarrow> nat \<Rightarrow> nat \<Rightarrow> bool" where
  "kv_grouped kv q r \<longleftrightarrow> r < length (kv_seq_to_stream kv) \<and> kv_seq_to_stream kv ! r = kv_seq_to_stream kv ! q"

definition kv_copyable :: "'d kv_cache \<Rightarrow> nat \<Rightarrow> nat \<Rightarrow> bool" where
  "kv_copyable kv q r \<longleftrightarrow> (\<forall>p \<in> kv_holds kv q. 0 \<le> p \<and> p < int32_max) \<and>
     (let s = kv_seq_to_stream kv ! q; c = kv_v_cells kv ! s in s \<noteq> kv_seq_to_stream kv ! r \<longrightarrow>
       (\<forall>i < cells_size c. q \<in> kc_seq c ! i \<longrightarrow> 0 \<le> kc_pos c ! i - kc_shift c ! i \<and> kc_pos c ! i - kc_shift c ! i \<le> int32_max))"

lemma kv_same_map: "kv_seq_to_stream kv' = kv_seq_to_stream kv \<Longrightarrow> kv_known kv' = kv_known kv \<and> kv_grouped kv' = kv_grouped kv"
  by (simp add: kv_known_def kv_grouped_def fun_eq_iff)

lemma kv_rm_law:
  assumes "kv_inv kv" "kv_known kv q"
  shows "\<exists>ok kv'. kv_seq_rm (int q) p0 p1 kv = Some (ok, kv') \<and> kv_inv kv' \<and> kv_known kv' = kv_known kv \<and> kv_grouped kv' = kv_grouped kv \<and>
    (ok \<longrightarrow> kv_holds kv' = (kv_holds kv)(q := cut_range p0 p1 (kv_holds kv q))) \<and> (\<not> ok \<longrightarrow> kv' = kv)"
proof -
  from assms(2) have q: "0 \<le> int q" "nat (int q) < length (kv_seq_to_stream kv)" by (simp_all add: kv_known_def)
  from kv_seq_rm_view [OF assms(1) q, of p0 p1] obtain kv' where kv': "kv_seq_rm (int q) p0 p1 kv = Some (True, kv')" "kv_inv kv'"
    "kv_seq_to_stream kv' = kv_seq_to_stream kv" "seq_view kv' q = {(i, p) \<in> seq_view kv q. \<not> (range_lo p0 \<le> p \<and> p < range_hi p1)}"
    "\<forall>t. t \<noteq> q \<longrightarrow> seq_view kv' t = seq_view kv t" by auto
  have "kv_holds kv' q = cut_range p0 p1 (kv_holds kv q)" unfolding kv_holds_def kv'(4) cut_range_def by force
  moreover have "kv_holds kv' r = kv_holds kv r" if "r \<noteq> q" for r using kv'(5) that by (simp add: kv_holds_def)
  ultimately have "kv_holds kv' = (kv_holds kv)(q := cut_range p0 p1 (kv_holds kv q))" by (simp add: fun_eq_iff)
  with kv'(1,2) kv_same_map [OF kv'(3)] show ?thesis by blast
qed

lemma kv_keep_law:
  assumes "kv_inv kv" "kv_known kv q"
  shows "\<exists>kv'. kv_seq_keep (int q) kv = Some kv' \<and> kv_inv kv' \<and> kv_known kv' = kv_known kv \<and> kv_grouped kv' = kv_grouped kv \<and>
    kv_holds kv' = (\<lambda>r. if r \<noteq> q \<and> kv_grouped kv q r then {} else kv_holds kv r)"
proof -
  from assms(2) have q: "0 \<le> int q" "nat (int q) < length (kv_seq_to_stream kv)" by (simp_all add: kv_known_def)
  from kv_seq_keep_view [OF assms(1) q] obtain kv' where kv': "kv_seq_keep (int q) kv = Some kv'" "kv_inv kv'"
    "kv_seq_to_stream kv' = kv_seq_to_stream kv" "seq_view kv' q = seq_view kv q"
    "\<forall>t. t \<noteq> q \<longrightarrow> seq_view kv' t = (if kv_grouped kv q t then {} else seq_view kv t)" by (auto simp: kv_grouped_def)
  have "kv_holds kv' r = (if r \<noteq> q \<and> kv_grouped kv q r then {} else kv_holds kv r)" for r
    using kv'(4,5) by (cases "r = q") (simp_all add: kv_holds_def)
  with kv'(1,2) kv_same_map [OF kv'(3)] show ?thesis by blast
qed

lemma kv_cp_law:
  assumes inv: "kv_inv kv" and q: "kv_known kv q" and r: "kv_known kv r" and ne: "q \<noteq> r" and empty: "kv_holds kv r = {}" and c: "kv_copyable kv q r"
  shows "\<exists>kv'. kv_seq_cp (int q) (int r) (- 1) (- 1) kv = Some kv' \<and> kv_inv kv' \<and> kv_known kv' = kv_known kv \<and> kv_grouped kv' = kv_grouped kv \<and>
    kv_holds kv' = (kv_holds kv)(r := kv_holds kv q)"
proof -
  have S: "kv_stream (int q) kv = Some (kv_seq_to_stream kv ! q)" "kv_stream (int r) kv = Some (kv_seq_to_stream kv ! r)"
    using q r by (simp_all add: kv_stream_def kv_known_def)
  have e: "seq_view kv r = {}" using empty by (simp add: kv_holds_def)
  have all: "range_lo (- 1) \<le> p \<and> p < range_hi (- 1)" if "(i, p) \<in> seq_view kv q" for i p
    using c that by (fastforce simp: kv_copyable_def kv_holds_def range_lo_def range_hi_def)
  have "\<exists>kv'. kv_seq_cp (int q) (int r) (- 1) (- 1) kv = Some kv' \<and> kv_inv kv' \<and> kv_seq_to_stream kv' = kv_seq_to_stream kv \<and>
    seq_view kv' r = seq_view kv q \<and> (\<forall>t. t \<noteq> r \<longrightarrow> seq_view kv' t = seq_view kv t)"
  proof (cases "kv_seq_to_stream kv ! q = kv_seq_to_stream kv ! r")
    case True
    have "{(i, p) \<in> seq_view kv q. range_lo (- 1) \<le> p \<and> p < range_hi (- 1)} = seq_view kv q" using all by auto
    with kv_seq_cp_view [OF inv S(1) S(2) [folded True], of "- 1" "- 1"] e ne show ?thesis by auto
  next
    case False
    with c have sh: "\<forall>i < cells_size (kv_v_cells kv ! (kv_seq_to_stream kv ! q)). nat (int q) \<in> kc_seq (kv_v_cells kv ! (kv_seq_to_stream kv ! q)) ! i \<longrightarrow>
      0 \<le> kc_pos (kv_v_cells kv ! (kv_seq_to_stream kv ! q)) ! i - kc_shift (kv_v_cells kv ! (kv_seq_to_stream kv ! q)) ! i \<and>
      kc_pos (kv_v_cells kv ! (kv_seq_to_stream kv ! q)) ! i - kc_shift (kv_v_cells kv ! (kv_seq_to_stream kv ! q)) ! i \<le> int32_max"
      by (simp add: kv_copyable_def Let_def)
    from kv_seq_cp_streams_view [OF inv S False, of "- 1" "- 1"] sh show ?thesis by auto
  qed
  then obtain kv' where kv': "kv_seq_cp (int q) (int r) (- 1) (- 1) kv = Some kv'" "kv_inv kv'" "kv_seq_to_stream kv' = kv_seq_to_stream kv"
    "seq_view kv' r = seq_view kv q" "\<forall>t. t \<noteq> r \<longrightarrow> seq_view kv' t = seq_view kv t" by blast
  then have "kv_holds kv' = (kv_holds kv)(r := kv_holds kv q)" by (simp add: kv_holds_def fun_eq_iff)
  with kv'(1,2) kv_same_map [OF kv'(3)] show ?thesis by blast
qed

lemma kv_never_refuses: "never_refuses kv_seq_rm"
  unfolding never_refuses_def
  by (auto simp: kv_seq_rm_def guard_def Let_def split: if_splits Option.bind_splits prod.splits)

interpretation kv: seq_memory kv_inv kv_known kv_holds kv_grouped kv_copyable kv_seq_rm kv_seq_keep kv_seq_cp
  by unfold_locales (fact kv_rm_law kv_keep_law kv_cp_law)+

section \<open>The recurrent memory keeps the contract\<close>

definition rs_known :: "rs_memory \<Rightarrow> nat \<Rightarrow> bool" where
  "rs_known m q \<longleftrightarrow> q < rs_size m"

definition rs_holds :: "rs_memory \<Rightarrow> nat \<Rightarrow> int set" where
  "rs_holds m q = (case rs_state () (\<lambda>_. ()) m q of None \<Rightarrow> {} | Some (p, _) \<Rightarrow> {p})"

definition rs_grouped :: "rs_memory \<Rightarrow> nat \<Rightarrow> nat \<Rightarrow> bool" where
  "rs_grouped m q r \<longleftrightarrow> True"

definition rs_copyable :: "rs_memory \<Rightarrow> nat \<Rightarrow> nat \<Rightarrow> bool" where
  "rs_copyable m q r \<longleftrightarrow> True"

lemma rs_rm_law:
  assumes wf: "rs_wf m" and q: "rs_known m q"
  shows "\<exists>ok m'. rs_seq_rm (int q) p0 p1 m = Some (ok, m') \<and> rs_wf m' \<and> rs_known m' = rs_known m \<and> rs_grouped m' = rs_grouped m \<and>
    (ok \<longrightarrow> rs_holds m' = (rs_holds m)(q := cut_range p0 p1 (rs_holds m q))) \<and> (\<not> ok \<longrightarrow> m' = m)"
proof -
  from q have lt: "q < rs_size m" by (simp add: rs_known_def)
  note spec = rs_seq_rm_spec [OF wf lt, of p0 p1]
  show ?thesis
  proof (cases "rs_rm_refused q (rs_p0 p0) (rs_p1 p1) m")
    case True
    with spec wf show ?thesis by auto
  next
    case False
    let ?hit = "rs_rm_hit q (rs_p0 p0) (rs_p1 p1) m"
    from spec False obtain m' where m': "rs_seq_rm (int q) p0 p1 m = Some (True, m')" "rs_dropped (if ?hit then {q} else {}) m m'" by auto
    have "rs_holds m' r = ((rs_holds m)(q := cut_range p0 p1 (rs_holds m q))) r" for r
      using lt unfolding rs_holds_def rs_dropped_state [OF wf m'(2)]
      by (auto simp: rs_rm_hit_def rs_state_def Let_def cut_range_def range_lo_def range_hi_def rs_p0_def rs_p1_def split: if_splits)
    then have "rs_holds m' = (rs_holds m)(q := cut_range p0 p1 (rs_holds m q))" ..
    moreover have "rs_known m' = rs_known m" "rs_grouped m' = rs_grouped m"
      using rs_droppedD(2) [OF m'(2)] by (simp_all add: rs_known_def rs_grouped_def fun_eq_iff)
    ultimately show ?thesis using m'(1) rs_droppedD(1) [OF m'(2)] by blast
  qed
qed

lemma rs_keep_law:
  assumes wf: "rs_wf m" and q: "rs_known m q"
  shows "\<exists>m'. Some (rs_seq_keep (int q) m) = Some m' \<and> rs_wf m' \<and> rs_known m' = rs_known m \<and> rs_grouped m' = rs_grouped m \<and>
    rs_holds m' = (\<lambda>r. if r \<noteq> q \<and> rs_grouped m q r then {} else rs_holds m r)"
proof -
  from q have lt: "q < rs_size m" by (simp add: rs_known_def)
  note d = rs_seq_keep_spec [OF wf lt]
  have "rs_holds (rs_seq_keep (int q) m) r = (if r \<noteq> q \<and> rs_grouped m q r then {} else rs_holds m r)" for r
    unfolding rs_holds_def rs_dropped_state [OF wf d] by (auto simp: rs_grouped_def rs_state_def)
  then have "rs_holds (rs_seq_keep (int q) m) = (\<lambda>r. if r \<noteq> q \<and> rs_grouped m q r then {} else rs_holds m r)" ..
  moreover have "rs_known (rs_seq_keep (int q) m) = rs_known m" "rs_grouped (rs_seq_keep (int q) m) = rs_grouped m"
    using rs_droppedD(2) [OF d] by (simp_all add: rs_known_def rs_grouped_def fun_eq_iff)
  ultimately show ?thesis using rs_droppedD(1) [OF d] by blast
qed

lemma rs_cp_law:
  assumes wf: "rs_wf m" and q: "rs_known m q" and r: "rs_known m r" and ne: "q \<noteq> r" and "rs_holds m r = {}" and "rs_copyable m q r"
  shows "\<exists>m'. rs_seq_cp (int q) (int r) (- 1) (- 1) m = Some m' \<and> rs_wf m' \<and> rs_known m' = rs_known m \<and> rs_grouped m' = rs_grouped m \<and>
    rs_holds m' = (rs_holds m)(r := rs_holds m q)"
proof -
  have "q < rs_size m" "r < rs_size m" using q r by (simp_all add: rs_known_def)
  from rs_seq_cp_spec [where 'v = unit, OF wf this ne, of "- 1" "- 1"] obtain m' where m': "rs_seq_cp (int q) (int r) (- 1) (- 1) m = Some m'" "rs_wf m'"
    "rs_size m' = rs_size m" "\<forall>Z (D :: nat \<Rightarrow> unit) p. rs_state Z D m' p = rs_state Z D m (if p = r then q else p)" by blast
  have "rs_holds m' = (rs_holds m)(r := rs_holds m q)" by (simp add: rs_holds_def m'(4) fun_eq_iff)
  moreover have "rs_known m' = rs_known m" "rs_grouped m' = rs_grouped m" using m'(3) by (simp_all add: rs_known_def rs_grouped_def fun_eq_iff)
  ultimately show ?thesis using m'(1,2) by blast
qed

interpretation rs: seq_memory rs_wf rs_known rs_holds rs_grouped rs_copyable rs_seq_rm "\<lambda>q m. Some (rs_seq_keep q m)" rs_seq_cp
  by unfold_locales (fact rs_rm_law rs_keep_law rs_cp_law)+

interpretation iw: memory_pair
  kv_inv kv_known kv_holds kv_grouped kv_copyable kv_seq_rm kv_seq_keep kv_seq_cp
  kv_inv kv_known kv_holds kv_grouped kv_copyable kv_seq_rm kv_seq_keep kv_seq_cp ..

interpretation hy: memory_pair
  kv_inv kv_known kv_holds kv_grouped kv_copyable kv_seq_rm kv_seq_keep kv_seq_cp
  rs_wf rs_known rs_holds rs_grouped rs_copyable rs_seq_rm "\<lambda>q m. Some (rs_seq_keep q m)" rs_seq_cp ..

end
