(* ===== verification/MemPairRun.thy ===== *)
theory MemPairRun
  imports MemPair BatchSplit
begin

text \<open>
  Memories made of two, at work: \<^verbatim>\<open>init_batch\<close>, \<^verbatim>\<open>init_full\<close>, \<^verbatim>\<open>init_update\<close> and the contexts of
  \<^verbatim>\<open>src/src/llama-kv-cache-iswa.cpp\<close> and \<^verbatim>\<open>src/src/llama-memory-hybrid.cpp\<close>, and the decode loop of
  \<^verbatim>\<open>llama_context\<close> with a hybrid memory.  A context of a pair owns a context of each memory; a context
  that only reports an error has none, so they are options.
\<close>

section \<open>The window cache\<close>

record 'e iswa_context =
  ic_status :: llama_memory_status
  ic_i_next :: nat
  ic_ubatches :: "'e llama_ubatch list"
  ic_base :: "'e kv_context option"
  ic_swa :: "'e kv_context option"

definition iswa_ctx_error :: "llama_memory_status \<Rightarrow> 'e iswa_context" where
  "iswa_ctx_error st = \<lparr>ic_status = st, ic_i_next = 0, ic_ubatches = [], ic_base = None, ic_swa = None\<rparr>"

definition iswa_ctx_of :: "'e llama_ubatch list \<Rightarrow> 'e kv_context \<Rightarrow> 'e kv_context \<Rightarrow> 'e iswa_context" where
  "iswa_ctx_of us b s = \<lparr>ic_status = llama_memory_status_combine (cx_status b) (cx_status s), ic_i_next = 0, ic_ubatches = us,
     ic_base = Some b, ic_swa = Some s\<rparr>"

definition ctx_batch :: "slot_info list \<Rightarrow> 'e llama_ubatch list \<Rightarrow> 'e kv_context" where
  "ctx_batch sinfos us = (ctx_error STATUS_SUCCESS)\<lparr>cx_sinfos := sinfos, cx_ubatches := us\<rparr>"

definition iswa_init_full :: "'d iswa_cache \<Rightarrow> 'e iswa_context" where
  "iswa_init_full m = iswa_ctx_of [] (ctx_full (iw_base m)) (ctx_full (iw_swa m))"

definition iswa_init_update :: "'d iswa_cache \<Rightarrow> 'e iswa_context \<times> 'd iswa_cache" where
  "iswa_init_update m = (case init_update (iw_base m) of (b, base) \<Rightarrow> case init_update (iw_swa m) of (s, swa) \<Rightarrow>
     (iswa_ctx_of [] b s, m\<lparr>iw_base := base, iw_swa := swa\<rparr>))"

text \<open>One attempt to split a batch; \<open>None\<close> of the result is a \<^verbatim>\<open>break\<close>.\<close>

definition iswa_try :: "('e allocr \<Rightarrow> ('e llama_ubatch \<times> 'e allocr) option) \<Rightarrow> 'e allocr \<Rightarrow> 'd iswa_cache
    \<Rightarrow> ('e iswa_context option \<times> 'e allocr \<times> 'd iswa_cache) option" where
  "iswa_try split a m = do {
     let a0 = split_reset a;
     (us, a1) \<leftarrow> split_loop (Suc (al_n_tokens a0)) split a0;
     if al_n_used a1 < al_n_tokens a1 then Some (None, a1, m)
     else do {
       (sb, base) \<leftarrow> prepare us (iw_base m);
       let m1 = m\<lparr>iw_base := base\<rparr>;
       if sb = [] then Some (None, a1, m1)
       else do {
         (ss, swa) \<leftarrow> prepare us (iw_swa m1);
         let m2 = m1\<lparr>iw_swa := swa\<rparr>;
         if ss = [] then Some (None, a1, m2)
         else do {
           guard (length sb = length ss);
           Some (Some (iswa_ctx_of us (ctx_batch sb us) (ctx_batch ss us)), a1, m2)
         }
       }
     }
   }"

definition iswa_init_batch :: "nat \<Rightarrow> 'e allocr \<Rightarrow> 'd iswa_cache \<Rightarrow> ('e iswa_context \<times> 'e allocr \<times> 'd iswa_cache) option" where
  "iswa_init_batch n_ubatch a m = do {
     (r, a1, m1) \<leftarrow> (if iw_unified m then iswa_try (split_simple n_ubatch) a m else Some (None, a, m));
     case r of
       Some cx \<Rightarrow> Some (cx, a1, m1)
     | None \<Rightarrow> do {
         (r2, a2, m2) \<leftarrow> iswa_try (split_equal n_ubatch (\<not> iw_unified m1)) a1 m1;
         Some (case r2 of Some cx \<Rightarrow> cx | None \<Rightarrow> iswa_ctx_error STATUS_FAILED_PREPARE, a2, m2)
       }
   }"

definition iswa_ctx_next :: "'e iswa_context \<Rightarrow> (bool \<times> 'e iswa_context) option" where
  "iswa_ctx_next cx = do {
     guard (ic_status cx = STATUS_SUCCESS);
     b \<leftarrow> ic_base cx;
     (_, b1) \<leftarrow> ctx_next b;
     s \<leftarrow> ic_swa cx;
     (_, s1) \<leftarrow> ctx_next s;
     let cx1 = cx\<lparr>ic_base := Some b1, ic_swa := Some s1, ic_i_next := ic_i_next cx + 1\<rparr>;
     Some (ic_i_next cx1 < length (ic_ubatches cx1), cx1)
   }"

definition iswa_ctx_apply :: "('d list \<Rightarrow> int list \<Rightarrow> bool \<times> 'd list) \<Rightarrow> ('d list \<Rightarrow> int list \<Rightarrow> bool \<times> 'd list) \<Rightarrow> bool
    \<Rightarrow> 'e iswa_context \<Rightarrow> 'd iswa_cache \<Rightarrow> ('e iswa_context \<times> 'd iswa_cache) option" where
  "iswa_ctx_apply shift_base shift_swa rope_none cx m = do {
     guard (\<not> llama_memory_status_is_fail (ic_status cx));
     b \<leftarrow> ic_base cx;
     (b1, base) \<leftarrow> ctx_apply shift_base rope_none b (iw_base m);
     s \<leftarrow> ic_swa cx;
     (s1, swa) \<leftarrow> ctx_apply shift_swa rope_none s (iw_swa m);
     Some (cx\<lparr>ic_base := Some b1, ic_swa := Some s1\<rparr>, m\<lparr>iw_base := base, iw_swa := swa\<rparr>)
   }"

definition iswa_ctx_get_ubatch :: "'e iswa_context \<Rightarrow> 'e llama_ubatch option" where
  "iswa_ctx_get_ubatch cx = do {
     guard (ic_status cx = STATUS_SUCCESS \<and> ic_i_next cx < length (ic_ubatches cx));
     Some (ic_ubatches cx ! ic_i_next cx)
   }"

section \<open>The hybrid memory\<close>

record 'e hybrid_context =
  hc_status :: llama_memory_status
  hc_i_next :: nat
  hc_ubatches :: "'e llama_ubatch list"
  hc_attn :: "'e kv_context option"
  hc_recr :: "'e rs_context option"

definition hybrid_ctx_error :: "llama_memory_status \<Rightarrow> 'e hybrid_context" where
  "hybrid_ctx_error st = \<lparr>hc_status = st, hc_i_next = 0, hc_ubatches = [], hc_attn = None, hc_recr = None\<rparr>"

definition hybrid_ctx_of :: "'e llama_ubatch list \<Rightarrow> 'e kv_context \<Rightarrow> 'e rs_context \<Rightarrow> 'e hybrid_context" where
  "hybrid_ctx_of us c r = \<lparr>hc_status = llama_memory_status_combine (cx_status c) (rx_status r), hc_i_next = 0, hc_ubatches = us,
     hc_attn = Some c, hc_recr = Some r\<rparr>"

definition hybrid_init_full :: "'d hybrid_memory \<Rightarrow> 'e hybrid_context" where
  "hybrid_init_full h = hybrid_ctx_of [] (ctx_full (hy_attn h)) rs_init_full"

definition hybrid_init_update :: "'d hybrid_memory \<Rightarrow> 'e hybrid_context \<times> 'd hybrid_memory" where
  "hybrid_init_update h = (case init_update (hy_attn h) of (c, attn) \<Rightarrow> (hybrid_ctx_of [] c rs_init_update, h\<lparr>hy_attn := attn\<rparr>))"

definition hybrid_init_batch :: "nat \<Rightarrow> bool \<Rightarrow> 'e allocr \<Rightarrow> 'd hybrid_memory \<Rightarrow> ('e hybrid_context \<times> 'e allocr \<times> 'd hybrid_memory) option" where
  "hybrid_init_batch n_ubatch embd_all a h = do {
     let a0 = split_reset a;
     (us, a1) \<leftarrow> split_loop (Suc (al_n_tokens a0))
       (\<lambda>a. if embd_all then split_seq n_ubatch a else split_equal n_ubatch True a) a0;
     if al_n_used a1 < al_n_tokens a1 then Some (hybrid_ctx_error STATUS_FAILED_PREPARE, a1, h)
     else do {
       (ok, recr) \<leftarrow> rs_prepare us (hy_recr h);
       let h1 = h\<lparr>hy_recr := recr\<rparr>;
       if \<not> ok then Some (hybrid_ctx_error STATUS_FAILED_PREPARE, a1, h1)
       else do {
         (heads, attn) \<leftarrow> prepare us (hy_attn h1);
         let h2 = h1\<lparr>hy_attn := attn\<rparr>;
         if heads = [] then Some (hybrid_ctx_error STATUS_FAILED_PREPARE, a1, h2)
         else Some (hybrid_ctx_of us (ctx_batch heads us) (rs_ctx_batch us), a1, h2)
       }
     }
   }"

definition hybrid_ctx_next :: "'e hybrid_context \<Rightarrow> (bool \<times> 'e hybrid_context) option" where
  "hybrid_ctx_next cx = do {
     guard (hc_status cx = STATUS_SUCCESS);
     c \<leftarrow> hc_attn cx;
     (_, c1) \<leftarrow> ctx_next c;
     r \<leftarrow> hc_recr cx;
     (_, r1) \<leftarrow> rs_ctx_next r;
     let cx1 = cx\<lparr>hc_attn := Some c1, hc_recr := Some r1, hc_i_next := hc_i_next cx + 1\<rparr>;
     Some (hc_i_next cx1 < length (hc_ubatches cx1), cx1)
   }"

definition hybrid_ctx_apply :: "('d list \<Rightarrow> int list \<Rightarrow> bool \<times> 'd list) \<Rightarrow> bool \<Rightarrow> 'e hybrid_context \<Rightarrow> 'd hybrid_memory
    \<Rightarrow> ('e hybrid_context \<times> 'd hybrid_memory) option" where
  "hybrid_ctx_apply shift_graph rope_none cx h = do {
     guard (\<not> llama_memory_status_is_fail (hc_status cx));
     c \<leftarrow> hc_attn cx;
     (c1, attn) \<leftarrow> ctx_apply shift_graph rope_none c (hy_attn h);
     r \<leftarrow> hc_recr cx;
     (_, recr) \<leftarrow> rs_ctx_apply r (hy_recr h);
     Some (cx\<lparr>hc_attn := Some c1\<rparr>, h\<lparr>hy_attn := attn, hy_recr := recr\<rparr>)
   }"

definition hybrid_ctx_get_ubatch :: "'e hybrid_context \<Rightarrow> 'e llama_ubatch option" where
  "hybrid_ctx_get_ubatch cx = do {
     guard (hc_status cx = STATUS_SUCCESS \<and> hc_i_next cx < length (hc_ubatches cx));
     Some (hc_ubatches cx ! hc_i_next cx)
   }"

section \<open>Decoding with a hybrid memory\<close>

text \<open>\<^verbatim>\<open>llama_context::memory_update\<close> with this memory.\<close>

definition hybrid_memory_update :: "('d list \<Rightarrow> int list \<Rightarrow> bool \<times> 'd list) \<Rightarrow> bool \<Rightarrow> 'd hybrid_memory \<Rightarrow> (bool \<times> 'd hybrid_memory) option" where
  "hybrid_memory_update shift_graph rope_none h = (case hybrid_init_update h of (cx :: unit hybrid_context, h1) \<Rightarrow>
     (case hc_status cx of
        STATUS_SUCCESS \<Rightarrow> do { (_, h2) \<leftarrow> hybrid_ctx_apply shift_graph rope_none cx h1; Some (True, h2) }
      | _ \<Rightarrow> Some (False, h1)))"

text \<open>The recurrent part of the graph of one micro-batch.\<close>

definition rs_compute :: "('v \<Rightarrow> 'v) \<Rightarrow> ('e llama_ubatch \<Rightarrow> nat \<Rightarrow> 'v \<Rightarrow> 'v) \<Rightarrow> 'e rs_context \<Rightarrow> rs_memory \<Rightarrow> (nat \<Rightarrow> 'v) \<Rightarrow> (nat \<Rightarrow> 'v) option" where
  "rs_compute scale0 F r m D = do {
     u \<leftarrow> rs_ctx_ubatch r;
     s_copy \<leftarrow> rs_set_input r m;
     (outs, D1) \<leftarrow> build_rs scale0 s_copy (ub_n_seqs u) (get_n_rs r m) (get_rs_head r m) (rs_size m) (get_rs_z r m) D;
     Some (rs_store (get_rs_head r m) (map (\<lambda>s. F u s (outs ! s)) [0..<ub_n_seqs u]) D1)
   }"

definition hybrid_rollback :: "'e llama_ubatch \<Rightarrow> 'd hybrid_memory \<Rightarrow> 'd hybrid_memory option" where
  "hybrid_rollback u h = do {
     pm \<leftarrow> fail_pos_min u;
     foldM (\<lambda>s h. if pm s = int32_max then Some h else do { (_, h') \<leftarrow> hybrid_seq_rm (int s) (pm s) (- 1) h; Some h' })
       [0..<LLAMA_MAX_SEQ] h
   }"

text \<open>The loop over the micro-batches. \<open>compute\<close> is the attention part of the graph and its status, \<open>junk\<close> what
  a failed graph leaves in the states. Fuel for every micro-batch of the context is enough.\<close>

fun hybrid_decode :: "nat \<Rightarrow> ('e llama_ubatch \<Rightarrow> 'd kv_cache \<Rightarrow> ggml_status \<times> 'd list) \<Rightarrow> ('v \<Rightarrow> 'v) \<Rightarrow> ('e llama_ubatch \<Rightarrow> nat \<Rightarrow> 'v \<Rightarrow> 'v)
    \<Rightarrow> ((nat \<Rightarrow> 'v) \<Rightarrow> nat \<Rightarrow> 'v) \<Rightarrow> ('d list \<Rightarrow> int list \<Rightarrow> bool \<times> 'd list) \<Rightarrow> bool
    \<Rightarrow> 'e hybrid_context \<Rightarrow> 'd hybrid_memory \<times> (nat \<Rightarrow> 'v) \<Rightarrow> (int \<times> 'e hybrid_context \<times> 'd hybrid_memory \<times> (nat \<Rightarrow> 'v)) option" where
  "hybrid_decode 0 compute scale0 F junk shift_graph rope_none cx st = None"
| "hybrid_decode (Suc fuel) compute scale0 F junk shift_graph rope_none cx (h, D) = do {
     u \<leftarrow> hybrid_ctx_get_ubatch cx;
     (cx1, h1) \<leftarrow> hybrid_ctx_apply shift_graph rope_none cx h;
     (case compute u (hy_attn h1) of (st, d) \<Rightarrow>
       let h2 = h1\<lparr>hy_attn := (hy_attn h1)\<lparr>kv_data := d\<rparr>\<rparr> in
       if st = GGML_STATUS_SUCCESS then do {
         r \<leftarrow> hc_recr cx1;
         D1 \<leftarrow> rs_compute scale0 F r (hy_recr h1) D;
         (more, cx2) \<leftarrow> hybrid_ctx_next cx1;
         if more then hybrid_decode fuel compute scale0 F junk shift_graph rope_none cx2 (h2, D1) else Some (0, cx2, h2, D1)
       } else do {
         h3 \<leftarrow> hybrid_rollback u h2;
         Some (if st = GGML_STATUS_ABORTED then 2 else if st = GGML_STATUS_ALLOC_FAILED then - 2 else - 3, cx1, h3, junk D)
       })
   }"

lemma rs_process_split: "rs_process scale0 F r (m, D) =
  Option.bind (rs_ctx_apply r m) (\<lambda>(_, m1). Option.bind (rs_compute scale0 F r m1 D) (\<lambda>D1. Some (m1, D1)))"
  by (simp add: rs_process_def rs_compute_def bind_assoc Let_def case_prod_unfold)

lemma rs_process_SomeD:
  assumes "rs_process scale0 F r (m, D) = Some (m1, D1)"
  shows "\<exists>b. rs_ctx_apply r m = Some (b, m1) \<and> rs_compute scale0 F r m1 D = Some D1"
proof -
  from assms obtain x where x: "rs_ctx_apply r m = Some x" by (cases "rs_ctx_apply r m") (simp_all add: rs_process_split)
  obtain b m' where "x = (b, m')" by fastforce
  with assms x show ?thesis by (cases "rs_compute scale0 F r m' D") (simp_all add: rs_process_split)
qed

text \<open>The statuses of the two memories: the pair fails when one fails, and has work when one has.\<close>

lemma combine_fail: "llama_memory_status_is_fail (llama_memory_status_combine s t) \<longleftrightarrow> llama_memory_status_is_fail s \<or> llama_memory_status_is_fail t"
  by (cases s; cases t) (simp_all add: llama_memory_status_combine_def llama_memory_status_is_fail_def)

lemma combine_success: "llama_memory_status_combine s t = STATUS_SUCCESS \<longleftrightarrow>
    \<not> llama_memory_status_is_fail s \<and> \<not> llama_memory_status_is_fail t \<and> (s = STATUS_SUCCESS \<or> t = STATUS_SUCCESS)"
  by (cases s; cases t) (simp_all add: llama_memory_status_combine_def llama_memory_status_is_fail_def)

lemma hybrid_run_spec:
  assumes ok: "\<And>u kv. fst (compute u kv) = GGML_STATUS_SUCCESS"
    and num: "rs_numeric Z G scale0 F"
    and "\<forall>u \<in> set us. rs_ubatch_ok (rs_size (hy_recr h)) u \<and> rs_fits B u"
    and "rs_wf (hy_recr h)" "rs_room B (hy_recr h)" "rs_data_ok Z G D (hy_recr h)"
    and "apply_all compute sis us (hy_attn h) = Some kv'" "length sis = length us" "us \<noteq> []" "length us \<le> fuel"
    and "hc_status cx = STATUS_SUCCESS" "hc_ubatches cx = us0 @ us" "hc_i_next cx = length us0" "hc_attn cx = Some c" "hc_recr cx = Some r"
    and "cx_status c = STATUS_SUCCESS" "cx_ubatches c = us0 @ us" "cx_sinfos c = sis0 @ sis" "length sis0 = length us0" "cx_i_cur c = length us0"
    and "rx_status r = STATUS_SUCCESS" "rx_ubatches r = us0 @ us" "rx_i_next r = length us0" "rx_is_full r = False"
  shows "\<exists>cx' m' D'. hybrid_decode fuel compute scale0 F junk shift_graph rope_none cx (h, D) = Some (0, cx', \<lparr>hy_attn = kv', hy_recr = m'\<rparr>, D') \<and>
    rs_wf m' \<and> rs_size m' = rs_size (hy_recr h) \<and>
    (\<forall>q < rs_size (hy_recr h). rs_state Z D' m' q = fold (rs_abs_step Z F) us (rs_state Z D (hy_recr h)) q)"
  using assms(3-)
proof (induction us arbitrary: fuel cx c r h D us0 sis0 sis)
  case (Cons u us)
  note A = Cons.prems
  from A(6) obtain si sis' where sis: "sis = si # sis'" "length sis' = length us" by (cases sis) auto
  from A(8) obtain f where f: "fuel = Suc f" "length us \<le> f" by (cases fuel) auto
  from A(5) sis obtain kv1 where
    kv1: "apply_ubatch si u (hy_attn h) = Some kv1" "apply_all compute sis' us (kv1\<lparr>kv_data := snd (compute u kv1)\<rparr>) = Some kv'"
    by (auto split: Option.bind_splits)
  obtain d where d: "compute u kv1 = (GGML_STATUS_SUCCESS, d)" using ok [of u kv1] by (cases "compute u kv1") auto
  have u: "rs_ubatch_ok (rs_size (hy_recr h)) u" "rs_fits B u" using A(1) by simp_all
  have rlt: "rx_i_next r < length (rx_ubatches r)" "u = rx_ubatches r ! rx_i_next r" using A(20,21) by (simp_all add: nth_append)
  from rs_process_refines [OF A(2) u(1) A(3) u(2) num A(4) A(19,22) rlt] obtain m1 D1 where
    R: "rs_process scale0 F r (hy_recr h, D) = Some (m1, D1)" "rs_wf m1" "rs_size m1 = rs_size (hy_recr h)" "rs_room B m1" "rs_data_ok Z G D1 m1"
    "\<forall>q < rs_size (hy_recr h). rs_state Z D1 m1 q = rs_abs_step Z F u (rs_state Z D (hy_recr h)) q" by blast
  from rs_process_SomeD [OF R(1)] obtain b where R1: "rs_ctx_apply r (hy_recr h) = Some (b, m1)" "rs_compute scale0 F r m1 D = Some D1" by blast
  let ?c = "c\<lparr>cx_n_kv := kv_get_n_kv si kv1\<rparr>"
  let ?h = "\<lparr>hy_attn = kv1\<lparr>kv_data := d\<rparr>, hy_recr = m1\<rparr>"
  have ap: "hybrid_ctx_apply shift_graph rope_none cx h = Some (cx\<lparr>hc_attn := Some ?c\<rparr>, \<lparr>hy_attn = kv1, hy_recr = m1\<rparr>)"
    using A(9,12,13,14,15,16,17,18) sis kv1(1) R1(1)
    by (simp add: hybrid_ctx_apply_def ctx_apply_def llama_memory_status_is_fail_def nth_append)
  have gu: "hybrid_ctx_get_ubatch cx = Some u" using A(9,10,11) by (simp add: hybrid_ctx_get_ubatch_def nth_append)
  let ?cx = "cx\<lparr>hc_attn := Some (?c\<lparr>cx_i_cur := cx_i_cur c + 1\<rparr>), hc_recr := Some (r\<lparr>rx_i_next := rx_i_next r + 1\<rparr>), hc_i_next := hc_i_next cx + 1\<rparr>"
  have nx: "hybrid_ctx_next (cx\<lparr>hc_attn := Some ?c\<rparr>) = Some (us \<noteq> [], ?cx)"
  proof -
    have "ctx_next ?c = Some (us \<noteq> [], ?c\<lparr>cx_i_cur := cx_i_cur c + 1\<rparr>)"
      unfolding ctx_next_def Let_def using A(14,15,18) by (simp add: not_le)
    moreover have "rs_ctx_next r = Some (us \<noteq> [], r\<lparr>rx_i_next := rx_i_next r + 1\<rparr>)"
      unfolding rs_ctx_next_def Let_def using A(19,20,21) by simp
    moreover have "hc_i_next cx + 1 < length (hc_ubatches cx) \<longleftrightarrow> us \<noteq> []" using A(10,11) by simp
    ultimately show ?thesis unfolding hybrid_ctx_next_def Let_def using A(9,13) by simp
  qed
  have step: "hybrid_decode fuel compute scale0 F junk shift_graph rope_none cx (h, D) =
    (if us \<noteq> [] then hybrid_decode f compute scale0 F junk shift_graph rope_none ?cx (?h, D1) else Some (0, ?cx, ?h, D1))"
    using gu ap d R1(2) nx A(13) f(1) by (simp add: Let_def)
  have st: "rs_state Z D1 m1 = rs_abs_step Z F u (rs_state Z D (hy_recr h))"
    by (rule rs_abs_step_ext [OF u(1) R(3,6)])
  show ?case
  proof (cases "us = []")
    case True
    then show ?thesis using step kv1(2) sis R d by simp
  next
    case False
    have "\<exists>cx' m' D'. hybrid_decode f compute scale0 F junk shift_graph rope_none ?cx (?h, D1) = Some (0, cx', \<lparr>hy_attn = kv', hy_recr = m'\<rparr>, D') \<and>
      rs_wf m' \<and> rs_size m' = rs_size (hy_recr ?h) \<and>
      (\<forall>q < rs_size (hy_recr ?h). rs_state Z D' m' q = fold (rs_abs_step Z F) us (rs_state Z D1 (hy_recr ?h)) q)"
      by (rule Cons.IH [of ?h D1 sis' f ?cx "us0 @ [u]" "?c\<lparr>cx_i_cur := cx_i_cur c + 1\<rparr>" "r\<lparr>rx_i_next := rx_i_next r + 1\<rparr>" "sis0 @ [si]"])
        (use A sis kv1(2) R d f False in simp_all)
    with step False R(3) st show ?thesis by simp
  qed
qed simp

section \<open>The micro-batches of a batch fit both memories\<close>

lemma rs_batch_mono: "rs_batch sz B a \<Longrightarrow> sz \<le> sz' \<Longrightarrow> rs_batch sz' B a"
  unfolding rs_batch_def by fastforce

lemma equal_rows_placeable:
  assumes add: "ubatch_add (concat per) (length per) True a0 = Some (u, a')" and rows: "equal_rows a per"
    and b: "rs_batch (al_n_seq_max a) B a" and mx: "al_n_seq_max a \<le> LLAMA_MAX_SEQ"
    and fields: "al_n_tokens a0 = al_n_tokens a" "al_embd a0 = al_embd a" "al_n_pos_per_embd a0 = al_n_pos_per_embd a"
      "al_pos a0 = al_pos a" "al_n_seq_id a0 = al_n_seq_id a" "al_seq_id a0 = al_seq_id a" "al_n_seq_max a0 = al_n_seq_max a"
    and inv: "kv_inv kv" and one: "kv_n_stream kv = 1" and room: "B < int32_max"
  shows "ub_placeable kv u"
proof -
  let ?c = "concat per" and ?n = "al_n_tokens a"
  from rows have ne: "per \<noteq> []" and lt: "\<forall>i \<in> set ?c. i < ?n" and k: "\<exists>k > 0. \<forall>row \<in> set per. length row = k"
    unfolding equal_rows_def by blast+
  have c0: "0 < length ?c" using ne k by (cases per) fastforce+
  let ?npc = "if al_embd a = None then 1 else al_n_pos_per_embd a"
  from add have u: "ub_n_tokens u = length ?c" "ub_n_seq_id u = map ((!) (al_n_seq_id a)) ?c" "ub_seq_id u = map ((!) (al_seq_id a)) ?c"
    "ub_pos u = concat (map (\<lambda>j. map (\<lambda>i. al_pos a ! (j * ?n + i)) ?c) [0..<?npc])"
    "ub_seq_id_unq u = filter (\<lambda>s. list_ex (\<lambda>i. s \<in> set (token_seqs (al_n_seq_id a) (al_seq_id a) i)) ?c) [0..<al_n_seq_max a]"
    using ne by (auto simp: ubatch_add_def Let_def fields split: Option.bind_splits)
  have "0 < ?npc" using b by (simp add: rs_batch_def)
  then obtain m where "?npc = Suc m" using gr0_implies_Suc by blast
  then have "[0..<?npc] = 0 # [1..<?npc]" by (simp add: upt_conv_Cons)
  then have pos: "ub_pos u ! x = al_pos a ! (?c ! x)" if "x < length ?c" for x using that u(4) by (simp add: nth_append)
  have tok: "\<exists>q. tok_seqs u x = [q] \<and> 0 \<le> q \<and> q < int (al_n_seq_max a) \<and> 0 \<le> ub_pos u ! x \<and> ub_pos u ! x \<le> B" if x: "x < length ?c" for x
  proof -
    have i: "?c ! x < ?n" using lt nth_mem [OF x] by blast
    with b obtain q where "take (nat (al_n_seq_id a ! (?c ! x))) (al_seq_id a ! (?c ! x)) = [q]" "0 \<le> q" "q < int (al_n_seq_max a)"
      "0 \<le> al_pos a ! (?c ! x)" "al_pos a ! (?c ! x) \<le> B" unfolding rs_batch_def by blast
    then show ?thesis using x pos [OF x] by (simp add: tok_seqs_def u)
  qed
  from inv one have s2s: "length (kv_seq_to_stream kv) = LLAMA_MAX_SEQ" by (simp add: kv_inv_def)
  have ok: "token_ok kv u st x" if "x < length ?c" for st x
    using tok [OF that] room mx one by (auto simp: token_ok_def)
  have "seq_guard kv u (length ?c) 0"
  proof -
    from tok [OF c0] obtain q where q: "tok_seqs u 0 = [q]" "0 \<le> q" "q < int (al_n_seq_max a)" by blast
    have "token_seqs (al_n_seq_id a) (al_seq_id a) (?c ! 0) = map nat (tok_seqs u 0)" using c0 by (simp add: token_seqs_def tok_seqs_def u)
    then have "nat q \<in> set (token_seqs (al_n_seq_id a) (al_seq_id a) (?c ! 0))" using q by simp
    moreover have "?c ! 0 \<in> set ?c" using c0 by (rule nth_mem)
    ultimately have "nat q \<in> set (ub_seq_id_unq u)" using q(2,3) unfolding u(5) by (auto simp: list_ex_iff)
    then have "0 < length (ub_seq_id_unq u)" by (rule length_pos_if_in_set)
    moreover have "ub_seq_id_unq u ! 0 < al_n_seq_max a" using nth_mem [OF calculation] unfolding u(5) by simp
    ultimately show ?thesis using one mx s2s by (simp add: seq_guard_def)
  qed
  then have "ub_fits kv u 1 (length ?c)" using c0 one ok u(1) by (simp add: ub_fits_def)
  moreover have "\<forall>i < ub_n_tokens u. ub_pos u ! i < int32_max" using tok room u(1) by fastforce
  ultimately show ?thesis unfolding ub_placeable_def by blast
qed

definition pair_ok :: "nat \<Rightarrow> int \<Rightarrow> 'e allocr \<Rightarrow> bool" where
  "pair_ok sz B a \<longleftrightarrow> equal_ok a \<and> \<not> al_has_cpl a \<and> rs_batch (al_n_seq_max a) B a \<and> al_n_seq_max a \<le> LLAMA_MAX_SEQ \<and> al_n_seq_max a \<le> sz"

lemma equal_split_pair:
  assumes "split_loop fuel (split_equal n_ubatch True) a = Some (us, a')" "pair_ok sz B a"
    and kv: "kv_inv kv" "kv_n_stream kv = 1" "B < int32_max"
  shows "\<forall>u \<in> set us. rs_ubatch_ok sz u \<and> rs_fits B u \<and> ub_placeable kv u"
proof (rule split_loop_all [OF assms(1), where ok = "pair_ok sz B"])
  show "pair_ok sz B a" by (rule assms(2))
next
  fix a u a' assume ok: "pair_ok sz B a" and eq: "split_equal n_ubatch True a = Some (u, a')" and u0: "ub_n_tokens u \<noteq> 0"
  then have P: "equal_ok a" "\<not> al_has_cpl a" "rs_batch (al_n_seq_max a) B a" "al_n_seq_max a \<le> LLAMA_MAX_SEQ" "al_n_seq_max a \<le> sz"
    by (simp_all add: pair_ok_def)
  from split_equal_some [OF P(1,2) eq u0] obtain per where rows: "equal_rows a per"
    and a': "a' = a\<lparr>al_used := map (\<lambda>i. al_used a ! i \<or> i \<in> set (concat per)) [0..<al_n_tokens a],
      al_n_used := al_n_used a + length (concat per), al_out_ids := al_out_ids a @ filter (\<lambda>i. al_logits a ! i \<noteq> 0) (concat per)\<rparr>"
    and add: "ubatch_add (concat per) (length per) True (split_reset a) = Some (u, (split_reset a)\<lparr>
      al_out_ids := filter (\<lambda>i. al_logits a ! i \<noteq> 0) (concat per)\<rparr>)" by blast
  have "rs_ubatch_ok sz u \<and> rs_fits B u"
    by (rule equal_rows_ubatch_ok [OF add rows rs_batch_mono [OF P(3,5)]]) (simp_all add: split_reset_def)
  moreover have "ub_placeable kv u"
    by (rule equal_rows_placeable [OF add rows P(3,4) _ _ _ _ _ _ _ kv]) (simp_all add: split_reset_def)
  moreover have "equal_ok a'" unfolding a' by (rule equal_rows_ok [OF P(1) rows])
  moreover have "rs_batch (al_n_seq_max a') B a'" "\<not> al_has_cpl a'" "al_n_seq_max a' = al_n_seq_max a" using P(2,3) unfolding a' by (simp_all add: rs_batch_def)
  ultimately show "pair_ok sz B a' \<and> rs_ubatch_ok sz u \<and> rs_fits B u \<and> ub_placeable kv u" using P(4,5) by (simp add: pair_ok_def)
qed

lemma hybrid_init_batch_spec:
  assumes wf: "rs_wf (hy_recr h)" "rs_room B (hy_recr h)" and a: "pair_ok (rs_size (hy_recr h)) B (split_reset a)"
    and kv: "kv_inv (hy_attn h)" "slot_ready (hy_attn h)" "kv_swa_type (hy_attn h) = SWA_NONE" "kv_n_stream (hy_attn h) = 1" "B < int32_max"
    and ne: "0 < al_n_tokens a"
  shows "\<exists>us sinfos a' n z. hybrid_init_batch n_ubatch False a h =
      Some (if sinfos = [] then hybrid_ctx_error STATUS_FAILED_PREPARE else hybrid_ctx_of us (ctx_batch sinfos us) (rs_ctx_batch us), a',
        h\<lparr>hy_recr := (hy_recr h)\<lparr>rs_n := n, rs_z := z\<rparr>\<rparr>) \<and>
    prepare us (hy_attn h) = Some (sinfos, hy_attn h) \<and> sum_list (map ub_n_tokens us) = al_n_tokens a \<and>
    (\<exists>idxss. shares_out (equal_block n_ubatch) (split_reset a) us idxss \<and> al_out_ids a' = filter (\<lambda>i. al_logits a ! i \<noteq> 0) (concat idxss)) \<and>
    (\<forall>u \<in> set us. rs_ubatch_ok (rs_size (hy_recr h)) u \<and> rs_fits B u \<and> ub_placeable (hy_attn h) u)"
proof -
  let ?a = "split_reset a"
  have cnt: "unused_count ?a = al_n_tokens a" by (rule unused_count_reset)
  have ok: "equal_ok ?a" "\<not> al_has_cpl ?a" using a by (simp_all add: pair_ok_def)
  from equal_splitter.loop_uses_all [of ?a True "Suc (al_n_tokens ?a)" n_ubatch] ok cnt obtain us a' where
    us: "split_loop (Suc (al_n_tokens ?a)) (split_equal n_ubatch True) ?a = Some (us, a')"
    "al_n_used a' = al_n_used ?a + unused_count ?a" "sum_list (map ub_n_tokens us) = unused_count ?a" "al_n_tokens a' = al_n_tokens ?a" by auto
  note U = equal_split_pair [OF us(1) a kv(1,4,5)]
  have "al_has_cpl a = al_has_cpl ?a" "al_n_tokens ?a = al_n_tokens a" by (simp_all add: split_reset_def)
  with equal_loop_shares [OF ok(1), of True n_ubatch us a'] ok(2) us(1) obtain idxss where
    I: "shares_out (equal_block n_ubatch) ?a us idxss" "al_out_ids a' = filter (\<lambda>i. al_logits a ! i \<noteq> 0) (concat idxss)" by auto
  from rs_prepare_spec [OF wf, of us] U obtain n z where r: "rs_prepare us (hy_recr h) = Some (True, (hy_recr h)\<lparr>rs_n := n, rs_z := z\<rparr>)" by blast
  have "us \<noteq> []" using us(3) cnt ne by auto
  from prepare_spec [OF kv(1-3) _ this] U obtain sinfos attn where p: "prepare us (hy_attn h) = Some (sinfos, attn)"
    "kv_n_stream (hy_attn h) = 1 \<longrightarrow> attn = hy_attn h" by blast
  have "attn = hy_attn h" using p(2) kv(4) by simp
  with us cnt r p(1) U I show ?thesis by (intro exI [where x = us] exI [where x = sinfos] exI [where x = a'] exI [where x = n] exI [where x = z])
    (auto simp: hybrid_init_batch_def Let_def simp del: split_loop.simps)
qed

end
