(* ===== verification/MemState.thy ===== *)
theory MemState
  imports MemPairRun
begin

text \<open>
  State files of the two caches of \<^verbatim>\<open>src/src/llama-kv-cache-iswa.cpp\<close>: one file holds the state of the cache without a window, left out when
  only the partial state is asked for (\<^verbatim>\<open>LLAMA_STATE_SEQ_FLAGS_PARTIAL_ONLY\<close>), and then that of the
  window cache.  Each cache has layers of its own, since the constructor filters them.
\<close>

definition iswa_state_write :: "kv_layer list \<Rightarrow> kv_layer list \<Rightarrow> bool \<Rightarrow> int \<Rightarrow> bool \<Rightarrow> stream_data iswa_cache \<Rightarrow> bytes option" where
  "iswa_state_write layers_base layers_swa v_trans seq_id partial_only m = do {
     b \<leftarrow> (if partial_only then Some [] else state_write layers_base v_trans seq_id (iw_base m));
     s \<leftarrow> state_write layers_swa v_trans seq_id (iw_swa m);
     Some (b @ s)
   }"

text \<open>An exception of the first reader leaves the second cache alone.\<close>

definition iswa_state_read :: "stream_data \<Rightarrow> stream_data \<Rightarrow> kv_layer list \<Rightarrow> kv_layer list \<Rightarrow> bool \<Rightarrow> nat \<Rightarrow> int \<Rightarrow> bool \<Rightarrow> bytes \<times> stream_data iswa_cache
    \<Rightarrow> ((state_error + bool) \<times> bytes \<times> stream_data iswa_cache) option" where
  "iswa_state_read zero_base zero_swa layers_base layers_swa v_trans n_pos_per_embd seq_id partial_only st = (case st of (bs, m) \<Rightarrow> do {
     (r, bs1, base) \<leftarrow> (if partial_only then Some (Inr True, bs, iw_base m)
       else state_read zero_base layers_base v_trans n_pos_per_embd seq_id (bs, iw_base m));
     let m1 = m\<lparr>iw_base := base\<rparr>;
     case r of
       Inl e \<Rightarrow> Some (Inl e, bs1, m1)
     | Inr _ \<Rightarrow> do {
         (r2, bs2, swa) \<leftarrow> state_read zero_swa layers_swa v_trans n_pos_per_embd seq_id (bs1, iw_swa m1);
         Some (r2, bs2, m1\<lparr>iw_swa := swa\<rparr>)
       }
   })"

text \<open>What reading a saved cache does to the cache read into: an empty file changes nothing.\<close>

definition restored :: "kv_layer list \<Rightarrow> bool \<Rightarrow> stream_data kv_cache \<Rightarrow> stream_data kv_cache \<Rightarrow> stream_data kv_cache \<Rightarrow> bool" where
  "restored layers v_trans saved old new \<longleftrightarrow> kv_inv new \<and>
     (if cache_entries layers v_trans saved 0 = [] then new = old else cache_entries layers v_trans new 0 = cache_entries layers v_trans saved 0)"

definition restorable :: "stream_data \<Rightarrow> kv_layer list \<Rightarrow> bool \<Rightarrow> stream_data kv_cache \<Rightarrow> stream_data kv_cache \<Rightarrow> bool" where
  "restorable zero layers v_trans saved old \<longleftrightarrow> cache_ok layers v_trans saved \<and> cache_ok layers v_trans old \<and> same_config saved old \<and>
     kv_n_stream saved = 1 \<and> data_ok v_trans (kv_get_size saved) layers zero"

lemma restore_one:
  assumes "restorable zero layers v_trans saved old"
  shows "\<exists>bs. state_write layers v_trans (- 1) saved = Some bs \<and>
    (\<forall>rest. \<exists>new. state_read zero layers v_trans npe (- 1) (bs @ rest, old) = Some (Inr True, rest, new) \<and> restored layers v_trans saved old new)"
proof -
  from assms have A: "cache_ok layers v_trans saved" "cache_ok layers v_trans old" "same_config saved old" "kv_n_stream saved = 1"
    "data_ok v_trans (kv_get_size saved) layers zero" by (simp_all add: restorable_def)
  note W = state_write_eq [OF A(1)]
  have lu: "last_used layers v_trans saved 1 0 \<longleftrightarrow> cache_entries layers v_trans saved 0 \<noteq> []" by (auto simp: last_used_def)
  have "\<exists>new. state_read zero layers v_trans npe (- 1) ((le_bytes 4 (kv_n_stream saved) @ concat (map (stream_bytes layers v_trans saved) [0..<kv_n_stream saved])) @ rest, old) =
      Some (Inr True, rest, new) \<and> restored layers v_trans saved old new" for rest
    using state_read_spec [OF A(1-3,5) W, of npe rest] A(4) lu by (auto simp: restored_def cache_ok_def)
  with W show ?thesis by blast
qed

section \<open>Properties\<close>

text \<open>C29: Saving the two caches, of one stream each, and restoring them into any two of the same configuration succeeds and
  consumes exactly the saved bytes: a cache that was saved with a token has its tokens back with positions, sequences, keys and
  values, one that was saved empty keeps its old content. A partial
  state restores the window cache only and leaves the other cache as it is. A transposed value tensor of a layer has less
  than \<open>2 ^ 32\<close> bytes (\<open>cache_ok\<close>).\<close>
theorem iswa_state_roundtrip:
  assumes "restorable zb lb v_trans (iw_base m) (iw_base m1)" and "restorable zs ls v_trans (iw_swa m) (iw_swa m1)"
  shows "\<exists>bs m2. iswa_state_write lb ls v_trans (- 1) partial_only m = Some bs \<and>
    iswa_state_read zb zs lb ls v_trans npe (- 1) partial_only (bs @ rest, m1) = Some (Inr True, rest, m2) \<and>
    restored ls v_trans (iw_swa m) (iw_swa m1) (iw_swa m2) \<and>
    (if partial_only then iw_base m2 = iw_base m1 else restored lb v_trans (iw_base m) (iw_base m1) (iw_base m2))"
proof -
  from restore_one [OF assms(2)] obtain s where s: "state_write ls v_trans (- 1) (iw_swa m) = Some s"
    "\<forall>rest. \<exists>new. state_read zs ls v_trans npe (- 1) (s @ rest, iw_swa m1) = Some (Inr True, rest, new) \<and> restored ls v_trans (iw_swa m) (iw_swa m1) new" by blast
  from s(2) obtain swa where swa: "state_read zs ls v_trans npe (- 1) (s @ rest, iw_swa m1) = Some (Inr True, rest, swa)" "restored ls v_trans (iw_swa m) (iw_swa m1) swa" by blast
  from restore_one [OF assms(1)] obtain b where b: "state_write lb v_trans (- 1) (iw_base m) = Some b"
    "\<forall>rest. \<exists>new. state_read zb lb v_trans npe (- 1) (b @ rest, iw_base m1) = Some (Inr True, rest, new) \<and> restored lb v_trans (iw_base m) (iw_base m1) new" by blast
  from b(2) obtain base where base: "state_read zb lb v_trans npe (- 1) (b @ s @ rest, iw_base m1) = Some (Inr True, s @ rest, base)" "restored lb v_trans (iw_base m) (iw_base m1) base" by blast
  show ?thesis
  proof (cases partial_only)
    case True
    with s(1) swa show ?thesis
      by (intro exI [where x = s] exI [where x = "m1\<lparr>iw_swa := swa\<rparr>"]) (simp add: iswa_state_write_def iswa_state_read_def)
  next
    case False
    with s(1) swa b(1) base show ?thesis
      by (intro exI [where x = "b @ s"] exI [where x = "m1\<lparr>iw_base := base, iw_swa := swa\<rparr>"]) (simp add: iswa_state_write_def iswa_state_read_def)
  qed
qed

theorem iswa_state_roundtrip_witness:
  "\<exists>bs m2. iswa_state_write [demo_layer] [demo_layer] False (- 1) True \<lparr>iw_base = demo_state [one_cell 0] 3, iw_swa = demo_state [one_cell 0] 4, iw_unified = True\<rparr> = Some bs \<and>
    iswa_state_read [(replicate 4 0, replicate 4 0)] [(replicate 4 0, replicate 4 0)] [demo_layer] [demo_layer] False 1 (- 1) True
      (bs @ [9], \<lparr>iw_base = demo_state [cells_resize 1 cells_new] 0, iw_swa = demo_state [cells_resize 1 cells_new] 0, iw_unified = True\<rparr>) = Some (Inr True, [9], m2) \<and>
    iw_base m2 = demo_state [cells_resize 1 cells_new] 0 \<and>
    cache_entries [demo_layer] False (iw_swa m2) 0 = cache_entries [demo_layer] False (demo_state [one_cell 0] 4) 0"
proof -
  let ?new = "demo_state [cells_resize 1 cells_new] 0"
  let ?m = "\<lparr>iw_base = demo_state [one_cell 0] 3, iw_swa = demo_state [one_cell 0] 4, iw_unified = True\<rparr>" and ?m1 = "\<lparr>iw_base = ?new, iw_swa = ?new, iw_unified = True\<rparr>"
  have src: "cache_ok [demo_layer] False (demo_state [one_cell 0] x)" "kv_get_size (demo_state [one_cell 0] x) = 1" for x
    by (rule demo_state_ok; simp add: LLAMA_MAX_SEQ_def)+
  have tg: "cache_ok [demo_layer] False ?new" "kv_get_size ?new = 1" "data_ok False 1 [demo_layer] [(replicate 4 0, replicate 4 0)]"
    by (rule demo_state_ok [where cs = "[cells_resize 1 cells_new]"]; simp add: LLAMA_MAX_SEQ_def)+
  have "same_config (demo_state [one_cell 0] x) ?new" for x using src(2) tg(2) by (simp add: same_config_def demo_state_def)
  then have R: "restorable [(replicate 4 0, replicate 4 0)] [demo_layer] False (demo_state [one_cell 0] x) ?new" for x
    using src tg by (simp add: restorable_def) (simp add: demo_state_def)
  have E: "cache_entries [demo_layer] False (demo_state [one_cell 0] 4) 0 \<noteq> []" by (rule demo_entries) simp_all
  from iswa_state_roundtrip [of "[(replicate 4 0, replicate 4 0)]" "[demo_layer]" False ?m ?m1 "[(replicate 4 0, replicate 4 0)]" "[demo_layer]" True 1 "[9]"] R E
  show ?thesis by (auto simp: restored_def)
qed

end
