(* ===== verification/MemWindow.thy ===== *)
theory MemWindow
  imports MemPairRun KvPurge
begin

text \<open>
  The two caches of \<^verbatim>\<open>src/src/llama-kv-cache-iswa.cpp\<close> over time.  Its code reads the positions of a
  sequence from the window cache alone, because "the base cache is a superset of the SWA cache".  Here
  this is proved for every state that placing micro-batches, updates, and clearing, removing, keeping and
  copying whole sequences can reach: the window cache forgets tokens, the base cache never does.  Shifts and divisions of
  positions are left out: they move every sequence of a cell, and the two caches need not share their cells alike.
\<close>

section \<open>What a micro-batch adds\<close>

definition ub_positions :: "'e llama_ubatch \<Rightarrow> nat \<Rightarrow> int set" where
  "ub_positions u q = {ub_pos u ! i | i. i < ub_n_tokens u \<and> q \<in> set (map nat (tok_seqs u i))}"

lemma kv_holds_iff: "p \<in> kv_holds kv q \<longleftrightarrow> q < length (kv_seq_to_stream kv) \<and>
    (\<exists>i < cells_size (kv_v_cells kv ! (kv_seq_to_stream kv ! q)). q \<in> kc_seq (kv_v_cells kv ! (kv_seq_to_stream kv ! q)) ! i \<and>
      p = kc_pos (kv_v_cells kv ! (kv_seq_to_stream kv ! q)) ! i)"
  by (auto simp: kv_holds_def seq_view_def Let_def image_iff)

lemma stream_of_token:
  assumes inv: "kv_inv kv" and ok: "token_ok kv u st x" and st: "st < kv_n_stream kv" and q: "q \<in> set (map nat (tok_seqs u x))"
  shows "q < length (kv_seq_to_stream kv) \<and> kv_seq_to_stream kv ! q = st"
proof -
  have "q < LLAMA_MAX_SEQ" "1 < kv_n_stream kv \<Longrightarrow> q = st" using ok q by (auto simp: token_ok_def)
  with inv st show ?thesis by (cases "kv_n_stream kv = 1") (auto simp: kv_inv_def)
qed

lemma placed_holds:
  assumes inv: "kv_inv kv" and fits: "slot_fits kv u k n si" and s2s: "kv_seq_to_stream kv1 = kv_seq_to_stream kv"
    and placed: "\<forall>s < k. placed (kv_v_cells kv ! unq_stream kv u s) (si_idxs si ! s) (\<lambda>ii. new_cell u (s * n + ii)) (kv_v_cells kv1 ! unq_stream kv u s)"
    and other: "\<forall>t. (\<forall>s < k. t \<noteq> unq_stream kv u s) \<longrightarrow> kv_v_cells kv1 ! t = kv_v_cells kv ! t"
  shows "kv_holds kv1 q \<subseteq> kv_holds kv q \<union> ub_positions u q"
    and "slot_free kv u k si \<Longrightarrow> kv_holds kv1 q = kv_holds kv q \<union> ub_positions u q"
proof -
  from fits have F: "ub_fits kv u k n" "length (si_idxs si) = k"
    and idxs: "\<And>s. s < k \<Longrightarrow> length (si_idxs si ! s) = n \<and> (\<forall>i \<in> set (si_idxs si ! s). i < cells_size (kv_v_cells kv ! unq_stream kv u s))"
    unfolding slot_fits_def by blast+
  from F(1) have K: "0 < n" "ub_n_tokens u = k * n" and tok: "\<And>s ii. s < k \<Longrightarrow> ii < n \<Longrightarrow> token_ok kv u (unq_stream kv u s) (s * n + ii)"
    and guard: "\<And>s. s < k \<Longrightarrow> seq_guard kv u n s"
    unfolding ub_fits_def by blast+
  have st: "unq_stream kv u s < kv_n_stream kv" if "s < k" for s by (rule unq_stream_less [OF inv guard [OF that]])
  let ?st = "kv_seq_to_stream kv ! q"
  let ?c = "kv_v_cells kv ! ?st" and ?d = "kv_v_cells kv1 ! ?st"
  show sub: "kv_holds kv1 q \<subseteq> kv_holds kv q \<union> ub_positions u q"
  proof
    fix p assume "p \<in> kv_holds kv1 q"
    then obtain i where i: "q < length (kv_seq_to_stream kv)" "i < cells_size ?d" "q \<in> kc_seq ?d ! i" "p = kc_pos ?d ! i"
      by (auto simp: kv_holds_iff s2s)
    show "p \<in> kv_holds kv q \<union> ub_positions u q"
    proof (cases "\<exists>s < k. ?st = unq_stream kv u s")
      case False
      then have "?d = ?c" using other by blast
      with i show ?thesis by (auto simp: kv_holds_iff)
    next
      case True
      then obtain s where s: "s < k" "?st = unq_stream kv u s" by blast
      with placed have P: "cells_size ?d = cells_size ?c" "\<forall>ii < length (si_idxs si ! s). cell_at ?d (si_idxs si ! s ! ii) = new_cell u (s * n + ii)"
        "\<forall>i < cells_size ?c. i \<notin> set (si_idxs si ! s) \<longrightarrow> cell_at ?d i = cell_at ?c i" by (auto simp: placed_def)
      show ?thesis
      proof (cases "i \<in> set (si_idxs si ! s)")
        case True
        then obtain ii where ii: "ii < length (si_idxs si ! s)" "si_idxs si ! s ! ii = i" by (meson in_set_conv_nth)
        with P(2) have "cell_at ?d i = new_cell u (s * n + ii)" by blast
        then have "kc_pos ?d ! i = ub_pos u ! (s * n + ii)" "kc_seq ?d ! i = set (map nat (tok_seqs u (s * n + ii)))"
          by (simp_all add: cell_at_def new_cell_def)
        with i(3,4) have "p = ub_pos u ! (s * n + ii)" "q \<in> set (map nat (tok_seqs u (s * n + ii)))" by blast+
        moreover have "s * n + ii < ub_n_tokens u" using ii(1) idxs [OF s(1)] row_lt [OF s(1)] K(2) by simp
        ultimately show ?thesis by (auto simp: ub_positions_def)
      next
        case False
        with P(1,3) i have "cell_at ?d i = cell_at ?c i" by simp
        then have "kc_pos ?d ! i = kc_pos ?c ! i" "kc_seq ?d ! i = kc_seq ?c ! i" by (simp_all add: cell_at_def)
        with i P(1) have "p \<in> kv_holds kv q" unfolding kv_holds_iff by metis
        then show ?thesis by blast
      qed
    qed
  qed
  show "kv_holds kv1 q = kv_holds kv q \<union> ub_positions u q" if free: "slot_free kv u k si"
  proof (rule antisym [OF sub], rule Un_least)
    show "kv_holds kv q \<subseteq> kv_holds kv1 q"
    proof
      fix p assume "p \<in> kv_holds kv q"
      then obtain i where i: "q < length (kv_seq_to_stream kv)" "i < cells_size ?c" "q \<in> kc_seq ?c ! i" "p = kc_pos ?c ! i"
        by (auto simp: kv_holds_iff)
      have lt: "?st < kv_n_stream kv" using inv i(1) by (auto simp: kv_inv_def split: if_splits)
      show "p \<in> kv_holds kv1 q"
      proof (cases "\<exists>s < k. ?st = unq_stream kv u s")
        case False
        then have "?d = ?c" using other by blast
        with i show ?thesis by (auto simp: kv_holds_iff s2s)
      next
        case True
        then obtain s where s: "s < k" "?st = unq_stream kv u s" by blast
        have "kc_pos ?c ! i \<noteq> - 1" using cell_atD(4) [OF kv_invD(1) [OF inv lt] i(2) i(3)] by simp
        then have "i \<notin> set (si_idxs si ! s)" using free s by (auto simp: slot_free_def)
        with placed s i(2) have "cell_at ?d i = cell_at ?c i" "cells_size ?d = cells_size ?c" by (auto simp: placed_def)
        then have "kc_pos ?d ! i = kc_pos ?c ! i" "kc_seq ?d ! i = kc_seq ?c ! i" "cells_size ?d = cells_size ?c" by (simp_all add: cell_at_def)
        with i show ?thesis unfolding kv_holds_iff s2s by metis
      qed
    qed
    show "ub_positions u q \<subseteq> kv_holds kv1 q"
    proof
      fix p assume "p \<in> ub_positions u q"
      then obtain x where x: "x < k * n" "q \<in> set (map nat (tok_seqs u x))" "p = ub_pos u ! x" using K(2) by (auto simp: ub_positions_def)
      let ?s = "x div n" and ?ii = "x mod n"
      have s: "?s < k" "?ii < n" "x = ?s * n + ?ii" using x(1) K(1) by (simp_all add: less_mult_imp_div_less)
      from stream_of_token [OF inv tok [OF s(1,2), folded s(3)] st [OF s(1)] x(2)]
      have q: "q < length (kv_seq_to_stream kv)" "?st = unq_stream kv u ?s" by simp_all
      let ?i = "si_idxs si ! ?s ! ?ii"
      have ii: "?ii < length (si_idxs si ! ?s)" "?i < cells_size ?c" using idxs [OF s(1)] s(2) q(2) by simp_all
      with placed s(1) q(2) have "cell_at ?d ?i = new_cell u x" "cells_size ?d = cells_size ?c" using s(3) by (auto simp: placed_def)
      then have "kc_pos ?d ! ?i = ub_pos u ! x" "kc_seq ?d ! ?i = set (map nat (tok_seqs u x))" "cells_size ?d = cells_size ?c"
        by (simp_all add: cell_at_def new_cell_def)
      with q ii x(2,3) show "p \<in> kv_holds kv1 q" unfolding kv_holds_iff s2s by metis
    qed
  qed
qed

section \<open>What applying a micro-batch keeps\<close>

lemma kv_seq_rm_SomeD: "kv_seq_rm q p0 p1 kv = Some r \<Longrightarrow> q = - 1 \<or> 0 \<le> q \<and> nat q < length (kv_seq_to_stream kv)"
  by (simp add: kv_seq_rm_def guard_def split: if_splits)

lemma purge_shrinks:
  assumes "apply_purge mx s kv = Some kv'" "kv_inv kv"
  shows "kv_inv kv' \<and> kv_seq_to_stream kv' = kv_seq_to_stream kv \<and> (\<forall>q. kv_holds kv' q \<subseteq> kv_holds kv q)"
proof (cases "kv' = kv")
  case True
  with assms show ?thesis by simp
next
  case False
  with assms(1) have "\<exists>p0 p1 ok. kv_seq_rm (int s) p0 p1 kv = Some (ok, kv')"
    by (auto simp: apply_purge_def split: Option.bind_splits if_splits)
  then obtain p0 p1 ok where rm: "kv_seq_rm (int s) p0 p1 kv = Some (ok, kv')" by blast
  from kv_seq_rm_SomeD [OF rm] have s: "0 \<le> int s" "nat (int s) < length (kv_seq_to_stream kv)" by auto
  from kv_seq_rm_view [OF assms(2) s, of p0 p1] rm have v: "kv_inv kv'" "kv_seq_to_stream kv' = kv_seq_to_stream kv"
    "seq_view kv' s = {(i, p) \<in> seq_view kv s. \<not> (range_lo p0 \<le> p \<and> p < range_hi p1)}" "\<forall>t. t \<noteq> s \<longrightarrow> seq_view kv' t = seq_view kv t" by auto
  have "seq_view kv' q \<subseteq> seq_view kv q" for q using v(3,4) by (cases "q = s") auto
  with v show ?thesis unfolding kv_holds_def by (meson image_mono)
qed

lemma purges_shrink:
  assumes "foldM (apply_purge mx) ss kv = Some kv'" "kv_inv kv"
  shows "kv_inv kv' \<and> kv_seq_to_stream kv' = kv_seq_to_stream kv \<and> (\<forall>q. kv_holds kv' q \<subseteq> kv_holds kv q)"
  using assms
proof (induction ss arbitrary: kv)
  case (Cons s ss)
  then obtain kv1 where kv1: "apply_purge mx s kv = Some kv1" "foldM (apply_purge mx) ss kv1 = Some kv'" by (auto split: Option.bind_splits)
  note P = purge_shrinks [OF kv1(1) Cons.prems(2)]
  with Cons.IH [OF kv1(2)] show ?case by fastforce
qed simp

lemma kv_holds_cong: "kv_v_cells kv' = kv_v_cells kv \<Longrightarrow> kv_seq_to_stream kv' = kv_seq_to_stream kv \<Longrightarrow> kv_holds kv' = kv_holds kv"
  by (simp add: kv_holds_def seq_view_def fun_eq_iff)

lemma apply_ubatch_holds:
  assumes inv: "kv_inv kv" and ready: "slot_ready kv" and fits: "slot_fits kv u k n si"
  shows "\<exists>kv'. apply_ubatch si u kv = Some kv' \<and> kv_inv kv' \<and> kv_seq_to_stream kv' = kv_seq_to_stream kv \<and>
    (\<forall>q. kv_holds kv' q \<subseteq> kv_holds kv q \<union> ub_positions u q) \<and>
    (slot_free kv u k si \<longrightarrow> (\<forall>q. kv_holds kv' q = kv_holds kv q \<union> ub_positions u q))"
proof -
  from wpD [OF apply_ubatch_spec [OF assms]] obtain kv' where kv': "apply_ubatch si u kv = Some kv'" "kv_inv kv'" "kv_conf kv kv'"
    "slot_free kv u k si \<Longrightarrow> (\<forall>s < k. placed (kv_v_cells kv ! unq_stream kv u s) (si_idxs si ! s) (\<lambda>ii. new_cell u (s * n + ii)) (kv_v_cells kv' ! unq_stream kv u s)) \<and>
      (\<forall>t. (\<forall>s < k. t \<noteq> unq_stream kv u s) \<longrightarrow> kv_v_cells kv' ! t = kv_v_cells kv ! t)" by blast
  have s2s: "kv_seq_to_stream kv' = kv_seq_to_stream kv" using kv_confD(2) [OF kv'(3)] .
  from apply_ubatch_loops [OF assms kv'(1)] obtain kv1 mx kv2 where A: "placed_streams kv u n si k kv1"
    and B: "foldM (apply_purge mx) [0..<LLAMA_MAX_SEQ] kv1 = Some kv2"
    "foldM (\<lambda>s kv. do { guard (si_idxs si ! s \<noteq> []); Some (put_head (si_strm si ! s) (last (si_idxs si ! s) + 1) kv) }) [0..<k] kv2 = Some kv'"
    by blast
  have inv1: "kv_inv kv1" by (rule placed_streams_inv [OF inv fits A])
  have s1: "kv_seq_to_stream kv1 = kv_seq_to_stream kv" using A kv_confD(2) by (auto simp: placed_streams_def)
  have "kv_holds kv1 q \<subseteq> kv_holds kv q \<union> ub_positions u q" for q
    by (rule placed_holds(1) [OF inv fits s1]) (use A in \<open>simp_all add: placed_streams_def\<close>)
  moreover have "kv_holds kv2 q \<subseteq> kv_holds kv1 q" for q using purges_shrink [OF B(1) inv1] by blast
  moreover have "kv_holds kv' = kv_holds kv2" using put_heads_same [OF B(2)] by (intro kv_holds_cong) simp_all
  ultimately have "\<forall>q. kv_holds kv' q \<subseteq> kv_holds kv q \<union> ub_positions u q" by (metis subset_trans)
  moreover have "kv_holds kv' q = kv_holds kv q \<union> ub_positions u q" if "slot_free kv u k si" for q
    by (rule placed_holds(2) [OF inv fits s2s _ _ that]) (use kv'(4) [OF that] in blast)+
  ultimately show ?thesis using kv'(1,2) s2s by blast
qed

lemma clear_holds: "kv_inv kv \<Longrightarrow> kv_holds (kv_clear zero data kv) q = {}"
proof -
  assume inv: "kv_inv kv"
  have "False" if q: "q < length (kv_seq_to_stream kv)" and i: "i < cells_size (kv_v_cells (kv_clear zero data kv) ! (kv_seq_to_stream kv ! q))"
    "q \<in> kc_seq (kv_v_cells (kv_clear zero data kv) ! (kv_seq_to_stream kv ! q)) ! i" for i
  proof -
    have st: "kv_seq_to_stream kv ! q < kv_n_stream kv" using inv q by (auto simp: kv_inv_def split: if_splits)
    have "i < kv_get_size kv" using i(1) kv_invD(2) [OF kv_clear_inv [OF inv, of zero data], of "kv_seq_to_stream kv ! q"] st inv by simp
    from kv_clear_free [OF inv st this, of zero data] i(2) show False by (simp add: cell_at_def cell_free_def)
  qed
  then show ?thesis unfolding kv_holds_def seq_view_def Let_def by auto
qed

text \<open>Updating changes no position.\<close>

definition same_holds :: "'d kv_cache \<Rightarrow> 'd kv_cache \<Rightarrow> bool" where
  "same_holds kv kv' \<longleftrightarrow> kv_inv kv' \<and> kv_seq_to_stream kv' = kv_seq_to_stream kv \<and> kv_holds kv' = kv_holds kv"

lemma same_holds_data: "kv_inv kv \<Longrightarrow> length d = length (kv_data kv) \<Longrightarrow> same_holds kv (kv\<lparr>kv_data := d\<rparr>)"
  unfolding same_holds_def by (intro conjI inv_data(1) kv_holds_cong) simp_all

lemma same_holds_shifts: "same_holds kv kv1 \<Longrightarrow> same_holds kv (clear_shifts kv1)"
  using clear_shifts_inv(1,3) [of kv1] unfolding same_holds_def kv_holds_def by (simp add: clear_shifts_def fun_eq_iff)

lemma kv_update_holds:
  assumes inv: "kv_inv kv" and sc: "\<forall>(a, b) \<in> set sc. a < kv_n_stream kv \<and> b < kv_n_stream kv \<and> a \<noteq> b"
    and len: "\<And>d s. length (snd (shift_graph d s)) = length d"
  shows "\<exists>r kv'. kv_update shift_graph rope_none do_shift sc kv = Some (r, kv') \<and> same_holds kv kv'"
proof -
  have "same_holds kv (kv\<lparr>kv_data := copy_streams sc (kv_data kv)\<rparr>)" by (rule same_holds_data [OF inv]) simp
  moreover have "same_holds kv (kv\<lparr>kv_data := snd (shift_graph (copy_streams sc (kv_data kv)) x)\<rparr>)" for x
    by (rule same_holds_data [OF inv]) (simp add: len)
  ultimately show ?thesis unfolding update_spec [OF inv sc] Let_def by (auto simp: same_holds_shifts)
qed

section \<open>The two caches over time\<close>

definition iswa_ok :: "'d iswa_cache \<Rightarrow> bool" where
  "iswa_ok m \<longleftrightarrow> kv_inv (iw_base m) \<and> kv_inv (iw_swa m) \<and> kv_known (iw_base m) = kv_known (iw_swa m) \<and>
     kv_grouped (iw_base m) = kv_grouped (iw_swa m) \<and>
     (\<forall>q. kv_holds (iw_swa m) q \<subseteq> kv_holds (iw_base m) q)"

text \<open>A context whose current micro-batch can be placed in both caches, in free cells of the base cache.\<close>

definition iswa_ctx_fits :: "'e iswa_context \<Rightarrow> 'd iswa_cache \<Rightarrow> bool" where
  "iswa_ctx_fits cx m \<longleftrightarrow> (\<exists>b s u k n k' n'. ic_base cx = Some b \<and> ic_swa cx = Some s \<and> slot_ready (iw_base m) \<and> slot_ready (iw_swa m) \<and>
     cx_i_cur b < length (cx_ubatches b) \<and> u = cx_ubatches b ! cx_i_cur b \<and> cx_i_cur s < length (cx_ubatches s) \<and> u = cx_ubatches s ! cx_i_cur s \<and>
     slot_fits (iw_base m) u k n (cx_sinfos b ! cx_i_cur b) \<and> slot_free (iw_base m) u k (cx_sinfos b ! cx_i_cur b) \<and>
     slot_fits (iw_swa m) u k' n' (cx_sinfos s ! cx_i_cur s))"

inductive iswa_reach :: "'e itself \<Rightarrow> 'd iswa_cache \<Rightarrow> bool" for e where
  iswa_reach_new: "0 < n_seq_max \<Longrightarrow> n_seq_max \<le> LLAMA_MAX_SEQ \<Longrightarrow> iswa_new full unified kv_size n_seq_max n_ubatch n_pad n_swa swa_type zero = Some m \<Longrightarrow>
    iswa_reach e m"
| iswa_reach_clear: "iswa_reach e m \<Longrightarrow> iswa_reach e (iswa_clear zero data m)"
| iswa_reach_rm: "iswa_reach e m \<Longrightarrow> 0 \<le> q \<Longrightarrow> iswa_seq_rm q p0 p1 m = Some (ok, m') \<Longrightarrow> iswa_reach e m'"
| iswa_reach_keep: "iswa_reach e m \<Longrightarrow> 0 \<le> q \<Longrightarrow> iswa_seq_keep q m = Some m' \<Longrightarrow> iswa_reach e m'"
| iswa_reach_cp: "iswa_reach e m \<Longrightarrow> q \<noteq> r \<Longrightarrow> kv_holds (iw_base m) r = {} \<Longrightarrow> kv_copyable (iw_base m) q r \<Longrightarrow> kv_copyable (iw_swa m) q r \<Longrightarrow>
    iswa_seq_cp (int q) (int r) (- 1) (- 1) m = Some m' \<Longrightarrow> iswa_reach e m'"
| iswa_reach_apply: "iswa_reach e m \<Longrightarrow> iswa_ctx_fits (cx :: 'e iswa_context) m \<Longrightarrow> iswa_ctx_apply sg sg' rope_none cx m = Some (cx', m') \<Longrightarrow> iswa_reach e m'"
| iswa_reach_update: "iswa_reach e m \<Longrightarrow> iswa_init_update m = (cx :: 'e iswa_context, m1) \<Longrightarrow>
    (\<And>d s. length (snd (sg d s)) = length d) \<Longrightarrow> (\<And>d s. length (snd (sg' d s)) = length d) \<Longrightarrow>
    iswa_ctx_apply sg sg' rope_none cx m1 = Some (cx', m') \<Longrightarrow> iswa_reach e m'"

lemma kv_stream_known: "kv_stream q kv = Some st \<Longrightarrow> 0 \<le> q \<and> kv_known kv (nat q)"
  by (auto simp: kv_stream_def kv_known_def guard_def split: if_splits)

lemma iswa_rm_ok:
  assumes ok: "iswa_ok m" and q: "0 \<le> q" and m': "iswa_seq_rm q p0 p1 m = Some (r, m')"
  shows "iswa_ok m'"
proof -
  from m' have "\<exists>r0 base r1 swa. kv_seq_rm q p0 p1 (iw_base m) = Some (r0, base) \<and> kv_seq_rm q p0 p1 (iw_swa m) = Some (r1, swa) \<and>
    m' = m\<lparr>iw_base := base, iw_swa := swa\<rparr>" by (auto simp: iswa_seq_rm_def split: Option.bind_splits) (rule exI, assumption)
  then obtain r0 base r1 swa where R: "kv_seq_rm q p0 p1 (iw_base m) = Some (r0, base)" "kv_seq_rm q p0 p1 (iw_swa m) = Some (r1, swa)"
    "m' = m\<lparr>iw_base := base, iw_swa := swa\<rparr>" by blast
  have k: "kv_known (iw_base m) (nat q)" using kv_seq_rm_SomeD [OF R(1)] q by (auto simp: kv_known_def)
  have "kv_inv (iw_base m)" "kv_inv (iw_swa m)" "kv_known (iw_swa m) (nat q)" "\<forall>r. kv_holds (iw_swa m) r \<subseteq> kv_holds (iw_base m) r"
    using ok k by (simp_all add: iswa_ok_def)
  from iw.both_rm [OF this(1,2) k this(3,4) kv_never_refuses, of p0 p1] obtain ok' base' swa' where
    B: "kv_seq_rm q p0 p1 (iw_base m) = Some (ok', base')" "kv_seq_rm q p0 p1 (iw_swa m) = Some (True, swa')" "kv_inv base'" "kv_inv swa'"
      "kv_known base' = kv_known (iw_base m)" "kv_known swa' = kv_known (iw_swa m)" "kv_grouped base' = kv_grouped (iw_base m)"
      "kv_grouped swa' = kv_grouped (iw_swa m)" "\<forall>r. kv_holds swa' r \<subseteq> kv_holds base' r" unfolding nat_0_le [OF q] by blast
  from B(1,2) R(1,2) have "base' = base" "swa' = swa" by simp_all
  with B(3-9) R(3) ok show ?thesis by (simp add: iswa_ok_def)
qed

lemma iswa_keep_ok:
  assumes ok: "iswa_ok m" and q: "0 \<le> q" and m': "iswa_seq_keep q m = Some m'"
  shows "iswa_ok m'"
proof -
  from m' obtain base swa where R: "kv_seq_keep q (iw_base m) = Some base" "kv_seq_keep q (iw_swa m) = Some swa"
    "m' = m\<lparr>iw_base := base, iw_swa := swa\<rparr>" by (auto simp: iswa_seq_keep_def iswa_each_def split: Option.bind_splits)
  from R(1) obtain st where "kv_stream q (iw_base m) = Some st" by (auto simp: kv_seq_keep_def split: Option.bind_splits)
  then have k: "kv_known (iw_base m) (nat q)" using kv_stream_known by blast
  have "kv_inv (iw_base m)" "kv_inv (iw_swa m)" "kv_known (iw_swa m) (nat q)" "\<forall>r. kv_holds (iw_swa m) r \<subseteq> kv_holds (iw_base m) r"
    "\<forall>r. kv_grouped (iw_base m) (nat q) r \<longrightarrow> kv_grouped (iw_swa m) (nat q) r"
    using ok k by (simp_all add: iswa_ok_def)
  from iw.both_keep [OF this(1,2) k this(3-5)] R q ok show ?thesis by (auto simp: iswa_ok_def)
qed

lemma iswa_cp_ok:
  assumes ok: "iswa_ok m" and e: "q \<noteq> r" "kv_holds (iw_base m) r = {}" "kv_copyable (iw_base m) q r" "kv_copyable (iw_swa m) q r"
    and m': "iswa_seq_cp (int q) (int r) (- 1) (- 1) m = Some m'"
  shows "iswa_ok m'"
proof -
  from m' obtain base swa where R: "kv_seq_cp (int q) (int r) (- 1) (- 1) (iw_base m) = Some base" "kv_seq_cp (int q) (int r) (- 1) (- 1) (iw_swa m) = Some swa"
    "m' = m\<lparr>iw_base := base, iw_swa := swa\<rparr>" by (auto simp: iswa_seq_cp_def iswa_each_def split: Option.bind_splits)
  from R(1) obtain s t where "kv_stream (int q) (iw_base m) = Some s" "kv_stream (int r) (iw_base m) = Some t"
    by (auto simp: kv_seq_cp_def split: Option.bind_splits)
  then have k: "kv_known (iw_base m) q" "kv_known (iw_base m) r" using kv_stream_known by fastforce+
  have "kv_inv (iw_base m)" "kv_inv (iw_swa m)" "kv_known (iw_swa m) q" "kv_known (iw_swa m) r" "\<forall>r. kv_holds (iw_swa m) r \<subseteq> kv_holds (iw_base m) r"
    using ok k by (simp_all add: iswa_ok_def)
  from iw.both_cp [OF this(1,2) k(1) this(3) k(2) this(4) e(1) this(5) e(2-4)] R ok show ?thesis by (auto simp: iswa_ok_def)
qed

lemma iswa_apply_ok:
  assumes ok: "iswa_ok m" and fits: "iswa_ctx_fits cx m" and m': "iswa_ctx_apply sg sg' rope_none cx m = Some (cx', m')"
  shows "iswa_ok m'"
proof -
  from fits obtain b s u k n k' n' where F: "ic_base cx = Some b" "ic_swa cx = Some s" "slot_ready (iw_base m)" "slot_ready (iw_swa m)"
    "cx_i_cur b < length (cx_ubatches b)" "u = cx_ubatches b ! cx_i_cur b" "cx_i_cur s < length (cx_ubatches s)" "u = cx_ubatches s ! cx_i_cur s"
    "slot_fits (iw_base m) u k n (cx_sinfos b ! cx_i_cur b)" "slot_free (iw_base m) u k (cx_sinfos b ! cx_i_cur b)"
    "slot_fits (iw_swa m) u k' n' (cx_sinfos s ! cx_i_cur s)" unfolding iswa_ctx_fits_def by blast
  have ne: "cx_ubatches b \<noteq> []" "cx_ubatches s \<noteq> []" using F(5,7) by auto
  have I: "kv_inv (iw_base m)" "kv_inv (iw_swa m)" "\<forall>q. kv_holds (iw_swa m) q \<subseteq> kv_holds (iw_base m) q" using ok by (simp_all add: iswa_ok_def)
  from m' F(1,2) obtain b1 base s1 swa where A: "ctx_apply sg rope_none b (iw_base m) = Some (b1, base)" "ctx_apply sg' rope_none s (iw_swa m) = Some (s1, swa)"
    "m' = m\<lparr>iw_base := base, iw_swa := swa\<rparr>" by (auto simp: iswa_ctx_apply_def split: Option.bind_splits)
  from A(1) ne(1) F(6) have a1: "apply_ubatch (cx_sinfos b ! cx_i_cur b) u (iw_base m) = Some base"
    by (auto simp: ctx_apply_def Let_def split: Option.bind_splits)
  from A(2) ne(2) F(8) have a2: "apply_ubatch (cx_sinfos s ! cx_i_cur s) u (iw_swa m) = Some swa"
    by (auto simp: ctx_apply_def Let_def split: Option.bind_splits)
  from apply_ubatch_holds [OF I(1) F(3,9)] a1 F(10) have B: "kv_inv base" "kv_seq_to_stream base = kv_seq_to_stream (iw_base m)"
    "\<forall>q. kv_holds base q = kv_holds (iw_base m) q \<union> ub_positions u q" by auto
  from apply_ubatch_holds [OF I(2) F(4,11)] a2 have S: "kv_inv swa" "kv_seq_to_stream swa = kv_seq_to_stream (iw_swa m)"
    "\<forall>q. kv_holds swa q \<subseteq> kv_holds (iw_swa m) q \<union> ub_positions u q" by auto
  have "kv_holds swa q \<subseteq> kv_holds base q" for q using I(3) B(3) S(3) by blast
  with B(1) S(1) kv_same_map [OF B(2)] kv_same_map [OF S(2)] ok show ?thesis by (simp add: iswa_ok_def A(3))
qed

lemma kv_update_run:
  assumes inv: "kv_inv kv" and i: "init_update kv = (c :: 'e kv_context, kv1)" and len: "\<And>d s. length (snd (sg d s)) = length d"
    and a: "ctx_apply sg rope_none c kv1 = Some (c', kv')"
  shows "kv_inv kv' \<and> kv_known kv' = kv_known kv \<and> kv_grouped kv' = kv_grouped kv \<and> kv_holds kv' = kv_holds kv"
proof -
  from i have I: "c = ctx_update (kv_get_has_shift kv) (kv_sc_info kv)" "kv1 = kv\<lparr>kv_sc_info := []\<rparr>" by (simp_all add: init_update_def)
  have sc: "\<forall>(a, b) \<in> set (kv_sc_info kv). a < kv_n_stream kv1 \<and> b < kv_n_stream kv1 \<and> a \<noteq> b" using inv by (auto simp: I(2) kv_inv_def)
  have inv1: "kv_inv kv1" using inv_data(2) [OF inv refl] by (simp add: I(2))
  have "cx_ubatches c = []" "cx_do_shift c = kv_get_has_shift kv" "cx_sc_info c = kv_sc_info kv" by (simp_all add: I(1) ctx_update_def ctx_error_def)
  with a obtain r where "kv_update sg rope_none (kv_get_has_shift kv) (kv_sc_info kv) kv1 = Some (r, kv')"
    by (auto simp: ctx_apply_def split: Option.bind_splits)
  with kv_update_holds [OF inv1 sc, of sg, OF len, where rope_none = rope_none and do_shift = "kv_get_has_shift kv"] have "same_holds kv1 kv'" by auto
  moreover have "kv_holds kv1 = kv_holds kv" "kv_seq_to_stream kv1 = kv_seq_to_stream kv" by (rule kv_holds_cong) (simp_all add: I(2))
  ultimately show ?thesis using kv_same_map unfolding same_holds_def by metis
qed

lemma iswa_update_ok:
  assumes ok: "iswa_ok m" and i: "iswa_init_update m = (cx :: 'e iswa_context, m1)" and a: "iswa_ctx_apply sg sg' rope_none cx m1 = Some (cx', m')"
    and len: "\<And>d s. length (snd (sg d s)) = length d" "\<And>d s. length (snd (sg' d s)) = length d"
  shows "iswa_ok m'"
proof -
  obtain b :: "'e kv_context" and base where b: "init_update (iw_base m) = (b, base)" by fastforce
  obtain s :: "'e kv_context" and swa where s: "init_update (iw_swa m) = (s, swa)" by fastforce
  from i b s have I: "cx = iswa_ctx_of [] b s" "m1 = m\<lparr>iw_base := base, iw_swa := swa\<rparr>" by (simp_all add: iswa_init_update_def)
  from a obtain b1 base' s1 swa' where A: "ctx_apply sg rope_none b base = Some (b1, base')" "ctx_apply sg' rope_none s swa = Some (s1, swa')"
    "m' = m1\<lparr>iw_base := base', iw_swa := swa'\<rparr>" by (auto simp: iswa_ctx_apply_def I iswa_ctx_of_def split: Option.bind_splits)
  have "kv_inv (iw_base m)" "kv_inv (iw_swa m)" using ok by (simp_all add: iswa_ok_def)
  from kv_update_run [OF this(1) b len(1) A(1)] kv_update_run [OF this(2) s len(2) A(2)] ok show ?thesis by (simp add: iswa_ok_def A(3))
qed

lemma iswa_reach_ok: "iswa_reach e m \<Longrightarrow> iswa_ok m"
proof (induction rule: iswa_reach.induct)
  case (iswa_reach_new n_seq_max full unified kv_size n_ubatch n_pad n_swa swa_type zero m)
  then obtain sz base swa where N: "kv_cache_new unified kv_size n_seq_max n_pad 0 SWA_NONE zero = Some base"
    "kv_cache_new unified sz n_seq_max n_pad n_swa swa_type zero = Some swa" "iw_base m = base" "iw_swa m = swa"
    by (auto simp: iswa_new_def Let_def split: Option.bind_splits)
  have P: "0 < n_pad" "kv_size mod n_pad = 0" "sz mod n_pad = 0" using N(1,2) by (auto simp: kv_cache_new_def guard_def Let_def split: if_splits)
  have "kv_seq_to_stream base = kv_seq_to_stream swa" using N(1,2) by (auto simp: kv_cache_new_def guard_def Let_def split: if_splits)
  moreover have "kv_inv base" "kv_inv swa" "\<forall>s. seq_view swa s = {}"
    using kv_new_inv [OF iswa_reach_new(1,2) P(1,2), of unified 0 SWA_NONE zero] kv_new_inv [OF iswa_reach_new(1,2) P(1,3), of unified n_swa swa_type zero] N by auto
  ultimately show ?case using kv_same_map [of base swa] N(3,4) by (simp add: iswa_ok_def kv_holds_def)
next
  case (iswa_reach_clear m zero data)
  then have I: "kv_inv (iw_base m)" "kv_inv (iw_swa m)" by (simp_all add: iswa_ok_def)
  have "kv_known (kv_clear zero data kv) = kv_known kv \<and> kv_grouped (kv_clear zero data kv) = kv_grouped kv" for kv by (rule kv_same_map) simp
  with iswa_reach_clear.IH I show ?case by (simp add: iswa_ok_def iswa_clear_def clear_holds kv_clear_inv)
next
  case (iswa_reach_rm m q p0 p1 ok m')
  then show ?case using iswa_rm_ok by blast
next
  case (iswa_reach_keep m q m')
  then show ?case using iswa_keep_ok by blast
next
  case (iswa_reach_cp m q r m')
  then show ?case using iswa_cp_ok by blast
next
  case (iswa_reach_apply m cx sg sg' rope_none cx' m')
  then show ?case using iswa_apply_ok by blast
next
  case (iswa_reach_update m cx m1 sg sg' rope_none cx' m')
  then show ?case using iswa_update_ok by blast
qed

section \<open>Positions\<close>

lemma kv_pos_minmax:
  assumes inv: "kv_inv kv" and q: "kv_known kv q"
  shows "kv_seq_pos_min (int q) kv = Some (if kv_holds kv q = {} then - 1 else Min (kv_holds kv q))"
    and "kv_seq_pos_max (int q) kv = Some (if kv_holds kv q = {} then - 1 else Max (kv_holds kv q))"
proof -
  have lt: "q < length (kv_seq_to_stream kv)" using q by (simp add: kv_known_def)
  then have st: "kv_stream (int q) kv = Some (kv_seq_to_stream kv ! q)" by (simp add: kv_stream_def)
  note S = kv_inv_stream [OF inv st]
  have "kv_holds kv q = seq_positions q (kv_v_cells kv ! (kv_seq_to_stream kv ! q))"
    using lt by (auto simp: kv_holds_iff seq_positions_def cells_size_def)
  with st cells_seq_pos_minmax [OF kv_invD(1) [OF inv S(1)]] S(2)
  show "kv_seq_pos_min (int q) kv = Some (if kv_holds kv q = {} then - 1 else Min (kv_holds kv q))"
    and "kv_seq_pos_max (int q) kv = Some (if kv_holds kv q = {} then - 1 else Max (kv_holds kv q))"
    by (simp_all add: kv_seq_pos_min_def kv_seq_pos_max_def)
qed

section \<open>Properties of the window cache\<close>

text \<open>C20: In every state that the two caches can reach by placing micro-batches, updates, and clearing, removing, keeping
  and copying whole sequences, the cache of the layers without a window holds every
  position that the window cache holds; so the bounds that the code takes from the window cache alone are positions
  that both hold.\<close>
theorem iswa_superset:
  assumes "iswa_reach e m" and "kv_known (iw_swa m) q"
  shows "kv_holds (iw_swa m) q \<subseteq> kv_holds (iw_base m) q \<and>
    iswa_seq_pos_min (int q) m = Some (if kv_holds (iw_swa m) q = {} then - 1 else Min (kv_holds (iw_swa m) q)) \<and>
    iswa_seq_pos_max (int q) m = Some (if kv_holds (iw_swa m) q = {} then - 1 else Max (kv_holds (iw_swa m) q))"
  using iswa_reach_ok [OF assms(1)] kv_pos_minmax [OF _ assms(2)]
  by (simp add: iswa_ok_def iswa_seq_pos_min_def iswa_seq_pos_max_def)

lemma demo_iswa_new: "\<exists>m. iswa_new False True 2 2 1 1 1 SWA_STANDARD () = Some m \<and> kv_known (iw_swa m) 1"
  by (simp add: iswa_new_def iswa_size_swa_def kv_cache_new_def kv_known_def vec_resize_def LLAMA_MAX_SEQ_def)

theorem iswa_superset_witness:
  "\<exists>m. iswa_new False True 2 2 1 1 1 SWA_STANDARD () = Some m \<and> kv_holds (iw_swa m) 1 \<subseteq> kv_holds (iw_base m) 1"
proof -
  from demo_iswa_new obtain m where m: "iswa_new False True 2 2 1 1 1 SWA_STANDARD () = Some m" "kv_known (iw_swa m) 1" by blast
  have "iswa_reach (e :: unit itself) m" for e by (rule iswa_reach.iswa_reach_new [OF _ _ m(1)]) (simp_all add: LLAMA_MAX_SEQ_def)
  from iswa_superset [OF this m(2)] m(1) show ?thesis by blast
qed

end
