(* ===== verification/HybridRun.thy ===== *)
theory HybridRun
  imports MemPairRun MemWindow
begin

text \<open>
  Decoding with a hybrid memory, from the accepted batch to the last micro-batch: the attention cache
  and the recurrent memory of \<^verbatim>\<open>src/src/llama-memory-hybrid.cpp\<close> prepare the same micro-batches, place
  them and stay consistent with each other, except where the clean-up after a failed graph is refused.
\<close>

section \<open>Room for a batch\<close>

text \<open>The free cells of a cache of one stream.\<close>

definition kv_free_cells :: "'d kv_cache \<Rightarrow> nat set" where
  "kv_free_cells kv = {i. i < kv_get_size kv \<and> kc_pos (kv_v_cells kv ! 0) ! i = - 1}"

lemma finite_free_cells [simp]: "finite (kv_free_cells kv)"
  by (rule finite_subset [of _ "{..<kv_get_size kv}"]) (auto simp: kv_free_cells_def)

lemma one_stream_fits:
  assumes inv: "kv_inv kv" and one: "kv_n_stream kv = 1" and fits: "ub_fits kv u k n"
  shows "k = 1" "n = ub_n_tokens u" "0 < n" "unq_stream kv u 0 = 0"
proof -
  from fits one show k: "k = 1" and n: "n = ub_n_tokens u" "0 < n" by (simp_all add: ub_fits_def)
  have "seq_guard kv u n 0" using fits k by (simp add: ub_fits_def)
  from unq_stream_less [OF inv this] one show "unq_stream kv u 0 = 0" by simp
qed

lemma find_slot_room:
  assumes inv: "kv_inv kv" and ready: "slot_ready kv" and swa: "kv_swa_type kv = SWA_NONE" and one: "kv_n_stream kv = 1"
    and pl: "ub_placeable kv u" and room: "ub_n_tokens u \<le> card (kv_free_cells kv)" and si: "find_slot u False kv = Some si"
  shows "\<not> si_empty si"
proof -
  from pl obtain k n where fits: "ub_fits kv u k n" by (auto simp: ub_placeable_def)
  note O = one_stream_fits [OF inv one fits]
  have st: "0 < kv_n_stream kv" using one by simp
  let ?c = "kv_v_cells kv ! 0"
  let ?u = "usable kv ?c" and ?h = "slot_head kv n 0" and ?sz = "cells_size ?c"
  have sz: "?sz = kv_get_size kv" using kv_invD(2) [OF inv st] .
  have h: "?h \<le> ?sz" by (rule slot_head_le [OF inv st])
  have "kv_free_cells kv = set (filter ?u (ring ?h ?sz))"
    using usable_no_swa [OF inv st ready _ swa] ring_set [OF h] by (auto simp: kv_free_cells_def sz)
  then have "card (kv_free_cells kv) = length (filter ?u (ring ?h ?sz))" by (metis distinct_card distinct_filter ring_distinct)
  then obtain idxs where pick: "ring_pick ?u ?h ?sz n = Some idxs" using room O(2) by (auto simp: ring_pick_def Let_def)
  then have len: "idxs \<noteq> []" using ring_pick_Some(1) [OF pick h] O(3) by auto
  have "find_slot_seq kv False n (unq_stream kv u s) = Some (Some idxs)" if "s < k" for s
    using that O(1,4) find_slot_seq_ring [OF inv st ready O(3)] pick by simp
  from find_slot_total [OF inv fits this] si len O(1) show ?thesis by (auto simp: si_empty_def)
qed

lemma placed_room:
  assumes inv: "kv_inv kv" and one: "kv_n_stream kv = 1" and fits: "slot_fits kv u k n si" and placed: "ub_placed kv u k n si kv1"
    and size: "kv_get_size kv1 = kv_get_size kv"
  shows "card (kv_free_cells kv) \<le> card (kv_free_cells kv1) + ub_n_tokens u"
proof -
  have uf: "ub_fits kv u k n" using fits by (simp add: slot_fits_def)
  note O = one_stream_fits [OF inv one uf]
  let ?I = "set (si_idxs si ! 0)"
  have pl: "placed (kv_v_cells kv ! 0) (si_idxs si ! 0) (\<lambda>ii. new_cell u (0 * n + ii)) (kv_v_cells kv1 ! 0)"
    using placed O(1,4) unfolding ub_placed_def by (metis less_one)
  have len: "card ?I \<le> n" using fits O(1) by (metis card_length less_one slot_fits_def)
  have sz: "cells_size (kv_v_cells kv ! 0) = kv_get_size kv" using kv_invD(2) [OF inv, of 0] one by simp
  have "kv_free_cells kv \<subseteq> kv_free_cells kv1 \<union> ?I"
    using pl size sz by (auto simp: kv_free_cells_def placed_def cell_at_def)
  then have "card (kv_free_cells kv) \<le> card (kv_free_cells kv1 \<union> ?I)" by (intro card_mono) auto
  also have "\<dots> \<le> card (kv_free_cells kv1) + card ?I" by (rule card_Un_le)
  finally show ?thesis using len O(2) by simp
qed

lemma prepare_place_room:
  assumes "kv_inv kv" "slot_ready kv" "kv_swa_type kv = SWA_NONE" "kv_n_stream kv = 1" "\<forall>u \<in> set us. ub_placeable kv u"
    and "sum_list (map ub_n_tokens us) \<le> card (kv_free_cells kv)"
    and "prepare_place us res states kv = Some (ok, res', states', kv')"
  shows "ok"
  using assms
proof (induction us arbitrary: kv res states)
  case (Cons u us)
  note A = Cons.prems
  have pl: "ub_placeable kv u" and tk: "ub_n_tokens u \<le> card (kv_free_cells kv)" using A(5,6) by simp_all
  from A(7) obtain si where si: "find_slot u False kv = Some si" by (auto split: Option.bind_splits)
  note ne = find_slot_room [OF A(1-4) pl tk si]
  from A(7) si ne obtain saved kv1 where ap: "apply_ubatch si u kv = Some kv1"
    and rest: "prepare_place us (res @ [si]) (\<lparr>ps_sinfo = si, ps_v_heads_old = kv_v_heads kv, ps_v_cells = saved\<rparr> # states) kv1 = Some (ok, res', states', kv')"
    by (auto split: Option.bind_splits if_splits)
  from A(1-3) pl si ne ap obtain k n where P: "slot_fits kv u k n si" "kv_inv kv1" "slot_ready kv1" "kv_conf kv kv1" "ub_placed kv u k n si kv1"
    "kv_get_size kv1 = kv_get_size kv" by (rule place_step)
  have "kv_swa_type kv1 = SWA_NONE" "kv_n_stream kv1 = 1" "\<forall>u \<in> set us. ub_placeable kv1 u"
    using A(3-5) P(4) by (simp_all add: kv_confD ub_placeable_def ub_fits_conf)
  moreover have "sum_list (map ub_n_tokens us) \<le> card (kv_free_cells kv1)" using A(6) placed_room [OF A(1,4) P(1,5,6)] by simp
  ultimately show ?case using Cons.IH [OF P(2,3) _ _ _ _ rest] by blast
qed simp

text \<open>A cache without a window and with one stream prepares every batch for which it has free cells.\<close>

lemma prepare_room:
  assumes "kv_inv kv" "slot_ready kv" "kv_swa_type kv = SWA_NONE" "kv_n_stream kv = 1" "\<forall>u \<in> set us. ub_placeable kv u"
    and "sum_list (map ub_n_tokens us) \<le> card (kv_free_cells kv)" and p: "prepare us kv = Some (sinfos, kv0)" and ne: "us \<noteq> []"
  shows "sinfos \<noteq> []"
proof -
  from p obtain ok res states kv1 where P: "prepare_place us [] [] kv = Some (ok, res, states, kv1)" "sinfos = (if ok then res else [])"
    by (auto simp: prepare_def split: Option.bind_splits)
  from prepare_place_room [OF assms(1-6) P(1)] have ok: "ok" .
  obtain cmp :: "'b llama_ubatch \<Rightarrow> 'a kv_cache \<Rightarrow> ggml_status \<times> 'a list" where cmp: "cmp = (\<lambda>u kv. (GGML_STATUS_SUCCESS, kv_data kv))" by blast
  from prepare_place_run [OF assms(1-3,5), of "[]" "[]" res states kv1 cmp] P(1) ok cmp have "length res = length us" by auto
  with P(2) ok ne show ?thesis by auto
qed

section \<open>Properties of the hybrid memory\<close>

definition hybrid_ok :: "'d hybrid_memory \<Rightarrow> bool" where
  "hybrid_ok h \<longleftrightarrow> kv_inv (hy_attn h) \<and> rs_wf (hy_recr h) \<and> (\<forall>q. rs_holds (hy_recr h) q \<subseteq> kv_holds (hy_attn h) q)"

text \<open>C21: Removing positions from a hybrid memory is all or nothing: when the recurrent memory refuses, neither part
  changes; otherwise both lose exactly the range, of this sequence only. Either way the state of a
  sequence stays at a position that the attention cache still holds.\<close>
theorem hybrid_seq_rm_consistent:
  assumes ok: "hybrid_ok h" and q: "kv_known (hy_attn h) q" "rs_known (hy_recr h) q"
  shows "\<exists>r h'. hybrid_seq_rm (int q) p0 p1 h = Some (r, h') \<and> hybrid_ok h' \<and> (\<not> r \<longrightarrow> h' = h) \<and>
    (r \<longrightarrow> kv_holds (hy_attn h') = (kv_holds (hy_attn h))(q := cut_range p0 p1 (kv_holds (hy_attn h) q)) \<and>
      rs_holds (hy_recr h') = (rs_holds (hy_recr h))(q := cut_range p0 p1 (rs_holds (hy_recr h) q)))"
proof -
  have I: "kv_inv (hy_attn h)" "rs_wf (hy_recr h)" "\<forall>q. rs_holds (hy_recr h) q \<subseteq> kv_holds (hy_attn h) q" using ok by (simp_all add: hybrid_ok_def)
  from hy.first_rm [OF I(1,2) q I(3) kv_never_refuses, of p0 p1] obtain r recr where R: "rs_seq_rm (int q) p0 p1 (hy_recr h) = Some (r, recr)"
    "\<not> r \<longrightarrow> recr = hy_recr h"
    "r \<longrightarrow> (\<exists>attn. kv_seq_rm (int q) p0 p1 (hy_attn h) = Some (True, attn) \<and> kv_inv attn \<and> rs_wf recr \<and>
      kv_known attn = kv_known (hy_attn h) \<and> rs_known recr = rs_known (hy_recr h) \<and> kv_grouped attn = kv_grouped (hy_attn h) \<and> rs_grouped recr = rs_grouped (hy_recr h) \<and>
      (\<forall>r. rs_holds recr r \<subseteq> kv_holds attn r) \<and> kv_holds attn = (kv_holds (hy_attn h))(q := cut_range p0 p1 (kv_holds (hy_attn h) q)) \<and>
      rs_holds recr = (rs_holds (hy_recr h))(q := cut_range p0 p1 (rs_holds (hy_recr h) q)))" by blast
  show ?thesis
  proof (cases r)
    case False
    with R(1,2) ok show ?thesis by (intro exI [where x = False] exI [where x = h]) (simp add: hybrid_seq_rm_def)
  next
    case True
    with R(3) obtain attn where A: "kv_seq_rm (int q) p0 p1 (hy_attn h) = Some (True, attn)" "kv_inv attn" "rs_wf recr" "\<forall>r. rs_holds recr r \<subseteq> kv_holds attn r"
      "kv_holds attn = (kv_holds (hy_attn h))(q := cut_range p0 p1 (kv_holds (hy_attn h) q))"
      "rs_holds recr = (rs_holds (hy_recr h))(q := cut_range p0 p1 (rs_holds (hy_recr h) q))" by blast
    let ?h = "h\<lparr>hy_attn := attn, hy_recr := recr\<rparr>"
    have "hybrid_seq_rm (int q) p0 p1 h = Some (True, ?h)" using R(1) True A(1) by (simp add: hybrid_seq_rm_def)
    moreover have "hybrid_ok ?h" using A(2-4) by (simp add: hybrid_ok_def)
    moreover have "kv_holds (hy_attn ?h) = (kv_holds (hy_attn h))(q := cut_range p0 p1 (kv_holds (hy_attn h) q))"
      "rs_holds (hy_recr ?h) = (rs_holds (hy_recr h))(q := cut_range p0 p1 (rs_holds (hy_recr h) q))" using A(5,6) by simp_all
    ultimately show ?thesis by blast
  qed
qed

text \<open>A hybrid memory in which sequence 2 has one token, at position 7, and its state.\<close>

definition demo_rs7 :: rs_memory where
  "demo_rs7 = \<lparr>rs_head = 0, rs_size = 3, rs_used = 1, rs_n = 1, rs_z = 0, rs_cells =
     [\<lparr>rc_pos = 7, rc_src = 0, rc_src0 = 0, rc_tail = - 1, rc_seq = {2}\<rparr>, rs_cell_new, rs_cell_new\<lparr>rc_tail := 0\<rparr>]\<rparr>"

definition demo_hybrid :: "unit hybrid_memory" where
  "demo_hybrid = \<lparr>hy_attn = demo_kv, hy_recr = demo_rs7\<rparr>"

lemma demo_rs7_wf: "rs_wf demo_rs7"
proof -
  have "rs_occupied demo_rs7 = {0}" by (auto simp: rs_occupied_def demo_rs7_def rs_cell_new_def nth_Cons' split: if_splits)
  then show ?thesis by (auto simp: rs_wf_def demo_rs7_def rs_cell_new_def int32_max_def less_Suc_eq numeral_3_eq_3 nth_Cons')
qed

lemma demo_rs7_holds: "rs_holds demo_rs7 q = (if q = 2 then {7} else {})"
  by (auto simp: rs_holds_def rs_state_def demo_rs7_def rs_cell_new_def less_Suc_eq numeral_3_eq_3 nth_Cons' split: if_splits)

lemma demo_hybrid_ok: "hybrid_ok demo_hybrid" "kv_known (hy_attn demo_hybrid) 2" "rs_known (hy_recr demo_hybrid) 2" "kv_holds (hy_attn demo_hybrid) 2 = {7}"
proof -
  show h: "kv_holds (hy_attn demo_hybrid) 2 = {7}" by (simp add: demo_hybrid_def kv_holds_def demo_kv_view LLAMA_MAX_SEQ_def)
  show "kv_known (hy_attn demo_hybrid) 2" by (simp add: demo_hybrid_def kv_known_def demo_kv_def LLAMA_MAX_SEQ_def)
  show "rs_known (hy_recr demo_hybrid) 2" by (simp add: demo_hybrid_def rs_known_def demo_rs7_def)
  show "hybrid_ok demo_hybrid" using h demo_kv_inv demo_rs7_wf by (simp add: hybrid_ok_def demo_hybrid_def demo_rs7_holds)
qed

theorem hybrid_seq_rm_consistent_witness:
  "\<exists>r h'. hybrid_seq_rm 2 3 (- 1) demo_hybrid = Some (r, h') \<and> hybrid_ok h' \<and> (\<not> r \<longrightarrow> h' = demo_hybrid)"
  using hybrid_seq_rm_consistent [OF demo_hybrid_ok(1-3), of 3 "- 1"] by auto

text \<open>The recurrent memory refuses to cut a sequence after its first and before its last position, so the clean-up
  removes nothing.\<close>

lemma hybrid_rollback_stuck:
  assumes wf: "rs_wf (hy_recr h)" and pm: "fail_pos_min u = Some pm"
    and late: "\<forall>s. pm s \<noteq> int32_max \<longrightarrow> 0 < pm s \<and> (\<exists>p v. rs_state Z D (hy_recr h) s = Some (p, v) \<and> pm s < p)"
  shows "hybrid_rollback u h = Some h"
proof -
  have step: "hybrid_seq_rm (int s) (pm s) (- 1) h = Some (False, h)" if s: "pm s \<noteq> int32_max" for s
  proof -
    from late s obtain p v where p: "rs_state Z D (hy_recr h) s = Some (p, v)" "0 < pm s" "pm s < p" by blast
    then have lt: "s < rs_size (hy_recr h)" "rs_rm_refused s (rs_p0 (pm s)) (rs_p1 (- 1)) (hy_recr h)"
      by (auto simp: rs_state_def rs_rm_refused_def rs_p0_def Let_def split: if_splits)
    with rs_seq_rm_spec [OF wf lt(1), of "pm s" "- 1"] have "rs_seq_rm (int s) (pm s) (- 1) (hy_recr h) = Some (False, hy_recr h)" by simp
    then show ?thesis by (simp add: hybrid_seq_rm_def)
  qed
  have "foldM (\<lambda>s h. if pm s = int32_max then Some h else do { (_, h') \<leftarrow> hybrid_seq_rm (int s) (pm s) (- 1) h; Some h' }) ss h = Some h" for ss
    by (induction ss) (simp_all add: step)
  then show ?thesis using pm by (simp add: hybrid_rollback_def)
qed

text \<open>The micro-batch that a context of the hybrid memory is at, with its slot in the attention cache.\<close>

definition hybrid_at :: "'e hybrid_context \<Rightarrow> slot_info \<Rightarrow> 'e llama_ubatch \<Rightarrow> bool" where
  "hybrid_at cx si u \<longleftrightarrow> hc_status cx = STATUS_SUCCESS \<and> hc_i_next cx < length (hc_ubatches cx) \<and> hc_ubatches cx ! hc_i_next cx = u \<and>
     (case hc_attn cx of None \<Rightarrow> False | Some c \<Rightarrow> cx_status c = STATUS_SUCCESS \<and> cx_i_cur c < length (cx_ubatches c) \<and>
        cx_i_cur c < length (cx_sinfos c) \<and> cx_ubatches c ! cx_i_cur c = u \<and> cx_sinfos c ! cx_i_cur c = si) \<and>
     (case hc_recr cx of None \<Rightarrow> False | Some r \<Rightarrow> rx_status r = STATUS_SUCCESS \<and> rx_i_next r < length (rx_ubatches r) \<and>
        rx_ubatches r ! rx_i_next r = u)"

text \<open>A micro-batch that does not start at position 0 and has several tokens of each sequence.\<close>

definition ub_several :: "'e llama_ubatch \<Rightarrow> bool" where
  "ub_several u \<longleftrightarrow> (\<forall>i < ub_n_tokens u. 0 < ub_pos u ! i \<and> (\<exists>a < ub_n_seqs u. tok_seq u i = set_first u a)) \<and>
     (\<forall>a < ub_n_seqs u. set_tok u a < ub_n_tokens u \<and> tok_seq u (set_tok u a) = set_first u a \<and> ub_pos u ! set_tok u a < set_last_pos u a)"

lemma several_pos_min:
  assumes inv: "kv_inv kv" and ready: "rollback_ready kv u" and several: "ub_several u"
  shows "\<exists>pm. fail_pos_min u = Some pm \<and>
    (\<forall>s. pm s \<noteq> int32_max \<longrightarrow> 0 < pm s \<and> (\<exists>a < ub_n_seqs u. int s = set_first u a \<and> pm s < set_last_pos u a))"
proof -
  from wpD [OF fail_pos_min_spec [OF inv ready]] obtain pm where pm: "fail_pos_min u = Some pm"
    "\<And>s. pm s = int32_max \<or> pm s < int32_max"
    "\<And>s p. p < int32_max \<Longrightarrow> pm s \<le> p \<longleftrightarrow> (\<exists>i < ub_n_tokens u. tok_seq u i = int s \<and> ub_pos u ! i \<le> p)" by blast
  have lt: "ub_pos u ! i < int32_max" if "i < ub_n_tokens u" for i using ready that by (simp add: rollback_ready_def)
  have "0 < pm s \<and> (\<exists>a < ub_n_seqs u. int s = set_first u a \<and> pm s < set_last_pos u a)" if s: "pm s \<noteq> int32_max" for s
  proof -
    from pm(2) [of s] s have "pm s < int32_max" by simp
    from pm(3) [OF this, of s] obtain i where i: "i < ub_n_tokens u" "tok_seq u i = int s" "ub_pos u ! i \<le> pm s" by auto
    from several i(1,2) obtain a where a: "0 < ub_pos u ! i" "a < ub_n_seqs u" "int s = set_first u a" by (auto simp: ub_several_def)
    with several have t: "set_tok u a < ub_n_tokens u" "tok_seq u (set_tok u a) = int s" "ub_pos u ! set_tok u a < set_last_pos u a"
      by (auto simp: ub_several_def)
    have "pm s \<le> ub_pos u ! set_tok u a" using pm(3) [OF lt [OF t(1)], of s] t(1,2) by blast
    with a i(3) t(3) show ?thesis by force
  qed
  with pm(1) show ?thesis by blast
qed

text \<open>C24: When the graph of a micro-batch fails, the clean-up of the decode loop does not work for a hybrid memory: if
  the micro-batch does not start at position 0 and has more than one token of every sequence, it is placed in
  both memories (in free cells of the attention cache), the recurrent memory then stands at its last positions and refuses each
  removal, the answer is ignored, and the decode loop returns the error with all tokens of the failed
  micro-batch still in both memories.\<close>
theorem hybrid_rollback_refused:
  assumes recr: "rs_wf (hy_recr h)" "rs_room B (hy_recr h)" "rs_ubatch_ok (rs_size (hy_recr h)) u" "rs_fits B u"
    and attn: "kv_inv (hy_attn h)" "slot_ready (hy_attn h)" "slot_fits (hy_attn h) u k n si" "slot_free (hy_attn h) u k si"
    and at: "hybrid_at cx si u" and ready: "rollback_ready (hy_attn h) u" and several: "ub_several u"
    and graph: "\<And>kv. fst (compute u kv) = st" "st \<noteq> GGML_STATUS_SUCCESS"
  shows "\<exists>cx' kv' m'. hybrid_decode (Suc fuel) compute scale0 F junk shift_graph rope_none cx (h, D) =
      Some (if st = GGML_STATUS_ABORTED then 2 else if st = GGML_STATUS_ALLOC_FAILED then - 2 else - 3, cx', \<lparr>hy_attn = kv', hy_recr = m'\<rparr>, junk D) \<and>
    (\<forall>q. kv_holds kv' q = kv_holds (hy_attn h) q \<union> ub_positions u q) \<and>
    (\<forall>a < ub_n_seqs u. rs_holds m' (prim u a) = {set_last_pos u a})"
proof -
  obtain kv1 where K: "apply_ubatch si u (hy_attn h) = Some kv1" "kv_inv kv1" "kv_conf (hy_attn h) kv1" "ub_placed (hy_attn h) u k n si kv1"
    by (rule apply_placed [OF attn])
  note C = kv_confD [OF K(3)]
  have H: "kv_holds kv1 q = kv_holds (hy_attn h) q \<union> ub_positions u q" for q
    by (rule placed_holds(2) [OF attn(1,3) C(2) _ _ attn(4)]) (use K(4) in \<open>simp_all add: ub_placed_def\<close>)
  from rs_find_slot_data [OF recr(1,3,2,4), of "()" "\<lambda>_. ()"] obtain m1 where
    M: "rs_find_slot u (hy_recr h) = Some (True, m1)" "rs_wf m1"
      "\<forall>q < rs_size (hy_recr h). \<forall>a < ub_n_seqs u. int q \<in> set (set_ids u a) \<longrightarrow>
        rs_state () (rs_incoming () (\<lambda>_. ()) m1) m1 q = Some (set_last_pos u a, ())"
    by (auto simp: rs_clean_def rs_value_def)
  have S: "rs_state () (\<lambda>_. ()) m1 (prim u a) = Some (set_last_pos u a, ())" if "a < ub_n_seqs u" for a
  proof -
    have "rs_state () (rs_incoming () (\<lambda>_. ()) m1) m1 (prim u a) = Some (set_last_pos u a, ())"
      using M(3) [rule_format, of "prim u a" a] prim_props(1-3) [OF recr(3) that] that by simp
    then show ?thesis by (simp add: rs_state_def Let_def split: if_splits)
  qed
  obtain d where cp: "compute u kv1 = (st, d)" using graph(1) [of kv1] by (cases "compute u kv1") auto
  define kv' where "kv' = kv1\<lparr>kv_data := d\<rparr>"
  let ?h = "\<lparr>hy_attn = kv', hy_recr = m1\<rparr>"
  from several_pos_min [OF attn(1) ready several] obtain pm where pm: "fail_pos_min u = Some pm"
    "\<And>s. pm s \<noteq> int32_max \<Longrightarrow> 0 < pm s \<and> (\<exists>a < ub_n_seqs u. int s = set_first u a \<and> pm s < set_last_pos u a)" by blast
  have "\<forall>s. pm s \<noteq> int32_max \<longrightarrow> 0 < pm s \<and> (\<exists>p v. rs_state () (\<lambda>_. ()) (hy_recr ?h) s = Some (p, v) \<and> pm s < p)"
  proof (intro allI impI)
    fix s assume "pm s \<noteq> int32_max"
    from pm(2) [OF this] obtain a where a: "0 < pm s" "a < ub_n_seqs u" "int s = set_first u a" "pm s < set_last_pos u a" by blast
    then have "s = prim u a" by (simp add: prim_def flip: a(3))
    with S [OF a(2)] a show "0 < pm s \<and> (\<exists>p v. rs_state () (\<lambda>_. ()) (hy_recr ?h) s = Some (p, v) \<and> pm s < p)" by simp
  qed
  from hybrid_rollback_stuck [OF _ pm(1) this] M(2) have R: "hybrid_rollback u ?h = Some ?h" by simp
  from at obtain c r where X: "hc_attn cx = Some c" "hc_recr cx = Some r" "hc_status cx = STATUS_SUCCESS" "hc_i_next cx < length (hc_ubatches cx)"
      "hc_ubatches cx ! hc_i_next cx = u"
      "cx_status c = STATUS_SUCCESS" "cx_i_cur c < length (cx_ubatches c)" "cx_i_cur c < length (cx_sinfos c)" "cx_ubatches c ! cx_i_cur c = u" "cx_sinfos c ! cx_i_cur c = si"
      "rx_status r = STATUS_SUCCESS" "rx_i_next r < length (rx_ubatches r)" "rx_ubatches r ! rx_i_next r = u"
    unfolding hybrid_at_def by (auto split: option.splits)
  have ne: "cx_ubatches c \<noteq> []" "rx_ubatches r \<noteq> []" using X(7,12) by auto
  have ap: "hybrid_ctx_apply shift_graph rope_none cx h = Some (cx\<lparr>hc_attn := Some (c\<lparr>cx_n_kv := kv_get_n_kv si kv1\<rparr>)\<rparr>, \<lparr>hy_attn = kv1, hy_recr = m1\<rparr>)"
    using X ne K(1) M(1) by (simp add: hybrid_ctx_apply_def ctx_apply_def rs_ctx_apply_def llama_memory_status_is_fail_def Let_def)
  have gu: "hybrid_ctx_get_ubatch cx = Some u" using X(3-5) by (simp add: hybrid_ctx_get_ubatch_def)
  have "hybrid_decode (Suc fuel) compute scale0 F junk shift_graph rope_none cx (h, D) =
    Some (if st = GGML_STATUS_ABORTED then 2 else if st = GGML_STATUS_ALLOC_FAILED then - 2 else - 3,
      cx\<lparr>hc_attn := Some (c\<lparr>cx_n_kv := kv_get_n_kv si kv1\<rparr>)\<rparr>, ?h, junk D)"
    using gu ap cp graph(2) R by (simp add: Let_def kv'_def)
  moreover have "kv_holds kv' q = kv_holds (hy_attn h) q \<union> ub_positions u q" for q
  proof -
    have "kv_holds kv' q = kv_holds kv1 q" by (simp add: kv'_def kv_holds_def seq_view_def)
    with H [of q] show ?thesis by simp
  qed
  moreover have "rs_holds m1 (prim u a) = {set_last_pos u a}" if "a < ub_n_seqs u" for a
    using S [OF that] by (simp add: rs_holds_def)
  ultimately show ?thesis by blast
qed

text \<open>Two tokens of sequence 0 at the positions 3 and 4, in an empty memory of two cells; their graph is aborted.\<close>

definition demo_late_ub :: "unit llama_ubatch" where
  "demo_late_ub = ubatch_empty\<lparr>ub_equal_seqs := True, ub_n_tokens := 2, ub_n_seq_tokens := 2, ub_n_seqs := 1, ub_n_seqs_unq := 1,
     ub_pos := [3, 4], ub_n_seq_id := [1, 1], ub_seq_id := [[0], [0]], ub_seq_id_unq := [0]\<rparr>"

definition demo_late_si :: slot_info where
  "demo_late_si = \<lparr>si_s0 = 0, si_s1 = 0, si_strm = [0], si_idxs = [[0, 1]]\<rparr>"

lemma allocr_init_seq_max:
  assumes "allocr_init n_pos b n_vocab mem n_embd n_seq_max output_all = Some (Inr a)"
  shows "al_n_seq_max a = n_seq_max \<and> n_seq_max \<le> LLAMA_MAX_SEQ"
proof -
  from assms obtain nsid sid ps lg where n: "n_seq_max \<le> LLAMA_MAX_SEQ"
    and a: "a = split_reset (allocr_stats n_pos b n_embd n_seq_max (nsid, sid, ps, lg))"
    by (rule allocr_initE) (auto split: option.splits)
  then show ?thesis by (simp add: allocr_stats_def split_reset_def Let_def)
qed

text \<open>What a batch needs of the two memories: room in the attention cache, and sequences that the recurrent memory has.\<close>

definition hybrid_ready :: "'v \<Rightarrow> ('v \<Rightarrow> bool) \<Rightarrow> (nat \<Rightarrow> 'v) \<Rightarrow> int \<Rightarrow> nat \<Rightarrow> nat \<Rightarrow> 'd hybrid_memory \<Rightarrow> bool" where
  "hybrid_ready Z G D B n_seq_max n_tokens h \<longleftrightarrow>
     kv_inv (hy_attn h) \<and> slot_ready (hy_attn h) \<and> kv_swa_type (hy_attn h) = SWA_NONE \<and> kv_n_stream (hy_attn h) = 1 \<and>
     n_tokens \<le> card (kv_free_cells (hy_attn h)) \<and>
     rs_wf (hy_recr h) \<and> rs_room B (hy_recr h) \<and> rs_data_ok Z G D (hy_recr h) \<and> n_seq_max \<le> rs_size (hy_recr h)"


lemma demo_fresh: "\<exists>kv. kv_cache_new True 2 1 1 0 SWA_NONE () = Some kv \<and> kv_inv kv \<and> slot_ready kv \<and> kv_swa_type kv = SWA_NONE \<and>
  kv_n_stream kv = 1 \<and> card (kv_free_cells kv) = 2"
proof -
  obtain kv where kv: "kv_cache_new True 2 1 1 0 SWA_NONE () = Some kv" "kv_inv kv" "kv_get_size kv = 2"
    using kv_new_inv [of 1 1 2 True 0 SWA_NONE "()"] max_seq_small(1) by auto
  have F: "kv_swa_type kv = SWA_NONE" "kv_n_stream kv = 1" "kv_v_cells kv = [cells_resize 2 cells_new]"
    using kv(1) by (auto simp: kv_cache_new_def Let_def split: if_splits)
  have pos: "kc_pos (cells_resize 2 cells_new) ! i = - 1" if "i < 2" for i using that by (simp add: cells_resize_new)
  have "slot_ready kv" using pos F by (auto simp: slot_ready_def cells_resize_new cells_size_def int32_max_def)
  moreover have "kv_free_cells kv = {..<2}" using kv(3) pos F by (auto simp: kv_free_cells_def)
  then have "card (kv_free_cells kv) = 2" by simp
  ultimately show ?thesis using kv F by blast
qed

theorem hybrid_rollback_refused_witness:
  "\<exists>kv cx' kv' m'. kv_cache_new True 2 1 1 0 SWA_NONE () = Some kv \<and>
    hybrid_decode 1 (\<lambda>u kv. (GGML_STATUS_ABORTED, kv_data kv)) (\<lambda>v. 0 * v) (\<lambda>u s v. v + 1) (\<lambda>D. D) (\<lambda>d s. (True, d)) False
      (hybrid_ctx_of [demo_late_ub] (ctx_batch [demo_late_si] [demo_late_ub]) (rs_ctx_batch [demo_late_ub]))
      (\<lparr>hy_attn = kv, hy_recr = rs_new 1\<rparr>, \<lambda>_. 5 :: int) = Some (2, cx', \<lparr>hy_attn = kv', hy_recr = m'\<rparr>, \<lambda>_. 5) \<and>
    {3, 4} \<subseteq> kv_holds kv' 0 \<and> rs_holds m' 0 = {4}"
proof -
  from demo_fresh obtain kv where kv: "kv_cache_new True 2 1 1 0 SWA_NONE () = Some kv" "kv_inv kv" "slot_ready kv"
    "kv_swa_type kv = SWA_NONE" "kv_n_stream kv = 1" by blast
  have F: "kv_v_cells kv = [cells_resize 2 cells_new]" "kv_n_stream kv = 1"
    using kv(1) by (auto simp: kv_cache_new_def Let_def split: if_splits)
  have len: "length (kv_seq_to_stream kv) = LLAMA_MAX_SEQ" "\<forall>s < LLAMA_MAX_SEQ. kv_seq_to_stream kv ! s = 0" using kv(2,5) by (simp_all add: kv_inv_def)
  then have z: "kv_seq_to_stream kv ! 0 = 0" "0 < length (kv_seq_to_stream kv)" by (simp_all add: LLAMA_MAX_SEQ_def)
  have pos: "kc_pos (cells_resize 2 cells_new) ! i = - 1" "cells_size (cells_resize 2 cells_new) = 2" if "i < 2" for i using that by (simp_all add: cells_resize_new cells_size_def)
  have tok: "tok_seqs demo_late_ub i = [0]" "tok_seq demo_late_ub i = 0" "i < 2 \<Longrightarrow> ub_pos demo_late_ub ! i = 3 + int i" if "i < 2" for i
    using that by (auto simp: tok_seqs_def tok_seq_def demo_late_ub_def less_2_cases_iff)
  have us: "unq_stream kv demo_late_ub 0 = 0" using z by (simp add: unq_stream_def demo_late_ub_def)
  have "ub_fits kv demo_late_ub 1 2"
    using F(2) us tok z by (auto simp: ub_fits_def seq_guard_def token_ok_def demo_late_ub_def int32_max_def LLAMA_MAX_SEQ_def less_2_cases_iff)
  then have fits: "slot_fits kv demo_late_ub 1 2 demo_late_si" and free: "slot_free kv demo_late_ub 1 demo_late_si"
    using us F pos by (auto simp: slot_fits_def slot_free_def demo_late_si_def usable_def can_use_def cells_is_empty_def cells_resize_new less_2_cases_iff)
  have "set_tok demo_late_ub 0 = 0" "set_ids demo_late_ub 0 = [0]" "set_first demo_late_ub 0 = 0" "set_last_pos demo_late_ub 0 = 4" "prim demo_late_ub 0 = 0"
    by (simp_all add: set_tok_def set_ids_def set_first_def set_last_pos_def prim_def demo_late_ub_def)
  note U = this
  have recr: "rs_wf (rs_new 1)" "rs_room 4 (rs_new 1)" "rs_ubatch_ok (rs_size (rs_new 1)) demo_late_ub" "rs_fits 4 demo_late_ub"
    by (rule rs_new_wf) (use U in \<open>simp_all add: rs_room_def rs_ubatch_ok_def rs_fits_def rs_new_def rs_cell_new_def int32_max_def\<close>,
      simp_all add: demo_late_ub_def int32_max_def)
  have at: "hybrid_at (hybrid_ctx_of [demo_late_ub] (ctx_batch [demo_late_si] [demo_late_ub]) (rs_ctx_batch [demo_late_ub])) demo_late_si demo_late_ub"
    by (simp add: hybrid_at_def hybrid_ctx_of_def ctx_batch_def ctx_error_def rs_ctx_batch_def rs_ctx_error_def llama_memory_status_combine_def)
  have ready: "rollback_ready kv demo_late_ub"
    using z by (auto simp: rollback_ready_def demo_late_ub_def tok_seq_def int32_max_def less_2_cases_iff)
  have several: "ub_several demo_late_ub" using U tok by (auto simp: ub_several_def) (auto simp: demo_late_ub_def)
  have n: "ub_n_tokens demo_late_ub = 2" by (simp add: demo_late_ub_def)
  have "ub_positions demo_late_ub 0 = (!) (ub_pos demo_late_ub) ` {..<2}" using tok(1) unfolding ub_positions_def n by auto
  then have "ub_positions demo_late_ub 0 = {3, 4}" by (simp add: demo_late_ub_def numeral_2_eq_2 lessThan_Suc insert_commute)
  moreover have "\<exists>cx' kv' m'. hybrid_decode (Suc 0) (\<lambda>u kv. (GGML_STATUS_ABORTED, kv_data kv)) (\<lambda>v. 0 * v) (\<lambda>u s v. v + 1) (\<lambda>D. D) (\<lambda>d s. (True, d)) False
      (hybrid_ctx_of [demo_late_ub] (ctx_batch [demo_late_si] [demo_late_ub]) (rs_ctx_batch [demo_late_ub]))
      (\<lparr>hy_attn = kv, hy_recr = rs_new 1\<rparr>, \<lambda>_. 5 :: int) =
        Some (if GGML_STATUS_ABORTED = GGML_STATUS_ABORTED then 2 else if GGML_STATUS_ABORTED = GGML_STATUS_ALLOC_FAILED then - 2 else - 3,
          cx', \<lparr>hy_attn = kv', hy_recr = m'\<rparr>, \<lambda>_. 5) \<and>
    (\<forall>q. kv_holds kv' q = kv_holds (hy_attn \<lparr>hy_attn = kv, hy_recr = rs_new 1\<rparr>) q \<union> ub_positions demo_late_ub q) \<and>
    (\<forall>a < ub_n_seqs demo_late_ub. rs_holds m' (prim demo_late_ub a) = {set_last_pos demo_late_ub a})"
    by (rule hybrid_rollback_refused [where B = 4 and k = 1 and n = 2 and si = demo_late_si])
      (use recr kv(2,3) fits free at ready several in simp_all)
  moreover have "0 < ub_n_seqs demo_late_ub" by (simp add: demo_late_ub_def)
  ultimately obtain cx' kv' m' where R: "hybrid_decode 1 (\<lambda>u kv. (GGML_STATUS_ABORTED, kv_data kv)) (\<lambda>v. 0 * v) (\<lambda>u s v. v + 1) (\<lambda>D. D) (\<lambda>d s. (True, d)) False
      (hybrid_ctx_of [demo_late_ub] (ctx_batch [demo_late_si] [demo_late_ub]) (rs_ctx_batch [demo_late_ub]))
      (\<lparr>hy_attn = kv, hy_recr = rs_new 1\<rparr>, \<lambda>_. 5 :: int) = Some (2, cx', \<lparr>hy_attn = kv', hy_recr = m'\<rparr>, \<lambda>_. 5)"
    "{3, 4} \<subseteq> kv_holds kv' 0" "rs_holds m' 0 = {4}" using U(4,5) by (auto simp del: hybrid_decode.simps)
  with kv(1) show ?thesis by blast
qed


end
