(* ===== verification/QuantPolicy.thy ===== *)
theory QuantPolicy
  imports GgmlTypes
begin

text \<open>
  The choice of a type for every tensor of a model that is being quantized: \<^verbatim>\<open>llama_tensor_get_type\<close> and
  the decisions of the main loop of \<^verbatim>\<open>llama_model_quantize_impl\<close> in \<^verbatim>\<open>src/src/llama-quant.cpp\<close>.

  A tensor is its name, its dimensions and its type. The model is what the code reads of it: whether
  it is a Falcon, whether it is of the 70B size, its numbers of experts and of heads per key-value head,
  and the names that \<^verbatim>\<open>LLM_TN\<close> gives four of its tensors. An exception is a value of \<open>quant_error\<close>;
  \<open>Division_by_zero\<close> and \<open>Scan_range\<close> are the two places where the C++ code has no defined result.
  The search of a user pattern in a tensor name (\<^verbatim>\<open>std::regex_search\<close>) is the parameter \<open>rx\<close>.
\<close>

section \<open>Data\<close>

datatype quant_error = Invalid_ftype | No_layer | Bad_layer | Scan_range | Division_by_zero | Unsupported_size
  | Imatrix_size | Imatrix_mapping | Requantize_disabled | No_dequantization | Validation_failed | Block_range

record tensor =
  te_name :: string
  te_ne0 :: nat
  te_ne1 :: nat
  te_ne2 :: nat
  te_ne3 :: nat
  te_type :: ggml_type

record qmodel =
  qm_falcon :: bool
  qm_70b :: bool
  qm_n_expert :: nat
  qm_n_gqa :: nat
  qm_tn_output :: string
  qm_tn_token_embd :: string
  qm_tn_pos_embd :: string
  qm_tn_token_types :: string

record quantize_params =
  qp_nthread :: int
  qp_ftype :: llama_ftype
  qp_output_tensor_type :: "ggml_type option"
  qp_token_embedding_type :: "ggml_type option"
  qp_allow_requantize :: bool
  qp_quantize_output_tensor :: bool
  qp_only_copy :: bool
  qp_pure :: bool
  qp_keep_split :: bool
  qp_tensor_types :: "(string \<times> ggml_type) list"
  qp_prune_layers :: "nat list"

record quantize_state =
  qs_n_attention_wv :: nat
  qs_n_ffn_down :: nat
  qs_n_ffn_gate :: nat
  qs_n_ffn_up :: nat
  qs_i_attention_wv :: nat
  qs_i_ffn_down :: nat
  qs_i_ffn_gate :: nat
  qs_i_ffn_up :: nat
  qs_n_k_quantized :: nat
  qs_n_fallback :: nat
  qs_has_imatrix :: bool
  qs_has_output :: bool

definition quantize_default_params :: quantize_params where
  "quantize_default_params = \<lparr>qp_nthread = 0, qp_ftype = LLAMA_FTYPE_MOSTLY_Q5_1, qp_output_tensor_type = None,
     qp_token_embedding_type = None, qp_allow_requantize = False, qp_quantize_output_tensor = True, qp_only_copy = False,
     qp_pure = False, qp_keep_split = False, qp_tensor_types = [], qp_prune_layers = []\<rparr>"

section \<open>The default type of a file type\<close>

definition default_type :: "llama_ftype \<Rightarrow> ggml_type option" where
  "default_type f = (case f of
      LLAMA_FTYPE_MOSTLY_Q4_0 \<Rightarrow> Some GGML_TYPE_Q4_0
    | LLAMA_FTYPE_MOSTLY_Q4_1 \<Rightarrow> Some GGML_TYPE_Q4_1
    | LLAMA_FTYPE_MOSTLY_Q5_0 \<Rightarrow> Some GGML_TYPE_Q5_0
    | LLAMA_FTYPE_MOSTLY_Q5_1 \<Rightarrow> Some GGML_TYPE_Q5_1
    | LLAMA_FTYPE_MOSTLY_Q8_0 \<Rightarrow> Some GGML_TYPE_Q8_0
    | LLAMA_FTYPE_MOSTLY_F16 \<Rightarrow> Some GGML_TYPE_F16
    | LLAMA_FTYPE_MOSTLY_BF16 \<Rightarrow> Some GGML_TYPE_BF16
    | LLAMA_FTYPE_ALL_F32 \<Rightarrow> Some GGML_TYPE_F32
    | LLAMA_FTYPE_MOSTLY_MXFP4_MOE \<Rightarrow> Some GGML_TYPE_MXFP4
    | LLAMA_FTYPE_MOSTLY_Q2_K_S \<Rightarrow> Some GGML_TYPE_Q2_K
    | LLAMA_FTYPE_MOSTLY_Q2_K \<Rightarrow> Some GGML_TYPE_Q2_K
    | LLAMA_FTYPE_MOSTLY_IQ3_XS \<Rightarrow> Some GGML_TYPE_IQ3_S
    | LLAMA_FTYPE_MOSTLY_Q3_K_S \<Rightarrow> Some GGML_TYPE_Q3_K
    | LLAMA_FTYPE_MOSTLY_Q3_K_M \<Rightarrow> Some GGML_TYPE_Q3_K
    | LLAMA_FTYPE_MOSTLY_Q3_K_L \<Rightarrow> Some GGML_TYPE_Q3_K
    | LLAMA_FTYPE_MOSTLY_Q4_K_S \<Rightarrow> Some GGML_TYPE_Q4_K
    | LLAMA_FTYPE_MOSTLY_Q4_K_M \<Rightarrow> Some GGML_TYPE_Q4_K
    | LLAMA_FTYPE_MOSTLY_Q5_K_S \<Rightarrow> Some GGML_TYPE_Q5_K
    | LLAMA_FTYPE_MOSTLY_Q5_K_M \<Rightarrow> Some GGML_TYPE_Q5_K
    | LLAMA_FTYPE_MOSTLY_Q6_K \<Rightarrow> Some GGML_TYPE_Q6_K
    | LLAMA_FTYPE_MOSTLY_TQ1_0 \<Rightarrow> Some GGML_TYPE_TQ1_0
    | LLAMA_FTYPE_MOSTLY_TQ2_0 \<Rightarrow> Some GGML_TYPE_TQ2_0
    | LLAMA_FTYPE_MOSTLY_IQ2_XXS \<Rightarrow> Some GGML_TYPE_IQ2_XXS
    | LLAMA_FTYPE_MOSTLY_IQ2_XS \<Rightarrow> Some GGML_TYPE_IQ2_XS
    | LLAMA_FTYPE_MOSTLY_IQ2_S \<Rightarrow> Some GGML_TYPE_IQ2_XS
    | LLAMA_FTYPE_MOSTLY_IQ2_M \<Rightarrow> Some GGML_TYPE_IQ2_S
    | LLAMA_FTYPE_MOSTLY_IQ3_XXS \<Rightarrow> Some GGML_TYPE_IQ3_XXS
    | LLAMA_FTYPE_MOSTLY_IQ1_S \<Rightarrow> Some GGML_TYPE_IQ1_S
    | LLAMA_FTYPE_MOSTLY_IQ1_M \<Rightarrow> Some GGML_TYPE_IQ1_M
    | LLAMA_FTYPE_MOSTLY_IQ4_NL \<Rightarrow> Some GGML_TYPE_IQ4_NL
    | LLAMA_FTYPE_MOSTLY_IQ4_XS \<Rightarrow> Some GGML_TYPE_IQ4_XS
    | LLAMA_FTYPE_MOSTLY_IQ3_S \<Rightarrow> Some GGML_TYPE_IQ3_S
    | LLAMA_FTYPE_MOSTLY_IQ3_M \<Rightarrow> Some GGML_TYPE_IQ3_S
    | _ \<Rightarrow> None)"

section \<open>Layers\<close>

definition use_more_bits :: "nat \<Rightarrow> nat \<Rightarrow> bool" where
  "use_more_bits i_layer n_layers \<longleftrightarrow>
     i_layer < n_layers div 8 \<or> i_layer \<ge> 7 * n_layers div 8 \<or> (i_layer - n_layers div 8) mod 3 = 2"

text \<open>\<^verbatim>\<open>sscanf(name, "blk.%d.", &i)\<close>: \<open>None\<close> when nothing is converted, \<open>Some None\<close> when the number is out of range.\<close>

definition scan_blk :: "string \<Rightarrow> int option option" where
  "scan_blk name =
     (if \<not> has_prefix ''blk.'' name then None
      else (let s = dropWhile c_isspace (drop 4 name);
                neg = (s \<noteq> [] \<and> hd s = CHR ''-''); s' = (if s \<noteq> [] \<and> (hd s = CHR ''-'' \<or> hd s = CHR ''+'') then tl s else s);
                ds = takeWhile c_isdigit s' in
        if ds = [] then None else Some (s32 (if neg then - int (dec_val ds) else int (dec_val ds)))))"

definition layer_info :: "qmodel \<Rightarrow> nat \<Rightarrow> nat \<Rightarrow> string \<Rightarrow> quant_error + nat" where
  "layer_info m i_layer n_layer name =
     (if max 1 (qm_n_expert m) > 1 then
        (case scan_blk name of
           None \<Rightarrow> Inl No_layer
         | Some None \<Rightarrow> Inl Scan_range
         | Some (Some i) \<Rightarrow> if i < 0 \<or> i \<ge> int n_layer then Inl Bad_layer else Inr (nat i))
      else Inr i_layer)"

section \<open>The rules of \<open>llama_tensor_get_type\<close>\<close>

text \<open>The output tensor, or the token embeddings that serve as such.\<close>

definition output_rule :: "qmodel \<Rightarrow> quantize_params \<Rightarrow> llama_ftype \<Rightarrow> nat \<Rightarrow> ggml_type \<Rightarrow> ggml_type" where
  "output_rule m p ftype nx new_type = (case qp_output_tensor_type p of
       Some t \<Rightarrow> t
     | None \<Rightarrow>
         if ftype = LLAMA_FTYPE_MOSTLY_MXFP4_MOE then GGML_TYPE_Q8_0
         else if qm_falcon m \<or> nx mod ggml_blck_size new_type \<noteq> 0 then GGML_TYPE_Q8_0
         else if ftype = LLAMA_FTYPE_MOSTLY_IQ2_XS then new_type
         else if ftype \<in> {LLAMA_FTYPE_MOSTLY_IQ2_XXS, LLAMA_FTYPE_MOSTLY_IQ3_XXS, LLAMA_FTYPE_MOSTLY_IQ1_S,
             LLAMA_FTYPE_MOSTLY_IQ2_S, LLAMA_FTYPE_MOSTLY_IQ2_M, LLAMA_FTYPE_MOSTLY_IQ1_M} then GGML_TYPE_Q5_K
         else if new_type \<noteq> GGML_TYPE_Q8_0 then GGML_TYPE_Q6_K
         else new_type)"

definition embd_rule :: "quantize_params \<Rightarrow> llama_ftype \<Rightarrow> ggml_type \<Rightarrow> ggml_type" where
  "embd_rule p ftype new_type = (case qp_token_embedding_type p of
       Some t \<Rightarrow> t
     | None \<Rightarrow>
         if ftype = LLAMA_FTYPE_MOSTLY_IQ2_XS then new_type
         else if ftype \<in> {LLAMA_FTYPE_MOSTLY_IQ2_XXS, LLAMA_FTYPE_MOSTLY_IQ1_S, LLAMA_FTYPE_MOSTLY_IQ1_M} then GGML_TYPE_Q2_K
         else if ftype \<in> {LLAMA_FTYPE_MOSTLY_IQ2_S, LLAMA_FTYPE_MOSTLY_IQ2_M} then GGML_TYPE_IQ3_S
         else if ftype = LLAMA_FTYPE_MOSTLY_IQ3_XXS then GGML_TYPE_IQ3_S
         else if ftype \<in> {LLAMA_FTYPE_MOSTLY_TQ1_0, LLAMA_FTYPE_MOSTLY_TQ2_0} then GGML_TYPE_Q4_K
         else new_type)"

text \<open>The file types of about two bits and below.\<close>

definition low_bit_ftypes :: "llama_ftype set" where
  "low_bit_ftypes = {LLAMA_FTYPE_MOSTLY_IQ2_XXS, LLAMA_FTYPE_MOSTLY_IQ2_XS, LLAMA_FTYPE_MOSTLY_IQ1_S,
     LLAMA_FTYPE_MOSTLY_IQ2_S, LLAMA_FTYPE_MOSTLY_IQ2_M, LLAMA_FTYPE_MOSTLY_IQ1_M}"

definition low_bit_rule :: "qmodel \<Rightarrow> llama_ftype \<Rightarrow> string \<Rightarrow> ggml_type \<Rightarrow> quantize_state \<Rightarrow> ggml_type \<times> quantize_state" where
  "low_bit_rule m ftype name new_type qs = (let iq2_sm = ftype \<in> {LLAMA_FTYPE_MOSTLY_IQ2_S, LLAMA_FTYPE_MOSTLY_IQ2_M} in
     if ftype = LLAMA_FTYPE_MOSTLY_IQ2_XS then
       (let qs1 = (if contains name ''attn_v.weight'' then qs\<lparr>qs_i_attention_wv := qs_i_attention_wv qs + 1\<rparr> else qs) in
        (new_type, if contains name ''ffn_down'' then qs1\<lparr>qs_i_ffn_down := qs_i_ffn_down qs1 + 1\<rparr> else qs1))
     else if contains name ''attn_v.weight'' then
       (if qm_n_gqa m \<ge> 4 \<or> qm_n_expert m \<ge> 4 then GGML_TYPE_Q4_K else if iq2_sm then GGML_TYPE_IQ3_S else GGML_TYPE_Q2_K,
        qs\<lparr>qs_i_attention_wv := qs_i_attention_wv qs + 1\<rparr>)
     else if qm_n_expert m = 8 \<and> contains name ''attn_k.weight'' then (GGML_TYPE_Q4_K, qs)
     else if contains name ''ffn_down'' then
       (if qs_i_ffn_down qs < qs_n_ffn_down qs div 8 then (if iq2_sm then GGML_TYPE_IQ3_S else GGML_TYPE_Q2_K) else new_type,
        qs\<lparr>qs_i_ffn_down := qs_i_ffn_down qs + 1\<rparr>)
     else if contains name ''attn_output.weight'' then
       (if qm_n_expert m = 8 then GGML_TYPE_Q5_K
        else if ftype \<in> {LLAMA_FTYPE_MOSTLY_IQ1_S, LLAMA_FTYPE_MOSTLY_IQ1_M} then GGML_TYPE_IQ2_XXS
        else if iq2_sm then GGML_TYPE_IQ3_S
        else new_type, qs)
     else (new_type, qs))"

definition attn_v_rule :: "qmodel \<Rightarrow> llama_ftype \<Rightarrow> ggml_type \<Rightarrow> quantize_state \<Rightarrow> ggml_type \<times> quantize_state" where
  "attn_v_rule m ftype new_type qs = (let
     gqa4 = qm_n_gqa m \<ge> 4;
     t1 =
       (if ftype = LLAMA_FTYPE_MOSTLY_Q2_K then (if gqa4 then GGML_TYPE_Q4_K else GGML_TYPE_Q3_K)
        else if ftype = LLAMA_FTYPE_MOSTLY_Q2_K_S \<and> gqa4 then GGML_TYPE_Q4_K
        else if ftype = LLAMA_FTYPE_MOSTLY_IQ3_XXS then
          (if gqa4 then GGML_TYPE_Q4_K else if \<not> qs_has_imatrix qs then GGML_TYPE_IQ3_S else GGML_TYPE_IQ3_XXS)
        else if ftype \<in> {LLAMA_FTYPE_MOSTLY_IQ3_XS, LLAMA_FTYPE_MOSTLY_IQ3_S} \<and> gqa4 then GGML_TYPE_Q4_K
        else if ftype = LLAMA_FTYPE_MOSTLY_IQ3_M then GGML_TYPE_Q4_K
        else if ftype = LLAMA_FTYPE_MOSTLY_Q3_K_M then (if qs_i_attention_wv qs < 2 then GGML_TYPE_Q5_K else GGML_TYPE_Q4_K)
        else if ftype = LLAMA_FTYPE_MOSTLY_Q3_K_L then GGML_TYPE_Q5_K
        else if ftype \<in> {LLAMA_FTYPE_MOSTLY_IQ4_NL, LLAMA_FTYPE_MOSTLY_IQ4_XS} \<and> gqa4 then GGML_TYPE_Q5_K
        else if ftype \<in> {LLAMA_FTYPE_MOSTLY_Q4_K_M, LLAMA_FTYPE_MOSTLY_Q5_K_M} \<and>
          use_more_bits (qs_i_attention_wv qs) (qs_n_attention_wv qs) then GGML_TYPE_Q6_K
        else if ftype = LLAMA_FTYPE_MOSTLY_Q4_K_S \<and> qs_i_attention_wv qs < 4 then GGML_TYPE_Q5_K
        else new_type);
     t2 = (if qm_70b m \<and> t1 \<in> {GGML_TYPE_Q3_K, GGML_TYPE_Q4_K} then GGML_TYPE_Q5_K else t1);
     t3 = (if qm_n_expert m = 8 then GGML_TYPE_Q8_0 else t2)
     in (t3, qs\<lparr>qs_i_attention_wv := qs_i_attention_wv qs + 1\<rparr>))"

definition attn_k_rule :: "qmodel \<Rightarrow> llama_ftype \<Rightarrow> ggml_type \<Rightarrow> ggml_type" where
  "attn_k_rule m ftype new_type =
     (if qm_n_expert m = 8 then GGML_TYPE_Q8_0
      else if ftype = LLAMA_FTYPE_MOSTLY_IQ3_XS then GGML_TYPE_IQ3_XXS
      else if ftype = LLAMA_FTYPE_MOSTLY_IQ3_XXS then GGML_TYPE_IQ2_S
      else new_type)"

definition attn_q_rule :: "llama_ftype \<Rightarrow> ggml_type \<Rightarrow> ggml_type" where
  "attn_q_rule ftype new_type =
     (if ftype = LLAMA_FTYPE_MOSTLY_IQ3_XS then GGML_TYPE_IQ3_XXS
      else if ftype = LLAMA_FTYPE_MOSTLY_IQ3_XXS then GGML_TYPE_IQ2_S
      else new_type)"

definition ffn_down_rule :: "qmodel \<Rightarrow> llama_ftype \<Rightarrow> nat \<Rightarrow> nat \<Rightarrow> bool \<Rightarrow> ggml_type \<Rightarrow> ggml_type" where
  "ffn_down_rule m ftype i_layer n_layer has_imatrix new_type =
     (if ftype = LLAMA_FTYPE_MOSTLY_Q2_K then GGML_TYPE_Q3_K
      else if ftype = LLAMA_FTYPE_MOSTLY_Q2_K_S then (if i_layer < n_layer div 8 then GGML_TYPE_Q4_K else new_type)
      else if ftype = LLAMA_FTYPE_MOSTLY_IQ3_XXS \<and> \<not> has_imatrix then
        (if i_layer < n_layer div 8 then GGML_TYPE_Q4_K else GGML_TYPE_Q3_K)
      else if ftype = LLAMA_FTYPE_MOSTLY_Q3_K_M then
        (if i_layer < n_layer div 16 then GGML_TYPE_Q5_K
         else if \<not> qm_falcon m \<or> use_more_bits i_layer n_layer then GGML_TYPE_Q4_K else GGML_TYPE_Q3_K)
      else if ftype = LLAMA_FTYPE_MOSTLY_IQ3_M \<and>
        (i_layer < n_layer div 8 \<or> (qm_n_expert m = 8 \<and> use_more_bits i_layer n_layer)) then GGML_TYPE_Q4_K
      else if ftype = LLAMA_FTYPE_MOSTLY_Q3_K_L then (if qm_falcon m then GGML_TYPE_Q4_K else GGML_TYPE_Q5_K)
      else if ftype = LLAMA_FTYPE_MOSTLY_Q4_K_M then
        (if qm_falcon m then
           (if i_layer < n_layer div 16 then GGML_TYPE_Q6_K
            else if use_more_bits i_layer n_layer then GGML_TYPE_Q5_K else GGML_TYPE_Q4_K)
         else if use_more_bits i_layer n_layer then GGML_TYPE_Q6_K else new_type)
      else if i_layer < n_layer div 8 \<and> ftype \<in> {LLAMA_FTYPE_MOSTLY_IQ4_NL, LLAMA_FTYPE_MOSTLY_IQ4_XS} \<and> \<not> has_imatrix
        then GGML_TYPE_Q5_K
      else if ftype = LLAMA_FTYPE_MOSTLY_Q5_K_M \<and> use_more_bits i_layer n_layer then GGML_TYPE_Q6_K
      else if ftype = LLAMA_FTYPE_MOSTLY_Q4_K_S \<and> \<not> qm_falcon m \<and> i_layer < n_layer div 8 then GGML_TYPE_Q5_K
      else if ftype \<in> {LLAMA_FTYPE_MOSTLY_Q4_0, LLAMA_FTYPE_MOSTLY_Q5_0} \<and> has_imatrix \<and> i_layer < n_layer div 8 then
        (if ftype = LLAMA_FTYPE_MOSTLY_Q4_0 then GGML_TYPE_Q4_1 else GGML_TYPE_Q5_1)
      else new_type)"

definition attn_output_rule :: "qmodel \<Rightarrow> llama_ftype \<Rightarrow> ggml_type \<Rightarrow> ggml_type" where
  "attn_output_rule m ftype new_type =
     (if \<not> qm_falcon m then
        (if qm_n_expert m = 8 then
           (if ftype \<in> {LLAMA_FTYPE_MOSTLY_Q2_K, LLAMA_FTYPE_MOSTLY_IQ3_XS, LLAMA_FTYPE_MOSTLY_IQ3_XXS,
                LLAMA_FTYPE_MOSTLY_Q3_K_S, LLAMA_FTYPE_MOSTLY_Q3_K_M, LLAMA_FTYPE_MOSTLY_IQ4_NL,
                LLAMA_FTYPE_MOSTLY_Q4_K_S, LLAMA_FTYPE_MOSTLY_Q4_K_M, LLAMA_FTYPE_MOSTLY_IQ3_S,
                LLAMA_FTYPE_MOSTLY_IQ3_M, LLAMA_FTYPE_MOSTLY_IQ4_XS} then GGML_TYPE_Q5_K else new_type)
         else if ftype = LLAMA_FTYPE_MOSTLY_Q2_K then GGML_TYPE_Q3_K
         else if ftype = LLAMA_FTYPE_MOSTLY_IQ3_XXS then GGML_TYPE_IQ3_S
         else if ftype = LLAMA_FTYPE_MOSTLY_Q3_K_M then GGML_TYPE_Q4_K
         else if ftype = LLAMA_FTYPE_MOSTLY_Q3_K_L then GGML_TYPE_Q5_K
         else if ftype = LLAMA_FTYPE_MOSTLY_IQ3_M then GGML_TYPE_Q4_K
         else new_type)
      else if ftype = LLAMA_FTYPE_MOSTLY_Q3_K_L then GGML_TYPE_Q4_K else new_type)"

definition attn_qkv_rule :: "llama_ftype \<Rightarrow> ggml_type \<Rightarrow> ggml_type" where
  "attn_qkv_rule ftype new_type =
     (if ftype \<in> {LLAMA_FTYPE_MOSTLY_Q3_K_M, LLAMA_FTYPE_MOSTLY_Q3_K_L, LLAMA_FTYPE_MOSTLY_IQ3_M} then GGML_TYPE_Q4_K
      else if ftype = LLAMA_FTYPE_MOSTLY_Q4_K_M then GGML_TYPE_Q5_K
      else if ftype = LLAMA_FTYPE_MOSTLY_Q5_K_M then GGML_TYPE_Q6_K
      else new_type)"

definition ffn_gate_up_rule :: "llama_ftype \<Rightarrow> nat \<Rightarrow> nat \<Rightarrow> ggml_type \<Rightarrow> ggml_type" where
  "ffn_gate_up_rule ftype i_layer n_layer new_type =
     (if ftype = LLAMA_FTYPE_MOSTLY_IQ3_XS \<and> i_layer \<ge> n_layer div 8 \<and> i_layer < 7 * n_layer div 8
      then GGML_TYPE_IQ3_XXS else new_type)"

text \<open>The whole case distinction, in the order of the code.\<close>

definition pick_type :: "qmodel \<Rightarrow> quantize_params \<Rightarrow> llama_ftype \<Rightarrow> tensor \<Rightarrow> ggml_type \<Rightarrow> quantize_state
    \<Rightarrow> quant_error + ggml_type \<times> quantize_state" where
  "pick_type m p ftype t new_type qs = (let name = te_name t in
     if name = qm_tn_output m \<or> (\<not> qs_has_output qs \<and> name = qm_tn_token_embd m) then
       Inr (output_rule m p ftype (te_ne0 t) new_type, qs)
     else if ftype = LLAMA_FTYPE_MOSTLY_MXFP4_MOE then
       Inr (if te_ne2 t > 1 then GGML_TYPE_MXFP4 else GGML_TYPE_Q8_0, qs)
     else if name = ''token_embd.weight'' \<or> name = ''per_layer_token_embd.weight'' then Inr (embd_rule p ftype new_type, qs)
     else if ftype \<in> low_bit_ftypes then Inr (low_bit_rule m ftype name new_type qs)
     else if contains name ''attn_v.weight'' then Inr (attn_v_rule m ftype new_type qs)
     else if contains name ''attn_k.weight'' then Inr (attn_k_rule m ftype new_type, qs)
     else if contains name ''attn_q.weight'' then Inr (attn_q_rule ftype new_type, qs)
     else if contains name ''ffn_down'' then
       (case layer_info m (qs_i_ffn_down qs) (qs_n_ffn_down qs) name of
          Inl e \<Rightarrow> Inl e
        | Inr i \<Rightarrow> Inr (ffn_down_rule m ftype i (qs_n_ffn_down qs) (qs_has_imatrix qs) new_type, qs\<lparr>qs_i_ffn_down := qs_i_ffn_down qs + 1\<rparr>))
     else if contains name ''attn_output.weight'' then Inr (attn_output_rule m ftype new_type, qs)
     else if contains name ''attn_qkv.weight'' then Inr (attn_qkv_rule ftype new_type, qs)
     else if contains name ''ffn_gate'' then
       (case layer_info m (qs_i_ffn_gate qs) (qs_n_ffn_gate qs) name of
          Inl e \<Rightarrow> Inl e
        | Inr i \<Rightarrow> Inr (ffn_gate_up_rule ftype i (qs_n_ffn_gate qs) new_type, qs\<lparr>qs_i_ffn_gate := qs_i_ffn_gate qs + 1\<rparr>))
     else if contains name ''ffn_up'' then
       (case layer_info m (qs_i_ffn_up qs) (qs_n_ffn_up qs) name of
          Inl e \<Rightarrow> Inl e
        | Inr i \<Rightarrow> Inr (ffn_gate_up_rule ftype i (qs_n_ffn_up qs) new_type, qs\<lparr>qs_i_ffn_up := qs_i_ffn_up qs + 1\<rparr>))
     else Inr (new_type, qs))"

text \<open>The types used when the rows of a tensor are not a whole number of blocks.\<close>

definition fallback_type :: "ggml_type \<Rightarrow> ggml_type option" where
  "fallback_type t = (case t of
      GGML_TYPE_TQ1_0 \<Rightarrow> Some GGML_TYPE_Q4_0
    | GGML_TYPE_TQ2_0 \<Rightarrow> Some GGML_TYPE_Q4_0
    | GGML_TYPE_IQ2_XXS \<Rightarrow> Some GGML_TYPE_IQ4_NL
    | GGML_TYPE_IQ2_XS \<Rightarrow> Some GGML_TYPE_IQ4_NL
    | GGML_TYPE_IQ2_S \<Rightarrow> Some GGML_TYPE_IQ4_NL
    | GGML_TYPE_IQ3_XXS \<Rightarrow> Some GGML_TYPE_IQ4_NL
    | GGML_TYPE_IQ3_S \<Rightarrow> Some GGML_TYPE_IQ4_NL
    | GGML_TYPE_IQ1_S \<Rightarrow> Some GGML_TYPE_IQ4_NL
    | GGML_TYPE_IQ1_M \<Rightarrow> Some GGML_TYPE_IQ4_NL
    | GGML_TYPE_Q2_K \<Rightarrow> Some GGML_TYPE_IQ4_NL
    | GGML_TYPE_Q3_K \<Rightarrow> Some GGML_TYPE_IQ4_NL
    | GGML_TYPE_IQ4_XS \<Rightarrow> Some GGML_TYPE_IQ4_NL
    | GGML_TYPE_Q4_K \<Rightarrow> Some GGML_TYPE_Q5_0
    | GGML_TYPE_Q5_K \<Rightarrow> Some GGML_TYPE_Q5_1
    | GGML_TYPE_Q6_K \<Rightarrow> Some GGML_TYPE_Q8_0
    | _ \<Rightarrow> None)"

definition fit_type :: "nat \<Rightarrow> ggml_type \<Rightarrow> quantize_state \<Rightarrow> quant_error + ggml_type \<times> quantize_state" where
  "fit_type nx new_type qs =
     (if ggml_blck_size new_type = 0 then Inl Division_by_zero
      else if nx mod ggml_blck_size new_type \<noteq> 0 then
        (case fallback_type new_type of
           None \<Rightarrow> Inl Unsupported_size
         | Some t \<Rightarrow> Inr (if nx mod ggml_blck_size t \<noteq> 0 then GGML_TYPE_F16 else t, qs\<lparr>qs_n_fallback := qs_n_fallback qs + 1\<rparr>))
      else Inr (new_type, qs\<lparr>qs_n_k_quantized := qs_n_k_quantized qs + 1\<rparr>))"

definition tensor_get_type :: "qmodel \<Rightarrow> quantize_params \<Rightarrow> llama_ftype \<Rightarrow> tensor \<Rightarrow> ggml_type \<Rightarrow> quantize_state
    \<Rightarrow> quant_error + ggml_type \<times> quantize_state" where
  "tensor_get_type m p ftype t new_type qs = (case pick_type m p ftype t new_type qs of
       Inl e \<Rightarrow> Inl e
     | Inr (ty, qs') \<Rightarrow> fit_type (te_ne0 t) ty qs')"


section \<open>The decision for a tensor\<close>

definition ggml_n_dims :: "tensor \<Rightarrow> nat" where
  "ggml_n_dims t = (if te_ne3 t > 1 then 4 else if te_ne2 t > 1 then 3 else if te_ne1 t > 1 then 2 else 1)"

text \<open>\<^verbatim>\<open>name.rfind("weight") == name.size() - 6\<close>: for a name of five characters both sides are the greatest \<^verbatim>\<open>size_t\<close>.\<close>

definition ends_weight :: "string \<Rightarrow> bool" where
  "ends_weight name \<longleftrightarrow> has_suffix ''weight'' name \<or> length name = 5"

definition kept_names :: "string list" where
  "kept_names = [''_norm.weight'', ''ffn_gate_inp.weight'', ''altup'', ''laurel'', ''per_layer_model_proj'',
     ''ssm_conv1d.weight'', ''shortconv.conv.weight'', ''time_mix_first.weight'', ''time_mix_w0.weight'',
     ''time_mix_w1.weight'', ''time_mix_w2.weight'', ''time_mix_v0.weight'', ''time_mix_v1.weight'',
     ''time_mix_v2.weight'', ''time_mix_a0.weight'', ''time_mix_a1.weight'', ''time_mix_a2.weight'',
     ''time_mix_g1.weight'', ''time_mix_g2.weight'', ''time_mix_decay_w1.weight'', ''time_mix_decay_w2.weight'',
     ''time_mix_lerp_fused.weight'', ''attn_rel_b.weight'']"

definition may_quantize :: "qmodel \<Rightarrow> quantize_params \<Rightarrow> tensor \<Rightarrow> bool" where
  "may_quantize m p t \<longleftrightarrow> (let name = te_name t in
     ends_weight name \<and> ggml_n_dims t \<ge> 2 \<and> (qp_quantize_output_tensor p \<or> name \<noteq> ''output.weight'') \<and> \<not> qp_only_copy p \<and>
     list_all (\<lambda>s. \<not> contains name s) kept_names \<and> name \<noteq> qm_tn_pos_embd m \<and> name \<noteq> qm_tn_token_types m)"

text \<open>The user's \<^verbatim>\<open>--tensor-type\<close> entries, in order.\<close>

definition override_type :: "(string \<Rightarrow> string \<Rightarrow> bool) \<Rightarrow> (string \<times> ggml_type) list \<Rightarrow> string \<Rightarrow> ggml_type \<Rightarrow> ggml_type" where
  "override_type rx tts name new_type =
     foldl (\<lambda>nt (tname, qtype). if rx tname name then (if qtype \<noteq> nt then qtype else nt) else nt) new_type tts"

text \<open>The new type of a tensor; \<open>None\<close> when it is copied as it is.\<close>

definition decide_type :: "(string \<Rightarrow> string \<Rightarrow> bool) \<Rightarrow> qmodel \<Rightarrow> quantize_params \<Rightarrow> ggml_type \<Rightarrow> llama_ftype \<Rightarrow> tensor \<Rightarrow> quantize_state
    \<Rightarrow> quant_error + ggml_type option \<times> quantize_state" where
  "decide_type rx m p dflt ftype t qs =
     (if \<not> may_quantize m p t then Inr (None, qs)
      else case (if \<not> qp_pure p \<and> ggml_is_quantized dflt then
                   (case tensor_get_type m p ftype t dflt qs of
                      Inl e \<Rightarrow> Inl e
                    | Inr (nt, qs') \<Rightarrow>
                        Inr (if qs_n_fallback qs' - qs_n_fallback qs = 0 then override_type rx (qp_tensor_types p) (te_name t) nt else nt, qs'))
                 else Inr (dflt, qs)) of
          Inl e \<Rightarrow> Inl e
        | Inr (nt, qs') \<Rightarrow>
            (let nt1 = (case qp_token_embedding_type p of Some ty \<Rightarrow> if te_name t = ''token_embd.weight'' then ty else nt | None \<Rightarrow> nt);
                 nt2 = (case qp_output_tensor_type p of Some ty \<Rightarrow> if te_name t = ''output.weight'' then ty else nt1 | None \<Rightarrow> nt1)
             in Inr (if te_type t \<noteq> nt2 then Some nt2 else None, qs')))"

section \<open>Properties of the choice\<close>

lemma blck_size_fallback: "fallback_type t = Some u \<Longrightarrow> ggml_blck_size u = 32"
  by (cases t) (auto simp: fallback_type_def ggml_blck_size_def type_traits_def type_traits_iq_def)

lemma blck_F16 [simp]: "ggml_blck_size GGML_TYPE_F16 = 1"
  by (simp add: ggml_blck_size_def type_traits_def)

lemma fit_type_fits: "fit_type nx ty qs = Inr (ty', qs') \<Longrightarrow> ggml_blck_size ty' \<noteq> 0 \<and> nx mod ggml_blck_size ty' = 0"
  by (auto simp: fit_type_def split: if_splits option.splits dest: blck_size_fallback)

lemma blck_size_default: "default_type f = Some t \<Longrightarrow> ggml_blck_size t \<in> {1, 32, 256}"
  by (cases f) (auto simp: default_type_def ggml_blck_size_def type_traits_def type_traits_iq_def)

lemma ggml_row_size_fits: "ggml_blck_size t \<noteq> 0 \<Longrightarrow> ne mod ggml_blck_size t = 0 \<Longrightarrow> ggml_row_size t ne = Some (ggml_type_size t * (ne div ggml_blck_size t))"
  by (auto simp: ggml_row_size_def div_mult_swap)

definition demo_model :: qmodel where
  "demo_model = \<lparr>qm_falcon = False, qm_70b = False, qm_n_expert = 0, qm_n_gqa = 1, qm_tn_output = ''output.weight'',
     qm_tn_token_embd = ''token_embd.weight'', qm_tn_pos_embd = ''position_embd.weight'', qm_tn_token_types = ''token_types.weight''\<rparr>"

definition demo_qs :: quantize_state where
  "demo_qs = \<lparr>qs_n_attention_wv = 16, qs_n_ffn_down = 16, qs_n_ffn_gate = 16, qs_n_ffn_up = 16, qs_i_attention_wv = 0,
     qs_i_ffn_down = 0, qs_i_ffn_gate = 0, qs_i_ffn_up = 0, qs_n_k_quantized = 0, qs_n_fallback = 0,
     qs_has_imatrix = False, qs_has_output = True\<rparr>"

definition demo_tensor :: "string \<Rightarrow> nat \<Rightarrow> tensor" where
  "demo_tensor name nx = \<lparr>te_name = name, te_ne0 = nx, te_ne1 = 8, te_ne2 = 1, te_ne3 = 1, te_type = GGML_TYPE_F32\<rparr>"

text \<open>C38: the type chosen for a tensor always divides its rows into whole blocks, whatever the model, the
  file type and the user's types are: the size of a row is defined.\<close>

theorem tensor_get_type_fits:
  assumes "tensor_get_type m p ftype t d qs = Inr (ty, qs')"
  shows "\<exists>r. ggml_row_size ty (te_ne0 t) = Some r \<and> r * ggml_blck_size ty = ggml_type_size ty * te_ne0 t"
proof -
  from assms obtain ty0 qs0 where "fit_type (te_ne0 t) ty0 qs0 = Inr (ty, qs')" by (auto simp: tensor_get_type_def split: sum.splits)
  then have fits: "ggml_blck_size ty \<noteq> 0" "te_ne0 t mod ggml_blck_size ty = 0" by (auto dest: fit_type_fits)
  then show ?thesis by (auto simp: ggml_row_size_fits)
qed

theorem tensor_get_type_fits_witness:
  "\<exists>qs' r. tensor_get_type demo_model quantize_default_params LLAMA_FTYPE_MOSTLY_Q4_K_M (demo_tensor ''blk.0.attn_k.weight'' 96) GGML_TYPE_Q4_K demo_qs
      = Inr (GGML_TYPE_Q5_0, qs') \<and> ggml_row_size GGML_TYPE_Q5_0 96 = Some r \<and> r * 32 = 22 * 96"
proof -
  let ?t = "demo_tensor ''blk.0.attn_k.weight'' 96"
  have "\<exists>qs'. tensor_get_type demo_model quantize_default_params LLAMA_FTYPE_MOSTLY_Q4_K_M ?t GGML_TYPE_Q4_K demo_qs = Inr (GGML_TYPE_Q5_0, qs')"
    by (simp add: tensor_get_type_def pick_type_def demo_tensor_def demo_model_def demo_qs_def low_bit_ftypes_def attn_k_rule_def fit_type_def
        fallback_type_def ggml_blck_size_def type_traits_def)
  then obtain qs' where q: "tensor_get_type demo_model quantize_default_params LLAMA_FTYPE_MOSTLY_Q4_K_M ?t GGML_TYPE_Q4_K demo_qs = Inr (GGML_TYPE_Q5_0, qs')" ..
  from tensor_get_type_fits [OF q] q show ?thesis by (simp add: demo_tensor_def ggml_blck_size_def ggml_type_size_def type_traits_def)
qed

text \<open>With the file type \<^verbatim>\<open>IQ2_XS\<close> every tensor whose rows are whole super-blocks gets exactly the type
  \<^verbatim>\<open>IQ2_XS\<close>, unless the user sets a type or the model is a Falcon: none of the upgrades of the other low-bit
  file types applies. Only the counters of the value projections and of the down projections advance.\<close>

theorem iq2_xs_uniform:
  assumes "\<not> qm_falcon m" and "qp_output_tensor_type p = None" and "qp_token_embedding_type p = None" and "te_ne0 t mod 256 = 0"
  shows "\<exists>qs'. tensor_get_type m p LLAMA_FTYPE_MOSTLY_IQ2_XS t GGML_TYPE_IQ2_XS qs = Inr (GGML_TYPE_IQ2_XS, qs') \<and>
    qs_n_fallback qs' = qs_n_fallback qs \<and> qs_n_k_quantized qs' = qs_n_k_quantized qs + 1 \<and>
    qs_i_attention_wv qs' \<le> qs_i_attention_wv qs + 1 \<and> qs_i_ffn_down qs' \<le> qs_i_ffn_down qs + 1 \<and>
    qs_i_ffn_gate qs' = qs_i_ffn_gate qs \<and> qs_i_ffn_up qs' = qs_i_ffn_up qs"
proof -
  have b: "ggml_blck_size GGML_TYPE_IQ2_XS = 256" by (simp add: ggml_blck_size_def type_traits_def type_traits_iq_def)
  have "\<exists>qs1. pick_type m p LLAMA_FTYPE_MOSTLY_IQ2_XS t GGML_TYPE_IQ2_XS qs = Inr (GGML_TYPE_IQ2_XS, qs1) \<and>
      qs_n_fallback qs1 = qs_n_fallback qs \<and> qs_n_k_quantized qs1 = qs_n_k_quantized qs \<and>
      qs_i_attention_wv qs1 \<le> qs_i_attention_wv qs + 1 \<and> qs_i_ffn_down qs1 \<le> qs_i_ffn_down qs + 1 \<and>
      qs_i_ffn_gate qs1 = qs_i_ffn_gate qs \<and> qs_i_ffn_up qs1 = qs_i_ffn_up qs"
    using assms b by (simp add: pick_type_def output_rule_def embd_rule_def low_bit_ftypes_def low_bit_rule_def Let_def)
  then show ?thesis using assms(4) b by (auto simp: tensor_get_type_def fit_type_def)
qed

theorem iq2_xs_uniform_witness:
  "\<exists>qs'. tensor_get_type demo_model quantize_default_params LLAMA_FTYPE_MOSTLY_IQ2_XS (demo_tensor ''blk.0.attn_v.weight'' 512) GGML_TYPE_IQ2_XS demo_qs
     = Inr (GGML_TYPE_IQ2_XS, qs')"
  using iq2_xs_uniform [of demo_model quantize_default_params "demo_tensor ''blk.0.attn_v.weight'' 512" demo_qs]
  by (auto simp: demo_model_def quantize_default_params_def demo_tensor_def)

definition k_quant_ftypes :: "llama_ftype set" where
  "k_quant_ftypes = {LLAMA_FTYPE_MOSTLY_Q2_K, LLAMA_FTYPE_MOSTLY_Q2_K_S, LLAMA_FTYPE_MOSTLY_Q3_K_S, LLAMA_FTYPE_MOSTLY_Q3_K_M,
     LLAMA_FTYPE_MOSTLY_Q3_K_L, LLAMA_FTYPE_MOSTLY_Q4_K_S, LLAMA_FTYPE_MOSTLY_Q4_K_M, LLAMA_FTYPE_MOSTLY_Q5_K_S, LLAMA_FTYPE_MOSTLY_Q5_K_M,
     LLAMA_FTYPE_MOSTLY_Q6_K}"

text \<open>The bytes of 256 weights.\<close>

definition super_bytes :: "ggml_type \<Rightarrow> nat" where
  "super_bytes t = ggml_type_size t * (256 div ggml_blck_size t)"

lemma super_bytes_eval: "super_bytes GGML_TYPE_Q2_K = 84" "super_bytes GGML_TYPE_Q3_K = 110" "super_bytes GGML_TYPE_Q4_K = 144"
  "super_bytes GGML_TYPE_Q5_K = 176" "super_bytes GGML_TYPE_Q6_K = 210" "super_bytes GGML_TYPE_Q8_0 = 272"
  by (simp_all add: super_bytes_def ggml_type_size_def ggml_blck_size_def type_traits_def)

lemma row_size_super:
  assumes "ggml_blck_size t dvd 256" and "nx mod 256 = 0"
  shows "ggml_row_size t nx = Some (super_bytes t * (nx div 256))"
proof -
  from assms(2) obtain k where k: "nx = 256 * k" by (auto elim: dvdE simp: mod_eq_0_iff_dvd)
  have "ggml_blck_size t \<noteq> 0" using assms(1) by (metis dvd_0_left_iff zero_neq_numeral)
  moreover have "nx div ggml_blck_size t = 256 div ggml_blck_size t * k" using assms(1) k by (metis div_mult_swap mult.commute)
  ultimately show ?thesis using assms(1) k by (simp add: ggml_row_size_fits super_bytes_def dvd_mult2 mod_eq_0_iff_dvd)
qed

definition k_types :: "ggml_type set" where
  "k_types = {GGML_TYPE_Q2_K, GGML_TYPE_Q3_K, GGML_TYPE_Q4_K, GGML_TYPE_Q5_K, GGML_TYPE_Q6_K, GGML_TYPE_Q8_0}"

lemma blck_k_types: "t \<in> k_types \<Longrightarrow> ggml_blck_size t dvd 256"
  by (auto simp: k_types_def ggml_blck_size_def type_traits_def)

text \<open>The upgrades of the K-quant mixes: from the default type \<open>d\<close> of the file type to \<open>x\<close>.\<close>

definition k_up :: "llama_ftype \<Rightarrow> ggml_type \<Rightarrow> ggml_type \<Rightarrow> bool" where
  "k_up ftype d x \<longleftrightarrow> ftype \<in> k_quant_ftypes \<and> default_type ftype = Some d \<and>
     (x = d \<or> x \<in> {GGML_TYPE_Q6_K, GGML_TYPE_Q8_0} \<or> (x = GGML_TYPE_Q3_K \<and> d \<in> {GGML_TYPE_Q2_K, GGML_TYPE_Q3_K}) \<or>
      (x = GGML_TYPE_Q4_K \<and> d \<in> {GGML_TYPE_Q2_K, GGML_TYPE_Q3_K, GGML_TYPE_Q4_K}) \<or>
      (x = GGML_TYPE_Q5_K \<and> d \<in> {GGML_TYPE_Q2_K, GGML_TYPE_Q3_K, GGML_TYPE_Q4_K, GGML_TYPE_Q5_K}))"

lemma k_up_bytes: "k_up ftype d x \<Longrightarrow> d \<in> k_types \<and> x \<in> k_types \<and> super_bytes d \<le> super_bytes x"
  by (auto simp: k_up_def k_quant_ftypes_def default_type_def k_types_def super_bytes_eval)

lemma k_up_rules:
  assumes "k_up ftype d d"
  shows "qp_output_tensor_type p = None \<Longrightarrow> k_up ftype d (output_rule m p ftype nx d)"
    and "qp_token_embedding_type p = None \<Longrightarrow> k_up ftype d (embd_rule p ftype d)"
    and "k_up ftype d (fst (attn_v_rule m ftype d qs))"
    and "k_up ftype d (attn_k_rule m ftype d)" and "k_up ftype d (attn_q_rule ftype d)"
    and "k_up ftype d (ffn_down_rule m ftype i n im d)"
    and "k_up ftype d (attn_output_rule m ftype d)" and "k_up ftype d (attn_qkv_rule ftype d)"
    and "k_up ftype d (ffn_gate_up_rule ftype i n d)"
proof -
  have d: "ftype \<in> k_quant_ftypes" "default_type ftype = Some d" using assms by (auto simp: k_up_def)
  show "qp_output_tensor_type p = None \<Longrightarrow> k_up ftype d (output_rule m p ftype nx d)"
    using d by (auto simp: k_up_def k_quant_ftypes_def output_rule_def)
  show "qp_token_embedding_type p = None \<Longrightarrow> k_up ftype d (embd_rule p ftype d)"
    using d by (auto simp: k_up_def k_quant_ftypes_def embd_rule_def)
  show "k_up ftype d (fst (attn_v_rule m ftype d qs))"
    using d unfolding k_quant_ftypes_def by (elim insertE) (simp_all add: k_up_def k_quant_ftypes_def default_type_def attn_v_rule_def Let_def)
  show "k_up ftype d (attn_k_rule m ftype d)" "k_up ftype d (attn_q_rule ftype d)" "k_up ftype d (ffn_gate_up_rule ftype i n d)"
    using d by (auto simp: k_up_def k_quant_ftypes_def attn_k_rule_def attn_q_rule_def ffn_gate_up_rule_def)
  show "k_up ftype d (ffn_down_rule m ftype i n im d)"
    using d unfolding k_quant_ftypes_def by (elim insertE) (simp_all add: k_up_def k_quant_ftypes_def default_type_def ffn_down_rule_def)
  show "k_up ftype d (attn_output_rule m ftype d)" "k_up ftype d (attn_qkv_rule ftype d)"
    using d unfolding k_quant_ftypes_def
    by (elim insertE; simp add: k_up_def k_quant_ftypes_def default_type_def attn_output_rule_def attn_qkv_rule_def)+
qed

lemma pick_type_k_up:
  assumes up: "k_up ftype d d" and user: "qp_output_tensor_type p = None" "qp_token_embedding_type p = None"
    and pick: "pick_type m p ftype t d qs = Inr (ty, qs')"
  shows "k_up ftype d ty"
proof -
  have ft: "ftype \<noteq> LLAMA_FTYPE_MOSTLY_MXFP4_MOE" "ftype \<notin> low_bit_ftypes"
    using up by (auto simp: k_up_def k_quant_ftypes_def low_bit_ftypes_def)
  have v: "attn_v_rule m ftype d qs = (ty, qs'') \<Longrightarrow> k_up ftype d ty" for qs'' using k_up_rules(3) [OF up, of m qs] by simp
  show ?thesis
    using pick ft v up k_up_rules(1,2,4-9) [OF up] user
    by (auto simp: pick_type_def Let_def split: if_splits sum.splits)
qed

text \<open>In the K-quant mixes no tensor gets fewer bits than the file type's default type: when its rows are
  whole super-blocks and the user sets no type, the chosen row is at least as large as the default one.\<close>

theorem k_quant_mix_at_least_default:
  assumes "ftype \<in> k_quant_ftypes" and "default_type ftype = Some d" and "te_ne0 t mod 256 = 0"
    and "qp_output_tensor_type p = None" and "qp_token_embedding_type p = None"
    and "tensor_get_type m p ftype t d qs = Inr (ty, qs')"
  shows "\<exists>a b. ggml_row_size d (te_ne0 t) = Some a \<and> ggml_row_size ty (te_ne0 t) = Some b \<and> a \<le> b"
proof -
  have up: "k_up ftype d d" using assms(1,2) by (simp add: k_up_def)
  from assms(6) obtain ty0 qs0 where pick: "pick_type m p ftype t d qs = Inr (ty0, qs0)" and fit: "fit_type (te_ne0 t) ty0 qs0 = Inr (ty, qs')"
    by (auto simp: tensor_get_type_def split: sum.splits)
  note K = k_up_bytes [OF pick_type_k_up [OF up assms(4,5) pick]]
  have fits: "te_ne0 t mod ggml_blck_size ty0 = 0" using blck_k_types [of ty0] K assms(3) by (auto intro: dvd_trans simp: mod_eq_0_iff_dvd)
  with fit have "ty = ty0" by (auto simp: fit_type_def split: if_splits)
  with K assms(3) show ?thesis by (simp add: row_size_super blck_k_types)
qed

lemma demo_k_pick:
  "\<exists>qs'. tensor_get_type demo_model quantize_default_params LLAMA_FTYPE_MOSTLY_Q4_K_M (demo_tensor ''blk.0.attn_v.weight'' 512) GGML_TYPE_Q4_K demo_qs
     = Inr (GGML_TYPE_Q6_K, qs')"
  by (simp add: tensor_get_type_def pick_type_def demo_tensor_def demo_model_def demo_qs_def low_bit_ftypes_def attn_v_rule_def use_more_bits_def
      fit_type_def ggml_blck_size_def type_traits_def Let_def)

theorem k_quant_mix_at_least_default_witness:
  "\<exists>a b. ggml_row_size GGML_TYPE_Q4_K 512 = Some a \<and> ggml_row_size GGML_TYPE_Q6_K 512 = Some b \<and> a \<le> b"
proof -
  from demo_k_pick obtain qs' where "tensor_get_type demo_model quantize_default_params LLAMA_FTYPE_MOSTLY_Q4_K_M
      (demo_tensor ''blk.0.attn_v.weight'' 512) GGML_TYPE_Q4_K demo_qs = Inr (GGML_TYPE_Q6_K, qs')" ..
  from k_quant_mix_at_least_default [OF _ _ _ _ _ this] show ?thesis
    by (simp add: k_quant_ftypes_def default_type_def demo_tensor_def quantize_default_params_def)
qed

text \<open>Of the user's type entries whose pattern occurs in the name of a tensor, the last one decides; without
  a match the chosen type stays.\<close>

lemma override_type_last:
  "override_type rx tts name nt = (case filter (\<lambda>(tname, q). rx tname name) (rev tts) of [] \<Rightarrow> nt | (_, q) # _ \<Rightarrow> q)"
proof (induction tts rule: rev_induct)
  case (snoc x tts)
  then show ?case by (cases x) (auto simp: override_type_def)
qed (simp add: override_type_def)

text \<open>A user's type is not checked against the row length: a tensor with rows of 96 weights, for which the
  file type \<^verbatim>\<open>Q8_0\<close> needs no fallback, gets the requested \<^verbatim>\<open>Q4_K\<close>, for which the size of a row is not defined.\<close>


theorem override_may_not_fit:
  "\<exists>qs'. decide_type (\<lambda>pat s. contains s pat) demo_model (quantize_default_params\<lparr>qp_tensor_types := [(''attn_q'', GGML_TYPE_Q4_K)]\<rparr>)
       GGML_TYPE_Q8_0 LLAMA_FTYPE_MOSTLY_Q8_0 (demo_tensor ''blk.0.attn_q.weight'' 96) demo_qs = Inr (Some GGML_TYPE_Q4_K, qs') \<and>
     ggml_row_size GGML_TYPE_Q4_K 96 = None"
  by (simp add: decide_type_def may_quantize_def demo_tensor_def demo_model_def demo_qs_def quantize_default_params_def ends_weight_def ggml_n_dims_def
      kept_names_def tensor_get_type_def pick_type_def low_bit_ftypes_def attn_q_rule_def fit_type_def override_type_def ggml_row_size_def
      ggml_blck_size_def ggml_is_quantized_def type_traits_def Let_def)

end
