(* ===== verification/QuantThreads.thy ===== *)
theory QuantThreads
  imports QuantPolicy GgmlValidate
begin

text \<open>
  The worker threads of \<^verbatim>\<open>llama_tensor_quantize_impl\<close> (\<^verbatim>\<open>src/llama-quant.cpp\<close>).

  \<open>quantize_single\<close> is the branch for one thread.  The other branch is the step relation
  \<open>qstep\<close> over \<open>qstate\<close>, the variables the threads share (\<open>counter\<close>, \<open>new_size\<close>, \<open>valid\<close>, the
  destination) and what each thread is doing; a step is what one thread does between two points
  at which another can be scheduled: taking rows under the mutex, quantizing them, validating them,
  leaving the loop under the mutex.  A thread's state carries its \<^verbatim>\<open>first_row\<close>, \<^verbatim>\<open>this_size\<close> and
  \<^verbatim>\<open>local_size\<close>.  Writes of one chunk are one step: chunks of different threads never overlap.
\<close>

record 'f quant_job =
  j_type :: ggml_type
  j_src :: "'f list"
  j_chunk_size :: nat
  j_nrows :: nat
  j_n_per_row :: nat
  j_imatrix :: "'f list option"
  j_per_weight :: bool

section \<open>One thread\<close>

text \<open>Rows \<open>first\<close> to \<open>first + n\<close>, row by row with their own weights or in one call.  The flag for weights per element is only
  ever set together with importance data (\<open>tensor_imatrix_per_weight\<close>), so the offset is never added to a null pointer.\<close>

definition quantize_part :: "(ggml_type \<Rightarrow> 'f list \<Rightarrow> 'f list option \<Rightarrow> bytes option) \<Rightarrow> 'f quant_job \<Rightarrow> nat \<Rightarrow> nat \<Rightarrow> bytes
    \<Rightarrow> (bytes \<times> nat) option" where
  "quantize_part krow j first n dst =
     (if j_per_weight j then
        foldM (\<lambda>r (dst, this_size). do {
            let row = first + r;
            (dst', size) \<leftarrow> ggml_quantize_chunk krow (j_type j) (j_src j) dst (row * j_n_per_row j) 1 (j_n_per_row j)
              (map_option (drop (row * j_n_per_row j)) (j_imatrix j));
            Some (dst', this_size + size)
          }) [0..<n] (dst, 0)
      else ggml_quantize_chunk krow (j_type j) (j_src j) dst (first * j_n_per_row j) n (j_n_per_row j) (j_imatrix j))"

definition quantize_single :: "(ggml_type \<Rightarrow> 'f list \<Rightarrow> 'f list option \<Rightarrow> bytes option) \<Rightarrow> 'f quant_job \<Rightarrow> bytes
    \<Rightarrow> (quant_error + bytes \<times> nat) option" where
  "quantize_single krow j dst = do {
     (dst', new_size) \<leftarrow> quantize_part krow j 0 (j_nrows j) dst;
     data \<leftarrow> read_at 0 new_size dst';
     ok \<leftarrow> ggml_validate_row_data (j_type j) data;
     Some (if \<not> ok then Inl Validation_failed else Inr (dst', new_size))
   }"

section \<open>Several threads\<close>

datatype qthread = Looping nat | Quantizing nat nat | Validating nat nat nat | Stopped

record qstate =
  q_counter :: nat
  q_new_size :: nat
  q_valid :: bool
  q_dst :: bytes
  q_threads :: "qthread list"
  q_abort :: bool

definition nrows_per_chunk :: "'f quant_job \<Rightarrow> nat" where
  "nrows_per_chunk j = j_chunk_size j div j_n_per_row j"

definition this_nrow :: "'f quant_job \<Rightarrow> nat \<Rightarrow> nat" where
  "this_nrow j first = min (j_nrows j - first) (nrows_per_chunk j)"

definition q_init :: "nat \<Rightarrow> bytes \<Rightarrow> qstate" where
  "q_init nthread dst = \<lparr>q_counter = 0, q_new_size = 0, q_valid = True, q_dst = dst, q_threads = replicate nthread (Looping 0), q_abort = False\<rparr>"

definition check_chunk :: "'f quant_job \<Rightarrow> nat \<Rightarrow> nat \<Rightarrow> bytes \<Rightarrow> bool option" where
  "check_chunk j first this_size dst = do {
     row_size \<leftarrow> ggml_row_size (j_type j) (j_n_per_row j);
     data \<leftarrow> read_at (first * row_size) this_size dst;
     ggml_validate_row_data (j_type j) data
   }"

text \<open>
  Thread \<open>i\<close> of the threads moves.  An abort (a failed assertion, a range outside a buffer) stops the
  process: no rule applies afterwards.
\<close>

inductive qstep :: "(ggml_type \<Rightarrow> 'f list \<Rightarrow> 'f list option \<Rightarrow> bytes option) \<Rightarrow> 'f quant_job \<Rightarrow> qstate \<Rightarrow> qstate \<Rightarrow> bool"
  for krow :: "ggml_type \<Rightarrow> 'f list \<Rightarrow> 'f list option \<Rightarrow> bytes option" and j :: "'f quant_job" where
  q_take: "\<not> q_abort s \<Longrightarrow> i < length (q_threads s) \<Longrightarrow> q_threads s ! i = Looping local \<Longrightarrow> q_counter s < j_nrows j \<Longrightarrow>
    qstep krow j s (s\<lparr>q_counter := q_counter s + nrows_per_chunk j, q_threads := (q_threads s)[i := Quantizing (q_counter s) local]\<rparr>)"
| q_leave: "\<not> q_abort s \<Longrightarrow> i < length (q_threads s) \<Longrightarrow> q_threads s ! i = Looping local \<Longrightarrow> j_nrows j \<le> q_counter s \<Longrightarrow>
    qstep krow j s (s\<lparr>q_counter := q_counter s + nrows_per_chunk j,
      q_new_size := (if local > 0 then q_new_size s + local else q_new_size s), q_threads := (q_threads s)[i := Stopped]\<rparr>)"
| q_rows: "\<not> q_abort s \<Longrightarrow> i < length (q_threads s) \<Longrightarrow> q_threads s ! i = Quantizing first local \<Longrightarrow>
    quantize_part krow j first (this_nrow j first) (q_dst s) = Some (dst, this_size) \<Longrightarrow>
    qstep krow j s (s\<lparr>q_dst := dst, q_threads := (q_threads s)[i := Validating first this_size (local + this_size)]\<rparr>)"
| q_rows_abort: "\<not> q_abort s \<Longrightarrow> i < length (q_threads s) \<Longrightarrow> q_threads s ! i = Quantizing first local \<Longrightarrow>
    quantize_part krow j first (this_nrow j first) (q_dst s) = None \<Longrightarrow>
    qstep krow j s (s\<lparr>q_abort := True\<rparr>)"
| q_accept: "\<not> q_abort s \<Longrightarrow> i < length (q_threads s) \<Longrightarrow> q_threads s ! i = Validating first this_size local \<Longrightarrow>
    check_chunk j first this_size (q_dst s) = Some True \<Longrightarrow>
    qstep krow j s (s\<lparr>q_threads := (q_threads s)[i := Looping local]\<rparr>)"
| q_reject: "\<not> q_abort s \<Longrightarrow> i < length (q_threads s) \<Longrightarrow> q_threads s ! i = Validating first this_size local \<Longrightarrow>
    check_chunk j first this_size (q_dst s) = Some False \<Longrightarrow>
    qstep krow j s (s\<lparr>q_valid := False, q_threads := (q_threads s)[i := Stopped]\<rparr>)"
| q_check_abort: "\<not> q_abort s \<Longrightarrow> i < length (q_threads s) \<Longrightarrow> q_threads s ! i = Validating first this_size local \<Longrightarrow>
    check_chunk j first this_size (q_dst s) = None \<Longrightarrow>
    qstep krow j s (s\<lparr>q_abort := True\<rparr>)"

text \<open>What the caller sees once every thread has been joined.\<close>

definition q_result :: "qstate \<Rightarrow> (quant_error + bytes \<times> nat) option" where
  "q_result s = (if q_abort s then None else Some (if \<not> q_valid s then Inl Validation_failed else Inr (q_dst s, q_new_size s)))"

definition q_joined :: "qstate \<Rightarrow> bool" where
  "q_joined s \<longleftrightarrow> q_abort s \<or> (\<forall>t \<in> set (q_threads s). t = Stopped)"

section \<open>What a job needs\<close>

text \<open>
  The row fits the type, the buffers are as long as the tensor says, and the row kernel returns on every row of the
  job, with the bytes of a row.  \<open>row_bytes\<close> is the reference: row \<open>r\<close> of the result.
\<close>

definition row_call :: "(ggml_type \<Rightarrow> 'f list \<Rightarrow> 'f list option \<Rightarrow> bytes option) \<Rightarrow> 'f quant_job \<Rightarrow> nat \<Rightarrow> bytes option" where
  "row_call krow j r = krow (j_type j) (take (j_n_per_row j) (drop (r * j_n_per_row j) (j_src j)))
     (map_option (\<lambda>w. take (j_n_per_row j) (drop (if j_per_weight j then r * j_n_per_row j else 0) w)) (j_imatrix j))"

definition row_bytes :: "(ggml_type \<Rightarrow> 'f list \<Rightarrow> 'f list option \<Rightarrow> bytes option) \<Rightarrow> 'f quant_job \<Rightarrow> nat \<Rightarrow> bytes" where
  "row_bytes krow j r = the (row_call krow j r)"

definition job_ok :: "(ggml_type \<Rightarrow> 'f list \<Rightarrow> 'f list option \<Rightarrow> bytes option) \<Rightarrow> 'f quant_job \<Rightarrow> nat \<Rightarrow> bool" where
  "job_ok krow j rs \<longleftrightarrow> ggml_row_size (j_type j) (j_n_per_row j) = Some rs \<and> 0 < j_n_per_row j \<and> quantizable (j_type j) \<and>
     (ggml_quantize_requires_imatrix (j_type j) \<longrightarrow> j_imatrix j \<noteq> None) \<and>
     j_nrows j * j_n_per_row j \<le> length (j_src j) \<and>
     (case j_imatrix j of None \<Rightarrow> True
       | Some w \<Rightarrow> (if j_per_weight j then j_nrows j * j_n_per_row j \<le> length w else j_n_per_row j \<le> length w)) \<and>
     (\<forall>r < j_nrows j. \<exists>b. row_call krow j r = Some b \<and> length b = rs)"

lemma job_okD:
  assumes "job_ok krow j rs"
  shows "ggml_row_size (j_type j) (j_n_per_row j) = Some rs" "0 < j_n_per_row j" "quantizable (j_type j)"
    "ggml_quantize_requires_imatrix (j_type j) \<Longrightarrow> j_imatrix j \<noteq> None"
    "j_nrows j * j_n_per_row j \<le> length (j_src j)"
    "j_imatrix j = Some w \<Longrightarrow> (if j_per_weight j then j_nrows j * j_n_per_row j \<le> length w else j_n_per_row j \<le> length w)"
    "r < j_nrows j \<Longrightarrow> row_call krow j r = Some (row_bytes krow j r)" "r < j_nrows j \<Longrightarrow> length (row_bytes krow j r) = rs"
  using assms by (auto simp: job_ok_def row_bytes_def)

lemma quantizable_validated: "quantizable t \<Longrightarrow> validated_type t \<and> ggml_type_size t \<noteq> 0 \<and> ggml_blck_size t \<noteq> 0"
  by (cases t) (simp_all add: quantizable_def validated_type_def ggml_type_size_def ggml_blck_size_def type_traits_def type_traits_iq_def)

lemma row_le: "r < n \<Longrightarrow> r * m + m \<le> n * m" for r n m :: nat
  by (metis Suc_leI add.commute mult_Suc mult_le_mono1)

lemma length_row_bytes: "job_ok krow j rs \<Longrightarrow> r < j_nrows j \<Longrightarrow> length (row_bytes krow j r) = rs"
  by (rule job_okD(8))

lemma write_at_append:
  "Option.bind (write_at off xs buf) (write_at (off + length xs) ys) = write_at off (xs @ ys) buf"
  (is "?L = ?R")
proof (cases "off + (length xs + length ys) \<le> length buf")
  case True
  moreover from True have "drop (length ys + (off + length xs)) buf = drop (off + (length xs + length ys)) buf"
    by (simp add: ac_simps)
  ultimately show ?thesis
    by (simp add: write_at_def)
next
  case False
  then show ?thesis by (simp add: write_at_def)
qed

lemma write_at_Nil: "off \<le> length buf \<Longrightarrow> write_at off [] buf = Some buf"
  by (simp add: write_at_def)

lemma quantize_rows_eq:
  assumes "\<forall>r < nrow. soff + r * n + n \<le> length src" "row_weights n imatrix = Some w"
    and "\<forall>r < nrow. k (take n (drop (soff + r * n) src)) w = Some (b r) \<and> length (b r) = rs" "doff + nrow * rs \<le> length dst"
  shows "quantize_rows k n rs imatrix nrow src soff doff dst = write_at doff (concat (map b [0..<nrow])) dst"
  using assms(1,3,4)
proof (induction nrow arbitrary: soff doff dst b)
  case 0
  then show ?case by (simp add: write_at_Nil)
next
  case (Suc nrow)
  have le: "soff + n \<le> length src"
    using Suc.prems(1) [rule_format, of 0] by simp
  have k: "k (take n (drop soff src)) w = Some (b 0)" and len: "length (b 0) = rs"
    using Suc.prems(2) [rule_format, of 0] by simp_all
  obtain dst' where d: "write_at doff (b 0) dst = Some dst'" and dl: "length dst' = length dst"
    using Suc.prems(3) len by (simp add: write_at_def)
  have shift: "map b [0..<Suc nrow] = b 0 # map (\<lambda>r. b (Suc r)) [0..<nrow]"
    by (simp only: upt_conv_Cons [of 0 "Suc nrow"] map_Suc_upt [symmetric] zero_less_Suc) (simp add: comp_def)
  have pre: "\<forall>r<nrow. soff + n + r * n + n \<le> length src"
  proof (intro allI impI)
    fix r assume "r < nrow"
    then show "soff + n + r * n + n \<le> length src"
      using Suc.prems(1) [rule_format, of "Suc r"] by simp
  qed
  have rows: "\<forall>r<nrow. k (take n (drop (soff + n + r * n) src)) w = Some (b (Suc r)) \<and> length (b (Suc r)) = rs"
  proof (intro allI impI)
    fix r assume "r < nrow"
    then show "k (take n (drop (soff + n + r * n) src)) w = Some (b (Suc r)) \<and> length (b (Suc r)) = rs"
      using Suc.prems(2) [rule_format, of "Suc r"] by (simp add: add.assoc)
  qed
  have IH: "quantize_rows k n rs imatrix nrow src (soff + n) (doff + rs) dst'
      = write_at (doff + rs) (concat (map (\<lambda>r. b (Suc r)) [0..<nrow])) dst'"
    using Suc.IH [OF pre rows, of "doff + rs" dst'] Suc.prems(3) dl by simp
  have "quantize_rows k n rs imatrix (Suc nrow) src soff doff dst
      = Option.bind (write_at doff (b 0) dst) (write_at (doff + length (b 0)) (concat (map (\<lambda>r. b (Suc r)) [0..<nrow])))"
    using le assms(2) d IH len k by (simp add: read_at_def)
  also have "\<dots> = write_at doff (b 0 @ concat (map (\<lambda>r. b (Suc r)) [0..<nrow])) dst"
    by (rule write_at_append)
  finally show ?case
    by (simp only: shift concat.simps)
qed

lemma chunk_eq:
  assumes ok: "job_ok krow j rs" and le: "row + n \<le> j_nrows j" and dst: "j_nrows j * rs \<le> length dst"
    and im: "row_weights (j_n_per_row j) imatrix = Some w" "ggml_quantize_requires_imatrix (j_type j) \<Longrightarrow> imatrix \<noteq> None"
    and w: "\<And>r. r < n \<Longrightarrow> w = map_option (\<lambda>w. take (j_n_per_row j) (drop (if j_per_weight j then (row + r) * j_n_per_row j else 0) w)) (j_imatrix j)"
  shows "ggml_quantize_chunk krow (j_type j) (j_src j) dst (row * j_n_per_row j) n (j_n_per_row j) imatrix
    = map_option (\<lambda>d. (d, n * rs)) (write_at (row * rs)
        (concat (map (\<lambda>r. row_bytes krow j (row + r)) [0..<n])) dst)"
proof -
  let ?t = "j_type j" and ?m = "j_n_per_row j"
  note d = job_okD [OF ok]
  have bl: "ggml_blck_size ?t \<noteq> 0" "row * ?m mod ggml_blck_size ?t = 0"
    using d(1) by (auto simp: ggml_row_size_def guard_def mod_mult_right_eq split: if_splits bind_splits)
  have src: "\<forall>r<n. row * ?m + r * ?m + ?m \<le> length (j_src j)"
  proof (intro allI impI)
    fix r assume "r < n"
    then have "(row + r) * ?m + ?m \<le> j_nrows j * ?m" using le by (intro row_le) simp
    then show "row * ?m + r * ?m + ?m \<le> length (j_src j)"
      using d(5) by (simp add: add_mult_distrib)
  qed
  have "(row + n) * rs \<le> j_nrows j * rs" using le by (rule mult_le_mono1)
  then have fit: "row * rs + n * rs \<le> length dst" using dst by (simp add: add_mult_distrib)
  have g: "guard (ggml_quantize_requires_imatrix ?t \<longrightarrow> imatrix \<noteq> None) = Some ()"
    using im(2) by (simp add: guard_def)
  have rows: "quantize_rows (krow ?t) ?m rs imatrix n (j_src j) (row * ?m) (row * rs) dst
      = write_at (row * rs) (concat (map (\<lambda>r. row_bytes krow j (row + r)) [0..<n])) dst"
  proof (rule quantize_rows_eq [OF src im(1) _ fit], intro allI impI)
    fix r assume r: "r < n"
    then have r': "row + r < j_nrows j" using le by simp
    have "krow ?t (take ?m (drop (row * ?m + r * ?m) (j_src j))) w = row_call krow j (row + r)"
      unfolding row_call_def w [OF r] by (simp only: add_mult_distrib)
    with d(7,8) [OF r'] show "krow ?t (take ?m (drop (row * ?m + r * ?m) (j_src j))) w = Some (row_bytes krow j (row + r)) \<and> length (row_bytes krow j (row + r)) = rs"
      by simp
  qed
  show ?thesis
    using d(2,3) bl unfolding ggml_quantize_chunk_def g
    by (simp add: d(1) rows Let_def add_mult_distrib split: bind_splits option.splits)
qed

lemma length_rows:
  assumes "job_ok krow j rs" "first + n \<le> j_nrows j"
  shows "length (concat (map (\<lambda>r. row_bytes krow j (first + r)) [0..<n])) = n * rs"
proof -
  have "map (\<lambda>r. length (row_bytes krow j (first + r))) [0..<n] = map (\<lambda>r. rs) [0..<n]"
    using assms by (intro map_cong refl length_row_bytes) auto
  then show ?thesis by (simp add: length_concat comp_def map_replicate_const sum_list_replicate)
qed

lemma quantize_part_eq:
  assumes ok: "job_ok krow j rs" and le: "first + n \<le> j_nrows j" and dst: "j_nrows j * rs \<le> length dst"
  shows "quantize_part krow j first n dst
    = map_option (\<lambda>d. (d, n * rs)) (write_at (first * rs) (concat (map (\<lambda>r. row_bytes krow j (first + r)) [0..<n])) dst)"
proof (cases "j_per_weight j")
  case False
  let ?w = "map_option (take (j_n_per_row j)) (j_imatrix j)"
  have "row_weights (j_n_per_row j) (j_imatrix j) = Some ?w"
    using job_okD(6) [OF ok] False by (simp add: row_weights_def read_at_def split: option.splits)
  from chunk_eq [OF ok le dst this] show ?thesis
    using False job_okD(4) [OF ok] by (simp add: quantize_part_def cong: map_cong)
next
  case True
  let ?m = "j_n_per_row j"
  define step where "step = (\<lambda>r (dst, this_size). do {
      (dst', size) \<leftarrow> ggml_quantize_chunk krow (j_type j) (j_src j) dst ((first + r) * ?m) 1 ?m
        (map_option (drop ((first + r) * ?m)) (j_imatrix j));
      Some (dst', this_size + size) })"
  have one: "step r (d, sz) = map_option (\<lambda>d'. (d', sz + rs)) (write_at ((first + r) * rs) (row_bytes krow j (first + r)) d)"
    if r: "r < n" and d: "j_nrows j * rs \<le> length d" for r d sz
  proof -
    have le1: "first + r + 1 \<le> j_nrows j" using r le by simp
    let ?im = "map_option (drop ((first + r) * ?m)) (j_imatrix j)" and ?w = "map_option (\<lambda>w. take ?m (drop ((first + r) * ?m) w)) (j_imatrix j)"
    have "row_weights ?m ?im = Some ?w"
    proof (cases "j_imatrix j")
      case None
      then show ?thesis by (simp add: row_weights_def)
    next
      case (Some w)
      have "(first + r) * ?m + ?m \<le> j_nrows j * ?m" using le1 by (intro row_le) linarith
      then have "(first + r) * ?m + ?m \<le> length w"
        using job_okD(6) [OF ok Some] True by simp
      then have "?m \<le> length (drop ((first + r) * ?m) w)" by (simp only: length_drop)
      then show ?thesis
        by (simp add: Some row_weights_def read_at_def del: length_drop)
    qed
    from chunk_eq [OF ok le1 d this] show ?thesis
      using job_okD(4) [OF ok] True
      by (simp add: step_def split: bind_splits)
  qed
  have "foldM step [0..<m] (dst, 0)
      = map_option (\<lambda>d. (d, m * rs)) (write_at (first * rs) (concat (map (\<lambda>r. row_bytes krow j (first + r)) [0..<m])) dst)" if "m \<le> n" for m
    using that
  proof (induction m)
    case 0
    have "first * rs \<le> j_nrows j * rs" using le by (intro mult_le_mono1) simp
    then have "first * rs \<le> length dst" using dst by (rule le_trans)
    then show ?case by (simp add: write_at_Nil)
  next
    case (Suc m)
    let ?xs = "concat (map (\<lambda>r. row_bytes krow j (first + r)) [0..<m])"
    have len: "length ?xs = m * rs"
      using Suc.prems le by (intro length_rows [OF ok]) simp
    show ?case
    proof (cases "write_at (first * rs) ?xs dst")
      case None
      have "write_at (first * rs) (?xs @ row_bytes krow j (first + m)) dst = None"
        using None write_at_append [of "first * rs" ?xs dst "row_bytes krow j (first + m)"] by simp
      then show ?thesis
        using Suc None by (simp add: foldM_append)
    next
      case (Some d)
      have "j_nrows j * rs \<le> length d" using length_write_at [OF Some] dst by simp
      with one [of m d] Suc.prems have st: "step m (d, m * rs) = map_option (\<lambda>d'. (d', m * rs + rs)) (write_at ((first + m) * rs) (row_bytes krow j (first + m)) d)"
        by simp
      have "write_at (first * rs) (?xs @ row_bytes krow j (first + m)) dst = write_at ((first + m) * rs) (row_bytes krow j (first + m)) d"
        using write_at_append [of "first * rs" ?xs dst "row_bytes krow j (first + m)"] Some
        by (simp add: len add_mult_distrib)
      then show ?thesis
        using Suc Some st by (simp add: foldM_append add.commute split: bind_splits)
    qed
  qed
  from this [of n] show ?thesis
    using True by (simp add: quantize_part_def step_def Let_def)
qed

section \<open>The invariant of the threads\<close>

definition q_first :: "qthread \<Rightarrow> nat option" where
  "q_first t = (case t of Quantizing f l \<Rightarrow> Some f | Validating f sz l \<Rightarrow> Some f | _ \<Rightarrow> None)"

definition busy :: "qthread list \<Rightarrow> nat \<Rightarrow> bool" where
  "busy ts f \<longleftrightarrow> (\<exists>i < length ts. \<exists>l. ts ! i = Quantizing f l)"

definition held :: "qthread list \<Rightarrow> nat \<Rightarrow> bool" where
  "held ts f \<longleftrightarrow> (\<exists>i < length ts. q_first (ts ! i) = Some f)"

definition first_of :: "'f quant_job \<Rightarrow> nat \<Rightarrow> nat" where
  "first_of j r = r div nrows_per_chunk j * nrows_per_chunk j"

text \<open>The rows taken start chunks, no two threads hold the same chunk, and a chunk to validate has its size.\<close>

definition inv_ids :: "'f quant_job \<Rightarrow> nat \<Rightarrow> qstate \<Rightarrow> bool" where
  "inv_ids j rs s \<longleftrightarrow> \<not> q_abort s \<and> nrows_per_chunk j dvd q_counter s \<and>
     (\<forall>i < length (q_threads s). \<forall>f. q_first (q_threads s ! i) = Some f \<longrightarrow>
        nrows_per_chunk j dvd f \<and> f < q_counter s \<and> f < j_nrows j \<and>
        (\<forall>k < length (q_threads s). k \<noteq> i \<longrightarrow> q_first (q_threads s ! k) \<noteq> Some f)) \<and>
     (\<forall>i < length (q_threads s). \<forall>f sz l. q_threads s ! i = Validating f sz l \<longrightarrow> sz = this_nrow j f * rs)"

text \<open>Every row taken by a thread that has finished writing it holds its bytes.\<close>

definition inv_data :: "(ggml_type \<Rightarrow> 'f list \<Rightarrow> 'f list option \<Rightarrow> bytes option) \<Rightarrow> 'f quant_job \<Rightarrow> nat \<Rightarrow> bytes \<Rightarrow> qstate \<Rightarrow> bool" where
  "inv_data krow j rs dst0 s \<longleftrightarrow> length (q_dst s) = length dst0 \<and> drop (j_nrows j * rs) (q_dst s) = drop (j_nrows j * rs) dst0 \<and>
     (\<forall>r < min (q_counter s) (j_nrows j). \<not> busy (q_threads s) (first_of j r) \<longrightarrow> take rs (drop (r * rs) (q_dst s)) = row_bytes krow j r)"

definition inv_valid :: "(ggml_type \<Rightarrow> 'f list \<Rightarrow> 'f list option \<Rightarrow> bytes option) \<Rightarrow> 'f quant_job \<Rightarrow> qstate \<Rightarrow> bool" where
  "inv_valid krow j s \<longleftrightarrow>
     (if q_valid s then
        (\<forall>r < min (q_counter s) (j_nrows j). \<not> held (q_threads s) (first_of j r) \<longrightarrow> row_valid (j_type j) (row_bytes krow j r)) \<and>
        (Stopped \<in> set (q_threads s) \<longrightarrow> j_nrows j \<le> q_counter s)
      else (\<exists>r < j_nrows j. \<not> row_valid (j_type j) (row_bytes krow j r)))"

definition weight :: "'f quant_job \<Rightarrow> nat \<Rightarrow> qthread \<Rightarrow> nat" where
  "weight j rs t = (case t of Looping l \<Rightarrow> l | Quantizing f l \<Rightarrow> l + rs * this_nrow j f | Validating f sz l \<Rightarrow> l | Stopped \<Rightarrow> 0)"

definition inv_size :: "'f quant_job \<Rightarrow> nat \<Rightarrow> qstate \<Rightarrow> bool" where
  "inv_size j rs s \<longleftrightarrow> (q_valid s \<longrightarrow> q_new_size s + sum_list (map (weight j rs) (q_threads s)) = rs * min (q_counter s) (j_nrows j))"

lemma q_first_simps [simp]:
  "q_first (Looping l) = None" "q_first (Quantizing f l) = Some f" "q_first (Validating f sz l) = Some f" "q_first Stopped = None"
  by (simp_all add: q_first_def)

lemma weight_simps [simp]:
  "weight j rs (Looping l) = l" "weight j rs (Quantizing f l) = l + rs * this_nrow j f" "weight j rs (Validating f sz l) = l" "weight j rs Stopped = 0"
  by (simp_all add: weight_def)

lemma busy_update:
  "i < length ts \<Longrightarrow> busy (ts[i := t]) f \<longleftrightarrow> (\<exists>l. t = Quantizing f l) \<or> (\<exists>k < length ts. k \<noteq> i \<and> (\<exists>l. ts ! k = Quantizing f l))"
  by (auto simp: busy_def nth_list_update)

lemma held_update:
  "i < length ts \<Longrightarrow> held (ts[i := t]) f \<longleftrightarrow> q_first t = Some f \<or> (\<exists>k < length ts. k \<noteq> i \<and> q_first (ts ! k) = Some f)"
  by (auto simp: held_def nth_list_update)

lemma sum_list_update_eq:
  "i < length ts \<Longrightarrow> sum_list (map g (ts[i := t])) + g (ts ! i) = sum_list (map g ts) + g t" for g :: "'x \<Rightarrow> nat"
  by (induction ts arbitrary: i) (auto split: nat.splits)

text \<open>The rows of the chunk that starts at \<open>f\<close>.\<close>

lemma first_of_chunk:
  assumes "nrows_per_chunk j dvd f" "0 < nrows_per_chunk j"
  shows "first_of j r = f \<and> r < j_nrows j \<longleftrightarrow> f \<le> r \<and> r < f + this_nrow j f"
proof -
  obtain k where k: "f = nrows_per_chunk j * k" using assms(1) by blast
  have "r div nrows_per_chunk j = k \<longleftrightarrow> f \<le> r \<and> r < f + nrows_per_chunk j"
    unfolding k using div_nat_eqI [of "nrows_per_chunk j" k r] assms(2)
    by (metis add.commute div_mult_mod_eq le_add1 mod_less_divisor mult.commute mult_Suc_right nat_add_left_cancel_less)
  then have "first_of j r = f \<longleftrightarrow> f \<le> r \<and> r < f + nrows_per_chunk j"
    unfolding first_of_def k using assms(2) by (simp add: mult.commute)
  then show ?thesis by (auto simp: this_nrow_def)
qed

lemma first_of_below:
  assumes "nrows_per_chunk j dvd c" "0 < nrows_per_chunk j" "c \<le> r"
  shows "c \<le> first_of j r"
proof -
  obtain k where k: "c = nrows_per_chunk j * k" using assms(1) by blast
  have "k \<le> r div nrows_per_chunk j"
    using assms(2,3) k by (metis div_le_mono nonzero_mult_div_cancel_left neq0_conv)
  then show ?thesis by (simp add: first_of_def k mult.commute)
qed

lemma first_of_le: "first_of j r \<le> r"
  by (simp add: first_of_def)

lemma first_of_below_less: "r < c \<Longrightarrow> first_of j r < c"
  using first_of_le [of j r] by simp

lemma slices_concat:
  assumes "\<forall>r < n. take rs (drop ((f + r) * rs) d) = g r" "(f + n) * rs \<le> length d"
  shows "take (n * rs) (drop (f * rs) d) = concat (map g [0..<n])"
  using assms
proof (induction n)
  case (Suc n)
  have "take (Suc n * rs) (drop (f * rs) d) = take (n * rs) (drop (f * rs) d) @ take rs (drop (n * rs) (drop (f * rs) d))"
    using take_add [of "n * rs" rs "drop (f * rs) d"] by (simp only: mult_Suc add.commute)
  also have "drop (n * rs) (drop (f * rs) d) = drop ((f + n) * rs) d"
    by (simp add: add_mult_distrib add.commute)
  finally show ?case using Suc by (simp add: add_mult_distrib)
qed simp

lemma not_busy_validating:
  assumes "inv_ids j rs s" "i < length (q_threads s)" "q_threads s ! i = Validating f sz l"
  shows "\<not> busy (q_threads s) f"
proof
  assume "busy (q_threads s) f"
  then obtain k m where k: "k < length (q_threads s)" "q_threads s ! k = Quantizing f m"
    unfolding busy_def by blast
  then have "k \<noteq> i" using assms(3) by auto
  with assms k show False
    unfolding inv_ids_def by (metis q_first_simps(2) q_first_simps(3))
qed

lemma this_nrow_le: "f < j_nrows j \<Longrightarrow> f + this_nrow j f \<le> j_nrows j"
  by (simp add: this_nrow_def)

lemma counter_ge:
  assumes "nrows_per_chunk j dvd c" "nrows_per_chunk j dvd f" "f < c" "0 < nrows_per_chunk j"
  shows "f + nrows_per_chunk j \<le> c"
proof -
  obtain a b where "c = nrows_per_chunk j * a" "f = nrows_per_chunk j * b"
    using assms(1,2) by (auto elim!: dvdE)
  with assms(3,4) have "nrows_per_chunk j * Suc b \<le> nrows_per_chunk j * a"
    by (intro mult_le_mono2) simp
  then show ?thesis using \<open>c = _\<close> \<open>f = _\<close> by simp
qed

lemma inv_idsD:
  assumes "inv_ids j rs s" "i < length (q_threads s)" "q_first (q_threads s ! i) = Some f"
  shows "nrows_per_chunk j dvd f" "f < q_counter s" "f < j_nrows j"
    "k < length (q_threads s) \<Longrightarrow> k \<noteq> i \<Longrightarrow> q_first (q_threads s ! k) \<noteq> Some f"
  using assms unfolding inv_ids_def by blast+

text \<open>A thread that holds a chunk writes exactly its rows, and a validation reads them back.\<close>

lemma part_total:
  assumes "job_ok krow j rs" "f < j_nrows j" "j_nrows j * rs \<le> length dst"
  obtains d where "quantize_part krow j f (this_nrow j f) dst = Some (d, this_nrow j f * rs)"
    "write_at (f * rs) (concat (map (\<lambda>r. row_bytes krow j (f + r)) [0..<this_nrow j f])) dst = Some d"
proof -
  let ?xs = "concat (map (\<lambda>r. row_bytes krow j (f + r)) [0..<this_nrow j f])"
  have le: "f + this_nrow j f \<le> j_nrows j" using assms(2) by (rule this_nrow_le)
  have "(f + this_nrow j f) * rs \<le> j_nrows j * rs" using le by (rule mult_le_mono1)
  then have "f * rs + length ?xs \<le> length dst"
    using length_rows [OF assms(1) le] assms(3) by (simp add: add_mult_distrib)
  then obtain d where "write_at (f * rs) ?xs dst = Some d" by (simp add: write_at_def)
  with quantize_part_eq [OF assms(1) le assms(3)] that show ?thesis by simp
qed

lemma row_size_dvd:
  assumes ok: "job_ok krow j rs"
  shows "ggml_type_size (j_type j) dvd rs"
proof -
  have "ggml_blck_size (j_type j) \<noteq> 0" using quantizable_validated [OF job_okD(3) [OF ok]] by simp
  from job_okD(1) [OF ok] ggml_row_size_fits [OF this, of "j_n_per_row j"] show ?thesis
    by (auto simp: ggml_row_size_def guard_def split: if_splits bind_splits)
qed

lemma check_total:
  assumes ok: "job_ok krow j rs" and ids: "inv_ids j rs s" and data: "inv_data krow j rs dst0 s"
    and len: "j_nrows j * rs \<le> length dst0" and pos: "0 < nrows_per_chunk j"
    and i: "i < length (q_threads s)" "q_threads s ! i = Validating f sz l"
  shows "check_chunk j f sz (q_dst s) = Some (\<forall>r < this_nrow j f. row_valid (j_type j) (row_bytes krow j (f + r)))"
proof -
  let ?n = "this_nrow j f"
  have f: "nrows_per_chunk j dvd f" "f < q_counter s" "f < j_nrows j"
    using inv_idsD [OF ids i(1), of f] i(2) by simp_all
  have sz: "sz = ?n * rs" using ids i unfolding inv_ids_def by blast
  have le: "f + ?n \<le> j_nrows j" using f(3) by (rule this_nrow_le)
  have lt: "f + r < min (q_counter s) (j_nrows j)" "first_of j (f + r) = f" if "r < ?n" for r
  proof -
    have "f + nrows_per_chunk j \<le> q_counter s"
      using ids f pos unfolding inv_ids_def by (intro counter_ge) simp_all
    then show "f + r < min (q_counter s) (j_nrows j)" using that le by (auto simp: this_nrow_def)
    show "first_of j (f + r) = f" using first_of_chunk [OF f(1) pos, of "f + r"] that by simp
  qed
  have "\<forall>r < ?n. take rs (drop ((f + r) * rs) (q_dst s)) = row_bytes krow j (f + r)"
    using data lt not_busy_validating [OF ids i] unfolding inv_data_def by metis
  moreover have fit: "(f + ?n) * rs \<le> length (q_dst s)"
    using le_trans [OF mult_le_mono1 [OF le, of rs] len] data unfolding inv_data_def by metis
  ultimately have rd: "take sz (drop (f * rs) (q_dst s)) = concat (map (\<lambda>r. row_bytes krow j (f + r)) [0..<?n])"
    unfolding sz by (rule slices_concat)
  have ts: "ggml_type_size (j_type j) \<noteq> 0" "validated_type (j_type j)"
    using quantizable_validated [OF job_okD(3) [OF ok]] by simp_all
  have "\<forall>x \<in> set (map (\<lambda>r. row_bytes krow j (f + r)) [0..<?n]). ggml_type_size (j_type j) dvd length x"
    using length_row_bytes [OF ok] le row_size_dvd [OF ok] by auto
  from row_valid_concat [OF ts(1) this ts(2)]
  have "row_valid (j_type j) (concat (map (\<lambda>r. row_bytes krow j (f + r)) [0..<?n])) \<longleftrightarrow> (\<forall>r < ?n. row_valid (j_type j) (row_bytes krow j (f + r)))"
    by auto
  then show ?thesis
    using fit by (simp add: check_chunk_def job_okD(1) [OF ok] read_at_def rd [unfolded sz] validate_total [OF ts(1)] sz add_mult_distrib)
qed

definition q_inv :: "(ggml_type \<Rightarrow> 'f list \<Rightarrow> 'f list option \<Rightarrow> bytes option) \<Rightarrow> 'f quant_job \<Rightarrow> nat \<Rightarrow> bytes \<Rightarrow> qstate \<Rightarrow> bool" where
  "q_inv krow j rs dst0 s \<longleftrightarrow> inv_ids j rs s \<and> inv_data krow j rs dst0 s \<and> inv_valid krow j s \<and> inv_size j rs s"

lemma inv_ids_update:
  assumes ids: "inv_ids j rs s" and i: "i < length (q_threads s)"
    and s': "\<not> q_abort s'" "q_threads s' = (q_threads s)[i := t]" "nrows_per_chunk j dvd q_counter s'" "q_counter s \<le> q_counter s'"
    and first: "\<And>f. q_first t = Some f \<Longrightarrow> nrows_per_chunk j dvd f \<and> f < q_counter s' \<and> f < j_nrows j \<and>
      (q_first (q_threads s ! i) = Some f \<or> f = q_counter s)"
    and sz: "\<And>f sz l. t = Validating f sz l \<Longrightarrow> sz = this_nrow j f * rs"
  shows "inv_ids j rs s'"
proof -
  let ?ts = "q_threads s"
  have other: "q_first (?ts ! k) \<noteq> Some f" if "k < length ?ts" "k \<noteq> i" "q_first t = Some f" for k f
    using first [OF that(3)] inv_idsD(4) [OF ids i _ that(1,2)] inv_idsD(2) [OF ids that(1)] by force
  have lt: "f < q_counter s'" if "k < length ?ts" "q_first (?ts ! k) = Some f" for k f
    using inv_idsD(2) [OF ids that] s'(4) by simp
  show ?thesis
    unfolding inv_ids_def s'(2) length_list_update
  proof (intro conjI allI impI)
    show "\<not> q_abort s'" "nrows_per_chunk j dvd q_counter s'" by (fact s')+
  next
    fix k f assume k: "k < length ?ts" and f: "q_first (?ts[i := t] ! k) = Some f"
    show "nrows_per_chunk j dvd f" "f < q_counter s'" "f < j_nrows j"
      using k f i first lt inv_idsD [OF ids k, of f] by (auto simp: nth_list_update split: if_splits)
    fix k' assume k': "k' < length ?ts" "k' \<noteq> k"
    show "q_first (?ts[i := t] ! k') \<noteq> Some f"
    proof (cases "k = i")
      case True
      then show ?thesis using f k' i other [of k' f] by (simp add: nth_list_update)
    next
      case False
      then have fk: "q_first (?ts ! k) = Some f" using f i by (simp add: nth_list_update split: if_splits)
      show ?thesis
      proof (cases "k' = i")
        case True
        then show ?thesis using other [OF k False, of f] fk i by auto
      next
        case False
        then show ?thesis using inv_idsD(4) [OF ids k fk k'] i by (simp add: nth_list_update)
      qed
    qed
  next
    fix k f sz' l assume k: "k < length ?ts" and v: "?ts[i := t] ! k = Validating f sz' l"
    show "sz' = this_nrow j f * rs"
    proof (cases "k = i")
      case True
      then show ?thesis using v i sz by simp
    next
      case False
      then have "?ts ! k = Validating f sz' l" using v by simp
      then show ?thesis using ids k unfolding inv_ids_def by blast
    qed
  qed
qed

text \<open>Taking a chunk: its rows become busy and held, and the counter passes them.\<close>

lemma new_row:
  assumes ids: "inv_ids j rs s" and pos: "0 < nrows_per_chunk j"
    and r: "r < min (q_counter s + nrows_per_chunk j) (j_nrows j)" "\<not> r < min (q_counter s) (j_nrows j)"
  shows "first_of j r = q_counter s"
proof -
  have "q_counter s \<le> r" using r by linarith
  moreover have "r < q_counter s + this_nrow j (q_counter s)" using r unfolding this_nrow_def by linarith
  ultimately show ?thesis
    using first_of_chunk [OF _ pos, of "q_counter s" r] ids unfolding inv_ids_def by blast
qed

lemma inv_take:
  assumes inv: "q_inv krow j rs dst0 s" and i: "i < length (q_threads s)" "q_threads s ! i = Looping l"
    and c: "q_counter s < j_nrows j" and pos: "0 < nrows_per_chunk j"
  shows "q_inv krow j rs dst0 (s\<lparr>q_counter := q_counter s + nrows_per_chunk j, q_threads := (q_threads s)[i := Quantizing (q_counter s) l]\<rparr>)"
proof -
  let ?s = "s\<lparr>q_counter := q_counter s + nrows_per_chunk j, q_threads := (q_threads s)[i := Quantizing (q_counter s) l]\<rparr>"
  have ids: "inv_ids j rs s" and data: "inv_data krow j rs dst0 s" and val: "inv_valid krow j s" and size: "inv_size j rs s"
    using inv by (simp_all add: q_inv_def)
  have dvd: "nrows_per_chunk j dvd q_counter s" "\<not> q_abort s" using ids by (simp_all add: inv_ids_def)
  have busy: "busy ((q_threads s)[i := Quantizing (q_counter s) l]) f \<longleftrightarrow> f = q_counter s \<or> busy (q_threads s) f" for f
    using i by (auto simp: busy_update) (auto simp: busy_def)
  have held: "held ((q_threads s)[i := Quantizing (q_counter s) l]) f \<longleftrightarrow> f = q_counter s \<or> held (q_threads s) f" for f
    using i by (auto simp: held_update) (auto simp: held_def)
  have "inv_ids j rs ?s"
    by (rule inv_ids_update [OF ids i(1)]) (use dvd c pos in auto)
  moreover have "inv_data krow j rs dst0 ?s"
    using data new_row [OF ids pos] unfolding inv_data_def by (simp add: busy) blast
  moreover have "inv_valid krow j ?s"
  proof (cases "q_valid s")
    case True
    have "Stopped \<notin> set (q_threads s)" using val True c by (auto simp: inv_valid_def)
    then have "Stopped \<notin> set ((q_threads s)[i := Quantizing (q_counter s) l])"
      using set_update_subset_insert [of "q_threads s" i "Quantizing (q_counter s) l"] by auto
    then show ?thesis
      using val True new_row [OF ids pos] unfolding inv_valid_def by (simp add: held) blast
  next
    case False
    then show ?thesis using val by (simp add: inv_valid_def)
  qed
  moreover have "inv_size j rs ?s"
  proof -
    have "sum_list (map (weight j rs) ((q_threads s)[i := Quantizing (q_counter s) l]))
        = sum_list (map (weight j rs) (q_threads s)) + rs * this_nrow j (q_counter s)"
      using sum_list_update_eq [OF i(1), of "weight j rs" "Quantizing (q_counter s) l"] i(2) by simp
    moreover have "min (q_counter s + nrows_per_chunk j) (j_nrows j) = min (q_counter s) (j_nrows j) + this_nrow j (q_counter s)"
      using c unfolding this_nrow_def by linarith
    ultimately show ?thesis
      using size by (simp add: inv_size_def add_mult_distrib2)
  qed
  ultimately show ?thesis by (simp add: q_inv_def)
qed

lemma inv_leave:
  assumes inv: "q_inv krow j rs dst0 s" and i: "i < length (q_threads s)" "q_threads s ! i = Looping l"
    and c: "j_nrows j \<le> q_counter s"
  shows "q_inv krow j rs dst0 (s\<lparr>q_counter := q_counter s + nrows_per_chunk j,
    q_new_size := (if l > 0 then q_new_size s + l else q_new_size s), q_threads := (q_threads s)[i := Stopped]\<rparr>)"
proof -
  let ?s = "s\<lparr>q_counter := q_counter s + nrows_per_chunk j,
    q_new_size := (if l > 0 then q_new_size s + l else q_new_size s), q_threads := (q_threads s)[i := Stopped]\<rparr>"
  have ids: "inv_ids j rs s" and data: "inv_data krow j rs dst0 s" and val: "inv_valid krow j s" and size: "inv_size j rs s"
    using inv by (simp_all add: q_inv_def)
  have dvd: "nrows_per_chunk j dvd q_counter s" "\<not> q_abort s" using ids by (simp_all add: inv_ids_def)
  have busy: "busy ((q_threads s)[i := Stopped]) f \<longleftrightarrow> busy (q_threads s) f" for f
    using i by (auto simp: busy_update) (auto simp: busy_def)
  have held: "held ((q_threads s)[i := Stopped]) f \<longleftrightarrow> held (q_threads s) f" for f
    using i by (auto simp: held_update) (auto simp: held_def)
  have m: "min (q_counter s + nrows_per_chunk j) (j_nrows j) = min (q_counter s) (j_nrows j)"
    using c by simp
  have "inv_ids j rs ?s"
    by (rule inv_ids_update [OF ids i(1)]) (use dvd in auto)
  moreover have "inv_data krow j rs dst0 ?s"
    using data m by (simp add: inv_data_def busy)
  moreover have "inv_valid krow j ?s"
    using val m c by (simp add: inv_valid_def held)
  moreover have "inv_size j rs ?s"
    using sum_list_update_eq [OF i(1), of "weight j rs" Stopped] i(2) size m by (auto simp: inv_size_def)
  ultimately show ?thesis by (simp add: q_inv_def)
qed

lemma inv_rows:
  assumes ok: "job_ok krow j rs" and len: "j_nrows j * rs \<le> length dst0" and pos: "0 < nrows_per_chunk j"
    and inv: "q_inv krow j rs dst0 s" and i: "i < length (q_threads s)" "q_threads s ! i = Quantizing f l"
    and w: "write_at (f * rs) (concat (map (\<lambda>r. row_bytes krow j (f + r)) [0..<this_nrow j f])) (q_dst s) = Some d"
  shows "q_inv krow j rs dst0 (s\<lparr>q_dst := d, q_threads := (q_threads s)[i := Validating f (this_nrow j f * rs) (l + this_nrow j f * rs)]\<rparr>)"
proof -
  let ?n = "this_nrow j f" and ?xs = "concat (map (\<lambda>r. row_bytes krow j (f + r)) [0..<this_nrow j f])"
  let ?ts = "(q_threads s)[i := Validating f (?n * rs) (l + ?n * rs)]"
  let ?s = "s\<lparr>q_dst := d, q_threads := ?ts\<rparr>"
  have ids: "inv_ids j rs s" and data: "inv_data krow j rs dst0 s" and val: "inv_valid krow j s" and size: "inv_size j rs s"
    using inv by (simp_all add: q_inv_def)
  have dvd: "nrows_per_chunk j dvd q_counter s" "\<not> q_abort s" using ids by (simp_all add: inv_ids_def)
  have f: "nrows_per_chunk j dvd f" "f < q_counter s" "f < j_nrows j" using inv_idsD [OF ids i(1), of f] i(2) by simp_all
  have le: "f + ?n \<le> j_nrows j" using f(3) by (rule this_nrow_le)
  have xs: "length ?xs = ?n * rs" by (rule length_rows [OF ok le])
  have busy: "busy ?ts g \<longleftrightarrow> busy (q_threads s) g \<and> g \<noteq> f" for g
  proof
    assume "busy ?ts g"
    then obtain k m where k: "k < length (q_threads s)" "k \<noteq> i" "q_threads s ! k = Quantizing g m"
      using i by (auto simp: busy_update)
    then show "busy (q_threads s) g \<and> g \<noteq> f"
      using inv_idsD(4) [OF ids i(1), of f k] i(2) by (auto simp: busy_def)
  next
    assume g: "busy (q_threads s) g \<and> g \<noteq> f"
    then obtain k m where k: "k < length (q_threads s)" "q_threads s ! k = Quantizing g m" by (auto simp: busy_def)
    then have "k \<noteq> i" using g i(2) by auto
    with k show "busy ?ts g" using i(1) by (auto simp: busy_update)
  qed
  have held: "held ?ts g \<longleftrightarrow> held (q_threads s) g" for g
    using i by (auto simp: held_update) (auto simp: held_def)
  have rows: "take rs (drop (r * rs) d) = row_bytes krow j r" if r: "f \<le> r" "r < f + ?n" for r
  proof -
    have "take rs (drop ((r - f) * rs) ?xs) = row_bytes krow j r"
    proof -
      have split: "[0..<?n] = [0..<r - f] @ (r - f) # [Suc (r - f)..<?n]"
        using r by (metis add_0 add.commute less_diff_conv2 upt_add_eq_append upt_conv_Cons le_add_diff_inverse le_less zero_le)
      have a: "length (concat (map (\<lambda>r. row_bytes krow j (f + r)) [0..<r - f])) = (r - f) * rs"
        using r le by (intro length_rows [OF ok]) simp
      have b: "length (row_bytes krow j r) = rs"
        using r le by (intro length_row_bytes [OF ok]) simp
      have "?xs = concat (map (\<lambda>r. row_bytes krow j (f + r)) [0..<r - f]) @ row_bytes krow j r
          @ concat (map (\<lambda>r. row_bytes krow j (f + r)) [Suc (r - f)..<?n])"
        unfolding split using r by simp
      then show ?thesis using a b by simp
    qed
    moreover have "take (length ?xs) (drop (f * rs) d) = ?xs"
      by (rule read_write_same [OF w])
    moreover have "(r - f) * rs + rs \<le> ?n * rs"
      using r by (intro row_le) simp
    ultimately have "take rs (drop ((r - f) * rs) (drop (f * rs) d)) = row_bytes krow j r"
      by (metis add.commute drop_take le_diff_conv2 le_add1 min.absorb1 take_take add_leD1 xs)
    then show ?thesis using r by (simp add: add_mult_distrib [symmetric])
  qed
  have others: "take rs (drop (r * rs) d) = take rs (drop (r * rs) (q_dst s))" if r: "r < f \<or> f + ?n \<le> r" for r
  proof (rule read_write_other [OF w])
    show "r * rs + rs \<le> f * rs \<or> f * rs + length ?xs \<le> r * rs"
      using r row_le [of r f rs] mult_le_mono1 [of "f + ?n" r rs] unfolding xs by (auto simp: add_mult_distrib)
  qed
  have "inv_ids j rs ?s"
    by (rule inv_ids_update [OF ids i(1)]) (use dvd f i(2) in auto)
  moreover have "inv_data krow j rs dst0 ?s"
  proof -
    have "drop (j_nrows j * rs) d = drop (j_nrows j * rs) (q_dst s)"
      using mult_le_mono1 [OF le, of rs] xs by (intro drop_write_at [OF w]) (simp add: add_mult_distrib)
    moreover have "take rs (drop (r * rs) d) = row_bytes krow j r"
      if "r < min (q_counter s) (j_nrows j)" "\<not> busy ?ts (first_of j r)" for r
    proof (cases "f \<le> r \<and> r < f + ?n")
      case True
      then show ?thesis using rows by simp
    next
      case False
      then have "first_of j r \<noteq> f" using that first_of_chunk [OF f(1) pos, of r] by auto
      then show ?thesis
        using that False others [of r] data unfolding busy inv_data_def by auto
    qed
    ultimately show ?thesis
      using data length_write_at [OF w] by (simp add: inv_data_def)
  qed
  moreover have "inv_valid krow j ?s"
  proof -
    have "Stopped \<in> set ?ts \<Longrightarrow> Stopped \<in> set (q_threads s)"
      using set_update_subset_insert [of "q_threads s" i] by blast
    then show ?thesis using val by (auto simp: inv_valid_def held)
  qed
  moreover have "inv_size j rs ?s"
    using sum_list_update_eq [OF i(1), of "weight j rs" "Validating f (?n * rs) (l + ?n * rs)"] i(2) size
    by (simp add: inv_size_def mult.commute)
  ultimately show ?thesis by (simp add: q_inv_def)
qed

lemma inv_accept:
  assumes inv: "q_inv krow j rs dst0 s" and i: "i < length (q_threads s)" "q_threads s ! i = Validating f sz l" and pos: "0 < nrows_per_chunk j"
    and good: "\<forall>r < this_nrow j f. row_valid (j_type j) (row_bytes krow j (f + r))"
  shows "q_inv krow j rs dst0 (s\<lparr>q_threads := (q_threads s)[i := Looping l]\<rparr>)"
proof -
  let ?ts = "(q_threads s)[i := Looping l]"
  have ids: "inv_ids j rs s" and data: "inv_data krow j rs dst0 s" and val: "inv_valid krow j s" and size: "inv_size j rs s"
    using inv by (simp_all add: q_inv_def)
  have f: "nrows_per_chunk j dvd f" using inv_idsD [OF ids i(1), of f] i(2) by simp
  have busy: "busy ?ts g \<longleftrightarrow> busy (q_threads s) g" for g
    using i by (auto simp: busy_update) (auto simp: busy_def)
  have held: "held (q_threads s) g \<Longrightarrow> g = f \<or> held ?ts g" for g
    unfolding held_update [OF i(1)] held_def [of "q_threads s"] using i(2) by (metis option.inject q_first_simps(3))
  have "inv_ids j rs (s\<lparr>q_threads := ?ts\<rparr>)"
    by (rule inv_ids_update [OF ids i(1)]) (use ids in \<open>auto simp: inv_ids_def\<close>)
  moreover have "inv_data krow j rs dst0 (s\<lparr>q_threads := ?ts\<rparr>)"
    using data by (simp add: inv_data_def busy)
  moreover have "inv_valid krow j (s\<lparr>q_threads := ?ts\<rparr>)"
  proof (cases "q_valid s")
    case True
    have "row_valid (j_type j) (row_bytes krow j r)" if r: "r < min (q_counter s) (j_nrows j)" "\<not> held ?ts (first_of j r)" for r
    proof (cases "first_of j r = f")
      case True
      then have "f \<le> r \<and> r < f + this_nrow j f" using r first_of_chunk [OF f pos, of r] by simp
      then have "r - f < this_nrow j f" "f + (r - f) = r" by linarith+
      then show ?thesis using good by metis
    next
      case False
      then show ?thesis using held r val \<open>q_valid s\<close> by (auto simp: inv_valid_def)
    qed
    moreover have "Stopped \<in> set ?ts \<Longrightarrow> Stopped \<in> set (q_threads s)"
      using set_update_subset_insert [of "q_threads s" i] by blast
    ultimately show ?thesis using True val by (simp add: inv_valid_def)
  next
    case False
    then show ?thesis using val by (simp add: inv_valid_def)
  qed
  moreover have "inv_size j rs (s\<lparr>q_threads := ?ts\<rparr>)"
    using sum_list_update_eq [OF i(1), of "weight j rs" "Looping l"] i(2) size by (simp add: inv_size_def)
  ultimately show ?thesis by (simp add: q_inv_def)
qed

lemma inv_reject:
  assumes inv: "q_inv krow j rs dst0 s" and i: "i < length (q_threads s)" "q_threads s ! i = Validating f sz l"
    and bad: "\<not> (\<forall>r < this_nrow j f. row_valid (j_type j) (row_bytes krow j (f + r)))"
  shows "q_inv krow j rs dst0 (s\<lparr>q_valid := False, q_threads := (q_threads s)[i := Stopped]\<rparr>)"
proof -
  let ?ts = "(q_threads s)[i := Stopped]"
  have ids: "inv_ids j rs s" and data: "inv_data krow j rs dst0 s"
    using inv by (simp_all add: q_inv_def)
  have f: "f < j_nrows j" using inv_idsD [OF ids i(1), of f] i(2) by simp
  have busy: "busy ?ts g \<longleftrightarrow> busy (q_threads s) g" for g
    using i by (auto simp: busy_update) (auto simp: busy_def)
  have "inv_ids j rs (s\<lparr>q_valid := False, q_threads := ?ts\<rparr>)"
    by (rule inv_ids_update [OF ids i(1)]) (use ids in \<open>auto simp: inv_ids_def\<close>)
  moreover have "inv_data krow j rs dst0 (s\<lparr>q_valid := False, q_threads := ?ts\<rparr>)"
    using data by (simp add: inv_data_def busy)
  moreover obtain r where "r < this_nrow j f" "\<not> row_valid (j_type j) (row_bytes krow j (f + r))"
    using bad by blast
  then have "inv_valid krow j (s\<lparr>q_valid := False, q_threads := ?ts\<rparr>)"
    using this_nrow_le [OF f] by (auto simp: inv_valid_def intro!: exI [of _ "f + r"])
  ultimately show ?thesis by (simp add: q_inv_def inv_size_def)
qed

lemma q_inv_step:
  assumes step: "qstep krow j s s'" and ok: "job_ok krow j rs" and len: "j_nrows j * rs \<le> length dst0" and pos: "0 < nrows_per_chunk j"
    and inv: "q_inv krow j rs dst0 s"
  shows "q_inv krow j rs dst0 s'"
  using step
proof cases
  case (q_take i l)
  then show ?thesis using inv_take [OF inv] pos by simp
next
  case (q_leave i l)
  then show ?thesis using inv_leave [OF inv] by simp
next
  have ids: "inv_ids j rs s" and data: "inv_data krow j rs dst0 s" using inv by (simp_all add: q_inv_def)
  have ld: "j_nrows j * rs \<le> length (q_dst s)" using len data by (simp add: inv_data_def)
  {
    case (q_rows i f l d sz)
    have "f < j_nrows j" using inv_idsD(3) [OF ids] q_rows by simp
    then obtain d' where "quantize_part krow j f (this_nrow j f) (q_dst s) = Some (d', this_nrow j f * rs)"
      "write_at (f * rs) (concat (map (\<lambda>r. row_bytes krow j (f + r)) [0..<this_nrow j f])) (q_dst s) = Some d'"
      by (rule part_total [OF ok _ ld])
    then show ?thesis using q_rows inv_rows [OF ok len pos inv] by simp
  next
    case (q_rows_abort i f l)
    have "f < j_nrows j" using inv_idsD(3) [OF ids] q_rows_abort by simp
    then show ?thesis by (rule part_total [OF ok _ ld]) (use q_rows_abort in simp)
  next
    case (q_accept i f sz l)
    then have "\<forall>r < this_nrow j f. row_valid (j_type j) (row_bytes krow j (f + r))"
      using check_total [OF ok ids data len pos] by simp
    then show ?thesis using q_accept inv_accept [OF inv] pos by simp
  next
    case (q_reject i f sz l)
    then have "\<not> (\<forall>r < this_nrow j f. row_valid (j_type j) (row_bytes krow j (f + r)))"
      using check_total [OF ok ids data len pos] by simp
    then show ?thesis using q_reject inv_reject [OF inv] by simp
  next
    case (q_check_abort i f sz l)
    then show ?thesis using check_total [OF ok ids data len pos] by simp
  }
qed

lemma q_inv_init: "q_inv krow j rs dst (q_init n dst)"
  by (simp add: q_inv_def inv_ids_def inv_data_def inv_valid_def inv_size_def q_init_def sum_list_replicate map_replicate_const)

lemma q_inv_reachable:
  assumes "(qstep krow j)\<^sup>*\<^sup>* (q_init n dst) s" "job_ok krow j rs" "j_nrows j * rs \<le> length dst" "0 < nrows_per_chunk j"
  shows "q_inv krow j rs dst s \<and> length (q_threads s) = n"
  using assms(1)
proof (induction rule: rtranclp_induct)
  case base
  show ?case by (simp add: q_inv_init) (simp add: q_init_def)
next
  case (step s s')
  then have "length (q_threads s') = length (q_threads s)" by (auto elim: qstep.cases)
  then show ?case using step q_inv_step [OF _ assms(2-4)] by blast
qed

section \<open>Termination\<close>

definition q_work :: "qthread \<Rightarrow> nat" where
  "q_work t = (case t of Looping l \<Rightarrow> 1 | Quantizing f l \<Rightarrow> 3 | Validating f sz l \<Rightarrow> 2 | Stopped \<Rightarrow> 0)"

definition q_measure :: "'f quant_job \<Rightarrow> qstate \<Rightarrow> nat" where
  "q_measure j s = 4 * (j_nrows j - q_counter s) + sum_list (map q_work (q_threads s)) + (if q_abort s then 0 else 1)"

lemma q_work_simps [simp]:
  "q_work (Looping l) = 1" "q_work (Quantizing f l) = 3" "q_work (Validating f sz l) = 2" "q_work Stopped = 0"
  by (simp_all add: q_work_def)

lemma qstep_measure:
  assumes "qstep krow j s s'" "0 < nrows_per_chunk j"
  shows "q_measure j s' < q_measure j s"
proof -
  have sum: "sum_list (map q_work ((q_threads s)[i := t])) + q_work (q_threads s ! i) = sum_list (map q_work (q_threads s)) + q_work t"
    if "i < length (q_threads s)" for i t
    using that by (rule sum_list_update_eq)
  show ?thesis
    using assms(1)
  proof cases
    case (q_take i l)
    then show ?thesis using sum [of i "Quantizing (q_counter s) l"] assms(2) by (simp add: q_measure_def)
  next
    case (q_leave i l)
    then show ?thesis using sum [of i Stopped] by (simp add: q_measure_def)
  next
    case (q_rows i f l d sz)
    then show ?thesis using sum [of i "Validating f sz (l + sz)"] by (simp add: q_measure_def)
  next
    case (q_accept i f sz l)
    then show ?thesis using sum [of i "Looping l"] by (simp add: q_measure_def)
  next
    case (q_reject i f sz l)
    then show ?thesis using sum [of i Stopped] by (simp add: q_measure_def)
  qed (simp_all add: q_measure_def)
qed

lemma q_progress: "q_joined s \<longleftrightarrow> \<not> (\<exists>s'. qstep krow j s s')"
proof
  assume "q_joined s"
  then show "\<not> (\<exists>s'. qstep krow j s s')"
    by (auto simp: q_joined_def elim!: qstep.cases) (metis nth_mem qthread.distinct)+
next
  assume stuck: "\<not> (\<exists>s'. qstep krow j s s')"
  have "t = Stopped" if ab: "\<not> q_abort s" and "t \<in> set (q_threads s)" for t
  proof -
    from that obtain i where i: "i < length (q_threads s)" "q_threads s ! i = t" by (auto simp: in_set_conv_nth)
    show ?thesis
    proof (cases t)
      case (Looping l)
      then show ?thesis using stuck q_take [OF ab i(1)] q_leave [OF ab i(1)] i(2) by (metis not_le)
    next
      case (Quantizing f l)
      then show ?thesis using stuck q_rows [OF ab i(1)] q_rows_abort [OF ab i(1)] i(2)
        by (metis not_None_eq surj_pair)
    next
      case (Validating f sz l)
      then show ?thesis using stuck q_accept [OF ab i(1)] q_reject [OF ab i(1)] q_check_abort [OF ab i(1)] i(2)
        by (metis not_None_eq)
    qed
  qed
  then show "q_joined s" by (auto simp: q_joined_def)
qed

lemma q_finishes:
  assumes "0 < nrows_per_chunk j"
  shows "\<exists>s'. (qstep krow j)\<^sup>*\<^sup>* s s' \<and> q_joined s'"
proof (induction s rule: measure_induct_rule [of "q_measure j"])
  case (less s)
  show ?case
  proof (cases "\<exists>s'. qstep krow j s s'")
    case True
    then obtain s1 where s1: "qstep krow j s s1" by blast
    with less [OF qstep_measure [OF s1 assms]] show ?thesis
      by (meson converse_rtranclp_into_rtranclp)
  next
    case False
    then show ?thesis using q_progress by blast
  qed
qed

section \<open>The threads against one thread\<close>

lemma single_eq:
  assumes ok: "job_ok krow j rs" and len: "j_nrows j * rs \<le> length dst"
  shows "quantize_single krow j dst =
    Some (if \<forall>r < j_nrows j. row_valid (j_type j) (row_bytes krow j r)
          then Inr (concat (map (row_bytes krow j) [0..<j_nrows j]) @ drop (j_nrows j * rs) dst, j_nrows j * rs)
          else Inl Validation_failed)"
proof -
  let ?xs = "concat (map (row_bytes krow j) [0..<j_nrows j])"
  have xs: "length ?xs = j_nrows j * rs" using length_rows [OF ok, of 0 "j_nrows j"] by simp
  have w: "write_at 0 ?xs dst = Some (?xs @ drop (j_nrows j * rs) dst)"
    using len xs by (simp add: write_at_def)
  have part: "quantize_part krow j 0 (j_nrows j) dst = Some (?xs @ drop (j_nrows j * rs) dst, j_nrows j * rs)"
    using quantize_part_eq [OF ok _ len, of 0 "j_nrows j"] w by simp
  have ts: "ggml_type_size (j_type j) \<noteq> 0" "validated_type (j_type j)"
    using quantizable_validated [OF job_okD(3) [OF ok]] by simp_all
  have "\<forall>x \<in> set (map (row_bytes krow j) [0..<j_nrows j]). ggml_type_size (j_type j) dvd length x"
    using length_row_bytes [OF ok] row_size_dvd [OF ok] by auto
  from row_valid_concat [OF ts(1) this ts(2)]
  have "row_valid (j_type j) ?xs \<longleftrightarrow> (\<forall>r < j_nrows j. row_valid (j_type j) (row_bytes krow j r))" by auto
  then show ?thesis
    using len xs by (simp add: quantize_single_def part read_at_def validate_total [OF ts(1)])
qed

lemma joined_eq:
  assumes ok: "job_ok krow j rs" and len: "j_nrows j * rs \<le> length dst" and pos: "0 < nrows_per_chunk j" and n: "0 < n"
    and run: "(qstep krow j)\<^sup>*\<^sup>* (q_init n dst) s" and fin: "q_joined s"
  shows "q_result s = quantize_single krow j dst"
proof -
  have inv: "inv_ids j rs s" "inv_data krow j rs dst s" "inv_valid krow j s" "inv_size j rs s" and n': "length (q_threads s) = n"
    using q_inv_reachable [OF run ok len pos] by (simp_all add: q_inv_def)
  have stop: "\<not> q_abort s" "\<forall>t \<in> set (q_threads s). t = Stopped"
    using inv(1) fin by (auto simp: inv_ids_def q_joined_def)
  have nth: "q_threads s ! i = Stopped" if "i < length (q_threads s)" for i
    using stop(2) that by simp
  have idle: "\<not> busy (q_threads s) f" "\<not> held (q_threads s) f" for f
    by (auto simp: busy_def held_def nth)
  show ?thesis
  proof (cases "q_valid s")
    case False
    then show ?thesis
      using inv(3) stop(1) single_eq [OF ok len] by (auto simp: q_result_def inv_valid_def)
  next
    case True
    have "q_threads s \<noteq> []" using n n' by auto
    then have "Stopped \<in> set (q_threads s)" using stop(2) by (metis hd_in_set)
    then have c: "j_nrows j \<le> q_counter s" using inv(3) True by (simp add: inv_valid_def)
    have good: "\<forall>r < j_nrows j. row_valid (j_type j) (row_bytes krow j r)"
      using inv(3) True c idle by (simp add: inv_valid_def)
    have rows: "\<forall>r < j_nrows j. take rs (drop ((0 + r) * rs) (q_dst s)) = row_bytes krow j r"
      using inv(2) c idle by (simp add: inv_data_def)
    have l: "length (q_dst s) = length dst" "drop (j_nrows j * rs) (q_dst s) = drop (j_nrows j * rs) dst"
      using inv(2) by (simp_all add: inv_data_def)
    have "take (j_nrows j * rs) (drop (0 * rs) (q_dst s)) = concat (map (row_bytes krow j) [0..<j_nrows j])"
      by (rule slices_concat [OF rows]) (use l len in simp)
    then have "q_dst s = concat (map (row_bytes krow j) [0..<j_nrows j]) @ drop (j_nrows j * rs) dst"
      using l(2) by (metis append_take_drop_id drop0 mult_zero_left)
    moreover have "map (weight j rs) (q_threads s) = map (\<lambda>t. 0) (q_threads s)"
      using stop(2) by (intro map_cong) auto
    then have "q_new_size s = j_nrows j * rs"
      using inv(4) True c by (simp add: inv_size_def map_replicate_const sum_list_replicate mult.commute)
    ultimately show ?thesis
      using True stop(1) good single_eq [OF ok len] by (simp add: q_result_def)
  qed
qed

section \<open>Properties\<close>

definition demo_krow :: "ggml_type \<Rightarrow> nat list \<Rightarrow> nat list option \<Rightarrow> bytes option" where
  "demo_krow t x w = (if x = [] then None else Some (replicate 18 (of_nat (sum_list x))))"

definition demo_job :: "nat quant_job" where
  "demo_job = \<lparr>j_type = GGML_TYPE_Q4_0, j_src = replicate 96 1, j_chunk_size = 64, j_nrows = 3, j_n_per_row = 32,
     j_imatrix = None, j_per_weight = False\<rparr>"

lemma demo_job_ok: "job_ok demo_krow demo_job 18" "0 < nrows_per_chunk demo_job" "j_nrows demo_job * 18 \<le> length (replicate 60 (0 :: 8 word))"
  by (simp_all add: job_ok_def row_call_def demo_job_def demo_krow_def ggml_row_size_def ggml_blck_size_def ggml_type_size_def type_traits_def
    quantizable_def ggml_quantize_requires_imatrix_def nrows_per_chunk_def)

text \<open>C2: \<^verbatim>\<open>llama_tensor_quantize_impl\<close> with several threads returns what it returns with one.  However the
  threads are scheduled, once all of them have left the loop no assertion has failed, the destination holds the
  same bytes and \<^verbatim>\<open>new_size\<close> is the same, or both report that validation failed, for every kernel that returns the
  bytes of a row on each row of the job, every row length the type allows, per-column and per-weight importance, and any number of threads.\<close>

theorem quantize_threads_same:
  assumes "job_ok krow j rs" "j_nrows j * rs \<le> length dst" "j_n_per_row j \<le> j_chunk_size j" "0 < nthread"
    and "(qstep krow j)\<^sup>*\<^sup>* (q_init nthread dst) s" "q_joined s"
  shows "q_result s = quantize_single krow j dst"
  using assms job_okD(2) [OF assms(1)] by (intro joined_eq) (simp_all add: nrows_per_chunk_def div_greater_zero_iff)

theorem quantize_threads_same_witness:
  "\<exists>s. (qstep demo_krow demo_job)\<^sup>*\<^sup>* (q_init 2 (replicate 60 0)) s \<and> q_joined s \<and>
    q_result s = quantize_single demo_krow demo_job (replicate 60 0)"
proof -
  obtain s where s: "(qstep demo_krow demo_job)\<^sup>*\<^sup>* (q_init 2 (replicate 60 0)) s" "q_joined s"
    using q_finishes [OF demo_job_ok(2)] by blast
  then have "q_result s = quantize_single demo_krow demo_job (replicate 60 0)"
    by (intro quantize_threads_same [OF demo_job_ok(1,3)]) (simp_all add: demo_job_def)
  with s show ?thesis by blast
qed

text \<open>C35: The threads always finish.  From any state there is a way on until all have left the loop (or the
  process has aborted), a state with no further step is such a state, and no schedule runs forever, as long as a
  chunk has at least one row.\<close>

theorem quantize_threads_terminate:
  assumes "0 < j_n_per_row j" "j_n_per_row j \<le> j_chunk_size j"
  shows "(\<exists>s'. (qstep krow j)\<^sup>*\<^sup>* s s' \<and> q_joined s') \<and> (q_joined s \<longleftrightarrow> \<not> (\<exists>s'. qstep krow j s s')) \<and>
    \<not> (\<exists>run. run 0 = s \<and> (\<forall>i. qstep krow j (run i) (run (Suc i))))"
proof (intro conjI)
  have pos: "0 < nrows_per_chunk j" using assms by (simp add: nrows_per_chunk_def div_greater_zero_iff)
  show "\<exists>s'. (qstep krow j)\<^sup>*\<^sup>* s s' \<and> q_joined s'" by (rule q_finishes [OF pos])
  show "q_joined s \<longleftrightarrow> \<not> (\<exists>s'. qstep krow j s s')" by (rule q_progress)
  show "\<not> (\<exists>run. run 0 = s \<and> (\<forall>i. qstep krow j (run i) (run (Suc i))))"
  proof
    assume "\<exists>run. run 0 = s \<and> (\<forall>i. qstep krow j (run i) (run (Suc i)))"
    then obtain run where "\<forall>i. qstep krow j (run i) (run (Suc i))" by blast
    then have "\<forall>i. (run (Suc i), run i) \<in> measure (q_measure j)" using qstep_measure [OF _ pos] by auto
    then show False using wf_measure [of "q_measure j"] unfolding wf_iff_no_infinite_down_chain by blast
  qed
qed

theorem quantize_threads_terminate_witness:
  "\<exists>s'. (qstep demo_krow demo_job)\<^sup>*\<^sup>* (q_init 2 []) s' \<and> q_joined s'"
  by (rule conjunct1 [OF quantize_threads_terminate]) (simp_all add: demo_job_def)

end
