(* ===== verification/QuantRemap.thy ===== *)
theory QuantRemap
  imports QuantPolicy StdMap
begin

text \<open>
  Pruning layers while quantizing: \<^verbatim>\<open>remap_layer\<close> and \<^verbatim>\<open>remap_imatrix\<close> of \<^verbatim>\<open>src/src/llama-quant.cpp\<close>, and the
  first loop of \<^verbatim>\<open>llama_model_quantize_impl\<close> that renames the tensors. The state is the map from old layer
  numbers to new ones, as strings (\<^verbatim>\<open>mapped\<close>, empty for a pruned layer), and the next free number.
\<close>

section \<open>Layer numbers in tensor names\<close>

text \<open>A match of \<^verbatim>\<open>blk\.(\d+)\.\<close> at the start: the digits and what follows them.\<close>

definition blk_match :: "string \<Rightarrow> (string \<times> string) option" where
  "blk_match s =
     (if has_prefix ''blk.'' s then
        (let ds = takeWhile c_isdigit (drop 4 s); rest = dropWhile c_isdigit (drop 4 s) in
         if ds \<noteq> [] \<and> has_prefix ''.'' rest then Some (ds, rest) else None)
      else None)"

text \<open>\<^verbatim>\<open>std::regex_search\<close>: what precedes the digits of the leftmost match, the digits, what follows.\<close>

fun find_blk :: "string \<Rightarrow> (string \<times> string \<times> string) option" where
  "find_blk [] = None"
| "find_blk (c # s) = (case blk_match (c # s) of
     Some (ds, rest) \<Rightarrow> Some (''blk.'', ds, rest)
   | None \<Rightarrow> map_option (\<lambda>(pre, ds, rest). (c # pre, ds, rest)) (find_blk s))"

section \<open>Renaming\<close>

type_synonym remap_state = "(nat, string) omap \<times> nat"

definition remap_layer :: "string \<Rightarrow> nat list \<Rightarrow> remap_state \<Rightarrow> quant_error + string \<times> remap_state" where
  "remap_layer orig_name prune st = (case st of (mapped, next_id) \<Rightarrow>
     if prune = [] then Inr (orig_name, st)
     else (case find_blk orig_name of
       None \<Rightarrow> Inr (orig_name, st)
     | Some (pre, ds, rest) \<Rightarrow>
         (case stoi ds of
            None \<Rightarrow> Inl Block_range
          | Some i \<Rightarrow>
              (let blk = nat i;
                   (mapped', next') =
                     (if map_of mapped blk \<noteq> None then (mapped, next_id)
                      else if blk \<in> set prune then (om_upd blk [] mapped, next_id)
                      else if blk < hd prune then (om_upd blk (to_string blk) mapped, blk + 1)
                      else (om_upd blk (to_string next_id) mapped, next_id + 1));
                   new = the (map_of mapped' blk)
               in Inr (if new = [] then [] else pre @ new @ rest, mapped', next')))))"

text \<open>The \<^verbatim>\<open>GGML_ABORT\<close> for a layer without a new number is the error value.\<close>

definition remap_imatrix :: "string \<Rightarrow> (nat, string) omap \<Rightarrow> quant_error + string" where
  "remap_imatrix orig_name mapped =
     (if mapped = [] then Inr orig_name
      else (case find_blk orig_name of
        None \<Rightarrow> Inr orig_name
      | Some (pre, blk, rest) \<Rightarrow>
          (case find (\<lambda>p. snd p = blk) mapped of
             None \<Rightarrow> Inl Imatrix_mapping
           | Some p \<Rightarrow> Inr (pre @ to_string (fst p) @ rest))))"

text \<open>The loop over the tensors: the new names of those that are kept, and whether a pruned one was a value projection.\<close>

fun remap_all :: "string list \<Rightarrow> nat list \<Rightarrow> remap_state \<Rightarrow> nat \<Rightarrow> quant_error + (string \<times> string) list \<times> remap_state \<times> nat" where
  "remap_all [] prune st pruned_w = Inr ([], st, pruned_w)"
| "remap_all (n # ns) prune st pruned_w = (case remap_layer n prune st of
     Inl e \<Rightarrow> Inl e
   | Inr (new, st') \<Rightarrow>
       (case remap_all ns prune st'
           (if new = [] \<and> (contains n ''attn_v.weight'' \<or> contains n ''attn_qkv.weight'' \<or> contains n ''attn_kv_b.weight'')
            then pruned_w + 1 else pruned_w) of
          Inl e \<Rightarrow> Inl e
        | Inr (out, st'', w) \<Rightarrow> Inr (if new = [] then out else (n, new) # out, st'', w)))"

section \<open>Finding the number again\<close>

lemma takeWhile_isdigit_stop: "\<not> c_isdigit x \<Longrightarrow> takeWhile c_isdigit (xs @ x # ys) = takeWhile c_isdigit (xs @ x # zs)"
  by (induction xs) auto

lemma dropWhile_isdigit_stop: "\<not> c_isdigit x \<Longrightarrow> \<exists>us. dropWhile c_isdigit (xs @ x # ys) = us @ x # ys \<and> dropWhile c_isdigit (xs @ x # zs) = us @ x # zs"
  by (induction xs) auto

lemma b_not_digit [simp]: "\<not> c_isdigit CHR ''b''" "\<not> c_isdigit CHR ''.''"
  by (simp_all add: c_isdigit_def c_code_def)

text \<open>Whether a match starts before the next \<^verbatim>\<open>blk.\<close> does not depend on what follows that.\<close>

lemma blk_match_before:
  assumes "p \<noteq> []" and "blk_match (p @ ''blk.'' @ xs) = None"
  shows "blk_match (p @ ''blk.'' @ ys) = None"
proof (cases "length p < 4")
  case True
  have "\<not> has_prefix ''blk.'' (p @ ''blk.'' @ ys)"
    using True assms(1) by (auto simp: length_Suc_conv less_Suc_eq numeral_eq_Suc)
  then show ?thesis by (simp add: blk_match_def)
next
  case False
  then obtain q r where p: "p = q @ r" "length q = 4" by (metis append_take_drop_id length_take min.absorb2 not_less)
  have pre: "has_prefix ''blk.'' (p @ zs) \<longleftrightarrow> q = ''blk.''" for zs
  proof -
    have "length ''blk.'' = length q" using p(2) by simp
    then show ?thesis unfolding p(1) has_prefix_iff append_assoc by (metis append_eq_append_conv)
  qed
  have d: "drop 4 (p @ zs) = r @ zs" for zs using p by simp
  obtain us where us: "dropWhile c_isdigit (r @ CHR ''b'' # ''lk.'' @ xs) = us @ CHR ''b'' # ''lk.'' @ xs"
      "dropWhile c_isdigit (r @ CHR ''b'' # ''lk.'' @ ys) = us @ CHR ''b'' # ''lk.'' @ ys"
    using dropWhile_isdigit_stop [of "CHR ''b''" r "''lk.'' @ xs" "''lk.'' @ ys"] by auto
  have t: "takeWhile c_isdigit (r @ CHR ''b'' # ''lk.'' @ xs) = takeWhile c_isdigit (r @ CHR ''b'' # ''lk.'' @ ys)"
    by (rule takeWhile_isdigit_stop) simp
  have dot: "has_prefix ''.'' (us @ CHR ''b'' # zs) \<longleftrightarrow> us \<noteq> [] \<and> hd us = CHR ''.''" for zs by (cases us) auto
  show ?thesis
    using assms(2) us t dot [of "''lk.'' @ xs"] dot [of "''lk.'' @ ys"] unfolding blk_match_def Let_def pre d by (auto split: if_splits)
qed

definition is_number :: "string \<Rightarrow> bool" where
  "is_number ds \<longleftrightarrow> ds \<noteq> [] \<and> list_all c_isdigit ds"

lemma blk_match_here:
  assumes "is_number ds"
  shows "blk_match (''blk.'' @ ds @ CHR ''.'' # rest) = Some (ds, CHR ''.'' # rest)"
proof -
  have "takeWhile c_isdigit (ds @ CHR ''.'' # rest) = ds" "dropWhile c_isdigit (ds @ CHR ''.'' # rest) = CHR ''.'' # rest"
    using assms by (simp_all add: is_number_def list_all_iff takeWhile_append dropWhile_append)
  with assms show ?thesis by (simp add: blk_match_def is_number_def)
qed

lemma find_blk_SomeD:
  assumes "find_blk s = Some (pre, ds, rest)"
  shows "\<exists>p t. pre = p @ ''blk.'' \<and> rest = CHR ''.'' # t \<and> is_number ds \<and> s = pre @ ds @ rest \<and>
    (\<forall>q r. p = q @ r \<longrightarrow> r \<noteq> [] \<longrightarrow> blk_match (r @ ''blk.'' @ ds @ rest) = None)"
  using assms
proof (induction s arbitrary: pre)
  case (Cons c s)
  show ?case
  proof (cases "blk_match (c # s)")
    case None
    with Cons.prems obtain pre' where pre': "find_blk s = Some (pre', ds, rest)" "pre = c # pre'" by auto
    from Cons.IH [OF pre'(1)] obtain p t where
      IH: "pre' = p @ ''blk.''" "rest = CHR ''.'' # t" "is_number ds" "s = pre' @ ds @ rest"
        "\<forall>q r. p = q @ r \<longrightarrow> r \<noteq> [] \<longrightarrow> blk_match (r @ ''blk.'' @ ds @ rest) = None" by auto
    have "blk_match (r @ ''blk.'' @ ds @ rest) = None" if "c # p = q @ r" "r \<noteq> []" for q r
    proof (cases q)
      case Nil
      with that have "r = c # p" by simp
      with IH None show ?thesis by simp
    next
      case (Cons a q')
      with that IH(5) show ?thesis by simp
    qed
    with IH pre' show ?thesis by (intro exI [where x = "c # p"] exI [where x = t]) auto
  next
    case (Some m)
    obtain ds' rest' where m: "m = (ds', rest')" by (cases m)
    with Cons.prems Some have e: "pre = ''blk.''" "ds = ds'" "rest = rest'" by auto
    from Some m have M: "has_prefix ''blk.'' (c # s)" "ds = takeWhile c_isdigit (drop 4 (c # s))" "rest = dropWhile c_isdigit (drop 4 (c # s))"
        "ds \<noteq> []" "has_prefix ''.'' rest"
      using e by (auto simp: blk_match_def Let_def split: if_splits)
    from M(1) obtain u where u: "c # s = ''blk.'' @ u" unfolding has_prefix_iff by auto
    have "ds @ rest = u" using M(2,3) u by simp
    moreover obtain t where "rest = CHR ''.'' # t" using M(5) unfolding has_prefix_iff by auto
    moreover have "is_number ds" using M(2,4) by (auto simp: is_number_def list_all_iff dest: set_takeWhileD)
    ultimately show ?thesis using u e(1) by auto
  qed
qed simp

lemma find_blk_replace:
  assumes "find_blk s = Some (pre, ds, rest)" and "is_number ds'"
  shows "find_blk (pre @ ds' @ rest) = Some (pre, ds', rest)"
proof -
  from find_blk_SomeD [OF assms(1)] obtain p t where
    F: "pre = p @ ''blk.''" "rest = CHR ''.'' # t" "\<forall>q r. p = q @ r \<longrightarrow> r \<noteq> [] \<longrightarrow> blk_match (r @ ''blk.'' @ ds @ rest) = None" by auto
  have "find_blk (r @ ''blk.'' @ ds' @ rest) = Some (r @ ''blk.'', ds', rest)" if "p = q @ r" for q r
    using that
  proof (induction r arbitrary: q)
    case Nil
    then show ?case using blk_match_here [OF assms(2), of t] F(2) by simp
  next
    case (Cons c r)
    have "blk_match ((c # r) @ ''blk.'' @ ds @ rest) = None" using F(3) Cons.prems by blast
    then have "blk_match ((c # r) @ ''blk.'' @ ds' @ rest) = None" by (rule blk_match_before [rotated]) simp
    moreover have "find_blk (r @ ''blk.'' @ ds' @ rest) = Some (r @ ''blk.'', ds', rest)" using Cons.IH [of "q @ [c]"] Cons.prems by simp
    ultimately show ?case by simp
  qed
  from this [of "[]" p] F(1) show ?thesis by simp
qed


section \<open>The new numbers\<close>

text \<open>The number of pruned layers below a layer, and the state after the layers below \<open>c\<close> were met.\<close>

definition pruned_below :: "nat list \<Rightarrow> nat \<Rightarrow> nat" where
  "pruned_below prune b = card {x \<in> set prune. x < b}"

definition new_number :: "nat list \<Rightarrow> nat \<Rightarrow> string" where
  "new_number prune b = (if b \<in> set prune then [] else to_string (b - pruned_below prune b))"

definition remap_inv :: "nat list \<Rightarrow> nat \<Rightarrow> remap_state \<Rightarrow> bool" where
  "remap_inv prune c st \<longleftrightarrow> om_wf (fst st) \<and> (\<forall>b. map_of (fst st) b = (if b < c then Some (new_number prune b) else None)) \<and>
     snd st = c - pruned_below prune c"

lemma pruned_below_le: "pruned_below prune b \<le> b"
proof -
  have "{x \<in> set prune. x < b} \<subseteq> {..<b}" by auto
  then show ?thesis unfolding pruned_below_def by (metis card_lessThan card_mono finite_lessThan)
qed

lemma pruned_below_Suc: "pruned_below prune (Suc b) = pruned_below prune b + (if b \<in> set prune then 1 else 0)"
proof -
  have "{x \<in> set prune. x < Suc b} = (if b \<in> set prune then insert b {x \<in> set prune. x < b} else {x \<in> set prune. x < b})"
    by (auto simp: less_Suc_eq)
  then show ?thesis by (simp add: pruned_below_def)
qed

lemma pruned_below_hd: "sorted prune \<Longrightarrow> prune \<noteq> [] \<Longrightarrow> b \<le> hd prune \<Longrightarrow> pruned_below prune b = 0"
  by (cases prune) (auto simp: pruned_below_def)

lemma remap_layer_step:
  assumes inv: "remap_inv prune c st" and prune: "sorted prune" "prune \<noteq> []"
    and name: "find_blk name = Some (pre, ds, rest)" "stoi ds = Some (int b)" and b: "b \<le> c"
  shows "\<exists>st'. remap_layer name prune st = Inr (if b \<in> set prune then [] else pre @ new_number prune b @ rest, st') \<and>
    remap_inv prune (max c (Suc b)) st'"
proof -
  obtain mapped nx where st: "st = (mapped, nx)" by (cases st)
  from inv st have I: "om_wf mapped" "\<And>x. map_of mapped x = (if x < c then Some (new_number prune x) else None)" "nx = c - pruned_below prune c"
    by (auto simp: remap_inv_def)
  have ne: "new_number prune b = [] \<longleftrightarrow> b \<in> set prune" by (simp add: new_number_def)
  show ?thesis
  proof (cases "b < c")
    case True
    then have "max c (Suc b) = c" by simp
    moreover have "remap_layer name prune st = Inr (if b \<in> set prune then [] else pre @ new_number prune b @ rest, st)"
      using True I(2) [of b] prune(2) name ne by (simp add: remap_layer_def st del: map_of_None_keys)
    ultimately show ?thesis using inv by auto
  next
    case False
    with b have bc: "b = c" by simp
    have le: "pruned_below prune c \<le> c" by (rule pruned_below_le)
    have low: "pruned_below prune c = 0" if "c < hd prune" using pruned_below_hd [OF prune, of c] that by simp
    have hd: "hd prune \<in> set prune" using prune(2) by simp
    let ?m = "om_upd c (new_number prune c) mapped"
    let ?nx = "Suc c - pruned_below prune (Suc c)"
    have upd: "(if map_of mapped c \<noteq> None then (mapped, nx)
        else if c \<in> set prune then (om_upd c [] mapped, nx)
        else if c < hd prune then (om_upd c (to_string c) mapped, c + 1)
        else (om_upd c (to_string nx) mapped, nx + 1)) = (?m, ?nx)"
      using I(2) [of c] I(3) low le hd by (auto simp: new_number_def pruned_below_Suc Suc_diff_le simp del: map_of_None_keys)
    have "remap_layer name prune st = Inr (if c \<in> set prune then [] else pre @ new_number prune c @ rest, (?m, ?nx))"
      using prune(2) name ne bc by (simp only: remap_layer_def st prod.case name option.case nat_int upd Let_def om.find_upd [OF I(1)]) simp
    moreover have "remap_inv prune (Suc c) (?m, ?nx)"
      using I(1,2) om_wf_upd by (auto simp: remap_inv_def om.find_upd [OF I(1)] less_Suc_eq)
    ultimately show ?thesis using bc by auto
  qed
qed

text \<open>Every layer that is met for the first time is the next one.\<close>

fun layer_count :: "nat \<Rightarrow> string list \<Rightarrow> nat option" where
  "layer_count c [] = Some c"
| "layer_count c (n # ns) = (case find_blk n of
     None \<Rightarrow> layer_count c ns
   | Some (pre, ds, rest) \<Rightarrow>
       (case stoi ds of
          None \<Rightarrow> None
        | Some i \<Rightarrow> if nat i \<le> c then layer_count (max c (Suc (nat i))) ns else None))"

definition renamed :: "nat list \<Rightarrow> string \<Rightarrow> string" where
  "renamed prune n = (case find_blk n of
     None \<Rightarrow> n
   | Some (pre, ds, rest) \<Rightarrow>
       if nat (the (stoi ds)) \<in> set prune then [] else pre @ new_number prune (nat (the (stoi ds))) @ rest)"

lemma stoi_number_nonneg: "is_number ds \<Longrightarrow> stoi ds = Some i \<Longrightarrow> 0 \<le> i"
  by (cases ds) (auto simp: is_number_def stoi_def stoi_digits_def s32_def Let_def isdigit_not_other split: if_splits)

lemma remap_all_spec:
  assumes "sorted prune" and "prune \<noteq> []" and "remap_inv prune c st" and "layer_count c ns = Some d"
  shows "\<exists>st' w'. remap_all ns prune st w = Inr (filter (\<lambda>(n, new). new \<noteq> []) (map (\<lambda>n. (n, renamed prune n)) ns), st', w') \<and>
    remap_inv prune d st'"
  using assms(3,4)
proof (induction ns arbitrary: c st w)
  case (Cons n ns)
  show ?case
  proof (cases "find_blk n")
    case None
    then have "remap_layer n prune st = Inr (n, st)" "renamed prune n = n" using assms(2) by (simp_all add: remap_layer_def renamed_def split: prod.split)
    moreover have "layer_count c ns = Some d" using Cons.prems(2) None by simp
    ultimately show ?thesis
      using Cons.IH [OF Cons.prems(1), of "if n = [] \<and> (contains n ''attn_v.weight'' \<or> contains n ''attn_qkv.weight'' \<or> contains n ''attn_kv_b.weight'') then w + 1 else w"] by auto
  next
    case (Some m)
    obtain pre ds rest where m: "m = (pre, ds, rest)" by (cases m)
    from Cons.prems(2) Some m obtain i where i: "stoi ds = Some i" "nat i \<le> c" "layer_count (max c (Suc (nat i))) ns = Some d"
      by (auto split: option.splits if_splits)
    have "is_number ds" using find_blk_SomeD Some m by blast
    from stoi_number_nonneg [OF this i(1)] have "stoi ds = Some (int (nat i))" using i(1) by simp
    from remap_layer_step [OF Cons.prems(1) assms(1,2) Some [unfolded m] this i(2)] obtain st1 where
      st1: "remap_layer n prune st = Inr (if nat i \<in> set prune then [] else pre @ new_number prune (nat i) @ rest, st1)"
        "remap_inv prune (max c (Suc (nat i))) st1" by blast
    have new: "renamed prune n = (if nat i \<in> set prune then [] else pre @ new_number prune (nat i) @ rest)" using Some m i(1) by (simp add: renamed_def)
    obtain st' w' where "remap_all ns prune st1 (if renamed prune n = [] \<and> (contains n ''attn_v.weight'' \<or> contains n ''attn_qkv.weight'' \<or> contains n ''attn_kv_b.weight'')
            then w + 1 else w) = Inr (filter (\<lambda>(n, new). new \<noteq> []) (map (\<lambda>n. (n, renamed prune n)) ns), st', w')" "remap_inv prune d st'"
      using Cons.IH [OF st1(2) i(3)] by blast
    with st1(1) show ?thesis unfolding new [symmetric] by simp
  qed
qed simp

lemma remap_inv_init: "remap_inv prune 0 ([], 0)"
  by (simp add: remap_inv_def)

lemma new_number_mono:
  assumes "x < y" and "x \<notin> set prune"
  shows "x - pruned_below prune x < y - pruned_below prune y"
proof -
  have "{z \<in> set prune. z < y} \<subseteq> {z \<in> set prune. z < x} \<union> {x<..<y}" using assms(2) by (auto simp: not_less le_less)
  then have "card {z \<in> set prune. z < y} \<le> card ({z \<in> set prune. z < x} \<union> {x<..<y})" by (intro card_mono) auto
  also have "\<dots> \<le> card {z \<in> set prune. z < x} + card {x<..<y}" by (rule card_Un_le)
  finally have "pruned_below prune y \<le> pruned_below prune x + (y - Suc x)" by (simp add: pruned_below_def)
  with assms(1) pruned_below_le [of prune x] show ?thesis by linarith
qed

lemma new_number_inj:
  assumes "new_number prune x = new_number prune y" and "y \<notin> set prune"
  shows "x = y"
proof -
  have x: "x \<notin> set prune" using assms by (metis new_number_def to_string_ne)
  with assms have "x - pruned_below prune x = y - pruned_below prune y" by (simp add: new_number_def to_string_inj)
  with new_number_mono [of x y prune] new_number_mono [of y x prune] x assms(2) show ?thesis by (metis linorder_neq_iff less_irrefl)
qed

lemma remap_imatrix_back:
  assumes inv: "remap_inv prune d st" and b: "b < d" "b \<notin> set prune" and name: "find_blk n = Some (pre, to_string b, rest)"
  shows "remap_imatrix (pre @ new_number prune b @ rest) (fst st) = Inr n"
proof -
  have wf: "om_wf (fst st)" and mp: "\<And>x. map_of (fst st) x = (if x < d then Some (new_number prune x) else None)"
    using inv by (auto simp: remap_inv_def)
  have num: "is_number (new_number prune b)" using b(2) by (auto simp: new_number_def is_number_def list_all_iff dest: to_string_digits)
  have f: "find_blk (pre @ new_number prune b @ rest) = Some (pre, new_number prune b, rest)" by (rule find_blk_replace [OF name num])
  have n: "n = pre @ to_string b @ rest" using find_blk_SomeD [OF name] by blast
  have dist: "distinct (map fst (fst st))" using wf by (auto simp: om_wf_def strict_sorted_iff)
  have mem: "(b, new_number prune b) \<in> set (fst st)" using mp [of b] b(1) by (intro map_of_SomeD) simp
  show ?thesis
  proof (cases "find (\<lambda>p. snd p = new_number prune b) (fst st)")
    case None
    with mem show ?thesis by (auto simp: find_None_iff)
  next
    case (Some p)
    then have p: "p \<in> set (fst st)" "snd p = new_number prune b" by (auto simp: find_Some_iff)
    have "map_of (fst st) (fst p) = Some (new_number prune b)" using p dist by (metis map_of_is_SomeI prod.collapse)
    with mp [of "fst p"] have "new_number prune (fst p) = new_number prune b" by (auto split: if_splits)
    with b(2) have "fst p = b" by (metis new_number_inj)
    moreover have "fst st \<noteq> []" using mem by auto
    ultimately show ?thesis using f Some n by (simp add: remap_imatrix_def)
  qed
qed

section \<open>Properties\<close>

text \<open>C37: when the layers of a model are met in order, pruning removes exactly the tensors of the listed layers and
  gives every other layer the number of kept layers below it; every other character of a name stays. The block
  count that is written is the number of kept layers.\<close>

theorem prune_renumbers:
  assumes "sorted prune" and "prune \<noteq> []" and "layer_count 0 ns = Some d"
  shows "\<exists>mapped w. remap_all ns prune ([], 0) 0 =
    Inr (filter (\<lambda>(n, new). new \<noteq> []) (map (\<lambda>n. (n, renamed prune n)) ns), (mapped, d - pruned_below prune d), w)"
proof -
  from remap_all_spec [OF assms(1,2) remap_inv_init assms(3)] obtain st' w where
    "remap_all ns prune ([], 0) 0 = Inr (filter (\<lambda>(n, new). new \<noteq> []) (map (\<lambda>n. (n, renamed prune n)) ns), st', w)" "remap_inv prune d st'" by blast
  then show ?thesis by (cases st') (auto simp: remap_inv_def)
qed

definition demo_names :: "string list" where
  "demo_names = [''output.weight'', ''blk.0.attn_v.weight'', ''blk.1.attn_v.weight'', ''blk.2.attn_v.weight'']"

lemma demo_layers: "layer_count 0 demo_names = Some 3"
  by (simp add: demo_names_def blk_match_def c_isdigit_def c_code_def stoi_def stoi_digits_def c_isspace_def s32_def int32_ok_def int32_min_def
      int32_max_def dec_val_def digit_val_def Let_def)

theorem prune_renumbers_witness:
  "\<exists>mapped w. remap_all demo_names [1] ([], 0) 0 =
    Inr (filter (\<lambda>(n, new). new \<noteq> []) (map (\<lambda>n. (n, renamed [1] n)) demo_names), (mapped, 3 - pruned_below [1] 3), w)"
  by (rule prune_renumbers [OF _ _ demo_layers]) simp_all

text \<open>After the renaming, the importance data of a kept tensor is looked up under its original name: mapping the
  new name back gives the name it had.\<close>

theorem remap_imatrix_roundtrip:
  assumes "sorted prune" and "prune \<noteq> []" and "layer_count 0 ns = Some d"
    and "find_blk n = Some (pre, to_string b, rest)" and "int b \<le> int32_max" and "b < d" and "b \<notin> set prune"
  shows "\<exists>out mapped nid w. remap_all ns prune ([], 0) 0 = Inr (out, (mapped, nid), w) \<and> remap_imatrix (renamed prune n) mapped = Inr n"
proof -
  from remap_all_spec [OF assms(1,2) remap_inv_init assms(3)] obtain out st' w where
    R: "remap_all ns prune ([], 0) 0 = Inr (out, st', w)" "remap_inv prune d st'" by blast
  have "stoi (to_string b) = Some (int b)" using stoi_to_string [of b "[]"] assms(5) by simp
  then have "renamed prune n = pre @ new_number prune b @ rest" using assms(4,7) by (simp add: renamed_def)
  with remap_imatrix_back [OF R(2) assms(6,7,4)] R(1) show ?thesis by (cases st') auto
qed

theorem remap_imatrix_roundtrip_witness:
  "\<exists>out mapped nid w. remap_all demo_names [1] ([], 0) 0 = Inr (out, (mapped, nid), w) \<and>
     remap_imatrix (renamed [1] ''blk.2.attn_v.weight'') mapped = Inr ''blk.2.attn_v.weight''"
proof (rule remap_imatrix_roundtrip [OF _ _ demo_layers])
  have "to_string 2 = ''2''" by (subst to_string.simps) (simp add: digit_char_def char_of_def bit_Suc_0_iff)
  then show "find_blk ''blk.2.attn_v.weight'' = Some (''blk.'', to_string 2, ''.attn_v.weight'')"
    by (simp add: blk_match_def c_isdigit_def c_code_def Let_def)
qed (simp_all add: int32_max_def)

end
