(* ===== verification/QuantTensor.thy ===== *)
theory QuantTensor
  imports QuantThreads QuantRemap
begin

text \<open>
  One tensor through \<^verbatim>\<open>llama_model_quantize_impl\<close> (\<^verbatim>\<open>src/llama-quant.cpp\<close>), after its type has
  been decided: the importance data it gets, its conversion to floats (\<^verbatim>\<open>llama_tensor_dequantize_impl\<close>),
  the size of the chunks, and the loop over its experts.

  \<open>tf\<close> stands for the conversion kernels (\<^verbatim>\<open>to_float\<close>): the floats a run of bytes of a type
  encodes.  The step of the loop that quantizes one matrix is a relation \<open>ret\<close>, because several threads
  may run in it; the locale \<open>matrix_quantizer\<close> is what the loop needs of it, and \<open>quantize_impl\<close> provides it.
\<close>

section \<open>Conversion to floats\<close>

text \<open>Of the quantized types only these two have no \<^verbatim>\<open>to_float\<close> in the table.\<close>

definition has_to_float :: "ggml_type \<Rightarrow> bool" where
  "has_to_float t \<longleftrightarrow> t \<noteq> GGML_TYPE_Q8_1 \<and> t \<noteq> GGML_TYPE_Q8_K"

definition thr_blocks :: "nat \<Rightarrow> nat \<Rightarrow> nat \<Rightarrow> nat" where
  "thr_blocks nblocks nthread tnum = nblocks div nthread + (if tnum = nthread - 1 then nblocks - nblocks div nthread * nthread else 0)"

text \<open>
  The count of elements is narrowed to \<^verbatim>\<open>int\<close> for a thread; a count that does not fit leaves the
  thread's part of the output undefined.  The parts are disjoint, so the order of the threads does not matter.
\<close>

definition tensor_dequantize :: "(ggml_type \<Rightarrow> bytes \<Rightarrow> 'f list) \<Rightarrow> ggml_type \<Rightarrow> bytes \<Rightarrow> nat \<Rightarrow> nat \<Rightarrow> 'f list
    \<Rightarrow> (quant_error + 'f list) option" where
  "tensor_dequantize tf t data nelements nthread out =
     (if ggml_is_quantized t \<and> \<not> has_to_float t then Some (Inl No_dequantization)
      else if \<not> ggml_is_quantized t \<and> t \<noteq> GGML_TYPE_F16 \<and> t \<noteq> GGML_TYPE_BF16 then Some (Inl No_dequantization)
      else let block_size = (if t = GGML_TYPE_F16 \<or> t = GGML_TYPE_BF16 then 1 else ggml_blck_size t) in do {
        guard (block_size \<noteq> 0 \<and> nelements mod block_size = 0);
        if nthread < 2 then do {
          inbuf \<leftarrow> read_at 0 (nelements div block_size * ggml_type_size t) data;
          out' \<leftarrow> write_at 0 (tf t inbuf) out;
          Some (Inr out')
        } else do {
          (in_offs, out_offs, out') \<leftarrow> foldM (\<lambda>tnum (in_offs, out_offs, out). do {
              let blocks = thr_blocks (nelements div block_size) nthread tnum;
              guard (int (blocks * block_size) \<le> int32_max);
              inbuf \<leftarrow> read_at in_offs (blocks * ggml_type_size t) data;
              out' \<leftarrow> write_at out_offs (tf t inbuf) out;
              Some (in_offs + blocks * ggml_type_size t, out_offs + blocks * block_size, out')
            }) [0..<nthread] (0, 0, out);
          Some (Inr out')
        }
      })"

section \<open>Importance data\<close>

definition choose_imatrix :: "qmodel \<Rightarrow> (string \<Rightarrow> 'f list option) option \<Rightarrow> (nat, string) omap \<Rightarrow> tensor
    \<Rightarrow> quant_error + 'f list option \<times> bool" where
  "choose_imatrix m imatrix_data mapped t = (case imatrix_data of
       None \<Rightarrow> Inr (None, False)
     | Some im \<Rightarrow> (case remap_imatrix (te_name t) mapped of
         Inl e \<Rightarrow> Inl e
       | Inr name \<Rightarrow> (case im name of
           None \<Rightarrow> Inr (None, False)
         | Some w \<Rightarrow>
             if length w = te_ne0 t * te_ne2 t then Inr (Some w, False)
             else if length w = te_ne0 t * te_ne1 t * te_ne2 t then Inr (Some w, True)
             else if te_name t \<noteq> qm_tn_token_embd m then Inl Imatrix_size
             else Inr (None, False))))"

definition wants_imatrix :: "ggml_type \<Rightarrow> llama_ftype \<Rightarrow> string \<Rightarrow> bool" where
  "wants_imatrix new_type ftype name \<longleftrightarrow>
     new_type = GGML_TYPE_IQ2_XXS \<or> new_type = GGML_TYPE_IQ2_XS \<or> new_type = GGML_TYPE_IQ2_S \<or> new_type = GGML_TYPE_IQ1_S \<or>
     (new_type = GGML_TYPE_IQ1_M \<and> name \<noteq> ''token_embd.weight'' \<and> name \<noteq> ''output.weight'') \<or>
     (new_type = GGML_TYPE_Q2_K \<and> ftype = LLAMA_FTYPE_MOSTLY_Q2_K_S \<and> name \<noteq> ''token_embd.weight'')"

text \<open>\<open>one\<close> is the float 1.0.\<close>

definition tensor_imatrix :: "'f \<Rightarrow> qmodel \<Rightarrow> quantize_params \<Rightarrow> (string \<Rightarrow> 'f list option) option \<Rightarrow> (nat, string) omap \<Rightarrow> ggml_type
    \<Rightarrow> tensor \<Rightarrow> quant_error + 'f list option \<times> bool" where
  "tensor_imatrix one m p imatrix_data mapped new_type t = (case choose_imatrix m imatrix_data mapped t of
       Inl e \<Rightarrow> Inl e
     | Inr (imatrix, per_weight) \<Rightarrow>
         if wants_imatrix new_type (qp_ftype p) (te_name t) \<and> imatrix = None
         then Inr (Some (replicate (te_ne0 t * te_ne2 t) one), False)
         else Inr (imatrix, per_weight))"

section \<open>Chunks and threads\<close>

definition min_chunk_size :: nat where
  "min_chunk_size = 32 * 512"

definition tensor_chunk_size :: "nat \<Rightarrow> nat" where
  "tensor_chunk_size n_per_row =
     (if n_per_row \<ge> min_chunk_size then n_per_row else n_per_row * ((min_chunk_size + n_per_row - 1) div n_per_row))"

definition nthread_use :: "nat \<Rightarrow> tensor \<Rightarrow> nat" where
  "nthread_use nthread t = (let chunk_size = tensor_chunk_size (te_ne0 t); nchunk = (te_ne0 t * te_ne1 t + chunk_size - 1) div chunk_size in
     if nthread > 1 then max 1 (min nthread nchunk) else 1)"

section \<open>The experts\<close>

record 'f tensor_job =
  tj_type :: ggml_type
  tj_src :: "'f list"
  tj_imatrix :: "'f list option"
  tj_per_weight :: bool
  tj_tensor :: tensor

text \<open>The pointers for expert \<open>i03\<close>: its floats, its importance data, its place in the output.\<close>

definition expert_job :: "'f tensor_job \<Rightarrow> nat \<Rightarrow> 'f quant_job" where
  "expert_job tj i03 = (let t = tj_tensor tj; n_per_row = te_ne0 t; nrows = te_ne1 t; nelements_matrix = te_ne0 t * te_ne1 t in
     \<lparr>j_type = tj_type tj, j_src = drop (i03 * nelements_matrix) (tj_src tj), j_chunk_size = tensor_chunk_size n_per_row,
      j_nrows = nrows, j_n_per_row = n_per_row,
      j_imatrix = map_option (drop (if tj_per_weight tj then i03 * nelements_matrix else i03 * n_per_row)) (tj_imatrix tj),
      j_per_weight = tj_per_weight tj\<rparr>)"

definition expert_offset :: "'f tensor_job \<Rightarrow> nat \<Rightarrow> nat option" where
  "expert_offset tj i03 = map_option (\<lambda>row_size. row_size * i03 * te_ne1 (tj_tensor tj)) (ggml_row_size (tj_type tj) (te_ne0 (tj_tensor tj)))"

inductive quantize_experts :: "('f quant_job \<Rightarrow> nat \<Rightarrow> bytes \<Rightarrow> (quant_error + bytes \<times> nat) option \<Rightarrow> bool) \<Rightarrow> 'f tensor_job \<Rightarrow> nat
    \<Rightarrow> nat \<Rightarrow> bytes \<Rightarrow> nat \<Rightarrow> (quant_error + bytes \<times> nat) option \<Rightarrow> bool"
  for ret :: "'f quant_job \<Rightarrow> nat \<Rightarrow> bytes \<Rightarrow> (quant_error + bytes \<times> nat) option \<Rightarrow> bool" and tj :: "'f tensor_job" and nthread :: nat where
  ex_done: "te_ne2 (tj_tensor tj) \<le> i03 \<Longrightarrow> quantize_experts ret tj nthread i03 buf new_size (Some (Inr (buf, new_size)))"
| ex_next: "i03 < te_ne2 (tj_tensor tj) \<Longrightarrow> expert_offset tj i03 = Some off \<Longrightarrow>
    ret (expert_job tj i03) nthread (drop off buf) (Some (Inr (d, sz))) \<Longrightarrow>
    quantize_experts ret tj nthread (Suc i03) (take off buf @ d) (new_size + sz) res \<Longrightarrow> quantize_experts ret tj nthread i03 buf new_size res"
| ex_throw: "i03 < te_ne2 (tj_tensor tj) \<Longrightarrow> expert_offset tj i03 = Some off \<Longrightarrow>
    ret (expert_job tj i03) nthread (drop off buf) (Some (Inl e)) \<Longrightarrow> quantize_experts ret tj nthread i03 buf new_size (Some (Inl e))"
| ex_abort: "i03 < te_ne2 (tj_tensor tj) \<Longrightarrow> expert_offset tj i03 = Some off \<Longrightarrow>
    ret (expert_job tj i03) nthread (drop off buf) None \<Longrightarrow> quantize_experts ret tj nthread i03 buf new_size None"
| ex_row_size: "i03 < te_ne2 (tj_tensor tj) \<Longrightarrow> expert_offset tj i03 = None \<Longrightarrow> quantize_experts ret tj nthread i03 buf new_size None"

text \<open>What \<^verbatim>\<open>llama_tensor_quantize_impl\<close> can return.\<close>

definition quantize_impl :: "(ggml_type \<Rightarrow> 'f list \<Rightarrow> 'f list option \<Rightarrow> bytes option) \<Rightarrow> 'f quant_job \<Rightarrow> nat \<Rightarrow> bytes
    \<Rightarrow> (quant_error + bytes \<times> nat) option \<Rightarrow> bool" where
  "quantize_impl krow j nthread dst res \<longleftrightarrow>
     (if nthread < 2 then res = quantize_single krow j dst
      else (\<exists>s. (qstep krow j)\<^sup>*\<^sup>* (q_init nthread dst) s \<and> q_joined s \<and> res = q_result s))"

text \<open>The importance data and the floats of a tensor whose new type is \<open>new_type\<close>.\<close>

definition grow :: "'x \<Rightarrow> nat \<Rightarrow> 'x list \<Rightarrow> 'x list" where
  "grow junk n xs = (if length xs < n then xs @ replicate (n - length xs) junk else xs)"

definition ggml_nelements :: "tensor \<Rightarrow> nat" where
  "ggml_nelements t = te_ne0 t * te_ne1 t * te_ne2 t * te_ne3 t"

definition prepare_tensor :: "(ggml_type \<Rightarrow> bytes \<Rightarrow> 'f list) \<Rightarrow> 'f \<Rightarrow> 'f \<Rightarrow> qmodel \<Rightarrow> quantize_params \<Rightarrow> (string \<Rightarrow> 'f list option) option
    \<Rightarrow> (nat, string) omap \<Rightarrow> ggml_type \<Rightarrow> nat \<Rightarrow> tensor \<Rightarrow> bytes \<Rightarrow> 'f list \<Rightarrow> (quant_error + 'f tensor_job) option" where
  "prepare_tensor tf one junk m p imatrix_data mapped new_type nthread t data f32_conv_buf =
     (case tensor_imatrix one m p imatrix_data mapped new_type t of
        Inl e \<Rightarrow> Some (Inl e)
      | Inr (imatrix, per_weight) \<Rightarrow>
          (let job = (\<lambda>f32_data. \<lparr>tj_type = new_type, tj_src = f32_data, tj_imatrix = imatrix, tj_per_weight = per_weight, tj_tensor = t\<rparr>) in
           if te_type t = GGML_TYPE_F32 then Some (Inr (job (tf GGML_TYPE_F32 data)))
           else if ggml_is_quantized (te_type t) \<and> \<not> qp_allow_requantize p then Some (Inl Requantize_disabled)
           else do {
             r \<leftarrow> tensor_dequantize tf (te_type t) data (ggml_nelements t) nthread (grow junk (ggml_nelements t) f32_conv_buf);
             Some (map_sum id job r)
           }))"

section \<open>Conversion by several threads\<close>

definition blocks_done :: "nat \<Rightarrow> nat \<Rightarrow> nat \<Rightarrow> nat" where
  "blocks_done nblocks nthread k = (if k < nthread then k * (nblocks div nthread) else nblocks)"

lemma blocks_done_Suc: "k < nthread \<Longrightarrow> blocks_done nb nthread (Suc k) = blocks_done nb nthread k + thr_blocks nb nthread k"
proof -
  assume k: "k < nthread"
  show ?thesis
  proof (cases "Suc k = nthread")
    case True
    then have "nb div nthread * nthread = k * (nb div nthread) + nb div nthread" by (metis mult.commute mult_Suc add.commute)
    moreover have "nb div nthread * nthread \<le> nb" by simp
    ultimately show ?thesis using True k by (auto simp: blocks_done_def thr_blocks_def)
  next
    case False
    with k have "Suc k < nthread" "k \<noteq> nthread - 1" by simp_all
    then show ?thesis by (simp add: blocks_done_def thr_blocks_def)
  qed
qed

lemma blocks_done_le: "blocks_done nb nthread k \<le> nb"
proof (cases "k < nthread")
  case True
  then have "k * (nb div nthread) \<le> nthread * (nb div nthread)" by simp
  also have "\<dots> \<le> nb" by simp
  finally show ?thesis using True by (simp add: blocks_done_def)
qed (simp add: blocks_done_def)

text \<open>A conversion kernel works block by block.\<close>

definition blockwise :: "(ggml_type \<Rightarrow> bytes \<Rightarrow> 'f list) \<Rightarrow> ggml_type \<Rightarrow> bool" where
  "blockwise tf t \<longleftrightarrow>
     (\<forall>xs ys. ggml_type_size t dvd length xs \<longrightarrow> ggml_type_size t dvd length ys \<longrightarrow> tf t (xs @ ys) = tf t xs @ tf t ys) \<and>
     (\<forall>xs. ggml_type_size t dvd length xs \<longrightarrow> length (tf t xs) = length xs div ggml_type_size t * ggml_blck_size t)"

lemma blockwise_length: "blockwise tf t \<Longrightarrow> ggml_type_size t \<noteq> 0 \<Longrightarrow> length xs = n * ggml_type_size t \<Longrightarrow> length (tf t xs) = n * ggml_blck_size t"
  by (simp add: blockwise_def)

lemma dequantize_part:
  assumes tf: "blockwise tf t" "ggml_type_size t \<noteq> 0" and le: "a + b \<le> nb" and data: "nb * ggml_type_size t \<le> length data"
    and out: "nb * ggml_blck_size t \<le> length out"
    and now: "out' = tf t (take (a * ggml_type_size t) data) @ drop (a * ggml_blck_size t) out"
  shows "read_at (a * ggml_type_size t) (b * ggml_type_size t) data = Some (take (b * ggml_type_size t) (drop (a * ggml_type_size t) data))"
    and "write_at (a * ggml_blck_size t) (tf t (take (b * ggml_type_size t) (drop (a * ggml_type_size t) data))) out'
      = Some (tf t (take ((a + b) * ggml_type_size t) data) @ drop ((a + b) * ggml_blck_size t) out)"
proof -
  let ?ts = "ggml_type_size t" and ?bs = "ggml_blck_size t"
  have d: "(a + b) * ?ts \<le> length data" using mult_le_mono1 [OF le, of ?ts] data by (rule le_trans)
  have o: "(a + b) * ?bs \<le> length out" using mult_le_mono1 [OF le, of ?bs] out by (rule le_trans)
  show "read_at (a * ?ts) (b * ?ts) data = Some (take (b * ?ts) (drop (a * ?ts) data))"
    using d by (simp add: read_at_def add_mult_distrib)
  let ?xs = "take (a * ?ts) data" and ?ys = "take (b * ?ts) (drop (a * ?ts) data)"
  have lx: "length ?xs = a * ?ts" and ly: "length ?ys = b * ?ts" using d by (simp_all add: add_mult_distrib)
  have tx: "length (tf t ?xs) = a * ?bs" and ty: "length (tf t ?ys) = b * ?bs"
    using blockwise_length [OF tf lx] blockwise_length [OF tf ly] by simp_all
  have "take ((a + b) * ?ts) data = ?xs @ ?ys" by (simp add: add_mult_distrib take_add)
  then have app: "tf t (take ((a + b) * ?ts) data) = tf t ?xs @ tf t ?ys"
    using tf(1) lx ly unfolding blockwise_def by simp
  show "write_at (a * ?bs) (tf t ?ys) out' = Some (tf t (take ((a + b) * ?ts) data) @ drop ((a + b) * ?bs) out)"
    using o unfolding now app by (simp add: write_at_def tx ty add_mult_distrib add.commute)
qed

lemma dequantize_threads:
  assumes t: "ggml_is_quantized t \<and> has_to_float t \<or> t = GGML_TYPE_F16 \<or> t = GGML_TYPE_BF16"
    and tf: "blockwise tf t" "ggml_type_size t \<noteq> 0" "ggml_blck_size t \<noteq> 0"
    and ne: "nelements = nb * ggml_blck_size t"
    and data: "nb * ggml_type_size t \<le> length data" and out: "nelements \<le> length out"
    and fits: "nthread < 2 \<or> int ((nb div nthread + nb mod nthread) * ggml_blck_size t) \<le> int32_max"
  shows "tensor_dequantize tf t data nelements nthread out
    = Some (Inr (tf t (take (nb * ggml_type_size t) data) @ drop nelements out))"
proof -
  let ?ts = "ggml_type_size t" and ?bs = "ggml_blck_size t"
  have bs: "(if t = GGML_TYPE_F16 \<or> t = GGML_TYPE_BF16 then 1 else ?bs) = ?bs"
    by (auto simp: ggml_blck_size_def type_traits_def type_traits_iq_def)
  have e: "\<not> (ggml_is_quantized t \<and> \<not> has_to_float t)" "\<not> (\<not> ggml_is_quantized t \<and> t \<noteq> GGML_TYPE_F16 \<and> t \<noteq> GGML_TYPE_BF16)"
    using t by (auto simp: has_to_float_def)
  have g: "guard (?bs \<noteq> 0 \<and> nelements mod ?bs = 0) = Some ()" and nb: "nelements div ?bs = nb"
    using tf(3) ne by simp_all
  have nil: "tf t [] = []" using blockwise_length [OF tf(1,2), of "[]" 0] by simp
  define body where "body = (\<lambda>tnum (in_offs, out_offs, out). do {
      let blocks = thr_blocks nb nthread tnum;
      guard (int (blocks * ?bs) \<le> int32_max);
      inbuf \<leftarrow> read_at in_offs (blocks * ?ts) data;
      out' \<leftarrow> write_at out_offs (tf t inbuf) out;
      Some (in_offs + blocks * ?ts, out_offs + blocks * ?bs, out')
    })"
  have def: "tensor_dequantize tf t data nelements nthread out =
      (if nthread < 2 then do {
          inbuf \<leftarrow> read_at 0 (nb * ?ts) data; out' \<leftarrow> write_at 0 (tf t inbuf) out; Some (Inr out') }
       else do { (in_offs, out_offs, out') \<leftarrow> foldM body [0..<nthread] (0, 0, out); Some (Inr out') })"
    unfolding tensor_dequantize_def if_not_P [OF e(1)] if_not_P [OF e(2)] bs Let_def nb g body_def by simp
  show ?thesis
  proof (cases "nthread < 2")
    case True
    have "write_at 0 (tf t (take (nb * ?ts) data)) out = Some (tf t (take (nb * ?ts) data) @ drop nelements out)"
      using dequantize_part(2) [OF tf(1,2), of 0 nb nb data out out] data out ne nil by simp
    then show ?thesis using True data by (simp add: def read_at_def)
  next
    case False
    let ?c = "blocks_done nb nthread"
    have "wp (foldM body [0..<nthread] (0, 0, out))
        (\<lambda>s. s = (?c nthread * ?ts, ?c nthread * ?bs, tf t (take (?c nthread * ?ts) data) @ drop (?c nthread * ?bs) out))"
    proof (rule wp_foldM_upt [where P = "\<lambda>k s. s = (?c k * ?ts, ?c k * ?bs, tf t (take (?c k * ?ts) data) @ drop (?c k * ?bs) out)"])
      show "(0, 0, out) = (?c 0 * ?ts, ?c 0 * ?bs, tf t (take (?c 0 * ?ts) data) @ drop (?c 0 * ?bs) out)"
        using False nil by (simp add: blocks_done_def)
    next
      fix k s assume k: "k < nthread" and s: "s = (?c k * ?ts, ?c k * ?bs, tf t (take (?c k * ?ts) data) @ drop (?c k * ?bs) out)"
      let ?b = "thr_blocks nb nthread k"
      have sum: "?c (Suc k) = ?c k + ?b" using k by (rule blocks_done_Suc)
      have le: "?c k + ?b \<le> nb" using blocks_done_le [of nb nthread "Suc k"] sum by simp
      note part = dequantize_part [OF tf(1,2) le data, of out "tf t (take (?c k * ?ts) data) @ drop (?c k * ?bs) out"]
      have "?b \<le> nb div nthread + nb mod nthread"
        by (simp add: thr_blocks_def minus_div_mult_eq_mod)
      then have "?b * ?bs \<le> (nb div nthread + nb mod nthread) * ?bs" by (rule mult_le_mono1)
      then have "int (?b * ?bs) \<le> int32_max" using fits False by linarith
      then show "wp (body k s) (\<lambda>s. s = (?c (Suc k) * ?ts, ?c (Suc k) * ?bs, tf t (take (?c (Suc k) * ?ts) data) @ drop (?c (Suc k) * ?bs) out))"
        using part out ne by (simp add: body_def s sum add_mult_distrib Let_def)
    qed
    then have "foldM body [0..<nthread] (0, 0, out) = Some (nb * ?ts, nelements, tf t (take (nb * ?ts) data) @ drop nelements out)"
      using ne by (auto simp: blocks_done_def elim!: wpE)
    then show ?thesis using False unfolding def by simp
  qed
qed

section \<open>The loop over the experts\<close>

text \<open>
  What the loop needs of the quantization of one matrix: on a proper job it returns, and what it returns is
  what one thread returns.
\<close>

locale matrix_quantizer =
  fixes krow :: "ggml_type \<Rightarrow> 'f list \<Rightarrow> 'f list option \<Rightarrow> bytes option"
    and ret :: "'f quant_job \<Rightarrow> nat \<Rightarrow> bytes \<Rightarrow> (quant_error + bytes \<times> nat) option \<Rightarrow> bool"
  assumes returns: "job_ok krow j rs \<Longrightarrow> j_nrows j * rs \<le> length dst \<Longrightarrow> j_n_per_row j \<le> j_chunk_size j \<Longrightarrow> \<exists>res. ret j nthread dst res"
    and result: "job_ok krow j rs \<Longrightarrow> j_nrows j * rs \<le> length dst \<Longrightarrow> j_n_per_row j \<le> j_chunk_size j \<Longrightarrow> ret j nthread dst res \<Longrightarrow>
      res = quantize_single krow j dst"

text \<open>The reference: row \<open>r\<close> of expert \<open>i\<close> is row \<open>i * ne1 + r\<close> of the tensor, quantized with the weights of that row or
  with the column weights of the expert.\<close>

definition tensor_call :: "(ggml_type \<Rightarrow> 'f list \<Rightarrow> 'f list option \<Rightarrow> bytes option) \<Rightarrow> 'f tensor_job \<Rightarrow> nat \<Rightarrow> nat \<Rightarrow> bytes option" where
  "tensor_call krow tj i r = (let n = te_ne0 (tj_tensor tj); row = i * te_ne1 (tj_tensor tj) + r in
     krow (tj_type tj) (take n (drop (row * n) (tj_src tj)))
       (map_option (\<lambda>w. take n (drop (if tj_per_weight tj then row * n else i * n) w)) (tj_imatrix tj)))"

definition tensor_row :: "(ggml_type \<Rightarrow> 'f list \<Rightarrow> 'f list option \<Rightarrow> bytes option) \<Rightarrow> 'f tensor_job \<Rightarrow> nat \<Rightarrow> nat \<Rightarrow> bytes" where
  "tensor_row krow tj i r = the (tensor_call krow tj i r)"

text \<open>Every row of the tensor is one the row kernel returns on.\<close>

definition rows_return :: "(ggml_type \<Rightarrow> 'f list \<Rightarrow> 'f list option \<Rightarrow> bytes option) \<Rightarrow> 'f tensor_job \<Rightarrow> nat \<Rightarrow> bool" where
  "rows_return krow tj rs \<longleftrightarrow> (\<forall>i < te_ne2 (tj_tensor tj). \<forall>r < te_ne1 (tj_tensor tj). \<exists>b. tensor_call krow tj i r = Some b \<and> length b = rs)"

definition expert_bytes :: "(ggml_type \<Rightarrow> 'f list \<Rightarrow> 'f list option \<Rightarrow> bytes option) \<Rightarrow> 'f tensor_job \<Rightarrow> nat \<Rightarrow> bytes" where
  "expert_bytes krow tj i = concat (map (tensor_row krow tj i) [0..<te_ne1 (tj_tensor tj)])"

definition expert_valid :: "(ggml_type \<Rightarrow> 'f list \<Rightarrow> 'f list option \<Rightarrow> bytes option) \<Rightarrow> 'f tensor_job \<Rightarrow> nat \<Rightarrow> bool" where
  "expert_valid krow tj i \<longleftrightarrow> (\<forall>r < te_ne1 (tj_tensor tj). row_valid (tj_type tj) (tensor_row krow tj i r))"

definition tensor_job_ok :: "(ggml_type \<Rightarrow> 'f list \<Rightarrow> 'f list option \<Rightarrow> bytes option) \<Rightarrow> 'f tensor_job \<Rightarrow> nat \<Rightarrow> bool" where
  "tensor_job_ok krow tj rs \<longleftrightarrow> (\<forall>i < te_ne2 (tj_tensor tj). job_ok krow (expert_job tj i) rs)"

lemma expert_job_simps [simp]:
  "j_type (expert_job tj i) = tj_type tj" "j_nrows (expert_job tj i) = te_ne1 (tj_tensor tj)"
  "j_n_per_row (expert_job tj i) = te_ne0 (tj_tensor tj)" "j_chunk_size (expert_job tj i) = tensor_chunk_size (te_ne0 (tj_tensor tj))"
  by (simp_all add: expert_job_def Let_def)

lemma row_call_expert: "row_call krow (expert_job tj i) = tensor_call krow tj i"
proof
  fix r
  have "(i * te_ne1 (tj_tensor tj) + r) * te_ne0 (tj_tensor tj) = r * te_ne0 (tj_tensor tj) + i * (te_ne0 (tj_tensor tj) * te_ne1 (tj_tensor tj))"
    by (simp add: algebra_simps)
  then show "row_call krow (expert_job tj i) r = tensor_call krow tj i r"
    by (simp add: row_call_def tensor_call_def expert_job_def Let_def option.map_comp comp_def)
qed

lemma row_bytes_expert: "row_bytes krow (expert_job tj i) = tensor_row krow tj i"
  by (simp add: fun_eq_iff row_bytes_def tensor_row_def row_call_expert)

lemma chunk_size_ge: "0 < n \<Longrightarrow> n \<le> tensor_chunk_size n"
proof -
  assume n: "0 < n"
  show ?thesis
  proof (cases "min_chunk_size \<le> n")
    case False
    have "n * 1 \<le> n * ((min_chunk_size + n - 1) div n)"
      using n False by (intro mult_le_mono2) (simp add: div_greater_zero_iff Suc_le_eq min_chunk_size_def)
    then show ?thesis using False by (simp add: tensor_chunk_size_def)
  qed (simp add: tensor_chunk_size_def)
qed

lemma drop_split: "b \<le> a \<Longrightarrow> drop (a - b) (drop b xs) = drop a xs"
  by simp

lemma experts_fit: "i < n \<Longrightarrow> n * k \<le> length buf \<Longrightarrow> k \<le> length (drop (i * k) buf)"
proof -
  assume "i < n" "n * k \<le> length buf"
  then have "i * k + k \<le> length buf" using row_le [of i n k] by linarith
  then show ?thesis by simp
qed

lemma expert_step:
  assumes ok: "job_ok krow (expert_job tj i) rs" and i: "i < te_ne2 (tj_tensor tj)" and len: "te_ne2 (tj_tensor tj) * (te_ne1 (tj_tensor tj) * rs) \<le> length buf"
  shows "expert_offset tj i = Some (i * (te_ne1 (tj_tensor tj) * rs))"
    and "te_ne1 (tj_tensor tj) * rs \<le> length (drop (i * (te_ne1 (tj_tensor tj) * rs)) buf)"
    and "quantize_single krow (expert_job tj i) (drop (i * (te_ne1 (tj_tensor tj) * rs)) buf) =
      Some (if expert_valid krow tj i
            then Inr (expert_bytes krow tj i @ drop (Suc i * (te_ne1 (tj_tensor tj) * rs)) buf, te_ne1 (tj_tensor tj) * rs)
            else Inl Validation_failed)"
    and "length (expert_bytes krow tj i) = te_ne1 (tj_tensor tj) * rs"
proof -
  let ?k = "te_ne1 (tj_tensor tj) * rs"
  show "expert_offset tj i = Some (i * ?k)"
    using job_okD(1) [OF ok] by (simp add: expert_offset_def)
  show l: "?k \<le> length (drop (i * ?k) buf)" by (rule experts_fit [OF i len])
  show "quantize_single krow (expert_job tj i) (drop (i * ?k) buf) =
      Some (if expert_valid krow tj i then Inr (expert_bytes krow tj i @ drop (Suc i * ?k) buf, ?k) else Inl Validation_failed)"
    using single_eq [OF ok, of "drop (i * ?k) buf"] l by (simp add: expert_valid_def expert_bytes_def row_bytes_expert)
  show "length (expert_bytes krow tj i) = ?k"
    using length_rows [OF ok, of 0] by (simp add: expert_bytes_def row_bytes_expert)
qed

context matrix_quantizer
begin

lemma expert_result:
  assumes "tensor_job_ok krow tj rs" "i < te_ne2 (tj_tensor tj)" "te_ne2 (tj_tensor tj) * (te_ne1 (tj_tensor tj) * rs) \<le> length buf"
    and "ret (expert_job tj i) nthread (drop (i * (te_ne1 (tj_tensor tj) * rs)) buf) res"
  shows "res = quantize_single krow (expert_job tj i) (drop (i * (te_ne1 (tj_tensor tj) * rs)) buf)"
proof -
  have ok: "job_ok krow (expert_job tj i) rs" using assms(1,2) by (simp add: tensor_job_ok_def)
  from job_okD(2) [OF ok] expert_step(2) [OF ok assms(2,3)] show ?thesis
    using result [OF ok _ _ assms(4)] chunk_size_ge by simp
qed

lemma experts_from:
  assumes "quantize_experts ret tj nthread i buf sz0 res" "tensor_job_ok krow tj rs"
    and "te_ne2 (tj_tensor tj) * (te_ne1 (tj_tensor tj) * rs) \<le> length buf" "i \<le> te_ne2 (tj_tensor tj)"
  shows "res = Some (if \<forall>k. i \<le> k \<and> k < te_ne2 (tj_tensor tj) \<longrightarrow> expert_valid krow tj k
      then Inr (take (i * (te_ne1 (tj_tensor tj) * rs)) buf @ concat (map (expert_bytes krow tj) [i..<te_ne2 (tj_tensor tj)])
          @ drop (te_ne2 (tj_tensor tj) * (te_ne1 (tj_tensor tj) * rs)) buf,
        sz0 + (te_ne2 (tj_tensor tj) - i) * (te_ne1 (tj_tensor tj) * rs))
      else Inl Validation_failed)"
  using assms
proof (induction rule: quantize_experts.induct)
  case (ex_done i buf sz0)
  then have "i = te_ne2 (tj_tensor tj)" by simp
  then show ?case by simp
next
  case (ex_next i off buf d sz sz0 res)
  let ?n = "te_ne2 (tj_tensor tj)" and ?k = "te_ne1 (tj_tensor tj) * rs"
  have ok: "job_ok krow (expert_job tj i) rs" using ex_next by (simp add: tensor_job_ok_def)
  note step = expert_step [OF ok ex_next.hyps(1) ex_next.prems(2)]
  have off: "off = i * ?k" using step(1) ex_next.hyps(2) by simp
  have r: "Some (Inr (d, sz)) = quantize_single krow (expert_job tj i) (drop (i * ?k) buf)"
    using expert_result [OF ex_next.prems(1) ex_next.hyps(1) ex_next.prems(2), of nthread] ex_next.hyps(3) off by simp
  have v: "expert_valid krow tj i" and d: "d = expert_bytes krow tj i @ drop (Suc i * ?k) buf" and sz: "sz = ?k"
    using r unfolding step(3) by (simp_all split: if_splits)
  have fit: "i * ?k + ?k \<le> length buf" using row_le [OF ex_next.hyps(1), of ?k] ex_next.prems(2) by simp
  let ?buf = "take off buf @ d"
  have len: "length ?buf = length buf"
    using fit by (simp add: d off step(4))
  have "res = Some (if \<forall>k. Suc i \<le> k \<and> k < ?n \<longrightarrow> expert_valid krow tj k
      then Inr (take (Suc i * ?k) ?buf @ concat (map (expert_bytes krow tj) [Suc i..<?n]) @ drop (?n * ?k) ?buf,
        sz0 + sz + (?n - Suc i) * ?k)
      else Inl Validation_failed)"
    using ex_next.IH [OF ex_next.prems(1)] ex_next.prems(2) ex_next.hyps(1) len by simp
  moreover have "(\<forall>k. Suc i \<le> k \<and> k < ?n \<longrightarrow> expert_valid krow tj k) \<longleftrightarrow> (\<forall>k. i \<le> k \<and> k < ?n \<longrightarrow> expert_valid krow tj k)"
    using v by (metis Suc_leI Suc_leD le_neq_implies_less)
  moreover have "take (Suc i * ?k) ?buf = take (i * ?k) buf @ expert_bytes krow tj i"
    using fit step(4) by (simp add: d off)
  moreover have "drop (?n * ?k) ?buf = drop (?n * ?k) buf"
  proof -
    have le: "Suc i * ?k \<le> ?n * ?k" using ex_next.hyps(1) by (intro mult_le_mono1) simp
    have "drop (?n * ?k) ?buf = drop (?n * ?k - Suc i * ?k) (drop (Suc i * ?k) ?buf)" by (rule drop_split [OF le, symmetric])
    also have "drop (Suc i * ?k) ?buf = drop (Suc i * ?k) buf" using fit step(4) by (simp add: d off)
    finally show ?thesis using drop_split [OF le] by simp
  qed
  moreover have "[i..<?n] = i # [Suc i..<?n]" using ex_next.hyps(1) by (rule upt_conv_Cons)
  moreover have "sz + (?n - Suc i) * ?k = (?n - i) * ?k"
    using ex_next.hyps(1) sz by (metis Suc_diff_Suc mult_Suc)
  ultimately show ?case by simp
next
  case (ex_throw i off buf e sz0)
  then have ok: "job_ok krow (expert_job tj i) rs" by (simp add: tensor_job_ok_def)
  note step = expert_step [OF ok ex_throw.hyps(1) ex_throw.prems(2)]
  have "Some (Inl e) = quantize_single krow (expert_job tj i) (drop (i * (te_ne1 (tj_tensor tj) * rs)) buf)"
    using expert_result [OF ex_throw.prems(1) ex_throw.hyps(1) ex_throw.prems(2), of nthread] ex_throw.hyps(2,3) step(1) by simp
  then have "\<not> expert_valid krow tj i" "e = Validation_failed" unfolding step(3) by (auto split: if_splits)
  then show ?case using ex_throw.hyps(1) by auto
next
  case (ex_abort i off buf sz0)
  then have ok: "job_ok krow (expert_job tj i) rs" by (simp add: tensor_job_ok_def)
  note step = expert_step [OF ok ex_abort.hyps(1) ex_abort.prems(2)]
  have "None = quantize_single krow (expert_job tj i) (drop (i * (te_ne1 (tj_tensor tj) * rs)) buf)"
    using expert_result [OF ex_abort.prems(1) ex_abort.hyps(1) ex_abort.prems(2), of nthread] ex_abort.hyps(2,3) step(1) by simp
  then show ?case unfolding step(3) by simp
next
  case (ex_row_size i buf sz0)
  then have ok: "job_ok krow (expert_job tj i) rs" by (simp add: tensor_job_ok_def)
  show ?case using expert_step(1) [OF ok ex_row_size.hyps(1) ex_row_size.prems(2)] ex_row_size.hyps(2) by simp
qed

lemma experts_return:
  assumes ok: "tensor_job_ok krow tj rs" and len: "te_ne2 (tj_tensor tj) * (te_ne1 (tj_tensor tj) * rs) \<le> length buf"
    and i: "i \<le> te_ne2 (tj_tensor tj)"
  shows "\<exists>res. quantize_experts ret tj nthread i buf sz0 res"
  using len i
proof (induction "te_ne2 (tj_tensor tj) - i" arbitrary: i buf sz0)
  case 0
  then show ?case by (intro exI) (rule ex_done, simp)
next
  case (Suc n)
  let ?k = "te_ne1 (tj_tensor tj) * rs"
  have i: "i < te_ne2 (tj_tensor tj)" using Suc.hyps(2) by simp
  have jo: "job_ok krow (expert_job tj i) rs" using ok i by (simp add: tensor_job_ok_def)
  note step = expert_step [OF jo i Suc.prems(1)]
  obtain r where r: "ret (expert_job tj i) nthread (drop (i * ?k) buf) r"
    using returns [OF jo, of "drop (i * ?k) buf" nthread] step(2) chunk_size_ge job_okD(2) [OF jo] by auto
  have rq: "r = quantize_single krow (expert_job tj i) (drop (i * ?k) buf)"
    by (rule expert_result [OF ok i Suc.prems(1) r])
  show ?case
  proof (cases "expert_valid krow tj i")
    case True
    let ?buf = "take (i * ?k) buf @ expert_bytes krow tj i @ drop (Suc i * ?k) buf"
    have "i * ?k + ?k \<le> length buf" using row_le [OF i, of ?k] Suc.prems(1) by simp
    then have "length ?buf = length buf" by (simp add: step(4))
    then have fit: "te_ne2 (tj_tensor tj) * ?k \<le> length ?buf" using Suc.prems(1) by (simp only:)
    have "n = te_ne2 (tj_tensor tj) - Suc i" "Suc i \<le> te_ne2 (tj_tensor tj)" using Suc.hyps(2) i by simp_all
    then obtain res where "quantize_experts ret tj nthread (Suc i) ?buf (sz0 + ?k) res"
      using Suc.hyps(1) fit by blast
    moreover have "ret (expert_job tj i) nthread (drop (i * ?k) buf) (Some (Inr (expert_bytes krow tj i @ drop (Suc i * ?k) buf, ?k)))"
      using r True unfolding rq step(3) by simp
    ultimately show ?thesis using ex_next [OF i step(1)] by blast
  next
    case False
    then show ?thesis
      using ex_throw [OF i step(1), of ret nthread buf] r unfolding rq step(3) by auto
  qed
qed

end

interpretation impl: matrix_quantizer krow "quantize_impl krow" for krow :: "ggml_type \<Rightarrow> 'f list \<Rightarrow> 'f list option \<Rightarrow> bytes option"
proof
  fix j :: "'f quant_job" and rs nthread and dst :: bytes and res
  assume ok: "job_ok krow j rs" and len: "j_nrows j * rs \<le> length dst" and ch: "j_n_per_row j \<le> j_chunk_size j"
  have pos: "0 < nrows_per_chunk j"
    using job_okD(2) [OF ok] ch by (simp add: nrows_per_chunk_def div_greater_zero_iff)
  show "\<exists>res. quantize_impl krow j nthread dst res"
    using q_finishes [OF pos, of krow "q_init nthread dst"] unfolding quantize_impl_def by (cases "nthread < 2") auto
  assume "quantize_impl krow j nthread dst res"
  then show "res = quantize_single krow j dst"
    using joined_eq [OF ok len pos, of nthread] by (cases "nthread < 2") (auto simp: quantize_impl_def)
qed

section \<open>A whole tensor\<close>

definition shape_ok :: "tensor \<Rightarrow> bool" where
  "shape_ok t \<longleftrightarrow> 0 < te_ne0 t \<and> 0 < te_ne1 t \<and> 0 < te_ne2 t \<and> 0 < te_ne3 t"

lemma expert_part: "i < c \<Longrightarrow> i * (a * b) + b * a \<le> a * b * c" for a b c i :: nat
  using row_le [of i c "a * b"] by (simp add: mult.commute)

lemma expert_fits:
  assumes "i < te_ne2 t" "shape_ok t"
  shows "i * (te_ne0 t * te_ne1 t) + te_ne1 t * te_ne0 t \<le> ggml_nelements t"
proof -
  have "te_ne0 t * te_ne1 t * te_ne2 t * 1 \<le> te_ne0 t * te_ne1 t * te_ne2 t * te_ne3 t"
    using assms(2) by (intro mult_le_mono2) (simp add: shape_ok_def)
  with expert_part [OF assms(1), of "te_ne0 t" "te_ne1 t"] show ?thesis
    unfolding ggml_nelements_def mult_1_right by (rule le_trans)
qed

lemma choose_imatrix_length:
  "choose_imatrix m imatrix_data mapped t = Inr (Some w, pw) \<Longrightarrow>
    length w = (if pw then te_ne0 t * te_ne1 t * te_ne2 t else te_ne0 t * te_ne2 t)"
  by (auto simp: choose_imatrix_def split: option.splits sum.splits if_splits)

lemma tensor_imatrix_length:
  assumes "tensor_imatrix one m p imatrix_data mapped nt t = Inr (Some w, pw)"
  shows "length w = (if pw then te_ne0 t * te_ne1 t * te_ne2 t else te_ne0 t * te_ne2 t)"
  using assms choose_imatrix_length [of m imatrix_data mapped t]
  by (auto simp: tensor_imatrix_def split: sum.splits if_splits)

lemma tensor_imatrix_per_weight: "tensor_imatrix one m p imatrix_data mapped nt t = Inr (im, True) \<Longrightarrow> im \<noteq> None"
  by (auto simp: tensor_imatrix_def choose_imatrix_def split: sum.splits option.splits if_splits)

lemma tensor_imatrix_given:
  assumes "tensor_imatrix one m p imatrix_data mapped nt t = Inr (im, pw)" "ggml_quantize_requires_imatrix nt"
  shows "im \<noteq> None"
  using assms by (auto simp: tensor_imatrix_def wants_imatrix_def ggml_quantize_requires_imatrix_def split: sum.splits if_splits)

text \<open>What \<open>prepare_tensor\<close> leaves: floats for every element, importance data of the right length.\<close>

lemma prepared_ok:
  assumes prep: "prepare_tensor tf one junk m p imatrix_data mapped nt nthread t data buf = Some (Inr tj)"
    and floats: "ggml_nelements t \<le> length (tj_src tj)" and shape: "shape_ok t"
    and nt: "quantizable nt" "ggml_row_size nt (te_ne0 t) = Some rs"
    and rows: "rows_return krow tj rs"
  shows "tensor_job_ok krow tj rs \<and> tj_tensor tj = t \<and> tj_type tj = nt"
proof -
  obtain im pw where im: "tensor_imatrix one m p imatrix_data mapped nt t = Inr (im, pw)"
    and tj: "tj_tensor tj = t" "tj_type tj = nt" "tj_imatrix tj = im" "tj_per_weight tj = pw"
    using prep by (auto simp: prepare_tensor_def Let_def split: sum.splits if_splits bind_splits)
       (auto simp: map_sum_def split: sum.splits)
  have "job_ok krow (expert_job tj i) rs" if i: "i < te_ne2 t" for i
  proof -
    have "te_ne1 t * te_ne0 t \<le> length (drop (i * (te_ne0 t * te_ne1 t)) (tj_src tj))"
      using expert_fits [OF i shape] floats by simp
    moreover have "case map_option (drop (if pw then i * (te_ne0 t * te_ne1 t) else i * te_ne0 t)) im of None \<Rightarrow> True
      | Some w \<Rightarrow> if pw then te_ne1 t * te_ne0 t \<le> length w else te_ne0 t \<le> length w"
    proof (cases im)
      case (Some w)
      note len = tensor_imatrix_length [OF im [unfolded Some]]
      show ?thesis
      proof (cases pw)
        case True
        then show ?thesis using Some len expert_part [OF i, of "te_ne0 t" "te_ne1 t"] by simp
      next
        case False
        then show ?thesis using Some len row_le [OF i, of "te_ne0 t"] by (simp add: mult.commute)
      qed
    qed simp
    moreover have "ggml_quantize_requires_imatrix nt \<Longrightarrow> im \<noteq> None" by (rule tensor_imatrix_given [OF im])
    ultimately show ?thesis
      using nt shape rows [unfolded rows_return_def tj, rule_format, OF i]
      unfolding job_ok_def row_call_expert by (cases pw) (simp_all add: expert_job_def Let_def tj shape_ok_def split: option.splits)
  qed
  then show ?thesis by (simp add: tensor_job_ok_def tj)
qed

lemma quantizable_size: "quantizable t \<Longrightarrow> ggml_type_size t \<le> 4 * ggml_blck_size t"
  by (cases t) (simp_all add: quantizable_def ggml_type_size_def ggml_blck_size_def type_traits_def type_traits_iq_def)

lemma row_size_le:
  assumes "quantizable t" "ggml_row_size t n = Some rs"
  shows "rs \<le> 4 * n"
proof -
  have b: "ggml_blck_size t \<noteq> 0" and m: "n mod ggml_blck_size t = 0"
    using assms(2) by (auto simp: ggml_row_size_def guard_def split: if_splits)
  then have "rs = ggml_type_size t * (n div ggml_blck_size t)"
    using assms(2) ggml_row_size_fits by simp
  also have "\<dots> \<le> 4 * ggml_blck_size t * (n div ggml_blck_size t)"
    using quantizable_size [OF assms(1)] by (rule mult_le_mono1)
  also have "\<dots> = 4 * n" using m by (simp add: mult.assoc) (metis dvd_eq_mod_eq_0 dvd_mult_div_cancel)
  finally show ?thesis .
qed

lemma work_fits:
  assumes "quantizable nt" "ggml_row_size nt (te_ne0 t) = Some rs" "shape_ok t" "ggml_nelements t * 4 \<le> length work"
  shows "te_ne2 t * (te_ne1 t * rs) \<le> length work"
proof -
  have "te_ne2 t * (te_ne1 t * rs) \<le> te_ne2 t * (te_ne1 t * (4 * te_ne0 t))"
    using row_size_le [OF assms(1,2)] by (intro mult_le_mono2)
  also have "\<dots> = te_ne0 t * te_ne1 t * te_ne2 t * 4" by (simp add: ac_simps)
  also have "\<dots> \<le> te_ne0 t * te_ne1 t * te_ne2 t * te_ne3 t * 4"
    using assms(3) by (simp add: shape_ok_def)
  finally show ?thesis using assms(4) unfolding ggml_nelements_def by (rule le_trans)
qed

section \<open>Properties\<close>

text \<open>Converting a tensor to floats with several threads gives what one thread gives: the parts of the
  threads cover every block once, the spare blocks go to the last thread, and offsets of input and output agree,
  when the conversion kernel works block by block and no thread's element count exceeds an \<^verbatim>\<open>int\<close>.\<close>

theorem dequantize_threads_same:
  assumes "ggml_is_quantized t \<and> has_to_float t \<or> t = GGML_TYPE_F16 \<or> t = GGML_TYPE_BF16"
    and "blockwise tf t" "ggml_type_size t \<noteq> 0" "ggml_blck_size t \<noteq> 0"
    and "nelements = nb * ggml_blck_size t" "nb * ggml_type_size t \<le> length data" "nelements \<le> length out"
    and "int ((nb div nthread + nb mod nthread) * ggml_blck_size t) \<le> int32_max"
  shows "tensor_dequantize tf t data nelements nthread out = tensor_dequantize tf t data nelements 1 out"
    using dequantize_threads [OF assms(1-7), of nthread] dequantize_threads [OF assms(1-7), of 1] assms(8) by simp

definition demo_tf :: "ggml_type \<Rightarrow> bytes \<Rightarrow> nat list" where
  "demo_tf t xs = replicate (length xs div ggml_type_size t * ggml_blck_size t) 1"

lemma demo_tf_blockwise: "blockwise demo_tf t"
  by (auto simp: blockwise_def demo_tf_def replicate_add [symmetric] add_mult_distrib [symmetric] div_plus_div_distrib_dvd_left)

lemma demo_q4_0: "ggml_type_size GGML_TYPE_Q4_0 = 18" "ggml_blck_size GGML_TYPE_Q4_0 = 32" "ggml_is_quantized GGML_TYPE_Q4_0" "has_to_float GGML_TYPE_Q4_0"
  by (simp_all add: ggml_type_size_def ggml_blck_size_def ggml_is_quantized_def type_traits_def has_to_float_def)

theorem dequantize_threads_same_witness:
  "tensor_dequantize demo_tf GGML_TYPE_Q4_0 (replicate 90 7) 160 2 (replicate 160 0)
    = tensor_dequantize demo_tf GGML_TYPE_Q4_0 (replicate 90 7) 160 1 (replicate 160 0)"
  by (rule dequantize_threads_same [where nb = 5]) (simp_all add: demo_q4_0 demo_tf_blockwise int32_max_def)

text \<open>C6: Quantizing a tensor whose importance data was accepted and whose data was converted to floats (\<open>prepare_tensor\<close> returned it), to
  a type that divides its rows, when the row kernel returns on each of its rows.  Whatever the number of
  threads and their schedule, the loop over the experts returns, no assertion of the loop, of its chunks or of \<^verbatim>\<open>ggml_quantize_chunk\<close> fails (the importance
  data the type needs is there and long enough, chunks are whole rows, the work buffer of four bytes an element is large enough), and the
  result is the rows of all experts in order, each quantized with its own importance data, \<^verbatim>\<open>row_size * ne1 * ne2\<close> bytes, or the report of a failed
  validation if a row has a scale that is not finite.\<close>

theorem tensor_quantized:
  assumes "prepare_tensor tf one junk m p imatrix_data mapped nt nthread t data buf = Some (Inr tj)"
    and "ggml_nelements t \<le> length (tj_src tj)" "shape_ok t"
    and "quantizable nt" "ggml_row_size nt (te_ne0 t) = Some rs" "rows_return krow tj rs"
    and "ggml_nelements t * 4 \<le> length work"
  shows "(\<exists>res. quantize_experts (quantize_impl krow) tj (nthread_use nthread t) 0 work 0 res) \<and>
    (\<forall>res. quantize_experts (quantize_impl krow) tj (nthread_use nthread t) 0 work 0 res \<longrightarrow>
      res = Some (if \<forall>i < te_ne2 t. expert_valid krow tj i
        then Inr (concat (map (expert_bytes krow tj) [0..<te_ne2 t]) @ drop (te_ne2 t * (te_ne1 t * rs)) work, te_ne2 t * (te_ne1 t * rs))
        else Inl Validation_failed))"
proof -
  have ok: "tensor_job_ok krow tj rs" and t: "tj_tensor tj = t"
    using prepared_ok [where krow = krow, OF assms(1-6)] by simp_all
  have len: "te_ne2 (tj_tensor tj) * (te_ne1 (tj_tensor tj) * rs) \<le> length work"
    unfolding t by (rule work_fits [OF assms(4,5,3,7)])
  show ?thesis
  proof (intro conjI allI impI)
    show "\<exists>res. quantize_experts (quantize_impl krow) tj (nthread_use nthread t) 0 work 0 res"
      by (rule impl.experts_return [OF ok len]) simp
  next
    fix res assume "quantize_experts (quantize_impl krow) tj (nthread_use nthread t) 0 work 0 res"
    from impl.experts_from [OF this ok len] show "res = Some (if \<forall>i < te_ne2 t. expert_valid krow tj i
        then Inr (concat (map (expert_bytes krow tj) [0..<te_ne2 t]) @ drop (te_ne2 t * (te_ne1 t * rs)) work, te_ne2 t * (te_ne1 t * rs))
        else Inl Validation_failed)"
      by (simp add: t)
  qed
qed

definition demo_w_tensor :: tensor where
  "demo_w_tensor = \<lparr>te_name = ''blk.0.ffn_down.weight'', te_ne0 = 32, te_ne1 = 2, te_ne2 = 1, te_ne3 = 1, te_type = GGML_TYPE_F32\<rparr>"

definition demo_tj :: "nat tensor_job" where
  "demo_tj = \<lparr>tj_type = GGML_TYPE_Q4_0, tj_src = replicate 64 1, tj_imatrix = None, tj_per_weight = False, tj_tensor = demo_w_tensor\<rparr>"

theorem tensor_quantized_witness:
  "prepare_tensor demo_tf 1 0 demo_model quantize_default_params None [] GGML_TYPE_Q4_0 4 demo_w_tensor (replicate 256 0) [] = Some (Inr demo_tj) \<and>
   (\<exists>res. quantize_experts (quantize_impl demo_krow) demo_tj (nthread_use 4 demo_w_tensor) 0 (replicate 256 0) 0 res)"
proof -
  have prep: "prepare_tensor demo_tf 1 0 demo_model quantize_default_params None [] GGML_TYPE_Q4_0 4 demo_w_tensor (replicate 256 0) [] = Some (Inr demo_tj)"
    by (simp add: prepare_tensor_def tensor_imatrix_def choose_imatrix_def wants_imatrix_def demo_w_tensor_def demo_tj_def demo_tf_def
      ggml_type_size_def ggml_blck_size_def type_traits_def)
  have "ggml_nelements demo_w_tensor \<le> length (tj_src demo_tj)" "shape_ok demo_w_tensor" "quantizable GGML_TYPE_Q4_0"
    "ggml_row_size GGML_TYPE_Q4_0 (te_ne0 demo_w_tensor) = Some 18"
    "rows_return demo_krow demo_tj 18"
    "ggml_nelements demo_w_tensor * 4 \<le> length (replicate 256 (0 :: 8 word))"
    by (simp_all add: ggml_nelements_def demo_w_tensor_def demo_tj_def shape_ok_def quantizable_def ggml_row_size_def demo_q4_0 demo_krow_def rows_return_def
      tensor_call_def Let_def)
  from conjunct1 [OF tensor_quantized [where krow = demo_krow, OF prep this]] prep show ?thesis by blast
qed

text \<open>A type whose kernels insist on importance data always gets some: when nothing usable was found for the
  tensor, all ones are substituted, and they are one per column of every expert.  Data that was found has one weight
  per column, or one per weight, of every expert.\<close>

theorem imatrix_supplied:
  assumes "tensor_imatrix one m p imatrix_data mapped nt t = Inr (im, pw)"
  shows "(ggml_quantize_requires_imatrix nt \<longrightarrow> im \<noteq> None) \<and>
    (\<forall>w. im = Some w \<longrightarrow> length w = (if pw then te_ne0 t * te_ne1 t * te_ne2 t else te_ne0 t * te_ne2 t))"
proof (intro conjI allI impI)
  show "im \<noteq> None" if "ggml_quantize_requires_imatrix nt" using tensor_imatrix_given [OF assms that] .
  show "length w = (if pw then te_ne0 t * te_ne1 t * te_ne2 t else te_ne0 t * te_ne2 t)" if "im = Some w" for w
    using tensor_imatrix_length [OF assms [unfolded that]] .
qed

theorem imatrix_supplied_witness:
  "tensor_imatrix 1 demo_model quantize_default_params None [] GGML_TYPE_IQ2_XS (demo_tensor ''blk.0.attn_q.weight'' 4)
    = Inr (Some [1, 1, 1, 1 :: nat], False) \<and> ggml_quantize_requires_imatrix GGML_TYPE_IQ2_XS"
proof -
  have im: "tensor_imatrix 1 demo_model quantize_default_params None [] GGML_TYPE_IQ2_XS (demo_tensor ''blk.0.attn_q.weight'' 4)
      = Inr (Some [1, 1, 1, 1 :: nat], False)"
    by (simp add: tensor_imatrix_def choose_imatrix_def wants_imatrix_def demo_tensor_def numeral_eq_Suc)
  from imatrix_supplied [OF im] im show ?thesis
    by (simp add: ggml_quantize_requires_imatrix_def)
qed

end
