(* ===== verification/DynTallocr.thy ===== *)
theory DynTallocr
  imports Prelude
begin

text \<open>
  The dynamic tensor allocator of \<^verbatim>\<open>src/ggml/src/ggml-alloc.c\<close>: chunks of memory with an array of free blocks that
  is kept sorted by address.  Sizes are \<^verbatim>\<open>size_t\<close>, 64-bit and unsigned; sums and differences wrap around.  A
  chunk's array has 256 elements of which the first \<open>n_free_blocks\<close> count; access outside of it is \<open>None\<close>.
  The list of chunks has length \<^verbatim>\<open>n_chunks\<close>, and \<^verbatim>\<open>-1\<close> for a chunk or block is the value \<open>None\<close> of an option.
\<close>

unbundle bit_operations_syntax

section \<open>The allocator\<close>

definition SIZE_MAX :: nat where
  "SIZE_MAX = 18446744073709551615"

definition sz_add :: "nat \<Rightarrow> nat \<Rightarrow> nat" where
  "sz_add a b = (a + b) mod (SIZE_MAX + 1)"

definition sz_sub :: "nat \<Rightarrow> nat \<Rightarrow> nat" where
  "sz_sub a b = (a + (SIZE_MAX + 1) - b) mod (SIZE_MAX + 1)"

definition aligned_offset :: "nat \<Rightarrow> nat \<Rightarrow> nat \<Rightarrow> nat option" where
  "aligned_offset buffer offset alignment = do {
     guard (alignment \<noteq> 0 \<and> alignment AND (alignment - 1) = 0);
     let align = (alignment - sz_add buffer offset mod alignment) mod alignment;
     Some (sz_add offset align)
   }"

definition MAX_FREE_BLOCKS :: nat where
  "MAX_FREE_BLOCKS = 256"

definition GGML_VBUFFER_MAX_CHUNKS :: nat where
  "GGML_VBUFFER_MAX_CHUNKS = 16"

type_synonym buffer_address = "nat \<times> nat"

record free_block =
  fb_offset :: nat
  fb_size :: nat

record tallocr_chunk =
  free_blocks :: "free_block list"
  n_free_blocks :: nat
  max_size :: nat

record dyn_tallocr =
  da_alignment :: nat
  da_max_chunk_size :: nat
  da_chunks :: "tallocr_chunk list"

definition ggml_buffer_address_less :: "buffer_address \<Rightarrow> buffer_address \<Rightarrow> bool" where
  "ggml_buffer_address_less a b = (if fst a \<noteq> fst b then fst a < fst b else snd a < snd b)"

fun insert_pos :: "free_block list \<Rightarrow> nat \<Rightarrow> nat" where
  "insert_pos [] offset = 0"
| "insert_pos (b # bs) offset = (if fb_offset b < offset then Suc (insert_pos bs offset) else 0)"

definition insert_block :: "nat \<Rightarrow> nat \<Rightarrow> tallocr_chunk \<Rightarrow> tallocr_chunk option" where
  "insert_block offset sz chunk = do {
     guard (n_free_blocks chunk < MAX_FREE_BLOCKS);
     let pos = insert_pos (take (n_free_blocks chunk) (free_blocks chunk)) offset;
     let blocks = fold (\<lambda>i bl. bl[i := bl ! (i - 1)]) (rev [Suc pos..<Suc (n_free_blocks chunk)]) (free_blocks chunk);
     Some (chunk\<lparr>free_blocks := blocks[pos := \<lparr>fb_offset = offset, fb_size = sz\<rparr>], n_free_blocks := n_free_blocks chunk + 1\<rparr>)
   }"

definition remove_block :: "nat \<Rightarrow> tallocr_chunk \<Rightarrow> tallocr_chunk option" where
  "remove_block idx chunk = do {
     blocks \<leftarrow> foldM (\<lambda>i bl. do { guard (Suc i < length bl); Some (bl[i := bl ! Suc i]) }) [idx..<n_free_blocks chunk] (free_blocks chunk);
     Some (chunk\<lparr>free_blocks := blocks, n_free_blocks := n_free_blocks chunk - 1\<rparr>)
   }"

definition new_chunk :: "nat \<Rightarrow> dyn_tallocr \<Rightarrow> (nat \<times> dyn_tallocr) option" where
  "new_chunk min_size al = (if length (da_chunks al) \<ge> GGML_VBUFFER_MAX_CHUNKS then None
     else let sz = (if length (da_chunks al) = GGML_VBUFFER_MAX_CHUNKS - 1 then SIZE_MAX div 2 else max min_size (da_max_chunk_size al));
              empty = \<lparr>fb_offset = 0, fb_size = 0\<rparr>;
              chunk = \<lparr>free_blocks = (replicate MAX_FREE_BLOCKS empty)[0 := empty\<lparr>fb_size := sz\<rparr>], n_free_blocks = 1, max_size = 0\<rparr>
       in Some (length (da_chunks al), al\<lparr>da_chunks := da_chunks al @ [chunk]\<rparr>))"

text \<open>The search: in every chunk the smallest block that fits, its last block left out.\<close>

definition fit_step :: "nat \<Rightarrow> nat \<Rightarrow> tallocr_chunk \<Rightarrow> nat \<Rightarrow> (nat \<times> nat) option \<times> nat \<Rightarrow> (nat \<times> nat) option \<times> nat" where
  "fit_step sz c chunk i = (\<lambda>(best, best_fit_size). let block = free_blocks chunk ! i in
     if fb_size block \<ge> sz \<and> fb_size block \<le> best_fit_size then (Some (c, i), fb_size block) else (best, best_fit_size))"

definition fit_inner :: "nat \<Rightarrow> dyn_tallocr \<Rightarrow> (nat \<times> nat) option" where
  "fit_inner sz al = fold (\<lambda>c best. let chunk = da_chunks al ! c in
     fst (fold (fit_step sz c chunk) [0..<n_free_blocks chunk - 1] (best, SIZE_MAX))) [0..<length (da_chunks al)] None"

definition fit_last :: "nat \<Rightarrow> dyn_tallocr \<Rightarrow> (nat \<times> nat) option" where
  "fit_last sz al = map_option (\<lambda>c. (c, n_free_blocks (da_chunks al ! c) - 1))
     (find (\<lambda>c. let chunk = da_chunks al ! c in n_free_blocks chunk > 0 \<and> fb_size (free_blocks chunk ! (n_free_blocks chunk - 1)) \<ge> sz)
       [0..<length (da_chunks al)])"

definition take_block :: "nat \<Rightarrow> nat \<Rightarrow> tallocr_chunk \<Rightarrow> (nat \<times> tallocr_chunk) option" where
  "take_block sz b chunk = do {
     let block = free_blocks chunk ! b;
     let block' = \<lparr>fb_offset = sz_add (fb_offset block) sz, fb_size = sz_sub (fb_size block) sz\<rparr>;
     let chunk1 = chunk\<lparr>free_blocks := (free_blocks chunk)[b := block']\<rparr>;
     chunk2 \<leftarrow> (if fb_size block' = 0 then remove_block b chunk1 else Some chunk1);
     Some (fb_offset block, chunk2\<lparr>max_size := max (max_size chunk2) (sz_add (fb_offset block) sz)\<rparr>)
   }"

definition dyn_tallocr_alloc :: "nat \<Rightarrow> dyn_tallocr \<Rightarrow> (buffer_address \<times> dyn_tallocr) option" where
  "dyn_tallocr_alloc size0 al = do {
     sz \<leftarrow> aligned_offset 0 size0 (da_alignment al);
     ((c, b), al1) \<leftarrow> (case fit_inner sz al of Some r \<Rightarrow> Some (r, al)
       | None \<Rightarrow> (case fit_last sz al of Some r \<Rightarrow> Some (r, al)
         | None \<Rightarrow> map_option (\<lambda>(c, al'). ((c, 0), al')) (new_chunk sz al)));
     (offset, chunk) \<leftarrow> take_block sz b (da_chunks al1 ! c);
     Some ((c, offset), al1\<lparr>da_chunks := (da_chunks al1)[c := chunk]\<rparr>)
   }"

definition free_in_chunk :: "nat \<Rightarrow> nat \<Rightarrow> tallocr_chunk \<Rightarrow> tallocr_chunk option" where
  "free_in_chunk addr sz chunk =
     (let blk = (\<lambda>i. free_blocks chunk ! i);
          at_end = (\<lambda>i. sz_add (fb_offset (blk i)) (fb_size (blk i)) = addr);
          at_begin = (\<lambda>i. sz_add addr sz = fb_offset (blk i))
      in case find (\<lambda>i. at_end i \<or> at_begin i) [0..<n_free_blocks chunk] of
        None \<Rightarrow> insert_block addr sz chunk
      | Some i \<Rightarrow>
          if at_end i then
            let block = (blk i)\<lparr>fb_size := sz_add (fb_size (blk i)) sz\<rparr>;
                chunk1 = chunk\<lparr>free_blocks := (free_blocks chunk)[i := block]\<rparr>
            in if i < n_free_blocks chunk - 1 \<and> sz_add (fb_offset block) (fb_size block) = fb_offset (free_blocks chunk1 ! Suc i)
               then remove_block (Suc i) (chunk1\<lparr>free_blocks := (free_blocks chunk1)[i := block\<lparr>fb_size := sz_add (fb_size block) (fb_size (free_blocks chunk1 ! Suc i))\<rparr>]\<rparr>)
               else Some chunk1
          else
            let block = (blk i)\<lparr>fb_offset := addr, fb_size := sz_add (fb_size (blk i)) sz\<rparr>;
                chunk1 = chunk\<lparr>free_blocks := (free_blocks chunk)[i := block]\<rparr>;
                prev = free_blocks chunk1 ! (i - 1)
            in if i > 0 \<and> sz_add (fb_offset prev) (fb_size prev) = fb_offset block
               then remove_block i (chunk1\<lparr>free_blocks := (free_blocks chunk1)[i - 1 := prev\<lparr>fb_size := sz_add (fb_size prev) (fb_size block)\<rparr>]\<rparr>)
               else Some chunk1)"

definition dyn_tallocr_free_tensor :: "buffer_address \<Rightarrow> nat \<Rightarrow> dyn_tallocr \<Rightarrow> dyn_tallocr option" where
  "dyn_tallocr_free_tensor addr size0 al = do {
     sz \<leftarrow> aligned_offset 0 size0 (da_alignment al);
     guard (fst addr < length (da_chunks al));
     chunk \<leftarrow> free_in_chunk (snd addr) sz (da_chunks al ! fst addr);
     Some (al\<lparr>da_chunks := (da_chunks al)[fst addr := chunk]\<rparr>)
   }"

definition dyn_tallocr_reset :: "dyn_tallocr \<Rightarrow> dyn_tallocr" where
  "dyn_tallocr_reset al = al\<lparr>da_chunks := []\<rparr>"

definition dyn_tallocr_new :: "nat \<Rightarrow> nat \<Rightarrow> dyn_tallocr" where
  "dyn_tallocr_new alignment max_buffer_size = dyn_tallocr_reset \<lparr>da_alignment = alignment, da_max_chunk_size = min max_buffer_size (SIZE_MAX div 2), da_chunks = []\<rparr>"

definition dyn_tallocr_max_size :: "dyn_tallocr \<Rightarrow> nat \<Rightarrow> nat" where
  "dyn_tallocr_max_size al c = (if c < length (da_chunks al) then max_size (da_chunks al ! c) else 0)"

section \<open>Lists of blocks\<close>

definition blocks :: "tallocr_chunk \<Rightarrow> (nat \<times> nat) list" where
  "blocks ch = map (\<lambda>b. (fb_offset b, fb_size b)) (take (n_free_blocks ch) (free_blocks ch))"

definition span :: "nat \<times> nat \<Rightarrow> nat set" where
  "span x = {fst x..<fst x + snd x}"

definition region :: "(nat \<times> nat) list \<Rightarrow> nat set" where
  "region bs = (\<Union>x \<in> set bs. span x)"

text \<open>Free blocks are not empty, sorted, and no two of them touch: every possible merge has been made.\<close>

definition canon :: "(nat \<times> nat) list \<Rightarrow> bool" where
  "canon bs \<longleftrightarrow> sorted_wrt (\<lambda>x y. fst x + snd x < fst y) bs \<and> (\<forall>x \<in> set bs. 0 < snd x)"

lemma canon_append: "canon (xs @ ys) \<longleftrightarrow> canon xs \<and> canon ys \<and> (\<forall>x \<in> set xs. \<forall>y \<in> set ys. fst x + snd x < fst y)"
  by (auto simp: canon_def sorted_wrt_append)

lemma canon_Cons: "canon (x # xs) \<longleftrightarrow> 0 < snd x \<and> canon xs \<and> (\<forall>y \<in> set xs. fst x + snd x < fst y)"
  by (auto simp: canon_def)

lemma canon_Nil [simp]: "canon []"
  by (simp add: canon_def)

lemma region_simps [simp]: "region [] = {}" "region (x # xs) = span x \<union> region xs" "region (xs @ ys) = region xs \<union> region ys"
  by (auto simp: region_def)

lemma span_disjoint:
  assumes "span (a, n) \<inter> span x = {}" "0 < n" "0 < snd x"
  shows "fst x + snd x \<le> a \<or> a + n \<le> fst x"
proof (rule ccontr)
  assume "\<not> (fst x + snd x \<le> a \<or> a + n \<le> fst x)"
  then have "max a (fst x) \<in> span (a, n) \<inter> span x" using assms(2,3) by (auto simp: span_def)
  with assms(1) show False by blast
qed

lemma region_disjoint:
  assumes "span (a, n) \<inter> region bs = {}" "0 < n" "canon bs" "x \<in> set bs"
  shows "fst x + snd x \<le> a \<or> a + n \<le> fst x"
proof (rule span_disjoint)
  show "span (a, n) \<inter> span x = {}" using assms(1,4) by (auto simp: region_def)
  show "0 < snd x" using assms(3,4) by (simp add: canon_def)
qed (rule assms(2))

text \<open>Taking the front of a block.\<close>

lemma canon_take:
  assumes "canon (pre @ (p, s) # post)" "0 < n" "n \<le> s"
  shows "canon (pre @ (if n = s then [] else [(p + n, s - n)]) @ post)"
    "region (pre @ (if n = s then [] else [(p + n, s - n)]) @ post) = region (pre @ (p, s) # post) - span (p, n)"
proof -
  show "canon (pre @ (if n = s then [] else [(p + n, s - n)]) @ post)"
    using assms by (fastforce simp: canon_append canon_Cons)
  have "\<forall>x \<in> set pre. fst x + snd x < p" "\<forall>x \<in> set post. p + s < fst x" using assms(1) by (auto simp: canon_append canon_Cons)
  then have "region pre \<inter> span (p, n) = {}" "region post \<inter> span (p, n) = {}" using assms(3) by (fastforce simp: region_def span_def)+
  moreover have "(if n = s then {} else span (p + n, s - n)) = span (p, s) - span (p, n)" using assms(3) by (auto simp: span_def)
  ultimately show "region (pre @ (if n = s then [] else [(p + n, s - n)]) @ post) = region (pre @ (p, s) # post) - span (p, n)"
    by (auto split: if_splits)
qed

text \<open>Giving memory back: after a block, before a block, or apart from all.\<close>

lemma canon_grow_end:
  assumes c: "canon (pre @ (p, s) # post)" and d: "span (p + s, n) \<inter> region (pre @ (p, s) # post) = {}" and n: "0 < n"
    and apart: "\<And>x. x \<in> set post \<Longrightarrow> fst x \<noteq> p + s + n"
  shows "canon (pre @ (p, s + n) # post)" "region (pre @ (p, s + n) # post) = region (pre @ (p, s) # post) \<union> span (p + s, n)"
proof -
  have "p + (s + n) < fst x" if x: "x \<in> set post" for x
    using region_disjoint [OF d n c, of x] x apart [OF x] c by (auto simp: canon_append canon_Cons)
  then show "canon (pre @ (p, s + n) # post)" using c by (auto simp: canon_append canon_Cons)
  show "region (pre @ (p, s + n) # post) = region (pre @ (p, s) # post) \<union> span (p + s, n)" by (auto simp: span_def)
qed

lemma canon_grow_join:
  assumes c: "canon (pre @ (p, s) # (q, t) # post)" and q: "q = p + s + n" and n: "0 < n"
  shows "canon (pre @ (p, s + n + t) # post)" "region (pre @ (p, s + n + t) # post) = region (pre @ (p, s) # (q, t) # post) \<union> span (p + s, n)"
proof -
  show "canon (pre @ (p, s + n + t) # post)" using c q by (auto simp: canon_append canon_Cons add.assoc)
  have "span (p, s + n + t) = span (p, s) \<union> span (q, t) \<union> span (p + s, n)" by (auto simp: span_def q)
  then show "region (pre @ (p, s + n + t) # post) = region (pre @ (p, s) # (q, t) # post) \<union> span (p + s, n)" by auto
qed

lemma canon_grow_begin:
  assumes c: "canon (pre @ (a + n, s) # post)" and d: "span (a, n) \<inter> region (pre @ (a + n, s) # post) = {}" and n: "0 < n"
    and apart: "\<And>x. x \<in> set pre \<Longrightarrow> fst x + snd x \<noteq> a"
  shows "canon (pre @ (a, s + n) # post)" "region (pre @ (a, s + n) # post) = region (pre @ (a + n, s) # post) \<union> span (a, n)"
proof -
  have "fst x + snd x < a" if x: "x \<in> set pre" for x
    using region_disjoint [OF d n c, of x] x apart [OF x] c by (fastforce simp: canon_append canon_Cons)
  then show "canon (pre @ (a, s + n) # post)" using c by (auto simp: canon_append canon_Cons)
  have "span (a, s + n) = span (a + n, s) \<union> span (a, n)" by (auto simp: span_def)
  then show "region (pre @ (a, s + n) # post) = region (pre @ (a + n, s) # post) \<union> span (a, n)" by auto
qed

lemma canon_insert:
  assumes c: "canon (pre @ post)" and d: "span (a, n) \<inter> region (pre @ post) = {}" and n: "0 < n"
    and apart: "\<And>x. x \<in> set (pre @ post) \<Longrightarrow> fst x + snd x \<noteq> a \<and> a + n \<noteq> fst x"
    and pre: "\<And>x. x \<in> set pre \<Longrightarrow> fst x < a" and post: "\<And>x. x \<in> set post \<Longrightarrow> a \<le> fst x"
  shows "canon (pre @ (a, n) # post)" "region (pre @ (a, n) # post) = region (pre @ post) \<union> span (a, n)"
proof -
  have "fst x + snd x < a" if x: "x \<in> set pre" for x
    using region_disjoint [OF d n c, of x] x apart [of x] pre [OF x] by fastforce
  moreover have "a + n < fst x" if x: "x \<in> set post" for x
    using region_disjoint [OF d n c, of x] x apart [of x] post [OF x] c by (fastforce simp: canon_append canon_def)
  ultimately show "canon (pre @ (a, n) # post)" using c n by (auto simp: canon_append canon_Cons)
  show "region (pre @ (a, n) # post) = region (pre @ post) \<union> span (a, n)" by auto
qed

section \<open>The array of blocks\<close>

definition arr_ok :: "tallocr_chunk \<Rightarrow> bool" where
  "arr_ok ch \<longleftrightarrow> length (free_blocks ch) = MAX_FREE_BLOCKS \<and> n_free_blocks ch \<le> MAX_FREE_BLOCKS"

lemma blocks_length: "arr_ok ch \<Longrightarrow> length (blocks ch) = n_free_blocks ch"
  by (simp add: blocks_def arr_ok_def)

lemma blocks_nth: "arr_ok ch \<Longrightarrow> i < n_free_blocks ch \<Longrightarrow> blocks ch ! i = (fb_offset (free_blocks ch ! i), fb_size (free_blocks ch ! i))"
  by (simp add: blocks_def arr_ok_def)

lemma blocks_split:
  assumes "arr_ok ch" "i < n_free_blocks ch"
  shows "blocks ch = take i (blocks ch) @ (fb_offset (free_blocks ch ! i), fb_size (free_blocks ch ! i)) # drop (Suc i) (blocks ch)"
  using id_take_nth_drop [of i "blocks ch"] assms by (simp add: blocks_length blocks_nth)

lemma blocks_update:
  assumes "arr_ok ch" "i < n_free_blocks ch"
  shows "blocks (ch\<lparr>free_blocks := (free_blocks ch)[i := b]\<rparr>) = (blocks ch)[i := (fb_offset b, fb_size b)]"
  using assms by (simp add: blocks_def arr_ok_def take_update_swap map_update)

lemma arr_ok_update [simp]: "arr_ok (ch\<lparr>free_blocks := (free_blocks ch)[i := b]\<rparr>) = arr_ok ch"
  by (simp add: arr_ok_def)

lemma remove_block_spec:
  assumes ok: "arr_ok ch" and n: "n_free_blocks ch < MAX_FREE_BLOCKS" and idx: "idx < n_free_blocks ch"
  shows "\<exists>ch'. remove_block idx ch = Some ch' \<and> arr_ok ch' \<and> max_size ch' = max_size ch \<and> n_free_blocks ch' = n_free_blocks ch - 1 \<and>
    blocks ch' = take idx (blocks ch) @ drop (Suc idx) (blocks ch)"
proof -
  let ?a = "free_blocks ch" and ?n = "n_free_blocks ch"
  let ?f = "\<lambda>i bl. do { guard (Suc i < length bl); Some (bl[i := bl ! Suc i]) }"
  have len: "length ?a = MAX_FREE_BLOCKS" using ok by (simp add: arr_ok_def)
  have "\<exists>bl. foldM ?f [idx..<k] ?a = Some bl \<and> length bl = length ?a \<and> (\<forall>j < length ?a. bl ! j = (if idx \<le> j \<and> j < k then ?a ! Suc j else ?a ! j))"
    if "idx \<le> k" "k \<le> ?n" for k
    using that
  proof (induction k)
    case (Suc k)
    show ?case
    proof (cases "idx = Suc k")
      case False
      then have k: "idx \<le> k" "k \<le> ?n" using Suc.prems by simp_all
      from Suc.IH [OF k] obtain bl where bl: "foldM ?f [idx..<k] ?a = Some bl" "length bl = length ?a"
        "\<forall>j < length ?a. bl ! j = (if idx \<le> j \<and> j < k then ?a ! Suc j else ?a ! j)" by blast
      have "Suc k < length ?a" using Suc.prems n len by simp
      then show ?thesis using bl k(1) by (intro exI [where x = "bl[k := bl ! Suc k]"]) (auto simp: foldM_append nth_list_update less_Suc_eq)
    qed auto
  qed auto
  from this [of ?n] idx obtain bl where bl: "foldM ?f [idx..<?n] ?a = Some bl" "length bl = length ?a"
    "\<forall>j < length ?a. bl ! j = (if idx \<le> j \<and> j < ?n then ?a ! Suc j else ?a ! j)" by auto
  have "take (?n - 1) bl = take idx (take ?n ?a) @ drop (Suc idx) (take ?n ?a)"
  proof (rule nth_equalityI)
    show "length (take (?n - 1) bl) = length (take idx (take ?n ?a) @ drop (Suc idx) (take ?n ?a))" using bl(2) idx n len by simp
    fix i assume "i < length (take (?n - 1) bl)"
    then have i: "i < ?n - 1" by simp
    then show "take (?n - 1) bl ! i = (take idx (take ?n ?a) @ drop (Suc idx) (take ?n ?a)) ! i"
      using bl(2,3) idx n len by (cases "i < idx") (simp_all add: nth_append)
  qed
  then show ?thesis
    using bl(1,2) ok n by (simp add: remove_block_def blocks_def arr_ok_def take_map drop_map flip: map_append)
qed

text \<open>With a full array the last step of the loop reads past its end.\<close>

lemma remove_block_full:
  assumes ok: "arr_ok ch" and n: "n_free_blocks ch = MAX_FREE_BLOCKS" and idx: "idx < n_free_blocks ch"
  shows "remove_block idx ch = None"
proof -
  let ?f = "\<lambda>i bl. do { guard (Suc i < length bl); Some (bl[i := bl ! Suc i]) }"
  have split: "[idx..<MAX_FREE_BLOCKS] = [idx..<MAX_FREE_BLOCKS - 1] @ [MAX_FREE_BLOCKS - 1]"
    using idx n by (metis Suc_diff_1 upt_Suc_append gr_zeroI less_Suc_eq_le not_less_zero)
  have "wlp (foldM ?f [idx..<MAX_FREE_BLOCKS - 1] (free_blocks ch)) (\<lambda>bl. length bl = MAX_FREE_BLOCKS)"
    using ok by (intro wlp_foldM_inv) (auto simp: arr_ok_def guard_def)
  then have "foldM ?f [idx..<MAX_FREE_BLOCKS] (free_blocks ch) = None"
    unfolding split foldM_append by (cases "foldM ?f [idx..<MAX_FREE_BLOCKS - 1] (free_blocks ch)") (simp_all add: MAX_FREE_BLOCKS_def)
  then show ?thesis by (simp add: remove_block_def n)
qed

lemma shift_up:
  assumes "pos \<le> n" "n < length a"
  shows "length (fold (\<lambda>i bl. bl[i := bl ! (i - 1)]) (rev [Suc pos..<Suc n]) a) = length a \<and>
    (\<forall>m < length a. fold (\<lambda>i bl. bl[i := bl ! (i - 1)]) (rev [Suc pos..<Suc n]) a ! m = (if pos < m \<and> m \<le> n then a ! (m - 1) else a ! m))"
  using assms
proof (induction n arbitrary: a)
  case (Suc n)
  show ?case
  proof (cases "pos = Suc n")
    case False
    let ?a = "a[Suc n := a ! n]"
    have "rev [Suc pos..<Suc (Suc n)] = Suc n # rev [Suc pos..<Suc n]" using False Suc.prems by simp
    then have "fold (\<lambda>i bl. bl[i := bl ! (i - 1)]) (rev [Suc pos..<Suc (Suc n)]) a = fold (\<lambda>i bl. bl[i := bl ! (i - 1)]) (rev [Suc pos..<Suc n]) ?a"
      by (simp del: upt_Suc)
    then have eq: "fold (\<lambda>i bl. bl[i := bl ! (i - 1)]) (rev [Suc pos..<Suc (Suc n)]) a ! m = (if pos < m \<and> m \<le> n then ?a ! (m - 1) else ?a ! m)"
      "length (fold (\<lambda>i bl. bl[i := bl ! (i - 1)]) (rev [Suc pos..<Suc (Suc n)]) a) = length a" if "m < length a" for m
      using Suc.IH [of ?a] Suc.prems False that by (simp_all del: upt_Suc)
    have "(if pos < m \<and> m \<le> n then ?a ! (m - 1) else ?a ! m) = (if pos < m \<and> m \<le> Suc n then a ! (m - 1) else a ! m)" if "m < length a" for m
      using that False Suc.prems by (cases "m = Suc n") (auto simp: nth_list_update)
    then show ?thesis using eq Suc.prems by (simp del: upt_Suc)
  qed auto
qed auto

lemma insert_pos_le: "insert_pos bs off \<le> length bs"
  by (induction bs) auto

lemma insert_pos_split: "x \<in> set (take (insert_pos bs off) bs) \<Longrightarrow> fb_offset x < off"
  by (induction bs) (auto split: if_splits)

lemma insert_pos_after:
  "sorted (map fb_offset bs) \<Longrightarrow> x \<in> set (drop (insert_pos bs off) bs) \<Longrightarrow> off \<le> fb_offset x"
  by (induction bs) (auto split: if_splits)

lemma insert_block_spec:
  assumes ok: "arr_ok ch" and n: "n_free_blocks ch < MAX_FREE_BLOCKS"
  shows "\<exists>ch'. insert_block off sz ch = Some ch' \<and> arr_ok ch' \<and> max_size ch' = max_size ch \<and> n_free_blocks ch' = n_free_blocks ch + 1 \<and>
    (let pos = insert_pos (take (n_free_blocks ch) (free_blocks ch)) off in blocks ch' = take pos (blocks ch) @ (off, sz) # drop pos (blocks ch))"
proof -
  let ?a = "free_blocks ch" and ?n = "n_free_blocks ch"
  define pos where "pos = insert_pos (take ?n ?a) off"
  have len: "length ?a = MAX_FREE_BLOCKS" using ok by (simp add: arr_ok_def)
  have pos: "pos \<le> ?n" using insert_pos_le [of "take ?n ?a" off] by (simp add: pos_def)
  define bl where "bl = fold (\<lambda>i bl. bl[i := bl ! (i - 1)]) (rev [Suc pos..<Suc ?n]) ?a"
  have bl: "length bl = length ?a" "\<forall>m < length ?a. bl ! m = (if pos < m \<and> m \<le> ?n then ?a ! (m - 1) else ?a ! m)"
    using shift_up [OF pos, of ?a] n len by (simp_all add: bl_def del: upt_Suc)
  let ?b = "\<lparr>fb_offset = off, fb_size = sz\<rparr>"
  have "take (Suc ?n) (bl[pos := ?b]) = take pos (take ?n ?a) @ ?b # drop pos (take ?n ?a)"
  proof (rule nth_equalityI)
    show "length (take (Suc ?n) (bl[pos := ?b])) = length (take pos (take ?n ?a) @ ?b # drop pos (take ?n ?a))" using bl(1) pos n len by simp
    fix i assume "i < length (take (Suc ?n) (bl[pos := ?b]))"
    then have i: "i < Suc ?n" by simp
    have lt: "i < length ?a" "?n \<le> length ?a" using i n len by simp_all
    consider "i < pos" | "i = pos" | "pos < i" by linarith
    then show "take (Suc ?n) (bl[pos := ?b]) ! i = (take pos (take ?n ?a) @ ?b # drop pos (take ?n ?a)) ! i"
    proof cases
      case 3
      then have "(take pos (take ?n ?a) @ ?b # drop pos (take ?n ?a)) ! i = ?a ! (i - 1)"
        using i pos lt by (simp add: nth_append nth_Cons')
      moreover have "take (Suc ?n) (bl[pos := ?b]) ! i = ?a ! (i - 1)" using 3 i bl lt by simp
      ultimately show ?thesis by simp
    qed (use i pos bl lt in \<open>simp_all add: nth_append\<close>)
  qed
  then have "blocks (ch\<lparr>free_blocks := bl[pos := ?b], n_free_blocks := ?n + 1\<rparr>) = take pos (blocks ch) @ (off, sz) # drop pos (blocks ch)"
    by (simp add: blocks_def take_map drop_map)
  moreover have "insert_block off sz ch = Some (ch\<lparr>free_blocks := bl[pos := ?b], n_free_blocks := ?n + 1\<rparr>)"
    using n by (simp add: insert_block_def pos_def bl_def Let_def del: upt_Suc)
  moreover have "arr_ok (ch\<lparr>free_blocks := bl[pos := ?b], n_free_blocks := ?n + 1\<rparr>)" using ok bl(1) n by (simp add: arr_ok_def)
  ultimately show ?thesis by (simp add: pos_def)
qed

section \<open>One chunk\<close>

lemma sz_add_small: "a + b \<le> SIZE_MAX \<Longrightarrow> sz_add a b = a + b"
  by (simp add: sz_add_def)

lemma sz_sub_small: "b \<le> a \<Longrightarrow> a \<le> SIZE_MAX \<Longrightarrow> sz_sub a b = a - b"
proof -
  assume "b \<le> a" "a \<le> SIZE_MAX"
  then have "a + (SIZE_MAX + 1) - b = (a - b) + (SIZE_MAX + 1)" "a - b < SIZE_MAX + 1" by simp_all
  then show ?thesis unfolding sz_sub_def by (simp only: mod_add_self2 mod_less)
qed

text \<open>A size rounded up to the alignment.\<close>

definition asz :: "nat \<Rightarrow> nat \<Rightarrow> nat" where
  "asz A s = s + (A - s mod A) mod A"

lemma asz_props: "0 < A \<Longrightarrow> s \<le> asz A s" "0 < A \<Longrightarrow> A dvd asz A s" "0 < s \<Longrightarrow> 0 < asz A s" "0 < A \<Longrightarrow> asz A s < s + A"
proof -
  show "0 < A \<Longrightarrow> A dvd asz A s"
  proof -
    assume A: "0 < A"
    have "(s + (A - s mod A) mod A) mod A = (s mod A + (A - s mod A)) mod A" by (simp only: mod_add_left_eq mod_add_right_eq)
    also have "s mod A + (A - s mod A) = A" by (rule le_add_diff_inverse, rule less_imp_le, rule mod_less_divisor, rule A)
    finally show ?thesis unfolding asz_def dvd_eq_mod_eq_0 by (simp only: mod_self)
  qed
qed (simp_all add: asz_def)

lemma aligned_offset_eq:
  assumes "A \<noteq> 0 \<and> A AND (A - 1) = 0" "s + A \<le> SIZE_MAX"
  shows "aligned_offset 0 s A = Some (asz A s)"
proof -
  have "(A - s mod A) mod A < A" using assms(1) by simp
  then have "s + (A - s mod A) mod A \<le> SIZE_MAX" using assms(2) by linarith
  then show ?thesis using assms by (simp add: aligned_offset_def asz_def sz_add_small Let_def)
qed

definition taken :: "nat \<Rightarrow> nat \<times> nat \<Rightarrow> nat set" where
  "taken A x = span (fst x, asz A (snd x))"

text \<open>
  The free blocks and the live allocations (offset and requested size) of a chunk partition its memory.
\<close>

definition chunk_inv :: "nat \<Rightarrow> nat \<Rightarrow> (nat \<times> nat) set \<Rightarrow> tallocr_chunk \<Rightarrow> bool" where
  "chunk_inv A cap L ch \<longleftrightarrow> arr_ok ch \<and> canon (blocks ch) \<and> cap \<le> SIZE_MAX div 2 \<and> (\<forall>x \<in> set (blocks ch). A dvd fst x) \<and>
     (\<forall>x \<in> L. 0 < snd x \<and> A dvd fst x \<and> fst x + asz A (snd x) \<le> max_size ch) \<and>
     (\<forall>x \<in> L. \<forall>y \<in> L. x \<noteq> y \<longrightarrow> taken A x \<inter> taken A y = {}) \<and>
     region (blocks ch) \<union> (\<Union>x \<in> L. taken A x) = {..<cap} \<and> region (blocks ch) \<inter> (\<Union>x \<in> L. taken A x) = {}"

lemma chunk_invD:
  assumes "chunk_inv A cap L ch"
  shows "arr_ok ch" "canon (blocks ch)" "cap \<le> SIZE_MAX div 2" "\<forall>x \<in> set (blocks ch). A dvd fst x"
    "\<forall>x \<in> L. 0 < snd x \<and> A dvd fst x \<and> fst x + asz A (snd x) \<le> max_size ch"
    "x \<in> L \<Longrightarrow> y \<in> L \<Longrightarrow> x \<noteq> y \<Longrightarrow> taken A x \<inter> taken A y = {}"
    "region (blocks ch) \<union> (\<Union>x \<in> L. taken A x) = {..<cap}" "region (blocks ch) \<inter> (\<Union>x \<in> L. taken A x) = {}"
  using assms unfolding chunk_inv_def by simp_all

lemma block_in_cap:
  assumes "chunk_inv A cap L ch" "x \<in> set (blocks ch)"
  shows "fst x + snd x \<le> cap" "0 < snd x" "fst x + snd x \<le> SIZE_MAX"
proof -
  show pos: "0 < snd x" using assms by (simp add: chunk_inv_def canon_def)
  then have "fst x + snd x - 1 \<in> span x" by (auto simp: span_def)
  then have "fst x + snd x - 1 \<in> {..<cap}" using assms by (auto simp: chunk_inv_def region_def)
  with pos show "fst x + snd x \<le> cap" by auto
  moreover have "cap \<le> SIZE_MAX div 2" using assms(1) by (simp add: chunk_inv_def)
  ultimately show "fst x + snd x \<le> SIZE_MAX" by simp
qed

lemma taken_in_cap:
  assumes "chunk_inv A cap L ch" "x \<in> L"
  shows "fst x + asz A (snd x) \<le> cap" "0 < asz A (snd x)"
proof -
  show pos: "0 < asz A (snd x)" using assms asz_props(3) by (simp add: chunk_inv_def)
  then have "fst x + asz A (snd x) - 1 \<in> taken A x" by (auto simp: taken_def span_def)
  then have "fst x + asz A (snd x) - 1 \<in> {..<cap}" using assms by (auto simp: chunk_inv_def)
  with pos show "fst x + asz A (snd x) \<le> cap" by auto
qed

lemma take_block_spec:
  assumes inv: "chunk_inv A cap L ch" and b: "b < n_free_blocks ch" and n: "n_free_blocks ch < MAX_FREE_BLOCKS \<or> take_block (asz A s) b ch \<noteq> None" and A: "0 < A" and s: "0 < s"
    and fit: "asz A s \<le> snd (blocks ch ! b)"
  shows "\<exists>off ch'. take_block (asz A s) b ch = Some (off, ch') \<and> chunk_inv A cap (insert (off, s) L) ch' \<and> taken A (off, s) \<inter> (\<Union>x \<in> L. taken A x) = {} \<and>
    n_free_blocks ch' \<le> n_free_blocks ch"
proof -
  let ?blk = "free_blocks ch ! b" and ?n = "asz A s"
  define off where "off = fb_offset ?blk"
  define bs where "bs = fb_size ?blk"
  let ?pre = "take b (blocks ch)" and ?post = "drop (Suc b) (blocks ch)"
  have ok: "arr_ok ch" and canon: "canon (blocks ch)" using inv by (simp_all add: chunk_inv_def)
  have split: "blocks ch = ?pre @ (off, bs) # ?post" using blocks_split [OF ok b] by (simp add: off_def bs_def)
  have mem: "(off, bs) \<in> set (blocks ch)" by (subst split) simp
  have fit': "?n \<le> bs" using fit blocks_nth [OF ok b] by (simp add: bs_def)
  have pos: "0 < ?n" using s by (rule asz_props(3))
  note cap = block_in_cap [OF inv mem]
  have add: "sz_add off ?n = off + ?n" "sz_sub bs ?n = bs - ?n" using cap fit' by (simp_all add: sz_add_small sz_sub_small)
  let ?b' = "\<lparr>fb_offset = off + ?n, fb_size = bs - ?n\<rparr>"
  let ?ch1 = "ch\<lparr>free_blocks := (free_blocks ch)[b := ?b']\<rparr>"
  let ?bs' = "?pre @ (if ?n = bs then [] else [(off + ?n, bs - ?n)]) @ ?post"
  have b1: "blocks ?ch1 = ?pre @ (off + ?n, bs - ?n) # ?post"
    using blocks_update [OF ok b, of ?b'] b blocks_length [OF ok] by (simp add: upd_conv_take_nth_drop)
  have lb: "length ?pre = b" using b blocks_length [OF ok] by simp
  obtain ch2 where ch2: "(if bs - ?n = 0 then remove_block b ?ch1 else Some ?ch1) = Some ch2" "arr_ok ch2" "max_size ch2 = max_size ch" "blocks ch2 = ?bs'" "n_free_blocks ch2 \<le> n_free_blocks ch"
  proof (cases "?n = bs")
    case True
    have "n_free_blocks ch < MAX_FREE_BLOCKS"
    proof (rule ccontr)
      assume full: "\<not> n_free_blocks ch < MAX_FREE_BLOCKS"
      then have "n_free_blocks ch = MAX_FREE_BLOCKS" using ok by (simp add: arr_ok_def)
      then have "remove_block b ?ch1 = None" using remove_block_full [of ?ch1 b] ok b by simp
      then have "take_block ?n b ch = None" unfolding take_block_def Let_def off_def [symmetric] bs_def [symmetric] add using True by simp
      with n full show False by simp
    qed
    then obtain ch2 where ch2: "remove_block b ?ch1 = Some ch2" "arr_ok ch2" "max_size ch2 = max_size ch"
      "n_free_blocks ch2 = n_free_blocks ch - 1" "blocks ch2 = take b (blocks ?ch1) @ drop (Suc b) (blocks ?ch1)"
      using remove_block_spec [of ?ch1 b] ok b by auto
    have "blocks ch2 = ?pre @ ?post" using ch2(5) lb unfolding b1 by simp
    with ch2 True that show thesis by simp
  next
    case False
    with fit' b1 ok that show thesis by simp
  qed
  let ?ch' = "ch2\<lparr>max_size := max (max_size ch2) (off + ?n)\<rparr>"
  have res: "take_block ?n b ch = Some (off, ?ch')"
    unfolding take_block_def Let_def off_def [symmetric] bs_def [symmetric] add using ch2(1) by simp
  have bl: "blocks ?ch' = ?bs'" using ch2(4) by (simp add: blocks_def)
  have canon': "canon (?pre @ (off, bs) # ?post)" using canon split by metis
  note C = canon_take [OF canon' pos fit']
  have reg: "region ?bs' = region (blocks ch) - span (off, ?n)" unfolding C(2) using split by metis
  have sub: "span (off, ?n) \<subseteq> region (blocks ch)" 
  proof -
    have "span (off, ?n) \<subseteq> span (off, bs)" using fit' by (simp add: span_def)
    then show ?thesis using mem unfolding region_def by blast
  qed
  have new: "taken A (off, s) = span (off, ?n)" by (simp add: taken_def)
  note I = chunk_invD [OF inv]
  have disj: "taken A (off, s) \<inter> (\<Union>x \<in> L. taken A x) = {}" using I(8) sub unfolding new by blast
  have "A dvd off" using I(4) mem by force
  then have dvd: "A dvd off + ?n" using asz_props(2) [OF A] by simp
  have "\<forall>x \<in> set ?bs'. A dvd fst x"
    using I(4) dvd set_take_subset [of b "blocks ch"] set_drop_subset [of "Suc b" "blocks ch"] by auto
  moreover have "\<forall>x \<in> insert (off, s) L. 0 < snd x \<and> A dvd fst x \<and> fst x + asz A (snd x) \<le> max (max_size ch2) (off + ?n)"
    using I(5) s \<open>A dvd off\<close> ch2(3) by (auto simp: le_max_iff_disj)
  moreover have "\<forall>x \<in> insert (off, s) L. \<forall>y \<in> insert (off, s) L. x \<noteq> y \<longrightarrow> taken A x \<inter> taken A y = {}"
  proof (intro ballI impI)
    fix x y assume xy: "x \<in> insert (off, s) L" "y \<in> insert (off, s) L" "x \<noteq> y"
    then consider "x = (off, s)" "y \<in> L" | "y = (off, s)" "x \<in> L" | "x \<in> L" "y \<in> L" by blast
    then show "taken A x \<inter> taken A y = {}"
    proof cases
      case 3
      with xy(3) I(6) show ?thesis by simp
    qed (use disj in auto)
  qed
  moreover have "region ?bs' \<union> (\<Union>x \<in> insert (off, s) L. taken A x) = {..<cap}"
    unfolding reg UN_insert new I(7) [symmetric] using sub by auto
  moreover have "region ?bs' \<inter> (\<Union>x \<in> insert (off, s) L. taken A x) = {}"
    unfolding reg UN_insert new using I(8) by auto
  moreover have "arr_ok ?ch'" using ch2(2) by (simp add: arr_ok_def)
  ultimately have "chunk_inv A cap (insert (off, s) L) ?ch'"
    using C(1) I(3) unfolding chunk_inv_def bl by simp
  then show ?thesis using res disj ch2(5) by auto
qed

definition freed :: "nat \<Rightarrow> nat \<Rightarrow> tallocr_chunk \<Rightarrow> tallocr_chunk \<Rightarrow> bool" where
  "freed a n ch ch' \<longleftrightarrow> arr_ok ch' \<and> max_size ch' = max_size ch \<and> canon (blocks ch') \<and> region (blocks ch') = region (blocks ch) \<union> span (a, n) \<and>
     fst ` set (blocks ch') \<subseteq> insert a (fst ` set (blocks ch)) \<and> n_free_blocks ch' \<le> n_free_blocks ch + 1"

lemma take_drop_mem: "fst ` set (take i xs) \<subseteq> fst ` set xs" "fst ` set (drop i xs) \<subseteq> fst ` set xs"
  using set_take_subset [of i xs] set_drop_subset [of i xs] by blast+

lemma free_in_chunk_spec:
  assumes ok: "arr_ok ch" and c: "canon (blocks ch)" and d: "span (a, n) \<inter> region (blocks ch) = {}" and n: "0 < n" and may: "n_free_blocks ch < MAX_FREE_BLOCKS \<or> free_in_chunk a n ch \<noteq> None"
    and cap: "\<And>x. x \<in> set (blocks ch) \<Longrightarrow> fst x + snd x \<le> SIZE_MAX div 2" "a + n \<le> SIZE_MAX div 2"
  shows "\<exists>ch'. free_in_chunk a n ch = Some ch' \<and> freed a n ch ch'"
proof -
  let ?bl = "free_blocks ch" and ?N = "n_free_blocks ch"
  let ?p = "\<lambda>i. fb_offset (?bl ! i)" and ?s = "\<lambda>i. fb_size (?bl ! i)"
  have nth: "(?p i, ?s i) \<in> set (blocks ch)" "blocks ch ! i = (?p i, ?s i)" if "i < ?N" for i
    using blocks_nth [OF ok that] nth_mem [of i "blocks ch"] that blocks_length [OF ok] by simp_all
  have end_eq: "sz_add (?p i) (?s i) = ?p i + ?s i" if "i < ?N" for i
    using cap(1) [OF nth(1) [OF that]] by (simp add: sz_add_small)
  have an: "sz_add a n = a + n" using cap(2) by (simp add: sz_add_small)
  let ?stop = "\<lambda>i. sz_add (?p i) (?s i) = a" and ?start = "\<lambda>i. sz_add a n = ?p i"
  have D: "free_in_chunk a n ch = (case find (\<lambda>i. ?stop i \<or> ?start i) [0..<?N] of None \<Rightarrow> insert_block a n ch | Some i \<Rightarrow>
          if ?stop i then
            let block = (?bl ! i)\<lparr>fb_size := sz_add (?s i) n\<rparr>; chunk1 = ch\<lparr>free_blocks := ?bl[i := block]\<rparr>
            in if i < ?N - 1 \<and> sz_add (fb_offset block) (fb_size block) = fb_offset (free_blocks chunk1 ! Suc i)
               then remove_block (Suc i) (chunk1\<lparr>free_blocks := (free_blocks chunk1)[i := block\<lparr>fb_size := sz_add (fb_size block) (fb_size (free_blocks chunk1 ! Suc i))\<rparr>]\<rparr>)
               else Some chunk1
          else
            let block = (?bl ! i)\<lparr>fb_offset := a, fb_size := sz_add (?s i) n\<rparr>; chunk1 = ch\<lparr>free_blocks := ?bl[i := block]\<rparr>; prev = free_blocks chunk1 ! (i - 1)
            in if i > 0 \<and> sz_add (fb_offset prev) (fb_size prev) = fb_offset block
               then remove_block i (chunk1\<lparr>free_blocks := (free_blocks chunk1)[i - 1 := prev\<lparr>fb_size := sz_add (fb_size prev) (fb_size block)\<rparr>]\<rparr>)
               else Some chunk1)"
    unfolding free_in_chunk_def Let_def ..
  show ?thesis
  proof (cases "find (\<lambda>i. ?stop i \<or> ?start i) [0..<?N]")
    case None
    then have none: "\<not> ?stop i \<and> \<not> ?start i" if "i < ?N" for i using that by (auto simp: find_None_iff)
    define pos where "pos = insert_pos (take ?N ?bl) a"
    have room: "?N < MAX_FREE_BLOCKS"
      using may unfolding D None by (cases "?N < MAX_FREE_BLOCKS") (simp_all add: insert_block_def)
    from insert_block_spec [OF ok room, of a n] obtain ch' where
      ch': "insert_block a n ch = Some ch'" "arr_ok ch'" "max_size ch' = max_size ch" "n_free_blocks ch' = ?N + 1" "blocks ch' = take pos (blocks ch) @ (a, n) # drop pos (blocks ch)"
      by (auto simp: pos_def Let_def)
    have tk: "take pos (blocks ch) = map (\<lambda>b. (fb_offset b, fb_size b)) (take pos (take ?N ?bl))"
      "drop pos (blocks ch) = map (\<lambda>b. (fb_offset b, fb_size b)) (drop pos (take ?N ?bl))" by (simp_all add: blocks_def take_map drop_map)
    have sorted: "sorted (map fb_offset (take ?N ?bl))"
    proof -
      have "sorted_wrt (\<lambda>x y. fst x \<le> fst y) (blocks ch)" using c unfolding canon_def by (auto elim: sorted_wrt_mono_rel [rotated])
      then show ?thesis by (simp add: blocks_def sorted_wrt_map)
    qed
    have apart: "fst x + snd x \<noteq> a \<and> a + n \<noteq> fst x" if "x \<in> set (blocks ch)" for x
    proof -
      from that obtain i where "i < ?N" "x = (?p i, ?s i)" by (metis in_set_conv_nth blocks_length [OF ok] nth(2))
      with none [of i] end_eq [of i] an show ?thesis by auto
    qed
    have c': "canon (take pos (blocks ch) @ drop pos (blocks ch))" and d': "span (a, n) \<inter> region (take pos (blocks ch) @ drop pos (blocks ch)) = {}" using c d by simp_all
    have pre: "fst x < a" if "x \<in> set (take pos (blocks ch))" for x
      using that insert_pos_split [of _ "take ?N ?bl" a] unfolding tk pos_def [symmetric] by auto
    have post: "a \<le> fst x" if "x \<in> set (drop pos (blocks ch))" for x
      using that insert_pos_after [OF sorted, of _ a] unfolding tk pos_def [symmetric] by auto
    have apart': "fst x + snd x \<noteq> a \<and> a + n \<noteq> fst x" if "x \<in> set (take pos (blocks ch) @ drop pos (blocks ch))" for x using that apart by simp
    note C = canon_insert [OF c' d' n apart' pre post]
    have "canon (blocks ch')" "region (blocks ch') = region (blocks ch) \<union> span (a, n)"
      unfolding ch'(5) using C unfolding append_take_drop_id by simp_all
    then have "freed a n ch ch'" unfolding freed_def using ch' take_drop_mem [of pos "blocks ch"] by (simp add: ch'(5) image_Un subset_insertI2)
    with ch'(1) show ?thesis unfolding D None by simp
  next
    case (Some i)
    then have i: "i < ?N" "?stop i \<or> ?start i" "\<And>j. j < i \<Longrightarrow> \<not> ?stop j" by (auto simp: find_Some_iff)
    let ?pre = "take i (blocks ch)" and ?post = "drop (Suc i) (blocks ch)"
    have split: "blocks ch = ?pre @ (?p i, ?s i) # ?post" using blocks_split [OF ok i(1)] .
    have mem: "?p i \<in> fst ` set (blocks ch)" using imageI [OF nth(1) [OF i(1)], of fst] by simp
    have lp: "length ?pre = i" using i(1) blocks_length [OF ok] by simp
    have c': "canon (?pre @ (?p i, ?s i) # ?post)" by (rule subst [OF split, where P = canon]) (rule c)
    have d': "span (a, n) \<inter> region (?pre @ (?p i, ?s i) # ?post) = {}" by (rule subst [OF split, where P = "\<lambda>bs. span (a, n) \<inter> region bs = {}"]) (rule d)
    have upd: "blocks (ch\<lparr>free_blocks := ?bl[i := b]\<rparr>) = ?pre @ (fb_offset b, fb_size b) # ?post" for b
      using blocks_update [OF ok i(1), of b] i(1) blocks_length [OF ok] by (simp add: upd_conv_take_nth_drop)
    show ?thesis
    proof (cases "?stop i")
      case True
      then have a: "a = ?p i + ?s i" using end_eq [OF i(1)] by simp
      let ?b = "(?bl ! i)\<lparr>fb_size := sz_add (?s i) n\<rparr>"
      let ?ch1 = "ch\<lparr>free_blocks := ?bl[i := ?b]\<rparr>"
      have add: "sz_add (?s i) n = ?s i + n" "sz_add (?p i) (?s i + n) = ?p i + (?s i + n)" using cap(2) a by (simp_all add: sz_add_small)
      have b1: "blocks ?ch1 = ?pre @ (?p i, ?s i + n) # ?post" using upd [of ?b] add by simp
      show ?thesis
      proof (cases "i < ?N - 1 \<and> ?p i + (?s i + n) = ?p (Suc i)")
        case join: True
        then have i1: "Suc i < ?N" by linarith
        have post: "?post = (?p (Suc i), ?s (Suc i)) # drop (Suc (Suc i)) (blocks ch)"
          using i1 blocks_length [OF ok] nth(2) [OF i1] by (simp add: Cons_nth_drop_Suc [symmetric])
        let ?b2 = "(?bl ! i)\<lparr>fb_size := ?s i + n + ?s (Suc i)\<rparr>"
        let ?ch2 = "ch\<lparr>free_blocks := ?bl[i := ?b2]\<rparr>"
        have "?s i + n + ?s (Suc i) \<le> SIZE_MAX" using cap(1) [OF nth(1) [OF i1]] join unfolding fst_conv snd_conv by linarith
        then have sum: "sz_add (?s i + n) (?s (Suc i)) = ?s i + n + ?s (Suc i)" by (simp add: sz_add_small)
        have b2: "blocks ?ch2 = ?pre @ (?p i, ?s i + n + ?s (Suc i)) # ?post" using upd [of ?b2] by simp
        have unf: "free_in_chunk a n ch = remove_block (Suc i) ?ch2" unfolding D Some using True join by (simp add: add sum Let_def)
        have room: "?N < MAX_FREE_BLOCKS"
          using may remove_block_full [of ?ch2 "Suc i"] ok i1 unfolding unf by (cases "?N < MAX_FREE_BLOCKS") (auto simp: arr_ok_def)
        from remove_block_spec [of ?ch2 "Suc i"] ok room i1 obtain ch' where
          ch': "remove_block (Suc i) ?ch2 = Some ch'" "arr_ok ch'" "max_size ch' = max_size ch" "n_free_blocks ch' = ?N - 1"
            "blocks ch' = take (Suc i) (blocks ?ch2) @ drop (Suc (Suc i)) (blocks ?ch2)" by auto
        have bl': "blocks ch' = ?pre @ (?p i, ?s i + n + ?s (Suc i)) # drop (Suc (Suc i)) (blocks ch)" unfolding ch'(5) b2 using lp post by simp
        have res: "free_in_chunk a n ch = Some ch'" unfolding unf by (rule ch'(1))
        have c2: "canon (?pre @ (?p i, ?s i) # (?p (Suc i), ?s (Suc i)) # drop (Suc (Suc i)) (blocks ch))" using c' post by simp
        have reg: "region (blocks ch) = region (?pre @ (?p i, ?s i) # (?p (Suc i), ?s (Suc i)) # drop (Suc (Suc i)) (blocks ch))" using split post by metis
        have q: "?p (Suc i) = ?p i + ?s i + n" using join by (simp only: add.assoc)
        note C = canon_grow_join [OF c2 q n]
        have "canon (blocks ch')" unfolding bl' by (rule C(1))
        moreover have "region (blocks ch') = region (blocks ch) \<union> span (a, n)" by (simp only: bl' C(2) reg a)
        moreover have "fst ` set (blocks ch') \<subseteq> insert a (fst ` set (blocks ch))" using mem by (simp add: bl' image_Un subset_insertI2 take_drop_mem)
        ultimately have "freed a n ch ch'" unfolding freed_def using ch'(2-4) by simp
        with res show ?thesis by blast
      next
        case False
        have apart: "fst x \<noteq> ?p i + ?s i + n" if x: "x \<in> set ?post" for x
        proof -
          have i1: "Suc i < ?N" using x blocks_length [OF ok] by (cases "Suc i < ?N") simp_all
          have post: "?post = (?p (Suc i), ?s (Suc i)) # drop (Suc (Suc i)) (blocks ch)"
            using i1 blocks_length [OF ok] nth(2) [OF i1] by (simp add: Cons_nth_drop_Suc [symmetric])
          have ge: "?p i + ?s i + n \<le> ?p (Suc i)"
            using region_disjoint [OF d n c nth(1) [OF i1]] a c' unfolding post by (auto simp: canon_append canon_Cons)
          have "?p (Suc i) \<noteq> ?p i + ?s i + n" using False i1 by auto
          moreover have "x = (?p (Suc i), ?s (Suc i)) \<or> ?p (Suc i) + ?s (Suc i) < fst x" using x c' unfolding post by (auto simp: canon_append canon_Cons)
          ultimately show ?thesis using ge by auto
        qed
        have res: "free_in_chunk a n ch = Some ?ch1" unfolding D Some using True False by (auto simp: add Let_def)
        note C = canon_grow_end [OF c' d' [unfolded a] n apart]
        have reg: "region (?pre @ (?p i, ?s i) # ?post) = region (blocks ch)" using split by metis
        have "region (blocks ?ch1) = region (blocks ch) \<union> span (a, n)" unfolding b1 using C(2) unfolding reg a [symmetric] .
        moreover have "fst ` set (blocks ?ch1) \<subseteq> insert a (fst ` set (blocks ch))" using mem by (simp add: b1 image_Un subset_insertI2 take_drop_mem)
        moreover have "canon (blocks ?ch1)" unfolding b1 by (rule C(1))
        ultimately have "freed a n ch ?ch1" unfolding freed_def using ok by simp
        with res show ?thesis by blast
      qed
    next
      case False
      with i(2) an have p: "?p i = a + n" by simp
      let ?b = "(?bl ! i)\<lparr>fb_offset := a, fb_size := sz_add (?s i) n\<rparr>"
      let ?ch1 = "ch\<lparr>free_blocks := ?bl[i := ?b]\<rparr>"
      have add: "sz_add (?s i) n = ?s i + n" using cap(1) [OF nth(1) [OF i(1)]] p by (simp add: sz_add_small)
      have b1: "blocks ?ch1 = ?pre @ (a, ?s i + n) # ?post" using upd [of ?b] add by simp
      have apart: "fst x + snd x \<noteq> a" if x: "x \<in> set ?pre" for x
      proof -
        from x obtain j where "j < i" "x = blocks ch ! j" by (auto simp: in_set_conv_nth)
        with i(3) [of j] i(1) end_eq [of j] nth(2) [of j] show ?thesis by simp
      qed
      have "\<not> (i > 0 \<and> sz_add (fb_offset (?bl ! (i - 1))) (fb_size (?bl ! (i - 1))) = a)" using i(3) [of "i - 1"] by auto
      then have res: "free_in_chunk a n ch = Some ?ch1" unfolding D Some using False by (auto simp: Let_def)
      note C = canon_grow_begin [OF c' [unfolded p] d' [unfolded p] n apart]
      have reg: "region (?pre @ (a + n, ?s i) # ?post) = region (blocks ch)" using split p by metis
      have "region (blocks ?ch1) = region (blocks ch) \<union> span (a, n)" unfolding b1 using C(2) unfolding reg .
      moreover have "fst ` set (blocks ?ch1) \<subseteq> insert a (fst ` set (blocks ch))" by (simp add: b1 image_Un subset_insertI2 take_drop_mem)
      moreover have "canon (blocks ?ch1)" unfolding b1 by (rule C(1))
      ultimately have "freed a n ch ?ch1" unfolding freed_def using ok by simp
      with res show ?thesis by blast
    qed
  qed
qed

lemma give_back: "S \<subseteq> U \<Longrightarrow> F \<union> S \<union> (U - S) = F \<union> U" "F \<inter> U = {} \<Longrightarrow> (F \<union> S) \<inter> (U - S) = {}"
  by auto

lemma chunk_free_spec:
  assumes inv: "chunk_inv A cap L ch" and x: "(a, s) \<in> L" and may: "n_free_blocks ch < MAX_FREE_BLOCKS \<or> free_in_chunk a (asz A s) ch \<noteq> None"
  shows "\<exists>ch'. free_in_chunk a (asz A s) ch = Some ch' \<and> chunk_inv A cap (L - {(a, s)}) ch' \<and> n_free_blocks ch' \<le> n_free_blocks ch + 1 \<and> max_size ch' = max_size ch"
proof -
  note I = chunk_invD [OF inv] and X = taken_in_cap [OF inv x, simplified]
  have sub: "span (a, asz A s) \<subseteq> (\<Union>x \<in> L. taken A x)" using x by (force simp: taken_def)
  have "\<exists>ch'. free_in_chunk a (asz A s) ch = Some ch' \<and> freed a (asz A s) ch ch'"
  proof (rule free_in_chunk_spec [OF I(1,2) _ X(2) may])
    show "span (a, asz A s) \<inter> region (blocks ch) = {}" using sub I(8) by blast
    show "a + asz A s \<le> SIZE_MAX div 2" using X(1) I(3) by simp
    fix y assume "y \<in> set (blocks ch)"
    from block_in_cap(1) [OF inv this] I(3) show "fst y + snd y \<le> SIZE_MAX div 2" by simp
  qed
  then obtain ch' where ch': "free_in_chunk a (asz A s) ch = Some ch'" "arr_ok ch'" "max_size ch' = max_size ch" "canon (blocks ch')"
    "region (blocks ch') = region (blocks ch) \<union> span (a, asz A s)" "fst ` set (blocks ch') \<subseteq> insert a (fst ` set (blocks ch))" "n_free_blocks ch' \<le> n_free_blocks ch + 1"
    unfolding freed_def by blast
  have rest: "(\<Union>y \<in> L - {(a, s)}. taken A y) = (\<Union>y \<in> L. taken A y) - span (a, asz A s)"
  proof -
    have gen: "U = R \<union> S \<Longrightarrow> R \<inter> S = {} \<Longrightarrow> R = U - S" for U R S :: "nat set" by blast
    have sep: "taken A y \<inter> span (a, asz A s) = {}" if "y \<in> L - {(a, s)}" for y
      using I(6) [of y "(a, s)"] that x by (simp add: taken_def)
    have "(\<Union>y \<in> L - {(a, s)}. taken A y) \<inter> span (a, asz A s) = {}"
    proof (rule equals0I)
      fix z assume "z \<in> (\<Union>y \<in> L - {(a, s)}. taken A y) \<inter> span (a, asz A s)"
      then obtain y where "y \<in> L - {(a, s)}" "z \<in> taken A y" "z \<in> span (a, asz A s)" by blast
      with sep [of y] show False by blast
    qed
    moreover have "(\<Union>y \<in> L. taken A y) = (\<Union>y \<in> L - {(a, s)}. taken A y) \<union> span (a, asz A s)"
    proof -
      have "(\<Union>y \<in> insert (a, s) (L - {(a, s)}). taken A y) = taken A (a, s) \<union> (\<Union>y \<in> L - {(a, s)}. taken A y)" by (rule UN_insert)
      moreover have "taken A (a, s) = span (a, asz A s)" by (simp add: taken_def)
      ultimately show ?thesis unfolding insert_Diff [OF x] by (simp only: Un_commute)
    qed
    ultimately show ?thesis by (intro gen)
  qed
  have "A dvd a" using I(5) x by force
  have "\<forall>y \<in> set (blocks ch'). A dvd fst y"
  proof
    fix y assume "y \<in> set (blocks ch')"
    then have "fst y \<in> insert a (fst ` set (blocks ch))" using ch'(6) by (rule subsetD [rotated, OF imageI])
    then consider "fst y = a" | z where "z \<in> set (blocks ch)" "fst y = fst z" by auto
    then show "A dvd fst y" using \<open>A dvd a\<close> I(4) by cases simp_all
  qed
  moreover have "region (blocks ch') \<union> (\<Union>y \<in> L - {(a, s)}. taken A y) = {..<cap}" unfolding rest ch'(5) I(7) [symmetric] using sub by (rule give_back(1))
  moreover have "region (blocks ch') \<inter> (\<Union>y \<in> L - {(a, s)}. taken A y) = {}" unfolding rest ch'(5) using I(8) by (rule give_back(2))
  moreover have "\<forall>y \<in> L - {(a, s)}. \<forall>z \<in> L - {(a, s)}. y \<noteq> z \<longrightarrow> taken A y \<inter> taken A z = {}" using I(6) by simp
  moreover have "\<forall>y \<in> L - {(a, s)}. 0 < snd y \<and> A dvd fst y \<and> fst y + asz A (snd y) \<le> max_size ch'" using I(5) ch'(3) by simp
  ultimately have "chunk_inv A cap (L - {(a, s)}) ch'" unfolding chunk_inv_def using ch'(2,4) I(3) by (intro conjI)
  with ch'(1,3,7) show ?thesis by blast
qed

section \<open>The whole allocator\<close>

definition chunk_live :: "(buffer_address \<times> nat) set \<Rightarrow> nat \<Rightarrow> (nat \<times> nat) set" where
  "chunk_live L c = {(off, s). ((c, off), s) \<in> L}"

definition al_inv :: "dyn_tallocr \<Rightarrow> (buffer_address \<times> nat) set \<Rightarrow> bool" where
  "al_inv al L \<longleftrightarrow> da_alignment al \<noteq> 0 \<and> da_alignment al AND (da_alignment al - 1) = 0 \<and> da_alignment al \<le> SIZE_MAX div 4 \<and>
     da_max_chunk_size al \<le> SIZE_MAX div 2 \<and> (\<forall>x \<in> L. fst (fst x) < length (da_chunks al)) \<and>
     (\<forall>c < length (da_chunks al). \<exists>cap > 0. chunk_inv (da_alignment al) cap (chunk_live L c) (da_chunks al ! c))"

text \<open>Two allocations do not share memory.\<close>

definition apart :: "buffer_address \<times> nat \<Rightarrow> buffer_address \<times> nat \<Rightarrow> bool" where
  "apart x y \<longleftrightarrow> fst (fst x) \<noteq> fst (fst y) \<or> span (snd (fst x), snd x) \<inter> span (snd (fst y), snd y) = {}"

lemma span_taken: "0 < A \<Longrightarrow> span (p, s) \<subseteq> taken A (p, s)"
  using asz_props(1) [of A s] by (auto simp: span_def taken_def)

lemma apartI: "0 < A \<Longrightarrow> (c = c' \<Longrightarrow> taken A (p, s) \<inter> taken A (p', s') = {}) \<Longrightarrow> apart ((c, p), s) ((c', p'), s')"
  using span_taken [of A p s] span_taken [of A p' s'] by (auto simp: apart_def)

lemma al_invD:
  assumes "al_inv al L"
  shows "0 < da_alignment al" "da_alignment al AND (da_alignment al - 1) = 0" "da_alignment al \<le> SIZE_MAX div 4" "da_max_chunk_size al \<le> SIZE_MAX div 2"
    "x \<in> L \<Longrightarrow> fst (fst x) < length (da_chunks al)"
    "c < length (da_chunks al) \<Longrightarrow> \<exists>cap > 0. chunk_inv (da_alignment al) cap (chunk_live L c) (da_chunks al ! c)"
  using assms by (simp_all add: al_inv_def)

lemma al_inv_apart:
  assumes "al_inv al L" "x \<in> L" "y \<in> L" "x \<noteq> y"
  shows "apart x y"
proof -
  obtain c p s c' p' s' where xy: "x = ((c, p), s)" "y = ((c', p'), s')" by (metis surj_pair)
  note I = al_invD [OF assms(1)]
  show ?thesis unfolding xy
  proof (rule apartI [OF I(1)])
    assume c: "c = c'"
    obtain cap where "chunk_inv (da_alignment al) cap (chunk_live L c) (da_chunks al ! c)" using I(6) [of c] I(5) [OF assms(2)] xy by auto
    from chunk_invD(6) [OF this, of "(p, s)" "(p', s')"] assms xy c show "taken (da_alignment al) (p, s) \<inter> taken (da_alignment al) (p', s') = {}"
      by (auto simp: chunk_live_def)
  qed
qed

lemma fit_inner_spec:
  assumes "fit_inner sz al = Some (c, b)"
  shows "c < length (da_chunks al) \<and> b < n_free_blocks (da_chunks al ! c) \<and> sz \<le> fb_size (free_blocks (da_chunks al ! c) ! b)"
proof -
  let ?good = "\<lambda>best. \<forall>c b. best = Some (c, b) \<longrightarrow> c < length (da_chunks al) \<and> b < n_free_blocks (da_chunks al ! c) \<and> sz \<le> fb_size (free_blocks (da_chunks al ! c) ! b)"
  have inner: "?good (fst (fold (fit_step sz c (da_chunks al ! c)) is s))"
    if "?good (fst s)" "c < length (da_chunks al)" "\<forall>i \<in> set is. i < n_free_blocks (da_chunks al ! c)" for c "is" s
  proof (rule fold_invariant [where P = "\<lambda>s. ?good (fst s)" and Q = "\<lambda>i. i < n_free_blocks (da_chunks al ! c)"])
    fix i and s :: "(nat \<times> nat) option \<times> nat" assume "i < n_free_blocks (da_chunks al ! c)" "?good (fst s)"
    then show "?good (fst (fit_step sz c (da_chunks al ! c) i s))" using that(2) by (cases s) (simp add: fit_step_def Let_def)
  qed (use that in auto)
  have "?good (fit_inner sz al)"
    unfolding fit_inner_def
  proof (rule fold_invariant [where Q = "\<lambda>c. c < length (da_chunks al)"])
    fix c best assume "c < length (da_chunks al)" "?good best"
    then show "?good (let chunk = da_chunks al ! c in fst (fold (fit_step sz c chunk) [0..<n_free_blocks chunk - 1] (best, SIZE_MAX)))"
      unfolding Let_def by (intro inner) auto
  qed auto
  with assms show ?thesis by simp
qed

lemma fit_last_spec:
  assumes "fit_last sz al = Some (c, b)"
  shows "c < length (da_chunks al) \<and> b < n_free_blocks (da_chunks al ! c) \<and> sz \<le> fb_size (free_blocks (da_chunks al ! c) ! b)"
  using assms by (auto simp: fit_last_def find_Some_iff Let_def)

lemma asz_bound: "0 < A \<Longrightarrow> A \<le> SIZE_MAX div 4 \<Longrightarrow> s \<le> SIZE_MAX div 4 \<Longrightarrow> asz A s \<le> SIZE_MAX div 2 \<and> s + A \<le> SIZE_MAX"
  using asz_props(4) [of A s] by linarith

lemma new_chunk_inv:
  assumes "al_inv al L" "new_chunk sz al = Some (c, al')" "0 < sz" "sz \<le> SIZE_MAX div 2"
  shows "al_inv al' L" "c = length (da_chunks al)" "c < length (da_chunks al')" "n_free_blocks (da_chunks al' ! c) = 1" "sz \<le> fb_size (free_blocks (da_chunks al' ! c) ! 0)"
    "da_alignment al' = da_alignment al"
proof -
  define cap where "cap = (if length (da_chunks al) = GGML_VBUFFER_MAX_CHUNKS - 1 then SIZE_MAX div 2 else max sz (da_max_chunk_size al))"
  define ch where "ch = \<lparr>free_blocks = (replicate MAX_FREE_BLOCKS \<lparr>fb_offset = 0, fb_size = 0\<rparr>)[0 := \<lparr>fb_offset = 0, fb_size = cap\<rparr>], n_free_blocks = 1, max_size = 0\<rparr>"
  have al': "al' = al\<lparr>da_chunks := da_chunks al @ [ch]\<rparr>" "c = length (da_chunks al)"
    using assms(2) by (auto simp: new_chunk_def Let_def cap_def ch_def split: if_splits)
  have cap: "sz \<le> cap" "cap \<le> SIZE_MAX div 2" "0 < cap" using assms(3,4) al_invD(4) [OF assms(1)] by (auto simp: cap_def)
  have bl: "blocks ch = [(0, cap)]" by (simp add: ch_def blocks_def MAX_FREE_BLOCKS_def take_update_swap take_replicate)
  have none: "chunk_live L (length (da_chunks al)) = {}" using al_invD(5) [OF assms(1)] by (fastforce simp: chunk_live_def)
  have "arr_ok ch" by (simp add: arr_ok_def ch_def MAX_FREE_BLOCKS_def)
  then have "chunk_inv (da_alignment al) cap {} ch" using cap by (simp add: chunk_inv_def bl canon_Cons span_def lessThan_atLeast0)
  then show "al_inv al' L" using assms(1) cap(3) none unfolding al_inv_def al' by (auto simp: nth_append less_Suc_eq)
  show "c = length (da_chunks al)" by (rule al'(2))
  show "c < length (da_chunks al')" "n_free_blocks (da_chunks al' ! c) = 1" "sz \<le> fb_size (free_blocks (da_chunks al' ! c) ! 0)" "da_alignment al' = da_alignment al"
    using cap(1) by (simp_all add: al' ch_def MAX_FREE_BLOCKS_def)
qed

text \<open>Where the search ends.\<close>

definition pick_block :: "nat \<Rightarrow> dyn_tallocr \<Rightarrow> ((nat \<times> nat) \<times> dyn_tallocr) option" where
  "pick_block sz al = (case fit_inner sz al of Some r \<Rightarrow> Some (r, al)
       | None \<Rightarrow> (case fit_last sz al of Some r \<Rightarrow> Some (r, al)
         | None \<Rightarrow> map_option (\<lambda>(c, al'). ((c, 0), al')) (new_chunk sz al)))"

lemma pick_block_spec:
  assumes inv: "al_inv al L" and pick: "pick_block sz al = Some ((c, b), al1)" and sz: "0 < sz" "sz \<le> SIZE_MAX div 2"
  shows "al_inv al1 L \<and> c < length (da_chunks al1) \<and> b < n_free_blocks (da_chunks al1 ! c) \<and> sz \<le> fb_size (free_blocks (da_chunks al1 ! c) ! b) \<and>
    da_alignment al1 = da_alignment al \<and> (n_free_blocks (da_chunks al1 ! c) = 1 \<or> da_chunks al1 ! c = da_chunks al ! c \<and> c < length (da_chunks al))"
proof (cases "fit_inner sz al")
  case (Some r)
  with pick fit_inner_spec [of sz al c b] inv show ?thesis by (auto simp: pick_block_def)
next
  case inner: None
  show ?thesis
  proof (cases "fit_last sz al")
    case (Some r)
    with inner pick fit_last_spec [of sz al c b] inv show ?thesis by (auto simp: pick_block_def)
  next
    case None
    with inner pick have new: "new_chunk sz al = Some (c, al1)" "b = 0" by (auto simp: pick_block_def)
    from new_chunk_inv [OF inv new(1) sz] new(2) show ?thesis by simp
  qed
qed

lemma chunk_live_insert: "chunk_live (insert ((c, p), s) L) c' = (if c' = c then insert (p, s) (chunk_live L c) else chunk_live L c')"
  by (auto simp: chunk_live_def)

lemma chunk_live_remove: "chunk_live (L - {((c, p), s)}) c' = (if c' = c then chunk_live L c - {(p, s)} else chunk_live L c')"
  by (auto simp: chunk_live_def)

lemma dyn_alloc_unfold: "dyn_tallocr_alloc n al = do {
     sz \<leftarrow> aligned_offset 0 n (da_alignment al);
     ((c, b), al1) \<leftarrow> pick_block sz al;
     (off, chunk) \<leftarrow> take_block sz b (da_chunks al1 ! c);
     Some ((c, off), al1\<lparr>da_chunks := (da_chunks al1)[c := chunk]\<rparr>) }"
  by (simp add: dyn_tallocr_alloc_def pick_block_def)

lemma dyn_alloc_spec:
  assumes inv: "al_inv al L" and n: "0 < n" "n \<le> SIZE_MAX div 4" and res: "dyn_tallocr_alloc n al = Some (addr, al')"
  shows "al_inv al' (insert (addr, n) L) \<and> (\<forall>x \<in> L. apart (addr, n) x)"
proof -
  let ?A = "da_alignment al"
  note I = al_invD [OF inv]
  have sz: "aligned_offset 0 n ?A = Some (asz ?A n)" "0 < asz ?A n" "asz ?A n \<le> SIZE_MAX div 2"
    using aligned_offset_eq [of ?A n] I(1,2) asz_bound [OF I(1,3) n(2)] asz_props(3) [OF n(1)] by simp_all
  from res sz(1) obtain c b al1 off ch where
    step: "pick_block (asz ?A n) al = Some ((c, b), al1)" "take_block (asz ?A n) b (da_chunks al1 ! c) = Some (off, ch)"
      "addr = (c, off)" "al' = al1\<lparr>da_chunks := (da_chunks al1)[c := ch]\<rparr>"
    by (auto simp: dyn_alloc_unfold split: Option.bind_splits)
  from pick_block_spec [OF inv step(1) sz(2,3)] have P: "al_inv al1 L" "c < length (da_chunks al1)" "b < n_free_blocks (da_chunks al1 ! c)"
    "asz ?A n \<le> fb_size (free_blocks (da_chunks al1 ! c) ! b)" "da_alignment al1 = ?A" by simp_all
  obtain cap where cap: "0 < cap" "chunk_inv ?A cap (chunk_live L c) (da_chunks al1 ! c)" using al_invD(6) [OF P(1,2)] P(5) by auto
  have fit: "asz ?A n \<le> snd (blocks (da_chunks al1 ! c) ! b)" using P(3,4) blocks_nth [OF chunk_invD(1) [OF cap(2)]] by simp
  from take_block_spec [OF cap(2) P(3) _ I(1) n(1) fit] step(2) have
    T: "chunk_inv ?A cap (insert (off, n) (chunk_live L c)) ch" "taken ?A (off, n) \<inter> (\<Union>x \<in> chunk_live L c. taken ?A x) = {}" by auto
  have "al_inv al' (insert (addr, n) L)"
    unfolding al_inv_def
  proof (intro conjI allI impI ballI)
    fix k assume k: "k < length (da_chunks al')"
    show "\<exists>cap > 0. chunk_inv (da_alignment al') cap (chunk_live (insert (addr, n) L) k) (da_chunks al' ! k)"
    proof (cases "k = c")
      case True
      with T(1) cap(1) P(2,5) show ?thesis by (auto simp: step(3,4) chunk_live_insert)
    next
      case False
      with al_invD(6) [OF P(1), of k] k show ?thesis by (simp add: step(3,4) chunk_live_insert)
    qed
  qed (use al_invD [OF P(1)] P(2) in \<open>auto simp: step(3,4)\<close>)
  moreover have "apart (addr, n) x" if "x \<in> L" for x
  proof -
    obtain c' p s where x: "x = ((c', p), s)" by (metis surj_pair)
    have "taken ?A (off, n) \<inter> taken ?A (p, s) = {}" if "c = c'"
      using T(2) \<open>x \<in> L\<close> that by (force simp: x chunk_live_def)
    then show ?thesis unfolding x step(3) by (rule apartI [OF I(1)])
  qed
  ultimately show ?thesis by blast
qed

lemma dyn_free_spec:
  assumes inv: "al_inv al L" and x: "(addr, n) \<in> L" "n \<le> SIZE_MAX div 4" and res: "dyn_tallocr_free_tensor addr n al = Some al'"
  shows "al_inv al' (L - {(addr, n)})"
proof -
  let ?A = "da_alignment al"
  note I = al_invD [OF inv]
  obtain c p where addr: "addr = (c, p)" by (cases addr)
  have sz: "aligned_offset 0 n ?A = Some (asz ?A n)"
    using aligned_offset_eq [of ?A n] I(1,2) asz_bound [OF I(1,3) x(2)] by simp
  have c: "c < length (da_chunks al)" using I(5) [OF x(1)] addr by simp
  from res sz c obtain ch where ch: "free_in_chunk p (asz ?A n) (da_chunks al ! c) = Some ch" "al' = al\<lparr>da_chunks := (da_chunks al)[c := ch]\<rparr>"
    by (auto simp: dyn_tallocr_free_tensor_def addr split: Option.bind_splits)
  obtain cap where cap: "0 < cap" "chunk_inv ?A cap (chunk_live L c) (da_chunks al ! c)" using I(6) [OF c] by auto
  have mem: "(p, n) \<in> chunk_live L c" using x(1) addr by (simp add: chunk_live_def)
  from chunk_free_spec [OF cap(2) mem] ch(1) have T: "chunk_inv ?A cap (chunk_live L c - {(p, n)}) ch" by auto
  show ?thesis
    unfolding al_inv_def
  proof (intro conjI allI impI ballI)
    fix k assume k: "k < length (da_chunks al')"
    show "\<exists>cap > 0. chunk_inv (da_alignment al') cap (chunk_live (L - {(addr, n)}) k) (da_chunks al' ! k)"
    proof (cases "k = c")
      case True
      with T cap(1) c show ?thesis by (auto simp: addr ch(2) chunk_live_remove)
    next
      case False
      with I(6) [of k] k show ?thesis by (simp add: addr ch(2) chunk_live_remove)
    qed
  qed (use I in \<open>auto simp: ch(2)\<close>)
qed

section \<open>The contract of an allocator\<close>

text \<open>
  What a client may rely on: while \<open>L\<close> is the set of its live allocations (address and size), a new one
  is apart from all of them, and freeing one leaves the others alone.
\<close>

locale region_allocator =
  fixes alloc :: "nat \<Rightarrow> 's \<Rightarrow> ('a \<times> 's) option"
    and free :: "'a \<Rightarrow> nat \<Rightarrow> 's \<Rightarrow> 's option"
    and ainv :: "'s \<Rightarrow> ('a \<times> nat) set \<Rightarrow> bool"
    and sep :: "'a \<times> nat \<Rightarrow> 'a \<times> nat \<Rightarrow> bool"
    and limit :: nat
  assumes alloc_ok: "ainv s L \<Longrightarrow> 0 < n \<Longrightarrow> n \<le> limit \<Longrightarrow> alloc n s = Some (a, s') \<Longrightarrow> ainv s' (insert (a, n) L) \<and> (\<forall>x \<in> L. sep (a, n) x)"
    and free_ok: "ainv s L \<Longrightarrow> (a, n) \<in> L \<Longrightarrow> n \<le> limit \<Longrightarrow> free a n s = Some s' \<Longrightarrow> ainv s' (L - {(a, n)})"
    and live_sep: "ainv s L \<Longrightarrow> x \<in> L \<Longrightarrow> y \<in> L \<Longrightarrow> x \<noteq> y \<Longrightarrow> sep x y"
begin

text \<open>The states a client can reach from a starting state, with its live allocations.\<close>

inductive run :: "'s \<Rightarrow> 's \<Rightarrow> ('a \<times> nat) set \<Rightarrow> bool" for s0 where
  start: "run s0 s0 {}"
| alloc: "run s0 s L \<Longrightarrow> 0 < n \<Longrightarrow> n \<le> limit \<Longrightarrow> alloc n s = Some (a, s') \<Longrightarrow> run s0 s' (insert (a, n) L)"
| free: "run s0 s L \<Longrightarrow> (a, n) \<in> L \<Longrightarrow> n \<le> limit \<Longrightarrow> free a n s = Some s' \<Longrightarrow> run s0 s' (L - {(a, n)})"

lemma run_inv:
  assumes "ainv s0 {}" "run s0 s L"
  shows "ainv s L"
  using assms(2)
proof (induction rule: run.induct)
  case start
  show ?case by (rule assms(1))
next
  case (alloc s L n a s')
  from alloc_ok [OF alloc.IH alloc.hyps(2-4)] show ?case ..
next
  case (free s L a n s')
  from free_ok [OF free.IH free.hyps(2-4)] show ?case .
qed

lemma run_sep: "ainv s0 {} \<Longrightarrow> run s0 s L \<Longrightarrow> x \<in> L \<Longrightarrow> y \<in> L \<Longrightarrow> x \<noteq> y \<Longrightarrow> sep x y"
  by (rule live_sep [OF run_inv])

end

interpretation dyn: region_allocator dyn_tallocr_alloc dyn_tallocr_free_tensor al_inv apart "SIZE_MAX div 4"
proof
  show "al_inv s L \<Longrightarrow> 0 < n \<Longrightarrow> n \<le> SIZE_MAX div 4 \<Longrightarrow> dyn_tallocr_alloc n s = Some (a, s') \<Longrightarrow> al_inv s' (insert (a, n) L) \<and> (\<forall>x \<in> L. apart (a, n) x)"
    for s L n a s' by (rule dyn_alloc_spec)
  show "al_inv s L \<Longrightarrow> (a, n) \<in> L \<Longrightarrow> n \<le> SIZE_MAX div 4 \<Longrightarrow> dyn_tallocr_free_tensor a n s = Some s' \<Longrightarrow> al_inv s' (L - {(a, n)})"
    for s L a n s' by (rule dyn_free_spec)
  show "al_inv s L \<Longrightarrow> x \<in> L \<Longrightarrow> y \<in> L \<Longrightarrow> x \<noteq> y \<Longrightarrow> apart x y" for s L x y by (rule al_inv_apart)
qed

lemma al_inv_new:
  assumes "A \<noteq> 0" "A AND (A - 1) = 0" "A \<le> SIZE_MAX div 4"
  shows "al_inv (dyn_tallocr_new A m) {}"
  using assms by (simp add: al_inv_def dyn_tallocr_new_def dyn_tallocr_reset_def)

lemma al_inv_reset: "al_inv al L \<Longrightarrow> al_inv (dyn_tallocr_reset al) {}"
  by (simp add: al_inv_def dyn_tallocr_reset_def)

section \<open>Properties\<close>

text \<open>The allocator a program can reach from a new one: requests of positive size, and live allocations given back.\<close>

inductive tallocr_run :: "nat \<Rightarrow> nat \<Rightarrow> dyn_tallocr \<Rightarrow> (buffer_address \<times> nat) set \<Rightarrow> bool" for A m where
  new: "tallocr_run A m (dyn_tallocr_new A m) {}"
| alloc: "tallocr_run A m al L \<Longrightarrow> 0 < n \<Longrightarrow> n \<le> SIZE_MAX div 4 \<Longrightarrow> dyn_tallocr_alloc n al = Some (addr, al') \<Longrightarrow> tallocr_run A m al' (insert (addr, n) L)"
| free: "tallocr_run A m al L \<Longrightarrow> (addr, n) \<in> L \<Longrightarrow> dyn_tallocr_free_tensor addr n al = Some al' \<Longrightarrow> tallocr_run A m al' (L - {(addr, n)})"

lemma tallocr_run_small: "tallocr_run A m al L \<Longrightarrow> x \<in> L \<Longrightarrow> 0 < snd x \<and> snd x \<le> SIZE_MAX div 4"
  by (induction rule: tallocr_run.induct) auto

lemma tallocr_run_dyn: "tallocr_run A m al L \<Longrightarrow> dyn.run (dyn_tallocr_new A m) al L"
proof (induction rule: tallocr_run.induct)
  case (free al L addr n al')
  from tallocr_run_small [OF free.hyps(1,2)] have "n \<le> SIZE_MAX div 4" by simp
  with free show ?case by (intro dyn.run.free)
qed (auto intro: dyn.run.intros)

lemma tallocr_run_inv:
  assumes "A \<noteq> 0" "A AND (A - 1) = 0" "A \<le> SIZE_MAX div 4" "tallocr_run A m al L"
  shows "al_inv al L"
  by (rule dyn.run_inv [OF al_inv_new tallocr_run_dyn]) (use assms in auto)

lemma tallocr_run_alignment: "tallocr_run A m al L \<Longrightarrow> da_alignment al = A"
proof (induction rule: tallocr_run.induct)
  case (alloc al L n addr al')
  then show ?case
    by (auto simp: dyn_alloc_unfold pick_block_def new_chunk_def Let_def split: Option.bind_splits option.splits if_splits)
next
  case (free al L addr n al')
  then show ?case by (auto simp: dyn_tallocr_free_tensor_def split: Option.bind_splits)
qed (simp add: dyn_tallocr_new_def dyn_tallocr_reset_def)

text \<open>C30: in every state the allocator can reach, the memory of two live tensors never overlaps, every
  address is aligned, and every tensor ends within the size recorded for its chunk, which is the size of the
  buffer that is allocated for it.\<close>

theorem tallocr_disjoint:
  assumes "A \<noteq> 0" "A AND (A - 1) = 0" "A \<le> SIZE_MAX div 4" and "tallocr_run A m al L"
    and "((c, off), n) \<in> L" and "((c', off'), n') \<in> L"
  shows "A dvd off \<and> off + n \<le> dyn_tallocr_max_size al c \<and>
    (((c, off), n) = ((c', off'), n') \<or> c \<noteq> c' \<or> {off..<off + n} \<inter> {off'..<off' + n'} = {})"
proof -
  note inv = tallocr_run_inv [OF assms(1-4)] and A = tallocr_run_alignment [OF assms(4)]
  from al_invD(5) [OF inv assms(5)] have c: "c < length (da_chunks al)" by simp
  obtain cap where "chunk_inv A cap (chunk_live L c) (da_chunks al ! c)" using al_invD(6) [OF inv c] A by auto
  from chunk_invD(5) [OF this] assms(5) have "A dvd off" "off + asz A n \<le> max_size (da_chunks al ! c)" by (auto simp: chunk_live_def)
  moreover have "n \<le> asz A n" using assms(1) asz_props(1) by simp
  moreover have "((c, off), n) \<noteq> ((c', off'), n') \<Longrightarrow> apart ((c, off), n) ((c', off'), n')" by (rule al_inv_apart [OF inv assms(5,6)])
  ultimately show ?thesis using c by (auto simp: dyn_tallocr_max_size_def apart_def span_def)
qed

definition demo_al :: dyn_tallocr where
  "demo_al = \<lparr>da_alignment = 8, da_max_chunk_size = 100, da_chunks = [\<lparr>free_blocks = (replicate MAX_FREE_BLOCKS \<lparr>fb_offset = 0, fb_size = 0\<rparr>)[0 := \<lparr>fb_offset = 40, fb_size = 60\<rparr>],
     n_free_blocks = 1, max_size = 40\<rparr>]\<rparr>"

lemma demo_al_run: "tallocr_run 8 100 demo_al {((0, 16), 20), ((0, 0), 10)}"
proof -
  let ?al1 = "\<lparr>da_alignment = 8, da_max_chunk_size = 100, da_chunks = [\<lparr>free_blocks = (replicate MAX_FREE_BLOCKS \<lparr>fb_offset = 0, fb_size = 0\<rparr>)[0 := \<lparr>fb_offset = 16, fb_size = 84\<rparr>],
     n_free_blocks = 1, max_size = 16\<rparr>]\<rparr>"
  have a1: "dyn_tallocr_alloc 10 (dyn_tallocr_new 8 100) = Some ((0, 0), ?al1)"
    by (simp add: dyn_tallocr_alloc_def dyn_tallocr_new_def dyn_tallocr_reset_def aligned_offset_def sz_add_def sz_sub_def SIZE_MAX_def fit_inner_def fit_last_def
        new_chunk_def GGML_VBUFFER_MAX_CHUNKS_def take_block_def MAX_FREE_BLOCKS_def Let_def)
  have a2: "dyn_tallocr_alloc 20 ?al1 = Some ((0, 16), demo_al)"
    by (simp add: dyn_tallocr_alloc_def aligned_offset_def sz_add_def sz_sub_def SIZE_MAX_def fit_inner_def fit_last_def take_block_def MAX_FREE_BLOCKS_def Let_def demo_al_def)
  have "tallocr_run 8 100 ?al1 {((0, 0), 10)}" by (rule tallocr_run.alloc [OF tallocr_run.new _ _ a1]) (simp_all add: SIZE_MAX_def)
  from tallocr_run.alloc [OF this _ _ a2] show ?thesis by (simp add: SIZE_MAX_def)
qed

theorem tallocr_disjoint_witness: "8 dvd (16 :: nat) \<and> 16 + 20 \<le> dyn_tallocr_max_size demo_al 0 \<and> {16..<16 + 20} \<inter> {0..<0 + 10 :: nat} = {}"
proof -
  have "(8 :: nat) \<le> SIZE_MAX div 4" "(8 :: nat) AND (8 - 1) = 0" by (simp_all add: SIZE_MAX_def)
  from tallocr_disjoint [OF _ this(2,1) demo_al_run, of 0 16 20 0 0 10] show ?thesis by simp
qed

lemma canon_whole:
  assumes "canon bs" "region bs = {..<cap}" "0 < cap"
  shows "bs = [(0, cap)]"
proof -
  have "0 \<in> region bs" using assms(2,3) by simp
  then obtain x where x: "x \<in> set bs" "0 \<in> span x" by (auto simp: region_def)
  obtain pre post where split: "bs = pre @ x # post" using x(1) by (auto simp: in_set_conv_decomp)
  have fx: "fst x = 0" "0 < snd x" using x(2) by (auto simp: span_def)
  have pre: "pre = []" using assms(1) fx unfolding split by (cases pre) (auto simp: canon_append canon_Cons)
  have sx: "snd x \<le> cap"
  proof (rule ccontr)
    assume "\<not> snd x \<le> cap"
    then have "cap \<in> span x" using fx by (simp add: span_def)
    then have "cap \<in> region bs" using x(1) by (auto simp: region_def)
    then show False using assms(2) by simp
  qed
  have "snd x = cap"
  proof (rule ccontr)
    assume "snd x \<noteq> cap"
    then have "snd x \<in> region bs" using sx assms(2) by simp
    moreover have "snd x \<notin> span x" using fx by (simp add: span_def)
    ultimately obtain y where y: "y \<in> set post" "snd x \<in> span y" unfolding split pre by (auto simp: region_def)
    then have "snd x < fst y" using assms(1) fx unfolding split by (auto simp: canon_append canon_Cons)
    then show False using y(2) by (simp add: span_def)
  qed
  moreover have "post = []"
  proof (rule ccontr)
    assume "post \<noteq> []"
    then obtain y where y: "y \<in> set post" by (cases post) auto
    then have "snd x < fst y" using assms(1) fx unfolding split by (auto simp: canon_append canon_Cons)
    moreover have "0 < snd y" using assms(1) y unfolding split by (simp add: canon_def)
    ultimately have "snd x < fst y" "0 < snd y" .
    then have "fst y \<in> region bs" using y unfolding split by (auto simp: region_def span_def)
    with assms(2) \<open>snd x < fst y\<close> \<open>snd x = cap\<close> show False by simp
  qed
  ultimately show ?thesis using split pre fx by (cases x) simp
qed

text \<open>C31: nothing is lost to fragmentation: once every live tensor has been given back, in whatever order, each
  chunk is again a single free block that starts at offset 0 and covers the whole chunk.\<close>

theorem tallocr_all_freed:
  assumes "A \<noteq> 0" "A AND (A - 1) = 0" "A \<le> SIZE_MAX div 4" and "tallocr_run A m al {}" and "c < length (da_chunks al)"
  shows "\<exists>cap > 0. blocks (da_chunks al ! c) = [(0, cap)]"
proof -
  note inv = tallocr_run_inv [OF assms(1-4)]
  obtain cap where cap: "0 < cap" "chunk_inv (da_alignment al) cap (chunk_live {} c) (da_chunks al ! c)" using al_invD(6) [OF inv assms(5)] by auto
  have "chunk_live {} c = {}" by (simp add: chunk_live_def)
  with chunk_invD(2,7) [OF cap(2)] canon_whole [OF _ _ cap(1)] cap(1) show ?thesis by auto
qed

theorem tallocr_all_freed_witness:
  "\<exists>al1 al2. dyn_tallocr_free_tensor (0, 0) 10 demo_al = Some al1 \<and> dyn_tallocr_free_tensor (0, 16) 20 al1 = Some al2 \<and> (\<exists>cap > 0. blocks (da_chunks al2 ! 0) = [(0, cap)])"
proof -
  have one: "\<exists>al'. dyn_tallocr_free_tensor (0, p) n al = Some al' \<and> length (da_chunks al') = 1 \<and> n_free_blocks (da_chunks al' ! 0) \<le> n_free_blocks (da_chunks al ! 0) + 1"
    if inv: "tallocr_run 8 100 al L" "((0, p), n) \<in> L" and len: "length (da_chunks al) = 1" "n_free_blocks (da_chunks al ! 0) < MAX_FREE_BLOCKS" and n: "n \<le> 100" for al L p n
  proof -
    have ai: "al_inv al L" by (rule tallocr_run_inv [OF _ _ _ inv(1)]) (simp_all add: SIZE_MAX_def)
    have A: "da_alignment al = 8" by (rule tallocr_run_alignment [OF inv(1)])
    obtain cap where cap: "chunk_inv 8 cap (chunk_live L 0) (da_chunks al ! 0)" using al_invD(6) [OF ai, of 0] len(1) A by auto
    have "(p, n) \<in> chunk_live L 0" using inv(2) by (simp add: chunk_live_def)
    from chunk_free_spec [OF cap this] len(2) obtain ch where
      ch: "free_in_chunk p (asz 8 n) (da_chunks al ! 0) = Some ch" "n_free_blocks ch \<le> n_free_blocks (da_chunks al ! 0) + 1" by blast
    have "aligned_offset 0 n 8 = Some (asz 8 n)" using n by (intro aligned_offset_eq) (simp_all add: SIZE_MAX_def)
    with ch len(1) A show ?thesis by (simp add: dyn_tallocr_free_tensor_def)
  qed
  have d: "length (da_chunks demo_al) = 1" "n_free_blocks (da_chunks demo_al ! 0) = 1" by (simp_all add: demo_al_def)
  from one [OF demo_al_run, of 0 10] d obtain al1 where
    al1: "dyn_tallocr_free_tensor (0, 0) 10 demo_al = Some al1" "length (da_chunks al1) = 1" "n_free_blocks (da_chunks al1 ! 0) \<le> 2" by (auto simp: MAX_FREE_BLOCKS_def)
  have r1: "tallocr_run 8 100 al1 {((0, 16), 20)}" using tallocr_run.free [OF demo_al_run _ al1(1)] by (simp add: insert_Diff_if)
  from one [OF r1, of 16 20] al1(2,3) obtain al2 where al2: "dyn_tallocr_free_tensor (0, 16) 20 al1 = Some al2" "length (da_chunks al2) = 1" by (auto simp: MAX_FREE_BLOCKS_def)
  have r2: "tallocr_run 8 100 al2 {}" using tallocr_run.free [OF r1 _ al2(1)] by simp
  have "\<exists>cap > 0. blocks (da_chunks al2 ! 0) = [(0, cap)]"
    by (rule tallocr_all_freed [OF _ _ _ r2]) (simp_all add: SIZE_MAX_def al2(2))
  with al1(1) al2(1) show ?thesis by blast
qed

lemma pick_block_total:
  assumes "length (da_chunks al) < GGML_VBUFFER_MAX_CHUNKS \<or>
    (\<exists>c < length (da_chunks al). n_free_blocks (da_chunks al ! c) > 0 \<and> sz \<le> fb_size (free_blocks (da_chunks al ! c) ! (n_free_blocks (da_chunks al ! c) - 1)))"
  shows "\<exists>c b al'. pick_block sz al = Some ((c, b), al')"
proof (cases "fit_inner sz al")
  case inner: None
  show ?thesis
  proof (cases "fit_last sz al")
    case None
    then have "\<not> (\<exists>c < length (da_chunks al). n_free_blocks (da_chunks al ! c) > 0 \<and> sz \<le> fb_size (free_blocks (da_chunks al ! c) ! (n_free_blocks (da_chunks al ! c) - 1)))"
      by (auto simp: fit_last_def find_None_iff Let_def)
    with assms inner None show ?thesis by (auto simp: pick_block_def new_chunk_def Let_def)
  qed (use inner in \<open>auto simp: pick_block_def\<close>)
qed (auto simp: pick_block_def)

text \<open>An allocation never aborts while chunks remain to be opened or the last block of some chunk is large
  enough, as long as no chunk has used up its 256 free blocks.\<close>

theorem tallocr_alloc_succeeds:
  assumes "A \<noteq> 0" "A AND (A - 1) = 0" "A \<le> SIZE_MAX div 4" and "tallocr_run A m al L" and "0 < n" "n \<le> SIZE_MAX div 4"
    and "\<forall>c < length (da_chunks al). n_free_blocks (da_chunks al ! c) < MAX_FREE_BLOCKS"
    and "length (da_chunks al) < GGML_VBUFFER_MAX_CHUNKS \<or>
      (\<exists>c < length (da_chunks al). n_free_blocks (da_chunks al ! c) > 0 \<and> asz A n \<le> fb_size (free_blocks (da_chunks al ! c) ! (n_free_blocks (da_chunks al ! c) - 1)))"
  shows "\<exists>addr al'. dyn_tallocr_alloc n al = Some (addr, al') \<and> tallocr_run A m al' (insert (addr, n) L)"
proof -
  note inv = tallocr_run_inv [OF assms(1-4)] and A = tallocr_run_alignment [OF assms(4)]
  note I = al_invD [OF inv, unfolded A]
  have sz: "aligned_offset 0 n A = Some (asz A n)" "0 < asz A n" "asz A n \<le> SIZE_MAX div 2"
    using aligned_offset_eq [of A n] I(1,2) asz_bound [OF I(1,3) assms(6)] asz_props(3) [OF assms(5)] by simp_all
  obtain c b al1 where pick: "pick_block (asz A n) al = Some ((c, b), al1)" using pick_block_total [OF assms(8)] by blast
  from pick_block_spec [OF inv pick sz(2,3)] have P: "al_inv al1 L" "c < length (da_chunks al1)" "b < n_free_blocks (da_chunks al1 ! c)"
    "asz A n \<le> fb_size (free_blocks (da_chunks al1 ! c) ! b)" "da_alignment al1 = A" "n_free_blocks (da_chunks al1 ! c) < MAX_FREE_BLOCKS"
    using assms(7) A by (auto simp: MAX_FREE_BLOCKS_def)
  obtain cap where cap: "0 < cap" "chunk_inv A cap (chunk_live L c) (da_chunks al1 ! c)" using al_invD(6) [OF P(1,2)] P(5) by auto
  have fit: "asz A n \<le> snd (blocks (da_chunks al1 ! c) ! b)" using P(3,4) blocks_nth [OF chunk_invD(1) [OF cap(2)]] by simp
  from take_block_spec [OF cap(2) P(3) _ I(1) assms(5) fit] P(6) obtain off ch where "take_block (asz A n) b (da_chunks al1 ! c) = Some (off, ch)" by blast
  then have "dyn_tallocr_alloc n al = Some ((c, off), al1\<lparr>da_chunks := (da_chunks al1)[c := ch]\<rparr>)" using sz(1) pick A by (simp add: dyn_alloc_unfold)
  with tallocr_run.alloc [OF assms(4-6)] show ?thesis by blast
qed

theorem tallocr_alloc_succeeds_witness: "\<exists>addr al'. dyn_tallocr_alloc 1000 demo_al = Some (addr, al') \<and> tallocr_run 8 100 al' (insert (addr, 1000) {((0, 16), 20), ((0, 0), 10)})"
  by (rule tallocr_alloc_succeeds [OF _ _ _ demo_al_run]) (simp_all add: SIZE_MAX_def demo_al_def MAX_FREE_BLOCKS_def GGML_VBUFFER_MAX_CHUNKS_def)

text \<open>The search takes the best fit of the last chunk that has a fit, not the best fit of all chunks.\<close>

lemma best_fit_per_chunk:
  "fit_inner 64 \<lparr>da_alignment = 8, da_max_chunk_size = 1000, da_chunks =
     [\<lparr>free_blocks = [\<lparr>fb_offset = 0, fb_size = 64\<rparr>, \<lparr>fb_offset = 100, fb_size = 900\<rparr>], n_free_blocks = 2, max_size = 100\<rparr>,
      \<lparr>free_blocks = [\<lparr>fb_offset = 0, fb_size = 512\<rparr>, \<lparr>fb_offset = 600, fb_size = 400\<rparr>], n_free_blocks = 2, max_size = 600\<rparr>]\<rparr> = Some (1, 0)"
  by (simp add: fit_inner_def fit_step_def Let_def SIZE_MAX_def numeral_2_eq_2)

end
