(* ===== verification/GraphAlloc.thy ===== *)
theory GraphAlloc
  imports DynTallocr GgmlTypes
begin

text \<open>
  The graph allocator of \<^verbatim>\<open>src/ggml/src/ggml-alloc.c\<close>: it walks over a computation graph, gives every tensor an
  address in one of the dynamic allocators, gives memory back after the last use, and lets a node take over the memory of
  a source that is used for the last time.

  Tensors are numbers (their addresses in C) and \<open>ts\<close> maps them to what the code reads of them.  The hash table from
  tensors to their book-keeping is a function; that it never overflows is left out.  \<open>asize\<close> is
  \<^verbatim>\<open>ggml_backend_buft_get_alloc_size\<close>, a function of the backend.
\<close>

section \<open>Tensors and graphs\<close>

definition GGML_MAX_SRC :: nat where
  "GGML_MAX_SRC = 10"

text \<open>The operators that may work in place, the empty one, and the others by their number.\<close>

datatype ggml_op = GGML_OP_NONE | GGML_OP_SCALE | GGML_OP_DIAG_MASK_ZERO | GGML_OP_DIAG_MASK_INF | GGML_OP_ADD | GGML_OP_ADD_ID | GGML_OP_ADD1
  | GGML_OP_SUB | GGML_OP_MUL | GGML_OP_DIV | GGML_OP_SQR | GGML_OP_SQRT | GGML_OP_LOG | GGML_OP_UNARY | GGML_OP_ROPE | GGML_OP_ROPE_BACK
  | GGML_OP_SILU_BACK | GGML_OP_RMS_NORM | GGML_OP_RMS_NORM_BACK | GGML_OP_SOFT_MAX | GGML_OP_SOFT_MAX_BACK | GGML_OP_OTHER nat

definition ggml_op_can_inplace :: "ggml_op \<Rightarrow> bool" where
  "ggml_op_can_inplace op = (case op of GGML_OP_NONE \<Rightarrow> False | GGML_OP_OTHER _ \<Rightarrow> False | _ \<Rightarrow> True)"

record gtensor =
  gt_type :: ggml_type
  gt_ne :: "nat list"
  gt_nb :: "nat list"
  gt_op :: ggml_op
  gt_input :: bool
  gt_output :: bool
  gt_src :: "nat option list"
  gt_view_src :: "nat option"
  gt_view_offs :: nat
  gt_data :: nat
  gt_buffer :: bool

record ggml_cgraph =
  cg_nodes :: "nat list"
  cg_leafs :: "nat list"

definition ggml_is_view :: "gtensor \<Rightarrow> bool" where
  "ggml_is_view t \<longleftrightarrow> gt_view_src t \<noteq> None"

definition ggml_are_same_layout :: "gtensor \<Rightarrow> gtensor \<Rightarrow> bool" where
  "ggml_are_same_layout a b \<longleftrightarrow> gt_type a = gt_type b \<and> (\<forall>i \<in> set [0..<4]. gt_ne a ! i = gt_ne b ! i \<and> gt_nb a ! i = gt_nb b ! i)"

text \<open>The sources that are not null, in order.\<close>

definition srcs :: "gtensor \<Rightarrow> nat list" where
  "srcs t = map the (filter (\<lambda>s. s \<noteq> None) (take GGML_MAX_SRC (gt_src t)))"

section \<open>The allocator of a graph\<close>

record hash_node =
  hn_n_children :: int
  hn_n_views :: int
  hn_buffer_id :: nat
  hn_addr :: buffer_address
  hn_allocated :: bool

definition hash_zero :: hash_node where
  "hash_zero = \<lparr>hn_n_children = 0, hn_n_views = 0, hn_buffer_id = 0, hn_addr = (0, 0), hn_allocated = False\<rparr>"

text \<open>
  \<open>ga_talloc_of\<close> are the pointers of \<^verbatim>\<open>buf_tallocs\<close>: equal buffer types share one allocator.  A virtual buffer is the list of
  its chunks, each with base address and size; the address \<open>None\<close> is \<^verbatim>\<open>GGML_BUFFER_ADDRESS_INVALID\<close>.
\<close>

record tensor_alloc =
  ta_buffer_id :: int
  ta_addr :: "buffer_address option"
  ta_size_max :: nat

record node_alloc =
  na_dst :: tensor_alloc
  na_src :: "tensor_alloc list"

type_synonym vbuffer = "(nat \<times> nat) list"

record gallocr =
  ga_bufts :: "nat list"
  ga_buffers :: "vbuffer option list"
  ga_talloc_of :: "nat list"
  ga_tallocs :: "dyn_tallocr list"
  ga_hash :: "nat \<Rightarrow> hash_node"
  ga_node_allocs :: "node_alloc list"
  ga_leaf_allocs :: "tensor_alloc list"

text \<open>\<open>alignment\<close> and \<open>max_size\<close> are the properties of a buffer type.\<close>

definition gallocr_new_n :: "(nat \<Rightarrow> nat) \<Rightarrow> (nat \<Rightarrow> nat) \<Rightarrow> nat list \<Rightarrow> gallocr" where
  "gallocr_new_n buft_alignment buft_max_size bufts =
     fold (\<lambda>i ga. case find (\<lambda>j. bufts ! i = bufts ! j) [0..<i] of
         Some j \<Rightarrow> ga\<lparr>ga_talloc_of := ga_talloc_of ga @ [ga_talloc_of ga ! j]\<rparr>
       | None \<Rightarrow> ga\<lparr>ga_talloc_of := ga_talloc_of ga @ [length (ga_tallocs ga)],
           ga_tallocs := ga_tallocs ga @ [dyn_tallocr_new (buft_alignment (bufts ! i)) (buft_max_size (bufts ! i))]\<rparr>)
       [0..<length bufts] \<lparr>ga_bufts = bufts, ga_buffers = replicate (length bufts) None, ga_talloc_of = [], ga_tallocs = [], ga_hash = (\<lambda>_. hash_zero), ga_node_allocs = [], ga_leaf_allocs = []\<rparr>"

definition put_hash :: "nat \<Rightarrow> hash_node \<Rightarrow> gallocr \<Rightarrow> gallocr" where
  "put_hash t h ga = ga\<lparr>ga_hash := (ga_hash ga)(t := h)\<rparr>"

definition gallocr_is_own :: "gallocr \<Rightarrow> nat \<Rightarrow> bool" where
  "gallocr_is_own ga t = hn_allocated (ga_hash ga t)"

definition gallocr_is_allocated :: "(nat \<Rightarrow> gtensor) \<Rightarrow> gallocr \<Rightarrow> nat \<Rightarrow> bool" where
  "gallocr_is_allocated ts ga t \<longleftrightarrow> gt_data (ts t) \<noteq> 0 \<or> hn_allocated (ga_hash ga t)"

text \<open>Can \<open>node\<close> take over the memory of \<open>parent\<close>?  The value is the allocator after it did.\<close>

definition try_parent :: "(nat \<Rightarrow> gtensor) \<Rightarrow> nat \<Rightarrow> nat \<Rightarrow> gallocr \<Rightarrow> gallocr option option" where
  "try_parent ts node parent ga =
     (let p_hn = ga_hash ga parent;
          take_over = (\<lambda>ga. put_hash parent ((ga_hash ga parent)\<lparr>hn_allocated := False\<rparr>)
            (put_hash node ((ga_hash ga node)\<lparr>hn_buffer_id := hn_buffer_id p_hn, hn_addr := hn_addr p_hn\<rparr>) ga))
      in if \<not> gallocr_is_own ga parent then Some None
         else if gt_output (ts parent) \<or> (case gt_view_src (ts parent) of None \<Rightarrow> False | Some v \<Rightarrow> gt_output (ts v)) then Some None
         else if \<not> ggml_are_same_layout (ts node) (ts parent) then Some None
         else if hn_n_children p_hn = 1 \<and> hn_n_views p_hn = 0 then
           (case gt_view_src (ts parent) of
              Some view_src \<Rightarrow>
                let v_hn = ga_hash ga view_src in
                if hn_n_views v_hn = 1 \<and> hn_n_children v_hn = 0 \<and> gt_data (ts view_src) = gt_data (ts parent) then do {
                  guard (hn_addr v_hn = hn_addr p_hn);
                  let ga' = take_over ga;
                  Some (Some (put_hash view_src ((ga_hash ga' view_src)\<lparr>hn_allocated := False\<rparr>) ga'))
                } else Some None
            | None \<Rightarrow> Some (Some (take_over ga)))
         else Some None)"

fun try_parents :: "(nat \<Rightarrow> gtensor) \<Rightarrow> nat \<Rightarrow> nat list \<Rightarrow> gallocr \<Rightarrow> gallocr option option" where
  "try_parents ts node [] ga = Some None"
| "try_parents ts node (p # ps) ga = do {
     r \<leftarrow> try_parent ts node p ga;
     (case r of Some ga' \<Rightarrow> Some (Some ga') | None \<Rightarrow> try_parents ts node ps ga)
   }"

definition alloc_fresh :: "(nat \<Rightarrow> gtensor \<Rightarrow> nat) \<Rightarrow> (nat \<Rightarrow> gtensor) \<Rightarrow> nat \<Rightarrow> int \<Rightarrow> gallocr \<Rightarrow> gallocr option" where
  "alloc_fresh asize ts node buffer_id ga = do {
     let b = nat buffer_id;
     guard (b < length (ga_bufts ga));
     let k = ga_talloc_of ga ! b;
     (addr, al) \<leftarrow> dyn_tallocr_alloc (asize (ga_bufts ga ! b) (ts node)) (ga_tallocs ga ! k);
     Some (put_hash node ((ga_hash ga node)\<lparr>hn_buffer_id := b, hn_addr := addr\<rparr>) (ga\<lparr>ga_tallocs := (ga_tallocs ga)[k := al]\<rparr>))
   }"

definition allocate_node :: "(nat \<Rightarrow> gtensor \<Rightarrow> nat) \<Rightarrow> (nat \<Rightarrow> gtensor) \<Rightarrow> nat \<Rightarrow> int \<Rightarrow> gallocr \<Rightarrow> gallocr option" where
  "allocate_node asize ts node buffer_id ga = do {
     guard (buffer_id \<ge> 0);
     if gallocr_is_allocated ts ga node \<or> ggml_is_view (ts node) then Some ga
     else do {
       let ga1 = put_hash node ((ga_hash ga node)\<lparr>hn_allocated := True\<rparr>) ga;
       guard (snd (hn_addr (ga_hash ga node)) = 0);
       reused \<leftarrow> (if ggml_op_can_inplace (gt_op (ts node)) then try_parents ts node (srcs (ts node)) ga1 else Some None);
       (case reused of Some ga2 \<Rightarrow> Some ga2 | None \<Rightarrow> alloc_fresh asize ts node buffer_id ga1)
     }
   }"

definition free_node :: "(nat \<Rightarrow> gtensor \<Rightarrow> nat) \<Rightarrow> (nat \<Rightarrow> gtensor) \<Rightarrow> nat \<Rightarrow> gallocr \<Rightarrow> gallocr option" where
  "free_node asize ts node ga = (if gt_output (ts node) then Some ga
     else do {
       let hn = ga_hash ga node;
       let b = hn_buffer_id hn;
       let k = ga_talloc_of ga ! b;
       al \<leftarrow> dyn_tallocr_free_tensor (hn_addr hn) (asize (ga_bufts ga ! b) (ts node)) (ga_tallocs ga ! k);
       Some (put_hash node (hn\<lparr>hn_allocated := False\<rparr>) (ga\<lparr>ga_tallocs := (ga_tallocs ga)[k := al]\<rparr>))
     })"

definition get_node_buffer_id :: "int list option \<Rightarrow> nat \<Rightarrow> int" where
  "get_node_buffer_id ids i = (case ids of None \<Rightarrow> 0 | Some xs \<Rightarrow> xs ! i)"

definition add_children :: "int \<Rightarrow> nat \<Rightarrow> gallocr \<Rightarrow> gallocr" where
  "add_children n t ga = put_hash t ((ga_hash ga t)\<lparr>hn_n_children := hn_n_children (ga_hash ga t) + n\<rparr>) ga"

definition add_views :: "int \<Rightarrow> nat \<Rightarrow> gallocr \<Rightarrow> gallocr" where
  "add_views n t ga = put_hash t ((ga_hash ga t)\<lparr>hn_n_views := hn_n_views (ga_hash ga t) + n\<rparr>) ga"

definition count_node :: "(nat \<Rightarrow> gtensor \<Rightarrow> nat) \<Rightarrow> (nat \<Rightarrow> gtensor) \<Rightarrow> int \<Rightarrow> nat \<Rightarrow> gallocr \<Rightarrow> gallocr option" where
  "count_node asize ts buffer_id node ga = do {
     let ga1 = (case gt_view_src (ts node) of Some v \<Rightarrow> if gt_op (ts node) \<noteq> GGML_OP_NONE then add_views 1 v ga else ga | None \<Rightarrow> ga);
     ga2 \<leftarrow> (if gt_input (ts node) then allocate_node asize ts node buffer_id ga1 else Some ga1);
     foldM (\<lambda>src ga. let ga' = add_children 1 src ga in if gt_input (ts src) then allocate_node asize ts src buffer_id ga' else Some ga') (srcs (ts node)) ga2
   }"

definition update_parent :: "(nat \<Rightarrow> gtensor \<Rightarrow> nat) \<Rightarrow> (nat \<Rightarrow> gtensor) \<Rightarrow> nat \<Rightarrow> gallocr \<Rightarrow> gallocr option" where
  "update_parent asize ts parent ga =
     (let ga1 = add_children (- 1) parent ga; p_hn = ga_hash ga1 parent in
      if hn_n_children p_hn = 0 \<and> hn_n_views p_hn = 0 then
        (case gt_view_src (ts parent) of
           Some view_src \<Rightarrow>
             let ga2 = add_views (- 1) view_src ga1; v_hn = ga_hash ga2 view_src in
             if hn_n_views v_hn = 0 \<and> hn_n_children v_hn = 0 \<and> hn_allocated v_hn then free_node asize ts view_src ga2 else Some ga2
         | None \<Rightarrow> if hn_allocated p_hn then free_node asize ts parent ga1 else Some ga1)
      else Some ga1)"

definition exec_node :: "(nat \<Rightarrow> gtensor \<Rightarrow> nat) \<Rightarrow> (nat \<Rightarrow> gtensor) \<Rightarrow> int \<Rightarrow> nat \<Rightarrow> gallocr \<Rightarrow> gallocr option" where
  "exec_node asize ts buffer_id node ga = do {
     ga1 \<leftarrow> foldM (\<lambda>parent. allocate_node asize ts parent buffer_id) (srcs (ts node)) ga;
     ga2 \<leftarrow> allocate_node asize ts node buffer_id ga1;
     foldM (update_parent asize ts) (srcs (ts node)) ga2
   }"

definition alloc_graph_impl :: "(nat \<Rightarrow> gtensor \<Rightarrow> nat) \<Rightarrow> (nat \<Rightarrow> gtensor) \<Rightarrow> ggml_cgraph \<Rightarrow> int list option \<Rightarrow> int list option \<Rightarrow> gallocr \<Rightarrow> gallocr option" where
  "alloc_graph_impl asize ts graph node_buffer_ids leaf_buffer_ids ga = do {
     let ga0 = ga\<lparr>ga_hash := (\<lambda>_. hash_zero)\<rparr>;
     ga1 \<leftarrow> foldM (\<lambda>i. allocate_node asize ts (cg_leafs graph ! i) (get_node_buffer_id leaf_buffer_ids i)) [0..<length (cg_leafs graph)] ga0;
     ga2 \<leftarrow> foldM (\<lambda>i. count_node asize ts (get_node_buffer_id node_buffer_ids i) (cg_nodes graph ! i)) [0..<length (cg_nodes graph)] ga1;
     foldM (\<lambda>i. exec_node asize ts (get_node_buffer_id node_buffer_ids i) (cg_nodes graph ! i)) [0..<length (cg_nodes graph)] ga2
   }"

section \<open>Memory of the tensors\<close>

lemma put_hash_simps [simp]:
  "ga_hash (put_hash t h ga) s = (if s = t then h else ga_hash ga s)" "ga_bufts (put_hash t h ga) = ga_bufts ga"
  "ga_talloc_of (put_hash t h ga) = ga_talloc_of ga" "ga_tallocs (put_hash t h ga) = ga_tallocs ga" "ga_buffers (put_hash t h ga) = ga_buffers ga"
  by (simp_all add: put_hash_def)

definition tensor_size :: "(nat \<Rightarrow> gtensor \<Rightarrow> nat) \<Rightarrow> (nat \<Rightarrow> gtensor) \<Rightarrow> gallocr \<Rightarrow> nat \<Rightarrow> nat" where
  "tensor_size asize ts ga t = asize (ga_bufts ga ! hn_buffer_id (ga_hash ga t)) (ts t)"

definition talloc_idx :: "gallocr \<Rightarrow> nat \<Rightarrow> nat" where
  "talloc_idx ga t = ga_talloc_of ga ! hn_buffer_id (ga_hash ga t)"

definition own :: "gallocr \<Rightarrow> nat set" where
  "own ga = {t. hn_allocated (ga_hash ga t)}"

text \<open>The address and the size of a tensor, and what is live in allocator \<open>k\<close>.\<close>

definition place :: "(nat \<Rightarrow> gtensor \<Rightarrow> nat) \<Rightarrow> (nat \<Rightarrow> gtensor) \<Rightarrow> gallocr \<Rightarrow> nat \<Rightarrow> buffer_address \<times> nat" where
  "place asize ts ga t = (hn_addr (ga_hash ga t), tensor_size asize ts ga t)"

definition live_of :: "(nat \<Rightarrow> gtensor \<Rightarrow> nat) \<Rightarrow> (nat \<Rightarrow> gtensor) \<Rightarrow> gallocr \<Rightarrow> nat \<Rightarrow> (buffer_address \<times> nat) set" where
  "live_of asize ts ga k = place asize ts ga ` {t \<in> own ga. talloc_idx ga t = k}"

definition mem_apart :: "(nat \<Rightarrow> gtensor \<Rightarrow> nat) \<Rightarrow> (nat \<Rightarrow> gtensor) \<Rightarrow> gallocr \<Rightarrow> nat \<Rightarrow> nat \<Rightarrow> bool" where
  "mem_apart asize ts ga t t' \<longleftrightarrow> talloc_idx ga t \<noteq> talloc_idx ga t' \<or> apart (place asize ts ga t) (place asize ts ga t')"

text \<open>The allocator places the tensors that are no views and have no data of their own.\<close>

definition managed :: "(nat \<Rightarrow> gtensor) \<Rightarrow> nat \<Rightarrow> bool" where
  "managed ts t \<longleftrightarrow> gt_data (ts t) = 0 \<and> gt_view_src (ts t) = None"

text \<open>
  What is needed of the backend: a tensor has a positive size, far below the address range, that depends on its
  layout only. Empty tensors, and backends that add space for some operators as Metal does, are outside of this.
\<close>

definition sizes_ok :: "(nat \<Rightarrow> gtensor \<Rightarrow> nat) \<Rightarrow> (nat \<Rightarrow> gtensor) \<Rightarrow> bool" where
  "sizes_ok asize ts \<longleftrightarrow> (\<forall>b t. 0 < asize b (ts t) \<and> asize b (ts t) \<le> SIZE_MAX div 4) \<and>
     (\<forall>b x y. ggml_are_same_layout x y \<longrightarrow> asize b x = asize b y)"

definition shape_ok :: "gallocr \<Rightarrow> bool" where
  "shape_ok ga \<longleftrightarrow> length (ga_talloc_of ga) = length (ga_bufts ga) \<and> (\<forall>b < length (ga_bufts ga). ga_talloc_of ga ! b < length (ga_tallocs ga))"

definition mem_inv :: "(nat \<Rightarrow> gtensor \<Rightarrow> nat) \<Rightarrow> (nat \<Rightarrow> gtensor) \<Rightarrow> gallocr \<Rightarrow> bool" where
  "mem_inv asize ts ga \<longleftrightarrow> shape_ok ga \<and> (\<forall>k < length (ga_tallocs ga). al_inv (ga_tallocs ga ! k) (live_of asize ts ga k)) \<and>
     (\<forall>t \<in> own ga. managed ts t \<and> hn_buffer_id (ga_hash ga t) < length (ga_bufts ga)) \<and>
     (\<forall>t \<in> own ga. \<forall>t' \<in> own ga. t \<noteq> t' \<longrightarrow> mem_apart asize ts ga t t')"

lemma mem_invD:
  assumes "mem_inv asize ts ga"
  shows "shape_ok ga" "k < length (ga_tallocs ga) \<Longrightarrow> al_inv (ga_tallocs ga ! k) (live_of asize ts ga k)"
    "t \<in> own ga \<Longrightarrow> managed ts t" "t \<in> own ga \<Longrightarrow> hn_buffer_id (ga_hash ga t) < length (ga_bufts ga)"
    "t \<in> own ga \<Longrightarrow> t' \<in> own ga \<Longrightarrow> t \<noteq> t' \<Longrightarrow> mem_apart asize ts ga t t'"
    "t \<in> own ga \<Longrightarrow> talloc_idx ga t < length (ga_tallocs ga)"
  using assms by (auto simp: mem_inv_def shape_ok_def talloc_idx_def)

text \<open>What a step leaves as it is: the places of all tensors outside \<open>X\<close>, and the counters.\<close>

definition same_places :: "nat set \<Rightarrow> gallocr \<Rightarrow> gallocr \<Rightarrow> bool" where
  "same_places X ga ga' \<longleftrightarrow> ga_bufts ga' = ga_bufts ga \<and> ga_talloc_of ga' = ga_talloc_of ga \<and> length (ga_tallocs ga') = length (ga_tallocs ga) \<and>
     (\<forall>t. t \<notin> X \<longrightarrow> hn_addr (ga_hash ga' t) = hn_addr (ga_hash ga t) \<and> hn_buffer_id (ga_hash ga' t) = hn_buffer_id (ga_hash ga t))"

definition same_counts :: "gallocr \<Rightarrow> gallocr \<Rightarrow> bool" where
  "same_counts ga ga' \<longleftrightarrow> (\<forall>t. hn_n_children (ga_hash ga' t) = hn_n_children (ga_hash ga t) \<and> hn_n_views (ga_hash ga' t) = hn_n_views (ga_hash ga t))"

lemma same_places_refl [simp]: "same_places X ga ga"
  by (simp add: same_places_def)

lemma same_counts_refl [simp]: "same_counts ga ga"
  by (simp add: same_counts_def)

lemma same_places_trans: "same_places X a b \<Longrightarrow> same_places Y b c \<Longrightarrow> same_places (X \<union> Y) a c"
  by (simp add: same_places_def)

lemma same_places_mono: "same_places X a b \<Longrightarrow> X \<subseteq> Y \<Longrightarrow> same_places Y a b"
  unfolding same_places_def by blast

lemma same_counts_trans: "same_counts a b \<Longrightarrow> same_counts b c \<Longrightarrow> same_counts a c"
  by (simp add: same_counts_def)

lemma same_placesD:
  assumes "same_places X ga ga'"
  shows "t \<notin> X \<Longrightarrow> place asize ts ga' t = place asize ts ga t" "t \<notin> X \<Longrightarrow> talloc_idx ga' t = talloc_idx ga t"
    "t \<notin> X \<Longrightarrow> t' \<notin> X \<Longrightarrow> mem_apart asize ts ga' t t' = mem_apart asize ts ga t t'" "shape_ok ga' = shape_ok ga" "ga_bufts ga' = ga_bufts ga"
    "ga_talloc_of ga' = ga_talloc_of ga" "length (ga_tallocs ga') = length (ga_tallocs ga)"
  using assms by (simp_all add: same_places_def place_def tensor_size_def talloc_idx_def mem_apart_def shape_ok_def)

lemma live_of_cong: "(\<And>t. t \<in> own ga \<Longrightarrow> place asize ts ga' t = place asize ts ga t \<and> talloc_idx ga' t = talloc_idx ga t) \<Longrightarrow> own ga' = own ga \<Longrightarrow>
  live_of asize ts ga' k = live_of asize ts ga k"
  unfolding live_of_def by (intro image_cong) auto

lemma live_of_Un: "live_of asize ts ga k = (\<Union>t \<in> own ga. if talloc_idx ga t = k then {place asize ts ga t} else {})"
  by (auto simp: live_of_def)

lemma apart_irrefl: "0 < n \<Longrightarrow> \<not> apart (a, n) (a, n)"
  by (auto simp: apart_def span_def)

lemma apart_sym: "apart x y = apart y x"
  by (auto simp: apart_def)

lemma mem_apart_sym: "mem_apart asize ts ga t t' = mem_apart asize ts ga t' t"
  by (auto simp: mem_apart_def apart_sym)

lemma place_snd: "sizes_ok asize ts \<Longrightarrow> 0 < snd (place asize ts ga t) \<and> snd (place asize ts ga t) \<le> SIZE_MAX div 4"
  by (simp add: sizes_ok_def place_def tensor_size_def)

text \<open>Distinct tensors that are apart have distinct places.\<close>

lemma place_inj:
  assumes "sizes_ok asize ts" "mem_inv asize ts ga" "t \<in> own ga" "t' \<in> own ga" "talloc_idx ga t = talloc_idx ga t'" "place asize ts ga t = place asize ts ga t'"
  shows "t = t'"
proof (rule ccontr)
  assume "t \<noteq> t'"
  with mem_invD(5) [OF assms(2-4)] assms(5) have "apart (place asize ts ga t) (place asize ts ga t')" by (simp add: mem_apart_def)
  with assms(6) apart_irrefl [of "snd (place asize ts ga t')" "fst (place asize ts ga t')"] place_snd [OF assms(1)] show False by simp
qed

section \<open>One tensor\<close>

lemma fresh_step:
  assumes szs: "sizes_ok asize ts" and inv: "mem_inv asize ts ga" and t: "managed ts t" "t \<notin> own ga" and b: "b < length (ga_bufts ga)"
    and al: "dyn_tallocr_alloc (asize (ga_bufts ga ! b) (ts t)) (ga_tallocs ga ! (ga_talloc_of ga ! b)) = Some (addr, al)"
    and ga': "ga' = put_hash t ((ga_hash ga t)\<lparr>hn_allocated := True, hn_buffer_id := b, hn_addr := addr\<rparr>) (ga\<lparr>ga_tallocs := (ga_tallocs ga)[ga_talloc_of ga ! b := al]\<rparr>)"
  shows "mem_inv asize ts ga' \<and> own ga' = insert t (own ga) \<and> same_places {t} ga ga' \<and> same_counts ga ga'"
proof -
  let ?k = "ga_talloc_of ga ! b" and ?n = "asize (ga_bufts ga ! b) (ts t)"
  note I = mem_invD [OF inv]
  have k: "?k < length (ga_tallocs ga)" using I(1) b by (simp add: shape_ok_def)
  have n: "0 < ?n" "?n \<le> SIZE_MAX div 4" using szs by (simp_all add: sizes_ok_def)
  from dyn.alloc_ok [OF I(2) [OF k] n al] have A: "al_inv al (insert (addr, ?n) (live_of asize ts ga ?k))" "\<forall>x \<in> live_of asize ts ga ?k. apart (addr, ?n) x" by simp_all
  have own: "own ga' = insert t (own ga)" by (auto simp: own_def ga')
  have same: "same_places {t} ga ga'" "same_counts ga ga'" by (simp_all add: same_places_def same_counts_def ga')
  note S = same_placesD [OF same(1)]
  have at: "place asize ts ga' t = (addr, ?n)" "talloc_idx ga' t = ?k" by (simp_all add: ga' place_def tensor_size_def talloc_idx_def)
  have other: "place asize ts ga' s = place asize ts ga s" "talloc_idx ga' s = talloc_idx ga s" if "s \<in> own ga" for s
    using S(1,2) [of s] that t(2) by auto
  have live: "live_of asize ts ga' j = (if j = ?k then insert (addr, ?n) (live_of asize ts ga j) else live_of asize ts ga j)" for j
    unfolding live_of_Un own UN_insert at using other by auto
  have "al_inv (ga_tallocs ga' ! j) (live_of asize ts ga' j)" if "j < length (ga_tallocs ga')" for j
    unfolding live using that A(1) I(2) [of j] k by (auto simp: ga' nth_list_update)
  moreover have "mem_apart asize ts ga' s s'" if s: "s \<in> own ga'" "s' \<in> own ga'" "s \<noteq> s'" for s s'
  proof -
    have new: "mem_apart asize ts ga' t u" if u: "u \<in> own ga" for u
    proof (cases "talloc_idx ga u = ?k")
      case True
      with u have "place asize ts ga u \<in> live_of asize ts ga ?k" by (auto simp: live_of_def)
      with A(2) show ?thesis using other [OF u] by (simp add: mem_apart_def at)
    qed (use other [OF u] in \<open>simp add: mem_apart_def at\<close>)
    consider "s = t" "s' \<in> own ga" | "s' = t" "s \<in> own ga" | "s \<in> own ga" "s' \<in> own ga" using s own by auto
    then show ?thesis
    proof cases
      case 3
      with I(5) [of s s'] s(3) other show ?thesis by (simp add: mem_apart_def)
    qed (use new mem_apart_sym in auto)
  qed
  moreover have "managed ts s \<and> hn_buffer_id (ga_hash ga' s) < length (ga_bufts ga')" if "s \<in> own ga'" for s
    using that I(3,4) [of s] t b own by (auto simp: ga')
  ultimately have "mem_inv asize ts ga'" using I(1) S(4) by (simp add: mem_inv_def)
  with own same show ?thesis by blast
qed

lemma reuse_step:
  assumes szs: "sizes_ok asize ts" and inv: "mem_inv asize ts ga" and t: "managed ts t" "t \<notin> own ga" and p: "p \<in> own ga" and lay: "ggml_are_same_layout (ts t) (ts p)"
    and ga': "ga' = put_hash p ((ga_hash ga p)\<lparr>hn_allocated := False\<rparr>)
      (put_hash t ((ga_hash ga t)\<lparr>hn_allocated := True, hn_buffer_id := hn_buffer_id (ga_hash ga p), hn_addr := hn_addr (ga_hash ga p)\<rparr>) ga)"
  shows "mem_inv asize ts ga' \<and> own ga' = insert t (own ga - {p}) \<and> same_places {t} ga ga' \<and> same_counts ga ga'"
proof -
  note I = mem_invD [OF inv]
  have pt: "p \<noteq> t" using p t(2) by auto
  have own: "own ga' = insert t (own ga - {p})" using pt by (auto simp: own_def ga')
  have same: "same_places {t} ga ga'" "same_counts ga ga'" using pt by (auto simp: same_places_def same_counts_def ga')
  note S = same_placesD [OF same(1)]
  have at: "place asize ts ga' t = place asize ts ga p" "talloc_idx ga' t = talloc_idx ga p"
    using pt szs lay by (auto simp: ga' place_def tensor_size_def talloc_idx_def sizes_ok_def)
  have other: "place asize ts ga' s = place asize ts ga s" "talloc_idx ga' s = talloc_idx ga s" if "s \<in> own ga" for s
    using S(1,2) [of s] that t(2) by auto
  have live: "live_of asize ts ga' j = live_of asize ts ga j" for j
  proof -
    have "live_of asize ts ga' j = (if talloc_idx ga p = j then {place asize ts ga p} else {}) \<union> (\<Union>s \<in> own ga - {p}. if talloc_idx ga s = j then {place asize ts ga s} else {})"
      unfolding live_of_Un own UN_insert at using other by auto
    also have "\<dots> = (\<Union>s \<in> insert p (own ga - {p}). if talloc_idx ga s = j then {place asize ts ga s} else {})" by (simp only: UN_insert)
    finally show ?thesis unfolding insert_Diff [OF p] live_of_Un [symmetric] .
  qed
  have "ga_tallocs ga' = ga_tallocs ga" by (simp add: ga')
  then have "al_inv (ga_tallocs ga' ! j) (live_of asize ts ga' j)" if "j < length (ga_tallocs ga')" for j
    unfolding live using that I(2) [of j] by simp
  moreover have "mem_apart asize ts ga' s s'" if s: "s \<in> own ga'" "s' \<in> own ga'" "s \<noteq> s'" for s s'
  proof -
    have new: "mem_apart asize ts ga' t u" if u: "u \<in> own ga - {p}" for u
      using I(5) [OF p, of u] u other [of u] by (auto simp: mem_apart_def at)
    consider "s = t" "s' \<in> own ga - {p}" | "s' = t" "s \<in> own ga - {p}" | "s \<in> own ga" "s' \<in> own ga" using s own by auto
    then show ?thesis
    proof cases
      case 3
      with I(5) [of s s'] s(3) other show ?thesis by (simp add: mem_apart_def)
    qed (use new mem_apart_sym in auto)
  qed
  moreover have "managed ts s \<and> hn_buffer_id (ga_hash ga' s) < length (ga_bufts ga')" if "s \<in> own ga'" for s
    using that I(3,4) [of s] I(4) [OF p] t own pt by (auto simp: ga')
  ultimately have "mem_inv asize ts ga'" using I(1) S(4) by (simp add: mem_inv_def)
  with own same show ?thesis by blast
qed

lemma free_step:
  assumes szs: "sizes_ok asize ts" and inv: "mem_inv asize ts ga" and t: "t \<in> own ga" and res: "free_node asize ts t ga = Some ga'"
  shows "mem_inv asize ts ga' \<and> own ga' = (if gt_output (ts t) then own ga else own ga - {t}) \<and> same_places {} ga ga' \<and> same_counts ga ga'"
proof (cases "gt_output (ts t)")
  case True
  with res have "ga' = ga" by (simp add: free_node_def)
  with True inv show ?thesis by simp
next
  case False
  note I = mem_invD [OF inv]
  let ?k = "talloc_idx ga t"
  from res False obtain al where al: "dyn_tallocr_free_tensor (fst (place asize ts ga t)) (snd (place asize ts ga t)) (ga_tallocs ga ! ?k) = Some al"
    and ga': "ga' = put_hash t ((ga_hash ga t)\<lparr>hn_allocated := False\<rparr>) (ga\<lparr>ga_tallocs := (ga_tallocs ga)[?k := al]\<rparr>)"
    by (auto simp: free_node_def Let_def place_def tensor_size_def talloc_idx_def split: Option.bind_splits)
  have k: "?k < length (ga_tallocs ga)" by (rule I(6) [OF t])
  have mem: "(fst (place asize ts ga t), snd (place asize ts ga t)) \<in> live_of asize ts ga ?k" using t by (auto simp: live_of_def)
  have A: "al_inv al (live_of asize ts ga ?k - {place asize ts ga t})"
    using dyn.free_ok [OF I(2) [OF k] mem _ al] place_snd [OF szs] by simp
  have own: "own ga' = own ga - {t}" by (auto simp: own_def ga')
  have same: "same_places {} ga ga'" "same_counts ga ga'" by (simp_all add: same_places_def same_counts_def ga')
  note S = same_placesD [OF same(1), simplified]
  have live: "live_of asize ts ga' j = (if j = ?k then live_of asize ts ga j - {place asize ts ga t} else live_of asize ts ga j)" for j
  proof -
    have sub: "{s \<in> own ga - {t}. talloc_idx ga s = j} = {s \<in> own ga. talloc_idx ga s = j} - {s \<in> {t}. j = ?k}" by auto
    have inj: "inj_on (place asize ts ga) {s \<in> own ga. talloc_idx ga s = j}"
      using place_inj [OF szs inv] by (intro inj_onI) simp
    have "live_of asize ts ga' j = place asize ts ga ` {s \<in> own ga - {t}. talloc_idx ga s = j}" unfolding live_of_def own S(1,2) ..
    also have "\<dots> = live_of asize ts ga j - place asize ts ga ` {s \<in> {t}. j = ?k}"
      unfolding sub live_of_def by (rule inj_on_image_set_diff [OF inj]) (use t in auto)
    also have "\<dots> = (if j = ?k then live_of asize ts ga j - {place asize ts ga t} else live_of asize ts ga j)" by simp
    finally show ?thesis .
  qed
  have "al_inv (ga_tallocs ga' ! j) (live_of asize ts ga' j)" if "j < length (ga_tallocs ga')" for j
    unfolding live using that A I(2) [of j] k by (auto simp: ga' nth_list_update)
  moreover have "managed ts s \<and> hn_buffer_id (ga_hash ga' s) < length (ga_bufts ga')" if "s \<in> own ga'" for s
    using that I(3,4) [of s] own by (auto simp: ga')
  moreover have "mem_apart asize ts ga' s s'" if "s \<in> own ga'" "s' \<in> own ga'" "s \<noteq> s'" for s s'
    using I(5) [of s s'] that own S(3) by auto
  ultimately have "mem_inv asize ts ga'" using I(1) S(4) by (simp add: mem_inv_def)
  with own same False show ?thesis by simp
qed

lemma try_parent_spec:
  assumes "mem_inv asize ts ga" "t \<notin> own ga" "p \<noteq> t" and h: "h = (ga_hash ga t)\<lparr>hn_allocated := True\<rparr>" and res: "try_parent ts t p (put_hash t h ga) = Some (Some ga')"
  shows "p \<in> own ga \<and> \<not> gt_output (ts p) \<and> ggml_are_same_layout (ts t) (ts p) \<and> hn_n_children (ga_hash ga p) = 1 \<and> hn_n_views (ga_hash ga p) = 0 \<and>
    ga' = put_hash p ((ga_hash ga p)\<lparr>hn_allocated := False\<rparr>)
      (put_hash t ((ga_hash ga t)\<lparr>hn_allocated := True, hn_buffer_id := hn_buffer_id (ga_hash ga p), hn_addr := hn_addr (ga_hash ga p)\<rparr>) ga)"
proof -
  have own: "p \<in> own ga" using res assms(3) by (auto simp: try_parent_def Let_def gallocr_is_own_def own_def split: if_splits)
  then have "gt_view_src (ts p) = None" using mem_invD(3) [OF assms(1)] by (simp add: managed_def)
  with res assms(3) h own show ?thesis
    by (auto simp: try_parent_def Let_def put_hash_def fun_upd_twist split: if_splits)
qed

lemma try_parents_spec:
  assumes "mem_inv asize ts ga" "t \<notin> own ga" "t \<notin> set ps" and h: "h = (ga_hash ga t)\<lparr>hn_allocated := True\<rparr>" and res: "try_parents ts t ps (put_hash t h ga) = Some (Some ga')"
  shows "\<exists>p \<in> set ps. p \<in> own ga \<and> \<not> gt_output (ts p) \<and> ggml_are_same_layout (ts t) (ts p) \<and> hn_n_children (ga_hash ga p) = 1 \<and> hn_n_views (ga_hash ga p) = 0 \<and>
    ga' = put_hash p ((ga_hash ga p)\<lparr>hn_allocated := False\<rparr>)
      (put_hash t ((ga_hash ga t)\<lparr>hn_allocated := True, hn_buffer_id := hn_buffer_id (ga_hash ga p), hn_addr := hn_addr (ga_hash ga p)\<rparr>) ga)"
  using assms(3,5)
proof (induction ps)
  case (Cons p ps)
  then obtain r where r: "try_parent ts t p (put_hash t h ga) = Some r" "(case r of Some ga' \<Rightarrow> Some (Some ga') | None \<Rightarrow> try_parents ts t ps (put_hash t h ga)) = Some (Some ga')"
    by (auto split: Option.bind_splits)
  show ?case
  proof (cases r)
    case None
    with Cons r show ?thesis by auto
  next
    case (Some x)
    with r have "try_parent ts t p (put_hash t h ga) = Some (Some ga')" by simp
    from try_parent_spec [OF assms(1,2) _ h this] Cons.prems(1) show ?thesis by auto
  qed
qed simp

text \<open>
  Allocating a tensor does nothing if it has memory or needs none; otherwise it takes fresh memory, or the
  memory of a source that nothing else will use.
\<close>

definition took_over :: "(nat \<Rightarrow> gtensor) \<Rightarrow> gallocr \<Rightarrow> nat \<Rightarrow> gallocr \<Rightarrow> nat \<Rightarrow> bool" where
  "took_over ts ga t ga' p \<longleftrightarrow> p \<in> set (srcs (ts t)) \<and> p \<in> own ga \<and> \<not> gt_output (ts p) \<and> hn_n_children (ga_hash ga p) = 1 \<and> hn_n_views (ga_hash ga p) = 0 \<and>
     own ga' = insert t (own ga - {p}) \<and> ggml_op_can_inplace (gt_op (ts t))"

lemma alloc_fresh_spec:
  assumes szs: "sizes_ok asize ts" and inv: "mem_inv asize ts ga" and t: "managed ts t" "t \<notin> own ga"
    and res: "alloc_fresh asize ts t b (put_hash t ((ga_hash ga t)\<lparr>hn_allocated := True\<rparr>) ga) = Some ga'"
  shows "mem_inv asize ts ga' \<and> own ga' = insert t (own ga) \<and> same_places {t} ga ga' \<and> same_counts ga ga'"
proof -
  from res have b: "nat b < length (ga_bufts ga)" by (auto simp: alloc_fresh_def guard_def Let_def split: if_splits)
  with res obtain addr al where al: "dyn_tallocr_alloc (asize (ga_bufts ga ! nat b) (ts t)) (ga_tallocs ga ! (ga_talloc_of ga ! nat b)) = Some (addr, al)"
    by (auto simp: alloc_fresh_def Let_def split: Option.bind_splits)
  with res b have "ga' = put_hash t ((ga_hash ga t)\<lparr>hn_allocated := True, hn_buffer_id := nat b, hn_addr := addr\<rparr>) (ga\<lparr>ga_tallocs := (ga_tallocs ga)[ga_talloc_of ga ! nat b := al]\<rparr>)"
    by (simp add: alloc_fresh_def Let_def put_hash_def)
  from fresh_step [OF szs inv t b al this] show ?thesis .
qed

lemma allocate_node_spec:
  assumes szs: "sizes_ok asize ts" and inv: "mem_inv asize ts ga" and t: "ggml_op_can_inplace (gt_op (ts t)) \<Longrightarrow> t \<notin> set (srcs (ts t))"
    and res: "allocate_node asize ts t b ga = Some ga'"
  shows "mem_inv asize ts ga' \<and> same_counts ga ga' \<and>
    (if t \<in> own ga \<or> \<not> managed ts t then ga' = ga
     else same_places {t} ga ga' \<and> (own ga' = insert t (own ga) \<or> (\<exists>p. took_over ts ga t ga' p)))"
proof (cases "t \<in> own ga \<or> \<not> managed ts t")
  case True
  then have "gallocr_is_allocated ts ga t \<or> ggml_is_view (ts t)" by (auto simp: gallocr_is_allocated_def ggml_is_view_def own_def managed_def)
  with res have "ga' = ga" by (auto simp: allocate_node_def split: Option.bind_splits)
  with True inv show ?thesis by simp
next
  case False
  then have t': "managed ts t" "t \<notin> own ga" by simp_all
  then have no: "\<not> (gallocr_is_allocated ts ga t \<or> ggml_is_view (ts t))" by (auto simp: gallocr_is_allocated_def ggml_is_view_def own_def managed_def)
  let ?ga1 = "put_hash t ((ga_hash ga t)\<lparr>hn_allocated := True\<rparr>) ga"
  define reuse where "reuse = (if ggml_op_can_inplace (gt_op (ts t)) then try_parents ts t (srcs (ts t)) ?ga1 else Some None)"
  have "allocate_node asize ts t b ga = (if b \<ge> 0 \<and> snd (hn_addr (ga_hash ga t)) = 0
      then Option.bind reuse (\<lambda>r. case r of Some ga2 \<Rightarrow> Some ga2 | None \<Rightarrow> alloc_fresh asize ts t b ?ga1) else None)"
    using no unfolding allocate_node_def reuse_def by (simp add: guard_def Let_def cong: option.case_cong)
  with res have "Option.bind reuse (\<lambda>r. case r of Some ga2 \<Rightarrow> Some ga2 | None \<Rightarrow> alloc_fresh asize ts t b ?ga1) = Some ga'" by (simp split: if_splits)
  then obtain r where r: "reuse = Some r" "(case r of Some ga2 \<Rightarrow> Some ga2 | None \<Rightarrow> alloc_fresh asize ts t b ?ga1) = Some ga'" by (auto simp: Option.bind_eq_Some_conv)
  show ?thesis
  proof (cases r)
    case (Some ga2)
    with r have ip: "ggml_op_can_inplace (gt_op (ts t))" "try_parents ts t (srcs (ts t)) ?ga1 = Some (Some ga')" by (auto simp: reuse_def split: if_splits)
    from try_parents_spec [OF inv t'(2) t [OF ip(1)] refl ip(2)] obtain p where p: "p \<in> set (srcs (ts t))" "p \<in> own ga" "\<not> gt_output (ts p)" "ggml_are_same_layout (ts t) (ts p)"
      "hn_n_children (ga_hash ga p) = 1" "hn_n_views (ga_hash ga p) = 0"
      and ga': "ga' = put_hash p ((ga_hash ga p)\<lparr>hn_allocated := False\<rparr>)
      (put_hash t ((ga_hash ga t)\<lparr>hn_allocated := True, hn_buffer_id := hn_buffer_id (ga_hash ga p), hn_addr := hn_addr (ga_hash ga p)\<rparr>) ga)" by blast
    from reuse_step [OF szs inv t' p(2,4) ga'] p ip(1) False show ?thesis by (auto simp: took_over_def)
  next
    case None
    with r have "alloc_fresh asize ts t b ?ga1 = Some ga'" by simp
    from alloc_fresh_spec [OF szs inv t' this] False show ?thesis by simp
  qed
qed

text \<open>Counters change no memory.\<close>

lemma counters_mem:
  "mem_inv asize ts (add_children n t ga) = mem_inv asize ts ga" "mem_inv asize ts (add_views n t ga) = mem_inv asize ts ga"
  "own (add_children n t ga) = own ga" "own (add_views n t ga) = own ga" "same_places X ga (add_children n t ga)" "same_places X ga (add_views n t ga)"
proof -
  have own: "own (add_children n t ga) = own ga" "own (add_views n t ga) = own ga" by (auto simp: own_def add_children_def add_views_def)
  have same: "same_places {} ga (add_children n t ga)" "same_places {} ga (add_views n t ga)" by (auto simp: same_places_def add_children_def add_views_def)
  have inv: "mem_inv asize ts ga' = mem_inv asize ts ga" if "own ga' = own ga" "same_places {} ga ga'" "ga_tallocs ga' = ga_tallocs ga" for ga'
  proof -
    note S = same_placesD [OF that(2), simplified]
    have "live_of asize ts ga' k = live_of asize ts ga k" for k using that(1) S(1,2) by (intro live_of_cong) auto
    moreover have "hn_buffer_id (ga_hash ga' s) = hn_buffer_id (ga_hash ga s)" for s using that(2) by (simp add: same_places_def)
    ultimately show ?thesis using that S by (simp add: mem_inv_def)
  qed
  show "mem_inv asize ts (add_children n t ga) = mem_inv asize ts ga" by (rule inv [OF own(1) same(1)]) (simp add: add_children_def)
  show "mem_inv asize ts (add_views n t ga) = mem_inv asize ts ga" by (rule inv [OF own(2) same(2)]) (simp add: add_views_def)
  show "own (add_children n t ga) = own ga" "own (add_views n t ga) = own ga" by (rule own)+
  show "same_places X ga (add_children n t ga)" "same_places X ga (add_views n t ga)" using same by (simp_all add: same_places_def)
qed

section \<open>Recorded sizes\<close>

text \<open>The size recorded for a chunk never shrinks while a graph is planned, so every tensor that was placed fits in the buffers.\<close>

definition al_mono :: "dyn_tallocr \<Rightarrow> dyn_tallocr \<Rightarrow> bool" where
  "al_mono al al' \<longleftrightarrow> (\<forall>c. dyn_tallocr_max_size al c \<le> dyn_tallocr_max_size al' c)"

definition ga_mono :: "gallocr \<Rightarrow> gallocr \<Rightarrow> bool" where
  "ga_mono ga ga' \<longleftrightarrow> length (ga_tallocs ga') = length (ga_tallocs ga) \<and> (\<forall>k < length (ga_tallocs ga). al_mono (ga_tallocs ga ! k) (ga_tallocs ga' ! k))"

definition bounded :: "(nat \<Rightarrow> gtensor \<Rightarrow> nat) \<Rightarrow> (nat \<Rightarrow> gtensor) \<Rightarrow> gallocr \<Rightarrow> nat \<Rightarrow> bool" where
  "bounded asize ts ga t \<longleftrightarrow> hn_buffer_id (ga_hash ga t) < length (ga_bufts ga) \<and> talloc_idx ga t < length (ga_tallocs ga) \<and>
     snd (hn_addr (ga_hash ga t)) + tensor_size asize ts ga t \<le> dyn_tallocr_max_size (ga_tallocs ga ! talloc_idx ga t) (fst (hn_addr (ga_hash ga t)))"

lemma al_mono_refl [simp]: "al_mono al al"
  by (simp add: al_mono_def)

lemma ga_mono_refl [simp]: "ga_mono ga ga"
  by (simp add: ga_mono_def)

lemma ga_mono_trans: "ga_mono a b \<Longrightarrow> ga_mono b c \<Longrightarrow> ga_mono a c"
  unfolding ga_mono_def al_mono_def by (metis order_trans)

lemma ga_mono_same: "ga_tallocs ga' = ga_tallocs ga \<Longrightarrow> ga_mono ga ga'"
  by (simp add: ga_mono_def)

lemma ga_mono_put: "al_mono (ga_tallocs ga ! k) al \<Longrightarrow> ga_tallocs ga' = (ga_tallocs ga)[k := al] \<Longrightarrow> ga_mono ga ga'"
  by (simp add: ga_mono_def nth_list_update_if)

lemma al_mono_chunk:
  assumes "max_size (da_chunks al ! c) \<le> max_size ch"
  shows "al_mono al (al\<lparr>da_chunks := (da_chunks al)[c := ch]\<rparr>)"
  using assms by (auto simp: al_mono_def dyn_tallocr_max_size_def nth_list_update_if)

lemma remove_block_max: "remove_block i ch = Some ch' \<Longrightarrow> max_size ch' = max_size ch"
  by (auto simp: remove_block_def split: Option.bind_splits)

lemma insert_block_max: "insert_block a n ch = Some ch' \<Longrightarrow> max_size ch' = max_size ch"
  by (auto simp: insert_block_def Let_def guard_def split: if_splits)

lemma take_block_max: "take_block sz b ch = Some (off, ch') \<Longrightarrow> max_size ch \<le> max_size ch'"
  by (auto simp: take_block_def Let_def dest: remove_block_max split: Option.bind_splits if_splits)

lemma free_in_chunk_max: "free_in_chunk a n ch = Some ch' \<Longrightarrow> max_size ch' = max_size ch"
  by (auto simp: free_in_chunk_def Let_def dest!: remove_block_max insert_block_max split: option.splits if_splits)

lemma pick_block_mono: "pick_block sz al = Some (r, al') \<Longrightarrow> al_mono al al'"
  by (auto simp: pick_block_def new_chunk_def Let_def al_mono_def dyn_tallocr_max_size_def nth_append split: option.splits if_splits)

lemma alloc_mono:
  assumes "dyn_tallocr_alloc n al = Some (addr, al')"
  shows "al_mono al al'"
proof -
  from assms obtain sz c b al1 off ch where s: "pick_block sz al = Some ((c, b), al1)" "take_block sz b (da_chunks al1 ! c) = Some (off, ch)"
    "al' = al1\<lparr>da_chunks := (da_chunks al1)[c := ch]\<rparr>" by (auto simp: dyn_alloc_unfold split: Option.bind_splits)
  from pick_block_mono [OF s(1)] al_mono_chunk [OF take_block_max [OF s(2)]] show ?thesis unfolding s(3) al_mono_def by (meson order_trans)
qed

lemma free_mono: "dyn_tallocr_free_tensor addr n al = Some al' \<Longrightarrow> al_mono al al'"
  by (auto simp: dyn_tallocr_free_tensor_def guard_def intro!: al_mono_chunk dest: free_in_chunk_max split: Option.bind_splits if_splits)

lemma free_node_mono: "free_node asize ts t ga = Some ga' \<Longrightarrow> ga_mono ga ga'"
  by (auto simp: free_node_def Let_def intro: ga_mono_put free_mono split: if_splits Option.bind_splits)

lemma try_parents_tallocs: "try_parents ts t ps ga = Some (Some ga') \<Longrightarrow> ga_tallocs ga' = ga_tallocs ga"
proof (induction ps)
  case (Cons p ps)
  then show ?case
    by (auto simp: try_parent_def Let_def split: Option.bind_splits if_splits option.splits)
qed simp

lemma allocate_mono:
  assumes "allocate_node asize ts t b ga = Some ga'"
  shows "ga_mono ga ga'"
proof (cases "gallocr_is_allocated ts ga t \<or> ggml_is_view (ts t)")
  case True
  with assms show ?thesis by (auto simp: allocate_node_def split: Option.bind_splits)
next
  case False
  let ?ga1 = "put_hash t ((ga_hash ga t)\<lparr>hn_allocated := True\<rparr>) ga"
  from assms False obtain r where r: "(if ggml_op_can_inplace (gt_op (ts t)) then try_parents ts t (srcs (ts t)) ?ga1 else Some None) = Some r"
    "(case r of Some ga2 \<Rightarrow> Some ga2 | None \<Rightarrow> alloc_fresh asize ts t b ?ga1) = Some ga'"
    by (auto simp: allocate_node_def guard_def Let_def Option.bind_eq_Some_conv simp del: put_hash_simps split: if_splits)
  show ?thesis
  proof (cases r)
    case (Some ga2)
    with r have "try_parents ts t (srcs (ts t)) ?ga1 = Some (Some ga')" by (auto split: if_splits)
    from try_parents_tallocs [OF this] show ?thesis by (simp add: ga_mono_same)
  next
    case None
    with r have "alloc_fresh asize ts t b ?ga1 = Some ga'" by simp
    then show ?thesis
      by (auto simp: alloc_fresh_def guard_def Let_def intro: ga_mono_put alloc_mono split: if_splits Option.bind_splits)
  qed
qed

lemma update_mono: "update_parent asize ts p ga = Some ga' \<Longrightarrow> ga_mono ga ga'"
  by (auto simp: update_parent_def Let_def add_children_def add_views_def ga_mono_def dest!: free_node_mono split: if_splits option.splits)

lemma foldM_mono:
  assumes "foldM f xs ga = Some ga'" "\<And>x s t. f x s = Some t \<Longrightarrow> ga_mono s t"
  shows "ga_mono ga ga'"
proof (rule foldM_done [OF assms(1), where P = "\<lambda>_. ga_mono ga"])
  show "ga_mono ga s \<Longrightarrow> f x s = Some t \<Longrightarrow> ga_mono ga t" for ys x s t by (rule ga_mono_trans [OF _ assms(2)])
qed simp

lemma bounded_mono: "bounded asize ts ga t \<Longrightarrow> same_places X ga ga' \<Longrightarrow> t \<notin> X \<Longrightarrow> ga_mono ga ga' \<Longrightarrow> bounded asize ts ga' t"
  unfolding bounded_def same_places_def tensor_size_def talloc_idx_def ga_mono_def al_mono_def using order_trans by fastforce

lemma bounded_own:
  assumes "mem_inv asize ts ga" "t \<in> own ga"
  shows "bounded asize ts ga t"
proof -
  note I = mem_invD [OF assms(1)]
  let ?k = "talloc_idx ga t"
  have k: "?k < length (ga_tallocs ga)" by (rule I(6) [OF assms(2)])
  let ?al = "ga_tallocs ga ! ?k" and ?L = "live_of asize ts ga ?k"
  obtain c off n where p: "place asize ts ga t = ((c, off), n)" by (metis prod.exhaust)
  then have mem: "((c, off), n) \<in> ?L" using assms(2) by (force simp: live_of_def)
  note A = al_invD [OF I(2) [OF k]]
  from A(5) [OF mem] have c: "c < length (da_chunks ?al)" by simp
  obtain cap where "chunk_inv (da_alignment ?al) cap (chunk_live ?L c) (da_chunks ?al ! c)" using A(6) [OF c] by auto
  from chunk_invD(5) [OF this] mem have "off + asz (da_alignment ?al) n \<le> max_size (da_chunks ?al ! c)" by (auto simp: chunk_live_def)
  moreover have "n \<le> asz (da_alignment ?al) n" using A(1) asz_props(1) by simp
  ultimately show ?thesis using p c k I(4) [OF assms(2)] by (simp add: bounded_def place_def dyn_tallocr_max_size_def)
qed

section \<open>Graphs\<close>

text \<open>All uses of tensors as sources, in the order of the nodes.\<close>

definition graph_uses :: "(nat \<Rightarrow> gtensor) \<Rightarrow> ggml_cgraph \<Rightarrow> nat list" where
  "graph_uses ts g = concat (map (\<lambda>t. srcs (ts t)) (cg_nodes g))"

text \<open>The tensors that come before node \<open>i\<close>.\<close>

definition before_node :: "ggml_cgraph \<Rightarrow> nat \<Rightarrow> nat set" where
  "before_node g i = set (cg_leafs g) \<union> set (take i (cg_nodes g))"

text \<open>
  What building a graph guarantees: every tensor once, sources and the tensors they view before the node, views that are
  nodes with an operator, no views of views, and no operator on leafs and inputs that works in place.
\<close>

definition graph_ok :: "(nat \<Rightarrow> gtensor) \<Rightarrow> ggml_cgraph \<Rightarrow> bool" where
  "graph_ok ts g \<longleftrightarrow> distinct (cg_nodes g) \<and> set (cg_nodes g) \<inter> set (cg_leafs g) = {} \<and>
     (\<forall>i \<in> set [0..<length (cg_nodes g)]. \<forall>s \<in> set (srcs (ts (cg_nodes g ! i))). s \<in> before_node g i \<and>
        (case gt_view_src (ts s) of None \<Rightarrow> True | Some v \<Rightarrow> s \<in> set (cg_nodes g) \<and> gt_op (ts s) \<noteq> GGML_OP_NONE)) \<and>
     (\<forall>i \<in> set [0..<length (cg_nodes g)]. case gt_view_src (ts (cg_nodes g ! i)) of None \<Rightarrow> True | Some v \<Rightarrow> gt_view_src (ts v) = None \<and> v \<in> before_node g i) \<and>
     (\<forall>t \<in> set (cg_leafs g). \<not> ggml_op_can_inplace (gt_op (ts t))) \<and>
     (\<forall>t \<in> set (cg_nodes g). gt_input (ts t) \<longrightarrow> \<not> ggml_op_can_inplace (gt_op (ts t)))"

lemma before_mono: "i \<le> j \<Longrightarrow> before_node g i \<subseteq> before_node g j"
  using set_take_subset_set_take [of i j "cg_nodes g"] by (auto simp: before_node_def)

lemma graph_okD:
  assumes "graph_ok ts g"
  shows "distinct (cg_nodes g)" "set (cg_nodes g) \<inter> set (cg_leafs g) = {}"
    "i < length (cg_nodes g) \<Longrightarrow> s \<in> set (srcs (ts (cg_nodes g ! i))) \<Longrightarrow> s \<in> before_node g i"
    "i < length (cg_nodes g) \<Longrightarrow> s \<in> set (srcs (ts (cg_nodes g ! i))) \<Longrightarrow> gt_view_src (ts s) = Some v \<Longrightarrow>
       s \<in> set (cg_nodes g) \<and> gt_op (ts s) \<noteq> GGML_OP_NONE \<and> v \<in> before_node g i"
    "t \<in> set (cg_nodes g) \<Longrightarrow> gt_view_src (ts t) = Some v \<Longrightarrow> gt_view_src (ts v) = None"
    "t \<in> set (cg_leafs g) \<Longrightarrow> \<not> ggml_op_can_inplace (gt_op (ts t))"
    "t \<in> set (cg_nodes g) \<Longrightarrow> gt_input (ts t) \<Longrightarrow> \<not> ggml_op_can_inplace (gt_op (ts t))"
    "i < length (cg_nodes g) \<Longrightarrow> gt_view_src (ts (cg_nodes g ! i)) = Some v \<Longrightarrow> v \<in> before_node g i"
proof -
  note G = assms [unfolded graph_ok_def]
  have src: "s \<in> before_node g i" "gt_view_src (ts s) = Some v \<Longrightarrow> s \<in> set (cg_nodes g) \<and> gt_op (ts s) \<noteq> GGML_OP_NONE"
    if "i < length (cg_nodes g)" "s \<in> set (srcs (ts (cg_nodes g ! i)))" for i s v
  proof -
    have "i \<in> set [0..<length (cg_nodes g)]" using that(1) by simp
    from bspec [OF bspec [OF conjunct1 [OF conjunct2 [OF conjunct2 [OF G]]] this] that(2)]
    show "s \<in> before_node g i" "gt_view_src (ts s) = Some v \<Longrightarrow> s \<in> set (cg_nodes g) \<and> gt_op (ts s) \<noteq> GGML_OP_NONE" by simp_all
  qed
  have view: "gt_view_src (ts v) = None" "v \<in> before_node g i" if "i < length (cg_nodes g)" "gt_view_src (ts (cg_nodes g ! i)) = Some v" for i v
  proof -
    have "i \<in> set [0..<length (cg_nodes g)]" using that(1) by simp
    from bspec [OF conjunct1 [OF conjunct2 [OF conjunct2 [OF conjunct2 [OF G]]]] this] that(2)
    show "gt_view_src (ts v) = None" "v \<in> before_node g i" by simp_all
  qed
  show gen: "distinct (cg_nodes g)" "set (cg_nodes g) \<inter> set (cg_leafs g) = {}" "t \<in> set (cg_leafs g) \<Longrightarrow> \<not> ggml_op_can_inplace (gt_op (ts t))"
    "t \<in> set (cg_nodes g) \<Longrightarrow> gt_input (ts t) \<Longrightarrow> \<not> ggml_op_can_inplace (gt_op (ts t))" using assms by (simp_all add: graph_ok_def)
  show "i < length (cg_nodes g) \<Longrightarrow> s \<in> set (srcs (ts (cg_nodes g ! i))) \<Longrightarrow> s \<in> before_node g i" by (rule src(1))
  show "i < length (cg_nodes g) \<Longrightarrow> gt_view_src (ts (cg_nodes g ! i)) = Some v \<Longrightarrow> v \<in> before_node g i" by (rule view(2))
  show "t \<in> set (cg_nodes g) \<Longrightarrow> gt_view_src (ts t) = Some v \<Longrightarrow> gt_view_src (ts v) = None" using view(1) by (auto simp: in_set_conv_nth)
  assume i: "i < length (cg_nodes g)" "s \<in> set (srcs (ts (cg_nodes g ! i)))" and v: "gt_view_src (ts s) = Some v"
  from src(2) [OF i v] have s: "s \<in> set (cg_nodes g)" "gt_op (ts s) \<noteq> GGML_OP_NONE" by simp_all
  with src(1) [OF i] gen(2) have "s \<in> set (take i (cg_nodes g))" unfolding before_node_def disjoint_iff by blast
  then obtain k where k: "k < i" "k < length (cg_nodes g)" "s = cg_nodes g ! k" by (auto simp: in_set_conv_nth)
  with view(2) [OF k(2)] v before_mono [of k i g] have "v \<in> before_node g i" by auto
  with s show "s \<in> set (cg_nodes g) \<and> gt_op (ts s) \<noteq> GGML_OP_NONE \<and> v \<in> before_node g i" by simp
qed

lemma uses_node: "s \<in> set (graph_uses ts g) \<longleftrightarrow> (\<exists>i < length (cg_nodes g). s \<in> set (srcs (ts (cg_nodes g ! i))))"
  by (simp add: graph_uses_def) (metis in_set_conv_nth)

lemma uses_view: "graph_ok ts g \<Longrightarrow> s \<in> set (graph_uses ts g) \<Longrightarrow> gt_view_src (ts s) = Some v \<Longrightarrow>
  s \<in> set (cg_nodes g) \<and> gt_op (ts s) \<noteq> GGML_OP_NONE"
  unfolding uses_node using graph_okD(4) by blast

text \<open>Let \<open>R\<close> be the uses still to come.  The views of \<open>t\<close> that count, and when the memory of \<open>t\<close> must be kept.\<close>

definition pend_views :: "(nat \<Rightarrow> gtensor) \<Rightarrow> ggml_cgraph \<Rightarrow> nat list \<Rightarrow> nat \<Rightarrow> nat list" where
  "pend_views ts g R t = filter (\<lambda>v. gt_view_src (ts v) = Some t \<and> gt_op (ts v) \<noteq> GGML_OP_NONE \<and> (v \<in> set R \<or> v \<notin> set (graph_uses ts g))) (cg_nodes g)"

definition kept :: "(nat \<Rightarrow> gtensor) \<Rightarrow> ggml_cgraph \<Rightarrow> nat list \<Rightarrow> nat \<Rightarrow> bool" where
  "kept ts g R t \<longleftrightarrow> gt_output (ts t) \<or> t \<in> set R \<or> (\<exists>v \<in> set R. gt_view_src (ts v) = Some t) \<or>
     (t \<notin> set (graph_uses ts g) \<and> (\<forall>v \<in> set (graph_uses ts g). gt_view_src (ts v) \<noteq> Some t))"

definition cnt_inv :: "(nat \<Rightarrow> gtensor) \<Rightarrow> ggml_cgraph \<Rightarrow> nat list \<Rightarrow> gallocr \<Rightarrow> bool" where
  "cnt_inv ts g R ga \<longleftrightarrow> (\<forall>t. hn_n_children (ga_hash ga t) = int (count_list R t) \<and> hn_n_views (ga_hash ga t) = int (length (pend_views ts g R t)))"

definition held :: "(nat \<Rightarrow> gtensor) \<Rightarrow> ggml_cgraph \<Rightarrow> nat set \<Rightarrow> nat list \<Rightarrow> nat set \<Rightarrow> gallocr \<Rightarrow> bool" where
  "held ts g B R X ga \<longleftrightarrow> (\<forall>t \<in> B. managed ts t \<longrightarrow> kept ts g R t \<longrightarrow> t \<notin> X \<longrightarrow> t \<in> own ga)"

definition step_inv :: "(nat \<Rightarrow> gtensor \<Rightarrow> nat) \<Rightarrow> (nat \<Rightarrow> gtensor) \<Rightarrow> ggml_cgraph \<Rightarrow> nat set \<Rightarrow> nat list \<Rightarrow> nat set \<Rightarrow> gallocr \<Rightarrow> bool" where
  "step_inv asize ts g B R X ga \<longleftrightarrow> mem_inv asize ts ga \<and> cnt_inv ts g R ga \<and> held ts g B R X ga"

lemma count_simps [simp]:
  "hn_n_children (ga_hash (add_children n p ga) t) = hn_n_children (ga_hash ga t) + (if t = p then n else 0)"
  "hn_n_views (ga_hash (add_children n p ga) t) = hn_n_views (ga_hash ga t)"
  "hn_n_views (ga_hash (add_views n p ga) t) = hn_n_views (ga_hash ga t) + (if t = p then n else 0)"
  "hn_n_children (ga_hash (add_views n p ga) t) = hn_n_children (ga_hash ga t)"
  "hn_allocated (ga_hash (add_children n p ga) t) = hn_allocated (ga_hash ga t)"
  "hn_allocated (ga_hash (add_views n p ga) t) = hn_allocated (ga_hash ga t)"
  by (simp_all add: add_children_def add_views_def)

lemma cnt_inv_cong: "same_counts ga ga' \<Longrightarrow> cnt_inv ts g R ga' = cnt_inv ts g R ga"
  by (simp add: cnt_inv_def same_counts_def)

lemma length_filter_one: "distinct xs \<Longrightarrow> p \<in> set xs \<Longrightarrow> \<not> P p \<Longrightarrow> length (filter (\<lambda>v. v = p \<or> P v) xs) = Suc (length (filter P xs))"
proof (induction xs)
  case (Cons x xs)
  show ?case
  proof (cases "x = p")
    case True
    then have "filter (\<lambda>v. v = p \<or> P v) xs = filter P xs" using Cons.prems(1) by (intro filter_cong) auto
    with True Cons.prems show ?thesis by simp
  qed (use Cons in auto)
qed simp

lemma pend_views_Cons:
  assumes ok: "graph_ok ts g" and p: "p \<in> set (graph_uses ts g)"
  shows "length (pend_views ts g (p # R) t) = length (pend_views ts g R t) + (if p \<notin> set R \<and> gt_view_src (ts p) = Some t then 1 else 0)"
proof (cases "p \<notin> set R \<and> gt_view_src (ts p) = Some t")
  case True
  with uses_view [OF ok p] have p': "p \<in> set (cg_nodes g)" "gt_op (ts p) \<noteq> GGML_OP_NONE" by blast+
  let ?P = "\<lambda>v. gt_view_src (ts v) = Some t \<and> gt_op (ts v) \<noteq> GGML_OP_NONE \<and> (v \<in> set R \<or> v \<notin> set (graph_uses ts g))"
  have "pend_views ts g (p # R) t = filter (\<lambda>v. v = p \<or> ?P v) (cg_nodes g)"
    unfolding pend_views_def by (intro filter_cong) (use True p' in auto)
  also have "length \<dots> = Suc (length (filter ?P (cg_nodes g)))"
    by (rule length_filter_one [OF graph_okD(1) [OF ok] p'(1)]) (use True p in auto)
  finally show ?thesis using True by (simp add: pend_views_def)
next
  case False
  then have "pend_views ts g (p # R) t = pend_views ts g R t" unfolding pend_views_def by (intro filter_cong) auto
  with False show ?thesis by simp
qed

lemma pend_views_of_view:
  assumes "graph_ok ts g" "pend_views ts g R p \<noteq> []"
  shows "gt_view_src (ts p) = None"
proof -
  from assms(2) obtain v where "v \<in> set (cg_nodes g)" "gt_view_src (ts v) = Some p" by (auto simp: pend_views_def filter_empty_conv)
  then show ?thesis by (rule graph_okD(5) [OF assms(1)])
qed

lemma not_kept:
  assumes ok: "graph_ok ts g" and sub: "set R \<subseteq> set (graph_uses ts g)" and t: "t \<notin> set R" "pend_views ts g R t = []" "\<not> gt_output (ts t)"
    and used: "t \<in> set (graph_uses ts g) \<or> (\<exists>v \<in> set (graph_uses ts g). gt_view_src (ts v) = Some t)"
  shows "\<not> kept ts g R t"
proof -
  have "gt_view_src (ts v) \<noteq> Some t" if v: "v \<in> set R" for v
  proof
    assume "gt_view_src (ts v) = Some t"
    with uses_view [OF ok, of v t] v sub have "v \<in> set (pend_views ts g R t)" by (auto simp: pend_views_def)
    with t(2) show False by simp
  qed
  with t used show ?thesis by (auto simp: kept_def)
qed

lemma kept_Cons: "kept ts g R t \<Longrightarrow> kept ts g (p # R) t"
  by (auto simp: kept_def)

lemma held_weaken: "held ts g B (p # R) X ga \<Longrightarrow> own ga \<subseteq> own ga' \<Longrightarrow> held ts g B R X ga'"
  unfolding held_def using kept_Cons by blast

lemma held_free: "held ts g B (p # R) X ga \<Longrightarrow> own ga - {t} \<subseteq> own ga' \<Longrightarrow> \<not> kept ts g R t \<Longrightarrow> held ts g B R X ga'"
  unfolding held_def using kept_Cons by blast

text \<open>Giving the memory of \<open>t\<close> back after its last use.\<close>

lemma release:
  assumes szs: "sizes_ok asize ts" and ok: "graph_ok ts g" and sub: "set R \<subseteq> set (graph_uses ts g)"
    and inv: "mem_inv asize ts ga" "cnt_inv ts g R ga" "held ts g B (p # R) X ga" and res: "free_node asize ts t ga = Some ga'"
    and t: "t \<in> own ga" "hn_n_children (ga_hash ga t) = 0" "hn_n_views (ga_hash ga t) = 0"
      "t \<in> set (graph_uses ts g) \<or> (\<exists>v \<in> set (graph_uses ts g). gt_view_src (ts v) = Some t)"
  shows "step_inv asize ts g B R X ga' \<and> same_places {} ga ga'"
proof -
  from free_step [OF szs inv(1) t(1) res] have F: "mem_inv asize ts ga'" "own ga' = (if gt_output (ts t) then own ga else own ga - {t})"
    "same_places {} ga ga'" "same_counts ga ga'" by blast+
  have "count_list R t = 0" "pend_views ts g R t = []" using inv(2) t(2,3) by (simp_all add: cnt_inv_def)
  then have dead: "\<not> kept ts g R t" if "\<not> gt_output (ts t)" using not_kept [OF ok sub _ _ that t(4)] by (simp add: count_list_0_iff)
  have "held ts g B R X ga'"
  proof (cases "gt_output (ts t)")
    case True
    with F(2) held_weaken [OF inv(3)] show ?thesis by simp
  next
    case False
    with F(2) held_free [OF inv(3) _ dead] show ?thesis by simp
  qed
  with F inv(2) show ?thesis by (simp add: step_inv_def cnt_inv_cong)
qed

lemma update_step:
  assumes szs: "sizes_ok asize ts" and ok: "graph_ok ts g" and sub: "set (p # R) \<subseteq> set (graph_uses ts g)"
    and inv: "step_inv asize ts g B (p # R) X ga" and res: "update_parent asize ts p ga = Some ga'"
  shows "step_inv asize ts g B R X ga' \<and> same_places {} ga ga'"
proof -
  have sub': "set R \<subseteq> set (graph_uses ts g)" and pU: "p \<in> set (graph_uses ts g)" using sub by simp_all
  let ?ga1 = "add_children (- 1) p ga"
  have I: "mem_inv asize ts ga" "cnt_inv ts g (p # R) ga" "held ts g B (p # R) X ga" using inv by (simp_all add: step_inv_def)
  have ch: "hn_n_children (ga_hash ?ga1 t) = int (count_list R t)" for t using I(2) by (simp add: cnt_inv_def)
  have vw: "hn_n_views (ga_hash ?ga1 t) = int (length (pend_views ts g R t)) + (if p \<notin> set R \<and> gt_view_src (ts p) = Some t then 1 else 0)" for t
    using I(2) pend_views_Cons [OF ok pU, of R t] by (simp add: cnt_inv_def)
  have m1: "mem_inv asize ts ?ga1" "own ?ga1 = own ga" "same_places {} ga ?ga1" using I(1) by (simp_all add: counters_mem)
  have h1: "held ts g B (p # R) X ?ga1" using I(3) m1(2) by (simp add: held_def)
  have plain: "step_inv asize ts g B R X ?ga1" if "p \<in> set R \<or> gt_view_src (ts p) = None"
  proof -
    have "cnt_inv ts g R ?ga1" using ch vw that by (auto simp: cnt_inv_def simp del: count_simps)
    with m1 held_weaken [OF I(3)] show ?thesis by (simp add: step_inv_def)
  qed
  show ?thesis
  proof (cases "hn_n_children (ga_hash ?ga1 p) = 0 \<and> hn_n_views (ga_hash ?ga1 p) = 0")
    case False
    with res have "ga' = ?ga1" by (simp add: update_parent_def Let_def del: count_simps split: if_splits)
    moreover have "p \<in> set R \<or> gt_view_src (ts p) = None"
    proof (rule ccontr)
      assume c: "\<not> (p \<in> set R \<or> gt_view_src (ts p) = None)"
      then have "pend_views ts g R p = []" using pend_views_of_view [OF ok, of R p] by (cases "pend_views ts g R p = []") auto
      moreover have "gt_view_src (ts p) \<noteq> Some p"
        using graph_okD(5) [OF ok, of p p] uses_view [OF ok pU, of p] by auto
      ultimately have "hn_n_views (ga_hash ?ga1 p) = 0" using vw [of p] by (simp del: count_simps)
      moreover have "hn_n_children (ga_hash ?ga1 p) = 0" using ch [of p] c by (simp del: count_simps add: count_list_0_iff)
      ultimately show False using False by simp
    qed
    ultimately show ?thesis using plain m1(3) by simp
  next
    case True
    then have pR: "p \<notin> set R" using ch [of p] by (simp del: count_simps add: count_list_0_iff)
    show ?thesis
    proof (cases "gt_view_src (ts p)")
      case None
      show ?thesis
      proof (cases "hn_allocated (ga_hash ?ga1 p)")
        case a: True
        with True None res have fr: "free_node asize ts p ?ga1 = Some ga'" by (simp add: update_parent_def Let_def del: count_simps)
        have "cnt_inv ts g R ?ga1" using plain None by (simp add: step_inv_def)
        from release [OF szs ok sub' m1(1) this h1 fr _ conjunct1 [OF True] conjunct2 [OF True]] a pU
        have "step_inv asize ts g B R X ga' \<and> same_places {} ?ga1 ga'" by (simp add: own_def del: count_simps)
        with same_places_trans [OF m1(3)] show ?thesis by fastforce
      next
        case False
        with True None res have "ga' = ?ga1" by (simp add: update_parent_def Let_def del: count_simps)
        with plain None m1(3) show ?thesis by simp
      qed
    next
      case (Some v)
      let ?ga2 = "add_views (- 1) v ?ga1"
      have c2: "cnt_inv ts g R ?ga2" unfolding cnt_inv_def using ch vw pR Some by (simp del: count_simps add: count_simps(3,4))
      have m2: "mem_inv asize ts ?ga2" "own ?ga2 = own ga" "same_places {} ga ?ga2"
        using m1 same_places_trans [OF m1(3) counters_mem(6) [where X = "{}"]] by (simp_all add: counters_mem)
      have h2: "held ts g B (p # R) X ?ga2" using I(3) m2(2) by (simp add: held_def)
      show ?thesis
      proof (cases "hn_n_views (ga_hash ?ga2 v) = 0 \<and> hn_n_children (ga_hash ?ga2 v) = 0 \<and> hn_allocated (ga_hash ?ga2 v)")
        case a: True
        with True Some res have fr: "free_node asize ts v ?ga2 = Some ga'" by (simp add: update_parent_def Let_def del: count_simps)
        from release [OF szs ok sub' m2(1) c2 h2 fr] a pU Some
        have "step_inv asize ts g B R X ga' \<and> same_places {} ?ga2 ga'" by (auto simp: own_def simp del: count_simps)
        with same_places_trans [OF m2(3)] show ?thesis by fastforce
      next
        case False
        with True Some res have "ga' = ?ga2" by (simp add: update_parent_def Let_def del: count_simps split: if_splits)
        with c2 m2 held_weaken [OF I(3)] show ?thesis by (simp add: step_inv_def)
      qed
    qed
  qed
qed

lemma update_all:
  assumes szs: "sizes_ok asize ts" and ok: "graph_ok ts g"
  shows "foldM (update_parent asize ts) ps ga = Some ga' \<Longrightarrow> step_inv asize ts g B (ps @ R) X ga \<Longrightarrow> set (ps @ R) \<subseteq> set (graph_uses ts g) \<Longrightarrow>
    step_inv asize ts g B R X ga' \<and> same_places {} ga ga'"
proof (induction ps arbitrary: ga)
  case (Cons p ps)
  from Cons.prems(1) obtain ga1 where ga1: "update_parent asize ts p ga = Some ga1" "foldM (update_parent asize ts) ps ga1 = Some ga'"
    by (auto simp: Option.bind_eq_Some_conv)
  from update_step [OF szs ok _ _ ga1(1), of "ps @ R" B X] Cons.prems(2,3) have S: "step_inv asize ts g B (ps @ R) X ga1" "same_places {} ga ga1" by simp_all
  from Cons.IH [OF ga1(2) S(1)] Cons.prems(3) have "step_inv asize ts g B R X ga'" "same_places {} ga1 ga'" by simp_all
  with same_places_trans [OF S(2)] show ?case by fastforce
qed simp

section \<open>One node\<close>

definition uses_from :: "(nat \<Rightarrow> gtensor) \<Rightarrow> ggml_cgraph \<Rightarrow> nat \<Rightarrow> nat list" where
  "uses_from ts g i = concat (map (\<lambda>t. srcs (ts t)) (drop i (cg_nodes g)))"

text \<open>The tensors that have an address when node \<open>i\<close> starts.\<close>

definition born :: "(nat \<Rightarrow> gtensor) \<Rightarrow> ggml_cgraph \<Rightarrow> nat \<Rightarrow> nat set" where
  "born ts g i = before_node g i \<union> {t \<in> set (cg_nodes g). gt_input (ts t)}"

text \<open>Node \<open>i\<close> may take over the memory of a source that neither is kept nor used later.\<close>

definition takes :: "(nat \<Rightarrow> gtensor) \<Rightarrow> ggml_cgraph \<Rightarrow> nat \<Rightarrow> nat \<Rightarrow> nat \<Rightarrow> bool" where
  "takes ts g i t p \<longleftrightarrow> t = cg_nodes g ! i \<and> ggml_op_can_inplace (gt_op (ts t)) \<and> p \<in> set (srcs (ts t)) \<and> \<not> kept ts g (uses_from ts g (Suc i)) p"

text \<open>The tensors whose memory counts while node \<open>i\<close> is computed.\<close>

definition live_at :: "(nat \<Rightarrow> gtensor) \<Rightarrow> ggml_cgraph \<Rightarrow> nat \<Rightarrow> nat set" where
  "live_at ts g i = {t \<in> born ts g (Suc i). managed ts t \<and> kept ts g (uses_from ts g i) t}"

definition step_mem :: "(nat \<Rightarrow> gtensor \<Rightarrow> nat) \<Rightarrow> (nat \<Rightarrow> gtensor) \<Rightarrow> ggml_cgraph \<Rightarrow> nat \<Rightarrow> gallocr \<Rightarrow> bool" where
  "step_mem asize ts g i ga \<longleftrightarrow> (\<forall>t \<in> live_at ts g i. \<forall>t' \<in> live_at ts g i. t \<noteq> t' \<longrightarrow> mem_apart asize ts ga t t' \<or> takes ts g i t t' \<or> takes ts g i t' t)"

lemma before_Suc: "i < length (cg_nodes g) \<Longrightarrow> before_node g (Suc i) = insert (cg_nodes g ! i) (before_node g i)"
  by (auto simp: before_node_def take_Suc_conv_app_nth)

lemma born_Suc: "i < length (cg_nodes g) \<Longrightarrow> born ts g (Suc i) = insert (cg_nodes g ! i) (born ts g i)"
  by (auto simp: born_def before_Suc)

lemma born_mono: "i \<le> j \<Longrightarrow> born ts g i \<subseteq> born ts g j"
  using before_mono by (auto simp: born_def)

lemma uses_from_step: "i < length (cg_nodes g) \<Longrightarrow> uses_from ts g i = srcs (ts (cg_nodes g ! i)) @ uses_from ts g (Suc i)"
  by (simp add: uses_from_def Cons_nth_drop_Suc [symmetric])

lemma uses_from_subset: "set (uses_from ts g i) \<subseteq> set (graph_uses ts g)"
  using set_drop_subset [of i "cg_nodes g"] by (auto simp: uses_from_def graph_uses_def)

lemma uses_from_all: "uses_from ts g 0 = graph_uses ts g"
  by (simp add: uses_from_def graph_uses_def)

lemma uses_from_later: "i \<le> j \<Longrightarrow> j < length (cg_nodes g) \<Longrightarrow> s \<in> set (srcs (ts (cg_nodes g ! j))) \<Longrightarrow> s \<in> set (uses_from ts g i)"
proof -
  assume "i \<le> j" "j < length (cg_nodes g)" and s: "s \<in> set (srcs (ts (cg_nodes g ! j)))"
  then have "cg_nodes g ! j \<in> set (drop i (cg_nodes g))" by (auto simp: in_set_conv_nth intro!: exI [of _ "j - i"])
  with s show ?thesis by (auto simp: uses_from_def)
qed

lemma node_before: "graph_ok ts g \<Longrightarrow> i < length (cg_nodes g) \<Longrightarrow> cg_nodes g ! i \<in> before_node g j \<Longrightarrow> i < j"
proof -
  assume ok: "graph_ok ts g" and i: "i < length (cg_nodes g)" and b: "cg_nodes g ! i \<in> before_node g j"
  then have "cg_nodes g ! i \<in> set (take j (cg_nodes g))" using graph_okD(2) [OF ok] nth_mem [OF i] unfolding before_node_def disjoint_iff by blast
  then obtain k where "k < j" "k < length (cg_nodes g)" "cg_nodes g ! k = cg_nodes g ! i" by (auto simp: in_set_conv_nth)
  with graph_okD(1) [OF ok] i show "i < j" by (auto simp: nth_eq_iff_index_eq)
qed

lemma not_own_src:
  assumes "graph_ok ts g" "t \<in> set (cg_nodes g) \<union> set (cg_leafs g)" "ggml_op_can_inplace (gt_op (ts t))"
  shows "t \<notin> set (srcs (ts t))"
proof
  assume "t \<in> set (srcs (ts t))"
  moreover obtain i where i: "i < length (cg_nodes g)" "t = cg_nodes g ! i" using assms graph_okD(6) [OF assms(1)] by (auto simp: in_set_conv_nth)
  ultimately have "cg_nodes g ! i \<in> before_node g i" using graph_okD(3) [OF assms(1) i(1)] by simp
  with node_before [OF assms(1) i(1)] show False by blast
qed

text \<open>A node is used only later than it is computed, directly or through a view.\<close>

lemma kept_node:
  assumes ok: "graph_ok ts g" and i: "i < length (cg_nodes g)"
  shows "kept ts g (uses_from ts g i) (cg_nodes g ! i)"
proof -
  have later: "s \<in> set (uses_from ts g i)" if s: "s \<in> set (graph_uses ts g)" "s = cg_nodes g ! i \<or> gt_view_src (ts s) = Some (cg_nodes g ! i)" for s
  proof -
    from s(1) obtain j where j: "j < length (cg_nodes g)" "s \<in> set (srcs (ts (cg_nodes g ! j)))" by (auto simp: uses_node)
    from s(2) graph_okD(3,4) [OF ok j] have "cg_nodes g ! i \<in> before_node g j" by auto
    with node_before [OF ok i] have "i \<le> j" by (simp add: less_imp_le)
    with j show ?thesis by (intro uses_from_later)
  qed
  show ?thesis using later by (auto simp: kept_def)
qed

lemma parents_noop:
  assumes szs: "sizes_ok asize ts" and ok: "graph_ok ts g"
  shows "foldM (\<lambda>p. allocate_node asize ts p b) ps ga = Some ga' \<Longrightarrow> step_inv asize ts g B R {} ga \<Longrightarrow> set ps \<subseteq> set R \<Longrightarrow> set ps \<subseteq> B \<Longrightarrow> B \<subseteq> set (cg_nodes g) \<union> set (cg_leafs g) \<Longrightarrow> ga' = ga"
proof (induction ps)
  case (Cons p ps)
  from Cons.prems(1) obtain ga1 where ga1: "allocate_node asize ts p b ga = Some ga1" "foldM (\<lambda>p. allocate_node asize ts p b) ps ga1 = Some ga'"
    by (auto simp: Option.bind_eq_Some_conv)
  have p: "p \<in> B" "kept ts g R p" "p \<in> set (cg_nodes g) \<union> set (cg_leafs g)" using Cons.prems by (auto simp: kept_def)
  then have "p \<in> own ga \<or> \<not> managed ts p" using Cons.prems(2) by (auto simp: step_inv_def held_def)
  with allocate_node_spec [OF szs _ not_own_src [OF ok p(3)] ga1(1)] Cons.prems(2) have "ga1 = ga" by (auto simp: step_inv_def split: if_splits)
  with ga1 Cons show ?case by simp
qed simp

lemma exec_alloc:
  assumes szs: "sizes_ok asize ts" and ok: "graph_ok ts g" and i: "i < length (cg_nodes g)"
    and inv: "step_inv asize ts g (born ts g i) (uses_from ts g i) {} ga" and res: "allocate_node asize ts (cg_nodes g ! i) b ga = Some ga'"
  shows "\<exists>X. step_inv asize ts g (born ts g (Suc i)) (uses_from ts g i) X ga' \<and> (\<forall>p \<in> X. takes ts g i (cg_nodes g ! i) p) \<and>
    same_places (- born ts g i) ga ga' \<and> step_mem asize ts g i ga'"
proof -
  let ?t = "cg_nodes g ! i" and ?R = "uses_from ts g i"
  have tn: "?t \<in> set (cg_nodes g)" using i by simp
  have I: "mem_inv asize ts ga" "cnt_inv ts g ?R ga" "held ts g (born ts g i) ?R {} ga" using inv by (simp_all add: step_inv_def)
  from allocate_node_spec [OF szs I(1) not_own_src [OF ok] res] tn
  have A: "mem_inv asize ts ga'" "same_counts ga ga'"
    "if ?t \<in> own ga \<or> \<not> managed ts ?t then ga' = ga else same_places {?t} ga ga' \<and> (own ga' = insert ?t (own ga) \<or> (\<exists>p. took_over ts ga ?t ga' p))" by blast+
  have cnt: "cnt_inv ts g ?R ga'" using I(2) A(2) by (simp add: cnt_inv_cong)
  have old: "t \<in> own ga" if "t \<in> born ts g i" "managed ts t" "kept ts g ?R t" for t using I(3) that by (simp add: held_def)
  have new: "t \<in> own ga \<or> t = ?t" if "t \<in> born ts g (Suc i)" "managed ts t" "kept ts g ?R t" for t using old that i by (auto simp: born_Suc)
  have "\<exists>X. own ga - X \<subseteq> own ga' \<and> (managed ts ?t \<longrightarrow> ?t \<in> own ga') \<and> ?t \<notin> X \<and> (\<forall>p \<in> X. p \<in> own ga \<and> takes ts g i ?t p) \<and> (own ga' \<subseteq> insert ?t (own ga)) \<and>
      same_places (- own ga) ga ga'"
  proof (cases "?t \<in> own ga \<or> \<not> managed ts ?t")
    case True
    with A(3) show ?thesis by (intro exI [of _ "{}"]) auto
  next
    case False
    with A(3) have sp: "same_places {?t} ga ga'" and cases: "own ga' = insert ?t (own ga) \<or> (\<exists>p. took_over ts ga ?t ga' p)" by simp_all
    have sp': "same_places (- own ga) ga ga'" using False by (intro same_places_mono [OF sp]) simp
    from cases show ?thesis
    proof
      assume "own ga' = insert ?t (own ga)"
      with sp' show ?thesis by (intro exI [of _ "{}"]) auto
    next
      assume "\<exists>p. took_over ts ga ?t ga' p"
      then obtain p where p: "p \<in> set (srcs (ts ?t))" "p \<in> own ga" "\<not> gt_output (ts p)" "hn_n_children (ga_hash ga p) = 1" "hn_n_views (ga_hash ga p) = 0"
        "own ga' = insert ?t (own ga - {p})" "ggml_op_can_inplace (gt_op (ts ?t))" by (auto simp: took_over_def)
      have "count_list ?R p = 1" "pend_views ts g ?R p = []" using I(2) p(4,5) by (simp_all add: cnt_inv_def)
      moreover have "count_list (srcs (ts ?t)) p \<noteq> 0" using p(1) by (simp add: count_list_0_iff)
      ultimately have "count_list (uses_from ts g (Suc i)) p = 0" and pv: "pend_views ts g (uses_from ts g (Suc i)) p = []"
        by (auto simp: uses_from_step [OF i] pend_views_def filter_empty_conv)
      then have "p \<notin> set (uses_from ts g (Suc i))" by (simp add: count_list_0_iff)
      moreover have "p \<in> set (graph_uses ts g)" using p(1) i by (auto simp: uses_node)
      ultimately have "\<not> kept ts g (uses_from ts g (Suc i)) p" using not_kept [OF ok uses_from_subset _ pv p(3)] by blast
      with p sp' False show ?thesis by (intro exI [of _ "{p}"]) (auto simp: takes_def)
    qed
  qed
  then obtain X where X: "own ga - X \<subseteq> own ga'" "managed ts ?t \<Longrightarrow> ?t \<in> own ga'" "?t \<notin> X" "\<And>p. p \<in> X \<Longrightarrow> p \<in> own ga \<and> takes ts g i ?t p"
    "own ga' \<subseteq> insert ?t (own ga)" "same_places (- own ga) ga ga'" by blast
  have inv': "step_inv asize ts g (born ts g (Suc i)) ?R X ga'"
    using A(1) cnt new X(1,2) unfolding step_inv_def held_def by blast
  have same: "same_places (- born ts g i) ga ga'"
  proof (cases "?t \<in> born ts g i")
    case True
    with old [OF True] kept_node [OF ok i] A(3) show ?thesis by (auto split: if_splits)
  next
    case False
    from A(3) have "same_places {?t} ga ga'" by (cases "?t \<in> own ga \<or> \<not> managed ts ?t") simp_all
    then show ?thesis by (rule same_places_mono) (use False in simp)
  qed
  note S = same_placesD [OF X(6)]
  have mem: "mem_apart asize ts ga' t t' \<or> takes ts g i t t' \<or> takes ts g i t' t"
    if t: "t \<in> live_at ts g i" and t': "t' \<in> live_at ts g i" and ne: "t \<noteq> t'" for t t'
  proof -
    have o: "u \<in> own ga' \<or> u \<in> X" if "u \<in> live_at ts g i" for u
      using inv' that by (auto simp: step_inv_def held_def live_at_def)
    have og: "u \<in> own ga" if "u \<in> own ga' \<or> u \<in> X" "u \<noteq> ?t" for u using that X(4,5) by blast
    have one: ?thesis if x: "x \<in> X" and xy: "(x = t \<and> y = t') \<or> (x = t' \<and> y = t)" for x y
    proof (cases "y = ?t")
      case True
      with X(4) [OF x] xy show ?thesis by blast
    next
      case False
      have "x \<in> own ga" "y \<in> own ga" "x \<noteq> y" using X(4) [OF x] og [OF _ False] o xy t t' ne by blast+
      then have "mem_apart asize ts ga' x y" using mem_invD(5) [OF I(1), of x y] S(3) [of x y asize ts] by simp
      with xy show ?thesis using mem_apart_sym [of asize ts ga'] by blast
    qed
    consider "t \<in> X" | "t' \<in> X" | "t \<in> own ga'" "t' \<in> own ga'" using o t t' by blast
    then show ?thesis
    proof cases
      case 3
      with mem_invD(5) [OF A(1)] ne show ?thesis by blast
    qed (use one in blast)+
  qed
  show ?thesis using inv' X(4) same mem by (auto simp: step_mem_def)
qed

lemma exec_step:
  assumes szs: "sizes_ok asize ts" and ok: "graph_ok ts g" and i: "i < length (cg_nodes g)"
    and inv: "step_inv asize ts g (born ts g i) (uses_from ts g i) {} ga" and res: "exec_node asize ts b (cg_nodes g ! i) ga = Some ga'"
  shows "step_inv asize ts g (born ts g (Suc i)) (uses_from ts g (Suc i)) {} ga' \<and> same_places (- born ts g i) ga ga' \<and> step_mem asize ts g i ga' \<and>
    ga_mono ga ga' \<and> (managed ts (cg_nodes g ! i) \<longrightarrow> bounded asize ts ga' (cg_nodes g ! i))"
proof -
  let ?t = "cg_nodes g ! i" and ?R = "uses_from ts g i"
  from res obtain ga1 ga2 where r: "foldM (\<lambda>p. allocate_node asize ts p b) (srcs (ts ?t)) ga = Some ga1" "allocate_node asize ts ?t b ga1 = Some ga2"
    "foldM (update_parent asize ts) (srcs (ts ?t)) ga2 = Some ga'" by (auto simp: exec_node_def Option.bind_eq_Some_conv)
  have "set (srcs (ts ?t)) \<subseteq> born ts g i" using graph_okD(3) [OF ok i] by (auto simp: born_def)
  moreover have "born ts g i \<subseteq> set (cg_nodes g) \<union> set (cg_leafs g)" using set_take_subset [of i "cg_nodes g"] by (auto simp: born_def before_node_def)
  ultimately have "ga1 = ga" using parents_noop [OF szs ok r(1) inv] uses_from_step [OF i, of ts] by simp
  with exec_alloc [OF szs ok i inv] r(2) obtain X where X: "step_inv asize ts g (born ts g (Suc i)) ?R X ga2" "\<And>p. p \<in> X \<Longrightarrow> takes ts g i ?t p"
    "same_places (- born ts g i) ga ga2" "step_mem asize ts g i ga2" by blast
  from update_all [OF szs ok r(3), of "born ts g (Suc i)" "uses_from ts g (Suc i)" X] X(1) uses_from_step [OF i, of ts] uses_from_subset [of ts g i]
  have U: "step_inv asize ts g (born ts g (Suc i)) (uses_from ts g (Suc i)) X ga'" "same_places {} ga2 ga'" by simp_all
  have mono: "ga_mono ga2 ga'" by (rule foldM_mono [OF r(3)]) (rule update_mono)
  have "step_inv asize ts g (born ts g (Suc i)) (uses_from ts g (Suc i)) {} ga'"
    using U(1) X(2) unfolding step_inv_def held_def takes_def by blast
  moreover have "same_places (- born ts g i) ga ga'" using same_places_trans [OF X(3) U(2)] by simp
  moreover have "step_mem asize ts g i ga'" using X(4) same_placesD(3) [OF U(2)] by (simp add: step_mem_def)
  moreover have "ga_mono ga ga'" using ga_mono_trans [OF allocate_mono [OF r(2)] mono] \<open>ga1 = ga\<close> by simp
  moreover have "bounded asize ts ga' ?t" if m: "managed ts ?t"
  proof -
    have "?t \<notin> X" using X(2) [of ?t] not_own_src [OF ok, of ?t] i by (auto simp: takes_def)
    moreover have "?t \<in> born ts g (Suc i)" using i by (simp add: born_Suc)
    ultimately have "?t \<in> own ga2" using X(1) m kept_node [OF ok i] by (simp add: step_inv_def held_def)
    then have "bounded asize ts ga2 ?t" using X(1) by (intro bounded_own) (simp_all add: step_inv_def)
    then show ?thesis by (rule bounded_mono [OF _ U(2) _ mono]) simp_all
  qed
  ultimately show ?thesis by blast
qed

section \<open>The whole graph\<close>

lemma mem_inv_start:
  assumes "shape_ok ga" "\<And>k. k < length (ga_tallocs ga) \<Longrightarrow> al_inv (ga_tallocs ga ! k) {}"
  shows "mem_inv asize ts (ga\<lparr>ga_hash := (\<lambda>_. hash_zero)\<rparr>)"
proof -
  have "own (ga\<lparr>ga_hash := (\<lambda>_. hash_zero)\<rparr>) = {}" by (simp add: own_def hash_zero_def)
  then show ?thesis using assms by (simp add: mem_inv_def live_of_def shape_ok_def)
qed

text \<open>A tensor whose operator does not work in place only adds to the memory in use.\<close>

definition grows :: "(nat \<Rightarrow> gtensor \<Rightarrow> nat) \<Rightarrow> (nat \<Rightarrow> gtensor) \<Rightarrow> gallocr \<Rightarrow> gallocr \<Rightarrow> bool" where
  "grows asize ts ga ga' \<longleftrightarrow> mem_inv asize ts ga' \<and> own ga \<subseteq> own ga'"

lemma allocate_grows:
  assumes "sizes_ok asize ts" "mem_inv asize ts ga" "\<not> ggml_op_can_inplace (gt_op (ts t))" "allocate_node asize ts t b ga = Some ga'"
  shows "grows asize ts ga ga' \<and> same_counts ga ga' \<and> (managed ts t \<longrightarrow> t \<in> own ga')"
  using allocate_node_spec [OF assms(1,2) _ assms(4)] assms(3) by (auto simp: took_over_def grows_def split: if_splits)

lemma count_node_spec:
  assumes szs: "sizes_ok asize ts" and ok: "graph_ok ts g" and i: "i < length (cg_nodes g)" and inv: "mem_inv asize ts ga"
    and res: "count_node asize ts b (cg_nodes g ! i) ga = Some ga'"
  shows "grows asize ts ga ga' \<and> (gt_input (ts (cg_nodes g ! i)) \<longrightarrow> managed ts (cg_nodes g ! i) \<longrightarrow> cg_nodes g ! i \<in> own ga') \<and>
    (\<forall>t. hn_n_children (ga_hash ga' t) = hn_n_children (ga_hash ga t) + int (count_list (srcs (ts (cg_nodes g ! i))) t)) \<and>
    (\<forall>t. hn_n_views (ga_hash ga' t) = hn_n_views (ga_hash ga t) +
       (if gt_view_src (ts (cg_nodes g ! i)) = Some t \<and> gt_op (ts (cg_nodes g ! i)) \<noteq> GGML_OP_NONE then 1 else 0))"
proof -
  let ?t = "cg_nodes g ! i" and ?S = "srcs (ts (cg_nodes g ! i))"
  define ga1 where "ga1 = (case gt_view_src (ts ?t) of Some v \<Rightarrow> if gt_op (ts ?t) \<noteq> GGML_OP_NONE then add_views 1 v ga else ga | None \<Rightarrow> ga)"
  let ?body = "\<lambda>src ga. let ga' = add_children 1 src ga in if gt_input (ts src) then allocate_node asize ts src b ga' else Some ga'"
  from res obtain ga2 where ga2: "(if gt_input (ts ?t) then allocate_node asize ts ?t b ga1 else Some ga1) = Some ga2"
    and loop: "foldM ?body ?S ga2 = Some ga'"
    unfolding count_node_def ga1_def [symmetric] by (auto simp: Option.bind_eq_Some_conv Let_def)
  have m1: "mem_inv asize ts ga1" "own ga1 = own ga" "hn_n_children (ga_hash ga1 t) = hn_n_children (ga_hash ga t)"
    "hn_n_views (ga_hash ga1 t) = hn_n_views (ga_hash ga t) + (if gt_view_src (ts ?t) = Some t \<and> gt_op (ts ?t) \<noteq> GGML_OP_NONE then 1 else 0)" for t
    using inv by (simp_all add: ga1_def counters_mem split: option.splits)
  have m2: "grows asize ts ga1 ga2 \<and> same_counts ga1 ga2 \<and> (gt_input (ts ?t) \<longrightarrow> managed ts ?t \<longrightarrow> ?t \<in> own ga2)"
  proof (cases "gt_input (ts ?t)")
    case True
    then have "\<not> ggml_op_can_inplace (gt_op (ts ?t))" using graph_okD(7) [OF ok, of ?t] i by simp
    from allocate_grows [OF szs m1(1) this] ga2 True show ?thesis by simp
  qed (use ga2 m1(1) in \<open>simp add: grows_def\<close>)
  have "grows asize ts ga2 ga' \<and> (\<forall>t. hn_n_children (ga_hash ga' t) = hn_n_children (ga_hash ga2 t) + int (count_list ?S t) \<and> hn_n_views (ga_hash ga' t) = hn_n_views (ga_hash ga2 t))"
  proof (rule foldM_done [OF loop, where P = "\<lambda>ys u. grows asize ts ga2 u \<and>
      (\<forall>t. hn_n_children (ga_hash u t) = hn_n_children (ga_hash ga2 t) + int (count_list ys t) \<and> hn_n_views (ga_hash u t) = hn_n_views (ga_hash ga2 t))"])
    show "grows asize ts ga2 ga2 \<and> (\<forall>t. hn_n_children (ga_hash ga2 t) = hn_n_children (ga_hash ga2 t) + int (count_list [] t) \<and> hn_n_views (ga_hash ga2 t) = hn_n_views (ga_hash ga2 t))"
      using m2 by (simp add: grows_def)
  next
    fix ys x u w
    assume "\<exists>zs. ?S = ys @ x # zs"
      and P: "grows asize ts ga2 u \<and> (\<forall>t. hn_n_children (ga_hash u t) = hn_n_children (ga_hash ga2 t) + int (count_list ys t) \<and> hn_n_views (ga_hash u t) = hn_n_views (ga_hash ga2 t))"
      and step: "?body x u = Some w"
    then have x: "x \<in> set ?S" by auto
    let ?u = "add_children 1 x u"
    have mu: "mem_inv asize ts ?u" "own ?u = own u" using P by (simp_all add: counters_mem grows_def)
    have "grows asize ts ?u w \<and> same_counts ?u w"
    proof (cases "gt_input (ts x)")
      case True
      have "x \<in> set (cg_leafs g) \<or> x \<in> set (cg_nodes g)" using graph_okD(3) [OF ok i x] set_take_subset [of i "cg_nodes g"] by (auto simp: before_node_def)
      then have "\<not> ggml_op_can_inplace (gt_op (ts x))" using graph_okD(6,7) [OF ok] True by blast
      with allocate_grows [OF szs mu(1) this] step True show ?thesis by (simp add: Let_def)
    qed (use step mu in \<open>simp add: grows_def\<close>)
    with P mu show "grows asize ts ga2 w \<and> (\<forall>t. hn_n_children (ga_hash w t) = hn_n_children (ga_hash ga2 t) + int (count_list (ys @ [x]) t) \<and> hn_n_views (ga_hash w t) = hn_n_views (ga_hash ga2 t))"
      by (auto simp: grows_def same_counts_def)
  qed
  with m1 m2 show ?thesis by (auto simp: grows_def same_counts_def)
qed

lemma count_phase:
  assumes szs: "sizes_ok asize ts" and ok: "graph_ok ts g" and inv: "mem_inv asize ts ga"
    and zero: "\<And>t. hn_n_children (ga_hash ga t) = 0 \<and> hn_n_views (ga_hash ga t) = 0" and leafs: "\<And>t. t \<in> set (cg_leafs g) \<Longrightarrow> managed ts t \<Longrightarrow> t \<in> own ga"
    and res: "foldM (\<lambda>i. count_node asize ts (f i) (cg_nodes g ! i)) [0..<length (cg_nodes g)] ga = Some ga'"
  shows "step_inv asize ts g (born ts g 0) (uses_from ts g 0) {} ga'"
proof -
  let ?P = "\<lambda>i u. grows asize ts ga u \<and> (\<forall>j < i. gt_input (ts (cg_nodes g ! j)) \<longrightarrow> managed ts (cg_nodes g ! j) \<longrightarrow> cg_nodes g ! j \<in> own u) \<and>
    (\<forall>t. hn_n_children (ga_hash u t) = int (count_list (concat (map (\<lambda>t. srcs (ts t)) (take i (cg_nodes g)))) t)) \<and>
    (\<forall>t. hn_n_views (ga_hash u t) = int (length (filter (\<lambda>v. gt_view_src (ts v) = Some t \<and> gt_op (ts v) \<noteq> GGML_OP_NONE) (take i (cg_nodes g)))))"
  have P: "?P (length (cg_nodes g)) ga'"
  proof (rule foldM_upt_done [OF res, where P = ?P])
    show "?P 0 ga" using inv zero by (simp add: grows_def)
  next
    fix i u w
    assume i: "i < length (cg_nodes g)" and P: "?P i u" and step: "count_node asize ts (f i) (cg_nodes g ! i) u = Some w"
    have "mem_inv asize ts u" using P by (simp add: grows_def)
    from count_node_spec [OF szs ok i this step] have C: "grows asize ts u w"
      "gt_input (ts (cg_nodes g ! i)) \<Longrightarrow> managed ts (cg_nodes g ! i) \<Longrightarrow> cg_nodes g ! i \<in> own w"
      "\<And>t. hn_n_children (ga_hash w t) = hn_n_children (ga_hash u t) + int (count_list (srcs (ts (cg_nodes g ! i))) t)"
      "\<And>t. hn_n_views (ga_hash w t) = hn_n_views (ga_hash u t) + (if gt_view_src (ts (cg_nodes g ! i)) = Some t \<and> gt_op (ts (cg_nodes g ! i)) \<noteq> GGML_OP_NONE then 1 else 0)"
      by blast+
    have "grows asize ts ga w" using P C(1) by (auto simp: grows_def)
    moreover have "cg_nodes g ! j \<in> own w" if "j < Suc i" "gt_input (ts (cg_nodes g ! j))" "managed ts (cg_nodes g ! j)" for j
      using that P C(1,2) by (cases "j = i") (auto simp: grows_def)
    ultimately show "?P (Suc i) w" using P C(3,4) by (simp add: take_Suc_conv_app_nth [OF i])
  qed
  have "cnt_inv ts g (uses_from ts g 0) ga'"
  proof -
    have "pend_views ts g (graph_uses ts g) t = filter (\<lambda>v. gt_view_src (ts v) = Some t \<and> gt_op (ts v) \<noteq> GGML_OP_NONE) (cg_nodes g)" for t
      by (auto simp: pend_views_def intro!: filter_cong)
    with P show ?thesis by (simp add: cnt_inv_def uses_from_all graph_uses_def)
  qed
  moreover have "t \<in> own ga'" if "t \<in> born ts g 0" "managed ts t" for t
  proof -
    from that consider "t \<in> set (cg_leafs g)" | j where "j < length (cg_nodes g)" "t = cg_nodes g ! j" "gt_input (ts t)"
      by (auto simp: born_def before_node_def in_set_conv_nth)
    then show ?thesis using P leafs [of t] that(2) by cases (auto simp: grows_def)
  qed
  ultimately show ?thesis using P by (simp add: step_inv_def held_def grows_def)
qed

lemma alloc_graph_safe:
  assumes szs: "sizes_ok asize ts" and ok: "graph_ok ts g" and start: "shape_ok ga" "\<And>k. k < length (ga_tallocs ga) \<Longrightarrow> al_inv (ga_tallocs ga ! k) {}"
    and res: "alloc_graph_impl asize ts g nids lids ga = Some ga'"
  shows "step_inv asize ts g (born ts g (length (cg_nodes g))) [] {} ga' \<and> (\<forall>i < length (cg_nodes g). step_mem asize ts g i ga') \<and>
    (\<forall>t \<in> born ts g (length (cg_nodes g)). managed ts t \<longrightarrow> bounded asize ts ga' t)"
proof -
  let ?n = "length (cg_nodes g)" and ?m = "length (cg_leafs g)" and ?ga0 = "ga\<lparr>ga_hash := (\<lambda>_. hash_zero)\<rparr>"
  from res obtain ga1 ga2 where
    r1: "foldM (\<lambda>i. allocate_node asize ts (cg_leafs g ! i) (get_node_buffer_id lids i)) [0..<?m] ?ga0 = Some ga1" and
    r2: "foldM (\<lambda>i. count_node asize ts (get_node_buffer_id nids i) (cg_nodes g ! i)) [0..<?n] ga1 = Some ga2" and
    r3: "foldM (\<lambda>i. exec_node asize ts (get_node_buffer_id nids i) (cg_nodes g ! i)) [0..<?n] ga2 = Some ga'"
    unfolding alloc_graph_impl_def by (auto simp: Option.bind_eq_Some_conv Let_def)
  have m0: "mem_inv asize ts ?ga0" by (rule mem_inv_start [OF start])
  let ?P = "\<lambda>k u. grows asize ts ?ga0 u \<and> same_counts ?ga0 u \<and> (\<forall>j < k. managed ts (cg_leafs g ! j) \<longrightarrow> cg_leafs g ! j \<in> own u)"
  have P: "?P ?m ga1"
  proof (rule foldM_upt_done [OF r1, where P = ?P])
    show "?P 0 ?ga0" using m0 by (simp add: grows_def)
  next
    fix k u w
    assume k: "k < ?m" and P: "?P k u" and step: "allocate_node asize ts (cg_leafs g ! k) (get_node_buffer_id lids k) u = Some w"
    have "mem_inv asize ts u" using P by (simp add: grows_def)
    from allocate_grows [OF szs this graph_okD(6) [OF ok] step] k have A: "grows asize ts u w" "same_counts u w" "managed ts (cg_leafs g ! k) \<Longrightarrow> cg_leafs g ! k \<in> own w" by simp_all
    have "cg_leafs g ! j \<in> own w" if "j < Suc k" "managed ts (cg_leafs g ! j)" for j
      using that P A by (cases "j = k") (auto simp: grows_def)
    with P A same_counts_trans show "?P (Suc k) w" by (auto simp: grows_def)
  qed
  have zero: "hn_n_children (ga_hash ga1 t) = 0 \<and> hn_n_views (ga_hash ga1 t) = 0" for t using P by (simp add: same_counts_def hash_zero_def)
  have leafs: "t \<in> own ga1" if "t \<in> set (cg_leafs g)" "managed ts t" for t using P that by (auto simp: in_set_conv_nth)
  have m1: "mem_inv asize ts ga1" using P by (simp add: grows_def)
  note start2 = count_phase [OF szs ok m1 zero leafs r2]
  let ?Q = "\<lambda>i u. step_inv asize ts g (born ts g i) (uses_from ts g i) {} u \<and> (\<forall>j < i. step_mem asize ts g j u) \<and>
    (\<forall>t \<in> born ts g i. managed ts t \<longrightarrow> bounded asize ts u t)"
  have "?Q ?n ga'"
  proof (rule foldM_upt_done [OF r3, where P = ?Q])
    have "kept ts g (uses_from ts g 0) t" for t by (auto simp: kept_def uses_from_all)
    then show "?Q 0 ga2" using start2 bounded_own by (simp add: step_inv_def held_def)
  next
    fix i u w
    assume i: "i < ?n" and Q: "?Q i u" and step: "exec_node asize ts (get_node_buffer_id nids i) (cg_nodes g ! i) u = Some w"
    from exec_step [OF szs ok i conjunct1 [OF Q] step] have E: "step_inv asize ts g (born ts g (Suc i)) (uses_from ts g (Suc i)) {} w"
      "same_places (- born ts g i) u w" "step_mem asize ts g i w" "ga_mono u w" "managed ts (cg_nodes g ! i) \<Longrightarrow> bounded asize ts w (cg_nodes g ! i)" by blast+
    have "bounded asize ts w t" if t: "t \<in> born ts g (Suc i)" "managed ts t" for t
    proof (cases "t \<in> born ts g i")
      case True
      with Q t(2) have "bounded asize ts u t" by blast
      then show ?thesis by (rule bounded_mono [OF _ E(2) _ E(4)]) (use True in simp)
    next
      case False
      with t have "t = cg_nodes g ! i" using i by (simp add: born_Suc)
      with E(5) t(2) show ?thesis by simp
    qed
    moreover    have "step_mem asize ts g j w" if j: "j < Suc i" for j
    proof (cases "j = i")
      case False
      with j have ji: "Suc j \<le> i" by simp
      have "live_at ts g j \<subseteq> born ts g i" using born_mono [OF ji] by (auto simp: live_at_def)
      then have "mem_apart asize ts w t t' = mem_apart asize ts u t t'" if "t \<in> live_at ts g j" "t' \<in> live_at ts g j" for t t'
        using same_placesD(3) [OF E(2), of t t'] that by auto
      moreover have "step_mem asize ts g j u" using Q ji by simp
      ultimately show ?thesis unfolding step_mem_def by simp
    qed (use E(3) in simp)
    ultimately show "?Q (Suc i) w" using E(1) by blast
  qed
  then show ?thesis by (simp add: uses_from_def)
qed

section \<open>A new allocator\<close>

definition aligned :: "(nat \<Rightarrow> nat) \<Rightarrow> nat list \<Rightarrow> bool" where
  "aligned al bufts \<longleftrightarrow> (\<forall>b \<in> set bufts. al b \<noteq> 0 \<and> al b AND (al b - 1) = 0 \<and> al b \<le> SIZE_MAX div 4)"

lemma fold_upt_Suc: "fold f [0..<Suc n] s = f n (fold f [0..<n] s)"
  by simp

text \<open>Every allocator belongs to a buffer type, and two entries share one exactly when their types are equal.\<close>

lemma gallocr_new_spec:
  assumes "aligned al bufts" and ga: "ga = gallocr_new_n al ms bufts"
  shows "shape_ok ga \<and> ga_bufts ga = bufts \<and> ga_buffers ga = replicate (length bufts) None \<and>
    (\<forall>k < length (ga_tallocs ga). al_inv (ga_tallocs ga ! k) {} \<and> k \<in> set (ga_talloc_of ga)) \<and>
    (\<forall>i < length bufts. \<forall>j < length bufts. ga_talloc_of ga ! i = ga_talloc_of ga ! j \<longleftrightarrow> bufts ! i = bufts ! j)"
proof -
  let ?f = "\<lambda>i ga. case find (\<lambda>j. bufts ! i = bufts ! j) [0..<i] of
         Some j \<Rightarrow> ga\<lparr>ga_talloc_of := ga_talloc_of ga @ [ga_talloc_of ga ! j]\<rparr>
       | None \<Rightarrow> ga\<lparr>ga_talloc_of := ga_talloc_of ga @ [length (ga_tallocs ga)],
           ga_tallocs := ga_tallocs ga @ [dyn_tallocr_new (al (bufts ! i)) (ms (bufts ! i))]\<rparr>"
  let ?ga0 = "\<lparr>ga_bufts = bufts, ga_buffers = replicate (length bufts) None, ga_talloc_of = [], ga_tallocs = [], ga_hash = (\<lambda>_. hash_zero), ga_node_allocs = [], ga_leaf_allocs = []\<rparr>"
  have P: "length (ga_talloc_of (fold ?f [0..<n] ?ga0)) = n \<and> ga_bufts (fold ?f [0..<n] ?ga0) = bufts \<and> ga_buffers (fold ?f [0..<n] ?ga0) = replicate (length bufts) None \<and>
    set (ga_talloc_of (fold ?f [0..<n] ?ga0)) = {..<length (ga_tallocs (fold ?f [0..<n] ?ga0))} \<and>
    (\<forall>x \<in> set (ga_tallocs (fold ?f [0..<n] ?ga0)). al_inv x {}) \<and>
    (\<forall>i < n. \<forall>j < n. ga_talloc_of (fold ?f [0..<n] ?ga0) ! i = ga_talloc_of (fold ?f [0..<n] ?ga0) ! j \<longleftrightarrow> bufts ! i = bufts ! j)"
    if "n \<le> length bufts" for n
    using that
  proof (induction n)
    case (Suc n)
    define u where "u = fold ?f [0..<n] ?ga0"
    from Suc have U: "length (ga_talloc_of u) = n" "ga_bufts u = bufts" "ga_buffers u = replicate (length bufts) None" "set (ga_talloc_of u) = {..<length (ga_tallocs u)}"
      "\<forall>x \<in> set (ga_tallocs u). al_inv x {}" "\<forall>i < n. \<forall>j < n. ga_talloc_of u ! i = ga_talloc_of u ! j \<longleftrightarrow> bufts ! i = bufts ! j"
      unfolding u_def by simp_all
    have step: "fold ?f [0..<Suc n] ?ga0 = ?f n u" by (simp only: fold_upt_Suc u_def)
    show ?case
    proof (cases "find (\<lambda>j. bufts ! n = bufts ! j) [0..<n]")
      case None
      then have new: "bufts ! j \<noteq> bufts ! n" if "j < n" for j using that by (auto simp: find_None_iff)
      have inb: "bufts ! n \<in> set bufts" using Suc.prems by simp
      then have a: "al_inv (dyn_tallocr_new (al (bufts ! n)) (ms (bufts ! n))) {}" using assms(1) by (intro al_inv_new) (auto simp: aligned_def)
      have lt: "ga_talloc_of u ! j < length (ga_tallocs u)" if "j < n" for j using U(1,4) that nth_mem [of j "ga_talloc_of u"] by auto
      have "set (ga_talloc_of (?f n u)) = {..<length (ga_tallocs (?f n u))}" using None U(4) by (simp add: lessThan_Suc)
      moreover have "ga_talloc_of (?f n u) ! i = ga_talloc_of (?f n u) ! j \<longleftrightarrow> bufts ! i = bufts ! j" if ij: "i < Suc n" "j < Suc n" for i j
      proof -
        have at: "ga_talloc_of (?f n u) ! x = (if x < n then ga_talloc_of u ! x else length (ga_tallocs u))" if "x < Suc n" for x
          using None U(1) that by (simp add: nth_append)
        have atl: "ga_talloc_of (?f n u) ! x = ga_talloc_of u ! x" if "x < n" for x using at [of x] that by (simp only: less_SucI if_True)
        have atn: "ga_talloc_of (?f n u) ! n = length (ga_tallocs u)" using at [of n] by (simp only: lessI less_irrefl if_False)
        consider "i < n" "j < n" | "i < n" "j = n" | "i = n" "j < n" | "i = n" "j = n" using ij by linarith
        then show ?thesis
        proof cases
          case 1
          show ?thesis unfolding atl [OF 1(1)] atl [OF 1(2)] using 1 U(6) by blast
        next
          case 2
          show ?thesis unfolding 2(2) atn atl [OF 2(1)] using lt [OF 2(1)] new [OF 2(1)] by simp
        next
          case 3
          show ?thesis unfolding 3(1) atn atl [OF 3(2)] using lt [OF 3(2)] new [OF 3(2)] by auto
        qed simp
      qed
      ultimately show ?thesis unfolding step using None U(1,2,3,5) a by simp
    next
      case (Some k)
      then have k: "k < n" "bufts ! k = bufts ! n" by (auto simp: find_Some_iff)
      have "ga_talloc_of u ! k \<in> set (ga_talloc_of u)" using k U(1) by simp
      then have "set (ga_talloc_of (?f n u)) = {..<length (ga_tallocs (?f n u))}" using Some U(4) by auto
      moreover have "ga_talloc_of (?f n u) ! i = ga_talloc_of (?f n u) ! j \<longleftrightarrow> bufts ! i = bufts ! j" if ij: "i < Suc n" "j < Suc n" for i j
      proof -
        define r where "r = (\<lambda>x. if x < n then x else k)"
        have at: "ga_talloc_of (?f n u) ! x = ga_talloc_of u ! r x" "bufts ! x = bufts ! r x" "r x < n" if "x < Suc n" for x
          using Some U(1) that k by (auto simp: nth_append r_def less_Suc_eq)
        have "ga_talloc_of u ! r i = ga_talloc_of u ! r j \<longleftrightarrow> bufts ! r i = bufts ! r j" using U(6) at(3) ij by blast
        then show ?thesis by (simp only: at(1,2) [OF ij(1)] at(1,2) [OF ij(2)])
      qed
      ultimately show ?thesis unfolding step using Some U(1,2,3,5) by simp
    qed
  qed simp
  from P [of "length bufts"] show ?thesis
    unfolding ga gallocr_new_n_def shape_ok_def by (auto simp: nth_mem set_eq_iff lessThan_def)
qed

section \<open>Properties\<close>

text \<open>The part of the code that lets a node take over the memory of a view is never reached: views own no memory.\<close>

lemma view_never_reused:
  assumes "mem_inv asize ts ga" "gt_view_src (ts p) \<noteq> None"
  shows "try_parent ts t p ga = Some None"
proof -
  have "p \<notin> own ga" using mem_invD(3) [OF assms(1), of p] assms(2) by (auto simp: managed_def)
  then show ?thesis by (simp add: try_parent_def gallocr_is_own_def own_def Let_def)
qed

text \<open>The output flag of a view does not keep the memory it shows: after the last use of the view the viewed tensor is freed.\<close>

lemma output_view_freed:
  assumes "gt_output (ts p)" "gt_view_src (ts p) = Some v" "v \<noteq> p" "\<not> gt_output (ts v)"
    and "hn_n_children (ga_hash ga p) = 1" "hn_n_views (ga_hash ga p) = 0"
    and "hn_n_children (ga_hash ga v) = 0" "hn_n_views (ga_hash ga v) = 1" "v \<in> own ga"
    and "update_parent asize ts p ga = Some ga'"
  shows "v \<notin> own ga'"
  using assms by (auto simp: update_parent_def Let_def free_node_def own_def split: Option.bind_splits if_splits)

text \<open>C10: the plan of the graph allocator is safe: take any graph whose sources precede their nodes, and any node of it.  Two
  tensors that both count at that node (they have been computed or were given, and are outputs, never used, or still
  used at this node or later, directly or through a view) lie in memory that does not overlap, unless the node
  works in place and one of the two is a source of it whose last use this is.\<close>

theorem graph_memory_safe:
  assumes "aligned al bufts" and "sizes_ok asize ts" and "graph_ok ts g"
    and "alloc_graph_impl asize ts g nids lids (gallocr_new_n al ms bufts) = Some ga"
    and "i < length (cg_nodes g)" and "t \<in> live_at ts g i" and "t' \<in> live_at ts g i" and "t \<noteq> t'"
  shows "mem_apart asize ts ga t t' \<or> takes ts g i t t' \<or> takes ts g i t' t"
proof -
  note N = gallocr_new_spec [OF assms(1) refl, of ms]
  have "step_mem asize ts g i ga" using alloc_graph_safe [OF assms(2,3) _ _ assms(4)] N assms(5) by blast
  with assms(6-8) show ?thesis by (simp add: step_mem_def)
qed

definition demo_ts :: "nat \<Rightarrow> gtensor" where
  "demo_ts t = \<lparr>gt_type = GGML_TYPE_F32, gt_ne = [4, 1, 1, 1], gt_nb = [4, 16, 16, 16],
     gt_op = (if t = 1 then GGML_OP_OTHER 0 else if t = 2 then GGML_OP_ADD else GGML_OP_NONE), gt_input = (t = 0), gt_output = (t \<noteq> 1),
     gt_src = (if t = 1 then [Some 0] else if t = 2 then [Some 1, Some 0] else []), gt_view_src = None, gt_view_offs = 0, gt_data = 0, gt_buffer = False\<rparr>"

definition demo_graph :: ggml_cgraph where
  "demo_graph = \<lparr>cg_nodes = [1, 2], cg_leafs = [0]\<rparr>"

definition demo_ga :: gallocr where
  "demo_ga = the (alloc_graph_impl (\<lambda>_ _. 16) demo_ts demo_graph None None (gallocr_new_n (\<lambda>_. 8) (\<lambda>_. 100) [0]))"

lemma demo_fields [simp]:
  "srcs (demo_ts t) = (if t = 1 then [0] else if t = 2 then [1, 0] else [])" "gt_view_src (demo_ts t) = None" "gt_data (demo_ts t) = 0"
  "gt_input (demo_ts t) = (t = 0)" "gt_output (demo_ts t) = (t \<noteq> 1)" "ggml_are_same_layout (demo_ts t) (demo_ts s)"
  "ggml_op_can_inplace (gt_op (demo_ts t)) = (t = 2)"
  by (simp_all add: srcs_def demo_ts_def GGML_MAX_SRC_def ggml_are_same_layout_def ggml_op_can_inplace_def)

lemma demo_graph_ok: "graph_ok demo_ts demo_graph"
  by (simp add: graph_ok_def before_node_def upt_rec demo_graph_def)

definition demo_chunk :: "nat \<Rightarrow> dyn_tallocr" where
  "demo_chunk off = \<lparr>da_alignment = 8, da_max_chunk_size = 100, da_chunks = [\<lparr>free_blocks = (replicate MAX_FREE_BLOCKS \<lparr>fb_offset = 0, fb_size = 0\<rparr>)[0 := \<lparr>fb_offset = off, fb_size = 100 - off\<rparr>],
     n_free_blocks = 1, max_size = off\<rparr>]\<rparr>"

lemma demo_first: "dyn_tallocr_alloc 16 (dyn_tallocr_new 8 100) = Some ((0, 0), demo_chunk 16)"
  by (simp add: dyn_tallocr_alloc_def dyn_tallocr_new_def dyn_tallocr_reset_def aligned_offset_def sz_add_def sz_sub_def SIZE_MAX_def fit_inner_def fit_last_def
      new_chunk_def GGML_VBUFFER_MAX_CHUNKS_def take_block_def MAX_FREE_BLOCKS_def Let_def demo_chunk_def)

lemma demo_second: "dyn_tallocr_alloc 16 (demo_chunk 16) = Some ((0, 16), demo_chunk 32)"
  by (simp add: dyn_tallocr_alloc_def aligned_offset_def sz_add_def sz_sub_def SIZE_MAX_def fit_inner_def fit_last_def take_block_def MAX_FREE_BLOCKS_def Let_def demo_chunk_def)

lemma demo_alloc: "\<exists>ga. alloc_graph_impl (\<lambda>_ _. 16) demo_ts demo_graph None None (gallocr_new_n (\<lambda>_. 8) (\<lambda>_. 100) [0]) = Some ga \<and>
    ga_tallocs ga = [demo_chunk 32] \<and> ga_talloc_of ga = [0] \<and> ga_bufts ga = [0] \<and> ga_buffers ga = [None]"
  by (simp add: alloc_graph_impl_def gallocr_new_n_def demo_graph_def upt_rec get_node_buffer_id_def allocate_node_def alloc_fresh_def gallocr_is_allocated_def gallocr_is_own_def
      ggml_is_view_def count_node_def exec_node_def update_parent_def add_children_def try_parent_def free_node_def hash_zero_def Let_def demo_first demo_second)

theorem graph_memory_safe_witness:
  "\<exists>ga. alloc_graph_impl (\<lambda>_ _. 16) demo_ts demo_graph None None (gallocr_new_n (\<lambda>_. 8) (\<lambda>_. 100) [0]) = Some ga \<and> mem_apart (\<lambda>_ _. 16) demo_ts ga 2 0"
proof -
  obtain ga where ga: "alloc_graph_impl (\<lambda>_ _. 16) demo_ts demo_graph None None (gallocr_new_n (\<lambda>_. 8) (\<lambda>_. 100) [0]) = Some ga" using demo_alloc by blast
  have "aligned (\<lambda>_. 8) [0]" "sizes_ok (\<lambda>_ _. 16) demo_ts" by (simp_all add: aligned_def sizes_ok_def SIZE_MAX_def)
  moreover have "2 \<in> live_at demo_ts demo_graph 1" "0 \<in> live_at demo_ts demo_graph 1"
    by (simp_all add: live_at_def born_def before_node_def managed_def kept_def demo_graph_def take_Suc_Cons numeral_2_eq_2)
  ultimately have "mem_apart (\<lambda>_ _. 16) demo_ts ga 2 0 \<or> takes demo_ts demo_graph 1 2 0 \<or> takes demo_ts demo_graph 1 0 2"
    using ga demo_graph_ok by (intro graph_memory_safe) (simp_all add: demo_graph_def)
  moreover have "\<not> takes demo_ts demo_graph 1 2 0" "\<not> takes demo_ts demo_graph 1 0 2" by (simp_all add: takes_def kept_def demo_graph_def)
  ultimately show ?thesis using ga by blast
qed

end
