(* ===== verification/GraphBuffers.thy ===== *)
theory GraphBuffers
  imports GraphAlloc
begin

text \<open>
  The buffers behind the graph allocator of \<^verbatim>\<open>src/ggml/src/ggml-alloc.c\<close>: reserving keeps the plan of a graph and
  allocates the buffers, allocating a graph gives every tensor its data pointer.  \<open>balloc i c n\<close> is
  \<^verbatim>\<open>ggml_backend_buft_alloc_buffer\<close> for chunk \<open>c\<close> of buffer \<open>i\<close>, its value the base address and the size of the new
  buffer.  The map \<open>ts\<close> of the tensors is the state that initialisation changes.  That a buffer was released is not
  recorded, and the hook by which a backend initialises a tensor is left out.
\<close>

section \<open>Reserving\<close>

definition vbuffer_chunk_size :: "vbuffer \<Rightarrow> nat \<Rightarrow> nat" where
  "vbuffer_chunk_size buf c = (if c < length buf then snd (buf ! c) else 0)"

definition vbuffer_alloc :: "(nat \<Rightarrow> nat \<Rightarrow> nat \<Rightarrow> (nat \<times> nat) option) \<Rightarrow> nat \<Rightarrow> dyn_tallocr \<Rightarrow> vbuffer option" where
  "vbuffer_alloc balloc i al = those (map (\<lambda>n. balloc i n (max_size (da_chunks al ! n))) [0..<length (da_chunks al)])"

definition no_alloc :: tensor_alloc where
  "no_alloc = \<lparr>ta_buffer_id = - 1, ta_addr = None, ta_size_max = 0\<rparr>"

definition tensor_alloc_of :: "(nat \<Rightarrow> gtensor \<Rightarrow> nat) \<Rightarrow> (nat \<Rightarrow> gtensor) \<Rightarrow> gallocr \<Rightarrow> nat \<Rightarrow> tensor_alloc" where
  "tensor_alloc_of asize ts ga t = (if gt_view_src (ts t) \<noteq> None \<or> gt_data (ts t) \<noteq> 0 then no_alloc
     else let hn = ga_hash ga t in
       \<lparr>ta_buffer_id = int (hn_buffer_id hn), ta_addr = Some (hn_addr hn), ta_size_max = asize (ga_bufts ga ! hn_buffer_id hn) (ts t)\<rparr>)"

definition node_alloc_of :: "(nat \<Rightarrow> gtensor \<Rightarrow> nat) \<Rightarrow> (nat \<Rightarrow> gtensor) \<Rightarrow> gallocr \<Rightarrow> nat \<Rightarrow> node_alloc" where
  "node_alloc_of asize ts ga t = \<lparr>na_dst = tensor_alloc_of asize ts ga t,
     na_src = map (\<lambda>s. case s of None \<Rightarrow> no_alloc | Some s \<Rightarrow> tensor_alloc_of asize ts ga s) (take GGML_MAX_SRC (gt_src (ts t)))\<rparr>"

definition reset_tallocs :: "gallocr \<Rightarrow> gallocr" where
  "reset_tallocs ga = fold (\<lambda>i ga. let k = ga_talloc_of ga ! i in ga\<lparr>ga_tallocs := (ga_tallocs ga)[k := dyn_tallocr_reset (ga_tallocs ga ! k)]\<rparr>)
     [0..<length (ga_bufts ga)] ga"

definition reserve_buffer :: "(nat \<Rightarrow> nat \<Rightarrow> nat \<Rightarrow> (nat \<times> nat) option) \<Rightarrow> nat \<Rightarrow> gallocr \<Rightarrow> bool \<times> gallocr" where
  "reserve_buffer balloc i ga =
     (let ga1 = (case find (\<lambda>j. ga_talloc_of ga ! j = ga_talloc_of ga ! i) [0..<i] of
            Some j \<Rightarrow> ga\<lparr>ga_buffers := (ga_buffers ga)[i := ga_buffers ga ! j]\<rparr> | None \<Rightarrow> ga);
          al = ga_tallocs ga1 ! (ga_talloc_of ga1 ! i);
          realloc = (case ga_buffers ga1 ! i of None \<Rightarrow> True
            | Some buf \<Rightarrow> \<exists>c \<in> set [0..<length (da_chunks al)]. dyn_tallocr_max_size al c > vbuffer_chunk_size buf c)
      in if realloc then let buf = vbuffer_alloc balloc i al in (buf \<noteq> None, ga1\<lparr>ga_buffers := (ga_buffers ga1)[i := buf]\<rparr>)
         else (True, ga1))"

fun reserve_buffers :: "(nat \<Rightarrow> nat \<Rightarrow> nat \<Rightarrow> (nat \<times> nat) option) \<Rightarrow> nat list \<Rightarrow> gallocr \<Rightarrow> bool \<times> gallocr" where
  "reserve_buffers balloc [] ga = (True, ga)"
| "reserve_buffers balloc (i # js) ga = (let (ok, ga') = reserve_buffer balloc i ga in if ok then reserve_buffers balloc js ga' else (False, ga'))"

definition gallocr_reserve_n :: "(nat \<Rightarrow> nat \<Rightarrow> nat \<Rightarrow> (nat \<times> nat) option) \<Rightarrow> (nat \<Rightarrow> gtensor \<Rightarrow> nat) \<Rightarrow> (nat \<Rightarrow> gtensor) \<Rightarrow> ggml_cgraph \<Rightarrow>
    int list option \<Rightarrow> int list option \<Rightarrow> gallocr \<Rightarrow> (bool \<times> gallocr) option" where
  "gallocr_reserve_n balloc asize ts graph node_buffer_ids leaf_buffer_ids ga = do {
     ga1 \<leftarrow> alloc_graph_impl asize ts graph node_buffer_ids leaf_buffer_ids (reset_tallocs ga);
     let ga2 = ga1\<lparr>ga_node_allocs := map (node_alloc_of asize ts ga1) (cg_nodes graph), ga_leaf_allocs := map (tensor_alloc_of asize ts ga1) (cg_leafs graph)\<rparr>;
     Some (reserve_buffers balloc [0..<length (ga_bufts ga2)] ga2)
   }"

section \<open>Allocating\<close>

text \<open>The name in the code says the opposite: the value is true when the tensor still fits.\<close>

definition node_needs_realloc :: "(nat \<Rightarrow> gtensor \<Rightarrow> nat) \<Rightarrow> gallocr \<Rightarrow> gtensor \<Rightarrow> tensor_alloc \<Rightarrow> bool" where
  "node_needs_realloc asize ga node ta =
     (if gt_data node = 0 \<and> gt_view_src node = None then
        (if ta_buffer_id ta < 0 then False else ta_size_max ta \<ge> asize (ga_bufts ga ! nat (ta_buffer_id ta)) node)
      else True)"

definition needs_realloc :: "(nat \<Rightarrow> gtensor \<Rightarrow> nat) \<Rightarrow> (nat \<Rightarrow> gtensor) \<Rightarrow> ggml_cgraph \<Rightarrow> gallocr \<Rightarrow> bool" where
  "needs_realloc asize ts graph ga =
     (if length (ga_node_allocs ga) \<noteq> length (cg_nodes graph) then True
      else if length (ga_leaf_allocs ga) \<noteq> length (cg_leafs graph) then True
      else \<exists>i \<in> set [0..<length (cg_nodes graph)]. let node = cg_nodes graph ! i; na = ga_node_allocs ga ! i in
        \<not> node_needs_realloc asize ga (ts node) (na_dst na) \<or>
        (\<exists>j \<in> set [0..<min GGML_MAX_SRC (length (gt_src (ts node)))].
           case gt_src (ts node) ! j of None \<Rightarrow> False | Some src \<Rightarrow> \<not> node_needs_realloc asize ga (ts src) (na_src na ! j)))"

definition view_init :: "nat \<Rightarrow> (nat \<Rightarrow> gtensor) \<Rightarrow> (nat \<Rightarrow> gtensor) option" where
  "view_init t ts = do {
     guard (\<not> gt_buffer (ts t));
     v \<leftarrow> gt_view_src (ts t);
     guard (gt_buffer (ts v) \<and> gt_data (ts v) \<noteq> 0);
     Some (ts(t := (ts t)\<lparr>gt_buffer := True, gt_data := gt_data (ts v) + gt_view_offs (ts t)\<rparr>))
   }"

definition buffer_get_base :: "nat \<times> nat \<Rightarrow> nat option" where
  "buffer_get_base buffer = (if snd buffer = 0 then Some 0 else do { guard (fst buffer \<noteq> 0); Some (fst buffer) })"

definition tensor_alloc_at :: "(gtensor \<Rightarrow> nat) \<Rightarrow> nat \<times> nat \<Rightarrow> nat \<Rightarrow> nat \<Rightarrow> (nat \<Rightarrow> gtensor) \<Rightarrow> (nat \<Rightarrow> gtensor) option" where
  "tensor_alloc_at size_of buffer t addr ts = do {
     guard (\<not> gt_buffer (ts t) \<and> gt_data (ts t) = 0 \<and> gt_view_src (ts t) = None);
     base \<leftarrow> buffer_get_base buffer;
     guard (addr \<ge> base \<and> addr + size_of (ts t) \<le> base + snd buffer);
     Some (ts(t := (ts t)\<lparr>gt_buffer := True, gt_data := addr\<rparr>))
   }"

definition vbuffer_tensor_alloc :: "(gtensor \<Rightarrow> nat) \<Rightarrow> vbuffer \<Rightarrow> nat \<Rightarrow> buffer_address \<Rightarrow> (nat \<Rightarrow> gtensor) \<Rightarrow> (nat \<Rightarrow> gtensor) option" where
  "vbuffer_tensor_alloc size_of buf t addr ts = do {
     guard (fst addr < length buf);
     base \<leftarrow> buffer_get_base (buf ! fst addr);
     tensor_alloc_at size_of (buf ! fst addr) t (base + snd addr) ts
   }"

definition init_tensor :: "(nat \<Rightarrow> gtensor \<Rightarrow> nat) \<Rightarrow> gallocr \<Rightarrow> nat \<Rightarrow> tensor_alloc \<Rightarrow> (nat \<Rightarrow> gtensor) \<Rightarrow> (nat \<Rightarrow> gtensor) option" where
  "init_tensor asize ga t ta ts =
     (let size_of = asize (ga_bufts ga ! nat (ta_buffer_id ta)) in do {
        guard (gt_data (ts t) \<noteq> 0 \<or> gt_view_src (ts t) \<noteq> None \<or> (ta_buffer_id ta \<ge> 0 \<and> size_of (ts t) \<le> ta_size_max ta));
        (case gt_view_src (ts t) of
           Some v \<Rightarrow>
             if gt_buffer (ts t) then Some ts
             else do { guard (ta_addr ta = None); if \<not> gt_buffer (ts v) then Some ts else view_init t ts }
         | None \<Rightarrow>
             if gt_data (ts t) = 0 then do {
               addr \<leftarrow> ta_addr ta;
               guard (size_of (ts t) \<le> ta_size_max ta);
               buf \<leftarrow> ga_buffers ga ! nat (ta_buffer_id ta);
               vbuffer_tensor_alloc size_of buf t addr ts
             } else Some ts)
      })"

definition init_node :: "(nat \<Rightarrow> gtensor \<Rightarrow> nat) \<Rightarrow> gallocr \<Rightarrow> nat \<Rightarrow> node_alloc \<Rightarrow> (nat \<Rightarrow> gtensor) \<Rightarrow> (nat \<Rightarrow> gtensor) option" where
  "init_node asize ga t na ts = do {
     ts1 \<leftarrow> foldM (\<lambda>j ts. case gt_src (ts t) ! j of None \<Rightarrow> Some ts | Some src \<Rightarrow> init_tensor asize ga src (na_src na ! j) ts)
       [0..<min GGML_MAX_SRC (length (gt_src (ts t)))] ts;
     init_tensor asize ga t (na_dst na) ts1
   }"

definition gallocr_alloc_graph :: "(nat \<Rightarrow> nat \<Rightarrow> nat \<Rightarrow> (nat \<times> nat) option) \<Rightarrow> (nat \<Rightarrow> gtensor \<Rightarrow> nat) \<Rightarrow> (nat \<Rightarrow> gtensor) \<Rightarrow> ggml_cgraph \<Rightarrow> gallocr \<Rightarrow>
    (bool \<times> gallocr \<times> (nat \<Rightarrow> gtensor)) option" where
  "gallocr_alloc_graph balloc asize ts graph ga = do {
     (ok, ga1) \<leftarrow> (if needs_realloc asize ts graph ga then
         (if length (ga_bufts ga) = 1 then gallocr_reserve_n balloc asize ts graph None None ga else Some (False, ga))
       else Some (True, ga));
     if \<not> ok then Some (False, ga1, ts)
     else do {
       ts1 \<leftarrow> foldM (\<lambda>i. init_tensor asize ga1 (cg_leafs graph ! i) (ga_leaf_allocs ga1 ! i)) [0..<length (cg_leafs graph)] ts;
       ts2 \<leftarrow> foldM (\<lambda>i. init_node asize ga1 (cg_nodes graph ! i) (ga_node_allocs ga1 ! i)) [0..<length (cg_nodes graph)] ts1;
       Some (True, ga1, ts2)
     }
   }"

section \<open>The buffers after reserving\<close>

text \<open>
  What is needed of a backend: a buffer has at least the requested size and a base address that is not null, and
  buffers for different chunks do not overlap.
\<close>

definition balloc_ok :: "(nat \<Rightarrow> nat \<Rightarrow> nat \<Rightarrow> (nat \<times> nat) option) \<Rightarrow> bool" where
  "balloc_ok balloc \<longleftrightarrow> (\<forall>i c n b s. balloc i c n = Some (b, s) \<longrightarrow> n \<le> s \<and> 0 < b) \<and>
     (\<forall>i c n b s i' c' n' b' s'. balloc i c n = Some (b, s) \<longrightarrow> balloc i' c' n' = Some (b', s') \<longrightarrow> (i, c) \<noteq> (i', c') \<longrightarrow> {b..<b + s} \<inter> {b'..<b' + s'} = {})"

definition first_entry :: "gallocr \<Rightarrow> nat \<Rightarrow> nat" where
  "first_entry ga i = (LEAST j. ga_talloc_of ga ! j = ga_talloc_of ga ! i)"

lemma first_entry:
  "ga_talloc_of ga ! first_entry ga i = ga_talloc_of ga ! i" "first_entry ga i \<le> i"
  "ga_talloc_of ga ! i = ga_talloc_of ga ! j \<Longrightarrow> first_entry ga i = first_entry ga j"
  unfolding first_entry_def by (rule LeastI [of _ i], rule refl) (rule Least_le, rule refl, simp)

lemma find_first_entry:
  "find (\<lambda>j. ga_talloc_of ga ! j = ga_talloc_of ga ! i) [0..<i] = (if first_entry ga i < i then Some (first_entry ga i) else None)"
proof (cases "find (\<lambda>j. ga_talloc_of ga ! j = ga_talloc_of ga ! i) [0..<i]")
  case None
  then have "\<not> first_entry ga i < i" using first_entry(1) [of ga i] by (auto simp: find_None_iff)
  with None show ?thesis by simp
next
  case (Some j)
  then have j: "j < i" "ga_talloc_of ga ! j = ga_talloc_of ga ! i" "\<And>k. k < j \<Longrightarrow> ga_talloc_of ga ! k \<noteq> ga_talloc_of ga ! i"
    by (auto simp: find_Some_iff)
  then have "first_entry ga i = j" unfolding first_entry_def by (intro Least_equality) (auto simp: not_less [symmetric])
  with Some j show ?thesis by simp
qed

lemma those_Some: "those xs = Some ys \<longleftrightarrow> xs = map Some ys"
proof (induction xs arbitrary: ys)
  case (Cons x xs)
  then show ?case by (cases x; cases ys) auto
qed auto

lemma vbuffer_alloc_nth:
  assumes "vbuffer_alloc balloc i al = Some buf"
  shows "length buf = length (da_chunks al)" "c < length (da_chunks al) \<Longrightarrow> balloc i c (max_size (da_chunks al ! c)) = Some (buf ! c)"
proof -
  from assms have eq: "map (\<lambda>n. balloc i n (max_size (da_chunks al ! n))) [0..<length (da_chunks al)] = map Some buf" by (simp add: vbuffer_alloc_def those_Some)
  from arg_cong [OF eq, of length] show len: "length buf = length (da_chunks al)" by simp
  assume c: "c < length (da_chunks al)"
  from arg_cong [OF eq, of "\<lambda>xs. xs ! c"] show "balloc i c (max_size (da_chunks al ! c)) = Some (buf ! c)" using c len by simp
qed

lemma vbuffer_alloc_large:
  assumes "balloc_ok balloc" "vbuffer_alloc balloc i al = Some buf"
  shows "dyn_tallocr_max_size al c \<le> vbuffer_chunk_size buf c"
proof (cases "c < length (da_chunks al)")
  case True
  obtain b s where bs: "buf ! c = (b, s)" by (cases "buf ! c")
  from vbuffer_alloc_nth [OF assms(2)] True bs have "balloc i c (max_size (da_chunks al ! c)) = Some (b, s)" "c < length buf" by simp_all
  with assms(1) bs True show ?thesis unfolding balloc_ok_def dyn_tallocr_max_size_def vbuffer_chunk_size_def by fastforce
qed (simp add: dyn_tallocr_max_size_def)

definition buffers_ready :: "(nat \<Rightarrow> nat \<Rightarrow> nat \<Rightarrow> (nat \<times> nat) option) \<Rightarrow> nat \<Rightarrow> gallocr \<Rightarrow> bool" where
  "buffers_ready balloc m ga \<longleftrightarrow> (\<forall>i < m. \<exists>buf. ga_buffers ga ! i = Some buf \<and> vbuffer_alloc balloc (first_entry ga i) (ga_tallocs ga ! (ga_talloc_of ga ! i)) = Some buf)"

text \<open>Only the buffers change.\<close>

definition same_plan :: "gallocr \<Rightarrow> gallocr \<Rightarrow> bool" where
  "same_plan ga ga' \<longleftrightarrow> (\<exists>bs. length bs = length (ga_buffers ga) \<and> ga' = ga\<lparr>ga_buffers := bs\<rparr>)"

lemma same_planD:
  assumes "same_plan ga ga'"
  shows "ga_tallocs ga' = ga_tallocs ga" "ga_talloc_of ga' = ga_talloc_of ga" "ga_bufts ga' = ga_bufts ga" "ga_hash ga' = ga_hash ga"
    "ga_node_allocs ga' = ga_node_allocs ga" "ga_leaf_allocs ga' = ga_leaf_allocs ga" "length (ga_buffers ga') = length (ga_buffers ga)" "first_entry ga' = first_entry ga"
  using assms by (auto simp: same_plan_def first_entry_def fun_eq_iff)

lemma reserve_buffer_spec:
  assumes ok: "balloc_ok balloc" and m: "m < length (ga_buffers ga)" and ready: "buffers_ready balloc m ga" and none: "\<forall>i \<ge> m. i < length (ga_buffers ga) \<longrightarrow> ga_buffers ga ! i = None"
    and res: "reserve_buffer balloc m ga = (True, ga')"
  shows "same_plan ga ga' \<and> buffers_ready balloc (Suc m) ga' \<and> (\<forall>i \<ge> Suc m. i < length (ga_buffers ga') \<longrightarrow> ga_buffers ga' ! i = None)"
proof -
  let ?k = "first_entry ga m" and ?al = "ga_tallocs ga ! (ga_talloc_of ga ! m)"
  note F = first_entry [of ga]
  have "\<exists>buf. vbuffer_alloc balloc ?k ?al = Some buf \<and> ga' = ga\<lparr>ga_buffers := (ga_buffers ga)[m := Some buf]\<rparr>"
  proof (cases "?k < m")
    case True
    with ready obtain buf where buf: "ga_buffers ga ! ?k = Some buf" "vbuffer_alloc balloc (first_entry ga ?k) (ga_tallocs ga ! (ga_talloc_of ga ! ?k)) = Some buf"
      unfolding buffers_ready_def by blast
    have vb: "vbuffer_alloc balloc ?k ?al = Some buf" using buf F(1) [of m] F(3) [OF F(1), of m] by simp
    have "\<not> (\<exists>c \<in> set [0..<length (da_chunks ?al)]. dyn_tallocr_max_size ?al c > vbuffer_chunk_size buf c)"
      using vbuffer_alloc_large [OF ok vb] by (simp add: not_less)
    with res True buf m have "ga' = ga\<lparr>ga_buffers := (ga_buffers ga)[m := Some buf]\<rparr>"
      unfolding reserve_buffer_def find_first_entry by (simp add: Let_def)
    with vb show ?thesis by blast
  next
    case False
    then have k: "?k = m" using F(2) [of m] by simp
    from none m have "ga_buffers ga ! m = None" by simp
    with res False m have "vbuffer_alloc balloc m ?al \<noteq> None" "ga' = ga\<lparr>ga_buffers := (ga_buffers ga)[m := vbuffer_alloc balloc m ?al]\<rparr>"
      unfolding reserve_buffer_def find_first_entry by (simp_all add: Let_def)
    with k show ?thesis by auto
  qed
  then obtain buf where buf: "vbuffer_alloc balloc ?k ?al = Some buf" "ga' = ga\<lparr>ga_buffers := (ga_buffers ga)[m := Some buf]\<rparr>" by blast
  have plan: "same_plan ga ga'" unfolding same_plan_def buf(2) by (intro exI [of _ "(ga_buffers ga)[m := Some buf]"]) simp
  have "buffers_ready balloc (Suc m) ga'"
    unfolding buffers_ready_def same_planD [OF plan]
    using ready buf m by (auto simp: buffers_ready_def less_Suc_eq)
  with plan buf none show ?thesis by simp
qed

lemma reserve_buffers_spec:
  assumes ok: "balloc_ok balloc" and none: "\<forall>i < length (ga_buffers ga). ga_buffers ga ! i = None" and res: "reserve_buffers balloc [0..<length (ga_buffers ga)] ga = (True, ga')"
  shows "same_plan ga ga' \<and> buffers_ready balloc (length (ga_buffers ga)) ga'"
proof -
  have "same_plan u ga' \<and> buffers_ready balloc n ga'"
    if "reserve_buffers balloc [m..<n] u = (True, ga')" "m \<le> n" "n = length (ga_buffers u)" "buffers_ready balloc m u" "\<forall>i \<ge> m. i < length (ga_buffers u) \<longrightarrow> ga_buffers u ! i = None" for m n u
    using that
  proof (induction "n - m" arbitrary: m u)
    case 0
    then show ?case by (auto simp: same_plan_def intro!: exI [of _ "ga_buffers u"])
  next
    case (Suc d)
    then have m: "m < n" by simp
    from Suc.prems(1) obtain w where w: "reserve_buffer balloc m u = (True, w)" "reserve_buffers balloc [Suc m..<n] w = (True, ga')"
      using m by (auto simp: upt_conv_Cons split: prod.splits if_splits)
    from reserve_buffer_spec [OF ok _ Suc.prems(4,5) w(1)] m Suc.prems(3) have S: "same_plan u w" "buffers_ready balloc (Suc m) w"
      "\<forall>i \<ge> Suc m. i < length (ga_buffers w) \<longrightarrow> ga_buffers w ! i = None" by simp_all
    from Suc.hyps(1) [OF _ w(2) _ _ S(2,3)] Suc.hyps(2) m Suc.prems(3) same_planD(7) [OF S(1)] have "same_plan w ga'" "buffers_ready balloc n ga'" by simp_all
    with S(1) show ?case by (auto simp: same_plan_def)
  qed
  note main = this
  have "buffers_ready balloc 0 ga" by (simp add: buffers_ready_def)
  from main [OF res _ refl this] none show ?thesis by blast
qed

section \<open>Initialising the tensors\<close>

definition graph_tensors :: "ggml_cgraph \<Rightarrow> nat set" where
  "graph_tensors g = set (cg_nodes g) \<union> set (cg_leafs g)"

text \<open>Tensors with a buffer have data; a leaf views only what lies outside of the graph.\<close>

definition tensors_ok :: "(nat \<Rightarrow> gtensor) \<Rightarrow> ggml_cgraph \<Rightarrow> bool" where
  "tensors_ok ts g \<longleftrightarrow> (\<forall>t. gt_buffer (ts t) \<longrightarrow> gt_data (ts t) \<noteq> 0) \<and>
     (\<forall>t \<in> set (cg_leafs g). case gt_view_src (ts t) of None \<Rightarrow> True | Some v \<Rightarrow> v \<notin> graph_tensors g)"

definition data_addr :: "gallocr \<Rightarrow> nat \<Rightarrow> nat" where
  "data_addr ga t = (let hn = ga_hash ga t in fst (the (ga_buffers ga ! hn_buffer_id hn) ! fst (hn_addr hn)) + snd (hn_addr hn))"

text \<open>Every tensor as it is in the end.\<close>

definition placed_tensor :: "(nat \<Rightarrow> gtensor) \<Rightarrow> ggml_cgraph \<Rightarrow> gallocr \<Rightarrow> nat \<Rightarrow> gtensor" where
  "placed_tensor ts g ga t = (if t \<in> graph_tensors g \<and> managed ts t then (ts t)\<lparr>gt_buffer := True, gt_data := data_addr ga t\<rparr> else ts t)"

definition final_tensor :: "(nat \<Rightarrow> gtensor) \<Rightarrow> ggml_cgraph \<Rightarrow> gallocr \<Rightarrow> nat \<Rightarrow> gtensor" where
  "final_tensor ts g ga t = (case gt_view_src (ts t) of None \<Rightarrow> placed_tensor ts g ga t
     | Some v \<Rightarrow> if \<not> gt_buffer (ts t) \<and> gt_buffer (placed_tensor ts g ga v)
         then (ts t)\<lparr>gt_buffer := True, gt_data := gt_data (placed_tensor ts g ga v) + gt_view_offs (ts t)\<rparr> else ts t)"

definition init_state :: "(nat \<Rightarrow> gtensor) \<Rightarrow> ggml_cgraph \<Rightarrow> gallocr \<Rightarrow> nat set \<Rightarrow> nat \<Rightarrow> gtensor" where
  "init_state ts g ga D t = (if t \<in> D then final_tensor ts g ga t else ts t)"

text \<open>The memory planned for \<open>t\<close> lies inside its buffer.\<close>

definition slot_ok :: "(nat \<Rightarrow> gtensor \<Rightarrow> nat) \<Rightarrow> (nat \<Rightarrow> gtensor) \<Rightarrow> gallocr \<Rightarrow> nat \<Rightarrow> bool" where
  "slot_ok asize ts ga t \<longleftrightarrow> (let hn = ga_hash ga t; c = fst (hn_addr hn) in \<exists>buf. ga_buffers ga ! hn_buffer_id hn = Some buf \<and> c < length buf \<and>
     0 < fst (buf ! c) \<and> snd (hn_addr hn) + tensor_size asize ts ga t \<le> snd (buf ! c))"

lemma same_layout_data: "ggml_are_same_layout (x\<lparr>gt_buffer := b, gt_data := d\<rparr>) x"
  by (simp add: ggml_are_same_layout_def)

lemma final_fields [simp]:
  "gt_view_src (final_tensor ts g ga t) = gt_view_src (ts t)" "gt_src (final_tensor ts g ga t) = gt_src (ts t)"
  by (simp_all add: final_tensor_def placed_tensor_def split: option.splits)

lemma state_fields [simp]:
  "gt_view_src (init_state ts g ga D t) = gt_view_src (ts t)" "gt_src (init_state ts g ga D t) = gt_src (ts t)"
  by (simp_all add: init_state_def)

lemma state_insert: "init_state ts g ga (insert t D) = (init_state ts g ga D)(t := final_tensor ts g ga t)"
  by (auto simp: init_state_def fun_eq_iff)

lemma data_addr_pos: "slot_ok asize ts ga t \<Longrightarrow> 0 < data_addr ga t"
  by (auto simp: slot_ok_def data_addr_def Let_def)

lemma init_view:
  assumes ok: "tensors_ok ts g" and v: "gt_view_src (ts t) = Some v" "gt_view_src (ts v) = None \<and> v \<in> D \<or> v \<notin> D \<and> v \<notin> graph_tensors g"
    and slots: "\<And>t. t \<in> graph_tensors g \<Longrightarrow> managed ts t \<Longrightarrow> slot_ok asize ts ga t"
  shows "init_tensor asize ga t no_alloc (init_state ts g ga D) = Some (init_state ts g ga (insert t D))"
proof -
  let ?S = "init_state ts g ga D" and ?v = "placed_tensor ts g ga v"
  have sv: "?S v = ?v" using v(2) by (auto simp: init_state_def final_tensor_def placed_tensor_def)
  have vd: "gt_buffer ?v \<Longrightarrow> gt_data ?v \<noteq> 0" using ok data_addr_pos [OF slots, of v] by (auto simp: placed_tensor_def tensors_ok_def)
  show ?thesis
  proof (cases "gt_buffer (?S t)")
    case True
    have "final_tensor ts g ga t = ?S t"
    proof (cases "t \<in> D")
      case False
      with True have "gt_buffer (ts t)" by (simp add: init_state_def)
      with False v(1) show ?thesis by (simp add: init_state_def final_tensor_def)
    qed (simp add: init_state_def)
    with True v(1) show ?thesis unfolding state_insert by (simp add: init_tensor_def Let_def)
  next
    case nb: False
    then have nb': "\<not> gt_buffer (ts t)" using v(1) by (cases "t \<in> D") (auto simp: init_state_def final_tensor_def split: if_splits)
    show ?thesis
    proof (cases "gt_buffer ?v")
      case False
      then have "final_tensor ts g ga t = ?S t" using v(1) by (simp add: init_state_def final_tensor_def)
      with nb False v(1) sv show ?thesis unfolding state_insert by (simp add: init_tensor_def Let_def no_alloc_def)
    next
      case True
      then have "t \<notin> D" using nb nb' v(1) by (auto simp: init_state_def final_tensor_def)
      then have "?S t = ts t" by (simp add: init_state_def)
      moreover have "final_tensor ts g ga t = (ts t)\<lparr>gt_buffer := True, gt_data := gt_data ?v + gt_view_offs (ts t)\<rparr>"
        using True nb' v(1) by (simp add: final_tensor_def)
      ultimately show ?thesis unfolding state_insert using True nb' v(1) sv vd
        by (simp add: init_tensor_def view_init_def Let_def no_alloc_def)
    qed
  qed
qed

lemma init_plain:
  assumes szs: "sizes_ok asize ts" and ok: "tensors_ok ts g" and t: "t \<in> graph_tensors g" "gt_view_src (ts t) = None"
    and slots: "\<And>t. t \<in> graph_tensors g \<Longrightarrow> managed ts t \<Longrightarrow> slot_ok asize ts ga t"
  shows "init_tensor asize ga t (tensor_alloc_of asize ts ga t) (init_state ts g ga D) = Some (init_state ts g ga (insert t D))"
proof (cases "gt_data (ts t) = 0 \<and> t \<notin> D")
  case True
  then have m: "managed ts t" and st: "init_state ts g ga D t = ts t" using t(2) by (simp_all add: managed_def init_state_def)
  from slots [OF t(1) m] obtain buf where buf: "ga_buffers ga ! hn_buffer_id (ga_hash ga t) = Some buf" "fst (hn_addr (ga_hash ga t)) < length buf"
    "0 < fst (buf ! fst (hn_addr (ga_hash ga t)))" "snd (hn_addr (ga_hash ga t)) + tensor_size asize ts ga t \<le> snd (buf ! fst (hn_addr (ga_hash ga t)))"
    by (auto simp: slot_ok_def Let_def)
  have sz: "0 < tensor_size asize ts ga t" using szs by (simp add: sizes_ok_def tensor_size_def)
  have nb: "\<not> gt_buffer (ts t)" using True ok by (auto simp: tensors_ok_def)
  have fin: "final_tensor ts g ga t = (ts t)\<lparr>gt_buffer := True, gt_data := fst (buf ! fst (hn_addr (ga_hash ga t))) + snd (hn_addr (ga_hash ga t))\<rparr>"
    using t m buf(1) by (simp add: final_tensor_def placed_tensor_def data_addr_def Let_def)
  show ?thesis unfolding state_insert fin
    using True t(2) st buf sz nb
    by (simp add: init_tensor_def tensor_alloc_of_def vbuffer_tensor_alloc_def tensor_alloc_at_def buffer_get_base_def guard_def Let_def tensor_size_def)
next
  case False
  have "gt_data (final_tensor ts g ga t) \<noteq> 0"
    using t False data_addr_pos [OF slots [OF t(1)]] by (cases "managed ts t") (auto simp: final_tensor_def placed_tensor_def managed_def)
  moreover have "init_state ts g ga D t = final_tensor ts g ga t"
    using False t(2) by (auto simp: init_state_def final_tensor_def placed_tensor_def managed_def)
  moreover from this have "init_state ts g ga (insert t D) = init_state ts g ga D" unfolding state_insert by (simp add: fun_upd_idem)
  ultimately show ?thesis using t(2) by (simp add: init_tensor_def Let_def)
qed

text \<open>A view may be initialised once the tensors before it are.\<close>

lemma init_any:
  assumes szs: "sizes_ok asize ts" and gok: "graph_ok ts g" and ok: "tensors_ok ts g" and t: "t \<in> before_node g (Suc i)" and i: "i < length (cg_nodes g)"
    and slots: "\<And>t. t \<in> graph_tensors g \<Longrightarrow> managed ts t \<Longrightarrow> slot_ok asize ts ga t"
  shows "init_tensor asize ga t (tensor_alloc_of asize ts ga t) (init_state ts g ga (before_node g i)) = Some (init_state ts g ga (insert t (before_node g i)))"
proof -
  have tg: "t \<in> graph_tensors g" using t set_take_subset [of "Suc i" "cg_nodes g"] by (auto simp: before_node_def graph_tensors_def)
  show ?thesis
  proof (cases "gt_view_src (ts t)")
    case None
    with init_plain [OF szs ok tg] slots show ?thesis by blast
  next
    case (Some v)
    have "gt_view_src (ts v) = None \<and> v \<in> before_node g i \<or> v \<notin> before_node g i \<and> v \<notin> graph_tensors g"
    proof (cases "t \<in> set (cg_leafs g)")
      case True
      with ok Some have "v \<notin> graph_tensors g" by (auto simp: tensors_ok_def)
      then show ?thesis using set_take_subset [of i "cg_nodes g"] by (auto simp: before_node_def graph_tensors_def)
    next
      case False
      with t obtain k where k: "k \<le> i" "k < length (cg_nodes g)" "t = cg_nodes g ! k" by (auto simp: before_node_def in_set_conv_nth less_Suc_eq_le)
      have "v \<in> before_node g k" using graph_okD(8) [OF gok k(2)] k(3) Some by simp
      moreover have "gt_view_src (ts v) = None" using graph_okD(5) [OF gok _ Some] k by simp
      ultimately show ?thesis using before_mono [OF k(1)] by blast
    qed
    from init_view [OF ok Some this] slots show ?thesis using Some by (simp add: tensor_alloc_of_def)
  qed
qed

lemma foldM_stay: "(\<And>x. x \<in> set xs \<Longrightarrow> f x s = Some s) \<Longrightarrow> foldM f xs s = Some s"
  by (induction xs) auto

lemma src_at: "j < min GGML_MAX_SRC (length (gt_src t)) \<Longrightarrow> gt_src t ! j = Some s \<Longrightarrow> s \<in> set (srcs t)"
proof -
  assume j: "j < min GGML_MAX_SRC (length (gt_src t))" and s: "gt_src t ! j = Some s"
  then have "Some s \<in> set (take GGML_MAX_SRC (gt_src t))" by (auto simp: in_set_conv_nth)
  then show ?thesis by (force simp: srcs_def)
qed

lemma init_node_spec:
  assumes szs: "sizes_ok asize ts" and gok: "graph_ok ts g" and ok: "tensors_ok ts g" and i: "i < length (cg_nodes g)"
    and slots: "\<And>t. t \<in> graph_tensors g \<Longrightarrow> managed ts t \<Longrightarrow> slot_ok asize ts ga t"
  shows "init_node asize ga (cg_nodes g ! i) (node_alloc_of asize ts ga (cg_nodes g ! i)) (init_state ts g ga (before_node g i)) = Some (init_state ts g ga (before_node g (Suc i)))"
proof -
  let ?t = "cg_nodes g ! i" and ?S = "init_state ts g ga (before_node g i)"
  have src: "init_tensor asize ga s (tensor_alloc_of asize ts ga s) ?S = Some ?S" if s: "s \<in> set (srcs (ts ?t))" for s
  proof -
    have b: "s \<in> before_node g i" using graph_okD(3) [OF gok i s] .
    then have "s \<in> before_node g (Suc i)" using before_mono [of i "Suc i" g] by auto
    from init_any [OF szs gok ok this i] slots b show ?thesis by (simp add: insert_absorb)
  qed
  have "foldM (\<lambda>j u. case gt_src (u ?t) ! j of None \<Rightarrow> Some u | Some s \<Rightarrow> init_tensor asize ga s (na_src (node_alloc_of asize ts ga ?t) ! j) u)
      [0..<min GGML_MAX_SRC (length (gt_src (?S ?t)))] ?S = Some ?S"
  proof (rule foldM_stay)
    fix j
    assume "j \<in> set [0..<min GGML_MAX_SRC (length (gt_src (?S ?t)))]"
    then have j: "j < min GGML_MAX_SRC (length (gt_src (ts ?t)))" by simp
    then show "(case gt_src (?S ?t) ! j of None \<Rightarrow> Some ?S | Some s \<Rightarrow> init_tensor asize ga s (na_src (node_alloc_of asize ts ga ?t) ! j) ?S) = Some ?S"
      using src [OF src_at [OF j]] by (cases "gt_src (ts ?t) ! j") (simp_all add: node_alloc_of_def)
  qed
  moreover have "?t \<in> before_node g (Suc i)" using i by (simp add: before_Suc)
  note init_any [OF szs gok ok this i slots]
  ultimately show ?thesis unfolding init_node_def before_Suc [OF i] by (simp add: node_alloc_of_def)
qed

lemma init_leafs:
  assumes szs: "sizes_ok asize ts" and gok: "graph_ok ts g" and ok: "tensors_ok ts g"
    and slots: "\<And>t. t \<in> graph_tensors g \<Longrightarrow> managed ts t \<Longrightarrow> slot_ok asize ts ga t"
  shows "k \<le> length (cg_leafs g) \<Longrightarrow> foldM (\<lambda>i. init_tensor asize ga (cg_leafs g ! i) (map (tensor_alloc_of asize ts ga) (cg_leafs g) ! i)) [0..<k] ts = Some (init_state ts g ga (set (take k (cg_leafs g))))"
proof (induction k)
  case 0
  then show ?case by (simp add: init_state_def fun_eq_iff)
next
  case (Suc k)
  let ?t = "cg_leafs g ! k" and ?D = "set (take k (cg_leafs g))"
  have tg: "?t \<in> graph_tensors g" "?t \<in> set (cg_leafs g)" using Suc.prems by (simp_all add: graph_tensors_def)
  have D: "?D \<subseteq> graph_tensors g" using set_take_subset [of k "cg_leafs g"] by (auto simp: graph_tensors_def)
  have "init_tensor asize ga ?t (tensor_alloc_of asize ts ga ?t) (init_state ts g ga ?D) = Some (init_state ts g ga (insert ?t ?D))"
  proof (cases "gt_view_src (ts ?t)")
    case None
    with init_plain [OF szs ok tg(1)] slots show ?thesis by blast
  next
    case (Some v)
    with ok tg(2) have "v \<notin> graph_tensors g" by (auto simp: tensors_ok_def)
    with D have "gt_view_src (ts v) = None \<and> v \<in> ?D \<or> v \<notin> ?D \<and> v \<notin> graph_tensors g" by blast
    from init_view [OF ok Some this] slots show ?thesis using Some by (simp add: tensor_alloc_of_def)
  qed
  with Suc show ?case by (simp add: foldM_append take_Suc_conv_app_nth)
qed

lemma init_nodes:
  assumes szs: "sizes_ok asize ts" and gok: "graph_ok ts g" and ok: "tensors_ok ts g"
    and slots: "\<And>t. t \<in> graph_tensors g \<Longrightarrow> managed ts t \<Longrightarrow> slot_ok asize ts ga t"
  shows "k \<le> length (cg_nodes g) \<Longrightarrow> foldM (\<lambda>i. init_node asize ga (cg_nodes g ! i) (map (node_alloc_of asize ts ga) (cg_nodes g) ! i)) [0..<k] (init_state ts g ga (before_node g 0))
    = Some (init_state ts g ga (before_node g k))"
proof (induction k)
  case (Suc k)
  then have "k < length (cg_nodes g)" by simp
  from init_node_spec [OF szs gok ok this slots] Suc this show ?case by (simp add: foldM_append)
qed simp

section \<open>From a new allocator to the tensors\<close>

definition same_bufs :: "gallocr \<Rightarrow> gallocr \<Rightarrow> bool" where
  "same_bufs ga ga' \<longleftrightarrow> ga_bufts ga' = ga_bufts ga \<and> ga_buffers ga' = ga_buffers ga \<and> ga_talloc_of ga' = ga_talloc_of ga"

lemma same_bufs_refl [simp]: "same_bufs ga ga"
  by (simp add: same_bufs_def)

lemma same_bufs_trans: "same_bufs a b \<Longrightarrow> same_bufs b c \<Longrightarrow> same_bufs a c"
  by (simp add: same_bufs_def)

lemma same_bufs_simps [simp]:
  "same_bufs ga (put_hash t h ga') = same_bufs ga ga'" "same_bufs ga (add_children n t ga') = same_bufs ga ga'" "same_bufs ga (add_views n t ga') = same_bufs ga ga'"
  "same_bufs (put_hash t h ga) ga' = same_bufs ga ga'" "same_bufs (add_children n t ga) ga' = same_bufs ga ga'" "same_bufs (add_views n t ga) ga' = same_bufs ga ga'"
  "same_bufs ga (ga'\<lparr>ga_tallocs := als\<rparr>) = same_bufs ga ga'"
  by (simp_all add: same_bufs_def put_hash_def add_children_def add_views_def)

lemma foldM_bufs:
  assumes "foldM f xs ga = Some ga'" "\<And>x s t. f x s = Some t \<Longrightarrow> same_bufs s t"
  shows "same_bufs ga ga'"
proof (rule foldM_done [OF assms(1), where P = "\<lambda>_. same_bufs ga"])
  show "same_bufs ga s \<Longrightarrow> f x s = Some t \<Longrightarrow> same_bufs ga t" for ys x s t by (rule same_bufs_trans [OF _ assms(2)])
qed simp

lemma try_parents_bufs: "try_parents ts t ps ga = Some (Some ga') \<Longrightarrow> same_bufs ga ga'"
proof (induction ps)
  case (Cons p ps)
  then show ?case
    by (auto simp: try_parent_def Let_def split: Option.bind_splits if_splits option.splits)
qed simp

lemma allocate_bufs:
  assumes "allocate_node asize ts t b ga = Some ga'"
  shows "same_bufs ga ga'"
proof (cases "gallocr_is_allocated ts ga t \<or> ggml_is_view (ts t)")
  case True
  with assms show ?thesis by (auto simp: allocate_node_def split: Option.bind_splits)
next
  case False
  let ?ga1 = "put_hash t ((ga_hash ga t)\<lparr>hn_allocated := True\<rparr>) ga"
  from assms False obtain r where r: "(if ggml_op_can_inplace (gt_op (ts t)) then try_parents ts t (srcs (ts t)) ?ga1 else Some None) = Some r"
    "(case r of Some ga2 \<Rightarrow> Some ga2 | None \<Rightarrow> alloc_fresh asize ts t b ?ga1) = Some ga'"
    by (auto simp: allocate_node_def guard_def Let_def Option.bind_eq_Some_conv simp del: put_hash_simps split: if_splits)
  show ?thesis
  proof (cases r)
    case (Some ga2)
    with r have "try_parents ts t (srcs (ts t)) ?ga1 = Some (Some ga')" by (auto split: if_splits)
    from try_parents_bufs [OF this] show ?thesis by simp
  next
    case None
    with r have "alloc_fresh asize ts t b ?ga1 = Some ga'" by simp
    then show ?thesis by (auto simp: alloc_fresh_def guard_def Let_def split: if_splits Option.bind_splits)
  qed
qed

lemma free_node_bufs: "free_node asize ts t ga = Some ga' \<Longrightarrow> same_bufs ga ga'"
  by (auto simp: free_node_def Let_def split: if_splits Option.bind_splits)

lemma update_bufs: "update_parent asize ts p ga = Some ga' \<Longrightarrow> same_bufs ga ga'"
  by (auto simp: update_parent_def Let_def dest!: free_node_bufs split: if_splits option.splits)

lemma count_bufs:
  assumes "count_node asize ts b t ga = Some ga'"
  shows "same_bufs ga ga'"
proof -
  let ?body = "\<lambda>src ga. let ga' = add_children 1 src ga in if gt_input (ts src) then allocate_node asize ts src b ga' else Some ga'"
  define ga1 where "ga1 = (case gt_view_src (ts t) of Some v \<Rightarrow> if gt_op (ts t) \<noteq> GGML_OP_NONE then add_views 1 v ga else ga | None \<Rightarrow> ga)"
  have s1: "same_bufs ga ga1" by (simp add: ga1_def split: option.splits)
  from assms obtain ga2 where s: "(if gt_input (ts t) then allocate_node asize ts t b ga1 else Some ga1) = Some ga2" "foldM ?body (srcs (ts t)) ga2 = Some ga'"
    unfolding count_node_def ga1_def [symmetric] by (auto simp: Option.bind_eq_Some_conv Let_def)
  have "same_bufs ga1 ga2" using s(1) by (auto dest: allocate_bufs split: if_splits)
  moreover have "same_bufs ga2 ga'" by (rule foldM_bufs [OF s(2)]) (auto simp: Let_def dest: allocate_bufs split: if_splits)
  ultimately show ?thesis using s1 same_bufs_trans by blast
qed

lemma exec_bufs:
  assumes "exec_node asize ts b t ga = Some ga'"
  shows "same_bufs ga ga'"
proof -
  obtain ga1 ga2 where s: "foldM (\<lambda>p. allocate_node asize ts p b) (srcs (ts t)) ga = Some ga1" "allocate_node asize ts t b ga1 = Some ga2"
    "foldM (update_parent asize ts) (srcs (ts t)) ga2 = Some ga'" using assms by (auto simp: exec_node_def Option.bind_eq_Some_conv)
  have "same_bufs ga ga1" by (rule foldM_bufs [OF s(1)]) (rule allocate_bufs)
  moreover have "same_bufs ga2 ga'" by (rule foldM_bufs [OF s(3)]) (rule update_bufs)
  ultimately show ?thesis using allocate_bufs [OF s(2)] same_bufs_trans by blast
qed

lemma alloc_graph_bufs:
  assumes "alloc_graph_impl asize ts g nids lids ga = Some ga'"
  shows "same_bufs ga ga'"
proof -
  let ?ga0 = "ga\<lparr>ga_hash := (\<lambda>_. hash_zero)\<rparr>"
  obtain ga1 ga2 where
    r1: "foldM (\<lambda>i. allocate_node asize ts (cg_leafs g ! i) (get_node_buffer_id lids i)) [0..<length (cg_leafs g)] ?ga0 = Some ga1" and
    r2: "foldM (\<lambda>i. count_node asize ts (get_node_buffer_id nids i) (cg_nodes g ! i)) [0..<length (cg_nodes g)] ga1 = Some ga2" and
    r3: "foldM (\<lambda>i. exec_node asize ts (get_node_buffer_id nids i) (cg_nodes g ! i)) [0..<length (cg_nodes g)] ga2 = Some ga'"
    using assms unfolding alloc_graph_impl_def by (auto simp: Option.bind_eq_Some_conv Let_def)
  have "same_bufs ga ?ga0" by (simp add: same_bufs_def)
  moreover have "same_bufs ?ga0 ga1" by (rule foldM_bufs [OF r1]) (rule allocate_bufs)
  moreover have "same_bufs ga1 ga2" by (rule foldM_bufs [OF r2]) (rule count_bufs)
  moreover have "same_bufs ga2 ga'" by (rule foldM_bufs [OF r3]) (rule exec_bufs)
  ultimately show ?thesis using same_bufs_trans by blast
qed

lemma reset_new:
  assumes "shape_ok ga" "\<forall>k < length (ga_tallocs ga). al_inv (ga_tallocs ga ! k) {}"
  shows "shape_ok (reset_tallocs ga) \<and> (\<forall>k < length (ga_tallocs (reset_tallocs ga)). al_inv (ga_tallocs (reset_tallocs ga) ! k) {}) \<and> same_bufs ga (reset_tallocs ga)"
proof -
  have "shape_ok u \<and> (\<forall>k < length (ga_tallocs u). al_inv (ga_tallocs u ! k) {}) \<and> same_bufs ga u"
    if "u = fold (\<lambda>i ga. let k = ga_talloc_of ga ! i in ga\<lparr>ga_tallocs := (ga_tallocs ga)[k := dyn_tallocr_reset (ga_tallocs ga ! k)]\<rparr>) xs ga" for xs u
    using that
  proof (induction xs arbitrary: u rule: rev_induct)
    case (snoc i xs)
    define w where "w = fold (\<lambda>i ga. let k = ga_talloc_of ga ! i in ga\<lparr>ga_tallocs := (ga_tallocs ga)[k := dyn_tallocr_reset (ga_tallocs ga ! k)]\<rparr>) xs ga"
    from snoc.IH [OF w_def] have W: "shape_ok w" "\<forall>k < length (ga_tallocs w). al_inv (ga_tallocs w ! k) {}" "same_bufs ga w" by blast+
    have u: "u = w\<lparr>ga_tallocs := (ga_tallocs w)[ga_talloc_of w ! i := dyn_tallocr_reset (ga_tallocs w ! (ga_talloc_of w ! i))]\<rparr>"
      unfolding snoc.prems w_def by (simp add: Let_def)
    have "al_inv (ga_tallocs u ! k) {}" if "k < length (ga_tallocs u)" for k
      using that W(2) al_inv_reset [of "ga_tallocs w ! k" "{}"] by (auto simp: u nth_list_update_if)
    with W u show ?case by (simp add: shape_ok_def)
  qed (use assms in simp)
  from this [OF refl, of "[0..<length (ga_bufts ga)]"] show ?thesis unfolding reset_tallocs_def by blast
qed

lemma reserve_spec:
  assumes "aligned al bufts" and szs: "sizes_ok asize ts" and bok: "balloc_ok balloc" and gok: "graph_ok ts g"
    and res: "gallocr_reserve_n balloc asize ts g nids lids (gallocr_new_n al ms bufts) = Some (True, ga)"
  shows "ga_node_allocs ga = map (node_alloc_of asize ts ga) (cg_nodes g) \<and> ga_leaf_allocs ga = map (tensor_alloc_of asize ts ga) (cg_leafs g) \<and>
    (\<forall>i < length (cg_nodes g). step_mem asize ts g i ga) \<and> (\<forall>t \<in> graph_tensors g. managed ts t \<longrightarrow> bounded asize ts ga t) \<and>
    length (ga_buffers ga) = length (ga_bufts ga) \<and> buffers_ready balloc (length (ga_bufts ga)) ga"
proof -
  let ?new = "gallocr_new_n al ms bufts"
  note N = gallocr_new_spec [OF assms(1) refl, of ms]
  have R: "shape_ok (reset_tallocs ?new)" "\<And>k. k < length (ga_tallocs (reset_tallocs ?new)) \<Longrightarrow> al_inv (ga_tallocs (reset_tallocs ?new) ! k) {}" "same_bufs ?new (reset_tallocs ?new)"
    using reset_new [of ?new] N by blast+
  from res obtain ga1 where ga1: "alloc_graph_impl asize ts g nids lids (reset_tallocs ?new) = Some ga1"
    by (auto simp: gallocr_reserve_n_def Option.bind_eq_Some_conv)
  define ga2 where "ga2 = ga1\<lparr>ga_node_allocs := map (node_alloc_of asize ts ga1) (cg_nodes g), ga_leaf_allocs := map (tensor_alloc_of asize ts ga1) (cg_leafs g)\<rparr>"
  have b: "reserve_buffers balloc [0..<length (ga_bufts ga2)] ga2 = (True, ga)" using res ga1 by (simp add: gallocr_reserve_n_def ga2_def)
  have sb: "same_bufs ?new ga1" by (rule same_bufs_trans [OF R(3) alloc_graph_bufs [OF ga1]])
  then have bl: "length (ga_bufts ga2) = length (ga_buffers ga2)" "\<forall>i < length (ga_buffers ga2). ga_buffers ga2 ! i = None" using N by (simp_all add: ga2_def same_bufs_def)
  from reserve_buffers_spec [OF bok bl(2)] b bl(1) have S: "same_plan ga2 ga" "buffers_ready balloc (length (ga_buffers ga2)) ga" by simp_all
  note P = same_planD [OF S(1)]
  from alloc_graph_safe [OF szs gok R(1,2) ga1] have A: "\<forall>i < length (cg_nodes g). step_mem asize ts g i ga1"
    "\<forall>t \<in> born ts g (length (cg_nodes g)). managed ts t \<longrightarrow> bounded asize ts ga1 t" by blast+
  have same: "same_places {} ga1 ga" using P by (simp add: same_places_def ga2_def)
  have "step_mem asize ts g i ga" if "i < length (cg_nodes g)" for i using A(1) that same_placesD(3) [OF same] by (simp add: step_mem_def)
  moreover have "bounded asize ts ga t" if t: "t \<in> graph_tensors g" "managed ts t" for t
  proof -
    have "t \<in> born ts g (length (cg_nodes g))" using t(1) by (auto simp: born_def before_node_def graph_tensors_def)
    with A(2) t(2) have "bounded asize ts ga1 t" by blast
    then show ?thesis by (rule bounded_mono [OF _ same]) (use P in \<open>simp_all add: ga_mono_same ga2_def\<close>)
  qed
  moreover have ta: "tensor_alloc_of asize ts ga1 = tensor_alloc_of asize ts ga" using P by (simp add: fun_eq_iff tensor_alloc_of_def ga2_def)
  moreover have "node_alloc_of asize ts ga1 = node_alloc_of asize ts ga" by (rule ext) (simp only: node_alloc_of_def ta)
  ultimately show ?thesis using P S(2) bl(1) by (simp add: ga2_def)
qed

lemma slots_ready:
  assumes szs: "sizes_ok asize ts" and bok: "balloc_ok balloc" and ready: "buffers_ready balloc (length (ga_bufts ga)) ga" and bnd: "bounded asize ts ga t"
  shows "\<exists>buf. ga_buffers ga ! hn_buffer_id (ga_hash ga t) = Some buf \<and> fst (hn_addr (ga_hash ga t)) < length buf \<and>
    vbuffer_alloc balloc (first_entry ga (hn_buffer_id (ga_hash ga t))) (ga_tallocs ga ! talloc_idx ga t) = Some buf \<and>
    0 < fst (buf ! fst (hn_addr (ga_hash ga t))) \<and> snd (hn_addr (ga_hash ga t)) + tensor_size asize ts ga t \<le> snd (buf ! fst (hn_addr (ga_hash ga t))) \<and>
    balloc (first_entry ga (hn_buffer_id (ga_hash ga t))) (fst (hn_addr (ga_hash ga t))) (max_size (da_chunks (ga_tallocs ga ! talloc_idx ga t) ! fst (hn_addr (ga_hash ga t)))) = Some (buf ! fst (hn_addr (ga_hash ga t)))"
proof -
  let ?b = "hn_buffer_id (ga_hash ga t)" and ?al = "ga_tallocs ga ! talloc_idx ga t" and ?c = "fst (hn_addr (ga_hash ga t))" and ?off = "snd (hn_addr (ga_hash ga t))"
  have B: "?b < length (ga_bufts ga)" "?off + tensor_size asize ts ga t \<le> dyn_tallocr_max_size ?al ?c" using bnd by (simp_all add: bounded_def)
  from ready B(1) obtain buf where buf: "ga_buffers ga ! ?b = Some buf" "vbuffer_alloc balloc (first_entry ga ?b) ?al = Some buf"
    unfolding buffers_ready_def talloc_idx_def by blast
  have "0 < tensor_size asize ts ga t" using szs by (simp add: sizes_ok_def tensor_size_def)
  with B(2) have c: "?c < length (da_chunks ?al)" by (auto simp: dyn_tallocr_max_size_def split: if_splits)
  note V = vbuffer_alloc_nth [OF buf(2)]
  obtain b s where bs: "buf ! ?c = (b, s)" by (cases "buf ! ?c")
  have "max_size (da_chunks ?al ! ?c) \<le> s \<and> 0 < b" using bok V(2) [OF c] bs unfolding balloc_ok_def by metis
  with B(2) c bs V buf show ?thesis by (simp add: dyn_tallocr_max_size_def)
qed

lemma ranges_apart:
  assumes szs: "sizes_ok asize ts" and bok: "balloc_ok balloc" and ready: "buffers_ready balloc (length (ga_bufts ga)) ga"
    and bnd: "bounded asize ts ga t" "bounded asize ts ga t'" and apart: "mem_apart asize ts ga t t'"
  shows "{data_addr ga t..<data_addr ga t + tensor_size asize ts ga t} \<inter> {data_addr ga t'..<data_addr ga t' + tensor_size asize ts ga t'} = {}"
proof -
  let ?b = "\<lambda>t. hn_buffer_id (ga_hash ga t)" and ?c = "\<lambda>t. fst (hn_addr (ga_hash ga t))" and ?off = "\<lambda>t. snd (hn_addr (ga_hash ga t))"
  let ?f = "\<lambda>t. first_entry ga (?b t)" and ?n = "\<lambda>t. tensor_size asize ts ga t"
  from slots_ready [OF szs bok ready bnd(1)] obtain buf where 1: "ga_buffers ga ! ?b t = Some buf" "vbuffer_alloc balloc (?f t) (ga_tallocs ga ! talloc_idx ga t) = Some buf"
    "?off t + ?n t \<le> snd (buf ! ?c t)" "balloc (?f t) (?c t) (max_size (da_chunks (ga_tallocs ga ! talloc_idx ga t) ! ?c t)) = Some (buf ! ?c t)" by blast
  from slots_ready [OF szs bok ready bnd(2)] obtain buf' where 2: "ga_buffers ga ! ?b t' = Some buf'" "vbuffer_alloc balloc (?f t') (ga_tallocs ga ! talloc_idx ga t') = Some buf'"
    "?off t' + ?n t' \<le> snd (buf' ! ?c t')" "balloc (?f t') (?c t') (max_size (da_chunks (ga_tallocs ga ! talloc_idx ga t') ! ?c t')) = Some (buf' ! ?c t')" by blast
  obtain x s where x: "buf ! ?c t = (x, s)" by (cases "buf ! ?c t")
  obtain y s' where y: "buf' ! ?c t' = (y, s')" by (cases "buf' ! ?c t'")
  have at: "data_addr ga t = x + ?off t" "data_addr ga t' = y + ?off t'" using 1(1) 2(1) x y by (simp_all add: data_addr_def Let_def)
  show ?thesis
  proof (cases "(?f t, ?c t) = (?f t', ?c t')")
    case False
    then have "{x..<x + s} \<inter> {y..<y + s'} = {}" using bok 1(4) 2(4) x y unfolding balloc_ok_def by metis
    moreover have "{data_addr ga t..<data_addr ga t + ?n t} \<subseteq> {x..<x + s}" "{data_addr ga t'..<data_addr ga t' + ?n t'} \<subseteq> {y..<y + s'}" using at 1(3) 2(3) x y by auto
    ultimately show ?thesis by blast
  next
    case True
    have idx: "talloc_idx ga t = talloc_idx ga t'" using first_entry(1) [of ga "?b t"] first_entry(1) [of ga "?b t'"] True by (simp add: talloc_idx_def)
    then have "buf = buf'" using 1(2) 2(2) True by simp
    then have "x = y" using x y True by simp
    have "span (?off t, ?n t) \<inter> span (?off t', ?n t') = {}" using apart idx True by (simp add: mem_apart_def apart_def place_def)
    then show ?thesis unfolding at \<open>x = y\<close> by (auto simp: span_def disjoint_iff)
  qed
qed

lemma no_realloc:
  assumes "ga_node_allocs ga = map (node_alloc_of asize ts ga) (cg_nodes g)" "ga_leaf_allocs ga = map (tensor_alloc_of asize ts ga) (cg_leafs g)"
  shows "\<not> needs_realloc asize ts g ga"
proof -
  have fits: "node_needs_realloc asize ga (ts t) (tensor_alloc_of asize ts ga t)" for t
    by (simp add: node_needs_realloc_def tensor_alloc_of_def Let_def)
  have "\<not> (\<exists>i \<in> set [0..<length (cg_nodes g)]. let node = cg_nodes g ! i; na = ga_node_allocs ga ! i in
        \<not> node_needs_realloc asize ga (ts node) (na_dst na) \<or>
        (\<exists>j \<in> set [0..<min GGML_MAX_SRC (length (gt_src (ts node)))].
           case gt_src (ts node) ! j of None \<Rightarrow> False | Some src \<Rightarrow> \<not> node_needs_realloc asize ga (ts src) (na_src na ! j)))"
    using fits assms(1) by (auto simp: Let_def node_alloc_of_def split: option.splits)
  with assms show ?thesis by (simp add: needs_realloc_def)
qed

text \<open>A leaf that no node reads is not compared with its plan: a graph of leafs only never asks for a new plan.\<close>

lemma leafs_unchecked:
  assumes "cg_nodes g = []" "ga_node_allocs ga = []" "length (ga_leaf_allocs ga) = length (cg_leafs g)"
  shows "\<not> needs_realloc asize ts g ga"
  using assms by (simp add: needs_realloc_def)

section \<open>Properties\<close>

text \<open>C9: after a graph was reserved in a new allocator, allocating it returns true without planning again and without any
  assertion failing, and the data pointers respect the graph: two tensors that both count at a node get data that does not
  overlap, except when the node works in place and takes over a source used for the last time, and every view of a node
  points into the tensor it views.\<close>

theorem alloc_graph_data:
  assumes "aligned al bufts" and "sizes_ok asize ts" and "balloc_ok balloc" and "graph_ok ts g" and "tensors_ok ts g"
    and "gallocr_reserve_n balloc asize ts g nids lids (gallocr_new_n al ms bufts) = Some (True, ga)"
  shows "\<exists>ts'. gallocr_alloc_graph balloc asize ts g ga = Some (True, ga, ts') \<and>
    (\<forall>i < length (cg_nodes g). \<forall>t \<in> live_at ts g i. \<forall>t' \<in> live_at ts g i. t \<noteq> t' \<longrightarrow> takes ts g i t t' \<or> takes ts g i t' t \<or>
      {gt_data (ts' t)..<gt_data (ts' t) + tensor_size asize ts ga t} \<inter> {gt_data (ts' t')..<gt_data (ts' t') + tensor_size asize ts ga t'} = {}) \<and>
    (\<forall>t \<in> set (cg_nodes g). \<forall>v. gt_view_src (ts t) = Some v \<longrightarrow> \<not> gt_buffer (ts t) \<longrightarrow> managed ts v \<longrightarrow> gt_data (ts' t) = gt_data (ts' v) + gt_view_offs (ts t))"
proof -
  note R = reserve_spec [OF assms(1-4,6)]
  let ?n = "length (cg_nodes g)" and ?fin = "init_state ts g ga (graph_tensors g)"
  have slots: "slot_ok asize ts ga t" if "t \<in> graph_tensors g" "managed ts t" for t
    using slots_ready [OF assms(2,3), of ga t] R that unfolding slot_ok_def Let_def by blast
  have all: "before_node g ?n = graph_tensors g" "set (take (length (cg_leafs g)) (cg_leafs g)) = before_node g 0" by (auto simp: before_node_def graph_tensors_def)
  have nr: "\<not> needs_realloc asize ts g ga" using no_realloc R by blast
  have l: "foldM (\<lambda>i. init_tensor asize ga (cg_leafs g ! i) (ga_leaf_allocs ga ! i)) [0..<length (cg_leafs g)] ts = Some (init_state ts g ga (before_node g 0))"
    using init_leafs [OF assms(2,4,5) slots order_refl] R all(2) by simp
  have n: "foldM (\<lambda>i. init_node asize ga (cg_nodes g ! i) (ga_node_allocs ga ! i)) [0..<?n] (init_state ts g ga (before_node g 0)) = Some ?fin"
    using init_nodes [OF assms(2,4,5) slots order_refl] R all(1) by simp
  have "gallocr_alloc_graph balloc asize ts g ga = Some (True, ga, ?fin)"
    using nr by (simp add: gallocr_alloc_graph_def l n)
  moreover have data: "gt_data (?fin t) = data_addr ga t" if "t \<in> graph_tensors g" "managed ts t" for t
    using that by (simp add: init_state_def final_tensor_def placed_tensor_def managed_def)
  moreover have live: "t \<in> graph_tensors g \<and> managed ts t" if "t \<in> live_at ts g i" for t i
    using that set_take_subset [of "Suc i" "cg_nodes g"] by (auto simp: live_at_def born_def before_node_def graph_tensors_def)
  moreover have "takes ts g i t t' \<or> takes ts g i t' t \<or> {gt_data (?fin t)..<gt_data (?fin t) + tensor_size asize ts ga t} \<inter> {gt_data (?fin t')..<gt_data (?fin t') + tensor_size asize ts ga t'} = {}"
    if i: "i < ?n" and t: "t \<in> live_at ts g i" "t' \<in> live_at ts g i" "t \<noteq> t'" for i t t'
  proof -
    note lt = live [OF t(1)] live [OF t(2)]
    have "mem_apart asize ts ga t t' \<or> takes ts g i t t' \<or> takes ts g i t' t" using R i t by (simp add: step_mem_def)
    moreover have "mem_apart asize ts ga t t' \<Longrightarrow> {data_addr ga t..<data_addr ga t + tensor_size asize ts ga t} \<inter> {data_addr ga t'..<data_addr ga t' + tensor_size asize ts ga t'} = {}"
      using ranges_apart [OF assms(2,3)] R lt by blast
    ultimately show ?thesis using data lt by auto
  qed
  moreover have "gt_data (?fin t) = gt_data (?fin v) + gt_view_offs (ts t)"
    if t: "t \<in> set (cg_nodes g)" "gt_view_src (ts t) = Some v" "\<not> gt_buffer (ts t)" "managed ts v" for t v
  proof -
    obtain k where k: "k < ?n" "t = cg_nodes g ! k" using t(1) by (auto simp: in_set_conv_nth)
    have "v \<in> graph_tensors g" using graph_okD(8) [OF assms(4) k(1)] k(2) t(2) all(1) before_mono [of k ?n g] k(1) by auto
    then have "placed_tensor ts g ga v = ?fin v" "gt_buffer (placed_tensor ts g ga v)"
      using t(4) by (simp_all add: init_state_def final_tensor_def placed_tensor_def managed_def)
    moreover have "t \<in> graph_tensors g" using t(1) by (simp add: graph_tensors_def)
    ultimately show ?thesis using t by (simp add: init_state_def [of _ _ _ _ t] final_tensor_def [of _ _ _ t])
  qed
  ultimately show ?thesis by blast
qed

definition demo_balloc :: "nat \<Rightarrow> nat \<Rightarrow> nat \<Rightarrow> (nat \<times> nat) option" where
  "demo_balloc i c n = (if c = 0 \<and> n \<le> 1000 then Some (1000 * (i + 1), n) else None)"

lemma demo_balloc_ok: "balloc_ok demo_balloc"
proof -
  have "{1000 * (i + 1)..<1000 * (i + 1) + n} \<inter> {1000 * (i' + 1)..<1000 * (i' + 1) + n'} = {}" if "n \<le> 1000" "n' \<le> 1000" "i \<noteq> i'" for i i' n n' :: nat
    using that by (cases "i < i'") (auto simp: disjoint_iff)
  then show ?thesis by (auto simp: balloc_ok_def demo_balloc_def split: if_splits)
qed

lemma demo_reserve: "\<exists>ga. gallocr_reserve_n demo_balloc (\<lambda>_ _. 16) demo_ts demo_graph None None (gallocr_new_n (\<lambda>_. 8) (\<lambda>_. 100) [0]) = Some (True, ga)"
proof -
  let ?new = "gallocr_new_n (\<lambda>_. 8) (\<lambda>_. 100) [0 :: nat]"
  have reset: "reset_tallocs ?new = ?new" by (simp add: reset_tallocs_def gallocr_new_n_def dyn_tallocr_new_def dyn_tallocr_reset_def)
  obtain ga where ga: "alloc_graph_impl (\<lambda>_ _. 16) demo_ts demo_graph None None ?new = Some ga" "ga_tallocs ga = [demo_chunk 32]" "ga_talloc_of ga = [0]" "ga_bufts ga = [0]"
    "ga_buffers ga = [None]" using demo_alloc by blast
  have "vbuffer_alloc demo_balloc 0 (demo_chunk 32) = Some [(1000, 32)]" by (simp add: vbuffer_alloc_def demo_chunk_def demo_balloc_def)
  with ga reset show ?thesis by (simp add: gallocr_reserve_n_def reserve_buffer_def)
qed

lemma demo_tensors_ok: "tensors_ok demo_ts demo_graph"
  by (simp add: tensors_ok_def demo_ts_def)

theorem alloc_graph_data_witness:
  "\<exists>ga ts'. gallocr_reserve_n demo_balloc (\<lambda>_ _. 16) demo_ts demo_graph None None (gallocr_new_n (\<lambda>_. 8) (\<lambda>_. 100) [0]) = Some (True, ga) \<and>
    gallocr_alloc_graph demo_balloc (\<lambda>_ _. 16) demo_ts demo_graph ga = Some (True, ga, ts') \<and>
    {gt_data (ts' 2)..<gt_data (ts' 2) + 16} \<inter> {gt_data (ts' 0)..<gt_data (ts' 0) + 16} = {}"
proof -
  obtain ga where ga: "gallocr_reserve_n demo_balloc (\<lambda>_ _. 16) demo_ts demo_graph None None (gallocr_new_n (\<lambda>_. 8) (\<lambda>_. 100) [0]) = Some (True, ga)" using demo_reserve by blast
  have "aligned (\<lambda>_. 8) [0]" "sizes_ok (\<lambda>_ _. 16) demo_ts" by (simp_all add: aligned_def sizes_ok_def SIZE_MAX_def)
  from alloc_graph_data [OF this demo_balloc_ok demo_graph_ok demo_tensors_ok ga] obtain ts' where
    a: "gallocr_alloc_graph demo_balloc (\<lambda>_ _. 16) demo_ts demo_graph ga = Some (True, ga, ts')" and
    d: "\<forall>i < length (cg_nodes demo_graph). \<forall>t \<in> live_at demo_ts demo_graph i. \<forall>t' \<in> live_at demo_ts demo_graph i. t \<noteq> t' \<longrightarrow> takes demo_ts demo_graph i t t' \<or> takes demo_ts demo_graph i t' t \<or>
      {gt_data (ts' t)..<gt_data (ts' t) + tensor_size (\<lambda>_ _. 16) demo_ts ga t} \<inter> {gt_data (ts' t')..<gt_data (ts' t') + tensor_size (\<lambda>_ _. 16) demo_ts ga t'} = {}" by blast
  have "2 \<in> live_at demo_ts demo_graph 1" "0 \<in> live_at demo_ts demo_graph 1" "1 < length (cg_nodes demo_graph)"
    by (simp_all add: live_at_def born_def before_node_def managed_def kept_def demo_graph_def take_Suc_Cons numeral_2_eq_2)
  moreover have "\<not> takes demo_ts demo_graph 1 2 0" "\<not> takes demo_ts demo_graph 1 0 2" by (simp_all add: takes_def kept_def demo_graph_def)
  ultimately have "{gt_data (ts' 2)..<gt_data (ts' 2) + 16} \<inter> {gt_data (ts' 0)..<gt_data (ts' 0) + 16} = {}"
    using d [rule_format, of 1 2 0] by (simp add: tensor_size_def)
  with ga a show ?thesis by blast
qed

text \<open>An entry of the plan: either nothing, or a valid buffer, a chunk of it, and a range inside of that chunk.\<close>

definition ta_wf :: "gallocr \<Rightarrow> tensor_alloc \<Rightarrow> bool" where
  "ta_wf ga ta \<longleftrightarrow> (case ta_addr ta of None \<Rightarrow> ta_buffer_id ta = - 1 \<and> ta_size_max ta = 0
     | Some (c, off) \<Rightarrow> 0 \<le> ta_buffer_id ta \<and> nat (ta_buffer_id ta) < length (ga_buffers ga) \<and>
         (case ga_buffers ga ! nat (ta_buffer_id ta) of None \<Rightarrow> False | Some buf \<Rightarrow> c < length buf \<and> off + ta_size_max ta \<le> snd (buf ! c)))"

text \<open>The entry of tensor \<open>t\<close>: empty when the tensor has data or is a view; otherwise the buffer, the address and the size that
  the allocator recorded for the tensor.\<close>

definition entry_for :: "(nat \<Rightarrow> gtensor \<Rightarrow> nat) \<Rightarrow> (nat \<Rightarrow> gtensor) \<Rightarrow> gallocr \<Rightarrow> nat \<Rightarrow> tensor_alloc \<Rightarrow> bool" where
  "entry_for asize ts ga t ta \<longleftrightarrow> ta_wf ga ta \<and>
     (if managed ts t then ta_buffer_id ta = int (hn_buffer_id (ga_hash ga t)) \<and> ta_addr ta = Some (hn_addr (ga_hash ga t)) \<and>
        ta_size_max ta = tensor_size asize ts ga t
      else ta_addr ta = None)"

text \<open>C39: the plan that reserving in a new allocator leaves is the plan of the graph: it has one entry for every leaf and
  every node and, in the entry of a node, one for every source slot. The entry of a tensor that has data or is a view, or of an absent source, is
  empty; every other entry holds the buffer, the address and the size recorded for its tensor, and this range ends
  inside an existing chunk of an existing buffer. The same graph then needs no new plan.\<close>

theorem reserve_plan_wf:
  assumes "aligned al bufts" and "sizes_ok asize ts" and "balloc_ok balloc" and "graph_ok ts g"
    and "gallocr_reserve_n balloc asize ts g nids lids (gallocr_new_n al ms bufts) = Some (True, ga)"
  shows "length (ga_leaf_allocs ga) = length (cg_leafs g) \<and> length (ga_node_allocs ga) = length (cg_nodes g) \<and>
    (\<forall>i < length (cg_leafs g). entry_for asize ts ga (cg_leafs g ! i) (ga_leaf_allocs ga ! i)) \<and>
    (\<forall>i < length (cg_nodes g). let src = gt_src (ts (cg_nodes g ! i)); na = ga_node_allocs ga ! i in
      entry_for asize ts ga (cg_nodes g ! i) (na_dst na) \<and> length (na_src na) = min GGML_MAX_SRC (length src) \<and>
      (\<forall>j < min GGML_MAX_SRC (length src). case src ! j of
          None \<Rightarrow> na_src na ! j = \<lparr>ta_buffer_id = - 1, ta_addr = None, ta_size_max = 0\<rparr>
        | Some s \<Rightarrow> entry_for asize ts ga s (na_src na ! j))) \<and>
    \<not> needs_realloc asize ts g ga"
proof -
  note R = reserve_spec [OF assms]
  have entry: "entry_for asize ts ga t (tensor_alloc_of asize ts ga t)" if t: "t \<in> graph_tensors g" for t
  proof (cases "managed ts t")
    case True
    with R t have b: "bounded asize ts ga t" by blast
    from slots_ready [OF assms(2,3) _ this] R True b show ?thesis
      by (auto simp: entry_for_def ta_wf_def tensor_alloc_of_def managed_def Let_def bounded_def tensor_size_def split: prod.splits)
  qed (auto simp: entry_for_def ta_wf_def tensor_alloc_of_def managed_def no_alloc_def)
  have src: "s \<in> graph_tensors g" if i: "i < length (cg_nodes g)" and j: "j < min GGML_MAX_SRC (length (gt_src (ts (cg_nodes g ! i))))"
    and s: "gt_src (ts (cg_nodes g ! i)) ! j = Some s" for s i j
  proof -
    have "s \<in> before_node g i" using graph_okD(3) [OF assms(4) i] src_at [OF j s] by blast
    then show ?thesis using set_take_subset [of i "cg_nodes g"] by (auto simp: before_node_def graph_tensors_def)
  qed
  have "entry_for asize ts ga (cg_leafs g ! i) (ga_leaf_allocs ga ! i)" if "i < length (cg_leafs g)" for i
    using entry [of "cg_leafs g ! i"] R that by (simp add: graph_tensors_def)
  moreover have "entry_for asize ts ga (cg_nodes g ! i) (na_dst (ga_node_allocs ga ! i))" if "i < length (cg_nodes g)" for i
    using entry [of "cg_nodes g ! i"] R that by (simp add: graph_tensors_def node_alloc_of_def)
  moreover have "case gt_src (ts (cg_nodes g ! i)) ! j of
          None \<Rightarrow> na_src (ga_node_allocs ga ! i) ! j = \<lparr>ta_buffer_id = - 1, ta_addr = None, ta_size_max = 0\<rparr>
        | Some s \<Rightarrow> entry_for asize ts ga s (na_src (ga_node_allocs ga ! i) ! j)"
    if i: "i < length (cg_nodes g)" and j: "j < min GGML_MAX_SRC (length (gt_src (ts (cg_nodes g ! i))))" for i j
    using entry src [OF i j] R i j by (auto simp: node_alloc_of_def no_alloc_def split: option.splits)
  moreover have "length (na_src (ga_node_allocs ga ! i)) = min GGML_MAX_SRC (length (gt_src (ts (cg_nodes g ! i))))" if "i < length (cg_nodes g)" for i
    using R that by (simp add: node_alloc_of_def min.commute)
  moreover have "length (ga_leaf_allocs ga) = length (cg_leafs g)" "length (ga_node_allocs ga) = length (cg_nodes g)" "\<not> needs_realloc asize ts g ga"
    using R no_realloc [of ga asize ts g] by simp_all
  ultimately show ?thesis by (simp add: Let_def)
qed

theorem reserve_plan_wf_witness:
  "\<exists>ga. gallocr_reserve_n demo_balloc (\<lambda>_ _. 16) demo_ts demo_graph None None (gallocr_new_n (\<lambda>_. 8) (\<lambda>_. 100) [0]) = Some (True, ga) \<and>
    length (ga_node_allocs ga) = 2 \<and> length (na_src (ga_node_allocs ga ! 1)) = 2 \<and>
    ta_addr (na_src (ga_node_allocs ga ! 1) ! 1) = Some (hn_addr (ga_hash ga 0)) \<and> ta_size_max (na_src (ga_node_allocs ga ! 1) ! 1) = 16"
proof -
  obtain ga where ga: "gallocr_reserve_n demo_balloc (\<lambda>_ _. 16) demo_ts demo_graph None None (gallocr_new_n (\<lambda>_. 8) (\<lambda>_. 100) [0]) = Some (True, ga)" using demo_reserve by blast
  have "aligned (\<lambda>_. 8) [0]" "sizes_ok (\<lambda>_ _. 16) demo_ts" by (simp_all add: aligned_def sizes_ok_def SIZE_MAX_def)
  note P = reserve_plan_wf [OF this demo_balloc_ok demo_graph_ok ga]
  have g: "length (cg_nodes demo_graph) = 2" "cg_nodes demo_graph ! 1 = 2" "gt_src (demo_ts 2) = [Some 1, Some 0]" "managed demo_ts 0"
    by (simp_all add: demo_graph_def demo_ts_def managed_def)
  from P [THEN conjunct2, THEN conjunct2, THEN conjunct2, THEN conjunct1, rule_format, of 1] g(1,2)
  have na: "length (na_src (ga_node_allocs ga ! Suc 0)) = min GGML_MAX_SRC (length (gt_src (demo_ts 2)))"
    "\<forall>j < min GGML_MAX_SRC (length (gt_src (demo_ts 2))). case gt_src (demo_ts 2) ! j of
      None \<Rightarrow> na_src (ga_node_allocs ga ! Suc 0) ! j = \<lparr>ta_buffer_id = - 1, ta_addr = None, ta_size_max = 0\<rparr>
    | Some s \<Rightarrow> entry_for (\<lambda>_ _. 16) demo_ts ga s (na_src (ga_node_allocs ga ! Suc 0) ! j)" by (simp_all add: Let_def)
  from na(2) [rule_format, of 1] have "entry_for (\<lambda>_ _. 16) demo_ts ga 0 (na_src (ga_node_allocs ga ! Suc 0) ! 1)"
    by (simp add: g(3) GGML_MAX_SRC_def)
  moreover have "length (na_src (ga_node_allocs ga ! Suc 0)) = 2" using na(1) by (simp add: g(3) GGML_MAX_SRC_def)
  moreover have "length (ga_node_allocs ga) = 2" using P g(1) by simp
  ultimately show ?thesis using g(4) ga by (auto simp: entry_for_def tensor_size_def)
qed

end
