(* ===== verification/Spec2Isabelle.thy ===== *)
theory Spec2Isabelle
  imports BatchSplit KvPurge KvRun DecodeOutputs KvState RecurrentRun MemState MemWindow HybridRun QuantTensor GraphBuffers
begin

text \<open>
  A verification development for ActQuant, a fork of llama.cpp that quantizes vision-language-action
  models.  Two cores of the program are modelled: the memories of a context (the key-value cache: which
  token sits in which cell, for which sequences, at which position; and the memory of recurrent states) together with
  the splitting of batches that feeds them, and the quantizer (which type a tensor gets, how layers are pruned, how worker
  threads produce and validate the data).  Beside them stands the allocator of tensor memory.

  \<^bold>\<open>Conventions.\<close>  Each definition follows one function, method, loop or struct of the sources and keeps
  its name where it can.  A failed assertion, an access outside a container, a signed overflow or a
  division by zero is \<open>None\<close> (\<^verbatim>\<open>Prelude\<close>); exceptions and error returns are ordinary values
  (\<open>quant_error\<close>, \<open>False\<close>, \<open>llama_memory_status\<close>).  Positions are 32-bit and overflow is checked;
  counts are natural numbers.  Loops over indices are \<open>foldM\<close>, loops with a condition are functions
  with fuel or a termination proof.

  \<^bold>\<open>The cache.\<close>

  \<^item> \<^verbatim>\<open>StdMap\<close>: \<^verbatim>\<open>std::map\<close> as a sorted association list behind the locales \<open>std_map\<close> and
    \<open>multiplicity_map\<close>, interpreted on the association lists the other theories use.
  \<^item> \<^verbatim>\<open>KvCells\<close> (\<^verbatim>\<open>src/llama-kv-cells.h\<close>): the record \<open>kv_cells\<close> holds the arrays of the class
    (positions, shifts, sequence sets) and its derived indexes (used cells, positions per sequence).
    Shown: the indexes agree with the arrays in every reachable state, queries return what a scan of the
    arrays returns, each operation changes exactly its cell, copying out and back is the identity.
  \<^item> \<^verbatim>\<open>Batch\<close> (\<^verbatim>\<open>src/llama-batch.cpp\<close>): sanitizing a batch and the three ways of splitting it into
    micro-batches.  The locale \<open>splitter\<close> is what a splitting loop needs; all three splits interpret it.
    Shown: every split terminates, what one split takes, which batches are accepted.
  \<^item> \<^verbatim>\<open>BatchSplit\<close>: what the micro-batches of a split hold.  \<open>shares_out\<close> ties each micro-batch to the tokens of the batch it
    carries (their data field by field, and the block shape of the split) and says that over all micro-batches the tokens of each set of
    sequences come once each and in order.
  \<^item> \<^verbatim>\<open>KvCache\<close> (\<^verbatim>\<open>src/llama-kv-cache.cpp\<close>, sequence operations): the cache is a list of streams of
    cells with heads and pending stream copies.  The locale \<open>cell_sweep\<close> captures the loop over all cells
    that every operation shares and is interpreted for each.  Shown: each operation refines an update of
    the abstract set of (cell, position) pairs of the sequences.
  \<^item> \<^verbatim>\<open>KvSlots\<close> and \<^verbatim>\<open>KvPlace\<close> (\<^verbatim>\<open>find_slot\<close>, \<^verbatim>\<open>apply_ubatch\<close>, \<^verbatim>\<open>prepare\<close>, \<^verbatim>\<open>init_batch\<close>,
    \<^verbatim>\<open>is_masked_swa\<close>): the definitions and their properties.  The search loop has fuel
    \<open>2 * size + 3\<close>: the scan visits every cell at most once per round and gives up after one round, and the
    termination theorem shows the fuel is never the reason for an answer.  Shown: the cells found are the
    first usable ones in ring order, and in a cache without a window a trial placement is undone.
  \<^item> \<^verbatim>\<open>KvPurge\<close>: the exact effect of \<^verbatim>\<open>apply_ubatch\<close>, windows included.  \<open>lost\<close> names the positions that a sequence loses when
    tokens of it are overwritten, \<open>purge_cell\<close> what is left of a cell.  Shown: each token is written into its cell and every other
    cell is purged and otherwise kept; with a window \<^verbatim>\<open>prepare\<close> does not undo the purge.
  \<^item> \<^verbatim>\<open>KvInputs\<close> (\<^verbatim>\<open>get_n_kv\<close>, \<^verbatim>\<open>set_input_k_idxs\<close>, \<^verbatim>\<open>set_input_v_idxs\<close>, \<^verbatim>\<open>set_input_kq_mask\<close>): what the cache
    tells the computation graph.  Shown: the mask is exactly the visibility of cells, the rows (of a transposed tensor, the
    positions) are those of the cells found, a placed token sees itself.
  \<^item> \<^verbatim>\<open>KvRun\<close> (\<^verbatim>\<open>update\<close>, \<^verbatim>\<open>llama_kv_cache_context\<close>, the memory side of \<^verbatim>\<open>llama_context::decode\<close>): pending shifts and
    copies, the loop over the micro-batches and its clean-up after a failed graph.  The loop has fuel, one round per
    micro-batch, and the theorem that it returns uses exactly that.  Shown: in a cache without a window, and when the graphs compute, a prepared batch decodes to the end with
    every token in its cell; a failed micro-batch that follows what the cache holds is taken back; an update handles what is pending,
    and keeps the shifts when their graph fails.
  \<^item> \<^verbatim>\<open>DecodeOutputs\<close> (\<^verbatim>\<open>output_reserve\<close>, the output mapping of \<^verbatim>\<open>decode\<close>, \<^verbatim>\<open>output_reorder\<close>, \<^verbatim>\<open>get_logits_ith\<close>,
    \<^verbatim>\<open>get_embeddings_ith\<close>): the output buffer.  Shown: the logits returned for a token are the row computed for it.
  \<^item> \<^verbatim>\<open>KvState\<close> (\<^verbatim>\<open>state_write\<close>, \<^verbatim>\<open>state_read\<close> and their parts): the cache as a byte string.  Writers are functions to
    bytes; readers form a monad over the bytes left and the cache, with exceptions and aborts.  Offsets into a transposed
    value tensor are the 32-bit products of the code, \<open>v_src_offset\<close> and \<open>v_dst_offset\<close>; the properties are for tensors below \<open>2 ^ 32\<close> bytes.
    Shown: a one-stream
    cache is restored token by token with its keys and values; with several streams only the last survives.

  \<^bold>\<open>The recurrent memory.\<close>  Models such as Mamba and RWKV keep one state per sequence instead of one cell per token
  (\<^verbatim>\<open>src/llama-memory-recurrent.cpp\<close>).  A cell holds a state and the set of the sequences that share it; in a second role, the
  cell with the number of a sequence names the cell that holds its state, its tail.

  \<^item> \<^verbatim>\<open>RecurrentMem\<close>: the cells, the operations on sequences and the invariant \<open>rs_wf\<close> (tails and sequence sets are inverse,
    free cells are reset, the counter is exact).  \<open>rs_state\<close> is the abstraction: last position and state of a sequence.
  \<^item> \<^verbatim>\<open>RecurrentSlot\<close>: \<^verbatim>\<open>find_slot\<close> in its five stages and \<^verbatim>\<open>prepare\<close>.  The searches for an empty cell count the \<open>size\<close> tests of the
    loops.  Shown: nothing aborts, the micro-batch gets a contiguous block, each sequence finds its contents.
  \<^item> \<^verbatim>\<open>RecurrentShape\<close>: every operation keeps the number of cells, from any state; so clearing always restores the invariant.
  \<^item> \<^verbatim>\<open>RecurrentRun\<close>: \<^verbatim>\<open>init_batch\<close>, the memory context, and the part of the graph that clears, copies and stores states (\<^verbatim>\<open>build_rs\<close> and
    \<^verbatim>\<open>build_rwkv_token_shift_store\<close> of \<^verbatim>\<open>src/llama-graph.cpp\<close>).  The layer is the parameter \<open>F\<close>, multiplication by zero the parameter
    \<open>scale0\<close>.  Shown: decoding a batch is, for each sequence, one application of the layer per micro-batch to its own state.
    The inductive predicate \<open>rs_reach\<close> has every public operation with any arguments; its flag says whether the conventions under which
    the invariant holds were kept since the last \<^verbatim>\<open>clear\<close>.

  \<^bold>\<open>Memories made of two.\<close>  \<^verbatim>\<open>llama_kv_cache_iswa\<close> keeps one cache for the layers with a sliding window and one for the
  others; \<^verbatim>\<open>llama_memory_hybrid\<close> keeps a cache and a recurrent memory.

  \<^item> \<^verbatim>\<open>MemPair\<close> (\<^verbatim>\<open>src/llama-kv-cache-iswa.cpp\<close>, \<^verbatim>\<open>src/llama-memory-hybrid.cpp\<close>): both pairs and their operations on
    sequences.  The locale \<open>seq_memory\<close> is the interface \<^verbatim>\<open>llama_memory_i\<close> as the pairs use it, interpreted by the cache and by
    the recurrent memory; \<open>memory_pair\<close> extends it to two memories and is interpreted by both pairs.
  \<^item> \<^verbatim>\<open>MemPairRun\<close>: \<^verbatim>\<open>init_batch\<close> with its second attempt, the contexts, and the decode loop with the hybrid memory.  The fuel
    is one round per micro-batch.  The micro-batches of an equal split fit the cache and the recurrent memory at once.
  \<^item> \<^verbatim>\<open>MemWindow\<close>: the states the two caches can reach, as an inductive set.  Shown: the cache without a window holds at least the
    positions of the window cache, which is what the code's queries rely on.
  \<^item> \<^verbatim>\<open>HybridRun\<close>: the hybrid memory from the accepted batch to its last micro-batch.  Shown: with a free cell for each token a
    batch decodes to the end in both memories; removing is all or nothing; the clean-up after a failed graph is refused for a micro-batch
    that does not start at position 0 and has several tokens of each sequence.
  \<^item> \<^verbatim>\<open>MemState\<close>: the state file of the two caches, whole and partial, read back byte by byte.

  \<^bold>\<open>The quantizer.\<close>

  \<^item> \<^verbatim>\<open>CStrings\<close>: the character and string functions of the C and C++ libraries the parsers use.
  \<^item> \<^verbatim>\<open>GgmlTypes\<close> (\<^verbatim>\<open>ggml/src/ggml.c\<close>, \<^verbatim>\<open>tools/quantize/quantize.cpp\<close>): the tensor types with the
    table of names, block and type sizes, the file types, and the parsers of the command line.  Shown:
    names and numbers are parsed back, layer lists become sets.
  \<^item> \<^verbatim>\<open>QuantPolicy\<close> (\<^verbatim>\<open>src/llama-quant.cpp\<close>): \<open>tensor_get_type\<close> with one rule per group of tensors, the
    fallbacks, the tests that exempt tensors, the user's overrides.  The regular-expression match is the
    parameter \<open>rx\<close>.  Shown: the chosen type fits the row, mixes never go below the default, the
    IQ2_XS file type is uniform.
  \<^item> \<^verbatim>\<open>QuantRemap\<close>: renumbering of blocks when layers are pruned, and the way back for importance data.
  \<^item> \<^verbatim>\<open>GgmlValidate\<close> (\<^verbatim>\<open>ggml/src/ggml-quants.c\<close>, \<^verbatim>\<open>ggml_quantize_chunk\<close>): data as bytes, validation of the
    scales bit by bit, the row loop over the kernel \<open>krow\<close>, a partial function, since the kernels contain assertions.
  \<^item> \<^verbatim>\<open>QuantThreads\<close> (\<^verbatim>\<open>llama_tensor_quantize_impl\<close>): the worker threads as a step relation over their
    shared state.  Shown: every schedule ends, with the result of the single-threaded branch.
  \<^item> \<^verbatim>\<open>QuantTensor\<close>: one tensor from importance data and conversion (\<^verbatim>\<open>llama_tensor_dequantize_impl\<close>) to
    the loop over its experts.  The locale \<open>matrix_quantizer\<close> is what the loop needs of the quantization of
    a matrix; the threads of \<^verbatim>\<open>QuantThreads\<close> interpret it.  Shown: when the kernel returns on each row no assertion around it fails, the layout and the size
    of the result, every low-bit type gets importance data.

  \<^bold>\<open>Memory of tensors.\<close>

  \<^item> \<^verbatim>\<open>DynTallocr\<close> (\<^verbatim>\<open>ggml/src/ggml-alloc.c\<close>): the dynamic allocator of tensor memory, chunks with sorted arrays of free
    blocks.  The locale \<open>region_allocator\<close> is what a client needs of an allocator; the functions of the code interpret it.
    Shown: live tensors never overlap, memory that is given back joins up again, allocation succeeds while there is room.
  \<^item> \<^verbatim>\<open>GraphAlloc\<close> (\<^verbatim>\<open>ggml/src/ggml-alloc.c\<close>): the planner of a computation graph.  Tensors are numbers, \<open>ts\<close> maps them to the fields
    the code reads, the hash table is a function; of the operators only those that may work in place are told apart.  The invariant
    \<open>step_inv\<close> ties the counters to the uses that are still to come.  Shown: at every node the tensors that count lie apart.
  \<^item> \<^verbatim>\<open>GraphBuffers\<close> (\<^verbatim>\<open>ggml_gallocr_reserve_n\<close>, \<^verbatim>\<open>ggml_gallocr_alloc_graph\<close>, \<^verbatim>\<open>ggml_backend_tensor_alloc\<close>): buffers and data
    pointers.  The backend (sizes \<open>asize\<close>, alignment, buffers \<open>balloc\<close>) is a parameter; the properties assume (\<open>sizes_ok\<close>) that the size of a tensor is
    positive and a function of its layout, which excludes empty tensors and backends whose sizes depend on the operator (Metal).  Shown: the plan has
    the recorded place of every tensor, a reserved graph is allocated
    without a failed assertion, and data of tensors in use at the same time does not overlap.

  \<^bold>\<open>How the parts interact.\<close>  \<^verbatim>\<open>KvCache\<close> calls \<^verbatim>\<open>KvCells\<close> for every cell; \<open>init_batch\<close> calls the splits of
  \<^verbatim>\<open>Batch\<close> and then \<open>prepare\<close>, which places each micro-batch with \<open>find_slot\<close> and \<open>apply_ubatch\<close> and
  restores the cells; the recurrent memory takes its micro-batches from the same \<open>split_equal\<close>, and a pair of memories prepares
  the same micro-batches twice; the decode loop (\<^verbatim>\<open>KvRun\<close>) then applies the prepared slots one after the other, the graph
  reads the cells through the inputs of \<^verbatim>\<open>KvInputs\<close>, and its rows go through \<^verbatim>\<open>DecodeOutputs\<close>.  The quantizer decides a type (\<^verbatim>\<open>QuantPolicy\<close>), finds the importance data under
  the original name (\<^verbatim>\<open>QuantRemap\<close>), converts and quantizes (\<^verbatim>\<open>QuantTensor\<close>), and each matrix goes through
  the threads (\<^verbatim>\<open>QuantThreads\<close>), which call the row functions (\<^verbatim>\<open>GgmlValidate\<close>).  The planner of a graph (\<^verbatim>\<open>GraphAlloc\<close>) takes and
  gives back memory with the operations of \<^verbatim>\<open>DynTallocr\<close>, through the facts its locale provides; \<^verbatim>\<open>GraphBuffers\<close> turns the plan into
  buffers and pointers.

  \<^bold>\<open>Not modelled.\<close>  Floating-point kernels (quantization of a row, conversion to floats, compute backends,
  graphs): they are parameters, and what is needed of them (a row kernel fills the bytes of a row, a
  conversion works block by block) is a hypothesis.  Files, mappings and logging: input and output only.
  The state file of the recurrent memory (and so of the hybrid memory) and pooled embeddings are left out, as are the tokenizer,
  the grammar and sampling, which work beside the memories; the policy inference tools and the Python scripts
  are applications of the library.
\<close>

end
